(* ===== verification/Prelude.thy ===== *)
theory Prelude
  imports Main "HOL-Library.Word"
begin

text \<open>
  Shared vocabulary of the development: the C integer types of the Cortex-M4 target
  (32-bit \<open>size_t\<close>, \<open>UBaseType_t\<close>, \<open>TickType_t\<close>), the lemma collections the
  component theories fill, and generic facts about words and lists.
\<close>

unbundle bit_operations_syntax

type_synonym u8 = "8 word"
type_synonym u16 = "16 word"
type_synonym u32 = "32 word"

named_theorems list_laws \<open>effect of the list operations on the abstract contents of the lists\<close>
named_theorems ok_intros \<open>preservation of the well-formedness invariants\<close>

section \<open>Machine words\<close>

lemma unat_lt: "unat (x :: 'a::len word) < 2 ^ LENGTH('a)"
  by (rule unsigned_less)

lemma unat_u32: "unat (x :: u32) < 4294967296"
  using unat_lt [of x] by simp

lemma unat_add_small:
  fixes a b :: "'a::len word"
  assumes "unat a + unat b < 2 ^ LENGTH('a)"
  shows "unat (a + b) = unat a + unat b"
  using assms by (simp add: unat_word_ariths)

lemma unat_sub_le:
  fixes a b :: "'a::len word"
  assumes "unat b \<le> unat a"
  shows "unat (a - b) = unat a - unat b"
  using assms by (simp add: unat_sub word_le_nat_alt)

lemma unat_of_nat32: "n < 2 ^ 32 \<Longrightarrow> unat (of_nat n :: u32) = n"
  by (simp add: unat_of_nat)

lemma of_nat_unat32: "of_nat (unat (x :: u32)) = x"
  by (simp add: of_nat_unat)

lemma of_nat_eq32: "m < 2 ^ 32 \<Longrightarrow> n < 2 ^ 32 \<Longrightarrow> (of_nat m :: u32) = of_nat n \<longleftrightarrow> m = n"
  by (metis unat_of_nat32)

lemma of_nat_less32: "m < 2 ^ 32 \<Longrightarrow> n < 2 ^ 32 \<Longrightarrow> (of_nat m :: u32) < of_nat n \<longleftrightarrow> m < n"
  by (simp add: word_less_nat_alt unat_of_nat32)

lemma of_nat_le32: "m < 2 ^ 32 \<Longrightarrow> n < 2 ^ 32 \<Longrightarrow> (of_nat m :: u32) \<le> of_nat n \<longleftrightarrow> m \<le> n"
  by (simp add: word_le_nat_alt unat_of_nat32)

lemma of_nat_sub32: "n \<le> m \<Longrightarrow> (of_nat m :: u32) - of_nat n = of_nat (m - n)"
  by (simp add: of_nat_diff)

lemma unat_and_mask: "unat (w AND mask n :: 'a::len word) = unat w mod 2 ^ n"
  by (metis take_bit_eq_mask take_bit_eq_mod unsigned_take_bit_eq)

lemma unat_and_7: "unat (w AND 7 :: u32) = unat w mod 8"
  using unat_and_mask [of w 3] by (simp add: mask_numeral)

lemma and_7_of_nat: "m < 2 ^ 32 \<Longrightarrow> (of_nat m :: u32) AND 7 = of_nat (m mod 8)"
  by (metis unat_and_7 unat_of_nat32 of_nat_unat32)

lemma and_7_zero: "m < 2 ^ 32 \<Longrightarrow> (of_nat m :: u32) AND 7 = 0 \<longleftrightarrow> 8 dvd m"
  using of_nat_eq32 [of "m mod 8" 0] by (simp add: and_7_of_nat dvd_eq_mod_eq_0)

lemma and_not_7:
  assumes "m < 2 ^ 32"
  shows "(of_nat m :: u32) AND NOT 7 = of_nat (m div 8 * 8)"
proof -
  let ?x = "of_nat m :: u32"
  have "(?x AND NOT 7) AND (?x AND 7) = 0" by (simp add: ac_simps bit_simps)
  then have "(?x AND NOT 7) + (?x AND 7) = (?x AND NOT 7) OR (?x AND 7)"
    by (rule disjunctive_add_eq_or)
  also have "\<dots> = ?x" by (simp flip: bit.conj_disj_distrib)
  finally have "(?x AND NOT 7) = ?x - of_nat (m mod 8)"
    unfolding and_7_of_nat [OF assms] by (simp add: algebra_simps)
  also have "\<dots> = of_nat (m - m mod 8)" by (rule of_nat_sub32) simp
  finally show ?thesis by (simp add: minus_mod_eq_div_mult)
qed

lemma top_bit_clear: "unat (x :: u32) < 2 ^ 31 \<longleftrightarrow> x AND 0x80000000 = 0"
proof -
  have "x AND 2 ^ 31 = 0 \<longleftrightarrow> \<not> bit x 31" by (rule and_exp_eq_0_iff_not_bit)
  moreover have "bit x 31 \<longleftrightarrow> odd (unat x div 2 ^ 31)"
    by (metis bit_iff_odd bit_unsigned_iff order_less_irrefl possible_bit_nat bit_imp_possible_bit
        possible_bit_word)
  moreover have "unat x div 2 ^ 31 = 0 \<or> unat x div 2 ^ 31 = 1" using unat_u32 [of x] by auto
  ultimately show ?thesis by (auto simp: div_eq_0_iff)
qed

end
