(* ===== verification/Rtos_List.thy ===== *)
theory Rtos_List
  imports Prelude "HOL-Library.Monad_Syntax" "HOL-Library.Multiset"
begin

text \<open>
  The kernel's intrusive list, \<open>SDK/rtos/FreeRTOS/src/list.c\<close> and
  \<open>SDK/rtos/FreeRTOS/include/list.h\<close>: circular doubly linked lists of \<open>ListItem_t\<close>
  whose end marker is the \<open>MiniListItem_t\<close> inside the \<open>List_t\<close>.  The store maps item
  handles and list handles to their records; a pointer to a list item is either an item
  or the marker of a list.  \<open>items_of\<close> reads the contents off the pointers, and the
  locale \<open>list_interface\<close> states what every client relies on.
\<close>

section \<open>Data and store\<close>

type_synonym item_id = nat
type_synonym list_id = nat

datatype lptr = ItemP item_id | EndP list_id

record ListItem_t =
  xItemValue :: u32
  pxNext :: lptr
  pxPrevious :: lptr
  pvOwner :: nat
  pvContainer :: "list_id option"

record List_t =
  uxNumberOfItems :: u32
  pxIndex :: lptr
  end_xItemValue :: u32
  end_pxNext :: lptr
  end_pxPrevious :: lptr

record list_store =
  item_rec :: "item_id \<Rightarrow> ListItem_t"
  list_rec :: "list_id \<Rightarrow> List_t"

definition portMAX_DELAY :: u32 where
  "portMAX_DELAY = 0xFFFFFFFF"

primrec get_next :: "list_store \<Rightarrow> lptr \<Rightarrow> lptr" where
  "get_next st (ItemP i) = pxNext (item_rec st i)"
| "get_next st (EndP l) = end_pxNext (list_rec st l)"

primrec get_prev :: "list_store \<Rightarrow> lptr \<Rightarrow> lptr" where
  "get_prev st (ItemP i) = pxPrevious (item_rec st i)"
| "get_prev st (EndP l) = end_pxPrevious (list_rec st l)"

primrec get_value :: "list_store \<Rightarrow> lptr \<Rightarrow> u32" where
  "get_value st (ItemP i) = xItemValue (item_rec st i)"
| "get_value st (EndP l) = end_xItemValue (list_rec st l)"

primrec set_next :: "lptr \<Rightarrow> lptr \<Rightarrow> list_store \<Rightarrow> list_store" where
  "set_next (ItemP i) q st =
     st\<lparr>item_rec := (item_rec st)(i := (item_rec st i)\<lparr>pxNext := q\<rparr>)\<rparr>"
| "set_next (EndP l) q st =
     st\<lparr>list_rec := (list_rec st)(l := (list_rec st l)\<lparr>end_pxNext := q\<rparr>)\<rparr>"

primrec set_prev :: "lptr \<Rightarrow> lptr \<Rightarrow> list_store \<Rightarrow> list_store" where
  "set_prev (ItemP i) q st =
     st\<lparr>item_rec := (item_rec st)(i := (item_rec st i)\<lparr>pxPrevious := q\<rparr>)\<rparr>"
| "set_prev (EndP l) q st =
     st\<lparr>list_rec := (list_rec st)(l := (list_rec st l)\<lparr>end_pxPrevious := q\<rparr>)\<rparr>"

definition set_container :: "item_id \<Rightarrow> list_id option \<Rightarrow> list_store \<Rightarrow> list_store" where
  "set_container i c st =
     st\<lparr>item_rec := (item_rec st)(i := (item_rec st i)\<lparr>pvContainer := c\<rparr>)\<rparr>"

definition set_count :: "list_id \<Rightarrow> u32 \<Rightarrow> list_store \<Rightarrow> list_store" where
  "set_count l n st =
     st\<lparr>list_rec := (list_rec st)(l := (list_rec st l)\<lparr>uxNumberOfItems := n\<rparr>)\<rparr>"

definition set_index :: "list_id \<Rightarrow> lptr \<Rightarrow> list_store \<Rightarrow> list_store" where
  "set_index l p st =
     st\<lparr>list_rec := (list_rec st)(l := (list_rec st l)\<lparr>pxIndex := p\<rparr>)\<rparr>"

section \<open>The macros of list.h\<close>

definition listSET_LIST_ITEM_OWNER :: "item_id \<Rightarrow> nat \<Rightarrow> list_store \<Rightarrow> list_store" where
  "listSET_LIST_ITEM_OWNER i ow st =
     st\<lparr>item_rec := (item_rec st)(i := (item_rec st i)\<lparr>pvOwner := ow\<rparr>)\<rparr>"

definition listGET_LIST_ITEM_OWNER :: "list_store \<Rightarrow> item_id \<Rightarrow> nat" where
  "listGET_LIST_ITEM_OWNER st i = pvOwner (item_rec st i)"

definition listSET_LIST_ITEM_VALUE :: "item_id \<Rightarrow> u32 \<Rightarrow> list_store \<Rightarrow> list_store" where
  "listSET_LIST_ITEM_VALUE i v st =
     st\<lparr>item_rec := (item_rec st)(i := (item_rec st i)\<lparr>xItemValue := v\<rparr>)\<rparr>"

definition listGET_ITEM_VALUE_OF_HEAD_ENTRY :: "list_store \<Rightarrow> list_id \<Rightarrow> u32" where
  "listGET_ITEM_VALUE_OF_HEAD_ENTRY st l = get_value st (get_next st (EndP l))"

definition listGET_HEAD_ENTRY :: "list_store \<Rightarrow> list_id \<Rightarrow> lptr" where
  "listGET_HEAD_ENTRY st l = get_next st (EndP l)"

definition listLIST_IS_EMPTY :: "list_store \<Rightarrow> list_id \<Rightarrow> bool" where
  "listLIST_IS_EMPTY st l \<longleftrightarrow> uxNumberOfItems (list_rec st l) = 0"

definition listCURRENT_LIST_LENGTH :: "list_store \<Rightarrow> list_id \<Rightarrow> u32" where
  "listCURRENT_LIST_LENGTH st l = uxNumberOfItems (list_rec st l)"

definition listIS_CONTAINED_WITHIN :: "list_store \<Rightarrow> list_id \<Rightarrow> item_id \<Rightarrow> bool" where
  "listIS_CONTAINED_WITHIN st l i \<longleftrightarrow> pvContainer (item_rec st i) = Some l"

definition listLIST_ITEM_CONTAINER :: "list_store \<Rightarrow> item_id \<Rightarrow> list_id option" where
  "listLIST_ITEM_CONTAINER st i = pvContainer (item_rec st i)"

definition listLIST_IS_INITIALISED :: "list_store \<Rightarrow> list_id \<Rightarrow> bool" where
  "listLIST_IS_INITIALISED st l \<longleftrightarrow> end_xItemValue (list_rec st l) = portMAX_DELAY"

text \<open>
  A \<open>pvOwner\<close> read through the end marker would read past the \<open>MiniListItem_t\<close>: the
  model's \<open>None\<close>.
\<close>

definition listGET_OWNER_OF_HEAD_ENTRY :: "list_store \<Rightarrow> list_id \<Rightarrow> nat option" where
  "listGET_OWNER_OF_HEAD_ENTRY st l =
     (case get_next st (EndP l) of ItemP i \<Rightarrow> Some (pvOwner (item_rec st i)) | EndP _ \<Rightarrow> None)"

definition listGET_OWNER_OF_NEXT_ENTRY :: "list_id \<Rightarrow> list_store \<Rightarrow> nat option \<times> list_store" where
  "listGET_OWNER_OF_NEXT_ENTRY l st =
     (let st1 = set_index l (get_next st (pxIndex (list_rec st l))) st;
          st2 = (if pxIndex (list_rec st1 l) = EndP l
                 then set_index l (get_next st1 (pxIndex (list_rec st1 l))) st1 else st1)
      in (case pxIndex (list_rec st2 l) of
            ItemP i \<Rightarrow> Some (pvOwner (item_rec st2 i)) | EndP _ \<Rightarrow> None, st2))"

section \<open>The functions of list.c\<close>

definition vListInitialise :: "list_id \<Rightarrow> list_store \<Rightarrow> list_store" where
  "vListInitialise l st =
     st\<lparr>list_rec := (list_rec st)(l :=
          \<lparr>uxNumberOfItems = 0, pxIndex = EndP l, end_xItemValue = portMAX_DELAY,
           end_pxNext = EndP l, end_pxPrevious = EndP l\<rparr>)\<rparr>"

definition vListInitialiseItem :: "item_id \<Rightarrow> list_store \<Rightarrow> list_store" where
  "vListInitialiseItem i st = set_container i None st"

definition vListInsertEnd :: "list_id \<Rightarrow> item_id \<Rightarrow> list_store \<Rightarrow> list_store" where
  "vListInsertEnd l i st =
     (let idx = pxIndex (list_rec st l);
          st1 = set_next (ItemP i) idx st;
          st2 = set_prev (ItemP i) (get_prev st1 idx) st1;
          st3 = set_next (get_prev st2 idx) (ItemP i) st2;
          st4 = set_prev idx (ItemP i) st3;
          st5 = set_container i (Some l) st4
      in set_count l (uxNumberOfItems (list_rec st5 l) + 1) st5)"

text \<open>
  The search loop of \<open>vListInsert\<close>: from \<open>p\<close>, follow \<open>pxNext\<close> while the next item's
  value is at most the new one.  \<open>None\<close> is a loop that never stops.
\<close>

partial_function (option) find_insert_pos :: "list_store \<Rightarrow> u32 \<Rightarrow> lptr \<Rightarrow> lptr option" where
  "find_insert_pos st v p =
     (if get_value st (get_next st p) \<le> v then find_insert_pos st v (get_next st p) else Some p)"

declare find_insert_pos.simps [code]

definition vListInsert :: "list_id \<Rightarrow> item_id \<Rightarrow> list_store \<Rightarrow> list_store option" where
  "vListInsert l i st =
     (let v = xItemValue (item_rec st i) in
      do { it \<leftarrow> (if v = portMAX_DELAY then Some (get_prev st (EndP l))
                  else find_insert_pos st v (EndP l));
           let st1 = set_next (ItemP i) (get_next st it) st;
           let st2 = set_prev (get_next st1 (ItemP i)) (ItemP i) st1;
           let st3 = set_prev (ItemP i) it st2;
           let st4 = set_next it (ItemP i) st3;
           let st5 = set_container i (Some l) st4;
           Some (set_count l (uxNumberOfItems (list_rec st5 l) + 1) st5) })"

text \<open>\<open>None\<close>: the item is in no list, and \<open>pxList\<close> is the null pointer.\<close>

definition uxListRemove :: "item_id \<Rightarrow> list_store \<Rightarrow> (u32 \<times> list_store) option" where
  "uxListRemove i st =
     (case pvContainer (item_rec st i) of
        None \<Rightarrow> None
      | Some l \<Rightarrow>
         (let st1 = set_prev (get_next st (ItemP i)) (get_prev st (ItemP i)) st;
              st2 = set_next (get_prev st1 (ItemP i)) (get_next st1 (ItemP i)) st1;
              st3 = (if pxIndex (list_rec st2 l) = ItemP i
                     then set_index l (get_prev st2 (ItemP i)) st2 else st2);
              st4 = set_container i None st3;
              st5 = set_count l (uxNumberOfItems (list_rec st4 l) - 1) st4
          in Some (uxNumberOfItems (list_rec st5 l), st5)))"

text \<open>
  \<open>vListInsertGeneric\<close> of \<open>FreeRTOS_TCP_WIN.c\<close>, which the TCP window code calls (through
  \<open>vListInsertFifo\<close>) with the list's own end marker.
\<close>

definition vListInsertGeneric :: "list_id \<Rightarrow> item_id \<Rightarrow> lptr \<Rightarrow> list_store \<Rightarrow> list_store" where
  "vListInsertGeneric l i wher st =
     (let st1 = set_next (ItemP i) wher st;
          st2 = set_prev (ItemP i) (get_prev st1 wher) st1;
          st3 = set_next (get_prev st2 wher) (ItemP i) st2;
          st4 = set_prev wher (ItemP i) st3;
          st5 = set_container i (Some l) st4
      in set_count l (uxNumberOfItems (list_rec st5 l) + 1) st5)"

definition vListInsertFifo :: "list_id \<Rightarrow> item_id \<Rightarrow> list_store \<Rightarrow> list_store" where
  "vListInsertFifo l i st = vListInsertGeneric l i (EndP l) st"

section \<open>Field algebra of the store\<close>

lemma get_set [simp]:
  "get_next (set_next p q st) = (get_next st)(p := q)"
  "get_prev (set_prev p q st) = (get_prev st)(p := q)"
  "get_next (set_prev p q st) = get_next st"
  "get_prev (set_next p q st) = get_prev st"
  "get_next (set_container i c st) = get_next st"
  "get_prev (set_container i c st) = get_prev st"
  "get_next (set_count l n st) = get_next st"
  "get_prev (set_count l n st) = get_prev st"
  "get_next (set_index l p st) = get_next st"
  "get_prev (set_index l p st) = get_prev st"
  by (rule ext, rename_tac r, case_tac r; cases p;
      simp add: set_container_def set_count_def set_index_def)+

lemma get_value_set [simp]:
  "get_value (set_next p q st) = get_value st"
  "get_value (set_prev p q st) = get_value st"
  "get_value (set_container i c st) = get_value st"
  "get_value (set_count l n st) = get_value st"
  "get_value (set_index l p' st) = get_value st"
  by (rule ext, rename_tac r, case_tac r; cases p;
      simp add: set_container_def set_count_def set_index_def)+

lemma container_set [simp]:
  "pvContainer (item_rec (set_next p q st) k) = pvContainer (item_rec st k)"
  "pvContainer (item_rec (set_prev p q st) k) = pvContainer (item_rec st k)"
  "pvContainer (item_rec (set_container i c st) k) =
     (if k = i then c else pvContainer (item_rec st k))"
  "item_rec (set_count l n st) = item_rec st"
  "item_rec (set_index l p' st) = item_rec st"
  by (cases p; simp add: set_container_def set_count_def set_index_def)+

lemma owner_set [simp]:
  "pvOwner (item_rec (set_next p q st) k) = pvOwner (item_rec st k)"
  "pvOwner (item_rec (set_prev p q st) k) = pvOwner (item_rec st k)"
  "pvOwner (item_rec (set_container i c st) k) = pvOwner (item_rec st k)"
  "xItemValue (item_rec (set_next p q st) k) = xItemValue (item_rec st k)"
  "xItemValue (item_rec (set_prev p q st) k) = xItemValue (item_rec st k)"
  "xItemValue (item_rec (set_container i c st) k) = xItemValue (item_rec st k)"
  by (cases p; simp add: set_container_def)+

lemma count_set [simp]:
  "uxNumberOfItems (list_rec (set_next p q st) l) = uxNumberOfItems (list_rec st l)"
  "uxNumberOfItems (list_rec (set_prev p q st) l) = uxNumberOfItems (list_rec st l)"
  "list_rec (set_container i c st) = list_rec st"
  "uxNumberOfItems (list_rec (set_count k n st) l) =
     (if l = k then n else uxNumberOfItems (list_rec st l))"
  "uxNumberOfItems (list_rec (set_index k p' st) l) = uxNumberOfItems (list_rec st l)"
  by (cases p; simp add: set_container_def set_count_def set_index_def)+

lemma index_set [simp]:
  "pxIndex (list_rec (set_next p q st) l) = pxIndex (list_rec st l)"
  "pxIndex (list_rec (set_prev p q st) l) = pxIndex (list_rec st l)"
  "pxIndex (list_rec (set_count k n st) l) = pxIndex (list_rec st l)"
  "pxIndex (list_rec (set_index k p' st) l) = (if l = k then p' else pxIndex (list_rec st l))"
  "end_xItemValue (list_rec (set_next p q st) l) = end_xItemValue (list_rec st l)"
  "end_xItemValue (list_rec (set_prev p q st) l) = end_xItemValue (list_rec st l)"
  "end_xItemValue (list_rec (set_count k n st) l) = end_xItemValue (list_rec st l)"
  "end_xItemValue (list_rec (set_index k p' st) l) = end_xItemValue (list_rec st l)"
  by (cases p; simp add: set_count_def set_index_def)+

declare get_next.simps [simp del] get_prev.simps [simp del] get_value.simps [simp del]
  set_next.simps [simp del] set_prev.simps [simp del]

section \<open>Doubly linked segments\<close>

text \<open>
  \<open>linked nx pv p qs r\<close>: following \<open>nx\<close> from \<open>p\<close> visits \<open>qs\<close> and arrives at \<open>r\<close>, and
  \<open>pv\<close> leads all the way back.  A list is a segment from its end marker to its end marker.
\<close>

primrec linked :: "(lptr \<Rightarrow> lptr) \<Rightarrow> (lptr \<Rightarrow> lptr) \<Rightarrow> lptr \<Rightarrow> lptr list \<Rightarrow> lptr \<Rightarrow> bool" where
  "linked nx pv p [] r \<longleftrightarrow> nx p = r \<and> pv r = p"
| "linked nx pv p (q # qs) r \<longleftrightarrow> nx p = q \<and> pv q = p \<and> linked nx pv q qs r"

lemma linked_frame:
  assumes "\<And>x. x \<in> set (p # qs) \<Longrightarrow> nx' x = nx x"
    and "\<And>x. x \<in> set (qs @ [r]) \<Longrightarrow> pv' x = pv x"
  shows "linked nx' pv' p qs r = linked nx pv p qs r"
  using assms by (induction qs arbitrary: p) auto

lemma linked_insert:
  assumes "linked nx pv p (as @ bs) r"
    and "distinct (p # as @ bs)" "distinct (as @ bs @ [r])"
    and "n \<noteq> p" "n \<notin> set (as @ bs @ [r])"
  shows "linked (nx(last (p # as) := n, n := hd (bs @ [r])))
                (pv(n := last (p # as), hd (bs @ [r]) := n)) p (as @ n # bs) r"
  using assms
proof (induction as arbitrary: p)
  case Nil
  show ?case
  proof (cases bs)
    case Nil
    then show ?thesis using Nil.prems by auto
  next
    case (Cons b cs)
    have "linked (nx(p := n, n := b)) (pv(n := p, b := n)) b cs r = linked nx pv b cs r"
      using Nil.prems Cons by (intro linked_frame) auto
    then have "linked (nx(p := n, n := b)) (pv(n := p, b := n)) b cs r"
      using Nil.prems Cons by (simp only: append_Nil linked.simps append_Cons)
    then show ?thesis using Nil.prems Cons
      by (simp only: append_Nil append_Cons linked.simps list.sel last.simps if_True)
         (auto simp del: fun_upd_apply simp: fun_upd_same fun_upd_other)
  qed
next
  case (Cons a as)
  have h: "hd (bs @ [r]) \<in> set (bs @ [r])" by (cases bs) auto
  have l: "last (a # as) \<in> set (a # as)" by (rule last_in_set) simp
  have "linked (nx(last (a # as) := n, n := hd (bs @ [r])))
               (pv(n := last (a # as), hd (bs @ [r]) := n)) a (as @ n # bs) r"
    using Cons.prems by (intro Cons.IH) auto
  moreover have "p \<noteq> last (a # as)" "p \<noteq> n" "a \<noteq> n" "a \<noteq> hd (bs @ [r])"
    using Cons.prems h l by auto
  moreover have "nx p = a" "pv a = p" using Cons.prems by auto
  moreover have e: "last (p # a # as) = last (a # as)" by simp
  ultimately show ?case
    unfolding e append_Cons linked.simps by (simp only: fun_upd_other simp_thms)
qed

lemma linked_delete:
  assumes "linked nx pv p (as @ i # bs) r"
    and "distinct (p # as @ i # bs)" "distinct (as @ i # bs @ [r])"
  shows "linked (nx(last (p # as) := hd (bs @ [r]))) (pv(hd (bs @ [r]) := last (p # as)))
           p (as @ bs) r"
    and "nx i = hd (bs @ [r])" and "pv i = last (p # as)"
proof -
  show "linked (nx(last (p # as) := hd (bs @ [r]))) (pv(hd (bs @ [r]) := last (p # as)))
           p (as @ bs) r"
    using assms
  proof (induction as arbitrary: p)
    case Nil
    show ?case
    proof (cases bs)
      case Nil
      then show ?thesis using Nil.prems by auto
    next
      case (Cons b cs)
      have "linked (nx(p := b)) (pv(b := p)) b cs r = linked nx pv b cs r"
        using Nil.prems Cons by (intro linked_frame) auto
      then have "linked (nx(p := b)) (pv(b := p)) b cs r"
        using Nil.prems Cons by (simp only: append_Nil linked.simps append_Cons)
      then show ?thesis using Nil.prems Cons
        by (simp only: append_Nil append_Cons linked.simps list.sel last.simps if_True)
           (auto simp del: fun_upd_apply simp: fun_upd_same fun_upd_other)
    qed
  next
    case (Cons a as)
    have h: "hd (bs @ [r]) \<in> set (bs @ [r])" by (cases bs) auto
    have l: "last (a # as) \<in> set (a # as)" by (rule last_in_set) simp
    have "linked (nx(last (a # as) := hd (bs @ [r]))) (pv(hd (bs @ [r]) := last (a # as)))
           a (as @ bs) r"
      using Cons.prems by (intro Cons.IH) auto
    moreover have "p \<noteq> last (a # as)" "a \<noteq> hd (bs @ [r])"
      using Cons.prems h l by auto
    moreover have "nx p = a" "pv a = p" using Cons.prems by auto
    moreover have e: "last (p # a # as) = last (a # as)" by simp
    ultimately show ?case
      unfolding e append_Cons linked.simps by (simp only: fun_upd_other simp_thms)
  qed
  show "nx i = hd (bs @ [r])"
    using assms(1) by (induction as arbitrary: p; cases bs) auto
  show "pv i = last (p # as)"
    using assms(1) by (induction as arbitrary: p) auto
qed

lemma linked_hd: "linked nx pv p qs r \<Longrightarrow> nx p = hd (qs @ [r])"
  by (cases qs) auto

lemma linked_last: "linked nx pv p qs r \<Longrightarrow> pv r = last (p # qs)"
  by (induction qs arbitrary: p) auto

section \<open>Contents and well-formedness of lists\<close>

primrec walk :: "list_store \<Rightarrow> nat \<Rightarrow> lptr \<Rightarrow> item_id list" where
  "walk st 0 p = []"
| "walk st (Suc n) p = (case p of ItemP i \<Rightarrow> i # walk st n (get_next st p) | EndP _ \<Rightarrow> [])"

definition items_of :: "list_store \<Rightarrow> list_id \<Rightarrow> item_id list" where
  "items_of st l = walk st (unat (uxNumberOfItems (list_rec st l))) (get_next st (EndP l))"

definition nodes :: "list_id \<Rightarrow> item_id list \<Rightarrow> lptr set" where
  "nodes l xs = insert (EndP l) (ItemP ` set xs)"

definition list_at :: "list_store \<Rightarrow> list_id \<Rightarrow> item_id list \<Rightarrow> bool" where
  "list_at st l xs \<longleftrightarrow>
     linked (get_next st) (get_prev st) (EndP l) (map ItemP xs) (EndP l) \<and>
     distinct xs \<and> length xs < 2 ^ 32 \<and>
     uxNumberOfItems (list_rec st l) = of_nat (length xs) \<and>
     end_xItemValue (list_rec st l) = portMAX_DELAY \<and>
     pxIndex (list_rec st l) \<in> nodes l xs \<and>
     (\<forall>i\<in>set xs. pvContainer (item_rec st i) = Some l)"

text \<open>
  A store is well formed for the initialised lists \<open>L\<close>: each is a proper ring, and an item
  has a container exactly when it is linked into that list.
\<close>

definition lists_ok :: "list_id set \<Rightarrow> list_store \<Rightarrow> bool" where
  "lists_ok L st \<longleftrightarrow>
     (\<forall>l\<in>L. list_at st l (items_of st l)) \<and>
     (\<forall>i l. pvContainer (item_rec st i) = Some l \<longrightarrow> l \<in> L \<and> i \<in> set (items_of st l))"

lemma in_nodes [simp]:
  "EndP l' \<in> nodes l xs \<longleftrightarrow> l' = l" "ItemP i \<in> nodes l xs \<longleftrightarrow> i \<in> set xs"
  by (auto simp: nodes_def)

lemma inj_ItemP [simp]: "inj ItemP" "inj_on ItemP A"
  by (auto simp: inj_def inj_on_def)

lemma walk_linked:
  "linked (get_next st) pv p (map ItemP xs) r \<Longrightarrow> walk st (length xs) (get_next st p) = xs"
  by (induction xs arbitrary: p) auto

lemma items_of_list_at: "list_at st l xs \<Longrightarrow> items_of st l = xs"
  by (auto simp: list_at_def items_of_def unat_of_nat walk_linked)

lemma lists_ok_at: "lists_ok L st \<Longrightarrow> l \<in> L \<Longrightarrow> list_at st l (items_of st l)"
  by (simp add: lists_ok_def)

lemma list_at_count:
  "list_at st l xs \<Longrightarrow> unat (uxNumberOfItems (list_rec st l)) = length xs"
  by (simp add: list_at_def unat_of_nat)

lemma lists_ok_container:
  assumes "lists_ok L st" "l \<in> L"
  shows "pvContainer (item_rec st i) = Some l \<longleftrightarrow> i \<in> set (items_of st l)"
proof
  assume "pvContainer (item_rec st i) = Some l"
  then show "i \<in> set (items_of st l)" using assms(1) unfolding lists_ok_def by blast
next
  assume "i \<in> set (items_of st l)"
  then show "pvContainer (item_rec st i) = Some l"
    using lists_ok_at [OF assms] by (simp add: list_at_def)
qed

lemma lists_ok_no_container:
  "lists_ok L st \<Longrightarrow> pvContainer (item_rec st i) = None \<longleftrightarrow> (\<forall>l\<in>L. i \<notin> set (items_of st l))"
  by (metis lists_ok_container lists_ok_def not_Some_eq)

lemma lists_ok_disjoint:
  "lists_ok L st \<Longrightarrow> l \<in> L \<Longrightarrow> l' \<in> L \<Longrightarrow> i \<in> set (items_of st l) \<Longrightarrow> i \<in> set (items_of st l')
     \<Longrightarrow> l = l'"
  by (metis lists_ok_container option.inject)

lemma list_at_frame:
  assumes "list_at st l xs"
    and "\<And>p. p \<in> nodes l xs \<Longrightarrow> get_next st' p = get_next st p \<and> get_prev st' p = get_prev st p"
    and "uxNumberOfItems (list_rec st' l) = uxNumberOfItems (list_rec st l)"
    and "pxIndex (list_rec st' l) = pxIndex (list_rec st l)"
    and "end_xItemValue (list_rec st' l) = end_xItemValue (list_rec st l)"
    and "\<And>i. i \<in> set xs \<Longrightarrow> pvContainer (item_rec st' i) = pvContainer (item_rec st i)"
  shows "list_at st' l xs"
proof -
  have "linked (get_next st') (get_prev st') (EndP l) (map ItemP xs) (EndP l)
      = linked (get_next st) (get_prev st) (EndP l) (map ItemP xs) (EndP l)"
    using assms(2) by (intro linked_frame) auto
  then show ?thesis using assms by (simp add: list_at_def)
qed

text \<open>One list of a well-formed store is changed, the others are out of its reach.\<close>

lemma lists_ok_update:
  assumes ok: "lists_ok L st" and l: "l \<in> L" and at: "list_at st' l xs'"
    and fr: "\<And>p. p \<notin> nodes l (xs' @ items_of st l) \<Longrightarrow>
               get_next st' p = get_next st p \<and> get_prev st' p = get_prev st p"
    and rec: "\<And>l'. l' \<noteq> l \<Longrightarrow>
               uxNumberOfItems (list_rec st' l') = uxNumberOfItems (list_rec st l') \<and>
               pxIndex (list_rec st' l') = pxIndex (list_rec st l') \<and>
               end_xItemValue (list_rec st' l') = end_xItemValue (list_rec st l')"
    and cont: "\<And>k. pvContainer (item_rec st' k) =
               (if k \<in> set xs' then Some l
                else if pvContainer (item_rec st k) = Some l then None
                else pvContainer (item_rec st k))"
    and new: "\<And>k. k \<in> set xs' \<Longrightarrow> pvContainer (item_rec st k) \<in> {None, Some l}"
  shows "lists_ok L st'"
    and "\<And>l'. l' \<in> L \<Longrightarrow> items_of st' l' = (if l' = l then xs' else items_of st l')"
proof -
  have other: "list_at st' l' (items_of st l')" if l': "l' \<in> L" "l' \<noteq> l" for l'
  proof (rule list_at_frame [OF lists_ok_at [OF ok l'(1)]])
    have disj: "k \<notin> set xs'" "k \<notin> set (items_of st l)" if "k \<in> set (items_of st l')" for k
      using that new [of k] lists_ok_container [OF ok l'(1), of k] lists_ok_container [OF ok l, of k] l'(2)
      by auto
    show "get_next st' p = get_next st p \<and> get_prev st' p = get_prev st p"
      if "p \<in> nodes l' (items_of st l')" for p
      using that disj l'(2) by (intro fr) (auto simp: nodes_def)
    show "pvContainer (item_rec st' i) = pvContainer (item_rec st i)"
      if "i \<in> set (items_of st l')" for i
      using that disj [OF that] cont [of i] lists_ok_container [OF ok l'(1), of i] l'(2) by auto
  qed (use rec [OF l'(2)] in auto)
  show items: "items_of st' l' = (if l' = l then xs' else items_of st l')" if "l' \<in> L" for l'
    using that at other items_of_list_at by auto
  show "lists_ok L st'"
    unfolding lists_ok_def
  proof (intro conjI ballI allI impI)
    show "list_at st' l' (items_of st' l')" if "l' \<in> L" for l'
      using that at other items by auto
  next
    fix i l' assume c: "pvContainer (item_rec st' i) = Some l'"
    show "l' \<in> L" using c cont [of i] ok l by (auto simp: lists_ok_def split: if_splits)
    then show "i \<in> set (items_of st' l')"
      using c cont [of i] items [of l'] lists_ok_container [OF ok, of l' i]
      by (auto split: if_splits)
  qed
qed

section \<open>Insertion\<close>

lemma list_at_linked:
  "list_at st l (as @ bs) \<Longrightarrow>
     linked (get_next st) (get_prev st) (EndP l) (map ItemP as @ map ItemP bs) (EndP l)"
  by (simp add: list_at_def)

lemma linked_edge:
  "linked nx pv p (as @ bs) r \<Longrightarrow> pv (hd (bs @ [r])) = last (p # as) \<and> nx (last (p # as)) = hd (bs @ [r])"
  by (induction as arbitrary: p; cases bs) auto

lemma insert_core:
  assumes ok: "lists_ok L st" and l: "l \<in> L" and xs: "items_of st l = as @ bs"
    and i: "pvContainer (item_rec st i) = None" and len: "length (as @ bs) < 2 ^ 32 - 1"
    and nx: "get_next st' = (get_next st)(last (EndP l # map ItemP as) := ItemP i,
               ItemP i := hd (map ItemP bs @ [EndP l]))"
    and pv: "get_prev st' = (get_prev st)(ItemP i := last (EndP l # map ItemP as),
               hd (map ItemP bs @ [EndP l]) := ItemP i)"
    and cont: "\<And>k. pvContainer (item_rec st' k)
                 = (if k = i then Some l else pvContainer (item_rec st k))"
    and cnt: "\<And>k. uxNumberOfItems (list_rec st' k)
                 = uxNumberOfItems (list_rec st k) + (if k = l then 1 else 0)"
    and idx: "\<And>k. pxIndex (list_rec st' k) = pxIndex (list_rec st k)"
    and val: "\<And>k. end_xItemValue (list_rec st' k) = end_xItemValue (list_rec st k)"
  shows "lists_ok L st'"
    and "\<And>l'. l' \<in> L \<Longrightarrow> items_of st' l' = (if l' = l then as @ i # bs else items_of st l')"
proof -
  have at: "list_at st l (as @ bs)" using lists_ok_at [OF ok l] xs by simp
  have iout: "i \<notin> set (as @ bs)" using lists_ok_container [OF ok l, of i] i xs by simp
  have ends: "last (EndP l # map ItemP as) \<in> nodes l as" "hd (map ItemP bs @ [EndP l]) \<in> nodes l bs"
    by (cases as rule: rev_cases; simp) (cases bs; simp)
  have "linked (get_next st') (get_prev st') (EndP l) (map ItemP as @ ItemP i # map ItemP bs) (EndP l)"
    unfolding nx pv
    using at iout by (intro linked_insert list_at_linked) (auto simp: list_at_def distinct_map)
  then have at': "list_at st' l (as @ i # bs)"
    using at iout len cnt idx val cont by (auto simp: list_at_def nodes_def add.commute)
  have fr: "get_next st' p = get_next st p \<and> get_prev st' p = get_prev st p"
    if "p \<notin> nodes l ((as @ i # bs) @ items_of st l)" for p
    using that ends unfolding nx pv by (auto simp: nodes_def)
  have cont': "pvContainer (item_rec st' k) =
      (if k \<in> set (as @ i # bs) then Some l
       else if pvContainer (item_rec st k) = Some l then None
       else pvContainer (item_rec st k))" for k
    using cont [of k] lists_ok_container [OF ok l, of k] xs by auto
  have new: "pvContainer (item_rec st k) \<in> {None, Some l}" if "k \<in> set (as @ i # bs)" for k
    using that i lists_ok_container [OF ok l, of k] xs by auto
  note upd = lists_ok_update [OF ok l at' fr _ cont' new]
  show "lists_ok L st'" using cnt idx val by (intro upd(1)) auto
  show "items_of st' l' = (if l' = l then as @ i # bs else items_of st l')" if "l' \<in> L" for l'
    using cnt idx val that by (intro upd(2)) auto
qed

text \<open>Insertion before \<open>wher\<close>, the marker or an item of the list.\<close>

lemma vListInsertGeneric_splice:
  assumes ok: "lists_ok L st" and l: "l \<in> L" and xs: "items_of st l = as @ bs"
    and w: "wher = hd (map ItemP bs @ [EndP l])"
    and i: "pvContainer (item_rec st i) = None" and len: "length (as @ bs) < 2 ^ 32 - 1"
  shows "lists_ok L (vListInsertGeneric l i wher st)"
    and "\<And>l'. l' \<in> L \<Longrightarrow> items_of (vListInsertGeneric l i wher st) l'
                = (if l' = l then as @ i # bs else items_of st l')"
proof -
  have at: "list_at st l (as @ bs)" using lists_ok_at [OF ok l] xs by simp
  have iout: "i \<notin> set (as @ bs)" using lists_ok_container [OF ok l, of i] i xs by simp
  then have wi: "wher \<noteq> ItemP i" unfolding w by (cases bs) auto
  have pw: "get_prev st wher = last (EndP l # map ItemP as)"
    unfolding w using linked_edge [OF list_at_linked [OF at]] by simp
  have li: "last (EndP l # map ItemP as) \<noteq> ItemP i"
    using iout by (cases as rule: rev_cases) auto
  let ?st = "vListInsertGeneric l i wher st"
  have nx: "get_next ?st = (get_next st)(last (EndP l # map ItemP as) := ItemP i, ItemP i := wher)"
    using wi pw li by (simp add: vListInsertGeneric_def Let_def fun_upd_twist del: last.simps)
  have pv: "get_prev ?st = (get_prev st)(ItemP i := last (EndP l # map ItemP as), wher := ItemP i)"
    using wi pw by (simp add: vListInsertGeneric_def Let_def del: last.simps)
  note core = insert_core [OF ok l xs i len nx [unfolded w] pv [unfolded w], folded w]
  show "lists_ok L ?st"
    by (rule core) (simp_all add: vListInsertGeneric_def Let_def)
  show "items_of ?st l' = (if l' = l then as @ i # bs else items_of st l')" if "l' \<in> L" for l'
    using that by (intro core) (simp_all add: vListInsertGeneric_def Let_def)
qed

lemma vListInsertFifo_items:
  assumes "lists_ok L st" "l \<in> L" "pvContainer (item_rec st i) = None"
    and "length (items_of st l) < 2 ^ 32 - 1"
  shows "lists_ok L (vListInsertFifo l i st)"
    and "\<And>l'. l' \<in> L \<Longrightarrow> items_of (vListInsertFifo l i st) l'
                = (if l' = l then items_of st l @ [i] else items_of st l')"
  using vListInsertGeneric_splice [OF assms(1,2), of "items_of st l" "[]" "EndP l" i] assms
  by (simp_all add: vListInsertFifo_def)

lemma vListInsertEnd_Generic:
  "vListInsertEnd l i st = vListInsertGeneric l i (pxIndex (list_rec st l)) st"
  by (simp add: vListInsertEnd_def vListInsertGeneric_def Let_def)

lemma list_at_index_split:
  assumes "list_at st l xs"
  obtains as bs where "xs = as @ bs" "pxIndex (list_rec st l) = hd (map ItemP bs @ [EndP l])"
proof (cases "pxIndex (list_rec st l) = EndP l")
  case True
  then show ?thesis using that [of xs "[]"] by simp
next
  case False
  then obtain x where x: "pxIndex (list_rec st l) = ItemP x" "x \<in> set xs"
    using assms by (auto simp: list_at_def nodes_def)
  then obtain as bs where "xs = as @ x # bs" by (meson split_list)
  then show ?thesis using that [of as "x # bs"] x by simp
qed

lemma vListInsertEnd_splice:
  assumes ok: "lists_ok L st" and l: "l \<in> L" and xs: "items_of st l = as @ bs"
    and w: "pxIndex (list_rec st l) = hd (map ItemP bs @ [EndP l])"
    and i: "pvContainer (item_rec st i) = None" and len: "length (as @ bs) < 2 ^ 32 - 1"
  shows "lists_ok L (vListInsertEnd l i st)"
    and "\<And>l'. l' \<in> L \<Longrightarrow> items_of (vListInsertEnd l i st) l'
                = (if l' = l then as @ i # bs else items_of st l')"
  using vListInsertGeneric_splice [OF ok l xs w i len] by (simp_all add: vListInsertEnd_Generic)

lemma vListInsertEnd_set:
  assumes ok: "lists_ok L st" and l: "l \<in> L"
    and i: "pvContainer (item_rec st i) = None" and len: "length (items_of st l) < 2 ^ 32 - 1"
  shows "lists_ok L (vListInsertEnd l i st)"
    and "\<And>l'. l' \<in> L \<Longrightarrow> mset (items_of (vListInsertEnd l i st) l')
                = mset (items_of st l') + (if l' = l then {#i#} else {#})"
proof -
  obtain as bs where s: "items_of st l = as @ bs"
    "pxIndex (list_rec st l) = hd (map ItemP bs @ [EndP l])"
    using list_at_index_split [OF lists_ok_at [OF ok l]] by metis
  note splice = vListInsertEnd_splice [OF ok l s i] len
  show "lists_ok L (vListInsertEnd l i st)" using splice s(1) by simp
  show "mset (items_of (vListInsertEnd l i st) l')
                = mset (items_of st l') + (if l' = l then {#i#} else {#})" if "l' \<in> L" for l'
    using splice s(1) that by simp
qed

lemma vListInsertEnd_fields [simp]:
  "xItemValue (item_rec (vListInsertEnd l i st) k) = xItemValue (item_rec st k)"
  "pvOwner (item_rec (vListInsertEnd l i st) k) = pvOwner (item_rec st k)"
  "pvContainer (item_rec (vListInsertEnd l i st) k)
     = (if k = i then Some l else pvContainer (item_rec st k))"
  by (simp_all add: vListInsertEnd_def Let_def)

lemma vListInsertFifo_fields [simp]:
  "xItemValue (item_rec (vListInsertFifo l i st) k) = xItemValue (item_rec st k)"
  "pvOwner (item_rec (vListInsertFifo l i st) k) = pvOwner (item_rec st k)"
  "pvContainer (item_rec (vListInsertFifo l i st) k)
     = (if k = i then Some l else pvContainer (item_rec st k))"
  by (simp_all add: vListInsertFifo_def vListInsertGeneric_def Let_def)

subsection \<open>Sorted insertion\<close>

abbreviation ivalue :: "list_store \<Rightarrow> item_id \<Rightarrow> u32" where
  "ivalue st i \<equiv> xItemValue (item_rec st i)"

lemma le_portMAX_DELAY [simp]: "v \<le> portMAX_DELAY"
  using unat_u32 [of v] by (simp add: portMAX_DELAY_def word_le_nat_alt)

lemma find_insert_pos_linked:
  assumes "linked (get_next st) pv p (map ItemP xs) (EndP l)"
    and "get_value st (EndP l) = portMAX_DELAY" and "v \<noteq> portMAX_DELAY"
  shows "find_insert_pos st v p
           = Some (last (p # map ItemP (takeWhile (\<lambda>x. ivalue st x \<le> v) xs)))"
  using assms(1)
proof (induction xs arbitrary: p)
  case Nil
  have "\<not> portMAX_DELAY \<le> v"
    using assms(3) le_portMAX_DELAY [of v] by (meson order_antisym)
  then show ?case using Nil assms(2) by (subst find_insert_pos.simps) simp
next
  case (Cons x xs)
  then show ?case by (subst find_insert_pos.simps) (auto simp: get_value.simps)
qed

definition sorted_insert :: "list_store \<Rightarrow> item_id \<Rightarrow> item_id list \<Rightarrow> item_id list" where
  "sorted_insert st i xs =
     takeWhile (\<lambda>x. ivalue st x \<le> ivalue st i) xs @ i # dropWhile (\<lambda>x. ivalue st x \<le> ivalue st i) xs"

lemma sorted_sorted_insert:
  assumes "sorted (map (ivalue st) xs)"
  shows "sorted (map (ivalue st) (sorted_insert st i xs))"
  using assms
proof (induction xs)
  case Nil
  then show ?case by (simp add: sorted_insert_def)
next
  case (Cons x xs)
  have sub: "set (sorted_insert st i xs) = insert i (set xs)" for i xs
    unfolding sorted_insert_def by (metis Un_insert_right list.simps(15) set_append takeWhile_dropWhile_id)
  show ?case
  proof (cases "ivalue st x \<le> ivalue st i")
    case True
    then have "sorted_insert st i (x # xs) = x # sorted_insert st i xs"
      by (simp add: sorted_insert_def)
    then show ?thesis using Cons True sub by auto
  next
    case False
    then show ?thesis using Cons.prems by (auto simp: sorted_insert_def)
  qed
qed

lemma vListInsert_items:
  assumes ok: "lists_ok L st" and l: "l \<in> L"
    and i: "pvContainer (item_rec st i) = None" and len: "length (items_of st l) < 2 ^ 32 - 1"
  obtains st' where "vListInsert l i st = Some st'" "lists_ok L st'"
    and "\<And>l'. l' \<in> L \<Longrightarrow> items_of st' l'
                = (if l' = l then sorted_insert st i (items_of st l) else items_of st l')"
    and "\<And>k. ivalue st' k = ivalue st k"
    and "\<And>k. pvOwner (item_rec st' k) = pvOwner (item_rec st k)"
    and "\<And>k. pvContainer (item_rec st' k) = (if k = i then Some l else pvContainer (item_rec st k))"
proof -
  let ?v = "ivalue st i"
  define as bs where "as = takeWhile (\<lambda>x. ivalue st x \<le> ?v) (items_of st l)"
    and "bs = dropWhile (\<lambda>x. ivalue st x \<le> ?v) (items_of st l)"
  have xs: "items_of st l = as @ bs" by (simp add: as_def bs_def)
  have at: "list_at st l (as @ bs)" using lists_ok_at [OF ok l] xs by simp
  note lk = list_at_linked [OF at]
  have iout: "i \<notin> set (as @ bs)" using lists_ok_container [OF ok l, of i] i xs by simp
  define it where "it = last (EndP l # map ItemP as)"
  have itp: "(if ?v = portMAX_DELAY then Some (get_prev st (EndP l))
              else find_insert_pos st ?v (EndP l)) = Some it"
  proof (cases "?v = portMAX_DELAY")
    case True
    then have "as = items_of st l"
      by (simp add: as_def takeWhile_eq_all_conv)
    then show ?thesis using True linked_last [OF lk] xs by (simp add: it_def)
  next
    case False
    have "find_insert_pos st ?v (EndP l) = Some it"
      unfolding it_def as_def using lists_ok_at [OF ok l] False
      by (intro find_insert_pos_linked) (auto simp: list_at_def get_value.simps)
    then show ?thesis using False by simp
  qed
  have it_i: "it \<noteq> ItemP i"
    unfolding it_def using iout by (cases as rule: rev_cases) auto
  have nit: "get_next st it = hd (map ItemP bs @ [EndP l])"
    unfolding it_def using linked_edge [OF lk] by simp
  have h_i: "hd (map ItemP bs @ [EndP l]) \<noteq> ItemP i" using iout by (cases bs) auto
  define st' where "st' = the (vListInsert l i st)"
  have ins: "vListInsert l i st = Some st'" by (simp add: vListInsert_def Let_def itp st'_def)
  have nx: "get_next st' = (get_next st)(it := ItemP i, ItemP i := hd (map ItemP bs @ [EndP l]))"
    using it_i nit by (simp add: st'_def vListInsert_def Let_def itp fun_upd_twist)
  have pv: "get_prev st' = (get_prev st)(ItemP i := it, hd (map ItemP bs @ [EndP l]) := ItemP i)"
    using it_i nit h_i by (simp add: st'_def vListInsert_def Let_def itp fun_upd_twist)
  have rest: "pvContainer (item_rec st' k) = (if k = i then Some l else pvContainer (item_rec st k))"
    "uxNumberOfItems (list_rec st' k) = uxNumberOfItems (list_rec st k) + (if k = l then 1 else 0)"
    "pxIndex (list_rec st' k) = pxIndex (list_rec st k)"
    "end_xItemValue (list_rec st' k) = end_xItemValue (list_rec st k)"
    "ivalue st' k = ivalue st k" "pvOwner (item_rec st' k) = pvOwner (item_rec st k)" for k
    by (simp_all add: st'_def vListInsert_def Let_def itp)
  note core = insert_core [OF ok l xs i _ nx [unfolded it_def] pv [unfolded it_def] rest(1-4)]
  have "length (as @ bs) < 2 ^ 32 - 1" using len xs by simp
  note core = core [OF this]
  show thesis
    using that [OF ins core(1) _ rest(5,6,1)] core(2) unfolding sorted_insert_def as_def bs_def by blast
qed

section \<open>Removal and initialisation\<close>

lemma uxListRemove_items:
  assumes ok: "lists_ok L st" and i: "pvContainer (item_rec st i) = Some l"
  obtains n st' where "uxListRemove i st = Some (n, st')" "lists_ok L st'"
    and "unat n = length (items_of st l) - 1"
    and "\<And>l'. l' \<in> L \<Longrightarrow> items_of st' l'
                = (if l' = l then remove1 i (items_of st l) else items_of st l')"
    and "\<And>k. ivalue st' k = ivalue st k"
    and "\<And>k. pvOwner (item_rec st' k) = pvOwner (item_rec st k)"
    and "\<And>k. pvContainer (item_rec st' k) = (if k = i then None else pvContainer (item_rec st k))"
proof -
  have l: "l \<in> L" and il: "i \<in> set (items_of st l)" using ok i by (auto simp: lists_ok_def)
  obtain as bs where xs: "items_of st l = as @ i # bs" using il by (meson split_list)
  have at: "list_at st l (as @ i # bs)" using lists_ok_at [OF ok l] xs by simp
  have di: "distinct (as @ i # bs)" using at by (simp add: list_at_def)
  have lk: "linked (get_next st) (get_prev st) (EndP l) (map ItemP as @ ItemP i # map ItemP bs) (EndP l)"
    using at by (simp add: list_at_def)
  let ?a = "last (EndP l # map ItemP as)" and ?b = "hd (map ItemP bs @ [EndP l])"
  have dd: "distinct (EndP l # map ItemP as @ ItemP i # map ItemP bs)"
    "distinct (map ItemP as @ ItemP i # map ItemP bs @ [EndP l])"
    using di by (auto simp: distinct_map)
  note del = linked_delete [OF lk dd]
  have nodes_ab: "?a \<in> nodes l as" "?b \<in> nodes l bs"
    by (cases as rule: rev_cases; simp) (cases bs; simp)
  have ai: "?a \<noteq> ItemP i" "?b \<noteq> ItemP i" using nodes_ab di by (auto simp: nodes_def)
  define st' where "st' = snd (the (uxListRemove i st))"
  have nx: "get_next st' = (get_next st)(?a := ?b)"
    using i del(2,3) ai by (simp add: st'_def uxListRemove_def Let_def del: last.simps)
  have pv: "get_prev st' = (get_prev st)(?b := ?a)"
    using i del(2,3) ai by (simp add: st'_def uxListRemove_def Let_def del: last.simps)
  have cont: "pvContainer (item_rec st' k) = (if k = i then None else pvContainer (item_rec st k))"
    and cnt: "uxNumberOfItems (list_rec st' k)
                = uxNumberOfItems (list_rec st k) - (if k = l then 1 else 0)"
    and idx: "pxIndex (list_rec st' k) = (if k = l \<and> pxIndex (list_rec st k) = ItemP i
                then ?a else pxIndex (list_rec st k))"
    and val: "end_xItemValue (list_rec st' k) = end_xItemValue (list_rec st k)"
    and rest: "ivalue st' k = ivalue st k" "pvOwner (item_rec st' k) = pvOwner (item_rec st k)" for k
    using i del(2,3) ai by (auto simp: st'_def uxListRemove_def Let_def simp del: last.simps)
  have at': "list_at st' l (as @ bs)"
    using at di cont cnt idx val del(1) nodes_ab unfolding list_at_def nx pv
    by (auto simp: nodes_def simp del: last.simps fun_upd_apply)
  have cont': "pvContainer (item_rec st' k) =
      (if k \<in> set (as @ bs) then Some l
       else if pvContainer (item_rec st k) = Some l then None
       else pvContainer (item_rec st k))" for k
    using cont [of k] lists_ok_container [OF ok l, of k] xs di by auto
  have new: "pvContainer (item_rec st k) \<in> {None, Some l}" if "k \<in> set (as @ bs)" for k
    using that lists_ok_container [OF ok l, of k] xs by auto
  have fr: "get_next st' p = get_next st p \<and> get_prev st' p = get_prev st p"
    if "p \<notin> nodes l ((as @ bs) @ items_of st l)" for p
    using that nodes_ab unfolding nx pv by (auto simp: nodes_def simp del: last.simps)
  note upd = lists_ok_update [OF ok l at' fr _ cont' new]
  have ok': "lists_ok L st'" using cnt idx val by (intro upd(1)) auto
  have items: "items_of st' l' = (if l' = l then as @ bs else items_of st l')" if "l' \<in> L" for l'
    using cnt idx val that by (intro upd(2)) auto
  have r1: "remove1 i (items_of st l) = as @ bs" using di xs by (simp add: remove1_append)
  obtain n where un: "uxListRemove i st = Some (n, st')" "n = uxNumberOfItems (list_rec st' l)"
    using i by (simp add: uxListRemove_def Let_def st'_def)
  have "unat n = length (items_of st l) - 1" using list_at_count [OF at'] xs un(2) by simp
  then show thesis using that [OF un(1) ok'] items r1 rest cont by simp
qed

lemma vListInitialise_items:
  assumes ok: "lists_ok L st" and e: "l \<in> L \<Longrightarrow> items_of st l = []"
  shows "lists_ok (insert l L) (vListInitialise l st)"
    and "\<And>l'. l' \<in> insert l L \<Longrightarrow>
           items_of (vListInitialise l st) l' = (if l' = l then [] else items_of st l')"
proof -
  let ?st = "vListInitialise l st"
  have at: "list_at ?st l []"
    by (simp add: list_at_def vListInitialise_def nodes_def get_next.simps get_prev.simps)
  have other: "list_at ?st l' (items_of st l')" if "l' \<in> L" "l' \<noteq> l" for l'
    by (rule list_at_frame [OF lists_ok_at [OF ok that(1)]])
       (use that in \<open>auto simp: vListInitialise_def nodes_def get_next.simps get_prev.simps\<close>)
  show items: "items_of ?st l' = (if l' = l then [] else items_of st l')" if "l' \<in> insert l L" for l'
    using that items_of_list_at [OF at] items_of_list_at [OF other] by auto
  have nc: "pvContainer (item_rec st i) \<noteq> Some l" for i
    using ok e unfolding lists_ok_def by (metis empty_iff list.set(1))
  show "lists_ok (insert l L) ?st"
    unfolding lists_ok_def
  proof (intro conjI ballI allI impI)
    show "list_at ?st l' (items_of ?st l')" if "l' \<in> insert l L" for l'
      using that at other items by auto
    fix i l' assume "pvContainer (item_rec ?st i) = Some l'"
    then have c: "pvContainer (item_rec st i) = Some l'" by (simp add: vListInitialise_def)
    then have "l' \<in> L" "i \<in> set (items_of st l')" "l' \<noteq> l"
      using ok nc by (auto simp: lists_ok_def)
    then show "l' \<in> insert l L" "i \<in> set (items_of ?st l')" using items by auto
  qed
qed

lemma vListInitialise_fields [simp]: "item_rec (vListInitialise l st) = item_rec st"
  by (simp add: vListInitialise_def)

lemma lists_ok_empty: "lists_ok {} st \<longleftrightarrow> (\<forall>i. pvContainer (item_rec st i) = None)"
  by (auto simp: lists_ok_def)

lemma listLIST_IS_EMPTY_items:
  assumes "lists_ok L st" "l \<in> L"
  shows "listLIST_IS_EMPTY st l \<longleftrightarrow> items_of st l = []"
proof -
  have "uxNumberOfItems (list_rec st l) = 0 \<longleftrightarrow> unat (uxNumberOfItems (list_rec st l)) = 0"
    by (simp add: unat_eq_0)
  then show ?thesis using list_at_count [OF lists_ok_at [OF assms]] by (simp add: listLIST_IS_EMPTY_def)
qed

lemma listGET_HEAD_ENTRY_items:
  assumes "lists_ok L st" "l \<in> L"
  shows "listGET_HEAD_ENTRY st l = hd (map ItemP (items_of st l) @ [EndP l])"
  using linked_hd [of "get_next st" "get_prev st" "EndP l" "map ItemP (items_of st l)" "EndP l"]
    lists_ok_at [OF assms]
  by (simp add: listGET_HEAD_ENTRY_def list_at_def)

lemma listGET_OWNER_OF_HEAD_ENTRY_items:
  assumes "lists_ok L st" "l \<in> L"
  shows "listGET_OWNER_OF_HEAD_ENTRY st l
           = (case items_of st l of [] \<Rightarrow> None | i # _ \<Rightarrow> Some (pvOwner (item_rec st i)))"
  using listGET_HEAD_ENTRY_items [OF assms]
  by (simp add: listGET_OWNER_OF_HEAD_ENTRY_def listGET_HEAD_ENTRY_def split: list.split)

section \<open>Walking the list with pxIndex\<close>

text \<open>The order in which the next calls of \<open>listGET_OWNER_OF_NEXT_ENTRY\<close> meet the items.\<close>

definition rr_order :: "list_store \<Rightarrow> list_id \<Rightarrow> item_id list" where
  "rr_order st l =
     (let xs = items_of st l in
      case pxIndex (list_rec st l) of
        EndP _ \<Rightarrow> xs
      | ItemP x \<Rightarrow> (let as = takeWhile (\<lambda>y. y \<noteq> x) xs in drop (Suc (length as)) xs @ as @ [x]))"

lemma list_at_index_last:
  assumes "list_at st l xs"
  obtains as bs where "xs = as @ bs" "pxIndex (list_rec st l) = last (EndP l # map ItemP as)"
proof (cases "pxIndex (list_rec st l) = EndP l")
  case True
  then show ?thesis using that [of "[]" xs] by simp
next
  case False
  then obtain x where x: "pxIndex (list_rec st l) = ItemP x" "x \<in> set xs"
    using assms by (auto simp: list_at_def nodes_def)
  then obtain as bs where "xs = (as @ [x]) @ bs" by (metis append.assoc append_Cons append_Nil split_list)
  then show ?thesis using that [of "as @ [x]" bs] x by simp
qed

lemma rr_order_split:
  assumes "list_at st l (as @ bs)" and "pxIndex (list_rec st l) = last (EndP l # map ItemP as)"
  shows "rr_order st l = bs @ as"
proof (cases as rule: rev_cases)
  case Nil
  then show ?thesis using assms items_of_list_at [OF assms(1)] by (simp add: rr_order_def)
next
  case (snoc as' x)
  then have "x \<notin> set as'" using assms(1) by (simp add: list_at_def)
  then have "takeWhile (\<lambda>y. y \<noteq> x) (as' @ x # bs) = as'"
    by (induction as') auto
  then show ?thesis
    using assms items_of_list_at [OF assms(1)] snoc by (simp add: rr_order_def Let_def)
qed

lemma rr_order_mset: "list_at st l xs \<Longrightarrow> mset (rr_order st l) = mset xs"
  by (metis list_at_index_last mset_append rr_order_split union_commute)

lemma set_index_list_at:
  "list_at st l xs \<Longrightarrow> p \<in> nodes l xs \<Longrightarrow> list_at (set_index l p st) l xs"
  by (simp add: list_at_def)

lemma next_entry_step:
  assumes at: "list_at st l xs" and ord: "rr_order st l = y # ys"
  obtains st' where "listGET_OWNER_OF_NEXT_ENTRY l st = (Some (pvOwner (item_rec st y)), st')"
    and "list_at st' l xs" "rr_order st' l = ys @ [y]" "item_rec st' = item_rec st"
proof -
  obtain as bs where s: "xs = as @ bs" "pxIndex (list_rec st l) = last (EndP l # map ItemP as)"
    using list_at_index_last [OF at] .
  have o: "bs @ as = y # ys" using rr_order_split [of st l as bs] at s ord by simp
  note lk = list_at_linked [of st l as bs, OF at [unfolded s(1)]]
  have nidx: "get_next st (pxIndex (list_rec st l)) = hd (map ItemP bs @ [EndP l])"
    using linked_edge [OF lk] s(2) by simp
  have yx: "y \<in> set xs" using o s(1) by (metis Un_commute list.set_intros(1) set_append)
  define st' where "st' = snd (listGET_OWNER_OF_NEXT_ENTRY l st)"
  show thesis
  proof (cases bs)
    case (Cons b bs')
    then have r: "listGET_OWNER_OF_NEXT_ENTRY l st
                  = (Some (pvOwner (item_rec st y)), set_index l (ItemP y) st)"
      using nidx o by (simp add: listGET_OWNER_OF_NEXT_ENTRY_def Let_def)
    have at': "list_at (set_index l (ItemP y) st) l ((as @ [b]) @ bs')"
      using set_index_list_at [OF at, of "ItemP y"] yx s(1) Cons by simp
    have "rr_order (set_index l (ItemP y) st) l = bs' @ as @ [b]"
      using rr_order_split [OF at'] Cons o by simp
    then show thesis using that [OF r] at' Cons s(1) o by simp
  next
    case Nil
    then have as: "as = y # ys" using o by simp
    have n: "get_next st (EndP l) = ItemP y" using linked_hd [OF lk] as by simp
    have r: "listGET_OWNER_OF_NEXT_ENTRY l st
               = (Some (pvOwner (item_rec st y)), set_index l (ItemP y) (set_index l (EndP l) st))"
      using nidx Nil n by (simp add: listGET_OWNER_OF_NEXT_ENTRY_def Let_def)
    let ?st = "set_index l (ItemP y) (set_index l (EndP l) st)"
    have "list_at ?st l xs" using at yx by (intro set_index_list_at) simp_all
    then have at': "list_at ?st l ([y] @ ys)" using s(1) Nil as by simp
    have "rr_order ?st l = ys @ [y]" using rr_order_split [OF at'] by simp
    then show thesis using that [OF r] at' s(1) Nil as by simp
  qed
qed

text \<open>The owners returned by \<open>n\<close> consecutive calls.\<close>

primrec next_owners :: "nat \<Rightarrow> list_id \<Rightarrow> list_store \<Rightarrow> nat option list" where
  "next_owners 0 l st = []"
| "next_owners (Suc n) l st =
     (case listGET_OWNER_OF_NEXT_ENTRY l st of (ow, st') \<Rightarrow> ow # next_owners n l st')"

lemma next_owners_rr:
  assumes "list_at st l xs" and "xs \<noteq> []" and "n \<le> length xs"
  shows "next_owners n l st = map (\<lambda>i. Some (pvOwner (item_rec st i))) (take n (rr_order st l))"
proof -
  have "next_owners n l st = map (\<lambda>i. Some (pvOwner (item_rec st i))) as"
    if "list_at st l xs" "rr_order st l = as @ bs" "length as = n" for as bs
    using that
  proof (induction n arbitrary: st as bs)
    case 0
    then show ?case by simp
  next
    case (Suc n)
    then obtain y ys where as: "as = y # ys" by (cases as) auto
    then have "rr_order st l = y # (ys @ bs)" using Suc.prems by simp
    from next_entry_step [OF Suc.prems(1) this]
    obtain st' where st': "listGET_OWNER_OF_NEXT_ENTRY l st = (Some (pvOwner (item_rec st y)), st')"
      "list_at st' l xs" "rr_order st' l = ys @ (bs @ [y])" "item_rec st' = item_rec st"
      by auto
    show ?case using Suc.IH [OF st'(2,3)] Suc.prems(3) as st'(1,4) by simp
  qed
  note main = this
  have "length (rr_order st l) = length xs"
    using rr_order_mset [OF assms(1)] by (metis size_mset)
  then show ?thesis
    using main [OF assms(1), of "take n (rr_order st l)" "drop n (rr_order st l)"] assms(3) by simp
qed

section \<open>The interface the clients rely on\<close>

text \<open>
  A client hands items from list to list.  It relies on each item being in at most one list,
  on \<open>push\<close> adding exactly the new item, and on \<open>unlink\<close> taking it out of its own list,
  leaving every other list alone.
\<close>

locale list_bag =
  fixes ok :: "'l set \<Rightarrow> 's \<Rightarrow> bool"
    and contents :: "'s \<Rightarrow> 'l \<Rightarrow> 'i list"
    and home :: "'s \<Rightarrow> 'i \<Rightarrow> 'l option"
    and push :: "'l \<Rightarrow> 'i \<Rightarrow> 's \<Rightarrow> 's"
    and unlink :: "'i \<Rightarrow> 's \<Rightarrow> 's option"
    and cap :: nat
  assumes home_iff: "ok L s \<Longrightarrow> l \<in> L \<Longrightarrow> home s i = Some l \<longleftrightarrow> i \<in> set (contents s l)"
    and home_in: "ok L s \<Longrightarrow> home s i = Some l \<Longrightarrow> l \<in> L"
    and contents_distinct: "ok L s \<Longrightarrow> l \<in> L \<Longrightarrow> distinct (contents s l)"
    and push_ok: "ok L s \<Longrightarrow> l \<in> L \<Longrightarrow> home s i = None \<Longrightarrow> length (contents s l) < cap
      \<Longrightarrow> ok L (push l i s)"
    and push_mset: "ok L s \<Longrightarrow> l \<in> L \<Longrightarrow> home s i = None \<Longrightarrow> length (contents s l) < cap
      \<Longrightarrow> l' \<in> L \<Longrightarrow> mset (contents (push l i s) l')
            = mset (contents s l') + (if l' = l then {#i#} else {#})"
    and unlink_some: "ok L s \<Longrightarrow> home s i = Some l
      \<Longrightarrow> \<exists>s'. unlink i s = Some s' \<and> ok L s' \<and>
            (\<forall>l'\<in>L. contents s' l' = (if l' = l then remove1 i (contents s l) else contents s l'))"
begin

lemma unlink_home:
  assumes "ok L s" "home s i = Some l" "unlink i s = Some s'"
  shows "home s' i = None"
proof (rule ccontr)
  assume "home s' i \<noteq> None"
  then obtain l' where l': "home s' i = Some l'" by auto
  have ok': "ok L s'" and c: "\<forall>l'\<in>L. contents s' l' =
      (if l' = l then remove1 i (contents s l) else contents s l')"
    using unlink_some [OF assms(1,2)] assms(3) by auto
  have "l' \<in> L" using home_in [OF ok' l'] .
  then have "i \<in> set (contents s' l')" using home_iff [OF ok'] l' by blast
  then have "i \<in> set (contents s l')" "l' \<noteq> l"
    using c \<open>l' \<in> L\<close> contents_distinct [OF assms(1) home_in [OF assms(1,2)]]
    by (auto split: if_splits dest: in_set_remove1 [THEN iffD1, rotated])
  then show False using home_iff [OF assms(1) \<open>l' \<in> L\<close>, of i] assms(2) by auto
qed

text \<open>Moving an item neither loses nor duplicates anything.\<close>

lemma move_conserves:
  assumes ok: "ok L s" and i: "home s i = Some l" and l2: "l2 \<in> L"
    and cap: "length (contents s l2) < cap"
  obtains s1 where "unlink i s = Some s1" "ok L (push l2 i s1)"
    and "(\<Union>k\<in>L. set (contents (push l2 i s1) k)) = (\<Union>k\<in>L. set (contents s k))"
proof -
  obtain s1 where s1: "unlink i s = Some s1" "ok L s1" and c: "\<forall>l'\<in>L. contents s1 l' =
      (if l' = l then remove1 i (contents s l) else contents s l')"
    using unlink_some [OF ok i] by auto
  have l: "l \<in> L" using home_in [OF ok i] .
  have il: "i \<in> set (contents s l)" using home_iff [OF ok l] i by blast
  have nh: "home s1 i = None" using unlink_home [OF ok i s1(1)] .
  have cap1: "length (contents s1 l2) < cap"
    using c l2 cap by (auto simp: length_remove1)
  have p: "set (contents (push l2 i s1) k) = set (contents s1 k) \<union> (if k = l2 then {i} else {})"
    if "k \<in> L" for k
    using arg_cong [OF push_mset [OF s1(2) l2 nh cap1 that], of set_mset] by auto
  have s1k: "set (contents s1 k) = set (contents s k) - {i}" if "k \<in> L" for k
    using c that contents_distinct [OF ok l] home_iff [OF ok that, of i] i by auto
  have "(\<Union>k\<in>L. set (contents (push l2 i s1) k)) = (\<Union>k\<in>L. set (contents s k))"
  proof (intro equalityI subsetI)
    fix x assume "x \<in> (\<Union>k\<in>L. set (contents (push l2 i s1) k))"
    then show "x \<in> (\<Union>k\<in>L. set (contents s k))"
      using p s1k il l by (cases "x = i") (auto split: if_splits)
  next
    fix x assume x: "x \<in> (\<Union>k\<in>L. set (contents s k))"
    show "x \<in> (\<Union>k\<in>L. set (contents (push l2 i s1) k))"
    proof (cases "x = i")
      case True
      then show ?thesis using p [OF l2] l2 by auto
    next
      case False
      obtain k where k: "k \<in> L" "x \<in> set (contents s k)" using x by auto
      then have "x \<in> set (contents (push l2 i s1) k)" using False p [OF k(1)] s1k [OF k(1)] by simp
      then show ?thesis using k(1) by blast
    qed
  qed
  then show thesis using that s1 push_ok [OF s1(2) l2 nh cap1] by blast
qed

end

locale list_fifo = list_bag +
  assumes push_last: "ok L s \<Longrightarrow> l \<in> L \<Longrightarrow> home s i = None \<Longrightarrow> length (contents s l) < cap
      \<Longrightarrow> contents (push l i s) l = contents s l @ [i]"
begin

text \<open>Items leave a list in the order in which they were pushed.\<close>

lemma push_hd:
  assumes "ok L s" "l \<in> L" "home s i = None" "length (contents s l) < cap"
  shows "hd (contents (push l i s) l) = (if contents s l = [] then i else hd (contents s l))"
  using push_last [OF assms] by simp

end

definition unlink_item :: "item_id \<Rightarrow> list_store \<Rightarrow> list_store option" where
  "unlink_item i st = map_option snd (uxListRemove i st)"

abbreviation container_of :: "list_store \<Rightarrow> item_id \<Rightarrow> list_id option" where
  "container_of st i \<equiv> pvContainer (item_rec st i)"

lemma unlink_item_items:
  assumes "lists_ok L st" "container_of st i = Some l"
  shows "\<exists>st'. unlink_item i st = Some st' \<and> lists_ok L st' \<and>
           (\<forall>l'\<in>L. items_of st' l' = (if l' = l then remove1 i (items_of st l) else items_of st l'))"
  using uxListRemove_items [OF assms] by (metis (no_types, lifting) option.simps(9) snd_conv unlink_item_def)

lemma lists_ok_distinct: "lists_ok L st \<Longrightarrow> l \<in> L \<Longrightarrow> distinct (items_of st l)"
  using lists_ok_at by (auto simp: list_at_def)

lemma lists_ok_in: "lists_ok L st \<Longrightarrow> container_of st i = Some l \<Longrightarrow> l \<in> L"
  by (simp add: lists_ok_def)

interpretation kernel_end: list_bag lists_ok items_of container_of vListInsertEnd unlink_item "2 ^ 32 - 1"
proof (unfold_locales, goal_cases)
  case 1 then show ?case by (rule lists_ok_container)
next
  case 2 then show ?case by (rule lists_ok_in)
next
  case 3 then show ?case by (rule lists_ok_distinct)
next
  case 4 then show ?case by (rule vListInsertEnd_set)
next
  case 5 then show ?case by (intro vListInsertEnd_set)
next
  case 6 then show ?case by (rule unlink_item_items)
qed

interpretation kernel_fifo: list_fifo lists_ok items_of container_of vListInsertFifo unlink_item "2 ^ 32 - 1"
proof (unfold_locales, goal_cases)
  case 1 then show ?case by (rule lists_ok_container)
next
  case 2 then show ?case by (rule lists_ok_in)
next
  case 3 then show ?case by (rule lists_ok_distinct)
next
  case 4 then show ?case by (intro vListInsertFifo_items)
next
  case (5 L s l i l') then show ?case using vListInsertFifo_items(2) [of L s l i l'] by simp
next
  case 6 then show ?case by (rule unlink_item_items)
next
  case (7 L s l i) then show ?case using vListInsertFifo_items(2) [of L s l i l] by simp
qed

section \<open>Properties\<close>

text \<open>A store in which no item is in a list, for the witnesses.\<close>

definition blank_store :: list_store where
  "blank_store =
     \<lparr>item_rec = (\<lambda>i. \<lparr>xItemValue = of_nat i, pxNext = EndP 0, pxPrevious = EndP 0,
                      pvOwner = i, pvContainer = None\<rparr>),
      list_rec = (\<lambda>l. \<lparr>uxNumberOfItems = 0, pxIndex = EndP l, end_xItemValue = 0,
                      end_pxNext = EndP l, end_pxPrevious = EndP l\<rparr>)\<rparr>"

lemma blank_ok:
  "lists_ok {0} (vListInitialise 0 blank_store)" "items_of (vListInitialise 0 blank_store) 0 = []"
  using vListInitialise_items [of "{}" blank_store 0] by (simp_all add: lists_ok_empty blank_store_def)

lemma blank_fields [simp]:
  "container_of blank_store i = None" "ivalue blank_store i = of_nat i"
  "pvOwner (item_rec blank_store i) = i"
  by (simp_all add: blank_store_def)

text \<open>
  Claim C10.  \<open>vListInsert\<close> on a list sorted by \<open>xItemValue\<close> terminates, keeps every list of
  the store a well-formed ring, puts the item behind all items of smaller or equal value (so
  equal values stay in order of arrival), keeps the list sorted and leaves the other lists alone.
\<close>

theorem vListInsert_sorted:
  assumes "lists_ok L st" "l \<in> L" "container_of st i = None"
    and "length (items_of st l) < 2 ^ 32 - 1" "sorted (map (ivalue st) (items_of st l))"
  shows "\<exists>st'. vListInsert l i st = Some st' \<and> lists_ok L st' \<and>
           items_of st' l = takeWhile (\<lambda>x. ivalue st x \<le> ivalue st i) (items_of st l) @ i #
                            dropWhile (\<lambda>x. ivalue st x \<le> ivalue st i) (items_of st l) \<and>
           sorted (map (ivalue st') (items_of st' l)) \<and>
           (\<forall>l'\<in>L - {l}. items_of st' l' = items_of st l')"
proof -
  obtain st' where st': "vListInsert l i st = Some st'" "lists_ok L st'"
    "\<And>l'. l' \<in> L \<Longrightarrow> items_of st' l'
        = (if l' = l then sorted_insert st i (items_of st l) else items_of st l')"
    "\<And>k. ivalue st' k = ivalue st k"
    using vListInsert_items [OF assms(1-4)] by metis
  have "ivalue st' = ivalue st" using st'(4) by blast
  then show ?thesis
    using st' assms(2) sorted_sorted_insert [OF assms(5), of i] by (auto simp: sorted_insert_def)
qed

theorem vListInsert_sorted_witness:
  "\<exists>st'. vListInsert 0 7 (vListInitialise 0 blank_store) = Some st' \<and> items_of st' 0 = [7]"
  using vListInsert_sorted [of "{0}" "vListInitialise 0 blank_store" 0 7] blank_ok by auto

text \<open>
  \<open>uxListRemove\<close> undoes \<open>vListInsert\<close>: after inserting an item that was in no list
  and removing it again, every list of the store holds exactly the items it held before, the
  item is in no list, and the count returned is the old length.
\<close>

theorem uxListRemove_undoes_vListInsert:
  assumes "lists_ok L st" "l \<in> L" "container_of st i = None"
    and "length (items_of st l) < 2 ^ 32 - 1"
  shows "\<exists>st1 n st2. vListInsert l i st = Some st1 \<and> uxListRemove i st1 = Some (n, st2) \<and>
           lists_ok L st2 \<and> (\<forall>l'\<in>L. items_of st2 l' = items_of st l') \<and>
           container_of st2 i = None \<and> unat n = length (items_of st l)"
proof -
  obtain st1 where st1: "vListInsert l i st = Some st1" "lists_ok L st1"
    "\<And>l'. l' \<in> L \<Longrightarrow> items_of st1 l'
        = (if l' = l then sorted_insert st i (items_of st l) else items_of st l')"
    "container_of st1 i = Some l"
    using vListInsert_items [OF assms(1-4)] by metis
  obtain n st2 where st2: "uxListRemove i st1 = Some (n, st2)" "lists_ok L st2"
    "unat n = length (items_of st1 l) - 1"
    "\<And>l'. l' \<in> L \<Longrightarrow> items_of st2 l'
        = (if l' = l then remove1 i (items_of st1 l) else items_of st1 l')"
    "container_of st2 i = None"
    using uxListRemove_items [OF st1(2,4)] by metis
  have "i \<notin> set (items_of st l)" using lists_ok_container [OF assms(1,2), of i] assms(3) by simp
  then have "i \<notin> set (takeWhile (\<lambda>x. ivalue st x \<le> ivalue st i) (items_of st l))"
    by (meson set_takeWhileD)
  then have "remove1 i (sorted_insert st i (items_of st l)) = items_of st l"
    and "length (sorted_insert st i (items_of st l)) = Suc (length (items_of st l))"
    by (simp_all add: sorted_insert_def remove1_append)
       (metis add_Suc_right length_append takeWhile_dropWhile_id)
  then show ?thesis using st1 st2 assms(2) by auto
qed

theorem uxListRemove_undoes_vListInsert_witness:
  "\<exists>st1 n st2. vListInsert 0 7 (vListInitialise 0 blank_store) = Some st1 \<and>
     uxListRemove 7 st1 = Some (n, st2) \<and> items_of st2 0 = [] \<and> unat n = 0"
  using uxListRemove_undoes_vListInsert [of "{0}" "vListInitialise 0 blank_store" 0 7] blank_ok
  by auto

text \<open>
  Claim C18.  \<open>listGET_OWNER_OF_NEXT_ENTRY\<close> is fair: on a non-empty well-formed list, as many
  consecutive calls as there are items return the owner of every item exactly once, the end
  marker is never handed out, and an item just added by \<open>vListInsertEnd\<close> comes after every
  other item except the one \<open>pxIndex\<close> rests on.
\<close>

theorem next_entry_fair:
  assumes "lists_ok L st" "l \<in> L" "items_of st l \<noteq> []"
    and "container_of st i = None" "length (items_of st l) < 2 ^ 32 - 1"
  shows "mset (next_owners (length (items_of st l)) l st)
           = mset (map (\<lambda>k. Some (pvOwner (item_rec st k))) (items_of st l)) \<and>
         rr_order (vListInsertEnd l i st) l =
           (case pxIndex (list_rec st l) of
              EndP _ \<Rightarrow> rr_order st l @ [i]
            | ItemP x \<Rightarrow> butlast (rr_order st l) @ [i, x])"
proof
  have at: "list_at st l (items_of st l)" using lists_ok_at [OF assms(1,2)] .
  have m: "mset (rr_order st l) = mset (items_of st l)" using rr_order_mset [OF at] .
  have len: "length (rr_order st l) = length (items_of st l)" by (metis m size_mset)
  show "mset (next_owners (length (items_of st l)) l st)
           = mset (map (\<lambda>k. Some (pvOwner (item_rec st k))) (items_of st l))"
    using next_owners_rr [OF at assms(3) order_refl] m len
    by (metis mset_map order_refl take_all)
  have i_out: "i \<notin> set (items_of st l)"
    using lists_ok_container [OF assms(1,2), of i] assms(4) by simp
  obtain as bs where s: "items_of st l = as @ bs"
    "pxIndex (list_rec st l) = hd (map ItemP bs @ [EndP l])"
    using list_at_index_split [OF at] .
  note ins = vListInsertEnd_splice [OF assms(1,2) s assms(4)]
  have at': "list_at (vListInsertEnd l i st) l (as @ i # bs)"
    using ins lists_ok_at assms(2,5) s(1) by metis
  have idx: "pxIndex (list_rec (vListInsertEnd l i st) l) = pxIndex (list_rec st l)"
    by (simp add: vListInsertEnd_def Let_def)
  show "rr_order (vListInsertEnd l i st) l =
           (case pxIndex (list_rec st l) of
              EndP _ \<Rightarrow> rr_order st l @ [i]
            | ItemP x \<Rightarrow> butlast (rr_order st l) @ [i, x])"
  proof (cases bs)
    case Nil
    then show ?thesis
      using s idx rr_order_split [of _ l "[]"] at at' by (metis append.right_neutral append_Nil
          append_assoc hd_append2 last.simps list.map_disc_iff list.sel(1) lptr.simps(6) list.simps(8))
  next
    case (Cons x cs)
    have "rr_order (vListInsertEnd l i st) l = cs @ (as @ [i]) @ [x]"
      using rr_order_split [of "vListInsertEnd l i st" l "(as @ [i]) @ [x]" cs] at' idx s Cons by simp
    moreover have "rr_order st l = cs @ as @ [x]"
      using rr_order_split [of st l "as @ [x]" cs] at s Cons by simp
    ultimately show ?thesis using s Cons by (simp add: butlast_append)
  qed
qed

theorem next_entry_fair_witness:
  "next_owners 1 0 (vListInsertFifo 0 5 (vListInitialise 0 blank_store)) = [Some 5]"
proof -
  let ?st = "vListInsertFifo 0 5 (vListInitialise 0 blank_store)"
  have ok: "lists_ok {0} ?st" and it: "items_of ?st 0 = [5]"
    using vListInsertFifo_items [of "{0}" "vListInitialise 0 blank_store" 0 5] blank_ok by simp_all
  have "mset (next_owners 1 0 ?st) = mset [Some 5]"
    using next_entry_fair [OF ok, of 0 6] it by simp
  then show ?thesis by simp
qed

end
