(* ===== verification/Heap4.thy ===== *)
theory Heap4
  imports Prelude "HOL-Library.Monad_Syntax" "HOL-Library.Multiset"
begin

text \<open>
  The kernel allocator \<open>SDK/rtos/FreeRTOS/src/heap_4.c\<close>: a first-fit allocator over one
  array, whose free blocks form a list in address order that merges neighbours when a block
  is returned.  Memory holds a \<open>BlockLink_t\<close> header at every block address; \<open>xStart\<close> is a
  header outside the array.  The invariant describes the array as a row of blocks and the
  free list as exactly its free blocks.
\<close>

section \<open>Headers, configuration and state\<close>

record BlockLink_t =
  pxNextFreeBlock :: u32
  xBlockSize :: u32

text \<open>
  What the linker and \<open>FreeRTOSConfig.h\<close> (generated, not in the repository) decide: the
  address and size of \<open>ucHeap\<close>, the address of \<open>xStart\<close>, and whether \<open>configASSERT\<close> stops
  the program or is empty.
\<close>

record heap_cfg =
  ucHeap :: u32
  configTOTAL_HEAP_SIZE :: u32
  xStart_addr :: u32
  asserts_on :: bool

record heap4 =
  links :: "u32 \<Rightarrow> BlockLink_t"
  pxEnd :: u32
  xFreeBytesRemaining :: u32
  xMinimumEverFreeBytesRemaining :: u32
  xBlockAllocatedBit :: u32

definition portBYTE_ALIGNMENT :: u32 where "portBYTE_ALIGNMENT = 8"
definition portBYTE_ALIGNMENT_MASK :: u32 where "portBYTE_ALIGNMENT_MASK = 7"

definition xHeapStructSize :: u32 where
  "xHeapStructSize = (8 + (portBYTE_ALIGNMENT - 1)) AND NOT portBYTE_ALIGNMENT_MASK"

definition heapMINIMUM_BLOCK_SIZE :: u32 where
  "heapMINIMUM_BLOCK_SIZE = xHeapStructSize * 2"

definition configASSERT :: "heap_cfg \<Rightarrow> bool \<Rightarrow> unit option" where
  "configASSERT cfg b = (if asserts_on cfg \<and> \<not> b then None else Some ())"

abbreviation nxt :: "heap4 \<Rightarrow> u32 \<Rightarrow> u32" where
  "nxt h p \<equiv> pxNextFreeBlock (links h p)"

abbreviation siz :: "heap4 \<Rightarrow> u32 \<Rightarrow> u32" where
  "siz h p \<equiv> xBlockSize (links h p)"

definition set_nxt :: "u32 \<Rightarrow> u32 \<Rightarrow> heap4 \<Rightarrow> heap4" where
  "set_nxt p q h = h\<lparr>links := (links h)(p := (links h p)\<lparr>pxNextFreeBlock := q\<rparr>)\<rparr>"

definition set_siz :: "u32 \<Rightarrow> u32 \<Rightarrow> heap4 \<Rightarrow> heap4" where
  "set_siz p s h = h\<lparr>links := (links h)(p := (links h p)\<lparr>xBlockSize := s\<rparr>)\<rparr>"

section \<open>The functions of heap\_4.c\<close>

definition prvHeapInit :: "heap_cfg \<Rightarrow> heap4 \<Rightarrow> heap4" where
  "prvHeapInit cfg h =
     (let (ulAddress, xTotalHeapSize) =
            (if ucHeap cfg AND portBYTE_ALIGNMENT_MASK \<noteq> 0
             then (let a = (ucHeap cfg + (portBYTE_ALIGNMENT - 1)) AND NOT portBYTE_ALIGNMENT_MASK
                   in (a, configTOTAL_HEAP_SIZE cfg - (a - ucHeap cfg)))
             else (ucHeap cfg, configTOTAL_HEAP_SIZE cfg));
          pucAlignedHeap = ulAddress;
          h1 = set_siz (xStart_addr cfg) 0 (set_nxt (xStart_addr cfg) pucAlignedHeap h);
          ulEnd = (pucAlignedHeap + xTotalHeapSize - xHeapStructSize) AND NOT portBYTE_ALIGNMENT_MASK;
          h2 = set_nxt ulEnd 0 (set_siz ulEnd 0 (h1\<lparr>pxEnd := ulEnd\<rparr>));
          h3 = set_nxt pucAlignedHeap ulEnd (set_siz pucAlignedHeap (ulEnd - pucAlignedHeap) h2)
      in h3\<lparr>xMinimumEverFreeBytesRemaining := siz h3 pucAlignedHeap,
            xFreeBytesRemaining := siz h3 pucAlignedHeap,
            xBlockAllocatedBit := push_bit (4 * 8 - 1) 1\<rparr>)"

text \<open>The address-ordered search of \<open>prvInsertBlockIntoFreeList\<close>.\<close>

partial_function (option) find_free_pos :: "heap4 \<Rightarrow> u32 \<Rightarrow> u32 \<Rightarrow> u32 option" where
  "find_free_pos h b it = (if nxt h it < b then find_free_pos h b (nxt h it) else Some it)"

definition prvInsertBlockIntoFreeList :: "heap_cfg \<Rightarrow> u32 \<Rightarrow> heap4 \<Rightarrow> heap4 option" where
  "prvInsertBlockIntoFreeList cfg blk h =
     do { it \<leftarrow> find_free_pos h blk (xStart_addr cfg);
          let (b1, h1) = (if it + siz h it = blk
                          then (it, set_siz it (siz h it + siz h blk) h) else (blk, h));
          let h2 = (if b1 + siz h1 b1 = nxt h1 it
                    then (if nxt h1 it \<noteq> pxEnd h1
                          then (let h' = set_siz b1 (siz h1 b1 + siz h1 (nxt h1 it)) h1
                                in set_nxt b1 (nxt h' (nxt h' it)) h')
                          else set_nxt b1 (pxEnd h1) h1)
                    else set_nxt b1 (nxt h1 it) h1);
          Some (if it \<noteq> b1 then set_nxt it b1 h2 else h2) }"

text \<open>The first-fit search of \<open>pvPortMalloc\<close>: the previous block and the block it stops at.\<close>

partial_function (option) find_fit :: "heap4 \<Rightarrow> u32 \<Rightarrow> u32 \<Rightarrow> u32 \<Rightarrow> (u32 \<times> u32) option" where
  "find_fit h w prev blk =
     (if siz h blk < w \<and> nxt h blk \<noteq> 0 then find_fit h w blk (nxt h blk) else Some (prev, blk))"

definition adjust_wanted :: "heap_cfg \<Rightarrow> u32 \<Rightarrow> u32 option" where
  "adjust_wanted cfg xWantedSize =
     (if xWantedSize > 0 then
        (let w = xWantedSize + xHeapStructSize in
         if w AND portBYTE_ALIGNMENT_MASK \<noteq> 0
         then (let w' = w + (portBYTE_ALIGNMENT - (w AND portBYTE_ALIGNMENT_MASK))
               in do { configASSERT cfg (w' AND portBYTE_ALIGNMENT_MASK = 0); Some w' })
         else Some w)
      else Some xWantedSize)"

definition take_block :: "heap_cfg \<Rightarrow> u32 \<Rightarrow> u32 \<Rightarrow> u32 \<Rightarrow> heap4 \<Rightarrow> (u32 \<times> heap4) option" where
  "take_block cfg w prev blk h =
     do { let pvReturn = nxt h prev + xHeapStructSize;
          let h1 = set_nxt prev (nxt h blk) h;
          h2 \<leftarrow> (if siz h1 blk - w > heapMINIMUM_BLOCK_SIZE
                 then do { let nb = blk + w;
                           configASSERT cfg (nb AND portBYTE_ALIGNMENT_MASK = 0);
                           let h' = set_siz nb (siz h1 blk - w) h1;
                           let h'' = set_siz blk w h';
                           prvInsertBlockIntoFreeList cfg nb h'' }
                 else Some h1);
          let h3 = h2\<lparr>xFreeBytesRemaining := xFreeBytesRemaining h2 - siz h2 blk\<rparr>;
          let h4 = (if xFreeBytesRemaining h3 < xMinimumEverFreeBytesRemaining h3
                    then h3\<lparr>xMinimumEverFreeBytesRemaining := xFreeBytesRemaining h3\<rparr> else h3);
          let h5 = set_siz blk (siz h4 blk OR xBlockAllocatedBit h4) h4;
          Some (pvReturn, set_nxt blk 0 h5) }"

definition pvPortMalloc :: "heap_cfg \<Rightarrow> u32 \<Rightarrow> heap4 \<Rightarrow> (u32 \<times> heap4) option" where
  "pvPortMalloc cfg xWantedSize h0 =
     do { let h = (if pxEnd h0 = 0 then prvHeapInit cfg h0 else h0);
          (pvReturn, h') \<leftarrow>
            (if xWantedSize AND xBlockAllocatedBit h = 0
             then do { w \<leftarrow> adjust_wanted cfg xWantedSize;
                       if w > 0 \<and> w \<le> xFreeBytesRemaining h
                       then do { (prev, blk) \<leftarrow> find_fit h w (xStart_addr cfg) (nxt h (xStart_addr cfg));
                                 if blk \<noteq> pxEnd h then take_block cfg w prev blk h else Some (0, h) }
                       else Some (0, h) }
             else Some (0, h));
          configASSERT cfg (pvReturn AND portBYTE_ALIGNMENT_MASK = 0);
          Some (pvReturn, h') }"

definition vPortFree :: "heap_cfg \<Rightarrow> u32 \<Rightarrow> heap4 \<Rightarrow> heap4 option" where
  "vPortFree cfg pv h =
     (if pv \<noteq> 0
      then do { let pxLink = pv - xHeapStructSize;
                configASSERT cfg (siz h pxLink AND xBlockAllocatedBit h \<noteq> 0);
                configASSERT cfg (nxt h pxLink = 0);
                if siz h pxLink AND xBlockAllocatedBit h \<noteq> 0
                then if nxt h pxLink = 0
                     then do { let h1 = set_siz pxLink (siz h pxLink AND NOT (xBlockAllocatedBit h)) h;
                               let h2 = h1\<lparr>xFreeBytesRemaining := xFreeBytesRemaining h1 + siz h1 pxLink\<rparr>;
                               prvInsertBlockIntoFreeList cfg pxLink h2 }
                     else Some h
                else Some h }
      else Some h)"

definition xPortGetFreeHeapSize :: "heap4 \<Rightarrow> u32" where
  "xPortGetFreeHeapSize h = xFreeBytesRemaining h"

definition xPortGetMinimumEverFreeHeapSize :: "heap4 \<Rightarrow> u32" where
  "xPortGetMinimumEverFreeHeapSize h = xMinimumEverFreeBytesRemaining h"

section \<open>The row of blocks and the free list\<close>

datatype blk = Free (bsize: nat) | Used (bsize: nat)

primrec layout :: "heap4 \<Rightarrow> nat \<Rightarrow> blk list \<Rightarrow> nat \<Rightarrow> bool" where
  "layout h a [] e \<longleftrightarrow> a = e"
| "layout h a (b # bs) e \<longleftrightarrow>
     8 dvd bsize b \<and> 16 \<le> bsize b \<and>
     (case b of Free s \<Rightarrow> siz h (of_nat a) = of_nat s | Used s \<Rightarrow> True) \<and>
     layout h (a + bsize b) bs e"

primrec frees :: "nat \<Rightarrow> blk list \<Rightarrow> nat list" where
  "frees a [] = []"
| "frees a (b # bs) = (case b of Free s \<Rightarrow> [a] | Used s \<Rightarrow> []) @ frees (a + bsize b) bs"

primrec useds :: "nat \<Rightarrow> blk list \<Rightarrow> (nat \<times> nat) list" where
  "useds a [] = []"
| "useds a (b # bs) = (case b of Free s \<Rightarrow> [] | Used s \<Rightarrow> [(a, s)]) @ useds (a + bsize b) bs"

definition tagged :: "heap4 \<Rightarrow> (nat \<times> nat) list \<Rightarrow> bool" where
  "tagged h us \<longleftrightarrow>
     (\<forall>(q, s)\<in>set us. siz h (of_nat q) = of_nat s OR 0x80000000 \<and> nxt h (of_nat q) = 0)"

primrec chain :: "heap4 \<Rightarrow> u32 \<Rightarrow> nat list \<Rightarrow> u32 \<Rightarrow> bool" where
  "chain h p [] e \<longleftrightarrow> nxt h p = e"
| "chain h p (q # qs) e \<longleftrightarrow> nxt h p = of_nat q \<and> chain h (of_nat q) qs e"

primrec starts_free :: "blk list \<Rightarrow> bool" where
  "starts_free [] \<longleftrightarrow> False"
| "starts_free (b # bs) \<longleftrightarrow> (case b of Free s \<Rightarrow> True | Used s \<Rightarrow> False)"

primrec coalesced :: "blk list \<Rightarrow> bool" where
  "coalesced [] \<longleftrightarrow> True"
| "coalesced (b # bs) \<longleftrightarrow>
     (case b of Free s \<Rightarrow> \<not> starts_free bs | Used s \<Rightarrow> True) \<and> coalesced bs"

primrec row_bytes :: "blk list \<Rightarrow> nat" where
  "row_bytes [] = 0"
| "row_bytes (b # bs) = bsize b + row_bytes bs"

primrec free_bytes :: "blk list \<Rightarrow> nat" where
  "free_bytes [] = 0"
| "free_bytes (b # bs) = (case b of Free s \<Rightarrow> s | Used s \<Rightarrow> 0) + free_bytes bs"

text \<open>\<open>base\<close> and \<open>e\<close>: the aligned start of the array and the address of \<open>pxEnd\<close>.\<close>

definition heap_static :: "heap_cfg \<Rightarrow> nat \<Rightarrow> nat \<Rightarrow> heap4 \<Rightarrow> bool" where
  "heap_static cfg base e h \<longleftrightarrow>
     0 < base \<and> 8 dvd base \<and> e < 2 ^ 32 - 8 \<and> e < base + 2 ^ 31 \<and>
     (unat (xStart_addr cfg) < base \<or> e < unat (xStart_addr cfg)) \<and>
     siz h (xStart_addr cfg) = 0 \<and>
     pxEnd h = of_nat e \<and> siz h (of_nat e) = 0 \<and> nxt h (of_nat e) = 0 \<and>
     xBlockAllocatedBit h = 0x80000000"

definition heap_inv :: "heap_cfg \<Rightarrow> nat \<Rightarrow> nat \<Rightarrow> blk list \<Rightarrow> heap4 \<Rightarrow> bool" where
  "heap_inv cfg base e bs h \<longleftrightarrow>
     heap_static cfg base e h \<and>
     layout h base bs e \<and> tagged h (useds base bs) \<and> chain h (xStart_addr cfg) (frees base bs) (of_nat e) \<and>
     coalesced bs \<and> xFreeBytesRemaining h = of_nat (free_bytes bs) \<and>
     xMinimumEverFreeBytesRemaining h \<le> xFreeBytesRemaining h"

section \<open>Field algebra and frames\<close>

lemma set_fields [simp]:
  "nxt (set_nxt p q h) r = (if r = p then q else nxt h r)"
  "siz (set_siz p s h) r = (if r = p then s else siz h r)"
  "nxt (set_siz p s h) r = nxt h r"
  "siz (set_nxt p q h) r = siz h r"
  "pxEnd (set_nxt p q h) = pxEnd h" "pxEnd (set_siz p s h) = pxEnd h"
  "xFreeBytesRemaining (set_nxt p q h) = xFreeBytesRemaining h"
  "xFreeBytesRemaining (set_siz p s h) = xFreeBytesRemaining h"
  "xMinimumEverFreeBytesRemaining (set_nxt p q h) = xMinimumEverFreeBytesRemaining h"
  "xMinimumEverFreeBytesRemaining (set_siz p s h) = xMinimumEverFreeBytesRemaining h"
  "xBlockAllocatedBit (set_nxt p q h) = xBlockAllocatedBit h"
  "xBlockAllocatedBit (set_siz p s h) = xBlockAllocatedBit h"
  by (simp_all add: set_nxt_def set_siz_def)

lemma alignment_consts [simp]:
  "xHeapStructSize = 8" "heapMINIMUM_BLOCK_SIZE = 16"
  by (simp_all add: xHeapStructSize_def heapMINIMUM_BLOCK_SIZE_def portBYTE_ALIGNMENT_def
      portBYTE_ALIGNMENT_MASK_def)

lemma total_append [simp]: "row_bytes (xs @ ys) = row_bytes xs + row_bytes ys"
  by (induction xs) auto

lemma free_bytes_append [simp]: "free_bytes (xs @ ys) = free_bytes xs + free_bytes ys"
  by (induction xs) auto

lemma frees_append [simp]: "frees a (xs @ ys) = frees a xs @ frees (a + row_bytes xs) ys"
  by (induction xs arbitrary: a) (auto simp: add.assoc)

lemma layout_total: "layout h a bs e \<Longrightarrow> e = a + row_bytes bs"
proof (induction bs arbitrary: a)
  case (Cons b bs)
  then have "e = a + bsize b + row_bytes bs" by simp
  then show ?case by simp
qed simp

lemma layout_append:
  "layout h a (xs @ ys) e \<longleftrightarrow> layout h a xs (a + row_bytes xs) \<and> layout h (a + row_bytes xs) ys e"
  by (induction xs arbitrary: a) (auto simp: add.assoc)

lemma layout_dvd: "layout h a bs e \<Longrightarrow> 8 dvd row_bytes bs"
  by (induction bs arbitrary: a) auto

lemma frees_range: "layout h a bs e \<Longrightarrow> q \<in> set (frees a bs) \<Longrightarrow> a \<le> q \<and> q + 16 \<le> e"
proof (induction bs arbitrary: a)
  case (Cons b bs)
  then have "a + bsize b \<le> e" using layout_total by fastforce
  then show ?case using Cons by (cases b) fastforce+
qed simp

lemma frees_dvd: "layout h a bs e \<Longrightarrow> 8 dvd a \<Longrightarrow> q \<in> set (frees a bs) \<Longrightarrow> 8 dvd q"
  by (induction bs arbitrary: a) (auto split: blk.splits)

lemma free_bytes_le_total: "free_bytes bs \<le> row_bytes bs"
  by (induction bs) (auto split: blk.splits)

text \<open>
  \<open>layout\<close> depends on the sizes of the free blocks only, so relinking does not disturb it.
\<close>

lemma layout_frame:
  "layout h a bs e \<Longrightarrow> (\<And>q. q \<in> set (frees a bs) \<Longrightarrow> siz h' (of_nat q) = siz h (of_nat q)) \<Longrightarrow>
     layout h' a bs e"
  by (induction bs arbitrary: a) (auto split: blk.splits)

lemma chain_append:
  "chain h p (as @ bs) e \<longleftrightarrow>
     chain h p as (hd (map of_nat bs @ [e])) \<and> chain h (last (p # map of_nat as)) bs e"
  by (induction as arbitrary: p; cases bs) auto

lemma chain_nxt: "chain h p qs e \<Longrightarrow> nxt h p = hd (map of_nat qs @ [e])"
  by (cases qs) auto

lemma chain_frame:
  assumes "chain h p qs e" and "\<And>r. r \<in> set (p # map of_nat qs) \<Longrightarrow> nxt h' r = nxt h r"
  shows "chain h' p qs e"
  using assms by (induction qs arbitrary: p) auto

lemma find_free_pos_chain:
  assumes "chain h p (as @ bs) (of_nat e)"
    and "\<forall>q\<in>set as. q < b" "\<forall>q\<in>set bs. b \<le> q" "b \<le> e" "e < 2 ^ 32" "\<forall>q\<in>set (as @ bs). q < 2 ^ 32"
  shows "find_free_pos h (of_nat b) p = Some (last (p # map of_nat as))"
  using assms
proof (induction as arbitrary: p)
  case Nil
  have "\<not> nxt h p < (of_nat b :: u32)"
    using Nil by (cases bs) (auto simp: word_less_nat_alt unat_of_nat32)
  then show ?case by (subst find_free_pos.simps) simp
next
  case (Cons q as)
  have "nxt h p = of_nat q" "(of_nat q :: u32) < of_nat b"
    using Cons.prems by (auto simp: word_less_nat_alt unat_of_nat32)
  then show ?case using Cons by (subst find_free_pos.simps) auto
qed

lemma find_fit_chain:
  assumes "chain h p qs (of_nat e)" and "\<forall>q\<in>set qs. 0 < q \<and> q < 2 ^ 32" "0 < e" "e < 2 ^ 32"
    and "nxt h (of_nat e) = 0"
  shows "find_fit h w p (nxt h p) =
           (let as = takeWhile (\<lambda>q. siz h (of_nat q) < w) qs in
            Some (last (p # map of_nat as),
                  hd (map of_nat (drop (length as) qs) @ [of_nat e])))"
  using assms(1,2)
proof (induction qs arbitrary: p)
  case Nil
  then show ?case using assms(5) by (subst find_fit.simps) simp
next
  case (Cons q qs)
  have q: "nxt h p = of_nat q" and ch: "chain h (of_nat q) qs (of_nat e)" using Cons.prems by auto
  have nz: "nxt h (of_nat q) \<noteq> 0"
    using ch Cons.prems(2) assms(3,4) of_nat_eq32 [of _ 0] by (cases qs) auto
  show ?case
  proof (cases "siz h (of_nat q) < w")
    case True
    then show ?thesis using Cons.IH [OF ch] Cons.prems(2) q nz
      by (subst find_fit.simps) (simp add: Let_def)
  next
    case False
    then show ?thesis using q by (subst find_fit.simps) simp
  qed
qed

section \<open>Returning a block to the free list\<close>

text \<open>The row after the block between \<open>xs\<close> and \<open>ys\<close> is made free and merged.\<close>

definition join_left :: "blk list \<Rightarrow> nat \<Rightarrow> blk list \<times> nat" where
  "join_left xs s =
     (if xs = [] then ([], s)
      else case last xs of Free t \<Rightarrow> (butlast xs, t + s) | Used _ \<Rightarrow> (xs, s))"

definition join_right :: "nat \<Rightarrow> blk list \<Rightarrow> nat \<times> blk list" where
  "join_right s ys = (case ys of Free u # r \<Rightarrow> (s + u, r) | _ \<Rightarrow> (s, ys))"

definition join :: "blk list \<Rightarrow> nat \<Rightarrow> blk list \<Rightarrow> blk list" where
  "join xs s ys =
     (let (xs', t) = join_left xs s; (u, ys') = join_right t ys in xs' @ Free u # ys')"

lemma join_left_simps [simp]:
  "join_left [] s = ([], s)" "join_left (xs @ [Used u]) s = (xs @ [Used u], s)"
  "join_left (xs @ [Free t]) s = (xs, t + s)"
  by (simp_all add: join_left_def)

lemma join_right_simps [simp]:
  "join_right s [] = (s, [])" "join_right s (Used u # ys) = (s, Used u # ys)"
  "join_right s (Free u # ys) = (s + u, ys)"
  by (simp_all add: join_right_def)

lemma blk_row_cases:
  obtains "xs = []" | u xs' where "xs = xs' @ [Used u]" | t xs' where "xs = xs' @ [Free t]"
  by (metis blk.exhaust rev_exhaust)

lemma starts_free_append [simp]:
  "starts_free (xs @ ys) \<longleftrightarrow> starts_free xs \<or> xs = [] \<and> starts_free ys"
  by (cases xs) auto

lemma coalesced_append:
  "coalesced (xs @ ys) \<longleftrightarrow>
     coalesced xs \<and> coalesced ys \<and> \<not> (starts_free (rev xs) \<and> starts_free ys)"
  by (induction xs) (auto split: blk.splits)

lemma coalesced_append_free:
  "coalesced (xs @ Free s # ys) \<longleftrightarrow>
     coalesced xs \<and> coalesced ys \<and> \<not> starts_free (rev xs) \<and> \<not> starts_free ys"
  by (auto simp: coalesced_append)

lemma coalesced_append_used:
  "coalesced (xs @ Used s # ys) \<longleftrightarrow> coalesced xs \<and> coalesced ys"
  by (auto simp: coalesced_append)

lemma frees_distinct: "layout h a bs e \<Longrightarrow> distinct (frees a bs)"
proof (induction bs arbitrary: a)
  case (Cons b bs)
  have "a \<notin> set (frees (a + bsize b) bs)"
    using frees_range [of h "a + bsize b" bs e a] Cons.prems by auto
  then show ?case using Cons by (auto split: blk.splits)
qed simp

lemma frees_distinct_words:
  assumes "layout h a bs e" "e < 2 ^ 32"
  shows "distinct (map (of_nat :: nat \<Rightarrow> u32) (frees a bs))"
proof -
  have "inj_on (of_nat :: nat \<Rightarrow> u32) (set (frees a bs))"
  proof (rule inj_onI)
    fix x y :: nat
    assume "x \<in> set (frees a bs)" "y \<in> set (frees a bs)" "(of_nat x :: u32) = of_nat y"
    moreover have "x < 2 ^ 32" "y < 2 ^ 32"
      using frees_range [OF assms(1), of x] frees_range [OF assms(1), of y] assms(2) calculation
      by linarith+
    ultimately show "x = y" using of_nat_eq32 by blast
  qed
  then show ?thesis using frees_distinct [OF assms(1)] by (simp add: distinct_map)
qed

lemma free_size:
  "layout h a bs e \<Longrightarrow> q \<in> set (frees a bs) \<Longrightarrow>
     \<exists>t. siz h (of_nat q) = of_nat t \<and> 16 \<le> t \<and> q + t \<le> e"
proof (induction bs arbitrary: a)
  case (Cons b bs)
  have "a + bsize b \<le> e" using Cons.prems(1) layout_total by fastforce
  then show ?case using Cons by (cases b) auto
qed simp

text \<open>The combined effect of linking a free block of size \<open>n\<close> at \<open>a1\<close> into the row.\<close>

lemma link_free_block:
  assumes st: "heap_static cfg base e h"
    and lx: "layout h base xs a1" and ly: "layout h (a1 + n) ys e" and n: "8 dvd n" "16 \<le> n"
    and cx: "chain h (xStart_addr cfg) (frees base xs) w1"
    and cy: "chain h d (frees (a1 + n) ys) (of_nat e)"
    and F1: "\<And>r. siz h' r = (if r = of_nat a1 then of_nat n else siz h r)"
    and F2: "nxt h' (of_nat a1) = hd (map of_nat (frees (a1 + n) ys) @ [of_nat e])"
    and F3: "nxt h' (last (xStart_addr cfg # map of_nat (frees base xs))) = of_nat a1"
    and F4: "\<And>r. r \<noteq> of_nat a1 \<Longrightarrow> r \<noteq> last (xStart_addr cfg # map of_nat (frees base xs))
               \<Longrightarrow> nxt h' r = nxt h r"
  shows "layout h' base (xs @ Free n # ys) e"
    and "chain h' (xStart_addr cfg) (frees base (xs @ Free n # ys)) (of_nat e)"
    and "siz h' (xStart_addr cfg) = 0" "siz h' (of_nat e) = 0" "nxt h' (of_nat e) = 0"
proof -
  let ?X = "xStart_addr cfg"
  have e: "a1 + n + row_bytes ys = e" using layout_total [OF ly] by simp
  have a1: "base + row_bytes xs = a1" using layout_total [OF lx] by simp
  have b32: "e < 2 ^ 32" using st by (simp add: heap_static_def)
  have X: "?X \<noteq> of_nat q" if "base \<le> q" "q \<le> e" for q
    using st that b32 unat_of_nat32 [of q] by (auto simp: heap_static_def)
  have rx: "base \<le> q \<and> q + 16 \<le> a1" if "q \<in> set (frees base xs)" for q
    using frees_range [OF lx that] .
  have ry: "a1 + n \<le> q \<and> q + 16 \<le> e" if "q \<in> set (frees (a1 + n) ys)" for q
    using frees_range [OF ly that] .
  have lastX: "last (?X # map of_nat (frees base xs)) \<in> insert ?X (of_nat ` set (frees base xs))"
    by (cases "frees base xs" rule: rev_cases) auto
  have not_last: "(of_nat q :: u32) \<noteq> last (?X # map of_nat (frees base xs))"
    if "base \<le> q" "q \<le> e" "q \<notin> set (frees base xs)" for q
    using lastX X [OF that(1,2)] that rx of_nat_eq32 [of q] b32 a1 e by fastforce
  have lx': "layout h' base xs a1"
  proof (rule layout_frame [OF lx])
    fix q assume "q \<in> set (frees base xs)"
    then have "(of_nat q :: u32) \<noteq> of_nat a1" using rx [of q] b32 e by (subst of_nat_eq32) auto
    then show "siz h' (of_nat q) = siz h (of_nat q)" using F1 by simp
  qed
  have y_frame: "siz h' (of_nat q) = siz h (of_nat q) \<and> nxt h' (of_nat q) = nxt h (of_nat q)"
    if q: "a1 + n \<le> q" "q \<le> e" for q
  proof -
    have "(of_nat q :: u32) \<noteq> of_nat a1" using b32 e n q by (subst of_nat_eq32) auto
    moreover have "q \<notin> set (frees base xs)" using rx q by fastforce
    ultimately show ?thesis using F1 F4 not_last q a1 by simp
  qed
  have ly': "layout h' (a1 + n) ys e"
  proof (rule layout_frame [OF ly])
    fix q assume "q \<in> set (frees (a1 + n) ys)"
    then show "siz h' (of_nat q) = siz h (of_nat q)" using ry [of q] y_frame [of q] by simp
  qed
  show "layout h' base (xs @ Free n # ys) e"
    using lx' ly' a1 n F1 by (simp add: layout_append)
  show "siz h' ?X = 0" using F1 X [of a1] st e a1 by (simp add: heap_static_def)
  show "siz h' (of_nat e) = 0" "nxt h' (of_nat e) = 0"
    using y_frame [of e] e st by (simp_all add: heap_static_def)
  have tail: "chain h' (of_nat a1) (frees (a1 + n) ys) (of_nat e)"
  proof (cases "frees (a1 + n) ys")
    case Nil
    then show ?thesis using F2 by simp
  next
    case (Cons q qs)
    have "chain h (of_nat q) qs (of_nat e)" using cy Cons by simp
    then have "chain h' (of_nat q) qs (of_nat e)"
    proof (rule chain_frame)
      fix r :: u32 assume "r \<in> set (of_nat q # map of_nat qs)"
      then obtain k where "k \<in> set (frees (a1 + n) ys)" "r = of_nat k" using Cons by auto
      then show "nxt h' r = nxt h r" using ry [of k] y_frame [of k] by simp
    qed
    then show ?thesis using F2 Cons by simp
  qed
  have "chain h' ?X (frees base xs) (of_nat a1)"
    using cx F3 F4 rx X
  proof -
    have "chain h' p qs (of_nat a1)"
      if "chain h p qs w1" "nxt h' (last (p # map of_nat qs)) = of_nat a1"
        "\<And>r. r \<in> set (butlast (p # map of_nat qs)) \<Longrightarrow> nxt h' r = nxt h r" for p qs
      using that by (induction qs arbitrary: p) (auto split: if_splits)
    moreover have "nxt h' r = nxt h r" if r: "r \<in> set (butlast (?X # map of_nat (frees base xs)))" for r
    proof -
      have in_y: "\<exists>q\<in>set (frees base xs). r = of_nat q" if "r \<noteq> ?X" "r \<in> set (?X # map of_nat (frees base xs))" for r
        using that by auto
      have all32: "q < 2 ^ 32" "base \<le> q" "q < a1" if "q \<in> set (frees base xs)" for q
        using rx [OF that] e b32 by linarith+
      have "?X \<notin> of_nat ` set (frees base xs)" using X all32 e by fastforce
      then have "distinct (?X # map of_nat (frees base xs))"
        using frees_distinct_words [OF lx] b32 e by simp
      then have "r \<noteq> last (?X # map of_nat (frees base xs))"
        using r by (metis append_butlast_last_id distinct_append disjoint_iff list.distinct(1)
            list.set_intros(1))
      moreover have "r \<noteq> of_nat a1"
      proof (cases "r = ?X")
        case True
        then show ?thesis using X [of a1] a1 e by simp
      next
        case False
        then obtain q where "q \<in> set (frees base xs)" "r = of_nat q"
          using in_y [of r] r in_set_butlastD by fast
        then show ?thesis using all32 [of q] of_nat_eq32 [of q a1] b32 e by simp
      qed
      ultimately show ?thesis using F4 by simp
    qed
    ultimately show ?thesis using cx F3 by blast
  qed
  then show "chain h' ?X (frees base (xs @ Free n # ys)) (of_nat e)"
    using tail a1 F3 by (simp add: chain_append [where bs = "_ # _"] del: last.simps)
qed

lemma set_same [simp]:
  "set_siz p (siz h p) h = h"
  "set_siz p s (set_siz p t h) = set_siz p s h"
  by (simp_all add: set_siz_def)

text \<open>The two halves of the insertion, each one update of the joined block's header.\<close>

lemma left_stage:
  assumes st: "heap_static cfg base e h" and lx: "layout h base xs a" and e: "a + s \<le> e"
    and s: "siz h (of_nat a) = of_nat s" and jl: "join_left xs s = (xs', t)"
    and it: "it = last (xStart_addr cfg # map of_nat (frees base xs))"
  shows "(if it + siz h it = of_nat a then (it, set_siz it (siz h it + siz h (of_nat a)) h)
          else (of_nat a, h)) =
         (of_nat (base + row_bytes xs'), set_siz (of_nat (base + row_bytes xs')) (of_nat t) h)"
    and "it + siz h it = of_nat a \<longleftrightarrow> it = of_nat (base + row_bytes xs')"
    and "it = of_nat (base + row_bytes xs') \<longleftrightarrow> frees base xs = frees base xs' @ [base + row_bytes xs']"
    and "it \<noteq> of_nat (base + row_bytes xs') \<Longrightarrow> xs' = xs"
proof -
  have b32: "e < 2 ^ 32" using st by (simp add: heap_static_def)
  have a: "base + row_bytes xs = a" using layout_total [OF lx] by simp
  have X: "xStart_addr cfg \<noteq> of_nat q" if "base \<le> q" "q \<le> e" for q
    using st that b32 unat_of_nat32 [of q] by (auto simp: heap_static_def)
  consider (same) "it + siz h it \<noteq> of_nat a" "it \<noteq> of_nat a" "xs' = xs" "t = s"
    | (merge) z where "xs = xs' @ [Free z]" "t = z + s" "it = of_nat (base + row_bytes xs')"
        "siz h it = of_nat z"
  proof (cases xs rule: blk_row_cases)
    case 1
    then have "it = xStart_addr cfg" "siz h it = 0" "it \<noteq> of_nat a"
      using it st X [of a] a e by (auto simp: heap_static_def)
    then show ?thesis using jl 1 that(1) by simp
  next
    case (2 u ws)
    have lw: "layout h base ws (base + row_bytes ws)" "16 \<le> u" using lx 2 by (auto simp: layout_append)
    have "it + siz h it \<noteq> of_nat a \<and> it \<noteq> of_nat a"
    proof (cases "frees base ws" rule: rev_cases)
      case Nil
      then have "it = xStart_addr cfg" "siz h it = 0" "it \<noteq> of_nat a"
        using it st X [of a] a e 2 by (auto simp: heap_static_def)
      then show ?thesis by simp
    next
      case (snoc qs q)
      then have q: "q \<in> set (frees base ws)" "it = of_nat q" using it 2 by auto
      then obtain k where k: "siz h it = of_nat k" "16 \<le> k" "q + k \<le> base + row_bytes ws"
        using free_size [OF lw(1)] by blast
      then have "it + siz h it = of_nat (q + k)" using q by simp
      moreover have "q + k < a" "q < a" using k a 2 lw by auto
      ultimately show ?thesis using q b32 e of_nat_eq32 [of "q + k" a] of_nat_eq32 [of q a] by simp
    qed
    then show ?thesis using jl 2 that(1) by simp
  next
    case (3 z ws)
    then have "ws = xs'" "t = z + s" using jl by auto
    moreover have "siz h it = of_nat z" "it = of_nat (base + row_bytes ws)"
      using 3 lx it by (auto simp: layout_append)
    ultimately show ?thesis using 3 that(2) by blast
  qed
  note cases = this
  let ?b = "of_nat (base + row_bytes xs') :: u32"
  have ra: "(of_nat a :: u32) = ?b + of_nat z" if "xs = xs' @ [Free z]" for z
  proof -
    have "a = (base + row_bytes xs') + z" using a that by simp
    then show ?thesis by (simp only: of_nat_add)
  qed
  from cases have res: "(if it + siz h it = of_nat a then (it, set_siz it (siz h it + siz h (of_nat a)) h)
          else (of_nat a, h)) = (?b, set_siz ?b (of_nat t) h) \<and>
      (it + siz h it = of_nat a \<longleftrightarrow> it = ?b) \<and>
      (it = ?b \<longleftrightarrow> frees base xs = frees base xs' @ [base + row_bytes xs']) \<and>
      (it \<noteq> ?b \<longrightarrow> xs' = xs)"
  proof cases
    case same
    have "?b = of_nat a" using same a by simp
    moreover have "set_siz (of_nat a) (of_nat t) h = h" using s same by (metis set_same(1))
    ultimately show ?thesis using same by (metis append_self_conv not_Cons_self2)
  next
    case merge
    have "siz h it + siz h (of_nat a) = of_nat t" using merge s by simp
    moreover have "it + siz h it = of_nat a" using merge ra by metis
    moreover have "frees base xs = frees base xs' @ [base + row_bytes xs']" using merge(1) by simp
    ultimately show ?thesis using merge(3) by metis
  qed
  show "(if it + siz h it = of_nat a then (it, set_siz it (siz h it + siz h (of_nat a)) h)
          else (of_nat a, h)) = (?b, set_siz ?b (of_nat t) h)"
    "it + siz h it = of_nat a \<longleftrightarrow> it = ?b"
    "it = ?b \<longleftrightarrow> frees base xs = frees base xs' @ [base + row_bytes xs']"
    "it \<noteq> ?b \<Longrightarrow> xs' = xs"
    using res by blast+
qed

lemma right_stage:
  assumes st: "heap_static cfg base e h" and ly: "layout h c ys e"
    and cy: "chain h d (frees c ys) (of_nat e)"
    and jr: "join_right t ys = (u, ys')" and c: "c = a1 + t" and a1: "base \<le> a1" "16 \<le> t"
    and N: "nx = hd (map of_nat (frees c ys) @ [of_nat e])"
    and h1: "h1 = set_siz (of_nat a1) (of_nat t) h"
  shows "(if of_nat a1 + siz h1 (of_nat a1) = nx
          then (if nx \<noteq> pxEnd h1
                then (let h' = set_siz (of_nat a1) (siz h1 (of_nat a1) + siz h1 nx) h1
                      in set_nxt (of_nat a1) (nxt h' nx) h')
                else set_nxt (of_nat a1) (pxEnd h1) h1)
          else set_nxt (of_nat a1) nx h1) =
         set_nxt (of_nat a1) (hd (map of_nat (frees (a1 + u) ys') @ [of_nat e]))
           (set_siz (of_nat a1) (of_nat u) h)"
    and "layout h (a1 + u) ys' e" "\<exists>d. chain h d (frees (a1 + u) ys') (of_nat e)"
    and "8 dvd t \<Longrightarrow> 8 dvd u" "16 \<le> u"
proof -
  have b32: "e < 2 ^ 32" using st by (simp add: heap_static_def)
  have ce: "c + row_bytes ys = e" using layout_total [OF ly] by simp
  have pe: "pxEnd h = of_nat e" using st by (simp add: heap_static_def)
  consider (nil) "ys = []" | (used) w r where "ys = Used w # r" | (free) w r where "ys = Free w # r"
    by (metis blk.exhaust neq_Nil_conv)
  note cs = this
  show "(if of_nat a1 + siz h1 (of_nat a1) = nx
          then (if nx \<noteq> pxEnd h1
                then (let h' = set_siz (of_nat a1) (siz h1 (of_nat a1) + siz h1 nx) h1
                      in set_nxt (of_nat a1) (nxt h' nx) h')
                else set_nxt (of_nat a1) (pxEnd h1) h1)
          else set_nxt (of_nat a1) nx h1) =
         set_nxt (of_nat a1) (hd (map of_nat (frees (a1 + u) ys') @ [of_nat e]))
           (set_siz (of_nat a1) (of_nat u) h)"
    using cs
  proof cases
    case nil
    then have "nx = of_nat a1 + of_nat t" "u = t" "ys' = []" "nx = pxEnd h" "nx = of_nat e"
      using N jr ce c pe by (auto simp flip: of_nat_add)
    then show ?thesis using h1 by simp
  next
    case (used w r)
    obtain q where q: "nx = of_nat q" "c < q" "q \<le> e"
    proof (cases "frees (c + w) r")
      case Nil
      then show ?thesis using that [of e] N used ce ly by simp
    next
      case (Cons q qs)
      then show ?thesis
        using that [of q] N used frees_range [of h "c + w" r e q] ly by auto
    qed
    then have "of_nat a1 + of_nat t \<noteq> nx"
      using of_nat_eq32 [of c q] b32 ce c by simp
    moreover have "frees (a1 + t) ys = frees c ys" "u = t" "ys' = ys" using used jr c by auto
    ultimately show ?thesis using h1 N by simp
  next
    case (free w r)
    have lt: "c < e" using ce free ly by simp
    then have n: "nx = of_nat c" "nx \<noteq> pxEnd h" "siz h nx = of_nat w" "nx \<noteq> of_nat a1"
      using N free ly pe of_nat_eq32 [of c e] of_nat_eq32 [of c a1] b32 c a1 by auto
    moreover have "nxt h nx = hd (map of_nat (frees (c + w) r) @ [of_nat e])"
      using chain_nxt [of h nx] cy free n by simp
    moreover have "u = t + w" "ys' = r" using free jr by auto
    ultimately show ?thesis using h1 c by (simp add: add.assoc)
  qed
  show "layout h (a1 + u) ys' e" "8 dvd t \<Longrightarrow> 8 dvd u" "16 \<le> u"
    "\<exists>d. chain h d (frees (a1 + u) ys') (of_nat e)"
    using cs by (cases; use jr ly c cy a1 in \<open>auto simp: add.assoc\<close>)+
qed

lemma join_coalesced:
  assumes "coalesced xs" "coalesced ys"
  shows "coalesced (join xs s ys)"
proof -
  obtain xs' t where l: "join_left xs s = (xs', t)" by fastforce
  obtain u ys' where r: "join_right t ys = (u, ys')" by fastforce
  have "coalesced xs' \<and> \<not> starts_free (rev xs')"
    using assms(1) l by (cases xs rule: blk_row_cases) (auto simp: coalesced_append)
  moreover have "coalesced ys' \<and> \<not> starts_free ys'"
    using assms(2) r by (auto simp: join_right_def split: list.splits blk.splits)
  ultimately show ?thesis using l r by (simp add: join_def coalesced_append_free)
qed

lemma join_free_bytes: "free_bytes (join xs s ys) = free_bytes xs + s + free_bytes ys"
  by (cases xs rule: blk_row_cases; cases ys; cases "hd ys")
    (auto simp: join_def split: blk.splits)

lemma join_row_bytes: "row_bytes (join xs s ys) = row_bytes xs + s + row_bytes ys"
  by (cases xs rule: blk_row_cases; cases ys; cases "hd ys")
    (auto simp: join_def split: blk.splits)

lemma prvInsertBlockIntoFreeList_join:
  assumes st: "heap_static cfg base e h"
    and lx: "layout h base xs a" and ly: "layout h (a + s) ys e" and s: "8 dvd s" "16 \<le> s"
    and ch: "chain h (xStart_addr cfg) (frees base xs @ frees (a + s) ys) (of_nat e)"
    and sz: "siz h (of_nat a) = of_nat s"
  shows "\<exists>h'. prvInsertBlockIntoFreeList cfg (of_nat a) h = Some h' \<and>
           heap_static cfg base e h' \<and> layout h' base (join xs s ys) e \<and>
           chain h' (xStart_addr cfg) (frees base (join xs s ys)) (of_nat e) \<and>
           xFreeBytesRemaining h' = xFreeBytesRemaining h \<and>
           xMinimumEverFreeBytesRemaining h' = xMinimumEverFreeBytesRemaining h \<and>
           (\<forall>q. base \<le> q \<and> q < e \<and> q \<notin> set (frees base xs @ frees (a + s) ys) \<and> q \<noteq> a \<longrightarrow>
              links h' (of_nat q) = links h (of_nat q))"
proof -
  let ?X = "xStart_addr cfg"
  obtain xs' t where jl: "join_left xs s = (xs', t)" by fastforce
  obtain u ys' where jr: "join_right t ys = (u, ys')" by fastforce
  define a1 where "a1 = base + row_bytes xs'"
  define it where "it = last (?X # map of_nat (frees base xs))"
  define h1 where "h1 = set_siz (of_nat a1) (of_nat t) h"
  define N where "N = hd (map of_nat (frees (a1 + u) ys') @ [of_nat e :: u32])"
  define h2 where "h2 = set_nxt (of_nat a1) N (set_siz (of_nat a1) (of_nat u) h)"
  have b32: "e < 2 ^ 32" using st by (simp add: heap_static_def)
  have ce: "a + s + row_bytes ys = e" using layout_total [OF ly] by simp
  have ra: "base + row_bytes xs = a" using layout_total [OF lx] by simp
  have tt: "a1 + t = a + s" "8 dvd t" "16 \<le> t" "layout h base xs' a1"
    using jl s lx ra by (cases xs rule: blk_row_cases; auto simp: a1_def layout_append)+
  have pos: "find_free_pos h (of_nat a) ?X = Some it"
    unfolding it_def
  proof (rule find_free_pos_chain [OF ch])
    show "\<forall>q\<in>set (frees base xs). q < a" using frees_range [OF lx] by fastforce
    show "\<forall>q\<in>set (frees (a + s) ys). a \<le> q" using frees_range [OF ly] by fastforce
    show "\<forall>q\<in>set (frees base xs @ frees (a + s) ys). q < 2 ^ 32"
      using frees_range [OF lx] frees_range [OF ly] b32 ce by fastforce
  qed (use ce b32 in auto)
  have ch2: "chain h it (frees (a + s) ys) (of_nat e)"
    and ch1: "chain h ?X (frees base xs) (hd (map of_nat (frees (a + s) ys) @ [of_nat e]))"
    using ch by (simp_all add: chain_append it_def del: last.simps)
  have nit: "nxt h it = hd (map of_nat (frees (a + s) ys) @ [of_nat e])"
    using chain_nxt [OF ch2] .
  have ae: "a + s \<le> e" using ce by simp
  note left = left_stage [OF st lx ae sz jl it_def, folded a1_def]
  have n1: "nxt h1 it = hd (map of_nat (frees (a + s) ys) @ [of_nat e])" using nit by (simp add: h1_def)
  have right: "(if of_nat a1 + siz h1 (of_nat a1) = nxt h1 it
          then (if nxt h1 it \<noteq> pxEnd h1
                then (let h' = set_siz (of_nat a1) (siz h1 (of_nat a1) + siz h1 (nxt h1 it)) h1
                      in set_nxt (of_nat a1) (nxt h' (nxt h1 it)) h')
                else set_nxt (of_nat a1) (pxEnd h1) h1)
          else set_nxt (of_nat a1) (nxt h1 it) h1) = h2"
    unfolding h2_def N_def
    by (rule right_stage(1) [OF st ly ch2 jr tt(1) [symmetric] _ tt(3) n1 h1_def]) (simp add: a1_def)
  have r2: "layout h (a1 + u) ys' e" "\<exists>d. chain h d (frees (a1 + u) ys') (of_nat e)" "8 dvd u" "16 \<le> u"
    using right_stage(2-5) [OF st ly ch2 jr tt(1) [symmetric] _ tt(3) n1 h1_def] tt(2) a1_def by auto
  define h' where "h' = (if it \<noteq> of_nat a1 then set_nxt it (of_nat a1) h2 else h2)"
  have run: "prvInsertBlockIntoFreeList cfg (of_nat a) h = Some h'"
    unfolding prvInsertBlockIntoFreeList_def
    by (simp only: pos bind.bind_lunit left(1) [folded h1_def] Let_def split_conv set_fields
        right [unfolded Let_def set_fields] h'_def)
  have merged: "frees base xs = frees base xs' @ [a1]" if "it = of_nat a1"
    using left(3) that by simp
  have X1: "?X \<noteq> of_nat a1"
    using st tt ce unat_of_nat32 [of a1] b32 by (auto simp: heap_static_def a1_def)
  have l_ne: "last (?X # map of_nat (frees base xs')) \<noteq> (of_nat a1 :: u32)"
  proof (cases "frees base xs'" rule: rev_cases)
    case Nil
    then show ?thesis using X1 by simp
  next
    case (snoc qs q)
    then have "q + 16 \<le> a1" using frees_range [OF tt(4), of q] by simp
    then show ?thesis using snoc of_nat_eq32 [of q a1] b32 ce tt by simp
  qed
  have itl: "it = last (?X # map of_nat (frees base xs'))" if "it \<noteq> of_nat a1"
    using left(4) that by (simp add: it_def)
  obtain w1 where w1: "chain h ?X (frees base xs') w1"
    using ch1 merged left(4) by (cases "it = of_nat a1") (auto simp: chain_append)
  obtain d where d: "chain h d (frees (a1 + u) ys') (of_nat e)" using r2 by blast
  have F3: "nxt h' (last (?X # map of_nat (frees base xs'))) = of_nat a1"
  proof (cases "it = of_nat a1")
    case True
    then have "nxt h (last (?X # map of_nat (frees base xs'))) = of_nat a1"
      using ch1 merged by (simp add: chain_append del: last.simps)
    then show ?thesis using True l_ne by (simp add: h'_def h2_def del: last.simps)
  next
    case False
    then show ?thesis using itl by (simp add: h'_def del: last.simps)
  qed
  have F4: "\<And>r. r \<noteq> of_nat a1 \<Longrightarrow> r \<noteq> last (?X # map of_nat (frees base xs')) \<Longrightarrow>
      nxt h' r = nxt h r"
    using itl by (auto simp: h'_def h2_def simp del: last.simps)
  have F1: "siz h' r = (if r = of_nat a1 then of_nat u else siz h r)" for r
    by (simp add: h'_def h2_def)
  have F2: "nxt h' (of_nat a1) = hd (map of_nat (frees (a1 + u) ys') @ [of_nat e])"
    by (auto simp: h'_def h2_def N_def)
  have j: "join xs s ys = xs' @ Free u # ys'" using jl jr by (simp add: join_def)
  note link = link_free_block [OF st tt(4) r2(1,3,4) w1 d F1 F2 F3, OF F4]
  have hh: "pxEnd h' = pxEnd h" "xBlockAllocatedBit h' = xBlockAllocatedBit h"
    "xFreeBytesRemaining h' = xFreeBytesRemaining h"
    "xMinimumEverFreeBytesRemaining h' = xMinimumEverFreeBytesRemaining h"
    by (simp_all add: h'_def h2_def)
  moreover have "siz h' ?X = 0" "siz h' (of_nat e) = 0" "nxt h' (of_nat e) = 0"
    by ((rule link(3); assumption), (rule link(4); assumption), (rule link(5); assumption))
  ultimately have "heap_static cfg base e h'" using st by (simp add: heap_static_def)
  moreover have "layout h' base (join xs s ys) e"
    "chain h' ?X (frees base (join xs s ys)) (of_nat e)"
    unfolding j by ((rule link(1); assumption), (rule link(2); assumption))
  moreover have "links h' (of_nat q) = links h (of_nat q)"
    if q: "base \<le> q" "q < e" "q \<notin> set (frees base xs)" "q \<noteq> a" for q
  proof -
    have sub: "set (frees base xs') \<subseteq> set (frees base xs) \<and> (a1 = a \<or> a1 \<in> set (frees base xs))"
    proof (cases "it = of_nat a1")
      case True
      then show ?thesis using merged by auto
    next
      case False
      then have "xs' = xs" using left(4) by blast
      then show ?thesis using ra by (simp add: a1_def)
    qed
    have small: "q < 2 ^ 32" "a1 < 2 ^ 32" using q b32 tt(1) ce by linarith+
    have "q \<noteq> a1" using sub q by blast
    then have n1: "(of_nat q :: u32) \<noteq> of_nat a1" using of_nat_eq32 small by blast
    have "(of_nat q :: u32) \<noteq> last (?X # map of_nat (frees base xs'))"
    proof (cases "frees base xs'" rule: rev_cases)
      case Nil
      have "unat ?X \<noteq> q" using st q(1,2) by (simp only: heap_static_def) linarith
      then show ?thesis using Nil unat_of_nat32 [OF small(1)] by auto
    next
      case (snoc qs r)
      then have r: "r \<in> set (frees base xs')" by simp
      then have "r \<noteq> q" "r < 2 ^ 32" using sub q(3) frees_range [OF tt(4) r] small by auto
      then show ?thesis using snoc of_nat_eq32 [OF small(1), of r] by simp
    qed
    from F4 [OF n1 this] have "nxt h' (of_nat q) = nxt h (of_nat q)" .
    moreover have "siz h' (of_nat q) = siz h (of_nat q)" using F1 [of "of_nat q"] n1 by (simp only: if_False)
    ultimately show ?thesis by (intro BlockLink_t.equality) simp_all
  qed
  then have "\<forall>q. base \<le> q \<and> q < e \<and> q \<notin> set (frees base xs @ frees (a + s) ys) \<and> q \<noteq> a \<longrightarrow>
              links h' (of_nat q) = links h (of_nat q)" by simp
  ultimately show ?thesis using run hh(3,4) by (intro exI [of _ h'] conjI) assumption+
qed

section \<open>Allocation\<close>

text \<open>The request rounded up with its header, and the block the first-fit search takes.\<close>

definition padded :: "nat \<Rightarrow> nat" where
  "padded n = (n + 15) div 8 * 8"

primrec first_fit :: "nat \<Rightarrow> blk list \<Rightarrow> (blk list \<times> nat \<times> blk list) option" where
  "first_fit w [] = None"
| "first_fit w (b # bs) =
     (let rest = map_option (\<lambda>(xs, s, ys). (b # xs, s, ys)) (first_fit w bs) in
      case b of Free s \<Rightarrow> if w \<le> s then Some ([], s, bs) else rest | Used _ \<Rightarrow> rest)"

definition carve :: "nat \<Rightarrow> nat \<Rightarrow> blk list" where
  "carve w s = (if 16 < s - w then [Used w, Free (s - w)] else [Used s])"

lemma padded_bounds: "n + 8 \<le> padded n" "padded n \<le> n + 15" "8 dvd padded n"
proof -
  have "n + 15 = 8 * ((n + 15) div 8) + (n + 15) mod 8" "(n + 15) mod 8 < 8" by simp_all
  then show "n + 8 \<le> padded n" "padded n \<le> n + 15" unfolding padded_def by linarith+
qed (simp add: padded_def)

lemma adjust_wanted_padded:
  assumes "0 < unat n" "unat n < 2 ^ 31"
  shows "adjust_wanted cfg n = Some (of_nat (padded (unat n)))"
proof -
  define m where "m = unat n"
  have n: "n = of_nat m" and m: "0 < m" "m < 2 ^ 31"
    using assms by (simp_all add: m_def of_nat_unat32)
  have n8: "n + 8 = of_nat (m + 8)" using n by simp
  have w7: "(n + 8) AND 7 = of_nat (m mod 8)"
    unfolding n8 using m by (subst and_7_of_nat) simp_all
  have z: "(n + 8) AND 7 = 0 \<longleftrightarrow> m mod 8 = 0"
    unfolding n8 using m by (subst and_7_zero) (simp_all add: mod_eq_0_iff_dvd)
  have n0: "n > 0" using assms(1) by (simp add: word_less_nat_alt)
  show ?thesis
  proof (cases "m mod 8 = 0")
    case True
    then have "padded m = m + 8"
      by (auto simp: padded_def mod_eq_0_iff_dvd elim!: dvdE)
    then have "n + 8 = of_nat (padded m)" using n8 by simp
    then show ?thesis using n0 z True
      by (simp add: adjust_wanted_def portBYTE_ALIGNMENT_MASK_def flip: m_def)
  next
    case False
    define k r where "k = m div 8" and "r = m mod 8"
    have kr: "m = 8 * k + r" "r < 8" "r \<noteq> 0" using False by (simp_all add: k_def r_def)
    then have "(m + 15) div 8 = k + 2" by linarith
    then have p: "padded m = m + 8 + (8 - m mod 8)"
      using kr(1,2) unfolding padded_def r_def [symmetric] by linarith
    have e: "n + 8 + (8 - ((n + 8) AND 7)) = of_nat (padded m)"
      unfolding w7 p using n8 by (simp add: of_nat_diff order_less_imp_le)
    have "(of_nat (padded m) :: u32) AND 7 = 0"
      using padded_bounds(2) [of m] padded_bounds(3) [of m] m by (subst and_7_zero) simp_all
    then show ?thesis using n0 z False e
      by (simp add: adjust_wanted_def portBYTE_ALIGNMENT_MASK_def portBYTE_ALIGNMENT_def
          Let_def configASSERT_def flip: m_def)
  qed
qed

lemma first_fit_Some:
  "first_fit w bs = Some (xs, s, ys) \<Longrightarrow>
     bs = xs @ Free s # ys \<and> w \<le> s \<and> (\<forall>t. Free t \<in> set xs \<longrightarrow> t < w)"
  by (induction bs arbitrary: xs) (auto simp: Let_def split: blk.splits if_splits)

lemma first_fit_None: "first_fit w bs = None \<longleftrightarrow> (\<forall>t. Free t \<in> set bs \<longrightarrow> t < w)"
  by (induction bs) (auto simp: Let_def split: blk.splits if_splits)

lemma free_bytes_mem: "Free t \<in> set bs \<Longrightarrow> t \<le> free_bytes bs"
  by (induction bs) auto

lemma frees_small:
  assumes "layout h a bs e" "e < 2 ^ 32" "\<forall>t. Free t \<in> set bs \<longrightarrow> t < w" "w < 2 ^ 32"
  shows "\<forall>q\<in>set (frees a bs). siz h (of_nat q) < of_nat w"
  using assms
proof (induction bs arbitrary: a)
  case (Cons b bs)
  have "bsize b < 2 ^ 32" using Cons.prems(1,2) layout_total [OF Cons.prems(1)] by simp
  then show ?case using Cons by (cases b) (auto simp: of_nat_less32)
qed simp

lemma used_range:
  "layout h a bs e \<Longrightarrow> (q, s) \<in> set (useds a bs) \<Longrightarrow>
     a \<le> q \<and> q + s \<le> e \<and> 16 \<le> s \<and> 8 dvd s \<and> q \<notin> set (frees a bs)"
proof (induction bs arbitrary: a)
  case (Cons b bs)
  have le: "a + bsize b \<le> e" using Cons.prems(1) layout_total by fastforce
  consider "(q, s) = (a, bsize b)" "\<exists>u. b = Used u" | "(q, s) \<in> set (useds (a + bsize b) bs)"
    using Cons.prems(2) by (cases b) auto
  then show ?case
  proof cases
    case 1
    then show ?thesis using Cons.prems(1) le frees_range [of h "a + bsize b" bs e a] by auto
  next
    case 2
    then show ?thesis using Cons.IH [of "a + bsize b"] Cons.prems(1) by (auto split: blk.splits)
  qed
qed simp

lemma useds_append [simp]: "useds a (xs @ ys) = useds a xs @ useds (a + row_bytes xs) ys"
  by (induction xs arbitrary: a) (auto simp: add.assoc)

lemma tagged_append [simp]: "tagged h (us @ vs) \<longleftrightarrow> tagged h us \<and> tagged h vs"
  by (auto simp: tagged_def)

lemma tagged_Cons [simp]:
  "tagged h [] " "tagged h ((q, s) # us) \<longleftrightarrow>
     siz h (of_nat q) = of_nat s OR 0x80000000 \<and> nxt h (of_nat q) = 0 \<and> tagged h us"
  by (auto simp: tagged_def)

lemma tagged_frame:
  assumes "layout h a bs e" "tagged h (useds a bs)"
    and "\<And>q. a \<le> q \<Longrightarrow> q < e \<Longrightarrow> q \<notin> set (frees a bs) \<Longrightarrow> links h' (of_nat q) = links h (of_nat q)"
  shows "tagged h' (useds a bs)"
proof -
  have "links h' (of_nat q) = links h (of_nat q)" if "(q, s) \<in> set (useds a bs)" for q s
    using used_range [OF assms(1) that] assms(3) [of q] by auto
  then show ?thesis using assms(2) by (fastforce simp: tagged_def)
qed

lemma chain_unlink:
  assumes "chain h p (as @ b # bs) e" "distinct (p # map of_nat (as @ b # bs))"
  shows "chain (set_nxt (last (p # map of_nat as)) (nxt h (of_nat b)) h) p (as @ bs) e"
  using assms
proof (induction as arbitrary: p)
  case Nil
  have "chain (set_nxt p (nxt h (of_nat b)) h) (of_nat b) bs e"
    by (rule chain_frame [of h]) (use Nil in auto)
  then show ?case using Nil by (cases bs) auto
next
  case (Cons a as)
  have "last (of_nat a # map of_nat as) \<in> insert (of_nat a) (of_nat ` set as)"
    by (cases as rule: rev_cases) auto
  then have "p \<noteq> last (of_nat a # map of_nat as)" using Cons.prems(2) by auto
  then show ?case using Cons by simp
qed

lemma useds_disjoint_frees:
  assumes "layout h a bs e" "(q, s) \<in> set (useds a bs)"
  shows "q \<notin> set (frees a bs)"
  using used_range [OF assms] by blast

text \<open>The last steps of \<open>pvPortMalloc\<close>: accounting, then tagging the block taken.\<close>

definition commit :: "u32 \<Rightarrow> heap4 \<Rightarrow> heap4" where
  "commit blk h2 =
     (let h3 = h2\<lparr>xFreeBytesRemaining := xFreeBytesRemaining h2 - siz h2 blk\<rparr>;
          h4 = (if xFreeBytesRemaining h3 < xMinimumEverFreeBytesRemaining h3
                then h3\<lparr>xMinimumEverFreeBytesRemaining := xFreeBytesRemaining h3\<rparr> else h3)
      in set_nxt blk 0 (set_siz blk (siz h4 blk OR xBlockAllocatedBit h4) h4))"

lemma commit_simps:
  "links (commit b h) r = (if r = b then \<lparr>pxNextFreeBlock = 0, xBlockSize = siz h b OR xBlockAllocatedBit h\<rparr>
                           else links h r)"
  "pxEnd (commit b h) = pxEnd h" "xBlockAllocatedBit (commit b h) = xBlockAllocatedBit h"
  "xFreeBytesRemaining (commit b h) = xFreeBytesRemaining h - siz h b"
  "xMinimumEverFreeBytesRemaining (commit b h) \<le> xFreeBytesRemaining (commit b h)"
  by (auto simp: commit_def Let_def set_nxt_def set_siz_def)

lemma commit_inv:
  assumes st: "heap_static cfg base e h"
    and l: "layout h base (xs @ Used t # ys) e"
    and c: "chain h (xStart_addr cfg) (frees base (xs @ Used t # ys)) (of_nat e)"
    and co: "coalesced (xs @ Used t # ys)" and a: "a = base + row_bytes xs"
    and s: "siz h (of_nat a) = of_nat t"
    and tg: "tagged h (useds base xs)" "tagged h (useds (a + t) ys)"
    and f: "xFreeBytesRemaining h = of_nat (free_bytes (xs @ ys) + t)"
  shows "heap_inv cfg base e (xs @ Used t # ys) (commit (of_nat a) h)"
proof -
  let ?bs = "xs @ Used t # ys" and ?h = "commit (of_nat a) h"
  have b32: "e < 2 ^ 32" using st by (simp add: heap_static_def)
  have lx: "layout h base xs a" and ly: "layout h (a + t) ys e" and t: "16 \<le> t"
    using l a by (auto simp: layout_append)
  have e: "e = base + row_bytes ?bs" using layout_total [OF l] .
  then have ae: "base \<le> a" "a + t \<le> e" using a by auto
  have other: "links ?h (of_nat q) = links h (of_nat q)" if "q \<noteq> a" "q \<le> e" for q
    using of_nat_eq32 [of q a] that ae t b32 by (simp add: commit_simps)
  have X: "links ?h (xStart_addr cfg) = links h (xStart_addr cfg)"
    using st ae b32 t unat_of_nat32 [of a] by (auto simp: commit_simps heap_static_def)
  have E: "links ?h (of_nat e) = links h (of_nat e)" using other [of e] ae t by simp
  have fr: "q \<noteq> a \<and> q \<le> e" if "q \<in> set (frees base ?bs)" for q
    using that frees_range [OF lx, of q] frees_range [OF ly, of q] a ae t by auto
  have us: "q \<noteq> a \<and> q \<le> e" if "(q, s) \<in> set (useds base xs) \<or> (q, s) \<in> set (useds (a + t) ys)" for q s
    using that used_range [OF lx, of q s] used_range [OF ly, of q s] ae t by auto
  have "heap_static cfg base e ?h" using st X E by (simp add: heap_static_def commit_simps(2,3))
  moreover have "layout ?h base ?bs e"
    by (rule layout_frame [OF l]) (use fr other in auto)
  moreover have "chain ?h (xStart_addr cfg) (frees base ?bs) (of_nat e)"
  proof (rule chain_frame [OF c])
    fix r :: u32 assume "r \<in> set (xStart_addr cfg # map of_nat (frees base ?bs))"
    then show "nxt ?h r = nxt h r" using X fr other by auto
  qed
  moreover have "tagged ?h (useds base ?bs)"
  proof -
    have "tagged ?h (useds base xs)" "tagged ?h (useds (a + t) ys)"
      using tg us other by (fastforce simp: tagged_def)+
    moreover have "siz ?h (of_nat a) = of_nat t OR 0x80000000 \<and> nxt ?h (of_nat a) = 0"
      using s st by (simp add: commit_simps heap_static_def)
    ultimately show ?thesis using a by simp
  qed
  moreover have "xFreeBytesRemaining ?h = of_nat (free_bytes ?bs)"
    using f s by (simp add: commit_simps)
  ultimately show ?thesis using co commit_simps(5) unfolding heap_inv_def by blast
qed

lemma take_block_commit:
  "take_block cfg w prev blk h =
     do { let pvReturn = nxt h prev + xHeapStructSize;
          let h1 = set_nxt prev (nxt h blk) h;
          h2 \<leftarrow> (if siz h1 blk - w > heapMINIMUM_BLOCK_SIZE
                 then do { let nb = blk + w;
                           configASSERT cfg (nb AND portBYTE_ALIGNMENT_MASK = 0);
                           let h' = set_siz nb (siz h1 blk - w) h1;
                           let h'' = set_siz blk w h';
                           prvInsertBlockIntoFreeList cfg nb h'' }
                 else Some h1);
          Some (pvReturn, commit blk h2) }"
  by (simp add: take_block_def commit_def Let_def)

lemma last_chain_mem: "last (p # map of_nat qs) \<in> insert p (of_nat ` set qs)"
  by (cases qs rule: rev_cases) auto

lemma xStart_outside:
  assumes "heap_static cfg base e h" "base \<le> q" "q \<le> e"
  shows "xStart_addr cfg \<noteq> of_nat q"
  using assms unat_of_nat32 [of q] by (auto simp: heap_static_def)

lemma unlink_free:
  assumes st: "heap_static cfg base e h" and l: "layout h base (xs @ Free s # ys) e"
    and tg: "tagged h (useds base (xs @ Free s # ys))"
    and c: "chain h (xStart_addr cfg) (frees base (xs @ Free s # ys)) (of_nat e)"
    and a: "a = base + row_bytes xs" and pv: "prev = last (xStart_addr cfg # map of_nat (frees base xs))"
    and h1: "h1 = set_nxt prev (nxt h (of_nat a)) h"
  shows "nxt h prev = of_nat a" "heap_static cfg base e h1"
    and "layout h1 base xs a" "layout h1 (a + s) ys e"
    and "chain h1 (xStart_addr cfg) (frees base xs @ frees (a + s) ys) (of_nat e)"
    and "tagged h1 (useds base xs)" "tagged h1 (useds (a + s) ys)"
proof -
  let ?X = "xStart_addr cfg" and ?bs = "xs @ Free s # ys"
  have b32: "e < 2 ^ 32" using st by (simp add: heap_static_def)
  note X = xStart_outside [OF st]
  have lx: "layout h base xs a" and ly: "layout h (a + s) ys e" and s: "16 \<le> s"
    using l a by (auto simp: layout_append)
  have ae: "a + s + row_bytes ys = e" using layout_total [OF ly] by simp
  have fr: "frees base ?bs = frees base xs @ a # frees (a + s) ys" using a by simp
  have "?X \<notin> of_nat ` set (frees base ?bs)"
  proof
    assume "?X \<in> of_nat ` set (frees base ?bs)"
    then obtain q where "q \<in> set (frees base ?bs)" "?X = of_nat q" by blast
    then show False using X [of q] frees_range [OF l, of q] by linarith
  qed
  then have dist: "distinct (?X # map of_nat (frees base xs @ a # frees (a + s) ys))"
    using frees_distinct_words [OF l b32] unfolding fr by (simp add: image_Un)
  show c1: "chain h1 ?X (frees base xs @ frees (a + s) ys) (of_nat e)"
    unfolding h1 pv by (rule chain_unlink [OF c [unfolded fr] dist])
  show "nxt h prev = of_nat a"
    using c unfolding fr pv by (simp add: chain_append del: last.simps)
  have nprev: "of_nat q \<noteq> prev" if q: "base \<le> q" "q \<le> e" "q \<notin> set (frees base xs)" for q
  proof
    assume "of_nat q = prev"
    then have "of_nat q \<in> (of_nat ` set (frees base xs) :: u32 set)"
      using last_chain_mem [of ?X "frees base xs"] X [OF q(1,2)] unfolding pv by auto
    then obtain k where k: "k \<in> set (frees base xs)" "(of_nat q :: u32) = of_nat k" by blast
    then have "q = k" using frees_range [OF lx k(1)] of_nat_eq32 [of q k] q ae b32 by simp
    then show False using k q by simp
  qed
  have links1: "links h1 (of_nat q) = links h (of_nat q)"
    if "base \<le> q" "q \<le> e" "q \<notin> set (frees base xs)" for q
    using nprev [OF that] by (simp add: h1 set_nxt_def)
  have siz1: "siz h1 r = siz h r" for r by (simp add: h1)
  show "layout h1 base xs a" by (rule layout_frame [OF lx]) (simp add: siz1)
  show "layout h1 (a + s) ys e" by (rule layout_frame [OF ly]) (simp add: siz1)
  have "links h1 (of_nat e) = links h (of_nat e)"
    using links1 [of e] frees_range [OF lx, of e] ae s a by force
  then show "heap_static cfg base e h1" using st by (simp add: heap_static_def siz1) (simp add: h1)
  show "tagged h1 (useds base xs)"
    by (rule tagged_frame [OF lx]) (use tg links1 ae in auto)
  have "tagged h (useds (a + s) ys)" using tg a by simp
  then show "tagged h1 (useds (a + s) ys)"
  proof (rule tagged_frame [OF ly])
    fix q assume "a + s \<le> q" "q < e"
    then show "links h1 (of_nat q) = links h (of_nat q)"
      using links1 [of q] frees_range [OF lx, of q] a by force
  qed
qed

lemma take_whole_inv:
  assumes st: "heap_static cfg base e h1" and lx: "layout h1 base xs a" and ly: "layout h1 (a + s) ys e"
    and c: "chain h1 (xStart_addr cfg) (frees base xs @ frees (a + s) ys) (of_nat e)"
    and tg: "tagged h1 (useds base xs)" "tagged h1 (useds (a + s) ys)"
    and s: "8 dvd s" "16 \<le> s" and co: "coalesced (xs @ Free s # ys)"
    and sa: "siz h1 (of_nat a) = of_nat s"
    and f: "xFreeBytesRemaining h1 = of_nat (free_bytes (xs @ Free s # ys))"
  shows "heap_inv cfg base e (xs @ Used s # ys) (commit (of_nat a) h1)"
proof (rule commit_inv [OF st _ _ _ _ sa tg])
  show a: "a = base + row_bytes xs" using layout_total [OF lx] .
  show "layout h1 base (xs @ Used s # ys) e" using lx ly s a by (simp add: layout_append)
  show "chain h1 (xStart_addr cfg) (frees base (xs @ Used s # ys)) (of_nat e)" using c a by simp
  show "coalesced (xs @ Used s # ys)" using co by (simp add: coalesced_append_used coalesced_append_free)
  show "xFreeBytesRemaining h1 = of_nat (free_bytes (xs @ ys) + s)"
    using f by (simp add: add.commute add.left_commute)
qed

lemma take_split_inv:
  assumes st: "heap_static cfg base e h1" and lx: "layout h1 base xs a" and ly: "layout h1 (a + s) ys e"
    and c: "chain h1 (xStart_addr cfg) (frees base xs @ frees (a + s) ys) (of_nat e)"
    and tg: "tagged h1 (useds base xs)" "tagged h1 (useds (a + s) ys)"
    and s: "8 dvd s" and co: "coalesced (xs @ Free s # ys)"
    and f: "xFreeBytesRemaining h1 = of_nat (free_bytes (xs @ Free s # ys))"
    and w: "8 dvd w" "16 \<le> w" "16 < s - w"
    and h2: "h2 = set_siz (of_nat a) (of_nat w) (set_siz (of_nat (a + w)) (of_nat (s - w)) h1)"
  shows "\<exists>h3. prvInsertBlockIntoFreeList cfg (of_nat (a + w)) h2 = Some h3 \<and>
           heap_inv cfg base e (xs @ Used w # Free (s - w) # ys) (commit (of_nat a) h3)"
proof -
  let ?X = "xStart_addr cfg"
  have b32: "e < 2 ^ 32" using st by (simp add: heap_static_def)
  note X = xStart_outside [OF st]
  have a: "a = base + row_bytes xs" using layout_total [OF lx] .
  have ae: "a + s + row_bytes ys = e" using layout_total [OF ly] by simp
  have aw: "(of_nat (a + w) :: u32) \<noteq> of_nat a" using of_nat_eq32 [of "a + w" a] ae w b32 by simp
  have hdr: "links h2 (of_nat q) = links h1 (of_nat q)" if "q \<noteq> a" "q \<noteq> a + w" "q \<le> e" for q
    using of_nat_eq32 [of q a] of_nat_eq32 [of q "a + w"] that ae w b32
    by (simp add: h2 set_siz_def)
  have hx: "links h2 (of_nat q) = links h1 (of_nat q)" if "q < a \<or> a + s \<le> q" "q \<le> e" for q
    using hdr [of q] that w by linarith
  have nx2: "nxt h2 r = nxt h1 r" for r by (simp add: h2)
  have X2: "siz h2 ?X = siz h1 ?X" using X [of a] X [of "a + w"] ae a w by (simp add: h2)
  have E2: "links h2 (of_nat e) = links h1 (of_nat e)" using hx [of e] ae by simp
  have st2: "heap_static cfg base e h2"
    using st X2 E2 by (simp add: heap_static_def) (simp add: h2)
  have "layout h2 base xs a"
  proof (rule layout_frame [OF lx])
    fix q assume "q \<in> set (frees base xs)"
    then show "siz h2 (of_nat q) = siz h1 (of_nat q)" using hx [of q] frees_range [OF lx, of q] ae by simp
  qed
  then have lxw: "layout h2 base (xs @ [Used w]) (a + w)" using w a by (simp add: layout_append)
  have "layout h2 (a + s) ys e"
  proof (rule layout_frame [OF ly])
    fix q assume "q \<in> set (frees (a + s) ys)"
    then show "siz h2 (of_nat q) = siz h1 (of_nat q)" using hx [of q] frees_range [OF ly, of q] by simp
  qed
  then have ly2: "layout h2 (a + w + (s - w)) ys e" using w by simp
  have ch2: "chain h2 ?X (frees base (xs @ [Used w]) @ frees (a + w + (s - w)) ys) (of_nat e)"
    using chain_frame [OF c, of h2] nx2 w by simp
  have d: "8 dvd s - w" "16 \<le> s - w" using s w by (auto intro: dvd_diff_nat)
  have sz2: "siz h2 (of_nat (a + w)) = of_nat (s - w)" using aw by (simp add: h2)
  have jn: "join (xs @ [Used w]) (s - w) ys = xs @ Used w # Free (s - w) # ys"
    using co by (cases ys; cases "hd ys") (auto simp: join_def coalesced_append_free)
  obtain h3 where run: "prvInsertBlockIntoFreeList cfg (of_nat (a + w)) h2 = Some h3"
    and st3: "heap_static cfg base e h3" and l3: "layout h3 base (xs @ Used w # Free (s - w) # ys) e"
    and c3: "chain h3 ?X (frees base (xs @ Used w # Free (s - w) # ys)) (of_nat e)"
    and f3: "xFreeBytesRemaining h3 = xFreeBytesRemaining h2"
    and fr3: "\<forall>q. base \<le> q \<and> q < e \<and> q \<notin> set (frees base (xs @ [Used w]) @ frees (a + w + (s - w)) ys)
          \<and> q \<noteq> a + w \<longrightarrow> links h3 (of_nat q) = links h2 (of_nat q)"
    using prvInsertBlockIntoFreeList_join [OF st2 lxw ly2 d ch2 sz2] unfolding jn by blast
  have keep: "links h3 (of_nat q) = links h2 (of_nat q)"
    if "base \<le> q" "q < e" "q \<notin> set (frees base xs)" "q \<notin> set (frees (a + s) ys)" "q \<noteq> a + w" for q
    using fr3 that w by simp
  have "heap_inv cfg base e (xs @ Used w # Free (s - w) # ys) (commit (of_nat a) h3)"
  proof (rule commit_inv [OF st3 l3 c3 _ a])
    show "coalesced (xs @ Used w # Free (s - w) # ys)"
      using co by (simp add: coalesced_append_used coalesced_append_free)
    have "a \<notin> set (frees base xs)" "a \<notin> set (frees (a + s) ys)"
      using frees_range [OF lx, of a] frees_range [OF ly, of a] w by auto
    then have "links h3 (of_nat a) = links h2 (of_nat a)" using keep [of a] a ae w by simp
    then show "siz h3 (of_nat a) = of_nat w" by (simp add: h2)
    show "tagged h3 (useds base xs)"
    proof (rule tagged_frame [OF lx tg(1)])
      fix q assume q: "base \<le> q" "q < a" "q \<notin> set (frees base xs)"
      then have "q \<notin> set (frees (a + s) ys)" using frees_range [OF ly, of q] by auto
      then show "links h3 (of_nat q) = links h1 (of_nat q)" using keep [of q] hx [of q] q ae by simp
    qed
    have "tagged h3 (useds (a + s) ys)"
    proof (rule tagged_frame [OF ly tg(2)])
      fix q assume q: "a + s \<le> q" "q < e" "q \<notin> set (frees (a + s) ys)"
      then have "q \<notin> set (frees base xs)" using frees_range [OF lx, of q] by auto
      then show "links h3 (of_nat q) = links h1 (of_nat q)" using keep [of q] hx [of q] q a w by simp
    qed
    then show "tagged h3 (useds (a + w) (Free (s - w) # ys))" using w by simp
    show "xFreeBytesRemaining h3 = of_nat (free_bytes (xs @ Free (s - w) # ys) + w)"
      using f3 f w by (simp add: h2 of_nat_diff)
  qed
  then show ?thesis using run by blast
qed

lemma take_block_inv:
  assumes inv: "heap_inv cfg base e (xs @ Free s # ys) h"
    and a: "a = base + row_bytes xs" and w: "8 dvd w" "16 \<le> w" "w \<le> s"
    and pv: "prev = last (xStart_addr cfg # map of_nat (frees base xs))"
  shows "\<exists>h'. take_block cfg (of_nat w) prev (of_nat a) h = Some (of_nat (a + 8), h') \<and>
           heap_inv cfg base e (xs @ carve w s @ ys) h'"
proof -
  let ?X = "xStart_addr cfg" and ?bs = "xs @ Free s # ys"
  define h1 where "h1 = set_nxt prev (nxt h (of_nat a)) h"
  from inv have st: "heap_static cfg base e h" and l: "layout h base ?bs e"
    and tg: "tagged h (useds base ?bs)" and c: "chain h ?X (frees base ?bs) (of_nat e)"
    and co: "coalesced ?bs" and f: "xFreeBytesRemaining h = of_nat (free_bytes ?bs)"
    unfolding heap_inv_def by blast+
  note u = unlink_free [OF st l tg c a pv h1_def]
  have s: "16 \<le> s" "8 dvd s" and sa: "siz h (of_nat a) = of_nat s"
    using l a by (auto simp: layout_append)
  have f1: "xFreeBytesRemaining h1 = of_nat (free_bytes ?bs)" using f by (simp add: h1_def)
  have sa1: "siz h1 (of_nat a) = of_nat s" using sa by (simp add: h1_def)
  have e: "a + s + row_bytes ys = e" using layout_total [OF u(4)] by simp
  have small: "e < 2 ^ 32" and b8: "8 dvd base" using st by (simp_all add: heap_static_def)
  have diff: "(of_nat s :: u32) - of_nat w = of_nat (s - w)" by (rule of_nat_sub32 [OF w(3)])
  have gt: "(of_nat s :: u32) - of_nat w > 16 \<longleftrightarrow> 16 < s - w"
    unfolding diff using of_nat_less32 [of 16 "s - w"] e small by simp
  show ?thesis
  proof (cases "16 < s - w")
    case False
    have "heap_inv cfg base e (xs @ Used s # ys) (commit (of_nat a) h1)"
      by (rule take_whole_inv [OF u(2-7) s(2,1) co sa1 f1])
    then show ?thesis
      using u(1) False unfolding take_block_commit
      by (simp add: carve_def Let_def gt sa1 flip: h1_def)
  next
    case True
    define h2 where "h2 = set_siz (of_nat a) (of_nat w) (set_siz (of_nat (a + w)) (of_nat (s - w)) h1)"
    obtain h3 where "prvInsertBlockIntoFreeList cfg (of_nat (a + w)) h2 = Some h3"
      and "heap_inv cfg base e (xs @ Used w # Free (s - w) # ys) (commit (of_nat a) h3)"
      using take_split_inv [OF u(2-7) s(2) co f1 w(1,2) True h2_def] by blast
    moreover have "8 dvd a + w" using layout_dvd [OF u(3)] a b8 w by simp
    then have "configASSERT cfg ((of_nat (a + w) :: u32) AND portBYTE_ALIGNMENT_MASK = 0) = Some ()"
      using and_7_zero [of "a + w"] e w small
      by (simp add: configASSERT_def portBYTE_ALIGNMENT_MASK_def)
    ultimately show ?thesis
      using u(1) True unfolding take_block_commit h2_def diff [symmetric]
      by (simp add: carve_def Let_def gt sa1 flip: h1_def)
  qed
qed

lemma pvPortMalloc_spec:
  assumes inv: "heap_inv cfg base e bs h"
  shows "case (if 0 < unat n \<and> unat n < 2 ^ 31 then first_fit (padded (unat n)) bs else None) of
           None \<Rightarrow> pvPortMalloc cfg n h = Some (0, h)
         | Some (xs, s, ys) \<Rightarrow>
             \<exists>h'. pvPortMalloc cfg n h = Some (of_nat (base + row_bytes xs + 8), h') \<and>
                  heap_inv cfg base e (xs @ carve (padded (unat n)) s @ ys) h'"
proof -
  let ?X = "xStart_addr cfg"
  define w where "w = padded (unat n)"
  from inv have st: "heap_static cfg base e h" and l: "layout h base bs e"
    and c: "chain h ?X (frees base bs) (of_nat e)"
    and f: "xFreeBytesRemaining h = of_nat (free_bytes bs)"
    unfolding heap_inv_def by blast+
  from st have b: "0 < base" "8 dvd base" "e < 2 ^ 32 - 8" and pe: "pxEnd h = of_nat e"
    and bit: "xBlockAllocatedBit h = 0x80000000" and ne: "nxt h (of_nat e) = 0"
    unfolding heap_static_def by blast+
  have ee: "e = base + row_bytes bs" using layout_total [OF l] .
  then have e0: "0 < e" "e < 2 ^ 32" using b by auto
  have pe0: "pxEnd h \<noteq> 0" using pe of_nat_eq32 [of e 0] e0 by simp
  have guard: "n AND xBlockAllocatedBit h = 0 \<longleftrightarrow> unat n < 2 ^ 31" using bit top_bit_clear by simp
  have ok0: "configASSERT cfg ((0::u32) AND portBYTE_ALIGNMENT_MASK = 0) = Some ()"
    by (simp add: configASSERT_def)
  consider (big) "\<not> unat n < 2 ^ 31" | (zero) "n = 0" | (go) "0 < unat n" "unat n < 2 ^ 31"
    by (metis neq0_conv unat_eq_zero)
  then show ?thesis
  proof cases
    case big
    then have "pvPortMalloc cfg n h = Some (0, h)"
      using guard pe0 ok0 by (simp add: pvPortMalloc_def)
    then show ?thesis using big by simp
  next
    case zero
    then have "pvPortMalloc cfg n h = Some (0, h)"
      using pe0 ok0 by (simp add: pvPortMalloc_def adjust_wanted_def)
    then show ?thesis using zero by simp
  next
    case go
    have w: "8 dvd w" "16 \<le> w" "w < 2 ^ 32" "unat n + 8 \<le> w"
      using padded_bounds [of "unat n"] go by (auto simp: w_def padded_def)
    have w0: "(of_nat w :: u32) > 0" using of_nat_less32 [of 0 w] w by simp
    have fl: "free_bytes bs < 2 ^ 32" using free_bytes_le_total [of bs] ee e0 by simp
    have wf: "of_nat w \<le> xFreeBytesRemaining h \<longleftrightarrow> w \<le> free_bytes bs"
      unfolding f by (rule of_nat_le32 [OF w(3) fl])
    have rng: "\<forall>q\<in>set (frees base bs). 0 < q \<and> q < 2 ^ 32"
      using frees_range [OF l] b e0 by fastforce
    have run: "pvPortMalloc cfg n h =
        do { (r, h') \<leftarrow> (if w \<le> free_bytes bs
               then do { (prev, blk) \<leftarrow> find_fit h (of_nat w) ?X (nxt h ?X);
                         if blk \<noteq> pxEnd h then take_block cfg (of_nat w) prev blk h else Some (0, h) }
               else Some (0, h));
             configASSERT cfg (r AND portBYTE_ALIGNMENT_MASK = 0); Some (r, h') }"
      using go guard pe0 w0 wf adjust_wanted_padded [OF go, of cfg, folded w_def]
      by (simp add: pvPortMalloc_def)
    note fit = find_fit_chain [OF c rng e0 ne]
    show ?thesis
    proof (cases "first_fit w bs")
      case None
      then have small: "\<forall>t. Free t \<in> set bs \<longrightarrow> t < w" using first_fit_None by blast
      have tw: "takeWhile (\<lambda>q. siz h (of_nat q) < of_nat w) (frees base bs) = frees base bs"
        using frees_small [OF l e0(2) small w(3)] by (simp add: takeWhile_eq_all_conv)
      then have "find_fit h (of_nat w) ?X (nxt h ?X) = Some (last (?X # map of_nat (frees base bs)), of_nat e)"
        unfolding fit Let_def tw by simp
      then have "pvPortMalloc cfg n h = Some (0, h)" using pe ok0 by (simp add: run)
      then show ?thesis using None by (simp flip: w_def)
    next
      case (Some r)
      then obtain xs s ys where ff: "first_fit w bs = Some (xs, s, ys)" by (metis prod_cases3)
      note sp = first_fit_Some [OF ff]
      define a where "a = base + row_bytes xs"
      have lx: "layout h base xs a" and sa: "siz h (of_nat a) = of_nat s"
        and ly: "layout h (a + s) ys e" and s16: "16 \<le> s"
        using l sp a_def by (auto simp: layout_append)
      have ae: "a + s \<le> e" using layout_total [OF ly] by simp
      have small: "\<forall>q\<in>set (frees base xs). siz h (of_nat q) < of_nat w"
        by (rule frees_small [OF lx]) (use sp ae e0 w in auto)
      have "\<not> siz h (of_nat a) < of_nat w"
        using sa of_nat_less32 [of s w] sp ae e0 w by simp
      moreover have fb: "frees base bs = frees base xs @ a # frees (a + s) ys" using sp a_def by simp
      ultimately have tw: "takeWhile (\<lambda>q. siz h (of_nat q) < of_nat w) (frees base bs) = frees base xs"
        using small by (simp add: takeWhile_append2)
      have "find_fit h (of_nat w) ?X (nxt h ?X) = Some (last (?X # map of_nat (frees base xs)), of_nat a)"
        unfolding fit Let_def tw unfolding fb by simp
      moreover have "(of_nat a :: u32) \<noteq> pxEnd h"
        using pe of_nat_eq32 [of a e] ae s16 e0 by simp
      moreover obtain h' where "take_block cfg (of_nat w) (last (?X # map of_nat (frees base xs))) (of_nat a) h
              = Some (of_nat (a + 8), h')" and inv': "heap_inv cfg base e (xs @ carve w s @ ys) h'"
        using take_block_inv [OF _ a_def w(1,2) _ refl] inv sp by blast
      moreover have "w \<le> free_bytes bs" using sp free_bytes_mem [of s bs] by simp
      moreover have "configASSERT cfg ((of_nat (a + 8) :: u32) AND portBYTE_ALIGNMENT_MASK = 0) = Some ()"
      proof -
        have "8 dvd a + 8" using layout_dvd [OF lx] b a_def by simp
        then show ?thesis using and_7_zero [of "a + 8"] ae s16 b(3)
          by (simp add: configASSERT_def portBYTE_ALIGNMENT_MASK_def)
      qed
      ultimately have "pvPortMalloc cfg n h = Some (of_nat (a + 8), h')" by (simp add: run)
      then show ?thesis using ff inv' go by (simp add: a_def flip: w_def)
    qed
  qed
qed

lemma pvPortMalloc_nonnull:
  assumes "heap_inv cfg base e bs h" "pvPortMalloc cfg n h = Some (p, h')" "p \<noteq> 0"
  obtains xs s ys where "first_fit (padded (unat n)) bs = Some (xs, s, ys)"
    "p = of_nat (base + row_bytes xs + 8)"
    "heap_inv cfg base e (xs @ carve (padded (unat n)) s @ ys) h'"
proof (cases "if 0 < unat n \<and> unat n < 2 ^ 31 then first_fit (padded (unat n)) bs else None")
  case None
  then show ?thesis using pvPortMalloc_spec [OF assms(1), of n] assms(2,3) by simp
next
  case (Some r)
  obtain xs s ys where r: "r = (xs, s, ys)" by (cases r)
  then have "first_fit (padded (unat n)) bs = Some (xs, s, ys)" using Some by (auto split: if_splits)
  moreover have "p = of_nat (base + row_bytes xs + 8) \<and>
      heap_inv cfg base e (xs @ carve (padded (unat n)) s @ ys) h'"
    using pvPortMalloc_spec [OF assms(1), of n] assms(2) Some r by auto
  ultimately show ?thesis using that by blast
qed

section \<open>Release and initialisation\<close>

lemma tag_bits:
  fixes x :: u32
  assumes "unat x < 2 ^ 31"
  shows "(x OR 0x80000000) AND 0x80000000 \<noteq> 0" "(x OR 0x80000000) AND NOT 0x80000000 = x"
proof -
  have x: "x AND 0x80000000 = 0" using assms top_bit_clear by blast
  show "(x OR 0x80000000) AND 0x80000000 \<noteq> 0" by (simp add: bit.conj_disj_distrib2 x)
  have "x AND NOT 0x80000000 = x"
  proof -
    have "x = x AND (0x80000000 OR NOT 0x80000000)" by simp
    also have "\<dots> = x AND NOT 0x80000000" by (simp only: bit.conj_disj_distrib x or.left_neutral)
    finally show ?thesis by simp
  qed
  then show "(x OR 0x80000000) AND NOT 0x80000000 = x" by (simp only: bit.conj_disj_distrib2) simp
qed

lemma vPortFree_spec:
  assumes inv: "heap_inv cfg base e (xs @ Used s # ys) h"
  shows "\<exists>h'. vPortFree cfg (of_nat (base + row_bytes xs + 8)) h = Some h' \<and>
           heap_inv cfg base e (join xs s ys) h'"
proof -
  let ?X = "xStart_addr cfg" and ?bs = "xs @ Used s # ys"
  define a where "a = base + row_bytes xs"
  from inv have st: "heap_static cfg base e h" and l: "layout h base ?bs e"
    and c: "chain h ?X (frees base ?bs) (of_nat e)" and tg: "tagged h (useds base ?bs)"
    and co: "coalesced ?bs"
    and f: "xFreeBytesRemaining h = of_nat (free_bytes ?bs)"
    and mn: "xMinimumEverFreeBytesRemaining h \<le> xFreeBytesRemaining h"
    unfolding heap_inv_def by blast+
  from st have b: "0 < base" "e < 2 ^ 32 - 8" "e < base + 2 ^ 31"
    and bit: "xBlockAllocatedBit h = 0x80000000" and Z: "siz h (of_nat e) = 0" "siz h ?X = 0"
    unfolding heap_static_def by blast+
  have lx: "layout h base xs a" and ly: "layout h (a + s) ys e" and s: "16 \<le> s" "8 dvd s"
    using l a_def by (auto simp: layout_append)
  have ae: "a + s + row_bytes ys = e" using layout_total [OF ly] by simp
  have s31: "s < 2 ^ 31" using ae b(3) a_def by simp
  have a32: "a + 8 < 2 ^ 32" "e < 2 ^ 32" using ae s b by auto
  have pv: "(of_nat (a + 8) :: u32) \<noteq> 0" using of_nat_eq32 [of "a + 8" 0] a32 by simp
  have lk: "(of_nat (a + 8) :: u32) - xHeapStructSize = of_nat a" by simp
  have hd: "siz h (of_nat a) = of_nat s OR 0x80000000" "nxt h (of_nat a) = 0"
    using tg a_def by simp_all
  have us: "unat (of_nat s :: u32) < 2 ^ 31" using unat_of_nat32 [of s] s31 by simp
  define h1 where "h1 = set_siz (of_nat a) (of_nat s) h"
  define h2 where "h2 = h1\<lparr>xFreeBytesRemaining := xFreeBytesRemaining h1 + of_nat s\<rparr>"
  have run: "vPortFree cfg (of_nat (a + 8)) h = prvInsertBlockIntoFreeList cfg (of_nat a) h2"
    unfolding vPortFree_def Let_def lk
    using pv hd tag_bits [OF us] bit by (simp add: configASSERT_def h2_def h1_def)
  have other: "links h2 (of_nat q) = links h (of_nat q)" if "q \<noteq> a" "q \<le> e" for q
    using of_nat_eq32 [of q a] that a32 by (simp add: h2_def h1_def set_siz_def)
  have st2: "heap_static cfg base e h2"
    using st other [of e] ae s xStart_outside [OF st, of a] a_def
    by (simp add: heap_static_def) (simp add: h2_def h1_def set_siz_def)
  have lx2: "layout h2 base xs a"
  proof (rule layout_frame [OF lx])
    fix q assume "q \<in> set (frees base xs)"
    then show "siz h2 (of_nat q) = siz h (of_nat q)" using frees_range [OF lx, of q] other [of q] ae by simp
  qed
  have ly2: "layout h2 (a + s) ys e"
  proof (rule layout_frame [OF ly])
    fix q assume "q \<in> set (frees (a + s) ys)"
    then show "siz h2 (of_nat q) = siz h (of_nat q)" using frees_range [OF ly, of q] other [of q] s by simp
  qed
  have ch2: "chain h2 ?X (frees base xs @ frees (a + s) ys) (of_nat e)"
    using chain_frame [OF c, of h2] a_def by (simp add: h2_def h1_def)
  have sz: "siz h2 (of_nat a) = of_nat s" by (simp add: h2_def h1_def)
  obtain h3 where h3: "prvInsertBlockIntoFreeList cfg (of_nat a) h2 = Some h3"
    "heap_static cfg base e h3" "layout h3 base (join xs s ys) e"
    "chain h3 ?X (frees base (join xs s ys)) (of_nat e)"
    "xFreeBytesRemaining h3 = xFreeBytesRemaining h2"
    "xMinimumEverFreeBytesRemaining h3 = xMinimumEverFreeBytesRemaining h2"
    and fr3: "\<forall>q. base \<le> q \<and> q < e \<and> q \<notin> set (frees base xs @ frees (a + s) ys) \<and> q \<noteq> a \<longrightarrow>
       links h3 (of_nat q) = links h2 (of_nat q)"
    using prvInsertBlockIntoFreeList_join [OF st2 lx2 ly2 s(2,1) ch2 sz] by blast
  have keep: "links h3 (of_nat q) = links h (of_nat q)"
    if "base \<le> q" "q < e" "q \<notin> set (frees base xs)" "q \<notin> set (frees (a + s) ys)" "q \<noteq> a" for q
    using fr3 other [of q] that by simp
  have "tagged h (useds base xs)" "tagged h (useds (a + s) ys)" using tg a_def by simp_all
  then have "tagged h3 (useds base xs)" "tagged h3 (useds (a + s) ys)"
  proof -
    assume t: "tagged h (useds base xs)" "tagged h (useds (a + s) ys)"
    show "tagged h3 (useds base xs)"
    proof (rule tagged_frame [OF lx t(1)])
      fix q assume "base \<le> q" "q < a" "q \<notin> set (frees base xs)"
      then show "links h3 (of_nat q) = links h (of_nat q)"
        using keep [of q] frees_range [OF ly, of q] ae by force
    qed
    show "tagged h3 (useds (a + s) ys)"
    proof (rule tagged_frame [OF ly t(2)])
      fix q assume "a + s \<le> q" "q < e" "q \<notin> set (frees (a + s) ys)"
      then show "links h3 (of_nat q) = links h (of_nat q)"
        using keep [of q] frees_range [OF lx, of q] s a_def by force
    qed
  qed
  moreover have "set (useds base (join xs s ys)) \<subseteq> set (useds base xs) \<union> set (useds (a + s) ys)"
    using a_def by (cases xs rule: blk_row_cases; cases ys; cases "hd ys")
      (auto simp: join_def add.assoc split: blk.splits)
  ultimately have tg3: "tagged h3 (useds base (join xs s ys))" unfolding tagged_def by blast
  have total: "free_bytes (join xs s ys) < 2 ^ 32"
    using free_bytes_le_total [of "join xs s ys"] layout_total [OF h3(3)] a32 by simp
  have "xFreeBytesRemaining h3 = of_nat (free_bytes ?bs + s)"
    using f h3(5) by (simp add: h2_def h1_def)
  then have f3: "xFreeBytesRemaining h3 = of_nat (free_bytes (join xs s ys))"
    by (simp add: join_free_bytes)
  have "xFreeBytesRemaining h \<le> xFreeBytesRemaining h3"
    unfolding f f3 using total by (subst of_nat_le32) (auto simp: join_free_bytes)
  then have "xMinimumEverFreeBytesRemaining h3 \<le> xFreeBytesRemaining h3"
    using mn h3(6) by (simp add: h2_def h1_def)
  then have "heap_inv cfg base e (join xs s ys) h3"
    using h3 tg3 f3 join_coalesced co unfolding heap_inv_def by (simp add: coalesced_append_used)
  then show ?thesis using run h3(1) a_def by auto
qed

text \<open>
  The array after \<open>prvHeapInit\<close>: its aligned start, and the address of the end marker.  A
  sensible configuration has room for a block, lies below the end of the address space and
  is smaller than the tag bit.
\<close>

definition heap_base :: "heap_cfg \<Rightarrow> nat" where
  "heap_base cfg = (unat (ucHeap cfg) + 7) div 8 * 8"

definition heap_end :: "heap_cfg \<Rightarrow> nat" where
  "heap_end cfg = (unat (ucHeap cfg) + unat (configTOTAL_HEAP_SIZE cfg) - 8) div 8 * 8"

definition heap_cfg_ok :: "heap_cfg \<Rightarrow> bool" where
  "heap_cfg_ok cfg \<longleftrightarrow>
     0 < unat (ucHeap cfg) \<and> 64 \<le> unat (configTOTAL_HEAP_SIZE cfg) \<and>
     unat (configTOTAL_HEAP_SIZE cfg) < 2 ^ 31 \<and>
     unat (ucHeap cfg) + unat (configTOTAL_HEAP_SIZE cfg) < 2 ^ 32 - 8 \<and>
     (unat (xStart_addr cfg) < unat (ucHeap cfg) \<or>
      unat (ucHeap cfg) + unat (configTOTAL_HEAP_SIZE cfg) \<le> unat (xStart_addr cfg))"

lemma round_down_bounds: "n div 8 * 8 \<le> (n::nat)" "n < n div 8 * 8 + 8"
proof -
  have "n = 8 * (n div 8) + n mod 8" "n mod 8 < 8" by simp_all
  then show "n div 8 * 8 \<le> n" "n < n div 8 * 8 + 8" by linarith+
qed

lemma heap_bounds:
  assumes "heap_cfg_ok cfg"
  shows "unat (ucHeap cfg) \<le> heap_base cfg" "heap_base cfg \<le> unat (ucHeap cfg) + 7"
    "heap_end cfg + 8 \<le> unat (ucHeap cfg) + unat (configTOTAL_HEAP_SIZE cfg)"
    "heap_base cfg + 16 \<le> heap_end cfg" "8 dvd heap_base cfg" "8 dvd heap_end cfg"
proof -
  note r = round_down_bounds [of "unat (ucHeap cfg) + 7"]
    round_down_bounds [of "unat (ucHeap cfg) + unat (configTOTAL_HEAP_SIZE cfg) - 8"]
  have ok: "64 \<le> unat (configTOTAL_HEAP_SIZE cfg)" using assms by (simp add: heap_cfg_ok_def)
  show "unat (ucHeap cfg) \<le> heap_base cfg" "heap_base cfg \<le> unat (ucHeap cfg) + 7"
    "heap_end cfg + 8 \<le> unat (ucHeap cfg) + unat (configTOTAL_HEAP_SIZE cfg)"
    "heap_base cfg + 16 \<le> heap_end cfg"
    using r ok unfolding heap_base_def heap_end_def by linarith+
  show "8 dvd heap_base cfg" "8 dvd heap_end cfg" by (simp_all add: heap_base_def heap_end_def)
qed

definition init_at :: "heap_cfg \<Rightarrow> u32 \<Rightarrow> u32 \<Rightarrow> heap4 \<Rightarrow> heap4" where
  "init_at cfg b e h =
     (let h1 = set_siz (xStart_addr cfg) 0 (set_nxt (xStart_addr cfg) b h);
          h2 = set_nxt e 0 (set_siz e 0 (h1\<lparr>pxEnd := e\<rparr>));
          h3 = set_nxt b e (set_siz b (e - b) h2)
      in h3\<lparr>xMinimumEverFreeBytesRemaining := siz h3 b, xFreeBytesRemaining := siz h3 b,
            xBlockAllocatedBit := push_bit (4 * 8 - 1) 1\<rparr>)"

lemma prvHeapInit_at:
  assumes ok: "heap_cfg_ok cfg"
  shows "prvHeapInit cfg h = init_at cfg (of_nat (heap_base cfg)) (of_nat (heap_end cfg)) h"
proof -
  define u T where "u = unat (ucHeap cfg)" and "T = unat (configTOTAL_HEAP_SIZE cfg)"
  have uw: "ucHeap cfg = of_nat u" and Tw: "configTOTAL_HEAP_SIZE cfg = of_nat T"
    by (simp_all add: u_def T_def of_nat_unat32)
  have b: "64 \<le> T" "u + T < 2 ^ 32 - 8"
    using ok by (simp_all add: heap_cfg_ok_def u_def T_def)
  have al: "ucHeap cfg AND 7 \<noteq> 0 \<longleftrightarrow> \<not> 8 dvd u" unfolding uw using and_7_zero [of u] b by simp
  have "(of_nat u + 7 :: u32) = of_nat (u + 7)" by simp
  then have "(ucHeap cfg + 7) AND NOT 7 = of_nat (heap_base cfg)"
    using and_not_7 [of "u + 7"] b unfolding heap_base_def u_def [symmetric] unfolding uw by simp
  moreover have "heap_base cfg = u" if "8 dvd u"
    using that unfolding heap_base_def u_def [symmetric] by (auto elim!: dvdE)
  ultimately have start: "(if ucHeap cfg AND portBYTE_ALIGNMENT_MASK \<noteq> 0
        then (let a = (ucHeap cfg + (portBYTE_ALIGNMENT - 1)) AND NOT portBYTE_ALIGNMENT_MASK
              in (a, configTOTAL_HEAP_SIZE cfg - (a - ucHeap cfg)))
        else (ucHeap cfg, configTOTAL_HEAP_SIZE cfg)) =
      (of_nat (heap_base cfg), of_nat T - (of_nat (heap_base cfg) - of_nat u))"
    using al by (simp add: portBYTE_ALIGNMENT_MASK_def portBYTE_ALIGNMENT_def Let_def Tw uw)
  have "(of_nat (heap_base cfg) + (of_nat T - (of_nat (heap_base cfg) - of_nat u)) - 8 :: u32)
      = of_nat (u + T) - of_nat 8" by simp
  also have "\<dots> = of_nat (u + T - 8)" using b by (intro of_nat_sub32) simp
  finally have e: "(of_nat (heap_base cfg) + (of_nat T - (of_nat (heap_base cfg) - of_nat u)) - 8 :: u32)
      AND NOT 7 = of_nat (heap_end cfg)"
    using and_not_7 [of "u + T - 8"] b by (simp only: heap_end_def u_def T_def)
  show ?thesis
    unfolding prvHeapInit_def unfolding start unfolding init_at_def Let_def
    by (simp only: split_conv e portBYTE_ALIGNMENT_MASK_def alignment_consts)
qed

lemma prvHeapInit_inv:
  assumes ok: "heap_cfg_ok cfg"
  shows "heap_inv cfg (heap_base cfg) (heap_end cfg) [Free (heap_end cfg - heap_base cfg)] (prvHeapInit cfg h)"
proof -
  define b e where "b = heap_base cfg" and "e = heap_end cfg"
  note bd = heap_bounds [OF ok, folded b_def e_def]
  have o: "0 < unat (ucHeap cfg)" "unat (configTOTAL_HEAP_SIZE cfg) < 2 ^ 31"
    "unat (ucHeap cfg) + unat (configTOTAL_HEAP_SIZE cfg) < 2 ^ 32 - 8"
    "unat (xStart_addr cfg) < unat (ucHeap cfg) \<or>
      unat (ucHeap cfg) + unat (configTOTAL_HEAP_SIZE cfg) \<le> unat (xStart_addr cfg)"
    using ok unfolding heap_cfg_ok_def by blast+
  have lt: "b < 2 ^ 32" "e < 2 ^ 32 - 8" "e < 2 ^ 32" "e < b + 2 ^ 31" "0 < b"
    and X: "unat (xStart_addr cfg) < b \<or> e < unat (xStart_addr cfg)"
    using bd o by linarith+
  have ne: "(of_nat b :: u32) \<noteq> of_nat e" "(of_nat b :: u32) \<noteq> xStart_addr cfg"
    "(of_nat e :: u32) \<noteq> xStart_addr cfg"
    using of_nat_eq32 [of b e] unat_of_nat32 [of b] unat_of_nat32 [of e] lt X bd by auto
  have diff: "(of_nat e :: u32) - of_nat b = of_nat (e - b)" by (rule of_nat_sub32) (use bd in simp)
  have "8 dvd e - b" "16 \<le> e - b" "b + (e - b) = e" using bd by (auto intro: dvd_diff_nat)
  then show ?thesis
    unfolding prvHeapInit_at [OF ok] heap_inv_def heap_static_def init_at_def Let_def b_def [symmetric]
      e_def [symmetric] diff
    using lt X ne bd by (simp add: push_bit_eq_mult del: of_nat_diff)
qed

lemma pvPortMalloc_first_call:
  assumes "heap_cfg_ok cfg" "pxEnd h = 0"
  shows "pvPortMalloc cfg n h = pvPortMalloc cfg n (prvHeapInit cfg h)"
proof -
  have "heap_static cfg (heap_base cfg) (heap_end cfg) (prvHeapInit cfg h)"
    using prvHeapInit_inv [OF assms(1)] by (simp add: heap_inv_def)
  then have "pxEnd (prvHeapInit cfg h) = of_nat (heap_end cfg)" "heap_end cfg < 2 ^ 32"
    unfolding heap_static_def by auto
  moreover have "0 < heap_end cfg" using heap_bounds [OF assms(1)] by linarith
  ultimately have "pxEnd (prvHeapInit cfg h) \<noteq> 0" using of_nat_eq32 [of "heap_end cfg" 0] by simp
  then show ?thesis using assms(2) by (simp add: pvPortMalloc_def)
qed

section \<open>The allocator's contract\<close>

text \<open>
  What callers of \<open>pvPortMalloc\<close> and \<open>vPortFree\<close> rely on.  \<open>live\<close> is the caller's
  record of what it holds: pointers with the size it asked for.
\<close>

datatype request = Request u32 | Release nat

primrec exec ::
  "(u32 \<Rightarrow> 's \<Rightarrow> (u32 \<times> 's) option) \<Rightarrow> (u32 \<Rightarrow> 's \<Rightarrow> 's option) \<Rightarrow>
   request list \<Rightarrow> 's \<Rightarrow> (u32 \<times> nat) list \<Rightarrow> ('s \<times> (u32 \<times> nat) list) option" where
  "exec m f [] s live = Some (s, live)"
| "exec m f (r # rs) s live =
     (case r of
        Request n \<Rightarrow> do { (p, s') \<leftarrow> m n s; exec m f rs s' (if p = 0 then live else (p, unat n) # live) }
      | Release i \<Rightarrow>
          if i < length live
          then do { s' \<leftarrow> f (fst (live ! i)) s; exec m f rs s' (remove1 (live ! i) live) }
          else exec m f rs s live)"

locale allocator =
  fixes malloc :: "u32 \<Rightarrow> 's \<Rightarrow> (u32 \<times> 's) option"
    and free :: "u32 \<Rightarrow> 's \<Rightarrow> 's option"
    and ok :: "'s \<Rightarrow> (u32 \<times> nat) list \<Rightarrow> bool"
  assumes malloc_law: "ok s live \<Longrightarrow>
      \<exists>p s'. malloc n s = Some (p, s') \<and> ok s' (if p = 0 then live else (p, unat n) # live)"
    and free_law: "ok s live \<Longrightarrow> (p, k) \<in> set live \<Longrightarrow>
      \<exists>s'. free p s = Some s' \<and> ok s' (remove1 (p, k) live)"
    and live_law: "ok s live \<Longrightarrow> distinct (map fst live) \<and> 0 \<notin> fst ` set live"
begin

lemma exec_ok: "ok s live \<Longrightarrow> \<exists>s' live'. exec malloc free rs s live = Some (s', live') \<and> ok s' live'"
proof (induction rs arbitrary: s live)
  case (Cons r rs)
  show ?case
  proof (cases r)
    case (Request n)
    then show ?thesis using malloc_law [OF Cons.prems, of n] Cons.IH by fastforce
  next
    case (Release i)
    show ?thesis
    proof (cases "i < length live")
      case True
      obtain p n where pn: "live ! i = (p, n)" by fastforce
      then have "(p, n) \<in> set live" using True nth_mem by metis
      then show ?thesis using free_law [OF Cons.prems] Cons.IH True pn Release by fastforce
    next
      case False
      then show ?thesis using Cons Release by simp
    qed
  qed
qed simp

lemma fresh: "ok s live \<Longrightarrow> malloc n s = Some (p, s') \<Longrightarrow> p \<noteq> 0 \<Longrightarrow> p \<notin> fst ` set live"
  using malloc_law [of s live n] live_law [of s' "(p, unat n) # live"] by auto

lemma malloc_free: "ok s live \<Longrightarrow> malloc n s = Some (p, s') \<Longrightarrow> p \<noteq> 0 \<Longrightarrow>
    \<exists>s''. free p s' = Some s'' \<and> ok s'' live"
  using malloc_law [of s live n] free_law [of s' "(p, unat n) # live" p "unat n"] by auto

end

definition payloads :: "nat \<Rightarrow> blk list \<Rightarrow> u32 list" where
  "payloads a bs = map (\<lambda>u. of_nat (fst u + 8)) (useds a bs)"

definition backed :: "nat \<Rightarrow> blk list \<Rightarrow> (u32 \<times> nat) list \<Rightarrow> bool" where
  "backed a bs live \<longleftrightarrow>
     mset (map fst live) = mset (payloads a bs) \<and>
     (\<forall>x\<in>set live. \<exists>u\<in>set (useds a bs). fst x = of_nat (fst u + 8) \<and> snd x + 8 \<le> snd u)"

definition heap_ok :: "heap_cfg \<Rightarrow> heap4 \<Rightarrow> (u32 \<times> nat) list \<Rightarrow> bool" where
  "heap_ok cfg h live \<longleftrightarrow> heap_cfg_ok cfg \<and>
     (pxEnd h = 0 \<and> live = [] \<or>
      (\<exists>bs. heap_inv cfg (heap_base cfg) (heap_end cfg) bs h \<and> backed (heap_base cfg) bs live))"

lemma useds_split:
  "(q, s) \<in> set (useds a bs) \<Longrightarrow> \<exists>xs ys. bs = xs @ Used s # ys \<and> q = a + row_bytes xs"
proof (induction bs arbitrary: a)
  case (Cons b bs)
  show ?case
  proof (cases "(q, s) \<in> set (useds (a + bsize b) bs)")
    case True
    then obtain xs ys where "bs = xs @ Used s # ys \<and> q = a + bsize b + row_bytes xs"
      using Cons.IH by blast
    then have "b # bs = (b # xs) @ Used s # ys \<and> q = a + row_bytes (b # xs)" by simp
    then show ?thesis by blast
  next
    case False
    then have "b = Used s \<and> q = a" using Cons.prems by (cases b) auto
    then have "b # bs = [] @ Used s # bs \<and> q = a + row_bytes []" by simp
    then show ?thesis by blast
  qed
qed simp

lemma useds_distinct: "layout h a bs e \<Longrightarrow> distinct (map fst (useds a bs))"
proof (induction bs arbitrary: a)
  case (Cons b bs)
  have "a \<notin> fst ` set (useds (a + bsize b) bs)"
    using used_range [of h "a + bsize b" bs e a] Cons.prems by fastforce
  then show ?case using Cons by (auto split: blk.splits)
qed simp

lemma payloads_distinct:
  assumes "layout h a bs e" "e < 2 ^ 32 - 8"
  shows "distinct (payloads a bs)"
proof -
  have inj: "x = y" if "x \<in> set (useds a bs)" "y \<in> set (useds a bs)"
    "(of_nat (fst x + 8) :: u32) = of_nat (fst y + 8)" for x y
  proof -
    have "fst x + 8 < 2 ^ 32" "fst y + 8 < 2 ^ 32"
      using used_range [OF assms(1), of "fst x" "snd x"] used_range [OF assms(1), of "fst y" "snd y"]
        that(1,2) assms(2) by simp_all
    then have "fst x = fst y" using that(3) of_nat_eq32 by simp
    then show ?thesis using useds_distinct [OF assms(1)] that(1,2)
      by (metis distinct_map inj_onD)
  qed
  then have "inj_on (\<lambda>x. of_nat (fst x + 8) :: u32) (set (useds a bs))" by (intro inj_onI) blast
  moreover have "distinct (useds a bs)" using useds_distinct [OF assms(1)] by (simp add: distinct_map)
  ultimately show ?thesis unfolding payloads_def by (simp only: distinct_map)
qed

lemma payloads_insert:
  assumes "useds a bs' = us @ (q, t) # vs" "useds a bs = us @ vs"
  shows "mset (payloads a bs') = add_mset (of_nat (q + 8)) (mset (payloads a bs))"
  unfolding payloads_def assms by simp

lemma backed_take:
  assumes b: "backed a (xs @ Free s # ys) live" and w: "n + 8 \<le> w" "w \<le> s"
    and p: "p = of_nat (a + row_bytes xs + 8)"
  shows "backed a (xs @ carve w s @ ys) ((p, n) # live)"
proof -
  obtain t where u: "useds a (xs @ carve w s @ ys) =
      useds a xs @ (a + row_bytes xs, t) # useds (a + row_bytes xs + s) ys" "w \<le> t"
    using w(2) by (cases "16 < s - w") (auto simp: carve_def add.assoc)
  have v: "useds a (xs @ Free s # ys) = useds a xs @ useds (a + row_bytes xs + s) ys" by simp
  have "mset (payloads a (xs @ carve w s @ ys)) = add_mset p (mset (payloads a (xs @ Free s # ys)))"
    unfolding p by (rule payloads_insert [OF u(1) v])
  then show ?thesis using b w(1) p u unfolding backed_def v by auto
qed

lemma useds_join: "useds a (join xs s ys) = useds a xs @ useds (a + row_bytes xs + s) ys"
  by (cases xs rule: blk_row_cases; cases ys; cases "hd ys") (auto simp: join_def add.assoc split: blk.splits)

lemma backed_return:
  assumes l: "layout h a (xs @ Used s # ys) e" "e < 2 ^ 32 - 8"
    and b: "backed a (xs @ Used s # ys) live"
    and p: "(p, n) \<in> set live" "p = of_nat (a + row_bytes xs + 8)"
  shows "backed a (join xs s ys) (remove1 (p, n) live)"
proof -
  let ?live = "remove1 (p, n) live" and ?q = "a + row_bytes xs"
  have u: "useds a (xs @ Used s # ys) = useds a xs @ (?q, s) # useds (?q + s) ys" by simp
  have "distinct (payloads a (xs @ Used s # ys))" by (rule payloads_distinct [OF l])
  then have df: "distinct (map fst live)"
    using b mset_eq_imp_distinct_iff unfolding backed_def by blast
  have "mset live = add_mset (p, n) (mset ?live)" using p(1) by simp
  then have m: "mset (map fst live) = add_mset p (mset (map fst ?live))"
    by (metis fst_conv image_mset_add_mset mset_map)
  have "mset (payloads a (xs @ Used s # ys)) = add_mset p (mset (payloads a (join xs s ys)))"
    unfolding p(2) by (rule payloads_insert [OF u useds_join])
  then have "mset (map fst ?live) = mset (payloads a (join xs s ys))"
    using b m by (simp add: backed_def)
  moreover have "\<exists>v\<in>set (useds a (join xs s ys)). fst x = of_nat (fst v + 8) \<and> snd x + 8 \<le> snd v"
    if x: "x \<in> set ?live" for x
  proof -
    have "x \<in> set live" using x set_remove1_subset by fast
    moreover have "distinct (p # map fst ?live)"
      using df m mset_eq_imp_distinct_iff [of "map fst live" "p # map fst ?live"] by simp
    then have "fst x \<noteq> p" using x by auto
    ultimately show ?thesis using b p(2) unfolding backed_def u useds_join by auto
  qed
  ultimately show ?thesis unfolding backed_def by blast
qed

lemma backed_free_block: "backed a [Free s] []"
  by (simp add: backed_def payloads_def)

lemma heap_ok_inv:
  assumes "heap_ok cfg h live"
  obtains (fresh) "pxEnd h = 0" "live = []" "heap_cfg_ok cfg"
  | (running) bs where "heap_inv cfg (heap_base cfg) (heap_end cfg) bs h" "heap_cfg_ok cfg"
      "backed (heap_base cfg) bs live"
  using assms unfolding heap_ok_def by blast

text \<open>A heap in use: whether or not the lazy initialisation has run, allocation sees a row.\<close>

lemma heap_ok_row:
  assumes "heap_ok cfg h live"
  obtains bs g where "pvPortMalloc cfg n h = pvPortMalloc cfg n g"
    "heap_inv cfg (heap_base cfg) (heap_end cfg) bs g" "backed (heap_base cfg) bs live"
  using assms
proof (cases rule: heap_ok_inv)
  case fresh
  then show ?thesis
    using that pvPortMalloc_first_call prvHeapInit_inv backed_free_block by blast
next
  case (running bs)
  then show ?thesis using that by blast
qed

lemma malloc_heap_ok:
  assumes "heap_ok cfg h live"
  shows "\<exists>p h'. pvPortMalloc cfg n h = Some (p, h') \<and>
           heap_ok cfg h' (if p = 0 then live else (p, unat n) # live)"
proof -
  have cfg: "heap_cfg_ok cfg" using assms by (simp add: heap_ok_def)
  let ?b = "heap_base cfg" and ?e = "heap_end cfg"
  obtain bs g where g: "pvPortMalloc cfg n h = pvPortMalloc cfg n g" "heap_inv cfg ?b ?e bs g"
    and bk: "backed ?b bs live"
    using heap_ok_row [OF assms] .
  let ?w = "padded (unat n)"
  note spec = pvPortMalloc_spec [OF g(2), of n]
  show ?thesis
  proof (cases "if 0 < unat n \<and> unat n < 2 ^ 31 then first_fit ?w bs else None")
    case None
    then have "pvPortMalloc cfg n h = Some (0, g)" using spec g by simp
    moreover have "heap_ok cfg g live" using g(2) bk cfg by (auto simp: heap_ok_def)
    ultimately show ?thesis by auto
  next
    case (Some r)
    then obtain xs s ys where r: "first_fit ?w bs = Some (xs, s, ys)" "r = (xs, s, ys)"
      by (cases r) (auto split: if_splits)
    have sp: "bs = xs @ Free s # ys" "?w \<le> s" using first_fit_Some [OF r(1)] by blast+
    define p where "p = (of_nat (?b + row_bytes xs + 8) :: u32)"
    obtain h' where h': "pvPortMalloc cfg n h = Some (p, h')"
      "heap_inv cfg ?b ?e (xs @ carve ?w s @ ys) h'"
      using spec Some r g(1) by (auto simp: p_def)
    have "layout g ?b bs ?e" using g(2) unfolding heap_inv_def by blast
    then have "?b + row_bytes xs + 16 \<le> ?e" using layout_total [of g ?b bs ?e] sp
      by (auto simp: layout_append)
    moreover have "?e < 2 ^ 32 - 8" using g(2) by (simp add: heap_inv_def heap_static_def)
    ultimately have "p \<noteq> 0" using of_nat_eq32 [of "?b + row_bytes xs + 8" 0] by (simp add: p_def)
    moreover have "backed ?b (xs @ carve ?w s @ ys) ((p, unat n) # live)"
      by (rule backed_take) (use bk sp padded_bounds(1) in \<open>auto simp: p_def\<close>)
    ultimately show ?thesis using h' cfg by (auto simp: heap_ok_def)
  qed
qed

lemma free_heap_ok:
  assumes "heap_ok cfg h live" "(p, n) \<in> set live"
  shows "\<exists>h'. vPortFree cfg p h = Some h' \<and> heap_ok cfg h' (remove1 (p, n) live)"
  using assms(1)
proof (cases rule: heap_ok_inv)
  case (running bs)
  let ?b = "heap_base cfg" and ?e = "heap_end cfg"
  obtain q s where u: "(q, s) \<in> set (useds ?b bs)" "p = of_nat (q + 8)"
    using running(3) assms(2) unfolding backed_def by fastforce
  then obtain xs ys where sp: "bs = xs @ Used s # ys" "q = ?b + row_bytes xs"
    using useds_split by blast
  have l: "layout h ?b (xs @ Used s # ys) ?e" "?e < 2 ^ 32 - 8"
    using running(1) sp(1) by (simp_all add: heap_inv_def heap_static_def)
  obtain h' where h': "vPortFree cfg p h = Some h'" "heap_inv cfg ?b ?e (join xs s ys) h'"
    using vPortFree_spec [of cfg ?b ?e xs s ys h] running(1) sp u(2) by auto
  moreover have "backed ?b (join xs s ys) (remove1 (p, n) live)"
    by (rule backed_return [OF l]) (use running(3) sp u assms(2) in auto)
  ultimately show ?thesis using running(2) by (auto simp: heap_ok_def)
qed (use assms(2) in simp)

lemma live_blocks:
  assumes "heap_ok cfg h live" "(p, n) \<in> set live"
  shows "8 dvd unat p \<and> heap_base cfg + 8 \<le> unat p \<and> unat p + n \<le> heap_end cfg"
  using assms(1)
proof (cases rule: heap_ok_inv)
  case (running bs)
  obtain q s where u: "(q, s) \<in> set (useds (heap_base cfg) bs)" "p = of_nat (q + 8)" "n + 8 \<le> s"
    using running(3) assms(2) unfolding backed_def by fastforce
  have l: "layout h (heap_base cfg) bs (heap_end cfg)" "heap_end cfg < 2 ^ 32 - 8" "8 dvd heap_base cfg"
    using running(1) by (simp_all add: heap_inv_def heap_static_def)
  note r = used_range [OF l(1) u(1)]
  have "unat p = q + 8" using u(2) unat_of_nat32 [of "q + 8"] r l(2) by simp
  moreover obtain xs ys where x: "bs = xs @ Used s # ys" "q = heap_base cfg + row_bytes xs"
    using useds_split [OF u(1)] by blast
  then have "layout h (heap_base cfg) xs q" using l(1) by (simp add: layout_append)
  then have "8 dvd q" using layout_dvd x(2) l(3) by fastforce
  ultimately show ?thesis using r u(3) by auto
qed (use assms(2) in simp)

lemma live_distinct:
  assumes "heap_ok cfg h live"
  shows "distinct (map fst live) \<and> 0 \<notin> fst ` set live"
proof -
  have "distinct (map fst live)"
    using assms
  proof (cases rule: heap_ok_inv)
    case (running bs)
    then have "distinct (payloads (heap_base cfg) bs)"
      using payloads_distinct [of h "heap_base cfg" bs "heap_end cfg"]
      by (auto simp: heap_inv_def heap_static_def)
    then show ?thesis using running(3) mset_eq_imp_distinct_iff unfolding backed_def by blast
  qed simp
  moreover have "p \<noteq> 0" if "(p, n) \<in> set live" for p n
    using live_blocks [OF assms that] by auto
  ultimately show ?thesis by fastforce
qed

interpretation heap4: allocator "pvPortMalloc cfg" "vPortFree cfg" "heap_ok cfg" for cfg
  by unfold_locales (use malloc_heap_ok free_heap_ok live_distinct in blast)+

lemma used_disjoint:
  "layout h a bs e \<Longrightarrow> (q, s) \<in> set (useds a bs) \<Longrightarrow> (q', s') \<in> set (useds a bs) \<Longrightarrow>
     q < q' \<Longrightarrow> q + s \<le> q'"
proof (induction bs arbitrary: a)
  case (Cons b bs)
  have l: "layout h (a + bsize b) bs e" using Cons.prems(1) by simp
  consider "(q, s) = (a, bsize b)" "(q', s') \<in> set (useds (a + bsize b) bs)"
    | "(q, s) \<in> set (useds (a + bsize b) bs)" "(q', s') \<in> set (useds (a + bsize b) bs)"
    | "(q', s') = (a, bsize b)" "(q, s) \<in> set (useds (a + bsize b) bs)"
    | "(q, s) = (q', s')"
    using Cons.prems(2,3) by (cases b) auto
  then show ?case
    using Cons.IH [OF l] Cons.prems(4) used_range [OF l, of q' s'] used_range [OF l, of q s] by cases auto
qed simp

lemma live_disjoint:
  assumes ok: "heap_ok cfg h live" and x: "(p, n) \<in> set live" "(p', n') \<in> set live" "unat p < unat p'"
  shows "unat p + n \<le> unat p'"
  using ok
proof (cases rule: heap_ok_inv)
  case (running bs)
  let ?b = "heap_base cfg"
  have l: "layout h ?b bs (heap_end cfg)" "heap_end cfg < 2 ^ 32 - 8"
    using running(1) by (simp_all add: heap_inv_def heap_static_def)
  obtain q s where u: "(q, s) \<in> set (useds ?b bs)" "p = of_nat (q + 8)" "n + 8 \<le> s"
    using running(3) x(1) unfolding backed_def by fastforce
  obtain q' s' where u': "(q', s') \<in> set (useds ?b bs)" "p' = of_nat (q' + 8)" "n' + 8 \<le> s'"
    using running(3) x(2) unfolding backed_def by fastforce
  have "unat p = q + 8" "unat p' = q' + 8"
    using u(2) u'(2) unat_of_nat32 [of "q + 8"] unat_of_nat32 [of "q' + 8"]
      used_range [OF l(1) u(1)] used_range [OF l(1) u'(1)] l(2) by simp_all
  then show ?thesis using used_disjoint [OF l(1) u(1) u'(1)] u(3) x(3) by simp
qed (use x in simp)

lemma join_carve:
  assumes "coalesced (xs @ Free s # ys)" "w \<le> s"
  shows "carve w s = Used t # r \<Longrightarrow> join xs t (r @ ys) = xs @ Free s # ys"
  using assms by (cases xs rule: blk_row_cases; cases ys; cases "hd ys")
    (auto simp: carve_def join_def coalesced_append_free coalesced_append split: if_splits)

lemma all_free_single:
  "useds a bs = [] \<Longrightarrow> coalesced bs \<Longrightarrow> bs = [] \<or> (\<exists>s. bs = [Free s])"
proof (induction bs arbitrary: a)
  case (Cons b bs)
  then obtain s where b: "b = Free s" by (cases b) auto
  then have "bs = [] \<or> (\<exists>s. bs = [Free s])" using Cons by fastforce
  then show ?case using Cons.prems b by auto
qed simp

section \<open>Properties\<close>

definition demo_cfg :: heap_cfg where
  "demo_cfg = \<lparr>ucHeap = 0x20000004, configTOTAL_HEAP_SIZE = 29000, xStart_addr = 0x1FFF0000, asserts_on = True\<rparr>"

definition demo_heap :: heap4 where
  "demo_heap = \<lparr>links = (\<lambda>_. \<lparr>pxNextFreeBlock = 0, xBlockSize = 0\<rparr>), pxEnd = 0,
     xFreeBytesRemaining = 0, xMinimumEverFreeBytesRemaining = 0, xBlockAllocatedBit = 0\<rparr>"

lemma demo_ok: "heap_cfg_ok demo_cfg" "pxEnd demo_heap = 0"
  by (simp_all add: heap_cfg_ok_def demo_cfg_def demo_heap_def)

text \<open>
  Claim C19.  Whatever a program asks of the allocator, from the first call on, every call
  returns, no assertion of the kernel fires, and at every moment the payloads handed out are
  8-byte aligned, lie inside \<open>ucHeap\<close>, and no two of them overlap.
\<close>

theorem heap_session_safe:
  assumes "heap_cfg_ok cfg" and "pxEnd h = 0"
  shows "\<exists>h' live. exec (pvPortMalloc cfg) (vPortFree cfg) rs h [] = Some (h', live) \<and>
           (\<forall>(p, n)\<in>set live. 8 dvd unat p \<and> unat (ucHeap cfg) \<le> unat p \<and>
              unat p + n \<le> unat (ucHeap cfg) + unat (configTOTAL_HEAP_SIZE cfg)) \<and>
           distinct (map fst live) \<and>
           (\<forall>(p, n)\<in>set live. \<forall>(p', n')\<in>set live. unat p < unat p' \<longrightarrow> unat p + n \<le> unat p')"
proof -
  have "heap_ok cfg h []" using assms by (simp add: heap_ok_def)
  then obtain h' live where r: "exec (pvPortMalloc cfg) (vPortFree cfg) rs h [] = Some (h', live)"
    and ok: "heap_ok cfg h' live" using heap4.exec_ok by blast
  have "8 dvd unat p \<and> unat (ucHeap cfg) \<le> unat p \<and>
      unat p + n \<le> unat (ucHeap cfg) + unat (configTOTAL_HEAP_SIZE cfg)" if "(p, n) \<in> set live" for p n
    using live_blocks [OF ok that] heap_bounds(1,3) [OF assms(1)] by linarith
  moreover have "distinct (map fst live)" using live_distinct [OF ok] by blast
  ultimately show ?thesis using r live_disjoint [OF ok] by blast
qed

theorem heap_session_safe_witness:
  "\<exists>h' live. exec (pvPortMalloc demo_cfg) (vPortFree demo_cfg)
       [Request 100, Request 30, Release 1, Request 64] demo_heap [] = Some (h', live) \<and>
     distinct (map fst live)"
  using heap_session_safe [OF demo_ok, of "[Request 100, Request 30, Release 1, Request 64]"] by blast

text \<open>
  Claim C20.  \<open>pvPortMalloc\<close> is first fit: it takes the lowest free block whose size is
  at least the request plus its header, rounded up to eight; it gives back what is left when
  that is worth a block, and it answers NULL, changing nothing, exactly when the request is
  zero, has the tag bit set, or no free block is large enough.
\<close>

theorem malloc_first_fit:
  assumes "heap_inv cfg base e bs h"
  shows "case (if 0 < unat n \<and> unat n < 2 ^ 31 then first_fit (padded (unat n)) bs else None) of
           None \<Rightarrow> pvPortMalloc cfg n h = Some (0, h)
         | Some (xs, s, ys) \<Rightarrow>
             \<exists>h'. pvPortMalloc cfg n h = Some (of_nat (base + row_bytes xs + 8), h') \<and>
                  heap_inv cfg base e (xs @ carve (padded (unat n)) s @ ys) h'"
  by (rule pvPortMalloc_spec [OF assms])

theorem malloc_first_fit_witness:
  "\<exists>h'. pvPortMalloc demo_cfg 100 (prvHeapInit demo_cfg demo_heap) = Some (0x20000010, h') \<and>
     heap_inv demo_cfg (heap_base demo_cfg) (heap_end demo_cfg) [Used 112, Free 28872] h'"
proof -
  have c: "heap_base demo_cfg = 0x20000008" "heap_end demo_cfg = 0x20007140"
    by (simp_all add: heap_base_def heap_end_def demo_cfg_def)
  show ?thesis
    using malloc_first_fit [OF prvHeapInit_inv [OF demo_ok(1)], of 100 demo_heap]
    by (simp add: c padded_def carve_def)
qed

text \<open>
  Claim C21.  Returning a block just allocated restores the row of blocks exactly: the split
  is undone by the merge, and the number of free bytes is what it was.
\<close>

theorem free_undoes_malloc:
  assumes "heap_inv cfg base e bs h" and "pvPortMalloc cfg n h = Some (p, h')" and "p \<noteq> 0"
  shows "\<exists>h''. vPortFree cfg p h' = Some h'' \<and> heap_inv cfg base e bs h'' \<and>
           xPortGetFreeHeapSize h'' = xPortGetFreeHeapSize h"
proof -
  let ?w = "padded (unat n)"
  obtain xs s ys where ff: "first_fit ?w bs = Some (xs, s, ys)"
    and p: "p = of_nat (base + row_bytes xs + 8)" and i: "heap_inv cfg base e (xs @ carve ?w s @ ys) h'"
    using pvPortMalloc_nonnull [OF assms] .
  have sp: "bs = xs @ Free s # ys" "?w \<le> s" using first_fit_Some [OF ff] by blast+
  obtain t r where tr: "carve ?w s = Used t # r"
    by (cases "16 < s - ?w") (auto simp: carve_def)
  have "heap_inv cfg base e (xs @ Used t # (r @ ys)) h'" using i tr by simp
  then obtain h'' where "vPortFree cfg p h' = Some h''" "heap_inv cfg base e (join xs t (r @ ys)) h''"
    using vPortFree_spec p by blast
  moreover have "join xs t (r @ ys) = bs"
    using join_carve [OF _ sp(2) tr] assms(1) sp(1) by (simp add: heap_inv_def)
  ultimately show ?thesis using assms(1) by (auto simp: heap_inv_def xPortGetFreeHeapSize_def)
qed

theorem free_undoes_malloc_witness:
  "\<exists>h' h''. pvPortMalloc demo_cfg 100 (prvHeapInit demo_cfg demo_heap) = Some (0x20000010, h') \<and>
     vPortFree demo_cfg 0x20000010 h' = Some h'' \<and>
     xPortGetFreeHeapSize h'' = xPortGetFreeHeapSize (prvHeapInit demo_cfg demo_heap)"
proof -
  have c: "heap_base demo_cfg = 0x20000008" "heap_end demo_cfg = 0x20007140"
    by (simp_all add: heap_base_def heap_end_def demo_cfg_def)
  obtain h' where "pvPortMalloc demo_cfg 100 (prvHeapInit demo_cfg demo_heap) = Some (0x20000010, h')"
    using pvPortMalloc_spec [OF prvHeapInit_inv [OF demo_ok(1)], of 100 demo_heap]
    by (auto simp: c padded_def carve_def)
  then show ?thesis
    using free_undoes_malloc [OF prvHeapInit_inv [OF demo_ok(1)]] by fastforce
qed

text \<open>
  No fragmentation survives: whenever everything allocated has been returned, in
  whatever order, the array is one free block of its full size again.
\<close>

theorem heap_all_returned:
  assumes "heap_cfg_ok cfg" and "pxEnd h = 0"
    and "exec (pvPortMalloc cfg) (vPortFree cfg) rs h [] = Some (h', [])" and "pxEnd h' \<noteq> 0"
  shows "heap_inv cfg (heap_base cfg) (heap_end cfg) [Free (heap_end cfg - heap_base cfg)] h'"
proof -
  have "heap_ok cfg h []" using assms(1,2) by (simp add: heap_ok_def)
  then have "heap_ok cfg h' []" using heap4.exec_ok [of cfg h "[]" rs] assms(3) by auto
  then obtain bs where i: "heap_inv cfg (heap_base cfg) (heap_end cfg) bs h'"
    and b: "backed (heap_base cfg) bs []"
    using assms(4) by (auto simp: heap_ok_def)
  have l: "layout h' (heap_base cfg) bs (heap_end cfg)" "coalesced bs" using i by (simp_all add: heap_inv_def)
  have "useds (heap_base cfg) bs = []" using b by (simp add: backed_def payloads_def)
  then consider "bs = []" | s where "bs = [Free s]" using all_free_single l(2) by blast
  then show ?thesis
    using layout_total [OF l(1)] heap_bounds(4) [OF assms(1)] i by cases simp_all
qed

theorem heap_all_returned_witness:
  "\<exists>h'. exec (pvPortMalloc demo_cfg) (vPortFree demo_cfg) [Request 100, Release 0] demo_heap [] = Some (h', []) \<and>
     heap_inv demo_cfg (heap_base demo_cfg) (heap_end demo_cfg)
       [Free (heap_end demo_cfg - heap_base demo_cfg)] h'"
proof -
  have c: "heap_base demo_cfg = 0x20000008" "heap_end demo_cfg = 0x20007140"
    by (simp_all add: heap_base_def heap_end_def demo_cfg_def)
  obtain h1 where m: "pvPortMalloc demo_cfg 100 demo_heap = Some (0x20000010, h1)"
    and i1: "heap_inv demo_cfg (heap_base demo_cfg) (heap_end demo_cfg) ([] @ Used 112 # [Free 28872]) h1"
    using pvPortMalloc_spec [OF prvHeapInit_inv [OF demo_ok(1)], of 100 demo_heap]
    by (auto simp: c padded_def carve_def pvPortMalloc_first_call [OF demo_ok])
  obtain h2 where f: "vPortFree demo_cfg 0x20000010 h1 = Some h2"
    and i2: "heap_inv demo_cfg (heap_base demo_cfg) (heap_end demo_cfg) (join [] 112 [Free 28872]) h2"
    using vPortFree_spec [OF i1] by (auto simp: c)
  have e: "exec (pvPortMalloc demo_cfg) (vPortFree demo_cfg) [Request 100, Release 0] demo_heap [] = Some (h2, [])"
    using m f by simp
  have "pxEnd h2 \<noteq> 0" using i2 by (simp add: heap_inv_def heap_static_def c)
  then show ?thesis using heap_all_returned [OF demo_ok e] e by blast
qed

text \<open>
  Claim C22.  A block returned twice is caught: while its header is still that of a free block,
  \<open>vPortFree\<close> stops on its assertion, or, with assertions compiled out, leaves the heap
  exactly as it is.
\<close>

theorem double_free_caught:
  assumes "heap_inv cfg base e (xs @ Free s # ys) h"
  shows "vPortFree cfg (of_nat (base + row_bytes xs + 8)) h = (if asserts_on cfg then None else Some h)"
proof -
  define a where "a = base + row_bytes xs"
  have l: "layout h base (xs @ Free s # ys) e" and st: "heap_static cfg base e h"
    using assms by (simp_all add: heap_inv_def)
  have s: "siz h (of_nat a) = of_nat s" "16 \<le> s" using l a_def by (auto simp: layout_append)
  have e: "e = a + s + row_bytes ys" using layout_total [OF l] a_def by simp
  have b: "0 < base" "e < 2 ^ 32 - 8" "e < base + 2 ^ 31" and bit: "xBlockAllocatedBit h = 0x80000000"
    using st unfolding heap_static_def by blast+
  have "unat (of_nat s :: u32) < 2 ^ 31" using unat_of_nat32 [of s] e b a_def by simp
  then have clear: "siz h (of_nat a) AND xBlockAllocatedBit h = 0"
    using top_bit_clear bit s(1) by simp
  have nz: "(of_nat (a + 8) :: u32) \<noteq> 0" using of_nat_eq32 [of "a + 8" 0] e s b by simp
  have lk: "(of_nat (a + 8) :: u32) - xHeapStructSize = of_nat a" by simp
  show ?thesis
    unfolding vPortFree_def Let_def a_def [symmetric] lk using nz clear
    by (simp add: configASSERT_def)
qed

theorem double_free_caught_witness:
  "vPortFree demo_cfg 0x20000010 (prvHeapInit demo_cfg demo_heap) = None"
proof -
  have c: "heap_base demo_cfg = 0x20000008" "asserts_on demo_cfg"
    by (simp_all add: heap_base_def demo_cfg_def)
  have "heap_inv demo_cfg (heap_base demo_cfg) (heap_end demo_cfg)
      ([] @ Free (heap_end demo_cfg - heap_base demo_cfg) # []) (prvHeapInit demo_cfg demo_heap)"
    using prvHeapInit_inv [OF demo_ok(1)] by simp
  from double_free_caught [OF this] show ?thesis by (simp add: c)
qed

end
