(* ===== verification/Stream_Buffer.thy ===== *)
theory Stream_Buffer
  imports Prelude
begin

text \<open>
  The circular byte buffers of the TCP sockets: \<open>FreeRTOS_Stream_Buffer.c\<close> and the inline
  functions of \<open>FreeRTOS_Stream_Buffer.h\<close>, all of whose arithmetic is on 32-bit \<open>size_t\<close>.
  The field \<open>LENGTH\<close> of the code is \<open>bufLENGTH\<close> here.  The bytes between \<open>uxTail\<close> and \<open>uxHead\<close> are the contents; \<open>uxFront\<close> looks ahead of
  \<open>uxHead\<close> where out-of-order data is stored, \<open>uxMid\<close> marks what was passed to the window.
\<close>

section \<open>State and inline functions\<close>

record StreamBuffer_t =
  uxTail :: u32
  uxMid :: u32
  uxHead :: u32
  uxFront :: u32
  bufLENGTH :: u32
  ucArray :: "u8 list"

definition FreeRTOS_min_uint32 :: "u32 \<Rightarrow> u32 \<Rightarrow> u32" where
  "FreeRTOS_min_uint32 a b = (if a \<le> b then a else b)"

definition vStreamBufferClear :: "StreamBuffer_t \<Rightarrow> StreamBuffer_t" where
  "vStreamBufferClear b = b\<lparr>uxHead := 0, uxTail := 0, uxFront := 0, uxMid := 0\<rparr>"

definition uxStreamBufferSpace :: "StreamBuffer_t \<Rightarrow> u32 \<Rightarrow> u32 \<Rightarrow> u32" where
  "uxStreamBufferSpace b uxLower uxUpper =
     (let uxCount = bufLENGTH b + uxUpper - uxLower - 1
      in if uxCount \<ge> bufLENGTH b then uxCount - bufLENGTH b else uxCount)"

definition uxStreamBufferDistance :: "StreamBuffer_t \<Rightarrow> u32 \<Rightarrow> u32 \<Rightarrow> u32" where
  "uxStreamBufferDistance b uxLower uxUpper =
     (let uxCount = bufLENGTH b + uxUpper - uxLower
      in if uxCount \<ge> bufLENGTH b then uxCount - bufLENGTH b else uxCount)"

definition uxStreamBufferGetSpace :: "StreamBuffer_t \<Rightarrow> u32" where
  "uxStreamBufferGetSpace b = uxStreamBufferSpace b (uxHead b) (uxTail b)"

definition uxStreamBufferFrontSpace :: "StreamBuffer_t \<Rightarrow> u32" where
  "uxStreamBufferFrontSpace b = uxStreamBufferSpace b (uxFront b) (uxTail b)"

definition uxStreamBufferGetSize :: "StreamBuffer_t \<Rightarrow> u32" where
  "uxStreamBufferGetSize b = uxStreamBufferDistance b (uxTail b) (uxHead b)"

definition uxStreamBufferMidSpace :: "StreamBuffer_t \<Rightarrow> u32" where
  "uxStreamBufferMidSpace b = uxStreamBufferDistance b (uxMid b) (uxHead b)"

definition vStreamBufferMoveMid :: "StreamBuffer_t \<Rightarrow> u32 \<Rightarrow> StreamBuffer_t" where
  "vStreamBufferMoveMid b uxCount =
     (let uxSize = uxStreamBufferMidSpace b;
          n = (if uxCount > uxSize then uxSize else uxCount);
          b1 = b\<lparr>uxMid := uxMid b + n\<rparr>
      in if uxMid b1 \<ge> bufLENGTH b1 then b1\<lparr>uxMid := uxMid b1 - bufLENGTH b1\<rparr> else b1)"

definition xStreamBufferIsEmpty :: "StreamBuffer_t \<Rightarrow> bool" where
  "xStreamBufferIsEmpty b \<longleftrightarrow> uxHead b = uxTail b"

definition xStreamBufferIsFull :: "StreamBuffer_t \<Rightarrow> bool" where
  "xStreamBufferIsFull b \<longleftrightarrow> uxStreamBufferGetSpace b = 0"

definition xStreamBufferLessThenEqual :: "StreamBuffer_t \<Rightarrow> u32 \<Rightarrow> u32 \<Rightarrow> bool" where
  "xStreamBufferLessThenEqual b uxLeft uxRight =
     (let t = uxTail b in
      if (uxLeft < t) \<noteq> (uxRight < t) then (if uxRight < t then True else False)
      else (if uxLeft \<le> uxRight then True else False))"

text \<open>\<open>uxStreamBufferGetPtr\<close> answers the index of the first readable byte and how many bytes
  can be read from there without wrapping.\<close>

definition uxStreamBufferGetPtr :: "StreamBuffer_t \<Rightarrow> u32 \<times> u32" where
  "uxStreamBufferGetPtr b =
     (let uxNextTail = uxTail b; uxSize = uxStreamBufferGetSize b
      in (uxNextTail, FreeRTOS_min_uint32 uxSize (bufLENGTH b - uxNextTail)))"

section \<open>FreeRTOS\_Stream\_Buffer.c\<close>

text \<open>\<open>memcpy\<close> into and out of a byte array.\<close>

definition mem_write :: "u8 list \<Rightarrow> nat \<Rightarrow> u8 list \<Rightarrow> u8 list" where
  "mem_write arr at xs = take at arr @ xs @ drop (at + length xs) arr"

definition mem_read :: "u8 list \<Rightarrow> nat \<Rightarrow> nat \<Rightarrow> u8 list" where
  "mem_read arr at n = take n (drop at arr)"

text \<open>
  The steps the two functions share: an index moved on and folded dist_nx at the end of the
  array, and the one or two copies of a block that may wrap.
\<close>

definition sb_advance :: "StreamBuffer_t \<Rightarrow> u32 \<Rightarrow> u32 \<Rightarrow> u32" where
  "sb_advance b uxIndex n =
     (let uxNext = uxIndex + n in if uxNext \<ge> bufLENGTH b then uxNext - bufLENGTH b else uxNext)"

definition sb_copy_in :: "StreamBuffer_t \<Rightarrow> u32 \<Rightarrow> u8 list \<Rightarrow> u32 \<Rightarrow> u8 list" where
  "sb_copy_in b uxNextHead pucData uxCount =
     (let uxFirst = FreeRTOS_min_uint32 (bufLENGTH b - uxNextHead) uxCount;
          arr = mem_write (ucArray b) (unat uxNextHead) (take (unat uxFirst) pucData)
      in if uxCount > uxFirst
         then mem_write arr 0 (take (unat (uxCount - uxFirst)) (drop (unat uxFirst) pucData))
         else arr)"

definition sb_copy_out :: "StreamBuffer_t \<Rightarrow> u32 \<Rightarrow> u32 \<Rightarrow> u8 list" where
  "sb_copy_out b uxNextTail uxCount =
     (let uxFirst = FreeRTOS_min_uint32 (bufLENGTH b - uxNextTail) uxCount;
          out = mem_read (ucArray b) (unat uxNextTail) (unat uxFirst)
      in if uxCount > uxFirst then out @ mem_read (ucArray b) 0 (unat (uxCount - uxFirst)) else out)"

text \<open>\<open>pucData = None\<close> is the NULL pointer, with which only \<open>uxHead\<close> moves.\<close>

definition uxStreamBufferAdd ::
  "StreamBuffer_t \<Rightarrow> u32 \<Rightarrow> u8 list option \<Rightarrow> u32 \<Rightarrow> u32 \<times> StreamBuffer_t" where
  "uxStreamBufferAdd b uxOffset pucData uxWanted =
     (let uxSpace0 = uxStreamBufferGetSpace b;
          uxSpace = (if uxSpace0 > uxOffset then uxSpace0 - uxOffset else 0);
          uxCount = FreeRTOS_min_uint32 uxSpace uxWanted
      in if uxCount \<noteq> 0 then
           (let at = (if uxOffset \<noteq> 0 then sb_advance b (uxHead b) uxOffset else uxHead b);
                b1 = (case pucData of None \<Rightarrow> b
                      | Some pucData \<Rightarrow> b\<lparr>ucArray := sb_copy_in b at pucData uxCount\<rparr>);
                uxNextHead = (if uxOffset = 0 then sb_advance b at uxCount else at);
                b2 = (if uxOffset = 0 then b1\<lparr>uxHead := uxNextHead\<rparr> else b1);
                b3 = (if xStreamBufferLessThenEqual b2 (uxFront b2) uxNextHead
                      then b2\<lparr>uxFront := uxNextHead\<rparr> else b2)
            in (uxCount, b3))
         else (uxCount, b))"

definition uxStreamBufferGet ::
  "StreamBuffer_t \<Rightarrow> u32 \<Rightarrow> bool \<Rightarrow> u32 \<Rightarrow> bool \<Rightarrow> u32 \<times> u8 list \<times> StreamBuffer_t" where
  "uxStreamBufferGet b uxOffset wants_data uxMaxCount xPeek =
     (let uxSize0 = uxStreamBufferGetSize b;
          uxSize = (if uxSize0 > uxOffset then uxSize0 - uxOffset else 0);
          uxCount = FreeRTOS_min_uint32 uxSize uxMaxCount
      in if uxCount > 0 then
           (let at = (if uxOffset \<noteq> 0 then sb_advance b (uxTail b) uxOffset else uxTail b);
                out = (if wants_data then sb_copy_out b at uxCount else []);
                b1 = (if \<not> xPeek \<and> uxOffset = 0 then b\<lparr>uxTail := sb_advance b at uxCount\<rparr> else b)
            in (uxCount, out, b1))
         else (uxCount, [], b))"

section \<open>Positions around the ring\<close>

definition wrap :: "nat \<Rightarrow> nat \<Rightarrow> nat" where
  "wrap L x = (if L \<le> x then x - L else x)"

abbreviation len :: "StreamBuffer_t \<Rightarrow> nat" where "len b \<equiv> unat (bufLENGTH b)"

definition size_of :: "StreamBuffer_t \<Rightarrow> nat" where
  "size_of b = wrap (len b) (len b + unat (uxHead b) - unat (uxTail b))"

definition front_of :: "StreamBuffer_t \<Rightarrow> nat" where
  "front_of b = wrap (len b) (len b + unat (uxFront b) - unat (uxTail b))"

text \<open>The byte \<open>i\<close> places after the tail, and the contents.\<close>

definition ring_byte :: "StreamBuffer_t \<Rightarrow> nat \<Rightarrow> u8" where
  "ring_byte b i = ucArray b ! wrap (len b) (unat (uxTail b) + i)"

definition content :: "StreamBuffer_t \<Rightarrow> u8 list" where
  "content b = map (ring_byte b) [0..<size_of b]"

text \<open>
  The invariant.  Up to \<open>2^31\<close> bytes no index computation overflows; the front marker never
  lies behind the head.
\<close>

definition sb_ok :: "StreamBuffer_t \<Rightarrow> bool" where
  "sb_ok b \<longleftrightarrow> 0 < len b \<and> len b \<le> 2 ^ 31 \<and> length (ucArray b) = len b \<and>
     unat (uxTail b) < len b \<and> unat (uxMid b) < len b \<and> unat (uxHead b) < len b \<and>
     unat (uxFront b) < len b \<and> size_of b \<le> front_of b"

lemma wrap_lt: "x < 2 * L \<Longrightarrow> 0 < L \<Longrightarrow> wrap L x < L"
  by (auto simp: wrap_def)

lemma wrap_add: "t < L \<Longrightarrow> a + i < L \<Longrightarrow> wrap L (wrap L (t + a) + i) = wrap L (t + (a + i))"
  by (auto simp: wrap_def)

lemma wrap_closer:
  "t < L \<Longrightarrow> h < L \<Longrightarrow> c \<le> wrap L (L + h - t) \<Longrightarrow>
     wrap L (L + h - wrap L (t + c)) = wrap L (L + h - t) - c"
  by (simp add: wrap_def split: if_splits) linarith+

lemma wrap_back: "t < L \<Longrightarrow> x < L \<Longrightarrow> wrap L (L + wrap L (t + x) - t) = x"
  by (auto simp: wrap_def)

lemma sb_okD:
  assumes "sb_ok b"
  shows "0 < len b" "len b \<le> 2 ^ 31" "length (ucArray b) = len b" "unat (uxTail b) < len b"
    "unat (uxMid b) < len b" "unat (uxHead b) < len b" "unat (uxFront b) < len b"
    "size_of b \<le> front_of b"
  using assms by (simp_all add: sb_ok_def)

lemma len_content [simp]: "length (content b) = size_of b"
  by (simp add: content_def)

lemma size_of_lt: "sb_ok b \<Longrightarrow> size_of b < len b"
  unfolding size_of_def by (rule wrap_lt) (use sb_okD [of b] in auto)

lemma unat_advance:
  assumes "unat x + unat n < 2 ^ 32"
  shows "unat (sb_advance b x n) = wrap (len b) (unat x + unat n)"
  using assms unat_add_small [of x n] unat_sub_le [of "bufLENGTH b" "x + n"]
  by (auto simp: wrap_def sb_advance_def Let_def word_le_nat_alt)

lemma unat_distance:
  assumes "unat lo < len b" "unat hi < len b" "len b \<le> 2 ^ 31"
  shows "unat (uxStreamBufferDistance b lo hi) = wrap (len b) (len b + unat hi - unat lo)"
proof -
  have s: "unat (bufLENGTH b + hi) = len b + unat hi" by (rule unat_add_small) (use assms in simp)
  then have d: "unat (bufLENGTH b + hi - lo) = len b + unat hi - unat lo"
    by (subst unat_sub_le) (use assms in auto)
  show ?thesis
    using d unat_sub_le [of "bufLENGTH b" "bufLENGTH b + hi - lo"]
    by (auto simp: uxStreamBufferDistance_def Let_def wrap_def word_le_nat_alt)
qed

lemma unat_space:
  assumes "unat lo < len b" "unat hi < len b" "len b \<le> 2 ^ 31"
  shows "unat (uxStreamBufferSpace b lo hi) = wrap (len b) (len b + unat hi - unat lo - 1)"
proof -
  have s: "unat (bufLENGTH b + hi) = len b + unat hi" by (rule unat_add_small) (use assms in simp)
  then have d: "unat (bufLENGTH b + hi - lo) = len b + unat hi - unat lo"
    by (subst unat_sub_le) (use assms in auto)
  then have e: "unat (bufLENGTH b + hi - lo - 1) = len b + unat hi - unat lo - 1"
    by (subst unat_sub_le) (use assms in auto)
  show ?thesis
    using e unat_sub_le [of "bufLENGTH b" "bufLENGTH b + hi - lo - 1"]
    by (auto simp: uxStreamBufferSpace_def Let_def wrap_def word_le_nat_alt)
qed

lemma unat_GetSize: "sb_ok b \<Longrightarrow> unat (uxStreamBufferGetSize b) = size_of b"
  unfolding uxStreamBufferGetSize_def size_of_def
  by (rule unat_distance) (use sb_okD [of b] in auto)

lemma unat_GetSpace: "sb_ok b \<Longrightarrow> unat (uxStreamBufferGetSpace b) = len b - 1 - size_of b"
  unfolding uxStreamBufferGetSpace_def size_of_def
  by (subst unat_space) (use sb_okD [of b] in \<open>auto simp: wrap_def\<close>)

lemma unat_min: "unat (FreeRTOS_min_uint32 a b) = min (unat a) (unat b)"
  by (auto simp: FreeRTOS_min_uint32_def word_le_nat_alt)

text \<open>The order of \<open>xStreamBufferLessThenEqual\<close> is the order of distances from the tail.\<close>

lemma LessThenEqual_distance:
  assumes "unat l < len b" "unat r < len b" "unat (uxTail b) < len b"
  shows "xStreamBufferLessThenEqual b l r \<longleftrightarrow>
           wrap (len b) (len b + unat l - unat (uxTail b)) \<le> wrap (len b) (len b + unat r - unat (uxTail b))"
  using assms
  by (auto simp: xStreamBufferLessThenEqual_def Let_def wrap_def word_less_nat_alt word_le_nat_alt)

section \<open>Writing and reading around the ring\<close>

definition ring_write :: "nat \<Rightarrow> nat \<Rightarrow> u8 list \<Rightarrow> u8 list \<Rightarrow> u8 list" where
  "ring_write L start xs arr =
     (let f = min (L - start) (length xs); a = mem_write arr start (take f xs)
      in if f < length xs then mem_write a 0 (drop f xs) else a)"

lemma mem_write_length [simp]: "at + length xs \<le> length arr \<Longrightarrow> length (mem_write arr at xs) = length arr"
  by (simp add: mem_write_def)

lemma mem_write_nth:
  "at + length xs \<le> length arr \<Longrightarrow> i < length arr \<Longrightarrow>
     mem_write arr at xs ! i = (if at \<le> i \<and> i < at + length xs then xs ! (i - at) else arr ! i)"
  by (auto simp: mem_write_def nth_append)

lemma ring_write_length [simp]:
  "start < L \<Longrightarrow> length xs \<le> L \<Longrightarrow> length arr = L \<Longrightarrow> length (ring_write L start xs arr) = L"
  by (auto simp: ring_write_def Let_def)

lemma ring_write_nth:
  assumes "start < L" "length xs \<le> L" "length arr = L" "j < L"
  shows "ring_write L start xs arr ! wrap L (start + j) =
           (if j < length xs then xs ! j else arr ! wrap L (start + j))"
proof (cases "length xs \<le> L - start")
  case True
  then show ?thesis using assms by (auto simp: ring_write_def Let_def mem_write_nth wrap_def min.absorb2)
next
  case False
  then have w: "ring_write L start xs arr =
      mem_write (mem_write arr start (take (L - start) xs)) 0 (drop (L - start) xs)"
    by (simp add: ring_write_def Let_def min_def)
  show ?thesis
    using assms False unfolding w by (simp add: mem_write_nth wrap_def) arith
qed

definition ring_read :: "nat \<Rightarrow> nat \<Rightarrow> nat \<Rightarrow> u8 list \<Rightarrow> u8 list" where
  "ring_read L start n arr =
     (let f = min (L - start) n; d = mem_read arr start f
      in if f < n then d @ mem_read arr 0 (n - f) else d)"

lemma ring_read_map:
  assumes "start < L" "n \<le> L" "length arr = L"
  shows "ring_read L start n arr = map (\<lambda>j. arr ! wrap L (start + j)) [0..<n]"
  using assms by (auto simp: ring_read_def Let_def mem_read_def wrap_def intro!: nth_equalityI)
    (auto simp: nth_append min_def add.commute split: if_splits)

lemma ring_write_from_tail:
  assumes "t < L" "d + length xs < L" "length arr = L" "i < L" "start = wrap L (t + d)"
  shows "ring_write L start xs arr ! wrap L (t + i) =
           (if d \<le> i \<and> i < d + length xs then xs ! (i - d) else arr ! wrap L (t + i))"
proof -
  have s: "start < L" using assms by (auto simp: wrap_def)
  define j where "j = (if d \<le> i then i - d else L + i - d)"
  have "j < L" "wrap L (start + j) = wrap L (t + i)"
    "j < length xs \<longleftrightarrow> d \<le> i \<and> i < d + length xs" "d \<le> i \<Longrightarrow> j = i - d"
    using assms s by (auto simp: j_def wrap_def)
  then show ?thesis using ring_write_nth [OF s _ assms(3), of xs j] assms(2) by auto
qed

lemma head_at_size: "sb_ok b \<Longrightarrow> unat (uxHead b) = wrap (len b) (unat (uxTail b) + size_of b)"
  using sb_okD [of b] by (auto simp: size_of_def wrap_def)

text \<open>What \<open>uxStreamBufferAdd\<close> does, in terms of distances from the tail.\<close>

definition accepted :: "StreamBuffer_t \<Rightarrow> nat \<Rightarrow> nat \<Rightarrow> nat" where
  "accepted b off n = min (len b - 1 - size_of b - off) n"

lemma Add_count_word:
  assumes "sb_ok b"
  shows "FreeRTOS_min_uint32 (if uxStreamBufferGetSpace b > off
           then uxStreamBufferGetSpace b - off else 0) n = of_nat (accepted b (unat off) (unat n))"
proof -
  have "unat (if uxStreamBufferGetSpace b > off then uxStreamBufferGetSpace b - off else 0) =
      len b - 1 - size_of b - unat off"
    using unat_GetSpace [OF assms] unat_sub_le [of off "uxStreamBufferGetSpace b"]
    by (auto simp: word_less_nat_alt)
  then have "unat (FreeRTOS_min_uint32 (if uxStreamBufferGetSpace b > off
        then uxStreamBufferGetSpace b - off else 0) n) = accepted b (unat off) (unat n)"
    by (simp only: unat_min accepted_def)
  then show ?thesis by (metis of_nat_unat32)
qed

lemma accepted_small: "sb_ok b \<Longrightarrow> accepted b off n < 2 ^ 32"
  using sb_okD(2) [of b] by (simp add: accepted_def)

lemma copy_in_eq:
  assumes "unat n < len b" "unat at < len b" "unat n \<le> length data"
  shows "sb_copy_in b at data n = ring_write (len b) (unat at) (take (unat n) data) (ucArray b)"
proof -
  have f: "unat (FreeRTOS_min_uint32 (bufLENGTH b - at) n) = min (len b - unat at) (unat n)"
    using unat_sub_le [of at "bufLENGTH b"] assms by (simp add: unat_min)
  have "unat (n - FreeRTOS_min_uint32 (bufLENGTH b - at) n) = unat n - min (len b - unat at) (unat n)"
    using f by (subst unat_sub_le) auto
  then show ?thesis using f assms(3)
    by (simp add: sb_copy_in_def ring_write_def Let_def word_less_nat_alt drop_take min.absorb1 min.commute)
qed

lemma copy_out_eq:
  assumes "unat n < len b" "unat at < len b"
  shows "sb_copy_out b at n = ring_read (len b) (unat at) (unat n) (ucArray b)"
proof -
  have f: "unat (FreeRTOS_min_uint32 (bufLENGTH b - at) n) = min (len b - unat at) (unat n)"
    using unat_sub_le [of at "bufLENGTH b"] assms by (simp add: unat_min)
  have "unat (n - FreeRTOS_min_uint32 (bufLENGTH b - at) n) = unat n - min (len b - unat at) (unat n)"
    using f by (subst unat_sub_le) auto
  then show ?thesis using f
    by (simp add: sb_copy_out_def ring_read_def Let_def word_less_nat_alt)
qed

lemma Add_run:
  assumes ok: "sb_ok b" and c: "c = of_nat (accepted b (unat off) (unat n))" "c \<noteq> 0"
  shows "uxStreamBufferAdd b off data n =
     (let at = (if off \<noteq> 0 then sb_advance b (uxHead b) off else uxHead b);
          b1 = (case data of None \<Rightarrow> b | Some xs \<Rightarrow> b\<lparr>ucArray := sb_copy_in b at xs c\<rparr>);
          nx = (if off = 0 then sb_advance b at c else at);
          b2 = (if off = 0 then b1\<lparr>uxHead := nx\<rparr> else b1);
          b3 = (if xStreamBufferLessThenEqual b2 (uxFront b2) nx then b2\<lparr>uxFront := nx\<rparr> else b2)
      in (c, b3))"
  unfolding uxStreamBufferAdd_def using Add_count_word [OF ok, of off n] c
  by (simp only: Let_def if_True not_False_eq_True)

lemma Add_none:
  "sb_ok b \<Longrightarrow> accepted b (unat off) (unat n) = 0 \<Longrightarrow> uxStreamBufferAdd b off data n = (0, b)"
  unfolding uxStreamBufferAdd_def using Add_count_word [of b off n] by (simp only: Let_def) simp

lemma Add_effect:
  assumes ok: "sb_ok b" and c: "c = accepted b (unat off) (unat n)" "0 < c"
    and d: "case data of None \<Rightarrow> True | Some xs \<Rightarrow> unat n \<le> length xs"
    and nx: "nx = wrap (len b) (unat (uxTail b) + size_of b + (if off = 0 then c else unat off))"
  shows "\<exists>b'. uxStreamBufferAdd b off data n = (of_nat c, b') \<and>
     bufLENGTH b' = bufLENGTH b \<and> uxTail b' = uxTail b \<and> uxMid b' = uxMid b \<and>
     unat (uxHead b') = (if off = 0 then nx else unat (uxHead b)) \<and>
     ucArray b' = (case data of None \<Rightarrow> ucArray b
        | Some xs \<Rightarrow> ring_write (len b) (wrap (len b) (unat (uxTail b) + (size_of b + unat off)))
                       (take c xs) (ucArray b)) \<and>
     unat (uxFront b') =
       (if front_of b \<le> wrap (len b) (len b + nx - unat (uxTail b)) then nx else unat (uxFront b))"
proof -
  note D = sb_okD [OF ok] and sl = size_of_lt [OF ok]
  have bounds: "c + unat off + size_of b < len b" "c \<le> unat n" using c by (auto simp: accepted_def)
  define cw where "cw = (of_nat c :: u32)"
  have cw: "unat cw = c" "cw \<noteq> 0"
    using unat_of_nat32 [of c] accepted_small [OF ok] c by (auto simp: cw_def)
  note hd = head_at_size [OF ok]
  define at where "at = (if off \<noteq> 0 then sb_advance b (uxHead b) off else uxHead b)"
  have at: "unat at = wrap (len b) (unat (uxTail b) + (size_of b + unat off))"
    using unat_advance [of "uxHead b" off b] D bounds hd by (auto simp: at_def wrap_def)
  then have atl: "unat at < len b" using D bounds by (auto simp: wrap_def)
  define nxw where "nxw = (if off = 0 then sb_advance b at cw else at)"
  have nxw: "unat nxw = nx"
    using unat_advance [of at cw b] D bounds at atl cw nx by (auto simp: nxw_def wrap_def)
  have nxl: "unat nxw < len b" using nxw nx D bounds by (auto simp: wrap_def)
  define b1 where "b1 = (case data of None \<Rightarrow> b | Some xs \<Rightarrow> b\<lparr>ucArray := sb_copy_in b at xs cw\<rparr>)"
  define b2 where "b2 = (if off = 0 then b1\<lparr>uxHead := nxw\<rparr> else b1)"
  define b3 where "b3 = (if xStreamBufferLessThenEqual b2 (uxFront b2) nxw then b2\<lparr>uxFront := nxw\<rparr> else b2)"
  have run: "uxStreamBufferAdd b off data n = (cw, b3)"
    using Add_run [OF ok, of cw off n data] cw c(1)
    by (simp only: cw_def Let_def at_def nxw_def b1_def b2_def b3_def) simp
  have s2: "uxTail b2 = uxTail b" "bufLENGTH b2 = bufLENGTH b" "uxFront b2 = uxFront b"
    "uxMid b2 = uxMid b" "uxHead b2 = (if off = 0 then nxw else uxHead b)" "ucArray b2 = ucArray b1"
    by (auto simp: b2_def b1_def split: option.splits)
  have lt: "xStreamBufferLessThenEqual b2 (uxFront b2) nxw \<longleftrightarrow>
      front_of b \<le> wrap (len b) (len b + nx - unat (uxTail b))"
    by (subst LessThenEqual_distance) (use D s2 nxl nxw in \<open>auto simp: front_of_def\<close>)
  have "ucArray b1 = (case data of None \<Rightarrow> ucArray b
      | Some xs \<Rightarrow> ring_write (len b) (unat at) (take c xs) (ucArray b))"
    using copy_in_eq [of cw b at] bounds d cw atl by (auto simp: b1_def split: option.splits)
  then show ?thesis
    using run s2 nxw at lt by (simp add: b3_def cw_def cong: option.case_cong)
qed

text \<open>The state after an addition, in distances from the unchanged tail.\<close>

lemma Add_state:
  assumes ok: "sb_ok b" and c: "c = accepted b (unat off) (unat n)"
    and d: "case data of None \<Rightarrow> True | Some xs \<Rightarrow> unat n \<le> length xs"
  obtains b' where "uxStreamBufferAdd b off data n = (of_nat c, b')" "sb_ok b'"
    "bufLENGTH b' = bufLENGTH b" "uxTail b' = uxTail b" "uxMid b' = uxMid b"
    "size_of b' = size_of b + (if off = 0 then c else 0)"
    "\<And>i. i < len b \<Longrightarrow> ring_byte b' i =
       (case data of None \<Rightarrow> ring_byte b i
        | Some xs \<Rightarrow> if size_of b + unat off \<le> i \<and> i < size_of b + unat off + c
                      then xs ! (i - (size_of b + unat off)) else ring_byte b i)"
proof (cases "c = 0")
  case True
  then have "uxStreamBufferAdd b off data n = (of_nat c, b)" using Add_none [OF ok] c by simp
  then show ?thesis by (rule that) (use ok True in \<open>auto split: option.splits\<close>)
next
  case False
  note D = sb_okD [OF ok] and sl = size_of_lt [OF ok]
  have bounds: "c + unat off + size_of b < len b" "c \<le> unat n" using c False by (auto simp: accepted_def)
  define nd where "nd = size_of b + (if off = 0 then c else unat off)"
  define nx where "nx = wrap (len b) (unat (uxTail b) + size_of b + (if off = 0 then c else unat off))"
  have nx: "nx = wrap (len b) (unat (uxTail b) + nd)" by (simp add: nx_def nd_def add.assoc)
  have nd: "nd < len b" using bounds by (auto simp: nd_def)
  have nxl: "nx < len b" unfolding nx by (rule wrap_lt) (use nd D in auto)
  obtain b' where b': "uxStreamBufferAdd b off data n = (of_nat c, b')"
    "bufLENGTH b' = bufLENGTH b" "uxTail b' = uxTail b" "uxMid b' = uxMid b"
    "unat (uxHead b') = (if off = 0 then nx else unat (uxHead b))"
    "ucArray b' = (case data of None \<Rightarrow> ucArray b
        | Some xs \<Rightarrow> ring_write (len b) (wrap (len b) (unat (uxTail b) + (size_of b + unat off)))
                       (take c xs) (ucArray b))"
    "unat (uxFront b') =
       (if front_of b \<le> wrap (len b) (len b + nx - unat (uxTail b)) then nx else unat (uxFront b))"
    using Add_effect [OF ok c _ d nx_def] False by auto
  have dist_nx: "wrap (len b) (len b + nx - unat (uxTail b)) = nd"
    unfolding nx using nd D by (intro wrap_back) auto
  have size': "size_of b' = (if off = 0 then nd else size_of b)"
    using b'(2,3,5) dist_nx by (simp add: size_of_def)
  have front': "front_of b' = (if front_of b \<le> nd then nd else front_of b)"
    using b'(2,3,7) dist_nx by (simp add: front_of_def)
  have arr': "length (ucArray b') = len b"
    using b'(6) D bounds wrap_lt [of "unat (uxTail b) + (size_of b + unat off)" "len b"]
    by (auto split: option.splits)
  have fr: "size_of b' \<le> front_of b'"
    using size' front' D(8) by (auto simp: nd_def)
  have "sb_ok b'"
    unfolding sb_ok_def
    using fr arr' b'(2-5,7) D nxl by (auto split: if_splits)
  moreover have "ring_byte b' i =
       (case data of None \<Rightarrow> ring_byte b i
        | Some xs \<Rightarrow> if size_of b + unat off \<le> i \<and> i < size_of b + unat off + c
                      then xs ! (i - (size_of b + unat off)) else ring_byte b i)"
    if i: "i < len b" for i
  proof (cases data)
    case (Some xs)
    then have lx: "length (take c xs) = c" using d bounds by simp
    show ?thesis
      using ring_write_from_tail [OF D(4) _ D(3) i refl, of "size_of b + unat off" "take c xs"]
        b'(2,3,6) Some bounds lx by (auto simp: ring_byte_def)
  qed (use b' in \<open>simp add: ring_byte_def\<close>)
  moreover have "size_of b' = size_of b + (if off = 0 then c else 0)" using size' by (simp add: nd_def)
  ultimately show ?thesis using that b' by blast
qed

lemma content_Add:
  assumes "sb_ok b" "unat n \<le> length xs"
  obtains b' where "uxStreamBufferAdd b 0 (Some xs) n = (of_nat (accepted b 0 (unat n)), b')" "sb_ok b'"
    "bufLENGTH b' = bufLENGTH b" "content b' = content b @ take (accepted b 0 (unat n)) xs"
proof -
  define c where "c = accepted b 0 (unat n)"
  have c: "c = accepted b (unat (0::u32)) (unat n)" by (simp add: c_def)
  obtain b' where b': "uxStreamBufferAdd b 0 (Some xs) n = (of_nat c, b')" "sb_ok b'"
    "bufLENGTH b' = bufLENGTH b" "size_of b' = size_of b + c"
    and bytes: "\<And>i. i < len b \<Longrightarrow> ring_byte b' i =
       (if size_of b + unat (0::u32) \<le> i \<and> i < size_of b + unat (0::u32) + c
        then xs ! (i - (size_of b + unat (0::u32))) else ring_byte b i)"
    by (rule Add_state [OF assms(1) c, of "Some xs"]) (use assms(2) in auto)
  have l: "size_of b + c < len b" "c \<le> length xs"
    using size_of_lt [OF b'(2)] b'(3,4) assms(2) by (auto simp: c_def accepted_def)
  have "content b' = content b @ take c xs"
    unfolding content_def b'(4) by (rule nth_equalityI) (use l bytes in \<open>auto simp: nth_append\<close>)
  then show ?thesis using that b' by (simp add: c_def)
qed

text \<open>What \<open>uxStreamBufferGet\<close> does.\<close>

lemma Get_state:
  assumes ok: "sb_ok b" and c: "c = min (size_of b - unat off) (unat n)"
  shows "\<exists>b'. uxStreamBufferGet b off w n pk =
            (of_nat c, if w then take c (drop (unat off) (content b)) else [], b') \<and>
     sb_ok b' \<and> bufLENGTH b' = bufLENGTH b \<and> uxMid b' = uxMid b \<and>
     content b' = (if \<not> pk \<and> off = 0 then drop c (content b) else content b)"
proof -
  note D = sb_okD [OF ok] and sl = size_of_lt [OF ok]
  have "unat (if uxStreamBufferGetSize b > off then uxStreamBufferGetSize b - off else 0) =
      size_of b - unat off"
    using unat_GetSize [OF ok] unat_sub_le [of off "uxStreamBufferGetSize b"]
    by (auto simp: word_less_nat_alt)
  then have "unat (FreeRTOS_min_uint32 (if uxStreamBufferGetSize b > off
      then uxStreamBufferGetSize b - off else 0) n) = c"
    by (simp only: unat_min c)
  then have cnt: "FreeRTOS_min_uint32 (if uxStreamBufferGetSize b > off
      then uxStreamBufferGetSize b - off else 0) n = of_nat c" by (metis of_nat_unat32)
  have cw: "unat (of_nat c :: u32) = c" using unat_of_nat32 [of c] sl D(2) c by simp
  show ?thesis
  proof (cases "c = 0")
    case True
    then have "uxStreamBufferGet b off w n pk = (0, [], b)"
      unfolding uxStreamBufferGet_def cnt Let_def by simp
    then show ?thesis using ok True by simp
  next
    case False
    then have bounds: "c + unat off \<le> size_of b" using c by auto
    define at where "at = (if off \<noteq> 0 then sb_advance b (uxTail b) off else uxTail b)"
    have at: "unat at = wrap (len b) (unat (uxTail b) + unat off)"
      using unat_advance [of "uxTail b" off b] D bounds sl by (auto simp: at_def wrap_def)
    then have atl: "unat at < len b" using D bounds sl by (auto simp: wrap_def)
    define b' where "b' = (if \<not> pk \<and> off = 0 then b\<lparr>uxTail := sb_advance b at (of_nat c)\<rparr> else b)"
    have "(of_nat c :: u32) > 0" using False cw by (simp add: word_less_nat_alt)
    then have run: "uxStreamBufferGet b off w n pk =
        (of_nat c, if w then sb_copy_out b at (of_nat c) else [], b')"
      unfolding uxStreamBufferGet_def cnt Let_def at_def b'_def by simp
    have "ring_read (len b) (unat at) c (ucArray b) = take c (drop (unat off) (content b))"
      unfolding content_def
      by (subst ring_read_map [OF atl _ D(3)])
        (use bounds sl D(4) at in \<open>auto simp: ring_byte_def wrap_add intro!: nth_equalityI\<close>)
    then have out: "sb_copy_out b at (of_nat c) = take c (drop (unat off) (content b))"
      using copy_out_eq [of "of_nat c" b at] cw atl bounds sl by simp
    have "sb_ok b' \<and> content b' = drop c (content b)" if "\<not> pk \<and> off = 0"
    proof -
      have t': "unat (uxTail b') = wrap (len b) (unat (uxTail b) + c)"
        using that unat_advance [of at "of_nat c" b] cw D at bounds sl by (simp add: b'_def at_def)
      have f: "uxHead b' = uxHead b" "uxFront b' = uxFront b" "uxMid b' = uxMid b"
        "bufLENGTH b' = bufLENGTH b" "ucArray b' = ucArray b" by (simp_all add: b'_def)
      have s': "size_of b' = size_of b - c"
        unfolding size_of_def f t' by (rule wrap_closer) (use D bounds in \<open>auto simp: size_of_def\<close>)
      have fr': "front_of b' = front_of b - c"
        unfolding front_of_def f t' by (rule wrap_closer) (use D bounds in \<open>auto simp: front_of_def\<close>)
      have "unat (uxTail b') < len b" using t' D bounds sl wrap_lt by simp
      then have "sb_ok b'" using D f s' fr' by (simp add: sb_ok_def)
      moreover have "content b' = drop c (content b)"
        unfolding content_def s'
        by (rule nth_equalityI) (use t' f bounds sl D(4) in \<open>auto simp: ring_byte_def wrap_add\<close>)
      ultimately show ?thesis by blast
    qed
    then show ?thesis using run out ok by (cases "\<not> pk \<and> off = 0") (auto simp: b'_def)
  qed
qed

lemma MoveMid_ok:
  assumes ok: "sb_ok b"
  shows "sb_ok (vStreamBufferMoveMid b n)" "content (vStreamBufferMoveMid b n) = content b"
    "unat (uxStreamBufferMidSpace (vStreamBufferMoveMid b n)) =
       unat (uxStreamBufferMidSpace b) - min (unat n) (unat (uxStreamBufferMidSpace b))"
proof -
  note D = sb_okD [OF ok]
  define k where "k = min n (uxStreamBufferMidSpace b)"
  have m: "unat (uxStreamBufferMidSpace b) = wrap (len b) (len b + unat (uxHead b) - unat (uxMid b))"
    unfolding uxStreamBufferMidSpace_def by (rule unat_distance) (use D in auto)
  then have ml: "unat (uxStreamBufferMidSpace b) < len b" using wrap_lt D by simp
  have k: "unat k = min (unat n) (unat (uxStreamBufferMidSpace b))"
    by (auto simp: k_def min_def word_le_nat_alt)
  have e: "vStreamBufferMoveMid b n = b\<lparr>uxMid := sb_advance b (uxMid b) k\<rparr>"
    by (auto simp: vStreamBufferMoveMid_def sb_advance_def Let_def k_def min_def)
  have a: "unat (sb_advance b (uxMid b) k) = wrap (len b) (unat (uxMid b) + unat k)"
    by (rule unat_advance) (use D ml k in auto)
  then have al: "unat (sb_advance b (uxMid b) k) < len b" using wrap_lt [of "unat (uxMid b) + unat k" "len b"] D ml k by simp
  show "sb_ok (vStreamBufferMoveMid b n)"
    using D al unfolding e by (auto simp: sb_ok_def size_of_def front_of_def)
  show "content (vStreamBufferMoveMid b n) = content b"
    unfolding e content_def size_of_def ring_byte_def by simp
  have "unat (uxStreamBufferMidSpace (vStreamBufferMoveMid b n)) =
      wrap (len b) (len b + unat (uxHead b) - wrap (len b) (unat (uxMid b) + unat k))"
    unfolding e uxStreamBufferMidSpace_def a [symmetric]
    by (subst unat_distance) (use D al in auto)
  also have "\<dots> = wrap (len b) (len b + unat (uxHead b) - unat (uxMid b)) - unat k"
    by (rule wrap_closer) (use D k m in auto)
  finally show "unat (uxStreamBufferMidSpace (vStreamBufferMoveMid b n)) =
       unat (uxStreamBufferMidSpace b) - min (unat n) (unat (uxStreamBufferMidSpace b))"
    using m k by simp
qed

section \<open>The contract of a byte queue\<close>

datatype io = Put "u8 list" | Get nat

text \<open>
  A session of a writer and a reader on one buffer: the bytes accepted from the writer, the
  bytes delivered to the reader, and the final state.
\<close>

primrec session ::
  "(u8 list \<Rightarrow> 's \<Rightarrow> nat \<times> 's) \<Rightarrow> (nat \<Rightarrow> 's \<Rightarrow> u8 list \<times> 's) \<Rightarrow>
   io list \<Rightarrow> 's \<Rightarrow> u8 list \<times> u8 list \<times> 's" where
  "session put get [] s = ([], [], s)"
| "session put get (op # ops) s =
     (case op of
        Put xs \<Rightarrow> (let (n, s1) = put xs s; (i, d, s2) = session put get ops s1 in (take n xs @ i, d, s2))
      | Get n \<Rightarrow> (let (ys, s1) = get n s; (i, d, s2) = session put get ops s1 in (i, ys @ d, s2)))"

locale byte_queue =
  fixes put :: "u8 list \<Rightarrow> 's \<Rightarrow> nat \<times> 's"
    and get :: "nat \<Rightarrow> 's \<Rightarrow> u8 list \<times> 's"
    and ok :: "'s \<Rightarrow> bool"
    and view :: "'s \<Rightarrow> u8 list"
    and limit :: "'s \<Rightarrow> nat"
  assumes put_law: "ok s \<Longrightarrow> put xs s = (n, s') \<Longrightarrow>
      ok s' \<and> limit s' = limit s \<and> n \<le> length xs \<and> view s' = view s @ take n xs"
    and get_law: "ok s \<Longrightarrow> get k s = (ys, s') \<Longrightarrow>
      ok s' \<and> limit s' = limit s \<and> view s = ys @ view s' \<and> length ys = min k (length (view s))"
    and limit_law: "ok s \<Longrightarrow> length (view s) \<le> limit s"
begin

lemma session_fifo:
  "ok s \<Longrightarrow> session put get ops s = (i, d, s') \<Longrightarrow>
     ok s' \<and> limit s' = limit s \<and> view s @ i = d @ view s'"
proof (induction ops arbitrary: s i d s')
  case (Cons oper ops)
  show ?case
  proof (cases oper)
    case (Put xs)
    obtain n s1 where p: "put xs s = (n, s1)" by fastforce
    obtain i1 d1 s2 where r: "session put get ops s1 = (i1, d1, s2)" by (cases "session put get ops s1")
    have "ok s2 \<and> limit s2 = limit s \<and> view s @ take n xs @ i1 = d1 @ view s2"
      using Cons.IH [OF _ r] put_law [OF Cons.prems(1) p] by simp
    then show ?thesis using Cons.prems(2) Put p r by simp
  next
    case (Get n)
    obtain ys s1 where p: "get n s = (ys, s1)" by fastforce
    obtain i1 d1 s2 where r: "session put get ops s1 = (i1, d1, s2)" by (cases "session put get ops s1")
    note law = get_law [OF Cons.prems(1) p]
    have "ok s2 \<and> limit s2 = limit s \<and> view s1 @ i1 = d1 @ view s2"
      using Cons.IH [OF _ r] law by simp
    moreover have "view s @ i1 = ys @ view s1 @ i1" using law by (metis append_assoc)
    ultimately show ?thesis using Cons.prems(2) Get p r by simp
  qed
qed simp

lemma session_bounded:
  "ok s \<Longrightarrow> session put get ops s = (i, d, s') \<Longrightarrow> length (view s') \<le> limit s"
  using session_fifo limit_law by metis

end

definition sb_put :: "u8 list \<Rightarrow> StreamBuffer_t \<Rightarrow> nat \<times> StreamBuffer_t" where
  "sb_put xs b = (let (n, b') = uxStreamBufferAdd b 0 (Some xs) (of_nat (length xs)) in (unat n, b'))"

definition sb_get :: "nat \<Rightarrow> StreamBuffer_t \<Rightarrow> u8 list \<times> StreamBuffer_t" where
  "sb_get n b = (let (k, ys, b') = uxStreamBufferGet b 0 True (of_nat (min n (2 ^ 31))) False in (ys, b'))"

interpretation sb: byte_queue sb_put sb_get sb_ok content "\<lambda>b. len b - 1"
proof
  fix b b' :: StreamBuffer_t and xs n
  assume ok: "sb_ok b" and r: "sb_put xs b = (n, b')"
  have le: "unat (of_nat (length xs) :: u32) \<le> length xs" by (simp add: unat_of_nat)
  define c where "c = accepted b 0 (unat (of_nat (length xs) :: u32))"
  have "unat (of_nat c :: u32) = c" using accepted_small [OF ok] unat_of_nat32 by (simp add: c_def)
  moreover have "c \<le> length xs" using le by (simp add: c_def accepted_def)
  moreover obtain b1 where "uxStreamBufferAdd b 0 (Some xs) (of_nat (length xs)) = (of_nat c, b1)" "sb_ok b1"
    "bufLENGTH b1 = bufLENGTH b" "content b1 = content b @ take c xs"
    using content_Add [OF ok le] unfolding c_def by blast
  ultimately show "sb_ok b' \<and> len b' - 1 = len b - 1 \<and> n \<le> length xs \<and> content b' = content b @ take n xs"
    using r by (simp add: sb_put_def)
next
  fix b b' :: StreamBuffer_t and k ys
  assume ok: "sb_ok b" and r: "sb_get k b = (ys, b')"
  have k: "unat (of_nat (min k (2 ^ 31)) :: u32) = min k (2 ^ 31)" by (rule unat_of_nat32) simp
  have s: "size_of b < 2 ^ 31" using size_of_lt [OF ok] sb_okD(2) [OF ok] by simp
  define c where "c = min (size_of b) k"
  have c: "c = min (size_of b - unat (0 :: u32)) (unat (of_nat (min k (2 ^ 31)) :: u32))"
    using s unfolding k by (simp add: c_def)
  show "sb_ok b' \<and> len b' - 1 = len b - 1 \<and> content b = ys @ content b' \<and> length ys = min k (length (content b))"
    using Get_state [OF ok c, of True False] r by (auto simp: sb_get_def c_def)
next
  fix b assume "sb_ok b"
  then show "length (content b) \<le> len b - 1" using size_of_lt by fastforce
qed

section \<open>Properties\<close>

definition demo_buffer :: StreamBuffer_t where
  "demo_buffer = \<lparr>uxTail = 5, uxMid = 5, uxHead = 7, uxFront = 7, bufLENGTH = 8,
     ucArray = [0, 1, 2, 3, 4, 50, 60, 7]\<rparr>"

lemma demo_buffer_ok: "sb_ok demo_buffer" "content demo_buffer = [50, 60]"
  by (simp_all add: sb_ok_def demo_buffer_def size_of_def front_of_def wrap_def content_def ring_byte_def
      upt_conv_Cons)

text \<open>
  Claim C23.  A stream buffer is a queue: whatever is written and read, in any interleaving, the
  bytes delivered followed by what the buffer still holds are the bytes held at first followed by
  the bytes accepted, in order and unaltered, and it never holds more than \<open>LENGTH - 1\<close>.
\<close>

theorem stream_fifo:
  assumes "sb_ok b" and "session sb_put sb_get ops b = (i, d, b')"
  shows "content b @ i = d @ content b' \<and> length (content b') \<le> unat (bufLENGTH b) - 1 \<and> sb_ok b'"
  using sb.session_fifo [OF assms] sb.session_bounded [OF assms] by simp

theorem stream_fifo_witness:
  "\<exists>i d b'. session sb_put sb_get [Put [1, 2, 3], Get 4, Put [4]] demo_buffer = (i, d, b') \<and>
     [50, 60] @ i = d @ content b'"
  using stream_fifo [OF demo_buffer_ok(1)] demo_buffer_ok(2) by (metis prod_cases3)

text \<open>
  \<open>uxStreamBufferAdd\<close> at the head accepts as many bytes as fit, appends exactly
  those, and reports their number; \<open>uxStreamBufferGet\<close> without an offset then returns the
  oldest bytes, removing them unless it only peeks.
\<close>

theorem stream_add_get:
  assumes "sb_ok b" and "length xs < 2 ^ 32"
  shows "\<exists>b' b''. uxStreamBufferAdd b 0 (Some xs) (of_nat (length xs)) =
            (of_nat (min (unat (bufLENGTH b) - 1 - length (content b)) (length xs)), b') \<and>
         content b' = content b @ take (unat (bufLENGTH b) - 1 - length (content b)) xs \<and>
         uxStreamBufferGet b' 0 True n pk =
            (of_nat (min (length (content b')) (unat n)), take (unat n) (content b'), b'') \<and>
         content b'' = (if pk then content b' else drop (unat n) (content b'))"
proof -
  have n: "unat (of_nat (length xs) :: u32) = length xs" using unat_of_nat32 [OF assms(2)] .
  let ?c = "accepted b 0 (length xs)"
  obtain b' where b': "uxStreamBufferAdd b 0 (Some xs) (of_nat (length xs)) = (of_nat ?c, b')" "sb_ok b'"
    "content b' = content b @ take ?c xs"
    using content_Add [OF assms(1), of "of_nat (length xs)" xs] n by auto
  have c: "?c = min (unat (bufLENGTH b) - 1 - length (content b)) (length xs)" by (simp add: accepted_def)
  then have t: "take ?c xs = take (unat (bufLENGTH b) - 1 - length (content b)) xs"
    by (simp add: min_def)
  define k where "k = min (size_of b') (unat n)"
  have k: "k = min (size_of b' - unat (0 :: u32)) (unat n)" by (simp add: k_def)
  have tk: "take k (content b') = take (unat n) (content b')" "drop k (content b') = drop (unat n) (content b')"
    by (simp_all add: k_def min_def)
  obtain b'' where g: "uxStreamBufferGet b' 0 True n pk = (of_nat k, take (unat n) (content b'), b'')"
    "content b'' = (if pk then content b' else drop (unat n) (content b'))"
    using Get_state [OF b'(2) k, of True pk] tk that by (cases pk) fastforce+
  have "uxStreamBufferGet b' 0 True n pk =
      (of_nat (min (length (content b')) (unat n)), take (unat n) (content b'), b'')"
    using g(1) by (simp only: k_def len_content)
  moreover have "uxStreamBufferAdd b 0 (Some xs) (of_nat (length xs)) =
      (of_nat (min (unat (bufLENGTH b) - 1 - length (content b)) (length xs)), b')"
    using b'(1) by (simp only: c)
  moreover have "content b' = content b @ take (unat (bufLENGTH b) - 1 - length (content b)) xs"
    using b'(3) by (simp only: t)
  ultimately show ?thesis using g(2) by blast
qed

theorem stream_add_get_witness:
  "\<exists>b' b''. uxStreamBufferAdd demo_buffer 0 (Some [1, 2, 3]) 3 = (3, b') \<and>
     uxStreamBufferGet b' 0 True 4 False = (4, [50, 60, 1, 2], b'') \<and> content b'' = [3]"
proof -
  have "unat (bufLENGTH demo_buffer) = 8" by (simp add: demo_buffer_def)
  then obtain b' b'' where r: "uxStreamBufferAdd demo_buffer 0 (Some [1, 2, 3]) 3 = (3, b')"
    "content b' = [50, 60, 1, 2, 3]"
    "uxStreamBufferGet b' 0 True 4 False = (of_nat (min (length (content b')) 4), take 4 (content b'), b'')"
    "content b'' = drop 4 (content b')"
    using stream_add_get [OF demo_buffer_ok(1), of "[1, 2, 3]" 4 False] demo_buffer_ok(2)
    by (auto simp del: len_content)
  have "length (content b') = 5" unfolding r(2) by simp
  then show ?thesis using r by (auto simp del: len_content)
qed

text \<open>
  Out-of-order reception: data stored ahead of the head leaves the contents alone;
  when the missing bytes have arrived, advancing the head with a NULL pointer reveals the early
  data after them, exactly as sent.
\<close>

theorem stream_out_of_order:
  assumes "sb_ok b" and "xs \<noteq> []" and "length (content b) + length xs + length ys < unat (bufLENGTH b)"
  shows "\<exists>b1 b2 b3.
           uxStreamBufferAdd b (of_nat (length xs)) (Some ys) (of_nat (length ys)) = (of_nat (length ys), b1) \<and>
           content b1 = content b \<and>
           uxStreamBufferAdd b1 0 (Some xs) (of_nat (length xs)) = (of_nat (length xs), b2) \<and>
           content b2 = content b @ xs \<and>
           uxStreamBufferAdd b2 0 None (of_nat (length ys)) = (of_nat (length ys), b3) \<and>
           content b3 = content b @ xs @ ys"
proof -
  let ?x = "of_nat (length xs) :: u32" and ?y = "of_nat (length ys) :: u32"
  have l32: "unat (bufLENGTH b) < 2 ^ 32" using sb_okD(2) [OF assms(1)] by simp
  have ux: "unat ?x = length xs" and uy: "unat ?y = length ys"
    using unat_of_nat32 assms(3) l32 by auto
  have xz: "?x \<noteq> 0" using ux assms(2) by auto
  have sz: "size_of b + length xs + length ys < len b" using assms(3) by simp
  have c1: "length ys = accepted b (unat ?x) (unat ?y)" using sz ux uy by (simp add: accepted_def)
  obtain b1 where b1: "uxStreamBufferAdd b ?x (Some ys) ?y = (?y, b1)" "sb_ok b1"
      "bufLENGTH b1 = bufLENGTH b" "size_of b1 = size_of b"
    and by1: "\<And>i. i < len b \<Longrightarrow> ring_byte b1 i =
       (if size_of b + length xs \<le> i \<and> i < size_of b + length xs + length ys
        then ys ! (i - (size_of b + length xs)) else ring_byte b i)"
    by (rule Add_state [OF assms(1) c1, of "Some ys"]) (use xz ux uy in simp_all)
  have c2: "length xs = accepted b1 (unat (0::u32)) (unat ?x)" using sz ux b1 by (simp add: accepted_def)
  obtain b2 where b2: "uxStreamBufferAdd b1 0 (Some xs) ?x = (?x, b2)" "sb_ok b2"
      "bufLENGTH b2 = bufLENGTH b" "size_of b2 = size_of b + length xs"
    and by2: "\<And>i. i < len b \<Longrightarrow> ring_byte b2 i =
       (if size_of b \<le> i \<and> i < size_of b + length xs then xs ! (i - size_of b) else ring_byte b1 i)"
    by (rule Add_state [OF b1(2) c2, of "Some xs"]) (use b1 ux in simp_all)
  have c3: "length ys = accepted b2 (unat (0::u32)) (unat ?y)" using sz uy b2 by (simp add: accepted_def)
  obtain b3 where b3: "uxStreamBufferAdd b2 0 None ?y = (?y, b3)"
      "size_of b3 = size_of b + length xs + length ys"
    and by3: "\<And>i. i < len b \<Longrightarrow> ring_byte b3 i = ring_byte b2 i"
    by (rule Add_state [OF b2(2) c3, of None]) (use b2 in simp_all)
  have "content b1 = content b"
    unfolding content_def b1(4) by (rule nth_equalityI) (use sz by1 in auto)
  moreover have "content b2 = content b @ xs"
    unfolding content_def b2(4) by (rule nth_equalityI) (use sz by1 by2 in \<open>auto simp: nth_append\<close>)
  moreover have "content b3 = content b @ xs @ ys"
    unfolding content_def b3(2)
    by (rule nth_equalityI) (use sz by1 by2 by3 in \<open>auto simp: nth_append\<close>)
  ultimately show ?thesis using b1 b2 b3 by blast
qed

theorem stream_out_of_order_witness:
  "\<exists>b1 b2 b3. uxStreamBufferAdd demo_buffer 2 (Some [3, 4]) 2 = (2, b1) \<and>
     uxStreamBufferAdd b1 0 (Some [1, 2]) 2 = (2, b2) \<and>
     uxStreamBufferAdd b2 0 None 2 = (2, b3) \<and> content b3 = [50, 60, 1, 2, 3, 4]"
proof -
  have "unat (bufLENGTH demo_buffer) = 8" by (simp add: demo_buffer_def)
  then show ?thesis
    using stream_out_of_order [OF demo_buffer_ok(1), of "[1, 2]" "[3, 4]"]
    by (auto simp: demo_buffer_ok(2))
qed

end
