(* ===== verification/Checksum.thy ===== *)
theory Checksum
  imports Prelude
begin

text \<open>
  The Internet checksum of \<open>FreeRTOS_IP.c\<close>: \<open>usGenerateChecksum\<close>, which adds 32-bit words
  and counts the carries, and \<open>usGenerateProtocolChecksum\<close>, which adds the pseudo header of
  UDP and TCP; and the byte-order macros of \<open>FreeRTOS_IP.h\<close> on the little-endian target.
\<close>

section \<open>Byte order\<close>

text \<open>The macro \<open>FreeRTOS_htons\<close> on an expression of 32 bits, and on a 16-bit value.\<close>

definition htons_wide :: "u32 \<Rightarrow> u16" where
  "htons_wide usIn = ucast (push_bit 8 usIn OR drop_bit 8 usIn)"

definition FreeRTOS_htons :: "u16 \<Rightarrow> u16" where
  "FreeRTOS_htons usIn = htons_wide (ucast usIn)"

definition FreeRTOS_htonl :: "u32 \<Rightarrow> u32" where
  "FreeRTOS_htonl ulIn =
     push_bit 24 ulIn OR push_bit 8 (ulIn AND 0x0000ff00) OR drop_bit 8 (ulIn AND 0x00ff0000) OR
     drop_bit 24 ulIn"

text \<open>Loads from a byte sequence, as the little-endian processor does them.\<close>

definition load16 :: "u8 list \<Rightarrow> nat \<Rightarrow> u32" where
  "load16 d k = ucast (d ! k) + 0x100 * ucast (d ! (k + 1))"

definition load32 :: "u8 list \<Rightarrow> nat \<Rightarrow> u32" where
  "load32 d k = load16 d k + 0x10000 * load16 d (k + 2)"

section \<open>usGenerateChecksum\<close>

text \<open>
  \<open>d\<close> holds the bytes at \<open>pucNextData\<close>, whose address is \<open>addr\<close>; the pointers \<open>xSource\<close> and
  \<open>xLastSource\<close> are offsets into \<open>d\<close>.  One turn of the main loop adds four words.
\<close>

definition lo16 :: "u32 \<Rightarrow> u32" where "lo16 x = x AND 0xFFFF"
definition hi16 :: "u32 \<Rightarrow> u32" where "hi16 x = drop_bit 16 x"

function quad_loop :: "u8 list \<Rightarrow> nat \<Rightarrow> int \<Rightarrow> u32 \<Rightarrow> u32 \<Rightarrow> nat \<times> u32 \<times> u32" where
  "quad_loop d xSource xLastSource xSum ulCarry =
     (if int xSource < xLastSource then
        (let xSum2 = xSum + load32 d xSource;
             c1 = (if xSum2 < xSum then ulCarry + 1 else ulCarry);
             xSum' = xSum2 + load32 d (xSource + 4);
             c2 = (if xSum2 > xSum' then c1 + 1 else c1);
             xSum2' = xSum' + load32 d (xSource + 8);
             c3 = (if xSum2' < xSum' then c2 + 1 else c2);
             xSum'' = xSum2' + load32 d (xSource + 12);
             c4 = (if xSum2' > xSum'' then c3 + 1 else c3)
         in quad_loop d (xSource + 16) xLastSource xSum'' c4)
      else (xSource, xSum, ulCarry))"
  by auto
termination by (relation "measure (\<lambda>(d, s, l, x, c). nat (l - int s))") auto

function half_loop :: "u8 list \<Rightarrow> nat \<Rightarrow> nat \<Rightarrow> u32 \<Rightarrow> nat \<times> u32" where
  "half_loop d xSource xLastSource xSum =
     (if xSource < xLastSource
      then half_loop d (xSource + 2) xLastSource (xSum + load16 d xSource)
      else (xSource, xSum))"
  by auto
termination by (relation "measure (\<lambda>(d, s, l, x). l - s)") auto

declare quad_loop.simps [simp del] half_loop.simps [simp del]

definition usGenerateChecksum :: "u32 \<Rightarrow> u32 \<Rightarrow> u8 list \<Rightarrow> u16" where
  "usGenerateChecksum ulSum addr d =
     (let n0 = length d;
          xSum0 = ucast (htons_wide ulSum) :: u32;
          ulAlignBits = addr AND 3;
          (xTerm1, src1, n1) = (if ulAlignBits AND 1 \<noteq> 0 \<and> n0 \<ge> 1
                                then (0x100 * ucast (d ! 0) :: u32, 1, n0 - 1) else (0, 0, n0));
          (xSum1, src2, n2) = (if (ulAlignBits = 1 \<or> ulAlignBits = 2) \<and> n1 \<ge> 2
                               then (xSum0 + load16 d src1, src1 + 2, n1 - 2) else (xSum0, src1, n1));
          xLast = int src2 + 4 * (int (n2 div 4) - 3);
          (src3, xSum2, ulCarry) = quad_loop d src2 xLast xSum1 0;
          xSum3 = lo16 xSum2 + hi16 xSum2 + ulCarry;
          n3 = n2 mod 16;
          (src4, xSum4) = half_loop d src3 (src3 + n3 div 2 * 2) xSum3;
          xTerm2 = (if odd n3 then xTerm1 + ucast (d ! src4) else xTerm1);
          xSum5 = xSum4 + xTerm2;
          xSum6 = lo16 xSum5 + hi16 xSum5;
          xSum7 = lo16 xSum6 + hi16 xSum6;
          xSum8 = (if ulAlignBits AND 1 \<noteq> 0
                   then push_bit 8 (xSum7 AND 0xff) OR drop_bit 8 (xSum7 AND 0xff00) else xSum7)
      in FreeRTOS_htons (ucast xSum8))"

section \<open>The ones' complement sum\<close>

text \<open>The sum of RFC 1071: 16-bit words in network order, an odd byte padded with zero.\<close>

fun be_sum :: "u8 list \<Rightarrow> nat" where
  "be_sum [] = 0"
| "be_sum [a] = 256 * unat a"
| "be_sum (a # b # xs) = 256 * unat a + unat b + be_sum xs"

fun le_sum :: "u8 list \<Rightarrow> nat" where
  "le_sum [] = 0"
| "le_sum [a] = unat a"
| "le_sum (a # b # xs) = unat a + 256 * unat b + le_sum xs"

text \<open>End-around carry: the representative of a sum in \<open>0\<close> to \<open>65535\<close>.\<close>

definition ones_fold :: "nat \<Rightarrow> nat" where
  "ones_fold n = (if n = 0 then 0 else (n - 1) mod 65535 + 1)"

definition ones_eq :: "nat \<Rightarrow> nat \<Rightarrow> bool" where
  "ones_eq m n \<longleftrightarrow> m mod 65535 = n mod 65535 \<and> (m = 0 \<longleftrightarrow> n = 0)"

lemma ones_eq_refl [simp]: "ones_eq n n" by (simp add: ones_eq_def)

lemma ones_eq_trans: "ones_eq a b \<Longrightarrow> ones_eq b c \<Longrightarrow> ones_eq a c" by (simp add: ones_eq_def)

lemma ones_eq_sym: "ones_eq a b \<Longrightarrow> ones_eq b a" by (auto simp: ones_eq_def)

lemma ones_eq_add: "ones_eq a b \<Longrightarrow> ones_eq c d \<Longrightarrow> ones_eq (a + c) (b + d)"
  by (auto simp: ones_eq_def intro: mod_add_cong)

lemma ones_eq_small: "ones_eq a b \<Longrightarrow> a \<le> 65535 \<Longrightarrow> b \<le> 65535 \<Longrightarrow> a = b"
proof -
  assume e: "ones_eq a b" and l: "a \<le> 65535" "b \<le> 65535"
  have "x = (if x mod 65535 = 0 then (if x = 0 then 0 else 65535) else x mod 65535)"
    if "x \<le> 65535" for x :: nat
    using that by (cases "x = 65535") auto
  from this [OF l(1)] this [OF l(2)] e show ?thesis unfolding ones_eq_def by metis
qed

lemma ones_fold_le: "ones_fold n \<le> 65535"
  by (auto simp: ones_fold_def Suc_le_eq)

lemma ones_fold_eq: "ones_eq (ones_fold n) n"
proof (cases n)
  case (Suc m)
  have "(m mod 65535 + 1) mod 65535 = (m + 1) mod 65535" by (rule mod_add_left_eq)
  then show ?thesis using Suc by (simp add: ones_fold_def ones_eq_def)
qed (simp add: ones_fold_def)

lemma ones_foldI: "ones_eq a n \<Longrightarrow> a \<le> 65535 \<Longrightarrow> a = ones_fold n"
  by (rule ones_eq_small [OF ones_eq_trans [OF _ ones_eq_sym [OF ones_fold_eq]] _ ones_fold_le])

lemma ones_fold_cong: "ones_eq m n \<Longrightarrow> ones_fold m = ones_fold n"
  by (rule ones_foldI [OF ones_eq_trans [OF ones_fold_eq] ones_fold_le])

lemma ones_eq_shift: "ones_eq (a + 65536 * b) (a + b)"
proof -
  have "a + 65536 * b = (a + b) + 65535 * b" by simp
  also have "\<dots> mod 65535 = (a + b) mod 65535" by (rule mod_mult_self2)
  finally show ?thesis by (auto simp: ones_eq_def)
qed

lemma ones_eq_256: "ones_eq a b \<Longrightarrow> ones_eq (256 * a) (256 * b)"
  unfolding ones_eq_def by (metis mod_mult_right_eq mult_eq_0_iff zero_neq_numeral)

lemma ones_eq_carry: "ones_eq (a + 4294967296 * c) (a + c)"
proof -
  have "ones_eq (a + 65536 * (65536 * c)) (a + 65536 * c)" by (rule ones_eq_shift)
  moreover have "ones_eq (a + 65536 * c) (a + c)" by (rule ones_eq_shift)
  ultimately show ?thesis using ones_eq_trans by simp
qed

text \<open>Swapping bytes multiplies by 256, which is how the little-endian sum relates to RFC 1071.\<close>

definition swap_nat :: "nat \<Rightarrow> nat" where
  "swap_nat x = 256 * (x mod 256) + x div 256"

lemma swap_nat_eq: "ones_eq (swap_nat x) (256 * x)"
proof -
  have "256 * x = 256 * (x mod 256) + 65536 * (x div 256)"
    using div_mult_mod_eq [of x 256] by linarith
  then show ?thesis unfolding swap_nat_def using ones_eq_shift ones_eq_sym by metis
qed

lemma swap_nat_le: "x \<le> 65535 \<Longrightarrow> swap_nat x \<le> 65535"
proof -
  assume "x \<le> 65535"
  then have "x div 256 \<le> 255" "x mod 256 \<le> 255" by auto
  then show ?thesis unfolding swap_nat_def by linarith
qed

lemma le_be_sum: "ones_eq (le_sum xs) (256 * be_sum xs)"
proof (induction xs rule: be_sum.induct)
  case (2 a)
  have "ones_eq (0 + 65536 * unat a) (0 + unat a)" by (rule ones_eq_shift)
  then show ?case using ones_eq_sym by simp
next
  case (3 a b xs)
  have "ones_eq (256 * unat b + 65536 * unat a) (256 * unat b + unat a)" by (rule ones_eq_shift)
  then have "ones_eq (unat a + 256 * unat b) (256 * (256 * unat a + unat b))"
    using ones_eq_sym by (simp add: add.commute)
  from ones_eq_add [OF this 3] show ?case by (simp add: algebra_simps)
qed simp

section \<open>The loops compute the sum\<close>

lemma unat_ucast8 [simp]: "unat (ucast (b :: u8) :: u32) = unat b"
  by (simp add: unsigned_ucast_eq take_bit_nat_eq_self_iff) (use unat_lt [of b] in simp)

lemma u8_lt: "unat (b :: u8) < 256"
  using unat_lt [of b] by simp

lemma unat_load16: "unat (load16 d k) = unat (d ! k) + 256 * unat (d ! (k + 1))"
  using u8_lt [of "d ! k"] u8_lt [of "d ! (k + 1)"]
  by (simp add: load16_def unat_word_ariths)

lemma load16_lt: "unat (load16 d k) < 65536"
  using u8_lt [of "d ! k"] u8_lt [of "d ! (k + 1)"] by (simp add: unat_load16)

lemma unat_load32: "unat (load32 d k) = unat (load16 d k) + 65536 * unat (load16 d (k + 2))"
  using load16_lt [of d k] load16_lt [of d "k + 2"]
  by (simp add: load32_def unat_word_ariths)

lemma unat_lo16: "unat (lo16 x) = unat x mod 65536"
  using unat_and_mask [of x 16] by (simp add: lo16_def mask_numeral)

lemma unat_hi16: "unat (hi16 x) = unat x div 65536"
  unfolding hi16_def by (simp only: unat_drop_bit_eq) (simp add: drop_bit_eq_div)

lemma le_sum_drop2:
  "k + 2 \<le> length d \<Longrightarrow> le_sum (drop k d) = unat (load16 d k) + le_sum (drop (k + 2) d)"
proof -
  assume l: "k + 2 \<le> length d"
  then have "drop k d = d ! k # d ! (k + 1) # drop (k + 2) d"
    by (metis Cons_nth_drop_Suc Suc_eq_plus1 add_2_eq_Suc' add_leE le_imp_less_Suc less_eq_Suc_le
        order.strict_trans1 Suc_le_lessD)
  then show ?thesis by (simp add: unat_load16)
qed

lemma le_sum_drop4:
  assumes "k + 4 \<le> length d"
  shows "ones_eq (unat (load32 d k) + le_sum (drop (k + 4) d)) (le_sum (drop k d))"
proof -
  have k4: "k + 2 + 2 = k + 4" by simp
  have "le_sum (drop k d) = unat (load16 d k) + unat (load16 d (k + 2)) + le_sum (drop (k + 4) d)"
    using le_sum_drop2 [of k d] le_sum_drop2 [of "k + 2" d, unfolded k4] assms by linarith
  moreover have "ones_eq (unat (load32 d k)) (unat (load16 d k) + unat (load16 d (k + 2)))"
    unfolding unat_load32 by (rule ones_eq_shift)
  ultimately show ?thesis using ones_eq_add by simp
qed

text \<open>Adding a word and counting the carry keeps the sum with end-around carry.\<close>

lemma add_carry:
  fixes s w c :: u32
  assumes "unat c + 1 < 2 ^ 32"
  shows "ones_eq (unat (s + w) + unat (if s + w < s then c + 1 else c)) (unat s + unat c + unat w)"
    and "unat (if s + w < s then c + 1 else c) \<le> unat c + 1"
proof -
  have c1: "unat (c + 1) = unat c + 1" using unat_add_small [of c 1] assms by simp
  show "unat (if s + w < s then c + 1 else c) \<le> unat c + 1" using c1 by simp
  have m: "unat (s + w) = (unat s + unat w) mod 4294967296" by (simp add: unat_word_ariths)
  have "s + w < s \<longleftrightarrow> 4294967296 \<le> unat s + unat w"
    unfolding word_less_nat_alt m using unat_u32 [of s] unat_u32 [of w] by (auto simp: mod_if)
  moreover have "ones_eq (unat (s + w) + unat c + 1) (unat s + unat c + unat w)"
    if "4294967296 \<le> unat s + unat w"
  proof -
    have "unat (s + w) + 4294967296 = unat s + unat w"
      unfolding m using that unat_u32 [of s] unat_u32 [of w] by (auto simp: mod_if)
    then show ?thesis
      using ones_eq_carry [of "unat (s + w) + unat c" 1] ones_eq_sym by (simp add: algebra_simps)
  qed
  moreover have "unat (s + w) = unat s + unat w" if "\<not> 4294967296 \<le> unat s + unat w"
    unfolding m using that by simp
  ultimately show "ones_eq (unat (s + w) + unat (if s + w < s then c + 1 else c)) (unat s + unat c + unat w)"
    using c1 by (cases "s + w < s") (simp_all add: algebra_simps)
qed

lemma quad_loop_sum:
  assumes "unat c + (length d - k) < 2 ^ 32" "k \<le> length d" "lst = int k + 4 * (int ((length d - k) div 4) - 3)"
  shows "\<exists>k' s' c'. quad_loop d k lst s c = (k', s', c') \<and> k' = k + 16 * ((length d - k) div 16) \<and>
           ones_eq (unat s' + unat c' + le_sum (drop k' d)) (unat s + unat c + le_sum (drop k d)) \<and>
           unat c' \<le> unat c + (length d - k) div 4"
  using assms
proof (induction "length d - k" arbitrary: k s c rule: less_induct)
  case less
  show ?case
  proof (cases "16 \<le> length d - k")
    case False
    then have "\<not> int k < lst" "(length d - k) div 16 = 0" using less.prems by auto
    then show ?thesis by (subst quad_loop.simps) simp
  next
    case True
    then have lt: "int k < lst" and k16: "k + 16 \<le> length d" using less.prems by auto
    define s1 c1 where "s1 = s + load32 d k" and "c1 = (if s + load32 d k < s then c + 1 else c)"
    define s2 c2 where "s2 = s1 + load32 d (k + 4)" and "c2 = (if s1 + load32 d (k + 4) < s1 then c1 + 1 else c1)"
    define s3 c3 where "s3 = s2 + load32 d (k + 8)" and "c3 = (if s2 + load32 d (k + 8) < s2 then c2 + 1 else c2)"
    define s4 c4 where "s4 = s3 + load32 d (k + 12)" and "c4 = (if s3 + load32 d (k + 12) < s3 then c3 + 1 else c3)"
    have run: "quad_loop d k lst s c = quad_loop d (k + 16) lst s4 c4"
      by (subst quad_loop.simps)
        (simp add: lt Let_def s1_def s2_def s3_def s4_def c1_def c2_def c3_def c4_def)
    have b1: "unat c + 1 < 2 ^ 32" using less.prems True by linarith
    note a1 = add_carry [OF b1, of s "load32 d k", folded c1_def, folded s1_def]
    have b2: "unat c1 + 1 < 2 ^ 32" using a1(2) less.prems True by linarith
    note a2 = add_carry [OF b2, of s1 "load32 d (k + 4)", folded c2_def, folded s2_def]
    have b3: "unat c2 + 1 < 2 ^ 32" using a1(2) a2(2) less.prems True by linarith
    note a3 = add_carry [OF b3, of s2 "load32 d (k + 8)", folded c3_def, folded s3_def]
    have b4: "unat c3 + 1 < 2 ^ 32" using a1(2) a2(2) a3(2) less.prems True by linarith
    note a4 = add_carry [OF b4, of s3 "load32 d (k + 12)", folded c4_def, folded s4_def]
    have c4: "unat c4 \<le> unat c + 4" using a1(2) a2(2) a3(2) a4(2) by linarith
    have step: "ones_eq (unat sb + unat cb + le_sum (drop (j + 4) d)) (unat sa + unat ca + le_sum (drop j d))"
      if "ones_eq (unat sb + unat cb) (unat sa + unat ca + unat (load32 d j))" "j + 4 \<le> length d"
      for sa sb ca cb :: u32 and j
    proof -
      have "ones_eq (unat sb + unat cb + le_sum (drop (j + 4) d))
          (unat sa + unat ca + unat (load32 d j) + le_sum (drop (j + 4) d))"
        by (rule ones_eq_add [OF that(1) ones_eq_refl])
      moreover have "ones_eq (unat sa + unat ca + unat (load32 d j) + le_sum (drop (j + 4) d))
          (unat sa + unat ca + le_sum (drop j d))"
        using ones_eq_add [OF ones_eq_refl le_sum_drop4 [OF that(2)], of "unat sa + unat ca"]
        by (simp only: add.assoc)
      ultimately show ?thesis by (rule ones_eq_trans)
    qed
    have e: "ones_eq (unat s4 + unat c4 + le_sum (drop (k + 16) d)) (unat s + unat c + le_sum (drop k d))"
      using step [OF a4(1)] step [OF a3(1)] step [OF a2(1)] step [OF a1(1)] k16
      by (simp add: add.commute add.left_commute) (meson ones_eq_trans)
    have m: "(length d - (k + 16)) div 4 = (length d - k) div 4 - 4"
      "(length d - (k + 16)) div 16 = (length d - k) div 16 - 1" "(length d - k) div 16 \<ge> 1" "(length d - k) div 4 \<ge> 4"
      using True k16 by auto
    have "\<exists>k' s' c'. quad_loop d (k + 16) lst s4 c4 = (k', s', c') \<and>
        k' = k + 16 + 16 * ((length d - (k + 16)) div 16) \<and>
        ones_eq (unat s' + unat c' + le_sum (drop k' d)) (unat s4 + unat c4 + le_sum (drop (k + 16) d)) \<and>
        unat c' \<le> unat c4 + (length d - (k + 16)) div 4"
    proof (rule less.hyps)
      show "unat c4 + (length d - (k + 16)) < 2 ^ 32" using c4 less.prems(1) True by linarith
      show "lst = int (k + 16) + 4 * (int ((length d - (k + 16)) div 4) - 3)"
        unfolding m(1) less.prems(3) using m(4) by (simp add: of_nat_diff)
    qed (use k16 True in auto)
    then obtain k' s' c' where r: "quad_loop d (k + 16) lst s4 c4 = (k', s', c')"
      "k' = k + 16 + 16 * ((length d - (k + 16)) div 16)"
      "ones_eq (unat s' + unat c' + le_sum (drop k' d)) (unat s4 + unat c4 + le_sum (drop (k + 16) d))"
      "unat c' \<le> unat c4 + (length d - (k + 16)) div 4" by blast
    define D E where "D = (length d - k) div 4" and "E = (length d - k) div 16"
    have "k' = k + 16 + 16 * (E - 1)" "1 \<le> E" using r(2) m(2,3) by (simp_all only: E_def)
    then have "k' = k + 16 * ((length d - k) div 16)" unfolding E_def [symmetric] by simp
    moreover have "unat c' \<le> unat c4 + (D - 4)" "4 \<le> D" using r(4) m(1,4) by (simp_all only: D_def)
    then have "unat c' \<le> unat c + (length d - k) div 4" unfolding D_def [symmetric] using c4 by linarith
    ultimately show ?thesis using run r(1) ones_eq_trans [OF r(3) e] by auto
  qed
qed

lemma half_loop_sum:
  assumes "lst = k + 2 * m" "lst \<le> length d"
  shows "half_loop d k lst s = (lst, s + of_nat (le_sum (drop k d) - le_sum (drop lst d))) \<and>
           le_sum (drop lst d) \<le> le_sum (drop k d)"
  using assms
proof (induction m arbitrary: k s)
  case 0
  then show ?case by (subst half_loop.simps) simp
next
  case (Suc m)
  have k: "k < lst" "k + 2 \<le> length d" using Suc.prems by auto
  have l: "le_sum (drop k d) = unat (load16 d k) + le_sum (drop (k + 2) d)"
    using le_sum_drop2 k(2) by blast
  have IH: "half_loop d (k + 2) lst t = (lst, t + of_nat (le_sum (drop (k + 2) d) - le_sum (drop lst d))) \<and>
      le_sum (drop lst d) \<le> le_sum (drop (k + 2) d)" for t
    using Suc.IH [of "k + 2" t] Suc.prems by simp
  have "of_nat (le_sum (drop k d) - le_sum (drop lst d)) =
      load16 d k + of_nat (le_sum (drop (k + 2) d) - le_sum (drop lst d))"
  proof -
    have "le_sum (drop k d) - le_sum (drop lst d) =
        unat (load16 d k) + (le_sum (drop (k + 2) d) - le_sum (drop lst d))"
      using IH l by simp
    then show ?thesis by (simp only: of_nat_add of_nat_unat32)
  qed
  moreover have "half_loop d k lst s = half_loop d (k + 2) lst (s + load16 d k)"
    by (subst half_loop.simps) (simp add: k)
  ultimately show ?case using IH [of "s + load16 d k"] l by (simp add: add.assoc)
qed

lemma le_sum_bound: "le_sum xs \<le> 65535 * ((length xs + 1) div 2)"
proof (induction xs rule: le_sum.induct)
  case (2 a)
  then show ?case using u8_lt [of a] by simp
next
  case (3 a b xs)
  then show ?case using u8_lt [of a] u8_lt [of b] by simp
qed simp

text \<open>Folding twice brings any 32-bit sum into 16 bits.\<close>

lemma fold_once: "ones_eq (unat (lo16 x + hi16 x)) (unat x)" "unat (lo16 x + hi16 x) = unat x mod 65536 + unat x div 65536"
proof -
  have "unat x div 65536 < 65536" using unat_u32 [of x] by simp
  then show s: "unat (lo16 x + hi16 x) = unat x mod 65536 + unat x div 65536"
    using unat_add_small [of "lo16 x" "hi16 x"] by (simp add: unat_lo16 unat_hi16)
  show "ones_eq (unat (lo16 x + hi16 x)) (unat x)"
    unfolding s using ones_eq_shift [of "unat x mod 65536" "unat x div 65536"] ones_eq_sym
    by (metis mod_mult_div_eq)
qed

lemma fold_twice:
  fixes x :: u32
  defines "y \<equiv> lo16 x + hi16 x"
  shows "ones_eq (unat (lo16 y + hi16 y)) (unat x)" "unat (lo16 y + hi16 y) \<le> 65535"
proof -
  show "ones_eq (unat (lo16 y + hi16 y)) (unat x)"
    unfolding y_def using fold_once(1) ones_eq_trans by blast
  have "unat y \<le> 65535 + 65535"
    unfolding y_def fold_once(2) using unat_u32 [of x] by (intro add_mono) auto
  moreover have "unat y = 65536 * (unat y div 65536) + unat y mod 65536" "unat y mod 65536 < 65536" by simp_all
  ultimately have "unat y div 65536 = 0 \<or> unat y div 65536 = 1 \<and> unat y mod 65536 \<le> 65534" by linarith
  then show "unat (lo16 y + hi16 y) \<le> 65535" unfolding fold_once(2) by auto
qed

lemma htons_wide_swap:
  assumes "unat x < 65536"
  shows "unat (htons_wide x) = swap_nat (unat x)"
proof -
  have "unat (take_bit 16 x) = unat x" using assms by (simp add: unsigned_take_bit_eq take_bit_nat_eq_self)
  then have tb: "take_bit 16 x = x" by (metis of_nat_unat32)
  have "\<not> bit x (n + 8)" if "8 \<le> n" for n
    using that bit_take_bit_iff [of 16 x "n + 8"] unfolding tb by simp
  then have dj: "push_bit 8 x OR drop_bit 8 x = push_bit 8 x + drop_bit 8 x"
    by (subst disjunctive_add) (auto simp: bit_simps add.commute)
  have u: "unat (push_bit 8 x) = 256 * unat x" "unat (drop_bit 8 x) = unat x div 256"
    using assms by (simp_all only: unsigned_push_bit_eq unat_drop_bit_eq)
      (simp_all add: push_bit_eq_mult drop_bit_eq_div take_bit_eq_mod)
  have "unat (push_bit 8 x + drop_bit 8 x) = 256 * unat x + unat x div 256"
    using assms by (subst unat_add_small) (auto simp: u)
  then have "unat (htons_wide x) = (256 * unat x + unat x div 256) mod 65536"
    unfolding htons_wide_def dj by (simp add: unsigned_ucast_eq take_bit_eq_mod)
  also have "256 * unat x = 256 * (unat x mod 256) + 65536 * (unat x div 256)"
    using div_mult_mod_eq [of "unat x" 256] by linarith
  also have "(256 * (unat x mod 256) + 65536 * (unat x div 256) + unat x div 256) mod 65536 =
      (swap_nat (unat x) + 65536 * (unat x div 256)) mod 65536"
    by (simp add: swap_nat_def algebra_simps)
  also have "\<dots> = swap_nat (unat x) mod 65536" by (rule mod_mult_self2)
  also have "\<dots> = swap_nat (unat x)" using swap_nat_le [of "unat x"] assms by simp
  finally show ?thesis .
qed

lemma swap_final:
  fixes x :: u32
  assumes "unat x < 65536"
  shows "unat (push_bit 8 (x AND 0xff) OR drop_bit 8 (x AND 0xff00)) = swap_nat (unat x)"
proof -
  have d1: "drop_bit 8 (x AND 0xff00) = drop_bit 8 x"
  proof (rule bit_eqI)
    fix n
    have "unat (take_bit 16 x) = unat x" using assms by (simp add: unsigned_take_bit_eq take_bit_nat_eq_self)
    then have tb: "take_bit 16 x = x" by (metis of_nat_unat32)
    have "\<not> bit x (n + 8)" if "8 \<le> n"
      using that bit_take_bit_iff [of 16 x "n + 8"] unfolding tb by simp
    moreover have "bit (0xff00 :: u32) (n + 8) \<longleftrightarrow> n < 8"
    proof -
      have "(0xff00 :: u32) = push_bit 8 (mask 8)" by (simp add: mask_numeral)
      then show ?thesis by (simp only: bit_push_bit_iff) (auto simp: bit_simps)
    qed
    ultimately show "bit (drop_bit 8 (x AND 0xff00)) n = bit (drop_bit 8 x) n"
      by (auto simp: bit_simps add.commute)
  qed
  have d2: "x AND 0xff = take_bit 8 x" by (simp add: take_bit_eq_mask mask_numeral)
  have u1: "unat (push_bit 8 (take_bit 8 x)) = 256 * (unat x mod 256)"
    by (simp only: unsigned_push_bit_eq unsigned_take_bit_eq)
      (simp add: push_bit_eq_mult take_bit_eq_mod)
  have u2: "unat (drop_bit 8 x) = unat x div 256"
    by (simp only: unat_drop_bit_eq) (simp add: drop_bit_eq_div)
  have dj: "push_bit 8 (take_bit 8 x) OR drop_bit 8 x = push_bit 8 (take_bit 8 x) + drop_bit 8 x"
  proof (subst disjunctive_add)
    fix n
    have "unat (take_bit 16 x) = unat x" using assms by (simp add: unsigned_take_bit_eq take_bit_nat_eq_self)
    then have tb: "take_bit 16 x = x" by (metis of_nat_unat32)
    have "\<not> bit x (n + 8)" if "8 \<le> n"
      using that bit_take_bit_iff [of 16 x "n + 8"] unfolding tb by simp
    then show "\<not> bit (push_bit 8 (take_bit 8 x)) n \<or> \<not> bit (drop_bit 8 x) n"
      by (auto simp: bit_simps add.commute)
  qed simp
  show ?thesis
    unfolding d1 d2 dj using assms by (subst unat_add_small) (auto simp: swap_nat_def u1 u2)
qed

text \<open>Everything between the alignment steps and the final byte swap.\<close>

definition chk_core :: "u8 list \<Rightarrow> nat \<Rightarrow> u32 \<Rightarrow> u32 \<Rightarrow> u32" where
  "chk_core d src xSum xTerm =
     (let n = length d - src;
          (src3, xSum2, ulCarry) = quad_loop d src (int src + 4 * (int (n div 4) - 3)) xSum 0;
          xSum3 = lo16 xSum2 + hi16 xSum2 + ulCarry;
          n3 = n mod 16;
          (src4, xSum4) = half_loop d src3 (src3 + n3 div 2 * 2) xSum3;
          xTerm2 = (if odd n3 then xTerm + ucast (d ! src4) else xTerm);
          xSum5 = xSum4 + xTerm2;
          xSum6 = lo16 xSum5 + hi16 xSum5
      in lo16 xSum6 + hi16 xSum6)"

lemma chk_core_sum:
  assumes n: "src \<le> length d" "length d < 2 ^ 31" and s: "unat xSum \<le> 2 * 65535" and t: "unat xTerm \<le> 65535"
  shows "ones_eq (unat (chk_core d src xSum xTerm)) (unat xSum + unat xTerm + le_sum (drop src d))"
    and "unat (chk_core d src xSum xTerm) \<le> 65535"
proof -
  define m where "m = length d - src"
  define n3 where "n3 = m mod 16"
  obtain src3 s2 c where q: "quad_loop d src (int src + 4 * (int (m div 4) - 3)) xSum 0 = (src3, s2, c)"
    "src3 = src + 16 * (m div 16)"
    "ones_eq (unat s2 + unat c + le_sum (drop src3 d)) (unat xSum + le_sum (drop src d))"
    "unat c \<le> m div 4"
  proof -
    have "unat (0 :: u32) + (length d - src) < 2 ^ 32" using n by simp
    from quad_loop_sum [OF this n(1) refl, of xSum] that show ?thesis unfolding m_def by auto
  qed
  have "m = 16 * (m div 16) + n3" by (simp add: n3_def)
  then have len3: "length d = src3 + n3" "n3 < 16" using q(2) n(1) unfolding m_def n3_def by auto
  have "m div 4 \<le> (2 ^ 31 - 1) div 4" by (rule div_le_mono) (use n in \<open>simp add: m_def\<close>)
  then have c: "unat c < 536870912" using q(4) by simp
  define s3 where "s3 = lo16 s2 + hi16 s2 + c"
  have f: "unat (lo16 s2 + hi16 s2) \<le> 131070" unfolding fold_once(2)
    using unat_u32 [of s2] by (auto intro: order_trans [OF add_mono [of _ 65535 _ 65535]])
  then have s3: "unat s3 = unat (lo16 s2 + hi16 s2) + unat c"
    unfolding s3_def using c by (subst unat_add_small) auto
  then have e3: "ones_eq (unat s3) (unat s2 + unat c)"
    using ones_eq_add [OF fold_once(1) ones_eq_refl] by simp
  define lst where "lst = src3 + n3 div 2 * 2"
  have lst: "lst = src3 + 2 * (n3 div 2)" "lst \<le> length d"
    using len3 unfolding lst_def by auto
  define h where "h = le_sum (drop src3 d) - le_sum (drop lst d)"
  have hl: "half_loop d src3 lst s3 = (lst, s3 + of_nat h)" "le_sum (drop lst d) \<le> le_sum (drop src3 d)"
    using half_loop_sum [OF lst, of s3] by (simp_all add: h_def)
  have "le_sum (drop src3 d) \<le> 65535 * ((length (drop src3 d) + 1) div 2)" by (rule le_sum_bound)
  also have "\<dots> \<le> 65535 * 8" using len3 by (intro mult_le_mono2) simp
  finally have h: "h \<le> 524280" by (simp add: h_def)
  define t2 where "t2 = (if odd n3 then xTerm + ucast (d ! lst) else xTerm)"
  have t2: "unat t2 = unat xTerm + le_sum (drop lst d)"
  proof (cases "odd n3")
    case True
    then have "length d = lst + 1" using len3 lst(1) by presburger
    then have "drop lst d = [d ! lst]" by (metis Cons_nth_drop_Suc Suc_eq_plus1 drop_all lessI order_refl)
    moreover have "unat (xTerm + ucast (d ! lst)) = unat xTerm + unat (d ! lst)"
      using t u8_lt [of "d ! lst"] by (subst unat_add_small) auto
    ultimately show ?thesis using True by (simp add: t2_def)
  next
    case False
    then have "length d = lst" using len3 lst(1) by presburger
    then show ?thesis using False by (simp add: t2_def)
  qed
  have t2l: "unat t2 \<le> 65535 + 524280"
    using t2 t hl(2) \<open>le_sum (drop src3 d) \<le> _\<close> h h_def \<open>_ \<le> 65535 * 8\<close> by linarith
  define s5 where "s5 = s3 + of_nat h + t2"
  have "unat (s3 + of_nat h) = unat s3 + h"
    using h s3 c f unat_of_nat32 [of h] by (subst unat_add_small) auto
  then have s5: "unat s5 = unat s3 + h + unat t2"
    unfolding s5_def using h s3 c f t2l by (subst unat_add_small) auto
  have core: "chk_core d src xSum xTerm = lo16 (lo16 s5 + hi16 s5) + hi16 (lo16 s5 + hi16 s5)"
    unfolding chk_core_def m_def [symmetric] Let_def q(1) split_conv n3_def [symmetric] lst_def [symmetric]
      s3_def [symmetric] hl(1) t2_def [symmetric] s5_def [symmetric] ..
  have "unat s5 = unat s3 + le_sum (drop src3 d) + unat xTerm" using s5 t2 hl(2) by (simp add: h_def)
  moreover have "ones_eq (unat s3 + le_sum (drop src3 d)) (unat xSum + le_sum (drop src d))"
    using ones_eq_trans [OF ones_eq_add [OF e3 ones_eq_refl] q(3)] .
  ultimately have "ones_eq (unat s5) (unat xSum + le_sum (drop src d) + unat xTerm)"
    using ones_eq_add [OF _ ones_eq_refl] by simp
  then show "ones_eq (unat (chk_core d src xSum xTerm)) (unat xSum + unat xTerm + le_sum (drop src d))"
    unfolding core using ones_eq_trans [OF fold_twice(1)] by (simp add: add.commute add.left_commute)
  show "unat (chk_core d src xSum xTerm) \<le> 65535" unfolding core by (rule fold_twice(2))
qed

text \<open>The bytes consumed before the pointer is aligned, the sum and the odd byte then.\<close>

definition chk_prefix :: "u32 \<Rightarrow> u8 list \<Rightarrow> u32 \<Rightarrow> nat \<times> u32 \<times> u32" where
  "chk_prefix align d x0 =
     (let (xTerm, src1) = (if align AND 1 \<noteq> 0 \<and> length d \<ge> 1 then (0x100 * ucast (d ! 0), 1) else (0, 0));
          (xSum, src2) = (if (align = 1 \<or> align = 2) \<and> length d - src1 \<ge> 2
                          then (x0 + load16 d src1, src1 + 2) else (x0, src1))
      in (src2, xSum, xTerm))"

lemma usGenerateChecksum_core:
  "usGenerateChecksum s addr d =
     (let (src, xSum, xTerm) = chk_prefix (addr AND 3) d (ucast (htons_wide s));
          r = chk_core d src xSum xTerm
      in FreeRTOS_htons (ucast (if (addr AND 3) AND 1 \<noteq> 0
           then push_bit 8 (r AND 0xff) OR drop_bit 8 (r AND 0xff00) else r)))"
proof -
  define al where "al = addr AND 3"
  define x0 where "x0 = (ucast (htons_wide s) :: u32)"
  define odd_start where "odd_start \<longleftrightarrow> al AND 1 \<noteq> 0 \<and> length d \<ge> 1"
  define t1 where "t1 = (if odd_start then 0x100 * ucast (d ! 0) else 0 :: u32)"
  define k1 where "k1 = (if odd_start then 1 else 0 :: nat)"
  define half where "half \<longleftrightarrow> (al = 1 \<or> al = 2) \<and> length d - k1 \<ge> 2"
  define x1 where "x1 = (if half then x0 + load16 d k1 else x0)"
  define k2 where "k2 = (if half then k1 + 2 else k1)"
  have A: "(if al AND 1 \<noteq> 0 \<and> length d \<ge> 1 then (0x100 * ucast (d ! 0) :: u32, 1, length d - 1)
      else (0, 0, length d)) = (t1, k1, length d - k1)"
    by (simp add: t1_def k1_def odd_start_def)
  have B: "(if (al = 1 \<or> al = 2) \<and> length d - k1 \<ge> 2 then (x0 + load16 d k1, k1 + 2, length d - k1 - 2)
      else (x0, k1, length d - k1)) = (x1, k2, length d - k2)"
    by (simp add: x1_def k2_def half_def)
  have C: "chk_prefix al d x0 = (k2, x1, t1)"
    unfolding chk_prefix_def
    by (simp only: Let_def split_conv flip: odd_start_def half_def)
      (simp add: x1_def k2_def t1_def k1_def half_def odd_start_def)
  show ?thesis
    unfolding usGenerateChecksum_def chk_core_def Let_def al_def [symmetric] x0_def [symmetric]
    by (simp only: A B C split_conv) (simp add: split_def)
qed

lemma be_sum_shift: "be_sum (a # xs) = 256 * unat a + le_sum xs"
proof (induction xs arbitrary: a rule: le_sum.induct)
  case (2 b)
  then show ?case by simp
next
  case (3 b c xs)
  then show ?case using "3"[of c] by simp
qed simp

lemma chk_prefix_even:
  assumes "align AND 1 = 0" "unat x0 \<le> 65535" "chk_prefix align d x0 = (src, xs, t)"
  shows "src \<le> length d" "unat xs \<le> 2 * 65535" "t = 0" "unat xs + le_sum (drop src d) = unat x0 + le_sum d"
proof -
  have "unat (x0 + load16 d 0) = unat x0 + unat (load16 d 0)"
    using assms(2) load16_lt [of d 0] by (subst unat_add_small) auto
  then show "src \<le> length d" "unat xs \<le> 2 * 65535" "t = 0" "unat xs + le_sum (drop src d) = unat x0 + le_sum d"
    using assms le_sum_drop2 [of 0 d] load16_lt [of d 0]
    by (auto simp: chk_prefix_def split: if_splits)
qed

lemma chk_prefix_odd:
  assumes "align AND 1 \<noteq> 0" "chk_prefix align d 0 = (src, xs, t)"
  shows "src \<le> length d" "unat xs \<le> 2 * 65535" "unat t \<le> 65535"
    "unat xs + unat t + le_sum (drop src d) = be_sum d"
proof -
  have t: "unat (0x100 * ucast b :: u32) = 256 * unat b" for b :: u8
    using u8_lt [of b] by (simp add: unat_word_ariths)
  show "src \<le> length d" "unat xs \<le> 2 * 65535" "unat t \<le> 65535"
    "unat xs + unat t + le_sum (drop src d) = be_sum d"
    using assms le_sum_drop2 [of 1 d] load16_lt [of d 1] t u8_lt [of "d ! 0"] be_sum_shift
    by (cases d; auto simp: chk_prefix_def split: if_splits)+
qed

lemma unat_ucast16: "unat x < 65536 \<Longrightarrow> unat (ucast (x :: u32) :: u16) = unat x"
  by (simp add: unsigned_ucast_eq take_bit_nat_eq_self)

lemma unat_ucast32 [simp]: "unat (ucast (x :: u16) :: u32) = unat x"
  using unat_lt [of x] by (simp add: unsigned_ucast_eq take_bit_nat_eq_self)

lemma unat_htons: "unat (FreeRTOS_htons x) = swap_nat (unat x)"
  using unat_lt [of x] by (simp add: FreeRTOS_htons_def htons_wide_swap)

lemma swap_swap: "ones_eq (swap_nat (swap_nat x)) x"
proof -
  have "ones_eq (swap_nat (swap_nat x)) (256 * (256 * x))"
    by (rule ones_eq_trans [OF swap_nat_eq ones_eq_256 [OF swap_nat_eq]])
  moreover have "ones_eq (0 + 65536 * x) (0 + x)" by (rule ones_eq_shift)
  ultimately show ?thesis using ones_eq_trans by simp
qed

lemma swap_cong: "ones_eq a b \<Longrightarrow> ones_eq (swap_nat a) (swap_nat b)"
  by (rule ones_eq_trans [OF ones_eq_trans [OF swap_nat_eq ones_eq_256] ones_eq_sym [OF swap_nat_eq]])

lemma usGenerateChecksum_sum:
  assumes "length d < 2 ^ 31" "unat s < 65536" "addr AND 1 = 0 \<or> s = 0"
  shows "unat (usGenerateChecksum s addr d) = ones_fold (unat s + be_sum d)"
proof -
  obtain src xSum xTerm where p: "chk_prefix (addr AND 3) d (ucast (htons_wide s)) = (src, xSum, xTerm)"
    by (cases "chk_prefix (addr AND 3) d (ucast (htons_wide s))")
  define r where "r = chk_core d src xSum xTerm"
  have x0: "unat (ucast (htons_wide s) :: u32) = swap_nat (unat s)" using htons_wide_swap [OF assms(2)] by simp
  have x0l: "unat (ucast (htons_wide s) :: u32) \<le> 65535" unfolding x0 using swap_nat_le assms(2) by simp
  have a3: "(addr AND 3) AND 1 = addr AND 1"
    by (simp add: and.assoc)
  note call = usGenerateChecksum_core [of s addr d, unfolded p Let_def split_conv a3, folded r_def]
  show ?thesis
  proof (cases "addr AND 1 = 0")
    case True
    note e = chk_prefix_even [OF _ x0l p, unfolded a3, OF True]
    have c: "ones_eq (unat r) (swap_nat (unat s) + le_sum d)" "unat r \<le> 65535"
      using chk_core_sum [OF e(1) assms(1) e(2), of xTerm] e(3,4) x0 by (simp_all add: r_def)
    have "ones_eq (swap_nat (unat s) + le_sum d) (256 * (unat s + be_sum d))"
      using ones_eq_add [OF swap_nat_eq le_be_sum, of "unat s" d] by (simp only: add_mult_distrib2)
    then have "ones_eq (unat r) (swap_nat (unat s + be_sum d))"
      using c(1) ones_eq_trans ones_eq_sym swap_nat_eq by blast
    then have "ones_eq (swap_nat (unat r)) (unat s + be_sum d)"
      using ones_eq_trans [OF swap_cong swap_swap] by blast
    then have "swap_nat (unat r) = ones_fold (unat s + be_sum d)"
      by (rule ones_foldI [OF _ swap_nat_le [OF c(2)]])
    then show ?thesis using call True c(2) by (simp add: unat_htons unat_ucast16)
  next
    case False
    then have s0: "s = 0" using assms(3) by blast
    then have x00: "(ucast (htons_wide s) :: u32) = 0" by (simp add: htons_wide_def)
    note e = chk_prefix_odd [OF _ p [unfolded x00], unfolded a3, OF False]
    have c: "ones_eq (unat r) (be_sum d)" "unat r \<le> 65535"
      using chk_core_sum [OF e(1) assms(1) e(2,3)] e(4) by (simp_all add: r_def)
    define r2 where "r2 = push_bit 8 (r AND 0xff) OR drop_bit 8 (r AND 0xff00)"
    have r2: "unat r2 = swap_nat (unat r)" unfolding r2_def by (rule swap_final) (use c(2) in simp)
    have "ones_eq (swap_nat (unat r2)) (be_sum d)"
      unfolding r2 by (rule ones_eq_trans [OF swap_swap c(1)])
    moreover have l2: "unat r2 \<le> 65535" unfolding r2 by (rule swap_nat_le [OF c(2)])
    ultimately have "swap_nat (unat r2) = ones_fold (be_sum d)"
      using ones_foldI swap_nat_le by blast
    moreover have "usGenerateChecksum s addr d = FreeRTOS_htons (ucast r2)"
      unfolding call r2_def using False by (simp only: if_True not_False_eq_True)
    ultimately show ?thesis using l2 s0 by (simp add: unat_htons unat_ucast16)
  qed
qed

section \<open>usGenerateProtocolChecksum\<close>

text \<open>
  A frame is its bytes; \<open>addr\<close> is the address of the first.  A 16-bit field is loaded and
  stored as the little-endian processor does.  Offsets are those of the packed structures of
  \<open>FreeRTOS_IP_Private.h\<close>: the IP header follows the 14 bytes of the Ethernet header.
\<close>

definition ld_u16 :: "u8 list \<Rightarrow> nat \<Rightarrow> u16" where
  "ld_u16 d k = ucast (load16 d k)"

definition st_u16 :: "nat \<Rightarrow> u16 \<Rightarrow> u8 list \<Rightarrow> u8 list" where
  "st_u16 k v d = d[k := ucast v, k + 1 := ucast (drop_bit 8 v)]"

definition ipPROTOCOL_ICMP :: u8 where "ipPROTOCOL_ICMP = 1"
definition ipPROTOCOL_IGMP :: u8 where "ipPROTOCOL_IGMP = 2"
definition ipPROTOCOL_TCP :: u8 where "ipPROTOCOL_TCP = 6"
definition ipPROTOCOL_UDP :: u8 where "ipPROTOCOL_UDP = 17"
definition ipUNHANDLED_PROTOCOL :: u16 where "ipUNHANDLED_PROTOCOL = 0x4321"
definition ipCORRECT_CRC :: u16 where "ipCORRECT_CRC = 0xffff"
definition ipINVALID_LENGTH :: u16 where "ipINVALID_LENGTH = 0x1234"
definition ipconfigNETWORK_MTU :: u32 where "ipconfigNETWORK_MTU = 1500"

definition ip_header_bytes :: "u8 list \<Rightarrow> nat" where
  "ip_header_bytes d = 4 * unat ((d ! 14) AND 0x0F)"

text \<open>Where \<open>pusChecksum\<close> points, by protocol.\<close>

definition pusChecksum :: "u8 list \<Rightarrow> nat option" where
  "pusChecksum d =
     (let ucProtocol = d ! 23; transport = 14 + ip_header_bytes d in
      if ucProtocol = ipPROTOCOL_UDP then Some (transport + 6)
      else if ucProtocol = ipPROTOCOL_TCP then Some (transport + 16)
      else if ucProtocol = ipPROTOCOL_ICMP \<or> ucProtocol = ipPROTOCOL_IGMP then Some (transport + 2)
      else None)"

definition protocol_sum :: "u32 \<Rightarrow> u8 list \<Rightarrow> u32 \<Rightarrow> u16" where
  "protocol_sum addr d ulLength =
     (let ucProtocol = d ! 23; hl = ip_header_bytes d in
      if ucProtocol \<le> ipPROTOCOL_IGMP
      then NOT (usGenerateChecksum 0 (addr + of_nat (14 + hl)) (take (unat ulLength) (drop (14 + hl) d)))
      else (let pseudo = ucast (ulLength + ucast ucProtocol) :: u16
            in NOT (usGenerateChecksum (ucast pseudo) (addr + 26) (take (8 + unat ulLength) (drop 26 d)))))"

definition usGenerateProtocolChecksum :: "u32 \<Rightarrow> u8 list \<Rightarrow> bool \<Rightarrow> u16 \<times> u8 list" where
  "usGenerateProtocolChecksum addr d xOutgoingPacket =
     (case pusChecksum d of
        None \<Rightarrow> (ipUNHANDLED_PROTOCOL, d)
      | Some p \<Rightarrow>
          if \<not> xOutgoingPacket \<and> ld_u16 d p = 0 then (ipCORRECT_CRC, d)
          else
            (let d1 = (if xOutgoingPacket then st_u16 p 0 d else d);
                 hl = of_nat (ip_header_bytes d1) :: u32;
                 ulLength = ucast (FreeRTOS_htons (ld_u16 d1 16)) - hl
             in if ulLength < 8 \<or> ulLength > ipconfigNETWORK_MTU - hl then (ipINVALID_LENGTH, d1)
                else
                  (let c = protocol_sum addr d1 ulLength;
                       usChecksum = (if c = 0 then 0xffff else FreeRTOS_htons c);
                       d2 = (if xOutgoingPacket then st_u16 p usChecksum d1 else d1)
                   in (usChecksum, d2))))"

lemma be_sum_put:
  "even p \<Longrightarrow> p + 1 < length xs \<Longrightarrow> xs ! p = 0 \<Longrightarrow> xs ! (p + 1) = 0 \<Longrightarrow>
     be_sum (xs[p := a, p + 1 := b]) = be_sum xs + 256 * unat a + unat b"
proof (induction xs arbitrary: p rule: be_sum.induct)
  case (3 x y xs)
  show ?case
  proof (cases p)
    case 0
    then show ?thesis using "3.prems" by simp
  next
    case (Suc q)
    then obtain r where r: "p = Suc (Suc r)" "even r" using "3.prems"(1) by (cases q) auto
    then show ?thesis using "3.IH" [of r] "3.prems" by simp
  qed
qed simp_all

lemma ld_st_same: "k + 1 < length d \<Longrightarrow> ld_u16 (st_u16 k v d) k = v"
proof -
  assume k: "k + 1 < length d"
  have b: "unat (ucast v :: u8) = unat v mod 256" "unat (ucast (drop_bit 8 v) :: u8) = unat v div 256"
  proof -
    have "unat v div 256 < 256" using unat_lt [of v] by simp
    then show "unat (ucast (drop_bit 8 v) :: u8) = unat v div 256"
      by (simp add: unsigned_ucast_eq unat_drop_bit_eq take_bit_eq_mod) (simp add: drop_bit_eq_div)
    show "unat (ucast v :: u8) = unat v mod 256" by (simp add: unsigned_ucast_eq take_bit_eq_mod)
  qed
  have "unat (load16 (st_u16 k v d) k) = unat v"
    using k b by (simp add: unat_load16 st_u16_def)
  then show ?thesis unfolding ld_u16_def by (metis unat_ucast16 unat_ucast32 load16_lt unsigned_word_eqI)
qed

lemma st_u16_nth [simp]:
  "length (st_u16 k v d) = length d"
  "i \<noteq> k \<Longrightarrow> i \<noteq> k + 1 \<Longrightarrow> st_u16 k v d ! i = d ! i"
  by (simp_all add: st_u16_def)

lemma ld_u16_frame: "i + 1 < k \<Longrightarrow> ld_u16 (st_u16 k v d) i = ld_u16 d i"
  by (simp add: ld_u16_def load16_def)

lemma update_pair:
  "xs[i := a, Suc i := b, i := c, Suc i := d] = xs[i := c, Suc i := d]"
  by (simp add: list_update_swap [of "Suc i" i])

lemma st_u16_twice [simp]: "st_u16 k v (st_u16 k w d) = st_u16 k v d"
  by (simp add: st_u16_def update_pair)

lemma htons_bytes:
  "unat (ucast (FreeRTOS_htons v) :: u8) = unat v div 256"
  "unat (ucast (drop_bit 8 (FreeRTOS_htons v)) :: u8) = unat v mod 256"
proof -
  have "unat v div 256 < 256" using unat_lt [of v] by simp
  then have "(256 * (unat v mod 256) + unat v div 256) mod 256 = unat v div 256"
    "(256 * (unat v mod 256) + unat v div 256) div 256 = unat v mod 256" by simp_all
  then show "unat (ucast (FreeRTOS_htons v) :: u8) = unat v div 256"
    "unat (ucast (drop_bit 8 (FreeRTOS_htons v)) :: u8) = unat v mod 256"
    by (simp_all add: unsigned_ucast_eq unat_drop_bit_eq take_bit_eq_mod unat_htons swap_nat_def)
      (simp add: drop_bit_eq_div)
qed

text \<open>Storing a value in network order adds it to the sum of an area that held zero there.\<close>

lemma be_sum_store:
  assumes "st \<le> k" "even (k - st)" "k + 1 < st + n" "st + n \<le> length d"
  shows "be_sum (take n (drop st (st_u16 k (FreeRTOS_htons v) d))) =
           be_sum (take n (drop st (st_u16 k 0 d))) + unat v"
proof -
  let ?z = "take n (drop st (st_u16 k 0 d))" and ?p = "k - st"
  have area: "take n (drop st (st_u16 k w d)) =
      (take n (drop st d))[?p := ucast w, ?p + 1 := ucast (drop_bit 8 w)]" for w
    using assms(1,3) by (simp add: st_u16_def drop_update_swap take_update_swap Suc_diff_le)
  note sw = htons_bytes [of v]
  have zp: "?p + 1 < length ?z" "?z ! ?p = 0" "?z ! (?p + 1) = 0"
    using assms unfolding area by simp_all
  have "take n (drop st (st_u16 k (FreeRTOS_htons v) d)) =
      ?z[?p := ucast (FreeRTOS_htons v), ?p + 1 := ucast (drop_bit 8 (FreeRTOS_htons v))]"
    unfolding area by (simp add: update_pair)
  then show ?thesis
    using be_sum_put [OF assms(2) zp] sw by simp
qed

lemma not_u16: "unat (NOT (x :: u16)) = 65535 - unat x"
proof -
  have "(65535 :: u16) = - 1" by simp
  then have "NOT x = 65535 - x" by (simp only: not_eq_complement) simp
  moreover have "x \<le> 65535" using unat_lt [of x] by (simp add: word_le_nat_alt)
  ultimately show ?thesis by (simp add: unat_sub)
qed

lemma complement_check:
  assumes "c = 65535 - ones_fold n" "v = (if c = 0 then 65535 else c)"
  shows "ones_fold (n + v) = 65535"
proof -
  have "ones_fold (ones_fold n + v) = 65535"
    using assms ones_fold_le [of n] by (auto simp: ones_fold_def split: if_splits)
  moreover have "ones_eq (n + v) (ones_fold n + v)"
    by (rule ones_eq_add [OF ones_eq_sym [OF ones_fold_eq] ones_eq_refl])
  ultimately show ?thesis using ones_fold_cong by metis
qed

section \<open>Generating and verifying agree\<close>

definition ip_total :: "u8 list \<Rightarrow> nat" where
  "ip_total d = unat (FreeRTOS_htons (ld_u16 d 16))"

text \<open>A complete IPv4 frame without options, of a protocol with a checksum that fits in it.\<close>

definition checksummable :: "u8 list \<Rightarrow> bool" where
  "checksummable d \<longleftrightarrow>
     ip_header_bytes d = 20 \<and> d ! 23 \<in> {ipPROTOCOL_ICMP, ipPROTOCOL_IGMP, ipPROTOCOL_TCP, ipPROTOCOL_UDP} \<and>
     28 \<le> ip_total d \<and> ip_total d \<le> 1500 \<and> (d ! 23 = ipPROTOCOL_TCP \<longrightarrow> 38 \<le> ip_total d) \<and>
     14 + ip_total d \<le> length d"

lemmas ipPROTOCOL_defs = ipPROTOCOL_ICMP_def ipPROTOCOL_IGMP_def ipPROTOCOL_TCP_def ipPROTOCOL_UDP_def

definition sum_from :: "u8 list \<Rightarrow> nat" where
  "sum_from d = (if d ! 23 \<le> ipPROTOCOL_IGMP then 34 else 26)"

definition pseudo_sum :: "u8 list \<Rightarrow> nat" where
  "pseudo_sum d = (if d ! 23 \<le> ipPROTOCOL_IGMP then 0 else ip_total d - 20 + unat (d ! 23))"

definition whole_sum :: "u8 list \<Rightarrow> nat" where
  "whole_sum d = pseudo_sum d + be_sum (take (14 + ip_total d - sum_from d) (drop (sum_from d) d))"

lemma checksum_place:
  assumes "checksummable d"
  obtains p where "pusChecksum d = Some p" "sum_from d \<le> p" "even (p - sum_from d)"
    "p + 1 < 14 + ip_total d" "36 \<le> p" "sum_from d \<le> 34"
proof -
  have "d ! 23 = ipPROTOCOL_ICMP \<or> d ! 23 = ipPROTOCOL_IGMP \<or> d ! 23 = ipPROTOCOL_TCP \<or> d ! 23 = ipPROTOCOL_UDP"
    and h: "ip_header_bytes d = 20" "28 \<le> ip_total d" "d ! 23 = ipPROTOCOL_TCP \<longrightarrow> 38 \<le> ip_total d"
    using assms by (simp_all add: checksummable_def)
  then show ?thesis
    using that h unfolding pusChecksum_def Let_def sum_from_def
    by (elim disjE) (simp_all add: ipPROTOCOL_defs)
qed

lemma length_field:
  assumes "checksummable d"
  shows "ucast (FreeRTOS_htons (ld_u16 d 16)) - of_nat (ip_header_bytes d) = (of_nat (ip_total d - 20) :: u32)"
proof -
  have "ucast (FreeRTOS_htons (ld_u16 d 16)) = (of_nat (ip_total d) :: u32)"
    unfolding ip_total_def by (metis of_nat_unat32 unat_ucast32)
  moreover have "ip_header_bytes d = 20" "20 \<le> ip_total d" using assms by (simp_all add: checksummable_def)
  ultimately show ?thesis using of_nat_sub32 [of 20 "ip_total d"] by simp
qed

lemma low_bit_even: "(x :: u32) AND 1 = 0 \<longleftrightarrow> even (unat x)"
  using unat_and_mask [of x 1] by (metis even_iff_mod_2_eq_zero mask_1 power_one_right unat_eq_zero)

lemma protocol_sum_value:
  assumes c: "checksummable d" and a: "addr AND 1 = 0"
  shows "unat (protocol_sum addr d (of_nat (ip_total d - 20))) = 65535 - ones_fold (whole_sum d)"
proof -
  have h: "ip_header_bytes d = 20" "28 \<le> ip_total d" "ip_total d \<le> 1500" using c by (simp_all add: checksummable_def)
  have u: "unat (of_nat (ip_total d - 20) :: u32) = ip_total d - 20" using unat_of_nat32 h(3) by simp
  have short: "length (take (ip_total d - 20) (drop 34 d)) < 2 ^ 31"
    "length (take (8 + (ip_total d - 20)) (drop 26 d)) < 2 ^ 31" using h(3) by simp_all
  show ?thesis
  proof (cases "d ! 23 \<le> ipPROTOCOL_IGMP")
    case True
    have "unat (usGenerateChecksum 0 (addr + 34) (take (ip_total d - 20) (drop 34 d))) =
        ones_fold (unat (0::u32) + be_sum (take (ip_total d - 20) (drop 34 d)))"
      by (rule usGenerateChecksum_sum [OF short(1)]) simp_all
    then show ?thesis using True h u
      by (simp add: protocol_sum_def whole_sum_def pseudo_sum_def sum_from_def not_u16)
  next
    case False
    define ps where "ps = (of_nat (ip_total d - 20) :: u32) + ucast (d ! 23)"
    have ps: "unat ps = ip_total d - 20 + unat (d ! 23)"
      unfolding ps_def using u u8_lt [of "d ! 23"] h(3) by (subst unat_add_small) auto
    have ps2: "unat (ucast (ucast ps :: u16) :: u32) = ip_total d - 20 + unat (d ! 23)"
      using ps u8_lt [of "d ! 23"] h(3) by (simp add: unat_ucast16)
    have "(addr + 26) AND 1 = 0"
      using a unfolding low_bit_even by (simp add: unat_word_ariths dvd_mod_iff)
    then have "unat (usGenerateChecksum (ucast (ucast ps :: u16)) (addr + 26) (take (8 + (ip_total d - 20)) (drop 26 d))) =
        ones_fold (ip_total d - 20 + unat (d ! 23) + be_sum (take (8 + (ip_total d - 20)) (drop 26 d)))"
      using usGenerateChecksum_sum [OF short(2), of "ucast (ucast ps :: u16)" "addr + 26"] ps2
        u8_lt [of "d ! 23"] h(3) by simp
    moreover have "8 + (ip_total d - 20) = 14 + ip_total d - 26" using h(2) by simp
    moreover have "protocol_sum addr d (of_nat (ip_total d - 20)) =
        NOT (usGenerateChecksum (ucast (ucast ps :: u16)) (addr + 26) (take (8 + (ip_total d - 20)) (drop 26 d)))"
      unfolding protocol_sum_def Let_def ps_def using False by (simp only: if_False u)
    ultimately show ?thesis using False
      by (simp only: whole_sum_def pseudo_sum_def sum_from_def not_u16 if_False)
  qed
qed

lemma generate_run:
  assumes c: "checksummable d" and a: "addr AND 1 = 0" and p: "pusChecksum d = Some p"
    and out: "xOut \<or> ld_u16 d p \<noteq> 0" and d1: "d1 = (if xOut then st_u16 p 0 d else d)"
    and c1: "checksummable d1"
  shows "\<exists>v. usGenerateProtocolChecksum addr d xOut =
             (FreeRTOS_htons v, if xOut then st_u16 p (FreeRTOS_htons v) d else d) \<and>
           unat v = (if ones_fold (whole_sum d1) = 65535 then 65535 else 65535 - ones_fold (whole_sum d1)) \<and>
           v \<noteq> 0"
proof -
  define L where "L = ip_total d1 - 20"
  have len: "ucast (FreeRTOS_htons (ld_u16 d1 16)) - of_nat (ip_header_bytes d1) = (of_nat L :: u32)"
    unfolding L_def by (rule length_field [OF c1])
  have L: "8 \<le> L" "L \<le> 1480" "ip_header_bytes d1 = 20" using c1 by (auto simp: checksummable_def L_def)
  have Lw: "\<not> (of_nat L :: u32) < 8" "\<not> (of_nat L :: u32) > ipconfigNETWORK_MTU - of_nat (ip_header_bytes d1)"
    using L of_nat_less32 [of L 8] of_nat_less32 [of 1480 L] by (simp_all add: ipconfigNETWORK_MTU_def)
  define ck where "ck = protocol_sum addr d1 (of_nat L)"
  have ck: "unat ck = 65535 - ones_fold (whole_sum d1)"
    unfolding ck_def L_def by (rule protocol_sum_value [OF c1 a])
  define v where "v = (if ck = 0 then 0xffff else ck :: u16)"
  have hv: "(if ck = 0 then 0xffff else FreeRTOS_htons ck) = FreeRTOS_htons v"
    by (simp add: v_def FreeRTOS_htons_def htons_wide_def)
  have "usGenerateProtocolChecksum addr d xOut =
      (FreeRTOS_htons v, if xOut then st_u16 p (FreeRTOS_htons v) d1 else d1)"
    unfolding usGenerateProtocolChecksum_def p option.case Let_def d1 [symmetric] len
    using out Lw hv by (auto simp: ck_def)
  moreover have "(if xOut then st_u16 p (FreeRTOS_htons v) d1 else d1) =
      (if xOut then st_u16 p (FreeRTOS_htons v) d else d)"
    by (simp add: d1)
  moreover have "ck = 0 \<longleftrightarrow> ones_fold (whole_sum d1) = 65535"
    using ck ones_fold_le [of "whole_sum d1"] by (auto simp: unat_eq_zero [symmetric] simp del: unat_eq_zero)
  then have "unat v = (if ones_fold (whole_sum d1) = 65535 then 65535 else 65535 - ones_fold (whole_sum d1))"
    using ck by (simp add: v_def)
  moreover have "v \<noteq> 0" by (simp add: v_def)
  ultimately show ?thesis by auto
qed

lemma store_keeps:
  assumes c: "checksummable d" and p: "36 \<le> p"
  shows "checksummable (st_u16 p v d)" "pusChecksum (st_u16 p v d) = pusChecksum d"
    "ip_total (st_u16 p v d) = ip_total d" "sum_from (st_u16 p v d) = sum_from d"
    "pseudo_sum (st_u16 p v d) = pseudo_sum d"
proof -
  have f: "st_u16 p v d ! 14 = d ! 14" "st_u16 p v d ! 23 = d ! 23"
    using p by simp_all
  have t: "ip_total (st_u16 p v d) = ip_total d" using p by (simp add: ip_total_def ld_u16_frame)
  show "checksummable (st_u16 p v d)" using c f t by (simp add: checksummable_def ip_header_bytes_def)
  show "ip_total (st_u16 p v d) = ip_total d" by (rule t)
  show "pusChecksum (st_u16 p v d) = pusChecksum d" "sum_from (st_u16 p v d) = sum_from d"
    "pseudo_sum (st_u16 p v d) = pseudo_sum d"
    using f t by (simp_all add: pusChecksum_def ip_header_bytes_def sum_from_def pseudo_sum_def)
qed

text \<open>
  What RFC 768, 792 and 793 ask to be stored at \<open>p\<close>: the complement of the sum of the segment with
  its checksum taken as zero and, for UDP and TCP, of a pseudo header of the two addresses, the
  protocol and the length of the segment; 0 is sent as \<open>0xffff\<close>.
\<close>

definition rfc_checksum :: "u8 list \<Rightarrow> nat \<Rightarrow> nat" where
  "rfc_checksum d p =
     (let segment = take (ip_total d - 20) (drop 34 d);
          pseudo = (if d ! 23 = ipPROTOCOL_UDP \<or> d ! 23 = ipPROTOCOL_TCP
                    then be_sum (take 4 (drop 26 d)) + be_sum (take 4 (drop 30 d)) + unat (d ! 23) + length segment else 0);
          c = 65535 - ones_fold (pseudo + be_sum (segment[p - 34 := 0, p - 33 := 0]))
      in if c = 0 then 65535 else c)"

lemma be_sum_append: "even (length xs) \<Longrightarrow> be_sum (xs @ ys) = be_sum xs + be_sum ys"
  by (induction xs rule: be_sum.induct) auto

lemma rfc_checksum_sum:
  assumes c: "checksummable d" and p: "pusChecksum d = Some p" "36 \<le> p"
  shows "rfc_checksum d p =
    (let n = ones_fold (whole_sum (st_u16 p 0 d)) in if n = 65535 then 65535 else 65535 - n)"
proof -
  let ?d = "st_u16 p 0 d" and ?n = "ip_total d - 20"
  have h: "28 \<le> ip_total d" "14 + ip_total d \<le> length d"
    "d ! 23 \<in> {ipPROTOCOL_ICMP, ipPROTOCOL_IGMP, ipPROTOCOL_TCP, ipPROTOCOL_UDP}" using c by (auto simp: checksummable_def)
  note k = store_keeps [OF c p(2), of 0]
  have seg: "take ?n (drop 34 ?d) = (take ?n (drop 34 d))[p - 34 := 0, p - 33 := 0]"
    using p(2) by (simp add: st_u16_def drop_update_swap take_update_swap)
  have len: "length (take ?n (drop 34 d)) = ?n" using h by simp
  have whole: "whole_sum ?d = (if d ! 23 = ipPROTOCOL_UDP \<or> d ! 23 = ipPROTOCOL_TCP
      then be_sum (take 4 (drop 26 d)) + be_sum (take 4 (drop 30 d)) + unat (d ! 23) + ?n else 0) +
    be_sum (take ?n (drop 34 ?d))"
  proof (cases "d ! 23 \<le> ipPROTOCOL_IGMP")
    case True
    then have "\<not> (d ! 23 = ipPROTOCOL_UDP \<or> d ! 23 = ipPROTOCOL_TCP)" by (auto simp: ipPROTOCOL_defs)
    moreover have "14 + ip_total d - 34 = ?n" by simp
    ultimately show ?thesis using True k by (simp add: whole_sum_def sum_from_def pseudo_sum_def)
  next
    case False
    then have t: "d ! 23 = ipPROTOCOL_UDP \<or> d ! 23 = ipPROTOCOL_TCP" using h(3) by (auto simp: ipPROTOCOL_defs)
    have n: "14 + ip_total d - 26 = 4 + (4 + ?n)" using h(1) by simp
    have "take (4 + (4 + ?n)) (drop 26 ?d) = take 4 (drop 26 ?d) @ take 4 (drop 30 ?d) @ take ?n (drop 34 ?d)"
      using take_add [of 4 4 "drop 26 ?d"] by (simp add: take_add)
    moreover have "take 4 (drop 26 ?d) = take 4 (drop 26 d)" "take 4 (drop 30 ?d) = take 4 (drop 30 d)"
      using p(2) by (simp_all add: st_u16_def drop_update_swap)
    ultimately show ?thesis using False t k h(1,2) n
      by (simp add: whole_sum_def sum_from_def pseudo_sum_def be_sum_append min_def)
  qed
  have "(let n = ones_fold x in if n = 65535 then 65535 else 65535 - n) =
      (let c = 65535 - ones_fold x in if c = 0 then 65535 else c)" for x
    using ones_fold_le [of x] by (auto simp: Let_def)
  then show ?thesis unfolding rfc_checksum_def whole seg Let_def len by simp
qed

text \<open>
  Claim C24.  \<open>usGenerateChecksum\<close> is the RFC 1071 sum: for a 16-bit partial sum and data of any
  length below \<open>2^31\<close> at an even address (at any address when the partial sum is zero), its
  value is the ones' complement sum, with end-around carry, of the big-endian words.
\<close>

theorem usGenerateChecksum_rfc1071:
  assumes "length d < 2 ^ 31" and "unat s < 65536" and "addr AND 1 = 0 \<or> s = 0"
  shows "unat (usGenerateChecksum s addr d) = ones_fold (unat s + be_sum d)"
  by (rule usGenerateChecksum_sum [OF assms])

theorem usGenerateChecksum_rfc1071_witness:
  "unat (usGenerateChecksum 0x1234 2 [0x45, 0, 0, 0x54, 0xff, 0xff, 7]) = 0x5e88"
  using usGenerateChecksum_rfc1071 [of "[0x45, 0, 0, 0x54, 0xff, 0xff, 7]" "0x1234" 2]
  by (simp add: ones_fold_def)

text \<open>
  Claim C25.  For every complete UDP, TCP, ICMP and IGMP frame without IP options, held at an even
  address: \<open>usGenerateProtocolChecksum\<close> stores, in network order, exactly the checksum the RFCs ask
  for, which is never the 0 that stands for none, and changes no other byte; and on reception the
  same function checks and accepts the frame (it answers \<open>ipCORRECT_CRC\<close>).
\<close>

theorem checksum_roundtrip:
  assumes "checksummable d" and "addr AND 1 = 0" and "usGenerateProtocolChecksum addr d True = (c, d')"
  shows "fst (usGenerateProtocolChecksum addr d' False) = ipCORRECT_CRC \<and>
         (\<exists>p. pusChecksum d = Some p \<and> 256 * unat (d' ! p) + unat (d' ! (p + 1)) = rfc_checksum d p \<and> 0 < rfc_checksum d p) \<and>
         (\<forall>i. Some i \<noteq> pusChecksum d \<and> Some i \<noteq> map_option Suc (pusChecksum d) \<longrightarrow> d' ! i = d ! i)"
proof -
  obtain p where p: "pusChecksum d = Some p" "sum_from d \<le> p" "even (p - sum_from d)"
    "p + 1 < 14 + ip_total d" "36 \<le> p" "sum_from d \<le> 34"
    using checksum_place [OF assms(1)] .
  define d0 where "d0 = st_u16 p 0 d"
  note k0 = store_keeps [OF assms(1) p(5), of 0, folded d0_def]
  obtain v where v: "usGenerateProtocolChecksum addr d True = (FreeRTOS_htons v, st_u16 p (FreeRTOS_htons v) d)"
    "unat v = (if ones_fold (whole_sum d0) = 65535 then 65535 else 65535 - ones_fold (whole_sum d0))" "v \<noteq> 0"
    using generate_run [OF assms(1,2) p(1), of True d0] k0(1) by (auto simp: d0_def)
  have d': "d' = st_u16 p (FreeRTOS_htons v) d" using v(1) assms(3) by simp
  note k = store_keeps [OF assms(1) p(5), of "FreeRTOS_htons v", folded d']
  have len: "14 + ip_total d \<le> length d" using assms(1) by (simp add: checksummable_def)
  have "be_sum (take (14 + ip_total d - sum_from d) (drop (sum_from d) d')) =
      be_sum (take (14 + ip_total d - sum_from d) (drop (sum_from d) d0)) + unat v"
    unfolding d' d0_def by (rule be_sum_store) (use p len in auto)
  then have ws: "whole_sum d' = whole_sum d0 + unat v" using k k0 by (simp add: whole_sum_def)
  have "ones_fold (whole_sum d') = 65535"
    unfolding ws by (rule complement_check [OF refl]) (use v(2) ones_fold_le [of "whole_sum d0"] in auto)
  moreover have "ld_u16 d' p = FreeRTOS_htons v" unfolding d' by (rule ld_st_same) (use p len in simp)
  moreover have "FreeRTOS_htons v \<noteq> 0"
  proof
    assume "FreeRTOS_htons v = 0"
    then have "swap_nat (unat v) = 0" using unat_htons [of v] by simp
    then have "unat v = 0" unfolding swap_nat_def by (metis add_is_0 div_mult_mod_eq mult_0 mult_eq_0_iff zero_neq_numeral)
    then show False using v(3) by (metis unat_eq_zero)
  qed
  ultimately obtain w where w: "usGenerateProtocolChecksum addr d' False = (FreeRTOS_htons w, d')" "unat w = 65535"
    using generate_run [OF k(1) assms(2) k(2) [unfolded p(1)], of False d'] k(1) by auto
  then have "w = 0xffff" by (simp add: unat_arith_simps)
  then have "fst (usGenerateProtocolChecksum addr d' False) = ipCORRECT_CRC"
    using w(1) by (simp add: ipCORRECT_CRC_def FreeRTOS_htons_def htons_wide_def)
  moreover have "d' ! i = d ! i" if "Some i \<noteq> pusChecksum d" "Some i \<noteq> map_option Suc (pusChecksum d)" for i
    using that p(1) by (simp add: d')
  moreover have "256 * unat (d' ! p) + unat (d' ! (p + 1)) = rfc_checksum d p"
  proof -
    have "256 * unat (d' ! p) + unat (d' ! (p + 1)) = unat v"
      unfolding d' using htons_bytes [of v] p(4) len by (simp add: st_u16_def)
    also have "\<dots> = rfc_checksum d p" using rfc_checksum_sum [OF assms(1) p(1,5)] v(2) by (simp add: d0_def Let_def)
    finally show ?thesis .
  qed
  moreover have "0 < rfc_checksum d p" by (simp add: rfc_checksum_def Let_def)
  ultimately show ?thesis using p(1) by blast
qed

definition demo_frame :: "u8 list" where
  "demo_frame =
     [0, 1, 2, 3, 4, 5, 0, 0x11, 0x22, 0x33, 0x44, 0x41, 0x08, 0x00,
      0x45, 0, 0, 28, 0, 1, 0, 0, 128, 17, 0, 0, 192, 168, 0, 2, 192, 168, 0, 1,
      0x10, 0x00, 0, 7, 0, 8, 0, 0]"

lemma demo_frame_ok: "checksummable demo_frame"
  by (simp add: checksummable_def demo_frame_def ip_header_bytes_def ip_total_def ipPROTOCOL_defs
      ld_u16_def load16_def FreeRTOS_htons_def htons_wide_def)

theorem checksum_roundtrip_witness:
  "\<exists>c d'. usGenerateProtocolChecksum 2 demo_frame True = (c, d') \<and>
     fst (usGenerateProtocolChecksum 2 d' False) = ipCORRECT_CRC \<and> 256 * unat (d' ! 40) + unat (d' ! 41) = rfc_checksum demo_frame 40"
proof -
  obtain c d' where "usGenerateProtocolChecksum 2 demo_frame True = (c, d')" by fastforce
  moreover have "pusChecksum demo_frame = Some 40"
    by (simp add: pusChecksum_def demo_frame_def ip_header_bytes_def ipPROTOCOL_defs Let_def)
  ultimately show ?thesis using checksum_roundtrip [OF demo_frame_ok, of 2 c d'] by simp
qed

end
