(* ===== verification/Arp.thy ===== *)
theory Arp
  imports Prelude
begin

text \<open>
  The ARP cache of \<open>FreeRTOS_ARP.c\<close>: learning from packets, look-up on the way out, ageing, and
  the ARP packets themselves.  Addresses are 32-bit words as they lie in memory (network order
  on the little-endian target); a MAC address is its six bytes.  The build has
  \<open>ipconfigARP_STORES_REMOTE_ADDRESSES\<close> and \<open>ipconfigARP_USE_CLASH_DETECTION\<close> off.
\<close>

section \<open>Packets, cache and configuration\<close>

type_synonym mac = "u8 list"

record EthernetHeader_t =
  xDestinationAddress :: mac
  xSourceAddress :: mac
  usFrameType :: u16

record ARPHeader_t =
  usHardwareType :: u16
  usProtocolType :: u16
  ucHardwareAddressLength :: u8
  ucProtocolAddressLength :: u8
  usOperation :: u16
  xSenderHardwareAddress :: mac
  ulSenderProtocolAddress :: u32
  xTargetHardwareAddress :: mac
  ulTargetProtocolAddress :: u32

record ARPPacket_t =
  xEthernetHeader :: EthernetHeader_t
  xARPHeader :: ARPHeader_t

record ARPCacheRow_t =
  ulIPAddress :: u32
  xMACAddress :: mac
  ucAge :: u8
  ucValid :: bool

datatype eARPLookupResult_t = eARPCacheMiss | eARPCacheHit | eCantSendPacket
datatype eFrameProcessingResult_t = eReleaseBuffer | eProcessBuffer | eReturnEthernetFrame | eFrameConsumed

datatype eIPEvent_t =
    eNoEvent | eNetworkDownEvent | eNetworkRxEvent | eARPTimerEvent | eStackTxEvent | eDHCPEvent
  | eTCPTimerEvent | eTCPAcceptEvent | eTCPNetStat | eSocketBindEvent | eSocketCloseEvent
  | eSocketSelectEvent | eSocketSignalEvent

text \<open>\<open>xNetworkAddressing\<close>, and the addresses kept in \<open>xDefaultPartUDPPacketHeader\<close>.\<close>

record net_params =
  ipLOCAL_IP_ADDRESS :: u32
  ipLOCAL_MAC_ADDRESS :: mac
  ulNetMask :: u32
  ulGatewayAddress :: u32
  ulDNSServerAddress :: u32
  ulBroadcastAddress :: u32

record arp_state =
  xARPCache :: "ARPCacheRow_t list"
  xLastGratuitousARPTime :: u32

definition ipconfigARP_CACHE_ENTRIES :: nat where "ipconfigARP_CACHE_ENTRIES = 6"
definition ipconfigMAX_ARP_AGE :: u8 where "ipconfigMAX_ARP_AGE = 150"
definition ipconfigMAX_ARP_RETRANSMISSIONS :: u8 where "ipconfigMAX_ARP_RETRANSMISSIONS = 5"
definition arpMAX_ARP_AGE_BEFORE_NEW_ARP_REQUEST :: u8 where "arpMAX_ARP_AGE_BEFORE_NEW_ARP_REQUEST = 3"
definition arpGRATUITOUS_ARP_PERIOD :: u32 where "arpGRATUITOUS_ARP_PERIOD = 20000"
definition ipARP_PROTOCOL_TYPE :: u16 where "ipARP_PROTOCOL_TYPE = 0x0008"
definition ipARP_HARDWARE_TYPE_ETHERNET :: u16 where "ipARP_HARDWARE_TYPE_ETHERNET = 0x0100"
definition ipARP_REQUEST :: u16 where "ipARP_REQUEST = 0x0100"
definition ipARP_REPLY :: u16 where "ipARP_REPLY = 0x0200"
definition ipARP_TYPE :: u16 where "ipARP_TYPE = 0x0608"
definition ipBROADCAST_IP_ADDRESS :: u32 where "ipBROADCAST_IP_ADDRESS = 0xffffffff"
definition ipLLMNR_IP_ADDR :: u32 where "ipLLMNR_IP_ADDR = 0xFC0000E0"
definition xBroadcastMACAddress :: mac where "xBroadcastMACAddress = [0xff, 0xff, 0xff, 0xff, 0xff, 0xff]"
definition xLLMNR_MacAdress :: mac where "xLLMNR_MacAdress = [0x01, 0x00, 0x5e, 0x00, 0x00, 0xfc]"
definition zero_mac :: mac where "zero_mac = [0, 0, 0, 0, 0, 0]"

text \<open>A row set to zero by \<open>memset\<close>.\<close>

definition empty_row :: ARPCacheRow_t where
  "empty_row = \<lparr>ulIPAddress = 0, xMACAddress = zero_mac, ucAge = 0, ucValid = False\<rparr>"

definition same_net :: "net_params \<Rightarrow> u32 \<Rightarrow> bool" where
  "same_net np ip \<longleftrightarrow> ip AND ulNetMask np = ipLOCAL_IP_ADDRESS np AND ulNetMask np"

section \<open>Look-up\<close>

text \<open>The loop of \<open>prvCacheLookup\<close> stops at the first row with the address.\<close>

primrec cache_lookup :: "u32 \<Rightarrow> ARPCacheRow_t list \<Rightarrow> eARPLookupResult_t \<times> mac option" where
  "cache_lookup ip [] = (eARPCacheMiss, None)"
| "cache_lookup ip (r # rs) =
     (if ulIPAddress r = ip
      then (if \<not> ucValid r then (eCantSendPacket, None) else (eARPCacheHit, Some (xMACAddress r)))
      else cache_lookup ip rs)"

definition prvCacheLookup :: "arp_state \<Rightarrow> u32 \<Rightarrow> eARPLookupResult_t \<times> mac option" where
  "prvCacheLookup st ulAddressToLookup = cache_lookup ulAddressToLookup (xARPCache st)"

text \<open>\<open>eARPGetCacheEntry\<close> answers the result, \<open>*pulIPAddress\<close> afterwards, and the MAC address.\<close>

definition eARPGetCacheEntry ::
  "net_params \<Rightarrow> arp_state \<Rightarrow> u32 \<Rightarrow> eARPLookupResult_t \<times> u32 \<times> mac option" where
  "eARPGetCacheEntry np st ip =
     (if ip = ipLLMNR_IP_ADDR then (eARPCacheHit, ip, Some xLLMNR_MacAdress)
      else if ip = ipBROADCAST_IP_ADDRESS \<or> ip = ulBroadcastAddress np
      then (eARPCacheHit, ip, Some xBroadcastMACAddress)
      else if ipLOCAL_IP_ADDRESS np = 0 then (eCantSendPacket, ip, None)
      else
        (let ulAddressToLookup =
               (if ip AND ulNetMask np \<noteq> ipLOCAL_IP_ADDRESS np AND ulNetMask np
                then ulGatewayAddress np else ip)
         in if ulAddressToLookup = 0 then (eCantSendPacket, ip, None)
            else (let (res, m) = prvCacheLookup st ulAddressToLookup
                  in (res, if res = eARPCacheMiss then ulAddressToLookup else ip, m))))"

primrec entry_by_mac :: "mac \<Rightarrow> ARPCacheRow_t list \<Rightarrow> eARPLookupResult_t \<times> u32 option" where
  "entry_by_mac m [] = (eARPCacheMiss, None)"
| "entry_by_mac m (r # rs) =
     (if m = xMACAddress r then (eARPCacheHit, Some (ulIPAddress r)) else entry_by_mac m rs)"

definition eARPGetCacheEntryByMac :: "arp_state \<Rightarrow> mac \<Rightarrow> eARPLookupResult_t \<times> u32 option" where
  "eARPGetCacheEntryByMac st m = entry_by_mac m (xARPCache st)"

section \<open>Learning\<close>

text \<open>
  One pass of \<open>vARPRefreshCacheEntry\<close> over the rows from index \<open>x\<close>: it stops with \<open>Inl x\<close> at
  a row that holds both addresses, else ends with the entries found (\<open>None\<close> is \<open>-1\<close>).
\<close>

primrec refresh_scan ::
  "mac option \<Rightarrow> u32 \<Rightarrow> ARPCacheRow_t list \<Rightarrow> nat \<Rightarrow> nat option \<Rightarrow> nat option \<Rightarrow> nat \<Rightarrow> u8 \<Rightarrow>
   nat + (nat option \<times> nat option \<times> nat)" where
  "refresh_scan pm ip [] x xIpEntry xMacEntry xUseEntry ucMinAgeFound = Inr (xIpEntry, xMacEntry, xUseEntry)"
| "refresh_scan pm ip (r # rs) x xIpEntry xMacEntry xUseEntry ucMinAgeFound =
     (if ulIPAddress r = ip then
        (case pm of
           None \<Rightarrow> Inr (Some x, xMacEntry, xUseEntry)
         | Some m \<Rightarrow>
             if xMACAddress r = m then Inl x
             else refresh_scan pm ip rs (x + 1) (Some x) xMacEntry xUseEntry ucMinAgeFound)
      else if pm = Some (xMACAddress r)
      then refresh_scan pm ip rs (x + 1) xIpEntry (Some x) xUseEntry ucMinAgeFound
      else if ucAge r < ucMinAgeFound
      then refresh_scan pm ip rs (x + 1) xIpEntry xMacEntry x (ucAge r)
      else refresh_scan pm ip rs (x + 1) xIpEntry xMacEntry xUseEntry ucMinAgeFound)"

definition vARPRefreshCacheEntry :: "net_params \<Rightarrow> mac option \<Rightarrow> u32 \<Rightarrow> arp_state \<Rightarrow> arp_state" where
  "vARPRefreshCacheEntry np pm ip st =
     (if ip AND ulNetMask np = ipLOCAL_IP_ADDRESS np AND ulNetMask np \<or> ipLOCAL_IP_ADDRESS np = 0
      then
        (case refresh_scan pm ip (xARPCache st) 0 None None 0 (0 - 1) of
           Inl x \<Rightarrow>
             st\<lparr>xARPCache := (xARPCache st)[x := (xARPCache st ! x)\<lparr>ucAge := ipconfigMAX_ARP_AGE, ucValid := True\<rparr>]\<rparr>
         | Inr (xIpEntry, xMacEntry, xUse) \<Rightarrow>
             (let (cache1, xUseEntry) =
                    (case xMacEntry of
                       Some m \<Rightarrow>
                         (case xIpEntry of
                            Some i \<Rightarrow> ((xARPCache st)[i := empty_row], m)
                          | None \<Rightarrow> (xARPCache st, m))
                     | None \<Rightarrow>
                         (case xIpEntry of
                            Some i \<Rightarrow> (xARPCache st, i)
                          | None \<Rightarrow> (xARPCache st, xUse)));
                  row1 = (cache1 ! xUseEntry)\<lparr>ulIPAddress := ip\<rparr>;
                  row2 = (case pm of
                            Some mac \<Rightarrow> row1\<lparr>xMACAddress := mac, ucAge := ipconfigMAX_ARP_AGE, ucValid := True\<rparr>
                          | None \<Rightarrow>
                              if xIpEntry = None
                              then row1\<lparr>ucAge := ipconfigMAX_ARP_RETRANSMISSIONS, ucValid := False\<rparr>
                              else row1)
              in st\<lparr>xARPCache := cache1[xUseEntry := row2]\<rparr>))
      else st)"

primrec remove_by_mac :: "mac \<Rightarrow> ARPCacheRow_t list \<Rightarrow> u32 \<times> ARPCacheRow_t list" where
  "remove_by_mac m [] = (0, [])"
| "remove_by_mac m (r # rs) =
     (if xMACAddress r = m then (ulIPAddress r, empty_row # rs)
      else (let (res, rs') = remove_by_mac m rs in (res, r # rs')))"

definition ulARPRemoveCacheEntryByMac :: "mac \<Rightarrow> arp_state \<Rightarrow> u32 \<times> arp_state" where
  "ulARPRemoveCacheEntryByMac m st =
     (let (res, rows) = remove_by_mac m (xARPCache st) in (res, st\<lparr>xARPCache := rows\<rparr>))"

definition FreeRTOS_ClearARP :: "arp_state \<Rightarrow> arp_state" where
  "FreeRTOS_ClearARP st = st\<lparr>xARPCache := replicate ipconfigARP_CACHE_ENTRIES empty_row\<rparr>"

section \<open>Packets\<close>

text \<open>\<open>xDefaultPartARPPacketHeader\<close> laid over a packet, then the addresses filled in.\<close>

definition vARPGenerateRequestPacket :: "net_params \<Rightarrow> u32 \<Rightarrow> ARPPacket_t" where
  "vARPGenerateRequestPacket np ip =
     \<lparr>xEthernetHeader = \<lparr>xDestinationAddress = [0xff, 0xff, 0xff, 0xff, 0xff, 0xff],
                         xSourceAddress = ipLOCAL_MAC_ADDRESS np, usFrameType = 0x0608\<rparr>,
      xARPHeader = \<lparr>usHardwareType = 0x0100, usProtocolType = 0x0008, ucHardwareAddressLength = 6,
                    ucProtocolAddressLength = 4, usOperation = 0x0100,
                    xSenderHardwareAddress = ipLOCAL_MAC_ADDRESS np,
                    ulSenderProtocolAddress = ipLOCAL_IP_ADDRESS np,
                    xTargetHardwareAddress = zero_mac,
                    ulTargetProtocolAddress = ip\<rparr>\<rparr>"

text \<open>\<open>got_buffer\<close>: whether \<open>pxGetNetworkBufferWithDescriptor\<close> returned a buffer.\<close>

definition FreeRTOS_OutputARPRequest :: "net_params \<Rightarrow> bool \<Rightarrow> u32 \<Rightarrow> ARPPacket_t option" where
  "FreeRTOS_OutputARPRequest np got_buffer ip =
     (if got_buffer then Some (vARPGenerateRequestPacket np ip) else None)"

definition eARPProcessPacket ::
  "net_params \<Rightarrow> ARPPacket_t \<Rightarrow> arp_state \<Rightarrow> eFrameProcessingResult_t \<times> ARPPacket_t \<times> arp_state" where
  "eARPProcessPacket np frame st =
     (let h = xARPHeader frame in
      if usProtocolType h = ipARP_PROTOCOL_TYPE \<and> ipLOCAL_IP_ADDRESS np \<noteq> 0 then
        (if usOperation h = ipARP_REQUEST then
           (if ulTargetProtocolAddress h = ipLOCAL_IP_ADDRESS np then
              (let st1 = vARPRefreshCacheEntry np (Some (xSenderHardwareAddress h)) (ulSenderProtocolAddress h) st;
                   h1 = h\<lparr>usOperation := ipARP_REPLY\<rparr>;
                   (eth, h2) =
                     (if ulTargetProtocolAddress h1 = ulSenderProtocolAddress h1
                      then ((xEthernetHeader frame)\<lparr>xSourceAddress := xBroadcastMACAddress\<rparr>,
                            h1\<lparr>xTargetHardwareAddress := zero_mac, ulTargetProtocolAddress := 0\<rparr>)
                      else (xEthernetHeader frame,
                            h1\<lparr>xTargetHardwareAddress := xSenderHardwareAddress h1,
                               ulTargetProtocolAddress := ulSenderProtocolAddress h1\<rparr>));
                   h3 = h2\<lparr>xSenderHardwareAddress := ipLOCAL_MAC_ADDRESS np,
                           ulSenderProtocolAddress := ipLOCAL_IP_ADDRESS np\<rparr>
               in (eReturnEthernetFrame, \<lparr>xEthernetHeader = eth, xARPHeader = h3\<rparr>, st1))
            else (eReleaseBuffer, frame, st))
         else if usOperation h = ipARP_REPLY then
           (eReleaseBuffer, frame,
            vARPRefreshCacheEntry np (Some (xSenderHardwareAddress h)) (ulSenderProtocolAddress h) st)
         else (eReleaseBuffer, frame, st))
      else (eReleaseBuffer, frame, st))"

section \<open>Ageing\<close>

text \<open>One row of the loop of \<open>vARPAgeCache\<close>: the row after it, and the request it sends.\<close>

definition age_row :: "ARPCacheRow_t \<Rightarrow> ARPCacheRow_t \<times> u32 list" where
  "age_row r =
     (if ucAge r > 0 then
        (let r1 = r\<lparr>ucAge := ucAge r - 1\<rparr>;
             req = (if \<not> ucValid r1 then [ulIPAddress r1]
                    else if ucAge r1 \<le> arpMAX_ARP_AGE_BEFORE_NEW_ARP_REQUEST then [ulIPAddress r1]
                    else [])
         in (if ucAge r1 = 0 then r1\<lparr>ulIPAddress := 0\<rparr> else r1, req))
      else (r, []))"

definition vARPAgeCache :: "net_params \<Rightarrow> u32 \<Rightarrow> arp_state \<Rightarrow> arp_state \<times> u32 list" where
  "vARPAgeCache np xTimeNow st =
     (let aged = map age_row (xARPCache st);
          st1 = st\<lparr>xARPCache := map fst aged\<rparr>;
          reqs = concat (map snd aged)
      in if xLastGratuitousARPTime st1 = 0 \<or> xTimeNow - xLastGratuitousARPTime st1 > arpGRATUITOUS_ARP_PERIOD
         then (st1\<lparr>xLastGratuitousARPTime := xTimeNow\<rparr>, reqs @ [ipLOCAL_IP_ADDRESS np])
         else (st1, reqs))"

text \<open>The second component is the event \<open>vARPSendGratuitous\<close> posts to the IP task.\<close>

definition vARPSendGratuitous :: "arp_state \<Rightarrow> arp_state \<times> eIPEvent_t" where
  "vARPSendGratuitous st = (st\<lparr>xLastGratuitousARPTime := 0\<rparr>, eARPTimerEvent)"

section \<open>The invariant of the cache\<close>

text \<open>
  A nonzero address is in one row at most, no age exceeds its initial value, and a row whose
  age has run out holds no address.
\<close>

definition unique_ips :: "ARPCacheRow_t list \<Rightarrow> bool" where
  "unique_ips rows \<longleftrightarrow>
     (\<forall>i<length rows. \<forall>j<length rows. i \<noteq> j \<longrightarrow> ulIPAddress (rows ! i) = ulIPAddress (rows ! j) \<longrightarrow>
        ulIPAddress (rows ! i) = 0)"

definition row_ok :: "ARPCacheRow_t \<Rightarrow> bool" where
  "row_ok r \<longleftrightarrow> ucAge r \<le> ipconfigMAX_ARP_AGE \<and> (ucAge r = 0 \<longrightarrow> ulIPAddress r = 0)"

definition arp_wf :: "arp_state \<Rightarrow> bool" where
  "arp_wf st \<longleftrightarrow> length (xARPCache st) = ipconfigARP_CACHE_ENTRIES \<and>
     unique_ips (xARPCache st) \<and> (\<forall>r\<in>set (xARPCache st). row_ok r)"

lemma unique_ipsD:
  "unique_ips rows \<Longrightarrow> i < length rows \<Longrightarrow> j < length rows \<Longrightarrow>
     ulIPAddress (rows ! i) = ip \<Longrightarrow> ulIPAddress (rows ! j) = ip \<Longrightarrow> ip \<noteq> 0 \<Longrightarrow> i = j"
  unfolding unique_ips_def by metis

lemma unique_ips_Cons:
  "unique_ips (r # rs) \<Longrightarrow> unique_ips rs"
  "unique_ips (r # rs) \<Longrightarrow> s \<in> set rs \<Longrightarrow> ulIPAddress s = ulIPAddress r \<Longrightarrow> ulIPAddress r = 0"
proof -
  assume u: "unique_ips (r # rs)"
  show "unique_ips rs"
    unfolding unique_ips_def
  proof (intro allI impI)
    fix i j assume "i < length rs" "j < length rs" "i \<noteq> j" "ulIPAddress (rs ! i) = ulIPAddress (rs ! j)"
    then show "ulIPAddress (rs ! i) = 0"
      using u [unfolded unique_ips_def, rule_format, of "Suc i" "Suc j"] by simp
  qed
  assume "s \<in> set rs" "ulIPAddress s = ulIPAddress r"
  then obtain j where "j < length rs" "s = rs ! j" by (metis in_set_conv_nth)
  then show "ulIPAddress r = 0"
    using unique_ipsD [OF u, of 0 "Suc j"] \<open>ulIPAddress s = ulIPAddress r\<close> by auto
qed

definition hit_of :: "ARPCacheRow_t \<Rightarrow> eARPLookupResult_t \<times> mac option" where
  "hit_of r = (if ucValid r then (eARPCacheHit, Some (xMACAddress r)) else (eCantSendPacket, None))"

lemma lookup_miss: "\<forall>r\<in>set rows. ulIPAddress r \<noteq> ip \<Longrightarrow> cache_lookup ip rows = (eARPCacheMiss, None)"
  by (induction rows) auto

lemma lookup_miss_iff: "fst (cache_lookup ip rows) = eARPCacheMiss \<longleftrightarrow> (\<forall>r\<in>set rows. ulIPAddress r \<noteq> ip)"
  by (induction rows) auto

lemma lookup_found:
  "unique_ips rows \<Longrightarrow> k < length rows \<Longrightarrow> ulIPAddress (rows ! k) = ip \<Longrightarrow> ip \<noteq> 0 \<Longrightarrow>
     cache_lookup ip rows = hit_of (rows ! k)"
proof (induction rows arbitrary: k)
  case (Cons r rs)
  show ?case
  proof (cases k)
    case 0
    then show ?thesis using Cons.prems by (simp add: hit_of_def)
  next
    case (Suc j)
    then have "ulIPAddress r \<noteq> ip"
      using Cons.prems unique_ips_Cons(2) [OF Cons.prems(1), of "rs ! j"] by auto
    then show ?thesis using Cons Suc unique_ips_Cons(1) by auto
  qed
qed simp

text \<open>The state of one address decides the look-up.\<close>

lemma lookup_cases:
  assumes "unique_ips rows" "ip \<noteq> 0"
  obtains (miss) "\<forall>r\<in>set rows. ulIPAddress r \<noteq> ip" "cache_lookup ip rows = (eARPCacheMiss, None)"
  | (found) k where "k < length rows" "ulIPAddress (rows ! k) = ip" "cache_lookup ip rows = hit_of (rows ! k)"
  using assms lookup_found lookup_miss by (metis in_set_conv_nth)

lemma lookup_update_other:
  assumes u: "unique_ips rows" and ip: "ip \<noteq> 0" "ulIPAddress r \<noteq> ip" and i: "i < length rows"
  shows "cache_lookup ip (rows[i := r]) =
           (if ulIPAddress (rows ! i) = ip then (eARPCacheMiss, None) else cache_lookup ip rows)"
  using u i
proof (induction rows arbitrary: i)
  case (Cons s rs)
  have miss: "cache_lookup ip rs = (eARPCacheMiss, None)" if "ulIPAddress s = ip"
    by (rule lookup_miss) (use unique_ips_Cons(2) [OF Cons.prems(1)] that ip in auto)
  show ?case
  proof (cases i)
    case 0
    then show ?thesis using miss ip by simp
  next
    case (Suc j)
    have "ulIPAddress (rs ! j) \<noteq> ip" if "ulIPAddress s = ip"
      using unique_ips_Cons(2) [OF Cons.prems(1), of "rs ! j"] that ip Cons.prems(2) Suc by auto
    then show ?thesis using Cons.IH [OF unique_ips_Cons(1) [OF Cons.prems(1)], of j] Cons.prems Suc by auto
  qed
qed simp

lemma unique_update:
  assumes u: "unique_ips rows"
    and r: "ulIPAddress r = 0 \<or> (\<forall>j<length rows. j \<noteq> i \<longrightarrow> ulIPAddress (rows ! j) \<noteq> ulIPAddress r)"
  shows "unique_ips (rows[i := r])"
  unfolding unique_ips_def length_list_update
proof (intro allI impI)
  fix k j
  assume k: "k < length rows" "j < length rows" "k \<noteq> j"
    and eq: "ulIPAddress (rows[i := r] ! k) = ulIPAddress (rows[i := r] ! j)"
  show "ulIPAddress (rows[i := r] ! k) = 0"
  proof (cases "k = i \<or> j = i")
    case True
    then show ?thesis using k eq r by (auto simp: nth_list_update)
  next
    case False
    then show ?thesis using k eq u unfolding unique_ips_def by simp
  qed
qed

section \<open>What the scan finds\<close>

lemma scan_Inl:
  "refresh_scan pm ip rows x ie me u a = Inl y \<Longrightarrow>
     \<exists>k<length rows. y = x + k \<and> ulIPAddress (rows ! k) = ip \<and> pm = Some (xMACAddress (rows ! k))"
proof (induction rows arbitrary: x ie me u a)
  case (Cons r rs)
  have IH: "refresh_scan pm ip rs (x + 1) ie' me' u' a' = Inl y \<Longrightarrow>
      \<exists>k<length (r # rs). y = x + k \<and> ulIPAddress ((r # rs) ! k) = ip \<and> pm = Some (xMACAddress ((r # rs) ! k))"
    for ie' me' u' a'
    using Cons.IH [of "x + 1" ie' me' u' a'] by fastforce
  show ?case
    using Cons.prems IH by (auto split: if_splits option.splits)
qed simp

lemma scan_Inr:
  "refresh_scan pm ip rows x ie me u a = Inr (ie', me', u') \<Longrightarrow>
     (ie' = ie \<or> (\<exists>k<length rows. ie' = Some (x + k) \<and> ulIPAddress (rows ! k) = ip)) \<and>
     (ie' = None \<longrightarrow> ie = None \<and> (\<forall>r\<in>set rows. ulIPAddress r \<noteq> ip)) \<and>
     (me' = me \<or> (\<exists>k<length rows. me' = Some (x + k) \<and> ulIPAddress (rows ! k) \<noteq> ip \<and>
                     pm = Some (xMACAddress (rows ! k)))) \<and>
     (u' = u \<or> (\<exists>k<length rows. u' = x + k))"
proof (induction rows arbitrary: x ie me u a)
  case (Cons r rs)
  let ?P = "\<lambda>rows x ie me u.
     (ie' = ie \<or> (\<exists>k<length rows. ie' = Some (x + k) \<and> ulIPAddress (rows ! k) = ip)) \<and>
     (ie' = None \<longrightarrow> ie = None \<and> (\<forall>r\<in>set rows. ulIPAddress r \<noteq> ip)) \<and>
     (me' = me \<or> (\<exists>k<length rows. me' = Some (x + k) \<and> ulIPAddress (rows ! k) \<noteq> ip \<and>
                     pm = Some (xMACAddress (rows ! k)))) \<and>
     (u' = u \<or> (\<exists>k<length rows. u' = x + k))"
  have ex: "\<exists>k<length (r # rs). Q (x + k) ((r # rs) ! k)"
    if h: "\<exists>k<length rs. Q (Suc x + k) (rs ! k)" for Q :: "nat \<Rightarrow> ARPCacheRow_t \<Rightarrow> bool"
  proof -
    obtain k where "k < length rs" "Q (Suc x + k) (rs ! k)" using h by blast
    then show ?thesis by (intro exI [of _ "Suc k"]) simp
  qed
  have ex0: "\<exists>k<length (r # rs). Q (x + k) ((r # rs) ! k)" if "Q x r" for Q :: "nat \<Rightarrow> ARPCacheRow_t \<Rightarrow> bool"
    using that by (intro exI [of _ 0]) simp
  have step: "?P (r # rs) x ie me u"
    if "?P rs (Suc x) ie2 me2 u2"
      "ie2 = ie \<and> ulIPAddress r \<noteq> ip \<or> ie2 = Some x \<and> ulIPAddress r = ip"
      "me2 = me \<or> me2 = Some x \<and> ulIPAddress r \<noteq> ip \<and> pm = Some (xMACAddress r)"
      "u2 = u \<or> u2 = x" for ie2 me2 u2
  proof (intro conjI)
    show "ie' = ie \<or> (\<exists>k<length (r # rs). ie' = Some (x + k) \<and> ulIPAddress ((r # rs) ! k) = ip)"
      using that(1,2) ex [of "\<lambda>j s. ie' = Some j \<and> ulIPAddress s = ip"]
        ex0 [of "\<lambda>j s. ie' = Some j \<and> ulIPAddress s = ip"] by auto
    show "ie' = None \<longrightarrow> ie = None \<and> (\<forall>r\<in>set (r # rs). ulIPAddress r \<noteq> ip)"
      using that(1,2) by auto
    show "me' = me \<or> (\<exists>k<length (r # rs). me' = Some (x + k) \<and> ulIPAddress ((r # rs) ! k) \<noteq> ip \<and>
        pm = Some (xMACAddress ((r # rs) ! k)))"
      using that(1,3) ex [of "\<lambda>j s. me' = Some j \<and> ulIPAddress s \<noteq> ip \<and> pm = Some (xMACAddress s)"]
        ex0 [of "\<lambda>j s. me' = Some j \<and> ulIPAddress s \<noteq> ip \<and> pm = Some (xMACAddress s)"] by auto
    show "u' = u \<or> (\<exists>k<length (r # rs). u' = x + k)"
      using that(1,4) ex [of "\<lambda>j s. u' = j"] ex0 [of "\<lambda>j s. u' = j"] by auto
  qed
  consider (stop) "ulIPAddress r = ip" "pm = None" "ie' = Some x" "me' = me" "u' = u"
    | (go) ie2 me2 u2 a2 where "refresh_scan pm ip rs (Suc x) ie2 me2 u2 a2 = Inr (ie', me', u')"
      "ie2 = ie \<and> ulIPAddress r \<noteq> ip \<or> ie2 = Some x \<and> ulIPAddress r = ip"
      "me2 = me \<or> me2 = Some x \<and> ulIPAddress r \<noteq> ip \<and> pm = Some (xMACAddress r)"
      "u2 = u \<or> u2 = x"
  proof (cases "ulIPAddress r = ip")
    case True
    show ?thesis
    proof (cases pm)
      case None
      then show ?thesis using Cons.prems True that(1) by simp
    next
      case (Some m)
      then have "xMACAddress r \<noteq> m" using Cons.prems True by auto
      then show ?thesis using Cons.prems True Some that(2) [of "Some x" me u a] by simp
    qed
  next
    case False
    then show ?thesis
      using Cons.prems that(2) [of ie "Some x" u a] that(2) [of ie me x "ucAge r"] that(2) [of ie me u a]
      by (simp split: if_splits)
  qed
  then show ?case
  proof cases
    case stop
    then show ?thesis using ex0 [of "\<lambda>j s. ie' = Some j \<and> ulIPAddress s = ip"] by auto
  next
    case go
    then show ?thesis using step [OF Cons.IH [OF go(1)] go(2-4)] by simp
  qed
qed simp

section \<open>The effect of learning\<close>

text \<open>The addresses the cache accepts.\<close>

definition accepts :: "net_params \<Rightarrow> u32 \<Rightarrow> bool" where
  "accepts np ip \<longleftrightarrow> same_net np ip \<or> ipLOCAL_IP_ADDRESS np = 0"

lemma refresh_ignored: "\<not> accepts np ip \<Longrightarrow> vARPRefreshCacheEntry np pm ip st = st"
  by (auto simp: accepts_def same_net_def vARPRefreshCacheEntry_def)

lemma scan_use_min:
  "refresh_scan pm ip rows x ie me u a = Inr (ie', me', u') \<Longrightarrow> pm \<noteq> None \<Longrightarrow>
     ie' = None \<Longrightarrow> me' = None \<Longrightarrow>
     (u' = u \<and> (\<forall>r\<in>set rows. a \<le> ucAge r)) \<or>
     (\<exists>k<length rows. u' = x + k \<and> ucAge (rows ! k) < a \<and> (\<forall>r\<in>set rows. ucAge (rows ! k) \<le> ucAge r))"
proof (induction rows arbitrary: x ie me u a)
  case (Cons r rs)
  from Cons.prems(2) obtain m where pm: "pm = Some m" by blast
  have notip: "ulIPAddress r \<noteq> ip" and notmac: "xMACAddress r \<noteq> m"
  proof -
    have some: "refresh_scan pm ip rs y i n w b = Inr (ie', me', u') \<Longrightarrow> (i \<noteq> None \<longrightarrow> ie' \<noteq> None) \<and> (n \<noteq> None \<longrightarrow> me' \<noteq> None)"
      for y i n w b using scan_Inr [of pm ip rs y i n w b ie' me' u'] by auto
    show "ulIPAddress r \<noteq> ip"
    proof
      assume "ulIPAddress r = ip"
      then have "refresh_scan pm ip rs (x + 1) (Some x) me u a = Inr (ie', me', u')"
        using Cons.prems(1) pm by (auto split: if_splits)
      then show False using some Cons.prems(3) by blast
    qed
    then have "xMACAddress r = m \<Longrightarrow> refresh_scan pm ip rs (x + 1) ie (Some x) u a = Inr (ie', me', u')"
      using Cons.prems(1) pm by auto
    then show "xMACAddress r \<noteq> m" using some Cons.prems(4) by blast
  qed
  show ?case
  proof (cases "ucAge r < a")
    case True
    then have "refresh_scan pm ip rs (x + 1) ie me x (ucAge r) = Inr (ie', me', u')"
      using Cons.prems notip notmac pm by simp
    from Cons.IH [OF this Cons.prems(2-4)] consider
      "u' = x" "\<forall>s\<in>set rs. ucAge r \<le> ucAge s"
      | k where "k < length rs" "u' = x + 1 + k" "ucAge (rs ! k) < ucAge r" "\<forall>s\<in>set rs. ucAge (rs ! k) \<le> ucAge s"
      by blast
    then show ?thesis
    proof cases
      case 1
      then show ?thesis using True by (intro disjI2 exI [of _ 0]) simp
    next
      case 2
      then show ?thesis using True by (intro disjI2 exI [of _ "Suc k"]) (auto intro: less_imp_le)
    qed
  next
    case False
    then have "refresh_scan pm ip rs (x + 1) ie me u a = Inr (ie', me', u')"
      using Cons.prems notip notmac pm by simp
    from Cons.IH [OF this Cons.prems(2-4)] consider
      "u' = u" "\<forall>s\<in>set rs. a \<le> ucAge s"
      | k where "k < length rs" "u' = x + 1 + k" "ucAge (rs ! k) < a" "\<forall>s\<in>set rs. ucAge (rs ! k) \<le> ucAge s"
      by blast
    then show ?thesis
    proof cases
      case 1
      then show ?thesis using False by auto
    next
      case 2
      then show ?thesis using False by (intro disjI2 exI [of _ "Suc k"]) auto
    qed
  qed
qed simp

text \<open>
  Learning rewrites one row \<open>k\<close>, and clears another that held the address: no other row holds
  the address afterwards.
\<close>

definition learnt_row :: "mac option \<Rightarrow> u32 \<Rightarrow> ARPCacheRow_t list \<Rightarrow> nat \<Rightarrow> ARPCacheRow_t \<Rightarrow> bool" where
  "learnt_row pm ip rows k row \<longleftrightarrow>
     ulIPAddress row = ip \<and>
     (case pm of
        Some m \<Rightarrow> xMACAddress row = m \<and> ucValid row \<and> ucAge row = ipconfigMAX_ARP_AGE
      | None \<Rightarrow> row = rows ! k \<or>
          (\<forall>r\<in>set rows. ulIPAddress r \<noteq> ip) \<and> \<not> ucValid row \<and> ucAge row = ipconfigMAX_ARP_RETRANSMISSIONS)"

lemma refresh_effect:
  assumes acc: "accepts np ip" and wf: "arp_wf st"
  obtains base k row where
    "vARPRefreshCacheEntry np pm ip st = st\<lparr>xARPCache := base[k := row]\<rparr>"
    "k < length base" "learnt_row pm ip (xARPCache st) k row"
    "base = xARPCache st \<or>
       (\<exists>i<length base. i \<noteq> k \<and> ulIPAddress (xARPCache st ! i) = ip \<and> base = (xARPCache st)[i := empty_row])"
    "length base = length (xARPCache st)"
    "\<forall>j<length base. j \<noteq> k \<longrightarrow> ulIPAddress (base ! j) = ip \<longrightarrow> ip = 0"
proof -
  let ?rows = "xARPCache st"
  have len: "length ?rows = 6" and u: "unique_ips ?rows"
    using wf by (auto simp: arp_wf_def ipconfigARP_CACHE_ENTRIES_def)
  have go: "ip AND ulNetMask np = ipLOCAL_IP_ADDRESS np AND ulNetMask np \<or> ipLOCAL_IP_ADDRESS np = 0"
    using acc by (simp add: accepts_def same_net_def)
  show ?thesis
  proof (cases "refresh_scan pm ip ?rows 0 None None 0 (0 - 1)")
    case (Inl x)
    from scan_Inl [OF this] have x: "x < length ?rows" "ulIPAddress (?rows ! x) = ip"
      "pm = Some (xMACAddress (?rows ! x))" by auto
    show ?thesis
      by (rule that [where ?base = ?rows and ?k = x and ?row = "(?rows ! x)\<lparr>ucAge := ipconfigMAX_ARP_AGE, ucValid := True\<rparr>"])
        (use Inl x go unique_ipsD [OF u] in \<open>auto simp: vARPRefreshCacheEntry_def learnt_row_def\<close>)
  next
    case (Inr z)
    obtain ie me w where z: "z = (ie, me, w)" by (cases z)
    note s = scan_Inr [OF Inr [unfolded z]]
    have w: "w < length ?rows" using s len by auto
    have ie: "i < length ?rows \<and> ulIPAddress (?rows ! i) = ip" if "ie = Some i" for i using s that by auto
    have me: "m < length ?rows \<and> ulIPAddress (?rows ! m) \<noteq> ip \<and> pm = Some (xMACAddress (?rows ! m))"
      if "me = Some m" for m using s that by auto
    have none: "\<forall>r\<in>set ?rows. ulIPAddress r \<noteq> ip" if "ie = None" using s that by auto
    let ?k = "case me of Some m \<Rightarrow> m | None \<Rightarrow> (case ie of Some i \<Rightarrow> i | None \<Rightarrow> w)"
    let ?base = "case (me, ie) of (Some m, Some i) \<Rightarrow> ?rows[i := empty_row] | _ \<Rightarrow> ?rows"
    let ?r1 = "(?base ! ?k)\<lparr>ulIPAddress := ip\<rparr>"
    let ?row = "case pm of Some mac \<Rightarrow> ?r1\<lparr>xMACAddress := mac, ucAge := ipconfigMAX_ARP_AGE, ucValid := True\<rparr>
      | None \<Rightarrow> (if ie = None then ?r1\<lparr>ucAge := ipconfigMAX_ARP_RETRANSMISSIONS, ucValid := False\<rparr> else ?r1)"
    have k: "?k < length ?rows" using ie me w by (auto split: option.splits)
    have eq: "vARPRefreshCacheEntry np pm ip st = st\<lparr>xARPCache := ?base[?k := ?row]\<rparr>"
      using Inr z go by (simp add: vARPRefreshCacheEntry_def Let_def split: option.splits)
    have base: "?base = ?rows \<or> (\<exists>i<length ?base. i \<noteq> ?k \<and> ulIPAddress (?rows ! i) = ip \<and> ?base = ?rows[i := empty_row])"
      using ie me by (auto split: option.splits)
    have learnt: "learnt_row pm ip ?rows ?k ?row"
    proof (cases pm)
      case None
      then have "me = None" using me by (cases me) auto
      then show ?thesis using None ie none by (cases ie) (auto simp: learnt_row_def)
    qed (simp add: learnt_row_def)
    have others: "\<forall>j<length ?base. j \<noteq> ?k \<longrightarrow> ulIPAddress (?base ! j) = ip \<longrightarrow> ip = 0"
    proof (cases ie)
      case None
      then show ?thesis using none by (auto split: option.splits)
    next
      case (Some i)
      have a: "j = i" if "j < length ?rows" "ulIPAddress (?rows ! j) = ip" "ip \<noteq> 0" for j
        using unique_ipsD [OF u that(1) _ that(2)] ie [OF Some] that(3) by blast
      have b: "ip = 0" if "j < length ?rows" "ulIPAddress (?rows[i := empty_row] ! j) = ip" for j
      proof (cases "j = i")
        case True
        then show ?thesis using that by (simp add: empty_row_def)
      next
        case False
        then have "ulIPAddress (?rows ! j) = ip" using that(2) by simp
        then show ?thesis using a [OF that(1)] False by blast
      qed
      show ?thesis
      proof (cases me)
        case None
        then show ?thesis using Some a by (simp, blast)
      next
        case (Some m)
        then show ?thesis using \<open>ie = Some i\<close> b by simp
      qed
    qed
    show ?thesis by (rule that [OF eq _ learnt base _ others]) (use k in \<open>auto split: option.splits\<close>)
  qed
qed

lemma learnt_row_ok:
  "learnt_row pm ip rows k row \<Longrightarrow> \<forall>r\<in>set rows. row_ok r \<Longrightarrow> k < length rows \<Longrightarrow> row_ok row"
  by (auto simp: learnt_row_def row_ok_def ipconfigMAX_ARP_AGE_def ipconfigMAX_ARP_RETRANSMISSIONS_def
      split: option.splits)

lemma empty_row_ok [simp]: "row_ok empty_row"
  by (simp add: row_ok_def empty_row_def)

lemma refresh_base_unique:
  assumes "unique_ips rows" "base = rows \<or> (\<exists>i<length base. i \<noteq> k \<and> ulIPAddress (rows ! i) = ip \<and> base = rows[i := empty_row])"
  shows "unique_ips base"
  using assms unique_update [of rows empty_row] by (auto simp: empty_row_def)

lemma set_update_ok:
  "\<forall>r\<in>set rows. P r \<Longrightarrow> P r' \<Longrightarrow> r \<in> set (rows[i := r']) \<Longrightarrow> P r"
  using set_update_subset_insert [of rows i r'] by auto

lemma refresh_wf [ok_intros]:
  assumes wf: "arp_wf st"
  shows "arp_wf (vARPRefreshCacheEntry np pm ip st)"
proof (cases "accepts np ip")
  case True
  from True wf show ?thesis
  proof (rule refresh_effect [of np ip st pm])
    fix base k row
    assume eq: "vARPRefreshCacheEntry np pm ip st = st\<lparr>xARPCache := base[k := row]\<rparr>"
      and k: "k < length base" and row: "learnt_row pm ip (xARPCache st) k row"
      and base: "base = xARPCache st \<or>
       (\<exists>i<length base. i \<noteq> k \<and> ulIPAddress (xARPCache st ! i) = ip \<and> base = (xARPCache st)[i := empty_row])"
      and len: "length base = length (xARPCache st)"
      and other: "\<forall>j<length base. j \<noteq> k \<longrightarrow> ulIPAddress (base ! j) = ip \<longrightarrow> ip = 0"
    have ip: "ulIPAddress row = ip" using row by (simp add: learnt_row_def)
    have "unique_ips base" by (rule refresh_base_unique [OF _ base]) (use wf in \<open>simp add: arp_wf_def\<close>)
    then have "unique_ips (base[k := row])" by (rule unique_update) (use other ip in blast)
    moreover have "row_ok row" using learnt_row_ok [OF row] wf k len by (simp add: arp_wf_def)
    moreover have "\<forall>r\<in>set base. row_ok r"
      using base wf set_update_ok [of "xARPCache st" row_ok empty_row] by (auto simp: arp_wf_def)
    ultimately show ?thesis
      using set_update_ok [of base row_ok row] wf len unfolding eq arp_wf_def by simp
  qed
qed (simp add: refresh_ignored wf)

text \<open>Looking up the learnt address, and any other.\<close>

lemma refresh_lookup_same:
  assumes wf: "arp_wf st" and acc: "accepts np ip" and ip: "ip \<noteq> 0"
  shows "prvCacheLookup (vARPRefreshCacheEntry np pm ip st) ip =
           (case pm of
              Some m \<Rightarrow> (eARPCacheHit, Some m)
            | None \<Rightarrow> if fst (prvCacheLookup st ip) = eARPCacheMiss then (eCantSendPacket, None)
                      else prvCacheLookup st ip)"
proof (rule refresh_effect [OF acc wf, of pm])
  fix base k row
  assume eq: "vARPRefreshCacheEntry np pm ip st = st\<lparr>xARPCache := base[k := row]\<rparr>"
    and k: "k < length base" and row: "learnt_row pm ip (xARPCache st) k row"
    and len: "length base = length (xARPCache st)"
  have u: "unique_ips (base[k := row])" and u0: "unique_ips (xARPCache st)"
    using refresh_wf [OF wf, of np pm ip] wf unfolding eq by (simp_all add: arp_wf_def)
  have ipr: "ulIPAddress row = ip" using row by (simp add: learnt_row_def)
  have "cache_lookup ip (base[k := row]) = hit_of row"
    using lookup_found [OF u, of k ip] k ipr ip by simp
  then have new: "prvCacheLookup (vARPRefreshCacheEntry np pm ip st) ip = hit_of row"
    unfolding eq by (simp add: prvCacheLookup_def)
  show ?thesis
  proof (cases pm)
    case (Some m)
    then show ?thesis using new row by (simp add: learnt_row_def hit_of_def)
  next
    case None
    consider "row = xARPCache st ! k" | "\<forall>r\<in>set (xARPCache st). ulIPAddress r \<noteq> ip" "\<not> ucValid row"
      using row None by (auto simp: learnt_row_def)
    then show ?thesis
    proof cases
      case 1
      then have "prvCacheLookup st ip = hit_of row"
        using lookup_found [OF u0, of k ip] k len ipr ip by (simp add: prvCacheLookup_def)
      then show ?thesis using new None by (simp add: hit_of_def)
    next
      case 2
      then show ?thesis using new None lookup_miss [OF 2(1)] by (simp add: hit_of_def prvCacheLookup_def)
    qed
  qed
qed

lemma refresh_lookup_other:
  assumes wf: "arp_wf st" and ip: "ip' \<noteq> 0" "ip' \<noteq> ip"
  shows "prvCacheLookup (vARPRefreshCacheEntry np pm ip st) ip' \<in> {prvCacheLookup st ip', (eARPCacheMiss, None)}"
proof (cases "accepts np ip")
  case True
  from True wf show ?thesis
  proof (rule refresh_effect [of np ip st pm])
    fix base k row
    assume eq: "vARPRefreshCacheEntry np pm ip st = st\<lparr>xARPCache := base[k := row]\<rparr>"
      and k: "k < length base" and row: "learnt_row pm ip (xARPCache st) k row"
      and base: "base = xARPCache st \<or>
       (\<exists>i<length base. i \<noteq> k \<and> ulIPAddress (xARPCache st ! i) = ip \<and> base = (xARPCache st)[i := empty_row])"
    have u0: "unique_ips (xARPCache st)" using wf by (simp add: arp_wf_def)
    have ub: "unique_ips base" by (rule refresh_base_unique [OF u0 base])
    have ipr: "ulIPAddress row \<noteq> ip'" using row ip by (simp add: learnt_row_def)
    have "cache_lookup ip' base = cache_lookup ip' (xARPCache st)"
      using base ip lookup_update_other [OF u0 ip(1), of empty_row] by (auto simp: empty_row_def)
    then show ?thesis
      using lookup_update_other [OF ub ip(1) ipr k] unfolding eq by (auto simp: prvCacheLookup_def)
  qed
qed (simp add: refresh_ignored)

section \<open>The other operations\<close>

lemma clear_wf [ok_intros]: "arp_wf (FreeRTOS_ClearARP st)"
  by (simp add: arp_wf_def FreeRTOS_ClearARP_def unique_ips_def empty_row_def row_ok_def)

lemma clear_lookup: "ip \<noteq> 0 \<Longrightarrow> prvCacheLookup (FreeRTOS_ClearARP st) ip = (eARPCacheMiss, None)"
  unfolding prvCacheLookup_def by (rule lookup_miss) (simp add: FreeRTOS_ClearARP_def empty_row_def)

lemma gratuitous_wf [ok_intros]: "arp_wf st \<Longrightarrow> arp_wf (fst (vARPSendGratuitous st))"
  by (simp add: arp_wf_def vARPSendGratuitous_def)

lemma gratuitous_lookup [simp]: "prvCacheLookup (fst (vARPSendGratuitous st)) ip = prvCacheLookup st ip"
  by (simp add: prvCacheLookup_def vARPSendGratuitous_def)

lemma remove_by_mac_cases:
  "remove_by_mac m rows = (0, rows) \<and> m \<notin> xMACAddress ` set rows \<or>
     (\<exists>i<length rows. xMACAddress (rows ! i) = m \<and>
        remove_by_mac m rows = (ulIPAddress (rows ! i), rows[i := empty_row]))"
proof (induction rows)
  case (Cons r rs)
  show ?case
  proof (cases "xMACAddress r = m")
    case True
    then show ?thesis by (intro disjI2 exI [of _ 0]) simp
  next
    case False
    from Cons.IH show ?thesis
    proof (elim disjE exE conjE)
      fix i assume "i < length rs" "xMACAddress (rs ! i) = m"
        "remove_by_mac m rs = (ulIPAddress (rs ! i), rs[i := empty_row])"
      then show ?thesis using False by (intro disjI2 exI [of _ "Suc i"]) simp
    qed (use False in auto)
  qed
qed simp

lemma remove_cases:
  obtains "ulARPRemoveCacheEntryByMac m st = (0, st)"
  | i where "i < length (xARPCache st)" "xMACAddress (xARPCache st ! i) = m"
      "ulARPRemoveCacheEntryByMac m st =
         (ulIPAddress (xARPCache st ! i), st\<lparr>xARPCache := (xARPCache st)[i := empty_row]\<rparr>)"
  using remove_by_mac_cases [of m "xARPCache st"] that
  by (auto simp: ulARPRemoveCacheEntryByMac_def)

lemma remove_wf [ok_intros]:
  assumes wf: "arp_wf st" shows "arp_wf (snd (ulARPRemoveCacheEntryByMac m st))"
proof (rule remove_cases [of m st])
  fix i assume eq: "ulARPRemoveCacheEntryByMac m st =
      (ulIPAddress (xARPCache st ! i), st\<lparr>xARPCache := (xARPCache st)[i := empty_row]\<rparr>)"
  have "unique_ips ((xARPCache st)[i := empty_row])"
    by (rule unique_update) (use wf in \<open>simp_all add: arp_wf_def empty_row_def\<close>)
  moreover have "\<forall>r\<in>set ((xARPCache st)[i := empty_row]). row_ok r"
    using wf set_update_ok [of "xARPCache st" row_ok empty_row] by (auto simp: arp_wf_def)
  ultimately show ?thesis using wf by (simp add: eq arp_wf_def)
qed (simp add: wf)

lemma remove_lookup:
  assumes wf: "arp_wf st" and ip: "ip \<noteq> 0"
  shows "prvCacheLookup (snd (ulARPRemoveCacheEntryByMac m st)) ip \<in> {prvCacheLookup st ip, (eARPCacheMiss, None)}"
proof (rule remove_cases [of m st])
  fix i assume "i < length (xARPCache st)"
    "ulARPRemoveCacheEntryByMac m st =
       (ulIPAddress (xARPCache st ! i), st\<lparr>xARPCache := (xARPCache st)[i := empty_row]\<rparr>)"
  then show ?thesis
    using lookup_update_other [of "xARPCache st" ip empty_row i] wf ip
    by (auto simp: prvCacheLookup_def arp_wf_def empty_row_def)
qed simp

text \<open>Ageing, row by row.\<close>

lemma age_row_ok: "row_ok r \<Longrightarrow> row_ok (fst (age_row r))"
proof -
  have "a - 1 \<le> 150" if "a \<le> 150" "a > 0" for a :: u8
    using that by (simp add: word_le_nat_alt word_less_nat_alt unat_sub_le)
  then show "row_ok r \<Longrightarrow> row_ok (fst (age_row r))"
    by (auto simp: age_row_def row_ok_def Let_def ipconfigMAX_ARP_AGE_def word_neq_0_conv)
qed

lemma age_row_ip: "ulIPAddress (fst (age_row r)) = (if ucAge r = 1 then 0 else ulIPAddress r)"
  by (auto simp: age_row_def Let_def word_neq_0_conv [symmetric])

lemma age_row_keeps [simp]:
  "xMACAddress (fst (age_row r)) = xMACAddress r" "ucValid (fst (age_row r)) = ucValid r"
  "ucAge (fst (age_row r)) = (if ucAge r = 0 then 0 else ucAge r - 1)"
  by (auto simp: age_row_def Let_def word_neq_0_conv [symmetric])

lemma age_cache: "xARPCache (fst (vARPAgeCache np t st)) = map (\<lambda>r. fst (age_row r)) (xARPCache st)"
  by (simp add: vARPAgeCache_def Let_def)

lemma age_wf [ok_intros]:
  assumes "arp_wf st" shows "arp_wf (fst (vARPAgeCache np t st))"
proof -
  have u: "unique_ips (xARPCache st)" using assms by (simp add: arp_wf_def)
  have "unique_ips (map (\<lambda>r. fst (age_row r)) (xARPCache st))"
    using unique_ipsD [OF u] unfolding unique_ips_def by (auto simp: age_row_ip)
  then show ?thesis using assms age_row_ok by (auto simp: arp_wf_def age_cache)
qed

text \<open>An address keeps its answer while its row lives, and is missed afterwards.\<close>

lemma age_lookup:
  assumes wf: "arp_wf st" and ip: "ip \<noteq> 0"
  shows "prvCacheLookup (fst (vARPAgeCache np t st)) ip \<in> {prvCacheLookup st ip, (eARPCacheMiss, None)}"
proof -
  have u: "unique_ips (xARPCache st)" and u': "unique_ips (xARPCache (fst (vARPAgeCache np t st)))"
    using wf age_wf [OF wf, of np t] by (simp_all add: arp_wf_def)
  from u' ip show ?thesis
  proof (cases rule: lookup_cases)
    case (found k)
    then have k: "k < length (xARPCache st)" "ulIPAddress (xARPCache st ! k) = ip"
      using ip by (auto simp: age_cache age_row_ip split: if_splits)
    then have "cache_lookup ip (xARPCache st) = hit_of (xARPCache st ! k)" using lookup_found [OF u] ip by blast
    then show ?thesis using found(3) k by (simp add: prvCacheLookup_def age_cache hit_of_def)
  qed (simp add: prvCacheLookup_def)
qed

section \<open>What a packet teaches\<close>

definition packet_teaches :: "net_params \<Rightarrow> ARPPacket_t \<Rightarrow> (mac \<times> u32) option" where
  "packet_teaches np frame =
     (let h = xARPHeader frame in
      if usProtocolType h = ipARP_PROTOCOL_TYPE \<and> ipLOCAL_IP_ADDRESS np \<noteq> 0 \<and>
         (usOperation h = ipARP_REQUEST \<and> ulTargetProtocolAddress h = ipLOCAL_IP_ADDRESS np \<or>
          usOperation h = ipARP_REPLY)
      then Some (xSenderHardwareAddress h, ulSenderProtocolAddress h) else None)"

lemma process_state:
  "snd (snd (eARPProcessPacket np frame st)) =
     (case packet_teaches np frame of
        None \<Rightarrow> st
      | Some (m, ip) \<Rightarrow> vARPRefreshCacheEntry np (Some m) ip st)"
  by (simp add: eARPProcessPacket_def packet_teaches_def Let_def ipARP_REQUEST_def ipARP_REPLY_def)

section \<open>Runs of the cache\<close>

text \<open>What happens to the cache: \<open>Seen\<close> is an IP packet whose sender is taken over, \<open>Ask\<close> the
  reservation of a row for an outstanding request, \<open>Tick\<close> the ARP timer.\<close>

datatype arp_event =
    Packet ARPPacket_t | Seen mac u32 | Ask u32 | Tick u32 | Forget mac | Clear | Announce

inductive arp_step :: "net_params \<Rightarrow> arp_state \<Rightarrow> arp_event \<Rightarrow> arp_state \<Rightarrow> bool" where
  packet: "eARPProcessPacket np frame st = (res, frame', st') \<Longrightarrow> arp_step np st (Packet frame) st'"
| seen: "arp_step np st (Seen m ip) (vARPRefreshCacheEntry np (Some m) ip st)"
| ask: "arp_step np st (Ask ip) (vARPRefreshCacheEntry np None ip st)"
| tick: "vARPAgeCache np t st = (st', reqs) \<Longrightarrow> arp_step np st (Tick t) st'"
| forget: "ulARPRemoveCacheEntryByMac m st = (ip, st') \<Longrightarrow> arp_step np st (Forget m) st'"
| clear: "arp_step np st Clear (FreeRTOS_ClearARP st)"
| announce: "arp_step np st Announce (fst (vARPSendGratuitous st))"

inductive_cases arp_stepE:
  "arp_step np st (Packet frame) st'" "arp_step np st (Seen m ip) st'" "arp_step np st (Ask ip) st'"
  "arp_step np st (Tick t) st'" "arp_step np st (Forget m) st'" "arp_step np st Clear st'"
  "arp_step np st Announce st'"

definition arp_init :: arp_state where
  "arp_init = \<lparr>xARPCache = replicate ipconfigARP_CACHE_ENTRIES empty_row, xLastGratuitousARPTime = 0\<rparr>"

text \<open>The events of a run, the latest first.\<close>

inductive arp_run :: "net_params \<Rightarrow> arp_event list \<Rightarrow> arp_state \<Rightarrow> bool" for np where
  start: "arp_run np [] arp_init"
| step: "arp_run np evs st \<Longrightarrow> arp_step np st ev st' \<Longrightarrow> arp_run np (ev # evs) st'"

text \<open>The MAC address last taught for an address.\<close>

definition teaches :: "net_params \<Rightarrow> arp_event \<Rightarrow> u32 \<Rightarrow> mac option" where
  "teaches np ev ip =
     (if accepts np ip then
        (case ev of
           Packet frame \<Rightarrow>
             (case packet_teaches np frame of
                Some (m, a) \<Rightarrow> if a = ip then Some m else None
              | None \<Rightarrow> None)
         | Seen m a \<Rightarrow> if a = ip then Some m else None
         | _ \<Rightarrow> None)
      else None)"

primrec taught :: "net_params \<Rightarrow> arp_event list \<Rightarrow> u32 \<Rightarrow> mac option" where
  "taught np [] ip = None"
| "taught np (ev # evs) ip = (case teaches np ev ip of Some m \<Rightarrow> Some m | None \<Rightarrow> taught np evs ip)"

lemma refresh_lookup_teach:
  assumes "arp_wf st" "ip \<noteq> 0"
    "prvCacheLookup (vARPRefreshCacheEntry np (Some m) a st) ip = (eARPCacheHit, Some m')"
  shows "(if accepts np ip \<and> a = ip then m' = m else prvCacheLookup st ip = (eARPCacheHit, Some m'))"
proof (cases "a = ip")
  case True
  then show ?thesis using refresh_lookup_same [OF assms(1), of np ip "Some m"] assms
    by (auto simp: refresh_ignored)
next
  case False
  then show ?thesis using refresh_lookup_other [OF assms(1,2), of a np "Some m"] assms(3) by auto
qed

lemma arp_step_wf:
  assumes "arp_step np st ev st'" "arp_wf st" shows "arp_wf st'"
  using assms
proof cases
  case (packet frame res frame')
  then have "st' = snd (snd (eARPProcessPacket np frame st))" by simp
  then show ?thesis using assms(2) by (auto simp: process_state intro: ok_intros split: option.split)
next
  case (tick t reqs)
  then show ?thesis using age_wf [OF assms(2), of np t] by simp
next
  case (forget m ip)
  then show ?thesis using remove_wf [OF assms(2), of m] by simp
qed (use assms(2) in \<open>auto intro: ok_intros\<close>)

lemma arp_step_hit:
  assumes s: "arp_step np st ev st'" and wf: "arp_wf st" and ip: "ip \<noteq> 0"
    and hit: "prvCacheLookup st' ip = (eARPCacheHit, Some m)"
  shows "case teaches np ev ip of Some m' \<Rightarrow> m' = m | None \<Rightarrow> prvCacheLookup st ip = (eARPCacheHit, Some m)"
  using s
proof cases
  case (packet frame res frame')
  then have st': "st' = snd (snd (eARPProcessPacket np frame st))" by simp
  show ?thesis
  proof (cases "packet_teaches np frame")
    case None
    then have "st' = st" using st' by (simp add: process_state)
    then show ?thesis using hit packet(1) None by (simp add: teaches_def)
  next
    case (Some p)
    obtain m1 a where p: "p = (m1, a)" by (cases p)
    then have "st' = vARPRefreshCacheEntry np (Some m1) a st" using Some st' by (simp add: process_state)
    then show ?thesis using refresh_lookup_teach [OF wf ip, of np m1 a m] hit packet(1) Some p
      by (auto simp: teaches_def split: if_splits)
  qed
next
  case (seen m1 a)
  then show ?thesis using refresh_lookup_teach [OF wf ip, of np m1 a m] hit
    by (auto simp: teaches_def split: if_splits)
next
  case (ask a)
  have "prvCacheLookup st ip = (eARPCacheHit, Some m)"
  proof (cases "a = ip \<and> accepts np ip")
    case True
    then show ?thesis using refresh_lookup_same [OF wf _ ip, of np None] hit ask by (auto split: if_splits)
  next
    case False
    then show ?thesis
      using refresh_lookup_other [OF wf ip, of a np None] hit ask by (cases "a = ip") (auto simp: refresh_ignored)
  qed
  then show ?thesis using ask by (simp add: teaches_def)
next
  case (tick t reqs)
  then show ?thesis using age_lookup [OF wf ip, of np t] hit by (auto simp: teaches_def)
next
  case (forget m1 a)
  then show ?thesis using remove_lookup [OF wf ip, of m1] hit by (auto simp: teaches_def)
next
  case clear
  then show ?thesis using clear_lookup [OF ip, of st] hit by simp
next
  case announce
  then show ?thesis using hit by (simp add: teaches_def)
qed

lemma arp_init_wf: "arp_wf arp_init"
  by (simp add: arp_wf_def arp_init_def unique_ips_def empty_row_def row_ok_def)

lemma arp_init_lookup: "ip \<noteq> 0 \<Longrightarrow> prvCacheLookup arp_init ip = (eARPCacheMiss, None)"
  unfolding prvCacheLookup_def by (rule lookup_miss) (simp add: arp_init_def empty_row_def)

lemma arp_run_wf: "arp_run np evs st \<Longrightarrow> arp_wf st"
  by (induction rule: arp_run.induct) (auto intro: arp_init_wf arp_step_wf)

text \<open>
  Claim C26. In every state the cache can reach, a look-up that hits answers the MAC address
  most recently taught for that address, by an ARP request for this node, an ARP reply or an
  IP packet: ageing, reservations, evictions, removals and everything learnt for other
  addresses may lose an entry but never turn it into another one.
\<close>

theorem arp_never_stale:
  assumes "arp_run np evs st" and "ip \<noteq> 0"
    and "prvCacheLookup st ip = (eARPCacheHit, Some m)"
  shows "taught np evs ip = Some m \<and> arp_wf st"
  using assms(1,3)
proof (induction rule: arp_run.induct)
  case start
  then show ?case using arp_init_lookup [OF assms(2)] by simp
next
  case (step evs st ev st')
  from arp_step_hit [OF step.hyps(2) arp_run_wf [OF step.hyps(1)] assms(2) step.prems] step.IH
    arp_step_wf [OF step.hyps(2) arp_run_wf [OF step.hyps(1)]] arp_run_wf [OF step.hyps(1)]
  show ?case by (auto split: option.splits)
qed

text \<open>A node 192.168.0.1 with netmask 255.255.255.0 and gateway 192.168.0.254.\<close>

definition demo_net :: net_params where
  "demo_net = \<lparr>ipLOCAL_IP_ADDRESS = 0x0100A8C0, ipLOCAL_MAC_ADDRESS = [2, 0, 0, 0, 0, 1], ulNetMask = 0x00FFFFFF,
     ulGatewayAddress = 0xFE00A8C0, ulDNSServerAddress = 0, ulBroadcastAddress = 0xFF00A8C0\<rparr>"

definition demo_taught :: arp_state where
  "demo_taught = vARPRefreshCacheEntry demo_net (Some [2, 0, 0, 0, 0, 9]) 0x0900A8C0 arp_init"

lemma demo_run: "arp_run demo_net [Tick 7, Seen [2, 0, 0, 0, 0, 9] 0x0900A8C0] (fst (vARPAgeCache demo_net 7 demo_taught))"
  unfolding demo_taught_def
  by (rule arp_run.step [OF arp_run.step [OF arp_run.start arp_step.seen] arp_step.tick]) (rule prod.collapse [symmetric])

theorem arp_never_stale_witness:
  "taught demo_net [Tick 7, Seen [2, 0, 0, 0, 0, 9] 0x0900A8C0] 0x0900A8C0 = Some [2, 0, 0, 0, 0, 9] \<and>
   arp_wf (fst (vARPAgeCache demo_net 7 demo_taught))"
proof (rule arp_never_stale [OF demo_run])
  show "prvCacheLookup (fst (vARPAgeCache demo_net 7 demo_taught)) 0x0900A8C0 = (eARPCacheHit, Some [2, 0, 0, 0, 0, 9])"
    by code_simp
qed simp

section \<open>Ageing out\<close>

text \<open>The address is in a row with age \<open>a\<close>, flag \<open>v\<close> and MAC address \<open>m\<close>.\<close>

definition row_at :: "arp_state \<Rightarrow> u32 \<Rightarrow> nat \<Rightarrow> bool \<Rightarrow> mac \<Rightarrow> bool" where
  "row_at st ip a v m \<longleftrightarrow>
     (\<exists>r\<in>set (xARPCache st). ulIPAddress r = ip \<and> unat (ucAge r) = a \<and> ucValid r = v \<and> xMACAddress r = m)"

fun ticks :: "net_params \<Rightarrow> u32 list \<Rightarrow> arp_state \<Rightarrow> arp_state" where
  "ticks np [] st = st"
| "ticks np (t # ts) st = ticks np ts (fst (vARPAgeCache np t st))"

lemma row_at_lookup:
  assumes "arp_wf st" "ip \<noteq> 0" "row_at st ip a v m"
  shows "prvCacheLookup st ip = (if v then (eARPCacheHit, Some m) else (eCantSendPacket, None))"
proof -
  obtain k where "k < length (xARPCache st)" "ulIPAddress (xARPCache st ! k) = ip"
    "ucValid (xARPCache st ! k) = v" "xMACAddress (xARPCache st ! k) = m"
    using assms(3) by (auto simp: row_at_def in_set_conv_nth)
  then show ?thesis
    using lookup_found [of "xARPCache st" k ip] assms by (simp add: arp_wf_def prvCacheLookup_def hit_of_def)
qed

lemma row_at_unique:
  assumes "arp_wf st" "ip \<noteq> 0" "row_at st ip a v m" "r \<in> set (xARPCache st)" "ulIPAddress r = ip"
  shows "unat (ucAge r) = a \<and> ucValid r = v"
proof -
  obtain k j where "k < length (xARPCache st)" "xARPCache st ! k = r" "j < length (xARPCache st)"
    "ulIPAddress (xARPCache st ! j) = ip" "unat (ucAge (xARPCache st ! j)) = a" "ucValid (xARPCache st ! j) = v"
    using assms(3,4) by (auto simp: row_at_def in_set_conv_nth)
  then show ?thesis using unique_ipsD [of "xARPCache st" k j ip] assms by (auto simp: arp_wf_def)
qed

lemma row_at_age_pos:
  assumes "arp_wf st" "ip \<noteq> 0" "row_at st ip a v m" shows "a > 0"
  using assms by (auto simp: row_at_def arp_wf_def row_ok_def unat_gt_0)

lemma row_at_tick:
  assumes wf: "arp_wf st" and ip: "ip \<noteq> 0" and r: "row_at st ip (Suc a) v m"
  shows "if a = 0 then prvCacheLookup (fst (vARPAgeCache np t st)) ip = (eARPCacheMiss, None)
         else row_at (fst (vARPAgeCache np t st)) ip a v m"
proof (cases "a = 0")
  case True
  have "\<forall>r\<in>set (xARPCache (fst (vARPAgeCache np t st))). ulIPAddress r \<noteq> ip"
  proof
    fix s assume "s \<in> set (xARPCache (fst (vARPAgeCache np t st)))"
    then obtain r0 where r0: "r0 \<in> set (xARPCache st)" "s = fst (age_row r0)" by (auto simp: age_cache)
    have "ucAge r0 = 1" if "ulIPAddress r0 = ip"
      using row_at_unique [OF wf ip r r0(1) that] True by (simp add: word_unat_eq_iff)
    then show "ulIPAddress s \<noteq> ip" using r0(2) ip by (auto simp: age_row_ip)
  qed
  then show ?thesis using True by (simp add: prvCacheLookup_def lookup_miss)
next
  case False
  obtain r0 where r0: "r0 \<in> set (xARPCache st)" "ulIPAddress r0 = ip" "unat (ucAge r0) = Suc a"
    "ucValid r0 = v" "xMACAddress r0 = m" using r by (auto simp: row_at_def)
  have n0: "ucAge r0 \<noteq> 0" and n1: "ucAge r0 \<noteq> 1" using r0(3) False by auto
  then have "unat (ucAge r0 - 1) = a" using r0(3) by (simp add: unat_sub_le)
  then show ?thesis using r0 n0 n1 False
    by (auto simp: row_at_def age_cache age_row_ip intro!: bexI [of _ r0])
qed

lemma ticks_wf: "arp_wf st \<Longrightarrow> arp_wf (ticks np ts st)"
  by (induction ts arbitrary: st) (auto intro: ok_intros)

lemma ticks_miss:
  "arp_wf st \<Longrightarrow> ip \<noteq> 0 \<Longrightarrow> prvCacheLookup st ip = (eARPCacheMiss, None) \<Longrightarrow>
     prvCacheLookup (ticks np ts st) ip = (eARPCacheMiss, None)"
proof (induction ts arbitrary: st)
  case (Cons t ts)
  then show ?case using age_lookup [of st ip np t] age_wf [of st np t] by auto
qed simp

lemma ticks_row_at:
  "arp_wf st \<Longrightarrow> ip \<noteq> 0 \<Longrightarrow> row_at st ip a v m \<Longrightarrow>
     (if length ts < a then row_at (ticks np ts st) ip (a - length ts) v m
      else prvCacheLookup (ticks np ts st) ip = (eARPCacheMiss, None))"
proof (induction ts arbitrary: st a)
  case Nil
  then show ?case using row_at_age_pos by simp
next
  case (Cons t ts)
  then obtain b where b: "a = Suc b" using row_at_age_pos gr0_implies_Suc by blast
  note s = row_at_tick [OF Cons.prems(1,2), of b v m np t]
  show ?case
  proof (cases "b = 0")
    case True
    then show ?thesis using s Cons.prems b ticks_miss [OF age_wf [OF Cons.prems(1)] Cons.prems(2)] by simp
  next
    case False
    then show ?thesis using s Cons.prems b Cons.IH [OF age_wf [OF Cons.prems(1)] Cons.prems(2), of np t b] by simp
  qed
qed

text \<open>The requests an ageing sends.\<close>

lemma age_row_requests:
  "set (snd (age_row r)) =
     (if ucAge r \<noteq> 0 \<and> (\<not> ucValid r \<or> unat (ucAge r) \<le> 4) then {ulIPAddress r} else {})"
proof (cases "ucAge r = 0")
  case False
  then have "1 \<le> unat (ucAge r)" by (simp add: unat_gt_0 Suc_le_eq)
  then have "ucAge r - 1 \<le> arpMAX_ARP_AGE_BEFORE_NEW_ARP_REQUEST \<longleftrightarrow> unat (ucAge r) \<le> 4"
    by (auto simp: arpMAX_ARP_AGE_BEFORE_NEW_ARP_REQUEST_def word_le_nat_alt unat_sub_le)
  then show ?thesis using False by (simp add: age_row_def Let_def word_neq_0_conv [symmetric])
qed (simp add: age_row_def)

lemma age_requests:
  assumes wf: "arp_wf st" and ip: "ip \<noteq> 0" "ip \<noteq> ipLOCAL_IP_ADDRESS np"
  shows "ip \<in> set (snd (vARPAgeCache np t st)) \<longleftrightarrow> (\<exists>a v m. row_at st ip a v m \<and> (\<not> v \<or> a \<le> 4))"
proof -
  have "ip \<in> set (snd (vARPAgeCache np t st)) \<longleftrightarrow> (\<exists>r\<in>set (xARPCache st). ip \<in> set (snd (age_row r)))"
    using ip by (simp add: vARPAgeCache_def Let_def)
  also have "\<dots> \<longleftrightarrow> (\<exists>a v m. row_at st ip a v m \<and> (\<not> v \<or> a \<le> 4))"
    using wf ip by (auto simp: age_row_requests row_at_def arp_wf_def row_ok_def)
  finally show ?thesis .
qed

lemma learnt_row_at:
  assumes wf: "arp_wf st" and acc: "accepts np ip"
  shows "row_at (vARPRefreshCacheEntry np (Some m) ip st) ip 150 True m"
    and "fst (prvCacheLookup st ip) = eARPCacheMiss \<Longrightarrow>
           \<exists>m'. row_at (vARPRefreshCacheEntry np None ip st) ip 5 False m'"
proof -
  have found: "\<exists>r\<in>set (xARPCache (vARPRefreshCacheEntry np pm ip st)).
      \<exists>k<length (xARPCache st). learnt_row pm ip (xARPCache st) k r" for pm
    by (rule refresh_effect [OF acc wf, of pm])
      (metis ARPCacheRow_t.cases arp_state.select_convs(1) arp_state.surjective arp_state.update_convs(1)
        length_list_update nth_list_update_eq nth_mem)
  show "row_at (vARPRefreshCacheEntry np (Some m) ip st) ip 150 True m"
    using found [of "Some m"] by (auto simp: row_at_def learnt_row_def ipconfigMAX_ARP_AGE_def)
  assume "fst (prvCacheLookup st ip) = eARPCacheMiss"
  then have "\<forall>r\<in>set (xARPCache st). ulIPAddress r \<noteq> ip" by (simp add: prvCacheLookup_def lookup_miss_iff)
  then show "\<exists>m'. row_at (vARPRefreshCacheEntry np None ip st) ip 5 False m'"
    using found [of None]
    by (fastforce simp: row_at_def learnt_row_def ipconfigMAX_ARP_RETRANSMISSIONS_def)
qed

lemma row_at_unique_age:
  "arp_wf st \<Longrightarrow> ip \<noteq> 0 \<Longrightarrow> row_at st ip a v m \<Longrightarrow> row_at st ip a' v' m' \<Longrightarrow> a' = a \<and> v' = v"
  using row_at_unique [of st ip a v m] unfolding row_at_def [of st ip a' v' m'] by blast

text \<open>A row of age \<open>a\<close> over \<open>length ts\<close> timer runs.\<close>

lemma row_at_life:
  assumes wf: "arp_wf st" and ip: "ip \<noteq> 0" "ip \<noteq> ipLOCAL_IP_ADDRESS np" and r: "row_at st ip a v m"
  shows "prvCacheLookup (ticks np ts st) ip =
           (if length ts < a then if v then (eARPCacheHit, Some m) else (eCantSendPacket, None)
            else (eARPCacheMiss, None)) \<and>
         (ip \<in> set (snd (vARPAgeCache np t (ticks np ts st))) \<longleftrightarrow>
            length ts < a \<and> (\<not> v \<or> a \<le> length ts + 4))"
proof (cases "length ts < a")
  case True
  then have r': "row_at (ticks np ts st) ip (a - length ts) v m" using ticks_row_at [OF wf ip(1) r, of ts np] by simp
  have "(\<exists>a' v' m'. row_at (ticks np ts st) ip a' v' m' \<and> (\<not> v' \<or> a' \<le> 4)) \<longleftrightarrow> \<not> v \<or> a - length ts \<le> 4"
    using r' row_at_unique_age [OF ticks_wf [OF wf] ip(1) r'] by metis
  then show ?thesis
    using True row_at_lookup [OF ticks_wf [OF wf] ip(1) r'] age_requests [OF ticks_wf [OF wf] ip, where t = t] by auto
next
  case False
  then have miss: "prvCacheLookup (ticks np ts st) ip = (eARPCacheMiss, None)"
    using ticks_row_at [OF wf ip(1) r, of ts np] by simp
  then have "\<not> row_at (ticks np ts st) ip a' v' m'" for a' v' m'
    using row_at_lookup [OF ticks_wf [OF wf] ip(1), of np ts a' v' m'] by (auto split: if_splits)
  then show ?thesis using False miss age_requests [OF ticks_wf [OF wf] ip, where t = t] by simp
qed

text \<open>
  Claim C27. An address learnt and not heard of again answers for 149 runs of the ARP timer, is asked
  for again in the last four runs, and is forgotten at the 150th.  An address reserved for an
  outstanding request blocks its senders, is requested at every run, and is given up at the fifth.
\<close>

theorem arp_expiry:
  assumes "arp_wf st" and "accepts np ip" and "ip \<noteq> 0" "ip \<noteq> ipLOCAL_IP_ADDRESS np"
    and "fst (prvCacheLookup st ip) = eARPCacheMiss"
  shows "prvCacheLookup (ticks np ts (vARPRefreshCacheEntry np (Some m) ip st)) ip =
           (if length ts < 150 then (eARPCacheHit, Some m) else (eARPCacheMiss, None)) \<and>
         (ip \<in> set (snd (vARPAgeCache np t (ticks np ts (vARPRefreshCacheEntry np (Some m) ip st)))) \<longleftrightarrow>
           length ts \<in> {146..<150}) \<and>
         prvCacheLookup (ticks np ts (vARPRefreshCacheEntry np None ip st)) ip =
           (if length ts < 5 then (eCantSendPacket, None) else (eARPCacheMiss, None)) \<and>
         (ip \<in> set (snd (vARPAgeCache np t (ticks np ts (vARPRefreshCacheEntry np None ip st)))) \<longleftrightarrow>
           length ts < 5)"
proof -
  note wf = refresh_wf [OF assms(1), of np _ ip]
  obtain m' where "row_at (vARPRefreshCacheEntry np None ip st) ip 5 False m'"
    using learnt_row_at(2) [OF assms(1,2,5)] by blast
  from row_at_life [OF wf assms(3,4) this, of ts t] row_at_life [OF wf assms(3,4) learnt_row_at(1) [OF assms(1,2)], of ts m t]
  show ?thesis by auto
qed

theorem arp_expiry_witness:
  "prvCacheLookup (ticks demo_net (replicate 150 0) demo_taught) 0x0900A8C0 = (eARPCacheMiss, None)"
  using arp_expiry [of arp_init demo_net "0x0900A8C0" "replicate 150 0" "[2, 0, 0, 0, 0, 9]" 0]
    arp_init_wf arp_init_lookup [of "0x0900A8C0"]
  by (simp add: demo_taught_def accepts_def same_net_def demo_net_def)

section \<open>Eviction, replies and routing\<close>

text \<open>
  An address and a MAC address the cache has neither of take over a row with the
  least remaining age; every other row is untouched.
\<close>

theorem arp_evicts_oldest:
  assumes "arp_wf st" and "accepts np ip"
    and "ip \<notin> ulIPAddress ` set (xARPCache st)" and "m \<notin> xMACAddress ` set (xARPCache st)"
  shows "\<exists>k<length (xARPCache st).
           (\<forall>r\<in>set (xARPCache st). ucAge (xARPCache st ! k) \<le> ucAge r) \<and>
           xARPCache (vARPRefreshCacheEntry np (Some m) ip st) =
             (xARPCache st)[k := \<lparr>ulIPAddress = ip, xMACAddress = m, ucAge = 150, ucValid = True\<rparr>]"
proof -
  let ?rows = "xARPCache st"
  have go: "ip AND ulNetMask np = ipLOCAL_IP_ADDRESS np AND ulNetMask np \<or> ipLOCAL_IP_ADDRESS np = 0"
    using assms(2) by (simp add: accepts_def same_net_def)
  have new: "ulIPAddress (?rows ! i) \<noteq> ip" "xMACAddress (?rows ! i) \<noteq> m" if "i < length ?rows" for i
    using assms(3,4) that nth_mem by blast+
  obtain w where w: "refresh_scan (Some m) ip ?rows 0 None None 0 (0 - 1) = Inr (None, None, w)"
  proof (cases "refresh_scan (Some m) ip ?rows 0 None None 0 (0 - 1)")
    case (Inl x)
    then show ?thesis using scan_Inl [OF Inl] new by auto
  next
    case (Inr z)
    then obtain ie me w where z: "refresh_scan (Some m) ip ?rows 0 None None 0 (0 - 1) = Inr (ie, me, w)"
      by (cases z) auto
    then show ?thesis using scan_Inr [OF z] new that by auto
  qed
  have some: "?rows ! 0 \<in> set ?rows" "unat (ucAge (?rows ! 0)) \<le> 150"
    using assms(1) nth_mem [of 0 ?rows]
    by (auto simp: arp_wf_def ipconfigARP_CACHE_ENTRIES_def row_ok_def ipconfigMAX_ARP_AGE_def word_le_nat_alt)
  have "\<not> (0 - 1 \<le> ucAge (?rows ! 0))"
  proof -
    have "(0 - 1 :: u8) = 255" by simp
    then show ?thesis using some(2) by (simp only: word_le_nat_alt) simp
  qed
  then obtain k where k: "k < length ?rows" "w = k" "\<forall>r\<in>set ?rows. ucAge (?rows ! k) \<le> ucAge r"
    using scan_use_min [OF w] some(1) by auto
  then show ?thesis
    using w go
    by (intro exI [of _ k], cases "?rows ! k") (simp add: vARPRefreshCacheEntry_def ipconfigMAX_ARP_AGE_def)
qed

definition demo_full :: arp_state where
  "demo_full = arp_init\<lparr>xARPCache := map (\<lambda>i. \<lparr>ulIPAddress = 0x0000A8C0 + push_bit 24 i,
     xMACAddress = [2, 0, 0, 0, 1, ucast i], ucAge = 100 - ucast i, ucValid = True\<rparr>) [10, 11, 12, 15, 14, 13]\<rparr>"

lemma demo_full_cache: "xARPCache demo_full =
   [\<lparr>ulIPAddress = 0x0A00A8C0, xMACAddress = [2, 0, 0, 0, 1, 10], ucAge = 90, ucValid = True\<rparr>,
    \<lparr>ulIPAddress = 0x0B00A8C0, xMACAddress = [2, 0, 0, 0, 1, 11], ucAge = 89, ucValid = True\<rparr>,
    \<lparr>ulIPAddress = 0x0C00A8C0, xMACAddress = [2, 0, 0, 0, 1, 12], ucAge = 88, ucValid = True\<rparr>,
    \<lparr>ulIPAddress = 0x0F00A8C0, xMACAddress = [2, 0, 0, 0, 1, 15], ucAge = 85, ucValid = True\<rparr>,
    \<lparr>ulIPAddress = 0x0E00A8C0, xMACAddress = [2, 0, 0, 0, 1, 14], ucAge = 86, ucValid = True\<rparr>,
    \<lparr>ulIPAddress = 0x0D00A8C0, xMACAddress = [2, 0, 0, 0, 1, 13], ucAge = 87, ucValid = True\<rparr>]"
  by code_simp

lemma unique_ipsI: "distinct (map ulIPAddress rows) \<Longrightarrow> unique_ips rows"
  unfolding unique_ips_def by (metis distinct_conv_nth length_map nth_map)

lemma demo_full_wf: "arp_wf demo_full"
  using unique_ipsI [of "xARPCache demo_full"]
  by (simp add: arp_wf_def demo_full_cache ipconfigARP_CACHE_ENTRIES_def row_ok_def ipconfigMAX_ARP_AGE_def)

theorem arp_evicts_oldest_witness:
  "\<exists>k<length (xARPCache demo_full). (\<forall>r\<in>set (xARPCache demo_full). ucAge (xARPCache demo_full ! k) \<le> ucAge r) \<and>
     xARPCache (vARPRefreshCacheEntry demo_net (Some [2, 0, 0, 0, 0, 9]) 0x0900A8C0 demo_full) =
       (xARPCache demo_full)[k := \<lparr>ulIPAddress = 0x0900A8C0, xMACAddress = [2, 0, 0, 0, 0, 9], ucAge = 150, ucValid = True\<rparr>]"
  by (rule arp_evicts_oldest [OF demo_full_wf])
    (simp_all add: demo_full_cache accepts_def same_net_def demo_net_def)

text \<open>
  Claim C28. Who asks for this node's address is answered in the same buffer by a well-formed
  reply that names the asker as target and this node as sender, and can be reached afterwards;
  any other frame is released, and the only frames that touch the cache are those and replies.
\<close>

theorem arp_reply_correct:
  assumes "arp_wf st" and "ipLOCAL_IP_ADDRESS np \<noteq> 0"
    and "eARPProcessPacket np frame st = (res, frame', st')"
  shows "(res = eReturnEthernetFrame \<longleftrightarrow>
            usProtocolType (xARPHeader frame) = ipARP_PROTOCOL_TYPE \<and> usOperation (xARPHeader frame) = ipARP_REQUEST \<and>
            ulTargetProtocolAddress (xARPHeader frame) = ipLOCAL_IP_ADDRESS np) \<and>
         (res \<noteq> eReturnEthernetFrame \<longrightarrow> res = eReleaseBuffer \<and> frame' = frame \<and>
            (usOperation (xARPHeader frame) \<noteq> ipARP_REPLY \<longrightarrow> st' = st)) \<and>
         (res = eReturnEthernetFrame \<and> ulSenderProtocolAddress (xARPHeader frame) \<noteq> ipLOCAL_IP_ADDRESS np \<longrightarrow>
            frame' = \<lparr>xEthernetHeader = xEthernetHeader frame,
                      xARPHeader = (xARPHeader frame)
                        \<lparr>usOperation := ipARP_REPLY,
                         xTargetHardwareAddress := xSenderHardwareAddress (xARPHeader frame),
                         ulTargetProtocolAddress := ulSenderProtocolAddress (xARPHeader frame),
                         xSenderHardwareAddress := ipLOCAL_MAC_ADDRESS np,
                         ulSenderProtocolAddress := ipLOCAL_IP_ADDRESS np\<rparr>\<rparr> \<and>
            (same_net np (ulSenderProtocolAddress (xARPHeader frame)) \<and> ulSenderProtocolAddress (xARPHeader frame) \<noteq> 0 \<longrightarrow>
               prvCacheLookup st' (ulSenderProtocolAddress (xARPHeader frame)) =
                 (eARPCacheHit, Some (xSenderHardwareAddress (xARPHeader frame)))))"
proof -
  have l: "same_net np ip \<and> ip \<noteq> 0 \<longrightarrow> prvCacheLookup (vARPRefreshCacheEntry np (Some m) ip st) ip = (eARPCacheHit, Some m)" for m ip
    using refresh_lookup_same [OF assms(1), of np ip "Some m"] by (simp add: accepts_def)
  show ?thesis
    using assms(2,3) l [of "ulSenderProtocolAddress (xARPHeader frame)" "xSenderHardwareAddress (xARPHeader frame)"]
    by (simp add: eARPProcessPacket_def Let_def ipARP_REQUEST_def ipARP_REPLY_def split: if_splits)
qed

definition demo_request :: ARPPacket_t where
  "demo_request = vARPGenerateRequestPacket (demo_net\<lparr>ipLOCAL_IP_ADDRESS := 0x0900A8C0, ipLOCAL_MAC_ADDRESS := [2, 0, 0, 0, 0, 9]\<rparr>) 0x0100A8C0"

theorem arp_reply_correct_witness:
  "fst (eARPProcessPacket demo_net demo_request arp_init) = eReturnEthernetFrame \<and>
   prvCacheLookup (snd (snd (eARPProcessPacket demo_net demo_request arp_init))) 0x0900A8C0 = (eARPCacheHit, Some [2, 0, 0, 0, 0, 9])"
proof -
  obtain res frame' st' where e: "eARPProcessPacket demo_net demo_request arp_init = (res, frame', st')"
    by (cases "eARPProcessPacket demo_net demo_request arp_init") auto
  show ?thesis
    using arp_reply_correct [OF arp_init_wf _ e] unfolding e
    by (simp add: demo_net_def demo_request_def vARPGenerateRequestPacket_def ipARP_PROTOCOL_TYPE_def
        ipARP_REQUEST_def same_net_def)
qed

text \<open>
  Once the gateway's MAC address is learnt, every address outside the local network
  resolves to it; an address on the local network never does, it resolves as it did before or,
  if its row had to make room, is missed and asked for by its own address.
\<close>

theorem arp_route:
  assumes "arp_wf st" and "same_net np (ulGatewayAddress np)" "ulGatewayAddress np \<noteq> 0" "ipLOCAL_IP_ADDRESS np \<noteq> 0"
    and "ip \<notin> {ipLLMNR_IP_ADDR, ipBROADCAST_IP_ADDRESS, ulBroadcastAddress np, ulGatewayAddress np, 0}"
  shows "let learnt = vARPRefreshCacheEntry np (Some m) (ulGatewayAddress np) st in
           (if \<not> same_net np ip then eARPGetCacheEntry np learnt ip = (eARPCacheHit, ip, Some m)
            else eARPGetCacheEntry np learnt ip \<in> {eARPGetCacheEntry np st ip, (eARPCacheMiss, ip, None)})"
proof (cases "same_net np ip")
  case False
  then show ?thesis
    using assms refresh_lookup_same [OF assms(1) _ assms(3), of np "Some m"]
    by (simp add: eARPGetCacheEntry_def Let_def accepts_def same_net_def)
next
  case True
  have "prvCacheLookup (vARPRefreshCacheEntry np (Some m) (ulGatewayAddress np) st) ip \<in>
      {prvCacheLookup st ip, (eARPCacheMiss, None)}"
    using refresh_lookup_other [OF assms(1), of ip "ulGatewayAddress np"] assms(5) by simp
  moreover have "eARPGetCacheEntry np s ip =
      (let (res, m') = prvCacheLookup s ip in (res, ip, m'))" for s
    using assms True by (simp add: eARPGetCacheEntry_def Let_def same_net_def)
  ultimately show ?thesis using True by (auto simp: Let_def split: prod.splits)
qed

theorem arp_route_witness:
  "eARPGetCacheEntry demo_net (vARPRefreshCacheEntry demo_net (Some [2, 0, 0, 0, 0, 9]) 0xFE00A8C0 arp_init) 0x08080808 =
     (eARPCacheHit, 0x08080808, Some [2, 0, 0, 0, 0, 9])"
  using arp_route [OF arp_init_wf, of demo_net "0x08080808" "[2, 0, 0, 0, 0, 9]"]
  by (simp add: demo_net_def same_net_def ipLLMNR_IP_ADDR_def ipBROADCAST_IP_ADDRESS_def)

end
