(* ===== verification/Tcp_Win.thy ===== *)
theory Tcp_Win
  imports Prelude Checksum Stream_Buffer "HOL-Library.Signed_Division" "HOL-Library.Multiset"
begin

text \<open>
  The sliding windows of \<open>FreeRTOS_TCP_WIN.c\<close> (\<open>ipconfigUSE_TCP_WIN = 1\<close>): the pool of segment
  descriptors shared by all connections, reassembly on reception, and queueing, transmission,
  acknowledgement and retransmission on the sending side.

  A descriptor is its index in \<open>xTCPSegments\<close>.  The kernel lists are represented by their
  contents, the value \<open>items_of\<close> of the theory \<open>Rtos_List\<close>, where \<open>vListInsertFifo\<close> is shown to
  append and \<open>uxListRemove\<close> to delete; a descriptor's \<open>xListItem\<close> is in the pool or in
  \<open>xTxSegments\<close>/\<open>xRxSegments\<close>, its \<open>xQueueItem\<close> in one of the three transmit queues.
  A signed 32-bit field is an \<open>int\<close>; casts between the two are \<open>sint\<close> and \<open>word_of_int\<close>.
  \<open>now\<close> is the tick count, one tick per millisecond.
\<close>

section \<open>Data\<close>

record TCPSegment_t =
  ulSequenceNumber :: u32
  lMaxLength :: int
  lDataLength :: int
  lStreamPos :: int
  ulBorn :: u32
  ucTransmitCount :: u8
  ucDupAckCount :: u8
  bOutstanding :: bool
  bAcked :: bool
  bIsForRx :: bool

record win_side =
  ulFirstSequenceNumber :: u32
  ulCurrentSequenceNumber :: u32
  ulFINSequenceNumber :: u32
  ulHighestSequenceNumber :: u32

record TCPWindow_t =
  bHasInit :: bool
  bSendFullSize :: bool
  bTimeStamps :: bool
  ulRxWindowLength :: u32
  ulTxWindowLength :: u32
  rx :: win_side
  tx :: win_side
  ulOurSequenceNumber :: u32
  ulUserDataLength :: u32
  ulNextTxSequenceNumber :: u32
  lSRTT :: int
  ucOptionLength :: u8
  lists_initialised :: bool
  xPriorityQueue :: "nat list"
  xTxQueue :: "nat list"
  xWaitQueue :: "nat list"
  pxHeadSegment :: "nat option"
  ulOptionsData :: "u32 list"
  xTxSegments :: "nat list"
  xRxSegments :: "nat list"
  usMSS :: u16
  usMSSInit :: u16

text \<open>\<open>seg_array\<close> is \<open>xTCPSegments\<close>, allocated or not.\<close>

record seg_pool =
  seg_allocated :: bool
  seg_array :: "nat \<Rightarrow> TCPSegment_t"
  xSegmentList :: "nat list"

definition ipconfigTCP_WIN_SEG_COUNT :: nat where "ipconfigTCP_WIN_SEG_COUNT = 64"
definition winSRTT_INCREMENT_NEW :: int where "winSRTT_INCREMENT_NEW = 2"
definition winSRTT_INCREMENT_CURRENT :: int where "winSRTT_INCREMENT_CURRENT = 6"
definition winSRTT_DECREMENT_NEW :: int where "winSRTT_DECREMENT_NEW = 1"
definition winSRTT_DECREMENT_CURRENT :: int where "winSRTT_DECREMENT_CURRENT = 7"
definition winSRTT_CAP_mS :: int where "winSRTT_CAP_mS = 50"
definition DUPLICATE_ACKS_BEFORE_FAST_RETRANSMIT :: u8 where "DUPLICATE_ACKS_BEFORE_FAST_RETRANSMIT = 3"
definition MAX_TRANSMIT_COUNT_USING_LARGE_WINDOW :: u8 where "MAX_TRANSMIT_COUNT_USING_LARGE_WINDOW = 4"
definition OPTION_CODE_SINGLE_SACK :: u32 where "OPTION_CODE_SINGLE_SACK = 0x0a050101"

definition FreeRTOS_min_int32 :: "int \<Rightarrow> int \<Rightarrow> int" where
  "FreeRTOS_min_int32 a b = (if a \<le> b then a else b)"

section \<open>Sequence numbers and timers\<close>

definition xSequenceLessThanOrEqual :: "u32 \<Rightarrow> u32 \<Rightarrow> bool" where
  "xSequenceLessThanOrEqual a b \<longleftrightarrow> (b - a) AND 0x80000000 = 0"

definition xSequenceLessThan :: "u32 \<Rightarrow> u32 \<Rightarrow> bool" where
  "xSequenceLessThan a b \<longleftrightarrow> (b - a - 1) AND 0x80000000 = 0"

definition xSequenceGreaterThan :: "u32 \<Rightarrow> u32 \<Rightarrow> bool" where
  "xSequenceGreaterThan a b \<longleftrightarrow> (a - b - 1) AND 0x80000000 = 0"

definition xSequenceGreaterThanOrEqual :: "u32 \<Rightarrow> u32 \<Rightarrow> bool" where
  "xSequenceGreaterThanOrEqual a b \<longleftrightarrow> (a - b) AND 0x80000000 = 0"

abbreviation seg :: "seg_pool \<Rightarrow> nat \<Rightarrow> TCPSegment_t" where
  "seg g i \<equiv> seg_array g i"

definition upd_seg :: "nat \<Rightarrow> (TCPSegment_t \<Rightarrow> TCPSegment_t) \<Rightarrow> seg_pool \<Rightarrow> seg_pool" where
  "upd_seg i f g = g\<lparr>seg_array := (seg_array g)(i := f (seg_array g i))\<rparr>"

definition vTCPTimerSet :: "u32 \<Rightarrow> TCPSegment_t \<Rightarrow> TCPSegment_t" where
  "vTCPTimerSet now s = s\<lparr>ulBorn := now\<rparr>"

definition ulTimerGetAge :: "u32 \<Rightarrow> TCPSegment_t \<Rightarrow> u32" where
  "ulTimerGetAge now s = (now - ulBorn s) * 1"

section \<open>The pool\<close>

definition null_segment :: TCPSegment_t where
  "null_segment = \<lparr>ulSequenceNumber = 0, lMaxLength = 0, lDataLength = 0, lStreamPos = 0, ulBorn = 0,
     ucTransmitCount = 0, ucDupAckCount = 0, bOutstanding = False, bAcked = False, bIsForRx = False\<rparr>"

text \<open>\<open>malloc_ok\<close>: whether \<open>pvPortMallocLarge\<close> found room for the array.\<close>

definition prvCreateSectors :: "bool \<Rightarrow> seg_pool \<Rightarrow> bool \<times> seg_pool" where
  "prvCreateSectors malloc_ok g =
     (if malloc_ok
      then (True, \<lparr>seg_allocated = True, seg_array = (\<lambda>_. null_segment),
                   xSegmentList = [0..<ipconfigTCP_WIN_SEG_COUNT]\<rparr>)
      else (False, g\<lparr>xSegmentList := []\<rparr>))"

definition xTCPWindowRxFind :: "seg_pool \<Rightarrow> TCPWindow_t \<Rightarrow> u32 \<Rightarrow> nat option" where
  "xTCPWindowRxFind g w n = find (\<lambda>i. ulSequenceNumber (seg g i) = n) (xRxSegments w)"

definition xTCPWindowNew ::
  "u32 \<Rightarrow> u32 \<Rightarrow> int \<Rightarrow> bool \<Rightarrow> seg_pool \<Rightarrow> TCPWindow_t \<Rightarrow> nat option \<times> seg_pool \<times> TCPWindow_t" where
  "xTCPWindowNew now n lCount xIsForRx g w =
     (case xSegmentList g of
        [] \<Rightarrow> (None, g, w)
      | i # rest \<Rightarrow>
          (Some i,
           upd_seg i (\<lambda>s. (vTCPTimerSet now s)\<lparr>ucTransmitCount := 0, ucDupAckCount := 0, bOutstanding := False,
               bAcked := False, bIsForRx := xIsForRx, lMaxLength := lCount, lDataLength := lCount,
               ulSequenceNumber := n\<rparr>) (g\<lparr>xSegmentList := rest\<rparr>),
           if xIsForRx then w\<lparr>xRxSegments := xRxSegments w @ [i]\<rparr>
           else w\<lparr>xTxSegments := xTxSegments w @ [i]\<rparr>))"

definition xTCPWindowRxEmpty :: "TCPWindow_t \<Rightarrow> bool" where
  "xTCPWindowRxEmpty w =
     (if xRxSegments w \<noteq> [] then False
      else if xSequenceGreaterThanOrEqual (ulCurrentSequenceNumber (rx w)) (ulHighestSequenceNumber (rx w))
      then True else False)"

text \<open>The head of a queue, detached, and the queue that is left.\<close>

definition xTCPWindowGetHead :: "nat list \<Rightarrow> nat option \<times> nat list" where
  "xTCPWindowGetHead q = (case q of [] \<Rightarrow> (None, []) | i # rest \<Rightarrow> (Some i, rest))"

definition xTCPWindowPeekHead :: "nat list \<Rightarrow> nat option" where
  "xTCPWindowPeekHead q = (case q of [] \<Rightarrow> None | i # _ \<Rightarrow> Some i)"

text \<open>\<open>uxListRemove\<close> of a queue item takes it out of whichever queue it is in.\<close>

definition unqueue :: "nat \<Rightarrow> TCPWindow_t \<Rightarrow> TCPWindow_t" where
  "unqueue i w = w\<lparr>xPriorityQueue := remove1 i (xPriorityQueue w), xTxQueue := remove1 i (xTxQueue w),
                   xWaitQueue := remove1 i (xWaitQueue w)\<rparr>"

definition vTCPWindowFree :: "nat \<Rightarrow> seg_pool \<Rightarrow> TCPWindow_t \<Rightarrow> seg_pool \<times> TCPWindow_t" where
  "vTCPWindowFree i g w =
     (let w1 = unqueue i w;
          g1 = upd_seg i (\<lambda>s. s\<lparr>ulSequenceNumber := 0, lDataLength := 0, ucTransmitCount := 0, ucDupAckCount := 0,
                 bOutstanding := False, bAcked := False, bIsForRx := False\<rparr>) g;
          w2 = w1\<lparr>xTxSegments := remove1 i (xTxSegments w1), xRxSegments := remove1 i (xRxSegments w1)\<rparr>
      in (g1\<lparr>xSegmentList := remove1 i (xSegmentList g1) @ [i]\<rparr>, w2))"

text \<open>The inner loop of \<open>vTCPWindowDestroy\<close> frees the head until the list is empty.\<close>

fun free_all :: "bool \<Rightarrow> nat \<Rightarrow> seg_pool \<Rightarrow> TCPWindow_t \<Rightarrow> seg_pool \<times> TCPWindow_t" where
  "free_all for_rx 0 g w = (g, w)"
| "free_all for_rx (Suc n) g w =
     (case (if for_rx then xRxSegments w else xTxSegments w) of
        [] \<Rightarrow> (g, w)
      | i # _ \<Rightarrow> (let (g1, w1) = vTCPWindowFree i g w in free_all for_rx n g1 w1))"

definition vTCPWindowDestroy :: "seg_pool \<Rightarrow> TCPWindow_t \<Rightarrow> seg_pool \<times> TCPWindow_t" where
  "vTCPWindowDestroy g w =
     (if lists_initialised w
      then (let (g1, w1) = free_all False (length (xTxSegments w)) g w
            in free_all True (length (xRxSegments w1)) g1 w1)
      else (g, w))"

definition vTCPWindowInit :: "u32 \<Rightarrow> u32 \<Rightarrow> u32 \<Rightarrow> TCPWindow_t \<Rightarrow> TCPWindow_t" where
  "vTCPWindowInit ulAckNumber ulSeqNumber ulMSS w =
     (let w1 = w\<lparr>bHasInit := True, bSendFullSize := False, bTimeStamps := False\<rparr>;
          w2 = (if ulMSS \<noteq> 0 then
                  (let w3 = (if usMSSInit w1 \<noteq> 0 then w1\<lparr>usMSSInit := ucast ulMSS\<rparr> else w1)
                   in if ulMSS < ucast (usMSS w3) \<or> usMSS w3 = 0
                      then w3\<lparr>ulRxWindowLength := ulRxWindowLength w3 div ulMSS * ulMSS, usMSS := ucast ulMSS\<rparr>
                      else w3)
                else w1)
      in w2\<lparr>lSRTT := 500,
           rx := (rx w2)\<lparr>ulFirstSequenceNumber := ulAckNumber, ulCurrentSequenceNumber := ulAckNumber,
                         ulHighestSequenceNumber := ulAckNumber\<rparr>,
           tx := (tx w2)\<lparr>ulFirstSequenceNumber := ulSeqNumber, ulCurrentSequenceNumber := ulSeqNumber,
                         ulHighestSequenceNumber := ulSeqNumber\<rparr>,
           ulNextTxSequenceNumber := ulSeqNumber, ulOurSequenceNumber := ulSeqNumber\<rparr>)"

definition vTCPWindowCreate ::
  "bool \<Rightarrow> u32 \<Rightarrow> u32 \<Rightarrow> u32 \<Rightarrow> u32 \<Rightarrow> u32 \<Rightarrow> seg_pool \<Rightarrow> TCPWindow_t \<Rightarrow> seg_pool \<times> TCPWindow_t" where
  "vTCPWindowCreate malloc_ok ulRxLength ulTxLength ulAckNumber ulSeqNumber ulMSS g w =
     (let g1 = (if \<not> seg_allocated g then snd (prvCreateSectors malloc_ok g) else g);
          w1 = w\<lparr>xTxSegments := [], xRxSegments := [], xPriorityQueue := [], xTxQueue := [], xWaitQueue := [],
                 lists_initialised := True, ulRxWindowLength := ulRxLength, ulTxWindowLength := ulTxLength\<rparr>
      in (g1, vTCPWindowInit ulAckNumber ulSeqNumber ulMSS w1))"

section \<open>Reception\<close>

text \<open>The search of \<open>xTCPWindowRxConfirm\<close>: the lowest segment that starts in the range.\<close>

primrec rx_confirm_loop :: "seg_pool \<Rightarrow> u32 \<Rightarrow> u32 \<Rightarrow> nat list \<Rightarrow> nat option \<Rightarrow> nat option" where
  "rx_confirm_loop g n nxt [] best = best"
| "rx_confirm_loop g n nxt (i # is) best =
     rx_confirm_loop g n nxt is
       (if xSequenceGreaterThanOrEqual (ulSequenceNumber (seg g i)) n \<and>
           xSequenceLessThan (ulSequenceNumber (seg g i)) nxt
        then (case best of
                None \<Rightarrow> Some i
              | Some b \<Rightarrow> if xSequenceLessThan (ulSequenceNumber (seg g i)) (ulSequenceNumber (seg g b))
                          then Some i else Some b)
        else best)"

definition xTCPWindowRxConfirm :: "seg_pool \<Rightarrow> TCPWindow_t \<Rightarrow> u32 \<Rightarrow> u32 \<Rightarrow> nat option" where
  "xTCPWindowRxConfirm g w n ulLength = rx_confirm_loop g n (n + ulLength) (xRxSegments w) None"

lemma find_mem: "find P xs = Some x \<Longrightarrow> x \<in> set xs \<and> P x"
  by (metis find_Some_iff nth_mem)

text \<open>The loop that releases the stored segments following the current sequence number.\<close>

function rx_collect :: "u32 \<Rightarrow> seg_pool \<Rightarrow> TCPWindow_t \<Rightarrow> u32 \<times> seg_pool \<times> TCPWindow_t" where
  "rx_collect cur g w =
     (case xTCPWindowRxFind g w cur of
        None \<Rightarrow> (cur, g, w)
      | Some i \<Rightarrow>
          (let (g1, w1) = vTCPWindowFree i g w
           in rx_collect (cur + word_of_int (lDataLength (seg g i))) g1 w1))"
  by pat_completeness auto

termination
  by (relation "measure (\<lambda>(cur, g, w). length (xRxSegments w))")
    (auto simp: vTCPWindowFree_def Let_def unqueue_def length_remove1 xTCPWindowRxFind_def
      dest!: find_mem intro!: diff_less intro: length_pos_if_in_set)

declare rx_collect.simps [simp del]

text \<open>The loop that extends the range of a SACK removes nothing; \<open>None\<close> is a loop that runs forever.\<close>

partial_function (option) sack_extend :: "seg_pool \<Rightarrow> TCPWindow_t \<Rightarrow> u32 \<Rightarrow> u32 option" where
  "sack_extend g w ulLast =
     (case xTCPWindowRxFind g w ulLast of
        None \<Rightarrow> Some ulLast
      | Some i \<Rightarrow> sack_extend g w (ulLast + word_of_int (lDataLength (seg g i))))"

declare sack_extend.simps [code]

definition lTCPWindowRxCheck ::
  "u32 \<Rightarrow> u32 \<Rightarrow> u32 \<Rightarrow> u32 \<Rightarrow> seg_pool \<Rightarrow> TCPWindow_t \<Rightarrow> (int \<times> seg_pool \<times> TCPWindow_t) option" where
  "lTCPWindowRxCheck now n ulLength ulSpace g w0 =
     (let cur = ulCurrentSequenceNumber (rx w0);
          w = w0\<lparr>ucOptionLength := 0, ulUserDataLength := 0\<rparr>
      in
      if cur = n then
        (if ulLength > ulSpace then Some (-1, g, w)
         else
           (let cur1 = cur + ulLength in
            if xRxSegments w \<noteq> [] then
              (let (cur2, g2, w2) =
                     (case xTCPWindowRxConfirm g w n ulLength of
                        None \<Rightarrow> (cur1, g, w)
                      | Some i \<Rightarrow>
                          (ulSequenceNumber (seg g i) + word_of_int (lDataLength (seg g i)), vTCPWindowFree i g w));
                   (cur3, g3, w3) = rx_collect cur2 g2 w2;
                   w4 = (if cur1 \<noteq> cur3 then w3\<lparr>ulUserDataLength := cur3 - cur1\<rparr> else w3)
               in Some (0, g3, w4\<lparr>rx := (rx w4)\<lparr>ulCurrentSequenceNumber := cur3\<rparr>\<rparr>))
            else Some (0, g, w\<lparr>rx := (rx w)\<lparr>ulCurrentSequenceNumber := cur1\<rparr>\<rparr>)))
      else if cur = n + 1 then Some (-1, g, w)
      else
        (let ulLast = n + ulLength;
             lDistance = sint (ulLast - cur)
         in
         if lDistance \<le> 0 then Some (-1, g, w)
         else if lDistance > sint ulSpace then Some (-1, g, w)
         else
           (case sack_extend g w ulLast of
              None \<Rightarrow> None
            | Some ulLast2 \<Rightarrow>
                (let w1 = w\<lparr>ulOptionsData := [OPTION_CODE_SINGLE_SACK, FreeRTOS_htonl n, FreeRTOS_htonl ulLast2],
                            ucOptionLength := 12\<rparr>
                 in (case xTCPWindowRxFind g w1 n of
                       Some _ \<Rightarrow> Some (-1, g, w1)
                     | None \<Rightarrow>
                         (case xTCPWindowNew now n (sint ulLength) True g w1 of
                            (None, g2, w2) \<Rightarrow> Some (-1, g2, w2\<lparr>ucOptionLength := 0\<rparr>)
                          | (Some i, g2, w2) \<Rightarrow> Some (sint (n - cur), g2, w2)))))))"

section \<open>Transmission\<close>

definition lTCPIncrementTxPosition :: "int \<Rightarrow> int \<Rightarrow> int \<Rightarrow> int" where
  "lTCPIncrementTxPosition lPosition lMax lCount =
     (let p = lPosition + lCount in if p \<ge> lMax then p - lMax else p)"

text \<open>The loop of \<open>lTCPWindowTxAdd\<close>: one new segment per round until the bytes or the pool run out.\<close>

function tx_add_loop ::
  "u32 \<Rightarrow> int \<Rightarrow> int \<Rightarrow> int \<Rightarrow> int \<Rightarrow> seg_pool \<Rightarrow> TCPWindow_t \<Rightarrow> int \<times> seg_pool \<times> TCPWindow_t" where
  "tx_add_loop now lMax lBytesLeft lPosition lDone g w =
     (if lBytesLeft > 0 then
        (case xTCPWindowNew now (ulNextTxSequenceNumber w) (uint (usMSS w)) False g w of
           (None, g1, w1) \<Rightarrow> (lDone, g1, w1)
         | (Some i, g1, w1) \<Rightarrow>
             (let lToWrite = FreeRTOS_min_int32 lBytesLeft (lMaxLength (seg g1 i));
                  g2 = upd_seg i (\<lambda>s. s\<lparr>lDataLength := lToWrite, lStreamPos := lPosition\<rparr>) g1;
                  w2 = w1\<lparr>ulNextTxSequenceNumber := ulNextTxSequenceNumber w1 + word_of_int lToWrite,
                          xTxQueue := xTxQueue w1 @ [i],
                          pxHeadSegment := (if lDataLength (seg g2 i) < lMaxLength (seg g2 i) then Some i else None)\<rparr>
              in tx_add_loop now lMax (lBytesLeft - lToWrite) (lTCPIncrementTxPosition lPosition lMax lToWrite)
                   (lDone + lToWrite) g2 w2))
      else (lDone, g, w))"
  by pat_completeness auto

termination
  by (relation "measure (\<lambda>(now, lMax, lBytesLeft, lPosition, lDone, g, w). length (xSegmentList g))")
    (auto simp: xTCPWindowNew_def upd_seg_def split: list.splits)

declare tx_add_loop.simps [simp del]

definition lTCPWindowTxAdd ::
  "u32 \<Rightarrow> u32 \<Rightarrow> int \<Rightarrow> int \<Rightarrow> seg_pool \<Rightarrow> TCPWindow_t \<Rightarrow> int \<times> seg_pool \<times> TCPWindow_t" where
  "lTCPWindowTxAdd now ulLength lPosition lMax g w =
     (let lBytesLeft = sint ulLength in
      case pxHeadSegment w of
        None \<Rightarrow> tx_add_loop now lMax lBytesLeft lPosition 0 g w
      | Some i \<Rightarrow>
          (if lDataLength (seg g i) < lMaxLength (seg g i) \<and> \<not> bOutstanding (seg g i) \<and> lDataLength (seg g i) \<noteq> 0
           then
             (let lToWrite = FreeRTOS_min_int32 lBytesLeft (lMaxLength (seg g i) - lDataLength (seg g i));
                  g1 = upd_seg i (\<lambda>s. s\<lparr>lDataLength := lDataLength s + lToWrite\<rparr>) g;
                  w1 = (if lDataLength (seg g1 i) \<ge> lMaxLength (seg g1 i) then w\<lparr>pxHeadSegment := None\<rparr> else w);
                  w2 = w1\<lparr>ulNextTxSequenceNumber := ulNextTxSequenceNumber w1 + word_of_int lToWrite\<rparr>
              in tx_add_loop now lMax (lBytesLeft - lToWrite) (lTCPIncrementTxPosition lPosition lMax lToWrite)
                   lToWrite g1 w2)
           else tx_add_loop now lMax lBytesLeft lPosition 0 g w))"

definition xTCPWindowTxDone :: "TCPWindow_t \<Rightarrow> bool" where
  "xTCPWindowTxDone w \<longleftrightarrow> xTxSegments w = []"

definition prvTCPWindowTxHasSpace :: "seg_pool \<Rightarrow> TCPWindow_t \<Rightarrow> u32 \<Rightarrow> bool" where
  "prvTCPWindowTxHasSpace g w ulWindowSize =
     (case xTCPWindowPeekHead (xTxQueue w) of
        None \<Rightarrow> False
      | Some i \<Rightarrow>
          (let ulTxOutstanding =
                 (if ulHighestSequenceNumber (tx w) \<ge> ulCurrentSequenceNumber (tx w)
                  then ulHighestSequenceNumber (tx w) - ulCurrentSequenceNumber (tx w) else 0);
               ulWindowSize1 = ulWindowSize - FreeRTOS_min_uint32 ulWindowSize ulTxOutstanding;
               xHasSpace = (ulWindowSize1 \<ge> word_of_int (lDataLength (seg g i)))
           in if ulTxOutstanding \<noteq> 0 \<and> ulTxWindowLength w < ulTxOutstanding + word_of_int (lDataLength (seg g i))
              then False else xHasSpace))"

text \<open>The age after which a segment is sent again; a shift by 32 or more gives 0 on the target.\<close>

definition max_age :: "TCPWindow_t \<Rightarrow> TCPSegment_t \<Rightarrow> u32" where
  "max_age w s = push_bit (unat (ucTransmitCount s)) 1 * word_of_int (lSRTT w)"

text \<open>The result and \<open>*pulDelay\<close>.\<close>

definition xTCPWindowTxHasData :: "u32 \<Rightarrow> seg_pool \<Rightarrow> TCPWindow_t \<Rightarrow> u32 \<Rightarrow> bool \<times> u32" where
  "xTCPWindowTxHasData now g w ulWindowSize =
     (if xPriorityQueue w \<noteq> [] then (True, 0)
      else
        (case xTCPWindowPeekHead (xWaitQueue w) of
           Some i \<Rightarrow>
             (let ulAge = ulTimerGetAge now (seg g i);
                  ulMaxAge = max_age w (seg g i)
              in (True, if ulMaxAge > ulAge then ulMaxAge - ulAge else 0))
         | None \<Rightarrow>
             (case xTCPWindowPeekHead (xTxQueue w) of
                None \<Rightarrow> (False, 0)
              | Some i \<Rightarrow>
                  (if \<not> prvTCPWindowTxHasSpace g w ulWindowSize then (False, 0)
                   else if bSendFullSize w \<and> lDataLength (seg g i) < lMaxLength (seg g i) then (False, 0)
                   else (True, 0)))))"

text \<open>
  The choice of \<open>ulTCPWindowTxGet\<close>: priority segments, then the head of the waiting queue when
  its time is up, then the head of the transmit queue when it may be sent.
\<close>

definition tx_pick :: "u32 \<Rightarrow> u32 \<Rightarrow> seg_pool \<Rightarrow> TCPWindow_t \<Rightarrow> nat option \<times> seg_pool \<times> TCPWindow_t" where
  "tx_pick now ulWindowSize g w =
     (case xTCPWindowGetHead (xPriorityQueue w) of
        (Some i, q) \<Rightarrow> (Some i, g, w\<lparr>xPriorityQueue := q\<rparr>)
      | (None, _) \<Rightarrow>
          (case (case xTCPWindowPeekHead (xWaitQueue w) of
                   None \<Rightarrow> None
                 | Some i \<Rightarrow> if ulTimerGetAge now (seg g i) > max_age w (seg g i) then Some i else None) of
             Some i \<Rightarrow>
               (Some i, upd_seg i (\<lambda>s. s\<lparr>ucDupAckCount := 0\<rparr>) g,
                w\<lparr>xWaitQueue := snd (xTCPWindowGetHead (xWaitQueue w))\<rparr>)
           | None \<Rightarrow>
               (case xTCPWindowPeekHead (xTxQueue w) of
                  None \<Rightarrow> (None, g, w)
                | Some i \<Rightarrow>
                    (if bSendFullSize w \<and> lDataLength (seg g i) < lMaxLength (seg g i) then (None, g, w)
                     else if \<not> prvTCPWindowTxHasSpace g w ulWindowSize then (None, g, w)
                     else
                       (Some i, g,
                        w\<lparr>xTxQueue := snd (xTCPWindowGetHead (xTxQueue w)),
                          pxHeadSegment := (if pxHeadSegment w = Some i then None else pxHeadSegment w),
                          tx := (tx w)\<lparr>ulHighestSequenceNumber :=
                                 ulSequenceNumber (seg g i) + word_of_int (lDataLength (seg g i))\<rparr>\<rparr>)))))"

text \<open>
  \<open>ulTCPWindowTxGet\<close> answers the number of bytes and, when it is not 0 for lack of a segment,
  \<open>*plPosition\<close>; \<open>None\<close> is the failed assertion.
\<close>

definition ulTCPWindowTxGet ::
  "u32 \<Rightarrow> u32 \<Rightarrow> seg_pool \<Rightarrow> TCPWindow_t \<Rightarrow> ((u32 \<times> int option) \<times> seg_pool \<times> TCPWindow_t) option" where
  "ulTCPWindowTxGet now ulWindowSize g w =
     (case tx_pick now ulWindowSize g (w\<lparr>ulOurSequenceNumber := ulHighestSequenceNumber (tx w)\<rparr>) of
        (None, g1, w1) \<Rightarrow> Some ((0, None), g1, w1)
      | (Some i, g1, w1) \<Rightarrow>
          (if i \<in> set (xPriorityQueue w1 @ xTxQueue w1 @ xWaitQueue w1) then None
           else
             (let g2 = upd_seg i (\<lambda>s. s\<lparr>bOutstanding := True, ucTransmitCount := ucTransmitCount s + 1\<rparr>) g1;
                  w2 = w1\<lparr>xWaitQueue := xWaitQueue w1 @ [i]\<rparr>;
                  w3 = (if ucTransmitCount (seg g2 i) = MAX_TRANSMIT_COUNT_USING_LARGE_WINDOW \<and>
                           ulTxWindowLength w2 > 2 * ucast (usMSS w2)
                        then w2\<lparr>ulTxWindowLength := 2 * ucast (usMSS w2)\<rparr> else w2);
                  g3 = upd_seg i (vTCPTimerSet now) g2;
                  w4 = w3\<lparr>ulOurSequenceNumber := ulSequenceNumber (seg g3 i)\<rparr>
              in Some ((word_of_int (lDataLength (seg g3 i)), Some (lStreamPos (seg g3 i))), g3, w4))))"

section \<open>Acknowledgement\<close>

definition srtt_update :: "int \<Rightarrow> int \<Rightarrow> int" where
  "srtt_update srtt mS =
     (let s = (if srtt \<ge> mS
               then (winSRTT_DECREMENT_NEW * mS + winSRTT_DECREMENT_CURRENT * srtt) sdiv
                      (winSRTT_DECREMENT_NEW + winSRTT_DECREMENT_CURRENT)
               else (winSRTT_INCREMENT_NEW * mS + winSRTT_INCREMENT_CURRENT * srtt) sdiv
                      (winSRTT_INCREMENT_NEW + winSRTT_INCREMENT_CURRENT))
      in if s < winSRTT_CAP_mS then winSRTT_CAP_mS else s)"

text \<open>
  The loop of \<open>prvTCPWindowTxCheckAck\<close> over \<open>xTxSegments\<close>; the next item is fetched before the
  current one can be removed.
\<close>

primrec check_ack_loop ::
  "u32 \<Rightarrow> u32 \<Rightarrow> nat list \<Rightarrow> u32 \<Rightarrow> u32 \<Rightarrow> seg_pool \<Rightarrow> TCPWindow_t \<Rightarrow> u32 \<times> seg_pool \<times> TCPWindow_t" where
  "check_ack_loop now ulLast [] n confirmed g w = (confirmed, g, w)"
| "check_ack_loop now ulLast (i # is) n confirmed g w =
     (if \<not> xSequenceLessThan n ulLast then (confirmed, g, w)
      else if xSequenceGreaterThan n (ulSequenceNumber (seg g i))
      then check_ack_loop now ulLast is n confirmed g w
      else if n \<noteq> ulSequenceNumber (seg g i) then (confirmed, g, w)
      else
        (let len = word_of_int (lDataLength (seg g i)) in
         if \<not> bAcked (seg g i) \<and> xSequenceGreaterThan (ulSequenceNumber (seg g i) + len) ulLast
         then (confirmed, g, w)
         else
           (let xDoUnlink = (\<not> bAcked (seg g i));
                g1 = (if xDoUnlink then upd_seg i (\<lambda>s. s\<lparr>bAcked := True\<rparr>) g else g);
                w1 = (if xDoUnlink \<and> ucTransmitCount (seg g i) = 1 \<and> ulSequenceNumber (seg g i) + len = ulLast
                      then w\<lparr>lSRTT := srtt_update (lSRTT w) (sint (ulTimerGetAge now (seg g i)))\<rparr> else w)
            in
            if n = ulCurrentSequenceNumber (tx w1)
            then
              (let w2 = w1\<lparr>tx := (tx w1)\<lparr>ulCurrentSequenceNumber := ulCurrentSequenceNumber (tx w1) + len\<rparr>\<rparr>;
                   (g3, w3) = vTCPWindowFree i g1 w2
               in check_ack_loop now ulLast is (n + len) (confirmed + len) g3 w3)
            else check_ack_loop now ulLast is (n + len) confirmed g1 (if xDoUnlink then unqueue i w1 else w1))))"

definition prvTCPWindowTxCheckAck ::
  "u32 \<Rightarrow> u32 \<Rightarrow> u32 \<Rightarrow> seg_pool \<Rightarrow> TCPWindow_t \<Rightarrow> u32 \<times> seg_pool \<times> TCPWindow_t" where
  "prvTCPWindowTxCheckAck now ulFirst ulLast g w = check_ack_loop now ulLast (xTxSegments w) ulFirst 0 g w"

primrec fast_retransmit_loop ::
  "u32 \<Rightarrow> nat list \<Rightarrow> nat \<Rightarrow> seg_pool \<Rightarrow> TCPWindow_t \<Rightarrow> nat \<times> seg_pool \<times> TCPWindow_t" where
  "fast_retransmit_loop ulFirst [] ulCount g w = (ulCount, g, w)"
| "fast_retransmit_loop ulFirst (i # is) ulCount g w =
     (if \<not> bAcked (seg g i) \<and> xSequenceLessThan (ulSequenceNumber (seg g i)) ulFirst
      then
        (let g1 = upd_seg i (\<lambda>s. s\<lparr>ucDupAckCount := ucDupAckCount s + 1\<rparr>) g in
         if ucDupAckCount (seg g1 i) = DUPLICATE_ACKS_BEFORE_FAST_RETRANSMIT
         then fast_retransmit_loop ulFirst is (ulCount + 1)
                (upd_seg i (\<lambda>s. s\<lparr>ucTransmitCount := 0\<rparr>) g1)
                (w\<lparr>xWaitQueue := remove1 i (xWaitQueue w), xPriorityQueue := xPriorityQueue w @ [i]\<rparr>)
         else fast_retransmit_loop ulFirst is ulCount g1 w)
      else fast_retransmit_loop ulFirst is ulCount g w)"

definition prvTCPWindowFastRetransmit :: "u32 \<Rightarrow> seg_pool \<Rightarrow> TCPWindow_t \<Rightarrow> nat \<times> seg_pool \<times> TCPWindow_t" where
  "prvTCPWindowFastRetransmit ulFirst g w = fast_retransmit_loop ulFirst (xWaitQueue w) 0 g w"

definition ulTCPWindowTxAck :: "u32 \<Rightarrow> u32 \<Rightarrow> seg_pool \<Rightarrow> TCPWindow_t \<Rightarrow> u32 \<times> seg_pool \<times> TCPWindow_t" where
  "ulTCPWindowTxAck now n g w =
     (let ulFirstSequence = ulCurrentSequenceNumber (tx w) in
      if xSequenceLessThanOrEqual n ulFirstSequence then (0, g, w)
      else prvTCPWindowTxCheckAck now ulFirstSequence n g w)"

definition ulTCPWindowTxSack ::
  "u32 \<Rightarrow> u32 \<Rightarrow> u32 \<Rightarrow> seg_pool \<Rightarrow> TCPWindow_t \<Rightarrow> u32 \<times> seg_pool \<times> TCPWindow_t" where
  "ulTCPWindowTxSack now ulFirst ulLast g w =
     (let (ulAckCount, g1, w1) = prvTCPWindowTxCheckAck now ulFirst ulLast g w;
          (_, g2, w2) = prvTCPWindowFastRetransmit ulFirst g1 w1
      in (ulAckCount, g2, w2))"

section \<open>Comparing sequence numbers\<close>

text \<open>The distance from \<open>c\<close> forward to \<open>s\<close>, around the 32-bit circle.\<close>

definition off :: "u32 \<Rightarrow> u32 \<Rightarrow> nat" where
  "off c s = unat (s - c)"

lemma off_self [simp]: "off c c = 0"
  by (simp add: off_def)

lemma off_add [simp]: "off c (c + x) = unat x"
  by (simp add: off_def)

lemma off_of_nat: "k < 2 ^ 32 \<Longrightarrow> off c (c + of_nat k) = k"
  by (simp add: unat_of_nat32)

lemma off_eq_iff: "off c s = off c t \<longleftrightarrow> s = t"
  by (simp add: off_def word_unat_eq_iff [symmetric])

lemma off_zero_iff [simp]: "off c s = 0 \<longleftrightarrow> s = c"
  by (simp add: off_def unat_eq_zero)

lemma off_word: "s = c + of_nat (off c s)"
  by (simp add: off_def)

lemma diff_off: "off c a \<le> off c b \<Longrightarrow> unat (b - a) = off c b - off c a"
proof -
  assume "off c a \<le> off c b"
  then have "unat ((b - c) - (a - c)) = off c b - off c a" unfolding off_def by (rule unat_sub_le)
  then show ?thesis by simp
qed

lemma unat_uminus: "x \<noteq> 0 \<Longrightarrow> unat (- x :: u32) = 2 ^ 32 - unat x"
  using unat_sub_if_size [of 0 x] by (simp add: word_size unat_eq_zero)

lemma diff_off_neg: "off c a < off c b \<Longrightarrow> unat (a - b) = 2 ^ 32 - (off c b - off c a)"
proof -
  assume less: "off c a < off c b"
  then have "unat (b - a) = off c b - off c a" by (simp add: diff_off)
  moreover have "unat (- (b - a)) = 2 ^ 32 - unat (b - a)"
    using less calculation by (intro unat_uminus) auto
  ultimately show ?thesis by simp
qed

text \<open>The four comparisons, as an order on distances from a common number.\<close>

lemma sequence_compare:
  assumes "off c a < 2 ^ 31" "off c b < 2 ^ 31"
  shows "(xSequenceLessThan a b \<longleftrightarrow> off c a < off c b) \<and>
         (xSequenceLessThanOrEqual a b \<longleftrightarrow> off c a \<le> off c b) \<and>
         (xSequenceGreaterThan a b \<longleftrightarrow> off c a > off c b) \<and>
         (xSequenceGreaterThanOrEqual a b \<longleftrightarrow> off c a \<ge> off c b)"
proof -
  have le: "unat (y - x) < 2 ^ 31 \<longleftrightarrow> off c x \<le> off c y" if "off c x < 2 ^ 31" "off c y < 2 ^ 31" for x y
    using that diff_off [of c x y] diff_off_neg [of c y x] by (cases "off c x \<le> off c y") auto
  have lt: "unat (y - x - 1) < 2 ^ 31 \<longleftrightarrow> off c x < off c y" if "off c x < 2 ^ 31" "off c y < 2 ^ 31" for x y
  proof (cases "off c x < off c y")
    case True
    then have "unat (y - x) = off c y - off c x" by (simp add: diff_off)
    then have "unat (y - x - 1) = off c y - off c x - 1" using True by (subst unat_sub_le) auto
    then show ?thesis using True that by simp
  next
    case False
    then have "unat (x - y) = off c x - off c y" by (simp add: diff_off)
    then have "unat (x - y + 1) = off c x - off c y + 1" using that by (subst unat_add_small) auto
    moreover have "y - x - 1 = - (x - y + 1)" by simp
    moreover have "x - y + 1 \<noteq> 0" using calculation(1) by (metis add_eq_0_iff_both_eq_0 one_neq_zero unat_0)
    ultimately have "unat (y - x - 1) = 2 ^ 32 - (off c x - off c y + 1)"
      using unat_uminus [of "x - y + 1"] by simp
    then show ?thesis using False that by simp
  qed
  show ?thesis
    using le [OF assms] le [OF assms(2,1)] lt [OF assms] lt [OF assms(2,1)]
    by (simp add: xSequenceLessThan_def xSequenceLessThanOrEqual_def xSequenceGreaterThan_def
        xSequenceGreaterThanOrEqual_def top_bit_clear [symmetric])
qed

text \<open>
  Claim C31. Two sequence numbers less than \<open>2^31\<close> ahead of a common one are compared by their
  distance from it, wherever the 32-bit counter wraps.
\<close>

theorem sequence_order:
  assumes "off c a < 2 ^ 31" "off c b < 2 ^ 31"
  shows "(xSequenceLessThan a b \<longleftrightarrow> off c a < off c b) \<and>
         (xSequenceLessThanOrEqual a b \<longleftrightarrow> off c a \<le> off c b) \<and>
         (xSequenceGreaterThan a b \<longleftrightarrow> off c a > off c b) \<and>
         (xSequenceGreaterThanOrEqual a b \<longleftrightarrow> off c a \<ge> off c b)"
  using sequence_compare [OF assms] .

theorem sequence_order_witness:
  "xSequenceLessThan 0xFFFFFFF0 0x10 \<and> \<not> xSequenceGreaterThanOrEqual 0xFFFFFFF0 0x10"
  using sequence_order [of "0xFFFFFF00" "0xFFFFFFF0" "0x10"] by (simp add: off_def)

text \<open>The signed reading of small 32-bit values.\<close>

lemma sint_word_of_int: "- (2 ^ 31) \<le> k \<Longrightarrow> k < 2 ^ 31 \<Longrightarrow> sint (word_of_int k :: u32) = k"
  by (simp add: signed_of_int signed_take_bit_int_eq_self)

lemma sint_of_nat32: "k < 2 ^ 31 \<Longrightarrow> sint (of_nat k :: u32) = int k"
  by (simp add: signed_of_nat signed_take_bit_int_eq_self)

lemma sint_minus_of_nat32: "k < 2 ^ 31 \<Longrightarrow> sint (- of_nat k :: u32) = - int k"
  using sint_word_of_int [of "- int k"] by simp

lemma sint_small: "unat (x :: u32) < 2 ^ 31 \<Longrightarrow> sint x = int (unat x)"
  using sint_of_nat32 [of "unat x"] by simp

section \<open>Who owns a descriptor\<close>

text \<open>
  A descriptor is in the pool or in one of the two segment lists, once; a transmit queue holds
  only descriptors of the window's transmit list, each in one queue at most.
\<close>

definition queues :: "TCPWindow_t \<Rightarrow> nat list" where
  "queues w = xPriorityQueue w @ xTxQueue w @ xWaitQueue w"

definition descriptors :: "seg_pool \<Rightarrow> TCPWindow_t \<Rightarrow> nat list" where
  "descriptors g w = xSegmentList g @ xTxSegments w @ xRxSegments w"

definition win_ok :: "seg_pool \<Rightarrow> TCPWindow_t \<Rightarrow> bool" where
  "win_ok g w \<longleftrightarrow> distinct (descriptors g w) \<and> distinct (queues w) \<and> set (queues w) \<subseteq> set (xTxSegments w)"

lemma seg_upd_seg [simp]:
  "seg (upd_seg i f g) j = (if j = i then f (seg g i) else seg g j)"
  "xSegmentList (upd_seg i f g) = xSegmentList g"
  "seg_allocated (upd_seg i f g) = seg_allocated g"
  by (simp_all add: upd_seg_def)

lemma unqueue_fields [simp]:
  "xPriorityQueue (unqueue i w) = remove1 i (xPriorityQueue w)"
  "xTxQueue (unqueue i w) = remove1 i (xTxQueue w)"
  "xWaitQueue (unqueue i w) = remove1 i (xWaitQueue w)"
  "xTxSegments (unqueue i w) = xTxSegments w" "xRxSegments (unqueue i w) = xRxSegments w"
  "rx (unqueue i w) = rx w" "tx (unqueue i w) = tx w" "pxHeadSegment (unqueue i w) = pxHeadSegment w"
  "usMSS (unqueue i w) = usMSS w" "lSRTT (unqueue i w) = lSRTT w"
  "ulNextTxSequenceNumber (unqueue i w) = ulNextTxSequenceNumber w"
  by (simp_all add: unqueue_def)

lemma unqueue_id: "i \<notin> set (queues w) \<Longrightarrow> unqueue i w = w"
  by (simp add: unqueue_def queues_def remove1_idem)

lemma win_okD:
  assumes "win_ok g w"
  shows "distinct (xSegmentList g)" "distinct (xTxSegments w)" "distinct (xRxSegments w)"
    "set (xSegmentList g) \<inter> set (xTxSegments w) = {}" "set (xSegmentList g) \<inter> set (xRxSegments w) = {}"
    "set (xTxSegments w) \<inter> set (xRxSegments w) = {}" "distinct (queues w)"
    "set (queues w) \<subseteq> set (xTxSegments w)"
  using assms by (auto simp: win_ok_def descriptors_def)

text \<open>Freeing moves a descriptor to the end of the pool.\<close>

lemma free_fields [simp]:
  "xSegmentList (fst (vTCPWindowFree i g w)) = remove1 i (xSegmentList g) @ [i]"
  "xTxSegments (snd (vTCPWindowFree i g w)) = remove1 i (xTxSegments w)"
  "xRxSegments (snd (vTCPWindowFree i g w)) = remove1 i (xRxSegments w)"
  "xPriorityQueue (snd (vTCPWindowFree i g w)) = remove1 i (xPriorityQueue w)"
  "xTxQueue (snd (vTCPWindowFree i g w)) = remove1 i (xTxQueue w)"
  "xWaitQueue (snd (vTCPWindowFree i g w)) = remove1 i (xWaitQueue w)"
  "rx (snd (vTCPWindowFree i g w)) = rx w" "tx (snd (vTCPWindowFree i g w)) = tx w"
  "pxHeadSegment (snd (vTCPWindowFree i g w)) = pxHeadSegment w"
  "usMSS (snd (vTCPWindowFree i g w)) = usMSS w" "lSRTT (snd (vTCPWindowFree i g w)) = lSRTT w"
  "ulNextTxSequenceNumber (snd (vTCPWindowFree i g w)) = ulNextTxSequenceNumber w"
  "j \<noteq> i \<Longrightarrow> seg (fst (vTCPWindowFree i g w)) j = seg g j"
  by (simp_all add: vTCPWindowFree_def Let_def)

lemma queues_free [simp]:
  "queues (snd (vTCPWindowFree i g w)) =
     remove1 i (xPriorityQueue w) @ remove1 i (xTxQueue w) @ remove1 i (xWaitQueue w)"
  by (simp add: queues_def)

lemma distinct_mset_cong: "mset xs = mset ys \<Longrightarrow> distinct xs \<longleftrightarrow> distinct ys"
  by (metis mset_eq_imp_distinct_iff)

lemma free_descriptors:
  assumes "win_ok g w" "i \<in> set (xTxSegments w) \<union> set (xRxSegments w)"
  shows "mset (descriptors (fst (vTCPWindowFree i g w)) (snd (vTCPWindowFree i g w))) = mset (descriptors g w)"
proof -
  have pool: "i \<notin> set (xSegmentList g)" using win_okD(4,5) [OF assms(1)] assms(2) by auto
  consider "i \<in> set (xTxSegments w)" "i \<notin> set (xRxSegments w)" | "i \<in> set (xRxSegments w)" "i \<notin> set (xTxSegments w)"
    using win_okD(6) [OF assms(1)] assms(2) by auto
  then show ?thesis
    by cases (simp_all add: descriptors_def remove1_idem pool)
qed

lemma free_win_ok [ok_intros]:
  assumes ok: "win_ok g w" and i: "i \<in> set (xTxSegments w) \<union> set (xRxSegments w)"
  shows "win_ok (fst (vTCPWindowFree i g w)) (snd (vTCPWindowFree i g w))"
proof -
  have "distinct (descriptors (fst (vTCPWindowFree i g w)) (snd (vTCPWindowFree i g w)))"
    using free_descriptors [OF ok i] ok mset_eq_imp_distinct_iff unfolding win_ok_def by blast
  moreover have "distinct (queues (snd (vTCPWindowFree i g w)))"
    using win_okD(7) [OF ok] by (auto simp: queues_def)
  moreover have "set (queues (snd (vTCPWindowFree i g w))) \<subseteq> set (xTxSegments (snd (vTCPWindowFree i g w)))"
    using win_okD(2,7,8) [OF ok] by (auto simp: queues_def)
  ultimately show ?thesis by (simp add: win_ok_def)
qed

text \<open>A new segment takes the head of the pool.\<close>

lemma new_cases:
  obtains (none) "xSegmentList g = []" "xTCPWindowNew now n c r g w = (None, g, w)"
  | (some) i rest g1 w1 where "xSegmentList g = i # rest" "xTCPWindowNew now n c r g w = (Some i, g1, w1)"
      "xSegmentList g1 = rest" "\<And>j. j \<noteq> i \<Longrightarrow> seg g1 j = seg g j"
      "seg g1 i = \<lparr>ulSequenceNumber = n, lMaxLength = c, lDataLength = c, lStreamPos = lStreamPos (seg g i),
         ulBorn = now, ucTransmitCount = 0, ucDupAckCount = 0, bOutstanding = False, bAcked = False, bIsForRx = r\<rparr>"
      "w1 = (if r then w\<lparr>xRxSegments := xRxSegments w @ [i]\<rparr> else w\<lparr>xTxSegments := xTxSegments w @ [i]\<rparr>)"
proof (cases "xSegmentList g")
  case (Cons i rest)
  obtain g1 w1 where e: "xTCPWindowNew now n c r g w = (Some i, g1, w1)" by (simp add: xTCPWindowNew_def Cons)
  show ?thesis
    by (rule some [OF Cons e]) (use e in \<open>auto simp: xTCPWindowNew_def Cons vTCPTimerSet_def\<close>)
next
  case Nil
  show ?thesis by (rule none) (simp_all add: xTCPWindowNew_def Nil)
qed

lemma new_win_ok:
  assumes "win_ok g w" "xTCPWindowNew now n c r g w = (o', g1, w1)"
  shows "win_ok g1 w1 \<and> mset (descriptors g1 w1) = mset (descriptors g w)"
proof (rule new_cases [of g now n c r w])
  fix i rest g2 w2
  assume new: "xSegmentList g = i # rest" "xTCPWindowNew now n c r g w = (Some i, g2, w2)" "xSegmentList g2 = rest"
    "w2 = (if r then w\<lparr>xRxSegments := xRxSegments w @ [i]\<rparr> else w\<lparr>xTxSegments := xTxSegments w @ [i]\<rparr>)"
  have m: "mset (descriptors g1 w1) = mset (descriptors g w)"
    using new assms(2) by (simp add: descriptors_def)
  moreover have "distinct (descriptors g1 w1)"
    using m assms(1) mset_eq_imp_distinct_iff unfolding win_ok_def by blast
  moreover have "queues w1 = queues w" "set (xTxSegments w) \<subseteq> set (xTxSegments w1)"
    using new assms(2) by (auto simp: queues_def)
  ultimately show ?thesis using assms(1) by (auto simp: win_ok_def)
qed (use assms in simp)

end
