(* ===== verification/Tcp_Rx.thy ===== *)
theory Tcp_Rx
  imports Tcp_Win
begin

text \<open>
  Reassembly.  Positions are counted in bytes of the peer's stream.  The abstract receiver keeps
  the number of bytes delivered and the ranges that wait for an earlier one; it is shown that
  \<open>lTCPWindowRxCheck\<close> implements it for a peer that repeats its data on the same boundaries,
  and that its search loops return.
\<close>

section \<open>Stored segments as ranges\<close>

definition seg_lo :: "seg_pool \<Rightarrow> u32 \<Rightarrow> nat \<Rightarrow> nat" where
  "seg_lo g c i = off c (ulSequenceNumber (seg g i))"

definition seg_len :: "seg_pool \<Rightarrow> nat \<Rightarrow> nat" where
  "seg_len g i = nat (lDataLength (seg g i))"

definition seg_range :: "seg_pool \<Rightarrow> u32 \<Rightarrow> nat \<Rightarrow> nat set" where
  "seg_range g c i = {seg_lo g c i ..< seg_lo g c i + seg_len g i}"

text \<open>Stored segments hold bytes, lie in the half circle ahead of \<open>c\<close>, and do not overlap.\<close>

definition stored_ok :: "seg_pool \<Rightarrow> u32 \<Rightarrow> nat list \<Rightarrow> bool" where
  "stored_ok g c is \<longleftrightarrow>
     (\<forall>i\<in>set is. 0 < lDataLength (seg g i) \<and> seg_lo g c i + seg_len g i < 2 ^ 31) \<and>
     (\<forall>i\<in>set is. \<forall>j\<in>set is. i \<noteq> j \<longrightarrow> seg_range g c i \<inter> seg_range g c j = {})"

lemma stored_okD:
  assumes "stored_ok g c is" "i \<in> set is"
  shows "0 < lDataLength (seg g i)" "0 < seg_len g i" "seg_lo g c i + seg_len g i < 2 ^ 31"
    "seg_lo g c i \<in> seg_range g c i" "word_of_int (lDataLength (seg g i)) = (of_nat (seg_len g i) :: u32)"
proof -
  show "0 < lDataLength (seg g i)" and "seg_lo g c i + seg_len g i < 2 ^ 31" using assms by (auto simp: stored_ok_def)
  then show "0 < seg_len g i" "seg_lo g c i \<in> seg_range g c i"
    "word_of_int (lDataLength (seg g i)) = (of_nat (seg_len g i) :: u32)"
    by (auto simp: seg_len_def seg_range_def)
qed

lemma stored_ok_subset: "stored_ok g c is \<Longrightarrow> set js \<subseteq> set is \<Longrightarrow> stored_ok g c js"
  unfolding stored_ok_def by blast

lemma stored_ok_cong:
  assumes "stored_ok g c is" "\<And>i. i \<in> set is \<Longrightarrow> seg g' i = seg g i"
  shows "stored_ok g' c is"
  using assms by (auto simp: stored_ok_def seg_range_def seg_lo_def seg_len_def)

lemma stored_disjoint:
  assumes "stored_ok g c is" "i \<in> set is" "j \<in> set is" "i \<noteq> j"
  shows "seg_lo g c i + seg_len g i \<le> seg_lo g c j \<or> seg_lo g c j + seg_len g j \<le> seg_lo g c i"
proof (rule ccontr)
  assume no: "\<not> ?thesis"
  have "max (seg_lo g c i) (seg_lo g c j) \<in> seg_range g c i \<inter> seg_range g c j"
    using no stored_okD(2) [OF assms(1)] assms(2,3) by (auto simp: seg_range_def)
  then show False using assms unfolding stored_ok_def by blast
qed

lemma find_some: "xTCPWindowRxFind g w n = Some i \<Longrightarrow> i \<in> set (xRxSegments w) \<and> ulSequenceNumber (seg g i) = n"
  by (auto simp: xTCPWindowRxFind_def dest: find_mem)

lemma find_none: "xTCPWindowRxFind g w n = None \<Longrightarrow> i \<in> set (xRxSegments w) \<Longrightarrow> ulSequenceNumber (seg g i) \<noteq> n"
  by (auto simp: xTCPWindowRxFind_def find_None_iff)

lemma find_some_off:
  "xTCPWindowRxFind g w (c + of_nat k) = Some i \<Longrightarrow> k < 2 ^ 32 \<Longrightarrow> i \<in> set (xRxSegments w) \<and> seg_lo g c i = k"
  using find_some off_of_nat by (metis seg_lo_def)

lemma find_none_off:
  "xTCPWindowRxFind g w (c + of_nat k) = None \<Longrightarrow> i \<in> set (xRxSegments w) \<Longrightarrow> seg_lo g c i \<noteq> k"
  using find_none off_word by (metis seg_lo_def)

section \<open>Freeing a stored segment\<close>

lemma free_rx:
  assumes ok: "win_ok g w" and i: "i \<in> set (xRxSegments w)"
  shows "snd (vTCPWindowFree i g w) = w\<lparr>xRxSegments := remove1 i (xRxSegments w)\<rparr>"
proof -
  have "i \<notin> set (xTxSegments w)" using win_okD(6) [OF ok] i by blast
  moreover have "i \<notin> set (queues w)" using calculation win_okD(8) [OF ok] by blast
  ultimately show ?thesis by (simp add: vTCPWindowFree_def Let_def unqueue_id remove1_idem)
qed

lemma free_stored:
  assumes ok: "win_ok g w" and i: "i \<in> set (xRxSegments w)" and st: "stored_ok g c (xRxSegments w)"
  shows "stored_ok (fst (vTCPWindowFree i g w)) c (remove1 i (xRxSegments w))"
proof -
  have "distinct (xRxSegments w)" using win_okD(3) [OF ok] .
  then show ?thesis
    by (intro stored_ok_cong [OF stored_ok_subset [OF st set_remove1_subset]]) auto
qed

section \<open>Collecting what follows\<close>

text \<open>
  From position \<open>k\<close>, which no stored segment precedes, the loop runs to the end \<open>k'\<close> of the
  stored bytes that follow without a gap, and frees exactly the segments before it.
\<close>

lemma rx_collect_spec:
  assumes "win_ok g w" "stored_ok g c (xRxSegments w)" "k < 2 ^ 31"
    "\<forall>i\<in>set (xRxSegments w). k \<le> seg_lo g c i"
  shows "\<exists>k' g' w'. rx_collect (c + of_nat k) g w = (c + of_nat k', g', w') \<and> k \<le> k' \<and> k' < 2 ^ 31 \<and>
     {k..<k'} \<subseteq> (\<Union>i\<in>set (xRxSegments w). seg_range g c i) \<and>
     k' \<notin> (\<Union>i\<in>set (xRxSegments w). seg_range g c i) \<and>
     w' = w\<lparr>xRxSegments := filter (\<lambda>i. k' \<le> seg_lo g c i) (xRxSegments w)\<rparr> \<and>
     (\<forall>i\<in>set (xRxSegments w'). k' < seg_lo g c i) \<and>
     (\<forall>i. i \<notin> set (xRxSegments w) \<or> i \<in> set (xRxSegments w') \<longrightarrow> seg g' i = seg g i) \<and>
     win_ok g' w' \<and> mset (descriptors g' w') = mset (descriptors g w)"
  using assms
proof (induction "length (xRxSegments w)" arbitrary: g w k rule: less_induct)
  case less
  note ok = less.prems(1) and st = less.prems(2) and k = less.prems(3) and ge = less.prems(4)
  show ?case
  proof (cases "xTCPWindowRxFind g w (c + of_nat k)")
    case None
    then have "rx_collect (c + of_nat k) g w = (c + of_nat k, g, w)" by (simp add: rx_collect.simps)
    moreover have lt: "k < seg_lo g c i" if "i \<in> set (xRxSegments w)" for i
      using find_none_off [OF None that] bspec [OF ge that] by simp
    moreover have "filter (\<lambda>i. k \<le> seg_lo g c i) (xRxSegments w) = xRxSegments w" using ge by simp
    moreover have "k \<notin> (\<Union>i\<in>set (xRxSegments w). seg_range g c i)" using lt by (fastforce simp: seg_range_def)
    ultimately show ?thesis using k ok
      by (intro exI [of _ k] exI [of _ g] exI [of _ w]) auto
  next
    case (Some i)
    from find_some_off [OF Some] k have i: "i \<in> set (xRxSegments w)" and lo: "seg_lo g c i = k" by auto
    note d = stored_okD [OF st i]
    let ?g1 = "fst (vTCPWindowFree i g w)" and ?w1 = "snd (vTCPWindowFree i g w)"
    let ?k1 = "k + seg_len g i"
    have rec: "rx_collect (c + of_nat k) g w = rx_collect (c + of_nat ?k1) ?g1 ?w1"
      using Some d(5) by (subst rx_collect.simps) (simp add: split_beta add.assoc)
    have dist: "distinct (xRxSegments w)" using win_okD(3) [OF ok] .
    have w1: "?w1 = w\<lparr>xRxSegments := remove1 i (xRxSegments w)\<rparr>" by (rule free_rx [OF ok i])
    have rest: "j \<in> set (xRxSegments ?w1) \<longleftrightarrow> j \<in> set (xRxSegments w) \<and> j \<noteq> i" for j using dist by simp
    have same: "seg_lo ?g1 c j = seg_lo g c j" "seg_range ?g1 c j = seg_range g c j" if "j \<noteq> i" for j
      using that by (simp_all add: seg_lo_def seg_range_def seg_len_def)
    have ge1: "?k1 \<le> seg_lo g c j" if "j \<in> set (xRxSegments ?w1)" for j
      using stored_disjoint [OF st i, of j] that rest bspec [OF ge, of j] lo stored_okD(2) [OF st, of j] by auto
    have "length (xRxSegments ?w1) < length (xRxSegments w)"
      using i by (auto simp: length_remove1 intro: diff_less length_pos_if_in_set)
    moreover have "win_ok ?g1 ?w1" using free_win_ok [OF ok] i by simp
    moreover have "stored_ok ?g1 c (xRxSegments ?w1)" using free_stored [OF ok i st] by simp
    moreover have "?k1 < 2 ^ 31" using d(3) lo by simp
    moreover have "\<forall>j\<in>set (xRxSegments ?w1). ?k1 \<le> seg_lo ?g1 c j"
      using ge1 same(1) rest by auto
    ultimately obtain k' g' w' where IH: "rx_collect (c + of_nat ?k1) ?g1 ?w1 = (c + of_nat k', g', w')"
      "?k1 \<le> k'" "k' < 2 ^ 31" "{?k1..<k'} \<subseteq> (\<Union>j\<in>set (xRxSegments ?w1). seg_range ?g1 c j)"
      "k' \<notin> (\<Union>j\<in>set (xRxSegments ?w1). seg_range ?g1 c j)"
      "w' = ?w1\<lparr>xRxSegments := filter (\<lambda>j. k' \<le> seg_lo ?g1 c j) (xRxSegments ?w1)\<rparr>"
      "\<forall>j\<in>set (xRxSegments w'). k' < seg_lo ?g1 c j"
      "\<forall>j. j \<notin> set (xRxSegments ?w1) \<or> j \<in> set (xRxSegments w') \<longrightarrow> seg g' j = seg ?g1 j"
      "win_ok g' w'" "mset (descriptors g' w') = mset (descriptors ?g1 ?w1)"
      using less.hyps [of ?w1 ?g1 ?k1] by blast
    have "filter (\<lambda>j. k' \<le> seg_lo ?g1 c j) (xRxSegments ?w1) = filter (\<lambda>j. k' \<le> seg_lo g c j) (xRxSegments w)"
    proof -
      have "filter (\<lambda>j. k' \<le> seg_lo ?g1 c j) (xRxSegments ?w1) = filter (\<lambda>j. k' \<le> seg_lo g c j) (remove1 i (xRxSegments w))"
        using rest same(1) dist by (intro filter_cong) auto
      also have "\<dots> = filter (\<lambda>j. j \<noteq> i \<and> k' \<le> seg_lo g c j) (xRxSegments w)"
        using dist by (auto simp: distinct_remove1_removeAll removeAll_filter_not_eq intro: filter_cong)
      also have "\<dots> = filter (\<lambda>j. k' \<le> seg_lo g c j) (xRxSegments w)"
        using IH(2) lo d(2) by (intro filter_cong) auto
      finally show ?thesis .
    qed
    then have w': "w' = w\<lparr>xRxSegments := filter (\<lambda>j. k' \<le> seg_lo g c j) (xRxSegments w)\<rparr>" using IH(6) w1 by simp
    have notin: "i \<notin> set (xRxSegments w')" using w' IH(2) lo d(2) by simp
    have "{k..<k'} \<subseteq> (\<Union>j\<in>set (xRxSegments w). seg_range g c j)"
    proof
      fix x assume x: "x \<in> {k..<k'}"
      show "x \<in> (\<Union>j\<in>set (xRxSegments w). seg_range g c j)"
      proof (cases "x < ?k1")
        case True
        then have "x \<in> seg_range g c i" using x lo by (simp add: seg_range_def)
        then show ?thesis using i by blast
      next
        case False
        then have "x \<in> {?k1..<k'}" using x by simp
        then obtain j where "j \<in> set (xRxSegments ?w1)" "x \<in> seg_range ?g1 c j" using IH(4) by blast
        then show ?thesis using rest same(2) by blast
      qed
    qed
    moreover have "\<forall>j\<in>set (xRxSegments w'). k' < seg_lo g c j" using IH(7) same(1) notin by metis
    moreover have "seg g' j = seg g j" if "j \<notin> set (xRxSegments w) \<or> j \<in> set (xRxSegments w')" for j
    proof -
      have "j \<noteq> i" using that i notin by auto
      moreover have "seg g' j = seg ?g1 j" using IH(8) that rest by blast
      ultimately show ?thesis by simp
    qed
    moreover have "k' \<notin> (\<Union>j\<in>set (xRxSegments w). seg_range g c j)"
    proof
      assume "k' \<in> (\<Union>j\<in>set (xRxSegments w). seg_range g c j)"
      then obtain j where j: "j \<in> set (xRxSegments w)" "k' \<in> seg_range g c j" by blast
      show False
      proof (cases "j = i")
        case True
        then show False using j(2) IH(2) lo by (simp add: seg_range_def)
      next
        case False
        then show False using j IH(5) rest same(2) by blast
      qed
    qed
    moreover have "mset (descriptors g' w') = mset (descriptors g w)"
      using IH(10) free_descriptors [OF ok, of i] i by simp
    ultimately show ?thesis
      using rec IH(1,2,3,9) w' by (intro exI [of _ k'] exI [of _ g'] exI [of _ w']) auto
  qed
qed

text \<open>The SACK loop returns, at the end of the stored bytes that follow without a gap.\<close>

lemma sack_extend_spec:
  assumes st: "stored_ok g c (xRxSegments w)" and k: "k < 2 ^ 31"
  shows "\<exists>k'. sack_extend g w (c + of_nat k) = Some (c + of_nat k') \<and> k \<le> k' \<and> k' < 2 ^ 31 \<and>
     {k..<k'} \<subseteq> (\<Union>i\<in>set (xRxSegments w). seg_range g c i) \<and> (\<forall>i\<in>set (xRxSegments w). seg_lo g c i \<noteq> k')"
  using k
proof (induction "2 ^ 31 - k" arbitrary: k rule: less_induct)
  case less
  show ?case
  proof (cases "xTCPWindowRxFind g w (c + of_nat k)")
    case None
    then have "sack_extend g w (c + of_nat k) = Some (c + of_nat k)" by (subst sack_extend.simps) simp
    then show ?thesis using less.prems find_none_off [OF None] by (intro exI [of _ k]) auto
  next
    case (Some i)
    with less.prems have i: "i \<in> set (xRxSegments w)" "seg_lo g c i = k" using find_some_off [OF Some] by auto
    note d = stored_okD [OF st i(1)]
    have "sack_extend g w (c + of_nat k) = sack_extend g w (c + of_nat (k + seg_len g i))"
      using Some d(5) by (subst sack_extend.simps) (simp add: add.assoc)
    moreover have "2 ^ 31 - (k + seg_len g i) < 2 ^ 31 - k" "k + seg_len g i < 2 ^ 31" using d i(2) by auto
    from less.hyps [OF this] obtain k' where k': "sack_extend g w (c + of_nat (k + seg_len g i)) = Some (c + of_nat k')"
      "k + seg_len g i \<le> k'" "k' < 2 ^ 31"
      "{k + seg_len g i..<k'} \<subseteq> (\<Union>i\<in>set (xRxSegments w). seg_range g c i)"
      "\<forall>i\<in>set (xRxSegments w). seg_lo g c i \<noteq> k'"
      by blast
    moreover have "{k..<k'} \<subseteq> (\<Union>i\<in>set (xRxSegments w). seg_range g c i)"
    proof
      fix x assume "x \<in> {k..<k'}"
      then have "x \<in> seg_range g c i \<or> x \<in> {k + seg_len g i..<k'}" using i by (auto simp: seg_range_def)
      then show "x \<in> (\<Union>i\<in>set (xRxSegments w). seg_range g c i)" using i(1) k'(4) by blast
    qed
    ultimately show ?thesis by (intro exI [of _ k']) auto
  qed
qed

section \<open>The stored segment that starts inside an expected packet\<close>

lemma rx_confirm_none:
  assumes "\<And>i. i \<in> set is \<Longrightarrow> l \<le> seg_lo g c i" "\<And>i. i \<in> set is \<Longrightarrow> seg_lo g c i < 2 ^ 31" "l < 2 ^ 31"
  shows "rx_confirm_loop g c (c + of_nat l) is best = best"
  using assms(1,2)
proof (induction "is" arbitrary: best)
  case (Cons i "is")
  have "\<not> xSequenceLessThan (ulSequenceNumber (seg g i)) (c + of_nat l)"
    using sequence_compare [of c "ulSequenceNumber (seg g i)" "c + of_nat l"] Cons.prems [of i] assms(3)
      off_of_nat [of l c] by (simp add: seg_lo_def)
  then show ?case using Cons by simp
qed simp

lemma rx_confirm_some:
  assumes "i \<in> set is" "seg_lo g c i < l" "l < 2 ^ 31" "distinct is"
    "\<And>j. j \<in> set is \<Longrightarrow> seg_lo g c j < 2 ^ 31" "\<And>j. j \<in> set is \<Longrightarrow> j \<noteq> i \<Longrightarrow> l \<le> seg_lo g c j"
  shows "rx_confirm_loop g c (c + of_nat l) is None = Some i"
proof -
  have inside: "xSequenceGreaterThanOrEqual (ulSequenceNumber (seg g i)) c \<and>
      xSequenceLessThan (ulSequenceNumber (seg g i)) (c + of_nat l)"
    using sequence_compare [of c "ulSequenceNumber (seg g i)" "c + of_nat l"]
      sequence_compare [of c "ulSequenceNumber (seg g i)" c] assms off_of_nat [of l c] by (simp add: seg_lo_def)
  obtain xs ys where xs: "is = xs @ i # ys" "i \<notin> set xs" "i \<notin> set ys"
    using assms(1,4) by (metis distinct.simps(2) distinct_append in_set_conv_decomp_first not_distinct_conv_prefix)
  have skip: "rx_confirm_loop g c (c + of_nat l) (zs @ us) b = rx_confirm_loop g c (c + of_nat l) us b"
    if "set zs \<subseteq> set is - {i}" for zs us b
  proof -
    have "rx_confirm_loop g c (c + of_nat l) (zs @ us) b =
        rx_confirm_loop g c (c + of_nat l) us (rx_confirm_loop g c (c + of_nat l) zs b)"
      by (induction zs arbitrary: b) auto
    moreover have "rx_confirm_loop g c (c + of_nat l) zs b = b"
      by (rule rx_confirm_none) (use assms that in blast)+
    ultimately show ?thesis by simp
  qed
  have "rx_confirm_loop g c (c + of_nat l) is None = rx_confirm_loop g c (c + of_nat l) (ys @ []) (Some i)"
    unfolding xs(1) using skip [of xs "i # ys" None] xs inside by simp
  also have "\<dots> = Some i" by (subst skip) (use xs in auto)
  finally show ?thesis .
qed

section \<open>The abstract receiver\<close>

record reassembly =
  delivered :: nat
  waiting :: "(nat \<times> nat) set"

definition bytes_of :: "(nat \<times> nat) set \<Rightarrow> nat set" where
  "bytes_of S = (\<Union>(p, l)\<in>S. {p..<p + l})"

definition first_gap :: "nat \<Rightarrow> nat set \<Rightarrow> nat" where
  "first_gap n B = (LEAST m. n \<le> m \<and> m \<notin> B)"

text \<open>
  \<open>l\<close> bytes at position \<open>p\<close> arrive, with \<open>space\<close> bytes of room in the stream buffer and
  \<open>desc\<close> whether a descriptor is free.  The first component is the result: 0 to deliver, the
  distance to store ahead, -1 to refuse.
\<close>

definition rx_spec :: "nat \<Rightarrow> nat \<Rightarrow> nat \<Rightarrow> bool \<Rightarrow> reassembly \<Rightarrow> int \<times> reassembly" where
  "rx_spec p l space desc A =
     (if p = delivered A then
        (if l \<le> space then
           (let d = first_gap (p + l) (bytes_of (waiting A))
            in (0, \<lparr>delivered = d, waiting = {x \<in> waiting A. d \<le> fst x}\<rparr>))
         else (-1, A))
      else if p + l \<le> delivered A then (-1, A)
      else if space < p + l - delivered A then (-1, A)
      else if p \<in> fst ` waiting A \<or> \<not> desc then (-1, A)
      else (int (p - delivered A), A\<lparr>waiting := insert (p, l) (waiting A)\<rparr>))"

text \<open>
  What is asked of a packet: it lies entirely before what is expected; or it is expected, and
  a stored segment that starts inside it reaches its end; or it lies ahead, and starts where a
  stored segment starts or overlaps none.
\<close>

definition conforms :: "nat \<Rightarrow> nat \<Rightarrow> reassembly \<Rightarrow> bool" where
  "conforms p l A \<longleftrightarrow> 0 < l \<and> l < 2 ^ 31 \<and>
     (p + l \<le> delivered A \<and> delivered A < p + 2 ^ 31 \<or>
      p = delivered A \<and> (\<forall>(q, m)\<in>waiting A. q < p + l \<longrightarrow> p + l \<le> q + m) \<or>
      delivered A < p \<and> p + l < delivered A + 2 ^ 31 \<and>
        (p \<in> fst ` waiting A \<or> {p..<p + l} \<inter> bytes_of (waiting A) = {}))"

abbreviation rx_next :: "TCPWindow_t \<Rightarrow> u32" where
  "rx_next w \<equiv> ulCurrentSequenceNumber (rx w)"

definition rx_rel :: "u32 \<Rightarrow> seg_pool \<Rightarrow> TCPWindow_t \<Rightarrow> reassembly \<Rightarrow> bool" where
  "rx_rel isn g w A \<longleftrightarrow> win_ok g w \<and> rx_next w = isn + of_nat (delivered A) \<and>
     stored_ok g (rx_next w) (xRxSegments w) \<and> (\<forall>i\<in>set (xRxSegments w). 0 < seg_lo g (rx_next w) i) \<and>
     waiting A = (\<lambda>i. (delivered A + seg_lo g (rx_next w) i, seg_len g i)) ` set (xRxSegments w)"

lemma first_gapI:
  assumes "n \<le> m" "m \<notin> B" "{n..<m} \<subseteq> B" shows "first_gap n B = m"
  unfolding first_gap_def
proof (rule Least_equality)
  fix y assume "n \<le> y \<and> y \<notin> B"
  then show "m \<le> y" using assms(3) by (metis atLeastLessThan_iff leI subsetD)
qed (use assms in simp)

lemma bytes_of_shift:
  "bytes_of ((\<lambda>i. (N + seg_lo g c i, seg_len g i)) ` I) = (\<lambda>x. N + x) ` (\<Union>i\<in>I. seg_range g c i)"
proof (rule set_eqI)
  fix x
  show "x \<in> bytes_of ((\<lambda>i. (N + seg_lo g c i, seg_len g i)) ` I) \<longleftrightarrow>
      x \<in> (\<lambda>x. N + x) ` (\<Union>i\<in>I. seg_range g c i)"
  proof
    assume "x \<in> bytes_of ((\<lambda>i. (N + seg_lo g c i, seg_len g i)) ` I)"
    then obtain i where "i \<in> I" "N + seg_lo g c i \<le> x" "x < N + seg_lo g c i + seg_len g i" by (auto simp: bytes_of_def)
    then show "x \<in> (\<lambda>x. N + x) ` (\<Union>i\<in>I. seg_range g c i)"
      by (intro image_eqI [of _ _ "x - N"] UN_I [of i]) (auto simp: seg_range_def)
  qed (auto simp: bytes_of_def seg_range_def)
qed

text \<open>Moving the base of the offsets forward.\<close>

lemma seg_lo_rebase:
  assumes "k \<le> seg_lo g c i" "seg_lo g c i < 2 ^ 31"
  shows "seg_lo g (c + of_nat k) i = seg_lo g c i - k"
  using diff_off [of c "c + of_nat k" "ulSequenceNumber (seg g i)"] assms off_of_nat [of k c]
  by (simp add: seg_lo_def off_def)

lemma stored_ok_rebase:
  assumes st: "stored_ok g c is" and ge: "\<And>i. i \<in> set is \<Longrightarrow> k \<le> seg_lo g c i"
  shows "stored_ok g (c + of_nat k) is"
proof -
  have lo: "seg_lo g (c + of_nat k) i = seg_lo g c i - k" if "i \<in> set is" for i
    using seg_lo_rebase [OF ge [OF that]] stored_okD(3) [OF st that] by simp
  have "seg_range g (c + of_nat k) i \<inter> seg_range g (c + of_nat k) j = {}"
    if "i \<in> set is" "j \<in> set is" "i \<noteq> j" for i j
    using stored_disjoint [OF st that] ge [OF that(1)] ge [OF that(2)] lo [OF that(1)] lo [OF that(2)]
    by (auto simp: seg_range_def)
  then show ?thesis using stored_okD [OF st] lo by (fastforce simp: stored_ok_def)
qed

section \<open>The code implements the abstract receiver\<close>

lemma win_ok_frame:
  assumes "win_ok g w" "xTxSegments w' = xTxSegments w" "xRxSegments w' = xRxSegments w"
    "xPriorityQueue w' = xPriorityQueue w" "xTxQueue w' = xTxQueue w" "xWaitQueue w' = xWaitQueue w"
  shows "win_ok g w'" "descriptors g w' = descriptors g w"
  using assms by (simp_all add: win_ok_def descriptors_def queues_def)

text \<open>The segment freed by \<open>xTCPWindowRxConfirm\<close>, if any, and where the collection starts.\<close>

lemma confirm_step:
  assumes ok: "win_ok g w" and st: "stored_ok g c (xRxSegments w)" and l: "l < 2 ^ 31"
    and over: "\<forall>i\<in>set (xRxSegments w). seg_lo g c i < l \<longrightarrow> l \<le> seg_lo g c i + seg_len g i"
  obtains k2 g2 w2 where
    "(case xTCPWindowRxConfirm g w c (of_nat l) of
        None \<Rightarrow> (c + of_nat l, g, w)
      | Some i \<Rightarrow> (ulSequenceNumber (seg g i) + word_of_int (lDataLength (seg g i)), vTCPWindowFree i g w))
     = (c + of_nat k2, g2, w2)"
    "l \<le> k2" "k2 < 2 ^ 31" "{l..<k2} \<subseteq> (\<Union>i\<in>set (xRxSegments w). seg_range g c i)"
    "w2 = w\<lparr>xRxSegments := filter (\<lambda>i. k2 \<le> seg_lo g c i) (xRxSegments w)\<rparr>"
    "\<forall>i\<in>set (xRxSegments w2). seg g2 i = seg g i"
    "\<forall>i\<in>set (xRxSegments w). seg_lo g c i < k2 \<longrightarrow> seg_lo g c i + seg_len g i \<le> k2"
    "win_ok g2 w2" "mset (descriptors g2 w2) = mset (descriptors g w)"
proof (cases "\<exists>i\<in>set (xRxSegments w). seg_lo g c i < l")
  case False
  then have "xTCPWindowRxConfirm g w c (of_nat l) = None"
    using rx_confirm_none [of "xRxSegments w" l g c None] stored_okD(3) [OF st] l
    by (fastforce simp: xTCPWindowRxConfirm_def)
  moreover have "filter (\<lambda>i. l \<le> seg_lo g c i) (xRxSegments w) = xRxSegments w" using False by (auto simp: not_less)
  ultimately show ?thesis using False l ok by (intro that [of l g w]) auto
next
  case True
  then obtain i where i: "i \<in> set (xRxSegments w)" "seg_lo g c i < l" by blast
  note d = stored_okD [OF st i(1)]
  let ?k2 = "seg_lo g c i + seg_len g i"
  have others: "?k2 \<le> seg_lo g c j" if "j \<in> set (xRxSegments w)" "j \<noteq> i" for j
    using stored_disjoint [OF st i(1) that(1)] that bspec [OF over that(1)] i(2) by linarith
  have dist: "distinct (xRxSegments w)" using win_okD(3) [OF ok] .
  have lt: "seg_lo g c j < 2 ^ 31" if "j \<in> set (xRxSegments w)" for j using stored_okD(3) [OF st that] by linarith
  have hi: "l \<le> ?k2" using over i by blast
  have beyond: "l \<le> seg_lo g c j" if "j \<in> set (xRxSegments w)" "j \<noteq> i" for j using others [OF that] hi by linarith
  have conf: "xTCPWindowRxConfirm g w c (of_nat l) = Some i"
    unfolding xTCPWindowRxConfirm_def by (rule rx_confirm_some [OF i l dist lt beyond])
  have w2: "snd (vTCPWindowFree i g w) = w\<lparr>xRxSegments := filter (\<lambda>j. ?k2 \<le> seg_lo g c j) (xRxSegments w)\<rparr>"
  proof -
    have "remove1 i (xRxSegments w) = filter (\<lambda>j. j \<noteq> i) (xRxSegments w)"
      using dist by (auto simp: distinct_remove1_removeAll removeAll_filter_not_eq intro: filter_cong)
    also have "\<dots> = filter (\<lambda>j. ?k2 \<le> seg_lo g c j) (xRxSegments w)"
      using others d(2) by (intro filter_cong) auto
    finally show ?thesis using free_rx [OF ok i(1)] by simp
  qed
  have n: "ulSequenceNumber (seg g i) + word_of_int (lDataLength (seg g i)) = c + of_nat ?k2"
    using d(5) off_word [of "ulSequenceNumber (seg g i)" c] by (simp add: seg_lo_def)
  show ?thesis
  proof (rule that [of ?k2 "fst (vTCPWindowFree i g w)" "snd (vTCPWindowFree i g w)"])
    show "{l..<?k2} \<subseteq> (\<Union>j\<in>set (xRxSegments w). seg_range g c j)"
      using i by (auto simp: seg_range_def)
    show "\<forall>j\<in>set (xRxSegments (snd (vTCPWindowFree i g w))). seg (fst (vTCPWindowFree i g w)) j = seg g j"
      using dist by auto
    show "\<forall>j\<in>set (xRxSegments w). seg_lo g c j < ?k2 \<longrightarrow> seg_lo g c j + seg_len g j \<le> ?k2"
      using others by (metis order_refl leD)
    show "win_ok (fst (vTCPWindowFree i g w)) (snd (vTCPWindowFree i g w))" using free_win_ok [OF ok] i(1) by simp
    show "mset (descriptors (fst (vTCPWindowFree i g w)) (snd (vTCPWindowFree i g w))) = mset (descriptors g w)"
      using free_descriptors [OF ok] i(1) by simp
  qed (use conf n w2 d over i in \<open>auto simp: prod_eq_iff\<close>)
qed

lemma rx_deliver:
  assumes ok: "win_ok g w" and st: "stored_ok g c (xRxSegments w)" and l: "l < 2 ^ 31" and c: "rx_next w = c"
    and over: "\<forall>i\<in>set (xRxSegments w). seg_lo g c i < l \<longrightarrow> l \<le> seg_lo g c i + seg_len g i"
    and space: "of_nat l \<le> ulSpace"
  shows "\<exists>k g' w'. lTCPWindowRxCheck now c (of_nat l) ulSpace g w = Some (0, g', w') \<and>
     l \<le> k \<and> k < 2 ^ 31 \<and> rx_next w' = c + of_nat k \<and> ulUserDataLength w' = of_nat (k - l) \<and>
     {l..<k} \<subseteq> (\<Union>i\<in>set (xRxSegments w). seg_range g c i) \<and>
     k \<notin> (\<Union>i\<in>set (xRxSegments w). seg_range g c i) \<and>
     xRxSegments w' = filter (\<lambda>i. k \<le> seg_lo g c i) (xRxSegments w) \<and>
     (\<forall>i\<in>set (xRxSegments w'). seg g' i = seg g i \<and> k < seg_lo g c i) \<and>
     win_ok g' w' \<and> mset (descriptors g' w') = mset (descriptors g w)"
proof -
  let ?w = "w\<lparr>ucOptionLength := 0, ulUserDataLength := 0\<rparr>"
  have okw: "win_ok g ?w" "descriptors g ?w = descriptors g w" using win_ok_frame [OF ok, of ?w] by simp_all
  have le: "\<not> of_nat l > ulSpace" using space by simp
  show ?thesis
  proof (cases "xRxSegments w = []")
    case True
    let ?w' = "?w\<lparr>rx := (rx w)\<lparr>ulCurrentSequenceNumber := c + of_nat l\<rparr>\<rparr>"
    have "lTCPWindowRxCheck now c (of_nat l) ulSpace g w = Some (0, g, ?w')"
      using True c le by (simp add: lTCPWindowRxCheck_def Let_def)
    moreover have "win_ok g ?w'" "descriptors g ?w' = descriptors g w" using win_ok_frame [OF ok, of ?w'] by simp_all
    ultimately show ?thesis using True l by (intro exI [of _ l] exI [of _ g] exI [of _ ?w']) simp
  next
    case False
    have st': "stored_ok g c (xRxSegments ?w)" using st by simp
    have over': "\<forall>i\<in>set (xRxSegments ?w). seg_lo g c i < l \<longrightarrow> l \<le> seg_lo g c i + seg_len g i"
      using over by simp
    obtain k2 g2 w2 where s: "(case xTCPWindowRxConfirm g ?w c (of_nat l) of
        None \<Rightarrow> (c + of_nat l, g, ?w)
      | Some i \<Rightarrow> (ulSequenceNumber (seg g i) + word_of_int (lDataLength (seg g i)), vTCPWindowFree i g ?w))
     = (c + of_nat k2, g2, w2)"
      and k2: "l \<le> k2" "k2 < 2 ^ 31" "{l..<k2} \<subseteq> (\<Union>i\<in>set (xRxSegments ?w). seg_range g c i)"
      and w2: "w2 = ?w\<lparr>xRxSegments := filter (\<lambda>i. k2 \<le> seg_lo g c i) (xRxSegments ?w)\<rparr>"
      and g2: "\<forall>i\<in>set (xRxSegments w2). seg g2 i = seg g i"
      and below: "\<forall>i\<in>set (xRxSegments ?w). seg_lo g c i < k2 \<longrightarrow> seg_lo g c i + seg_len g i \<le> k2"
      and ok2: "win_ok g2 w2" "mset (descriptors g2 w2) = mset (descriptors g ?w)"
      by (rule confirm_step [OF okw(1) st' l over']) (rule that; assumption)
    have rxw: "xRxSegments ?w = xRxSegments w" by simp
    note k2 = k2 [unfolded rxw] and w2 = w2 [unfolded rxw] and below = below [unfolded rxw] and ok2 = ok2 [unfolded okw(2)]
    have same: "seg_lo g2 c i = seg_lo g c i" "seg_range g2 c i = seg_range g c i" if "i \<in> set (xRxSegments w2)" for i
      using bspec [OF g2 that] by (simp_all add: seg_lo_def seg_range_def seg_len_def)
    have sub: "set (xRxSegments w2) \<subseteq> set (xRxSegments w)" using w2 by auto
    have st2: "stored_ok g2 c (xRxSegments w2)" by (rule stored_ok_cong [OF stored_ok_subset [OF st sub]]) (use g2 in blast)
    have ge2: "\<forall>i\<in>set (xRxSegments w2). k2 \<le> seg_lo g2 c i" using same(1) w2 by simp
    obtain k g3 w3 where col: "rx_collect (c + of_nat k2) g2 w2 = (c + of_nat k, g3, w3)" "k2 \<le> k" "k < 2 ^ 31"
      "{k2..<k} \<subseteq> (\<Union>i\<in>set (xRxSegments w2). seg_range g2 c i)"
      "k \<notin> (\<Union>i\<in>set (xRxSegments w2). seg_range g2 c i)"
      "w3 = w2\<lparr>xRxSegments := filter (\<lambda>i. k \<le> seg_lo g2 c i) (xRxSegments w2)\<rparr>"
      "\<forall>i\<in>set (xRxSegments w3). k < seg_lo g2 c i"
      "\<forall>i. i \<notin> set (xRxSegments w2) \<or> i \<in> set (xRxSegments w3) \<longrightarrow> seg g3 i = seg g2 i"
      "win_ok g3 w3" "mset (descriptors g3 w3) = mset (descriptors g2 w2)"
      using rx_collect_spec [OF ok2(1) st2 k2(2) ge2] by blast
    let ?w' = "(if c + of_nat l \<noteq> c + of_nat k then w3\<lparr>ulUserDataLength := c + of_nat k - (c + of_nat l)\<rparr> else w3)
        \<lparr>rx := (rx w)\<lparr>ulCurrentSequenceNumber := c + of_nat k\<rparr>\<rparr>"
    have res: "lTCPWindowRxCheck now c (of_nat l) ulSpace g w = Some (0, g3, ?w')"
      using False c le s col(1,6) w2 by (simp add: lTCPWindowRxCheck_def Let_def)
    have rx': "xRxSegments ?w' = filter (\<lambda>i. k \<le> seg_lo g c i) (xRxSegments w)"
    proof -
      have "xRxSegments w3 = filter (\<lambda>i. k \<le> seg_lo g c i) (xRxSegments w2)"
        using col(6) same(1) by (auto intro: filter_cong)
      also have "\<dots> = filter (\<lambda>i. k \<le> seg_lo g c i) (xRxSegments w)"
        using w2 col(2) by (auto intro: filter_cong)
      finally show ?thesis by simp
    qed
    have "set (xRxSegments w3) \<subseteq> set (xRxSegments w2)" using col(6) by auto
    have keep: "\<forall>i\<in>set (xRxSegments ?w'). seg g3 i = seg g i \<and> k < seg_lo g c i"
    proof
      fix i assume "i \<in> set (xRxSegments ?w')"
      then have i: "i \<in> set (xRxSegments w3)" by (simp split: if_splits)
      then have i2: "i \<in> set (xRxSegments w2)" using \<open>set (xRxSegments w3) \<subseteq> set (xRxSegments w2)\<close> by blast
      have "seg g3 i = seg g2 i" using col(8) i by blast
      then show "seg g3 i = seg g i \<and> k < seg_lo g c i" using bspec [OF g2 i2] bspec [OF col(7) i] same(1) [OF i2] by simp
    qed
    have "{l..<k} \<subseteq> (\<Union>i\<in>set (xRxSegments w). seg_range g c i)"
    proof
      fix x assume "x \<in> {l..<k}"
      then have "x \<in> {l..<k2} \<or> x \<in> {k2..<k}" using col(2) by auto
      then show "x \<in> (\<Union>i\<in>set (xRxSegments w). seg_range g c i)"
      proof
        assume "x \<in> {l..<k2}"
        then show ?thesis by (rule subsetD [OF k2(3)])
      next
        assume "x \<in> {k2..<k}"
        from subsetD [OF col(4) this] obtain i where i: "i \<in> set (xRxSegments w2)" "x \<in> seg_range g2 c i" by (rule UN_E)
        then have "x \<in> seg_range g c i" "i \<in> set (xRxSegments w)" using same(2) [OF i(1)] subsetD [OF sub i(1)] by simp_all
        then show ?thesis by (intro UN_I)
      qed
    qed
    moreover have "k \<notin> (\<Union>i\<in>set (xRxSegments w). seg_range g c i)"
    proof
      assume "k \<in> (\<Union>i\<in>set (xRxSegments w). seg_range g c i)"
      then obtain i where i: "i \<in> set (xRxSegments w)" "k \<in> seg_range g c i" by blast
      show False
      proof (cases "k2 \<le> seg_lo g c i")
        case True
        then have "i \<in> set (xRxSegments w2)" using i w2 by simp
        then show False using i(2) col(5) same(2) by blast
      next
        case False
        then show False using bspec [OF below i(1)] i(2) col(2) by (simp add: seg_range_def)
      qed
    qed
    moreover have "ulUserDataLength ?w' = of_nat (k - l)"
      using w2 col(2,6) k2(1) by (auto simp: of_nat_diff)
    moreover have "win_ok g3 ?w'" "descriptors g3 ?w' = descriptors g3 w3"
      using win_ok_frame [OF col(9), of ?w'] by simp_all
    ultimately show ?thesis
      using res rx' keep col(2,3,10) ok2(2) k2(1) by (intro exI [of _ k] exI [of _ g3] exI [of _ ?w']) simp
  qed
qed

text \<open>A packet that ends where the expected byte begins, or before, is refused.\<close>

lemma rx_behind:
  assumes ok: "win_ok g w" and c: "rx_next w = n + of_nat k" and k: "0 < l" "l \<le> k" "k < 2 ^ 31"
  shows "\<exists>w'. lTCPWindowRxCheck now n (of_nat l) ulSpace g w = Some (-1, g, w') \<and>
     rx w' = rx w \<and> xRxSegments w' = xRxSegments w \<and> win_ok g w' \<and> descriptors g w' = descriptors g w"
proof -
  let ?w = "w\<lparr>ucOptionLength := 0, ulUserDataLength := 0\<rparr>"
  have ne: "n + of_nat k \<noteq> n"
  proof
    assume "n + of_nat k = n"
    then have "of_nat k = (of_nat 0 :: u32)" by simp
    then show False using of_nat_eq32 [of k 0] k by simp
  qed
  have "n + of_nat l - (n + of_nat k) = (- of_nat (k - l) :: u32)" using k by (simp add: of_nat_diff)
  then have "sint (n + of_nat l - (n + of_nat k)) \<le> 0" using sint_minus_of_nat32 [of "k - l"] k by simp
  then have "lTCPWindowRxCheck now n (of_nat l) ulSpace g w = Some (-1, g, ?w)"
    using c ne by (simp add: lTCPWindowRxCheck_def Let_def del: add_diff_cancel_left)
  then show ?thesis using win_ok_frame [OF ok, of ?w] by (intro exI [of _ ?w]) simp
qed

text \<open>A packet ahead of the expected byte is stored, or refused for lack of room.\<close>

lemma rx_ahead:
  assumes ok: "win_ok g w" and st: "stored_ok g c (xRxSegments w)" and c: "rx_next w = c"
    and k: "0 < k" "0 < l" "k + l < 2 ^ 31" and space: "unat ulSpace < 2 ^ 31"
  shows "\<exists>r g' w'. lTCPWindowRxCheck now (c + of_nat k) (of_nat l) ulSpace g w = Some (r, g', w') \<and>
     rx w' = rx w \<and> win_ok g' w' \<and> mset (descriptors g' w') = mset (descriptors g w) \<and>
     (if unat ulSpace < k + l \<or> (\<exists>i\<in>set (xRxSegments w). seg_lo g c i = k) \<or> xSegmentList g = []
      then r = -1 \<and> g' = g \<and> xRxSegments w' = xRxSegments w
      else r = int k \<and>
        (\<exists>i. i \<notin> set (xRxSegments w) \<and> xRxSegments w' = xRxSegments w @ [i] \<and> seg_lo g' c i = k \<and>
           lDataLength (seg g' i) = int l \<and> (\<forall>j. j \<noteq> i \<longrightarrow> seg g' j = seg g j)))"
proof -
  let ?w = "w\<lparr>ucOptionLength := 0, ulUserDataLength := 0\<rparr>" and ?n = "c + of_nat k"
  have ne: "?n \<noteq> c" "c \<noteq> ?n + 1"
  proof -
    have "of_nat k \<noteq> (of_nat 0 :: u32)" using of_nat_eq32 [of k 0] k by simp
    then show "?n \<noteq> c" by simp
    have "of_nat (k + 1) \<noteq> (of_nat 0 :: u32)" using of_nat_eq32 [of "k + 1" 0] k by simp
    then show "c \<noteq> ?n + 1" by (simp add: add.assoc add.commute)
  qed
  have dist: "sint (?n + of_nat l - c) = int (k + l)" using sint_of_nat32 [of "k + l"] k by simp
  have last: "?n + of_nat l = c + of_nat (k + l)" by simp
  have check: "lTCPWindowRxCheck now ?n (of_nat l) ulSpace g w =
    (if sint (?n + of_nat l - c) \<le> 0 then Some (-1, g, ?w)
     else if sint (?n + of_nat l - c) > sint ulSpace then Some (-1, g, ?w)
     else
       (case sack_extend g ?w (?n + of_nat l) of
          None \<Rightarrow> None
        | Some ulLast2 \<Rightarrow>
            (let w1 = ?w\<lparr>ulOptionsData := [OPTION_CODE_SINGLE_SACK, FreeRTOS_htonl ?n, FreeRTOS_htonl ulLast2],
                        ucOptionLength := 12\<rparr>
             in (case xTCPWindowRxFind g w1 ?n of
                   Some _ \<Rightarrow> Some (-1, g, w1)
                 | None \<Rightarrow>
                     (case xTCPWindowNew now ?n (sint (of_nat l :: u32)) True g w1 of
                        (None, g2, w2) \<Rightarrow> Some (-1, g2, w2\<lparr>ucOptionLength := 0\<rparr>)
                      | (Some i, g2, w2) \<Rightarrow> Some (sint (?n - c), g2, w2))))))"
    unfolding lTCPWindowRxCheck_def Let_def c if_not_P [OF ne(1) [symmetric]] if_not_P [OF ne(2)] by simp
  have pos: "\<not> sint (?n + of_nat l - c) \<le> 0" unfolding dist using k by simp
  have cmp: "sint (?n + of_nat l - c) > sint ulSpace \<longleftrightarrow> unat ulSpace < k + l"
    unfolding dist sint_small [OF space] by (rule of_nat_less_iff)
  show ?thesis
  proof (cases "unat ulSpace < k + l")
    case True
    then have "lTCPWindowRxCheck now ?n (of_nat l) ulSpace g w = Some (-1, g, ?w)"
      by (simp only: check cmp pos if_True if_False)
    then show ?thesis using True win_ok_frame [OF ok, of ?w] by (intro exI [of _ "-1"] exI [of _ g] exI [of _ ?w]) simp
  next
    case False
    obtain z where z: "sack_extend g ?w (?n + of_nat l) = Some z"
      using sack_extend_spec [of g c ?w "k + l"] st k(3) unfolding last by auto
    let ?w1 = "?w\<lparr>ulOptionsData := [OPTION_CODE_SINGLE_SACK, FreeRTOS_htonl ?n, FreeRTOS_htonl z], ucOptionLength := 12\<rparr>"
    have w1: "win_ok g ?w1" "descriptors g ?w1 = descriptors g w" using win_ok_frame [OF ok, of ?w1] by simp_all
    have check': "lTCPWindowRxCheck now ?n (of_nat l) ulSpace g w =
      (case xTCPWindowRxFind g ?w1 ?n of
         Some _ \<Rightarrow> Some (-1, g, ?w1)
       | None \<Rightarrow>
           (case xTCPWindowNew now ?n (sint (of_nat l :: u32)) True g ?w1 of
              (None, g2, w2) \<Rightarrow> Some (-1, g2, w2\<lparr>ucOptionLength := 0\<rparr>)
            | (Some i, g2, w2) \<Rightarrow> Some (sint (?n - c), g2, w2)))"
      by (simp only: check cmp pos if_False False z Let_def option.case)
    show ?thesis
    proof (cases "xTCPWindowRxFind g ?w1 ?n")
      case (Some i)
      then have "\<exists>i\<in>set (xRxSegments w). seg_lo g c i = k" using find_some_off [OF Some] k by auto
      then show ?thesis using check' Some w1 by (intro exI [of _ "-1"] exI [of _ g] exI [of _ ?w1]) simp
    next
      case None
      then have no: "\<not> (\<exists>i\<in>set (xRxSegments w). seg_lo g c i = k)" using find_none_off [OF None] by auto
      show ?thesis
      proof (rule new_cases [of g now ?n "sint (of_nat l :: u32)" True ?w1])
        assume empty: "xSegmentList g = []" "xTCPWindowNew now ?n (sint (of_nat l :: u32)) True g ?w1 = (None, g, ?w1)"
        let ?w2 = "?w1\<lparr>ucOptionLength := 0\<rparr>"
        have "lTCPWindowRxCheck now ?n (of_nat l) ulSpace g w = Some (-1, g, ?w2)"
          using check' None empty(2) by simp
        moreover have "win_ok g ?w2" "descriptors g ?w2 = descriptors g w" using win_ok_frame [OF ok, of ?w2] by simp_all
        ultimately show ?thesis using empty(1) by (intro exI [of _ "-1"] exI [of _ g] exI [of _ ?w2]) simp
      next
        fix i rest g1 w2
        assume new: "xSegmentList g = i # rest" "xTCPWindowNew now ?n (sint (of_nat l :: u32)) True g ?w1 = (Some i, g1, w2)"
          "\<And>j. j \<noteq> i \<Longrightarrow> seg g1 j = seg g j"
          "seg g1 i = \<lparr>ulSequenceNumber = ?n, lMaxLength = sint (of_nat l :: u32), lDataLength = sint (of_nat l :: u32),
            lStreamPos = lStreamPos (seg g i), ulBorn = now, ucTransmitCount = 0, ucDupAckCount = 0,
            bOutstanding = False, bAcked = False, bIsForRx = True\<rparr>"
          "w2 = (if True then ?w1\<lparr>xRxSegments := xRxSegments ?w1 @ [i]\<rparr> else ?w1\<lparr>xTxSegments := xTxSegments ?w1 @ [i]\<rparr>)"
        have "lTCPWindowRxCheck now ?n (of_nat l) ulSpace g w = Some (int k, g1, w2)"
          using check' None new(2) sint_of_nat32 [of k] k by simp
        moreover have "i \<notin> set (xRxSegments w)" using win_okD(5) [OF ok] new(1) by auto
        moreover have "seg_lo g1 c i = k" "lDataLength (seg g1 i) = int l"
          using new(4) off_of_nat [of k c] k sint_of_nat32 [of l] by (simp_all add: seg_lo_def)
        moreover have "win_ok g1 w2" "mset (descriptors g1 w2) = mset (descriptors g w)"
          using new_win_ok [OF w1(1) new(2)] w1(2) by simp_all
        moreover have "rx w2 = rx w" "xRxSegments w2 = xRxSegments w @ [i]" using new(5) by simp_all
        ultimately show ?thesis using False no new(1,3)
          by (intro exI [of _ "int k"] exI [of _ g1] exI [of _ w2]) auto
      qed
    qed
  qed
qed

lemma rx_relD:
  assumes "rx_rel isn g w A"
  shows "win_ok g w" "rx_next w = isn + of_nat (delivered A)" "stored_ok g (rx_next w) (xRxSegments w)"
    "\<And>i. i \<in> set (xRxSegments w) \<Longrightarrow> 0 < seg_lo g (rx_next w) i"
    "waiting A = (\<lambda>i. (delivered A + seg_lo g (rx_next w) i, seg_len g i)) ` set (xRxSegments w)"
  using assms by (auto simp: rx_rel_def)

lemma waiting_bytes:
  assumes "rx_rel isn g w A"
  shows "bytes_of (waiting A) = (\<lambda>x. delivered A + x) ` (\<Union>i\<in>set (xRxSegments w). seg_range g (rx_next w) i)"
  unfolding rx_relD(5) [OF assms] by (rule bytes_of_shift)

lemma rx_rel_keep:
  assumes rel: "rx_rel isn g w A" and "win_ok g w'" "rx w' = rx w" "xRxSegments w' = xRxSegments w"
  shows "rx_rel isn g w' A"
  using rel assms(2) unfolding rx_rel_def assms(3,4) by blast

lemma rx_refines_expected:
  assumes rel: "rx_rel isn g w A" and l: "0 < l" "l < 2 ^ 31" "l \<le> unat ulSpace"
    and over: "\<forall>(q, m)\<in>waiting A. q < delivered A + l \<longrightarrow> delivered A + l \<le> q + m"
  shows "\<exists>g' w'. lTCPWindowRxCheck now (isn + of_nat (delivered A)) (of_nat l) ulSpace g w = Some (0, g', w') \<and>
     rx_rel isn g' w' (snd (rx_spec (delivered A) l (unat ulSpace) d A)) \<and>
     ulUserDataLength w' = of_nat (delivered (snd (rx_spec (delivered A) l (unat ulSpace) d A)) - (delivered A + l)) \<and>
     mset (descriptors g' w') = mset (descriptors g w)"
proof -
  let ?c = "rx_next w" and ?N = "delivered A"
  note r = rx_relD [OF rel]
  have over': "\<forall>i\<in>set (xRxSegments w). seg_lo g ?c i < l \<longrightarrow> l \<le> seg_lo g ?c i + seg_len g i"
    using over unfolding r(5) by auto
  have "of_nat l \<le> ulSpace" using l of_nat_le32 [of l "unat ulSpace"] unat_u32 [of ulSpace] by simp
  from rx_deliver [OF r(1,3) l(2) refl over' this, of now] obtain k g' w' where
    res: "lTCPWindowRxCheck now ?c (of_nat l) ulSpace g w = Some (0, g', w')"
    and k: "l \<le> k" "k < 2 ^ 31" "rx_next w' = ?c + of_nat k" "ulUserDataLength w' = of_nat (k - l)"
    and cov: "{l..<k} \<subseteq> (\<Union>i\<in>set (xRxSegments w). seg_range g ?c i)"
    and gap: "k \<notin> (\<Union>i\<in>set (xRxSegments w). seg_range g ?c i)"
    and rx': "xRxSegments w' = filter (\<lambda>i. k \<le> seg_lo g ?c i) (xRxSegments w)"
    and keep: "\<forall>i\<in>set (xRxSegments w'). seg g' i = seg g i \<and> k < seg_lo g ?c i"
    and ok': "win_ok g' w'" "mset (descriptors g' w') = mset (descriptors g w)"
    by (elim exE conjE) (rule that; assumption)
  have fg: "first_gap (?N + l) (bytes_of (waiting A)) = ?N + k"
  proof (rule first_gapI)
    show "?N + k \<notin> bytes_of (waiting A)" using gap unfolding waiting_bytes [OF rel] by auto
    show "{?N + l..<?N + k} \<subseteq> bytes_of (waiting A)"
    proof
      fix x assume "x \<in> {?N + l..<?N + k}"
      then have x: "x - ?N \<in> {l..<k}" "?N + (x - ?N) = x" by auto
      from imageI [OF subsetD [OF cov x(1)], of "\<lambda>x. ?N + x"]
      show "x \<in> bytes_of (waiting A)" unfolding waiting_bytes [OF rel] x(2) .
    qed
  qed (use k in simp)
  let ?A = "\<lparr>delivered = ?N + k, waiting = {x \<in> waiting A. ?N + k \<le> fst x}\<rparr>"
  have spec: "snd (rx_spec ?N l (unat ulSpace) d A) = ?A" using l(3) fg by (simp add: rx_spec_def Let_def)
  have sub: "set (xRxSegments w') = {i \<in> set (xRxSegments w). k \<le> seg_lo g ?c i}" using rx' by auto
  have st': "stored_ok g' ?c (xRxSegments w')"
    by (rule stored_ok_cong [OF stored_ok_subset [OF r(3)]]) (use sub keep in auto)
  have lo_same: "seg_lo g' ?c i = seg_lo g ?c i" "seg_len g' i = seg_len g i" if "i \<in> set (xRxSegments w')" for i
    using keep that by (simp_all add: seg_lo_def seg_len_def)
  have lo': "seg_lo g' (rx_next w') i = seg_lo g ?c i - k" if "i \<in> set (xRxSegments w')" for i
    using seg_lo_rebase [of k g' ?c i] lo_same(1) [OF that] bspec [OF keep that] stored_okD(3) [OF st' that] k(3) by simp
  have "rx_rel isn g' w' ?A"
    unfolding rx_rel_def
  proof (intro conjI ballI)
    show "rx_next w' = isn + of_nat (delivered ?A)" using k(3) r(2) by simp
    show "stored_ok g' (rx_next w') (xRxSegments w')"
      unfolding k(3) by (rule stored_ok_rebase [OF st']) (use keep lo_same in fastforce)
    show "0 < seg_lo g' (rx_next w') i" if "i \<in> set (xRxSegments w')" for i
      using lo' [OF that] bspec [OF keep that] by simp
    show "waiting ?A = (\<lambda>i. (delivered ?A + seg_lo g' (rx_next w') i, seg_len g' i)) ` set (xRxSegments w')"
    proof -
      have "waiting ?A = (\<lambda>i. (?N + seg_lo g ?c i, seg_len g i)) ` set (xRxSegments w')"
        unfolding sub using r(5) by auto
      also have "\<dots> = (\<lambda>i. (delivered ?A + seg_lo g' (rx_next w') i, seg_len g' i)) ` set (xRxSegments w')"
        by (rule image_cong) (use lo' lo_same keep in auto)
      finally show ?thesis .
    qed
  qed (rule ok'(1))
  then show ?thesis
    using res k(4) ok'(2) unfolding spec r(2) [symmetric]
    by (intro exI [of _ g'] exI [of _ w']) simp
qed

lemma rx_refines_ahead:
  assumes rel: "rx_rel isn g w A" and p: "delivered A < p" "0 < l" "p + l < delivered A + 2 ^ 31"
    and free: "p \<in> fst ` waiting A \<or> {p..<p + l} \<inter> bytes_of (waiting A) = {}" and space: "unat ulSpace < 2 ^ 31"
  shows "\<exists>g' w'. lTCPWindowRxCheck now (isn + of_nat p) (of_nat l) ulSpace g w =
       Some (fst (rx_spec p l (unat ulSpace) (xSegmentList g \<noteq> []) A), g', w') \<and>
     rx_rel isn g' w' (snd (rx_spec p l (unat ulSpace) (xSegmentList g \<noteq> []) A)) \<and>
     mset (descriptors g' w') = mset (descriptors g w)"
proof -
  let ?c = "rx_next w" and ?N = "delivered A" and ?d = "xSegmentList g \<noteq> []"
  define k where "k = p - ?N"
  note r = rx_relD [OF rel]
  have k: "0 < k" "k + l < 2 ^ 31" "p = ?N + k" using p by (auto simp: k_def)
  have n: "isn + of_nat p = ?c + of_nat k" using r(2) k(3) by simp
  have known: "p \<in> fst ` waiting A \<longleftrightarrow> (\<exists>i\<in>set (xRxSegments w). seg_lo g ?c i = k)"
    unfolding r(5) k(3) by force
  from rx_ahead [OF r(1,3) refl k(1) p(2) k(2) space, of now, folded n]
  obtain res g' w' where res: "lTCPWindowRxCheck now (isn + of_nat p) (of_nat l) ulSpace g w = Some (res, g', w')"
    and w': "rx w' = rx w" "win_ok g' w'" "mset (descriptors g' w') = mset (descriptors g w)"
    and out: "if unat ulSpace < k + l \<or> (\<exists>i\<in>set (xRxSegments w). seg_lo g ?c i = k) \<or> xSegmentList g = []
      then res = -1 \<and> g' = g \<and> xRxSegments w' = xRxSegments w
      else res = int k \<and>
        (\<exists>i. i \<notin> set (xRxSegments w) \<and> xRxSegments w' = xRxSegments w @ [i] \<and> seg_lo g' ?c i = k \<and>
           lDataLength (seg g' i) = int l \<and> (\<forall>j. j \<noteq> i \<longrightarrow> seg g' j = seg g j))"
    by (elim exE conjE) (rule that; assumption)
  show ?thesis
  proof (cases "unat ulSpace < k + l \<or> (\<exists>i\<in>set (xRxSegments w). seg_lo g ?c i = k) \<or> xSegmentList g = []")
    case True
    then have same: "res = -1" "g' = g" "xRxSegments w' = xRxSegments w" using out by auto
    have "rx_spec p l (unat ulSpace) ?d A = (-1, A)"
      using True p known k(3) by (auto simp: rx_spec_def)
    moreover have "rx_rel isn g' w' A" using rx_rel_keep [OF rel _ w'(1) same(3)] w'(2) same(2) by simp
    ultimately show ?thesis using res same w'(3) by (intro exI [of _ g'] exI [of _ w']) simp
  next
    case False
    then obtain i where i: "res = int k" "i \<notin> set (xRxSegments w)" "xRxSegments w' = xRxSegments w @ [i]"
      "seg_lo g' ?c i = k" "lDataLength (seg g' i) = int l" "\<forall>j. j \<noteq> i \<longrightarrow> seg g' j = seg g j"
      using out by auto
    let ?A = "A\<lparr>waiting := insert (p, l) (waiting A)\<rparr>"
    have spec: "rx_spec p l (unat ulSpace) ?d A = (int k, ?A)"
      using False p known k(3) by (auto simp: rx_spec_def)
    have same: "seg_lo g' ?c j = seg_lo g ?c j" "seg_len g' j = seg_len g j" "seg_range g' ?c j = seg_range g ?c j"
      if "j \<in> set (xRxSegments w)" for j
      using i(2,6) that by (auto simp: seg_lo_def seg_len_def seg_range_def)
    have range_i: "seg_range g' ?c i = {k..<k + l}" using i(4,5) by (simp add: seg_range_def seg_len_def)
    have apart: "seg_range g ?c j \<inter> {k..<k + l} = {}" if "j \<in> set (xRxSegments w)" for j
    proof (rule ccontr)
      assume "seg_range g ?c j \<inter> {k..<k + l} \<noteq> {}"
      then obtain x where "x \<in> seg_range g ?c j" "x \<in> {k..<k + l}" by blast
      then have "?N + x \<in> {p..<p + l} \<inter> bytes_of (waiting A)"
        unfolding waiting_bytes [OF rel] using that k(3) by auto
      then show False using free known False by blast
    qed
    have disj: "seg_range g' ?c a \<inter> seg_range g' ?c b = {}"
      if "a \<in> set (xRxSegments w')" "b \<in> set (xRxSegments w')" "a \<noteq> b" for a b
    proof -
      have "a \<in> set (xRxSegments w) \<or> a = i" "b \<in> set (xRxSegments w) \<or> b = i" using that i(3) by auto
      then show ?thesis
        using that(3) apart range_i same(3) r(3) unfolding stored_ok_def by (metis Int_commute)
    qed
    have st: "stored_ok g' ?c (xRxSegments w')"
      unfolding stored_ok_def
    proof (intro conjI ballI impI)
      fix a assume "a \<in> set (xRxSegments w')"
      then consider "a = i" | "a \<in> set (xRxSegments w)" using i(3) by auto
      then show "0 < lDataLength (seg g' a)" "seg_lo g' ?c a + seg_len g' a < 2 ^ 31"
        by (cases, use i p k in \<open>simp add: seg_len_def\<close>,
            use stored_okD [OF r(3)] same i(2,6) in \<open>metis\<close>)+
    qed (rule disj)
    have "rx_rel isn g' w' ?A"
      unfolding rx_rel_def
    proof (intro conjI ballI)
      show "rx_next w' = isn + of_nat (delivered ?A)" using w'(1) r(2) by simp
      show "stored_ok g' (rx_next w') (xRxSegments w')" using st w'(1) by simp
      show "0 < seg_lo g' (rx_next w') j" if "j \<in> set (xRxSegments w')" for j
        using that i(3,4) k(1) same(1) r(4) w'(1) by (cases "j = i") auto
      show "waiting ?A = (\<lambda>j. (delivered ?A + seg_lo g' (rx_next w') j, seg_len g' j)) ` set (xRxSegments w')"
        using i(3,4,5) k(3) same r(5) w'(1) by (simp add: seg_len_def)
    qed (rule w'(2))
    then show ?thesis using res spec i(1) w'(3) by (intro exI [of _ g'] exI [of _ w']) simp
  qed
qed

text \<open>The answer and the step of the window, for every kind of packet that conforms.\<close>

lemma rx_check_refines:
  assumes "rx_rel isn g w A" and "conforms p l A" and "unat ulSpace < 2 ^ 31"
  shows "\<exists>g' w'. lTCPWindowRxCheck now (isn + of_nat p) (of_nat l) ulSpace g w =
       Some (fst (rx_spec p l (unat ulSpace) (xSegmentList g \<noteq> []) A), g', w') \<and>
     rx_rel isn g' w' (snd (rx_spec p l (unat ulSpace) (xSegmentList g \<noteq> []) A)) \<and>
     mset (descriptors g' w') = mset (descriptors g w) \<and>
     (p = delivered A \<and> l \<le> unat ulSpace \<longrightarrow>
        ulUserDataLength w' =
          of_nat (delivered (snd (rx_spec p l (unat ulSpace) (xSegmentList g \<noteq> []) A)) - (p + l)))"
proof -
  let ?d = "xSegmentList g \<noteq> []"
  note r = rx_relD [OF assms(1)]
  have l: "0 < l" "l < 2 ^ 31" using assms(2) by (auto simp: conforms_def)
  consider (behind) "p + l \<le> delivered A" "delivered A < p + 2 ^ 31"
    | (expected) "p = delivered A" "\<forall>(q, m)\<in>waiting A. q < p + l \<longrightarrow> p + l \<le> q + m"
    | (ahead) "delivered A < p" "p + l < delivered A + 2 ^ 31"
      "p \<in> fst ` waiting A \<or> {p..<p + l} \<inter> bytes_of (waiting A) = {}"
    using assms(2) unfolding conforms_def by blast
  then show ?thesis
  proof cases
    case behind
    have nxt: "rx_next w = (isn + of_nat p) + of_nat (delivered A - p)" using r(2) behind l by (simp add: of_nat_diff)
    have "l \<le> delivered A - p" "delivered A - p < 2 ^ 31" using behind by auto
    from rx_behind [OF r(1) nxt l(1) this, of now ulSpace]
    obtain w' where w': "lTCPWindowRxCheck now (isn + of_nat p) (of_nat l) ulSpace g w = Some (-1, g, w')"
      "rx w' = rx w" "xRxSegments w' = xRxSegments w" "win_ok g w'" "descriptors g w' = descriptors g w" by blast
    have "rx_spec p l (unat ulSpace) ?d A = (-1, A)" using behind l by (simp add: rx_spec_def)
    then show ?thesis
      using w' rx_rel_keep [OF assms(1) w'(4,2,3)] behind l by (intro exI [of _ g] exI [of _ w']) simp
  next
    case expected
    show ?thesis
    proof (cases "l \<le> unat ulSpace")
      case True
      then have "fst (rx_spec p l (unat ulSpace) ?d A) = 0" using expected(1) by (simp add: rx_spec_def Let_def)
      moreover have "\<forall>(q, m)\<in>waiting A. q < delivered A + l \<longrightarrow> delivered A + l \<le> q + m" using expected by simp
      note rx_refines_expected [OF assms(1) l True this, where now = now and d = ?d]
      ultimately show ?thesis using expected(1) by simp blast
    next
      case False
      let ?w' = "w\<lparr>ucOptionLength := 0, ulUserDataLength := 0\<rparr>"
      have "ulSpace < of_nat l" using False l by (simp add: word_less_nat_alt unat_of_nat32)
      then have "lTCPWindowRxCheck now (isn + of_nat p) (of_nat l) ulSpace g w = Some (-1, g, ?w')"
        using r(2) expected(1) by (simp add: lTCPWindowRxCheck_def Let_def)
      moreover have "rx_spec p l (unat ulSpace) ?d A = (-1, A)" using False expected(1) by (simp add: rx_spec_def)
      moreover have "win_ok g ?w'" "descriptors g ?w' = descriptors g w" using win_ok_frame [OF r(1), of ?w'] by simp_all
      moreover have "rx_rel isn g ?w' A" using rx_rel_keep [OF assms(1), of ?w'] calculation by simp
      ultimately show ?thesis using False by (intro exI [of _ g] exI [of _ ?w']) simp
    qed
  next
    case ahead
    then show ?thesis using rx_refines_ahead [OF assms(1) ahead(1) l(1) ahead(2,3) assms(3), where now = now] by auto
  qed
qed

text \<open>
  Claim C2. For packets that agree with the boundaries of the stored segments and a buffer of less than
  2^31 bytes, \<open>lTCPWindowRxCheck\<close> implements the abstract receiver.  A packet agrees (\<open>conforms\<close>) if it
  lies wholly before the expected byte, or starts at it and a stored segment that starts inside it
  reaches its end, or lies ahead and starts where a stored segment starts or overlaps none, always within
  2^31 bytes.  On each such packet the function returns, answers what the specification answers, and
  leaves the window representing the specification's state, no descriptor being lost; and
  \<open>ulUserDataLength\<close> is the number of stored bytes that became deliverable.  Packets that cut across the
  stored boundaries are not covered, and the code treats them wrongly: see \<open>rx_confirm_backwards\<close> and
  \<open>rx_overlap_leaks\<close> at the end of this theory.
\<close>

theorem tcp_rx_refines:
  assumes "rx_rel isn g w A" and "conforms p l A" and "unat ulSpace < 2 ^ 31"
  shows "\<exists>g' w'. lTCPWindowRxCheck now (isn + of_nat p) (of_nat l) ulSpace g w =
       Some (fst (rx_spec p l (unat ulSpace) (xSegmentList g \<noteq> []) A), g', w') \<and>
     rx_rel isn g' w' (snd (rx_spec p l (unat ulSpace) (xSegmentList g \<noteq> []) A)) \<and>
     mset (descriptors g' w') = mset (descriptors g w) \<and>
     (p = delivered A \<and> l \<le> unat ulSpace \<longrightarrow>
        ulUserDataLength w' =
          of_nat (delivered (snd (rx_spec p l (unat ulSpace) (xSegmentList g \<noteq> []) A)) - (p + l)))"
  by (rule rx_check_refines [OF assms])

section \<open>The segments of a stream\<close>

text \<open>The peer cuts its stream at the positions \<open>cuts 0 = 0 < cuts 1 < \<dots>\<close>.\<close>

lemma cut_between:
  fixes cuts :: "nat \<Rightarrow> nat"
  assumes "cuts a \<le> x" "x < cuts b" "a \<le> b"
  shows "\<exists>j. a \<le> j \<and> j < b \<and> cuts j \<le> x \<and> x < cuts (Suc j)"
  using assms
proof (induction b)
  case (Suc b)
  then have "a \<noteq> Suc b" by auto
  then have "a \<le> b" using Suc.prems(3) by simp
  show ?case
  proof (cases "x < cuts b")
    case True
    then obtain j where "a \<le> j \<and> j < b \<and> cuts j \<le> x \<and> x < cuts (Suc j)" using Suc \<open>a \<le> b\<close> by blast
    then show ?thesis by (intro exI [of _ j]) simp
  next
    case False
    then show ?thesis using Suc.prems \<open>a \<le> b\<close> by (intro exI [of _ b]) simp
  qed
qed simp

definition segment :: "(nat \<Rightarrow> nat) \<Rightarrow> nat \<Rightarrow> nat \<times> nat" where
  "segment cuts k = (cuts k, cuts (Suc k) - cuts k)"

text \<open>The state of a transfer that has taken the segments \<open>T\<close>.\<close>

definition progress :: "(nat \<Rightarrow> nat) \<Rightarrow> nat set \<Rightarrow> reassembly" where
  "progress cuts T =
     \<lparr>delivered = cuts (first_gap 0 T), waiting = segment cuts ` {k \<in> T. first_gap 0 T < k}\<rparr>"

lemma first_gap_0:
  assumes "finite T" shows "first_gap 0 T \<notin> T" "{0..<first_gap 0 T} \<subseteq> T"
proof -
  obtain m where "m \<notin> T" using ex_new_if_finite [OF infinite_UNIV_nat assms] by blast
  then show "first_gap 0 T \<notin> T" unfolding first_gap_def by simp (rule LeastI)
  show "{0..<first_gap 0 T} \<subseteq> T"
    unfolding first_gap_def by (auto dest: not_less_Least)
qed

lemma first_gap_0_eq: "m \<notin> T \<Longrightarrow> {0..<m} \<subseteq> T \<Longrightarrow> first_gap 0 T = m"
  by (rule first_gapI) auto

lemma segment_bytes:
  assumes "strict_mono cuts"
  shows "x \<in> bytes_of (segment cuts ` K) \<longleftrightarrow> (\<exists>k\<in>K. cuts k \<le> x \<and> x < cuts (Suc k))"
  using assms [THEN strict_monoD, of _ "Suc _"] by (auto simp: bytes_of_def segment_def less_imp_le)

lemma progress_next:
  assumes mono: "strict_mono cuts" and fin: "finite T"
  defines "m \<equiv> first_gap 0 T"
  shows "first_gap (cuts (Suc m)) (bytes_of (waiting (progress cuts T))) = cuts (first_gap 0 (insert m T))"
proof -
  let ?n = "first_gap 0 (insert m T)"
  have n: "?n \<notin> insert m T" "{0..<?n} \<subseteq> insert m T" using first_gap_0 [of "insert m T"] fin by simp_all
  have less: "m < ?n"
    using n first_gap_0 [OF fin] unfolding m_def [symmetric]
    by (metis atLeastLessThan_iff insertCI linorder_neqE_nat subsetD zero_le)
  have W: "waiting (progress cuts T) = segment cuts ` {k \<in> T. m < k}" by (simp add: progress_def m_def)
  show ?thesis
  proof (rule first_gapI)
    show "cuts (Suc m) \<le> cuts ?n" using less mono by (simp add: strict_mono_less_eq)
    show "cuts ?n \<notin> bytes_of (waiting (progress cuts T))"
    proof
      assume "cuts ?n \<in> bytes_of (waiting (progress cuts T))"
      then obtain j where "j \<in> T" "cuts j \<le> cuts ?n" "cuts ?n < cuts (Suc j)"
        unfolding W segment_bytes [OF mono] by blast
      then have "j = ?n" using mono by (simp add: strict_mono_less_eq strict_mono_less)
      then show False using \<open>j \<in> T\<close> n(1) by simp
    qed
    show "{cuts (Suc m)..<cuts ?n} \<subseteq> bytes_of (waiting (progress cuts T))"
    proof
      fix x assume "x \<in> {cuts (Suc m)..<cuts ?n}"
      then obtain j where j: "Suc m \<le> j" "j < ?n" "cuts j \<le> x" "x < cuts (Suc j)"
        using cut_between [of cuts "Suc m" x ?n] less by auto
      then have "j \<in> {k \<in> T. m < k}" using n(2) by fastforce
      then show "x \<in> bytes_of (waiting (progress cuts T))" unfolding W segment_bytes [OF mono] using j by blast
    qed
  qed
qed

text \<open>The specification, on one arrival.\<close>

lemma progress_step:
  assumes mono: "strict_mono cuts" and fin: "finite T"
    and spec_def: "spec = rx_spec (cuts k) (cuts (Suc k) - cuts k) space d (progress cuts T)"
  shows "snd spec = progress cuts (if 0 \<le> fst spec then insert k T else T)"
proof -
  let ?m = "first_gap 0 T" and ?A = "progress cuts T"
  have step: "cuts k < cuts (Suc k)" using mono by (simp add: strict_mono_less)
  have N: "delivered ?A = cuts ?m" and W: "waiting ?A = segment cuts ` {j \<in> T. ?m < j}" by (simp_all add: progress_def)
  consider "k < ?m" | "k = ?m" | "?m < k" by linarith
  then show ?thesis
  proof cases
    case 1
    then have "cuts k < cuts ?m" "cuts (Suc k) \<le> cuts ?m" using mono by (simp_all add: strict_mono_less strict_mono_less_eq)
    then have "spec = (-1, ?A)" unfolding spec_def rx_spec_def N using step by simp
    then show ?thesis by simp
  next
    case 2
    show ?thesis
    proof (cases "cuts (Suc k) - cuts k \<le> space")
      case True
      let ?n = "first_gap 0 (insert k T)"
      have n: "first_gap (cuts (Suc k)) (bytes_of (waiting ?A)) = cuts ?n"
        using progress_next [OF mono fin] 2 by simp
      have "spec = (0, \<lparr>delivered = cuts ?n, waiting = {x \<in> waiting ?A. cuts ?n \<le> fst x}\<rparr>)"
        unfolding spec_def rx_spec_def N using 2 True step n by (simp add: Let_def)
      moreover have "{x \<in> waiting ?A. cuts ?n \<le> fst x} = segment cuts ` {j \<in> insert k T. ?n < j}"
      proof -
        have "?n \<notin> insert k T" "{0..<?n} \<subseteq> insert k T" using first_gap_0 [of "insert k T"] fin by simp_all
        moreover have "?m \<notin> T" "{0..<?m} \<subseteq> T" using first_gap_0 [OF fin] by simp_all
        ultimately have "?m < ?n" using 2 by (metis atLeastLessThan_iff insertCI linorder_neqE_nat subsetD zero_le)
        have eq: "{j \<in> T. ?m < j \<and> ?n \<le> j} = {j \<in> insert k T. ?n < j}"
          using 2 \<open>?m < ?n\<close> \<open>?n \<notin> insert k T\<close> by (auto simp: le_less)
        have "{x \<in> waiting ?A. cuts ?n \<le> fst x} = segment cuts ` {j \<in> T. ?m < j \<and> ?n \<le> j}"
          unfolding W using mono by (auto simp: segment_def strict_mono_less_eq)
        then show ?thesis using eq by simp
      qed
      ultimately show ?thesis by (simp add: progress_def)
    next
      case False
      then have "spec = (-1, ?A)" unfolding spec_def rx_spec_def N using 2 by simp
      then show ?thesis by simp
    qed
  next
    case 3
    then have lt: "cuts ?m < cuts k" using mono by (simp add: strict_mono_less)
    have known: "cuts k \<in> fst ` waiting ?A \<longleftrightarrow> k \<in> T"
      unfolding W using 3 strict_mono_eq [OF mono] by (force simp: segment_def)
    show ?thesis
    proof (cases "space < cuts (Suc k) - cuts ?m \<or> k \<in> T \<or> \<not> d")
      case True
      then have "spec = (-1, ?A)" unfolding spec_def rx_spec_def N known using lt step by auto
      then show ?thesis by simp
    next
      case False
      then have spec: "spec = (int (cuts k - cuts ?m), ?A\<lparr>waiting := insert (segment cuts k) (waiting ?A)\<rparr>)"
        unfolding spec_def rx_spec_def N known using lt step by (auto simp: segment_def)
      have "first_gap 0 (insert k T) = ?m" using first_gap_0 [OF fin] 3 by (intro first_gap_0_eq) auto
      moreover have "{j \<in> insert k T. ?m < j} = insert k {j \<in> T. ?m < j}" using 3 by auto
      ultimately have "progress cuts (insert k T) = ?A\<lparr>waiting := insert (segment cuts k) (waiting ?A)\<rparr>"
        by (simp add: progress_def)
      then show ?thesis using spec by simp
    qed
  qed
qed

lemma progress_conforms:
  assumes mono: "strict_mono cuts" and small: "cuts (Suc k) < 2 ^ 31" "cuts (first_gap 0 T) < 2 ^ 31"
  shows "conforms (cuts k) (cuts (Suc k) - cuts k) (progress cuts T)"
proof -
  let ?m = "first_gap 0 T"
  have step: "cuts k < cuts (Suc k)" using mono by (simp add: strict_mono_less)
  consider "k < ?m" | "k = ?m" | "?m < k" by linarith
  then show ?thesis
  proof cases
    case 1
    then have "cuts (Suc k) \<le> cuts ?m" using mono by (simp add: strict_mono_less_eq)
    then show ?thesis using step small by (simp add: conforms_def progress_def)
  next
    case 2
    then show ?thesis using step small strict_mono_less [OF mono]
      by (auto simp: conforms_def progress_def segment_def)
  next
    case 3
    then have lt: "cuts ?m < cuts k" using mono by (simp add: strict_mono_less)
    have "{cuts k..<cuts k + (cuts (Suc k) - cuts k)} \<inter> bytes_of (waiting (progress cuts T)) = {}" if "k \<notin> T"
    proof (rule ccontr)
      assume "{cuts k..<cuts k + (cuts (Suc k) - cuts k)} \<inter> bytes_of (waiting (progress cuts T)) \<noteq> {}"
      then obtain x j where "cuts k \<le> x" "x < cuts (Suc k)" "j \<in> T" "cuts j \<le> x" "x < cuts (Suc j)"
        using step by (auto simp: progress_def segment_bytes [OF mono])
      then have "cuts k < cuts (Suc j)" "cuts j < cuts (Suc k)" by linarith+
      then show False using mono that \<open>j \<in> T\<close> by (metis strict_mono_less less_Suc_eq_le le_antisym)
    qed
    moreover have "cuts k \<in> fst ` waiting (progress cuts T)" if "k \<in> T"
      using that 3 by (force simp: progress_def segment_def)
    ultimately show ?thesis using step small lt by (cases "k \<in> T") (auto simp: conforms_def progress_def)
  qed
qed

lemma progress_small:
  fixes cuts :: "nat \<Rightarrow> nat"
  assumes "finite T" "cuts 0 = 0" "\<forall>k\<in>T. cuts (Suc k) < 2 ^ 31"
  shows "cuts (first_gap 0 T) < 2 ^ 31"
proof (cases "first_gap 0 T")
  case (Suc m)
  then have "m \<in> T" using first_gap_0(2) [OF assms(1)] by fastforce
  then show ?thesis using assms(3) Suc by simp
qed (simp add: assms(2))

text \<open>A window that expects its first byte; the counter wraps soon.\<close>

definition demo_window :: TCPWindow_t where
  "demo_window = vTCPWindowInit 0xFFFFFFF0 1000 1460
     \<lparr>bHasInit = False, bSendFullSize = False, bTimeStamps = False, ulRxWindowLength = 5840, ulTxWindowLength = 5840,
      rx = \<lparr>ulFirstSequenceNumber = 0, ulCurrentSequenceNumber = 0, ulFINSequenceNumber = 0, ulHighestSequenceNumber = 0\<rparr>,
      tx = \<lparr>ulFirstSequenceNumber = 0, ulCurrentSequenceNumber = 0, ulFINSequenceNumber = 0, ulHighestSequenceNumber = 0\<rparr>,
      ulOurSequenceNumber = 0, ulUserDataLength = 0, ulNextTxSequenceNumber = 0, lSRTT = 0, ucOptionLength = 0,
      lists_initialised = True, xPriorityQueue = [], xTxQueue = [], xWaitQueue = [], pxHeadSegment = None,
      ulOptionsData = [0, 0, 0], xTxSegments = [], xRxSegments = [], usMSS = 0, usMSSInit = 1460\<rparr>"

definition demo_pool :: seg_pool where
  "demo_pool = snd (prvCreateSectors True \<lparr>seg_allocated = False, seg_array = (\<lambda>_. null_segment), xSegmentList = []\<rparr>)"

lemma demo_window_fields:
  "win_ok demo_pool demo_window" "xRxSegments demo_window = []" "ulCurrentSequenceNumber (rx demo_window) = 0xFFFFFFF0"
  by (simp_all add: win_ok_def descriptors_def queues_def demo_pool_def demo_window_def prvCreateSectors_def
      vTCPWindowInit_def Let_def)

theorem tcp_rx_refines_witness:
  "\<exists>g' w'. lTCPWindowRxCheck 7 (0xFFFFFFF0 + of_nat 100) (of_nat 50) 5840 demo_pool demo_window = Some (100, g', w') \<and>
     rx_rel 0xFFFFFFF0 g' w' \<lparr>delivered = 0, waiting = {(100, 50)}\<rparr>"
proof -
  let ?A = "\<lparr>delivered = 0, waiting = {}\<rparr>"
  have rel: "rx_rel 0xFFFFFFF0 demo_pool demo_window ?A"
    using demo_window_fields by (simp add: rx_rel_def stored_ok_def)
  have conf: "conforms 100 50 ?A" by (simp add: conforms_def bytes_of_def)
  have "xSegmentList demo_pool \<noteq> []"
    by (simp add: demo_pool_def prvCreateSectors_def ipconfigTCP_WIN_SEG_COUNT_def)
  then have "rx_spec 100 50 5840 (xSegmentList demo_pool \<noteq> []) ?A = (100, \<lparr>delivered = 0, waiting = {(100, 50)}\<rparr>)"
    by (simp add: rx_spec_def)
  then show ?thesis using tcp_rx_refines [OF rel conf, of 5840 7] by auto
qed

text \<open>
  Off the segment boundaries the receiver misbehaves.  When a stored segment ends inside the
  expected packet, the acknowledgement stops at its end, below the data just delivered, and
  \<open>ulUserDataLength\<close> is negative; and a packet that overlaps the expected byte from below is
  refused with a negative result, yet takes a descriptor that no later packet releases, so that
  \<open>xTCPWindowRxEmpty\<close> never holds again.
\<close>

lemma rx_confirm_backwards:
  "(case lTCPWindowRxCheck 0 (0xFFFFFFF0 + 50) 10 5840 demo_pool demo_window of
      Some (_, g, w) \<Rightarrow>
        (case lTCPWindowRxCheck 0 0xFFFFFFF0 100 5840 g w of
           Some (r, g', w') \<Rightarrow> r = 0 \<and> ulCurrentSequenceNumber (rx w') = 0xFFFFFFF0 + 60 \<and> ulUserDataLength w' = - 40
         | None \<Rightarrow> False)
    | None \<Rightarrow> False)"
  by code_simp

lemma rx_overlap_leaks:
  "(case lTCPWindowRxCheck 0 (0xFFFFFFF0 - 50) 100 5840 demo_pool demo_window of
      Some (r, g, w) \<Rightarrow> r = - 50 \<and> ulCurrentSequenceNumber (rx w) = 0xFFFFFFF0 \<and> length (xRxSegments w) = 1 \<and>
        \<not> xTCPWindowRxEmpty w
    | None \<Rightarrow> False)"
  by code_simp

end
