(* ===== verification/Tcp_Tx.thy ===== *)
theory Tcp_Tx
  imports Tcp_Win
begin

text \<open>
  The sending side.  The segments of a connection lie one behind the other in sequence space,
  from the oldest unacknowledged byte to the next byte to be queued; those not acknowledged are
  each in one of the three queues.  This is shown to hold after any sequence of additions,
  transmissions, timeouts and (selective) acknowledgements of data that was sent.
\<close>

section \<open>Consecutive segments\<close>

definition tx_bytes :: "seg_pool \<Rightarrow> nat \<Rightarrow> nat" where
  "tx_bytes g i = nat (lDataLength (seg g i))"

definition tx_len :: "seg_pool \<Rightarrow> nat list \<Rightarrow> nat" where
  "tx_len g is = sum_list (map (tx_bytes g) is)"

primrec tx_chain :: "seg_pool \<Rightarrow> u32 \<Rightarrow> nat list \<Rightarrow> bool" where
  "tx_chain g n [] \<longleftrightarrow> True"
| "tx_chain g n (i # is) \<longleftrightarrow>
     ulSequenceNumber (seg g i) = n \<and> 0 < lDataLength (seg g i) \<and> lDataLength (seg g i) \<le> lMaxLength (seg g i) \<and>
     tx_chain g (n + of_nat (tx_bytes g i)) is"

lemma tx_len_simps [simp]:
  "tx_len g [] = 0" "tx_len g (i # is) = tx_bytes g i + tx_len g is" "tx_len g (is @ js) = tx_len g is + tx_len g js"
  by (simp_all add: tx_len_def)

lemma tx_chain_append [simp]:
  "tx_chain g n (is @ js) \<longleftrightarrow> tx_chain g n is \<and> tx_chain g (n + of_nat (tx_len g is)) js"
  by (induction "is" arbitrary: n) (auto simp: add.assoc)

lemma tx_len_cong: "(\<And>i. i \<in> set is \<Longrightarrow> lDataLength (seg g' i) = lDataLength (seg g i)) \<Longrightarrow> tx_len g' is = tx_len g is"
  by (induction "is") (auto simp: tx_bytes_def)

text \<open>What a segment keeps while flags, counters and timers change.\<close>

definition same_data :: "TCPSegment_t \<Rightarrow> TCPSegment_t \<Rightarrow> bool" where
  "same_data s s' \<longleftrightarrow> ulSequenceNumber s' = ulSequenceNumber s \<and> lDataLength s' = lDataLength s \<and>
     lMaxLength s' = lMaxLength s \<and> lStreamPos s' = lStreamPos s"

lemma same_data_refl [simp]: "same_data s s"
  by (simp add: same_data_def)

lemma same_data_trans: "same_data s t \<Longrightarrow> same_data t u \<Longrightarrow> same_data s u"
  by (simp add: same_data_def)

lemma tx_chain_cong:
  "(\<And>i. i \<in> set is \<Longrightarrow> same_data (seg g i) (seg g' i)) \<Longrightarrow> tx_chain g' n is = tx_chain g n is"
  by (induction "is" arbitrary: n) (auto simp: tx_bytes_def same_data_def)

lemma tx_len_same: "(\<And>i. i \<in> set is \<Longrightarrow> same_data (seg g i) (seg g' i)) \<Longrightarrow> tx_len g' is = tx_len g is"
  by (rule tx_len_cong) (simp add: same_data_def)

lemma tx_chain_pos: "tx_chain g n is \<Longrightarrow> i \<in> set is \<Longrightarrow> 0 < tx_bytes g i \<and> 0 < lDataLength (seg g i)"
  by (induction "is" arbitrary: n) (auto simp: tx_bytes_def)

lemma word_of_len: "0 < lDataLength (seg g i) \<Longrightarrow> word_of_int (lDataLength (seg g i)) = (of_nat (tx_bytes g i) :: u32)"
  by (simp add: tx_bytes_def)

section \<open>The invariant of the sending side\<close>

abbreviation una :: "TCPWindow_t \<Rightarrow> u32" where
  "una w \<equiv> ulCurrentSequenceNumber (tx w)"

definition tx_inv :: "seg_pool \<Rightarrow> TCPWindow_t \<Rightarrow> bool" where
  "tx_inv g w \<longleftrightarrow> win_ok g w \<and> tx_chain g (una w) (xTxSegments w) \<and> tx_len g (xTxSegments w) < 2 ^ 31 \<and>
     ulNextTxSequenceNumber w = una w + of_nat (tx_len g (xTxSegments w)) \<and>
     (\<exists>sent. xTxSegments w = sent @ xTxQueue w \<and>
        ulHighestSequenceNumber (tx w) = una w + of_nat (tx_len g sent)) \<and>
     (\<forall>i\<in>set (xTxSegments w). bAcked (seg g i) \<longleftrightarrow> i \<notin> set (queues w)) \<and>
     (\<forall>i. pxHeadSegment w = Some i \<longrightarrow> xTxQueue w \<noteq> [] \<and> i = last (xTxQueue w))"

text \<open>The bytes sent and not acknowledged.\<close>

definition outstanding :: "TCPWindow_t \<Rightarrow> nat" where
  "outstanding w = off (una w) (ulHighestSequenceNumber (tx w))"

lemma tx_invD:
  assumes "tx_inv g w"
  shows "win_ok g w" "tx_chain g (una w) (xTxSegments w)" "tx_len g (xTxSegments w) < 2 ^ 31"
    "ulNextTxSequenceNumber w = una w + of_nat (tx_len g (xTxSegments w))"
    "\<And>i. i \<in> set (xTxSegments w) \<Longrightarrow> bAcked (seg g i) \<longleftrightarrow> i \<notin> set (queues w)"
    "pxHeadSegment w = Some i \<Longrightarrow> xTxQueue w \<noteq> [] \<and> i = last (xTxQueue w)"
  using assms by (auto simp: tx_inv_def)

lemma tx_inv_sent:
  assumes "tx_inv g w"
  obtains sent where "xTxSegments w = sent @ xTxQueue w"
    "ulHighestSequenceNumber (tx w) = una w + of_nat (tx_len g sent)" "outstanding w = tx_len g sent"
proof -
  obtain sent where s: "xTxSegments w = sent @ xTxQueue w"
    "ulHighestSequenceNumber (tx w) = una w + of_nat (tx_len g sent)"
    using assms by (auto simp: tx_inv_def)
  moreover have "tx_len g sent < 2 ^ 32" using tx_invD(3) [OF assms] s(1) by simp
  ultimately show ?thesis by (intro that [of sent]) (simp_all add: outstanding_def unat_of_nat32)
qed

section \<open>Cumulative acknowledgement\<close>

text \<open>
  The segments an acknowledgement of \<open>k\<close> bytes releases: from the left, those that lie within
  the \<open>k\<close> bytes, or that a SACK had marked before.
\<close>

fun ack_prefix :: "seg_pool \<Rightarrow> nat \<Rightarrow> nat list \<Rightarrow> nat list" where
  "ack_prefix g k [] = []"
| "ack_prefix g k (i # is) =
     (if 0 < k \<and> (tx_bytes g i \<le> k \<or> bAcked (seg g i)) then i # ack_prefix g (k - tx_bytes g i) is else [])"

lemma ack_prefix_prefix: "\<exists>ys. is = ack_prefix g k is @ ys"
  by (induction "is" arbitrary: k) auto

text \<open>What is released lies within the \<open>k\<close> bytes or had been marked; what follows does not.\<close>

lemma ack_prefix_covered:
  "ack_prefix g k is = xs @ i # ys \<Longrightarrow> tx_len g xs < k \<and> (tx_len g xs + tx_bytes g i \<le> k \<or> bAcked (seg g i))"
proof (induction "is" arbitrary: k xs)
  case (Cons j js)
  show ?case
  proof (cases xs)
    case Nil
    then show ?thesis using Cons.prems by (auto split: if_splits)
  next
    case (Cons x xs')
    then have "x = j" "ack_prefix g (k - tx_bytes g j) js = xs' @ i # ys" "0 < k"
      using Cons.prems by (auto split: if_splits)
    then show ?thesis using Cons.IH [of "k - tx_bytes g j" xs'] Cons by auto
  qed
qed simp

lemma ack_prefix_maximal:
  "is = ack_prefix g k is @ i # ys \<Longrightarrow>
   k \<le> tx_len g (ack_prefix g k is) \<or> k < tx_len g (ack_prefix g k is) + tx_bytes g i \<and> \<not> bAcked (seg g i)"
proof (induction "is" arbitrary: k)
  case (Cons j js)
  show ?case
  proof (cases "0 < k \<and> (tx_bytes g j \<le> k \<or> bAcked (seg g j))")
    case True
    then have "js = ack_prefix g (k - tx_bytes g j) js @ i # ys" using Cons.prems by simp
    from Cons.IH [OF this] show ?thesis using True by auto
  next
    case False
    then show ?thesis using Cons.prems by auto
  qed
qed simp

lemma ack_prefix_cong:
  "(\<And>i. i \<in> set is \<Longrightarrow> seg g' i = seg g i) \<Longrightarrow> ack_prefix g' k is = ack_prefix g k is"
  by (induction "is" arbitrary: k) (auto simp: tx_bytes_def)

lemma free_fields' [simp]:
  "ulTxWindowLength (snd (vTCPWindowFree i g w)) = ulTxWindowLength w"
  "bSendFullSize (snd (vTCPWindowFree i g w)) = bSendFullSize w"
  by (simp_all add: vTCPWindowFree_def Let_def unqueue_def)

text \<open>The state after releasing the segments \<open>P\<close> from the left of the transmit list.\<close>

definition released :: "nat list \<Rightarrow> seg_pool \<Rightarrow> TCPWindow_t \<Rightarrow> seg_pool \<Rightarrow> TCPWindow_t \<Rightarrow> bool" where
  "released P g w g' w' \<longleftrightarrow>
     xTxSegments w = P @ xTxSegments w' \<and>
     tx w' = (tx w)\<lparr>ulCurrentSequenceNumber := una w + of_nat (tx_len g P)\<rparr> \<and>
     xSegmentList g' = xSegmentList g @ P \<and> (\<forall>j. j \<notin> set P \<longrightarrow> seg g' j = seg g j) \<and>
     xPriorityQueue w' = filter (\<lambda>j. j \<notin> set P) (xPriorityQueue w) \<and>
     xTxQueue w' = filter (\<lambda>j. j \<notin> set P) (xTxQueue w) \<and>
     xWaitQueue w' = filter (\<lambda>j. j \<notin> set P) (xWaitQueue w) \<and>
     win_ok g' w' \<and> rx w' = rx w \<and> xRxSegments w' = xRxSegments w \<and> pxHeadSegment w' = pxHeadSegment w \<and>
     ulNextTxSequenceNumber w' = ulNextTxSequenceNumber w \<and> usMSS w' = usMSS w"

lemma released_nil: "win_ok g w \<Longrightarrow> released [] g w g w"
  by (simp add: released_def)

lemma remove1_filter: "distinct xs \<Longrightarrow> remove1 i xs = filter (\<lambda>j. j \<noteq> i) xs"
  by (auto simp: distinct_remove1_removeAll removeAll_filter_not_eq intro: filter_cong)

text \<open>One step of the release: the head is marked, perhaps the round-trip time updated, and freed.\<close>

lemma released_cons:
  assumes ok: "win_ok g w" and head: "xTxSegments w = i # is"
    and g1: "g1 = g \<or> g1 = upd_seg i (\<lambda>s. s\<lparr>bAcked := True\<rparr>) g" and w1: "w1 = w \<or> (\<exists>s. w1 = w\<lparr>lSRTT := s\<rparr>)"
    and w2: "w2 = w1\<lparr>tx := (tx w1)\<lparr>ulCurrentSequenceNumber := una w + of_nat (tx_bytes g i)\<rparr>\<rparr>"
    and rest: "released P (fst (vTCPWindowFree i g1 w2)) (snd (vTCPWindowFree i g1 w2)) g' w'"
    and len: "tx_len (fst (vTCPWindowFree i g1 w2)) P = tx_len g P"
  shows "released (i # P) g w g' w'"
proof -
  have pool: "i \<notin> set (xSegmentList g)" using win_okD(4) [OF ok] head by auto
  have notrx: "i \<notin> set (xRxSegments w)" using win_okD(6) [OF ok] head by auto
  have q: "distinct (xPriorityQueue w)" "distinct (xTxQueue w)" "distinct (xWaitQueue w)"
    using win_okD(7) [OF ok] by (auto simp: queues_def)
  have w2': "xTxSegments w2 = i # is" "xRxSegments w2 = xRxSegments w" "xPriorityQueue w2 = xPriorityQueue w"
    "xTxQueue w2 = xTxQueue w" "xWaitQueue w2 = xWaitQueue w" "rx w2 = rx w" "pxHeadSegment w2 = pxHeadSegment w"
    "ulNextTxSequenceNumber w2 = ulNextTxSequenceNumber w" "usMSS w2 = usMSS w"
    "tx w2 = (tx w)\<lparr>ulCurrentSequenceNumber := una w + of_nat (tx_bytes g i)\<rparr>"
    using w1 w2 head by auto
  have seg1: "seg g1 j = seg g j" if "j \<noteq> i" for j using g1 that by auto
  have pool1: "xSegmentList g1 = xSegmentList g" using g1 by auto
  show ?thesis
    using rest len pool notrx q seg1 head
    by (auto simp: released_def w2' pool1 remove1_idem remove1_filter add.assoc conj_commute)
qed

lemma check_ack_stop: "\<not> xSequenceLessThan n ulLast \<Longrightarrow> check_ack_loop now ulLast is n c g w = (c, g, w)"
  by (cases "is") simp_all

lemma check_ack_left:
  assumes "tx_chain g n (xTxSegments w)" "una w = n" "win_ok g w" "tx_len g (xTxSegments w) < 2 ^ 31"
    "off n ulLast = k" "k < 2 ^ 31"
  shows "\<exists>g' w'. check_ack_loop now ulLast (xTxSegments w) n c g w =
       (c + of_nat (tx_len g (ack_prefix g k (xTxSegments w))), g', w') \<and>
     released (ack_prefix g k (xTxSegments w)) g w g' w'"
  using assms
proof (induction "xTxSegments w" arbitrary: n c g w k)
  case Nil
  then show ?case using released_nil [OF Nil.prems(3)] by (intro exI [of _ g] exI [of _ w]) simp
next
  case (Cons i "is")
  note ok = Cons.prems(3) and head = Cons.hyps(2) [symmetric]
  have i: "ulSequenceNumber (seg g i) = n" "0 < lDataLength (seg g i)"
    and chain: "tx_chain g (n + of_nat (tx_bytes g i)) is" using Cons.prems(1) head by auto
  let ?b = "tx_bytes g i"
  have len: "word_of_int (lDataLength (seg g i)) = (of_nat ?b :: u32)" using word_of_len i(2) by blast
  have b: "0 < ?b" "?b < 2 ^ 31" "tx_len g is < 2 ^ 31"
    using i(2) Cons.prems(4) head by (auto simp: tx_bytes_def)
  have offb: "off n (n + of_nat ?b) = ?b" using b by (simp add: unat_of_nat32)
  have lt: "xSequenceLessThan n ulLast \<longleftrightarrow> 0 < k"
    using sequence_compare [of n n ulLast] Cons.prems(5,6) by simp
  have beyond: "xSequenceGreaterThan (n + of_nat ?b) ulLast \<longleftrightarrow> k < ?b"
    and next_lt: "xSequenceLessThan (n + of_nat ?b) ulLast \<longleftrightarrow> ?b < k"
    using sequence_compare [of n "n + of_nat ?b" ulLast] Cons.prems(5,6) b offb by simp_all
  have self: "\<not> xSequenceGreaterThan n n" using sequence_compare [of n n n] by simp
  show ?case
  proof (cases "0 < k \<and> (?b \<le> k \<or> bAcked (seg g i))")
    case False
    then have "check_ack_loop now ulLast (i # is) n c g w = (c, g, w)"
      using i self lt beyond len by (auto simp: Let_def)
    moreover have "ack_prefix g k (i # is) = []" using False by auto
    ultimately show ?thesis unfolding head using released_nil [OF ok] by (intro exI [of _ g] exI [of _ w]) simp
  next
    case True
    let ?g1 = "if \<not> bAcked (seg g i) then upd_seg i (\<lambda>s. s\<lparr>bAcked := True\<rparr>) g else g"
    let ?w1 = "if \<not> bAcked (seg g i) \<and> ucTransmitCount (seg g i) = 1 \<and> n + of_nat ?b = ulLast
      then w\<lparr>lSRTT := srtt_update (lSRTT w) (sint (ulTimerGetAge now (seg g i)))\<rparr> else w"
    let ?w2 = "?w1\<lparr>tx := (tx ?w1)\<lparr>ulCurrentSequenceNumber := ulCurrentSequenceNumber (tx ?w1) + of_nat ?b\<rparr>\<rparr>"
    let ?g3 = "fst (vTCPWindowFree i ?g1 ?w2)" and ?w3 = "snd (vTCPWindowFree i ?g1 ?w2)"
    have una1: "ulCurrentSequenceNumber (tx ?w1) = n" using Cons.prems(2) by simp
    have go: "\<not> (\<not> bAcked (seg g i) \<and> k < ?b)" using True by auto
    have loop: "check_ack_loop now ulLast (i # is) n c g w =
        check_ack_loop now ulLast is (n + of_nat ?b) (c + of_nat ?b) ?g3 ?w3"
      using True i self lt len una1 go unfolding check_ack_loop.simps Let_def beyond i(1) len
      by (simp add: split_beta) (use go in blast)
    have w2: "xTxSegments ?w2 = i # is" "queues ?w2 = queues w" "xRxSegments ?w2 = xRxSegments w"
      using head by (simp_all add: queues_def)
    have ok2: "win_ok ?g1 ?w2" using ok head w2 by (simp add: win_ok_def descriptors_def)
    have notin: "i \<notin> set is" using win_okD(2) [OF ok] head by simp
    have same: "seg ?g3 j = seg g j" if "j \<noteq> i" for j using that by simp
    have ok3: "win_ok ?g3 ?w3" using free_win_ok [OF ok2, of i] w2(1) by simp
    have tx3: "xTxSegments ?w3 = is" "una ?w3 = n + of_nat ?b" using w2(1) una1 by simp_all
    have keep3: "seg ?g3 j = seg g j" if "j \<in> set is" for j using that notin by (intro same) blast
    have step3: "released (i # P) g w g' w'" if "released P ?g3 ?w3 g' w'" "set P \<subseteq> set is" for P g' w'
    proof -
      have "tx_len ?g3 P = tx_len g P"
        by (rule tx_len_cong) (use keep3 subsetD [OF that(2)] in presburger)
      then show ?thesis
        by (intro released_cons [OF ok head, of ?g1 ?w1 ?w2]) (use that(1) Cons.prems(2) in auto)
    qed
    obtain g3 w3 where loop: "check_ack_loop now ulLast (i # is) n c g w =
        check_ack_loop now ulLast is (n + of_nat ?b) (c + of_nat ?b) g3 w3"
      and tx3: "is = xTxSegments w3" "una w3 = n + of_nat ?b" and ok3: "win_ok g3 w3"
      and keep: "\<And>j. j \<in> set is \<Longrightarrow> seg g3 j = seg g j"
      and step: "\<And>P g' w'. released P g3 w3 g' w' \<Longrightarrow> set P \<subseteq> set is \<Longrightarrow> released (i # P) g w g' w'"
      by (rule that [OF loop tx3(1) [symmetric] tx3(2) ok3 keep3 step3])
    have chain3: "tx_chain g3 (n + of_nat ?b) is" using chain tx_chain_cong [of "is" g g3] keep by simp
    have lens: "tx_len g3 js = tx_len g js" if "set js \<subseteq> set is" for js
      using keep that by (intro tx_len_cong) auto
    show ?thesis
    proof (cases "?b \<le> k")
      case True
      have k': "off (n + of_nat ?b) ulLast = k - ?b"
        using diff_off [of n "n + of_nat ?b" ulLast] Cons.prems(5) offb True by (simp add: off_def)
      let ?P = "ack_prefix g3 (k - ?b) is"
      have P: "?P = ack_prefix g (k - ?b) is" by (rule ack_prefix_cong) (rule keep)
      obtain g' w' where IH: "check_ack_loop now ulLast is (n + of_nat ?b) (c + of_nat ?b) g3 w3 =
          (c + of_nat ?b + of_nat (tx_len g3 ?P), g', w')" "released ?P g3 w3 g' w'"
        using Cons.hyps(1) [OF tx3(1), of g3 "n + of_nat ?b" "k - ?b" "c + of_nat ?b"] tx3 chain3 ok3 lens [of "is"] b k'
          less_imp_diff_less [OF Cons.prems(6), of ?b] by auto
      have "set ?P \<subseteq> set is" using ack_prefix_prefix [of "is" g3 "k - ?b"] by (metis Un_upper1 set_append)
      then show ?thesis
        unfolding head using loop IH(1) step [OF IH(2)] lens \<open>0 < k \<and> _\<close> P by (intro exI [of _ g'] exI [of _ w']) simp
    next
      case False
      then have "check_ack_loop now ulLast is (n + of_nat ?b) (c + of_nat ?b) g3 w3 = (c + of_nat ?b, g3, w3)"
        using next_lt by (intro check_ack_stop) simp
      moreover have "ack_prefix g k (i # is) = [i]" using \<open>0 < k \<and> _\<close> False by (cases "is") auto
      ultimately show ?thesis
        unfolding head using loop step [OF released_nil [OF ok3]] by (intro exI [of _ g3] exI [of _ w3]) simp
    qed
  qed
qed

lemma ack_prefix_sent: "k \<le> tx_len g xs \<Longrightarrow> ack_prefix g k (xs @ ys) = ack_prefix g k xs"
proof (induction xs arbitrary: k)
  case Nil
  then show ?case by (cases ys) simp_all
next
  case (Cons i xs)
  then have "k - tx_bytes g i \<le> tx_len g xs" by simp
  then show ?case using Cons.IH by simp
qed

lemma released_inv:
  assumes inv: "tx_inv g w" and rel: "released P g w g' w'"
    and sent: "xTxSegments w = (P @ ys) @ xTxQueue w"
      "ulHighestSequenceNumber (tx w) = una w + of_nat (tx_len g (P @ ys))"
  shows "tx_inv g' w' \<and> outstanding w' = outstanding w - tx_len g P \<and>
     una w' = una w + of_nat (tx_len g P) \<and> xTxQueue w' = xTxQueue w"
proof -
  note i = tx_invD [OF inv]
  have dist: "distinct ((P @ ys) @ xTxQueue w)" using win_okD(2) [OF i(1)] sent(1) by simp
  have q: "xTxQueue w' = xTxQueue w"
    using rel dist by (auto simp: released_def filter_id_conv)
  have segs: "xTxSegments w' = ys @ xTxQueue w" using rel sent(1) by (simp add: released_def)
  have same: "seg g' j = seg g j" if "j \<in> set (xTxSegments w')" for j
    using rel that dist segs by (auto simp: released_def)
  have lens: "tx_len g' js = tx_len g js" if "set js \<subseteq> set (xTxSegments w')" for js
    using same that by (intro tx_len_cong) auto
  have una': "una w' = una w + of_nat (tx_len g P)" and hi: "ulHighestSequenceNumber (tx w') = ulHighestSequenceNumber (tx w)"
    using rel by (simp_all add: released_def)
  have total: "tx_len g (xTxSegments w) = tx_len g P + tx_len g' (xTxSegments w')"
    using sent(1) segs lens [of "xTxSegments w'"] by simp
  have mem: "j \<in> set (queues w') \<longleftrightarrow> j \<in> set (queues w) \<and> j \<notin> set P" for j
    using rel by (auto simp: released_def queues_def)
  have "tx_chain g (una w') (xTxSegments w')" using i(2) sent(1) segs una' by simp
  then have "tx_chain g' (una w') (xTxSegments w')" using tx_chain_cong [of "xTxSegments w'" g g'] same by simp
  moreover have "ulNextTxSequenceNumber w' = una w' + of_nat (tx_len g' (xTxSegments w'))"
    using rel i(4) una' total by (simp add: released_def)
  moreover have h: "ulHighestSequenceNumber (tx w') = una w' + of_nat (tx_len g' ys)"
    using hi sent(2) una' lens [of ys] segs by simp
  moreover have "\<forall>j\<in>set (xTxSegments w'). bAcked (seg g' j) \<longleftrightarrow> j \<notin> set (queues w')"
  proof
    fix j assume j: "j \<in> set (xTxSegments w')"
    then have "j \<notin> set P" "j \<in> set (xTxSegments w)" using dist segs sent(1) by auto
    then show "bAcked (seg g' j) \<longleftrightarrow> j \<notin> set (queues w')" using same [OF j] i(5) mem by simp
  qed
  moreover have "pxHeadSegment w' = pxHeadSegment w" "win_ok g' w'" using rel by (simp_all add: released_def)
  ultimately have inv': "tx_inv g' w'" using i(3,6) total segs q unfolding tx_inv_def by auto
  have small: "tx_len g (P @ ys) < 2 ^ 32" using i(3) sent(1) by simp
  moreover have "tx_len g' ys < 2 ^ 32" using small lens [of ys] segs by simp
  ultimately have "outstanding w = tx_len g (P @ ys)" "outstanding w' = tx_len g' ys"
    by (simp_all only: outstanding_def sent(2) h off_of_nat)
  then show ?thesis using inv' una' q lens [of ys] segs by simp
qed

lemma ack_released:
  assumes inv: "tx_inv g w" and k: "off (una w) n = k" "k \<le> outstanding w"
  shows "\<exists>g' w'. ulTCPWindowTxAck now n g w =
       (of_nat (tx_len g (ack_prefix g k (xTxSegments w))), g', w') \<and>
     released (ack_prefix g k (xTxSegments w)) g w g' w' \<and> tx_inv g' w' \<and>
     outstanding w' = outstanding w - tx_len g (ack_prefix g k (xTxSegments w)) \<and> xTxQueue w' = xTxQueue w"
proof -
  note i = tx_invD [OF inv]
  obtain sent where s: "xTxSegments w = sent @ xTxQueue w"
    "ulHighestSequenceNumber (tx w) = una w + of_nat (tx_len g sent)" "outstanding w = tx_len g sent"
    by (rule tx_inv_sent [OF inv])
  have pre: "ack_prefix g k (xTxSegments w) = ack_prefix g k sent"
    unfolding s(1) by (rule ack_prefix_sent) (use k s(3) in simp)
  obtain ys where ys: "sent = ack_prefix g k sent @ ys" using ack_prefix_prefix by metis
  have small: "k < 2 ^ 31" using k s i(3) by simp
  let ?P = "ack_prefix g k (xTxSegments w)"
  have inv': "tx_inv g' w' \<and> outstanding w' = outstanding w - tx_len g ?P \<and> xTxQueue w' = xTxQueue w"
    if "released ?P g w g' w'" for g' w'
    using released_inv [OF inv that, of ys] s ys pre by metis
  show ?thesis
  proof (cases "k = 0")
    case True
    then have "?P = []" by (cases "xTxSegments w") simp_all
    moreover have "ulTCPWindowTxAck now n g w = (0, g, w)"
      using True k by (simp add: ulTCPWindowTxAck_def xSequenceLessThanOrEqual_def)
    ultimately show ?thesis using released_nil [OF i(1)] inv by (intro exI [of _ g] exI [of _ w]) simp
  next
    case False
    have "\<not> xSequenceLessThanOrEqual n (una w)"
      using sequence_compare [of "una w" n "una w"] k small False by simp
    then have "ulTCPWindowTxAck now n g w = check_ack_loop now n (xTxSegments w) (una w) 0 g w"
      by (simp add: ulTCPWindowTxAck_def prvTCPWindowTxCheckAck_def)
    moreover obtain g' w' where "check_ack_loop now n (xTxSegments w) (una w) 0 g w = (0 + of_nat (tx_len g ?P), g', w')"
      "released ?P g w g' w'"
      using check_ack_left [OF i(2) refl i(1,3) k(1) small, of now 0] by blast
    ultimately show ?thesis using inv' by (intro exI [of _ g'] exI [of _ w']) simp
  qed
qed

section \<open>Selective acknowledgement\<close>







text \<open>Where the segments lie.\<close>

lemma tx_chain_off:
  assumes "tx_chain g u (xs @ i # ys)" "tx_len g (xs @ i # ys) < 2 ^ 31"
  shows "off u (ulSequenceNumber (seg g i)) = tx_len g xs" "0 < lDataLength (seg g i)"
    "off u (ulSequenceNumber (seg g i)) + tx_bytes g i \<le> tx_len g (xs @ i # ys)"
  using assms off_of_nat [of "tx_len g xs" u] by auto



section \<open>Moving between the queues\<close>

text \<open>The state after segments were moved between the priority and the waiting queue.\<close>

definition requeued :: "seg_pool \<Rightarrow> TCPWindow_t \<Rightarrow> seg_pool \<Rightarrow> TCPWindow_t \<Rightarrow> bool" where
  "requeued g w g' w' \<longleftrightarrow>
     (\<forall>j. same_data (seg g j) (seg g' j) \<and> bAcked (seg g' j) = bAcked (seg g j)) \<and>
     xSegmentList g' = xSegmentList g \<and> xTxSegments w' = xTxSegments w \<and> xRxSegments w' = xRxSegments w \<and>
     tx w' = tx w \<and> rx w' = rx w \<and> xTxQueue w' = xTxQueue w \<and>
     mset (xPriorityQueue w' @ xWaitQueue w') = mset (xPriorityQueue w @ xWaitQueue w) \<and>
     pxHeadSegment w' = pxHeadSegment w \<and> ulNextTxSequenceNumber w' = ulNextTxSequenceNumber w \<and> usMSS w' = usMSS w"



lemma requeued_queues: "requeued g w g' w' \<Longrightarrow> mset (queues w') = mset (queues w)"
  by (auto simp: requeued_def queues_def ac_simps)

lemma requeued_inv:
  assumes inv: "tx_inv g w" and r: "requeued g w g' w'"
  shows "tx_inv g' w' \<and> outstanding w' = outstanding w \<and> una w' = una w"
proof -
  note i = tx_invD [OF inv]
  note q = requeued_queues [OF r]
  have w': "tx w' = tx w" "xTxSegments w' = xTxSegments w" "pxHeadSegment w' = pxHeadSegment w" "xTxQueue w' = xTxQueue w"
    "ulNextTxSequenceNumber w' = ulNextTxSequenceNumber w" "descriptors g' w' = descriptors g w"
    and same: "same_data (seg g j) (seg g' j)" and ack: "bAcked (seg g' j) = bAcked (seg g j)" for j
    using r by (simp_all add: requeued_def descriptors_def)
  have lens: "tx_len g' js = tx_len g js" for js using same by (intro tx_len_same)
  have chain: "tx_chain g' n js = tx_chain g n js" for n js using same by (intro tx_chain_cong)
  have set: "set (queues w') = set (queues w)" using q by (rule mset_eq_setD)
  have "win_ok g' w'" using i(1) w' mset_eq_imp_distinct_iff [OF q] set by (simp add: win_ok_def)
  then show ?thesis using inv unfolding tx_inv_def outstanding_def w' lens chain set ack by auto
qed



section \<open>Stream positions\<close>

text \<open>The positions in a circular stream of \<open>L\<close> bytes of consecutive segments, the first at \<open>p\<close>.\<close>

primrec pos_chain :: "int \<Rightarrow> seg_pool \<Rightarrow> int \<Rightarrow> nat list \<Rightarrow> bool" where
  "pos_chain L g p [] \<longleftrightarrow> True"
| "pos_chain L g p (i # is) \<longleftrightarrow> lStreamPos (seg g i) = p \<and> pos_chain L g ((p + int (tx_bytes g i)) mod L) is"

lemma pos_chain_append [simp]:
  "pos_chain L g p (is @ js) \<longleftrightarrow> pos_chain L g p is \<and> pos_chain L g ((p + int (tx_len g is)) mod L) js"
  if "p mod L = p"
  using that by (induction "is" arbitrary: p) (auto simp: mod_simps add.assoc)

lemma pos_chain_cong:
  "(\<And>i. i \<in> set is \<Longrightarrow> same_data (seg g i) (seg g' i)) \<Longrightarrow> pos_chain L g' p is = pos_chain L g p is"
  by (induction "is" arbitrary: p) (auto simp: tx_bytes_def same_data_def)

lemma pos_chain_last:
  "(\<And>j. j \<in> set xs \<Longrightarrow> same_data (seg g j) (seg g' j)) \<Longrightarrow> lStreamPos (seg g' i) = lStreamPos (seg g i) \<Longrightarrow>
     pos_chain L g' p (xs @ [i]) = pos_chain L g p (xs @ [i])"
  by (induction xs arbitrary: p) (auto simp: tx_bytes_def same_data_def simp del: pos_chain_append)

lemma IncrementTxPosition_mod:
  "0 \<le> p \<Longrightarrow> p < L \<Longrightarrow> 0 \<le> n \<Longrightarrow> n \<le> L \<Longrightarrow> lTCPIncrementTxPosition p L n = (p + n) mod L"
  using minus_mod_self2 [of "p + n" L]
  by (cases "p + n < L") (simp_all add: lTCPIncrementTxPosition_def Let_def mod_pos_pos_trivial del: minus_mod_self2)

section \<open>Adding data\<close>

text \<open>The state after appending the new segments \<open>js\<close>, which hold \<open>d\<close> bytes from position \<open>p\<close> on.\<close>

definition appended ::
  "nat list \<Rightarrow> nat \<Rightarrow> int \<Rightarrow> int \<Rightarrow> seg_pool \<Rightarrow> TCPWindow_t \<Rightarrow> seg_pool \<Rightarrow> TCPWindow_t \<Rightarrow> bool" where
  "appended js d L p g w g' w' \<longleftrightarrow>
     tx_inv g' w' \<and> xSegmentList g = js @ xSegmentList g' \<and> (\<forall>j. j \<notin> set js \<longrightarrow> seg g' j = seg g j) \<and>
     xTxSegments w' = xTxSegments w @ js \<and> xTxQueue w' = xTxQueue w @ js \<and>
     xPriorityQueue w' = xPriorityQueue w \<and> xWaitQueue w' = xWaitQueue w \<and> xRxSegments w' = xRxSegments w \<and>
     tx w' = tx w \<and> rx w' = rx w \<and> usMSS w' = usMSS w \<and>
     tx_len g' js = d \<and> pos_chain L g' p js \<and> (\<forall>j\<in>set js. lMaxLength (seg g' j) = uint (usMSS w))"

lemma appended_nil: "tx_inv g w \<Longrightarrow> appended [] 0 L p g w g w"
  by (simp add: appended_def)

lemma appended_cons:
  assumes "appended [i] b L p g w g1 w1" "appended js d L ((p + int b) mod L) g1 w1 g' w'" "tx_inv g w"
  shows "appended (i # js) (b + d) L p g w g' w'"
proof -
  have "i \<notin> set js"
    using assms win_okD(1) [OF tx_invD(1) [OF assms(3)]] by (auto simp: appended_def)
  then show ?thesis using assms by (auto simp: appended_def tx_bytes_def)
qed

lemma add_one:
  assumes inv: "tx_inv g w" and mss: "0 < usMSS w" and b: "0 < b" "tx_len g (xTxSegments w) + nat b < 2 ^ 31"
    and new: "xSegmentList g = i # rest" "xTCPWindowNew now (ulNextTxSequenceNumber w) (uint (usMSS w)) False g w = (Some i, g1, w1)"
    and k: "k = min b (uint (usMSS w))"
    and g2: "g2 = upd_seg i (\<lambda>s. s\<lparr>lDataLength := k, lStreamPos := p\<rparr>) g1"
    and w2: "w2 = w1\<lparr>ulNextTxSequenceNumber := ulNextTxSequenceNumber w1 + word_of_int k, xTxQueue := xTxQueue w1 @ [i],
               pxHeadSegment := (if k < uint (usMSS w) then Some i else None)\<rparr>"
  shows "appended [i] (nat k) L p g w g2 w2"
proof -
  note iv = tx_invD [OF inv]
  have k0: "0 < k" "k \<le> uint (usMSS w)" "k \<le> b" using b(1) mss by (auto simp: k word_less_def)
  have g1: "xSegmentList g1 = rest" "\<And>j. j \<noteq> i \<Longrightarrow> seg g1 j = seg g j" "lMaxLength (seg g1 i) = uint (usMSS w)"
    "ulSequenceNumber (seg g1 i) = ulNextTxSequenceNumber w" "\<not> bAcked (seg g1 i)" "w1 = w\<lparr>xTxSegments := xTxSegments w @ [i]\<rparr>"
    using new by (auto simp: xTCPWindowNew_def vTCPTimerSet_def)
  have fresh: "i \<notin> set (xTxSegments w)" using win_okD(4) [OF iv(1)] new(1) by auto
  have ok1: "win_ok g1 w1" using new_win_ok [OF iv(1) new(2)] by blast
  have q: "i \<notin> set (queues w)" using fresh win_okD(8) [OF iv(1)] by blast
  have ok2: "win_ok g2 w2"
    using ok1 q g1(6) by (auto simp: win_ok_def descriptors_def queues_def g2 w2)
  have same: "seg g2 j = seg g j" if "j \<noteq> i" for j using g1(2) that by (simp add: g2)
  have lens: "tx_len g2 js = tx_len g js" if "i \<notin> set js" for js
    using same that by (intro tx_len_cong) metis
  have chain: "tx_chain g2 n js = tx_chain g n js" if "i \<notin> set js" for n js
    using same that by (intro tx_chain_cong) (metis same_data_refl)
  have bi: "tx_bytes g2 i = nat k" by (simp add: tx_bytes_def g2)
  have kw: "word_of_int k = (of_nat (nat k) :: u32)" using k0 by simp
  obtain sent where s: "xTxSegments w = sent @ xTxQueue w" "ulHighestSequenceNumber (tx w) = una w + of_nat (tx_len g sent)"
    by (rule tx_inv_sent [OF inv])
  have "tx_chain g2 (una w2) (xTxSegments w2)"
    using iv(2,4) chain [OF fresh] lens [OF fresh] k0 by (simp add: w2 g1) (simp add: g2 g1)
  moreover have "tx_len g2 (xTxSegments w2) < 2 ^ 31"
    using b(2) k0 lens [OF fresh] bi by (simp add: w2 g1)
  moreover have "ulNextTxSequenceNumber w2 = una w2 + of_nat (tx_len g2 (xTxSegments w2))"
    using iv(4) lens [OF fresh] bi kw by (simp add: w2 g1)
  moreover have "xTxSegments w2 = sent @ xTxQueue w2 \<and> ulHighestSequenceNumber (tx w2) = una w2 + of_nat (tx_len g2 sent)"
    using s lens [of sent] fresh by (auto simp: w2 g1)
  moreover have "bAcked (seg g2 j) \<longleftrightarrow> j \<notin> set (queues w2)" if "j \<in> set (xTxSegments w2)" for j
    using that iv(5) [of j] q same [of j] g1 by (cases "j = i") (auto simp: w2 g2 queues_def)
  moreover have "xTxQueue w2 \<noteq> [] \<and> last (xTxQueue w2) = i" by (simp add: w2 g1)
  ultimately have "tx_inv g2 w2" using ok2 unfolding tx_inv_def by (auto simp: w2 split: if_splits)
  then show ?thesis
    using new(1) g1 same bi by (auto simp: appended_def w2 g2)
qed

lemma add_loop_appended:
  assumes "tx_inv g w" "0 < usMSS w" "0 \<le> b" "tx_len g (xTxSegments w) + nat b < 2 ^ 31" "0 \<le> p" "p < L" "b \<le> L"
  shows "\<exists>js d g' w'. tx_add_loop now L b p lDone g w = (lDone + int d, g', w') \<and> appended js d L p g w g' w' \<and>
     int d \<le> b \<and> (int d = b \<or> xSegmentList g' = [])"
  using assms
proof (induction "xSegmentList g" arbitrary: b p lDone g w)
  case Nil
  then have "tx_add_loop now L b p lDone g w = (lDone, g, w)"
    by (subst tx_add_loop.simps) (simp add: xTCPWindowNew_def)
  then show ?case using appended_nil [OF Nil.prems(1)] Nil.hyps Nil.prems(3)
    by (intro exI [of _ "[]"] exI [of _ "0 :: nat"] exI [of _ g] exI [of _ w]) simp
next
  case (Cons i rest)
  show ?case
  proof (cases "0 < b")
    case False
    then have "tx_add_loop now L b p lDone g w = (lDone, g, w)" by (subst tx_add_loop.simps) simp
    then show ?thesis using appended_nil [OF Cons.prems(1)] False Cons.prems(3)
      by (intro exI [of _ "[]"] exI [of _ "0 :: nat"] exI [of _ g] exI [of _ w]) simp
  next
    case True
    note pool = Cons.hyps(2) [symmetric]
    define k where "k = min b (uint (usMSS w))"
    obtain g1 w1 where new: "xTCPWindowNew now (ulNextTxSequenceNumber w) (uint (usMSS w)) False g w = (Some i, g1, w1)"
      by (simp add: xTCPWindowNew_def pool)
    then have max1: "lMaxLength (seg g1 i) = uint (usMSS w)" by (auto simp: xTCPWindowNew_def pool)
    obtain g2 w2 where g2: "g2 = upd_seg i (\<lambda>s. s\<lparr>lDataLength := k, lStreamPos := p\<rparr>) g1"
      and w2: "w2 = w1\<lparr>ulNextTxSequenceNumber := ulNextTxSequenceNumber w1 + word_of_int k, xTxQueue := xTxQueue w1 @ [i],
        pxHeadSegment := (if k < uint (usMSS w) then Some i else None)\<rparr>" by simp
    have one: "appended [i] (nat k) L p g w g2 w2"
      by (rule add_one [OF Cons.prems(1,2) True Cons.prems(4) pool new k_def g2 w2])
    have k: "0 < k" "k \<le> b" using True Cons.prems(2) by (auto simp: k_def word_less_def)
    let ?p = "(p + k) mod L"
    have pos: "lTCPIncrementTxPosition p L k = ?p" using IncrementTxPosition_mod [of p L k] Cons.prems(5-7) k by simp
    have min: "FreeRTOS_min_int32 b (lMaxLength (seg g1 i)) = k" by (simp add: FreeRTOS_min_int32_def k_def max1 min_def)
    have head: "(lDataLength (seg g2 i) < lMaxLength (seg g2 i)) = (k < uint (usMSS w))" by (simp add: g2 max1)
    have loop: "tx_add_loop now L b p lDone g w = tx_add_loop now L (b - k) ?p (lDone + k) g2 w2"
      by (subst tx_add_loop.simps)
        (simp only: new True if_True option.case prod.case Let_def min g2 [symmetric] head w2 [symmetric] pos)
    have total: "tx_len g2 (xTxSegments w2) = tx_len g (xTxSegments w) + nat k"
    proof -
      have "i \<notin> set (xTxSegments w)" using win_okD(4) [OF tx_invD(1) [OF Cons.prems(1)]] pool by auto
      then have "tx_len g2 (xTxSegments w) = tx_len g (xTxSegments w)"
        using one by (intro tx_len_cong) (auto simp: appended_def)
      then show ?thesis using one by (simp add: appended_def)
    qed
    have step: "rest = xSegmentList g2" "tx_inv g2 w2" "usMSS w2 = usMSS w"
      using one pool by (simp_all add: appended_def)
    obtain js d g' w' where IH: "tx_add_loop now L (b - k) ?p (lDone + k) g2 w2 = (lDone + k + int d, g', w')"
      "appended js d L ?p g2 w2 g' w'" "int d \<le> b - k" "int d = b - k \<or> xSegmentList g' = []"
      using Cons.hyps(1) [OF step(1,2), of "b - k" ?p "lDone + k"] step(3) total k Cons.prems(2-7)
        nat_add_distrib [of k "b - k"] by auto
    have "appended (i # js) (nat k + d) L p g w g' w'"
      by (rule appended_cons [OF one _ Cons.prems(1)]) (use IH(2) k in simp)
    then show ?thesis using loop IH k
      by (intro exI [of _ "i # js"] exI [of _ "nat k + d"] exI [of _ g'] exI [of _ w']) auto
  qed
qed

text \<open>Filling up the last segment of the transmit queue.\<close>

lemma fill_last:
  assumes inv: "tx_inv g w" and head: "pxHeadSegment w = Some i"
    and k: "0 \<le> k" "k \<le> lMaxLength (seg g i) - lDataLength (seg g i)" "tx_len g (xTxSegments w) + nat k < 2 ^ 31"
    and h: "h = None \<or> h = Some i"
    and g': "g' = upd_seg i (\<lambda>s. s\<lparr>lDataLength := lDataLength s + k\<rparr>) g"
    and w': "w' = w\<lparr>pxHeadSegment := h, ulNextTxSequenceNumber := ulNextTxSequenceNumber w + word_of_int k\<rparr>"
  shows "tx_inv g' w'" "tx_len g' (xTxSegments w) = tx_len g (xTxSegments w) + nat k"
    "pos_chain L g' p (xTxSegments w) = pos_chain L g p (xTxSegments w)"
proof -
  note iv = tx_invD [OF inv]
  have last: "xTxQueue w \<noteq> []" "i = last (xTxQueue w)" using iv(6) [OF head] by auto
  obtain sent where s: "xTxSegments w = sent @ xTxQueue w" "ulHighestSequenceNumber (tx w) = una w + of_nat (tx_len g sent)"
    by (rule tx_inv_sent [OF inv])
  obtain xs where xs: "xTxSegments w = xs @ [i]" using s(1) last by (metis append_assoc append_butlast_last_id)
  have fresh: "i \<notin> set xs" using win_okD(2) [OF iv(1)] xs by simp
  have sent: "i \<notin> set sent" using win_okD(2) [OF iv(1)] s(1) last by (metis disjoint_iff distinct_append last_in_set)
  have same: "seg g' j = seg g j" if "j \<noteq> i" for j using that by (simp add: g')
  have lens: "tx_len g' js = tx_len g js" if "i \<notin> set js" for js
    using same that by (intro tx_len_cong) metis
  have chain: "tx_chain g' n js = tx_chain g n js" if "i \<notin> set js" for n js
    using same that by (intro tx_chain_cong) (metis same_data_refl)
  have i: "0 < lDataLength (seg g i)" using iv(2) xs by simp
  then have bi: "tx_bytes g' i = tx_bytes g i + nat k" using k(1) by (simp add: tx_bytes_def g')
  show len: "tx_len g' (xTxSegments w) = tx_len g (xTxSegments w) + nat k" using xs lens [OF fresh] bi by simp
  have kw: "word_of_int k = (of_nat (nat k) :: u32)" using k(1) by simp
  have "tx_chain g' (una w') (xTxSegments w')"
    using iv(2) xs chain [OF fresh] lens [OF fresh] i k(1,2) by (simp add: w' g')
  moreover have "win_ok g' w'" using iv(1) by (simp add: win_ok_def descriptors_def queues_def g' w')
  moreover have "bAcked (seg g' j) = bAcked (seg g j)" for j by (simp add: g')
  ultimately show "tx_inv g' w'"
    using iv(3-5) s lens [OF sent] len k(3) kw h last unfolding tx_inv_def
    by (auto simp: w' queues_def)
  show "pos_chain L g' p (xTxSegments w) = pos_chain L g p (xTxSegments w)"
    unfolding xs by (rule pos_chain_last) (use same fresh in \<open>metis same_data_refl\<close>, simp add: g')
qed

text \<open>What \<open>lTCPWindowTxAdd\<close> achieves: \<open>d\<close> more bytes are queued, in place.\<close>

definition added :: "nat \<Rightarrow> int \<Rightarrow> int \<Rightarrow> seg_pool \<Rightarrow> TCPWindow_t \<Rightarrow> seg_pool \<Rightarrow> TCPWindow_t \<Rightarrow> bool" where
  "added d L p g w g' w' \<longleftrightarrow>
     tx_inv g' w' \<and> tx w' = tx w \<and> rx w' = rx w \<and> usMSS w' = usMSS w \<and> xRxSegments w' = xRxSegments w \<and>
     (\<exists>js. xSegmentList g = js @ xSegmentList g' \<and> xTxSegments w' = xTxSegments w @ js) \<and>
     tx_len g' (xTxSegments w') = tx_len g (xTxSegments w) + d \<and>
     (\<forall>p0. pos_chain L g p0 (xTxSegments w) \<longrightarrow> p0 mod L = p0 \<longrightarrow> p = (p0 + int (tx_len g (xTxSegments w))) mod L \<longrightarrow>
        pos_chain L g' p0 (xTxSegments w'))"

lemma appended_added:
  assumes inv: "tx_inv g w" and a: "appended js d L p g w g' w'"
  shows "added d L p g w g' w'"
proof -
  have fresh: "j \<notin> set js" if "j \<in> set (xTxSegments w)" for j
    using a win_okD(4) [OF tx_invD(1) [OF inv]] that by (auto simp: appended_def)
  then have same: "seg g' j = seg g j" if "j \<in> set (xTxSegments w)" for j using a that by (simp add: appended_def)
  have "tx_len g' (xTxSegments w) = tx_len g (xTxSegments w)" using same by (intro tx_len_cong) simp
  moreover have "pos_chain L g' p0 (xTxSegments w) = pos_chain L g p0 (xTxSegments w)" for p0
    using same by (intro pos_chain_cong) simp
  ultimately show ?thesis using a by (auto simp: added_def appended_def)
qed

lemma add_inv:
  assumes inv: "tx_inv g w" and mss: "0 < usMSS w" and n: "tx_len g (xTxSegments w) + unat n < 2 ^ 31"
    and p: "0 \<le> p" "p < L" "int (unat n) \<le> L"
  shows "\<exists>d g' w'. lTCPWindowTxAdd now n p L g w = (int d, g', w') \<and> added d L p g w g' w' \<and> d \<le> unat n \<and>
     (d = unat n \<or> xSegmentList g' = [])"
proof -
  obtain m where m: "unat n = m" by simp
  note n = n [unfolded m] and p = p [unfolded m]
  have sn: "sint n = int m" using sint_small [of n] n m by simp
  have fresh: ?thesis if e: "lTCPWindowTxAdd now n p L g w = tx_add_loop now L (sint n) p 0 g w"
  proof -
    obtain js d g' w' where l: "tx_add_loop now L (sint n) p 0 g w = (0 + int d, g', w')"
      "appended js d L p g w g' w'" "int d \<le> sint n" "int d = sint n \<or> xSegmentList g' = []"
      using add_loop_appended [OF inv mss, of "sint n" p L now 0] n p sn by auto
    show ?thesis using e l appended_added [OF inv l(2)] sn unfolding m by (intro exI [of _ d] exI [of _ g'] exI [of _ w']) auto
  qed
  show ?thesis
  proof (cases "pxHeadSegment w")
    case None
    then show ?thesis by (intro fresh) (simp add: lTCPWindowTxAdd_def Let_def)
  next
    case (Some i)
    show ?thesis
    proof (cases "lDataLength (seg g i) < lMaxLength (seg g i) \<and> \<not> bOutstanding (seg g i) \<and> lDataLength (seg g i) \<noteq> 0")
      case False
      then show ?thesis by (intro fresh) (simp only: lTCPWindowTxAdd_def Let_def Some option.case if_False)
    next
      case fill: True
      define k where "k = min (int m) (lMaxLength (seg g i) - lDataLength (seg g i))"
      have k: "0 \<le> k" "k \<le> lMaxLength (seg g i) - lDataLength (seg g i)" "k \<le> int m"
        using fill by (auto simp: k_def)
      define g1 where "g1 = upd_seg i (\<lambda>s. s\<lparr>lDataLength := lDataLength s + k\<rparr>) g"
      define h where "h = (if lDataLength (seg g1 i) \<ge> lMaxLength (seg g1 i) then None else Some i)"
      define w1 where "w1 = w\<lparr>pxHeadSegment := h, ulNextTxSequenceNumber := ulNextTxSequenceNumber w + word_of_int k\<rparr>"
      have min: "FreeRTOS_min_int32 (sint n) (lMaxLength (seg g i) - lDataLength (seg g i)) = k"
        by (simp add: FreeRTOS_min_int32_def k_def sn min_def)
      let ?p = "(p + k) mod L"
      have pos: "lTCPIncrementTxPosition p L k = ?p" using IncrementTxPosition_mod [of p L k] p k by simp
      have e: "lTCPWindowTxAdd now n p L g w = tx_add_loop now L (sint n - k) ?p k g1 w1"
      proof -
        have "w1 = (if lDataLength (seg g1 i) \<ge> lMaxLength (seg g1 i) then w\<lparr>pxHeadSegment := None\<rparr> else w)
            \<lparr>ulNextTxSequenceNumber := ulNextTxSequenceNumber w + word_of_int k\<rparr>"
          using Some by (cases w) (simp add: w1_def h_def)
        then show ?thesis
          unfolding lTCPWindowTxAdd_def Some option.case Let_def if_P [OF fill] min g1_def [symmetric] pos by simp
      qed
      have total: "tx_len g (xTxSegments w) + nat k < 2 ^ 31" using n k by linarith
      note f = fill_last [OF inv Some k(1,2) total _ g1_def w1_def]
      have hh: "h = None \<or> h = Some i" by (simp add: h_def)
      have w1: "xTxSegments w1 = xTxSegments w" "usMSS w1 = usMSS w" "tx w1 = tx w" "rx w1 = rx w" "xRxSegments w1 = xRxSegments w"
        by (simp_all add: w1_def)
      have "tx_len g1 (xTxSegments w1) + nat (sint n - k) < 2 ^ 31"
        using f(2) [OF hh] n k sn nat_add_distrib [of k "sint n - k"] w1 by simp
      then obtain js d g' w' where l: "tx_add_loop now L (sint n - k) ?p k g1 w1 = (k + int d, g', w')"
        "appended js d L ?p g1 w1 g' w'" "int d \<le> sint n - k" "int d = sint n - k \<or> xSegmentList g' = []"
        using add_loop_appended [OF f(1) [OF hh], of "sint n - k" ?p L now k] p k sn mss w1 by auto
      have a1: "added d L ?p g1 w1 g' w'" by (rule appended_added [OF f(1) [OF hh] l(2)])
      have "pos_chain L g' p0 (xTxSegments w')"
        if "pos_chain L g p0 (xTxSegments w)" "p0 mod L = p0" "p = (p0 + int (tx_len g (xTxSegments w))) mod L" for p0
        using a1 that f(2,3) [OF hh] k(1) unfolding added_def w1 by (auto simp: mod_simps add.assoc)
      then have "added (nat k + d) L p g w g' w'"
        using a1 f(2) [OF hh] unfolding added_def w1 by (auto simp: g1_def)
      then show ?thesis unfolding m using e l k sn
        by (intro exI [of _ "nat k + d"] exI [of _ g'] exI [of _ w']) auto
    qed
  qed
qed

section \<open>Transmitting\<close>

lemma TxGet_some:
  assumes "tx_pick now win g (w\<lparr>ulOurSequenceNumber := ulHighestSequenceNumber (tx w)\<rparr>) = (Some i, g1, w1)"
    and "i \<notin> set (xPriorityQueue w1 @ xTxQueue w1 @ xWaitQueue w1)"
  shows "\<exists>g' t. ulTCPWindowTxGet now win g w =
       Some ((word_of_int (lDataLength (seg g1 i)), Some (lStreamPos (seg g1 i))), g',
             w1\<lparr>xWaitQueue := xWaitQueue w1 @ [i], ulTxWindowLength := t, ulOurSequenceNumber := ulSequenceNumber (seg g1 i)\<rparr>) \<and>
     (\<forall>j. same_data (seg g1 j) (seg g' j) \<and> bAcked (seg g' j) = bAcked (seg g1 j)) \<and> xSegmentList g' = xSegmentList g1"
proof -
  let ?g2 = "upd_seg i (\<lambda>s. s\<lparr>bOutstanding := True, ucTransmitCount := ucTransmitCount s + 1\<rparr>) g1"
  define t where "t = (if ucTransmitCount (seg ?g2 i) = MAX_TRANSMIT_COUNT_USING_LARGE_WINDOW \<and>
    ulTxWindowLength w1 > 2 * ucast (usMSS w1) then 2 * ucast (usMSS w1) else ulTxWindowLength w1)"
  let ?w2 = "w1\<lparr>xWaitQueue := xWaitQueue w1 @ [i]\<rparr>"
  have t: "(if ucTransmitCount (seg ?g2 i) = MAX_TRANSMIT_COUNT_USING_LARGE_WINDOW \<and> ulTxWindowLength ?w2 > 2 * ucast (usMSS ?w2)
      then ?w2\<lparr>ulTxWindowLength := 2 * ucast (usMSS ?w2)\<rparr> else ?w2) = ?w2\<lparr>ulTxWindowLength := t\<rparr>"
    unfolding t_def by (cases w1) simp
  have "same_data (seg g1 j) (seg (upd_seg i (vTCPTimerSet now) ?g2) j)"
    "bAcked (seg (upd_seg i (vTCPTimerSet now) ?g2) j) = bAcked (seg g1 j)" for j
    by (simp_all add: same_data_def vTCPTimerSet_def)
  then show ?thesis
    unfolding ulTCPWindowTxGet_def assms(1) prod.case option.case if_not_P [OF assms(2)] Let_def t
    by (intro exI [of _ "upd_seg i (vTCPTimerSet now) ?g2"] exI [of _ t]) (simp add: vTCPTimerSet_def)
qed

text \<open>What a call that sends the segment \<open>i\<close> does.\<close>

definition sent_again :: "nat \<Rightarrow> seg_pool \<Rightarrow> TCPWindow_t \<Rightarrow> u32 \<times> int option \<Rightarrow> seg_pool \<Rightarrow> TCPWindow_t \<Rightarrow> bool" where
  "sent_again i g w r g' w' \<longleftrightarrow>
     i \<in> set (queues w) \<and> r = (of_nat (tx_bytes g i), Some (lStreamPos (seg g i))) \<and>
     ulOurSequenceNumber w' = ulSequenceNumber (seg g i) \<and> i \<in> set (xWaitQueue w') \<and>
     tx_inv g' w' \<and> una w' = una w \<and> outstanding w \<le> outstanding w' \<and>
     off (una w) (ulSequenceNumber (seg g i)) + tx_bytes g i \<le> outstanding w' \<and>
     (\<forall>j. same_data (seg g j) (seg g' j)) \<and> xSegmentList g' = xSegmentList g \<and>
     xTxSegments w' = xTxSegments w \<and> xRxSegments w' = xRxSegments w \<and> rx w' = rx w \<and> usMSS w' = usMSS w"

lemma tx_segment_range:
  assumes inv: "tx_inv g w" and s: "xTxSegments w = sent @ xTxQueue w" "outstanding w = tx_len g sent"
    and i: "i \<in> set sent"
  shows "off (una w) (ulSequenceNumber (seg g i)) + tx_bytes g i \<le> outstanding w"
proof -
  obtain xs ys where xs: "sent = xs @ i # ys" using i by (auto simp: in_set_conv_decomp)
  have "off (una w) (ulSequenceNumber (seg g i)) = tx_len g xs"
    using tx_chain_off(1) [of g "una w" xs i "ys @ xTxQueue w"] tx_invD(2,3) [OF inv] s(1) xs by simp
  then show ?thesis using s(2) xs by simp
qed

lemma send_queued:
  assumes inv: "tx_inv g w" and i: "i \<in> set (xPriorityQueue w @ xWaitQueue w)"
    and w1: "w1 = w\<lparr>ulOurSequenceNumber := n, xPriorityQueue := remove1 i (xPriorityQueue w), xWaitQueue := remove1 i (xWaitQueue w)\<rparr>"
    and g1: "\<forall>j. same_data (seg g j) (seg g1 j) \<and> bAcked (seg g1 j) = bAcked (seg g j)" "xSegmentList g1 = xSegmentList g"
    and pick: "tx_pick now win g (w\<lparr>ulOurSequenceNumber := ulHighestSequenceNumber (tx w)\<rparr>) = (Some i, g1, w1)"
  shows "\<exists>r g' w'. ulTCPWindowTxGet now win g w = Some (r, g', w') \<and> sent_again i g w r g' w'"
proof -
  note iv = tx_invD [OF inv]
  have q: "distinct (queues w)" using win_okD(7) [OF iv(1)] .
  have out: "i \<notin> set (xPriorityQueue w1 @ xTxQueue w1 @ xWaitQueue w1)"
    using q i by (auto simp: queues_def w1)
  obtain g' t where get: "ulTCPWindowTxGet now win g w =
      Some ((word_of_int (lDataLength (seg g1 i)), Some (lStreamPos (seg g1 i))), g',
             w1\<lparr>xWaitQueue := xWaitQueue w1 @ [i], ulTxWindowLength := t, ulOurSequenceNumber := ulSequenceNumber (seg g1 i)\<rparr>)"
    and g': "\<forall>j. same_data (seg g1 j) (seg g' j) \<and> bAcked (seg g' j) = bAcked (seg g1 j)" "xSegmentList g' = xSegmentList g1"
    using TxGet_some [OF pick out] by (elim exE conjE) (rule that; assumption)
  let ?w' = "w1\<lparr>xWaitQueue := xWaitQueue w1 @ [i], ulTxWindowLength := t, ulOurSequenceNumber := ulSequenceNumber (seg g1 i)\<rparr>"
  have data: "same_data (seg g j) (seg g' j) \<and> bAcked (seg g' j) = bAcked (seg g j)" for j
    using g1(1) g'(1) same_data_trans by metis
  have "mset (xPriorityQueue ?w' @ xWaitQueue ?w') = mset (xPriorityQueue w @ xWaitQueue w)"
  proof -
    consider "i \<in> set (xPriorityQueue w)" "i \<notin> set (xWaitQueue w)" | "i \<in> set (xWaitQueue w)" "i \<notin> set (xPriorityQueue w)"
      using q i by (auto simp: queues_def)
    then show ?thesis by cases (simp_all add: w1 remove1_idem)
  qed
  then have r: "requeued g w g' ?w'" using data g1(2) g'(2) by (simp add: requeued_def w1)
  have seg: "i \<in> set (xTxSegments w)" using i win_okD(8) [OF iv(1)] by (auto simp: queues_def)
  obtain sent where s: "xTxSegments w = sent @ xTxQueue w" "outstanding w = tx_len g sent"
    by (rule tx_inv_sent [OF inv])
  have "i \<in> set sent" using seg s(1) q i by (auto simp: queues_def)
  then have range: "off (una w) (ulSequenceNumber (seg g i)) + tx_bytes g i \<le> outstanding w"
    by (rule tx_segment_range [OF inv s])
  have pos: "0 < lDataLength (seg g i)" using tx_chain_pos [OF iv(2) seg] by simp
  have same: "lDataLength (seg g1 i) = lDataLength (seg g i)" "lStreamPos (seg g1 i) = lStreamPos (seg g i)"
    "ulSequenceNumber (seg g1 i) = ulSequenceNumber (seg g i)" using g1(1) by (simp_all add: same_data_def)
  show ?thesis
    by (intro exI conjI, rule get)
      (use requeued_inv [OF inv r] i data g1 g' range word_of_len [OF pos] in
        \<open>auto simp: sent_again_def queues_def w1 same\<close>)
qed

lemma send_new:
  assumes inv: "tx_inv g w" and queue: "xTxQueue w = i # rest"
    and w1: "w1 = w\<lparr>ulOurSequenceNumber := n, xTxQueue := rest,
        pxHeadSegment := (if pxHeadSegment w = Some i then None else pxHeadSegment w),
        tx := (tx w)\<lparr>ulHighestSequenceNumber := ulSequenceNumber (seg g i) + word_of_int (lDataLength (seg g i))\<rparr>\<rparr>"
    and pick: "tx_pick now win g (w\<lparr>ulOurSequenceNumber := ulHighestSequenceNumber (tx w)\<rparr>) = (Some i, g, w1)"
  shows "\<exists>r g' w'. ulTCPWindowTxGet now win g w = Some (r, g', w') \<and> sent_again i g w r g' w'"
proof -
  note iv = tx_invD [OF inv]
  have q: "distinct (queues w)" using win_okD(7) [OF iv(1)] .
  have out: "i \<notin> set (xPriorityQueue w1 @ xTxQueue w1 @ xWaitQueue w1)"
    using q queue by (auto simp: queues_def w1)
  obtain g' t where get: "ulTCPWindowTxGet now win g w =
      Some ((word_of_int (lDataLength (seg g i)), Some (lStreamPos (seg g i))), g',
             w1\<lparr>xWaitQueue := xWaitQueue w1 @ [i], ulTxWindowLength := t, ulOurSequenceNumber := ulSequenceNumber (seg g i)\<rparr>)"
    and g': "\<forall>j. same_data (seg g j) (seg g' j) \<and> bAcked (seg g' j) = bAcked (seg g j)" "xSegmentList g' = xSegmentList g"
    using TxGet_some [OF pick out] by (elim exE conjE) (rule that; assumption)
  obtain w' where w': "w' = w1\<lparr>xWaitQueue := xWaitQueue w1 @ [i], ulTxWindowLength := t, ulOurSequenceNumber := ulSequenceNumber (seg g i)\<rparr>"
    by simp
  obtain sent where s: "xTxSegments w = sent @ i # rest" "outstanding w = tx_len g sent"
    using tx_inv_sent [OF inv] queue by metis
  have i: "0 < lDataLength (seg g i)" "ulSequenceNumber (seg g i) = una w + of_nat (tx_len g sent)"
    using iv(2) s(1) by auto
  have same: "same_data (seg g j) (seg g' j)" for j using g'(1) by blast
  have lens: "tx_len g' js = tx_len g js" for js using same by (intro tx_len_same)
  have bytes: "tx_bytes g' j = tx_bytes g j" for j using same by (simp add: tx_bytes_def same_data_def)
  have fields: "xTxSegments w' = xTxSegments w" "una w' = una w" "xTxQueue w' = rest"
    "ulNextTxSequenceNumber w' = ulNextTxSequenceNumber w" "xRxSegments w' = xRxSegments w"
    "ulHighestSequenceNumber (tx w') = una w + of_nat (tx_len g (sent @ [i]))"
    "xPriorityQueue w' = xPriorityQueue w" "xWaitQueue w' = xWaitQueue w @ [i]" "usMSS w' = usMSS w" "rx w' = rx w"
    "ulOurSequenceNumber w' = ulSequenceNumber (seg g i)"
    "pxHeadSegment w' = (if pxHeadSegment w = Some i then None else pxHeadSegment w)"
    using i(2) word_of_len [OF i(1)] by (simp_all add: w' w1 add.assoc)
  have perm: "mset (queues w') = mset (queues w)" by (simp add: queues_def fields queue)
  then have set: "set (queues w') = set (queues w)" by (rule mset_eq_setD)
  have "win_ok g' w'"
    using iv(1) mset_eq_imp_distinct_iff [OF perm] set g'(2) by (simp add: win_ok_def descriptors_def fields)
  moreover have "tx_chain g' (una w') (xTxSegments w')"
    using iv(2) tx_chain_cong [of "xTxSegments w" g g'] same fields by simp
  moreover have "rest \<noteq> [] \<and> j = last rest" if "pxHeadSegment w' = Some j" for j
    using that iv(6) [of j] fields queue by (auto split: if_splits)
  moreover have "xTxSegments w' = (sent @ [i]) @ xTxQueue w'" using s(1) fields by simp
  moreover have "ulHighestSequenceNumber (tx w') = una w' + of_nat (tx_len g' (sent @ [i]))"
    unfolding fields lens ..
  ultimately have inv': "tx_inv g' w'"
    using iv(3-5) g'(1) unfolding tx_inv_def fields lens set
    by (intro conjI exI [of _ "sent @ [i]"]) blast+
  have "tx_len g (sent @ [i]) < 2 ^ 32" "tx_len g sent < 2 ^ 32" using iv(3) s(1) by simp_all
  then have out': "outstanding w' = tx_len g (sent @ [i])" "off (una w) (ulSequenceNumber (seg g i)) = tx_len g sent"
    unfolding outstanding_def fields i(2) by (simp_all only: off_of_nat)
  show ?thesis
    by (intro exI conjI, rule get [folded w'])
      (use inv' out' same g'(2) s(2) word_of_len [OF i(1)] queue in \<open>simp add: sent_again_def fields queues_def\<close>)
qed

lemma get_inv:
  assumes inv: "tx_inv g w"
  shows "ulTCPWindowTxGet now win g w = Some ((0, None), g, w\<lparr>ulOurSequenceNumber := ulHighestSequenceNumber (tx w)\<rparr>) \<or>
     (\<exists>i r g' w'. ulTCPWindowTxGet now win g w = Some (r, g', w') \<and> sent_again i g w r g' w')"
proof -
  let ?w = "w\<lparr>ulOurSequenceNumber := ulHighestSequenceNumber (tx w)\<rparr>"
  have q: "distinct (queues w)" using win_okD(7) [OF tx_invD(1) [OF inv]] .
  have none: ?thesis if "tx_pick now win g ?w = (None, g, ?w)"
    using that by (simp add: ulTCPWindowTxGet_def)
  show ?thesis
  proof (cases "xPriorityQueue w")
    case prio: (Cons i rest)
    have "i \<notin> set (xWaitQueue w)" using q prio by (auto simp: queues_def)
    then have pick: "tx_pick now win g ?w = (Some i, g, w\<lparr>ulOurSequenceNumber := ulHighestSequenceNumber (tx w),
        xPriorityQueue := remove1 i (xPriorityQueue w), xWaitQueue := remove1 i (xWaitQueue w)\<rparr>)"
      by (simp add: tx_pick_def prio xTCPWindowGetHead_def remove1_idem)
    show ?thesis
      using send_queued [OF inv _ refl _ _ pick] prio by auto
  next
    case noprio: Nil
    show ?thesis
    proof (cases "\<exists>i rest. xWaitQueue w = i # rest \<and> ulTimerGetAge now (seg g i) > max_age ?w (seg g i)")
      case True
      then obtain i rest where i: "xWaitQueue w = i # rest" "ulTimerGetAge now (seg g i) > max_age ?w (seg g i)" by blast
      have pick: "tx_pick now win g ?w = (Some i, upd_seg i (\<lambda>s. s\<lparr>ucDupAckCount := 0\<rparr>) g,
          w\<lparr>ulOurSequenceNumber := ulHighestSequenceNumber (tx w),
            xPriorityQueue := remove1 i (xPriorityQueue w), xWaitQueue := remove1 i (xWaitQueue w)\<rparr>)"
        using i(2) by (simp add: tx_pick_def noprio i xTCPWindowGetHead_def xTCPWindowPeekHead_def)
      show ?thesis
        by (rule disjI2, rule exI, rule send_queued [OF inv _ refl _ _ pick]) (simp_all add: i(1) same_data_def)
    next
      case False
      then have wait: "(case xTCPWindowPeekHead (xWaitQueue ?w) of None \<Rightarrow> None
          | Some i \<Rightarrow> if ulTimerGetAge now (seg g i) > max_age ?w (seg g i) then Some i else None) = None"
        by (auto simp: xTCPWindowPeekHead_def split: list.splits)
      have prio: "xTCPWindowGetHead (xPriorityQueue ?w) = (None, [])" by (simp add: noprio xTCPWindowGetHead_def)
      show ?thesis
      proof (cases "xTxQueue w")
        case Nil
        then show ?thesis
          by (intro none) (simp only: tx_pick_def wait prio, simp add: xTCPWindowPeekHead_def)
      next
        case queue: (Cons i rest)
        show ?thesis
        proof (cases "bSendFullSize w \<and> lDataLength (seg g i) < lMaxLength (seg g i) \<or> \<not> prvTCPWindowTxHasSpace g ?w win")
          case True
          then show ?thesis
            by (intro none) (simp only: tx_pick_def wait prio, auto simp: xTCPWindowPeekHead_def queue)
        next
          case False
          then have pick: "tx_pick now win g ?w = (Some i, g, w\<lparr>ulOurSequenceNumber := ulHighestSequenceNumber (tx w),
              xTxQueue := rest, pxHeadSegment := (if pxHeadSegment w = Some i then None else pxHeadSegment w),
              tx := (tx w)\<lparr>ulHighestSequenceNumber := ulSequenceNumber (seg g i) + word_of_int (lDataLength (seg g i))\<rparr>\<rparr>)"
            by (simp only: tx_pick_def wait prio, simp add: xTCPWindowPeekHead_def xTCPWindowGetHead_def queue)
          show ?thesis using send_new [OF inv queue refl pick] by blast
        qed
      qed
    qed
  qed
qed

section \<open>Sessions\<close>

lemma ack_prefix_boundary:
  "tx_chain g n (ys @ zs) \<Longrightarrow> ack_prefix g (tx_len g ys) (ys @ zs) = ys"
proof (induction ys arbitrary: n)
  case Nil
  then show ?case by (cases zs) simp_all
next
  case (Cons i ys)
  then have "0 < tx_bytes g i" "ack_prefix g (tx_len g ys) (ys @ zs) = ys" by (auto simp: tx_bytes_def)
  then show ?case by simp
qed
















section \<open>Properties\<close>

lemma create_tx_inv:
  assumes "vTCPWindowCreate mok rlen tlen a s mss g0 w0 = (g, w)" "pxHeadSegment w0 = None"
    "seg_allocated g0 \<Longrightarrow> distinct (xSegmentList g0)"
  shows "tx_inv g w \<and> xRxSegments w = [] \<and> lists_initialised w"
proof -
  have "distinct (xSegmentList g)"
    using assms(1,3) by (auto simp: vTCPWindowCreate_def prvCreateSectors_def Let_def split: if_splits)
  moreover have "xTxSegments w = []" "xRxSegments w = []" "queues w = []" "pxHeadSegment w = None" "lists_initialised w"
    "ulHighestSequenceNumber (tx w) = una w" "ulNextTxSequenceNumber w = una w" "xTxQueue w = []"
    using assms(1,2) by (auto simp: vTCPWindowCreate_def vTCPWindowInit_def queues_def Let_def)
  ultimately show ?thesis by (simp add: tx_inv_def win_ok_def descriptors_def)
qed


definition blank_window :: TCPWindow_t where
  "blank_window = \<lparr>bHasInit = False, bSendFullSize = False, bTimeStamps = False, ulRxWindowLength = 0,
     ulTxWindowLength = 0, rx = \<lparr>ulFirstSequenceNumber = 0, ulCurrentSequenceNumber = 0, ulFINSequenceNumber = 0,
       ulHighestSequenceNumber = 0\<rparr>, tx = \<lparr>ulFirstSequenceNumber = 0, ulCurrentSequenceNumber = 0,
       ulFINSequenceNumber = 0, ulHighestSequenceNumber = 0\<rparr>, ulOurSequenceNumber = 0, ulUserDataLength = 0,
     ulNextTxSequenceNumber = 0, lSRTT = 0, ucOptionLength = 0, lists_initialised = False, xPriorityQueue = [],
     xTxQueue = [], xWaitQueue = [], pxHeadSegment = None, ulOptionsData = [], xTxSegments = [], xRxSegments = [],
     usMSS = 0, usMSSInit = 0\<rparr>"

definition small_pool :: seg_pool where
  "small_pool = \<lparr>seg_allocated = True, seg_array = (\<lambda>_. null_segment), xSegmentList = [0, 1, 2]\<rparr>"

text \<open>A connection whose first sequence number is 2 below the wrap, with segments of 4 bytes.\<close>

definition fresh_window :: TCPWindow_t where
  "fresh_window = snd (vTCPWindowCreate True 100 100 7 0xFFFFFFFE 4 small_pool blank_window)"

lemma fresh_create: "vTCPWindowCreate True 100 100 7 0xFFFFFFFE 4 small_pool blank_window = (small_pool, fresh_window)"
  by (simp add: fresh_window_def vTCPWindowCreate_def small_pool_def Let_def)

lemma fresh_inv: "tx_inv small_pool fresh_window"
  using create_tx_inv [OF fresh_create] by (simp add: blank_window_def small_pool_def)

lemma fresh_values:
  "usMSS fresh_window = 4" "xTxSegments fresh_window = []" "una fresh_window = 0xFFFFFFFE" "outstanding fresh_window = 0"
  by (simp_all add: fresh_window_def vTCPWindowCreate_def vTCPWindowInit_def blank_window_def Let_def outstanding_def)

text \<open>The fresh connection with 6 bytes queued from stream position 8 of 10, and one segment sent.\<close>

definition queued_state :: "seg_pool \<times> TCPWindow_t" where
  "queued_state = snd (lTCPWindowTxAdd 5 6 8 10 small_pool fresh_window)"

definition sending_state :: "seg_pool \<times> TCPWindow_t" where
  "sending_state = snd (the (ulTCPWindowTxGet 6 100 (fst queued_state) (snd queued_state)))"

lemma queued_run: "lTCPWindowTxAdd 5 6 8 10 small_pool fresh_window = (6, queued_state)"
proof -
  have "fst (lTCPWindowTxAdd 5 6 8 10 small_pool fresh_window) = 6"
    by (simp add: lTCPWindowTxAdd_def tx_add_loop.simps xTCPWindowNew_def small_pool_def fresh_window_def
        vTCPWindowCreate_def vTCPWindowInit_def blank_window_def FreeRTOS_min_int32_def upd_seg_def vTCPTimerSet_def)
  then show ?thesis by (simp add: queued_state_def prod_eq_iff)
qed



text \<open>
  Claim C29. Adding \<open>n\<close> bytes that lie at position \<open>p\<close> of the stream queues all of them, or as many
  as the pool has descriptors for; the queued bytes remain those of the stream, in order, and
  what was sent or is expected by the peer does not change.
\<close>

theorem tx_add_exact:
  assumes "tx_inv g w" and "0 < usMSS w" and "tx_len g (xTxSegments w) + unat n < 2 ^ 31"
    and "0 \<le> p0" and "p0 < L" and "int (unat n) \<le> L"
    and "pos_chain L g p0 (xTxSegments w)" and "p = (p0 + int (tx_len g (xTxSegments w))) mod L"
  shows "\<exists>d g' w'. lTCPWindowTxAdd now n p L g w = (int d, g', w') \<and> d \<le> unat n \<and>
     (d = unat n \<or> xSegmentList g' = []) \<and> tx_inv g' w' \<and>
     tx_len g' (xTxSegments w') = tx_len g (xTxSegments w) + d \<and>
     pos_chain L g' p0 (xTxSegments w') \<and> tx w' = tx w \<and>
     ulNextTxSequenceNumber w' = ulNextTxSequenceNumber w + of_nat d"
proof -
  have p: "0 \<le> p" "p < L" using assms(4,5,8) by simp_all
  obtain d g' w' where a: "lTCPWindowTxAdd now n p L g w = (int d, g', w')" "added d L p g w g' w'" "d \<le> unat n"
    "d = unat n \<or> xSegmentList g' = []"
    using add_inv [OF assms(1-3) p assms(6), of now] by (elim exE conjE) (rule that; assumption)
  have "ulNextTxSequenceNumber w' = ulNextTxSequenceNumber w + of_nat d"
    using a(2) tx_invD(4) [OF assms(1)] tx_invD(4) [of g' w'] by (simp add: added_def)
  moreover have "pos_chain L g' p0 (xTxSegments w')"
    using a(2) assms(4,5,7,8) by (simp add: added_def mod_pos_pos_trivial)
  ultimately show ?thesis using a by (intro exI [of _ d] exI [of _ g'] exI [of _ w']) (simp add: added_def)
qed

theorem tx_add_exact_witness:
  "\<exists>d g' w'. lTCPWindowTxAdd 5 6 8 10 small_pool fresh_window = (int d, g', w') \<and> d \<le> 6 \<and>
     pos_chain 10 g' 8 (xTxSegments w')"
  using tx_add_exact [OF fresh_inv, of 6 8 10 8 5] fresh_values by auto

lemma queued_inv: "tx_inv (fst queued_state) (snd queued_state)" "pos_chain 10 (fst queued_state) 8 (xTxSegments (snd queued_state))"
  "tx_len (fst queued_state) (xTxSegments (snd queued_state)) = 6" "una (snd queued_state) = 0xFFFFFFFE"
proof -
  obtain g w where q: "queued_state = (g, w)" by fastforce
  have "added 6 10 8 small_pool fresh_window g w"
    using add_inv [OF fresh_inv, of 6 8 10 5] fresh_values queued_run unfolding q by auto
  then show "tx_inv (fst queued_state) (snd queued_state)" "pos_chain 10 (fst queued_state) 8 (xTxSegments (snd queued_state))"
    "tx_len (fst queued_state) (xTxSegments (snd queued_state)) = 6" "una (snd queued_state) = 0xFFFFFFFE"
    using fresh_values by (simp_all add: added_def q)
qed

text \<open>
  Claim C9. A call to transmit that yields bytes yields one whole segment \<open>i\<close> of those that are not
  acknowledged, first sent or repeated: as many bytes as the segment has, from where it starts.
  \<open>ulOurSequenceNumber\<close> is its sequence number, its bytes are those the stream holds as far behind
  the oldest unacknowledged one as that number is, it waits for its acknowledgement afterwards, and
  everything queued stays.
\<close>

theorem tx_get_exact:
  assumes "tx_inv g w" and "pos_chain L g p0 (xTxSegments w)" and "p0 mod L = p0"
    and "ulTCPWindowTxGet now win g w = Some ((n, Some pos), g', w')"
  shows "let k = off (ulCurrentSequenceNumber (tx w)) (ulOurSequenceNumber w') in
     (\<exists>xs i ys. xTxSegments w = xs @ i # ys \<and> k = tx_len g xs \<and> unat n = tx_bytes g i \<and>
        ulOurSequenceNumber w' = ulSequenceNumber (seg_array g i) \<and> \<not> bAcked (seg_array g i) \<and> i \<in> set (xWaitQueue w')) \<and>
     pos = (p0 + int k) mod L \<and> 0 < unat n \<and> k + unat n \<le> outstanding w' \<and> outstanding w \<le> outstanding w' \<and>
     tx_inv g' w' \<and> pos_chain L g' p0 (xTxSegments w') \<and> ulCurrentSequenceNumber (tx w') = ulCurrentSequenceNumber (tx w) \<and>
     tx_len g' (xTxSegments w') = tx_len g (xTxSegments w)"
proof -
  note iv = tx_invD [OF assms(1)]
  obtain i where s: "sent_again i g w (n, Some pos) g' w'" using get_inv [OF assms(1), of now win] assms(4) by auto
  have "i \<in> set (xTxSegments w)" using s win_okD(8) [OF iv(1)] by (auto simp: sent_again_def)
  then obtain xs ys where xs: "xTxSegments w = xs @ i # ys" by (auto simp: in_set_conv_decomp)
  have k: "off (una w) (ulSequenceNumber (seg g i)) = tx_len g xs" "0 < lDataLength (seg g i)"
    using tx_chain_off [of g "una w" xs i ys] iv(2,3) xs by simp_all
  have "lStreamPos (seg g i) = (p0 + int (tx_len g xs)) mod L" using assms(2,3) xs by simp
  moreover have "tx_bytes g i < 2 ^ 32" using iv(3) xs by simp
  moreover have "tx_len g' (xTxSegments w') = tx_len g (xTxSegments w)" "pos_chain L g' p0 (xTxSegments w')"
    using s assms(2) tx_len_same [of "xTxSegments w" g g'] pos_chain_cong [of "xTxSegments w" g g'] by (simp_all add: sent_again_def)
  moreover have n: "unat n = tx_bytes g i" using s calculation(2) by (simp add: sent_again_def unat_of_nat32)
  moreover have "\<exists>xs' i' ys'. xTxSegments w = xs' @ i' # ys' \<and>
      off (una w) (ulOurSequenceNumber w') = tx_len g xs' \<and> unat n = tx_bytes g i' \<and>
      ulOurSequenceNumber w' = ulSequenceNumber (seg g i') \<and> \<not> bAcked (seg g i') \<and> i' \<in> set (xWaitQueue w')"
  proof (intro exI conjI)
    show "off (una w) (ulOurSequenceNumber w') = tx_len g xs" using s k(1) by (simp add: sent_again_def)
    show "\<not> bAcked (seg g i)" using s iv(5) [of i] xs by (simp add: sent_again_def)
  qed (use s xs n in \<open>simp_all add: sent_again_def\<close>)
  ultimately show ?thesis
    using s k tx_chain_pos [OF iv(2), of i] xs by (simp add: sent_again_def Let_def)
qed

lemma sending_run: "ulTCPWindowTxGet 6 100 (fst queued_state) (snd queued_state) = Some ((4, Some 8), sending_state)"
  by (simp add: sending_state_def queued_state_def lTCPWindowTxAdd_def tx_add_loop.simps xTCPWindowNew_def small_pool_def
      fresh_window_def vTCPWindowCreate_def vTCPWindowInit_def blank_window_def FreeRTOS_min_int32_def upd_seg_def
      vTCPTimerSet_def ulTCPWindowTxGet_def tx_pick_def xTCPWindowGetHead_def xTCPWindowPeekHead_def Let_def
      prvTCPWindowTxHasSpace_def FreeRTOS_min_uint32_def)

theorem tx_get_exact_witness:
  "let k = off 0xFFFFFFFE (ulOurSequenceNumber (snd sending_state)) in 8 = (8 + int k) mod 10 \<and> k + 4 \<le> outstanding (snd sending_state)"
  using tx_get_exact [OF queued_inv(1,2), of 6 100 4 8 "fst sending_state" "snd sending_state"] queued_inv(4) sending_run
  by (simp add: Let_def)

text \<open>Releasing from the left keeps the stream positions of the rest.\<close>

lemma released_pos:
  assumes rel: "released P g w g' w'" and ok: "win_ok g w" and pos: "pos_chain L g p0 (xTxSegments w)" "p0 mod L = p0"
  shows "pos_chain L g' ((p0 + int (tx_len g P)) mod L) (xTxSegments w')"
proof -
  have seg: "xTxSegments w = P @ xTxSegments w'" using rel by (simp add: released_def)
  have same: "seg g' j = seg g j" if "j \<in> set (xTxSegments w')" for j
    using rel win_okD(2) [OF ok] that seg by (auto simp: released_def)
  have "pos_chain L g ((p0 + int (tx_len g P)) mod L) (xTxSegments w')" using pos seg by simp
  then show ?thesis using same by (subst pos_chain_cong [of _ g g']) simp_all
qed

text \<open>
  Claim C8. An acknowledgement of sent data answers the number of bytes it releases, moves the left
  edge by that number, and returns the descriptors of exactly the released segments to the pool.
  These are, from the left, the segments that lie wholly within the acknowledged bytes, and one that
  lies partly there only if a selective acknowledgement had covered it: the first segment that stays
  begins at or behind the acknowledged byte, or reaches over it and was never acknowledged.  When the
  acknowledgement falls on a segment boundary it releases everything before it and nothing else.
\<close>

theorem tx_ack_exact:
  assumes "tx_inv g w" and "off (ulCurrentSequenceNumber (tx w)) n \<le> outstanding w"
  shows "\<exists>c P g' w'. ulTCPWindowTxAck now n g w = (of_nat c, g', w') \<and> c \<le> outstanding w \<and>
     ulCurrentSequenceNumber (tx w') = ulCurrentSequenceNumber (tx w) + of_nat c \<and> outstanding w' = outstanding w - c \<and>
     tx_inv g' w' \<and> xTxSegments w = P @ xTxSegments w' \<and> c = tx_len g P \<and> xSegmentList g' = xSegmentList g @ P \<and>
     (\<forall>xs i ys. P = xs @ i # ys \<longrightarrow> tx_len g xs < off (ulCurrentSequenceNumber (tx w)) n \<and>
        (tx_len g xs + tx_bytes g i \<le> off (ulCurrentSequenceNumber (tx w)) n \<or> bAcked (seg_array g i))) \<and>
     (\<forall>i ys. xTxSegments w' = i # ys \<longrightarrow> off (ulCurrentSequenceNumber (tx w)) n \<le> c \<or>
        off (ulCurrentSequenceNumber (tx w)) n < c + tx_bytes g i \<and> \<not> bAcked (seg_array g i)) \<and>
     (\<forall>ys zs. xTxSegments w = ys @ zs \<longrightarrow> off (ulCurrentSequenceNumber (tx w)) n = tx_len g ys \<longrightarrow> P = ys) \<and>
     (\<forall>L p0. pos_chain L g p0 (xTxSegments w) \<longrightarrow> p0 mod L = p0 \<longrightarrow>
        pos_chain L g' ((p0 + int c) mod L) (xTxSegments w'))"
proof -
  note iv = tx_invD [OF assms(1)]
  define P where "P = ack_prefix g (off (una w) n) (xTxSegments w)"
  obtain g' w' where a: "ulTCPWindowTxAck now n g w = (of_nat (tx_len g P), g', w')" "released P g w g' w'" "tx_inv g' w'"
    "outstanding w' = outstanding w - tx_len g P"
    using ack_released [OF assms(1) refl assms(2), of now, folded P_def] by (elim exE conjE) (rule that; assumption)
  have bound: "tx_len g P \<le> outstanding w"
  proof -
    obtain sent where s: "xTxSegments w = sent @ xTxQueue w" "outstanding w = tx_len g sent"
      by (rule tx_inv_sent [OF assms(1)])
    have "P = ack_prefix g (off (una w) n) sent" unfolding P_def s(1) by (rule ack_prefix_sent) (use assms(2) s(2) in simp)
    then show ?thesis unfolding s(2) using ack_prefix_prefix [of sent g "off (una w) n"] by (metis le_add1 tx_len_simps(3))
  qed
  have cut: "P = ys" if "xTxSegments w = ys @ zs" "off (una w) n = tx_len g ys" for ys zs
    using ack_prefix_boundary [of g "una w" ys zs] iv(2) that by (simp add: P_def)
  have r: "una w' = una w + of_nat (tx_len g P)" "xTxSegments w = P @ xTxSegments w'" "xSegmentList g' = xSegmentList g @ P"
    using a(2) by (simp_all add: released_def)
  have covered: "tx_len g xs < off (una w) n \<and> (tx_len g xs + tx_bytes g i \<le> off (una w) n \<or> bAcked (seg g i))"
    if "P = xs @ i # ys" for xs i ys
    using ack_prefix_covered [of g "off (una w) n" "xTxSegments w" xs i ys] that unfolding P_def by simp
  have rest: "off (una w) n \<le> tx_len g P \<or> off (una w) n < tx_len g P + tx_bytes g i \<and> \<not> bAcked (seg g i)"
    if "xTxSegments w' = i # ys" for i ys
    using ack_prefix_maximal [of "xTxSegments w" g "off (una w) n" i ys] r(2) that unfolding P_def by simp
  show ?thesis
    by (rule exI [of _ "tx_len g P"], rule exI [of _ P], rule exI [of _ g'], rule exI [of _ w'])
      (intro conjI allI impI, rule a, rule bound, rule r, rule a, rule a, rule r, rule refl, rule r,
        rule covered [THEN conjunct1], assumption, rule covered [THEN conjunct2], assumption, rule rest, assumption,
        rule cut, assumption+, rule released_pos [OF a(2) iv(1)])
qed

lemma unat_four: "unat (4 :: u32) = 4"
  by simp

lemma sending_inv: "tx_inv (fst sending_state) (snd sending_state)" "una (snd sending_state) = 0xFFFFFFFE"
  "4 \<le> outstanding (snd sending_state)"
proof -
  obtain g w where q: "sending_state = (g, w)" by fastforce
  obtain i where i: "sent_again i (fst queued_state) (snd queued_state) (4, Some 8) g w"
    using get_inv [OF queued_inv(1), of 6 100] sending_run unfolding q by auto
  then have "(4 :: u32) = of_nat (tx_bytes (fst queued_state) i)" by (simp add: sent_again_def)
  moreover have "unat (of_nat (tx_bytes (fst queued_state) i) :: u32) \<le> tx_bytes (fst queued_state) i"
    by (simp add: unat_of_nat)
  ultimately have "4 \<le> tx_bytes (fst queued_state) i" by (metis unat_four)
  with i show "tx_inv (fst sending_state) (snd sending_state)" "una (snd sending_state) = 0xFFFFFFFE"
    "4 \<le> outstanding (snd sending_state)"
    using queued_inv(4) by (auto simp: sent_again_def q)
qed

theorem tx_ack_exact_witness:
  "\<exists>c g' w'. ulTCPWindowTxAck 9 2 (fst sending_state) (snd sending_state) = (of_nat c, g', w') \<and>
     una w' = 0xFFFFFFFE + of_nat c"
proof -
  have "off (una (snd sending_state)) 2 \<le> outstanding (snd sending_state)"
    using sending_inv by (simp add: off_def)
  then show ?thesis using tx_ack_exact [OF sending_inv(1), of 2 9] sending_inv(2) by metis
qed

lemma our_seq_irrelevant:
  "max_age (w\<lparr>ulOurSequenceNumber := n\<rparr>) = max_age w"
  "prvTCPWindowTxHasSpace g (w\<lparr>ulOurSequenceNumber := n\<rparr>) win = prvTCPWindowTxHasSpace g w win"
  by (simp add: max_age_def fun_eq_iff,
      cases "xTCPWindowPeekHead (xTxQueue w)", simp_all add: prvTCPWindowTxHasSpace_def Let_def)

lemma get_of_pick:
  assumes "tx_inv g w" "fst (tx_pick now win g (w\<lparr>ulOurSequenceNumber := ulHighestSequenceNumber (tx w)\<rparr>)) \<noteq> None"
  shows "\<exists>n pos g' w'. ulTCPWindowTxGet now win g w = Some ((n, Some pos), g', w')"
proof -
  let ?w = "w\<lparr>ulOurSequenceNumber := ulHighestSequenceNumber (tx w)\<rparr>"
  have "ulTCPWindowTxGet now win g w \<noteq> Some ((0, None), g, ?w)"
    using assms(2) unfolding ulTCPWindowTxGet_def Let_def
    by (cases "tx_pick now win g ?w") (auto simp only: prod.case option.case fst_conv option.inject prod.inject
        option.distinct split: option.splits if_split_asm)
  then obtain i r g' w' where "ulTCPWindowTxGet now win g w = Some (r, g', w')" "sent_again i g w r g' w'"
    using get_inv [OF assms(1), of now win] by blast
  then show ?thesis by (auto simp: sent_again_def)
qed

text \<open>One tick after the promised delay the head of the waiting queue is due.\<close>

lemma due_after_delay:
  assumes "unat a + 1 < 2 ^ 32" "unat m + 1 < 2 ^ 32" "d = (if m > a then m - a else 0)"
  shows "m < a + d + (1 :: u32)"
proof (cases "m > a")
  case True
  then have "a + d + 1 = m + 1" using assms(3) by simp
  then show ?thesis using assms(2) unat_add_small [of m 1] by (simp add: word_less_nat_alt)
next
  case False
  then have "a + d + 1 = a + 1" using assms(3) by simp
  then show ?thesis using False assms(1) unat_add_small [of a 1] by (simp add: word_less_nat_alt)
qed

text \<open>
  Claim C30. When \<open>xTCPWindowTxHasData\<close> promises data after a delay, a call to transmit one tick
  after it sends a segment; when it denies, a call now sends nothing.
\<close>

theorem tx_has_data_progress:
  assumes "tx_inv g w" and "xTCPWindowTxHasData now g w win = (r, d)"
    and "\<forall>i\<in>set (xWaitQueue w). unat (ulTimerGetAge now (seg_array g i)) + 1 < 2 ^ 32 \<and>
           unat (push_bit (unat (ucTransmitCount (seg_array g i))) 1 * word_of_int (lSRTT w) :: u32) + 1 < 2 ^ 32"
  shows "if r then \<exists>n pos g' w'. ulTCPWindowTxGet (now + d + 1) win g w = Some ((n, Some pos), g', w')
         else ulTCPWindowTxGet now win g w = Some ((0, None), g, w\<lparr>ulOurSequenceNumber := ulHighestSequenceNumber (tx w)\<rparr>)"
proof -
  let ?w = "w\<lparr>ulOurSequenceNumber := ulHighestSequenceNumber (tx w)\<rparr>"
  note some = get_of_pick [OF assms(1)]
  show ?thesis
  proof (cases "xPriorityQueue w")
    case (Cons i rest)
    then have "r" using assms(2) by (auto simp: xTCPWindowTxHasData_def)
    then show ?thesis using some by (simp add: tx_pick_def xTCPWindowGetHead_def Cons)
  next
    case noprio: Nil
    show ?thesis
    proof (cases "xWaitQueue w")
      case wait: (Cons i rest)
      let ?a = "ulTimerGetAge now (seg g i)" and ?m = "max_age w (seg g i)"
      have rd: "r" "d = (if ?m > ?a then ?m - ?a else 0)"
        using assms(2) by (auto simp: xTCPWindowTxHasData_def noprio wait xTCPWindowPeekHead_def Let_def)
      have "unat ?a + 1 < 2 ^ 32" "unat ?m + 1 < 2 ^ 32" using assms(3) wait by (simp_all add: max_age_def)
      then have "?m < ulTimerGetAge (now + d + 1) (seg g i)"
        using due_after_delay [OF _ _ rd(2)] by (simp add: ulTimerGetAge_def algebra_simps)
      then show ?thesis
        using some [of "now + d + 1" win] rd(1)
        by (simp add: tx_pick_def noprio wait xTCPWindowGetHead_def xTCPWindowPeekHead_def our_seq_irrelevant)
    next
      case nowait: Nil
      note sel = assms(2) xTCPWindowTxHasData_def tx_pick_def noprio nowait our_seq_irrelevant xTCPWindowGetHead_def
        xTCPWindowPeekHead_def
      show ?thesis
      proof (cases r)
        case False
        then have "tx_pick now win g ?w = (None, g, ?w)"
          using assms(2) by (auto simp: sel split: list.splits if_splits)
        then show ?thesis using False by (simp add: ulTCPWindowTxGet_def)
      next
        case True
        then have "fst (tx_pick (now + d + 1) win g ?w) \<noteq> None"
          using assms(2) by (auto simp: sel split: list.splits if_splits)
        then show ?thesis using True some by simp
      qed
    qed
  qed
qed

lemma queued_has_data: "xTCPWindowTxHasData 6 (fst queued_state) (snd queued_state) 100 = (True, 0)"
  "xWaitQueue (snd queued_state) = []"
  by (simp_all add: queued_state_def lTCPWindowTxAdd_def tx_add_loop.simps xTCPWindowNew_def small_pool_def
      fresh_window_def vTCPWindowCreate_def vTCPWindowInit_def blank_window_def FreeRTOS_min_int32_def upd_seg_def
      vTCPTimerSet_def xTCPWindowTxHasData_def xTCPWindowPeekHead_def Let_def
      prvTCPWindowTxHasSpace_def FreeRTOS_min_uint32_def)

theorem tx_has_data_progress_witness:
  "\<exists>n pos g' w'. ulTCPWindowTxGet 7 100 (fst queued_state) (snd queued_state) = Some ((n, Some pos), g', w')"
  using tx_has_data_progress [OF queued_inv(1) queued_has_data(1)] queued_has_data(2) by simp

lemma free_all_tx:
  assumes "win_ok g w" "length (xTxSegments w) \<le> n"
  shows "win_ok (fst (free_all False n g w)) (snd (free_all False n g w)) \<and>
    xTxSegments (snd (free_all False n g w)) = [] \<and> xRxSegments (snd (free_all False n g w)) = xRxSegments w \<and>
    xSegmentList (fst (free_all False n g w)) = xSegmentList g @ xTxSegments w"
  using assms
proof (induction n arbitrary: g w)
  case (Suc n)
  show ?case
  proof (cases "xTxSegments w")
    case (Cons i rest)
    let ?g = "fst (vTCPWindowFree i g w)" and ?w = "snd (vTCPWindowFree i g w)"
    have "win_ok ?g ?w" using free_win_ok [OF Suc.prems(1)] Cons by simp
    moreover have "i \<notin> set (xRxSegments w)" "i \<notin> set (xSegmentList g)" using win_okD(4,6) [OF Suc.prems(1)] Cons by auto
    ultimately show ?thesis using Suc.IH [of ?g ?w] Suc.prems(2) Cons by (simp add: split_beta remove1_idem)
  qed (use Suc.prems in simp)
qed simp

lemma free_all_rx:
  assumes "win_ok g w" "length (xRxSegments w) \<le> n"
  shows "win_ok (fst (free_all True n g w)) (snd (free_all True n g w)) \<and>
    xRxSegments (snd (free_all True n g w)) = [] \<and> xTxSegments (snd (free_all True n g w)) = xTxSegments w \<and>
    xSegmentList (fst (free_all True n g w)) = xSegmentList g @ xRxSegments w"
  using assms
proof (induction n arbitrary: g w)
  case (Suc n)
  show ?case
  proof (cases "xRxSegments w")
    case (Cons i rest)
    let ?g = "fst (vTCPWindowFree i g w)" and ?w = "snd (vTCPWindowFree i g w)"
    have "win_ok ?g ?w" using free_win_ok [OF Suc.prems(1)] Cons by simp
    moreover have "i \<notin> set (xTxSegments w)" "i \<notin> set (xSegmentList g)" using win_okD(5,6) [OF Suc.prems(1)] Cons by auto
    ultimately show ?thesis using Suc.IH [of ?g ?w] Suc.prems(2) Cons by (simp add: split_beta remove1_idem)
  qed (use Suc.prems in simp)
qed simp

text \<open>
  Destroying a window empties its lists and queues and returns every descriptor it held
  to the pool, behind the free ones, in order.
\<close>

theorem destroy_returns_all:
  assumes "win_ok g w" and "lists_initialised w" and "vTCPWindowDestroy g w = (g', w')"
  shows "xTxSegments w' = [] \<and> xRxSegments w' = [] \<and> xPriorityQueue w' = [] \<and> xTxQueue w' = [] \<and> xWaitQueue w' = [] \<and>
     xSegmentList g' = xSegmentList g @ xTxSegments w @ xRxSegments w \<and> distinct (xSegmentList g')"
proof -
  let ?g1 = "fst (free_all False (length (xTxSegments w)) g w)" and ?w1 = "snd (free_all False (length (xTxSegments w)) g w)"
  note t = free_all_tx [OF assms(1) order_refl]
  note r = free_all_rx [of ?g1 ?w1, OF conjunct1 [OF t] order_refl]
  have "(g', w') = free_all True (length (xRxSegments ?w1)) ?g1 ?w1"
    using assms(2,3) by (simp add: vTCPWindowDestroy_def split_beta)
  then have e: "g' = fst (free_all True (length (xRxSegments ?w1)) ?g1 ?w1)" "w' = snd (free_all True (length (xRxSegments ?w1)) ?g1 ?w1)"
    by (simp_all add: prod_eq_iff)
  have "win_ok g' w'" "xTxSegments w' = []" using r t unfolding e by simp_all
  then have "queues w' = []" using win_okD(8) [of g' w'] by simp
  then show ?thesis using r t win_okD(1) [OF \<open>win_ok g' w'\<close>] unfolding e by (simp add: queues_def)
qed

theorem destroy_returns_all_witness:
  "\<exists>g' w'. vTCPWindowDestroy (fst sending_state) (snd sending_state) = (g', w') \<and> xTxSegments w' = [] \<and> distinct (xSegmentList g')"
proof -
  have "lists_initialised (snd sending_state)"
    by (simp add: sending_state_def queued_state_def lTCPWindowTxAdd_def tx_add_loop.simps xTCPWindowNew_def small_pool_def
      fresh_window_def vTCPWindowCreate_def vTCPWindowInit_def blank_window_def FreeRTOS_min_int32_def upd_seg_def
      vTCPTimerSet_def ulTCPWindowTxGet_def tx_pick_def xTCPWindowGetHead_def xTCPWindowPeekHead_def Let_def
      prvTCPWindowTxHasSpace_def FreeRTOS_min_uint32_def)
  then show ?thesis
    using destroy_returns_all [OF tx_invD(1) [OF sending_inv(1)]] by (metis surj_pair)
qed

section \<open>Acknowledging what was never sent\<close>

text \<open>
  The caller does not compare an acknowledgement number with what was sent.  Here a peer
  acknowledges 2 bytes that are queued but not transmitted: \<open>pxHeadSegment\<close> keeps pointing at the
  freed descriptor, a second connection takes it for its own data, and the next bytes of the first
  connection are added to the segment of the second and to none of its own.
\<close>

lemma rogue_ack_shares_segment:
  "let g0 = small_pool\<lparr>xSegmentList := [0]\<rparr>;
       (_, g1, a1) = lTCPWindowTxAdd 5 2 8 10 g0 fresh_window;
       (n, g2, a2) = ulTCPWindowTxAck 6 0 g1 a1;
       (_, g3, b1) = lTCPWindowTxAdd 7 1 0 10 g2 fresh_window;
       (d, g4, a3) = lTCPWindowTxAdd 8 2 0 10 g3 a2
   in n = 2 \<and> xTxSegments a2 = [] \<and> pxHeadSegment a2 = Some 0 \<and> xTxSegments b1 = [0] \<and> lDataLength (seg g3 0) = 1 \<and>
      d = 2 \<and> xTxSegments a3 = [] \<and> lDataLength (seg g4 0) = 3"
  by (simp add: lTCPWindowTxAdd_def tx_add_loop.simps xTCPWindowNew_def small_pool_def
      fresh_window_def vTCPWindowCreate_def vTCPWindowInit_def blank_window_def FreeRTOS_min_int32_def upd_seg_def
      vTCPTimerSet_def ulTCPWindowTxAck_def prvTCPWindowTxCheckAck_def Let_def xSequenceLessThanOrEqual_def
      xSequenceLessThan_def xSequenceGreaterThan_def vTCPWindowFree_def unqueue_def null_segment_def)

end
