(* ===== verification/Net_Buffers.thy ===== *)
theory Net_Buffers
  imports Rtos_List Heap4
begin

text \<open>
  The pool of network buffers (\<open>BufferAllocation_2.c\<close>, and the functions of \<open>FreeRTOS_IP.c\<close> that
  map a packet back to its descriptor): descriptors on a kernel list, counted by a semaphore,
  their storage taken from the heap.  Built on the pointer-level list of \<open>Rtos_List\<close> and the
  allocator of \<open>Heap4\<close>.

  A descriptor is its index in \<open>xNetworkBufferDescriptors\<close>, and so is its list item;
  \<open>xFreeBuffersList\<close> is the list 0 of the store.  \<open>buf_links\<close> holds the descriptor pointers that are
  written in front of the packets.  A \<open>None\<close> is a failed assertion or a null dereference.
\<close>

section \<open>Data\<close>

record NetworkBufferDescriptor_t =
  ulIPAddress :: u32
  pucEthernetBuffer :: u32
  xDataLength :: u32
  usPort :: u16
  usBoundPort :: u16

record net_buffers =
  xNetworkBufferSemaphore :: "nat option"
  xNetworkBufferDescriptors :: "nat \<Rightarrow> NetworkBufferDescriptor_t"
  net_lists :: list_store
  uxMinimumFreeNetworkBuffers :: u32
  net_heap :: heap4
  buf_links :: "u32 \<Rightarrow> nat option"

definition ipconfigNUM_NETWORK_BUFFER_DESCRIPTORS :: nat where "ipconfigNUM_NETWORK_BUFFER_DESCRIPTORS = 25"
definition MINIMAL_BUFFER_SIZE :: u32 where "MINIMAL_BUFFER_SIZE = 66"
definition ipBUFFER_PADDING :: u32 where "ipBUFFER_PADDING = 10"
definition ipUDP_PAYLOAD_OFFSET :: u32 where "ipUDP_PAYLOAD_OFFSET = 42"
definition ipconfigUDP_MAX_SEND_BLOCK_TIME_TICKS :: u32 where "ipconfigUDP_MAX_SEND_BLOCK_TIME_TICKS = 5000"

abbreviation xFreeBuffersList :: list_id where "xFreeBuffersList \<equiv> 0"

abbreviation desc :: "net_buffers \<Rightarrow> nat \<Rightarrow> NetworkBufferDescriptor_t" where
  "desc s i \<equiv> xNetworkBufferDescriptors s i"

definition upd_desc :: "nat \<Rightarrow> (NetworkBufferDescriptor_t \<Rightarrow> NetworkBufferDescriptor_t) \<Rightarrow> net_buffers \<Rightarrow> net_buffers" where
  "upd_desc i f s = s\<lparr>xNetworkBufferDescriptors := (xNetworkBufferDescriptors s)(i := f (desc s i))\<rparr>"

section \<open>The counting semaphore\<close>

text \<open>
  Taking it when it is 0 blocks: \<open>wait ticks s\<close> is the state in which the task runs again, after
  others released buffers or the time ran out.
\<close>

definition xSemaphoreTake :: "(u32 \<Rightarrow> net_buffers \<Rightarrow> net_buffers) \<Rightarrow> u32 \<Rightarrow> net_buffers \<Rightarrow> bool \<times> net_buffers" where
  "xSemaphoreTake wait xBlockTimeTicks s =
     (let s1 = (if xNetworkBufferSemaphore s = Some 0 then wait xBlockTimeTicks s else s)
      in (case xNetworkBufferSemaphore s1 of
            Some (Suc n) \<Rightarrow> (True, s1\<lparr>xNetworkBufferSemaphore := Some n\<rparr>)
          | _ \<Rightarrow> (False, s1)))"

text \<open>Giving it at its maximum fails and changes nothing.\<close>

definition xSemaphoreGive :: "net_buffers \<Rightarrow> net_buffers" where
  "xSemaphoreGive s =
     s\<lparr>xNetworkBufferSemaphore :=
        map_option (\<lambda>n. if n < ipconfigNUM_NETWORK_BUFFER_DESCRIPTORS then n + 1 else n) (xNetworkBufferSemaphore s)\<rparr>"

section \<open>The functions\<close>

text \<open>\<open>created\<close>: whether \<open>xSemaphoreCreateCounting\<close> found memory.\<close>

primrec initialise_buffers :: "nat list \<Rightarrow> net_buffers \<Rightarrow> net_buffers option" where
  "initialise_buffers [] s = Some s"
| "initialise_buffers (x # xs) s =
     (let s1 = upd_desc x (\<lambda>d. d\<lparr>pucEthernetBuffer := 0\<rparr>) s;
          st = listSET_LIST_ITEM_OWNER x x (vListInitialiseItem x (net_lists s1))
      in do { st' \<leftarrow> vListInsert xFreeBuffersList x st;
              initialise_buffers xs (s1\<lparr>net_lists := st'\<rparr>) })"

definition xNetworkBuffersInitialise :: "heap_cfg \<Rightarrow> bool \<Rightarrow> net_buffers \<Rightarrow> (bool \<times> net_buffers) option" where
  "xNetworkBuffersInitialise cfg created s =
     (if xNetworkBufferSemaphore s = None then
        do { configASSERT cfg created;
             if created then
               do { s1 \<leftarrow> initialise_buffers [0..<ipconfigNUM_NETWORK_BUFFER_DESCRIPTORS]
                      (s\<lparr>xNetworkBufferSemaphore := Some ipconfigNUM_NETWORK_BUFFER_DESCRIPTORS,
                         net_lists := vListInitialise xFreeBuffersList (net_lists s)\<rparr>);
                    Some (True, s1\<lparr>uxMinimumFreeNetworkBuffers := of_nat ipconfigNUM_NETWORK_BUFFER_DESCRIPTORS\<rparr>) }
             else Some (False, s) }
      else Some (True, s))"

text \<open>The buffer, the size asked for as it was raised, and the state.\<close>

definition pucGetNetworkBuffer :: "heap_cfg \<Rightarrow> u32 \<Rightarrow> net_buffers \<Rightarrow> (u32 \<times> u32 \<times> net_buffers) option" where
  "pucGetNetworkBuffer cfg xRequestedSizeBytes s =
     (let n = (if xRequestedSizeBytes < MINIMAL_BUFFER_SIZE then MINIMAL_BUFFER_SIZE else xRequestedSizeBytes) in
      do { (p, h) \<leftarrow> pvPortMalloc cfg (n + ipBUFFER_PADDING) (net_heap s);
           configASSERT cfg (p \<noteq> 0);
           Some (if p \<noteq> 0 then p + ipBUFFER_PADDING else p, n, s\<lparr>net_heap := h\<rparr>) })"

definition vReleaseNetworkBuffer :: "heap_cfg \<Rightarrow> u32 \<Rightarrow> net_buffers \<Rightarrow> net_buffers option" where
  "vReleaseNetworkBuffer cfg p s =
     (if p \<noteq> 0 then
        do { h \<leftarrow> vPortFree cfg (p - ipBUFFER_PADDING) (net_heap s);
             Some (s\<lparr>net_heap := h\<rparr>) }
      else Some s)"

definition vReleaseNetworkBufferAndDescriptor :: "heap_cfg \<Rightarrow> nat \<Rightarrow> net_buffers \<Rightarrow> net_buffers option" where
  "vReleaseNetworkBufferAndDescriptor cfg i s =
     do { s1 \<leftarrow> vReleaseNetworkBuffer cfg (pucEthernetBuffer (desc s i)) s;
          let s2 = upd_desc i (\<lambda>d. d\<lparr>pucEthernetBuffer := 0\<rparr>) s1;
          let xListItemAlreadyInFreeList = listIS_CONTAINED_WITHIN (net_lists s2) xFreeBuffersList i;
          Some (if \<not> xListItemAlreadyInFreeList
                then xSemaphoreGive (s2\<lparr>net_lists := vListInsertEnd xFreeBuffersList i (net_lists s2)\<rparr>)
                else s2) }"

definition pxGetNetworkBufferWithDescriptor ::
  "heap_cfg \<Rightarrow> (u32 \<Rightarrow> net_buffers \<Rightarrow> net_buffers) \<Rightarrow> u32 \<Rightarrow> u32 \<Rightarrow> net_buffers \<Rightarrow> (nat option \<times> net_buffers) option" where
  "pxGetNetworkBufferWithDescriptor cfg wait xRequestedSizeBytes xBlockTimeTicks s =
     (let n = (if xRequestedSizeBytes \<noteq> 0 \<and> xRequestedSizeBytes < MINIMAL_BUFFER_SIZE then MINIMAL_BUFFER_SIZE
               else xRequestedSizeBytes);
          (taken, s1) = xSemaphoreTake wait xBlockTimeTicks s
      in
      if taken then
        do { i \<leftarrow> listGET_OWNER_OF_HEAD_ENTRY (net_lists s1) xFreeBuffersList;
             (_, st) \<leftarrow> uxListRemove i (net_lists s1);
             let uxCount = listCURRENT_LIST_LENGTH st xFreeBuffersList;
             let s2 = s1\<lparr>net_lists := st,
               uxMinimumFreeNetworkBuffers :=
                 (if uxMinimumFreeNetworkBuffers s1 > uxCount then uxCount else uxMinimumFreeNetworkBuffers s1)\<rparr>;
             configASSERT cfg (pucEthernetBuffer (desc s2 i) = 0);
             if n > 0 then
               do { (p, h) \<leftarrow> pvPortMalloc cfg (n + ipBUFFER_PADDING) (net_heap s2);
                    let s3 = upd_desc i (\<lambda>d. d\<lparr>pucEthernetBuffer := p\<rparr>) (s2\<lparr>net_heap := h\<rparr>);
                    if p = 0 then
                      do { s4 \<leftarrow> vReleaseNetworkBufferAndDescriptor cfg i s3; Some (None, s4) }
                    else
                      Some (Some i,
                        upd_desc i (\<lambda>d. d\<lparr>pucEthernetBuffer := p + ipBUFFER_PADDING, xDataLength := n\<rparr>)
                          (s3\<lparr>buf_links := (buf_links s3)(p \<mapsto> i)\<rparr>)) }
             else Some (Some i, s2) }
      else Some (None, s1))"

definition uxGetNumberOfFreeNetworkBuffers :: "net_buffers \<Rightarrow> u32" where
  "uxGetNumberOfFreeNetworkBuffers s = listCURRENT_LIST_LENGTH (net_lists s) xFreeBuffersList"

definition uxGetMinimumFreeNetworkBuffers :: "net_buffers \<Rightarrow> u32" where
  "uxGetMinimumFreeNetworkBuffers s = uxMinimumFreeNetworkBuffers s"

section \<open>Packets and their descriptors\<close>

text \<open>The address of the UDP payload; 0 when no buffer was found.\<close>

definition FreeRTOS_GetUDPPayloadBuffer ::
  "heap_cfg \<Rightarrow> (u32 \<Rightarrow> net_buffers \<Rightarrow> net_buffers) \<Rightarrow> u32 \<Rightarrow> u32 \<Rightarrow> net_buffers \<Rightarrow> (u32 \<times> net_buffers) option" where
  "FreeRTOS_GetUDPPayloadBuffer cfg wait xRequestedSizeBytes xBlockTimeTicks s =
     (let t = (if xBlockTimeTicks > ipconfigUDP_MAX_SEND_BLOCK_TIME_TICKS then ipconfigUDP_MAX_SEND_BLOCK_TIME_TICKS
               else xBlockTimeTicks)
      in do { (r, s1) \<leftarrow> pxGetNetworkBufferWithDescriptor cfg wait (42 + xRequestedSizeBytes) t s;
              Some (case r of Some i \<Rightarrow> pucEthernetBuffer (desc s1 i) + ipUDP_PAYLOAD_OFFSET | None \<Rightarrow> 0, s1) })"

definition pxUDPPayloadBuffer_to_NetworkBuffer :: "u32 \<Rightarrow> net_buffers \<Rightarrow> nat option" where
  "pxUDPPayloadBuffer_to_NetworkBuffer pvBuffer s =
     (if pvBuffer = 0 then None
      else
        (let pucBuffer = pvBuffer - (42 + ipBUFFER_PADDING)
         in if pucBuffer AND (4 - 1) = 0 then buf_links s pucBuffer else None))"

definition FreeRTOS_ReleaseUDPPayloadBuffer :: "heap_cfg \<Rightarrow> u32 \<Rightarrow> net_buffers \<Rightarrow> net_buffers option" where
  "FreeRTOS_ReleaseUDPPayloadBuffer cfg pvBuffer s =
     (case pxUDPPayloadBuffer_to_NetworkBuffer pvBuffer s of
        None \<Rightarrow> None
      | Some i \<Rightarrow> vReleaseNetworkBufferAndDescriptor cfg i s)"

section \<open>The invariant\<close>

abbreviation buf :: "net_buffers \<Rightarrow> nat \<Rightarrow> u32" where
  "buf s i \<equiv> pucEthernetBuffer (desc s i)"

abbreviation free_descs :: "net_buffers \<Rightarrow> nat list" where
  "free_descs s \<equiv> items_of (net_lists s) xFreeBuffersList"

text \<open>The descriptors that have storage, and that storage: \<open>sz i\<close> is the size asked of the heap.\<close>

definition bufs :: "net_buffers \<Rightarrow> nat list" where
  "bufs s = filter (\<lambda>i. buf s i \<noteq> 0) [0..<ipconfigNUM_NETWORK_BUFFER_DESCRIPTORS]"

definition storage :: "(nat \<Rightarrow> nat) \<Rightarrow> net_buffers \<Rightarrow> (u32 \<times> nat) list" where
  "storage sz s = map (\<lambda>i. (buf s i - ipBUFFER_PADDING, sz i)) (bufs s)"

text \<open>\<open>others\<close> are the heap blocks the rest of the system holds, \<open>L\<close> the initialised lists.\<close>

definition net_inv :: "heap_cfg \<Rightarrow> list_id set \<Rightarrow> (u32 \<times> nat) list \<Rightarrow> (nat \<Rightarrow> nat) \<Rightarrow> net_buffers \<Rightarrow> bool" where
  "net_inv cfg L others sz s \<longleftrightarrow>
     lists_ok L (net_lists s) \<and> xFreeBuffersList \<in> L \<and>
     set (free_descs s) \<subseteq> {..<ipconfigNUM_NETWORK_BUFFER_DESCRIPTORS} \<and>
     (\<forall>i<ipconfigNUM_NETWORK_BUFFER_DESCRIPTORS. pvOwner (item_rec (net_lists s) i) = i) \<and>
     xNetworkBufferSemaphore s = Some (length (free_descs s)) \<and>
     unat (uxMinimumFreeNetworkBuffers s) \<le> length (free_descs s) \<and>
     (\<forall>i\<in>set (free_descs s). buf s i = 0) \<and>
     (\<forall>i<ipconfigNUM_NETWORK_BUFFER_DESCRIPTORS. buf s i \<noteq> 0 \<longrightarrow> buf_links s (buf s i - ipBUFFER_PADDING) = Some i) \<and>
     (\<forall>i<ipconfigNUM_NETWORK_BUFFER_DESCRIPTORS. buf s i \<noteq> 0 \<longrightarrow>
        unat MINIMAL_BUFFER_SIZE + unat ipBUFFER_PADDING \<le> sz i) \<and>
     heap_ok cfg (net_heap s) (others @ storage sz s)"

lemma net_invD:
  assumes "net_inv cfg L others sz s"
  shows "lists_ok L (net_lists s)" "xFreeBuffersList \<in> L" "set (free_descs s) \<subseteq> {..<ipconfigNUM_NETWORK_BUFFER_DESCRIPTORS}"
    "i < ipconfigNUM_NETWORK_BUFFER_DESCRIPTORS \<Longrightarrow> pvOwner (item_rec (net_lists s) i) = i"
    "xNetworkBufferSemaphore s = Some (length (free_descs s))"
    "unat (uxMinimumFreeNetworkBuffers s) \<le> length (free_descs s)"
    "i \<in> set (free_descs s) \<Longrightarrow> buf s i = 0"
    "i < ipconfigNUM_NETWORK_BUFFER_DESCRIPTORS \<Longrightarrow> buf s i \<noteq> 0 \<Longrightarrow> buf_links s (buf s i - ipBUFFER_PADDING) = Some i"
    "heap_ok cfg (net_heap s) (others @ storage sz s)"
    "i < ipconfigNUM_NETWORK_BUFFER_DESCRIPTORS \<Longrightarrow> buf s i \<noteq> 0 \<Longrightarrow> unat MINIMAL_BUFFER_SIZE + unat ipBUFFER_PADDING \<le> sz i"
  using assms by (auto simp: net_inv_def)

lemma heap_ok_perm: "mset xs = mset ys \<Longrightarrow> heap_ok cfg h xs \<Longrightarrow> heap_ok cfg h ys"
  unfolding heap_ok_def backed_def by (metis mset_map mset_zero_iff set_mset_mset)

lemma upd_desc_fields [simp]:
  "desc (upd_desc i f s) j = (if j = i then f (desc s i) else desc s j)"
  "xNetworkBufferSemaphore (upd_desc i f s) = xNetworkBufferSemaphore s"
  "net_lists (upd_desc i f s) = net_lists s" "net_heap (upd_desc i f s) = net_heap s"
  "buf_links (upd_desc i f s) = buf_links s"
  "uxMinimumFreeNetworkBuffers (upd_desc i f s) = uxMinimumFreeNetworkBuffers s"
  by (simp_all add: upd_desc_def)

lemma set_bufs: "i \<in> set (bufs s) \<longleftrightarrow> i < ipconfigNUM_NETWORK_BUFFER_DESCRIPTORS \<and> buf s i \<noteq> 0"
  by (auto simp: bufs_def)

lemma distinct_bufs: "distinct (bufs s)"
  by (simp add: bufs_def)

lemma mset_bufs_eqI:
  "(\<And>i. i \<in> set (bufs s') \<longleftrightarrow> i \<in> set is) \<Longrightarrow> distinct is \<Longrightarrow> mset (bufs s') = mset is"
  using distinct_bufs by (metis set_eq_iff set_eq_iff_mset_eq_distinct)

text \<open>How the heap sees a descriptor losing or getting its storage.\<close>

lemma storage_drop:
  assumes i: "i \<in> set (bufs s)" and s': "\<And>j. buf s' j = (if j = i then 0 else buf s j)"
  shows "mset (storage sz s) = add_mset (buf s i - ipBUFFER_PADDING, sz i) (mset (storage sz s'))"
proof -
  have "j \<in> set (bufs s) \<longleftrightarrow> j \<in> set (i # bufs s')" for j using i by (auto simp: set_bufs s')
  moreover have "distinct (i # bufs s')" using distinct_bufs by (simp add: set_bufs s')
  ultimately have "mset (bufs s) = mset (i # bufs s')" by (rule mset_bufs_eqI)
  then have "mset (storage sz s) = image_mset (\<lambda>j. (buf s j - ipBUFFER_PADDING, sz j)) (mset (i # bufs s'))"
    by (simp add: storage_def)
  moreover have "image_mset (\<lambda>j. (buf s j - ipBUFFER_PADDING, sz j)) (mset (bufs s')) = mset (storage sz s')"
    unfolding storage_def mset_map by (rule image_mset_cong) (auto simp: set_bufs s')
  ultimately show ?thesis by simp
qed

lemma storage_add:
  assumes i: "i < ipconfigNUM_NETWORK_BUFFER_DESCRIPTORS" "buf s i = 0" "b \<noteq> 0"
    and s': "\<And>j. buf s' j = (if j = i then b else buf s j)"
  shows "mset (storage (sz(i := n)) s') = add_mset (b - ipBUFFER_PADDING, n) (mset (storage sz s))"
proof -
  have "mset (storage (sz(i := n)) s') = add_mset (buf s' i - ipBUFFER_PADDING, (sz(i := n)) i) (mset (storage (sz(i := n)) s))"
    by (rule storage_drop) (use i s' in \<open>auto simp: set_bufs\<close>)
  moreover have "storage (sz(i := n)) s = storage sz s" using i(2) by (auto simp: storage_def set_bufs)
  ultimately show ?thesis by (simp add: s')
qed

lemma storage_cong: "(\<And>i. buf s' i = buf s i) \<Longrightarrow> storage sz s' = storage sz s"
  by (simp add: storage_def bufs_def)

section \<open>Releasing\<close>

text \<open>What releasing the descriptor \<open>i\<close> does.\<close>

definition released_desc :: "nat \<Rightarrow> net_buffers \<Rightarrow> net_buffers \<Rightarrow> bool" where
  "released_desc i s s' \<longleftrightarrow>
     mset (free_descs s') = (if i \<in> set (free_descs s) then mset (free_descs s) else add_mset i (mset (free_descs s))) \<and>
     buf s' i = 0 \<and> (\<forall>j. j \<noteq> i \<longrightarrow> desc s' j = desc s j) \<and> buf_links s' = buf_links s \<and>
     uxMinimumFreeNetworkBuffers s' = uxMinimumFreeNetworkBuffers s"

lemma free_count:
  assumes "net_inv cfg L others sz s"
  shows "length (free_descs s) \<le> ipconfigNUM_NETWORK_BUFFER_DESCRIPTORS"
    "i < ipconfigNUM_NETWORK_BUFFER_DESCRIPTORS \<Longrightarrow> i \<notin> set (free_descs s) \<Longrightarrow>
       length (free_descs s) < ipconfigNUM_NETWORK_BUFFER_DESCRIPTORS"
proof -
  note d = net_invD [OF assms]
  have c: "card (set (free_descs s)) = length (free_descs s)" using lists_ok_distinct [OF d(1,2)] distinct_card by blast
  show "length (free_descs s) \<le> ipconfigNUM_NETWORK_BUFFER_DESCRIPTORS"
    using card_mono [OF _ d(3)] c by simp
  assume "i < ipconfigNUM_NETWORK_BUFFER_DESCRIPTORS" "i \<notin> set (free_descs s)"
  then have "set (free_descs s) \<subset> {..<ipconfigNUM_NETWORK_BUFFER_DESCRIPTORS}" using d(3) by blast
  then show "length (free_descs s) < ipconfigNUM_NETWORK_BUFFER_DESCRIPTORS"
    using psubset_card_mono [of "{..<ipconfigNUM_NETWORK_BUFFER_DESCRIPTORS}" "set (free_descs s)"] c by simp
qed

text \<open>Giving the storage back to the heap.\<close>

lemma release_storage:
  assumes inv: "net_inv cfg L others sz s" and i: "i < ipconfigNUM_NETWORK_BUFFER_DESCRIPTORS"
  shows "\<exists>h. vReleaseNetworkBuffer cfg (buf s i) s = Some (s\<lparr>net_heap := h\<rparr>) \<and>
     heap_ok cfg h (others @ storage sz (upd_desc i (\<lambda>d. d\<lparr>pucEthernetBuffer := 0\<rparr>) s))"
proof (cases "buf s i = 0")
  case True
  have "storage sz (upd_desc i (\<lambda>d. d\<lparr>pucEthernetBuffer := 0\<rparr>) s) = storage sz s"
    by (rule storage_cong) (use True in simp)
  then show ?thesis using True net_invD(9) [OF inv]
    by (intro exI [of _ "net_heap s"]) (simp add: vReleaseNetworkBuffer_def)
next
  case False
  let ?s' = "upd_desc i (\<lambda>d. d\<lparr>pucEthernetBuffer := 0\<rparr>) s"
  let ?x = "(buf s i - ipBUFFER_PADDING, sz i)"
  have drop: "mset (storage sz s) = add_mset ?x (mset (storage sz ?s'))"
    by (rule storage_drop) (use i False in \<open>simp_all add: set_bufs\<close>)
  then have "?x \<in> set (others @ storage sz s)" by (metis Un_iff set_append set_mset_mset union_single_eq_member)
  then obtain h where h: "vPortFree cfg (buf s i - ipBUFFER_PADDING) (net_heap s) = Some h"
    "heap_ok cfg h (remove1 ?x (others @ storage sz s))"
    using heap4.free_law [OF net_invD(9) [OF inv]] by blast
  have "mset (remove1 ?x (others @ storage sz s)) = mset (others @ storage sz ?s')"
    using drop by simp
  then have "heap_ok cfg h (others @ storage sz ?s')" using heap_ok_perm h(2) by blast
  then show ?thesis using h(1) False by (intro exI [of _ h]) (simp add: vReleaseNetworkBuffer_def)
qed

lemma release_inv:
  assumes inv: "net_inv cfg L others sz s" and i: "i < ipconfigNUM_NETWORK_BUFFER_DESCRIPTORS"
    and where_item: "container_of (net_lists s) i \<in> {None, Some xFreeBuffersList}"
  shows "\<exists>s'. vReleaseNetworkBufferAndDescriptor cfg i s = Some s' \<and> net_inv cfg L others sz s' \<and> released_desc i s s' \<and>
     container_of (net_lists s') i = Some xFreeBuffersList \<and>
     (\<forall>l\<in>L. l \<noteq> xFreeBuffersList \<longrightarrow> mset (items_of (net_lists s') l) = mset (items_of (net_lists s) l))"
proof -
  note d = net_invD [OF inv]
  obtain h where h: "vReleaseNetworkBuffer cfg (buf s i) s = Some (s\<lparr>net_heap := h\<rparr>)"
    "heap_ok cfg h (others @ storage sz (upd_desc i (\<lambda>d. d\<lparr>pucEthernetBuffer := 0\<rparr>) s))"
    using release_storage [OF inv i] by blast
  let ?s2 = "upd_desc i (\<lambda>d. d\<lparr>pucEthernetBuffer := 0\<rparr>) (s\<lparr>net_heap := h\<rparr>)"
  have in_free: "container_of (net_lists s) i = Some xFreeBuffersList \<longleftrightarrow> i \<in> set (free_descs s)"
    by (rule lists_ok_container [OF d(1,2)])
  have links: "\<forall>j<ipconfigNUM_NETWORK_BUFFER_DESCRIPTORS. buf ?s2 j \<noteq> 0 \<longrightarrow> buf_links s (buf ?s2 j - ipBUFFER_PADDING) = Some j"
    using d(8) by simp
  have st: "storage sz (upd_desc i (\<lambda>d. d\<lparr>pucEthernetBuffer := 0\<rparr>) s) = storage sz s'" if "\<And>j. desc s' j = desc ?s2 j" for s'
    by (rule storage_cong) (simp add: that)
  show ?thesis
  proof (cases "i \<in> set (free_descs s)")
    case True
    then have "vReleaseNetworkBufferAndDescriptor cfg i s = Some ?s2"
      using h(1) in_free by (simp add: vReleaseNetworkBufferAndDescriptor_def listIS_CONTAINED_WITHIN_def)
    moreover have "net_inv cfg L others sz ?s2"
      using d(1-7,10) links h(2) st [of ?s2] unfolding net_inv_def by simp
    ultimately show ?thesis using True in_free
      by (intro exI [of _ ?s2]) (simp add: released_desc_def)
  next
    case False
    let ?st = "vListInsertEnd xFreeBuffersList i (net_lists s)"
    let ?s3 = "xSemaphoreGive (?s2\<lparr>net_lists := ?st\<rparr>)"
    have none: "container_of (net_lists s) i = None" using where_item in_free False by auto
    have small: "length (free_descs s) < ipconfigNUM_NETWORK_BUFFER_DESCRIPTORS" by (rule free_count(2) [OF inv i False])
    then have "length (free_descs s) < 2 ^ 32 - 1" by (simp add: ipconfigNUM_NETWORK_BUFFER_DESCRIPTORS_def)
    note ins = vListInsertEnd_set [OF d(1,2) none this]
    have run: "vReleaseNetworkBufferAndDescriptor cfg i s = Some ?s3"
      using h(1) in_free False by (simp add: vReleaseNetworkBufferAndDescriptor_def listIS_CONTAINED_WITHIN_def)
    have m: "mset (items_of ?st xFreeBuffersList) = add_mset i (mset (free_descs s))" using ins(2) [OF d(2)] by simp
    have len: "length (items_of ?st xFreeBuffersList) = Suc (length (free_descs s))"
      using m by (metis size_add_mset size_mset)
    have set: "set (items_of ?st xFreeBuffersList) = insert i (set (free_descs s))"
      using m by (metis set_mset_add_mset_insert set_mset_mset)
    have s3: "net_lists ?s3 = ?st" "desc ?s3 j = desc ?s2 j" "buf_links ?s3 = buf_links s" "net_heap ?s3 = h"
      "uxMinimumFreeNetworkBuffers ?s3 = uxMinimumFreeNetworkBuffers s"
      "xNetworkBufferSemaphore ?s3 = Some (Suc (length (free_descs s)))" for j
      using d(5) small by (simp_all add: xSemaphoreGive_def)
    have "net_inv cfg L others sz ?s3"
      unfolding net_inv_def s3 set len
      using d(2-7,10) i ins(1) links h(2) st [of ?s3] s3(2) by (auto simp del: upd_desc_fields(1) simp: upd_desc_fields(1))
    moreover have "\<forall>l\<in>L. l \<noteq> xFreeBuffersList \<longrightarrow> mset (items_of (net_lists ?s3) l) = mset (items_of (net_lists s) l)"
      using ins(2) by (simp add: s3)
    ultimately show ?thesis
      using run m False by (intro exI [of _ ?s3]) (simp add: released_desc_def s3)
  qed
qed

section \<open>Obtaining\<close>

text \<open>Other tasks keep the pool in order while this one waits.\<close>

definition wait_ok :: "heap_cfg \<Rightarrow> list_id set \<Rightarrow> (u32 \<times> nat) list \<Rightarrow> (u32 \<Rightarrow> net_buffers \<Rightarrow> net_buffers) \<Rightarrow> bool" where
  "wait_ok cfg L others wait \<longleftrightarrow>
     (\<forall>t s sz. net_inv cfg L others sz s \<longrightarrow> (\<exists>sz'. net_inv cfg L others sz' (wait t s)))"

lemma take_cases:
  assumes "net_inv cfg L others sz s" "wait_ok cfg L others wait"
  obtains s0 sz0 where "net_inv cfg L others sz0 s0" "free_descs s \<noteq> [] \<longrightarrow> s0 = s"
    "xSemaphoreTake wait t s = (if free_descs s0 = [] then (False, s0)
       else (True, s0\<lparr>xNetworkBufferSemaphore := Some (length (free_descs s0) - 1)\<rparr>))"
proof -
  have take: "xSemaphoreTake wait t s = (let s0 = (if free_descs s = [] then wait t s else s) in
      (if free_descs s0 = [] then (False, s0)
       else (True, s0\<lparr>xNetworkBufferSemaphore := Some (length (free_descs s0) - 1)\<rparr>)))"
    if "xNetworkBufferSemaphore (if free_descs s = [] then wait t s else s) =
      Some (length (free_descs (if free_descs s = [] then wait t s else s)))"
    using that net_invD(5) [OF assms(1)]
    by (auto simp: xSemaphoreTake_def Let_def split: nat.splits)
  show ?thesis
  proof (cases "free_descs s = []")
    case True
    obtain sz0 where "net_inv cfg L others sz0 (wait t s)" using assms unfolding wait_ok_def by blast
    then show ?thesis using that [of sz0 "wait t s"] take True net_invD(5) by (simp add: Let_def)
  next
    case False
    then show ?thesis using that [of sz s] take assms(1) net_invD(5) by (simp add: Let_def)
  qed
qed

text \<open>Taking the head of the free list out.\<close>

lemma detach_head:
  assumes inv: "net_inv cfg L others sz s0" and free: "free_descs s0 = i # rest"
  obtains st n where "listGET_OWNER_OF_HEAD_ENTRY (net_lists s0) xFreeBuffersList = Some i"
    "uxListRemove i (net_lists s0) = Some (n, st)" "listCURRENT_LIST_LENGTH st xFreeBuffersList = of_nat (length rest)"
    "\<forall>m. unat m \<le> length rest \<longrightarrow> net_inv cfg L others sz
       (s0\<lparr>xNetworkBufferSemaphore := Some (length rest), net_lists := st, uxMinimumFreeNetworkBuffers := m\<rparr>)"
    "items_of st xFreeBuffersList = rest" "container_of st i = None" "i < ipconfigNUM_NETWORK_BUFFER_DESCRIPTORS"
    "buf s0 i = 0" "i \<notin> set rest" "\<forall>l\<in>L. l \<noteq> xFreeBuffersList \<longrightarrow> items_of st l = items_of (net_lists s0) l"
proof -
  note d = net_invD [OF inv]
  have i: "i < ipconfigNUM_NETWORK_BUFFER_DESCRIPTORS" "i \<notin> set rest" "buf s0 i = 0"
    using d(3) free d(7) [of i] lists_ok_distinct [OF d(1,2)] by auto
  have head: "listGET_OWNER_OF_HEAD_ENTRY (net_lists s0) xFreeBuffersList = Some i"
    using listGET_OWNER_OF_HEAD_ENTRY_items [OF d(1,2)] free d(4) [OF i(1)] by simp
  have c: "container_of (net_lists s0) i = Some xFreeBuffersList" using lists_ok_container [OF d(1,2)] free by simp
  obtain n st where st: "uxListRemove i (net_lists s0) = Some (n, st)" "lists_ok L st"
    "\<And>l'. l' \<in> L \<Longrightarrow> items_of st l' = (if l' = xFreeBuffersList then remove1 i (free_descs s0) else items_of (net_lists s0) l')"
    "\<And>k. pvOwner (item_rec st k) = pvOwner (item_rec (net_lists s0) k)"
    "\<And>k. container_of st k = (if k = i then None else container_of (net_lists s0) k)"
    using uxListRemove_items [OF d(1) c] by metis
  have items: "items_of st xFreeBuffersList = rest" using st(3) [OF d(2)] free by simp
  have "list_at st xFreeBuffersList rest" using lists_ok_at [OF st(2) d(2)] items by simp
  then have count: "listCURRENT_LIST_LENGTH st xFreeBuffersList = of_nat (length rest)"
    by (simp add: listCURRENT_LIST_LENGTH_def list_at_def)
  have "net_inv cfg L others sz (s0\<lparr>xNetworkBufferSemaphore := Some (length rest), net_lists := st, uxMinimumFreeNetworkBuffers := m\<rparr>)"
    if "unat m \<le> length rest" for m
  proof -
    have same: "storage sz (s0\<lparr>xNetworkBufferSemaphore := Some (length rest), net_lists := st,
        uxMinimumFreeNetworkBuffers := m\<rparr>) = storage sz s0" by (rule storage_cong) simp
    have "set rest \<subseteq> set (free_descs s0)" unfolding free by auto
    then show ?thesis using inv st(2) that unfolding net_inv_def same by (simp add: items st(4)) blast
  qed
  then show ?thesis
    using st(3,5) by (intro that [OF head st(1) count _ items _ i(1,3,2)]) simp_all
qed

text \<open>What a successful request achieves.\<close>

definition obtained :: "nat \<Rightarrow> u32 \<Rightarrow> (nat \<Rightarrow> nat) \<Rightarrow> net_buffers \<Rightarrow> bool" where
  "obtained i n sz s \<longleftrightarrow>
     i < ipconfigNUM_NETWORK_BUFFER_DESCRIPTORS \<and> container_of (net_lists s) i = None \<and>
     (if n = 0 then buf s i = 0
      else (let m = max (unat n) (unat MINIMAL_BUFFER_SIZE) in
            buf s i \<noteq> 0 \<and> sz i = m + unat ipBUFFER_PADDING \<and> xDataLength (desc s i) = of_nat m))"

lemma heap_ok_nonzero_end:
  assumes "heap_ok cfg h live" "(p, n) \<in> set live" "10 \<le> n"
  shows "p + ipBUFFER_PADDING \<noteq> 0"
proof -
  have "heap_ok cfg h live \<Longrightarrow> heap_end cfg < 2 ^ 32 - 8"
    using assms(2) by (auto elim!: heap_ok_inv simp: heap_inv_def heap_static_def)
  then have "unat p + 10 < 2 ^ 32" using live_blocks [OF assms(1,2)] assms(1,3) by simp
  then have "unat (p + 10) = unat p + 10" using unat_add_small [of p 10] by simp
  then show ?thesis unfolding ipBUFFER_PADDING_def by (metis add_is_0 unat_0 zero_neq_numeral)
qed

text \<open>The two outcomes of asking the heap for the storage of a detached descriptor.\<close>

lemma storage_refused:
  assumes inv: "net_inv cfg L others sz s" and i: "i < ipconfigNUM_NETWORK_BUFFER_DESCRIPTORS" "buf s i = 0"
    "container_of (net_lists s) i = None" and h: "heap_ok cfg h (others @ storage sz s)"
    and s3: "s3 = upd_desc i (\<lambda>d. d\<lparr>pucEthernetBuffer := 0\<rparr>) (s\<lparr>net_heap := h\<rparr>)"
  shows "\<exists>s4. vReleaseNetworkBufferAndDescriptor cfg i s3 = Some s4 \<and> net_inv cfg L others sz s4 \<and>
     mset (free_descs s4) = add_mset i (mset (free_descs s))"
proof -
  have "storage sz s3 = storage sz s" by (rule storage_cong) (use i(2) in \<open>simp add: s3\<close>)
  then have inv3: "net_inv cfg L others sz s3" using inv h i(2) unfolding net_inv_def by (simp add: s3)
  have free: "free_descs s3 = free_descs s" "container_of (net_lists s3) i = None" using i(3) by (simp_all add: s3)
  then have "i \<notin> set (free_descs s3)" using lists_ok_container [OF net_invD(1,2) [OF inv3], of i] by simp
  then show ?thesis
    using release_inv [OF inv3 i(1)] free unfolding released_desc_def by auto
qed

lemma storage_granted:
  assumes inv: "net_inv cfg L others sz s" and i: "i < ipconfigNUM_NETWORK_BUFFER_DESCRIPTORS" "buf s i = 0" "i \<notin> set (free_descs s)"
    and h: "heap_ok cfg h ((p, k) # others @ storage sz s)" "unat MINIMAL_BUFFER_SIZE + unat ipBUFFER_PADDING \<le> k"
    and s': "s' = upd_desc i (\<lambda>d. d\<lparr>pucEthernetBuffer := p + ipBUFFER_PADDING, xDataLength := n\<rparr>)
        (upd_desc i (\<lambda>d. d\<lparr>pucEthernetBuffer := p\<rparr>) (s\<lparr>net_heap := h\<rparr>)\<lparr>buf_links := (buf_links s)(p \<mapsto> i)\<rparr>)"
  shows "net_inv cfg L others (sz(i := k)) s' \<and> buf s' i \<noteq> 0 \<and> xDataLength (desc s' i) = n \<and> (\<forall>j. j \<noteq> i \<longrightarrow> desc s' j = desc s j)"
proof -
  have b: "p + ipBUFFER_PADDING \<noteq> 0" by (rule heap_ok_nonzero_end [OF h(1), of p k]) (use h(2) in \<open>simp_all add: ipBUFFER_PADDING_def\<close>)
  have buf': "buf s' j = (if j = i then p + ipBUFFER_PADDING else buf s j)" for j by (simp add: s')
  have "mset (storage (sz(i := k)) s') = add_mset (p + ipBUFFER_PADDING - ipBUFFER_PADDING, k) (mset (storage sz s))"
    by (rule storage_add [OF i(1,2) b buf'])
  then have "mset ((p, k) # others @ storage sz s) = mset (others @ storage (sz(i := k)) s')" by simp
  from heap_ok_perm [OF this h(1)] have heap: "heap_ok cfg (net_heap s') (others @ storage (sz(i := k)) s')"
    by (simp add: s')
  have fresh: "buf s j - ipBUFFER_PADDING \<noteq> p" if "j < ipconfigNUM_NETWORK_BUFFER_DESCRIPTORS" "buf s j \<noteq> 0" for j
  proof -
    have "(buf s j - ipBUFFER_PADDING, sz j) \<in> set (storage sz s)" using that by (auto simp: storage_def set_bufs)
    then show ?thesis using live_distinct [OF h(1)] by force
  qed
  have links: "\<forall>j<ipconfigNUM_NETWORK_BUFFER_DESCRIPTORS. buf s' j \<noteq> 0 \<longrightarrow> buf_links s' (buf s' j - ipBUFFER_PADDING) = Some j"
    using net_invD(8) [OF inv] fresh by (simp add: buf') (simp add: s')
  have rest: "net_lists s' = net_lists s" "xNetworkBufferSemaphore s' = xNetworkBufferSemaphore s"
    "uxMinimumFreeNetworkBuffers s' = uxMinimumFreeNetworkBuffers s" by (simp_all add: s')
  have "\<forall>j\<in>set (free_descs s). buf s' j = 0" using net_invD(7) [OF inv] i(3) by (auto simp: buf')
  then have "net_inv cfg L others (sz(i := k)) s'" using inv heap links h(2) unfolding net_inv_def rest by (simp add: buf')
  then show ?thesis using b by (simp add: s')
qed

lemma request_inv:
  assumes inv: "net_inv cfg L others sz s" and wait: "wait_ok cfg L others wait"
    and n: "unat n + 10 < 2 ^ 32"
  shows "\<exists>r s' sz' s0. pxGetNetworkBufferWithDescriptor cfg wait n t s = Some (r, s') \<and> net_inv cfg L others sz' s' \<and>
     (\<exists>sz0. net_inv cfg L others sz0 s0) \<and> (free_descs s \<noteq> [] \<longrightarrow> s0 = s) \<and>
     (case r of
        Some i \<Rightarrow> obtained i n sz' s' \<and> free_descs s0 = i # free_descs s' \<and> (\<forall>j. j \<noteq> i \<longrightarrow> desc s' j = desc s0 j)
      | None \<Rightarrow> mset (free_descs s') = mset (free_descs s0) \<and> (n = 0 \<longrightarrow> free_descs s0 = []))"
proof -
  obtain s0 sz0 where s0: "net_inv cfg L others sz0 s0" "free_descs s \<noteq> [] \<longrightarrow> s0 = s"
    "xSemaphoreTake wait t s = (if free_descs s0 = [] then (False, s0)
       else (True, s0\<lparr>xNetworkBufferSemaphore := Some (length (free_descs s0) - 1)\<rparr>))"
    by (rule take_cases [OF inv wait, where t = t]) (rule that; assumption)
  show ?thesis
  proof (cases "free_descs s0")
    case Nil
    then have "pxGetNetworkBufferWithDescriptor cfg wait n t s = Some (None, s0)"
      by (simp add: pxGetNetworkBufferWithDescriptor_def s0(3))
    then show ?thesis using s0(1,2) Nil by (intro exI [of _ None] exI [of _ s0] exI [of _ sz0] exI [of _ s0]) auto
  next
    case (Cons i rest)
    obtain st k where st: "listGET_OWNER_OF_HEAD_ENTRY (net_lists s0) xFreeBuffersList = Some i"
      "uxListRemove i (net_lists s0) = Some (k, st)" "listCURRENT_LIST_LENGTH st xFreeBuffersList = of_nat (length rest)"
      "\<forall>m. unat m \<le> length rest \<longrightarrow> net_inv cfg L others sz0
         (s0\<lparr>xNetworkBufferSemaphore := Some (length rest), net_lists := st, uxMinimumFreeNetworkBuffers := m\<rparr>)"
      "items_of st xFreeBuffersList = rest" "container_of st i = None" "i < ipconfigNUM_NETWORK_BUFFER_DESCRIPTORS"
      "buf s0 i = 0" "i \<notin> set rest"
      by (rule detach_head [OF s0(1) Cons]) (rule that; assumption)
    define m where "m = (if uxMinimumFreeNetworkBuffers s0 > listCURRENT_LIST_LENGTH st xFreeBuffersList
      then listCURRENT_LIST_LENGTH st xFreeBuffersList else uxMinimumFreeNetworkBuffers s0)"
    define s2 where "s2 = s0\<lparr>xNetworkBufferSemaphore := Some (length rest), net_lists := st, uxMinimumFreeNetworkBuffers := m\<rparr>"
    have "length rest < 2 ^ 32" using free_count(1) [OF s0(1)] Cons by (simp add: ipconfigNUM_NETWORK_BUFFER_DESCRIPTORS_def)
    then have "unat m \<le> length rest" by (auto simp: m_def st(3) word_less_nat_alt unat_of_nat32)
    then have inv2: "net_inv cfg L others sz0 s2" unfolding s2_def using st(4) by blast
    let ?n = "if n \<noteq> 0 \<and> n < MINIMAL_BUFFER_SIZE then MINIMAL_BUFFER_SIZE else n"
    have s2: "desc s2 j = desc s0 j" "net_lists s2 = st" "buf s2 i = 0" for j using st(8) by (simp_all add: s2_def)
    have run: "pxGetNetworkBufferWithDescriptor cfg wait n t s =
       (if ?n > 0 then
          do { (p, h) \<leftarrow> pvPortMalloc cfg (?n + ipBUFFER_PADDING) (net_heap s2);
               let s3 = upd_desc i (\<lambda>d. d\<lparr>pucEthernetBuffer := p\<rparr>) (s2\<lparr>net_heap := h\<rparr>);
               if p = 0 then do { s4 \<leftarrow> vReleaseNetworkBufferAndDescriptor cfg i s3; Some (None, s4) }
               else Some (Some i, upd_desc i (\<lambda>d. d\<lparr>pucEthernetBuffer := p + ipBUFFER_PADDING, xDataLength := ?n\<rparr>)
                      (s3\<lparr>buf_links := (buf_links s3)(p \<mapsto> i)\<rparr>)) }
        else Some (Some i, s2))"
    proof -
      have take: "xSemaphoreTake wait t s = (True, s0\<lparr>xNetworkBufferSemaphore := Some (length rest)\<rparr>)"
        using s0(3) Cons by simp
      have sel: "uxMinimumFreeNetworkBuffers (s0\<lparr>xNetworkBufferSemaphore := x\<rparr>) = uxMinimumFreeNetworkBuffers s0" for x
        by simp
      show ?thesis
        unfolding pxGetNetworkBufferWithDescriptor_def take Let_def prod.case if_True s2_def m_def sel
        using st(1,2,8) by (simp add: configASSERT_def)
    qed
    show ?thesis
    proof (cases "n = 0")
      case True
      then show ?thesis
        using run inv2 st(5-7) s2 Cons s0(1,2)
        by (intro exI [of _ "Some i"] exI [of _ s2] exI [of _ sz0] exI [of _ s0]) (auto simp: obtained_def)
    next
      case False
      have n': "?n > 0" "unat ?n = max (unat n) (unat MINIMAL_BUFFER_SIZE)"
        using False by (auto simp: MINIMAL_BUFFER_SIZE_def word_less_nat_alt word_neq_0_conv)
      have size: "unat (?n + ipBUFFER_PADDING) = unat ?n + 10"
        using n unfolding ipBUFFER_PADDING_def by (subst unat_add_small) (auto simp: MINIMAL_BUFFER_SIZE_def)
      obtain p h where mal: "pvPortMalloc cfg (?n + ipBUFFER_PADDING) (net_heap s2) = Some (p, h)"
        "heap_ok cfg h (if p = 0 then others @ storage sz0 s2 else (p, unat (?n + ipBUFFER_PADDING)) # others @ storage sz0 s2)"
        using heap4.malloc_law [OF net_invD(9) [OF inv2], of "?n + ipBUFFER_PADDING"] by blast
      have free2: "free_descs s2 = rest" by (simp add: s2 st(5))
      show ?thesis
      proof (cases "p = 0")
        case True
        obtain s4 where s4: "vReleaseNetworkBufferAndDescriptor cfg i (upd_desc i (\<lambda>d. d\<lparr>pucEthernetBuffer := 0\<rparr>) (s2\<lparr>net_heap := h\<rparr>)) = Some s4"
          "net_inv cfg L others sz0 s4" "mset (free_descs s4) = add_mset i (mset (free_descs s2))"
          using storage_refused [OF inv2 st(7) s2(3) _ _ refl, of h] st(6) mal(2) True s2(2) by auto
        have "pxGetNetworkBufferWithDescriptor cfg wait n t s = Some (None, s4)"
          using run n'(1) mal(1) s4(1) True by simp
        then show ?thesis using s4(2,3) free2 Cons s0(1,2) False
          by (intro exI [of _ None] exI [of _ s4] exI [of _ sz0] exI [of _ s0]) auto
      next
        case nz: False
        define s' where "s' = upd_desc i (\<lambda>d. d\<lparr>pucEthernetBuffer := p + ipBUFFER_PADDING, xDataLength := ?n\<rparr>)
          (upd_desc i (\<lambda>d. d\<lparr>pucEthernetBuffer := p\<rparr>) (s2\<lparr>net_heap := h\<rparr>)\<lparr>buf_links := (buf_links s2)(p \<mapsto> i)\<rparr>)"
        have g: "net_inv cfg L others (sz0(i := unat (?n + ipBUFFER_PADDING))) s' \<and> buf s' i \<noteq> 0 \<and>
            xDataLength (desc s' i) = ?n \<and> (\<forall>j. j \<noteq> i \<longrightarrow> desc s' j = desc s2 j)"
          by (rule storage_granted [OF inv2 st(7) s2(3) _ _ _ s'_def]) (use st(9) free2 mal(2) nz size n'(2) in \<open>simp_all add: ipBUFFER_PADDING_def\<close>)
        have "pxGetNetworkBufferWithDescriptor cfg wait n t s = Some (Some i, s')"
          using run n'(1) mal(1) nz by (simp add: s'_def Let_def)
        moreover have lists: "net_lists s' = st" by (simp add: s'_def s2(2))
        moreover have "?n = of_nat (max (unat n) (unat MINIMAL_BUFFER_SIZE))" unfolding n'(2) [symmetric] by simp
        then have "obtained i n (sz0(i := unat (?n + ipBUFFER_PADDING))) s'"
          using g st(6,7) False size n'(2) unfolding obtained_def lists by (simp add: Let_def ipBUFFER_PADDING_def)
        moreover have "free_descs s0 = i # free_descs s'" "\<forall>j. j \<noteq> i \<longrightarrow> desc s' j = desc s0 j"
          using g s2(1) Cons st(5) lists by simp_all
        ultimately show ?thesis
          using g s0(1,2)
          by (intro exI [of _ "Some i"] exI [of _ s'] exI [of _ "sz0(i := unat (?n + ipBUFFER_PADDING))"] exI [of _ s0])
            (simp only: option.case simp_thms, blast)
      qed
    qed
  qed
qed

section \<open>Initialisation\<close>

lemma SET_OWNER_frame:
  "items_of (listSET_LIST_ITEM_OWNER i ow st) = items_of st" "container_of (listSET_LIST_ITEM_OWNER i ow st) j = container_of st j"
  "pvOwner (item_rec (listSET_LIST_ITEM_OWNER i ow st) j) = (if j = i then ow else pvOwner (item_rec st j))"
  "lists_ok L (listSET_LIST_ITEM_OWNER i ow st) = lists_ok L st"
proof -
  let ?st = "listSET_LIST_ITEM_OWNER i ow st"
  have "get_next ?st p = get_next st p" for p by (cases p) (simp_all add: listSET_LIST_ITEM_OWNER_def get_next.simps)
  then have f1: "get_next ?st = get_next st" by (rule ext)
  have "get_prev ?st p = get_prev st p" for p by (cases p) (simp_all add: listSET_LIST_ITEM_OWNER_def get_prev.simps)
  then have f2: "get_prev ?st = get_prev st" by (rule ext)
  note f = f1 f2
  have n: "list_rec ?st = list_rec st" by (simp add: listSET_LIST_ITEM_OWNER_def)
  have "walk ?st k p = walk st k p" for k p
    by (induction k arbitrary: p) (auto simp: f split: lptr.splits)
  then show items: "items_of ?st = items_of st" by (simp add: items_of_def n f fun_eq_iff)
  show c: "container_of ?st j = container_of st j" for j by (simp add: listSET_LIST_ITEM_OWNER_def)
  show "pvOwner (item_rec ?st j) = (if j = i then ow else pvOwner (item_rec st j))"
    by (simp add: listSET_LIST_ITEM_OWNER_def)
  have "list_at ?st l xs = list_at st l xs" for l xs by (simp add: list_at_def f n c)
  then show "lists_ok L ?st = lists_ok L st" by (simp add: lists_ok_def items c)
qed

lemma InitialiseItem_same: "container_of st i = None \<Longrightarrow> vListInitialiseItem i st = st"
  by (cases st) (auto simp: vListInitialiseItem_def set_container_def fun_eq_iff)

lemma mset_sorted_insert: "mset (sorted_insert st i xs) = add_mset i (mset xs)"
  by (simp add: sorted_insert_def) (metis mset_append takeWhile_dropWhile_id)

lemma initialise_buffers_spec:
  assumes "lists_ok L (net_lists s)" "xFreeBuffersList \<in> L" "distinct xs" "length (free_descs s) + length xs < 2 ^ 32 - 1"
    "\<forall>x\<in>set xs. container_of (net_lists s) x = None"
  shows "\<exists>s'. initialise_buffers xs s = Some s' \<and> lists_ok L (net_lists s') \<and>
     mset (free_descs s') = mset (free_descs s) + mset xs \<and>
     (\<forall>x\<in>set xs. pvOwner (item_rec (net_lists s') x) = x) \<and>
     (\<forall>x. x \<notin> set xs \<longrightarrow> pvOwner (item_rec (net_lists s') x) = pvOwner (item_rec (net_lists s) x)) \<and>
     (\<forall>j. buf s' j = (if j \<in> set xs then 0 else buf s j)) \<and> net_heap s' = net_heap s \<and> buf_links s' = buf_links s \<and>
     xNetworkBufferSemaphore s' = xNetworkBufferSemaphore s"
  using assms
proof (induction xs arbitrary: s)
  case (Cons x xs)
  let ?s1 = "upd_desc x (\<lambda>d. d\<lparr>pucEthernetBuffer := 0\<rparr>) s"
  let ?st = "listSET_LIST_ITEM_OWNER x x (vListInitialiseItem x (net_lists ?s1))"
  have st: "?st = listSET_LIST_ITEM_OWNER x x (net_lists s)" using Cons.prems(5) by (simp add: InitialiseItem_same)
  have ok: "lists_ok L ?st" "container_of ?st x = None" "length (items_of ?st xFreeBuffersList) < 2 ^ 32 - 1"
    unfolding st using Cons.prems by (simp_all add: SET_OWNER_frame)
  obtain st' where ins: "vListInsert xFreeBuffersList x ?st = Some st'" "lists_ok L st'"
    "items_of st' xFreeBuffersList = sorted_insert ?st x (items_of ?st xFreeBuffersList)"
    "\<And>k. pvOwner (item_rec st' k) = pvOwner (item_rec ?st k)"
    "\<And>k. container_of st' k = (if k = x then Some xFreeBuffersList else container_of ?st k)"
    using vListInsert_items [OF ok(1) Cons.prems(2) ok(2,3)] Cons.prems(2) by metis
  let ?s2 = "?s1\<lparr>net_lists := st'\<rparr>"
  have m: "mset (free_descs ?s2) = add_mset x (mset (free_descs s))"
    using ins(3) unfolding st by (simp add: SET_OWNER_frame mset_sorted_insert)
  then have "length (free_descs ?s2) = Suc (length (free_descs s))" by (metis size_add_mset size_mset)
  moreover have "\<forall>y\<in>set xs. container_of (net_lists ?s2) y = None"
    using Cons.prems(3,5) ins(5) unfolding st by (auto simp: SET_OWNER_frame)
  ultimately obtain s' where s': "initialise_buffers xs ?s2 = Some s'" "lists_ok L (net_lists s')"
    "mset (free_descs s') = mset (free_descs ?s2) + mset xs" "\<forall>y\<in>set xs. pvOwner (item_rec (net_lists s') y) = y"
    "\<forall>y. y \<notin> set xs \<longrightarrow> pvOwner (item_rec (net_lists s') y) = pvOwner (item_rec (net_lists ?s2) y)"
    "\<forall>j. buf s' j = (if j \<in> set xs then 0 else buf ?s2 j)" "net_heap s' = net_heap ?s2" "buf_links s' = buf_links ?s2"
    "xNetworkBufferSemaphore s' = xNetworkBufferSemaphore ?s2"
    using Cons.IH [of ?s2] ins(2) Cons.prems by fastforce
  have "initialise_buffers (x # xs) s = Some s'"
    unfolding initialise_buffers.simps Let_def ins(1) using s'(1) by simp
  then show ?case
    using s' m ins(4) Cons.prems(3) unfolding st
    by (intro exI [of _ s']) (auto simp: SET_OWNER_frame)
qed simp

lemma init_inv:
  assumes lists: "lists_ok L (net_lists s)" "xFreeBuffersList \<in> L \<Longrightarrow> items_of (net_lists s) xFreeBuffersList = []"
    "\<forall>i<ipconfigNUM_NETWORK_BUFFER_DESCRIPTORS. container_of (net_lists s) i = None"
    and heap: "heap_ok cfg (net_heap s) others" and null: "xNetworkBufferSemaphore s = None"
  shows "\<exists>s'. xNetworkBuffersInitialise cfg True s = Some (True, s') \<and> net_inv cfg (insert xFreeBuffersList L) others sz s' \<and>
     set (free_descs s') = {..<ipconfigNUM_NETWORK_BUFFER_DESCRIPTORS}"
proof -
  let ?N = "ipconfigNUM_NETWORK_BUFFER_DESCRIPTORS"
  let ?s1 = "s\<lparr>xNetworkBufferSemaphore := Some ?N, net_lists := vListInitialise xFreeBuffersList (net_lists s)\<rparr>"
  note ini = vListInitialise_items [OF lists(1), of xFreeBuffersList, OF lists(2)]
  obtain s1 where s1: "initialise_buffers [0..<?N] ?s1 = Some s1" "lists_ok (insert xFreeBuffersList L) (net_lists s1)"
    "mset (free_descs s1) = mset (free_descs ?s1) + mset [0..<?N]" "\<forall>x\<in>set [0..<?N]. pvOwner (item_rec (net_lists s1) x) = x"
    "\<forall>j. buf s1 j = (if j \<in> set [0..<?N] then 0 else buf ?s1 j)" "net_heap s1 = net_heap ?s1" "buf_links s1 = buf_links ?s1"
    "xNetworkBufferSemaphore s1 = xNetworkBufferSemaphore ?s1"
    using initialise_buffers_spec [of "insert xFreeBuffersList L" ?s1 "[0..<?N]"] ini lists(3)
    by (auto simp: ipconfigNUM_NETWORK_BUFFER_DESCRIPTORS_def)
  have free: "mset (free_descs s1) = mset [0..<?N]" using s1(3) ini(2) by simp
  then have set: "set (free_descs s1) = {..<?N}" "length (free_descs s1) = ?N"
    by (metis atLeast_upt set_mset_mset) (metis diff_zero free length_upt size_mset)
  let ?s' = "s1\<lparr>uxMinimumFreeNetworkBuffers := of_nat ?N\<rparr>"
  have "bufs ?s' = []" using s1(5) by (auto simp: bufs_def filter_empty_conv)
  then have "net_inv cfg (insert xFreeBuffersList L) others sz ?s'"
    using s1 set heap by (auto simp: net_inv_def storage_def ipconfigNUM_NETWORK_BUFFER_DESCRIPTORS_def)
  moreover have "xNetworkBuffersInitialise cfg True s = Some (True, ?s')"
    using null s1(1) by (simp add: xNetworkBuffersInitialise_def configASSERT_def)
  ultimately show ?thesis using set(1) by (intro exI [of _ ?s']) simp
qed

section \<open>Sessions\<close>

text \<open>
  Calls of the interface and what a user may do with a descriptor: its fields other than the
  buffer pointer are the user's.  A descriptor is released when it is in no list, or in the free
  list by a mistaken second release.
\<close>

inductive net_step :: "heap_cfg \<Rightarrow> (u32 \<Rightarrow> net_buffers \<Rightarrow> net_buffers) \<Rightarrow> net_buffers \<Rightarrow> net_buffers \<Rightarrow> bool"
  for cfg wait where
  get: "pxGetNetworkBufferWithDescriptor cfg wait n t s = Some (r, s') \<Longrightarrow> unat n + 10 < 2 ^ 32 \<Longrightarrow> net_step cfg wait s s'"
| release: "vReleaseNetworkBufferAndDescriptor cfg i s = Some s' \<Longrightarrow> i < ipconfigNUM_NETWORK_BUFFER_DESCRIPTORS \<Longrightarrow>
    container_of (net_lists s) i \<in> {None, Some xFreeBuffersList} \<Longrightarrow> net_step cfg wait s s'"
| use: "\<forall>d. pucEthernetBuffer (f d) = pucEthernetBuffer d \<Longrightarrow> net_step cfg wait s (upd_desc i f s)"

lemma use_inv:
  assumes "net_inv cfg L others sz s" "\<forall>d. pucEthernetBuffer (f d) = pucEthernetBuffer d"
  shows "net_inv cfg L others sz (upd_desc i f s)"
proof -
  have b: "buf (upd_desc i f s) j = buf s j" for j using assms(2) by simp
  then have "storage sz (upd_desc i f s) = storage sz s" by (rule storage_cong)
  then show ?thesis using assms(1) unfolding net_inv_def b by simp
qed

lemma net_step_inv:
  assumes "net_step cfg wait s s'" "net_inv cfg L others sz s" "wait_ok cfg L others wait"
  shows "\<exists>sz'. net_inv cfg L others sz' s'"
  using assms(1)
proof cases
  case (get n t r)
  have "unat n + 10 < 2 ^ 32" using get(2) by simp
  then show ?thesis using request_inv [OF assms(2,3), of n t] get(1) by auto
next
  case (release i)
  then show ?thesis using release_inv [OF assms(2), of i] by auto
next
  case (use f i)
  then show ?thesis using use_inv [OF assms(2)] by blast
qed

lemma net_steps_inv:
  "(net_step cfg wait)\<^sup>*\<^sup>* s s' \<Longrightarrow> net_inv cfg L others sz s \<Longrightarrow> wait_ok cfg L others wait \<Longrightarrow> \<exists>sz'. net_inv cfg L others sz' s'"
proof (induction rule: rtranclp_induct)
  case (step s1 s2)
  then show ?case using net_step_inv by blast
qed blast

text \<open>The packet's descriptor is found again from the address of its payload.\<close>

lemma buf_place:
  assumes inv: "net_inv cfg L others sz s" and i: "i < ipconfigNUM_NETWORK_BUFFER_DESCRIPTORS" "buf s i \<noteq> 0"
  shows "(buf s i - ipBUFFER_PADDING, sz i) \<in> set (others @ storage sz s)"
    "pxUDPPayloadBuffer_to_NetworkBuffer (buf s i + ipUDP_PAYLOAD_OFFSET) s =
       (if buf s i + ipUDP_PAYLOAD_OFFSET = 0 then None else Some i)"
proof -
  show m: "(buf s i - ipBUFFER_PADDING, sz i) \<in> set (others @ storage sz s)"
    using i by (auto simp: storage_def set_bufs)
  have "8 dvd unat (buf s i - ipBUFFER_PADDING)" using live_blocks [OF net_invD(9) [OF inv] m] by simp
  then have "4 dvd unat (buf s i - ipBUFFER_PADDING)" by (rule dvd_trans [rotated]) simp
  then have al: "(buf s i - ipBUFFER_PADDING) AND 3 = 0"
    using unat_and_mask [of "buf s i - ipBUFFER_PADDING" 2] by (simp add: mask_numeral unat_eq_zero dvd_eq_mod_eq_0)
  have e: "buf s i + ipUDP_PAYLOAD_OFFSET - (42 + ipBUFFER_PADDING) = buf s i - ipBUFFER_PADDING"
    by (simp add: ipUDP_PAYLOAD_OFFSET_def)
  show "pxUDPPayloadBuffer_to_NetworkBuffer (buf s i + ipUDP_PAYLOAD_OFFSET) s =
       (if buf s i + ipUDP_PAYLOAD_OFFSET = 0 then None else Some i)"
    unfolding pxUDPPayloadBuffer_to_NetworkBuffer_def Let_def e using al net_invD(8) [OF inv i] by simp
qed

lemma buf_fits:
  assumes inv: "net_inv cfg L others sz s" and i: "i < ipconfigNUM_NETWORK_BUFFER_DESCRIPTORS" "buf s i \<noteq> 0"
  shows "8 dvd unat (buf s i - ipBUFFER_PADDING)" "unat (ucHeap cfg) \<le> unat (buf s i - ipBUFFER_PADDING)"
    "unat (buf s i - ipBUFFER_PADDING) + sz i \<le> unat (ucHeap cfg) + unat (configTOTAL_HEAP_SIZE cfg)"
    "76 \<le> sz i" "unat (buf s i - ipBUFFER_PADDING) + sz i < 2 ^ 32"
proof -
  note ok = net_invD(9) [OF inv]
  note b = live_blocks [OF ok buf_place(1) [OF inv i]]
  have cfg: "heap_cfg_ok cfg" using ok by (simp add: heap_ok_def)
  show "8 dvd unat (buf s i - ipBUFFER_PADDING)" using b by simp
  show "unat (ucHeap cfg) \<le> unat (buf s i - ipBUFFER_PADDING)"
    "unat (buf s i - ipBUFFER_PADDING) + sz i \<le> unat (ucHeap cfg) + unat (configTOTAL_HEAP_SIZE cfg)"
    using b heap_bounds(1,3) [OF cfg] by linarith+
  show "76 \<le> sz i" using net_invD(10) [OF inv i] by (simp add: MINIMAL_BUFFER_SIZE_def ipBUFFER_PADDING_def)
  have "heap_end cfg < 2 ^ 32 - 8"
    using ok buf_place(1) [OF inv i] by (auto elim!: heap_ok_inv simp: heap_inv_def heap_static_def)
  then show "unat (buf s i - ipBUFFER_PADDING) + sz i < 2 ^ 32" using b by linarith
qed

lemma payload_nonzero:
  assumes inv: "net_inv cfg L others sz s" and i: "i < ipconfigNUM_NETWORK_BUFFER_DESCRIPTORS" "buf s i \<noteq> 0"
  shows "buf s i + ipUDP_PAYLOAD_OFFSET \<noteq> 0"
proof -
  have "unat (buf s i - ipBUFFER_PADDING) + 52 < 2 ^ 32" using buf_fits(4,5) [OF inv i] by linarith
  then have "unat (buf s i - ipBUFFER_PADDING + 52) = unat (buf s i - ipBUFFER_PADDING) + 52"
    using unat_add_small [of "buf s i - ipBUFFER_PADDING" 52] by simp
  moreover have "buf s i - ipBUFFER_PADDING + 52 = buf s i + ipUDP_PAYLOAD_OFFSET"
    by (simp add: ipBUFFER_PADDING_def ipUDP_PAYLOAD_OFFSET_def)
  ultimately show ?thesis by (metis add_is_0 unat_0 zero_neq_numeral)
qed

lemma bufs_apart:
  assumes inv: "net_inv cfg L others sz s"
    and i: "i < ipconfigNUM_NETWORK_BUFFER_DESCRIPTORS" "buf s i \<noteq> 0" and j: "j < ipconfigNUM_NETWORK_BUFFER_DESCRIPTORS" "buf s j \<noteq> 0"
    and ne: "i \<noteq> j"
  shows "unat (buf s i - ipBUFFER_PADDING) + sz i \<le> unat (buf s j - ipBUFFER_PADDING) \<or>
     unat (buf s j - ipBUFFER_PADDING) + sz j \<le> unat (buf s i - ipBUFFER_PADDING)"
proof -
  have "buf s i - ipBUFFER_PADDING \<noteq> buf s j - ipBUFFER_PADDING"
    using net_invD(8) [OF inv i] net_invD(8) [OF inv j] ne by auto
  then have "unat (buf s i - ipBUFFER_PADDING) \<noteq> unat (buf s j - ipBUFFER_PADDING)"
    by (simp add: word_unat_eq_iff [symmetric])
  then show ?thesis
    using live_disjoint [OF net_invD(9) [OF inv] buf_place(1) [OF inv i] buf_place(1) [OF inv j]]
      live_disjoint [OF net_invD(9) [OF inv] buf_place(1) [OF inv j] buf_place(1) [OF inv i]] by linarith
qed

lemma free_number:
  assumes inv: "net_inv cfg L others sz s"
  shows "unat (uxGetNumberOfFreeNetworkBuffers s) = length (free_descs s)"
    "card {i. container_of (net_lists s) i = Some xFreeBuffersList} = length (free_descs s)"
proof -
  note d = net_invD [OF inv]
  show "unat (uxGetNumberOfFreeNetworkBuffers s) = length (free_descs s)"
    using list_at_count [OF lists_ok_at [OF d(1,2)]]
    by (simp add: uxGetNumberOfFreeNetworkBuffers_def listCURRENT_LIST_LENGTH_def)
  have "{i. container_of (net_lists s) i = Some xFreeBuffersList} = set (free_descs s)"
    using lists_ok_container [OF d(1,2)] by auto
  then show "card {i. container_of (net_lists s) i = Some xFreeBuffersList} = length (free_descs s)"
    using distinct_card [OF lists_ok_distinct [OF d(1,2)]] by simp
qed

section \<open>Properties\<close>

text \<open>
  Claim C32. After initialisation, whatever is requested, used and released, a second time included:
  every descriptor with a buffer is out of the free list and its storage is aligned, inside the
  heap, large enough for a TCP header packet, and apart from that of all others; the semaphore
  counts the free descriptors, and the recorded minimum is never above that count.
\<close>

theorem net_buffers_session:
  assumes "lists_ok L (net_lists s0)" and "xFreeBuffersList \<notin> L"
    and "\<forall>i<ipconfigNUM_NETWORK_BUFFER_DESCRIPTORS. pvContainer (item_rec (net_lists s0) i) = None"
    and "heap_ok cfg (net_heap s0) others" and "xNetworkBufferSemaphore s0 = None"
    and "xNetworkBuffersInitialise cfg True s0 = Some (True, s)"
    and "wait_ok cfg (insert xFreeBuffersList L) others wait" and "(net_step cfg wait)\<^sup>*\<^sup>* s s'"
  shows "(\<exists>sz. (\<forall>i<ipconfigNUM_NETWORK_BUFFER_DESCRIPTORS. pucEthernetBuffer (xNetworkBufferDescriptors s' i) \<noteq> 0 \<longrightarrow>
         (let p = unat (pucEthernetBuffer (xNetworkBufferDescriptors s' i) - ipBUFFER_PADDING) in
          i \<notin> set (items_of (net_lists s') xFreeBuffersList) \<and> 8 dvd p \<and> unat (ucHeap cfg) \<le> p \<and> 76 \<le> sz i \<and>
          p + sz i \<le> unat (ucHeap cfg) + unat (configTOTAL_HEAP_SIZE cfg) \<and>
          (\<forall>j<ipconfigNUM_NETWORK_BUFFER_DESCRIPTORS. pucEthernetBuffer (xNetworkBufferDescriptors s' j) \<noteq> 0 \<longrightarrow> j \<noteq> i \<longrightarrow>
             (let q = unat (pucEthernetBuffer (xNetworkBufferDescriptors s' j) - ipBUFFER_PADDING) in
              p + sz i \<le> q \<or> q + sz j \<le> p))))) \<and>
     xNetworkBufferSemaphore s' = Some (unat (uxGetNumberOfFreeNetworkBuffers s')) \<and>
     unat (uxGetNumberOfFreeNetworkBuffers s') = card {i. pvContainer (item_rec (net_lists s') i) = Some xFreeBuffersList} \<and>
     uxGetMinimumFreeNetworkBuffers s' \<le> uxGetNumberOfFreeNetworkBuffers s'"
proof -
  have "net_inv cfg (insert xFreeBuffersList L) others (\<lambda>_. 0) s"
    using init_inv [OF assms(1) _ assms(3-5), of "\<lambda>_. 0"] assms(2,6) by auto
  then obtain sz where inv: "net_inv cfg (insert xFreeBuffersList L) others sz s'"
    using net_steps_inv [OF assms(8) _ assms(7)] by blast
  have "i \<notin> set (free_descs s')" if "buf s' i \<noteq> 0" for i using net_invD(7) [OF inv] that by blast
  moreover have "uxGetMinimumFreeNetworkBuffers s' \<le> uxGetNumberOfFreeNetworkBuffers s'"
    using net_invD(6) [OF inv] free_number(1) [OF inv] by (simp add: uxGetMinimumFreeNetworkBuffers_def word_le_nat_alt)
  ultimately show ?thesis
    using net_invD(5) [OF inv] free_number [OF inv] buf_fits [OF inv] bufs_apart [OF inv]
    by (intro conjI exI [of _ sz]) (simp_all add: Let_def)
qed

text \<open>
  A request returns, with no assertion failed, a descriptor taken from the head of the
  free list, whose storage is at least what was asked for, or NULL, after giving the descriptor
  back; without storage wanted, NULL means that every descriptor is in use even after waiting.
\<close>

theorem net_buffer_request:
  assumes "net_inv cfg L others sz s" and "wait_ok cfg L others wait" and "unat n + 10 < 2 ^ 32"
  shows "\<exists>r s' sz' s0. pxGetNetworkBufferWithDescriptor cfg wait n t s = Some (r, s') \<and> net_inv cfg L others sz' s' \<and>
     (items_of (net_lists s) xFreeBuffersList \<noteq> [] \<longrightarrow> s0 = s) \<and>
     (case r of
        Some i \<Rightarrow> items_of (net_lists s0) xFreeBuffersList = i # items_of (net_lists s') xFreeBuffersList \<and>
          pvContainer (item_rec (net_lists s') i) = None \<and>
          (if n = 0 then pucEthernetBuffer (xNetworkBufferDescriptors s' i) = 0
           else pucEthernetBuffer (xNetworkBufferDescriptors s' i) \<noteq> 0 \<and>
             unat n + 10 \<le> sz' i \<and> unat n \<le> unat (xDataLength (xNetworkBufferDescriptors s' i)))
      | None \<Rightarrow> mset (items_of (net_lists s') xFreeBuffersList) = mset (items_of (net_lists s0) xFreeBuffersList) \<and>
          (n = 0 \<longrightarrow> items_of (net_lists s0) xFreeBuffersList = []))"
proof -
  obtain r s' sz' s0 where g: "pxGetNetworkBufferWithDescriptor cfg wait n t s = Some (r, s')" "net_inv cfg L others sz' s'"
    "free_descs s \<noteq> [] \<longrightarrow> s0 = s"
    "case r of Some i \<Rightarrow> obtained i n sz' s' \<and> free_descs s0 = i # free_descs s' \<and> (\<forall>j. j \<noteq> i \<longrightarrow> desc s' j = desc s0 j)
      | None \<Rightarrow> mset (free_descs s') = mset (free_descs s0) \<and> (n = 0 \<longrightarrow> free_descs s0 = [])"
    using request_inv [OF assms, of t] by (elim exE conjE) (rule that; assumption)
  have "max (unat n) 66 < 2 ^ 32" using assms(3) by simp
  then have len: "unat (of_nat (max (unat n) 66) :: u32) = max (unat n) 66" by (rule unat_of_nat32)
  show ?thesis
    by (rule exI [of _ r], rule exI [of _ s'], rule exI [of _ sz'], rule exI [of _ s0])
      (use g len in \<open>auto simp: obtained_def Let_def MINIMAL_BUFFER_SIZE_def ipBUFFER_PADDING_def split: option.splits\<close>)
qed

text \<open>
  Releasing a descriptor a second time does nothing: neither the heap nor the semaphore
  nor the free list sees it twice.
\<close>

theorem net_double_release:
  assumes "net_inv cfg L others sz s" and "i < ipconfigNUM_NETWORK_BUFFER_DESCRIPTORS"
    and "pvContainer (item_rec (net_lists s) i) = None"
  shows "\<exists>s'. vReleaseNetworkBufferAndDescriptor cfg i s = Some s' \<and> i \<in> set (items_of (net_lists s') xFreeBuffersList) \<and>
     vReleaseNetworkBufferAndDescriptor cfg i s' = Some s'"
proof -
  obtain s' where s': "vReleaseNetworkBufferAndDescriptor cfg i s = Some s'" "net_inv cfg L others sz s'"
    "released_desc i s s'" "container_of (net_lists s') i = Some xFreeBuffersList"
    using release_inv [OF assms(1,2)] assms(3) by auto
  have b: "buf s' i = 0" using s'(3) by (simp add: released_desc_def)
  then have "(desc s' i)\<lparr>pucEthernetBuffer := 0\<rparr> = desc s' i" by simp
  then have "upd_desc i (\<lambda>d. d\<lparr>pucEthernetBuffer := 0\<rparr>) s' = s'" by (simp add: upd_desc_def)
  then have "vReleaseNetworkBufferAndDescriptor cfg i s' = Some s'"
    using b s'(4)
    by (simp add: vReleaseNetworkBufferAndDescriptor_def vReleaseNetworkBuffer_def listIS_CONTAINED_WITHIN_def Let_def)
  then show ?thesis using s'(1,4) lists_ok_container [OF net_invD(1,2) [OF s'(2)], of i] by auto
qed

text \<open>
  The payload address handed out by \<open>FreeRTOS_GetUDPPayloadBuffer\<close> leads back to its
  descriptor, and releasing it by that address returns exactly this descriptor to the free list.
\<close>

theorem udp_payload_roundtrip:
  assumes "net_inv cfg L others sz s" and "wait_ok cfg L others wait" and "unat n + 52 < 2 ^ 32"
    and "FreeRTOS_GetUDPPayloadBuffer cfg wait n t s = Some (p, s')" and "p \<noteq> 0"
  shows "\<exists>i sz' s''. pxUDPPayloadBuffer_to_NetworkBuffer p s' = Some i \<and> net_inv cfg L others sz' s' \<and>
     p = pucEthernetBuffer (xNetworkBufferDescriptors s' i) + ipUDP_PAYLOAD_OFFSET \<and> unat n + 52 \<le> sz' i \<and>
     FreeRTOS_ReleaseUDPPayloadBuffer cfg p s' = Some s'' \<and> net_inv cfg L others sz' s'' \<and>
     mset (items_of (net_lists s'') xFreeBuffersList) = add_mset i (mset (items_of (net_lists s') xFreeBuffersList))"
proof -
  let ?t = "if t > ipconfigUDP_MAX_SEND_BLOCK_TIME_TICKS then ipconfigUDP_MAX_SEND_BLOCK_TIME_TICKS else t"
  have size: "unat (42 + n) = 42 + unat n" using assms(3) by (subst unat_add_small) auto
  then have "unat (42 + n) + 10 < 2 ^ 32" using assms(3) by simp
  obtain r s1 sz' s0 where g: "pxGetNetworkBufferWithDescriptor cfg wait (42 + n) ?t s = Some (r, s1)" "net_inv cfg L others sz' s1"
    "case r of Some i \<Rightarrow> obtained i (42 + n) sz' s1 \<and> free_descs s0 = i # free_descs s1 \<and> (\<forall>j. j \<noteq> i \<longrightarrow> desc s1 j = desc s0 j)
      | None \<Rightarrow> mset (free_descs s1) = mset (free_descs s0) \<and> (42 + n = 0 \<longrightarrow> free_descs s0 = [])"
    using request_inv [OF assms(1,2) \<open>unat (42 + n) + 10 < 2 ^ 32\<close>, of ?t] by (elim exE conjE) (rule that; assumption)
  have p: "s' = s1" "p = (case r of Some i \<Rightarrow> buf s1 i + ipUDP_PAYLOAD_OFFSET | None \<Rightarrow> 0)"
    using assms(4) g(1) by (simp_all add: FreeRTOS_GetUDPPayloadBuffer_def Let_def)
  then obtain i where i: "r = Some i" "p = buf s1 i + ipUDP_PAYLOAD_OFFSET" using assms(5) by (cases r) auto
  have "42 + n \<noteq> 0" using size by auto
  then have ob: "i < ipconfigNUM_NETWORK_BUFFER_DESCRIPTORS" "container_of (net_lists s1) i = None" "buf s1 i \<noteq> 0"
    "unat n + 52 \<le> sz' i"
    using g(3) i(1) size by (auto simp: obtained_def Let_def ipBUFFER_PADDING_def)
  have find: "pxUDPPayloadBuffer_to_NetworkBuffer p s1 = Some i"
    using buf_place(2) [OF g(2) ob(1,3)] payload_nonzero [OF g(2) ob(1,3)] i(2) by simp
  obtain s'' where "vReleaseNetworkBufferAndDescriptor cfg i s1 = Some s''" "net_inv cfg L others sz' s''" "released_desc i s1 s''"
    using release_inv [OF g(2) ob(1)] ob(2) by auto
  moreover have "i \<notin> set (free_descs s1)" using lists_ok_container [OF net_invD(1,2) [OF g(2)], of i] ob(2) by simp
  ultimately show ?thesis
    using find g(2) i(2) ob(4) p(1)
    by (intro exI [of _ i] exI [of _ sz'] exI [of _ s'']) (simp add: FreeRTOS_ReleaseUDPPayloadBuffer_def released_desc_def)
qed

section \<open>An example\<close>

text \<open>A fresh pool on the heap of the example in \<open>Heap4\<close>, no other list, nobody else running.\<close>

definition boot_buffers :: net_buffers where
  "boot_buffers = \<lparr>xNetworkBufferSemaphore = None,
     xNetworkBufferDescriptors = (\<lambda>_. \<lparr>ulIPAddress = 0, pucEthernetBuffer = 0, xDataLength = 0, usPort = 0, usBoundPort = 0\<rparr>),
     net_lists = blank_store, uxMinimumFreeNetworkBuffers = 0, net_heap = demo_heap, buf_links = (\<lambda>_. None)\<rparr>"

definition started_buffers :: net_buffers where
  "started_buffers = snd (the (xNetworkBuffersInitialise demo_cfg True boot_buffers))"

abbreviation no_wait :: "u32 \<Rightarrow> net_buffers \<Rightarrow> net_buffers" where
  "no_wait \<equiv> \<lambda>_ s. s"

lemma no_wait_ok: "wait_ok cfg L others no_wait"
  by (auto simp: wait_ok_def)

lemma boot_facts:
  "lists_ok {} (net_lists boot_buffers)" "\<forall>i<ipconfigNUM_NETWORK_BUFFER_DESCRIPTORS. pvContainer (item_rec (net_lists boot_buffers) i) = None"
  "heap_ok demo_cfg (net_heap boot_buffers) []" "xNetworkBufferSemaphore boot_buffers = None"
  using demo_ok by (simp_all add: boot_buffers_def lists_ok_empty heap_ok_def)

lemma started:
  "xNetworkBuffersInitialise demo_cfg True boot_buffers = Some (True, started_buffers)"
  "net_inv demo_cfg {xFreeBuffersList} [] (\<lambda>_. 0) started_buffers"
  "set (free_descs started_buffers) = {..<ipconfigNUM_NETWORK_BUFFER_DESCRIPTORS}"
proof -
  have e: "xFreeBuffersList \<in> {} \<Longrightarrow> items_of (net_lists boot_buffers) xFreeBuffersList = []" by simp
  obtain s where s: "xNetworkBuffersInitialise demo_cfg True boot_buffers = Some (True, s)"
    "net_inv demo_cfg {xFreeBuffersList} [] (\<lambda>_. 0) s" "set (free_descs s) = {..<ipconfigNUM_NETWORK_BUFFER_DESCRIPTORS}"
    using init_inv [OF boot_facts(1) e boot_facts(2-4), of "\<lambda>_. 0"] by blast
  have "started_buffers = s" unfolding started_buffers_def s(1) by simp
  then show "xNetworkBuffersInitialise demo_cfg True boot_buffers = Some (True, started_buffers)"
    "net_inv demo_cfg {xFreeBuffersList} [] (\<lambda>_. 0) started_buffers"
    "set (free_descs started_buffers) = {..<ipconfigNUM_NETWORK_BUFFER_DESCRIPTORS}" using s by simp_all
qed

lemma get_returns:
  assumes "net_inv cfg L others sz s" "wait_ok cfg L others wait" "unat n + 10 < 2 ^ 32"
  obtains r s' where "pxGetNetworkBufferWithDescriptor cfg wait n t s = Some (r, s')"
  using request_inv [OF assms, of t] by (elim exE conjE) (rule that; assumption)

lemma get_bare:
  assumes "net_inv cfg L others sz s" "wait_ok cfg L others wait" "free_descs s \<noteq> []"
  obtains i s' sz' where "net_inv cfg L others sz' s'" "i < ipconfigNUM_NETWORK_BUFFER_DESCRIPTORS"
    "container_of (net_lists s') i = None"
proof -
  have "unat (0 :: u32) + 10 < 2 ^ 32" by simp
  from request_inv [OF assms(1,2) this, of 0] obtain r s' sz' s0 where
    "pxGetNetworkBufferWithDescriptor cfg wait 0 0 s = Some (r, s')" and g: "net_inv cfg L others sz' s'"
    "free_descs s \<noteq> [] \<longrightarrow> s0 = s"
    "case r of Some i \<Rightarrow> obtained i 0 sz' s' \<and> free_descs s0 = i # free_descs s' \<and> (\<forall>j. j \<noteq> i \<longrightarrow> desc s' j = desc s0 j)
      | None \<Rightarrow> mset (free_descs s') = mset (free_descs s0) \<and> ((0 :: u32) = 0 \<longrightarrow> free_descs s0 = [])"
    by (elim exE conjE) (rule that; assumption)
  then obtain i where "r = Some i" using assms(3) by (cases r) simp_all
  then show ?thesis using that [OF g(1), of i] g(3) by (simp add: obtained_def)
qed

lemma started_free: "free_descs started_buffers \<noteq> []"
proof
  assume "free_descs started_buffers = []"
  then have "{..<ipconfigNUM_NETWORK_BUFFER_DESCRIPTORS} = {}" unfolding started(3) [symmetric] by (simp only: list.set)
  then show False by (simp only: lessThan_empty_iff) (simp add: ipconfigNUM_NETWORK_BUFFER_DESCRIPTORS_def)
qed

theorem net_buffers_session_witness:
  "\<exists>s' r. pxGetNetworkBufferWithDescriptor demo_cfg no_wait 1500 0 started_buffers = Some (r, s') \<and>
     uxGetMinimumFreeNetworkBuffers s' \<le> uxGetNumberOfFreeNetworkBuffers s'"
proof -
  have "unat (1500 :: u32) + 10 < 2 ^ 32" by simp
  then obtain r s' where g: "pxGetNetworkBufferWithDescriptor demo_cfg no_wait 1500 0 started_buffers = Some (r, s')"
    by (rule get_returns [OF started(2) no_wait_ok])
  have "net_step demo_cfg no_wait started_buffers s'" by (rule net_step.get [OF g]) simp
  then have st: "(net_step demo_cfg no_wait)\<^sup>*\<^sup>* started_buffers s'" by (rule r_into_rtranclp)
  have e: "xFreeBuffersList \<notin> {}" by simp
  note p = net_buffers_session [OF boot_facts(1) e boot_facts(2-4) started(1) no_wait_ok st]
  show ?thesis by (intro exI conjI, rule g) (use p in blast)
qed

theorem net_buffer_request_witness:
  "\<exists>r s'. pxGetNetworkBufferWithDescriptor demo_cfg no_wait 0 0 started_buffers = Some (r, s') \<and> r \<noteq> None"
proof -
  have "unat (0 :: u32) + 10 < 2 ^ 32" by simp
  from net_buffer_request [OF started(2) no_wait_ok this, of 0] show ?thesis
    using started_free by (elim exE conjE) (auto split: option.splits)
qed

theorem net_double_release_witness:
  "\<exists>i s s'. vReleaseNetworkBufferAndDescriptor demo_cfg i s = Some s' \<and> vReleaseNetworkBufferAndDescriptor demo_cfg i s' = Some s' \<and>
     i \<in> set (free_descs s') \<and> i \<notin> set (free_descs s)"
proof -
  obtain i s sz where s: "net_inv demo_cfg {xFreeBuffersList} [] sz s" "i < ipconfigNUM_NETWORK_BUFFER_DESCRIPTORS"
    "container_of (net_lists s) i = None"
    by (rule get_bare [OF started(2) no_wait_ok started_free])
  then have "i \<notin> set (free_descs s)" using lists_ok_container [OF net_invD(1,2) [OF s(1)], of i] by simp
  then show ?thesis using net_double_release [OF s] by blast
qed

theorem udp_payload_roundtrip_witness:
  "\<exists>p s'. FreeRTOS_GetUDPPayloadBuffer demo_cfg no_wait 100 0 started_buffers = Some (p, s') \<and>
     (p \<noteq> 0 \<longrightarrow> pxUDPPayloadBuffer_to_NetworkBuffer p s' \<noteq> None)"
proof -
  have "unat (42 + 100 :: u32) + 10 < 2 ^ 32" by simp
  then obtain r s1 where "pxGetNetworkBufferWithDescriptor demo_cfg no_wait (42 + 100) 0 started_buffers = Some (r, s1)"
    by (rule get_returns [OF started(2) no_wait_ok])
  then obtain p s' where g: "FreeRTOS_GetUDPPayloadBuffer demo_cfg no_wait 100 0 started_buffers = Some (p, s')"
    by (simp add: FreeRTOS_GetUDPPayloadBuffer_def ipconfigUDP_MAX_SEND_BLOCK_TIME_TICKS_def)
  have "unat (100 :: u32) + 52 < 2 ^ 32" by simp
  from udp_payload_roundtrip [OF started(2) no_wait_ok this g]
  have "p \<noteq> 0 \<Longrightarrow> pxUDPPayloadBuffer_to_NetworkBuffer p s' \<noteq> None" by (elim exE conjE meta_impE) simp_all
  then show ?thesis using g by blast
qed

end
