(* ===== verification/Tcp_Sock.thy ===== *)
theory Tcp_Sock
  imports Arp Tcp_Rx Tcp_Tx
begin

text \<open>
  The TCP sockets as the IP task sees them, and the parts of \<open>FreeRTOS_TCP_IP.c\<close> and
  \<open>FreeRTOS_Sockets.c\<close> that change one of them: state changes and the events they raise, the two
  stream buffers, and the preparation and sending of packets.

  A \<open>FreeRTOS_Socket_t *\<close> is an index into \<open>socks\<close>, a \<open>NetworkBufferDescriptor_t *\<close> one into
  \<open>net_bufs\<close>; NULL is \<open>None\<close>.  The list of free descriptors is represented by its contents and the
  heap by whether its next allocation succeeds (the theories \<open>Net_Buffers\<close> and \<open>Heap4\<close> hold both in
  full).  Fields of packets are kept in network order, as they lie in memory.  A failed assertion,
  a read outside a buffer or a division by zero is \<open>None\<close>.  Logging and call-backs are compiled out.
\<close>

section \<open>Data\<close>

datatype eIPTcpState_t =
    eCLOSED | eTCP_LISTEN | eCONNECT_SYN | eSYN_FIRST | eSYN_RECEIVED | eESTABLISHED | eFIN_WAIT_1
  | eFIN_WAIT_2 | eCLOSE_WAIT | eCLOSING | eLAST_ACK | eTIME_WAIT

primrec state_number :: "eIPTcpState_t \<Rightarrow> nat" where
  "state_number eCLOSED = 0"
| "state_number eTCP_LISTEN = 1"
| "state_number eCONNECT_SYN = 2"
| "state_number eSYN_FIRST = 3"
| "state_number eSYN_RECEIVED = 4"
| "state_number eESTABLISHED = 5"
| "state_number eFIN_WAIT_1 = 6"
| "state_number eFIN_WAIT_2 = 7"
| "state_number eCLOSE_WAIT = 8"
| "state_number eCLOSING = 9"
| "state_number eLAST_ACK = 10"
| "state_number eTIME_WAIT = 11"

text \<open>The code compares states by their numbers.\<close>

instantiation eIPTcpState_t :: linorder
begin

definition less_eq_eIPTcpState_t :: "eIPTcpState_t \<Rightarrow> eIPTcpState_t \<Rightarrow> bool" where
  "less_eq_eIPTcpState_t s t \<longleftrightarrow> state_number s \<le> state_number t"

definition less_eIPTcpState_t :: "eIPTcpState_t \<Rightarrow> eIPTcpState_t \<Rightarrow> bool" where
  "less_eIPTcpState_t s t \<longleftrightarrow> state_number s < state_number t"

instance
proof
  fix s t u :: eIPTcpState_t
  show "s < t \<longleftrightarrow> s \<le> t \<and> \<not> t \<le> s" by (auto simp: less_eq_eIPTcpState_t_def less_eIPTcpState_t_def)
  show "s \<le> s" by (simp add: less_eq_eIPTcpState_t_def)
  show "s \<le> t \<Longrightarrow> t \<le> u \<Longrightarrow> s \<le> u" by (simp add: less_eq_eIPTcpState_t_def)
  show "s \<le> t \<Longrightarrow> t \<le> s \<Longrightarrow> s = t" by (cases s; cases t) (simp_all add: less_eq_eIPTcpState_t_def)
  show "s \<le> t \<or> t \<le> s" by (auto simp: less_eq_eIPTcpState_t_def)
qed

end

lemmas state_order = less_eq_eIPTcpState_t_def less_eIPTcpState_t_def

record IPHeader_t =
  ucVersionHeaderLength :: u8
  ucDifferentiatedServicesCode :: u8
  usLength :: u16
  usIdentification :: u16
  usFragmentOffset :: u16
  ucTimeToLive :: u8
  ucProtocol :: u8
  usHeaderChecksum :: u16
  ulSourceIPAddress :: u32
  ulDestinationIPAddress :: u32

record TCPHeader_t =
  usSourcePort :: u16
  usDestinationPort :: u16
  pktSequenceNumber :: u32
  ulAckNr :: u32
  ucTcpOffset :: u8
  ucTcpFlags :: u8
  usWindow :: u16
  usTcpChecksum :: u16
  usUrgent :: u16

text \<open>\<open>ucOptdata\<close> is everything behind the first 54 bytes: options, then payload.\<close>

record TCPPacket_t =
  ethHeader :: EthernetHeader_t
  xIPHeader :: IPHeader_t
  xTCPHeader :: TCPHeader_t
  ucOptdata :: "u8 list"

record net_buffer =
  xPacket :: TCPPacket_t
  bufDataLength :: u32

record tcp_bits =
  bMssChange :: bool
  bPassAccept :: bool
  bPassQueued :: bool
  bReuseSocket :: bool
  bCloseAfterSend :: bool
  bUserShutdown :: bool
  bCloseRequested :: bool
  bLowWater :: bool
  bWinChange :: bool
  bSendKeepAlive :: bool
  bWaitKeepAlive :: bool
  bConnPrepared :: bool
  bConnPassed :: bool
  bFinAccepted :: bool
  bFinSent :: bool
  bFinRecv :: bool
  bFinAcked :: bool
  bFinLast :: bool
  bRxStopped :: bool
  bMallocError :: bool

text \<open>
  \<open>xEventGroup\<close> holds the bits of the socket's event group, \<open>boundItemValue\<close> the value of its
  \<open>xBoundSocketListItem\<close>.
\<close>

record FreeRTOS_Socket_t =
  xEventBits :: u32
  xEventGroup :: "u32 option"
  boundItemValue :: u32
  xReceiveBlockTime :: u32
  xSendBlockTime :: u32
  usLocPort :: u16
  ucSocketOptions :: u8
  sockProtocol :: u8
  pxSocketSet :: "nat option"
  xSelectBits :: u32
  xSocketBits :: u32
  ulRemoteIP :: u32
  usRemotePort :: u16
  bits :: tcp_bits
  ulHighestRxAllowed :: u32
  usTimeout :: u16
  usCurMSS :: u16
  usInitMSS :: u16
  usChildCount :: u16
  usBacklog :: u16
  ucRepCount :: u8
  ucTcpState :: eIPTcpState_t
  pxPeerSocket :: "nat option"
  ucKeepRepCount :: u8
  xLastAliveTime :: u32
  xLastActTime :: u32
  uxLittleSpace :: u32
  uxEnoughSpace :: u32
  uxRxStreamSize :: u32
  uxTxStreamSize :: u32
  rxStream :: "StreamBuffer_t option"
  txStream :: "StreamBuffer_t option"
  pxAckMessage :: "nat option"
  lastPacket :: TCPPacket_t
  wnd :: u32
  ulRxCurWinSize :: u32
  uxRxWinSize :: u32
  uxTxWinSize :: u32
  xTcpWindow :: TCPWindow_t

text \<open>
  What the IP task works on.  \<open>net_out\<close> are the frames handed to \<open>xNetworkInterfaceOutput\<close>, oldest
  first, with their lengths, \<open>arp_out\<close> the ARP requests sent.  The outcome of the n-th allocation
  and of the n-th look at the receive counter are \<open>heap_room n\<close> and \<open>rx_pending n\<close>; \<open>junk\<close> is what
  memory from the heap happens to hold.
\<close>

record tcp_world =
  socks :: "nat \<Rightarrow> FreeRTOS_Socket_t"
  next_sock :: nat
  xBoundTcpSocketsList :: "nat list"
  segs :: seg_pool
  net_bufs :: "nat \<Rightarrow> net_buffer"
  free_bufs :: "nat list"
  heap_room :: "nat \<Rightarrow> bool"
  heap_asked :: nat
  junk :: "nat \<Rightarrow> u8"
  rx_pending :: "nat \<Rightarrow> bool"
  rx_looked :: nat
  xTickCount :: u32
  tcpLastTime :: u32
  ulNextInitialSequenceNumber :: u32
  usPacketIdentifier :: u16
  usNextPortToUse :: u16
  net :: net_params
  arp :: arp_state
  net_out :: "(TCPPacket_t \<times> u32) list"
  arp_out :: "ARPPacket_t list"
  xNetworkEventQueue :: "(eIPEvent_t \<times> nat option) list"
  xTCPTimer_bExpired :: bool
  xSelectGroups :: "nat \<Rightarrow> u32"

section \<open>Constants\<close>

definition ipTCP_FLAG_FIN :: u8 where "ipTCP_FLAG_FIN = 0x01"
definition ipTCP_FLAG_SYN :: u8 where "ipTCP_FLAG_SYN = 0x02"
definition ipTCP_FLAG_RST :: u8 where "ipTCP_FLAG_RST = 0x04"
definition ipTCP_FLAG_PSH :: u8 where "ipTCP_FLAG_PSH = 0x08"
definition ipTCP_FLAG_ACK :: u8 where "ipTCP_FLAG_ACK = 0x10"
definition ipTCP_FLAG_URG :: u8 where "ipTCP_FLAG_URG = 0x20"
definition ipTCP_FLAG_CTRL :: u8 where "ipTCP_FLAG_CTRL = 0x1f"
definition TCP_OPT_END :: u8 where "TCP_OPT_END = 0"
definition TCP_OPT_NOOP :: u8 where "TCP_OPT_NOOP = 1"
definition TCP_OPT_MSS :: u8 where "TCP_OPT_MSS = 2"
definition TCP_OPT_SACK_P :: u8 where "TCP_OPT_SACK_P = 4"
definition TCP_OPT_SACK_A :: u8 where "TCP_OPT_SACK_A = 5"
definition TCP_OPT_MSS_LEN :: u8 where "TCP_OPT_MSS_LEN = 4"
definition REDUCED_MSS_THROUGH_INTERNET :: u32 where "REDUCED_MSS_THROUGH_INTERNET = 1400"
definition INITIAL_SEQUENCE_NUMBER_INCREMENT :: u32 where "INITIAL_SEQUENCE_NUMBER_INCREMENT = 0x102"
definition DELAYED_ACK_SHORT_DELAY_MS :: u32 where "DELAYED_ACK_SHORT_DELAY_MS = 2"
definition DELAYED_ACK_LONGER_DELAY_MS :: u32 where "DELAYED_ACK_LONGER_DELAY_MS = 20"
definition SEND_REPEATED_COUNT :: nat where "SEND_REPEATED_COUNT = 8"
definition ipSIZE_OF_ETH_HEADER :: u32 where "ipSIZE_OF_ETH_HEADER = 14"
definition ipSIZE_OF_IP_HEADER :: u32 where "ipSIZE_OF_IP_HEADER = 20"
definition ipSIZE_OF_TCP_HEADER :: u32 where "ipSIZE_OF_TCP_HEADER = 20"
definition sizeof_lastPacket :: u32 where "sizeof_lastPacket = 66"
definition ipconfigTCP_MSS :: u32 where "ipconfigTCP_MSS = 1460"
definition ipconfigTCP_RX_BUF_LEN :: u32 where "ipconfigTCP_RX_BUF_LEN = 4380"
definition ipconfigTCP_TX_BUF_LEN :: u32 where "ipconfigTCP_TX_BUF_LEN = 2920"
definition ipconfigTCP_TIME_TO_LIVE :: u8 where "ipconfigTCP_TIME_TO_LIVE = 128"
definition ipconfigTCP_HANG_PROTECTION_TIME :: u32 where "ipconfigTCP_HANG_PROTECTION_TIME = 30"
definition ipconfigTCP_KEEP_ALIVE_INTERVAL :: u32 where "ipconfigTCP_KEEP_ALIVE_INTERVAL = 20"
definition ipconfigEVENT_QUEUE_LENGTH :: nat where "ipconfigEVENT_QUEUE_LENGTH = 30"
definition configTICK_RATE_HZ :: u32 where "configTICK_RATE_HZ = 1000"
definition ipTCP_TIMER_PERIOD_MS :: u32 where "ipTCP_TIMER_PERIOD_MS = 1000"
definition FREERTOS_IPPROTO_TCP :: u8 where "FREERTOS_IPPROTO_TCP = 6"
definition FREERTOS_IPPROTO_UDP :: u8 where "FREERTOS_IPPROTO_UDP = 17"
definition eSOCKET_RECEIVE :: u32 where "eSOCKET_RECEIVE = 0x01"
definition eSOCKET_SEND :: u32 where "eSOCKET_SEND = 0x02"
definition eSOCKET_ACCEPT :: u32 where "eSOCKET_ACCEPT = 0x04"
definition eSOCKET_CONNECT :: u32 where "eSOCKET_CONNECT = 0x08"
definition eSOCKET_CLOSED :: u32 where "eSOCKET_CLOSED = 0x20"
definition eSOCKET_ALL :: u32 where "eSOCKET_ALL = 0x7f"
definition eSELECT_READ :: u32 where "eSELECT_READ = 0x01"
definition eSELECT_WRITE :: u32 where "eSELECT_WRITE = 0x02"
definition eSELECT_EXCEPT :: u32 where "eSELECT_EXCEPT = 0x04"
definition eSELECT_ALL :: u32 where "eSELECT_ALL = 0x0f"
definition SOCKET_EVENT_BIT_COUNT :: nat where "SOCKET_EVENT_BIT_COUNT = 8"

definition pdMS_TO_TICKS :: "u32 \<Rightarrow> u32" where
  "pdMS_TO_TICKS xTimeInMs = (xTimeInMs * configTICK_RATE_HZ) div 1000"

section \<open>Access\<close>

definition upd_sock :: "nat \<Rightarrow> (FreeRTOS_Socket_t \<Rightarrow> FreeRTOS_Socket_t) \<Rightarrow> tcp_world \<Rightarrow> tcp_world" where
  "upd_sock i f w = w\<lparr>socks := (socks w)(i := f (socks w i))\<rparr>"

definition upd_bits :: "nat \<Rightarrow> (tcp_bits \<Rightarrow> tcp_bits) \<Rightarrow> tcp_world \<Rightarrow> tcp_world" where
  "upd_bits i f = upd_sock i (\<lambda>s. s\<lparr>bits := f (bits s)\<rparr>)"

definition upd_win :: "nat \<Rightarrow> (TCPWindow_t \<Rightarrow> TCPWindow_t) \<Rightarrow> tcp_world \<Rightarrow> tcp_world" where
  "upd_win i f = upd_sock i (\<lambda>s. s\<lparr>xTcpWindow := f (xTcpWindow s)\<rparr>)"

text \<open>A packet lies in a network buffer or in the \<open>lastPacket\<close> of a socket.\<close>

datatype packet_at = NetBuf nat | LastPacket nat

primrec packet :: "tcp_world \<Rightarrow> packet_at \<Rightarrow> TCPPacket_t" where
  "packet w (NetBuf b) = xPacket (net_bufs w b)"
| "packet w (LastPacket i) = lastPacket (socks w i)"

primrec upd_packet :: "packet_at \<Rightarrow> (TCPPacket_t \<Rightarrow> TCPPacket_t) \<Rightarrow> tcp_world \<Rightarrow> tcp_world" where
  "upd_packet (NetBuf b) f w = w\<lparr>net_bufs := (net_bufs w)(b := (net_bufs w b)\<lparr>xPacket := f (xPacket (net_bufs w b))\<rparr>)\<rparr>"
| "upd_packet (LastPacket i) f w = upd_sock i (\<lambda>s. s\<lparr>lastPacket := f (lastPacket s)\<rparr>) w"

definition upd_tcp :: "packet_at \<Rightarrow> (TCPHeader_t \<Rightarrow> TCPHeader_t) \<Rightarrow> tcp_world \<Rightarrow> tcp_world" where
  "upd_tcp p f = upd_packet p (\<lambda>q. q\<lparr>xTCPHeader := f (xTCPHeader q)\<rparr>)"

definition set_bufDataLength :: "nat \<Rightarrow> u32 \<Rightarrow> tcp_world \<Rightarrow> tcp_world" where
  "set_bufDataLength b n w = w\<lparr>net_bufs := (net_bufs w)(b := (net_bufs w b)\<lparr>bufDataLength := n\<rparr>)\<rparr>"

text \<open>The bytes of words in memory, and of a TCP header.\<close>

definition le16 :: "u16 \<Rightarrow> u8 list" where
  "le16 x = [ucast x, ucast (drop_bit 8 x)]"

definition le32 :: "u32 \<Rightarrow> u8 list" where
  "le32 x = [ucast x, ucast (drop_bit 8 x), ucast (drop_bit 16 x), ucast (drop_bit 24 x)]"

definition tcp_header_bytes :: "TCPHeader_t \<Rightarrow> u8 list" where
  "tcp_header_bytes h = le16 (usSourcePort h) @ le16 (usDestinationPort h) @ le32 (pktSequenceNumber h) @
     le32 (ulAckNr h) @ [ucTcpOffset h, ucTcpFlags h] @ le16 (usWindow h) @ le16 (usTcpChecksum h) @ le16 (usUrgent h)"

text \<open>The \<open>ucTcpOffset\<close> of a header with so many bytes of options.\<close>

definition tcp_offset :: "u32 \<Rightarrow> u8" where
  "tcp_offset xOptionsLength = ucast (push_bit 2 (ipSIZE_OF_TCP_HEADER + xOptionsLength))"

section \<open>Services used\<close>

definition pvPortMallocLarge :: "tcp_world \<Rightarrow> bool \<times> tcp_world" where
  "pvPortMallocLarge w = (heap_room w (heap_asked w), w\<lparr>heap_asked := heap_asked w + 1\<rparr>)"

definition uxGetRxEventCount :: "tcp_world \<Rightarrow> bool \<times> tcp_world" where
  "uxGetRxEventCount w = (rx_pending w (rx_looked w), w\<lparr>rx_looked := rx_looked w + 1\<rparr>)"

text \<open>
  \<open>pxGetNetworkBufferWithDescriptor\<close> without waiting: the descriptor at the front of the free list
  with new storage, whose contents are those of the heap; without storage it goes back to the list.
\<close>

definition get_net_buffer :: "u32 \<Rightarrow> tcp_world \<Rightarrow> nat option \<times> tcp_world" where
  "get_net_buffer xRequestedSizeBytes w =
     (let n = (if xRequestedSizeBytes \<noteq> 0 \<and> xRequestedSizeBytes < 66 then 66 else xRequestedSizeBytes) in
      case free_bufs w of
        [] \<Rightarrow> (None, w)
      | b # rest \<Rightarrow>
          (let (room, w1) = pvPortMallocLarge w in
           if room then
             (Some b,
              w1\<lparr>free_bufs := rest,
                net_bufs := (net_bufs w1)(b := (net_bufs w1 b)\<lparr>bufDataLength := n,
                  xPacket := (xPacket (net_bufs w1 b))\<lparr>ucOptdata := map (junk w1) [54..<unat n]\<rparr>\<rparr>)\<rparr>)
           else (None, w1\<lparr>free_bufs := rest @ [b]\<rparr>)))"

definition release_net_buffer :: "nat \<Rightarrow> tcp_world \<Rightarrow> tcp_world" where
  "release_net_buffer b w = (if b \<in> set (free_bufs w) then w else w\<lparr>free_bufs := free_bufs w @ [b]\<rparr>)"

text \<open>\<open>xQueueSendToBack\<close> without waiting, and the sending of events from the IP task to itself.\<close>

definition xSendEventStructToIPTask :: "eIPEvent_t \<Rightarrow> nat option \<Rightarrow> tcp_world \<Rightarrow> bool \<times> tcp_world" where
  "xSendEventStructToIPTask e pvData w =
     (let w1 = (if e = eTCPTimerEvent then w\<lparr>xTCPTimer_bExpired := True\<rparr> else w) in
      if e = eTCPTimerEvent \<and> xNetworkEventQueue w1 \<noteq> [] then (True, w1)
      else if length (xNetworkEventQueue w1) < ipconfigEVENT_QUEUE_LENGTH
           then (True, w1\<lparr>xNetworkEventQueue := xNetworkEventQueue w1 @ [(e, pvData)]\<rparr>)
           else (False, w1))"

definition xSendEventToIPTask :: "eIPEvent_t \<Rightarrow> tcp_world \<Rightarrow> bool \<times> tcp_world" where
  "xSendEventToIPTask e = xSendEventStructToIPTask e None"

definition FreeRTOS_closesocket :: "nat \<Rightarrow> tcp_world \<Rightarrow> int \<times> tcp_world" where
  "FreeRTOS_closesocket i w =
     (let (sent, w1) = xSendEventStructToIPTask eSocketCloseEvent (Some i) w in (if sent then 1 else -1, w1))"

section \<open>State changes and their events\<close>

definition prvTCPSocketIsActive :: "eIPTcpState_t \<Rightarrow> bool" where
  "prvTCPSocketIsActive lStatus \<longleftrightarrow> lStatus \<notin> {eCLOSED, eCLOSE_WAIT, eFIN_WAIT_2, eCLOSING, eTIME_WAIT}"

definition NOW_CONNECTED :: "eIPTcpState_t \<Rightarrow> bool" where
  "NOW_CONNECTED status \<longleftrightarrow> status \<ge> eESTABLISHED \<and> status \<noteq> eCLOSE_WAIT"

text \<open>
  Raising a socket event, and the select event that goes with it when the socket's owner selects
  for it.
\<close>

definition raise_event :: "u32 \<Rightarrow> u32 \<Rightarrow> FreeRTOS_Socket_t \<Rightarrow> FreeRTOS_Socket_t" where
  "raise_event e sel s =
     (let s1 = s\<lparr>xEventBits := xEventBits s OR e\<rparr> in
      if xSelectBits s1 AND sel \<noteq> 0
      then s1\<lparr>xEventBits := xEventBits s1 OR push_bit SOCKET_EVENT_BIT_COUNT sel\<rparr> else s1)"

definition vWakeUpSocketUser :: "nat \<Rightarrow> tcp_world \<Rightarrow> tcp_world" where
  "vWakeUpSocketUser i w =
     (let w1 =
        (case pxSocketSet (socks w i) of
           None \<Rightarrow> w
         | Some ss \<Rightarrow>
             (let sel = drop_bit SOCKET_EVENT_BIT_COUNT (xEventBits (socks w i)) AND eSELECT_ALL in
              if sel \<noteq> 0
              then (upd_sock i (\<lambda>s. s\<lparr>xSocketBits := xSocketBits s OR sel\<rparr>) w)
                     \<lparr>xSelectGroups := (xSelectGroups w)(ss := xSelectGroups w ss OR sel)\<rparr>
              else w));
          w2 = upd_sock i (\<lambda>s. s\<lparr>xEventBits := xEventBits s AND eSOCKET_ALL\<rparr>) w1;
          w3 = (case xEventGroup (socks w2 i) of
                  None \<Rightarrow> w2
                | Some g \<Rightarrow> if xEventBits (socks w2 i) \<noteq> 0
                            then upd_sock i (\<lambda>s. s\<lparr>xEventGroup := Some (g OR xEventBits s)\<rparr>) w2 else w2)
      in upd_sock i (\<lambda>s. s\<lparr>xEventBits := 0\<rparr>) w3)"

definition prvTCPTouchSocket :: "nat \<Rightarrow> tcp_world \<Rightarrow> tcp_world" where
  "prvTCPTouchSocket i w =
     upd_sock i (\<lambda>s. s\<lparr>xLastActTime := xTickCount w,
       bits := (bits s)\<lparr>bWaitKeepAlive := False, bSendKeepAlive := False\<rparr>,
       ucKeepRepCount := 0, xLastAliveTime := xTickCount w\<rparr>) w"

text \<open>
  \<open>vTCPStateChange\<close>.  The first part is what a new connection does: an orphan that waits to be
  accepted tells its parent, any other socket raises its own event.  (\<open>configASSERT( xParent != NULL )\<close>
  is left out: the code after it copes with a missing parent.)
\<close>

definition tcp_connected :: "nat \<Rightarrow> tcp_world \<Rightarrow> tcp_world" where
  "tcp_connected i w =
     (if bPassQueued (bits (socks w i)) then
        (let w1 =
           (case (if bReuseSocket (bits (socks w i)) then Some i else pxPeerSocket (socks w i)) of
              None \<Rightarrow> w
            | Some xParent \<Rightarrow>
                vWakeUpSocketUser xParent
                  (upd_sock xParent (raise_event eSOCKET_ACCEPT eSELECT_READ)
                    (upd_sock xParent
                      (\<lambda>p. if pxPeerSocket p = None then p\<lparr>pxPeerSocket := Some i\<rparr> else p) w)))
         in upd_sock i (\<lambda>s. s\<lparr>pxPeerSocket := None,
              bits := (bits s)\<lparr>bPassQueued := False, bPassAccept := True\<rparr>\<rparr>) w1)
      else upd_sock i (raise_event eSOCKET_CONNECT eSELECT_WRITE) w)"

definition vTCPStateChange :: "nat \<Rightarrow> eIPTcpState_t \<Rightarrow> tcp_world \<Rightarrow> tcp_world" where
  "vTCPStateChange i xTcpState w =
     (let bBefore = NOW_CONNECTED (ucTcpState (socks w i));
          bAfter = NOW_CONNECTED xTcpState;
          w2 =
            (if bBefore \<noteq> bAfter then
               (let w1 = (if bAfter then tcp_connected i w
                          else upd_sock i (raise_event eSOCKET_CLOSED eSELECT_EXCEPT) w)
                in if \<not> prvTCPSocketIsActive (ucTcpState (socks w1 i))
                   then upd_sock i (\<lambda>s. s\<lparr>usTimeout := 0\<rparr>) w1 else w1)
             else if xTcpState = eCLOSED \<and> (bPassQueued (bits (socks w i)) \<or> bPassAccept (bits (socks w i))) \<and>
                     \<not> bReuseSocket (bits (socks w i))
             then snd (FreeRTOS_closesocket i w) else w)
      in prvTCPTouchSocket i (upd_sock i (\<lambda>s. s\<lparr>ucTcpState := xTcpState\<rparr>) w2))"

section \<open>Streams\<close>

text \<open>\<open>prvTcpCreateStream\<close>; the array keeps what the heap held.\<close>

definition prvTcpCreateStream :: "nat \<Rightarrow> bool \<Rightarrow> tcp_world \<Rightarrow> StreamBuffer_t option \<times> tcp_world" where
  "prvTcpCreateStream i xIsInputStream w =
     (let (uxLength0, w1) =
            (if xIsInputStream then
               (uxRxStreamSize (socks w i),
                upd_sock i (\<lambda>s. s\<lparr>
                  uxLittleSpace := (if uxLittleSpace s = 0 then (1 * uxRxStreamSize s) div 5 else uxLittleSpace s),
                  uxEnoughSpace := (if uxEnoughSpace s = 0 then (4 * uxRxStreamSize s) div 5 else uxEnoughSpace s)\<rparr>) w)
             else (uxTxStreamSize (socks w i), w));
          uxLength = (uxLength0 + 4) AND NOT (4 - 1);
          (room, w2) = pvPortMallocLarge w1
      in if \<not> room
         then (None, vTCPStateChange i eCLOSE_WAIT (upd_bits i (\<lambda>b. b\<lparr>bMallocError := True\<rparr>) w2))
         else
           (let pxBuffer = \<lparr>uxTail = 0, uxMid = 0, uxHead = 0, uxFront = 0, bufLENGTH = uxLength,
                            ucArray = map (junk w2) [0..<unat uxLength]\<rparr>
            in (Some pxBuffer,
                upd_sock i (\<lambda>s. if xIsInputStream then s\<lparr>rxStream := Some pxBuffer\<rparr>
                                else s\<lparr>txStream := Some pxBuffer\<rparr>) w2)))"

definition lTCPAddRxdata :: "nat \<Rightarrow> u32 \<Rightarrow> u8 list option \<Rightarrow> u32 \<Rightarrow> tcp_world \<Rightarrow> int \<times> tcp_world" where
  "lTCPAddRxdata i xOffset pcData ulByteCount w =
     (case (case rxStream (socks w i) of None \<Rightarrow> prvTcpCreateStream i True w | Some pxStream \<Rightarrow> (Some pxStream, w)) of
        (None, w1) \<Rightarrow> (-1, w1)
      | (Some pxStream, w1) \<Rightarrow>
          (let (xResult, pxStream1) = uxStreamBufferAdd pxStream xOffset pcData ulByteCount;
               w2 = upd_sock i (\<lambda>s. s\<lparr>rxStream := Some pxStream1\<rparr>) w1;
               w3 =
                 (if xOffset = 0 then
                    (let w4 =
                       (if \<not> bLowWater (bits (socks w2 i)) \<and>
                           uxStreamBufferFrontSpace pxStream1 \<le> uxLittleSpace (socks w2 i)
                        then snd (xSendEventToIPTask eTCPTimerEvent
                               (upd_sock i (\<lambda>s. s\<lparr>bits := (bits s)\<lparr>bLowWater := True, bWinChange := True\<rparr>,
                                                  usTimeout := 1\<rparr>) w2))
                        else w2)
                     in upd_sock i (raise_event eSOCKET_RECEIVE eSELECT_READ) w4)
                  else w2)
           in (sint xResult, w3)))"

section \<open>Sending a packet\<close>

text \<open>
  \<open>prvTCPBufferResize\<close> for buffers of variable size (\<open>xBufferAllocFixedSize = pdFALSE\<close>): the buffer
  given, or a new one with a copy of it or of \<open>lastPacket\<close>.
\<close>

definition prvTCPBufferResize :: "nat \<Rightarrow> nat option \<Rightarrow> u32 \<Rightarrow> u32 \<Rightarrow> tcp_world \<Rightarrow> nat option \<times> tcp_world" where
  "prvTCPBufferResize i pxNetworkBuffer lDataLen xOptionsLength w =
     (let lTotal = ipSIZE_OF_ETH_HEADER + ipSIZE_OF_IP_HEADER + ipSIZE_OF_TCP_HEADER + xOptionsLength + lDataLen;
          lNeeded = (if sint sizeof_lastPacket \<ge> sint lTotal then sizeof_lastPacket else lTotal);
          xResize = (case pxNetworkBuffer of None \<Rightarrow> True | Some b \<Rightarrow> bufDataLength (net_bufs w b) < lNeeded)
      in
      if xResize then
        (case get_net_buffer lNeeded w of
           (None, w1) \<Rightarrow> (None, w1)
         | (Some r, w1) \<Rightarrow>
             (case pxNetworkBuffer of
                Some b \<Rightarrow>
                  (let old = xPacket (net_bufs w1 b); n = unat (bufDataLength (net_bufs w1 b)) - 54
                   in (Some r,
                       release_net_buffer b
                         (upd_packet (NetBuf r) (\<lambda>p. old\<lparr>ucOptdata := mem_write (ucOptdata p) 0 (take n (ucOptdata old))\<rparr>) w1)))
              | None \<Rightarrow>
                  (let old = lastPacket (socks w1 i)
                   in (Some r,
                       upd_packet (NetBuf r) (\<lambda>p. old\<lparr>ucOptdata := mem_write (ucOptdata p) 0 (take 12 (ucOptdata old))\<rparr>) w1))))
      else
        (case pxNetworkBuffer of
           None \<Rightarrow> (None, w)
         | Some b \<Rightarrow> (Some b, set_bufDataLength b lTotal w)))"

text \<open>
  \<open>prvTCPReturnPacket\<close>.  Without a socket the sequence numbers are swapped; without a buffer
  \<open>lastPacket\<close> is sent.  The driver does not release the buffer (every caller passes \<open>pdFALSE\<close>, the
  value of \<open>ipconfigZERO_COPY_TX_DRIVER\<close>), and checksums are left to it.
\<close>

definition advertised_space :: "FreeRTOS_Socket_t \<Rightarrow> u32" where
  "advertised_space s =
     (let ulFrontSpace = (case rxStream s of Some b \<Rightarrow> uxStreamBufferFrontSpace b | None \<Rightarrow> uxRxStreamSize s);
          ulSpace0 = FreeRTOS_min_uint32 (ulRxCurWinSize s) (ulRxWindowLength (xTcpWindow s));
          ulSpace1 = (if bLowWater (bits s) \<or> bRxStopped (bits s) then 0 else ulSpace0);
          ulSpace2 = (if ulSpace1 < ucast (usCurMSS s) \<and> ulFrontSpace \<ge> ucast (usCurMSS s)
                      then ucast (usCurMSS s) else ulSpace1)
      in if ulSpace2 > 0xfffc then 0xfffc else ulSpace2)"

definition return_header :: "nat \<Rightarrow> packet_at \<Rightarrow> u32 \<Rightarrow> tcp_world \<Rightarrow> tcp_world" where
  "return_header i p ulLen w =
     (let ulSpace = advertised_space (socks w i);
          w1 = upd_tcp p (\<lambda>h. h\<lparr>usWindow := FreeRTOS_htons (ucast ulSpace)\<rparr>) w;
          w2 = upd_sock i (\<lambda>s. s\<lparr>bits := (bits s)\<lparr>bWinChange := False\<rparr>,
                 ulHighestRxAllowed := ulCurrentSequenceNumber (rx (xTcpWindow s)) + ulSpace\<rparr>) w1;
          win = xTcpWindow (socks w2 i);
          w3 =
            (if bSendKeepAlive (bits (socks w2 i)) then
               upd_tcp p (\<lambda>h. h\<lparr>pktSequenceNumber := FreeRTOS_htonl (ulOurSequenceNumber win - 1)\<rparr>)
                 (upd_bits i (\<lambda>b. b\<lparr>bSendKeepAlive := False, bWaitKeepAlive := True\<rparr>) w2)
             else
               (let w4 = upd_tcp p (\<lambda>h. h\<lparr>pktSequenceNumber := FreeRTOS_htonl (ulOurSequenceNumber win)\<rparr>) w2 in
                if ucTcpFlags (xTCPHeader (packet w4 p)) AND ipTCP_FLAG_FIN \<noteq> 0 \<and>
                   ulOurSequenceNumber win + (ulLen - (ipSIZE_OF_TCP_HEADER + ipSIZE_OF_IP_HEADER)) \<noteq>
                     ulFINSequenceNumber (tx win)
                then upd_tcp p (\<lambda>h. h\<lparr>ucTcpFlags := ucTcpFlags h AND NOT ipTCP_FLAG_FIN\<rparr>) w4
                else w4))
      in upd_tcp p (\<lambda>h. h\<lparr>ulAckNr := FreeRTOS_htonl (ulCurrentSequenceNumber (rx win))\<rparr>) w3)"

definition swap_ports :: "TCPPacket_t \<Rightarrow> TCPPacket_t" where
  "swap_ports q = q\<lparr>xTCPHeader := (xTCPHeader q)\<lparr>usSourcePort := usDestinationPort (xTCPHeader q),
                                             usDestinationPort := usSourcePort (xTCPHeader q)\<rparr>\<rparr>"

definition addressed :: "net_params \<Rightarrow> u32 \<Rightarrow> u16 \<Rightarrow> TCPPacket_t \<Rightarrow> TCPPacket_t" where
  "addressed np ulLen ident q =
     (swap_ports q)\<lparr>
        xIPHeader := (xIPHeader q)\<lparr>ucTimeToLive := ipconfigTCP_TIME_TO_LIVE, usLength := htons_wide ulLen,
          ulDestinationIPAddress := ulSourceIPAddress (xIPHeader q), ulSourceIPAddress := ipLOCAL_IP_ADDRESS np,
          usIdentification := FreeRTOS_htons ident, usFragmentOffset := 0\<rparr>,
        ethHeader := (ethHeader q)\<lparr>xDestinationAddress := xSourceAddress (ethHeader q),
                                   xSourceAddress := ipLOCAL_MAC_ADDRESS np\<rparr>\<rparr>"

definition swapped_back :: "TCPPacket_t \<Rightarrow> TCPPacket_t" where
  "swapped_back q =
     (swap_ports q)\<lparr>
        xIPHeader := (xIPHeader q)\<lparr>ulSourceIPAddress := ulDestinationIPAddress (xIPHeader q)\<rparr>,
        ethHeader := (ethHeader q)\<lparr>xSourceAddress := xDestinationAddress (ethHeader q)\<rparr>\<rparr>"

definition prvTCPReturnPacket :: "nat option \<Rightarrow> packet_at \<Rightarrow> u32 \<Rightarrow> tcp_world \<Rightarrow> tcp_world" where
  "prvTCPReturnPacket pxSocket p ulLen w =
     (let w1 =
        (case pxSocket of
           Some i \<Rightarrow> return_header i p ulLen w
         | None \<Rightarrow> upd_tcp p (\<lambda>h. h\<lparr>pktSequenceNumber := ulAckNr h, ulAckNr := pktSequenceNumber h\<rparr>) w);
          w2 = (upd_packet p (addressed (net w1) ulLen (usPacketIdentifier w1)) w1)
                 \<lparr>usPacketIdentifier := usPacketIdentifier w1 + 1\<rparr>;
          w3 = (case p of NetBuf b \<Rightarrow> set_bufDataLength b (ulLen + ipSIZE_OF_ETH_HEADER) w2 | LastPacket _ \<Rightarrow> w2);
          w4 = w3\<lparr>net_out := net_out w3 @ [(packet w3 p, ulLen + ipSIZE_OF_ETH_HEADER)]\<rparr>
      in upd_packet p swapped_back w4)"

definition prvTCPSendReset :: "nat \<Rightarrow> tcp_world \<Rightarrow> tcp_world" where
  "prvTCPSendReset b w =
     prvTCPReturnPacket None (NetBuf b) (ipSIZE_OF_IP_HEADER + ipSIZE_OF_TCP_HEADER + 0)
       (upd_tcp (NetBuf b) (\<lambda>h. h\<lparr>ucTcpFlags := ipTCP_FLAG_ACK OR ipTCP_FLAG_RST, ucTcpOffset := tcp_offset 0\<rparr>) w)"

section \<open>Data to be sent\<close>

definition prvTCPAddTxData :: "nat \<Rightarrow> tcp_world \<Rightarrow> tcp_world" where
  "prvTCPAddTxData i w =
     (case txStream (socks w i) of
        None \<Rightarrow> w
      | Some b \<Rightarrow>
          (let lLength = uxStreamBufferMidSpace b in
           if sint lLength > 0 then
             (let (lCount, g, win) = lTCPWindowTxAdd (xTickCount w) lLength (sint (uxMid b)) (sint (bufLENGTH b))
                                       (segs w) (xTcpWindow (socks w i));
                  w1 = (upd_win i (\<lambda>_. win) w)\<lparr>segs := g\<rparr>
              in if lCount > 0
                 then upd_sock i (\<lambda>s. s\<lparr>txStream := Some (vStreamBufferMoveMid b (word_of_int lCount))\<rparr>) w1
                 else w1)
           else w))"

text \<open>
  \<open>prvTCPPrepareSend\<close> in its three parts: fetch a segment and copy its bytes, look after shutdown and
  keep-alive, complete the header.
\<close>

definition prepare_data ::
  "nat \<Rightarrow> nat option \<Rightarrow> u32 \<Rightarrow> tcp_world \<Rightarrow> (int \<times> nat option \<times> tcp_world) option" where
  "prepare_data i buf xOptionsLength w =
     (case txStream (socks w i) of
        None \<Rightarrow> Some (0, buf, w)
      | Some b \<Rightarrow>
          (if usCurMSS (socks w i) > 1 then
             (case ulTCPWindowTxGet (xTickCount w) (wnd (socks w i)) (segs w) (xTcpWindow (socks w i)) of
                None \<Rightarrow> None
              | Some ((n, pos), g, win) \<Rightarrow>
                  (let w1 = (upd_win i (\<lambda>_. win) w)\<lparr>segs := g\<rparr>;
                       lStreamPos = (word_of_int (case pos of None \<Rightarrow> 0 | Some q \<Rightarrow> q) :: u32)
                   in
                   if sint n > 0 then
                     (case prvTCPBufferResize i buf n xOptionsLength w1 of
                        (None, w2) \<Rightarrow> Some (-1, buf, w2)
                      | (Some r, w2) \<Rightarrow>
                          (let lOffset = uxStreamBufferDistance b (uxTail b) lStreamPos;
                               (ulDataGot, out, b1) = uxStreamBufferGet b lOffset True n True;
                               w3 = upd_packet (NetBuf r) (\<lambda>q. q\<lparr>ucOptdata := mem_write (ucOptdata q) (unat xOptionsLength) out\<rparr>) w2;
                               w4 =
                                 (if bCloseRequested (bits (socks w3 i)) \<and> \<not> bFinSent (bits (socks w3 i)) \<and>
                                     uxStreamBufferDistance b lStreamPos (uxHead b) = ulDataGot
                                  then upd_bits i (\<lambda>f. f\<lparr>bFinSent := True\<rparr>)
                                         (upd_win i (\<lambda>v. v\<lparr>tx := (tx v)\<lparr>ulFINSequenceNumber := ulOurSequenceNumber v + n\<rparr>\<rparr>)
                                           (upd_tcp (NetBuf r) (\<lambda>h. h\<lparr>ucTcpFlags := ucTcpFlags h OR ipTCP_FLAG_FIN\<rparr>) w3))
                                  else w3)
                           in Some (sint n, Some r, w4)))
                   else Some (sint n, buf, w1)))
           else Some (0, buf, w)))"

definition packet_of :: "nat \<Rightarrow> nat option \<Rightarrow> packet_at" where
  "packet_of i buf = (case buf of None \<Rightarrow> LastPacket i | Some b \<Rightarrow> NetBuf b)"

definition shutdown_and_keepalive :: "nat \<Rightarrow> packet_at \<Rightarrow> int \<Rightarrow> tcp_world \<Rightarrow> int \<times> tcp_world" where
  "shutdown_and_keepalive i p lDataLen w =
     (if lDataLen \<ge> 0 \<and> ucTcpState (socks w i) = eESTABLISHED then
        (let w1 =
           (if bUserShutdown (bits (socks w i)) \<and> xTCPWindowTxDone (xTcpWindow (socks w i)) then
              (let v1 = upd_bits i (\<lambda>b. b\<lparr>bUserShutdown := False\<rparr>) w;
                   v2 = upd_tcp p (\<lambda>h. h\<lparr>ucTcpFlags := ucTcpFlags h OR ipTCP_FLAG_FIN\<rparr>) v1;
                   v3 = upd_bits i (\<lambda>b. b\<lparr>bFinSent := True, bWinChange := True\<rparr>) v2;
                   v4 = upd_win i (\<lambda>v. v\<lparr>tx := (tx v)\<lparr>ulFINSequenceNumber := ulCurrentSequenceNumber (tx v)\<rparr>\<rparr>) v3
               in vTCPStateChange i eFIN_WAIT_1 v4)
            else w);
             (n1, w2) = (if ucKeepRepCount (socks w1 i) > 3 then (-1, vTCPStateChange i eCLOSE_WAIT w1) else (lDataLen, w1));
             w3 =
               (if n1 = 0 \<and> \<not> bWinChange (bits (socks w2 i)) then
                  (let xAge = xTickCount w2 - xLastAliveTime (socks w2 i);
                       xMax = (if ucKeepRepCount (socks w2 i) \<noteq> 0 then 3 * configTICK_RATE_HZ
                               else ipconfigTCP_KEEP_ALIVE_INTERVAL * configTICK_RATE_HZ)
                   in if xAge > xMax
                      then upd_sock i (\<lambda>s. s\<lparr>xLastAliveTime := xTickCount w2,
                             bits := (bits s)\<lparr>bSendKeepAlive := True\<rparr>,
                             usTimeout := ucast (pdMS_TO_TICKS 2500), ucKeepRepCount := ucKeepRepCount s + 1\<rparr>) w2
                      else w2)
                else w2)
         in (n1, w3))
      else (lDataLen, w))"

definition prvTCPPrepareSend ::
  "nat \<Rightarrow> nat option \<Rightarrow> u32 \<Rightarrow> tcp_world \<Rightarrow> (int \<times> nat option \<times> tcp_world) option" where
  "prvTCPPrepareSend i buf xOptionsLength w =
     (case prepare_data i buf xOptionsLength
             (upd_tcp (packet_of i buf) (\<lambda>h. h\<lparr>ucTcpFlags := ucTcpFlags h OR ipTCP_FLAG_ACK\<rparr>) w) of
        None \<Rightarrow> None
      | Some (n0, buf1, w1) \<Rightarrow>
          (let p = packet_of i buf1;
               (n, w2) = shutdown_and_keepalive i p n0 w1
           in if n > 0 \<or> bWinChange (bits (socks w2 i)) \<or> bSendKeepAlive (bits (socks w2 i)) then
                (let w3 = upd_tcp p (\<lambda>h. h\<lparr>ucTcpFlags := (ucTcpFlags h AND NOT ipTCP_FLAG_PSH) OR ipTCP_FLAG_ACK,
                                          ucTcpOffset := tcp_offset xOptionsLength\<rparr>) w2;
                     w4 = (if n \<noteq> 0 then upd_tcp p (\<lambda>h. h\<lparr>ucTcpFlags := ucTcpFlags h OR ipTCP_FLAG_PSH\<rparr>) w3 else w3)
                 in Some (n + sint (ipSIZE_OF_IP_HEADER + ipSIZE_OF_TCP_HEADER + xOptionsLength), buf1, w4))
              else Some (n, buf1, w2)))"

text \<open>At most \<open>SEND_REPEATED_COUNT\<close> packets in a row, while no frame has come in.\<close>

primrec send_repeated_loop ::
  "nat \<Rightarrow> nat \<Rightarrow> nat option \<Rightarrow> int \<Rightarrow> tcp_world \<Rightarrow> (int \<times> nat option \<times> tcp_world) option" where
  "send_repeated_loop i 0 buf lResult w = Some (lResult, buf, w)"
| "send_repeated_loop i (Suc n) buf lResult w =
     (let (rx_waits, w1) = uxGetRxEventCount w in
      if rx_waits then Some (lResult, buf, w1)
      else
        (case prvTCPPrepareSend i buf 0 w1 of
           None \<Rightarrow> None
         | Some (xSendLength, buf1, w2) \<Rightarrow>
             (if xSendLength \<le> 0 then Some (lResult, buf1, w2)
              else send_repeated_loop i n buf1 (lResult + xSendLength)
                     (prvTCPReturnPacket (Some i) (packet_of i buf1) (word_of_int xSendLength) w2))))"

definition prvTCPSendRepeated :: "nat \<Rightarrow> nat option \<Rightarrow> tcp_world \<Rightarrow> (int \<times> nat option \<times> tcp_world) option" where
  "prvTCPSendRepeated i buf w = send_repeated_loop i SEND_REPEATED_COUNT buf 0 w"

section \<open>When to look again\<close>

text \<open>
  A prepared connection that has sent no SYN yet has \<open>ucRepCount\<close> 0; the shift by -1 is then undefined in C
  and by 255 here, which gives 0.
\<close>

definition prvTCPNextTimeout :: "nat \<Rightarrow> tcp_world \<Rightarrow> u32 \<times> tcp_world" where
  "prvTCPNextTimeout i w =
     (let s = socks w i;
          t =
            (if ucTcpState s = eCONNECT_SYN then
               ucast (pdMS_TO_TICKS
                 (if bConnPrepared (bits s)
                  then (if ucRepCount s < 3 then push_bit (unat (ucRepCount s - 1)) 3000 else 11000)
                  else 500))
             else if usTimeout s = 0 then
               (let (xResult, ulDelayMs) = xTCPWindowTxHasData (xTickCount w) (segs w) (xTcpWindow s) (wnd s)
                in ucast (pdMS_TO_TICKS (if ulDelayMs = 0 then (if xResult then 1 else 20000) else ulDelayMs)))
             else usTimeout s)
      in (ucast t, upd_sock i (\<lambda>s. s\<lparr>usTimeout := t\<rparr>) w))"

section \<open>Connecting\<close>

definition prvSetSynAckOptions :: "nat \<Rightarrow> packet_at \<Rightarrow> tcp_world \<Rightarrow> u32 \<times> tcp_world" where
  "prvSetSynAckOptions i p w =
     (let usMSS = usInitMSS (socks w i) in
      (8, upd_packet p (\<lambda>q. q\<lparr>ucOptdata := mem_write (ucOptdata q) 0
             [TCP_OPT_MSS, TCP_OPT_MSS_LEN, ucast (drop_bit 8 usMSS), ucast (usMSS AND 0xff),
              TCP_OPT_NOOP, TCP_OPT_NOOP, TCP_OPT_SACK_P, 2]\<rparr>) w))"

text \<open>The comparison is between an address in host order, turned round, and one in network order.\<close>

definition prvSocketSetMSS :: "nat \<Rightarrow> tcp_world \<Rightarrow> tcp_world" where
  "prvSocketSetMSS i w =
     (let ulMSS =
        (if (FreeRTOS_htonl (ulRemoteIP (socks w i)) XOR ipLOCAL_IP_ADDRESS (net w)) AND ulNetMask (net w) \<noteq> 0
         then FreeRTOS_min_uint32 REDUCED_MSS_THROUGH_INTERNET ipconfigTCP_MSS else ipconfigTCP_MSS)
      in upd_sock i (\<lambda>s. s\<lparr>usCurMSS := ucast ulMSS, usInitMSS := ucast ulMSS\<rparr>) w)"

definition prvTCPCreateWindow :: "nat \<Rightarrow> tcp_world \<Rightarrow> tcp_world" where
  "prvTCPCreateWindow i w =
     (let s = socks w i;
          (room, w1) = (if seg_allocated (segs w) then (False, w) else pvPortMallocLarge w);
          (g, win) = vTCPWindowCreate room (ipconfigTCP_MSS * uxRxWinSize s) (ipconfigTCP_MSS * uxTxWinSize s)
                       (ulCurrentSequenceNumber (rx (xTcpWindow s))) (ulOurSequenceNumber (xTcpWindow s))
                       (ucast (usInitMSS s)) (segs w1) (xTcpWindow s)
      in (upd_win i (\<lambda>_. win) w1)\<lparr>segs := g\<rparr>)"

definition send_arp_request :: "u32 \<Rightarrow> tcp_world \<Rightarrow> tcp_world" where
  "send_arp_request ip w =
     (let (r, w1) = get_net_buffer 42 w in
      case FreeRTOS_OutputARPRequest (net w1) (r \<noteq> None) ip of
        None \<Rightarrow> w1
      | Some q \<Rightarrow> w1\<lparr>arp_out := arp_out w1 @ [q]\<rparr>)"

definition zero_packet :: TCPPacket_t where
  "zero_packet =
     \<lparr>ethHeader = \<lparr>xDestinationAddress = zero_mac, xSourceAddress = zero_mac, usFrameType = 0\<rparr>,
      xIPHeader = \<lparr>ucVersionHeaderLength = 0, ucDifferentiatedServicesCode = 0, usLength = 0, usIdentification = 0,
        usFragmentOffset = 0, ucTimeToLive = 0, ucProtocol = 0, usHeaderChecksum = 0, ulSourceIPAddress = 0,
        ulDestinationIPAddress = 0\<rparr>,
      xTCPHeader = \<lparr>usSourcePort = 0, usDestinationPort = 0, pktSequenceNumber = 0, ulAckNr = 0, ucTcpOffset = 0,
        ucTcpFlags = 0, usWindow = 0, usTcpChecksum = 0, usUrgent = 0\<rparr>,
      ucOptdata = replicate 12 0\<rparr>"

definition connect_packet :: "net_params \<Rightarrow> mac \<Rightarrow> FreeRTOS_Socket_t \<Rightarrow> TCPPacket_t" where
  "connect_packet np m s =
     zero_packet\<lparr>
       ethHeader := (ethHeader zero_packet)\<lparr>xSourceAddress := m, usFrameType := 0x0008\<rparr>,
       xIPHeader := (xIPHeader zero_packet)\<lparr>ucVersionHeaderLength := 0x45, usLength := htons_wide (66 - 14),
         ucTimeToLive := ipconfigTCP_TIME_TO_LIVE, ucProtocol := FREERTOS_IPPROTO_TCP,
         ulDestinationIPAddress := ipLOCAL_IP_ADDRESS np, ulSourceIPAddress := FreeRTOS_htonl (ulRemoteIP s)\<rparr>,
       xTCPHeader := (xTCPHeader zero_packet)\<lparr>usSourcePort := FreeRTOS_htons (usRemotePort s),
         usDestinationPort := FreeRTOS_htons (usLocPort s), ucTcpOffset := 0x50, ucTcpFlags := ipTCP_FLAG_SYN\<rparr>\<rparr>"

definition prvTCPPrepareConnect :: "nat \<Rightarrow> tcp_world \<Rightarrow> bool \<times> tcp_world" where
  "prvTCPPrepareConnect i w =
     (case eARPGetCacheEntry (net w) (arp w) (FreeRTOS_htonl (ulRemoteIP (socks w i))) of
        (eARPCacheHit, _, m) \<Rightarrow>
          (let w1 = upd_sock i (\<lambda>s. s\<lparr>ucRepCount := 0, bits := (bits s)\<lparr>bConnPrepared := True\<rparr>,
                      lastPacket := connect_packet (net w) (case m of None \<Rightarrow> zero_mac | Some a \<Rightarrow> a) s,
                      xTcpWindow := (xTcpWindow s)\<lparr>rx := (rx (xTcpWindow s))\<lparr>ulCurrentSequenceNumber := 0\<rparr>,
                        ulOurSequenceNumber := ulNextInitialSequenceNumber w\<rparr>\<rparr>) w;
               w2 = prvSocketSetMSS i (w1\<lparr>ulNextInitialSequenceNumber := ulNextInitialSequenceNumber w1 + 0x102\<rparr>);
               w3 = upd_sock i (\<lambda>s. s\<lparr>ulRxCurWinSize := ucast (usInitMSS s)\<rparr>) w2
           in (True, prvTCPCreateWindow i w3))
      | (_, ip, _) \<Rightarrow>
          (False, send_arp_request ip (upd_sock i (\<lambda>s. s\<lparr>ucRepCount := ucRepCount s + 1\<rparr>) w)))"

definition prvTCPSendPacket :: "nat \<Rightarrow> tcp_world \<Rightarrow> (int \<times> tcp_world) option" where
  "prvTCPSendPacket i w =
     (if ucTcpState (socks w i) \<noteq> eCONNECT_SYN then
        (case prvTCPSendRepeated i None w of
           None \<Rightarrow> None
         | Some (lResult, buf, w1) \<Rightarrow>
             Some (lResult, case buf of None \<Rightarrow> w1 | Some b \<Rightarrow> release_net_buffer b w1))
      else if ucRepCount (socks w i) \<ge> 3 then Some (0, vTCPStateChange i eCLOSE_WAIT w)
      else
        (let (ready, w1) = (if bConnPrepared (bits (socks w i)) then (True, w) else prvTCPPrepareConnect i w) in
         if ready then
           (let (xOptionsLength, w2) = prvSetSynAckOptions i (LastPacket i) w1;
                n = ipSIZE_OF_IP_HEADER + ipSIZE_OF_TCP_HEADER + xOptionsLength;
                w3 = upd_tcp (LastPacket i) (\<lambda>h. h\<lparr>ucTcpOffset := tcp_offset xOptionsLength\<rparr>) w2;
                w4 = upd_sock i (\<lambda>s. s\<lparr>ucRepCount := ucRepCount s + 1\<rparr>) w3
            in Some (sint n, prvTCPReturnPacket (Some i) (LastPacket i) n w4))
         else Some (0, w1)))"

end
