(* ===== verification/Tcp_Sockets.thy ===== *)
theory Tcp_Sockets
  imports Tcp_Sock
begin

text \<open>
  The TCP side of \<open>FreeRTOS_Sockets.c\<close>: creating, binding and closing sockets, private port numbers,
  the lookup of the socket a segment is for, and the functions of the application's interface.
  \<open>xBoundTcpSocketsList\<close> is represented by its contents; the UDP list is not part of this model.
  Errors are the negated numbers of \<open>FreeRTOS_errno_TCP.h\<close>.
\<close>

section \<open>Private port numbers and binding\<close>

definition socketAUTO_PORT_ALLOCATION_START_NUMBER :: u16 where "socketAUTO_PORT_ALLOCATION_START_NUMBER = 0xc000"
definition socketAUTO_PORT_ALLOCATION_RESET_NUMBER :: u16 where "socketAUTO_PORT_ALLOCATION_RESET_NUMBER = 0xc100"
definition socketAUTO_PORT_ALLOCATION_MAX_NUMBER :: u16 where "socketAUTO_PORT_ALLOCATION_MAX_NUMBER = 0xff00"

text \<open>
  The code looks only when the IP task has been started and answers NULL before; here it has been, as
  only then there are sockets.
\<close>

definition pxListFindListItemWithValue :: "tcp_world \<Rightarrow> u32 \<Rightarrow> nat option" where
  "pxListFindListItemWithValue w v = find (\<lambda>i. boundItemValue (socks w i) = v) (xBoundTcpSocketsList w)"

text \<open>The loop of \<open>prvGetPrivatePortNumber\<close> runs until a port is free; \<open>None\<close> is that it never is.\<close>

definition next_private_port :: "u16 \<Rightarrow> u16" where
  "next_private_port n =
     (if n + 1 \<ge> socketAUTO_PORT_ALLOCATION_MAX_NUMBER then socketAUTO_PORT_ALLOCATION_RESET_NUMBER else n + 1)"

partial_function (option) private_port_loop :: "tcp_world \<Rightarrow> u16 \<Rightarrow> u16 option" where
  "private_port_loop w n =
     (let n1 = next_private_port n in
      if pxListFindListItemWithValue w (ucast (FreeRTOS_htons n1)) = None then Some n1
      else private_port_loop w n1)"

declare private_port_loop.simps [code]

definition prvGetPrivatePortNumber :: "tcp_world \<Rightarrow> (u16 \<times> tcp_world) option" where
  "prvGetPrivatePortNumber w =
     (case private_port_loop w (usNextPortToUse w) of
        None \<Rightarrow> None
      | Some n \<Rightarrow> Some (FreeRTOS_htons n, w\<lparr>usNextPortToUse := n\<rparr>))"

text \<open>\<open>vSocketBind\<close> for a TCP socket; \<open>sin_port\<close> is \<open>None\<close> for a null address.\<close>

definition vSocketBind :: "nat \<Rightarrow> u16 option \<Rightarrow> bool \<Rightarrow> tcp_world \<Rightarrow> (int \<times> tcp_world) option" where
  "vSocketBind i sin_port ulInternal w =
     (let port0 = (case sin_port of None \<Rightarrow> 0 | Some p \<Rightarrow> p) in
      case (if port0 = 0 then prvGetPrivatePortNumber w else Some (port0, w)) of
        None \<Rightarrow> None
      | Some (port, w1) \<Rightarrow>
          (if \<not> ulInternal \<and> pxListFindListItemWithValue w1 (ucast port) \<noteq> None then Some (-112, w1)
           else
             Some (0, (upd_sock i (\<lambda>s. s\<lparr>boundItemValue := ucast port, usLocPort := FreeRTOS_htons port\<rparr>) w1)
                        \<lparr>xBoundTcpSocketsList := xBoundTcpSocketsList w1 @ [i]\<rparr>)))"

section \<open>Creation and closure\<close>

definition zero_window :: TCPWindow_t where
  "zero_window =
     \<lparr>bHasInit = False, bSendFullSize = False, bTimeStamps = False, ulRxWindowLength = 0, ulTxWindowLength = 0,
      rx = \<lparr>ulFirstSequenceNumber = 0, ulCurrentSequenceNumber = 0, ulFINSequenceNumber = 0, ulHighestSequenceNumber = 0\<rparr>,
      tx = \<lparr>ulFirstSequenceNumber = 0, ulCurrentSequenceNumber = 0, ulFINSequenceNumber = 0, ulHighestSequenceNumber = 0\<rparr>,
      ulOurSequenceNumber = 0, ulUserDataLength = 0, ulNextTxSequenceNumber = 0, lSRTT = 0, ucOptionLength = 0,
      lists_initialised = False, xPriorityQueue = [], xTxQueue = [], xWaitQueue = [], pxHeadSegment = None,
      ulOptionsData = [0, 0, 0], xTxSegments = [], xRxSegments = [], usMSS = 0, usMSSInit = 0\<rparr>"

definition zero_bits :: tcp_bits where
  "zero_bits =
     \<lparr>bMssChange = False, bPassAccept = False, bPassQueued = False, bReuseSocket = False, bCloseAfterSend = False,
      bUserShutdown = False, bCloseRequested = False, bLowWater = False, bWinChange = False, bSendKeepAlive = False,
      bWaitKeepAlive = False, bConnPrepared = False, bConnPassed = False, bFinAccepted = False, bFinSent = False,
      bFinRecv = False, bFinAcked = False, bFinLast = False, bRxStopped = False, bMallocError = False\<rparr>"

definition FreeRTOS_round_up :: "u32 \<Rightarrow> u32 \<Rightarrow> u32" where
  "FreeRTOS_round_up a d = d * ((a + d - 1) div d)"

definition FreeRTOS_max_uint32 :: "u32 \<Rightarrow> u32 \<Rightarrow> u32" where
  "FreeRTOS_max_uint32 a b = (if a \<ge> b then a else b)"

definition fresh_socket :: FreeRTOS_Socket_t where
  "fresh_socket =
     \<lparr>xEventBits = 0, xEventGroup = Some 0, boundItemValue = 0, xReceiveBlockTime = 5000, xSendBlockTime = 5000,
      usLocPort = 0, ucSocketOptions = 2, sockProtocol = FREERTOS_IPPROTO_TCP, pxSocketSet = None, xSelectBits = 0,
      xSocketBits = 0, ulRemoteIP = 0, usRemotePort = 0, bits = zero_bits, ulHighestRxAllowed = 0, usTimeout = 0,
      usCurMSS = ucast ipconfigTCP_MSS, usInitMSS = ucast ipconfigTCP_MSS, usChildCount = 0, usBacklog = 0,
      ucRepCount = 0, ucTcpState = eCLOSED, pxPeerSocket = None, ucKeepRepCount = 0, xLastAliveTime = 0,
      xLastActTime = 0, uxLittleSpace = 0, uxEnoughSpace = 0, uxRxStreamSize = ipconfigTCP_RX_BUF_LEN,
      uxTxStreamSize = FreeRTOS_round_up ipconfigTCP_TX_BUF_LEN ipconfigTCP_MSS, rxStream = None, txStream = None,
      pxAckMessage = None, lastPacket = zero_packet, wnd = 0, ulRxCurWinSize = 0,
      uxRxWinSize = FreeRTOS_max_uint32 1 ((ipconfigTCP_RX_BUF_LEN div 2) div ipconfigTCP_MSS),
      uxTxWinSize = FreeRTOS_max_uint32 1
        ((FreeRTOS_round_up ipconfigTCP_TX_BUF_LEN ipconfigTCP_MSS div 2) div ipconfigTCP_MSS),
      xTcpWindow = zero_window\<rparr>"

text \<open>\<open>FreeRTOS_socket\<close> for a TCP socket: room for the socket, then for its event group.\<close>

definition FreeRTOS_socket :: "tcp_world \<Rightarrow> nat option \<times> tcp_world" where
  "FreeRTOS_socket w =
     (let (room, w1) = pvPortMallocLarge w in
      if \<not> room then (None, w1)
      else
        (let (group, w2) = pvPortMallocLarge w1 in
         if \<not> group then (None, w2)
         else (Some (next_sock w2), (upd_sock (next_sock w2) (\<lambda>_. fresh_socket) w2)\<lparr>next_sock := next_sock w2 + 1\<rparr>)))"

text \<open>The parent whose child-count a closed socket gives up.\<close>

definition prvTCPSetSocketCount :: "nat \<Rightarrow> tcp_world \<Rightarrow> tcp_world" where
  "prvTCPSetSocketCount i w =
     (case find (\<lambda>j. ucTcpState (socks w j) = eTCP_LISTEN \<and> usLocPort (socks w j) = usLocPort (socks w i) \<and>
                     usChildCount (socks w j) \<noteq> 0) (xBoundTcpSocketsList w) of
        None \<Rightarrow> w
      | Some j \<Rightarrow> upd_sock j (\<lambda>s. s\<lparr>usChildCount := usChildCount s - 1\<rparr>) w)"

definition vSocketClose :: "nat \<Rightarrow> tcp_world \<Rightarrow> tcp_world" where
  "vSocketClose i w =
     (let w1 = (case pxAckMessage (socks w i) of None \<Rightarrow> w | Some a \<Rightarrow> release_net_buffer a w);
          (g, win) = vTCPWindowDestroy (segs w1) (xTcpWindow (socks w1 i));
          w2 = (upd_win i (\<lambda>_. win) w1)\<lparr>segs := g\<rparr>;
          w3 = prvTCPSetSocketCount i (upd_sock i (\<lambda>s. s\<lparr>rxStream := None, txStream := None\<rparr>) w2);
          w4 = w3\<lparr>xBoundTcpSocketsList := remove1 i (xBoundTcpSocketsList w3)\<rparr>
      in upd_sock i (\<lambda>s. s\<lparr>xEventGroup := None\<rparr>) w4)"

section \<open>Finding the socket of a segment\<close>

text \<open>The loop remembers the last listening socket on the port until an exact match turns up.\<close>

primrec tcp_lookup :: "tcp_world \<Rightarrow> u16 \<Rightarrow> u32 \<Rightarrow> u16 \<Rightarrow> nat list \<Rightarrow> nat option \<Rightarrow> nat option" where
  "tcp_lookup w xLocalPort ip xRemotePort [] pxListenSocket = pxListenSocket"
| "tcp_lookup w xLocalPort ip xRemotePort (i # is) pxListenSocket =
     (if usLocPort (socks w i) = xLocalPort then
        (if ucTcpState (socks w i) = eTCP_LISTEN then tcp_lookup w xLocalPort ip xRemotePort is (Some i)
         else if usRemotePort (socks w i) = xRemotePort \<and> ulRemoteIP (socks w i) = ip then Some i
         else tcp_lookup w xLocalPort ip xRemotePort is pxListenSocket)
      else tcp_lookup w xLocalPort ip xRemotePort is pxListenSocket)"

definition pxTCPSocketLookup :: "tcp_world \<Rightarrow> u16 \<Rightarrow> u32 \<Rightarrow> u16 \<Rightarrow> nat option" where
  "pxTCPSocketLookup w xLocalPort ip xRemotePort =
     tcp_lookup w xLocalPort ip xRemotePort (xBoundTcpSocketsList w) None"

section \<open>The application's interface\<close>

text \<open>A \<open>Socket_t\<close> is \<open>None\<close> when it is NULL or \<open>FREERTOS_INVALID_SOCKET\<close>.\<close>

definition socketSOCKET_IS_BOUND :: "tcp_world \<Rightarrow> nat \<Rightarrow> bool" where
  "socketSOCKET_IS_BOUND w i \<longleftrightarrow> i \<in> set (xBoundTcpSocketsList w)"

definition prvValidSocket :: "tcp_world \<Rightarrow> nat option \<Rightarrow> u8 \<Rightarrow> bool \<Rightarrow> bool" where
  "prvValidSocket w pxSocket ucProt ucIsBound =
     (case pxSocket of
        None \<Rightarrow> False
      | Some i \<Rightarrow>
          (if ucIsBound \<and> \<not> socketSOCKET_IS_BOUND w i then False
           else if sockProtocol (socks w i) \<noteq> ucProt then False else True))"

definition FreeRTOS_issocketconnected :: "FreeRTOS_Socket_t \<Rightarrow> int" where
  "FreeRTOS_issocketconnected s =
     (if sockProtocol s \<noteq> FREERTOS_IPPROTO_TCP then -22
      else if ucTcpState s \<ge> eESTABLISHED \<and> ucTcpState s < eCLOSE_WAIT then 1 else 0)"

definition bMayConnect :: "FreeRTOS_Socket_t \<Rightarrow> int" where
  "bMayConnect s =
     (case ucTcpState s of
        eCLOSED \<Rightarrow> 0
      | eCLOSE_WAIT \<Rightarrow> 0
      | eCONNECT_SYN \<Rightarrow> -119
      | _ \<Rightarrow> -11)"

text \<open>
  \<open>prvTCPConnectStart\<close>; binding the socket is the work of the IP task and of the event it waits for:
  \<open>bind\<close> stands for \<open>FreeRTOS_bind( pxSocket, NULL, 0 )\<close>, in which the caller sleeps until the IP task has bound
  the socket with \<open>vSocketBind\<close>.
\<close>

definition prvTCPConnectStart ::
  "(nat \<Rightarrow> tcp_world \<Rightarrow> int \<times> tcp_world) \<Rightarrow> nat option \<Rightarrow> u32 \<Rightarrow> u16 \<Rightarrow> tcp_world \<Rightarrow> int \<times> tcp_world" where
  "prvTCPConnectStart bind pxSocket sin_addr sin_port w =
     (if \<not> prvValidSocket w pxSocket FREERTOS_IPPROTO_TCP False then (-9, w)
      else
        (case pxSocket of
           None \<Rightarrow> (-9, w)
         | Some i \<Rightarrow>
             (if FreeRTOS_issocketconnected (socks w i) > 0 then (-127, w)
              else
                (let (r0, w1) = (if socketSOCKET_IS_BOUND w i then (0, w) else bind i w);
                     r1 = (if r0 = 0 then bMayConnect (socks w1 i) else r0)
                 in
                 if r1 = 0 then
                   (let w2 = upd_sock i (\<lambda>s. s\<lparr>bits := (bits s)\<lparr>bConnPrepared := False\<rparr>, ucRepCount := 0,
                               usRemotePort := FreeRTOS_htons sin_port, ulRemoteIP := FreeRTOS_htonl sin_addr\<rparr>) w1;
                        w3 = upd_sock i (\<lambda>s. s\<lparr>usTimeout := 1\<rparr>) (vTCPStateChange i eCONNECT_SYN w2);
                        (sent, w4) = xSendEventToIPTask eTCPTimerEvent w3
                    in (if sent then 0 else -140, w4))
                 else (r1, w1)))))"

definition prvTCPSendCheck :: "nat option \<Rightarrow> u32 \<Rightarrow> tcp_world \<Rightarrow> int \<times> tcp_world" where
  "prvTCPSendCheck pxSocket xDataLength w =
     (if \<not> prvValidSocket w pxSocket FREERTOS_IPPROTO_TCP True then (-22, w)
      else
        (case pxSocket of
           None \<Rightarrow> (-22, w)
         | Some i \<Rightarrow>
             (if bMallocError (bits (socks w i)) then (-12, w)
              else if ucTcpState (socks w i) = eCLOSED then (-128, w)
              else if bFinSent (bits (socks w i)) then (0, w)
              else if xDataLength = 0 then (0, w)
              else if txStream (socks w i) = None then
                (let w1 = snd (prvTcpCreateStream i False w)
                 in (if txStream (socks w1 i) = None then -12 else 1, w1))
              else (1, w))))"

text \<open>
  \<open>FreeRTOS_send\<close>.  Each element of \<open>sleeps\<close> is what the rest of the system does during one call of
  \<open>xEventGroupWaitBits\<close>; when they are used up the time-out has been reached.  A socket with a block
  time of 0, or the flag \<open>FREERTOS_MSG_DONTWAIT\<close>, does not sleep.  \<open>in_ip_task\<close> is
  \<open>xIsCallingFromIPTask()\<close>.
\<close>

definition send_some :: "bool \<Rightarrow> nat \<Rightarrow> u8 list \<Rightarrow> tcp_world \<Rightarrow> nat \<times> tcp_world" where
  "send_some in_ip_task i data w =
     (case txStream (socks w i) of
        None \<Rightarrow> (0, w)
      | Some st \<Rightarrow>
          (let xByteCount = min (unat (uxStreamBufferGetSpace st)) (length data) in
           if xByteCount > 0 then
             (let w1 = (if bCloseAfterSend (bits (socks w i)) \<and> xByteCount = length data
                        then upd_bits i (\<lambda>f. f\<lparr>bCloseRequested := True\<rparr>) w else w);
                  (n, st1) = uxStreamBufferAdd st 0 (Some data) (of_nat xByteCount);
                  w2 = upd_sock i (\<lambda>s. s\<lparr>txStream := Some st1, usTimeout := 1\<rparr>) w1
              in (unat n, if in_ip_task then w2 else snd (xSendEventToIPTask eTCPTimerEvent w2)))
           else (0, w)))"

primrec send_loop ::
  "(tcp_world \<Rightarrow> tcp_world) list \<Rightarrow> bool \<Rightarrow> nat \<Rightarrow> u8 list \<Rightarrow> tcp_world \<Rightarrow> u8 list \<times> tcp_world" where
  "send_loop [] in_ip_task i data w =
     (let (n, w1) = send_some in_ip_task i data w in (drop n data, w1))"
| "send_loop (sleep # sleeps) in_ip_task i data w =
     (let (n, w1) = send_some in_ip_task i data w in
      if drop n data = [] then ([], w1) else send_loop sleeps in_ip_task i (drop n data) (sleep w1))"

definition FreeRTOS_send ::
  "(tcp_world \<Rightarrow> tcp_world) list \<Rightarrow> bool \<Rightarrow> nat option \<Rightarrow> u8 list \<Rightarrow> u32 \<Rightarrow> tcp_world \<Rightarrow> int \<times> tcp_world" where
  "FreeRTOS_send sleeps in_ip_task pxSocket pvBuffer xFlags w =
     (let (r, w1) = prvTCPSendCheck pxSocket (of_nat (length pvBuffer)) w in
      if r > 0 then
        (case pxSocket of
           None \<Rightarrow> (r, w1)
         | Some i \<Rightarrow>
             (let may_sleep = (xSendBlockTime (socks w1 i) \<noteq> 0 \<and> xFlags AND 16 = 0);
                  (left, w2) = send_loop (if may_sleep then sleeps else []) in_ip_task i pvBuffer w1;
                  n = length pvBuffer - length left
              in (if n = 0 then (if ucTcpState (socks w2 i) > eESTABLISHED then -128 else -28) else int n, w2)))
      else (r, w1))"

text \<open>
  The part of \<open>FreeRTOS_recv\<close> after its waiting loop, for the flags that copy (no
  \<open>FREERTOS_ZERO_COPY\<close>): the bytes read and the flow control they allow.
\<close>

definition recv_data :: "nat \<Rightarrow> u32 \<Rightarrow> bool \<Rightarrow> tcp_world \<Rightarrow> u8 list \<times> tcp_world" where
  "recv_data i xBufferLength peek w =
     (case rxStream (socks w i) of
        None \<Rightarrow> ([], w)
      | Some st \<Rightarrow>
          (let (n, out, st1) = uxStreamBufferGet st 0 True xBufferLength peek;
               w1 = upd_sock i (\<lambda>s. s\<lparr>rxStream := Some st1\<rparr>) w
           in (out,
               if bLowWater (bits (socks w1 i)) \<and> uxStreamBufferFrontSpace st1 \<ge> uxEnoughSpace (socks w1 i)
               then snd (xSendEventToIPTask eTCPTimerEvent
                      (upd_sock i (\<lambda>s. s\<lparr>bits := (bits s)\<lparr>bLowWater := False, bWinChange := True\<rparr>,
                                         usTimeout := 1\<rparr>) w1))
               else w1)))"

definition FreeRTOS_listen :: "nat option \<Rightarrow> int \<Rightarrow> tcp_world \<Rightarrow> int \<times> tcp_world" where
  "FreeRTOS_listen pxSocket xBacklog w =
     (if \<not> prvValidSocket w pxSocket FREERTOS_IPPROTO_TCP True then (-95, w)
      else
        (case pxSocket of
           None \<Rightarrow> (-95, w)
         | Some i \<Rightarrow>
             (if ucTcpState (socks w i) \<noteq> eCLOSED \<and> ucTcpState (socks w i) \<noteq> eCLOSE_WAIT then (-95, w)
              else
                (let w1 = upd_sock i (\<lambda>s. s\<lparr>usBacklog := word_of_int (FreeRTOS_min_int32 0xffff xBacklog)\<rparr>) w;
                     w2 =
                       (if bReuseSocket (bits (socks w1 i)) then
                          upd_sock i (\<lambda>s. s\<lparr>rxStream := map_option vStreamBufferClear (rxStream s),
                            txStream := map_option vStreamBufferClear (txStream s), lastPacket := zero_packet,
                            xTcpWindow := zero_window, bits := zero_bits\<lparr>bReuseSocket := True\<rparr>\<rparr>) w1
                        else w1)
                 in (0, vTCPStateChange i eTCP_LISTEN w2)))))"

definition FreeRTOS_shutdown :: "nat option \<Rightarrow> tcp_world \<Rightarrow> int \<times> tcp_world" where
  "FreeRTOS_shutdown pxSocket w =
     (if \<not> prvValidSocket w pxSocket FREERTOS_IPPROTO_TCP True then (-95, w)
      else
        (case pxSocket of
           None \<Rightarrow> (-95, w)
         | Some i \<Rightarrow>
             (if ucTcpState (socks w i) \<noteq> eESTABLISHED then (-95, w)
              else
                (0, snd (xSendEventToIPTask eTCPTimerEvent
                       (upd_sock i (\<lambda>s. s\<lparr>bits := (bits s)\<lparr>bUserShutdown := True\<rparr>, usTimeout := 1\<rparr>) w))))))"

text \<open>
  One look of \<open>FreeRTOS_accept\<close> at the listening socket, and the question to the IP task that goes
  with it.
\<close>

definition accept_look :: "nat \<Rightarrow> tcp_world \<Rightarrow> nat option \<times> tcp_world" where
  "accept_look i w =
     (case (if bReuseSocket (bits (socks w i)) then Some i else pxPeerSocket (socks w i)) of
        None \<Rightarrow> (None, w)
      | Some c \<Rightarrow>
          (let w1 = upd_sock i (\<lambda>s. s\<lparr>pxPeerSocket := None\<rparr>) w in
           if bPassAccept (bits (socks w1 c)) then
             (let w2 = upd_bits c (\<lambda>f. f\<lparr>bPassAccept := False\<rparr>) w1
              in (Some c, if bReuseSocket (bits (socks w2 i)) then w2
                          else snd (xSendEventStructToIPTask eTCPAcceptEvent (Some i) w2)))
           else (None, w1)))"

text \<open>The questions an application may ask.\<close>

definition of_tcp :: "FreeRTOS_Socket_t \<Rightarrow> int \<Rightarrow> int" where
  "of_tcp s r = (if sockProtocol s \<noteq> FREERTOS_IPPROTO_TCP then -22 else r)"

definition FreeRTOS_outstanding :: "FreeRTOS_Socket_t \<Rightarrow> int" where
  "FreeRTOS_outstanding s =
     of_tcp s (case txStream s of None \<Rightarrow> 0 | Some st \<Rightarrow> sint (uxStreamBufferGetSize st))"

definition FreeRTOS_recvcount :: "FreeRTOS_Socket_t \<Rightarrow> int" where
  "FreeRTOS_recvcount s =
     of_tcp s (case rxStream s of None \<Rightarrow> 0 | Some st \<Rightarrow> sint (uxStreamBufferGetSize st))"

definition FreeRTOS_maywrite :: "FreeRTOS_Socket_t \<Rightarrow> int" where
  "FreeRTOS_maywrite s =
     of_tcp s
       (if ucTcpState s \<noteq> eESTABLISHED then
          (if ucTcpState s < eCONNECT_SYN \<or> ucTcpState s > eESTABLISHED then -1 else 0)
        else (case txStream s of None \<Rightarrow> sint (uxTxStreamSize s) | Some st \<Rightarrow> sint (uxStreamBufferGetSpace st)))"

definition FreeRTOS_tx_space :: "FreeRTOS_Socket_t \<Rightarrow> int" where
  "FreeRTOS_tx_space s =
     of_tcp s (case txStream s of Some st \<Rightarrow> sint (uxStreamBufferGetSpace st) | None \<Rightarrow> sint (uxTxStreamSize s))"

definition FreeRTOS_tx_size :: "FreeRTOS_Socket_t \<Rightarrow> int" where
  "FreeRTOS_tx_size s =
     of_tcp s (case txStream s of Some st \<Rightarrow> sint (uxStreamBufferGetSize st) | None \<Rightarrow> 0)"

definition FreeRTOS_rx_size :: "FreeRTOS_Socket_t \<Rightarrow> int" where
  "FreeRTOS_rx_size s =
     of_tcp s (case rxStream s of Some st \<Rightarrow> sint (uxStreamBufferGetSize st) | None \<Rightarrow> 0)"

definition FreeRTOS_mss :: "FreeRTOS_Socket_t \<Rightarrow> int" where
  "FreeRTOS_mss s = of_tcp s (uint (usCurMSS s))"

definition FreeRTOS_connstatus :: "FreeRTOS_Socket_t \<Rightarrow> int" where
  "FreeRTOS_connstatus s = of_tcp s (int (state_number (ucTcpState s)))"

text \<open>The result, \<open>sin_addr\<close> and \<open>sin_port\<close>; the structure has 8 bytes.\<close>

definition FreeRTOS_GetRemoteAddress :: "FreeRTOS_Socket_t \<Rightarrow> int \<times> (u32 \<times> u16) option" where
  "FreeRTOS_GetRemoteAddress s =
     (if sockProtocol s \<noteq> FREERTOS_IPPROTO_TCP then (-22, None)
      else (8, Some (FreeRTOS_htonl (ulRemoteIP s), FreeRTOS_htons (usRemotePort s))))"

text \<open>\<open>FreeRTOS_get_tx_head\<close>: the index in \<open>ucArray\<close>, and \<open>*pxLength\<close>.\<close>

definition FreeRTOS_get_tx_head :: "FreeRTOS_Socket_t \<Rightarrow> u32 option \<times> int" where
  "FreeRTOS_get_tx_head s =
     (case txStream s of
        None \<Rightarrow> (None, 0)
      | Some st \<Rightarrow>
          (Some (uxHead st), FreeRTOS_min_int32 (sint (uxStreamBufferGetSpace st)) (sint (bufLENGTH st - uxHead st))))"

section \<open>Options of a socket\<close>

text \<open>
  \<open>FreeRTOS_setsockopt\<close> by option; the limit on the packets of a UDP socket and the call-backs are
  left out.  The answer is 0, \<open>-EINVAL\<close> or \<open>-ENOPROTOOPT\<close>.
\<close>

datatype sockopt =
    SO_RCVTIMEO u32 | SO_SNDTIMEO u32 | SO_UDPCKSUM_OUT bool | SO_SNDBUF u32 | SO_RCVBUF u32
  | SO_WIN_PROPERTIES u32 u32 u32 u32
  | SO_REUSE_LISTEN_SOCKET bool | SO_CLOSE_AFTER_SEND bool | SO_SET_FULL_SIZE bool | SO_STOP_RX bool | SO_OTHER

definition set_sndbuf :: "u32 \<Rightarrow> FreeRTOS_Socket_t \<Rightarrow> int \<times> FreeRTOS_Socket_t" where
  "set_sndbuf ulNewValue s =
     (if sockProtocol s \<noteq> FREERTOS_IPPROTO_TCP \<or> txStream s \<noteq> None then (-22, s)
      else (0, s\<lparr>uxTxStreamSize := FreeRTOS_round_up ulNewValue (ucast (usInitMSS s))\<rparr>))"

definition set_rcvbuf :: "u32 \<Rightarrow> FreeRTOS_Socket_t \<Rightarrow> int \<times> FreeRTOS_Socket_t" where
  "set_rcvbuf ulNewValue s =
     (if sockProtocol s \<noteq> FREERTOS_IPPROTO_TCP \<or> rxStream s \<noteq> None then (-22, s)
      else (0, s\<lparr>uxRxStreamSize := ulNewValue\<rparr>))"

definition set_win_properties :: "u32 \<Rightarrow> u32 \<Rightarrow> u32 \<Rightarrow> u32 \<Rightarrow> FreeRTOS_Socket_t \<Rightarrow> int \<times> FreeRTOS_Socket_t" where
  "set_win_properties lTxBufSize lTxWinSize lRxBufSize lRxWinSize s =
     (if sockProtocol s \<noteq> FREERTOS_IPPROTO_TCP \<or> txStream s \<noteq> None \<or> rxStream s \<noteq> None then (-22, s)
      else
        (let s1 = snd (set_rcvbuf lRxBufSize (snd (set_sndbuf lTxBufSize s)));
             s2 = s1\<lparr>uxRxWinSize := lRxWinSize, uxTxWinSize := lTxWinSize\<rparr>;
             s3 =
               (if bHasInit (xTcpWindow s2) then
                  (let s4 = s2\<lparr>xTcpWindow := (xTcpWindow s2)\<lparr>ulRxWindowLength := uxRxWinSize s2 * ucast (usInitMSS s2)\<rparr>\<rparr>
                   in s4\<lparr>xTcpWindow := (xTcpWindow s4)\<lparr>ulRxWindowLength := uxTxWinSize s4 * ucast (usInitMSS s4)\<rparr>\<rparr>)
                else s2)
         in (0, s3)))"

definition FreeRTOS_setsockopt :: "nat \<Rightarrow> sockopt \<Rightarrow> tcp_world \<Rightarrow> int \<times> tcp_world" where
  "FreeRTOS_setsockopt i opt w =
     (let s = socks w i; tcp = (sockProtocol s = FREERTOS_IPPROTO_TCP) in
      case opt of
        SO_RCVTIMEO t \<Rightarrow> (0, upd_sock i (\<lambda>s. s\<lparr>xReceiveBlockTime := t\<rparr>) w)
      | SO_SNDTIMEO t \<Rightarrow>
          (0, upd_sock i (\<lambda>s. s\<lparr>xSendBlockTime :=
                (if sockProtocol s = FREERTOS_IPPROTO_UDP \<and> t > 5000 then 5000 else t)\<rparr>) w)
      | SO_UDPCKSUM_OUT v \<Rightarrow>
          (0, upd_sock i (\<lambda>s. s\<lparr>ucSocketOptions :=
                (if v then ucSocketOptions s OR 2 else ucSocketOptions s AND NOT 2)\<rparr>) w)
      | SO_SNDBUF v \<Rightarrow> (fst (set_sndbuf v s), upd_sock i (\<lambda>s. snd (set_sndbuf v s)) w)
      | SO_RCVBUF v \<Rightarrow> (fst (set_rcvbuf v s), upd_sock i (\<lambda>s. snd (set_rcvbuf v s)) w)
      | SO_WIN_PROPERTIES txb txw rxb rxw \<Rightarrow>
          (fst (set_win_properties txb txw rxb rxw s), upd_sock i (\<lambda>s. snd (set_win_properties txb txw rxb rxw s)) w)
      | SO_REUSE_LISTEN_SOCKET v \<Rightarrow> if tcp then (0, upd_bits i (\<lambda>f. f\<lparr>bReuseSocket := v\<rparr>) w) else (-22, w)
      | SO_CLOSE_AFTER_SEND v \<Rightarrow> if tcp then (0, upd_bits i (\<lambda>f. f\<lparr>bCloseAfterSend := v\<rparr>) w) else (-22, w)
      | SO_SET_FULL_SIZE v \<Rightarrow>
          if tcp then
            (let w1 = upd_win i (\<lambda>x. x\<lparr>bSendFullSize := v\<rparr>) w in
             (0, if \<not> v \<and> ucTcpState (socks w1 i) \<ge> eESTABLISHED \<and> FreeRTOS_outstanding (socks w1 i) \<noteq> 0
                 then snd (xSendEventToIPTask eTCPTimerEvent (upd_sock i (\<lambda>s. s\<lparr>usTimeout := 1\<rparr>) w1)) else w1))
          else (-22, w)
      | SO_STOP_RX v \<Rightarrow>
          if tcp then
            (0, snd (xSendEventToIPTask eTCPTimerEvent
                   (upd_sock i (\<lambda>s. s\<lparr>bits := (bits s)\<lparr>bRxStopped := v, bWinChange := True\<rparr>, usTimeout := 1\<rparr>) w)))
          else (-22, w)
      | SO_OTHER \<Rightarrow> (-109, w))"

text \<open>
  \<open>FREERTOS_SO_WIN_PROPERTIES\<close> on an initialised window writes the receive window twice: it ends up
  with the size meant for the transmit window, which keeps its old one.
\<close>

lemma win_properties_writes_rx_twice:
  assumes "sockProtocol s = FREERTOS_IPPROTO_TCP" "txStream s = None" "rxStream s = None" "bHasInit (xTcpWindow s)"
  shows "ulRxWindowLength (xTcpWindow (snd (set_win_properties txb txw rxb rxw s))) = txw * ucast (usInitMSS s)"
    "ulTxWindowLength (xTcpWindow (snd (set_win_properties txb txw rxb rxw s))) = ulTxWindowLength (xTcpWindow s)"
  using assms by (simp_all add: set_win_properties_def set_sndbuf_def set_rcvbuf_def Let_def)

section \<open>Private ports are found\<close>

text \<open>\<open>port_free w n\<close>: no bound socket has the port \<open>n\<close>.\<close>

definition port_free :: "tcp_world \<Rightarrow> u16 \<Rightarrow> bool" where
  "port_free w n \<longleftrightarrow> (\<forall>i\<in>set (xBoundTcpSocketsList w). boundItemValue (socks w i) \<noteq> ucast (FreeRTOS_htons n))"

lemma find_port: "pxListFindListItemWithValue w (ucast (FreeRTOS_htons n)) = None \<longleftrightarrow> port_free w n"
  by (auto simp: pxListFindListItemWithValue_def port_free_def find_None_iff)

lemma next_port:
  assumes "unat n < 0xff00"
  shows "unat (next_private_port n) = (if unat n + 1 < 0xff00 then unat n + 1 else 0xc100)"
proof -
  have "unat (n + 1) = unat n + 1" using assms by (subst unat_add_small) simp_all
  then show ?thesis
    by (simp add: next_private_port_def socketAUTO_PORT_ALLOCATION_MAX_NUMBER_def
        socketAUTO_PORT_ALLOCATION_RESET_NUMBER_def word_le_nat_alt)
qed

text \<open>How many steps the loop is away from the port \<open>p\<close>.\<close>

definition port_distance :: "nat \<Rightarrow> nat \<Rightarrow> nat" where
  "port_distance p n = (if n < p then p - n else (0xff00 - n) + (p - 0xc100))"

lemma private_port_found:
  assumes "unat n < 0xff00" "port_free w p" "0xc100 \<le> unat p" "unat p < 0xff00"
  shows "\<exists>m. private_port_loop w n = Some m"
  using assms(1)
proof (induction "port_distance (unat p) (unat n)" arbitrary: n rule: less_induct)
  case less
  note nx = next_port [OF less.prems]
  show ?case
  proof (cases "port_free w (next_private_port n)")
    case True
    then show ?thesis by (subst private_port_loop.simps) (simp add: find_port Let_def)
  next
    case False
    then have "unat (next_private_port n) \<noteq> unat p" using assms(2) by (metis unsigned_word_eqI)
    then have "port_distance (unat p) (unat (next_private_port n)) < port_distance (unat p) (unat n)"
      using nx less.prems assms(3,4) by (auto simp: port_distance_def)
    moreover have "unat (next_private_port n) < 0xff00" using nx by simp
    ultimately obtain m where "private_port_loop w (next_private_port n) = Some m" using less.hyps by blast
    then show ?thesis using False by (subst private_port_loop.simps) (simp add: find_port Let_def)
  qed
qed

lemma private_port_result:
  assumes "private_port_loop w n = Some m" "0xc000 \<le> unat n" "unat n < 0xff00"
  shows "port_free w m \<and> 0xc000 \<le> unat m \<and> unat m < 0xff00"
  using assms
proof (induction w n m rule: private_port_loop.raw_induct [rotated 1, consumes 1, case_names step])
  case (step loop w n m)
  have nx: "0xc000 \<le> unat (next_private_port n)" "unat (next_private_port n) < 0xff00"
    using next_port [of n] step.prems by simp_all
  show ?case
  proof (cases "port_free w (next_private_port n)")
    case True
    then show ?thesis using step.hyps nx by (simp add: find_port Let_def)
  next
    case False
    then have "loop w (next_private_port n) = Some m" using step.hyps by (simp add: find_port Let_def)
    then show ?thesis using step.IH nx by blast
  qed
qed

text \<open>
  Claim C33. Asking for a private port number ends and yields a port of the private range that no
  bound socket uses, as long as one of those the search comes back to is free; when none is free,
  it never ends.
\<close>

theorem private_port_terminates:
  assumes "0xc000 \<le> unat (usNextPortToUse w)" and "unat (usNextPortToUse w) < 0xff00"
  shows "((\<exists>p. port_free w p \<and> 0xc100 \<le> unat p \<and> unat p < 0xff00) \<longrightarrow>
      (\<exists>m. prvGetPrivatePortNumber w = Some (FreeRTOS_htons m, w\<lparr>usNextPortToUse := m\<rparr>) \<and> port_free w m \<and>
         0xc000 \<le> unat m \<and> unat m < 0xff00)) \<and>
    ((\<forall>p. 0xc000 \<le> unat p \<and> unat p < 0xff00 \<longrightarrow> \<not> port_free w p) \<longrightarrow> prvGetPrivatePortNumber w = None)"
proof (intro conjI impI)
  assume "\<exists>p. port_free w p \<and> 0xc100 \<le> unat p \<and> unat p < 0xff00"
  then obtain m where m: "private_port_loop w (usNextPortToUse w) = Some m"
    using private_port_found [OF assms(2)] by blast
  show "\<exists>m. prvGetPrivatePortNumber w = Some (FreeRTOS_htons m, w\<lparr>usNextPortToUse := m\<rparr>) \<and> port_free w m \<and>
      0xc000 \<le> unat m \<and> unat m < 0xff00"
    using private_port_result [OF m assms] m by (intro exI [of _ m]) (simp add: prvGetPrivatePortNumber_def)
next
  assume none: "\<forall>p. 0xc000 \<le> unat p \<and> unat p < 0xff00 \<longrightarrow> \<not> port_free w p"
  show "prvGetPrivatePortNumber w = None"
  proof (cases "private_port_loop w (usNextPortToUse w)")
    case None
    then show ?thesis by (simp add: prvGetPrivatePortNumber_def)
  next
    case (Some m)
    then show ?thesis using private_port_result [OF Some assms] none by blast
  qed
qed

definition demo_net :: net_params where
  "demo_net = \<lparr>ipLOCAL_IP_ADDRESS = 0x0a01a8c0, ipLOCAL_MAC_ADDRESS = [2, 0, 0, 0, 0, 1], ulNetMask = 0x00ffffff,
     ulGatewayAddress = 0x0101a8c0, ulDNSServerAddress = 0x0101a8c0, ulBroadcastAddress = 0xff01a8c0\<rparr>"

definition demo_world :: tcp_world where
  "demo_world =
     \<lparr>socks = (\<lambda>i. if i = 0 then fresh_socket\<lparr>boundItemValue := 0x0700, usLocPort := 7, ucTcpState := eTCP_LISTEN, usBacklog := 2\<rparr>
                   else fresh_socket),
      next_sock = 1, xBoundTcpSocketsList = [0],
      segs = \<lparr>seg_allocated = False, seg_array = (\<lambda>_. null_segment), xSegmentList = []\<rparr>,
      net_bufs = (\<lambda>_. \<lparr>xPacket = zero_packet, bufDataLength = 66\<rparr>), free_bufs = [1, 2, 3],
      heap_room = (\<lambda>_. True), heap_asked = 0, junk = (\<lambda>_. 0), rx_pending = (\<lambda>_. False), rx_looked = 0,
      xTickCount = 100, tcpLastTime = 0, ulNextInitialSequenceNumber = 500, usPacketIdentifier = 0,
      usNextPortToUse = 0xfeff, net = demo_net, arp = \<lparr>xARPCache = [], xLastGratuitousARPTime = 0\<rparr>,
      net_out = [], arp_out = [], xNetworkEventQueue = [], xTCPTimer_bExpired = False, xSelectGroups = (\<lambda>_. 0)\<rparr>"

lemma demo_port_free: "port_free demo_world 0xc100"
  by (simp add: demo_world_def port_free_def fresh_socket_def FreeRTOS_htons_def htons_wide_def)

theorem private_port_terminates_witness:
  "\<exists>m. prvGetPrivatePortNumber demo_world = Some (FreeRTOS_htons m, demo_world\<lparr>usNextPortToUse := m\<rparr>) \<and> port_free demo_world m"
proof -
  have "0xc000 \<le> unat (usNextPortToUse demo_world)" "unat (usNextPortToUse demo_world) < 0xff00"
    by (simp_all add: demo_world_def)
  note pt = private_port_terminates [OF this]
  have "\<exists>p. port_free demo_world p \<and> 0xc100 \<le> unat p \<and> unat p < 0xff00"
    by (rule exI [of _ "0xc100"]) (simp add: demo_port_free)
  then show ?thesis using pt by blast
qed

end
