(* ===== verification/Tcp_Ip.thy ===== *)
theory Tcp_Ip
  imports Tcp_Sockets
begin

text \<open>
  The handling of received segments and of timer events: the option parser, the state machine
  \<open>prvTCPHandleState\<close> with its parts, listening sockets and their children, and the entry points
  \<open>xProcessReceivedTCPPacket\<close>, \<open>xTCPSocketCheck\<close> and \<open>xTCPTimerCheck\<close>.
\<close>

section \<open>Options of a received segment\<close>

text \<open>\<open>usChar2u16\<close> and \<open>ulChar2u32\<close>; a byte outside the buffer is \<open>None\<close>.\<close>

definition byte_at :: "u8 list \<Rightarrow> nat \<Rightarrow> u8 option" where
  "byte_at d p = (if p < length d then Some (d ! p) else None)"

definition usChar2u16 :: "u8 list \<Rightarrow> nat \<Rightarrow> u16 option" where
  "usChar2u16 d p =
     (case (byte_at d p, byte_at d (p + 1)) of
        (Some a, Some b) \<Rightarrow> Some (push_bit 8 (ucast a) OR ucast b)
      | _ \<Rightarrow> None)"

definition ulChar2u32 :: "u8 list \<Rightarrow> nat \<Rightarrow> u32 option" where
  "ulChar2u32 d p =
     (case (usChar2u16 d p, usChar2u16 d (p + 2)) of
        (Some a, Some b) \<Rightarrow> Some (push_bit 16 (ucast a) OR ucast b)
      | _ \<Rightarrow> None)"

text \<open>The peer's MSS is smaller than ours: adapt it.  A value of 0 is a division by zero.\<close>

definition adapt_mss :: "u16 \<Rightarrow> FreeRTOS_Socket_t \<Rightarrow> FreeRTOS_Socket_t option" where
  "adapt_mss xNewMSS s =
     (if usInitMSS s > xNewMSS then
        (if xNewMSS = 0 then None
         else
           Some (s\<lparr>bits := (bits s)\<lparr>bMssChange := True\<rparr>,
             xTcpWindow := (xTcpWindow s)\<lparr>
               ulRxWindowLength := ucast xNewMSS * (ulRxWindowLength (xTcpWindow s) div ucast xNewMSS),
               usMSSInit := xNewMSS, usMSS := xNewMSS\<rparr>,
             usInitMSS := xNewMSS, usCurMSS := xNewMSS\<rparr>))
      else Some s)"

text \<open>One block of a selective acknowledgement, and the loop over the blocks of the option.\<close>

definition sack_block :: "nat \<Rightarrow> u32 \<Rightarrow> u32 \<Rightarrow> tcp_world \<Rightarrow> tcp_world" where
  "sack_block i ulFirst ulLast w =
     (let (ulCount, g, win) = ulTCPWindowTxSack (xTickCount w) ulFirst ulLast (segs w) (xTcpWindow (socks w i));
          w1 = (upd_win i (\<lambda>_. win) w)\<lparr>segs := g\<rparr>
      in case txStream (socks w1 i) of
           None \<Rightarrow> w1
         | Some b \<Rightarrow>
             (if ulCount > 0 then
                (let (_, _, b1) = uxStreamBufferGet b 0 False ulCount False
                 in upd_sock i (\<lambda>s. raise_event eSOCKET_SEND eSELECT_WRITE (s\<lparr>txStream := Some b1\<rparr>)) w1)
              else w1))"

function sack_loop :: "nat \<Rightarrow> u8 list \<Rightarrow> nat \<Rightarrow> int \<Rightarrow> tcp_world \<Rightarrow> (nat \<times> int \<times> tcp_world) option" where
  "sack_loop i d p n w =
     (if n \<ge> 8 then
        (case (ulChar2u32 d p, ulChar2u32 d (p + 4)) of
           (Some ulFirst, Some ulLast) \<Rightarrow> sack_loop i d (p + 8) (n - 8) (sack_block i ulFirst ulLast w)
         | _ \<Rightarrow> None)
      else Some (p, n, w))"
  by pat_completeness auto

termination
  by (relation "measure (\<lambda>(i, d, p, n, w). nat n)") auto

declare sack_loop.simps [simp del]

lemma sack_loop_end: "sack_loop i d p n w = Some (p', n', w') \<Longrightarrow> int p' + n' = int p + n \<and> (0 \<le> n \<longrightarrow> 0 \<le> n')"
proof (induction i d p n w rule: sack_loop.induct)
  case (1 i d p n w)
  show ?case
  proof (cases "n \<ge> 8")
    case True
    then obtain f l where "ulChar2u32 d p = Some f" "ulChar2u32 d (p + 4) = Some l"
      "sack_loop i d (p + 8) (n - 8) (sack_block i f l w) = Some (p', n', w')"
      using "1.prems" by (subst (asm) sack_loop.simps) (auto split: option.splits)
    then show ?thesis using "1.IH" [OF True refl] True by auto
  next
    case False
    then show ?thesis using "1.prems" by (subst (asm) sack_loop.simps) auto
  qed
qed

lemma uint_pos: "x \<noteq> 0 \<Longrightarrow> 0 < uint (x :: u8)"
  using uint_ge_0 [of x] uint_0_iff [of x] by linarith

text \<open>
  \<open>prvCheckOptions\<close>: \<open>p\<close> is \<open>pucPtr\<close>, \<open>pucLast\<close> the end of the options, as offsets in \<open>ucOptdata\<close>.
\<close>

function check_options_loop :: "nat \<Rightarrow> u8 list \<Rightarrow> nat \<Rightarrow> nat \<Rightarrow> tcp_world \<Rightarrow> tcp_world option" where
  "check_options_loop i d p pucLast w =
     (if p < pucLast then
        (case byte_at d p of
           None \<Rightarrow> None
         | Some c0 \<Rightarrow>
             (if c0 = TCP_OPT_END then Some w
              else if c0 = TCP_OPT_NOOP then check_options_loop i d (p + 1) pucLast w
              else
                (case byte_at d (p + 1) of
                   None \<Rightarrow> None
                 | Some c1 \<Rightarrow>
                     (if c0 = TCP_OPT_MSS \<and> c1 = TCP_OPT_MSS_LEN then
                        (case usChar2u16 d (p + 2) of
                           None \<Rightarrow> None
                         | Some xNewMSS \<Rightarrow>
                             (case adapt_mss xNewMSS (socks w i) of
                                None \<Rightarrow> None
                              | Some s \<Rightarrow> check_options_loop i d (p + 4) pucLast (upd_sock i (\<lambda>_. s) w)))
                      else if c1 = 0 then Some w
                      else if c0 = TCP_OPT_SACK_A then
                        (case sack_loop i d (p + 2) (int (unat c1) - 2) w of
                           None \<Rightarrow> None
                         | Some (p1, n, w1) \<Rightarrow>
                             check_options_loop i d (nat (int p1 + n)) pucLast w1)
                      else check_options_loop i d (p + unat c1) pucLast w))))
      else Some w)"
  by pat_completeness auto

termination
  by (relation "measure (\<lambda>(i, d, p, pucLast, w). pucLast - p)")
    (auto simp: unat_gt_0 zless_nat_conj zless_nat_eq_int_zless uint_pos dest!: sack_loop_end intro!: diff_less_mono2)

declare check_options_loop.simps [simp del]

definition prvCheckOptions :: "nat \<Rightarrow> nat \<Rightarrow> tcp_world \<Rightarrow> tcp_world option" where
  "prvCheckOptions i b w =
     (let q = xPacket (net_bufs w b);
          pucLast = push_bit 2 (drop_bit 4 (uint (ucTcpOffset (xTCPHeader q))) - 5)
      in check_options_loop i (ucOptdata q) 0 (nat pucLast) w)"

section \<open>The payload\<close>

text \<open>\<open>prvCheckRxData\<close>: the number of bytes received and the bytes from \<open>*ppucRecvData\<close> on.\<close>

definition prvCheckRxData :: "nat \<Rightarrow> tcp_world \<Rightarrow> u32 \<times> u8 list" where
  "prvCheckRxData b w =
     (let q = xPacket (net_bufs w b);
          h = xTCPHeader q;
          lTCPHeaderLength = drop_bit 2 (uint (ucTcpOffset h AND 0xf0));
          data = drop (nat lTCPHeaderLength) (tcp_header_bytes h @ ucOptdata q);
          lReceiveLength0 = sint (bufDataLength (net_bufs w b)) - sint ipSIZE_OF_ETH_HEADER;
          lLength = uint (FreeRTOS_htons (usLength (xIPHeader q)));
          lReceiveLength1 = (if lReceiveLength0 > lLength then lLength else lReceiveLength0);
          lReceiveLength2 =
            (if lReceiveLength1 > lTCPHeaderLength + sint ipSIZE_OF_IP_HEADER
             then lReceiveLength1 - (lTCPHeaderLength + sint ipSIZE_OF_IP_HEADER) else 0)
      in if ucTcpFlags h AND ipTCP_FLAG_URG \<noteq> 0 then
           (let lUrgentLength = uint (FreeRTOS_htons (usUrgent h))
            in (word_of_int (lReceiveLength2 - FreeRTOS_min_int32 lReceiveLength2 lUrgentLength),
                drop (nat lUrgentLength) data))
         else (word_of_int lReceiveLength2, data))"

definition prvStoreRxData :: "nat \<Rightarrow> u8 list \<Rightarrow> nat \<Rightarrow> u32 \<Rightarrow> tcp_world \<Rightarrow> (int \<times> tcp_world) option" where
  "prvStoreRxData i pucRecvData b ulReceiveLength w =
     (let ulSeqNr = FreeRTOS_htonl (pktSequenceNumber (xTCPHeader (xPacket (net_bufs w b)))) in
      if ulReceiveLength > 0 \<and> ucTcpState (socks w i) \<ge> eSYN_RECEIVED then
        (let ulSpace = (case rxStream (socks w i) of
                          Some st \<Rightarrow> uxStreamBufferGetSpace st | None \<Rightarrow> uxRxStreamSize (socks w i)) in
         case lTCPWindowRxCheck (xTickCount w) ulSeqNr ulReceiveLength ulSpace (segs w)
                (xTcpWindow (socks w i)) of
           None \<Rightarrow> None
         | Some (lOffset, g, win) \<Rightarrow>
             (let w1 = (upd_win i (\<lambda>_. win) w)\<lparr>segs := g\<rparr>;
                  (xResult, w2) =
                    (if lOffset \<ge> 0 then
                       (let (lStored, w3) = lTCPAddRxdata i (word_of_int lOffset) (Some pucRecvData) ulReceiveLength w1
                        in if lStored \<noteq> sint ulReceiveLength then (-1, prvTCPSendReset b w3) else (0, w3))
                     else (0, w1));
                  w4 =
                    (if xResult = 0 \<and> ulUserDataLength (xTcpWindow (socks w2 i)) > 0
                     then upd_win i (\<lambda>v. v\<lparr>ulUserDataLength := 0\<rparr>)
                            (snd (lTCPAddRxdata i 0 None (ulUserDataLength (xTcpWindow (socks w2 i))) w2))
                     else w2)
              in Some (xResult, w4)))
      else Some (0, upd_win i (\<lambda>v. v\<lparr>ucOptionLength := 0\<rparr>) w))"

section \<open>The state machine\<close>

definition prvSetOptions :: "nat \<Rightarrow> nat \<Rightarrow> tcp_world \<Rightarrow> u32 \<times> tcp_world" where
  "prvSetOptions i b w =
     (let s = socks w i;
          xOptionsLength = ucast (ucOptionLength (xTcpWindow s)) :: u32
      in
      if xOptionsLength \<noteq> 0 then
        (xOptionsLength,
         upd_tcp (NetBuf b) (\<lambda>h. h\<lparr>ucTcpOffset := tcp_offset xOptionsLength\<rparr>)
           (upd_packet (NetBuf b) (\<lambda>q. q\<lparr>ucOptdata := mem_write (ucOptdata q) 0
              (take (unat xOptionsLength) (concat (map le32 (ulOptionsData (xTcpWindow s)))))\<rparr>) w))
      else if ucTcpState s \<ge> eESTABLISHED \<and> bMssChange (bits s) then
        (4,
         upd_tcp (NetBuf b) (\<lambda>h. h\<lparr>ucTcpOffset := tcp_offset 4\<rparr>)
           (upd_packet (NetBuf b) (\<lambda>q. q\<lparr>ucOptdata := mem_write (ucOptdata q) 0
              [TCP_OPT_MSS, TCP_OPT_MSS_LEN, ucast (drop_bit 8 (usCurMSS s)), ucast (usCurMSS s AND 0xff)]\<rparr>)
             (upd_bits i (\<lambda>f. f\<lparr>bMssChange := False\<rparr>) w)))
      else (xOptionsLength, w))"

definition headers_length :: "u32 \<Rightarrow> int" where
  "headers_length xOptionsLength = sint (ipSIZE_OF_IP_HEADER + ipSIZE_OF_TCP_HEADER + xOptionsLength)"

text \<open>
  \<open>prvTCPHandleFin\<close> in two steps: what the segment says of the two FINs, and the answer with the
  change of state.
\<close>

definition fin_seen :: "nat \<Rightarrow> TCPHeader_t \<Rightarrow> tcp_world \<Rightarrow> tcp_world" where
  "fin_seen i h w =
     (let w1 = (if ucTcpFlags h AND ipTCP_FLAG_FIN \<noteq> 0
                then upd_win i (\<lambda>v. v\<lparr>rx := (rx v)\<lparr>ulCurrentSequenceNumber := ulFINSequenceNumber (rx v) + 1\<rparr>\<rparr>) w
                else w)
      in if \<not> bFinSent (bits (socks w1 i))
         then upd_bits i (\<lambda>f. f\<lparr>bFinSent := True\<rparr>)
                (upd_win i (\<lambda>v. v\<lparr>tx := (tx v)\<lparr>ulFINSequenceNumber := ulCurrentSequenceNumber (tx v)\<rparr>\<rparr>) w1)
         else if FreeRTOS_htonl (ulAckNr h) = ulFINSequenceNumber (tx (xTcpWindow (socks w1 i))) + 1
         then upd_bits i (\<lambda>f. f\<lparr>bFinAcked := True\<rparr>) w1
         else w1)"

definition fin_reply :: "nat \<Rightarrow> packet_at \<Rightarrow> tcp_world \<Rightarrow> tcp_world" where
  "fin_reply i p w =
     (if \<not> bFinAcked (bits (socks w i)) then
        vTCPStateChange i eLAST_ACK
          (upd_tcp p (\<lambda>h. h\<lparr>ucTcpFlags := ipTCP_FLAG_ACK OR ipTCP_FLAG_FIN\<rparr>)
            (upd_win i (\<lambda>v. v\<lparr>tx := (tx v)\<lparr>ulCurrentSequenceNumber := ulFINSequenceNumber (tx v)\<rparr>\<rparr>) w))
      else
        (let w1 = upd_win i (\<lambda>v. v\<lparr>tx := (tx v)\<lparr>ulCurrentSequenceNumber := ulFINSequenceNumber (tx v) + 1\<rparr>\<rparr>) w in
         if \<not> bFinRecv (bits (socks w1 i)) then upd_tcp p (\<lambda>h. h\<lparr>ucTcpFlags := 0\<rparr>) w1
         else
           vTCPStateChange i eCLOSE_WAIT
             (upd_tcp p (\<lambda>h. h\<lparr>ucTcpFlags := (if \<not> bFinLast (bits (socks w1 i)) then ipTCP_FLAG_ACK else 0)\<rparr>) w1)))"

definition prvTCPHandleFin :: "nat \<Rightarrow> nat \<Rightarrow> tcp_world \<Rightarrow> int \<times> tcp_world" where
  "prvTCPHandleFin i b w =
     (let p = NetBuf b;
          w1 = fin_reply i p (fin_seen i (xTCPHeader (packet w p)) w);
          w2 = upd_win i (\<lambda>v. v\<lparr>ulOurSequenceNumber := ulCurrentSequenceNumber (tx v)\<rparr>) w1;
          n = ucast (ucOptionLength (xTcpWindow (socks w2 i))) :: u32;
          xSendLength = (if ucTcpFlags (xTCPHeader (packet w2 p)) \<noteq> 0 then headers_length n else 0)
      in (xSendLength, upd_tcp p (\<lambda>h. h\<lparr>ucTcpOffset := tcp_offset n\<rparr>) w2))"

definition prvHandleSynReceived :: "nat \<Rightarrow> nat \<Rightarrow> u32 \<Rightarrow> u32 \<Rightarrow> tcp_world \<Rightarrow> int \<times> tcp_world" where
  "prvHandleSynReceived i b ulReceiveLength xOptionsLength w =
     (let p = NetBuf b;
          h = xTCPHeader (packet w p);
          ulSeqNr = FreeRTOS_htonl (pktSequenceNumber h);
          connecting = (ucTcpState (socks w i) = eCONNECT_SYN);
          usExpect = (if connecting then ipTCP_FLAG_ACK OR ipTCP_FLAG_SYN else ipTCP_FLAG_ACK)
      in
      if ucTcpFlags h AND 0x17 \<noteq> usExpect then
        (headers_length xOptionsLength,
         upd_tcp p (\<lambda>h. h\<lparr>ucTcpFlags := ucTcpFlags h OR ipTCP_FLAG_RST, ucTcpOffset := tcp_offset xOptionsLength\<rparr>)
           (vTCPStateChange i eCLOSE_WAIT w))
      else
        (let w1 =
           (if connecting then
              upd_sock i (\<lambda>s. s\<lparr>
                lastPacket := (lastPacket s)\<lparr>xTCPHeader := (xTCPHeader (lastPacket s))\<lparr>ucTcpFlags := ipTCP_FLAG_ACK\<rparr>\<rparr>,
                xTcpWindow :=
                  (let v = vTCPWindowInit ulSeqNr (ulOurSequenceNumber (xTcpWindow s)) (ucast (usCurMSS s))
                             (xTcpWindow s)
                   in v\<lparr>rx := (rx v)\<lparr>ulCurrentSequenceNumber := ulSeqNr + 1,
                                    ulHighestSequenceNumber := ulSeqNr + 1\<rparr>,
                        tx := (tx v)\<lparr>ulCurrentSequenceNumber := ulCurrentSequenceNumber (tx v) + 1\<rparr>,
                        ulNextTxSequenceNumber := ulNextTxSequenceNumber v + 1\<rparr>)\<rparr>) w
            else if ulReceiveLength = 0
            then upd_win i (\<lambda>v. v\<lparr>rx := (rx v)\<lparr>ulCurrentSequenceNumber := ulSeqNr\<rparr>\<rparr>) w
            else w);
             w2 = upd_win i (\<lambda>v. v\<lparr>ulOurSequenceNumber := ulFirstSequenceNumber (tx v) + 1\<rparr>) w1;
             (xSendLength, w3) =
               (if connecting \<or> ulReceiveLength \<noteq> 0
                then (headers_length xOptionsLength,
                      upd_tcp p (\<lambda>h. h\<lparr>ucTcpFlags := ipTCP_FLAG_ACK, ucTcpOffset := tcp_offset xOptionsLength\<rparr>) w2)
                else (0, w2))
         in (xSendLength, vTCPStateChange i eESTABLISHED w3)))"

text \<open>The part of \<open>prvHandleEstablished\<close> that releases what the peer has acknowledged.\<close>

definition handle_ack :: "nat \<Rightarrow> u32 \<Rightarrow> tcp_world \<Rightarrow> tcp_world" where
  "handle_ack i ulAckNumber w =
     (let (ulCount, g, win) = ulTCPWindowTxAck (xTickCount w) ulAckNumber (segs w) (xTcpWindow (socks w i));
          w1 = (upd_win i (\<lambda>_. win) w)\<lparr>segs := g\<rparr>
      in case txStream (socks w1 i) of
           None \<Rightarrow> w1
         | Some st \<Rightarrow>
             (if ulCount > 0 then
                (let (n, _, st1) = uxStreamBufferGet st 0 False ulCount False
                 in upd_sock i (\<lambda>s. (if n \<noteq> 0 then raise_event eSOCKET_SEND eSELECT_WRITE else id)
                                     (s\<lparr>txStream := Some st1\<rparr>)) w1)
              else w1))"

text \<open>Whether a FIN of the peer may be accepted now.\<close>

definition may_close :: "FreeRTOS_Socket_t \<Rightarrow> u32 \<Rightarrow> u32 \<Rightarrow> bool" where
  "may_close s ulSeqNr ulReceiveLength =
     (let win = xTcpWindow s in
      if bFinSent (bits s) then True
      else if \<not> xTCPWindowRxEmpty win \<or> \<not> xTCPWindowTxDone win then False
      else \<not> sint (ulSeqNr + ulReceiveLength - ulCurrentSequenceNumber (rx win)) > 1)"

text \<open>
  \<open>prvHandleEstablished\<close> in its parts: the acknowledgement of the segment and the data that waits to
  be queued, and the answer to a segment that does not close the connection.
\<close>

definition established_input :: "nat \<Rightarrow> nat \<Rightarrow> tcp_world \<Rightarrow> tcp_world" where
  "established_input i b w =
     (let h = xTCPHeader (packet w (NetBuf b));
          w1 = upd_sock i (\<lambda>s. s\<lparr>wnd := ucast (FreeRTOS_htons (usWindow h))\<rparr>) w;
          w2 = (if ucTcpFlags h AND ipTCP_FLAG_ACK \<noteq> 0 then handle_ack i (FreeRTOS_htonl (ulAckNr h)) w1 else w1);
          w3 = prvTCPAddTxData i w2
      in upd_win i (\<lambda>v. v\<lparr>ulOurSequenceNumber := ulCurrentSequenceNumber (tx v)\<rparr>) w3)"

definition established_header :: "nat \<Rightarrow> nat \<Rightarrow> u32 \<Rightarrow> u32 \<Rightarrow> tcp_world \<Rightarrow> tcp_world" where
  "established_header i b ulReceiveLength xOptionsLength w =
     (let p = NetBuf b;
          w1 = upd_tcp p (\<lambda>h. h\<lparr>ucTcpFlags := ipTCP_FLAG_ACK\<rparr>) w
      in if ulReceiveLength \<noteq> 0 then
           (let v = upd_tcp p (\<lambda>h. h\<lparr>ucTcpOffset := tcp_offset xOptionsLength\<rparr>) w1 in
            if bFinSent (bits (socks v i))
            then upd_win i (\<lambda>v. v\<lparr>tx := (tx v)\<lparr>ulCurrentSequenceNumber := ulFINSequenceNumber (tx v)\<rparr>\<rparr>) v
            else v)
         else w1)"

definition established_answer ::
  "nat \<Rightarrow> nat \<Rightarrow> u32 \<Rightarrow> u32 \<Rightarrow> tcp_world \<Rightarrow> (int \<times> nat option \<times> tcp_world) option" where
  "established_answer i b ulReceiveLength xOptionsLength w =
     (let w1 = established_header i b ulReceiveLength xOptionsLength w;
          xSendLength = (if ulReceiveLength \<noteq> 0 then headers_length xOptionsLength else 0)
      in
      if xOptionsLength = 0 then
        (case prvTCPPrepareSend i (Some b) xOptionsLength w1 of
           None \<Rightarrow> None
         | Some (lSendResult, buf, w2) \<Rightarrow>
             Some (if lSendResult > 0 then lSendResult else xSendLength, buf, w2))
      else Some (xSendLength, Some b, w1))"

definition prvHandleEstablished ::
  "nat \<Rightarrow> nat \<Rightarrow> u32 \<Rightarrow> u32 \<Rightarrow> tcp_world \<Rightarrow> (int \<times> nat option \<times> tcp_world) option" where
  "prvHandleEstablished i b ulReceiveLength xOptionsLength w =
     (let h = xTCPHeader (packet w (NetBuf b));
          ulSeqNr = FreeRTOS_htonl (pktSequenceNumber h);
          w1 = established_input i b w;
          fin = (bFinAccepted (bits (socks w1 i)) \<or> ucTcpFlags h AND ipTCP_FLAG_FIN \<noteq> 0);
          xMayClose = (fin \<and> may_close (socks w1 i) ulSeqNr ulReceiveLength)
      in
      if xMayClose then
        (let (xSendLength, w2) = prvTCPHandleFin i b (upd_bits i (\<lambda>f. f\<lparr>bFinAccepted := True\<rparr>) w1)
         in Some (xSendLength, Some b, w2))
      else established_answer i b ulReceiveLength xOptionsLength w1)"

text \<open>
  \<open>prvSendData\<close>: a packet that would only acknowledge is held back in \<open>pxAckMessage\<close>; any other is
  sent.  The buffer that is left to the caller comes second.
\<close>

definition rx_window :: "FreeRTOS_Socket_t \<Rightarrow> u32" where
  "rx_window s =
     (let win = xTcpWindow s;
          ulFrontSpace = (case rxStream s of Some st \<Rightarrow> uxStreamBufferFrontSpace st | None \<Rightarrow> uxRxStreamSize s)
      in FreeRTOS_min_uint32 ulFrontSpace
           (ulRxWindowLength win - (ulHighestSequenceNumber (rx win) - ulCurrentSequenceNumber (rx win))))"

definition prvSendData :: "nat \<Rightarrow> nat option \<Rightarrow> u32 \<Rightarrow> int \<Rightarrow> tcp_world \<Rightarrow> int \<times> nat option \<times> tcp_world" where
  "prvSendData i buf ulReceiveLength xSendLength w =
     (let w1 = upd_sock i (\<lambda>s. s\<lparr>ulRxCurWinSize := rx_window s\<rparr>) w;
          s = socks w1 i;
          h = xTCPHeader (packet w1 (packet_of i buf));
          lRxSpace = sint (ulHighestRxAllowed s - ulCurrentSequenceNumber (rx (xTcpWindow s)));
          lMinLength = 2 * uint (usCurMSS s)
      in
      if ulReceiveLength > 0 \<and> lRxSpace \<ge> lMinLength \<and> \<not> bFinSent (bits s) \<and>
         xSendLength = sint (ipSIZE_OF_IP_HEADER + ipSIZE_OF_TCP_HEADER) \<and> ucTcpState s = eESTABLISHED \<and>
         ucTcpFlags h = ipTCP_FLAG_ACK
      then
        (let w2 =
           (if pxAckMessage s \<noteq> buf then
              upd_sock i (\<lambda>s. s\<lparr>pxAckMessage := buf\<rparr>)
                (case pxAckMessage s of None \<Rightarrow> w1 | Some a \<Rightarrow> release_net_buffer a w1)
            else w1);
             t = (if ulReceiveLength < ucast (usCurMSS s) \<or> lRxSpace < sint (2 * ucast (usCurMSS s) :: u32)
                  then DELAYED_ACK_SHORT_DELAY_MS else DELAYED_ACK_LONGER_DELAY_MS)
         in (0, None, upd_sock i (\<lambda>s. s\<lparr>usTimeout := ucast (pdMS_TO_TICKS t)\<rparr>) w2))
      else
        (let w2 =
           (case pxAckMessage s of
              None \<Rightarrow> w1
            | Some a \<Rightarrow>
                upd_sock i (\<lambda>s. s\<lparr>pxAckMessage := None\<rparr>)
                  (if pxAckMessage s \<noteq> buf then release_net_buffer a w1 else w1))
         in (xSendLength, buf,
             if xSendLength \<noteq> 0 then prvTCPReturnPacket (Some i) (packet_of i buf) (word_of_int xSendLength) w2
             else w2)))"

text \<open>
  \<open>prvTCPHandleState\<close>: what is done before the state is looked at, the SYN of a new connection, and
  the whole.
\<close>

definition note_packet :: "nat \<Rightarrow> u32 \<Rightarrow> u32 \<Rightarrow> tcp_world \<Rightarrow> tcp_world" where
  "note_packet i ulSeqNr ulReceiveLength w =
     (let w1 = (if ucTcpState (socks w i) \<ge> eESTABLISHED \<and>
                   ulCurrentSequenceNumber (rx (xTcpWindow (socks w i))) = ulSeqNr + 1
                then upd_bits i (\<lambda>f. f\<lparr>bWinChange := True\<rparr>) w else w)
      in if sint (ulSeqNr + ulReceiveLength - ulHighestSequenceNumber (rx (xTcpWindow (socks w1 i)))) > 0
         then upd_win i (\<lambda>v. v\<lparr>rx := (rx v)\<lparr>ulHighestSequenceNumber := ulSeqNr + ulReceiveLength\<rparr>\<rparr>) w1
         else w1)"

definition note_flags :: "nat \<Rightarrow> u8 \<Rightarrow> u32 \<Rightarrow> u32 \<Rightarrow> tcp_world \<Rightarrow> tcp_world" where
  "note_flags i ucFlags ulSeqNr ulReceiveLength w =
     (let w1 = (if ucTcpState (socks w i) = eSYN_RECEIVED \<and> ucFlags AND ipTCP_FLAG_CTRL = ipTCP_FLAG_SYN
                then vTCPStateChange i eSYN_FIRST w else w)
      in if ucFlags AND ipTCP_FLAG_FIN \<noteq> 0 \<and> \<not> bFinRecv (bits (socks w1 i)) then
           upd_bits i (\<lambda>f. f\<lparr>bFinRecv := True, bFinLast := (if \<not> bFinSent f then True else bFinLast f)\<rparr>)
             (upd_win i (\<lambda>v. v\<lparr>rx := (rx v)\<lparr>ulFINSequenceNumber := ulSeqNr + ulReceiveLength\<rparr>\<rparr>) w1)
         else w1)"

definition answer_syn :: "nat \<Rightarrow> nat \<Rightarrow> u32 \<Rightarrow> tcp_world \<Rightarrow> int \<times> tcp_world" where
  "answer_syn i b ulSeqNr w =
     (let (xOptionsLength, w1) = prvSetSynAckOptions i (NetBuf b) w;
          w2 = upd_tcp (NetBuf b) (\<lambda>h. h\<lparr>ucTcpFlags := ipTCP_FLAG_SYN OR ipTCP_FLAG_ACK,
                                       ucTcpOffset := tcp_offset xOptionsLength\<rparr>) w1;
          w3 = vTCPStateChange i eSYN_RECEIVED w2
      in (headers_length xOptionsLength,
          upd_win i (\<lambda>v. v\<lparr>rx := (rx v)\<lparr>ulHighestSequenceNumber := ulSeqNr + 1,
                                      ulCurrentSequenceNumber := ulSeqNr + 1\<rparr>,
                          tx := (tx v)\<lparr>ulCurrentSequenceNumber := ulFirstSequenceNumber (tx v) + 1\<rparr>,
                          ulNextTxSequenceNumber := ulFirstSequenceNumber (tx v) + 1\<rparr>) w3))"

text \<open>The \<open>switch\<close> over the states.\<close>

definition state_action ::
  "nat \<Rightarrow> nat \<Rightarrow> u32 \<Rightarrow> u32 \<Rightarrow> u32 \<Rightarrow> tcp_world \<Rightarrow> (int \<times> nat option \<times> tcp_world) option" where
  "state_action i b ulSeqNr ulReceiveLength xOptionsLength w =
     (let st = ucTcpState (socks w i) in
      if st = eSYN_FIRST then (let (n, w1) = answer_syn i b ulSeqNr w in Some (n, Some b, w1))
      else if st = eCONNECT_SYN \<or> st = eSYN_RECEIVED then
        (let (n, w1) = prvHandleSynReceived i b ulReceiveLength xOptionsLength w in Some (n, Some b, w1))
      else if st = eESTABLISHED then prvHandleEstablished i b ulReceiveLength xOptionsLength w
      else if st = eLAST_ACK \<or> st = eFIN_WAIT_1 \<or> st = eFIN_WAIT_2 then
        (let (n, w1) = prvTCPHandleFin i b w in Some (n, Some b, w1))
      else Some (0, Some b, w))"

definition prvTCPHandleState :: "nat \<Rightarrow> nat \<Rightarrow> tcp_world \<Rightarrow> (int \<times> nat option \<times> tcp_world) option" where
  "prvTCPHandleState i b w =
     (let h = xTCPHeader (xPacket (net_bufs w b));
          ulSeqNr = FreeRTOS_htonl (pktSequenceNumber h);
          ucFlags = ucTcpFlags h;
          (ulReceiveLength, pucRecvData) = prvCheckRxData b w
      in
      case prvStoreRxData i pucRecvData b ulReceiveLength (note_packet i ulSeqNr ulReceiveLength w) of
        None \<Rightarrow> None
      | Some (stored, w1) \<Rightarrow>
          (if stored < 0 then Some (-1, Some b, w1)
           else
             (let (xOptionsLength, w2) = prvSetOptions i b w1;
                  w3 = note_flags i ucFlags ulSeqNr ulReceiveLength w2
              in
              case state_action i b ulSeqNr ulReceiveLength xOptionsLength w3 of
                None \<Rightarrow> None
              | Some (xSendLength, buf, w4) \<Rightarrow>
                  (if xSendLength > 0 then Some (prvSendData i buf ulReceiveLength xSendLength w4)
                   else Some (xSendLength, buf, w4)))))"

section \<open>Listening sockets\<close>

text \<open>
  A child takes over properties of its parent, becomes an orphan until it is connected and is bound
  to the same port.
\<close>

definition copy_properties :: "nat \<Rightarrow> nat \<Rightarrow> tcp_world \<Rightarrow> tcp_world" where
  "copy_properties j i w =
     (let p = socks w i;
          w1 = upd_sock j (\<lambda>c. c\<lparr>xReceiveBlockTime := xReceiveBlockTime p, xSendBlockTime := xSendBlockTime p,
                 ucSocketOptions := ucSocketOptions p, uxRxStreamSize := uxRxStreamSize p,
                 uxTxStreamSize := uxTxStreamSize p, uxLittleSpace := uxLittleSpace p, uxEnoughSpace := uxEnoughSpace p,
                 uxRxWinSize := uxRxWinSize p, uxTxWinSize := uxTxWinSize p\<rparr>) w
      in case pxSocketSet p of
           None \<Rightarrow> w1
         | Some ss \<Rightarrow> upd_sock j (\<lambda>c. c\<lparr>pxSocketSet := Some ss,
                         xSelectBits := xSelectBits p OR eSELECT_READ OR eSELECT_EXCEPT\<rparr>) w1)"

definition prvTCPSocketCopy :: "nat \<Rightarrow> nat \<Rightarrow> tcp_world \<Rightarrow> (bool \<times> tcp_world) option" where
  "prvTCPSocketCopy j i w =
     (let w1 = copy_properties j i w;
          w2 = upd_sock j (\<lambda>c. c\<lparr>bits := (bits c)\<lparr>bPassQueued := True\<rparr>, pxPeerSocket := Some i\<rparr>) w1;
          w3 = upd_sock i (\<lambda>s. s\<lparr>usChildCount := usChildCount s + 1\<rparr>) w2
      in
      case vSocketBind j (Some (FreeRTOS_htons (usLocPort (socks w3 i)))) True w3 of
        None \<Rightarrow> None
      | Some (r, w4) \<Rightarrow> if r \<noteq> 0 then Some (False, vSocketClose j w4) else Some (True, w4))"

text \<open>The SYN action on the socket that takes the connection.\<close>

definition take_syn :: "nat \<Rightarrow> nat \<Rightarrow> tcp_world \<Rightarrow> tcp_world" where
  "take_syn j b w =
     (let q = xPacket (net_bufs w b);
          h = xTCPHeader q;
          w1 = upd_sock j (\<lambda>s. s\<lparr>usRemotePort := FreeRTOS_htons (usSourcePort h),
                 ulRemoteIP := FreeRTOS_htonl (ulSourceIPAddress (xIPHeader q)),
                 xTcpWindow := (xTcpWindow s)\<lparr>ulOurSequenceNumber := ulNextInitialSequenceNumber w,
                   rx := (rx (xTcpWindow s))\<lparr>ulCurrentSequenceNumber := FreeRTOS_htonl (pktSequenceNumber h)\<rparr>\<rparr>\<rparr>) w;
          w2 = prvTCPCreateWindow j (prvSocketSetMSS j w1);
          w3 = w2\<lparr>ulNextInitialSequenceNumber := ulNextInitialSequenceNumber w2 + INITIAL_SEQUENCE_NUMBER_INCREMENT\<rparr>;
          w4 = vTCPStateChange j eSYN_FIRST w3
      in upd_sock j (\<lambda>s. s\<lparr>lastPacket := q\<lparr>ucOptdata := take 12 (ucOptdata q)\<rparr>\<rparr>) w4)"

definition prvHandleListen :: "nat \<Rightarrow> nat \<Rightarrow> tcp_world \<Rightarrow> (nat option \<times> tcp_world) option" where
  "prvHandleListen i b w =
     (if bReuseSocket (bits (socks w i)) then
        Some (Some i, take_syn i b
          (upd_sock i (\<lambda>s. s\<lparr>bits := (bits s)\<lparr>bPassQueued := True\<rparr>, pxPeerSocket := Some i\<rparr>) w))
      else if usChildCount (socks w i) \<ge> usBacklog (socks w i) then Some (None, prvTCPSendReset b w)
      else
        (case FreeRTOS_socket w of
           (None, w1) \<Rightarrow> Some (None, prvTCPSendReset b w1)
         | (Some j, w1) \<Rightarrow>
             (case prvTCPSocketCopy j i w1 of
                None \<Rightarrow> None
              | Some (ok, w2) \<Rightarrow> if ok then Some (Some j, take_syn j b w2) else Some (None, w2))))"

text \<open>The loop of \<open>xTCPCheckNewClient\<close> compares list items with the port in network order.\<close>

definition xTCPCheckNewClient :: "nat \<Rightarrow> tcp_world \<Rightarrow> bool \<times> tcp_world" where
  "xTCPCheckNewClient i w =
     (case find (\<lambda>j. boundItemValue (socks w j) = ucast (FreeRTOS_htons (usLocPort (socks w i))) \<and>
                     sockProtocol (socks w j) = FREERTOS_IPPROTO_TCP \<and> bPassAccept (bits (socks w j)))
             (xBoundTcpSocketsList w) of
        None \<Rightarrow> (False, w)
      | Some j \<Rightarrow> (True, upd_sock i (\<lambda>s. s\<lparr>pxPeerSocket := Some j\<rparr>) w))"

section \<open>A received segment\<close>

text \<open>
  What \<open>xProcessReceivedTCPPacket\<close> does once the segment is for the socket \<open>i\<close>: options, state
  machine, more data, release of the buffer, next time-out.
\<close>

definition process_for_socket :: "nat \<Rightarrow> nat \<Rightarrow> tcp_world \<Rightarrow> tcp_world option" where
  "process_for_socket i b w =
     (let h = xTCPHeader (xPacket (net_bufs w b)); w1 = prvTCPTouchSocket i w in
      case (if ucTcpOffset h AND 0xf0 > 0x50 then prvCheckOptions i b w1 else Some w1) of
        None \<Rightarrow> None
      | Some w2 \<Rightarrow>
          (case prvTCPHandleState i b (upd_sock i (\<lambda>s. s\<lparr>wnd := ucast (FreeRTOS_htons (usWindow h))\<rparr>) w2) of
             None \<Rightarrow> None
           | Some (n, buf, w3) \<Rightarrow>
               (case (if n > 0 then prvTCPSendRepeated i buf w3 else Some (0, buf, w3)) of
                  None \<Rightarrow> None
                | Some (_, buf1, w4) \<Rightarrow>
                    (let w5 = (case buf1 of None \<Rightarrow> w4 | Some a \<Rightarrow> release_net_buffer a w4)
                     in Some (snd (prvTCPNextTimeout i w5))))))"

text \<open>The answer is whether the buffer was consumed.\<close>

definition xProcessReceivedTCPPacket :: "nat \<Rightarrow> tcp_world \<Rightarrow> (bool \<times> tcp_world) option" where
  "xProcessReceivedTCPPacket b w =
     (let q = xPacket (net_bufs w b);
          h = xTCPHeader q;
          ucFlags = ucTcpFlags h
      in
      case pxTCPSocketLookup w (FreeRTOS_htons (usDestinationPort h)) (FreeRTOS_htonl (ulSourceIPAddress (xIPHeader q)))
             (FreeRTOS_htons (usSourcePort h)) of
        None \<Rightarrow>
          Some (False, if ucFlags AND ipTCP_FLAG_CTRL \<noteq> ipTCP_FLAG_ACK \<and> ucFlags AND ipTCP_FLAG_RST = 0
                       then prvTCPSendReset b w else w)
      | Some i \<Rightarrow>
          (if \<not> prvTCPSocketIsActive (ucTcpState (socks w i)) then
             Some (False, if ucFlags AND ipTCP_FLAG_CTRL \<noteq> ipTCP_FLAG_ACK \<and> ucFlags AND ipTCP_FLAG_RST = 0
                          then prvTCPSendReset b w else w)
           else
             (let w1 = upd_sock i (\<lambda>s. s\<lparr>ucRepCount := 0\<rparr>) w in
              if ucTcpState (socks w1 i) = eTCP_LISTEN then
                (if ucFlags AND ipTCP_FLAG_CTRL \<noteq> ipTCP_FLAG_SYN then
                   Some (False, if ucFlags AND ipTCP_FLAG_RST = 0 then prvTCPSendReset b w1 else w1)
                 else
                   (case prvHandleListen i b w1 of
                      None \<Rightarrow> None
                    | Some (None, w2) \<Rightarrow> Some (False, w2)
                    | Some (Some j, w2) \<Rightarrow> map_option (Pair True) (process_for_socket j b w2)))
              else if ucFlags AND ipTCP_FLAG_RST \<noteq> 0 then Some (False, vTCPStateChange i eCLOSED w1)
              else if ucFlags AND ipTCP_FLAG_CTRL = ipTCP_FLAG_SYN \<and> ucTcpState (socks w1 i) \<ge> eESTABLISHED
              then Some (False, w1)
              else
                map_option (Pair True)
                  (process_for_socket i b (upd_sock i (\<lambda>s. s\<lparr>lastPacket := (lastPacket s)\<lparr>xTCPHeader := h\<rparr>\<rparr>) w1)))))"

section \<open>Timers\<close>

text \<open>The answer is negative when the socket may not be used any more.\<close>

definition prvTCPStatusAgeCheck :: "nat \<Rightarrow> tcp_world \<Rightarrow> int \<times> tcp_world" where
  "prvTCPStatusAgeCheck i w =
     (if ucTcpState (socks w i) \<in> {eESTABLISHED, eCLOSED, eTCP_LISTEN, eCLOSE_WAIT} then (0, w)
      else if xTickCount w - xLastActTime (socks w i) > ipconfigTCP_HANG_PROTECTION_TIME * configTICK_RATE_HZ then
        (let w1 = vTCPStateChange i eCLOSE_WAIT w in
         if bPassQueued (bits (socks w1 i))
         then (-1, if \<not> bReuseSocket (bits (socks w1 i)) then vSocketClose i w1 else w1)
         else (1, w1))
      else (1, w))"

text \<open>A delayed acknowledgement is sent, and whether that was all there is to do.\<close>

definition delayed_ack :: "nat \<Rightarrow> tcp_world \<Rightarrow> bool \<times> tcp_world" where
  "delayed_ack i w =
     (case pxAckMessage (socks w i) of
        None \<Rightarrow> (False, w)
      | Some a \<Rightarrow>
          (let (ready, w2) =
             (if \<not> bUserShutdown (bits (socks w i)) then
                (let w1 = (if ucTcpState (socks w i) \<noteq> eCLOSED
                           then prvTCPReturnPacket (Some i) (NetBuf a) (ipSIZE_OF_IP_HEADER + ipSIZE_OF_TCP_HEADER) w
                           else w);
                     (t, w2) = prvTCPNextTimeout i w1
                 in (t > 1, w2))
              else (False, w))
           in (ready, upd_sock i (\<lambda>s. s\<lparr>pxAckMessage := None\<rparr>) (release_net_buffer a w2))))"

definition xTCPSocketCheck :: "nat \<Rightarrow> tcp_world \<Rightarrow> (int \<times> tcp_world) option" where
  "xTCPSocketCheck i w =
     (let w1 = (if ucTcpState (socks w i) \<ge> eESTABLISHED \<and> txStream (socks w i) \<noteq> None then prvTCPAddTxData i w else w);
          (xReady, w2) = delayed_ack i w1
      in
      if xReady then Some (0, w2)
      else
        (case (if ucTcpState (socks w2 i) \<ge> eESTABLISHED \<or> ucTcpState (socks w2 i) = eCONNECT_SYN
               then prvTCPSendPacket i w2 else Some (0, w2)) of
           None \<Rightarrow> None
         | Some (_, w3) \<Rightarrow> Some (prvTCPStatusAgeCheck i (snd (prvTCPNextTimeout i w3)))))"

text \<open>
  One round of the loop of \<open>xTCPTimerCheck\<close>: the new \<open>xShortest\<close>, and whether the loop is left
  because a frame has come in.
\<close>

definition timer_check_socket ::
  "bool \<Rightarrow> u32 \<Rightarrow> nat \<Rightarrow> u32 \<Rightarrow> tcp_world \<Rightarrow> (u32 \<times> bool \<times> tcp_world) option" where
  "timer_check_socket xWillSleep xDelta i xShortest w =
     (if usTimeout (socks w i) = 0 then Some (xShortest, False, w)
      else
        (case (if xDelta < ucast (usTimeout (socks w i))
               then Some (0, upd_sock i (\<lambda>s. s\<lparr>usTimeout := ucast (ucast (usTimeout s) - xDelta)\<rparr>) w)
               else xTCPSocketCheck i (upd_sock i (\<lambda>s. s\<lparr>usTimeout := 0\<rparr>) w)) of
           None \<Rightarrow> None
         | Some (r, w1) \<Rightarrow>
             (if r < 0 then Some (xShortest, False, w1)
              else
                (let (s1, w2) =
                   (if xEventBits (socks w1 i) \<noteq> 0 then
                      (if xWillSleep then (xShortest, vWakeUpSocketUser i w1) else (0, w1))
                    else (xShortest, w1));
                     (rx_waits, w3) = uxGetRxEventCount w2
                 in
                 if rx_waits then Some (0, True, w3)
                 else
                   Some (if usTimeout (socks w3 i) \<noteq> 0 \<and> s1 > ucast (usTimeout (socks w3 i))
                         then ucast (usTimeout (socks w3 i)) else s1, False, w3)))))"

primrec timer_check_loop ::
  "bool \<Rightarrow> u32 \<Rightarrow> nat list \<Rightarrow> u32 \<Rightarrow> tcp_world \<Rightarrow> (u32 \<times> tcp_world) option" where
  "timer_check_loop xWillSleep xDelta [] xShortest w = Some (xShortest, w)"
| "timer_check_loop xWillSleep xDelta (i # is) xShortest w =
     (case timer_check_socket xWillSleep xDelta i xShortest w of
        None \<Rightarrow> None
      | Some (s, stop, w1) \<Rightarrow> if stop then Some (s, w1) else timer_check_loop xWillSleep xDelta is s w1)"

definition xTCPTimerCheck :: "bool \<Rightarrow> tcp_world \<Rightarrow> (u32 \<times> tcp_world) option" where
  "xTCPTimerCheck xWillSleep w =
     (let xDelta0 = xTickCount w - tcpLastTime w;
          xDelta = (if xDelta0 = 0 then 1 else xDelta0)
      in timer_check_loop xWillSleep xDelta (xBoundTcpSocketsList w) (pdMS_TO_TICKS ipTCP_TIMER_PERIOD_MS)
           (w\<lparr>tcpLastTime := xTickCount w\<rparr>))"

end
