(* ===== verification/Tcp_State.thy ===== *)
theory Tcp_State
  imports Tcp_Ip
begin

text \<open>
  The life of a connection.  The first section says, operation by operation, what the helpers of the
  IP task leave alone; the locale \<open>tcp_diagram\<close> then follows the state of every socket through the
  whole stack, for any diagram that has the arrows the code uses, and is interpreted on the diagram
  itself and on \<open>no arrow into the established state\<close>.
\<close>

named_theorems frames \<open>parts of the world an operation does not change\<close>

abbreviation state_of :: "tcp_world \<Rightarrow> nat \<Rightarrow> eIPTcpState_t" where
  "state_of w j \<equiv> ucTcpState (socks w j)"

abbreviation held :: "tcp_world \<Rightarrow> nat \<Rightarrow> nat option" where
  "held w j \<equiv> pxAckMessage (socks w j)"

section \<open>What the helpers leave alone\<close>

lemma socks_upd_sock: "socks (upd_sock i f w) j = (if j = i then f (socks w i) else socks w j)"
  by (simp add: upd_sock_def)

lemma upd_sock_world [simp]:
  "free_bufs (upd_sock i f w) = free_bufs w" "next_sock (upd_sock i f w) = next_sock w"
  "net_out (upd_sock i f w) = net_out w" "arp_out (upd_sock i f w) = arp_out w"
  "xBoundTcpSocketsList (upd_sock i f w) = xBoundTcpSocketsList w" "net_bufs (upd_sock i f w) = net_bufs w"
  "net (upd_sock i f w) = net w" "segs (upd_sock i f w) = segs w"
  by (simp_all add: upd_sock_def)

lemma upd_bits_frame [frames]:
  "state_of (upd_bits i f w) j = state_of w j" "held (upd_bits i f w) j = held w j"
  "free_bufs (upd_bits i f w) = free_bufs w" "next_sock (upd_bits i f w) = next_sock w"
  "net_out (upd_bits i f w) = net_out w" "arp_out (upd_bits i f w) = arp_out w"
  by (simp_all add: upd_bits_def socks_upd_sock)

lemma upd_win_frame [frames]:
  "state_of (upd_win i f w) j = state_of w j" "held (upd_win i f w) j = held w j"
  "free_bufs (upd_win i f w) = free_bufs w" "next_sock (upd_win i f w) = next_sock w"
  "net_out (upd_win i f w) = net_out w" "arp_out (upd_win i f w) = arp_out w"
  by (simp_all add: upd_win_def socks_upd_sock)

lemma upd_packet_frame [frames]:
  "state_of (upd_packet p f w) j = state_of w j" "held (upd_packet p f w) j = held w j"
  "free_bufs (upd_packet p f w) = free_bufs w" "next_sock (upd_packet p f w) = next_sock w"
  "net_out (upd_packet p f w) = net_out w" "arp_out (upd_packet p f w) = arp_out w"
  by (cases p; simp add: socks_upd_sock)+

lemma upd_tcp_frame [frames]:
  "state_of (upd_tcp p f w) j = state_of w j" "held (upd_tcp p f w) j = held w j"
  "free_bufs (upd_tcp p f w) = free_bufs w" "next_sock (upd_tcp p f w) = next_sock w"
  "net_out (upd_tcp p f w) = net_out w" "arp_out (upd_tcp p f w) = arp_out w"
  by (simp_all add: upd_tcp_def frames)

lemma set_bufDataLength_frame [frames]:
  "state_of (set_bufDataLength b n w) j = state_of w j" "held (set_bufDataLength b n w) j = held w j"
  "free_bufs (set_bufDataLength b n w) = free_bufs w" "next_sock (set_bufDataLength b n w) = next_sock w"
  "net_out (set_bufDataLength b n w) = net_out w" "arp_out (set_bufDataLength b n w) = arp_out w"
  by (simp_all add: set_bufDataLength_def)

lemma malloc_frame [frames]:
  "state_of (snd (pvPortMallocLarge w)) j = state_of w j" "held (snd (pvPortMallocLarge w)) j = held w j"
  "free_bufs (snd (pvPortMallocLarge w)) = free_bufs w" "next_sock (snd (pvPortMallocLarge w)) = next_sock w"
  "net_out (snd (pvPortMallocLarge w)) = net_out w" "arp_out (snd (pvPortMallocLarge w)) = arp_out w"
  by (simp_all add: pvPortMallocLarge_def)

lemma rx_count_frame [frames]:
  "state_of (snd (uxGetRxEventCount w)) j = state_of w j" "held (snd (uxGetRxEventCount w)) j = held w j"
  "free_bufs (snd (uxGetRxEventCount w)) = free_bufs w" "next_sock (snd (uxGetRxEventCount w)) = next_sock w"
  "net_out (snd (uxGetRxEventCount w)) = net_out w" "arp_out (snd (uxGetRxEventCount w)) = arp_out w"
  by (simp_all add: uxGetRxEventCount_def)

lemma send_event_frame [frames]:
  "state_of (snd (xSendEventStructToIPTask e d w)) j = state_of w j" "held (snd (xSendEventStructToIPTask e d w)) j = held w j"
  "free_bufs (snd (xSendEventStructToIPTask e d w)) = free_bufs w"
  "next_sock (snd (xSendEventStructToIPTask e d w)) = next_sock w"
  "net_out (snd (xSendEventStructToIPTask e d w)) = net_out w" "arp_out (snd (xSendEventStructToIPTask e d w)) = arp_out w"
  by (simp_all add: xSendEventStructToIPTask_def Let_def)

lemma send_timer_event_frame [frames]:
  "state_of (snd (xSendEventToIPTask e w)) j = state_of w j" "held (snd (xSendEventToIPTask e w)) j = held w j"
  "free_bufs (snd (xSendEventToIPTask e w)) = free_bufs w" "next_sock (snd (xSendEventToIPTask e w)) = next_sock w"
  "net_out (snd (xSendEventToIPTask e w)) = net_out w" "arp_out (snd (xSendEventToIPTask e w)) = arp_out w"
  by (simp_all add: xSendEventToIPTask_def frames)

lemma closesocket_frame [frames]:
  "state_of (snd (FreeRTOS_closesocket i w)) j = state_of w j" "held (snd (FreeRTOS_closesocket i w)) j = held w j"
  "free_bufs (snd (FreeRTOS_closesocket i w)) = free_bufs w" "next_sock (snd (FreeRTOS_closesocket i w)) = next_sock w"
  "net_out (snd (FreeRTOS_closesocket i w)) = net_out w" "arp_out (snd (FreeRTOS_closesocket i w)) = arp_out w"
  by (simp_all add: FreeRTOS_closesocket_def Let_def split_def frames)

lemma raise_event_frame [simp]:
  "ucTcpState (raise_event e l s) = ucTcpState s" "pxAckMessage (raise_event e l s) = pxAckMessage s"
  by (simp_all add: raise_event_def Let_def)

lemma wake_frame [frames]:
  "state_of (vWakeUpSocketUser i w) j = state_of w j" "held (vWakeUpSocketUser i w) j = held w j"
  "free_bufs (vWakeUpSocketUser i w) = free_bufs w" "next_sock (vWakeUpSocketUser i w) = next_sock w"
  "net_out (vWakeUpSocketUser i w) = net_out w" "arp_out (vWakeUpSocketUser i w) = arp_out w"
  by (simp_all add: vWakeUpSocketUser_def Let_def socks_upd_sock split: option.split)

lemma touch_frame [frames]:
  "state_of (prvTCPTouchSocket i w) j = state_of w j" "held (prvTCPTouchSocket i w) j = held w j"
  "free_bufs (prvTCPTouchSocket i w) = free_bufs w" "next_sock (prvTCPTouchSocket i w) = next_sock w"
  "net_out (prvTCPTouchSocket i w) = net_out w" "arp_out (prvTCPTouchSocket i w) = arp_out w"
  by (simp_all add: prvTCPTouchSocket_def socks_upd_sock)

lemma connected_frame [frames]:
  "state_of (tcp_connected i w) j = state_of w j" "held (tcp_connected i w) j = held w j"
  "free_bufs (tcp_connected i w) = free_bufs w" "next_sock (tcp_connected i w) = next_sock w"
  "net_out (tcp_connected i w) = net_out w" "arp_out (tcp_connected i w) = arp_out w"
  by (simp_all add: tcp_connected_def Let_def socks_upd_sock frames split: option.split)

text \<open>\<open>vTCPStateChange\<close> sets the one state and nothing else of these.\<close>

lemma state_change_frame [frames]:
  "state_of (vTCPStateChange i t w) j = (if j = i then t else state_of w j)" "held (vTCPStateChange i t w) j = held w j"
  "free_bufs (vTCPStateChange i t w) = free_bufs w" "next_sock (vTCPStateChange i t w) = next_sock w"
  "net_out (vTCPStateChange i t w) = net_out w" "arp_out (vTCPStateChange i t w) = arp_out w"
  by (simp_all add: vTCPStateChange_def Let_def socks_upd_sock frames)

section \<open>Buffers and packets\<close>

text \<open>Taking a buffer takes it from the free list; giving one back puts it there.\<close>

lemma get_net_buffer_frame [frames]:
  "state_of (snd (get_net_buffer n w)) j = state_of w j" "held (snd (get_net_buffer n w)) j = held w j"
  "next_sock (snd (get_net_buffer n w)) = next_sock w" "net_out (snd (get_net_buffer n w)) = net_out w"
  "arp_out (snd (get_net_buffer n w)) = arp_out w"
  by (simp_all add: get_net_buffer_def pvPortMallocLarge_def Let_def split: list.split)

lemma release_net_buffer_frame [frames]:
  "state_of (release_net_buffer b w) j = state_of w j" "held (release_net_buffer b w) j = held w j"
  "next_sock (release_net_buffer b w) = next_sock w" "net_out (release_net_buffer b w) = net_out w"
  "arp_out (release_net_buffer b w) = arp_out w"
  by (simp_all add: release_net_buffer_def)

lemma resize_frame [frames]:
  "state_of (snd (prvTCPBufferResize i buf n m w)) j = state_of w j" "held (snd (prvTCPBufferResize i buf n m w)) j = held w j"
  "next_sock (snd (prvTCPBufferResize i buf n m w)) = next_sock w" "net_out (snd (prvTCPBufferResize i buf n m w)) = net_out w"
  "arp_out (snd (prvTCPBufferResize i buf n m w)) = arp_out w"
  by (simp_all add: prvTCPBufferResize_def Let_def split_def frames set_bufDataLength_def split: option.split prod.split)

lemma return_header_frame [frames]:
  "state_of (return_header i p n w) j = state_of w j" "held (return_header i p n w) j = held w j"
  "free_bufs (return_header i p n w) = free_bufs w" "next_sock (return_header i p n w) = next_sock w"
  "net_out (return_header i p n w) = net_out w" "arp_out (return_header i p n w) = arp_out w"
  by (simp_all add: return_header_def Let_def socks_upd_sock frames)

lemma return_packet_frame [frames]:
  "state_of (prvTCPReturnPacket s p n w) j = state_of w j" "held (prvTCPReturnPacket s p n w) j = held w j"
  "free_bufs (prvTCPReturnPacket s p n w) = free_bufs w" "next_sock (prvTCPReturnPacket s p n w) = next_sock w"
  "arp_out (prvTCPReturnPacket s p n w) = arp_out w"
  by (simp_all add: prvTCPReturnPacket_def Let_def socks_upd_sock frames split: option.split packet_at.split)

lemma send_reset_frame [frames]:
  "state_of (prvTCPSendReset b w) j = state_of w j" "held (prvTCPSendReset b w) j = held w j"
  "free_bufs (prvTCPSendReset b w) = free_bufs w" "next_sock (prvTCPSendReset b w) = next_sock w"
  "arp_out (prvTCPSendReset b w) = arp_out w"
  by (simp_all add: prvTCPSendReset_def frames)

lemma add_tx_frame [frames]:
  "state_of (prvTCPAddTxData i w) j = state_of w j" "held (prvTCPAddTxData i w) j = held w j"
  "free_bufs (prvTCPAddTxData i w) = free_bufs w" "next_sock (prvTCPAddTxData i w) = next_sock w"
  "net_out (prvTCPAddTxData i w) = net_out w" "arp_out (prvTCPAddTxData i w) = arp_out w"
  by (simp_all add: prvTCPAddTxData_def Let_def split_def socks_upd_sock frames split: option.split)

lemma next_timeout_frame [frames]:
  "state_of (snd (prvTCPNextTimeout i w)) j = state_of w j" "held (snd (prvTCPNextTimeout i w)) j = held w j"
  "free_bufs (snd (prvTCPNextTimeout i w)) = free_bufs w" "next_sock (snd (prvTCPNextTimeout i w)) = next_sock w"
  "net_out (snd (prvTCPNextTimeout i w)) = net_out w" "arp_out (snd (prvTCPNextTimeout i w)) = arp_out w"
  by (simp_all add: prvTCPNextTimeout_def Let_def socks_upd_sock)

lemma syn_options_frame [frames]:
  "state_of (snd (prvSetSynAckOptions i p w)) j = state_of w j" "held (snd (prvSetSynAckOptions i p w)) j = held w j"
  "free_bufs (snd (prvSetSynAckOptions i p w)) = free_bufs w" "next_sock (snd (prvSetSynAckOptions i p w)) = next_sock w"
  "net_out (snd (prvSetSynAckOptions i p w)) = net_out w" "arp_out (snd (prvSetSynAckOptions i p w)) = arp_out w"
  by (simp_all add: prvSetSynAckOptions_def Let_def frames)

lemma set_mss_frame [frames]:
  "state_of (prvSocketSetMSS i w) j = state_of w j" "held (prvSocketSetMSS i w) j = held w j"
  "free_bufs (prvSocketSetMSS i w) = free_bufs w" "next_sock (prvSocketSetMSS i w) = next_sock w"
  "net_out (prvSocketSetMSS i w) = net_out w" "arp_out (prvSocketSetMSS i w) = arp_out w"
  by (simp_all add: prvSocketSetMSS_def Let_def socks_upd_sock)

lemma create_window_frame [frames]:
  "state_of (prvTCPCreateWindow i w) j = state_of w j" "held (prvTCPCreateWindow i w) j = held w j"
  "free_bufs (prvTCPCreateWindow i w) = free_bufs w" "next_sock (prvTCPCreateWindow i w) = next_sock w"
  "net_out (prvTCPCreateWindow i w) = net_out w" "arp_out (prvTCPCreateWindow i w) = arp_out w"
  by (simp_all add: prvTCPCreateWindow_def Let_def split_def frames)

lemma arp_request_frame [frames]:
  "state_of (send_arp_request ip w) j = state_of w j" "held (send_arp_request ip w) j = held w j"
  "next_sock (send_arp_request ip w) = next_sock w" "net_out (send_arp_request ip w) = net_out w"
  by (simp_all add: send_arp_request_def Let_def split_def frames split: option.split)

lemma prepare_connect_frame [frames]:
  "state_of (snd (prvTCPPrepareConnect i w)) j = state_of w j" "held (snd (prvTCPPrepareConnect i w)) j = held w j"
  "next_sock (snd (prvTCPPrepareConnect i w)) = next_sock w" "net_out (snd (prvTCPPrepareConnect i w)) = net_out w"
  by (simp_all add: prvTCPPrepareConnect_def Let_def socks_upd_sock frames split: prod.split eARPLookupResult_t.split)

lemma set_options_frame [frames]:
  "state_of (snd (prvSetOptions i b w)) j = state_of w j" "held (snd (prvSetOptions i b w)) j = held w j"
  "free_bufs (snd (prvSetOptions i b w)) = free_bufs w" "next_sock (snd (prvSetOptions i b w)) = next_sock w"
  "net_out (snd (prvSetOptions i b w)) = net_out w" "arp_out (snd (prvSetOptions i b w)) = arp_out w"
  by (simp_all add: prvSetOptions_def Let_def frames)

lemma sack_block_frame [frames]:
  "state_of (sack_block i f l w) j = state_of w j" "held (sack_block i f l w) j = held w j"
  "free_bufs (sack_block i f l w) = free_bufs w" "next_sock (sack_block i f l w) = next_sock w"
  "net_out (sack_block i f l w) = net_out w" "arp_out (sack_block i f l w) = arp_out w"
  by (simp_all add: sack_block_def Let_def split_def socks_upd_sock frames split: option.split)

lemma handle_ack_frame [frames]:
  "state_of (handle_ack i n w) j = state_of w j" "held (handle_ack i n w) j = held w j"
  "free_bufs (handle_ack i n w) = free_bufs w" "next_sock (handle_ack i n w) = next_sock w"
  "net_out (handle_ack i n w) = net_out w" "arp_out (handle_ack i n w) = arp_out w"
  by (simp_all add: handle_ack_def Let_def split_def socks_upd_sock frames split: option.split)

lemma note_packet_frame [frames]:
  "state_of (note_packet i n m w) j = state_of w j" "held (note_packet i n m w) j = held w j"
  "free_bufs (note_packet i n m w) = free_bufs w" "next_sock (note_packet i n m w) = next_sock w"
  "net_out (note_packet i n m w) = net_out w" "arp_out (note_packet i n m w) = arp_out w"
  by (simp_all add: note_packet_def Let_def frames)

text \<open>The buffers themselves.\<close>

lemma net_bufs_frame [frames]:
  "net_bufs (upd_bits i f w) = net_bufs w" "net_bufs (upd_win i g w) = net_bufs w"
  "net_bufs (snd (pvPortMallocLarge w)) = net_bufs w" "net_bufs (snd (uxGetRxEventCount w)) = net_bufs w"
  "net_bufs (snd (xSendEventStructToIPTask e d w)) = net_bufs w"
  by (simp_all add: upd_bits_def upd_win_def pvPortMallocLarge_def uxGetRxEventCount_def
      xSendEventStructToIPTask_def Let_def)

lemma net_bufs_frame_2 [frames]:
  "net_bufs (snd (xSendEventToIPTask e w)) = net_bufs w" "net_bufs (snd (FreeRTOS_closesocket i w)) = net_bufs w"
  "net_bufs (vWakeUpSocketUser i w) = net_bufs w" "net_bufs (prvTCPTouchSocket i w) = net_bufs w"
  "net_bufs (prvTCPAddTxData i w) = net_bufs w" "net_bufs (prvSocketSetMSS i w) = net_bufs w"
  "net_bufs (prvTCPCreateWindow i w) = net_bufs w" "net_bufs (sack_block i x y w) = net_bufs w"
  "net_bufs (handle_ack i n w) = net_bufs w" "net_bufs (note_packet i n m w) = net_bufs w"
  "net_bufs (snd (prvTCPNextTimeout i w)) = net_bufs w"
  by (simp_all add: xSendEventToIPTask_def FreeRTOS_closesocket_def vWakeUpSocketUser_def prvTCPTouchSocket_def
      prvTCPAddTxData_def prvSocketSetMSS_def prvTCPCreateWindow_def sack_block_def handle_ack_def note_packet_def
      prvTCPNextTimeout_def Let_def split_def frames split: option.split)

lemma net_bufs_frame_3 [frames]:
  "net_bufs (tcp_connected i w) = net_bufs w" "net_bufs (vTCPStateChange i t w) = net_bufs w"
  "net_bufs (snd (prvTcpCreateStream i b w)) = net_bufs w"
  by (simp_all add: tcp_connected_def vTCPStateChange_def prvTcpCreateStream_def Let_def split_def frames
      split: option.split)

lemma net_bufs_frame_4 [frames]:
  "net_bufs (snd (lTCPAddRxdata i pos d n w)) = net_bufs w" "net_bufs (note_flags i fl n m w) = net_bufs w"
  by (cases "rxStream (socks w i)"; cases "prvTcpCreateStream i True w"; cases "fst (prvTcpCreateStream i True w)";
      simp add: lTCPAddRxdata_def note_flags_def Let_def split_def frames;
      metis net_bufs_frame_3(3) snd_conv)+

text \<open>The two loops over the options of a segment.\<close>

lemma adapt_mss_frame: "adapt_mss m s = Some s' \<Longrightarrow> ucTcpState s' = ucTcpState s \<and> pxAckMessage s' = pxAckMessage s"
  by (auto simp: adapt_mss_def split: if_splits)

definition quiet :: "tcp_world \<Rightarrow> tcp_world \<Rightarrow> bool" where
  "quiet w w' \<longleftrightarrow> (\<forall>j. state_of w' j = state_of w j \<and> held w' j = held w j) \<and> free_bufs w' = free_bufs w \<and>
     next_sock w' = next_sock w \<and> net_out w' = net_out w \<and> arp_out w' = arp_out w \<and> net_bufs w' = net_bufs w"

lemma quiet_trans [trans]: "quiet w w' \<Longrightarrow> quiet w' w'' \<Longrightarrow> quiet w w''"
  by (simp add: quiet_def)

lemma sack_loop_quiet: "sack_loop i d p n w = Some (p', n', w') \<Longrightarrow> quiet w w'"
proof (induction i d p n w rule: sack_loop.induct)
  case (1 i d p n w)
  show ?case
  proof (cases "n \<ge> 8")
    case True
    then obtain f l where "ulChar2u32 d p = Some f" "ulChar2u32 d (p + 4) = Some l"
      "sack_loop i d (p + 8) (n - 8) (sack_block i f l w) = Some (p', n', w')"
      using "1.prems" by (subst (asm) sack_loop.simps) (auto split: option.splits)
    moreover have "quiet w (sack_block i f l w)" by (simp add: quiet_def frames)
    ultimately show ?thesis using "1.IH" [OF True refl] True quiet_trans by blast
  next
    case False
    then show ?thesis using "1.prems" by (subst (asm) sack_loop.simps) (simp add: quiet_def)
  qed
qed

lemma check_options_quiet: "check_options_loop i d p l w = Some w' \<Longrightarrow> quiet w w'"
proof (induction i d p l w rule: check_options_loop.induct)
  case (1 i d p l w)
  note unfold = check_options_loop.simps [of i d p l w]
  show ?case
  proof (cases "p < l")
    case False
    then show ?thesis using "1.prems" unfold by (simp add: quiet_def)
  next
    case True
    then obtain c0 where c0: "byte_at d p = Some c0" using "1.prems" unfold by (auto split: option.splits)
    show ?thesis
    proof (cases "c0 = TCP_OPT_END \<or> c0 = TCP_OPT_NOOP")
      case t: True
      then show ?thesis using "1.prems" "1.IH"(1) unfold True c0
        by (auto simp: quiet_def split: if_splits)
    next
      case False
      then obtain c1 where c1: "byte_at d (p + 1) = Some c1"
        using "1.prems" unfold True c0 by (auto split: option.splits)
      show ?thesis
      proof (cases "c0 = TCP_OPT_MSS \<and> c1 = TCP_OPT_MSS_LEN")
        case mss: True
        then obtain m s where m: "usChar2u16 d (p + 2) = Some m" "adapt_mss m (socks w i) = Some s"
          and rest: "check_options_loop i d (p + 4) l (upd_sock i (\<lambda>_. s) w) = Some w'"
          using "1.prems" unfold True c0 False c1 by (auto split: option.splits)
        have "quiet w (upd_sock i (\<lambda>_. s) w)"
          using adapt_mss_frame [OF m(2)] by (simp add: quiet_def socks_upd_sock)
        moreover have "quiet (upd_sock i (\<lambda>_. s) w) w'"
          using "1.IH"(2) [OF True c0 _ _ c1 mss m rest] False by blast
        ultimately show ?thesis by (rule quiet_trans)
      next
        case no_mss: False
        show ?thesis
        proof (cases "c1 = 0")
          case True
          then show ?thesis using "1.prems" unfold \<open>p < l\<close> c0 False c1 no_mss by (auto simp: quiet_def split: if_splits)
        next
          case c1': False
          show ?thesis
          proof (cases "c0 = TCP_OPT_SACK_A")
            case sack: True
            then obtain p1 n w1 where s: "sack_loop i d (p + 2) (int (unat c1) - 2) w = Some (p1, n, w1)"
              and rest: "check_options_loop i d (nat (int p1 + n)) l w1 = Some w'"
              using "1.prems" unfold True c0 False c1 no_mss c1' by (auto split: option.splits)
            have "quiet w1 w'" using "1.IH"(3) [OF True c0 _ _ c1 no_mss c1' sack s refl refl rest] False by blast
            then show ?thesis using sack_loop_quiet [OF s] quiet_trans by blast
          next
            case nosack: False
            then have rest: "check_options_loop i d (p + unat c1) l w = Some w'"
              using "1.prems" unfold True c0 False c1 no_mss c1' by (auto split: if_splits)
            show ?thesis using "1.IH"(4) [OF True c0 _ _ c1 no_mss c1' nosack rest] False by blast
          qed
        qed
      qed
    qed
  qed
qed

lemma check_options_frame: "prvCheckOptions i b w = Some w' \<Longrightarrow> quiet w w'"
  unfolding prvCheckOptions_def Let_def by (rule check_options_quiet)

section \<open>Following the states\<close>

text \<open>
  \<open>becomes i R w w'\<close>: the socket \<open>i\<close> has gone from a state to one that \<open>R\<close> relates it to, every
  other socket has kept its state.
\<close>

definition becomes :: "nat \<Rightarrow> (eIPTcpState_t \<Rightarrow> eIPTcpState_t \<Rightarrow> bool) \<Rightarrow> tcp_world \<Rightarrow> tcp_world \<Rightarrow> bool" where
  "becomes i R w w' \<longleftrightarrow> (\<forall>j. j \<noteq> i \<longrightarrow> state_of w' j = state_of w j) \<and> R (state_of w i) (state_of w' i)"

lemma becomes_same: "(\<And>j. state_of w' j = state_of w j) \<Longrightarrow> (\<And>s. R s s) \<Longrightarrow> becomes i R w w'"
  by (simp add: becomes_def)

lemma becomes_quiet: "quiet w w' \<Longrightarrow> (\<And>s. R s s) \<Longrightarrow> becomes i R w w'"
  by (simp add: becomes_def quiet_def)

lemma becomes_trans:
  assumes "becomes i R w w'" "becomes i S w' w''" "\<And>s t u. R s t \<Longrightarrow> S t u \<Longrightarrow> T s u"
  shows "becomes i T w w''"
  using assms by (auto simp: becomes_def)

lemma becomes_mono: "becomes i R w w' \<Longrightarrow> (\<And>t. R (state_of w i) t \<Longrightarrow> S (state_of w i) t) \<Longrightarrow> becomes i S w w'"
  by (simp add: becomes_def)

text \<open>Helpers that keep the states may come before or after.\<close>

lemma becomes_cong:
  assumes "\<And>j. state_of v j = state_of w j" "\<And>j. state_of v' j = state_of w' j"
  shows "becomes i R v v' = becomes i R w w'"
  using assms by (simp add: becomes_def)

lemma prepare_data_state:
  assumes "prepare_data i buf n w = Some (m, buf', w')"
  shows "state_of w' j = state_of w j"
  using assms
  by (auto simp: prepare_data_def Let_def split_def frames socks_upd_sock split: option.splits if_splits)

subsection \<open>Storing what was received\<close>

text \<open>Without memory for a stream the connection is given up.\<close>

definition gives_up :: "eIPTcpState_t \<Rightarrow> eIPTcpState_t \<Rightarrow> bool" where
  "gives_up s t \<longleftrightarrow> t = s \<or> t = eCLOSE_WAIT"

lemma gives_up_refl [simp]: "gives_up s s"
  by (simp add: gives_up_def)

lemma create_stream_state: "becomes i gives_up w (snd (prvTcpCreateStream i b w))"
  by (simp add: becomes_def gives_up_def prvTcpCreateStream_def Let_def split_def socks_upd_sock frames)

lemma add_rxdata_state: "becomes i gives_up w (snd (lTCPAddRxdata i pos d n w))"
proof -
  have "\<exists>v\<in>{w, snd (prvTcpCreateStream i True w)}. \<forall>j. state_of (snd (lTCPAddRxdata i pos d n w)) j = state_of v j"
    by (cases "rxStream (socks w i)"; cases "prvTcpCreateStream i True w"; cases "fst (prvTcpCreateStream i True w)")
      (simp_all add: lTCPAddRxdata_def Let_def split_def socks_upd_sock frames)
  then show ?thesis using create_stream_state [of i w True] by (auto simp: becomes_def)
qed

lemma store_rx_state:
  assumes "prvStoreRxData i d b n w = Some (r, w')"
  shows "becomes i (\<lambda>s t. t = s \<or> s \<ge> eSYN_RECEIVED \<and> t = eCLOSE_WAIT) w w'"
proof (cases "n > 0 \<and> state_of w i \<ge> eSYN_RECEIVED")
  case False
  then show ?thesis using assms by (auto simp: prvStoreRxData_def Let_def frames becomes_def)
next
  case True
  then obtain p g win where p:
    "lTCPWindowRxCheck (xTickCount w) (FreeRTOS_htonl (pktSequenceNumber (xTCPHeader (xPacket (net_bufs w b))))) n
       (case rxStream (socks w i) of Some sb \<Rightarrow> uxStreamBufferGetSpace sb | None \<Rightarrow> uxRxStreamSize (socks w i))
       (segs w) (xTcpWindow (socks w i)) = Some (p, g, win)"
    using assms by (auto simp: prvStoreRxData_def Let_def split: option.splits)
  let ?v = "(upd_win i (\<lambda>_. win) w)\<lparr>segs := g\<rparr>"
  obtain k w3 where k: "lTCPAddRxdata i (word_of_int p) (Some d) n ?v = (k, w3)" by (metis surj_pair)
  obtain x w2 where x: "(x, w2) = (if p \<ge> 0 then (if k \<noteq> sint n then (-1, prvTCPSendReset b w3) else (0, w3)) else (0, ?v))"
    by (metis surj_pair)
  have "w' = w2 \<or> (\<exists>u. w' = upd_win i (\<lambda>v. v\<lparr>ulUserDataLength := 0\<rparr>) (snd (lTCPAddRxdata i 0 None u w2)))"
    using assms True p x k by (auto simp: prvStoreRxData_def Let_def split: if_splits)
  moreover have w2: "becomes i gives_up w w2"
    using add_rxdata_state [of i ?v "word_of_int p" "Some d" n] x k
    by (auto simp: becomes_def frames split: if_splits)
  moreover have "becomes i gives_up w (snd (lTCPAddRxdata i 0 None u w2))" for u
    by (rule becomes_trans [OF w2 add_rxdata_state]) (auto simp: gives_up_def)
  ultimately have "becomes i gives_up w w'"
    by (auto simp: becomes_def frames)
  then show ?thesis using True by (auto elim!: becomes_mono simp: gives_up_def)
qed

subsection \<open>Sending\<close>

text \<open>While sending, an established connection may start to close, or be given up.\<close>

definition sends :: "eIPTcpState_t \<Rightarrow> eIPTcpState_t \<Rightarrow> bool" where
  "sends s t \<longleftrightarrow> t = s \<or> s = eESTABLISHED \<and> t \<in> {eFIN_WAIT_1, eCLOSE_WAIT}"

lemma sends_refl [simp]: "sends s s"
  by (simp add: sends_def)

lemma sends_trans: "sends s t \<Longrightarrow> sends t u \<Longrightarrow> sends s u"
  by (auto simp: sends_def)

lemma shutdown_state: "becomes i sends w (snd (shutdown_and_keepalive i p n w))"
  by (simp add: becomes_def sends_def shutdown_and_keepalive_def Let_def split_def socks_upd_sock frames)

lemma prepare_send_state:
  assumes "prvTCPPrepareSend i buf m w = Some (n, buf', w')"
  shows "becomes i sends w w'"
proof -
  obtain n0 w1 where d: "prepare_data i buf m (upd_tcp (packet_of i buf) (\<lambda>h. h\<lparr>ucTcpFlags := ucTcpFlags h OR ipTCP_FLAG_ACK\<rparr>) w)
      = Some (n0, buf', w1)"
    and w': "\<And>j. state_of w' j = state_of (snd (shutdown_and_keepalive i (packet_of i buf') n0 w1)) j"
    using assms by (auto simp: prvTCPPrepareSend_def Let_def split_def frames split: option.splits if_splits)
  have "becomes i sends w1 w'"
    using shutdown_state [of i w1 "packet_of i buf'" n0] by (simp add: becomes_def w')
  then show ?thesis using prepare_data_state [OF d] by (simp add: becomes_def frames)
qed

lemma send_loop_state:
  "send_repeated_loop i k buf r w = Some (n, buf', w') \<Longrightarrow> becomes i sends w w'"
proof (induction k arbitrary: buf r w)
  case 0
  then show ?case by (simp add: becomes_def)
next
  case (Suc k)
  let ?w = "snd (uxGetRxEventCount w)"
  have same: "becomes i sends w ?w" by (simp add: becomes_def frames)
  show ?case
  proof (cases "fst (uxGetRxEventCount w)")
    case True
    then show ?thesis using Suc.prems same by (simp add: Let_def split_def)
  next
    case False
    then obtain m buf1 w2 where p: "prvTCPPrepareSend i buf 0 ?w = Some (m, buf1, w2)"
      using Suc.prems by (auto simp: split_def split: option.splits)
    have two: "becomes i sends w w2"
      by (rule becomes_trans [OF same prepare_send_state [OF p]]) (rule sends_trans)
    show ?thesis
    proof (cases "m \<le> 0")
      case True
      then show ?thesis using Suc.prems p False two by (simp add: split_def)
    next
      case m: False
      let ?w3 = "prvTCPReturnPacket (Some i) (packet_of i buf1) (word_of_int m) w2"
      have "becomes i sends ?w3 w'"
        by (rule Suc.IH) (use Suc.prems p False m in \<open>simp add: split_def\<close>)
      then have "becomes i sends w2 w'" by (simp add: becomes_def frames)
      then show ?thesis by (rule becomes_trans [OF two]) (rule sends_trans)
    qed
  qed
qed

lemma send_repeated_state:
  "prvTCPSendRepeated i buf w = Some (n, buf', w') \<Longrightarrow> becomes i sends w w'"
  unfolding prvTCPSendRepeated_def by (rule send_loop_state)

lemma send_packet_state:
  assumes "prvTCPSendPacket i w = Some (n, w')"
  shows "becomes i (\<lambda>s t. sends s t \<or> s = eCONNECT_SYN \<and> t = eCLOSE_WAIT) w w'"
proof (cases "state_of w i = eCONNECT_SYN")
  case True
  then show ?thesis using assms
    by (auto simp: prvTCPSendPacket_def becomes_def Let_def split_def socks_upd_sock frames split: if_splits)
next
  case False
  then obtain buf w1 where "prvTCPSendRepeated i None w = Some (n, buf, w1)"
    and w': "w' = (case buf of None \<Rightarrow> w1 | Some b \<Rightarrow> release_net_buffer b w1)"
    using assms by (auto simp: prvTCPSendPacket_def split: option.splits)
  then have "becomes i sends w w1" using send_repeated_state by blast
  then show ?thesis using w' by (auto simp: becomes_def frames split: option.split)
qed

subsection \<open>A received segment\<close>

definition closes :: "eIPTcpState_t \<Rightarrow> eIPTcpState_t \<Rightarrow> bool" where
  "closes s t \<longleftrightarrow> t \<in> {s, eLAST_ACK, eCLOSE_WAIT}"

lemma fin_seen_frame [frames]:
  "state_of (fin_seen i h w) j = state_of w j" "held (fin_seen i h w) j = held w j"
  "free_bufs (fin_seen i h w) = free_bufs w" "next_sock (fin_seen i h w) = next_sock w"
  "net_out (fin_seen i h w) = net_out w" "arp_out (fin_seen i h w) = arp_out w"
  by (simp_all add: fin_seen_def Let_def frames)

lemma fin_reply_frame [frames]:
  "held (fin_reply i p w) j = held w j" "free_bufs (fin_reply i p w) = free_bufs w"
  "next_sock (fin_reply i p w) = next_sock w" "net_out (fin_reply i p w) = net_out w"
  "arp_out (fin_reply i p w) = arp_out w"
  by (simp_all add: fin_reply_def Let_def frames)

lemma fin_reply_state: "becomes i closes w (fin_reply i p w)"
  by (simp add: becomes_def closes_def fin_reply_def Let_def frames)

lemma handle_fin_state: "becomes i closes w (snd (prvTCPHandleFin i b w))"
  using fin_reply_state [of i "fin_seen i (xTCPHeader (packet w (NetBuf b))) w" "NetBuf b"]
  by (simp add: becomes_def prvTCPHandleFin_def Let_def frames)

lemma note_flags_state:
  "becomes i (\<lambda>s t. t = (if s = eSYN_RECEIVED \<and> fl AND ipTCP_FLAG_CTRL = ipTCP_FLAG_SYN then eSYN_FIRST else s)) w
     (note_flags i fl n m w)"
  by (simp add: becomes_def note_flags_def Let_def frames)

lemma answer_syn_state: "becomes i (\<lambda>s t. t = eSYN_RECEIVED) w (snd (answer_syn i b n w))"
  by (simp add: becomes_def answer_syn_def Let_def split_def frames)

text \<open>The flags that complete a handshake.\<close>

definition handshake :: "eIPTcpState_t \<Rightarrow> u8 \<Rightarrow> bool" where
  "handshake s fl \<longleftrightarrow> s = eCONNECT_SYN \<and> fl AND 0x17 = ipTCP_FLAG_ACK OR ipTCP_FLAG_SYN \<or>
     s = eSYN_RECEIVED \<and> fl AND 0x17 = ipTCP_FLAG_ACK"

lemma handle_syn_received_state:
  assumes "state_of w i = eCONNECT_SYN \<or> state_of w i = eSYN_RECEIVED"
  shows "becomes i (\<lambda>s t. t = (if handshake s (ucTcpFlags (xTCPHeader (xPacket (net_bufs w b)))) then eESTABLISHED else eCLOSE_WAIT))
     w (snd (prvHandleSynReceived i b n m w))"
  using assms
  by (auto simp: becomes_def prvHandleSynReceived_def handshake_def Let_def split_def socks_upd_sock frames)

lemma send_data_state: "state_of (snd (snd (prvSendData i buf n m w))) j = state_of w j"
  by (simp add: prvSendData_def Let_def split_def socks_upd_sock frames split: option.split)

definition works :: "eIPTcpState_t \<Rightarrow> eIPTcpState_t \<Rightarrow> bool" where
  "works s t \<longleftrightarrow> closes s t \<or> sends s t"

lemma established_input_frame [frames]:
  "state_of (established_input i b w) j = state_of w j" "held (established_input i b w) j = held w j"
  "free_bufs (established_input i b w) = free_bufs w" "next_sock (established_input i b w) = next_sock w"
  "net_out (established_input i b w) = net_out w" "arp_out (established_input i b w) = arp_out w"
  by (simp_all add: established_input_def Let_def socks_upd_sock frames)

lemma established_header_frame [frames]:
  "state_of (established_header i b n m w) j = state_of w j" "held (established_header i b n m w) j = held w j"
  "free_bufs (established_header i b n m w) = free_bufs w" "next_sock (established_header i b n m w) = next_sock w"
  "net_out (established_header i b n m w) = net_out w" "arp_out (established_header i b n m w) = arp_out w"
  by (simp_all add: established_header_def Let_def frames)

lemma established_answer_state:
  assumes "established_answer i b n m w = Some (k, buf, w')"
  shows "becomes i sends w w'"
proof (cases "m = 0")
  case True
  then obtain l where l: "prvTCPPrepareSend i (Some b) m (established_header i b n m w) = Some (l, buf, w')"
    using assms by (auto simp: established_answer_def Let_def split: option.splits)
  show ?thesis using prepare_send_state [OF l] by (simp add: becomes_def frames)
next
  case False
  then show ?thesis using assms by (auto simp: established_answer_def Let_def becomes_def frames)
qed

lemma handle_established_state:
  assumes "prvHandleEstablished i b n m w = Some (k, buf, w')"
  shows "becomes i works w w'"
proof -
  let ?u = "upd_bits i (\<lambda>f. f\<lparr>bFinAccepted := True\<rparr>) (established_input i b w)"
  have "w' = snd (prvTCPHandleFin i b ?u) \<or> established_answer i b n m (established_input i b w) = Some (k, buf, w')"
    using assms by (auto simp: prvHandleEstablished_def Let_def split_def split: if_splits)
  then show ?thesis
  proof
    assume "w' = snd (prvTCPHandleFin i b ?u)"
    then show ?thesis using handle_fin_state [of i ?u b] by (simp add: becomes_def works_def frames)
  next
    assume "established_answer i b n m (established_input i b w) = Some (k, buf, w')"
    then have "becomes i sends (established_input i b w) w'" by (rule established_answer_state)
    then show ?thesis by (simp add: becomes_def works_def frames)
  qed
qed

text \<open>What becomes of a socket in the \<open>switch\<close> over the states, for a segment with the flags \<open>fl\<close>.\<close>

definition acts :: "u8 \<Rightarrow> eIPTcpState_t \<Rightarrow> eIPTcpState_t \<Rightarrow> bool" where
  "acts fl s t \<longleftrightarrow>
     (case s of
        eSYN_FIRST \<Rightarrow> t = eSYN_RECEIVED
      | eCONNECT_SYN \<Rightarrow> t = (if handshake s fl then eESTABLISHED else eCLOSE_WAIT)
      | eSYN_RECEIVED \<Rightarrow> t = (if handshake s fl then eESTABLISHED else eCLOSE_WAIT)
      | eESTABLISHED \<Rightarrow> works s t
      | eLAST_ACK \<Rightarrow> closes s t
      | eFIN_WAIT_1 \<Rightarrow> closes s t
      | eFIN_WAIT_2 \<Rightarrow> closes s t
      | _ \<Rightarrow> t = s)"

lemma state_action_state:
  assumes "state_action i b n m k w = Some (l, buf, w')"
  shows "becomes i (acts (ucTcpFlags (xTCPHeader (xPacket (net_bufs w b))))) w w'"
proof (cases "state_of w i")
  case eCONNECT_SYN
  then show ?thesis using assms handle_syn_received_state [of w i b m k]
    by (simp add: state_action_def Let_def split_def acts_def becomes_def)
next
  case eSYN_RECEIVED
  then show ?thesis using assms handle_syn_received_state [of w i b m k]
    by (simp add: state_action_def Let_def split_def acts_def becomes_def)
next
  case eESTABLISHED
  then have "becomes i works w w'"
    using assms handle_established_state by (simp add: state_action_def Let_def)
  then show ?thesis using eESTABLISHED by (simp add: acts_def becomes_def)
qed (use assms answer_syn_state [of i w b n] handle_fin_state [of i w b] in
    \<open>simp_all add: state_action_def Let_def split_def acts_def becomes_def\<close>)

text \<open>And when it handles the segment as a whole, before it sends more.\<close>

definition handles :: "u8 \<Rightarrow> eIPTcpState_t \<Rightarrow> eIPTcpState_t \<Rightarrow> bool" where
  "handles fl s u \<longleftrightarrow>
     (\<exists>t. (t = s \<or> s \<ge> eSYN_RECEIVED \<and> t = eCLOSE_WAIT) \<and>
        (u = t \<or> acts fl (if t = eSYN_RECEIVED \<and> fl AND ipTCP_FLAG_CTRL = ipTCP_FLAG_SYN then eSYN_FIRST else t) u))"

lemma handles_stored: "t = s \<or> s \<ge> eSYN_RECEIVED \<and> t = eCLOSE_WAIT \<Longrightarrow> handles fl s t"
  unfolding handles_def by blast

lemma handles_acted:
  assumes "\<exists>t. (t = s \<or> s \<ge> eSYN_RECEIVED \<and> t = eCLOSE_WAIT) \<and>
      v = (if t = eSYN_RECEIVED \<and> fl AND ipTCP_FLAG_CTRL = ipTCP_FLAG_SYN then eSYN_FIRST else t)"
    and "acts fl v u"
  shows "handles fl s u"
  using assms unfolding handles_def by blast

text \<open>The flags of the segment are still those it came with when the state is looked at.\<close>

abbreviation flags_at :: "tcp_world \<Rightarrow> nat \<Rightarrow> u8" where
  "flags_at w b \<equiv> ucTcpFlags (xTCPHeader (xPacket (net_bufs w b)))"

lemma set_options_flags: "flags_at (snd (prvSetOptions i b w)) b = flags_at w b"
  by (simp add: prvSetOptions_def upd_tcp_def Let_def frames)

lemma store_rx_flags:
  assumes "prvStoreRxData i d b n w = Some (r, w')" "\<not> r < 0"
  shows "flags_at w' b = flags_at w b"
  using assms by (auto simp: prvStoreRxData_def Let_def split_def frames split: option.splits if_splits)

lemma handle_state_state:
  assumes "prvTCPHandleState i b w = Some (n, buf, w')"
  shows "becomes i (handles (flags_at w b)) w w'"
proof -
  obtain len d where l: "prvCheckRxData b w = (len, d)" by (metis surj_pair)
  let ?fl = "flags_at w b"
  let ?sn = "FreeRTOS_htonl (pktSequenceNumber (xTCPHeader (xPacket (net_bufs w b))))"
  let ?v = "note_packet i ?sn len w"
  obtain r w1 where s: "prvStoreRxData i d b len ?v = Some (r, w1)"
    using assms l by (auto simp: prvTCPHandleState_def Let_def split: option.splits)
  have st1: "becomes i (\<lambda>s t. t = s \<or> s \<ge> eSYN_RECEIVED \<and> t = eCLOSE_WAIT) w w1"
    using store_rx_state [OF s] by (simp add: becomes_def frames)
  show ?thesis
  proof (cases "r < 0")
    case True
    then have "w' = w1" using assms l s by (simp add: prvTCPHandleState_def Let_def)
    then show ?thesis using st1 handles_stored by (simp add: becomes_def)
  next
    case False
    let ?w3 = "note_flags i ?fl ?sn len (snd (prvSetOptions i b w1))"
    define m where "m = fst (prvSetOptions i b w1)"
    have fl: "flags_at ?w3 b = ?fl"
      using store_rx_flags [OF s False] set_options_flags [of i b w1] by (simp add: frames)
    have st3: "becomes i (\<lambda>s u. \<exists>t. (t = s \<or> s \<ge> eSYN_RECEIVED \<and> t = eCLOSE_WAIT) \<and>
        u = (if t = eSYN_RECEIVED \<and> ?fl AND ipTCP_FLAG_CTRL = ipTCP_FLAG_SYN then eSYN_FIRST else t)) w ?w3"
    proof (rule becomes_trans [OF st1])
      show "becomes i (\<lambda>s t. t = (if s = eSYN_RECEIVED \<and> ?fl AND ipTCP_FLAG_CTRL = ipTCP_FLAG_SYN then eSYN_FIRST else s))
          w1 ?w3"
        using note_flags_state [of i ?fl "snd (prvSetOptions i b w1)" ?sn len] by (simp add: becomes_def frames)
    qed (intro exI conjI)
    obtain k buf4 w4 where a: "state_action i b ?sn len m ?w3 = Some (k, buf4, w4)"
      using assms l s False by (auto simp: prvTCPHandleState_def Let_def split_def m_def split: option.splits)
    have "becomes i (acts ?fl) ?w3 w4" using state_action_state [OF a] fl by simp
    moreover have "state_of w' j = state_of w4 j" for j
      using assms l s False a send_data_state [of i buf4 len k w4 j]
      by (auto simp: prvTCPHandleState_def Let_def split_def m_def split: if_splits)
    ultimately have "becomes i (acts ?fl) ?w3 w'" by (simp add: becomes_def)
    then show ?thesis by (rule becomes_trans [OF st3]) (rule handles_acted)
  qed
qed

text \<open>Then what is queued may be sent, and the socket is looked at again later.\<close>

definition receives :: "u8 \<Rightarrow> eIPTcpState_t \<Rightarrow> eIPTcpState_t \<Rightarrow> bool" where
  "receives fl s u \<longleftrightarrow> (\<exists>t. handles fl s t \<and> sends t u)"

lemma process_socket_state:
  assumes "process_for_socket i b w = Some w'"
  shows "becomes i (receives (flags_at w b)) w w'"
proof -
  let ?h = "xTCPHeader (xPacket (net_bufs w b))"
  obtain w2 where o: "(if ucTcpOffset ?h AND 0xf0 > 0x50 then prvCheckOptions i b (prvTCPTouchSocket i w)
      else Some (prvTCPTouchSocket i w)) = Some w2"
    using assms by (auto simp: process_for_socket_def Let_def split: option.splits)
  have q: "quiet (prvTCPTouchSocket i w) w2"
    using o check_options_frame [of i b "prvTCPTouchSocket i w" w2] by (auto simp: quiet_def split: if_splits)
  let ?v = "upd_sock i (\<lambda>s. s\<lparr>wnd := ucast (FreeRTOS_htons (usWindow ?h))\<rparr>) w2"
  obtain n buf w3 where h: "prvTCPHandleState i b ?v = Some (n, buf, w3)"
    using assms o by (auto simp: process_for_socket_def Let_def split: option.splits)
  obtain k buf1 w4 where r: "(if n > 0 then prvTCPSendRepeated i buf w3 else Some (0, buf, w3)) = Some (k, buf1, w4)"
    and w': "w' = snd (prvTCPNextTimeout i (case buf1 of None \<Rightarrow> w4 | Some a \<Rightarrow> release_net_buffer a w4))"
    using assms o h by (auto simp: process_for_socket_def Let_def split: option.splits)
  have "becomes i (handles (flags_at w b)) w w3"
    using handle_state_state [OF h] q by (simp add: becomes_def quiet_def socks_upd_sock frames)
  moreover have "becomes i sends w3 w4"
    using r send_repeated_state by (auto simp: becomes_def split: if_splits)
  ultimately have "becomes i (receives (flags_at w b)) w w4"
    by (rule becomes_trans) (auto simp: receives_def)
  then show ?thesis using w' by (simp add: becomes_def frames split: option.split)
qed

text \<open>The socket that takes a SYN starts with its first state.\<close>

lemma take_syn_state: "becomes j (\<lambda>s t. t = eSYN_FIRST) w (take_syn j b w)"
  by (simp add: becomes_def take_syn_def Let_def socks_upd_sock frames)

lemma take_syn_flags: "flags_at (take_syn j b w) c = flags_at w c"
  by (simp add: take_syn_def Let_def frames)

subsection \<open>Binding and closing\<close>

lemma set_count_frame [frames]:
  "state_of (prvTCPSetSocketCount i w) j = state_of w j" "held (prvTCPSetSocketCount i w) j = held w j"
  "free_bufs (prvTCPSetSocketCount i w) = free_bufs w" "next_sock (prvTCPSetSocketCount i w) = next_sock w"
  "net_out (prvTCPSetSocketCount i w) = net_out w" "arp_out (prvTCPSetSocketCount i w) = arp_out w"
  "net_bufs (prvTCPSetSocketCount i w) = net_bufs w"
  by (simp_all add: prvTCPSetSocketCount_def socks_upd_sock split: option.split)

lemma close_frame [frames]:
  "state_of (vSocketClose i w) j = state_of w j" "held (vSocketClose i w) j = held w j"
  "next_sock (vSocketClose i w) = next_sock w" "net_out (vSocketClose i w) = net_out w"
  "arp_out (vSocketClose i w) = arp_out w"
  by (simp_all add: vSocketClose_def Let_def split_def socks_upd_sock frames split: option.split)

lemma net_bufs_release [frames]: "net_bufs (release_net_buffer b w) = net_bufs w"
  by (simp add: release_net_buffer_def)

lemma net_bufs_close [frames]: "net_bufs (vSocketClose i w) = net_bufs w"
  by (simp add: vSocketClose_def Let_def split_def frames split: option.split)

lemma bind_quiet: "vSocketBind i p b w = Some (r, w') \<Longrightarrow> quiet w w'"
  by (auto simp: vSocketBind_def prvGetPrivatePortNumber_def quiet_def socks_upd_sock Let_def
      split: option.splits if_splits)

lemma new_client_quiet: "quiet w (snd (xTCPCheckNewClient i w))"
  by (simp add: xTCPCheckNewClient_def quiet_def socks_upd_sock split: option.split)

lemma copy_properties_quiet: "quiet w (copy_properties j i w)"
  by (simp add: copy_properties_def quiet_def Let_def socks_upd_sock split: option.split)

lemma socket_copy_state:
  assumes "prvTCPSocketCopy j i w = Some (ok, w')"
  shows "state_of w' k = state_of w k" "net_bufs w' = net_bufs w" "next_sock w' = next_sock w"
    "net_out w' = net_out w" "arp_out w' = arp_out w"
proof -
  define v where "v = upd_sock i (\<lambda>s. s\<lparr>usChildCount := usChildCount s + 1\<rparr>)
    (upd_sock j (\<lambda>c. c\<lparr>bits := (bits c)\<lparr>bPassQueued := True\<rparr>, pxPeerSocket := Some i\<rparr>) (copy_properties j i w))"
  have v: "quiet w v" using copy_properties_quiet [of w j i] by (auto simp: v_def quiet_def socks_upd_sock)
  obtain r w1 where b: "vSocketBind j (Some (FreeRTOS_htons (usLocPort (socks v i)))) True v = Some (r, w1)"
    and w': "w' = (if r \<noteq> 0 then vSocketClose j w1 else w1)"
    using assms by (auto simp: prvTCPSocketCopy_def Let_def simp flip: v_def split: option.splits if_splits)
  from bind_quiet [OF b] v w' show "state_of w' k = state_of w k" "net_bufs w' = net_bufs w" "next_sock w' = next_sock w"
    "net_out w' = net_out w" "arp_out w' = arp_out w"
    by (simp_all add: quiet_def frames)
qed

lemma socket_state:
  assumes "FreeRTOS_socket w = (r, w')"
  shows "k < next_sock w \<Longrightarrow> state_of w' k = state_of w k" "r = Some j \<Longrightarrow> j = next_sock w" "net_bufs w' = net_bufs w"
  using assms
  by (auto simp: FreeRTOS_socket_def Let_def split_def socks_upd_sock frames pvPortMallocLarge_def split: if_splits)

subsection \<open>Listening\<close>

lemma listen_state:
  assumes "prvHandleListen i b w = Some (r, w')" "k < next_sock w"
  shows "state_of w' k = state_of w k \<or> r = Some k \<and> k = i \<and> state_of w' k = eSYN_FIRST"
    and "r = Some j \<Longrightarrow> state_of w' j = eSYN_FIRST \<and> (j = i \<or> j = next_sock w)"
    and "r = Some j \<Longrightarrow> flags_at w' b = flags_at w b"
proof -
  consider (reuse) v where "quiet w v" "r = Some i" "w' = take_syn i b v"
    | (full) "r = None" "w' = prvTCPSendReset b w"
    | (none) w1 where "FreeRTOS_socket w = (None, w1)" "r = None" "w' = prvTCPSendReset b w1"
    | (child) j w1 ok w2 where "FreeRTOS_socket w = (Some j, w1)" "prvTCPSocketCopy j i w1 = Some (ok, w2)"
        "if ok then r = Some j \<and> w' = take_syn j b w2 else r = None \<and> w' = w2"
  proof (cases "bReuseSocket (bits (socks w i))")
    case True
    let ?v = "upd_sock i (\<lambda>s. s\<lparr>bits := (bits s)\<lparr>bPassQueued := True\<rparr>, pxPeerSocket := Some i\<rparr>) w"
    have "quiet w ?v" by (simp add: quiet_def socks_upd_sock)
    then show thesis using assms(1) True by (intro that(1) [of ?v]) (auto simp: prvHandleListen_def)
  next
    case False
    obtain r1 w1 where s: "FreeRTOS_socket w = (r1, w1)" by (metis surj_pair)
    show thesis
      using assms(1) False s that(2-4) by (auto simp: prvHandleListen_def split: if_splits option.splits)
  qed
  note cases = this
  show "state_of w' k = state_of w k \<or> r = Some k \<and> k = i \<and> state_of w' k = eSYN_FIRST"
  proof (cases rule: cases)
    case reuse
    then show ?thesis using take_syn_state [of i v b] by (auto simp: becomes_def quiet_def)
  next
    case full
    then show ?thesis by (simp add: frames)
  next
    case none
    then show ?thesis using socket_state(1) [OF none(1) assms(2)] by (simp add: frames)
  next
    case child
    have j: "j = next_sock w" using socket_state(2) [OF child(1) refl] .
    have same: "state_of w2 k = state_of w k"
      using socket_state(1) [OF child(1) assms(2)] socket_copy_state(1) [OF child(2)] by simp
    show ?thesis using child(3) same j assms(2) take_syn_state [of j w2 b] by (auto simp: becomes_def split: if_splits)
  qed
  assume r: "r = Some j"
  show "state_of w' j = eSYN_FIRST \<and> (j = i \<or> j = next_sock w)"
  proof (cases rule: cases)
    case reuse
    then show ?thesis using r take_syn_state [of i v b] by (simp add: becomes_def)
  next
    case (child j' w1 ok w2)
    then show ?thesis using r take_syn_state [of j' w2 b] socket_state(2) [OF child(1) refl]
      by (auto simp: becomes_def split: if_splits)
  qed (use r in simp_all)
  show "flags_at w' b = flags_at w b"
  proof (cases rule: cases)
    case reuse
    then show ?thesis by (simp add: take_syn_flags quiet_def)
  next
    case (child j' w1 ok w2)
    then show ?thesis using r take_syn_flags [of j' b w2 b] socket_state(3) [OF child(1)] socket_copy_state(2) [OF child(2)]
      by (auto split: if_splits)
  qed (use r in simp_all)
qed

subsection \<open>The entry points\<close>

definition looked_up :: "tcp_world \<Rightarrow> nat \<Rightarrow> nat option" where
  "looked_up w b =
     (let q = xPacket (net_bufs w b) in
      pxTCPSocketLookup w (FreeRTOS_htons (usDestinationPort (xTCPHeader q)))
        (FreeRTOS_htonl (ulSourceIPAddress (xIPHeader q))) (FreeRTOS_htons (usSourcePort (xTCPHeader q))))"

lemma tcp_lookup_match:
  "tcp_lookup w lp ip rp is l = Some k \<Longrightarrow> l = Some k \<or>
     k \<in> set is \<and> usLocPort (socks w k) = lp \<and>
     (state_of w k = eTCP_LISTEN \<or> usRemotePort (socks w k) = rp \<and> ulRemoteIP (socks w k) = ip)"
proof (induction "is" arbitrary: l)
  case (Cons i "is")
  then show ?case by (fastforce split: if_splits)
qed simp

lemma lookup_match:
  assumes "looked_up w b = Some k"
  shows "k \<in> set (xBoundTcpSocketsList w)"
    "usLocPort (socks w k) = FreeRTOS_htons (usDestinationPort (xTCPHeader (xPacket (net_bufs w b))))"
    "state_of w k \<noteq> eTCP_LISTEN \<Longrightarrow>
       usRemotePort (socks w k) = FreeRTOS_htons (usSourcePort (xTCPHeader (xPacket (net_bufs w b)))) \<and>
       ulRemoteIP (socks w k) = FreeRTOS_htonl (ulSourceIPAddress (xIPHeader (xPacket (net_bufs w b))))"
  using tcp_lookup_match [OF assms [unfolded looked_up_def Let_def pxTCPSocketLookup_def]] by auto

text \<open>A segment with the flags \<open>fl\<close> takes the socket it is for from \<open>s\<close> to \<open>u\<close>.\<close>

definition segment_moves :: "u8 \<Rightarrow> eIPTcpState_t \<Rightarrow> eIPTcpState_t \<Rightarrow> bool" where
  "segment_moves fl s u \<longleftrightarrow>
     prvTCPSocketIsActive s \<and>
     (if s = eTCP_LISTEN then fl AND ipTCP_FLAG_CTRL = ipTCP_FLAG_SYN \<and> receives fl eSYN_FIRST u
      else if fl AND ipTCP_FLAG_RST \<noteq> 0 then u = eCLOSED
      else receives fl s u)"

lemma segment_state:
  assumes "xProcessReceivedTCPPacket b w = Some (r, w')" "k < next_sock w"
  shows "state_of w' k = state_of w k \<or> looked_up w b = Some k \<and> segment_moves (flags_at w b) (state_of w k) (state_of w' k)"
proof (cases "looked_up w b")
  case None
  then show ?thesis using assms
    by (auto simp: xProcessReceivedTCPPacket_def looked_up_def Let_def frames split: if_splits)
next
  case (Some i)
  let ?h = "xTCPHeader (xPacket (net_bufs w b))"
  let ?fl = "ucTcpFlags ?h"
  let ?w1 = "upd_sock i (\<lambda>s. s\<lparr>ucRepCount := 0\<rparr>) w"
  have same1: "state_of ?w1 j = state_of w j" for j by (simp add: socks_upd_sock)
  note unfold = xProcessReceivedTCPPacket_def Let_def
  note look = Some [unfolded looked_up_def Let_def]
  show ?thesis
  proof (cases "prvTCPSocketIsActive (state_of w i)")
    case False
    then show ?thesis using assms look by (auto simp: unfold frames split: if_splits)
  next
    case active: True
    show ?thesis
    proof (cases "state_of w i = eTCP_LISTEN")
      case listen: True
      show ?thesis
      proof (cases "?fl AND ipTCP_FLAG_CTRL = ipTCP_FLAG_SYN")
        case False
        then show ?thesis using assms look active listen by (auto simp: unfold frames same1 split: if_splits)
      next
        case syn: True
        obtain r1 w2 where l: "prvHandleListen i b ?w1 = Some (r1, w2)"
          using assms look active listen syn by (auto simp: unfold same1 split: option.splits)
        have k1: "k < next_sock ?w1" using assms(2) by simp
        show ?thesis
        proof (cases r1)
          case None
          then show ?thesis using assms look active listen syn l listen_state(1) [OF l k1]
            by (auto simp: unfold same1)
        next
          case (Some j)
          then have p: "process_for_socket j b w2 = Some w'"
            using assms look active listen syn l by (auto simp: unfold same1)
          have m: "becomes j (receives ?fl) w2 w'"
            using process_socket_state [OF p] listen_state(3) [OF l k1 Some] by simp
          have j: "state_of w2 j = eSYN_FIRST" "j = i \<or> j = next_sock w" using listen_state(2) [OF l k1 Some] by simp_all
          show ?thesis
          proof (cases "k = j")
            case True
            then have "k = i" using j(2) assms(2) by simp
            then show ?thesis using m j True active listen syn \<open>looked_up w b = Some i\<close>
              by (simp add: becomes_def segment_moves_def)
          next
            case False
            then show ?thesis using m listen_state(1) [OF l k1] Some same1 by (simp add: becomes_def)
          qed
        qed
      qed
    next
      case no_listen: False
      show ?thesis
      proof (cases "?fl AND ipTCP_FLAG_RST \<noteq> 0")
        case True
        then show ?thesis using assms look active no_listen \<open>looked_up w b = Some i\<close>
          by (cases "k = i") (auto simp: unfold frames same1 segment_moves_def)
      next
        case no_rst: False
        show ?thesis
        proof (cases "?fl AND ipTCP_FLAG_CTRL = ipTCP_FLAG_SYN \<and> state_of w i \<ge> eESTABLISHED")
          case True
          then show ?thesis using assms look active no_listen no_rst by (auto simp: unfold same1)
        next
          case False
          let ?v = "upd_sock i (\<lambda>s. s\<lparr>lastPacket := (lastPacket s)\<lparr>xTCPHeader := ?h\<rparr>\<rparr>) ?w1"
          have "process_for_socket i b ?v = Some w'"
            using assms look active no_listen no_rst False by (auto simp: unfold same1)
          from process_socket_state [OF this] have m: "becomes i (receives ?fl) w w'"
            by (simp add: becomes_def socks_upd_sock)
          show ?thesis using m active no_listen no_rst \<open>looked_up w b = Some i\<close>
            by (cases "k = i") (simp_all add: becomes_def segment_moves_def)
        qed
      qed
    qed
  qed
qed

text \<open>The timer.\<close>

definition ticks :: "eIPTcpState_t \<Rightarrow> eIPTcpState_t \<Rightarrow> bool" where
  "ticks s u \<longleftrightarrow> u = s \<or> s = eESTABLISHED \<and> u = eFIN_WAIT_1 \<or>
     s \<notin> {eCLOSED, eTCP_LISTEN, eCLOSE_WAIT} \<and> u = eCLOSE_WAIT"

lemma ticks_trans: "ticks s t \<Longrightarrow> ticks t u \<Longrightarrow> ticks s u"
  by (auto simp: ticks_def)

lemma age_check_state: "becomes i ticks w (snd (prvTCPStatusAgeCheck i w))"
  by (auto simp: becomes_def ticks_def prvTCPStatusAgeCheck_def Let_def frames)

lemma delayed_ack_state: "state_of (snd (delayed_ack i w)) j = state_of w j"
  by (simp add: delayed_ack_def Let_def split_def socks_upd_sock frames split: option.split)

lemma socket_check_state:
  assumes "xTCPSocketCheck i w = Some (r, w')"
  shows "becomes i ticks w w'"
proof -
  define w1 where "w1 = (if state_of w i \<ge> eESTABLISHED \<and> txStream (socks w i) \<noteq> None then prvTCPAddTxData i w else w)"
  define w2 where "w2 = snd (delayed_ack i w1)"
  have w2: "state_of w2 j = state_of w j" for j by (simp add: w2_def w1_def delayed_ack_state frames)
  have eq: "xTCPSocketCheck i w =
    (if fst (delayed_ack i w1) then Some (0, w2)
     else (case (if state_of w2 i \<ge> eESTABLISHED \<or> state_of w2 i = eCONNECT_SYN
                 then prvTCPSendPacket i w2 else Some (0, w2)) of
             None \<Rightarrow> None
           | Some (_, w3) \<Rightarrow> Some (prvTCPStatusAgeCheck i (snd (prvTCPNextTimeout i w3)))))"
    by (simp add: xTCPSocketCheck_def Let_def split_def w1_def w2_def)
  show ?thesis
  proof (cases "fst (delayed_ack i w1)")
    case True
    then have "w' = w2" using assms eq by simp
    then show ?thesis using w2 by (simp add: becomes_def ticks_def)
  next
    case False
    then obtain k w3 where s: "(if state_of w2 i \<ge> eESTABLISHED \<or> state_of w2 i = eCONNECT_SYN
        then prvTCPSendPacket i w2 else Some (0, w2)) = Some (k, w3)"
      and w': "w' = snd (prvTCPStatusAgeCheck i (snd (prvTCPNextTimeout i w3)))"
      using assms unfolding eq by (auto split: option.splits)
    have "becomes i ticks w2 w3"
      using s send_packet_state [of i w2 k w3] by (auto simp: becomes_def sends_def ticks_def split: if_splits)
    moreover have "becomes i ticks w3 w'"
      using age_check_state [of i "snd (prvTCPNextTimeout i w3)"] w' by (simp add: becomes_def frames)
    ultimately have "becomes i ticks w2 w'" by (rule becomes_trans) (rule ticks_trans)
    then show ?thesis using w2 by (simp add: becomes_def)
  qed
qed

lemma timer_socket_state:
  assumes "timer_check_socket sl d i x w = Some (y, stop, w')"
  shows "becomes i ticks w w'"
proof (cases "usTimeout (socks w i) = 0")
  case True
  then show ?thesis using assms by (simp add: timer_check_socket_def becomes_def ticks_def)
next
  case False
  obtain r w1 where c: "(if d < ucast (usTimeout (socks w i))
               then Some (0, upd_sock i (\<lambda>s. s\<lparr>usTimeout := ucast (ucast (usTimeout s) - d)\<rparr>) w)
               else xTCPSocketCheck i (upd_sock i (\<lambda>s. s\<lparr>usTimeout := 0\<rparr>) w)) = Some (r, w1)"
    using assms False by (auto simp: timer_check_socket_def Let_def split: option.splits)
  have "becomes i ticks w w1"
    using c socket_check_state [of i "upd_sock i (\<lambda>s. s\<lparr>usTimeout := 0\<rparr>) w" r w1]
    by (auto simp: becomes_def ticks_def socks_upd_sock split: if_splits)
  moreover have "state_of w' j = state_of w1 j" for j
    using assms False c by (auto simp: timer_check_socket_def Let_def split_def frames split: if_splits)
  ultimately show ?thesis by (simp add: becomes_def)
qed

lemma timer_loop_state:
  "timer_check_loop sl d is x w = Some (t, w') \<Longrightarrow> ticks (state_of w k) (state_of w' k)"
proof (induction "is" arbitrary: x w)
  case Nil
  then show ?case by (simp add: ticks_def)
next
  case (Cons i js)
  obtain y stop w1 where s: "timer_check_socket sl d i x w = Some (y, stop, w1)"
    using Cons.prems by (auto split: option.splits)
  have one: "ticks (state_of w k) (state_of w1 k)"
    using timer_socket_state [OF s] by (cases "k = i") (auto simp: becomes_def ticks_def)
  show ?case
  proof (cases stop)
    case True
    then show ?thesis using Cons.prems s one by simp
  next
    case False
    then have "timer_check_loop sl d js y w1 = Some (t, w')" using Cons.prems s by simp
    from ticks_trans [OF one Cons.IH [OF this]] show ?thesis .
  qed
qed

lemma timer_check_state:
  "xTCPTimerCheck sl w = Some (t, w') \<Longrightarrow> ticks (state_of w k) (state_of w' k)"
  using timer_loop_state [of sl _ _ _ "w\<lparr>tcpLastTime := xTickCount w\<rparr>"]
  by (simp add: xTCPTimerCheck_def Let_def)

subsection \<open>The application's calls\<close>

lemma send_check_state: "becomes i (\<lambda>s t. t = s \<or> s \<noteq> eCLOSED \<and> t = eCLOSE_WAIT) w (snd (prvTCPSendCheck (Some i) n w))"
  using create_stream_state [of i w False]
  by (auto simp: becomes_def prvTCPSendCheck_def gives_up_def Let_def)

lemma send_some_state: "state_of (snd (send_some ip i d w)) j = state_of w j"
  by (simp add: send_some_def Let_def split_def socks_upd_sock frames split: option.split)

lemma recv_data_state: "state_of (snd (recv_data i n p w)) j = state_of w j"
  by (simp add: recv_data_def Let_def split_def socks_upd_sock frames split: option.split)

lemma accept_look_state: "state_of (snd (accept_look i w)) j = state_of w j"
  by (simp add: accept_look_def Let_def socks_upd_sock frames split: option.split)

lemma shutdown_call_state: "state_of (snd (FreeRTOS_shutdown s w)) j = state_of w j"
  by (simp add: FreeRTOS_shutdown_def socks_upd_sock frames split: option.split)

lemma set_buf_state:
  "ucTcpState (snd (set_sndbuf v s)) = ucTcpState s" "ucTcpState (snd (set_rcvbuf v s)) = ucTcpState s"
  "ucTcpState (snd (set_win_properties a b c d s)) = ucTcpState s"
  by (simp_all add: set_sndbuf_def set_rcvbuf_def set_win_properties_def Let_def)

lemma setsockopt_state: "state_of (snd (FreeRTOS_setsockopt i opt w)) j = state_of w j"
  by (simp add: FreeRTOS_setsockopt_def Let_def socks_upd_sock frames set_buf_state split: sockopt.split)

lemma listen_call_state:
  "becomes i (\<lambda>s t. t = s \<or> s \<in> {eCLOSED, eCLOSE_WAIT} \<and> t = eTCP_LISTEN) w (snd (FreeRTOS_listen (Some i) n w))"
  by (simp add: becomes_def FreeRTOS_listen_def Let_def socks_upd_sock frames)

lemma connect_state:
  assumes "\<And>v j. state_of (snd (bind i v)) j = state_of v j"
  shows "becomes i (\<lambda>s t. t = s \<or> s \<in> {eCLOSED, eCLOSE_WAIT} \<and> t = eCONNECT_SYN) w
    (snd (prvTCPConnectStart bind (Some i) a p w))"
proof -
  have "bMayConnect s = 0 \<longleftrightarrow> ucTcpState s \<in> {eCLOSED, eCLOSE_WAIT}" for s
    by (cases "ucTcpState s") (simp_all add: bMayConnect_def)
  then show ?thesis using assms
    by (auto simp: becomes_def prvTCPConnectStart_def Let_def split_def socks_upd_sock frames)
qed

section \<open>The diagram\<close>

text \<open>The arrows of the IP task, and the three states that have none.\<close>

definition ip_arrow :: "eIPTcpState_t \<Rightarrow> eIPTcpState_t \<Rightarrow> bool" where
  "ip_arrow s t \<longleftrightarrow>
     (s, t) \<in> {(eTCP_LISTEN, eSYN_FIRST), (eSYN_FIRST, eSYN_RECEIVED), (eSYN_RECEIVED, eSYN_FIRST),
       (eSYN_RECEIVED, eESTABLISHED), (eCONNECT_SYN, eESTABLISHED), (eESTABLISHED, eFIN_WAIT_1),
       (eESTABLISHED, eLAST_ACK), (eFIN_WAIT_1, eLAST_ACK)} \<or>
     s \<in> {eCONNECT_SYN, eSYN_FIRST, eSYN_RECEIVED, eESTABLISHED, eFIN_WAIT_1, eLAST_ACK} \<and>
     t \<in> {eCLOSE_WAIT, eCLOSED}"

definition unused_state :: "eIPTcpState_t \<Rightarrow> bool" where
  "unused_state s \<longleftrightarrow> s \<in> {eFIN_WAIT_2, eCLOSING, eTIME_WAIT}"

lemma arrow_step: "t = s \<or> ip_arrow s t \<Longrightarrow> ip_arrow\<^sup>*\<^sup>* s t"
  by auto

lemma ticks_arrow: "ticks s t \<Longrightarrow> \<not> unused_state s \<Longrightarrow> ip_arrow\<^sup>*\<^sup>* s t"
  by (rule arrow_step, cases s) (auto simp: ticks_def ip_arrow_def unused_state_def)

text \<open>The states in which segments of a connection are handled, or that are final.\<close>

definition in_connection :: "eIPTcpState_t \<Rightarrow> bool" where
  "in_connection s \<longleftrightarrow>
     s \<in> {eCONNECT_SYN, eSYN_FIRST, eSYN_RECEIVED, eESTABLISHED, eFIN_WAIT_1, eLAST_ACK, eCLOSE_WAIT, eCLOSED}"

lemma sends_arrow: "sends s t \<Longrightarrow> ip_arrow\<^sup>*\<^sup>* s t"
  by (rule arrow_step) (auto simp: sends_def ip_arrow_def)

lemma acts_arrow: "acts fl s t \<Longrightarrow> in_connection s \<Longrightarrow> ip_arrow\<^sup>*\<^sup>* s t"
  by (rule arrow_step, cases s)
    (auto simp: acts_def works_def closes_def sends_def ip_arrow_def in_connection_def split: if_splits)

lemma handles_arrow:
  assumes "handles fl s u" "in_connection s"
  shows "ip_arrow\<^sup>*\<^sup>* s u"
proof -
  obtain t where t: "t = s \<or> s \<ge> eSYN_RECEIVED \<and> t = eCLOSE_WAIT"
    and u: "u = t \<or> acts fl (if t = eSYN_RECEIVED \<and> fl AND ipTCP_FLAG_CTRL = ipTCP_FLAG_SYN then eSYN_FIRST else t) u"
    using assms(1) unfolding handles_def by blast
  have st: "ip_arrow\<^sup>*\<^sup>* s t" "in_connection t"
    using t assms(2) by (auto simp: in_connection_def ip_arrow_def state_order intro!: arrow_step)
  define v where "v = (if t = eSYN_RECEIVED \<and> fl AND ipTCP_FLAG_CTRL = ipTCP_FLAG_SYN then eSYN_FIRST else t)"
  have tv: "ip_arrow\<^sup>*\<^sup>* t v" "in_connection v"
    using st(2) by (auto simp: v_def in_connection_def ip_arrow_def intro!: arrow_step)
  have "u = t \<or> ip_arrow\<^sup>*\<^sup>* v u" using u acts_arrow [OF _ tv(2)] by (auto simp: v_def)
  then show ?thesis using st(1) tv(1) by (auto intro: rtranclp_trans)
qed

lemma receives_arrow: "receives fl s t \<Longrightarrow> in_connection s \<Longrightarrow> ip_arrow\<^sup>*\<^sup>* s t"
  unfolding receives_def using handles_arrow sends_arrow rtranclp_trans by metis

lemma segment_arrow:
  assumes "segment_moves fl s t" "\<not> unused_state s"
  shows "ip_arrow\<^sup>*\<^sup>* s t"
proof (cases "s = eTCP_LISTEN")
  case True
  then have "receives fl eSYN_FIRST t" using assms(1) by (simp add: segment_moves_def)
  then have "ip_arrow\<^sup>*\<^sup>* eSYN_FIRST t" by (rule receives_arrow) (simp add: in_connection_def)
  moreover have "ip_arrow s eSYN_FIRST" using True by (simp add: ip_arrow_def)
  ultimately show ?thesis by (rule converse_rtranclp_into_rtranclp [rotated])
next
  case False
  then have s: "in_connection s" "s \<noteq> eCLOSED" "s \<noteq> eCLOSE_WAIT"
    using assms by (cases s; simp add: segment_moves_def in_connection_def unused_state_def prvTCPSocketIsActive_def)+
  show ?thesis
  proof (cases "fl AND ipTCP_FLAG_RST \<noteq> 0")
    case True
    then have "t = eCLOSED" using assms(1) False by (simp add: segment_moves_def)
    then show ?thesis using s by (auto simp: in_connection_def ip_arrow_def intro!: arrow_step)
  next
    case no: False
    then show ?thesis using assms(1) False s(1) receives_arrow [of fl s t] by (simp add: segment_moves_def)
  qed
qed

text \<open>An established connection has come from a handshake.\<close>

lemma receives_established:
  assumes "receives fl s eESTABLISHED"
  shows "s = eESTABLISHED \<or> handshake s fl"
proof -
  obtain u where "handles fl s u" and u: "u = eESTABLISHED"
    using assms by (auto simp: receives_def sends_def)
  then obtain t where t: "t = s \<or> t = eCLOSE_WAIT"
    "eESTABLISHED = t \<or> acts fl (if t = eSYN_RECEIVED \<and> fl AND ipTCP_FLAG_CTRL = ipTCP_FLAG_SYN then eSYN_FIRST else t) eESTABLISHED"
    unfolding handles_def by blast
  then show ?thesis
    by (cases t) (auto simp: acts_def works_def closes_def split: if_splits)
qed

lemma segment_established:
  "segment_moves fl s eESTABLISHED \<Longrightarrow> s = eESTABLISHED \<or> handshake s fl"
  using receives_established [of fl s] receives_established [of fl eSYN_FIRST]
  by (auto simp: segment_moves_def handshake_def split: if_splits)

section \<open>The steps of the whole\<close>

text \<open>
  What happens, one call at a time, with its originator: the IP task handles a segment, its timer or a
  message of the application, an application calls (the parts of its functions between two sleeps),
  a frame arrives in a buffer, time passes.  Connecting binds the socket first: \<open>bind\<close> is that call.
\<close>

datatype originator = IP_task | Calls_listen nat | Calls_connect nat | Calls_send nat | Elsewhere

inductive tcp_step :: "originator \<Rightarrow> tcp_world \<Rightarrow> tcp_world \<Rightarrow> bool" where
  segment: "xProcessReceivedTCPPacket b w = Some (r, w') \<Longrightarrow> tcp_step IP_task w w'"
| timers: "xTCPTimerCheck sl w = Some (t, w') \<Longrightarrow> tcp_step IP_task w w'"
| close_event: "tcp_step IP_task w (vSocketClose i w)"
| bind_event: "vSocketBind i p b w = Some (r, w') \<Longrightarrow> tcp_step IP_task w w'"
| accept_event: "tcp_step IP_task w (snd (xTCPCheckNewClient i w))"
| listen: "tcp_step (Calls_listen i) w (snd (FreeRTOS_listen (Some i) n w))"
| connect: "(\<And>v j. state_of (snd (bind i v)) j = state_of v j) \<Longrightarrow>
    tcp_step (Calls_connect i) w (snd (prvTCPConnectStart bind (Some i) a p w))"
| send_start: "tcp_step (Calls_send i) w (snd (prvTCPSendCheck (Some i) n w))"
| send_part: "tcp_step (Calls_send i) w (snd (send_some False i d w))"
| socket: "tcp_step Elsewhere w (snd (FreeRTOS_socket w))"
| receive: "tcp_step Elsewhere w (snd (recv_data i n peek w))"
| accept: "tcp_step Elsewhere w (snd (accept_look i w))"
| shut: "tcp_step Elsewhere w (snd (FreeRTOS_shutdown (Some i) w))"
| setopt: "tcp_step Elsewhere w (snd (FreeRTOS_setsockopt i opt w))"
| frame: "tcp_step Elsewhere w
    (w\<lparr>net_bufs := (net_bufs w)(b := \<lparr>xPacket = q, bufDataLength = n\<rparr>), free_bufs := remove1 b (free_bufs w)\<rparr>)"
| tick: "tcp_step Elsewhere w (w\<lparr>xTickCount := t\<rparr>)"

text \<open>The arrows a step of each originator may take the socket \<open>k\<close> along.\<close>

definition arrows :: "originator \<Rightarrow> nat \<Rightarrow> eIPTcpState_t \<Rightarrow> eIPTcpState_t \<Rightarrow> bool" where
  "arrows e k s t \<longleftrightarrow>
     (case e of
        IP_task \<Rightarrow> ip_arrow s t
      | Calls_listen i \<Rightarrow> k = i \<and> s \<in> {eCLOSED, eCLOSE_WAIT} \<and> t = eTCP_LISTEN
      | Calls_connect i \<Rightarrow> k = i \<and> s \<in> {eCLOSED, eCLOSE_WAIT} \<and> t = eCONNECT_SYN
      | Calls_send i \<Rightarrow> k = i \<and> s \<noteq> eCLOSED \<and> t = eCLOSE_WAIT
      | Elsewhere \<Rightarrow> False)"

lemma arrows_step: "state_of w' k = state_of w k \<or> arrows e k (state_of w k) (state_of w' k) \<Longrightarrow>
    (arrows e k)\<^sup>*\<^sup>* (state_of w k) (state_of w' k)"
  by auto

lemma arrows_ip: "arrows IP_task k = ip_arrow"
  by (intro ext) (simp add: arrows_def)

lemma unused_not_entered: "(arrows e k)\<^sup>*\<^sup>* s t \<Longrightarrow> \<not> unused_state s \<Longrightarrow> \<not> unused_state t"
proof (induction rule: rtranclp_induct)
  case (step t u)
  then show ?case by (cases e) (auto simp: arrows_def ip_arrow_def unused_state_def)
qed simp

text \<open>
  Claim C34. Whatever happens, a socket changes its state along the arrows of the diagram only: those
  of the IP task for segments and time-outs, from closed to listening or connecting at its owner's
  request, and to \<open>eCLOSE_WAIT\<close> when a call to send finds no memory.  The states \<open>eFIN_WAIT_2\<close>,
  \<open>eCLOSING\<close> and \<open>eTIME_WAIT\<close> are never entered.
\<close>

theorem tcp_state_diagram:
  assumes "tcp_step e w w'" and "k < next_sock w" and "\<not> unused_state (state_of w k)"
  shows "(arrows e k)\<^sup>*\<^sup>* (state_of w k) (state_of w' k) \<and> \<not> unused_state (state_of w' k)"
proof -
  have "(arrows e k)\<^sup>*\<^sup>* (state_of w k) (state_of w' k)"
    using assms(1)
  proof (cases rule: tcp_step.cases)
    case (segment b r)
    then have "state_of w' k = state_of w k \<or> segment_moves (flags_at w b) (state_of w k) (state_of w' k)"
      using segment_state assms(2) by blast
    then show ?thesis using segment_arrow assms(3) segment(1) arrows_ip by auto
  next
    case (timers sl t)
    then show ?thesis using timer_check_state [of sl w t w' k] ticks_arrow assms(3) arrows_ip by simp
  next
    case close_event
    then show ?thesis by (simp add: frames)
  next
    case (bind_event i p b r)
    then show ?thesis using bind_quiet [of i p b w r w'] by (simp add: quiet_def)
  next
    case (accept_event i)
    then show ?thesis using new_client_quiet [of w i] by (simp add: quiet_def)
  next
    case (listen i n)
    then show ?thesis using listen_call_state [of i w n]
      by (intro arrows_step) (cases "k = i"; simp add: becomes_def arrows_def)
  next
    case (connect bind i a p)
    then show ?thesis using connect_state [of bind i w a p]
      by (intro arrows_step) (cases "k = i"; simp add: becomes_def arrows_def)
  next
    case (send_start i n)
    then show ?thesis using send_check_state [of i w n]
      by (intro arrows_step) (cases "k = i"; simp add: becomes_def arrows_def)
  next
    case socket
    then show ?thesis using socket_state(1) [of w "fst (FreeRTOS_socket w)" w' k] assms(2) by simp
  qed (simp_all add: send_some_state recv_data_state accept_look_state shutdown_call_state setsockopt_state)
  then show ?thesis using unused_not_entered assms(3) by blast
qed

text \<open>
  Claim C35. A connection becomes established in one way only: the IP task handles a segment for that
  socket, from its own remote address and port to its local port, whose flags complete the handshake
  the socket is in, SYN and ACK for one that connects, ACK for one that has answered a SYN.
\<close>

theorem established_by_handshake:
  assumes "tcp_step e w w'" and "k < next_sock w" and "state_of w' k = eESTABLISHED" and "state_of w k \<noteq> eESTABLISHED"
  shows "\<exists>b r. xProcessReceivedTCPPacket b w = Some (r, w') \<and> k \<in> set (xBoundTcpSocketsList w) \<and>
    (let q = xPacket (net_bufs w b); h = xTCPHeader q in
     usLocPort (socks w k) = FreeRTOS_htons (usDestinationPort h) \<and>
     usRemotePort (socks w k) = FreeRTOS_htons (usSourcePort h) \<and>
     ulRemoteIP (socks w k) = FreeRTOS_htonl (ulSourceIPAddress (xIPHeader q)) \<and>
     (state_of w k = eCONNECT_SYN \<and> ucTcpFlags h AND 0x17 = ipTCP_FLAG_ACK OR ipTCP_FLAG_SYN \<or>
      state_of w k = eSYN_RECEIVED \<and> ucTcpFlags h AND 0x17 = ipTCP_FLAG_ACK))"
  using assms(1)
proof (cases rule: tcp_step.cases)
  case (segment b r)
  then have l: "looked_up w b = Some k" and h: "handshake (state_of w k) (flags_at w b)"
    using segment_state [OF segment(2) assms(2)] assms(3,4) segment_established by auto
  from h have "state_of w k \<noteq> eTCP_LISTEN" by (auto simp: handshake_def)
  then show ?thesis using lookup_match [OF l] h segment(2)
    by (intro exI [of _ b] exI [of _ r]) (simp add: Let_def handshake_def)
next
  case (timers sl t)
  then show ?thesis using timer_check_state [of sl w t w' k] assms(3,4) by (simp add: ticks_def)
next
  case (bind_event i p b r)
  then show ?thesis using bind_quiet [of i p b w r w'] assms(3,4) by (simp add: quiet_def)
next
  case (accept_event i)
  then show ?thesis using new_client_quiet [of w i] assms(3,4) by (simp add: quiet_def)
next
  case (listen i n)
  then show ?thesis using listen_call_state [of i w n] assms(3,4) by (cases "k = i") (auto simp: becomes_def)
next
  case (connect bind i a p)
  then show ?thesis using connect_state [of bind i w a p] assms(3,4) by (cases "k = i") (auto simp: becomes_def)
next
  case (send_start i n)
  then show ?thesis using send_check_state [of i w n] assms(3,4) by (cases "k = i") (auto simp: becomes_def)
next
  case socket
  then show ?thesis using socket_state(1) [of w "fst (FreeRTOS_socket w)" w' k] assms(2-4) by simp
qed (use assms(3,4) in \<open>simp_all add: frames send_some_state recv_data_state accept_look_state
      shutdown_call_state setsockopt_state\<close>)

end
