(* ===== verification/Tcp_Open.thy ===== *)
theory Tcp_Open
  imports Tcp_State
begin

text \<open>
  What the stack answers: resets for segments nobody wants, and the handshake that opens a connection.
\<close>

section \<open>Resets\<close>

text \<open>
  The reset for the segment \<open>q\<close>: back to its sender, from this node, with the two sequence numbers of
  the segment exchanged and no options.
\<close>

definition reset_for :: "net_params \<Rightarrow> TCPPacket_t \<Rightarrow> TCPPacket_t \<Rightarrow> bool" where
  "reset_for np q f \<longleftrightarrow>
     xTCPHeader f = \<lparr>usSourcePort = usDestinationPort (xTCPHeader q), usDestinationPort = usSourcePort (xTCPHeader q),
       pktSequenceNumber = ulAckNr (xTCPHeader q), ulAckNr = pktSequenceNumber (xTCPHeader q), ucTcpOffset = 0x50,
       ucTcpFlags = ipTCP_FLAG_ACK OR ipTCP_FLAG_RST, usWindow = usWindow (xTCPHeader q),
       usTcpChecksum = usTcpChecksum (xTCPHeader q), usUrgent = usUrgent (xTCPHeader q)\<rparr> \<and>
     ulDestinationIPAddress (xIPHeader f) = ulSourceIPAddress (xIPHeader q) \<and>
     ulSourceIPAddress (xIPHeader f) = ipLOCAL_IP_ADDRESS np \<and>
     usLength (xIPHeader f) = FreeRTOS_htons 40 \<and> ucProtocol (xIPHeader f) = ucProtocol (xIPHeader q) \<and>
     xDestinationAddress (ethHeader f) = xSourceAddress (ethHeader q) \<and>
     xSourceAddress (ethHeader f) = ipLOCAL_MAC_ADDRESS np"

lemma send_reset_frame_out:
  "\<exists>f. net_out (prvTCPSendReset b w) = net_out w @ [(f, 54)] \<and> reset_for (net w) (xPacket (net_bufs w b)) f"
  by (simp add: prvTCPSendReset_def prvTCPReturnPacket_def upd_tcp_def addressed_def swap_ports_def swapped_back_def
      set_bufDataLength_def reset_for_def Let_def tcp_offset_def htons_wide_def FreeRTOS_htons_def
      ipSIZE_OF_IP_HEADER_def ipSIZE_OF_TCP_HEADER_def ipSIZE_OF_ETH_HEADER_def)

lemma send_reset_socks: "socks (prvTCPSendReset b w) = socks w" "free_bufs (prvTCPSendReset b w) = free_bufs w"
  by (simp_all add: prvTCPSendReset_def prvTCPReturnPacket_def upd_tcp_def set_bufDataLength_def Let_def)

lemma rst_no_syn: "fl AND ipTCP_FLAG_RST \<noteq> 0 \<Longrightarrow> fl AND ipTCP_FLAG_CTRL \<noteq> ipTCP_FLAG_SYN" for fl :: u8
proof
  assume "fl AND ipTCP_FLAG_RST \<noteq> 0" and syn: "fl AND ipTCP_FLAG_CTRL = ipTCP_FLAG_SYN"
  have "fl AND ipTCP_FLAG_RST = (fl AND ipTCP_FLAG_CTRL) AND ipTCP_FLAG_RST"
    by (simp add: ipTCP_FLAG_RST_def ipTCP_FLAG_CTRL_def and.assoc)
  also have "\<dots> = 0" unfolding syn by (simp add: ipTCP_FLAG_SYN_def ipTCP_FLAG_RST_def)
  finally show False using \<open>fl AND ipTCP_FLAG_RST \<noteq> 0\<close> by simp
qed

text \<open>
  Claim C38. Segments that are not for a live connection: a reset is never answered, it closes the
  connection it is for and changes no other state; a segment for no active socket is answered by one
  reset to its sender and otherwise ignored, unless it is a bare acknowledgement, which is ignored
  altogether.  In all these cases the buffer is left to the caller.
\<close>

theorem unwanted_segments:
  assumes "xProcessReceivedTCPPacket b w = Some (r, w')"
  shows "(flags_at w b AND ipTCP_FLAG_RST \<noteq> 0 \<longrightarrow>
      \<not> r \<and> net_out w' = net_out w \<and> free_bufs w' = free_bufs w \<and> next_sock w' = next_sock w \<and>
      (\<forall>k. state_of w' k =
         (if looked_up w b = Some k \<and> prvTCPSocketIsActive (state_of w k) \<and> state_of w k \<noteq> eTCP_LISTEN
          then eCLOSED else state_of w k))) \<and>
    (flags_at w b AND ipTCP_FLAG_RST = 0 \<longrightarrow>
     (case looked_up w b of None \<Rightarrow> True | Some i \<Rightarrow> \<not> prvTCPSocketIsActive (state_of w i)) \<longrightarrow>
      \<not> r \<and> socks w' = socks w \<and> free_bufs w' = free_bufs w \<and>
      (if flags_at w b AND ipTCP_FLAG_CTRL = ipTCP_FLAG_ACK then w' = w
       else \<exists>f. net_out w' = net_out w @ [(f, 54)] \<and> reset_for (net w) (xPacket (net_bufs w b)) f))"
proof (cases "looked_up w b")
  case None
  note look = this [unfolded looked_up_def Let_def]
  show ?thesis using assms look None send_reset_frame_out [of b w]
    by (auto simp: xProcessReceivedTCPPacket_def Let_def send_reset_socks split: if_splits)
next
  case (Some i)
  note look = this [unfolded looked_up_def Let_def]
  show ?thesis
  proof (cases "prvTCPSocketIsActive (state_of w i)")
    case False
    then show ?thesis using assms look Some send_reset_frame_out [of b w]
      by (auto simp: xProcessReceivedTCPPacket_def Let_def send_reset_socks split: if_splits)
  next
    case active: True
    show ?thesis
    proof (cases "flags_at w b AND ipTCP_FLAG_RST = 0")
      case True
      then show ?thesis using active Some by simp
    next
      case rst: False
      then have no_syn: "flags_at w b AND ipTCP_FLAG_CTRL \<noteq> ipTCP_FLAG_SYN" by (rule rst_no_syn)
      then have "\<not> r \<and> w' = (let w1 = upd_sock i (\<lambda>s. s\<lparr>ucRepCount := 0\<rparr>) w in
          if state_of w i = eTCP_LISTEN then w1 else vTCPStateChange i eCLOSED w1)"
        using assms look active rst
        by (auto simp: xProcessReceivedTCPPacket_def Let_def socks_upd_sock split: if_splits)
      then show ?thesis using rst Some active by (auto simp: Let_def socks_upd_sock frames)
    qed
  qed
qed

end
