(* ===== verification/Tcp_Options.thy ===== *)
theory Tcp_Options
  imports Tcp_Ip
begin

text \<open>
  The options of a TCP header: a grammar of them, their encoding, and that \<open>prvCheckOptions\<close> does what
  the options of a well-formed header say, one after the other.
\<close>

section \<open>Options and their bytes\<close>

datatype tcp_option =
    NoOperation
  | MaxSegmentSize u16
  | SelectiveAck "(u32 \<times> u32) list"
  | OtherOption u8 "u8 list"

definition be16 :: "u16 \<Rightarrow> u8 list" where
  "be16 x = [ucast (drop_bit 8 x), ucast x]"

definition be32 :: "u32 \<Rightarrow> u8 list" where
  "be32 x = [ucast (drop_bit 24 x), ucast (drop_bit 16 x), ucast (drop_bit 8 x), ucast x]"

primrec option_bytes :: "tcp_option \<Rightarrow> u8 list" where
  "option_bytes NoOperation = [TCP_OPT_NOOP]"
| "option_bytes (MaxSegmentSize m) = [TCP_OPT_MSS, TCP_OPT_MSS_LEN] @ be16 m"
| "option_bytes (SelectiveAck bs) =
     [TCP_OPT_SACK_A, of_nat (2 + 8 * length bs)] @ concat (map (\<lambda>(f, l). be32 f @ be32 l) bs)"
| "option_bytes (OtherOption k d) = [k, of_nat (2 + length d)] @ d"

primrec wf_option :: "tcp_option \<Rightarrow> bool" where
  "wf_option NoOperation = True"
| "wf_option (MaxSegmentSize m) = True"
| "wf_option (SelectiveAck bs) = (length bs \<le> 31)"
| "wf_option (OtherOption k d) =
     (k \<notin> {TCP_OPT_END, TCP_OPT_NOOP, TCP_OPT_SACK_A} \<and> length d \<le> 253 \<and> \<not> (k = TCP_OPT_MSS \<and> length d = 2))"

definition options_bytes :: "tcp_option list \<Rightarrow> u8 list" where
  "options_bytes opts = concat (map option_bytes opts)"

text \<open>
  What an option asks for, in terms of the state of the socket.  A smaller segment size becomes the
  initial and the current one of the socket and of its window, the peer is told, and the reception
  window is rounded down to a multiple of it; a size that is not smaller changes nothing, and 0 cannot
  be adopted.
\<close>

definition adopt_mss :: "u16 \<Rightarrow> FreeRTOS_Socket_t \<Rightarrow> FreeRTOS_Socket_t" where
  "adopt_mss m s =
     s\<lparr>bits := (bits s)\<lparr>bMssChange := True\<rparr>,
       xTcpWindow := (xTcpWindow s)\<lparr>
         ulRxWindowLength := of_nat (unat (ulRxWindowLength (xTcpWindow s)) -
           unat (ulRxWindowLength (xTcpWindow s)) mod unat m),
         usMSSInit := m, usMSS := m\<rparr>,
       usInitMSS := m, usCurMSS := m\<rparr>"

text \<open>
  A block is noted in the window.  The bytes this frees at the left edge leave the stream buffer, and
  whoever waits or selects for room is told.
\<close>

definition drop_sent :: "nat \<Rightarrow> StreamBuffer_t \<Rightarrow> StreamBuffer_t" where
  "drop_sent c t = t\<lparr>uxTail := of_nat ((unat (uxTail t) + min c (size_of t)) mod len t)\<rparr>"

definition tell_sent :: "FreeRTOS_Socket_t \<Rightarrow> FreeRTOS_Socket_t" where
  "tell_sent s = s\<lparr>xEventBits := xEventBits s OR
     (if xSelectBits s AND eSELECT_WRITE = 0 then eSOCKET_SEND
      else eSOCKET_SEND OR push_bit SOCKET_EVENT_BIT_COUNT eSELECT_WRITE)\<rparr>"

definition note_block :: "nat \<Rightarrow> u32 \<times> u32 \<Rightarrow> tcp_world \<Rightarrow> tcp_world" where
  "note_block i block w =
     (case ulTCPWindowTxSack (xTickCount w) (fst block) (snd block) (segs w) (xTcpWindow (socks w i)) of
        (c, g, v) \<Rightarrow> w\<lparr>segs := g, socks := (socks w)(i :=
          (case txStream (socks w i) of
             Some t \<Rightarrow> if c = 0 then (socks w i)\<lparr>xTcpWindow := v\<rparr>
                       else tell_sent ((socks w i)\<lparr>xTcpWindow := v, txStream := Some (drop_sent (unat c) t)\<rparr>)
           | None \<Rightarrow> (socks w i)\<lparr>xTcpWindow := v\<rparr>))\<rparr>)"

primrec apply_option :: "nat \<Rightarrow> tcp_option \<Rightarrow> tcp_world \<Rightarrow> tcp_world option" where
  "apply_option i NoOperation w = Some w"
| "apply_option i (MaxSegmentSize m) w =
     (if unat (usInitMSS (socks w i)) \<le> unat m then Some w
      else if m = 0 then None
      else Some (w\<lparr>socks := (socks w)(i := adopt_mss m (socks w i))\<rparr>))"
| "apply_option i (SelectiveAck bs) w = Some (fold (note_block i) bs w)"
| "apply_option i (OtherOption k d) w = Some w"

primrec apply_options :: "nat \<Rightarrow> tcp_option list \<Rightarrow> tcp_world \<Rightarrow> tcp_world option" where
  "apply_options i [] w = Some w"
| "apply_options i (opt # opts) w = Option.bind (apply_option i opt w) (apply_options i opts)"

text \<open>The segment sizes among the options.\<close>

fun sizes :: "tcp_option list \<Rightarrow> u16 list" where
  "sizes [] = []"
| "sizes (MaxSegmentSize m # opts) = m # sizes opts"
| "sizes (_ # opts) = sizes opts"

section \<open>The code obeys an option\<close>

definition tx_stream_ok :: "nat \<Rightarrow> tcp_world \<Rightarrow> bool" where
  "tx_stream_ok i w \<longleftrightarrow> (\<forall>t. txStream (socks w i) = Some t \<longrightarrow> sb_ok t)"

lemma drop_sent_Get:
  assumes ok: "sb_ok t"
  shows "snd (snd (uxStreamBufferGet t 0 False c False)) = drop_sent (unat c) t"
    "sb_ok (drop_sent (unat c) t)" "content (drop_sent (unat c) t) = drop (unat c) (content t)"
proof -
  note D = sb_okD [OF ok] and sl = size_of_lt [OF ok]
  define k where "k = min (size_of t) (unat c)"
  have k: "k = min (size_of t - unat (0 :: u32)) (unat c)" by (simp add: k_def)
  from Get_state [OF ok k, of False False] obtain t' where g: "uxStreamBufferGet t 0 False c False = (of_nat k, [], t')"
    "sb_ok t'" "content t' = drop k (content t)" by auto
  have kw: "unat (of_nat k :: u32) = k" using sl D(2) by (simp add: k_def unat_of_nat32)
  have s0: "size_of t = 0 \<Longrightarrow> k = 0" by (simp add: k_def)
  have n: "FreeRTOS_min_uint32 (if uxStreamBufferGetSize t > 0 then uxStreamBufferGetSize t - 0 else 0) c = of_nat k"
    using unat_GetSize [OF ok] s0 by (intro word_unat_eq_iff [THEN iffD2]) (auto simp: unat_min kw word_less_nat_alt simp flip: k_def)
  have adv: "sb_advance t (uxTail t) (of_nat k) = of_nat ((unat (uxTail t) + k) mod len t)"
  proof -
    have "k < len t" using sl by (simp add: k_def)
    then have "unat (sb_advance t (uxTail t) (of_nat k)) = (unat (uxTail t) + k) mod len t"
      using unat_advance [of "uxTail t" "of_nat k" t] kw D(2,4) by (simp add: wrap_def le_mod_geq)
    moreover have "unat (of_nat ((unat (uxTail t) + k) mod len t) :: u32) = (unat (uxTail t) + k) mod len t"
    proof (rule unat_of_nat32)
      have "(unat (uxTail t) + k) mod len t < len t" using D(1) by simp
      then show "(unat (uxTail t) + k) mod len t < 2 ^ 32" using D(2) by simp
    qed
    ultimately show ?thesis by (intro word_unat_eq_iff [THEN iffD2]) (rule trans, assumption, rule sym)
  qed
  have "t' = t\<lparr>uxTail := of_nat ((unat (uxTail t) + k) mod len t)\<rparr>"
  proof (cases "k = 0")
    case True
    then show ?thesis using g(1) n D(4) by (simp add: uxStreamBufferGet_def Let_def)
  next
    case False
    then have "(0 :: u32) < of_nat k" using kw by (simp add: word_less_nat_alt)
    then show ?thesis using g(1) n adv by (simp add: uxStreamBufferGet_def Let_def)
  qed
  then have e: "t' = drop_sent (unat c) t" by (simp add: drop_sent_def k_def min.commute)
  have "drop k (content t) = drop (unat c) (content t)" by (simp add: k_def min_def content_def)
  then show "snd (snd (uxStreamBufferGet t 0 False c False)) = drop_sent (unat c) t" "sb_ok (drop_sent (unat c) t)"
    "content (drop_sent (unat c) t) = drop (unat c) (content t)" using g e by simp_all
qed

lemma tell_sent_raise: "raise_event eSOCKET_SEND eSELECT_WRITE s = tell_sent s"
  by (simp add: raise_event_def tell_sent_def Let_def or.assoc)

lemma sack_block_notes:
  assumes "tx_stream_ok i w"
  shows "sack_block i f l w = note_block i (f, l) w" "tx_stream_ok i (note_block i (f, l) w)"
    "usInitMSS (socks (note_block i (f, l) w) i) = usInitMSS (socks w i)"
proof -
  obtain c g v where s: "ulTCPWindowTxSack (xTickCount w) f l (segs w) (xTcpWindow (socks w i)) = (c, g, v)" by (metis prod_cases3)
  have ok: "sb_ok t" if "txStream (socks w i) = Some t" for t using assms that by (simp add: tx_stream_ok_def)
  have c0: "0 < c \<longleftrightarrow> c \<noteq> 0" by (simp add: word_gt_0)
  show "sack_block i f l w = note_block i (f, l) w"
    using drop_sent_Get(1) [OF ok, of _ c]
    by (cases "txStream (socks w i)")
      (auto simp: sack_block_def note_block_def s upd_win_def upd_sock_def tell_sent_raise c0 split: prod.split)
  show "tx_stream_ok i (note_block i (f, l) w)" "usInitMSS (socks (note_block i (f, l) w) i) = usInitMSS (socks w i)"
    using ok drop_sent_Get(2) [OF ok, of _ c]
    by (auto simp: tx_stream_ok_def note_block_def s tell_sent_def split: option.split)
qed

lemma sack_blocks_note:
  "tx_stream_ok i w \<Longrightarrow> fold (\<lambda>(f, l). sack_block i f l) bs w = fold (note_block i) bs w \<and>
     tx_stream_ok i (fold (note_block i) bs w) \<and> usInitMSS (socks (fold (note_block i) bs w) i) = usInitMSS (socks w i)"
proof (induction bs arbitrary: w)
  case (Cons b bs)
  then show ?case using sack_block_notes [OF Cons.prems] by (cases b) simp
qed simp

lemma adapt_mss_adopts:
  "map_option (\<lambda>s. upd_sock i (\<lambda>_. s) w) (adapt_mss m (socks w i)) = apply_option i (MaxSegmentSize m) w"
proof -
  have "m * (n div m) = of_nat (unat n - unat n mod unat m)" for m n :: u32
  proof -
    have "n div m = of_nat (unat n div unat m)" by (simp flip: unat_div)
    then show ?thesis by (simp add: minus_mod_eq_mult_div)
  qed
  then show ?thesis
    by (simp add: adapt_mss_def adopt_mss_def upd_sock_def word_less_nat_alt not_less unsigned_ucast_eq)
qed

text \<open>What the options leave behind.\<close>

lemma apply_option_effect:
  assumes "tx_stream_ok i w"
  shows "apply_option i opt w = None \<longleftrightarrow> opt = MaxSegmentSize 0 \<and> usInitMSS (socks w i) \<noteq> 0"
    "apply_option i opt w = Some w' \<Longrightarrow> tx_stream_ok i w' \<and>
       usInitMSS (socks w' i) = fold min (sizes [opt]) (usInitMSS (socks w i))"
proof -
  show "apply_option i opt w = None \<longleftrightarrow> opt = MaxSegmentSize 0 \<and> usInitMSS (socks w i) \<noteq> 0"
    by (cases opt) (auto simp: unat_eq_zero)
  show "tx_stream_ok i w' \<and> usInitMSS (socks w' i) = fold min (sizes [opt]) (usInitMSS (socks w i))"
    if "apply_option i opt w = Some w'"
  proof (cases opt)
    case (SelectiveAck bs)
    then show ?thesis using that sack_blocks_note [OF assms, of bs] by auto
  next
    case (MaxSegmentSize m)
    then show ?thesis using that assms
      by (auto simp: tx_stream_ok_def adopt_mss_def min_def not_le simp flip: word_le_nat_alt split: if_splits)
  qed (use that assms in simp_all)
qed

lemma sizes_Cons: "fold min (sizes (opt # opts)) n = fold min (sizes opts) (fold min (sizes [opt]) n)"
  by (cases opt) simp_all

lemma apply_options_effect:
  "tx_stream_ok i w \<Longrightarrow>
   (apply_options i opts w = None \<longleftrightarrow> MaxSegmentSize 0 \<in> set opts \<and> usInitMSS (socks w i) \<noteq> 0) \<and>
   (\<forall>w'. apply_options i opts w = Some w' \<longrightarrow>
      usInitMSS (socks w' i) = fold min (sizes opts) (usInitMSS (socks w i)))"
proof (induction opts arbitrary: w)
  case Nil
  then show ?case by simp
next
  case (Cons opt opts)
  show ?case
  proof (cases "apply_option i opt w")
    case None
    then have "opt = MaxSegmentSize 0" "usInitMSS (socks w i) \<noteq> 0"
      using apply_option_effect(1) [OF Cons.prems, of opt] by (metis)+
    then show ?thesis using None by (simp add: unat_eq_zero)
  next
    case (Some w1)
    note e = apply_option_effect(2) [OF Cons.prems Some]
    have z: "\<not> (opt = MaxSegmentSize 0 \<and> usInitMSS (socks w i) \<noteq> 0)"
      using Some apply_option_effect(1) [OF Cons.prems, of opt] by (metis option.distinct(1))
    have nz: "usInitMSS (socks w1 i) \<noteq> 0 \<longleftrightarrow> usInitMSS (socks w i) \<noteq> 0"
      using e [THEN conjunct2] z by (cases opt) (auto simp: min_def split: if_splits)
    have f: "fold min (sizes (opt # opts)) (usInitMSS (socks w i)) = fold min (sizes opts) (usInitMSS (socks w1 i))"
      using e [THEN conjunct2] by (simp only: sizes_Cons [of opt opts])
    have m: "MaxSegmentSize 0 \<in> set (opt # opts) \<and> usInitMSS (socks w i) \<noteq> 0 \<longleftrightarrow>
        MaxSegmentSize 0 \<in> set opts \<and> usInitMSS (socks w1 i) \<noteq> 0" using nz z by (metis set_ConsD list.set_intros(2))
    have "apply_options i (opt # opts) w = apply_options i opts w1" using Some by simp
    then show ?thesis unfolding m f using Cons.IH [OF e [THEN conjunct1]] by (simp only:) blast
  qed
qed

section \<open>Reading the bytes\<close>

lemma byte_at_append: "byte_at (xs @ ys) (length xs + n) = byte_at ys n"
  by (simp add: byte_at_def nth_append)

lemma byte_at_Cons [simp]: "byte_at (x # xs) 0 = Some x" "byte_at (x # xs) (Suc n) = byte_at xs n"
  by (simp_all add: byte_at_def)

lemma u16_at_append: "usChar2u16 (xs @ ys) (length xs + n) = usChar2u16 ys n"
  using byte_at_append [of xs ys n] byte_at_append [of xs ys "n + 1"] by (simp add: usChar2u16_def add.assoc)

lemma u32_at_append: "ulChar2u32 (xs @ ys) (length xs + n) = ulChar2u32 ys n"
  using u16_at_append [of xs ys n] u16_at_append [of xs ys "n + 2"] by (simp add: ulChar2u32_def add.assoc)

lemma join16: "push_bit 8 (ucast (ucast (drop_bit 8 x) :: u8)) OR ucast (ucast x :: u8) = (x :: u16)"
  by (rule bit_word_eqI) (auto simp: bit_simps)

lemma join32: "push_bit 16 (ucast (push_bit 8 (ucast (ucast (drop_bit 24 x) :: u8)) OR ucast (ucast (drop_bit 16 x) :: u8) :: u16)) OR
    ucast (push_bit 8 (ucast (ucast (drop_bit 8 x) :: u8)) OR ucast (ucast x :: u8) :: u16) = (x :: u32)"
  (is "?l = x")
proof (rule bit_word_eqI)
  fix n assume "n < LENGTH(32)"
  then consider "n < 8" | "8 \<le> n" "n < 16" | "16 \<le> n" "n < 24" | "24 \<le> n" "n < 32" by fastforce
  then show "bit ?l n = bit x n" by cases (simp_all add: bit_simps less_diff_conv2, auto?)
qed

lemma u16_at: "usChar2u16 (a # b # ys) 0 = Some (push_bit 8 (ucast a) OR ucast b)"
  by (simp add: usChar2u16_def byte_at_def del: push_bit_numeral)

lemma u32_at: "ulChar2u32 (a # b # c # d # ys) 0 =
    Some (push_bit 16 (ucast (push_bit 8 (ucast a) OR ucast b :: u16)) OR ucast (push_bit 8 (ucast c) OR ucast d :: u16))"
  using u16_at_append [of "[a, b]" "c # d # ys" 0] by (simp add: ulChar2u32_def u16_at)

lemma read_be16: "usChar2u16 (be16 x @ ys) 0 = Some x"
  by (simp only: be16_def append.simps u16_at join16)

lemma read_be32: "ulChar2u32 (be32 x @ ys) 0 = Some x"
  by (simp only: be32_def append.simps u32_at join32)

lemma length_be [simp]: "length (be16 x) = 2" "length (be32 y) = 4"
  by (simp_all add: be16_def be32_def)

section \<open>The loop over the blocks of a selective acknowledgement\<close>

lemma sack_loop_blocks:
  "sack_loop i (pre @ concat (map (\<lambda>(f, l). be32 f @ be32 l) bs) @ rest) (length pre) (8 * int (length bs)) w =
     Some (length pre + 8 * length bs, 0, fold (\<lambda>(f, l). sack_block i f l) bs w)"
proof (induction bs arbitrary: pre w)
  case Nil
  then show ?case by (simp add: sack_loop.simps)
next
  case (Cons fl bs)
  obtain f l where fl: "fl = (f, l)" by (cases fl)
  let ?tail = "concat (map (\<lambda>(f, l). be32 f @ be32 l) bs) @ rest"
  let ?d = "pre @ concat (map (\<lambda>(f, l). be32 f @ be32 l) (fl # bs)) @ rest"
  have d: "?d = pre @ be32 f @ be32 l @ ?tail" "?d = (pre @ be32 f) @ be32 l @ ?tail"
    "?d = (pre @ be32 f @ be32 l) @ ?tail"
    by (simp_all add: fl)
  have "ulChar2u32 ?d (length pre) = Some f"
    using u32_at_append [of pre "be32 f @ be32 l @ ?tail" 0] unfolding d(1) by (simp add: read_be32)
  moreover have "ulChar2u32 ?d (length pre + 4) = Some l"
    using u32_at_append [of "pre @ be32 f" "be32 l @ ?tail" 0] unfolding d(2) by (simp add: read_be32)
  moreover have "sack_loop i ?d (length pre + 8) (8 * int (length bs)) (sack_block i f l w) =
      Some (length pre + 8 + 8 * length bs, 0, fold (\<lambda>(f, l). sack_block i f l) bs (sack_block i f l w))"
    using Cons.IH [of "pre @ be32 f @ be32 l" "sack_block i f l w"] unfolding d(3) [symmetric]
    by (simp add: fl)
  ultimately show ?case
    by (subst sack_loop.simps) (simp add: fl)
qed

section \<open>The options of a header\<close>

lemma length_blocks: "length (concat (map (\<lambda>(f, l). be32 f @ be32 l) bs)) = 8 * length bs"
  by (induction bs) (auto split: prod.split)

lemma option_step:
  assumes "wf_option opt" "length pre < n" "tx_stream_ok i w"
  shows "check_options_loop i (pre @ option_bytes opt @ rest) (length pre) n w =
    Option.bind (apply_option i opt w)
      (check_options_loop i (pre @ option_bytes opt @ rest) (length (pre @ option_bytes opt)) n)"
proof (cases opt)
  case NoOperation
  have "byte_at (pre @ TCP_OPT_NOOP # rest) (length pre) = Some TCP_OPT_NOOP"
    using byte_at_append [of pre "TCP_OPT_NOOP # rest" 0] by simp
  then show ?thesis using assms NoOperation
    by (subst check_options_loop.simps) (simp add: TCP_OPT_NOOP_def TCP_OPT_END_def)
next
  case (MaxSegmentSize m)
  let ?d = "pre @ option_bytes opt @ rest"
  have d: "?d = pre @ TCP_OPT_MSS # TCP_OPT_MSS_LEN # be16 m @ rest" "?d = (pre @ [TCP_OPT_MSS, TCP_OPT_MSS_LEN]) @ be16 m @ rest"
    using MaxSegmentSize by simp_all
  have "byte_at ?d (length pre) = Some TCP_OPT_MSS" "byte_at ?d (length pre + 1) = Some TCP_OPT_MSS_LEN"
    using byte_at_append [of pre "TCP_OPT_MSS # TCP_OPT_MSS_LEN # be16 m @ rest"] unfolding d(1)
    by (metis add_0_right byte_at_Cons(1), metis One_nat_def byte_at_Cons)
  moreover have "usChar2u16 ?d (length pre + 2) = Some m"
    using u16_at_append [of "pre @ [TCP_OPT_MSS, TCP_OPT_MSS_LEN]" "be16 m @ rest" 0] unfolding d(2) by (simp add: read_be16)
  moreover have "length (pre @ option_bytes opt) = length pre + 4" using MaxSegmentSize by simp
  ultimately show ?thesis using assms(2) unfolding MaxSegmentSize adapt_mss_adopts [symmetric]
    by (subst check_options_loop.simps)
      (simp add: TCP_OPT_MSS_def TCP_OPT_END_def TCP_OPT_NOOP_def split: option.split)
next
  case (SelectiveAck bs)
  let ?c = "of_nat (2 + 8 * length bs) :: u8"
  let ?bytes = "concat (map (\<lambda>(f, l). be32 f @ be32 l) bs)"
  let ?d = "pre @ option_bytes opt @ rest"
  have d: "?d = pre @ TCP_OPT_SACK_A # ?c # ?bytes @ rest" "?d = (pre @ [TCP_OPT_SACK_A, ?c]) @ ?bytes @ rest"
    using SelectiveAck by simp_all
  have c: "unat ?c = 2 + 8 * length bs" using assms(1) SelectiveAck by (subst unat_of_nat) simp
  then have c0: "?c \<noteq> 0" by (metis add_is_0 unat_0 zero_neq_numeral)
  have "byte_at ?d (length pre) = Some TCP_OPT_SACK_A" "byte_at ?d (length pre + 1) = Some ?c"
    using byte_at_append [of pre "TCP_OPT_SACK_A # ?c # ?bytes @ rest"] unfolding d(1)
    by (metis add_0_right byte_at_Cons(1), metis One_nat_def byte_at_Cons)
  moreover have "sack_loop i ?d (length pre + 2) (int (unat ?c) - 2) w =
      Some (length pre + 2 + 8 * length bs, 0, fold (\<lambda>(f, l). sack_block i f l) bs w)"
    using sack_loop_blocks [of i "pre @ [TCP_OPT_SACK_A, ?c]" bs rest w] unfolding c d(2) by simp
  moreover have "length (pre @ option_bytes opt) = length pre + 2 + 8 * length bs"
    using SelectiveAck length_blocks [of bs] by simp
  moreover have "nat (int (length pre + 2 + 8 * length bs) + 0) = length pre + 2 + 8 * length bs" by simp
  ultimately show ?thesis using assms SelectiveAck c0 sack_blocks_note [OF assms(3), of bs]
    by (subst check_options_loop.simps)
      (simp add: TCP_OPT_MSS_def TCP_OPT_END_def TCP_OPT_NOOP_def TCP_OPT_SACK_A_def nat_add_distrib)
next
  case (OtherOption k x)
  define c where "c = (of_nat (2 + length x) :: u8)"
  let ?d = "pre @ option_bytes opt @ rest"
  have d: "?d = pre @ k # c # x @ rest" using OtherOption by (simp add: c_def)
  have c: "unat c = 2 + length x" using assms(1) OtherOption unfolding c_def by (subst unat_of_nat) simp
  then have c0: "c \<noteq> 0" by (metis add_is_0 unat_0 zero_neq_numeral)
  have ob: "option_bytes (OtherOption k x) = k # c # x" by (simp add: c_def)
  have mss: "\<not> (k = TCP_OPT_MSS \<and> c = TCP_OPT_MSS_LEN)"
  proof
    assume "k = TCP_OPT_MSS \<and> c = TCP_OPT_MSS_LEN"
    then have "k = TCP_OPT_MSS" "2 + length x = 4" using c by (simp_all add: TCP_OPT_MSS_LEN_def)
    then show False using assms(1) OtherOption by simp
  qed
  have "byte_at ?d (length pre) = Some k" "byte_at ?d (length pre + 1) = Some c"
    using byte_at_append [of pre "k # c # x @ rest"] unfolding d
    by (metis add_0_right byte_at_Cons(1), metis One_nat_def byte_at_Cons)
  moreover have "length (pre @ option_bytes opt) = length pre + unat c" using OtherOption c by simp
  ultimately show ?thesis using assms OtherOption c0 mss
    by (subst check_options_loop.simps) (auto simp: ob simp del: option_bytes.simps)
qed

lemma options_loop:
  assumes "\<forall>opt\<in>set opts. wf_option opt" "length (pre @ options_bytes opts) \<le> n"
    and "n = length (pre @ options_bytes opts) \<or> rest \<noteq> [] \<and> hd rest = TCP_OPT_END" and "tx_stream_ok i w"
  shows "check_options_loop i (pre @ options_bytes opts @ rest) (length pre) n w = apply_options i opts w"
  using assms
proof (induction opts arbitrary: pre w)
  case Nil
  show ?case
  proof (cases "length pre < n")
    case True
    then obtain r where "rest = TCP_OPT_END # r" using Nil.prems by (cases rest) (auto simp: options_bytes_def)
    then show ?thesis using True byte_at_append [of pre "TCP_OPT_END # r" 0]
      by (subst check_options_loop.simps) (simp add: options_bytes_def)
  next
    case False
    then show ?thesis by (subst check_options_loop.simps) simp
  qed
next
  case (Cons opt opts)
  let ?pre = "pre @ option_bytes opt"
  have split: "pre @ options_bytes (opt # opts) @ rest = pre @ option_bytes opt @ options_bytes opts @ rest"
    "pre @ options_bytes (opt # opts) @ rest = ?pre @ options_bytes opts @ rest"
    by (simp_all add: options_bytes_def)
  have "option_bytes opt \<noteq> []" by (cases opt) simp_all
  then have "length pre < n" using Cons.prems by (simp add: options_bytes_def flip: length_greater_0_conv)
  then have "check_options_loop i (pre @ options_bytes (opt # opts) @ rest) (length pre) n w =
      Option.bind (apply_option i opt w) (check_options_loop i (?pre @ options_bytes opts @ rest) (length ?pre) n)"
    using option_step [of opt pre n i w "options_bytes opts @ rest"] Cons.prems(1,4) unfolding split by simp
  also have "\<dots> = apply_options i (opt # opts) w"
  proof (cases "apply_option i opt w")
    case (Some a)
    have "check_options_loop i (?pre @ options_bytes opts @ rest) (length ?pre) n a = apply_options i opts a"
      by (rule Cons.IH) (use Cons.prems apply_option_effect(2) [OF Cons.prems(4) Some] in \<open>simp_all add: options_bytes_def\<close>)
    then show ?thesis using Some by simp
  qed simp
  finally show ?case by simp
qed

lemma options_read:
  assumes "\<forall>opt\<in>set opts. wf_option opt"
    and "ucOptdata (xPacket (net_bufs w b)) = options_bytes opts @ rest"
    and "4 * (unat (ucTcpOffset (xTCPHeader (xPacket (net_bufs w b)))) div 16) = 20 + length (options_bytes opts) + pad"
    and "pad = 0 \<or> rest \<noteq> [] \<and> hd rest = TCP_OPT_END"
    and "tx_stream_ok i w"
  shows "prvCheckOptions i b w = apply_options i opts w"
proof -
  let ?off = "ucTcpOffset (xTCPHeader (xPacket (net_bufs w b)))"
  have "drop_bit 4 (uint ?off) = int (unat ?off div 16)"
    by (simp add: drop_bit_eq_div zdiv_int)
  then have "nat (push_bit 2 (drop_bit 4 (uint ?off) - 5)) = length (options_bytes opts) + pad"
    using assms(3) by (simp add: push_bit_eq_mult)
  then have eq: "prvCheckOptions i b w = check_options_loop i (options_bytes opts @ rest) 0 (length (options_bytes opts) + pad) w"
    using assms(2) by (simp add: prvCheckOptions_def)
  show ?thesis
    using options_loop [where pre = "[]" and n = "length (options_bytes opts) + pad" and rest = rest and opts = opts and i = i and w = w] assms(1,4,5) unfolding eq by auto
qed

text \<open>
  Claim C39. The options of a header that holds a well-formed list of them, filled up with end marks or
  not at all, are read without leaving the buffer and obeyed one after the other as \<open>apply_option\<close>
  says: a smaller segment size is adopted by the socket and its window, every block of a selective
  acknowledgement is noted and the bytes it frees leave the stream buffer, others are passed over.  The
  parser fails exactly if a segment size of 0 has to be adopted, and otherwise the socket ends with the
  smallest segment size either side has named.
\<close>

theorem options_obeyed:
  assumes "\<forall>opt\<in>set opts. wf_option opt"
    and "ucOptdata (xPacket (net_bufs w b)) = options_bytes opts @ rest"
    and "4 * (unat (ucTcpOffset (xTCPHeader (xPacket (net_bufs w b)))) div 16) = 20 + length (options_bytes opts) + pad"
    and "pad = 0 \<or> rest \<noteq> [] \<and> hd rest = TCP_OPT_END"
    and "tx_stream_ok i w"
  shows "prvCheckOptions i b w = apply_options i opts w \<and>
    (prvCheckOptions i b w = None \<longleftrightarrow> MaxSegmentSize 0 \<in> set opts \<and> usInitMSS (socks w i) \<noteq> 0) \<and>
    (\<forall>w'. prvCheckOptions i b w = Some w' \<longrightarrow>
       usInitMSS (socks w' i) = fold min (sizes opts) (usInitMSS (socks w i)))"
  using options_read [OF assms] apply_options_effect [OF assms(5), of opts] by simp

text \<open>The options of a typical SYN.\<close>

definition demo_options :: "tcp_option list" where
  "demo_options = [MaxSegmentSize 1400, NoOperation, NoOperation, OtherOption TCP_OPT_SACK_P []]"

theorem options_obeyed_witness:
  "\<exists>w w'. take 8 (ucOptdata (xPacket (net_bufs w 0))) = [2, 4, 5, 0x78, 1, 1, 4, 2] \<and> usInitMSS (socks w 0) = 1460 \<and>
     prvCheckOptions 0 0 w = Some w' \<and> usInitMSS (socks w' 0) = 1400"
proof -
  let ?b = "options_bytes demo_options"
  have b: "?b = [2, 4, 5, 0x78, 1, 1, 4, 2]"
    by (simp add: options_bytes_def demo_options_def be16_def TCP_OPT_MSS_def TCP_OPT_MSS_LEN_def TCP_OPT_NOOP_def TCP_OPT_SACK_P_def)
  define w where "w = demo_world\<lparr>socks := (\<lambda>_. (socks demo_world 0)\<lparr>usInitMSS := 1460, txStream := None\<rparr>),
    net_bufs := (\<lambda>_. \<lparr>xPacket = zero_packet\<lparr>ucOptdata := ?b @ [],
    xTCPHeader := (xTCPHeader zero_packet)\<lparr>ucTcpOffset := 0x70\<rparr>\<rparr>, bufDataLength = 62\<rparr>)\<rparr>"
  have o: "prvCheckOptions 0 0 w = apply_options 0 demo_options w \<and>
    (prvCheckOptions 0 0 w = None \<longleftrightarrow> MaxSegmentSize 0 \<in> set demo_options \<and> usInitMSS (socks w 0) \<noteq> 0) \<and>
    (\<forall>w'. prvCheckOptions 0 0 w = Some w' \<longrightarrow>
       usInitMSS (socks w' 0) = fold min (sizes demo_options) (usInitMSS (socks w 0)))"
    by (rule options_obeyed [where rest = "[]" and pad = 0])
      (simp_all add: w_def b tx_stream_ok_def, simp add: demo_options_def TCP_OPT_SACK_P_def TCP_OPT_SACK_A_def TCP_OPT_MSS_def TCP_OPT_NOOP_def TCP_OPT_END_def)
  moreover have "MaxSegmentSize 0 \<notin> set demo_options" by (simp add: demo_options_def)
  moreover have "sizes demo_options = [1400]" by (simp add: demo_options_def)
  moreover have "take 8 (ucOptdata (xPacket (net_bufs w 0))) = [2, 4, 5, 0x78, 1, 1, 4, 2]" by (simp add: w_def b)
  moreover have m: "usInitMSS (socks w 0) = 1460" by (simp add: w_def)
  moreover obtain w' where "prvCheckOptions 0 0 w = Some w'" using calculation(1,2) by (metis not_None_eq)
  ultimately show ?thesis by (intro exI [of _ w] exI [of _ w']) (simp add: min_def)
qed

end
