(* ===== verification/Tcp_Handshake.thy ===== *)
theory Tcp_Handshake
  imports Tcp_Open Tcp_Options
begin

text \<open>
  The handshake of a connection somebody else opens, step by step: the child a SYN makes, the answer it
  gives, and the acknowledgement that completes the connection.
\<close>

lemma htons_htons [simp]: "FreeRTOS_htons (FreeRTOS_htons x) = x"
  by (rule bit_word_eqI) (auto simp: FreeRTOS_htons_def htons_wide_def bit_simps dest: bit_imp_le_length)

lemma htons_0 [simp]: "FreeRTOS_htons 0 = 0"
  by (simp add: FreeRTOS_htons_def htons_wide_def)

section \<open>The child a SYN makes\<close>

text \<open>What is known of the socket \<open>j\<close> that a SYN in the buffer \<open>b\<close> has made for the listening socket \<open>i\<close>.\<close>

definition newborn :: "nat \<Rightarrow> nat \<Rightarrow> nat \<Rightarrow> tcp_world \<Rightarrow> bool" where
  "newborn i j b w \<longleftrightarrow>
     (let s = socks w j; q = xPacket (net_bufs w b); h = xTCPHeader q in
      (\<exists>m. bits s = zero_bits\<lparr>bPassQueued := True, bMssChange := m\<rparr>) \<and> pxPeerSocket s = Some i \<and> pxAckMessage s = None \<and>
      txStream s = None \<and> rxStream s = None \<and> usTimeout s = 0 \<and>
      usRemotePort s = FreeRTOS_htons (usSourcePort h) \<and> ulRemoteIP s = FreeRTOS_htonl (ulSourceIPAddress (xIPHeader q)) \<and>
      ucOptionLength (xTcpWindow s) = 0)"

text \<open>The sequence numbers of a connection of which only the peer's SYN has arrived.\<close>

definition numbered :: "u32 \<Rightarrow> u32 \<Rightarrow> TCPWindow_t \<Rightarrow> bool" where
  "numbered ours theirs v \<longleftrightarrow>
     ulOurSequenceNumber v = ours \<and> ulFirstSequenceNumber (tx v) = ours \<and>
     ulCurrentSequenceNumber (rx v) = theirs"

lemma window_init_numbered:
  "numbered b a (vTCPWindowInit a b m v)" "ucOptionLength (vTCPWindowInit a b m v) = ucOptionLength v"
  by (simp_all add: vTCPWindowInit_def numbered_def Let_def)

lemma create_window_child:
  "numbered (ulOurSequenceNumber (xTcpWindow (socks w j))) (ulCurrentSequenceNumber (rx (xTcpWindow (socks w j))))
     (xTcpWindow (socks (prvTCPCreateWindow j w) j))"
  "ucOptionLength (xTcpWindow (socks (prvTCPCreateWindow j w) j)) = ucOptionLength (xTcpWindow (socks w j))"
  "\<exists>v. socks (prvTCPCreateWindow j w) = (socks w)(j := (socks w j)\<lparr>xTcpWindow := v\<rparr>)"
  "net_bufs (prvTCPCreateWindow j w) = net_bufs w" "xBoundTcpSocketsList (prvTCPCreateWindow j w) = xBoundTcpSocketsList w"
  "net (prvTCPCreateWindow j w) = net w"
  "ulNextInitialSequenceNumber (prvTCPCreateWindow j w) = ulNextInitialSequenceNumber w"
  by (auto simp: prvTCPCreateWindow_def vTCPWindowCreate_def pvPortMallocLarge_def upd_win_def upd_sock_def Let_def
      window_init_numbered split: prod.split)

lemma set_mss_child:
  "\<exists>a m. socks (prvSocketSetMSS j w) = (socks w)(j := (socks w j)\<lparr>usCurMSS := a, usInitMSS := m\<rparr>)"
  "net_bufs (prvSocketSetMSS j w) = net_bufs w" "xBoundTcpSocketsList (prvSocketSetMSS j w) = xBoundTcpSocketsList w"
  "net (prvSocketSetMSS j w) = net w" "ulNextInitialSequenceNumber (prvSocketSetMSS j w) = ulNextInitialSequenceNumber w"
  by (auto simp: prvSocketSetMSS_def upd_sock_def Let_def)

text \<open>The segment size a connection starts with: smaller when the peer is not in the own network.\<close>

definition path_mss :: "net_params \<Rightarrow> u32 \<Rightarrow> u16" where
  "path_mss np ip = (if (ip XOR ipLOCAL_IP_ADDRESS np) AND ulNetMask np \<noteq> 0 then 1400 else 1460)"

lemma set_mss_path:
  "usInitMSS (socks (prvSocketSetMSS j w) j) = path_mss (net w) (FreeRTOS_htonl (ulRemoteIP (socks w j)))"
  by (simp add: prvSocketSetMSS_def path_mss_def socks_upd_sock Let_def REDUCED_MSS_THROUGH_INTERNET_def ipconfigTCP_MSS_def
      FreeRTOS_min_uint32_def)

lemma change_quietly:
  assumes "NOW_CONNECTED (state_of w j) = NOW_CONNECTED s" "s \<noteq> eCLOSED"
  shows "vTCPStateChange j s w = prvTCPTouchSocket j (upd_sock j (\<lambda>c. c\<lparr>ucTcpState := s\<rparr>) w)"
  using assms by (simp add: vTCPStateChange_def Let_def)

lemma take_syn_child:
  fixes j b :: nat and w :: tcp_world
  assumes "state_of w j = eCLOSED"
  defines "c \<equiv> socks (take_syn j b w) j" and "q \<equiv> xPacket (net_bufs w b)"
  shows "ucTcpState c = eSYN_FIRST"
    "numbered (ulNextInitialSequenceNumber w) (FreeRTOS_htonl (pktSequenceNumber (xTCPHeader q))) (xTcpWindow c)"
    "ucOptionLength (xTcpWindow c) = ucOptionLength (xTcpWindow (socks w j))"
    "usRemotePort c = FreeRTOS_htons (usSourcePort (xTCPHeader q))"
    "ulRemoteIP c = FreeRTOS_htonl (ulSourceIPAddress (xIPHeader q))"
    "bits c = (bits (socks w j))\<lparr>bWaitKeepAlive := False, bSendKeepAlive := False\<rparr>"
    "pxPeerSocket c = pxPeerSocket (socks w j)" "pxAckMessage c = pxAckMessage (socks w j)"
    "txStream c = txStream (socks w j)" "rxStream c = rxStream (socks w j)" "usTimeout c = usTimeout (socks w j)"
    "usLocPort c = usLocPort (socks w j)" "lastPacket c = q\<lparr>ucOptdata := take 12 (ucOptdata q)\<rparr>"
    "usInitMSS c = path_mss (net w) (FreeRTOS_htonl (ulRemoteIP c))"
proof -
  define w1 where "w1 = upd_sock j (\<lambda>s. s\<lparr>usRemotePort := FreeRTOS_htons (usSourcePort (xTCPHeader q)),
      ulRemoteIP := FreeRTOS_htonl (ulSourceIPAddress (xIPHeader q)),
      xTcpWindow := (xTcpWindow s)\<lparr>ulOurSequenceNumber := ulNextInitialSequenceNumber w,
        rx := (rx (xTcpWindow s))\<lparr>ulCurrentSequenceNumber := FreeRTOS_htonl (pktSequenceNumber (xTCPHeader q))\<rparr>\<rparr>\<rparr>) w"
  have s1: "socks w1 j = (socks w j)\<lparr>usRemotePort := FreeRTOS_htons (usSourcePort (xTCPHeader q)),
      ulRemoteIP := FreeRTOS_htonl (ulSourceIPAddress (xIPHeader q)),
      xTcpWindow := (xTcpWindow (socks w j))\<lparr>ulOurSequenceNumber := ulNextInitialSequenceNumber w,
        rx := (rx (xTcpWindow (socks w j)))\<lparr>ulCurrentSequenceNumber := FreeRTOS_htonl (pktSequenceNumber (xTCPHeader q))\<rparr>\<rparr>\<rparr>"
    by (simp add: w1_def socks_upd_sock)
  define w2 where "w2 = prvTCPCreateWindow j (prvSocketSetMSS j w1)"
  define w3 where "w3 = w2\<lparr>ulNextInitialSequenceNumber := ulNextInitialSequenceNumber w2 + INITIAL_SEQUENCE_NUMBER_INCREMENT\<rparr>"
  have t: "take_syn j b w = upd_sock j (\<lambda>s. s\<lparr>lastPacket := q\<lparr>ucOptdata := take 12 (ucOptdata q)\<rparr>\<rparr>) (vTCPStateChange j eSYN_FIRST w3)"
    by (simp add: take_syn_def Let_def w1_def w2_def w3_def q_def)
  obtain a m where m: "socks (prvSocketSetMSS j w1) = (socks w1)(j := (socks w1 j)\<lparr>usCurMSS := a, usInitMSS := m\<rparr>)"
    using set_mss_child(1) by blast
  have "net w1 = net w" by (simp add: w1_def upd_sock_def)
  then have m': "m = path_mss (net w) (FreeRTOS_htonl (FreeRTOS_htonl (ulSourceIPAddress (xIPHeader q))))"
    using set_mss_path [of j w1] unfolding m by (simp add: s1)
  obtain v where v: "socks w2 = (socks (prvSocketSetMSS j w1))(j := (socks (prvSocketSetMSS j w1) j)\<lparr>xTcpWindow := v\<rparr>)"
    using create_window_child(3) [where w = "prvSocketSetMSS j w1" and j = j] unfolding w2_def by blast
  have vn: "numbered (ulNextInitialSequenceNumber w) (FreeRTOS_htonl (pktSequenceNumber (xTCPHeader q))) v"
    "ucOptionLength v = ucOptionLength (xTcpWindow (socks w j))"
    using create_window_child(1,2) [where w = "prvSocketSetMSS j w1" and j = j] unfolding w2_def [symmetric]
    by (simp_all add: v m s1)
  have s3: "socks w3 j = (socks w1 j)\<lparr>usCurMSS := a, usInitMSS := m, xTcpWindow := v\<rparr>"
    by (simp add: w3_def v m)
  then have "state_of w3 j = eCLOSED" using assms(1) by (simp add: s1)
  then have q3: "vTCPStateChange j eSYN_FIRST w3 = prvTCPTouchSocket j (upd_sock j (\<lambda>c. c\<lparr>ucTcpState := eSYN_FIRST\<rparr>) w3)"
    by (intro change_quietly) (simp_all add: NOW_CONNECTED_def state_order)
  have c: "c = (socks w1 j)\<lparr>usCurMSS := a, usInitMSS := m, xTcpWindow := v, ucTcpState := eSYN_FIRST, xLastActTime := xTickCount w3,
      bits := (bits (socks w1 j))\<lparr>bWaitKeepAlive := False, bSendKeepAlive := False\<rparr>, ucKeepRepCount := 0, xLastAliveTime := xTickCount w3,
      lastPacket := q\<lparr>ucOptdata := take 12 (ucOptdata q)\<rparr>\<rparr>"
    unfolding c_def t q3 by (simp add: prvTCPTouchSocket_def socks_upd_sock s3 upd_sock_def)
  show "ucTcpState c = eSYN_FIRST"
    "numbered (ulNextInitialSequenceNumber w) (FreeRTOS_htonl (pktSequenceNumber (xTCPHeader q))) (xTcpWindow c)"
    "ucOptionLength (xTcpWindow c) = ucOptionLength (xTcpWindow (socks w j))"
    "usRemotePort c = FreeRTOS_htons (usSourcePort (xTCPHeader q))"
    "ulRemoteIP c = FreeRTOS_htonl (ulSourceIPAddress (xIPHeader q))"
    "bits c = (bits (socks w j))\<lparr>bWaitKeepAlive := False, bSendKeepAlive := False\<rparr>"
    "pxPeerSocket c = pxPeerSocket (socks w j)" "pxAckMessage c = pxAckMessage (socks w j)"
    "txStream c = txStream (socks w j)" "rxStream c = rxStream (socks w j)" "usTimeout c = usTimeout (socks w j)"
    "usLocPort c = usLocPort (socks w j)" "lastPacket c = q\<lparr>ucOptdata := take 12 (ucOptdata q)\<rparr>"
    "usInitMSS c = path_mss (net w) (FreeRTOS_htonl (ulRemoteIP c))"
    using vn by (simp_all add: c s1 m')
qed

lemma take_syn_world:
  assumes "state_of w j = eCLOSED"
  shows "net_bufs (take_syn j b w) = net_bufs w" "net (take_syn j b w) = net w"
    "xBoundTcpSocketsList (take_syn j b w) = xBoundTcpSocketsList w"
    "ulNextInitialSequenceNumber (take_syn j b w) = ulNextInitialSequenceNumber w + INITIAL_SEQUENCE_NUMBER_INCREMENT"
    "k \<noteq> j \<Longrightarrow> socks (take_syn j b w) k = socks w k"
proof -
  have NC: "NOW_CONNECTED eCLOSED = NOW_CONNECTED eSYN_FIRST" by (simp add: NOW_CONNECTED_def state_order)
  note * = take_syn_def Let_def set_mss_child(2-) create_window_child(4-) vTCPStateChange_def prvTCPTouchSocket_def upd_sock_def
  have st: "state_of (prvTCPCreateWindow j (prvSocketSetMSS j w')) j = state_of w' j" for w'
    using create_window_child(3) [where w = "prvSocketSetMSS j w'" and j = j] set_mss_child(1) [of j w'] by auto
  have other: "socks (prvTCPCreateWindow j (prvSocketSetMSS j w')) k = socks w' k" if "k \<noteq> j" for w' k
    using create_window_child(3) [where w = "prvSocketSetMSS j w'" and j = j] set_mss_child(1) [of j w'] that by auto
  show "net_bufs (take_syn j b w) = net_bufs w" "net (take_syn j b w) = net w"
    "xBoundTcpSocketsList (take_syn j b w) = xBoundTcpSocketsList w"
    "ulNextInitialSequenceNumber (take_syn j b w) = ulNextInitialSequenceNumber w + INITIAL_SEQUENCE_NUMBER_INCREMENT"
    "k \<noteq> j \<Longrightarrow> socks (take_syn j b w) k = socks w k"
    by (simp_all add: * st assms NC other)
qed

lemma copy_properties_socks:
  "k \<noteq> j \<Longrightarrow> socks (copy_properties j i w) k = socks w k"
  "ucTcpState (socks (copy_properties j i w) j) = state_of w j" "bits (socks (copy_properties j i w) j) = bits (socks w j)"
  "pxAckMessage (socks (copy_properties j i w) j) = pxAckMessage (socks w j)"
  "txStream (socks (copy_properties j i w) j) = txStream (socks w j)"
  "rxStream (socks (copy_properties j i w) j) = rxStream (socks w j)"
  "usTimeout (socks (copy_properties j i w) j) = usTimeout (socks w j)"
  "xTcpWindow (socks (copy_properties j i w) j) = xTcpWindow (socks w j)"
  "net_bufs (copy_properties j i w) = net_bufs w" "net (copy_properties j i w) = net w"
  "xBoundTcpSocketsList (copy_properties j i w) = xBoundTcpSocketsList w"
  "ulNextInitialSequenceNumber (copy_properties j i w) = ulNextInitialSequenceNumber w"
  "net_out (copy_properties j i w) = net_out w"
  by (simp_all add: copy_properties_def Let_def upd_sock_def split: option.split)

text \<open>A listening socket with room for one more child answers a SYN by making it.\<close>

lemma handle_listen_child:
  assumes "\<not> bReuseSocket (bits (socks w i))" "usChildCount (socks w i) < usBacklog (socks w i)" "usLocPort (socks w i) \<noteq> 0"
    and "heap_room w (heap_asked w)" "heap_room w (heap_asked w + 1)" "i < next_sock w"
  defines "j \<equiv> next_sock w"
  obtains w' where "prvHandleListen i b w = Some (Some j, w')" "newborn i j b w'" "state_of w' j = eSYN_FIRST"
    "numbered (ulNextInitialSequenceNumber w) (FreeRTOS_htonl (pktSequenceNumber (xTCPHeader (xPacket (net_bufs w b))))) (xTcpWindow (socks w' j))"
    "usInitMSS (socks w' j) = path_mss (net w) (FreeRTOS_htonl (ulRemoteIP (socks w' j)))"
    "usLocPort (socks w' j) = usLocPort (socks w i)" "\<And>k. k \<noteq> j \<Longrightarrow> socks w' k = (if k = i then (socks w i)\<lparr>usChildCount := usChildCount (socks w i) + 1\<rparr> else socks w k)"
    "xBoundTcpSocketsList w' = xBoundTcpSocketsList w @ [j]" "net_bufs w' = net_bufs w" "net w' = net w"
    "ulNextInitialSequenceNumber w' = ulNextInitialSequenceNumber w + INITIAL_SEQUENCE_NUMBER_INCREMENT" "net_out w' = net_out w"
proof -
  define w1 where "w1 = snd (FreeRTOS_socket w)"
  have sock: "FreeRTOS_socket w = (Some j, w1)" using assms(4,5) by (simp add: w1_def FreeRTOS_socket_def pvPortMallocLarge_def j_def upd_sock_def)
  have w1: "socks w1 = (socks w)(j := fresh_socket)" "xBoundTcpSocketsList w1 = xBoundTcpSocketsList w" "net_bufs w1 = net_bufs w"
    "net w1 = net w" "ulNextInitialSequenceNumber w1 = ulNextInitialSequenceNumber w" "net_out w1 = net_out w"
    using assms(4,5) by (simp_all add: w1_def FreeRTOS_socket_def pvPortMallocLarge_def j_def upd_sock_def)
  have ij: "i \<noteq> j" using assms(6) by (simp add: j_def)
  have nz: "FreeRTOS_htons (usLocPort (socks w i)) \<noteq> 0"
    using assms(3) by (metis htons_htons htons_0)
  define w2 where "w2 = snd (the (prvTCPSocketCopy j i w1))"
  have copy: "prvTCPSocketCopy j i w1 = Some (True, w2)"
    using nz ij by (simp add: w2_def prvTCPSocketCopy_def vSocketBind_def Let_def socks_upd_sock copy_properties_socks w1)
  have w2: "k \<noteq> j \<Longrightarrow> socks w2 k = (if k = i then (socks w i)\<lparr>usChildCount := usChildCount (socks w i) + 1\<rparr> else socks w k)"
    "xBoundTcpSocketsList w2 = xBoundTcpSocketsList w @ [j]" "net_bufs w2 = net_bufs w" "net w2 = net w"
    "ulNextInitialSequenceNumber w2 = ulNextInitialSequenceNumber w" "net_out w2 = net_out w" for k
    using nz ij by (simp_all add: w2_def prvTCPSocketCopy_def vSocketBind_def Let_def upd_sock_def copy_properties_socks w1)
  have c: "ucTcpState (socks w2 j) = eCLOSED" "bits (socks w2 j) = zero_bits\<lparr>bPassQueued := True\<rparr>" "pxPeerSocket (socks w2 j) = Some i"
    "pxAckMessage (socks w2 j) = None" "txStream (socks w2 j) = None" "rxStream (socks w2 j) = None" "usTimeout (socks w2 j) = 0"
    "xTcpWindow (socks w2 j) = zero_window" "usLocPort (socks w2 j) = usLocPort (socks w i)"
    using nz ij by (simp_all add: w2_def prvTCPSocketCopy_def vSocketBind_def Let_def upd_sock_def copy_properties_socks w1 fresh_socket_def)
  show ?thesis
  proof (rule that [of "take_syn j b w2"])
    show "prvHandleListen i b w = Some (Some j, take_syn j b w2)"
      using assms(1,2) by (simp add: prvHandleListen_def sock copy)
    show "newborn i j b (take_syn j b w2)"
      using take_syn_child [OF c(1), of b]
      by (simp add: newborn_def Let_def take_syn_world [OF c(1)] c zero_bits_def zero_window_def exI [of _ False])
    show "net_out (take_syn j b w2) = net_out w" by (simp add: take_syn_def Let_def frames w2)
    show "k \<noteq> j \<Longrightarrow> socks (take_syn j b w2) k = (if k = i then (socks w i)\<lparr>usChildCount := usChildCount (socks w i) + 1\<rparr> else socks w k)" for k
      using take_syn_world(5) [OF c(1)] w2(1) by simp
  qed (use take_syn_child [OF c(1), of b] take_syn_world(1-4) [OF c(1), of b] in \<open>simp_all add: w2 c\<close>)
qed

section \<open>A frame for a connection\<close>

lemma return_frame:
  assumes "\<not> bSendKeepAlive (bits (socks w i))"
  shows "\<exists>f. net_out (prvTCPReturnPacket (Some i) (NetBuf b) n w) = net_out w @ [(f, n + 14)] \<and>
    (let q = xPacket (net_bufs w b); h = xTCPHeader q; g = xTCPHeader f; win = xTcpWindow (socks w i) in
     ucOptdata f = ucOptdata q \<and> ulDestinationIPAddress (xIPHeader f) = ulSourceIPAddress (xIPHeader q) \<and>
     ulSourceIPAddress (xIPHeader f) = ipLOCAL_IP_ADDRESS (net w) \<and> usLength (xIPHeader f) = htons_wide n \<and>
     xDestinationAddress (ethHeader f) = xSourceAddress (ethHeader q) \<and> xSourceAddress (ethHeader f) = ipLOCAL_MAC_ADDRESS (net w) \<and>
     usSourcePort g = usDestinationPort h \<and> usDestinationPort g = usSourcePort h \<and> ucTcpOffset g = ucTcpOffset h \<and>
     pktSequenceNumber g = FreeRTOS_htonl (ulOurSequenceNumber win) \<and> ulAckNr g = FreeRTOS_htonl (ulCurrentSequenceNumber (rx win)) \<and>
     (ucTcpFlags h AND ipTCP_FLAG_FIN = 0 \<longrightarrow> ucTcpFlags g = ucTcpFlags h))"
  using assms
  by (simp add: prvTCPReturnPacket_def return_header_def addressed_def swap_ports_def upd_tcp_def set_bufDataLength_def
      socks_upd_sock ipSIZE_OF_ETH_HEADER_def Let_def)

lemma return_header_socks:
  "socks (return_header i (NetBuf b) n w) =
   socks ((if bSendKeepAlive (bits (socks w i)) then upd_bits i (\<lambda>b. b\<lparr>bSendKeepAlive := False, bWaitKeepAlive := True\<rparr>) else id)
     (upd_sock i (\<lambda>s. s\<lparr>bits := (bits s)\<lparr>bWinChange := False\<rparr>,
        ulHighestRxAllowed := ulCurrentSequenceNumber (rx (xTcpWindow s)) + advertised_space (socks w i)\<rparr>) w))"
  by (simp add: return_header_def upd_tcp_def upd_sock_def upd_bits_def Let_def)

lemma return_packet_socks: "socks (prvTCPReturnPacket (Some i) (NetBuf b) n w) = socks (return_header i (NetBuf b) n w)"
  by (simp add: prvTCPReturnPacket_def set_bufDataLength_def Let_def)

lemma return_socks:
  "k \<noteq> i \<Longrightarrow> socks (prvTCPReturnPacket (Some i) (NetBuf b) n w) k = socks w k"
  "xTcpWindow (socks (prvTCPReturnPacket (Some i) (NetBuf b) n w) k) = xTcpWindow (socks w k)"
  "txStream (socks (prvTCPReturnPacket (Some i) (NetBuf b) n w) k) = txStream (socks w k)"
  "rxStream (socks (prvTCPReturnPacket (Some i) (NetBuf b) n w) k) = rxStream (socks w k)"
  "usInitMSS (socks (prvTCPReturnPacket (Some i) (NetBuf b) n w) k) = usInitMSS (socks w k)"
  "usRemotePort (socks (prvTCPReturnPacket (Some i) (NetBuf b) n w) k) = usRemotePort (socks w k)"
  "ulRemoteIP (socks (prvTCPReturnPacket (Some i) (NetBuf b) n w) k) = ulRemoteIP (socks w k)"
  "usLocPort (socks (prvTCPReturnPacket (Some i) (NetBuf b) n w) k) = usLocPort (socks w k)"
  "pxPeerSocket (socks (prvTCPReturnPacket (Some i) (NetBuf b) n w) k) = pxPeerSocket (socks w k)"
  "bPassQueued (bits (socks (prvTCPReturnPacket (Some i) (NetBuf b) n w) k)) = bPassQueued (bits (socks w k))"
  "bReuseSocket (bits (socks (prvTCPReturnPacket (Some i) (NetBuf b) n w) k)) = bReuseSocket (bits (socks w k))"
  "\<not> bWinChange (bits (socks (prvTCPReturnPacket (Some i) (NetBuf b) n w) i))"
  "\<not> bSendKeepAlive (bits (socks (prvTCPReturnPacket (Some i) (NetBuf b) n w) i))"
  unfolding return_packet_socks
  by (cases "k = i"; simp add: return_header_socks socks_upd_sock upd_bits_def)+

lemma return_bound: "xBoundTcpSocketsList (prvTCPReturnPacket (Some i) (NetBuf b) n w) = xBoundTcpSocketsList w"
  by (simp add: prvTCPReturnPacket_def return_header_def upd_tcp_def set_bufDataLength_def upd_bits_def Let_def)

text \<open>Nothing to send: the loop ends without touching any socket.\<close>

lemma nothing_to_send:
  assumes "txStream (socks w i) = None" "\<not> bWinChange (bits (socks w i))" "\<not> bSendKeepAlive (bits (socks w i))"
    and "state_of w i \<noteq> eESTABLISHED"
  shows "\<exists>w'. prvTCPSendRepeated i (Some b) w = Some (0, Some b, w') \<and> socks w' = socks w \<and> net_out w' = net_out w \<and>
    free_bufs w' = free_bufs w \<and> xBoundTcpSocketsList w' = xBoundTcpSocketsList w \<and> next_sock w' = next_sock w"
proof -
  have "\<exists>w'. send_repeated_loop i (Suc n) (Some b) 0 w = Some (0, Some b, w') \<and> socks w' = socks w \<and> net_out w' = net_out w \<and>
      free_bufs w' = free_bufs w \<and> xBoundTcpSocketsList w' = xBoundTcpSocketsList w \<and> next_sock w' = next_sock w" for n
    using assms
    by (simp add: uxGetRxEventCount_def prvTCPPrepareSend_def prepare_data_def shutdown_and_keepalive_def packet_of_def upd_tcp_def)
  from this [of 7] show ?thesis by (simp add: prvTCPSendRepeated_def SEND_REPEATED_COUNT_def)
qed

section \<open>The answer to a SYN\<close>

lemma upd_win_twice: "upd_win j f (upd_win j g w) = upd_win j (\<lambda>v. f (g v)) w"
  by (simp add: upd_win_def upd_sock_def)

lemma upd_win_id: "upd_win j (\<lambda>v. v) w = w"
  by (simp add: upd_win_def upd_sock_def)

lemma note_packet_early:
  assumes "state_of w j = eSYN_FIRST \<or> state_of w j = eSYN_RECEIVED"
  shows "\<exists>h. note_packet j s n w = upd_win j (\<lambda>v. v\<lparr>rx := (rx v)\<lparr>ulHighestSequenceNumber := h\<rparr>\<rparr>) w"
proof -
  have "w = upd_win j (\<lambda>v. v\<lparr>rx := (rx v)\<lparr>ulHighestSequenceNumber := ulHighestSequenceNumber (rx (xTcpWindow (socks w j)))\<rparr>\<rparr>) w"
    by (simp add: upd_win_def upd_sock_def)
  then show ?thesis using assms by (auto simp: note_packet_def state_order Let_def)
qed

text \<open>The socket and the frame once the SYN is answered.\<close>

definition answered :: "nat \<Rightarrow> nat \<Rightarrow> u32 \<Rightarrow> u32 \<Rightarrow> tcp_world \<Rightarrow> bool" where
  "answered i j ours theirs w \<longleftrightarrow>
     (let s = socks w j; v = xTcpWindow s in
      ucTcpState s = eSYN_RECEIVED \<and> bPassQueued (bits s) \<and> \<not> bReuseSocket (bits s) \<and> \<not> bWinChange (bits s) \<and> \<not> bSendKeepAlive (bits s) \<and>
      pxPeerSocket s = Some i \<and> pxAckMessage s = None \<and> txStream s = None \<and> rxStream s = None \<and>
      ulOurSequenceNumber v = ours \<and> ulFirstSequenceNumber (tx v) = ours \<and> ulCurrentSequenceNumber (tx v) = ours + 1 \<and>
      ulNextTxSequenceNumber v = ours + 1 \<and>
      ulCurrentSequenceNumber (rx v) = theirs + 1 \<and> ulHighestSequenceNumber (rx v) = theirs + 1)"

definition syn_ack :: "net_params \<Rightarrow> u32 \<Rightarrow> u16 \<Rightarrow> TCPPacket_t \<Rightarrow> TCPPacket_t \<Rightarrow> bool" where
  "syn_ack np ours mss q f \<longleftrightarrow>
     (let h = xTCPHeader q; g = xTCPHeader f in
      usSourcePort g = usDestinationPort h \<and> usDestinationPort g = usSourcePort h \<and>
      ulDestinationIPAddress (xIPHeader f) = ulSourceIPAddress (xIPHeader q) \<and>
      ulSourceIPAddress (xIPHeader f) = ipLOCAL_IP_ADDRESS np \<and> usLength (xIPHeader f) = FreeRTOS_htons 48 \<and>
      xDestinationAddress (ethHeader f) = xSourceAddress (ethHeader q) \<and> xSourceAddress (ethHeader f) = ipLOCAL_MAC_ADDRESS np \<and>
      ucTcpFlags g = ipTCP_FLAG_SYN OR ipTCP_FLAG_ACK \<and> ucTcpOffset g = 0x70 \<and>
      pktSequenceNumber g = FreeRTOS_htonl ours \<and>
      ulAckNr g = FreeRTOS_htonl (FreeRTOS_htonl (pktSequenceNumber h) + 1) \<and>
      take 8 (ucOptdata f) = [TCP_OPT_MSS, TCP_OPT_MSS_LEN, ucast (drop_bit 8 mss), ucast mss, TCP_OPT_NOOP, TCP_OPT_NOOP, TCP_OPT_SACK_P, 2])"

lemma send_data_at_once:
  assumes "pxAckMessage (socks w j) = None" "n \<noteq> 0"
  shows "prvSendData j (Some b) 0 n w =
    (n, Some b, prvTCPReturnPacket (Some j) (NetBuf b) (word_of_int n) (upd_sock j (\<lambda>s. s\<lparr>ulRxCurWinSize := rx_window s\<rparr>) w))"
  using assms by (simp add: prvSendData_def Let_def socks_upd_sock packet_of_def)

lemma syn_state_step:
  assumes "newborn i j b w" "state_of w j = eSYN_FIRST" "numbered ours theirs (xTcpWindow (socks w j))"
    and "fst (prvCheckRxData b w) = 0" "flags_at w b AND ipTCP_FLAG_FIN = 0"
    and "theirs = FreeRTOS_htonl (pktSequenceNumber (xTCPHeader (xPacket (net_bufs w b))))"
  obtains h where "prvTCPHandleState j b w =
    Some (48, Some b, prvTCPReturnPacket (Some j) (NetBuf b) 48 (upd_sock j (\<lambda>s. s\<lparr>ulRxCurWinSize := rx_window s\<rparr>)
      (snd (answer_syn j b theirs (upd_win j (\<lambda>v. v\<lparr>rx := (rx v)\<lparr>ulHighestSequenceNumber := h\<rparr>, ucOptionLength := 0\<rparr>) w)))))"
proof -
  obtain h where h: "note_packet j theirs 0 w = upd_win j (\<lambda>v. v\<lparr>rx := (rx v)\<lparr>ulHighestSequenceNumber := h\<rparr>\<rparr>) w"
    using note_packet_early assms(2) by blast
  define w2 where "w2 = upd_win j (\<lambda>v. v\<lparr>rx := (rx v)\<lparr>ulHighestSequenceNumber := h\<rparr>, ucOptionLength := 0\<rparr>) w"
  have w2: "state_of w2 j = eSYN_FIRST" "ucOptionLength (xTcpWindow (socks w2 j)) = 0" "held w2 j = None"
    using assms(1,2) by (simp_all add: w2_def upd_win_def socks_upd_sock newborn_def Let_def)
  have store: "prvStoreRxData j d b 0 (note_packet j theirs 0 w) = Some (0, w2)" for d
    by (simp add: prvStoreRxData_def h upd_win_twice w2_def)
  have opts: "prvSetOptions j b w2 = (0, w2)"
    using w2 by (simp add: prvSetOptions_def Let_def state_order)
  have noflags: "note_flags j (flags_at w b) s 0 w2 = w2" for s
    using w2 assms(5) by (simp add: note_flags_def Let_def)
  have act: "state_action j b theirs 0 0 w2 = Some (48, Some b, snd (answer_syn j b theirs w2))"
    using w2 by (simp add: state_action_def answer_syn_def prvSetSynAckOptions_def split_def Let_def headers_length_def
        ipSIZE_OF_IP_HEADER_def ipSIZE_OF_TCP_HEADER_def)
  have "held (snd (answer_syn j b theirs w2)) j = None"
    using w2(3) by (simp add: answer_syn_def split_def Let_def frames prvSetSynAckOptions_def)
  then have "prvTCPHandleState j b w = Some (48, Some b, prvTCPReturnPacket (Some j) (NetBuf b) 48
      (upd_sock j (\<lambda>s. s\<lparr>ulRxCurWinSize := rx_window s\<rparr>) (snd (answer_syn j b theirs w2))))"
    using assms(4) store opts noflags act
    by (simp add: prvTCPHandleState_def Let_def split_def send_data_at_once assms(6) [symmetric])
  then show ?thesis using that unfolding w2_def by blast
qed

text \<open>
  Everything that is left after the socket's own answer: the options it sent and what is released.
\<close>

lemma answer_syn_socket:
  fixes j b :: nat and w :: tcp_world and theirs :: u32
  assumes "state_of w j = eSYN_FIRST" "ulFirstSequenceNumber (tx (xTcpWindow (socks w j))) = ours"
  defines "c \<equiv> socks (snd (answer_syn j b theirs w)) j"
  shows "ucTcpState c = eSYN_RECEIVED" "pxPeerSocket c = pxPeerSocket (socks w j)" "pxAckMessage c = pxAckMessage (socks w j)"
    "txStream c = txStream (socks w j)" "rxStream c = rxStream (socks w j)" "bPassQueued (bits c) = bPassQueued (bits (socks w j))"
    "bReuseSocket (bits c) = bReuseSocket (bits (socks w j))"
    "usLocPort c = usLocPort (socks w j)" "usRemotePort c = usRemotePort (socks w j)" "ulRemoteIP c = ulRemoteIP (socks w j)"
    "usInitMSS c = usInitMSS (socks w j)" "\<not> bSendKeepAlive (bits c)"
    "ulOurSequenceNumber (xTcpWindow c) = ulOurSequenceNumber (xTcpWindow (socks w j))" "ulFirstSequenceNumber (tx (xTcpWindow c)) = ours"
    "ulCurrentSequenceNumber (tx (xTcpWindow c)) = ours + 1" "ulNextTxSequenceNumber (xTcpWindow c) = ours + 1"
    "ulCurrentSequenceNumber (rx (xTcpWindow c)) = theirs + 1" "ulHighestSequenceNumber (rx (xTcpWindow c)) = theirs + 1"
    "k \<noteq> j \<Longrightarrow> socks (snd (answer_syn j b theirs w)) k = socks w k"
    "net_out (snd (answer_syn j b theirs w)) = net_out w" "free_bufs (snd (answer_syn j b theirs w)) = free_bufs w"
    "net (snd (answer_syn j b theirs w)) = net w" "next_sock (snd (answer_syn j b theirs w)) = next_sock w"
    "xBoundTcpSocketsList (snd (answer_syn j b theirs w)) = xBoundTcpSocketsList w"
    "xPacket (net_bufs (snd (answer_syn j b theirs w)) b) = (let q = xPacket (net_bufs w b); m = usInitMSS (socks w j) in
       q\<lparr>ucOptdata := mem_write (ucOptdata q) 0 [TCP_OPT_MSS, TCP_OPT_MSS_LEN, ucast (drop_bit 8 m), ucast (m AND 0xff), TCP_OPT_NOOP, TCP_OPT_NOOP, TCP_OPT_SACK_P, 2],
         xTCPHeader := (xTCPHeader q)\<lparr>ucTcpFlags := ipTCP_FLAG_SYN OR ipTCP_FLAG_ACK, ucTcpOffset := 0x70\<rparr>\<rparr>)"
  using assms(1,2) unfolding c_def
  by (simp_all add: answer_syn_def prvSetSynAckOptions_def split_def Let_def change_quietly NOW_CONNECTED_def state_order
      prvTCPTouchSocket_def upd_win_def upd_tcp_def upd_sock_def tcp_offset_def ipSIZE_OF_TCP_HEADER_def)

lemma low_byte: "ucast (m AND 0xff) = (ucast m :: u8)" for m :: u16
proof -
  have "m AND 0xff = take_bit 8 m" by (simp add: take_bit_eq_mask mask_eq_exp_minus_1)
  then show ?thesis by (simp only:) (rule bit_word_eqI, simp add: bit_simps)
qed

lemma release_frame:
  "socks (release_net_buffer b w) = socks w" "net_out (release_net_buffer b w) = net_out w"
  "xBoundTcpSocketsList (release_net_buffer b w) = xBoundTcpSocketsList w"
  "b \<in> set (free_bufs (release_net_buffer b w))"
  by (simp_all add: release_net_buffer_def)

lemma timeout_set_frame:
  "net_out (snd (prvTCPNextTimeout i w)) = net_out w" "free_bufs (snd (prvTCPNextTimeout i w)) = free_bufs w"
  "xBoundTcpSocketsList (snd (prvTCPNextTimeout i w)) = xBoundTcpSocketsList w"
  "\<exists>t. snd (prvTCPNextTimeout i w) = upd_sock i (\<lambda>s. s\<lparr>usTimeout := t\<rparr>) w"
  by (auto simp: prvTCPNextTimeout_def Let_def split_def)

lemma check_rx_data_only_buffer: "net_bufs w' = net_bufs w \<Longrightarrow> prvCheckRxData b w' = prvCheckRxData b w"
  by (simp add: prvCheckRxData_def)

text \<open>
  A SYN with the options \<open>opts\<close>, none of them a selective acknowledgement or a segment size of 0: they
  change nothing of the child but its segment size.
\<close>

definition syn_options :: "TCPPacket_t \<Rightarrow> tcp_option list \<Rightarrow> bool" where
  "syn_options q opts \<longleftrightarrow> MaxSegmentSize 0 \<notin> set opts \<and> (\<forall>bs. SelectiveAck bs \<notin> set opts) \<and>
     (if ucTcpOffset (xTCPHeader q) AND 0xf0 > 0x50 then
        (\<forall>opt\<in>set opts. wf_option opt) \<and>
        (\<exists>rest pad. ucOptdata q = options_bytes opts @ rest \<and>
           4 * (unat (ucTcpOffset (xTCPHeader q)) div 16) = 20 + length (options_bytes opts) + pad \<and>
           (pad = 0 \<or> rest \<noteq> [] \<and> hd rest = TCP_OPT_END))
      else opts = [])"

definition mss_only :: "nat \<Rightarrow> tcp_world \<Rightarrow> tcp_world \<Rightarrow> bool" where
  "mss_only j w w' \<longleftrightarrow> (\<exists>c r a d m n. w' = upd_sock j (\<lambda>s. s\<lparr>bits := (bits s)\<lparr>bMssChange := c\<rparr>,
     xTcpWindow := (xTcpWindow s)\<lparr>ulRxWindowLength := r, usMSSInit := a, usMSS := d\<rparr>, usInitMSS := m, usCurMSS := n\<rparr>) w)"

lemma mss_only_refl: "mss_only j w w"
  unfolding mss_only_def upd_sock_def
  by (intro exI [of _ "bMssChange (bits (socks w j))"] exI [of _ "ulRxWindowLength (xTcpWindow (socks w j))"]
      exI [of _ "usMSSInit (xTcpWindow (socks w j))"] exI [of _ "usMSS (xTcpWindow (socks w j))"]
      exI [of _ "usInitMSS (socks w j)"] exI [of _ "usCurMSS (socks w j)"]) simp

lemma mss_only_trans: "mss_only j w w1 \<Longrightarrow> mss_only j w1 w' \<Longrightarrow> mss_only j w w'"
  by (clarsimp simp: mss_only_def upd_sock_def) blast

lemma adopt_mss_only: "mss_only j w (w\<lparr>socks := (socks w)(j := adopt_mss m (socks w j))\<rparr>)"
  unfolding mss_only_def upd_sock_def adopt_mss_def by (rule exI)+ (rule refl)

lemma apply_options_mss_only:
  "\<forall>bs. SelectiveAck bs \<notin> set opts \<Longrightarrow> apply_options j opts w = Some w' \<Longrightarrow> mss_only j w w'"
proof (induction opts arbitrary: w)
  case (Cons opt opts)
  obtain w1 where w1: "apply_option j opt w = Some w1" "apply_options j opts w1 = Some w'"
    using Cons.prems(2) by (cases "apply_option j opt w") auto
  have "mss_only j w w1"
  proof (cases opt)
    case (MaxSegmentSize m)
    then show ?thesis using w1(1) mss_only_refl [of j w] adopt_mss_only [of j w m]
      by (simp split: if_splits)
  qed (use w1(1) Cons.prems(1) mss_only_refl in auto)
  then show ?case using Cons.IH [OF _ w1(2)] Cons.prems(1) mss_only_trans by (metis list.set_intros(2))
qed (simp add: mss_only_refl)

lemma syn_options_read:
  assumes "syn_options (xPacket (net_bufs w b)) opts" "txStream (socks w j) = None"
  obtains w' where
    "(if ucTcpOffset (xTCPHeader (xPacket (net_bufs w b))) AND 0xf0 > 0x50 then prvCheckOptions j b w else Some w) = Some w'"
    "mss_only j w w'" "usInitMSS (socks w' j) = fold min (sizes opts) (usInitMSS (socks w j))"
proof (cases "ucTcpOffset (xTCPHeader (xPacket (net_bufs w b))) AND 0xf0 > 0x50")
  case True
  have st: "tx_stream_ok j w" using assms(2) by (simp add: tx_stream_ok_def)
  obtain rest pad where o: "\<forall>opt\<in>set opts. wf_option opt" "ucOptdata (xPacket (net_bufs w b)) = options_bytes opts @ rest"
    "4 * (unat (ucTcpOffset (xTCPHeader (xPacket (net_bufs w b)))) div 16) = 20 + length (options_bytes opts) + pad"
    "pad = 0 \<or> rest \<noteq> [] \<and> hd rest = TCP_OPT_END"
    and z: "MaxSegmentSize 0 \<notin> set opts" "\<forall>bs. SelectiveAck bs \<notin> set opts"
    using assms(1) True by (auto simp: syn_options_def)
  have eq: "prvCheckOptions j b w = apply_options j opts w" by (rule options_read [OF o st])
  obtain w' where w': "apply_options j opts w = Some w'" using apply_options_effect [OF st, of opts] z(1) by auto
  show ?thesis
  proof (rule that [of w'])
    show "usInitMSS (socks w' j) = fold min (sizes opts) (usInitMSS (socks w j))" using apply_options_effect [OF st, of opts] w' by blast
  qed (use True eq w' apply_options_mss_only [OF z(2) w'] in simp_all)
next
  case False
  then have "opts = []" using assms(1) by (simp add: syn_options_def)
  then show ?thesis using False by (intro that [of w]) (simp_all add: mss_only_refl)
qed

text \<open>The SYN on its child: answered by one frame, and the buffer goes back.\<close>

lemma syn_answered:
  assumes "newborn i j b w" "state_of w j = eSYN_FIRST" "numbered ours theirs (xTcpWindow (socks w j))"
    and "fst (prvCheckRxData b w) = 0" "flags_at w b AND ipTCP_FLAG_FIN = 0"
    and theirs: "theirs = FreeRTOS_htonl (pktSequenceNumber (xTCPHeader (xPacket (net_bufs w b))))"
    and opts: "syn_options (xPacket (net_bufs w b)) opts"
  obtains w' f where "process_for_socket j b w = Some w'" "answered i j ours theirs w'"
    "net_out w' = net_out w @ [(f, 62)]" "syn_ack (net w) ours (usInitMSS (socks w' j)) (xPacket (net_bufs w b)) f"
    "usRemotePort (socks w' j) = usRemotePort (socks w j)" "ulRemoteIP (socks w' j) = ulRemoteIP (socks w j)"
    "usInitMSS (socks w' j) = fold min (sizes opts) (usInitMSS (socks w j))"
    "usLocPort (socks w' j) = usLocPort (socks w j)" "b \<in> set (free_bufs w')"
    "xBoundTcpSocketsList w' = xBoundTcpSocketsList w" "\<And>k. k \<noteq> j \<Longrightarrow> socks w' k = socks w k"
proof -
  let ?q = "xPacket (net_bufs w b)" let ?h = "xTCPHeader ?q"
  define w0 where "w0 = prvTCPTouchSocket j w"
  have "syn_options (xPacket (net_bufs w0 b)) opts" "txStream (socks w0 j) = None" "xPacket (net_bufs w0 b) = ?q"
    "usInitMSS (socks w0 j) = usInitMSS (socks w j)"
    using opts assms(1) by (simp_all add: w0_def prvTCPTouchSocket_def upd_sock_def newborn_def Let_def)
  then obtain w0' where w0': "(if ucTcpOffset ?h AND 0xf0 > 0x50 then prvCheckOptions j b w0 else Some w0) = Some w0'"
    "mss_only j w0 w0'" "usInitMSS (socks w0' j) = fold min (sizes opts) (usInitMSS (socks w j))"
    using syn_options_read [of w0 b opts j] by metis
  obtain c r a d m n where mss: "w0' = upd_sock j (\<lambda>s. s\<lparr>bits := (bits s)\<lparr>bMssChange := c\<rparr>,
     xTcpWindow := (xTcpWindow s)\<lparr>ulRxWindowLength := r, usMSSInit := a, usMSS := d\<rparr>, usInitMSS := m, usCurMSS := n\<rparr>) w0"
    using w0'(2) unfolding mss_only_def by blast
  define w1 where "w1 = upd_sock j (\<lambda>s. s\<lparr>wnd := ucast (FreeRTOS_htons (usWindow ?h))\<rparr>) w0'"
  have w1: "net_bufs w1 = net_bufs w" "net_out w1 = net_out w" "net w1 = net w" "xBoundTcpSocketsList w1 = xBoundTcpSocketsList w"
    "\<And>k. k \<noteq> j \<Longrightarrow> socks w1 k = socks w k" "state_of w1 j = state_of w j" "numbered ours theirs (xTcpWindow (socks w1 j))"
    "usInitMSS (socks w1 j) = usInitMSS (socks w0' j)" "usLocPort (socks w1 j) = usLocPort (socks w j)"
    "usRemotePort (socks w1 j) = usRemotePort (socks w j)" "ulRemoteIP (socks w1 j) = ulRemoteIP (socks w j)" "newborn i j b w1"
    using assms(1,3) by (auto simp: w1_def mss w0_def prvTCPTouchSocket_def upd_sock_def newborn_def Let_def zero_bits_def numbered_def)
  obtain h where h: "prvTCPHandleState j b w1 =
      Some (48, Some b, prvTCPReturnPacket (Some j) (NetBuf b) 48 (upd_sock j (\<lambda>s. s\<lparr>ulRxCurWinSize := rx_window s\<rparr>)
        (snd (answer_syn j b theirs (upd_win j (\<lambda>v. v\<lparr>rx := (rx v)\<lparr>ulHighestSequenceNumber := h\<rparr>, ucOptionLength := 0\<rparr>) w1)))))"
    using syn_state_step [OF w1(12), of ours theirs] assms w1 check_rx_data_only_buffer [OF w1(1)] by auto
  define w2 where "w2 = upd_win j (\<lambda>v. v\<lparr>rx := (rx v)\<lparr>ulHighestSequenceNumber := h\<rparr>, ucOptionLength := 0\<rparr>) w1"
  have w2: "net_bufs w2 = net_bufs w" "net_out w2 = net_out w" "net w2 = net w" "xBoundTcpSocketsList w2 = xBoundTcpSocketsList w"
    "\<And>k. k \<noteq> j \<Longrightarrow> socks w2 k = socks w k" "state_of w2 j = eSYN_FIRST" "numbered ours theirs (xTcpWindow (socks w2 j))"
    "usInitMSS (socks w2 j) = usInitMSS (socks w0' j)" "usLocPort (socks w2 j) = usLocPort (socks w j)"
    "usRemotePort (socks w2 j) = usRemotePort (socks w j)" "ulRemoteIP (socks w2 j) = ulRemoteIP (socks w j)" "newborn i j b w2"
    using assms(1,2) w1 by (simp_all add: w2_def upd_win_def upd_sock_def newborn_def Let_def numbered_def)
  define w3 where "w3 = upd_sock j (\<lambda>s. s\<lparr>ulRxCurWinSize := rx_window s\<rparr>) (snd (answer_syn j b theirs w2))"
  have first: "ulFirstSequenceNumber (tx (xTcpWindow (socks w2 j))) = ours" using w2(7) by (simp add: numbered_def)
  note c = answer_syn_socket [OF w2(6) first, where theirs = theirs and b = b]
  have w3: "net_out w3 = net_out w" "net w3 = net w" "xBoundTcpSocketsList w3 = xBoundTcpSocketsList w" "\<not> bSendKeepAlive (bits (socks w3 j))"
    "\<And>k. k \<noteq> j \<Longrightarrow> socks w3 k = socks w k" "state_of w3 j = eSYN_RECEIVED" "bPassQueued (bits (socks w3 j))"
    "\<not> bReuseSocket (bits (socks w3 j))" "usRemotePort (socks w3 j) = usRemotePort (socks w j)" "ulRemoteIP (socks w3 j) = ulRemoteIP (socks w j)"
    "usLocPort (socks w3 j) = usLocPort (socks w j)" "pxPeerSocket (socks w3 j) = Some i" "held w3 j = None"
    "usInitMSS (socks w3 j) = usInitMSS (socks w0' j)" "txStream (socks w3 j) = None" "rxStream (socks w3 j) = None"
    using c w2 by (auto simp: w3_def socks_upd_sock newborn_def Let_def zero_bits_def)
  have v3: "xTcpWindow (socks w3 j) = xTcpWindow (socks (snd (answer_syn j b theirs w2)) j)" by (simp add: w3_def socks_upd_sock)
  let ?w4 = "prvTCPReturnPacket (Some j) (NetBuf b) 48 w3"
  have ours: "ulOurSequenceNumber (xTcpWindow (socks w3 j)) = ours" and next3: "ulCurrentSequenceNumber (rx (xTcpWindow (socks w3 j))) = theirs + 1"
    using c(13,17) w2(7) by (simp_all add: v3 numbered_def)
  have q3: "xPacket (net_bufs w3 b) = (let m = usInitMSS (socks w0' j) in
      ?q\<lparr>ucOptdata := mem_write (ucOptdata ?q) 0 [TCP_OPT_MSS, TCP_OPT_MSS_LEN, ucast (drop_bit 8 m), ucast m, TCP_OPT_NOOP, TCP_OPT_NOOP, TCP_OPT_SACK_P, 2],
        xTCPHeader := ?h\<lparr>ucTcpFlags := ipTCP_FLAG_SYN OR ipTCP_FLAG_ACK, ucTcpOffset := 0x70\<rparr>\<rparr>)"
    using c(25) w2(1,8) by (simp add: w3_def Let_def low_byte)
  have flags: "(ipTCP_FLAG_SYN OR ipTCP_FLAG_ACK) AND ipTCP_FLAG_FIN = 0"
    by (simp add: ipTCP_FLAG_SYN_def ipTCP_FLAG_ACK_def ipTCP_FLAG_FIN_def)
  obtain f where f: "net_out ?w4 = net_out w @ [(f, 62)]" and hd: "syn_ack (net w) ours (usInitMSS (socks w0' j)) ?q f"
    using return_frame [OF w3(4), of b 48]
    by (auto simp: q3 ours next3 w3 flags Let_def syn_ack_def FreeRTOS_htons_def mem_write_def theirs)
  have "answered i j ours theirs ?w4"
    using c w2(7) by (simp add: answered_def Let_def return_socks v3 w3 frames numbered_def)
  obtain w5 where w5: "prvTCPSendRepeated j (Some b) ?w4 = Some (0, Some b, w5)" "socks w5 = socks ?w4" "net_out w5 = net_out ?w4"
    "xBoundTcpSocketsList w5 = xBoundTcpSocketsList ?w4"
    using nothing_to_send [of ?w4 j b] by (auto simp: return_socks w3 frames)
  define w6 where "w6 = release_net_buffer b w5"
  obtain t where t: "snd (prvTCPNextTimeout j w6) = upd_sock j (\<lambda>s. s\<lparr>usTimeout := t\<rparr>) w6" using timeout_set_frame(4) by blast
  have "process_for_socket j b w = Some (upd_sock j (\<lambda>s. s\<lparr>usTimeout := t\<rparr>) w6)"
    using w0'(1) h w5(1) by (simp add: process_for_socket_def Let_def t flip: w0_def w1_def w2_def w3_def w6_def)
  then show ?thesis
  proof (rule that)
    show "answered i j ours theirs (upd_sock j (\<lambda>s. s\<lparr>usTimeout := t\<rparr>) w6)"
      using \<open>answered i j ours theirs ?w4\<close> by (simp add: answered_def Let_def socks_upd_sock w6_def release_frame w5)
    show "syn_ack (net w) ours (usInitMSS (socks (upd_sock j (\<lambda>s. s\<lparr>usTimeout := t\<rparr>) w6) j)) ?q f"
      using hd by (simp add: socks_upd_sock w6_def release_frame w5 return_socks w3)
    show "xBoundTcpSocketsList (upd_sock j (\<lambda>s. s\<lparr>usTimeout := t\<rparr>) w6) = xBoundTcpSocketsList w"
      by (simp add: w6_def release_frame w5 return_bound w3)
  qed (simp_all add: socks_upd_sock w6_def release_frame w5 return_socks w3 f w0'(3))
qed

text \<open>
  Claim C36. A SYN without data, with or without options, that finds a listening socket with room and the
  heap able to give a socket, makes a child, bound to the same port and remembering the peer, and is
  answered by exactly one frame, a SYN with an acknowledgement: it starts the connection at the next
  initial sequence number, acknowledges the peer's SYN, offers selective acknowledgements and the
  child's segment size, the smallest of the own one and those the SYN names, and goes back to the
  sender.  The child then waits in \<open>eSYN_RECEIVED\<close>, the listener has one child more, and nothing else is
  changed.  The listener is not one that turns into the connection itself (\<open>bReuseSocket\<close>); the options
  are well-formed, none is a segment size of 0, on which the parser fails, or a selective
  acknowledgement, which a SYN does not carry.
\<close>

theorem passive_open:
  assumes "looked_up w b = Some i" "state_of w i = eTCP_LISTEN" "i < next_sock w" "usLocPort (socks w i) \<noteq> 0"
    and "flags_at w b AND ipTCP_FLAG_CTRL = ipTCP_FLAG_SYN" "syn_options (xPacket (net_bufs w b)) opts"
    and "fst (prvCheckRxData b w) = 0" "\<not> bReuseSocket (bits (socks w i))" "usChildCount (socks w i) < usBacklog (socks w i)"
    and "heap_room w (heap_asked w)" "heap_room w (heap_asked w + 1)"
  shows "\<exists>w' f. xProcessReceivedTCPPacket b w = Some (True, w') \<and>
    (let j = next_sock w; q = xPacket (net_bufs w b) in
     answered i j (ulNextInitialSequenceNumber w) (FreeRTOS_htonl (pktSequenceNumber (xTCPHeader q))) w' \<and>
     net_out w' = net_out w @ [(f, 62)] \<and> syn_ack (net w) (ulNextInitialSequenceNumber w) (usInitMSS (socks w' j)) q f \<and>
     usInitMSS (socks w' j) = fold min (sizes opts) (path_mss (net w) (FreeRTOS_htonl (ulRemoteIP (socks w' j)))) \<and>
     usRemotePort (socks w' j) = FreeRTOS_htons (usSourcePort (xTCPHeader q)) \<and>
     ulRemoteIP (socks w' j) = FreeRTOS_htonl (ulSourceIPAddress (xIPHeader q)) \<and>
     usLocPort (socks w' j) = usLocPort (socks w i) \<and> xBoundTcpSocketsList w' = xBoundTcpSocketsList w @ [j] \<and>
     socks w' i = (socks w i)\<lparr>ucRepCount := 0, usChildCount := usChildCount (socks w i) + 1\<rparr> \<and>
     (\<forall>k. k \<noteq> i \<and> k \<noteq> j \<longrightarrow> socks w' k = socks w k) \<and> b \<in> set (free_bufs w'))"
proof -
  let ?j = "next_sock w" let ?q = "xPacket (net_bufs w b)"
  let ?theirs = "FreeRTOS_htonl (pktSequenceNumber (xTCPHeader ?q))"
  define w1 where "w1 = upd_sock i (\<lambda>s. s\<lparr>ucRepCount := 0\<rparr>) w"
  have fin: "flags_at w b AND ipTCP_FLAG_FIN = 0"
  proof -
    have "flags_at w b AND ipTCP_FLAG_FIN = (flags_at w b AND ipTCP_FLAG_CTRL) AND ipTCP_FLAG_FIN"
      by (simp add: ipTCP_FLAG_CTRL_def ipTCP_FLAG_FIN_def and.assoc)
    then show ?thesis unfolding assms(5) by (simp add: ipTCP_FLAG_SYN_def ipTCP_FLAG_FIN_def)
  qed
  obtain w2 where w2: "prvHandleListen i b w1 = Some (Some ?j, w2)" "newborn i ?j b w2" "state_of w2 ?j = eSYN_FIRST"
    "numbered (ulNextInitialSequenceNumber w) ?theirs (xTcpWindow (socks w2 ?j))" "usLocPort (socks w2 ?j) = usLocPort (socks w i)"
    "usInitMSS (socks w2 ?j) = path_mss (net w) (FreeRTOS_htonl (ulRemoteIP (socks w2 ?j)))"
    "\<And>k. k \<noteq> ?j \<Longrightarrow> socks w2 k = (if k = i then (socks w i)\<lparr>ucRepCount := 0, usChildCount := usChildCount (socks w i) + 1\<rparr> else socks w k)"
    "xBoundTcpSocketsList w2 = xBoundTcpSocketsList w @ [?j]" "net_bufs w2 = net_bufs w" "net w2 = net w"
    "net_out w2 = net_out w"
  proof -
    obtain w2 where *: "prvHandleListen i b w1 = Some (Some (next_sock w1), w2)" "newborn i (next_sock w1) b w2" "state_of w2 (next_sock w1) = eSYN_FIRST"
      "numbered (ulNextInitialSequenceNumber w1) (FreeRTOS_htonl (pktSequenceNumber (xTCPHeader (xPacket (net_bufs w1 b))))) (xTcpWindow (socks w2 (next_sock w1)))"
      "usInitMSS (socks w2 (next_sock w1)) = path_mss (net w1) (FreeRTOS_htonl (ulRemoteIP (socks w2 (next_sock w1))))"
      "usLocPort (socks w2 (next_sock w1)) = usLocPort (socks w1 i)"
      "\<And>k. k \<noteq> next_sock w1 \<Longrightarrow> socks w2 k = (if k = i then (socks w1 i)\<lparr>usChildCount := usChildCount (socks w1 i) + 1\<rparr> else socks w1 k)"
      "xBoundTcpSocketsList w2 = xBoundTcpSocketsList w1 @ [next_sock w1]" "net_bufs w2 = net_bufs w1" "net w2 = net w1"
      "net_out w2 = net_out w1"
      by (rule handle_listen_child [of w1 i b]) (use assms in \<open>auto simp: w1_def upd_sock_def\<close>)
    then show thesis by (intro that [of w2]) (simp_all add: w1_def upd_sock_def)
  qed
  obtain w' f where w': "process_for_socket ?j b w2 = Some w'" "answered i ?j (ulNextInitialSequenceNumber w) ?theirs w'"
    "net_out w' = net_out w2 @ [(f, 62)]" "syn_ack (net w2) (ulNextInitialSequenceNumber w) (usInitMSS (socks w' ?j)) (xPacket (net_bufs w2 b)) f"
    "usRemotePort (socks w' ?j) = usRemotePort (socks w2 ?j)" "ulRemoteIP (socks w' ?j) = ulRemoteIP (socks w2 ?j)"
    "usInitMSS (socks w' ?j) = fold min (sizes opts) (usInitMSS (socks w2 ?j))" "usLocPort (socks w' ?j) = usLocPort (socks w2 ?j)" "b \<in> set (free_bufs w')"
    "xBoundTcpSocketsList w' = xBoundTcpSocketsList w2" "\<And>k. k \<noteq> ?j \<Longrightarrow> socks w' k = socks w2 k"
    by (rule syn_answered [OF w2(2,3,4)]) (use assms(6,7) fin check_rx_data_only_buffer [OF w2(9)] in \<open>auto simp: w2\<close>)
  have "xProcessReceivedTCPPacket b w = Some (True, w')"
    using assms(1,2,5) w2(1) w'(1)
    by (simp add: xProcessReceivedTCPPacket_def looked_up_def Let_def w1_def [symmetric])
      (simp add: w1_def socks_upd_sock prvTCPSocketIsActive_def)
  then show ?thesis using w' w2 assms(3)
    by (intro exI [of _ w'] exI [of _ f]) (simp add: Let_def newborn_def)
qed

section \<open>The acknowledgement\<close>

text \<open>What the parent is told: the first child that waits, and the events.\<close>

definition told_of :: "nat \<Rightarrow> FreeRTOS_Socket_t \<Rightarrow> FreeRTOS_Socket_t \<Rightarrow> bool" where
  "told_of j p p' \<longleftrightarrow>
     pxPeerSocket p' = (case pxPeerSocket p of None \<Rightarrow> Some j | Some k \<Rightarrow> Some k) \<and> ucTcpState p' = ucTcpState p \<and>
     (\<forall>g. xEventGroup p = Some g \<longrightarrow> (\<exists>g'. xEventGroup p' = Some g' \<and> g' AND eSOCKET_ACCEPT \<noteq> 0))"

lemma raise_event_bit: "xEventBits (raise_event e l s) AND e = e"
  by (rule bit_word_eqI) (auto simp: raise_event_def Let_def bit_simps)

lemma raise_event_event: "xEventGroup (raise_event e l s) = xEventGroup s"
  "pxPeerSocket (raise_event e l s) = pxPeerSocket s" "pxSocketSet (raise_event e l s) = pxSocketSet s"
  by (simp_all add: raise_event_def Let_def)

lemma wake_socket:
  "pxPeerSocket (socks (vWakeUpSocketUser i w) i) = pxPeerSocket (socks w i)"
  "xEventBits (socks w i) AND eSOCKET_ALL \<noteq> 0 \<Longrightarrow> xEventGroup (socks (vWakeUpSocketUser i w) i) =
     map_option (\<lambda>g. g OR (xEventBits (socks w i) AND eSOCKET_ALL)) (xEventGroup (socks w i))"
  "k \<noteq> i \<Longrightarrow> socks (vWakeUpSocketUser i w) k = socks w k"
  by (simp_all add: vWakeUpSocketUser_def Let_def socks_upd_sock split: option.split)

lemma accept_woken:
  fixes i j :: nat and w :: tcp_world
  defines "v \<equiv> upd_sock i (raise_event eSOCKET_ACCEPT eSELECT_READ)
    (upd_sock i (\<lambda>p. if pxPeerSocket p = None then p\<lparr>pxPeerSocket := Some j\<rparr> else p) w)"
  shows "told_of j (socks w i) (socks (vWakeUpSocketUser i v) i)"
proof -
  have ev: "(xEventBits (socks v i) AND eSOCKET_ALL) AND eSOCKET_ACCEPT = eSOCKET_ACCEPT"
  proof -
    have "(xEventBits (socks v i) AND eSOCKET_ALL) AND eSOCKET_ACCEPT = (xEventBits (socks v i) AND eSOCKET_ACCEPT) AND eSOCKET_ALL"
      by (simp add: ac_simps)
    then show ?thesis by (simp add: v_def socks_upd_sock raise_event_bit) (simp add: eSOCKET_ACCEPT_def eSOCKET_ALL_def)
  qed
  have all: "(g OR (xEventBits (socks v i) AND eSOCKET_ALL)) AND eSOCKET_ACCEPT \<noteq> 0" for g
    using ev by (simp add: bit.conj_disj_distrib2 eSOCKET_ACCEPT_def)
  have nz: "xEventBits (socks v i) AND eSOCKET_ALL \<noteq> 0" using ev by (auto simp: eSOCKET_ACCEPT_def)
  have p: "pxPeerSocket (socks v i) = (case pxPeerSocket (socks w i) of None \<Rightarrow> Some j | Some k \<Rightarrow> Some k)"
    "ucTcpState (socks v i) = ucTcpState (socks w i)" "xEventGroup (socks v i) = xEventGroup (socks w i)"
    by (auto simp: v_def socks_upd_sock raise_event_event split: option.split)
  show ?thesis using all by (simp add: told_of_def wake_socket nz frames p)
qed

text \<open>The change to \<open>eESTABLISHED\<close> of a child whose parent is another socket.\<close>

lemma child_connected:
  assumes "state_of w j = eSYN_RECEIVED" "bPassQueued (bits (socks w j))" "\<not> bReuseSocket (bits (socks w j))"
    and "pxPeerSocket (socks w j) = Some i" "i \<noteq> j"
  shows "state_of (vTCPStateChange j eESTABLISHED w) j = eESTABLISHED" "bPassAccept (bits (socks (vTCPStateChange j eESTABLISHED w) j))"
    "told_of j (socks w i) (socks (vTCPStateChange j eESTABLISHED w) i)"
    "k \<noteq> i \<Longrightarrow> k \<noteq> j \<Longrightarrow> socks (vTCPStateChange j eESTABLISHED w) k = socks w k"
    "xTcpWindow (socks (vTCPStateChange j eESTABLISHED w) j) = xTcpWindow (socks w j)"
    "net_out (vTCPStateChange j eESTABLISHED w) = net_out w"
proof -
  define v where "v = upd_sock i (raise_event eSOCKET_ACCEPT eSELECT_READ)
    (upd_sock i (\<lambda>p. if pxPeerSocket p = None then p\<lparr>pxPeerSocket := Some j\<rparr> else p) w)"
  define u where "u = upd_sock j (\<lambda>s. s\<lparr>pxPeerSocket := None, bits := (bits s)\<lparr>bPassQueued := False, bPassAccept := True\<rparr>\<rparr>)
    (vWakeUpSocketUser i v)"
  have "tcp_connected j w = u" using assms(2-4) by (simp add: tcp_connected_def u_def v_def)
  moreover have "state_of u j = eSYN_RECEIVED" using assms(1,5) by (simp add: u_def frames socks_upd_sock v_def)
  ultimately have c: "vTCPStateChange j eESTABLISHED w = prvTCPTouchSocket j (upd_sock j (\<lambda>s. s\<lparr>ucTcpState := eESTABLISHED\<rparr>) u)"
    using assms(1) by (simp add: vTCPStateChange_def Let_def NOW_CONNECTED_def state_order prvTCPSocketIsActive_def)
  have u: "told_of j (socks w i) (socks u i)" "\<And>k. k \<noteq> i \<Longrightarrow> k \<noteq> j \<Longrightarrow> socks u k = socks w k" "bPassAccept (bits (socks u j))"
    "xTcpWindow (socks u j) = xTcpWindow (socks w j)" "net_out u = net_out w"
    using accept_woken [where w = w and i = i and j = j] assms(5)
    by (simp_all add: u_def socks_upd_sock wake_socket frames flip: v_def) (simp_all add: v_def socks_upd_sock)
  show "state_of (vTCPStateChange j eESTABLISHED w) j = eESTABLISHED" "bPassAccept (bits (socks (vTCPStateChange j eESTABLISHED w) j))"
    "told_of j (socks w i) (socks (vTCPStateChange j eESTABLISHED w) i)"
    "k \<noteq> i \<Longrightarrow> k \<noteq> j \<Longrightarrow> socks (vTCPStateChange j eESTABLISHED w) k = socks w k"
    "xTcpWindow (socks (vTCPStateChange j eESTABLISHED w) j) = xTcpWindow (socks w j)"
    "net_out (vTCPStateChange j eESTABLISHED w) = net_out w"
    using u assms(5) by (simp_all add: c prvTCPTouchSocket_def socks_upd_sock)
qed

text \<open>How the acknowledgement runs through the state machine: it ends in the change of state.\<close>

lemma acknowledgement_step:
  assumes "looked_up w b = Some j" "state_of w j = eSYN_RECEIVED" "flags_at w b AND 0x17 = ipTCP_FLAG_ACK"
    and "\<not> ucTcpOffset (xTCPHeader (xPacket (net_bufs w b))) AND 0xf0 > 0x50" "fst (prvCheckRxData b w) = 0"
    and "bPassQueued (bits (socks w j))" "\<not> bReuseSocket (bits (socks w j))" "pxPeerSocket (socks w j) = Some i"
  defines "h \<equiv> xTCPHeader (xPacket (net_bufs w b))"
  obtains w3 t where "xProcessReceivedTCPPacket b w =
      Some (True, upd_sock j (\<lambda>s. s\<lparr>usTimeout := t\<rparr>) (release_net_buffer b (vTCPStateChange j eESTABLISHED w3)))"
    "state_of w3 j = eSYN_RECEIVED" "bPassQueued (bits (socks w3 j))" "\<not> bReuseSocket (bits (socks w3 j))"
    "pxPeerSocket (socks w3 j) = Some i" "\<And>k. k \<noteq> j \<Longrightarrow> socks w3 k = socks w k" "net_out w3 = net_out w"
    "ulOurSequenceNumber (xTcpWindow (socks w3 j)) = ulFirstSequenceNumber (tx (xTcpWindow (socks w j))) + 1"
    "ulCurrentSequenceNumber (rx (xTcpWindow (socks w3 j))) = FreeRTOS_htonl (pktSequenceNumber h)"
proof -
  let ?s = "FreeRTOS_htonl (pktSequenceNumber h)"
  have bits: "flags_at w b AND f = 0" if "f AND 0x17 = f" "ipTCP_FLAG_ACK AND f = 0" for f
    using assms(3) that by (metis and.assoc and.commute)
  have rst: "flags_at w b AND ipTCP_FLAG_RST = 0" and fin: "flags_at w b AND ipTCP_FLAG_FIN = 0"
    and syn: "flags_at w b AND ipTCP_FLAG_SYN = 0"
    by (rule bits; simp add: ipTCP_FLAG_RST_def ipTCP_FLAG_FIN_def ipTCP_FLAG_SYN_def ipTCP_FLAG_ACK_def)+
  have ctrl: "flags_at w b AND ipTCP_FLAG_CTRL \<noteq> ipTCP_FLAG_SYN"
  proof
    assume a: "flags_at w b AND ipTCP_FLAG_CTRL = ipTCP_FLAG_SYN"
    have "flags_at w b AND ipTCP_FLAG_SYN = (flags_at w b AND ipTCP_FLAG_CTRL) AND ipTCP_FLAG_SYN"
      by (simp add: ipTCP_FLAG_CTRL_def ipTCP_FLAG_SYN_def and.assoc)
    then show False using a syn by (simp add: ipTCP_FLAG_SYN_def)
  qed
  define w1 where "w1 = upd_sock j (\<lambda>s. s\<lparr>wnd := ucast (FreeRTOS_htons (usWindow h))\<rparr>) (prvTCPTouchSocket j
    (upd_sock j (\<lambda>s. s\<lparr>lastPacket := (lastPacket s)\<lparr>xTCPHeader := h\<rparr>\<rparr>) (upd_sock j (\<lambda>s. s\<lparr>ucRepCount := 0\<rparr>) w)))"
  have w1: "net_bufs w1 = net_bufs w" "net_out w1 = net_out w" "state_of w1 j = eSYN_RECEIVED" "xTcpWindow (socks w1 j) = xTcpWindow (socks w j)"
    "bPassQueued (bits (socks w1 j))" "\<not> bReuseSocket (bits (socks w1 j))" "pxPeerSocket (socks w1 j) = Some i"
    "\<And>k. k \<noteq> j \<Longrightarrow> socks w1 k = socks w k"
    using assms(2,6-8) by (simp_all add: w1_def prvTCPTouchSocket_def upd_sock_def)
  obtain n where n: "note_packet j ?s 0 w1 = upd_win j (\<lambda>v. v\<lparr>rx := (rx v)\<lparr>ulHighestSequenceNumber := n\<rparr>\<rparr>) w1"
    using note_packet_early w1(3) by blast
  define w2 where "w2 = upd_win j (\<lambda>v. v\<lparr>rx := (rx v)\<lparr>ulHighestSequenceNumber := n\<rparr>, ucOptionLength := 0\<rparr>) w1"
  have w2: "net_bufs w2 = net_bufs w" "net_out w2 = net_out w" "state_of w2 j = eSYN_RECEIVED"
    "ucOptionLength (xTcpWindow (socks w2 j)) = 0" "tx (xTcpWindow (socks w2 j)) = tx (xTcpWindow (socks w j))"
    "bPassQueued (bits (socks w2 j))" "\<not> bReuseSocket (bits (socks w2 j))" "pxPeerSocket (socks w2 j) = Some i"
    "\<And>k. k \<noteq> j \<Longrightarrow> socks w2 k = socks w k"
    using w1 by (simp_all add: w2_def upd_win_def upd_sock_def)
  have store: "prvStoreRxData j d b 0 (note_packet j ?s 0 w1) = Some (0, w2)" for d
    by (simp add: prvStoreRxData_def n upd_win_twice w2_def)
  have opts: "prvSetOptions j b w2 = (0, w2)" using w2(3,4) by (simp add: prvSetOptions_def Let_def state_order)
  have noflags: "note_flags j (flags_at w b) ?s 0 w2 = w2" using w2(3) fin ctrl by (simp add: note_flags_def Let_def)
  define w3 where "w3 = upd_win j (\<lambda>v. v\<lparr>rx := (rx v)\<lparr>ulCurrentSequenceNumber := ?s\<rparr>,
    ulOurSequenceNumber := ulFirstSequenceNumber (tx v) + 1\<rparr>) w2"
  have act: "state_action j b ?s 0 0 w2 = Some (0, Some b, vTCPStateChange j eESTABLISHED w3)"
    using w2(1,3) assms(3) by (simp add: state_action_def prvHandleSynReceived_def Let_def upd_win_twice w3_def h_def)
  have st: "prvTCPHandleState j b w1 = Some (0, Some b, vTCPStateChange j eESTABLISHED w3)"
    using assms(5) store opts noflags act check_rx_data_only_buffer [OF w1(1), of b]
    by (simp add: prvTCPHandleState_def Let_def split_def w1(1) h_def)
  have w3: "state_of w3 j = eSYN_RECEIVED" "bPassQueued (bits (socks w3 j))" "\<not> bReuseSocket (bits (socks w3 j))"
    "pxPeerSocket (socks w3 j) = Some i" "\<And>k. k \<noteq> j \<Longrightarrow> socks w3 k = socks w k" "net_out w3 = net_out w"
    "ulOurSequenceNumber (xTcpWindow (socks w3 j)) = ulFirstSequenceNumber (tx (xTcpWindow (socks w j))) + 1"
    "ulCurrentSequenceNumber (rx (xTcpWindow (socks w3 j))) = ?s"
    using w2 by (simp_all add: w3_def upd_win_def upd_sock_def)
  define w5 where "w5 = release_net_buffer b (vTCPStateChange j eESTABLISHED w3)"
  obtain t where t: "snd (prvTCPNextTimeout j w5) = upd_sock j (\<lambda>s. s\<lparr>usTimeout := t\<rparr>) w5" using timeout_set_frame(4) by blast
  have "xProcessReceivedTCPPacket b w = Some (True, upd_sock j (\<lambda>s. s\<lparr>usTimeout := t\<rparr>) w5)"
    using assms(1,2,4) rst ctrl st
    by (simp add: xProcessReceivedTCPPacket_def looked_up_def Let_def socks_upd_sock prvTCPSocketIsActive_def process_for_socket_def
        t h_def flip: w5_def) (simp add: w1_def h_def t flip: w5_def)
  then show thesis using that w3 unfolding w5_def by blast
qed

text \<open>
  Claim C37. A bare acknowledgement from the peer makes the child of a listening socket an established
  connection without an answer: its sequence number is the one behind its SYN, the parent is given the
  child when no other child waits and its owner is woken with \<open>eSOCKET_ACCEPT\<close>.  The number that is
  acknowledged is not looked at.
\<close>

theorem handshake_completed:
  assumes "looked_up w b = Some j" "state_of w j = eSYN_RECEIVED" "flags_at w b AND 0x17 = ipTCP_FLAG_ACK"
    and "\<not> ucTcpOffset (xTCPHeader (xPacket (net_bufs w b))) AND 0xf0 > 0x50" "fst (prvCheckRxData b w) = 0"
    and "bPassQueued (bits (socks w j))" "\<not> bReuseSocket (bits (socks w j))" "pxPeerSocket (socks w j) = Some i" "i \<noteq> j"
  shows "\<exists>w'. xProcessReceivedTCPPacket b w = Some (True, w') \<and> state_of w' j = eESTABLISHED \<and>
    bPassAccept (bits (socks w' j)) \<and> net_out w' = net_out w \<and> b \<in> set (free_bufs w') \<and>
    ulOurSequenceNumber (xTcpWindow (socks w' j)) = ulFirstSequenceNumber (tx (xTcpWindow (socks w j))) + 1 \<and>
    ulCurrentSequenceNumber (rx (xTcpWindow (socks w' j))) = FreeRTOS_htonl (pktSequenceNumber (xTCPHeader (xPacket (net_bufs w b)))) \<and>
    told_of j (socks w i) (socks w' i) \<and> (\<forall>k. k \<noteq> i \<and> k \<noteq> j \<longrightarrow> socks w' k = socks w k)"
proof -
  obtain w3 t where w3: "xProcessReceivedTCPPacket b w =
      Some (True, upd_sock j (\<lambda>s. s\<lparr>usTimeout := t\<rparr>) (release_net_buffer b (vTCPStateChange j eESTABLISHED w3)))"
    "state_of w3 j = eSYN_RECEIVED" "bPassQueued (bits (socks w3 j))" "\<not> bReuseSocket (bits (socks w3 j))"
    "pxPeerSocket (socks w3 j) = Some i" "\<And>k. k \<noteq> j \<Longrightarrow> socks w3 k = socks w k" "net_out w3 = net_out w"
    "ulOurSequenceNumber (xTcpWindow (socks w3 j)) = ulFirstSequenceNumber (tx (xTcpWindow (socks w j))) + 1"
    "ulCurrentSequenceNumber (rx (xTcpWindow (socks w3 j))) = FreeRTOS_htonl (pktSequenceNumber (xTCPHeader (xPacket (net_bufs w b))))"
    by (rule acknowledgement_step [OF assms(1-8)]) blast
  note c = child_connected [OF w3(2-5) assms(9)]
  show ?thesis using c assms(9) w3(6) [OF assms(9)] w3
    by (intro exI) (rule conjI, rule w3(1), simp add: socks_upd_sock release_frame)
qed

section \<open>A small run\<close>

text \<open>A client opens a connection to the port 7 of \<open>demo_world\<close>.\<close>

definition demo_segment :: "u8 \<Rightarrow> u32 \<Rightarrow> u32 \<Rightarrow> u16 \<Rightarrow> TCPPacket_t" where
  "demo_segment flags seqno ackno dest =
     \<lparr>ethHeader = \<lparr>xDestinationAddress = [2, 0, 0, 0, 0, 1], xSourceAddress = [2, 0, 0, 0, 0, 9], usFrameType = 0x0008\<rparr>,
      xIPHeader = \<lparr>ucVersionHeaderLength = 0x45, ucDifferentiatedServicesCode = 0, usLength = 0x2800, usIdentification = 0,
        usFragmentOffset = 0, ucTimeToLive = 64, ucProtocol = 6, usHeaderChecksum = 0, ulSourceIPAddress = 0x0901a8c0,
        ulDestinationIPAddress = 0x0a01a8c0\<rparr>,
      xTCPHeader = \<lparr>usSourcePort = FreeRTOS_htons 5000, usDestinationPort = FreeRTOS_htons dest,
        pktSequenceNumber = FreeRTOS_htonl seqno, ulAckNr = FreeRTOS_htonl ackno, ucTcpOffset = 0x50,
        ucTcpFlags = flags, usWindow = 0xffff, usTcpChecksum = 0, usUrgent = 0\<rparr>,
      ucOptdata = replicate 12 0\<rparr>"

definition with_segment :: "TCPPacket_t \<Rightarrow> tcp_world \<Rightarrow> tcp_world" where
  "with_segment q w = w\<lparr>net_bufs := (net_bufs w)(0 := \<lparr>xPacket = q, bufDataLength = 54\<rparr>)\<rparr>"

lemma with_segment_simps [simp]:
  "socks (with_segment q w) = socks w" "xPacket (net_bufs (with_segment q w) 0) = q"
  "xBoundTcpSocketsList (with_segment q w) = xBoundTcpSocketsList w" "next_sock (with_segment q w) = next_sock w"
  "net_out (with_segment q w) = net_out w" "ulNextInitialSequenceNumber (with_segment q w) = ulNextInitialSequenceNumber w"
  "heap_room (with_segment q w) = heap_room w" "net (with_segment q w) = net w"
  by (simp_all add: with_segment_def)

lemma demo_segment_no_data:
  "f AND ipTCP_FLAG_URG = 0 \<Longrightarrow> fst (prvCheckRxData 0 (with_segment (demo_segment f s a p) w)) = 0"
  by (simp add: prvCheckRxData_def with_segment_def demo_segment_def Let_def FreeRTOS_htons_def htons_wide_def ipSIZE_OF_ETH_HEADER_def
      ipSIZE_OF_IP_HEADER_def)

lemma demo_world_0: "socks demo_world 0 = fresh_socket\<lparr>boundItemValue := 0x0700, usLocPort := 7, ucTcpState := eTCP_LISTEN, usBacklog := 2\<rparr>"
  by (simp add: demo_world_def)

lemma demo_world_rest: "next_sock demo_world = 1" "xBoundTcpSocketsList demo_world = [0]" "heap_room demo_world n" "net_out demo_world = []"
  "net demo_world = demo_net" "ulNextInitialSequenceNumber demo_world = 500"
  by (simp_all add: demo_world_def)

text \<open>After the SYN of the client.\<close>

definition demo_syn_packet :: TCPPacket_t where
  "demo_syn_packet = (demo_segment 2 1000 0 7)\<lparr>ucOptdata := options_bytes [MaxSegmentSize 536] @ replicate 8 0,
     xTCPHeader := (xTCPHeader (demo_segment 2 1000 0 7))\<lparr>ucTcpOffset := 0x60\<rparr>\<rparr>"

definition demo_syn :: tcp_world where
  "demo_syn = with_segment demo_syn_packet demo_world"

lemma demo_syn_listens: "looked_up demo_syn 0 = Some 0"
  by (simp add: looked_up_def Let_def demo_syn_def demo_syn_packet_def pxTCPSocketLookup_def demo_world_rest demo_world_0
      fresh_socket_def demo_segment_def)

lemma demo_syn_options: "syn_options demo_syn_packet [MaxSegmentSize 536]"
  by (simp add: syn_options_def demo_syn_packet_def options_bytes_def be16_def demo_segment_def TCP_OPT_MSS_def TCP_OPT_MSS_LEN_def)

lemma demo_syn_no_data: "fst (prvCheckRxData 0 demo_syn) = 0"
  by (simp add: prvCheckRxData_def demo_syn_def demo_syn_packet_def with_segment_def demo_segment_def Let_def FreeRTOS_htons_def
      htons_wide_def ipSIZE_OF_ETH_HEADER_def ipSIZE_OF_IP_HEADER_def ipTCP_FLAG_URG_def)

theorem passive_open_witness:
  "\<exists>w' f. xProcessReceivedTCPPacket 0 demo_syn = Some (True, w') \<and> answered 0 1 500 (FreeRTOS_htonl (FreeRTOS_htonl 1000)) w' \<and>
     net_out w' = [(f, 62)] \<and> usInitMSS (socks w' 1) = 536 \<and> usRemotePort (socks w' 1) = 5000 \<and>
     xBoundTcpSocketsList w' = [0, 1]"
proof -
  have m: "fold min (sizes [MaxSegmentSize 536]) (path_mss np ip) = 536" for np ip
    by (simp add: path_mss_def min_def)
  have "\<exists>w' f. xProcessReceivedTCPPacket 0 demo_syn = Some (True, w') \<and>
    (let j = next_sock demo_syn; q = xPacket (net_bufs demo_syn 0) in
     answered 0 j (ulNextInitialSequenceNumber demo_syn) (FreeRTOS_htonl (pktSequenceNumber (xTCPHeader q))) w' \<and>
     net_out w' = net_out demo_syn @ [(f, 62)] \<and> syn_ack (net demo_syn) (ulNextInitialSequenceNumber demo_syn) (usInitMSS (socks w' j)) q f \<and>
     usInitMSS (socks w' j) = fold min (sizes [MaxSegmentSize 536]) (path_mss (net demo_syn) (FreeRTOS_htonl (ulRemoteIP (socks w' j)))) \<and>
     usRemotePort (socks w' j) = FreeRTOS_htons (usSourcePort (xTCPHeader q)) \<and>
     ulRemoteIP (socks w' j) = FreeRTOS_htonl (ulSourceIPAddress (xIPHeader q)) \<and>
     usLocPort (socks w' j) = usLocPort (socks demo_syn 0) \<and> xBoundTcpSocketsList w' = xBoundTcpSocketsList demo_syn @ [j] \<and>
     socks w' 0 = (socks demo_syn 0)\<lparr>ucRepCount := 0, usChildCount := usChildCount (socks demo_syn 0) + 1\<rparr> \<and>
     (\<forall>k. k \<noteq> 0 \<and> k \<noteq> j \<longrightarrow> socks w' k = socks demo_syn k) \<and> 0 \<in> set (free_bufs w'))"
    by (rule passive_open [OF demo_syn_listens])
      (use demo_syn_options demo_syn_no_data in \<open>simp_all add: demo_syn_def demo_world_0 demo_world_rest fresh_socket_def\<close>,
        simp_all add: demo_syn_packet_def demo_segment_def zero_bits_def ipTCP_FLAG_CTRL_def ipTCP_FLAG_SYN_def)
  then show ?thesis unfolding m by (auto simp: demo_syn_def demo_syn_packet_def demo_world_rest demo_segment_def Let_def)
qed

text \<open>A child of the port 7 that has answered the client's SYN, and the client's acknowledgement.\<close>

definition demo_child :: FreeRTOS_Socket_t where
  "demo_child = fresh_socket\<lparr>boundItemValue := 0x0700, usLocPort := 7, ucTcpState := eSYN_RECEIVED, usRemotePort := 5000,
     ulRemoteIP := FreeRTOS_htonl 0x0901a8c0, pxPeerSocket := Some 0, bits := zero_bits\<lparr>bPassQueued := True\<rparr>\<rparr>"

definition demo_ack :: tcp_world where
  "demo_ack = with_segment (demo_segment 16 1001 501 7)
     (demo_world\<lparr>socks := (socks demo_world)(1 := demo_child), next_sock := 2, xBoundTcpSocketsList := [0, 1]\<rparr>)"

lemma demo_ack_world: "socks demo_ack 0 = socks demo_world 0" "socks demo_ack (Suc 0) = demo_child" "next_sock demo_ack = 2"
  "xBoundTcpSocketsList demo_ack = [0, 1]" "net_out demo_ack = []"
  "xPacket (net_bufs demo_ack 0) = demo_segment 16 1001 501 7"
  by (simp_all add: demo_ack_def demo_world_rest)

lemma demo_ack_child: "looked_up demo_ack 0 = Some 1"
  by (simp add: looked_up_def Let_def pxTCPSocketLookup_def demo_ack_world demo_world_0 demo_child_def fresh_socket_def demo_segment_def)

lemma demo_ack_no_data: "fst (prvCheckRxData 0 demo_ack) = 0"
  unfolding demo_ack_def by (rule demo_segment_no_data) (simp add: ipTCP_FLAG_URG_def)

theorem handshake_completed_witness:
  "\<exists>w'. xProcessReceivedTCPPacket 0 demo_ack = Some (True, w') \<and> state_of w' 1 = eESTABLISHED \<and> net_out w' = [] \<and>
     pxPeerSocket (socks w' 0) = Some 1"
proof -
  have "\<exists>w'. xProcessReceivedTCPPacket 0 demo_ack = Some (True, w') \<and> state_of w' 1 = eESTABLISHED \<and>
    bPassAccept (bits (socks w' 1)) \<and> net_out w' = net_out demo_ack \<and> 0 \<in> set (free_bufs w') \<and>
    ulOurSequenceNumber (xTcpWindow (socks w' 1)) = ulFirstSequenceNumber (tx (xTcpWindow (socks demo_ack 1))) + 1 \<and>
    ulCurrentSequenceNumber (rx (xTcpWindow (socks w' 1))) = FreeRTOS_htonl (pktSequenceNumber (xTCPHeader (xPacket (net_bufs demo_ack 0)))) \<and>
    told_of 1 (socks demo_ack 0) (socks w' 0) \<and> (\<forall>k. k \<noteq> 0 \<and> k \<noteq> 1 \<longrightarrow> socks w' k = socks demo_ack k)"
    by (rule handshake_completed [OF demo_ack_child _ _ _ demo_ack_no_data])
      (simp_all add: demo_ack_world demo_child_def demo_segment_def fresh_socket_def zero_bits_def ipTCP_FLAG_ACK_def)
  then show ?thesis by (auto simp: demo_ack_world told_of_def demo_world_0 fresh_socket_def)
qed

section \<open>The claims of the previous theories on this run\<close>

theorem unwanted_segments_witness:
  "\<exists>w' f. xProcessReceivedTCPPacket 0 (with_segment (demo_segment 2 1000 0 9) demo_world) = Some (False, w') \<and> net_out w' = [(f, 54)]"
proof -
  let ?w = "with_segment (demo_segment 2 1000 0 9) demo_world"
  have look: "looked_up ?w 0 = None"
    by (simp add: looked_up_def Let_def pxTCPSocketLookup_def demo_world_rest demo_world_0 demo_segment_def)
  then have *: "xProcessReceivedTCPPacket 0 ?w = Some (False, prvTCPSendReset 0 ?w)"
    by (simp add: xProcessReceivedTCPPacket_def looked_up_def Let_def demo_segment_def ipTCP_FLAG_CTRL_def ipTCP_FLAG_ACK_def ipTCP_FLAG_RST_def)
  have fl: "flags_at ?w 0 AND ipTCP_FLAG_RST = 0" "flags_at ?w 0 AND ipTCP_FLAG_CTRL \<noteq> ipTCP_FLAG_ACK"
    by (simp_all add: demo_segment_def ipTCP_FLAG_CTRL_def ipTCP_FLAG_ACK_def ipTCP_FLAG_RST_def)
  have "\<exists>f. net_out (prvTCPSendReset 0 ?w) = net_out ?w @ [(f, 54)]"
    using unwanted_segments [OF *] look fl by (metis option.case(1))
  then show ?thesis using * by (simp add: demo_world_rest)
qed

theorem tcp_state_diagram_witness:
  "(arrows (Calls_listen 0) 0)\<^sup>*\<^sup>* eCLOSED eTCP_LISTEN"
proof -
  let ?w = "demo_world\<lparr>socks := (socks demo_world)(0 := (socks demo_world 0)\<lparr>ucTcpState := eCLOSED\<rparr>)\<rparr>"
  have "state_of (snd (FreeRTOS_listen (Some 0) 2 ?w)) 0 = eTCP_LISTEN"
    by (simp add: FreeRTOS_listen_def prvValidSocket_def socketSOCKET_IS_BOUND_def demo_world_rest demo_world_0 fresh_socket_def
        Let_def frames)
  then show ?thesis
    using tcp_state_diagram [OF tcp_step.listen [of 0 ?w 2], of 0]
    by (simp add: demo_world_rest unused_state_def)
qed

theorem established_by_handshake_witness:
  "\<exists>r w'. xProcessReceivedTCPPacket 0 demo_ack = Some (r, w') \<and> state_of w' 1 = eESTABLISHED \<and>
     ucTcpFlags (xTCPHeader (xPacket (net_bufs demo_ack 0))) AND 0x17 = ipTCP_FLAG_ACK"
proof -
  obtain w3 t where w3: "xProcessReceivedTCPPacket 0 demo_ack =
      Some (True, upd_sock 1 (\<lambda>s. s\<lparr>usTimeout := t\<rparr>) (release_net_buffer 0 (vTCPStateChange 1 eESTABLISHED w3)))"
    by (rule acknowledgement_step [OF demo_ack_child _ _ _ demo_ack_no_data])
      (simp_all add: demo_ack_world demo_child_def demo_segment_def fresh_socket_def zero_bits_def ipTCP_FLAG_ACK_def)
  let ?w' = "upd_sock 1 (\<lambda>s. s\<lparr>usTimeout := t\<rparr>) (release_net_buffer 0 (vTCPStateChange 1 eESTABLISHED w3))"
  have st: "state_of ?w' 1 = eESTABLISHED" by (simp add: socks_upd_sock release_frame frames)
  have "tcp_step IP_task demo_ack ?w'" using w3 by (rule tcp_step.segment)
  from established_by_handshake [OF this _ st]
  show ?thesis using w3 st
    by (intro exI [of _ True] exI [of _ ?w']) (simp add: demo_ack_world demo_child_def fresh_socket_def demo_segment_def ipTCP_FLAG_ACK_def)
qed

end
