(* ===== verification/Tcp_Receive.thy ===== *)
theory Tcp_Receive
  imports Tcp_State
begin

text \<open>
  Reception on a socket: the window, which decides what is taken, and the stream buffer, which holds
  it, together keep the peer's byte stream \<open>S\<close>; reading takes its bytes in order.
\<close>

section \<open>The window and the stream buffer in step\<close>

text \<open>
  \<open>n\<close> bytes of the stream have been read, those up to \<open>delivered A\<close> are in the buffer ready to be
  read, and those of the segments \<open>waiting A\<close> lie behind them at their places.
\<close>

definition holds_stream :: "(nat \<Rightarrow> u8) \<Rightarrow> nat \<Rightarrow> reassembly \<Rightarrow> StreamBuffer_t \<Rightarrow> bool" where
  "holds_stream S n A st \<longleftrightarrow> sb_ok st \<and> delivered A = n + size_of st \<and>
     (\<forall>x < size_of st. ring_byte st x = S (n + x)) \<and>
     (\<forall>(p, l)\<in>waiting A. n \<le> p \<and> p + l < n + len st \<and> (\<forall>x. p \<le> x \<and> x < p + l \<longrightarrow> ring_byte st (x - n) = S x))"

definition in_step :: "u32 \<Rightarrow> (nat \<Rightarrow> u8) \<Rightarrow> nat \<Rightarrow> nat \<Rightarrow> reassembly \<Rightarrow> tcp_world \<Rightarrow> bool" where
  "in_step isn S i n A w \<longleftrightarrow>
     (\<exists>st. rxStream (socks w i) = Some st \<and> holds_stream S n A st) \<and>
     rx_rel isn (segs w) (xTcpWindow (socks w i)) A"

definition room_of :: "nat \<Rightarrow> tcp_world \<Rightarrow> nat" where
  "room_of i w = (case rxStream (socks w i) of None \<Rightarrow> 0 | Some st \<Rightarrow> len st - 1 - size_of st)"

text \<open>What an arrival and a read leave alone: the size of the buffer and the number of descriptors.\<close>

definition cap_of :: "nat \<Rightarrow> tcp_world \<Rightarrow> nat" where
  "cap_of i w = (case rxStream (socks w i) of None \<Rightarrow> 0 | Some st \<Rightarrow> len st - 1)"

definition rx_descs :: "nat \<Rightarrow> tcp_world \<Rightarrow> nat" where
  "rx_descs i w = length (xSegmentList (segs w)) + length (xRxSegments (xTcpWindow (socks w i)))"

definition same_receiver :: "nat \<Rightarrow> tcp_world \<Rightarrow> tcp_world \<Rightarrow> bool" where
  "same_receiver i w w' \<longleftrightarrow> ucTcpState (socks w' i) = ucTcpState (socks w i) \<and> cap_of i w' = cap_of i w \<and>
     rx_descs i w' = rx_descs i w"

lemma rx_collect_tx: "win_ok g w \<Longrightarrow> xTxSegments (snd (snd (rx_collect cur g w))) = xTxSegments w"
proof (induction cur g w rule: rx_collect.induct)
  case (1 cur g w)
  show ?case
  proof (cases "xTCPWindowRxFind g w cur")
    case (Some i)
    have i: "i \<in> set (xRxSegments w)" using find_some [OF Some] by simp
    obtain g1 w1 where f: "vTCPWindowFree i g w = (g1, w1)" by (cases "vTCPWindowFree i g w")
    have "w1 = w\<lparr>xRxSegments := remove1 i (xRxSegments w)\<rparr>" "win_ok g1 w1"
      using free_rx [OF 1(2) i] free_win_ok [OF 1(2), of i] i f by auto
    then show ?thesis using 1(1) [OF Some f [symmetric] refl] Some f by (subst rx_collect.simps) simp
  qed (simp add: rx_collect.simps)
qed

lemma confirm_mem: "rx_confirm_loop g n nxt is best = Some i \<Longrightarrow> i \<in> set is \<or> best = Some i"
  by (induction "is" arbitrary: best) (auto split: if_splits option.splits)

lemma rx_check_tx:
  assumes ok: "win_ok g v" and chk: "lTCPWindowRxCheck now sq l space g v = Some (r, g', v')"
  shows "xTxSegments v' = xTxSegments v"
proof -
  let ?v = "v\<lparr>ucOptionLength := 0, ulUserDataLength := 0\<rparr>"
  have new: "xTCPWindowNew now a c True g u = (x, g2, w2) \<Longrightarrow> xTxSegments w2 = xTxSegments u" for a c g u x g2 w2
    by (auto simp: xTCPWindowNew_def split: list.splits)
  have okv: "win_ok g ?v" using win_ok_frame [OF ok, of ?v] by simp
  have collect: "xTxSegments w2 = xTxSegments v" if "rx_collect cur g1 w1 = (cur2, g2, w2)" "win_ok g1 w1" "xTxSegments w1 = xTxSegments v"
    for cur g1 w1 cur2 g2 w2
    using rx_collect_tx [OF that(2), of cur] that by simp
  have freed: "xTxSegments w2 = xTxSegments v"
    if "xTCPWindowRxConfirm g ?v n m = Some i" "vTCPWindowFree i g ?v = (g1, w1)" "rx_collect cur g1 w1 = (cur2, g2, w2)"
    for n m i g1 w1 cur cur2 g2 w2
  proof -
    have i: "i \<in> set (xRxSegments ?v)" using confirm_mem that(1) by (fastforce simp: xTCPWindowRxConfirm_def)
    show ?thesis using free_rx [OF okv i] free_win_ok [OF okv, of i] i that(2) by (intro collect [OF that(3)]) auto
  qed
  show ?thesis using chk okv
    by (auto simp: lTCPWindowRxCheck_def Let_def split: if_splits option.splits prod.splits dest!: new dest: freed collect)
qed

lemma rx_check_descs:
  assumes "win_ok g v" "lTCPWindowRxCheck now sq l space g v = Some (r, g', v')" "mset (descriptors g' v') = mset (descriptors g v)"
  shows "length (xSegmentList g') + length (xRxSegments v') = length (xSegmentList g) + length (xRxSegments v)"
  using mset_eq_length [OF assms(3)] rx_check_tx [OF assms(1,2)] by (simp add: descriptors_def)

lemma holds_streamD:
  assumes "holds_stream S n A st"
  shows "sb_ok st" "delivered A = n + size_of st" "\<And>x. x < size_of st \<Longrightarrow> ring_byte st x = S (n + x)"
    "\<And>p l. (p, l) \<in> waiting A \<Longrightarrow> n \<le> p \<and> p + l < n + len st"
    "\<And>p l x. (p, l) \<in> waiting A \<Longrightarrow> p \<le> x \<Longrightarrow> x < p + l \<Longrightarrow> ring_byte st (x - n) = S x"
  using assms by (auto simp: holds_stream_def)

lemma holds_content: "holds_stream S n A st \<Longrightarrow> content st = map S [n..<delivered A]"
  using holds_streamD(2,3) [of S n A st] by (auto simp: content_def intro!: nth_equalityI)

text \<open>Bytes of \<open>S\<close> written at their place keep what is there already.\<close>

lemma holds_write:
  assumes h: "holds_stream S n A st" and data: "\<And>x. x < l \<Longrightarrow> data ! x = S (delivered A + k + x)" "l \<le> length data" "l < 2 ^ 32"
    and k: "unat ofs = k" and room: "k + l \<le> len st - 1 - size_of st" and l: "0 < l"
  obtains st' where "uxStreamBufferAdd st ofs (Some data) (of_nat l) = (of_nat l, st')" "sb_ok st'" "len st' = len st"
    "size_of st' = size_of st + (if k = 0 then l else 0)" "\<And>x. x < size_of st \<Longrightarrow> ring_byte st' x = S (n + x)"
    "\<And>p m x. (p, m) \<in> waiting A \<Longrightarrow> p \<le> x \<Longrightarrow> x < p + m \<Longrightarrow> ring_byte st' (x - n) = S x"
    "\<And>x. delivered A + k \<le> x \<Longrightarrow> x < delivered A + k + l \<Longrightarrow> ring_byte st' (x - n) = S x"
proof -
  note D = holds_streamD [OF h]
  have l': "unat (of_nat l :: u32) = l" using data(3) by (simp add: unat_of_nat32)
  have c: "l = accepted st (unat ofs) (unat (of_nat l :: u32))" using room k l' by (simp add: accepted_def)
  obtain st' where st': "uxStreamBufferAdd st ofs (Some data) (of_nat l) = (of_nat l, st')" "sb_ok st'" "bufLENGTH st' = bufLENGTH st"
    "size_of st' = size_of st + (if ofs = 0 then l else 0)"
    and bytes: "\<And>x. x < len st \<Longrightarrow> ring_byte st' x = (if size_of st + unat ofs \<le> x \<and> x < size_of st + unat ofs + l
        then data ! (x - (size_of st + unat ofs)) else ring_byte st x)"
    by (rule Add_state [OF D(1) c, of "Some data"]) (use data(2) l' in auto)
  have z: "ofs = 0 \<longleftrightarrow> k = 0" using k by (metis unat_0 unat_eq_zero)
  have new: "ring_byte st' (x - n) = S x" if "delivered A + k \<le> x" "x < delivered A + k + l" for x
  proof -
    have "x - n < len st" using that room D(2) size_of_lt [OF D(1)] by linarith
    then show ?thesis using bytes [of "x - n"] that D(2) k data(1) [of "x - n - (size_of st + k)"] by (auto simp: algebra_simps)
  qed
  show thesis
  proof (rule that [OF st'(1,2)])
    show "len st' = len st" using st'(3) by simp
    show "size_of st' = size_of st + (if k = 0 then l else 0)" using st'(4) z by simp
    show "ring_byte st' x = S (n + x)" if "x < size_of st" for x
      using bytes [of x] D(3) [OF that] that size_of_lt [OF D(1)] by simp
    show "ring_byte st' (x - n) = S x" if "(p, m) \<in> waiting A" "p \<le> x" "x < p + m" for p m x
    proof (cases "delivered A + k \<le> x \<and> x < delivered A + k + l")
      case False
      have "x - n < len st" using D(4) [OF that(1)] that by linarith
      then show ?thesis using bytes [of "x - n"] D(5) [OF that] False D(2) k D(4) [OF that(1)] that by auto
    qed (use new in simp)
    show "ring_byte st' (x - n) = S x" if "delivered A + k \<le> x" "x < delivered A + k + l" for x
      using new that by simp
  qed
qed

lemma add_rxdata_effect:
  assumes "rxStream (socks w i) = Some st" "uxStreamBufferAdd st ofs d n = (r, st')"
  obtains w' where "lTCPAddRxdata i ofs d n w = (sint r, w')" "rxStream (socks w' i) = Some st'"
    "xTcpWindow (socks w' i) = xTcpWindow (socks w i)" "segs w' = segs w" "net_out w' = net_out w"
    "ucTcpState (socks w' i) = ucTcpState (socks w i)"
proof -
  have raise: "rxStream (raise_event e l s) = rxStream s" "xTcpWindow (raise_event e l s) = xTcpWindow s"
    "ucTcpState (raise_event e l s) = ucTcpState s" for e l s
    by (simp_all add: raise_event_def Let_def)
  have ev: "socks (snd (xSendEventToIPTask e v)) = socks v" "segs (snd (xSendEventToIPTask e v)) = segs v" for e v
    by (simp_all add: xSendEventToIPTask_def xSendEventStructToIPTask_def Let_def)
  define w2 where "w2 = upd_sock i (\<lambda>s. s\<lparr>rxStream := Some st'\<rparr>) w"
  define w4 where "w4 = (if \<not> bLowWater (bits (socks w2 i)) \<and> uxStreamBufferFrontSpace st' \<le> uxLittleSpace (socks w2 i)
    then snd (xSendEventToIPTask eTCPTimerEvent
      (upd_sock i (\<lambda>s. s\<lparr>bits := (bits s)\<lparr>bLowWater := True, bWinChange := True\<rparr>, usTimeout := 1\<rparr>) w2)) else w2)"
  have w2: "rxStream (socks w2 i) = Some st'" "xTcpWindow (socks w2 i) = xTcpWindow (socks w i)" "segs w2 = segs w" "net_out w2 = net_out w"
    "ucTcpState (socks w2 i) = ucTcpState (socks w i)"
    by (simp_all add: w2_def socks_upd_sock)
  have w4: "rxStream (socks w4 i) = Some st'" "xTcpWindow (socks w4 i) = xTcpWindow (socks w i)" "segs w4 = segs w" "net_out w4 = net_out w"
    "ucTcpState (socks w4 i) = ucTcpState (socks w i)"
    by (simp_all add: w4_def ev socks_upd_sock w2 frames)
  have "lTCPAddRxdata i ofs d n w = (sint r, if ofs = 0 then upd_sock i (raise_event eSOCKET_RECEIVE eSELECT_READ) w4 else w2)"
    using assms by (simp add: lTCPAddRxdata_def Let_def w4_def w2_def)
  then show thesis by (rule that) (simp_all add: w2 w4 socks_upd_sock raise)
qed

text \<open>Moving the head over bytes that are there already.\<close>

lemma head_over:
  assumes "sb_ok st" "size_of st + m \<le> len st - 1"
  obtains st' where "uxStreamBufferAdd st 0 None (of_nat m) = (of_nat m, st')" "sb_ok st'" "len st' = len st"
    "size_of st' = size_of st + m" "\<And>x. x < len st \<Longrightarrow> ring_byte st' x = ring_byte st x"
proof -
  have "m < 2 ^ 32" using assms sb_okD(2) [OF assms(1)] by simp
  then have m: "unat (of_nat m :: u32) = m" by (simp add: unat_of_nat32)
  have c: "m = accepted st (unat (0 :: u32)) (unat (of_nat m :: u32))" using assms(2) m by (simp add: accepted_def)
  obtain st' where st': "uxStreamBufferAdd st 0 None (of_nat m) = (of_nat m, st')" "sb_ok st'" "bufLENGTH st' = bufLENGTH st"
    "size_of st' = size_of st + m" "\<And>x. x < len st \<Longrightarrow> ring_byte st' x = ring_byte st x"
    by (rule Add_state [OF assms(1) c, of None]) simp_all
  show thesis by (rule that [OF st'(1,2) _ st'(4,5)]) (simp_all add: st'(3))
qed

text \<open>Segments that are stored and become deliverable are reached without a gap.\<close>

lemma first_gap_covers:
  assumes "finite B" "n \<le> first_gap n B" "n \<le> x" "x < first_gap n B" shows "x \<in> B"
  using not_less_Least [of x "\<lambda>m. n \<le> m \<and> m \<notin> B"] assms(3,4) unfolding first_gap_def by auto

lemma first_gap_le:
  assumes "finite B" shows "n \<le> first_gap n B" "first_gap n B \<notin> B"
proof -
  obtain m where "m \<notin> B \<union> {..<n}"
    using ex_new_if_finite [OF infinite_UNIV_nat, of "B \<union> {..<n}"] assms by auto
  then have "n \<le> m" "m \<notin> B" by auto
  then have "n \<le> first_gap n B \<and> first_gap n B \<notin> B" unfolding first_gap_def by (rule LeastI [of _ m, OF conjI])
  then show "n \<le> first_gap n B" "first_gap n B \<notin> B" by simp_all
qed

lemma bytes_of_mem: "x \<in> bytes_of S \<longleftrightarrow> (\<exists>p l. (p, l) \<in> S \<and> p \<le> x \<and> x < p + l)"
  by (force simp: bytes_of_def)

lemma waiting_finite: "rx_rel isn g v A \<Longrightarrow> finite (waiting A)"
  by (simp add: rx_rel_def)

lemma waiting_bytes_finite: "finite W \<Longrightarrow> finite (bytes_of W)"
  by (auto simp: bytes_of_def)

text \<open>The expected segment: its bytes go behind the head, and the head over what was waiting next.\<close>

lemma holds_deliver:
  assumes h: "holds_stream S n A st" and fin: "finite (waiting A)"
    and data: "\<And>x. x < l \<Longrightarrow> data ! x = S (delivered A + x)" "l \<le> length data" and l: "0 < l" "l \<le> len st - 1 - size_of st"
  defines "d \<equiv> first_gap (delivered A + l) (bytes_of (waiting A))"
  obtains st1 st2 where "uxStreamBufferAdd st 0 (Some data) (of_nat l) = (of_nat l, st1)"
    "uxStreamBufferAdd st1 0 None (of_nat (d - (delivered A + l))) = (of_nat (d - (delivered A + l)), st2)"
    "holds_stream S n \<lparr>delivered = d, waiting = {x \<in> waiting A. d \<le> fst x}\<rparr> st2" "len st2 = len st"
    "d = delivered A + l \<Longrightarrow> st2 = st1" "d - (delivered A + l) < 2 ^ 31"
proof -
  note D = holds_streamD [OF h]
  have big: "len st \<le> 2 ^ 31" using sb_okD(2) [OF D(1)] .
  obtain st1 where s1: "uxStreamBufferAdd st 0 (Some data) (of_nat l) = (of_nat l, st1)" "sb_ok st1" "len st1 = len st"
    "size_of st1 = size_of st + l" and old: "\<And>x. x < size_of st \<Longrightarrow> ring_byte st1 x = S (n + x)"
    and wait: "\<And>p m x. (p, m) \<in> waiting A \<Longrightarrow> p \<le> x \<Longrightarrow> x < p + m \<Longrightarrow> ring_byte st1 (x - n) = S x"
    and new: "\<And>x. delivered A \<le> x \<Longrightarrow> x < delivered A + l \<Longrightarrow> ring_byte st1 (x - n) = S x"
    by (rule holds_write [OF h, of l data 0 0]) (use data l big in auto)
  have fb: "finite (bytes_of (waiting A))" using waiting_bytes_finite fin .
  have d: "delivered A + l \<le> d" "\<And>x. delivered A + l \<le> x \<Longrightarrow> x < d \<Longrightarrow> x \<in> bytes_of (waiting A)"
    using first_gap_le [OF fb] first_gap_covers [OF fb] by (auto simp: d_def)
  have top: "d < n + len st"
  proof (cases "d = delivered A + l")
    case True
    then show ?thesis using l D(2) size_of_lt [OF D(1)] by linarith
  next
    case False
    then have "d - 1 \<in> bytes_of (waiting A)" using d(1) by (intro d(2)) auto
    then obtain p m where "(p, m) \<in> waiting A" "d - 1 < p + m" by (auto simp: bytes_of_mem)
    then show ?thesis using D(4) by fastforce
  qed
  define e where "e = d - (delivered A + l)"
  have "size_of st1 + e \<le> len st1 - 1" using top d(1) s1(3,4) D(2) by (simp add: e_def)
  then obtain st2 where s2: "uxStreamBufferAdd st1 0 None (of_nat e) = (of_nat e, st2)" "sb_ok st2" "len st2 = len st1"
    "size_of st2 = size_of st1 + e" and same: "\<And>x. x < len st1 \<Longrightarrow> ring_byte st2 x = ring_byte st1 x"
    using head_over [OF s1(2)] by blast
  have size2: "d = n + size_of st2" using s2(4) s1(4) d(1) D(2) by (simp add: e_def)
  have "holds_stream S n \<lparr>delivered = d, waiting = {x \<in> waiting A. d \<le> fst x}\<rparr> st2"
    unfolding holds_stream_def
  proof (intro conjI ballI allI impI)
    show "sb_ok st2" by (rule s2(2))
    show "delivered \<lparr>delivered = d, waiting = {x \<in> waiting A. d \<le> fst x}\<rparr> = n + size_of st2" using size2 by simp
    fix x assume x: "x < size_of st2"
    have "ring_byte st2 x = ring_byte st1 x" using same x size_of_lt [OF s2(2)] s2(3) by simp
    moreover have "ring_byte st1 x = S (n + x)"
    proof -
      consider "x < size_of st" | "size_of st \<le> x" "n + x < delivered A + l" | "delivered A + l \<le> n + x" by linarith
      then show ?thesis
      proof cases
        case 2 then show ?thesis using new [of "n + x"] D(2) by simp
      next
        case 3
        then have "n + x \<in> bytes_of (waiting A)" using x size2 by (intro d(2)) auto
        then obtain p m where "(p, m) \<in> waiting A" "p \<le> n + x" "n + x < p + m" by (auto simp: bytes_of_mem)
        then show ?thesis using wait [of p m "n + x"] by simp
      qed (use old in simp)
    qed
    ultimately show "ring_byte st2 x = S (n + x)" by simp
  next
    fix pm assume pm: "pm \<in> waiting \<lparr>delivered = d, waiting = {x \<in> waiting A. d \<le> fst x}\<rparr>"
    obtain p m where e: "pm = (p, m)" by (cases pm)
    have w: "(p, m) \<in> waiting A" using pm e by simp
    have r: "n \<le> p \<and> p + m < n + len st" using D(4) [OF w] .
    have "ring_byte st2 (x - n) = S x" if "p \<le> x" "x < p + m" for x
    proof -
      have "x - n < len st1" using s1(3) r that by linarith
      then show ?thesis using wait [OF w that] same [of "x - n"] by simp
    qed
    then show "case pm of (p, l) \<Rightarrow> n \<le> p \<and> p + l < n + len st2 \<and> (\<forall>x. p \<le> x \<and> x < p + l \<longrightarrow> ring_byte st2 (x - n) = S x)"
      using e r s1(3) s2(3) by simp
  qed
  then show thesis
  proof (rule that [OF s1(1) s2(1) [unfolded e_def]])
    show "len st2 = len st" using s2(3) s1(3) by simp
    show "d - (delivered A + l) < 2 ^ 31" using top big D(2) by simp
    show "st2 = st1" if "d = delivered A + l"
    proof -
      have "e = 0" using that by (simp add: e_def)
      then have "uxStreamBufferAdd st1 0 None (of_nat e) = (0, st1)"
        using Add_none [OF s1(2), of 0 "of_nat e" None] by (simp add: accepted_def)
      then show ?thesis using s2(1) by simp
    qed
  qed
qed

text \<open>A segment ahead: its bytes go to their place, the head stays.\<close>

lemma holds_ahead:
  assumes h: "holds_stream S n A st" and data: "\<And>x. x < l \<Longrightarrow> data ! x = S (p + x)" "l \<le> length data"
    and p: "delivered A < p" "0 < l" "p + l - delivered A \<le> len st - 1 - size_of st"
  obtains st1 where "uxStreamBufferAdd st (of_nat (p - delivered A)) (Some data) (of_nat l) = (of_nat l, st1)"
    "holds_stream S n (A\<lparr>waiting := insert (p, l) (waiting A)\<rparr>) st1" "len st1 = len st"
proof -
  note D = holds_streamD [OF h]
  have big: "len st \<le> 2 ^ 31" using sb_okD(2) [OF D(1)] .
  define k where "k = p - delivered A"
  have "k < 2 ^ 32" using p big by (simp add: k_def)
  then have k: "unat (of_nat k :: u32) = k" by (rule unat_of_nat32)
  obtain st1 where s: "uxStreamBufferAdd st (of_nat k) (Some data) (of_nat l) = (of_nat l, st1)" "sb_ok st1" "len st1 = len st"
    "size_of st1 = size_of st + (if k = 0 then l else 0)" and old: "\<And>x. x < size_of st \<Longrightarrow> ring_byte st1 x = S (n + x)"
    and wait: "\<And>q m x. (q, m) \<in> waiting A \<Longrightarrow> q \<le> x \<Longrightarrow> x < q + m \<Longrightarrow> ring_byte st1 (x - n) = S x"
    and new: "\<And>x. delivered A + k \<le> x \<Longrightarrow> x < delivered A + k + l \<Longrightarrow> ring_byte st1 (x - n) = S x"
    by (rule holds_write [OF h, of l data k "of_nat k"]) (use data p big k in \<open>auto simp: k_def\<close>)
  have k0: "k \<noteq> 0" "delivered A + k = p" using p by (simp_all add: k_def)
  have "holds_stream S n (A\<lparr>waiting := insert (p, l) (waiting A)\<rparr>) st1"
    unfolding holds_stream_def
  proof (intro conjI ballI allI impI)
    show "sb_ok st1" by (rule s(2))
    show "delivered (A\<lparr>waiting := insert (p, l) (waiting A)\<rparr>) = n + size_of st1" using s(4) k0 D(2) by simp
    show "ring_byte st1 x = S (n + x)" if "x < size_of st1" for x using old that s(4) k0 by simp
  next
    fix qm assume qm: "qm \<in> waiting (A\<lparr>waiting := insert (p, l) (waiting A)\<rparr>)"
    obtain q m where e: "qm = (q, m)" by (cases qm)
    consider "q = p" "m = l" | "(q, m) \<in> waiting A" using qm e by auto
    then have "n \<le> q \<and> q + m < n + len st \<and> (\<forall>x. q \<le> x \<and> x < q + m \<longrightarrow> ring_byte st1 (x - n) = S x)"
    proof cases
      case 1
      have "p + l < n + len st" using p D(2) size_of_lt [OF D(1)] by linarith
      then show ?thesis using 1 new k0 p(1) D(2) by simp
    next
      case 2
      then show ?thesis using D(4) [OF 2] wait by blast
    qed
    then show "case qm of (q, m) \<Rightarrow> n \<le> q \<and> q + m < n + len st1 \<and> (\<forall>x. q \<le> x \<and> x < q + m \<longrightarrow> ring_byte st1 (x - n) = S x)"
      using e s(3) by simp
  qed
  then show thesis using that s(1,3) unfolding k_def by blast
qed

text \<open>Only the expected segment makes bytes of stored segments deliverable.\<close>

lemma no_user_data:
  assumes "lTCPWindowRxCheck now sq l space g v = Some (r, g', v')" "sq \<noteq> rx_next v \<or> space < l"
  shows "ulUserDataLength v' = 0"
proof -
  have new: "ulUserDataLength (snd (snd (xTCPWindowNew now a c b g u))) = ulUserDataLength u" for a b c g u
    by (simp add: xTCPWindowNew_def split: list.split)
  show ?thesis
  proof (cases "sq = rx_next v")
    case True
    then show ?thesis using assms by (auto simp: lTCPWindowRxCheck_def Let_def)
  next
    case False
    have new': "xTCPWindowNew now a c b g u = (x, g2, w2) \<Longrightarrow> ulUserDataLength w2 = ulUserDataLength u" for a b c g u x g2 w2
      using new [of a c b g u] by simp
    show ?thesis using assms(1) False
      by (auto simp: lTCPWindowRxCheck_def Let_def split: if_splits option.splits prod.splits dest!: new')
  qed
qed

section \<open>A segment is stored\<close>

lemma in_stepI:
  "rxStream (socks w i) = Some st \<Longrightarrow> holds_stream S n A st \<Longrightarrow> rx_rel isn (segs w) (xTcpWindow (socks w i)) A \<Longrightarrow>
   in_step isn S i n A w"
  by (auto simp: in_step_def)

lemma rx_spec_cases:
  assumes "p + l \<le> delivered A \<or> delivered A \<le> p"
  obtains (deliver) "p = delivered A" "l \<le> space" "rx_spec p l space d A =
      (0, \<lparr>delivered = first_gap (delivered A + l) (bytes_of (waiting A)),
           waiting = {x \<in> waiting A. first_gap (delivered A + l) (bytes_of (waiting A)) \<le> fst x}\<rparr>)"
  | (ahead) "delivered A < p" "p + l - delivered A \<le> space"
      "rx_spec p l space d A = (int (p - delivered A), A\<lparr>waiting := insert (p, l) (waiting A)\<rparr>)"
  | (refuse) "p \<noteq> delivered A \<or> space < l" "rx_spec p l space d A = (-1, A)"
proof (cases "p = delivered A \<and> l \<le> space")
  case True
  then show ?thesis by (intro deliver) (simp_all add: rx_spec_def Let_def)
next
  case other: False
  show ?thesis
  proof (cases "rx_spec p l space d A = (-1, A)")
    case True
    then show ?thesis using other by (intro refuse) auto
  next
    case False
    then have n: "p \<noteq> delivered A" "\<not> p + l \<le> delivered A" "\<not> space < p + l - delivered A" "\<not> (p \<in> fst ` waiting A \<or> \<not> d)"
      using other unfolding rx_spec_def by (metis, metis, metis, metis)
    then have "rx_spec p l space d A = (int (p - delivered A), A\<lparr>waiting := insert (p, l) (waiting A)\<rparr>)" by (simp add: rx_spec_def)
    then show ?thesis using n assms by (intro ahead) simp_all
  qed
qed

text \<open>
  \<open>prvStoreRxData\<close> in terms of what the window has answered: with -1 nothing is stored.
\<close>

lemma store_refused:
  assumes "0 < l" "ucTcpState (socks w i) \<ge> eSYN_RECEIVED" "rxStream (socks w i) = Some st"
    and "lTCPWindowRxCheck (xTickCount w) (FreeRTOS_htonl (pktSequenceNumber (xTCPHeader (xPacket (net_bufs w b))))) l
      (uxStreamBufferGetSpace st) (segs w) (xTcpWindow (socks w i)) = Some (-1, g, v)"
    and "ulUserDataLength v = 0"
  shows "prvStoreRxData i d b l w = Some (0, (upd_win i (\<lambda>_. v) w)\<lparr>segs := g\<rparr>)"
  using assms by (simp add: prvStoreRxData_def Let_def upd_win_def upd_sock_def)

lemma store_taken:
  assumes "0 < l" "ucTcpState (socks w i) \<ge> eSYN_RECEIVED" "rxStream (socks w i) = Some st"
    and "lTCPWindowRxCheck (xTickCount w) (FreeRTOS_htonl (pktSequenceNumber (xTCPHeader (xPacket (net_bufs w b))))) l
      (uxStreamBufferGetSpace st) (segs w) (xTcpWindow (socks w i)) = Some (int k, g, v)"
    and "uxStreamBufferAdd st (of_nat k) (Some d) l = (l, st1)"
    and "ulUserDataLength v > 0 \<Longrightarrow> uxStreamBufferAdd st1 0 None (ulUserDataLength v) = (r, st2)"
    and "ulUserDataLength v = 0 \<Longrightarrow> st2 = st1"
  shows "\<exists>w' v'. prvStoreRxData i d b l w = Some (0, w') \<and> rxStream (socks w' i) = Some st2 \<and>
    xTcpWindow (socks w' i) = v' \<and> (v' = v \<or> v' = v\<lparr>ulUserDataLength := 0\<rparr>) \<and> segs w' = g \<and> net_out w' = net_out w \<and>
    ucTcpState (socks w' i) = ucTcpState (socks w i)"
proof -
  define w1 where "w1 = (upd_win i (\<lambda>_. v) w)\<lparr>segs := g\<rparr>"
  have w1: "rxStream (socks w1 i) = Some st" "xTcpWindow (socks w1 i) = v" "segs w1 = g" "net_out w1 = net_out w"
    "ucTcpState (socks w1 i) = ucTcpState (socks w i)"
    using assms(3) by (simp_all add: w1_def upd_win_def upd_sock_def)
  obtain w2 where w2: "lTCPAddRxdata i (of_nat k) (Some d) l w1 = (sint l, w2)" "rxStream (socks w2 i) = Some st1"
    "xTcpWindow (socks w2 i) = v" "segs w2 = g" "net_out w2 = net_out w" "ucTcpState (socks w2 i) = ucTcpState (socks w i)"
    using add_rxdata_effect [OF w1(1) assms(5)] w1 by metis
  have s: "prvStoreRxData i d b l w = Some (0, if ulUserDataLength v > 0
      then upd_win i (\<lambda>v. v\<lparr>ulUserDataLength := 0\<rparr>) (snd (lTCPAddRxdata i 0 None (ulUserDataLength v) w2)) else w2)"
    using assms(1-4) w2(1,3) by (simp add: prvStoreRxData_def Let_def w1_def [symmetric])
  show ?thesis
  proof (cases "ulUserDataLength v > 0")
    case True
    obtain w3 where w3: "lTCPAddRxdata i 0 None (ulUserDataLength v) w2 = (sint r, w3)" "rxStream (socks w3 i) = Some st2"
      "xTcpWindow (socks w3 i) = v" "segs w3 = g" "net_out w3 = net_out w" "ucTcpState (socks w3 i) = ucTcpState (socks w i)"
      using add_rxdata_effect [OF w2(2) assms(6) [OF True]] w2 by metis
    show ?thesis using s True w3 by (intro exI [of _ "upd_win i (\<lambda>v. v\<lparr>ulUserDataLength := 0\<rparr>) w3"]) (simp add: upd_win_def upd_sock_def)
  next
    case False
    then have "ulUserDataLength v = 0" by (simp add: word_gt_0)
    then show ?thesis using s w2 assms(7) by (intro exI [of _ w2]) simp
  qed
qed

lemma rel_user_data: "rx_rel isn g v A \<Longrightarrow> rx_rel isn g (v\<lparr>ulUserDataLength := n\<rparr>) A"
  by (rule rx_rel_keep) (auto simp: rx_rel_def win_ok_def descriptors_def queues_def)

text \<open>The segment in the buffer \<open>b\<close> carries the bytes of \<open>S\<close> from \<open>p\<close> to \<open>p + l\<close> as its payload \<open>d\<close>.\<close>

definition carries :: "u32 \<Rightarrow> (nat \<Rightarrow> u8) \<Rightarrow> nat \<Rightarrow> nat \<Rightarrow> nat \<Rightarrow> u8 list \<Rightarrow> tcp_world \<Rightarrow> bool" where
  "carries isn S p l b d w \<longleftrightarrow>
     FreeRTOS_htonl (pktSequenceNumber (xTCPHeader (xPacket (net_bufs w b)))) = isn + of_nat p \<and>
     l \<le> length d \<and> (\<forall>x<l. d ! x = S (p + x))"

lemma of_nat_near:
  fixes p q :: nat
  assumes "(of_nat p :: u32) = of_nat q" "p < q + 2 ^ 32" "q < p + 2 ^ 32" shows "p = q"
proof -
  have le: "a = b" if "b \<le> a" "a < b + 2 ^ 32" "(of_nat a :: u32) = of_nat b" for a b :: nat
  proof -
    have "(of_nat (a - b) :: u32) = 0" using that(1,3) by (simp add: of_nat_diff)
    moreover have "a - b < 2 ^ 32" using that(1,2) by linarith
    ultimately have "a - b = 0" using unat_of_nat32 [of "a - b"] by simp
    then show ?thesis using that(1) by simp
  qed
  show ?thesis
  proof (cases "p \<le> q")
    case True
    show ?thesis using le [OF True assms(3) assms(1) [symmetric]] by (rule sym)
  next
    case False
    then have "q \<le> p" by simp
    then show ?thesis by (rule le [OF _ assms(2,1)])
  qed
qed

lemma store_in_step:
  assumes step: "in_step isn S i n A w" and st: "ucTcpState (socks w i) \<ge> eSYN_RECEIVED"
    and seg: "carries isn S p l b d w" and conf: "conforms p l A"
  shows "\<exists>w'. prvStoreRxData i d b (of_nat l) w = Some (0, w') \<and>
    in_step isn S i n (snd (rx_spec p l (room_of i w) (xSegmentList (segs w) \<noteq> []) A)) w' \<and> net_out w' = net_out w \<and>
    same_receiver i w w'"
proof -
  obtain t where t: "rxStream (socks w i) = Some t" "holds_stream S n A t" and rel: "rx_rel isn (segs w) (xTcpWindow (socks w i)) A"
    using step by (auto simp: in_step_def)
  note D = holds_streamD [OF t(2)]
  let ?sq = "FreeRTOS_htonl (pktSequenceNumber (xTCPHeader (xPacket (net_bufs w b))))" and ?d = "xSegmentList (segs w) \<noteq> []"
  let ?v = "xTcpWindow (socks w i)"
  have sq: "?sq = isn + of_nat p" and data: "l \<le> length d" "\<And>x. x < l \<Longrightarrow> d ! x = S (p + x)" using seg by (auto simp: carries_def)
  have l: "0 < l" "l < 2 ^ 31" using conf by (auto simp: conforms_def)
  have l0: "(0 :: u32) < of_nat l" using l by (simp add: word_less_nat_alt unat_of_nat32)
  have room: "unat (uxStreamBufferGetSpace t) = room_of i w" using unat_GetSpace [OF D(1)] t(1) by (simp add: room_of_def)
  have small: "unat (uxStreamBufferGetSpace t) < 2 ^ 31" using room t(1) sb_okD(1,2) [OF D(1)] by (simp add: room_of_def)
  have rm: "room_of i w = len t - 1 - size_of t" using t(1) by (simp add: room_of_def)
  let ?s = "rx_spec p l (room_of i w) ?d A"
  from rx_check_refines [OF rel conf small, of "xTickCount w"] obtain g v where
    chk: "lTCPWindowRxCheck (xTickCount w) ?sq (of_nat l) (uxStreamBufferGetSpace t) (segs w) ?v = Some (fst ?s, g, v)"
    and rel': "rx_rel isn g v (snd ?s)"
    and data': "p = delivered A \<and> l \<le> room_of i w \<longrightarrow> ulUserDataLength v = of_nat (delivered (snd ?s) - (p + l))"
    and ms: "mset (descriptors g v) = mset (descriptors (segs w) ?v)"
    unfolding sq room by blast
  note descs = rx_check_descs [OF rx_relD(1) [OF rel] chk ms]
  have same: "same_receiver i w w'" if "rxStream (socks w' i) = Some u" "len u = len t" "ucTcpState (socks w' i) = ucTcpState (socks w i)"
    "segs w' = g" "xRxSegments (xTcpWindow (socks w' i)) = xRxSegments v" for w' u
    using that t(1) descs by (simp add: same_receiver_def cap_of_def rx_descs_def)
  have nxt: "?sq = rx_next ?v \<longleftrightarrow> p = delivered A"
  proof
    assume "?sq = rx_next ?v"
    then have "(of_nat p :: u32) = of_nat (delivered A)" using sq rx_relD(2) [OF rel] by simp
    then show "p = delivered A" using conf by (intro of_nat_near) (auto simp: conforms_def)
  qed (use sq rx_relD(2) [OF rel] in simp)
  have order: "p + l \<le> delivered A \<or> delivered A \<le> p" using conf by (auto simp: conforms_def)
  then show ?thesis
  proof (cases rule: rx_spec_cases [of p l A "room_of i w" ?d])
    case deliver
    let ?e = "first_gap (delivered A + l) (bytes_of (waiting A))"
    obtain t1 t2 where add: "uxStreamBufferAdd t 0 (Some d) (of_nat l) = (of_nat l, t1)"
      "uxStreamBufferAdd t1 0 None (of_nat (?e - (delivered A + l))) = (of_nat (?e - (delivered A + l)), t2)"
      "holds_stream S n \<lparr>delivered = ?e, waiting = {x \<in> waiting A. ?e \<le> fst x}\<rparr> t2" "len t2 = len t"
      "?e = delivered A + l \<Longrightarrow> t2 = t1" "?e - (delivered A + l) < 2 ^ 31"
      by (rule holds_deliver [OF t(2) waiting_finite [OF rel], of l d]) (use data l deliver(1,2) rm in auto)
    have ud: "ulUserDataLength v = of_nat (?e - (delivered A + l))" using data' deliver by simp
    have ud0: "ulUserDataLength v = 0 \<Longrightarrow> t2 = t1"
    proof -
      assume "ulUserDataLength v = 0"
      then have "(of_nat (?e - (delivered A + l)) :: u32) = 0" using ud by simp
      then have "?e - (delivered A + l) = 0" by (intro of_nat_near) (use add(6) in auto)
      then show "t2 = t1" using add(1,2) add(5) first_gap_le(1) [OF waiting_bytes_finite [OF waiting_finite [OF rel]], of "delivered A + l"] by simp
    qed
    have "lTCPWindowRxCheck (xTickCount w) ?sq (of_nat l) (uxStreamBufferGetSpace t) (segs w) ?v = Some (int 0, g, v)"
      using chk deliver(3) by simp
    from store_taken [OF l0 st t(1) this, of d t1 "of_nat (?e - (delivered A + l))" t2] obtain w' v' where
      w': "prvStoreRxData i d b (of_nat l) w = Some (0, w')" "rxStream (socks w' i) = Some t2" "xTcpWindow (socks w' i) = v'"
      "v' = v \<or> v' = v\<lparr>ulUserDataLength := 0\<rparr>" "segs w' = g" "net_out w' = net_out w" "ucTcpState (socks w' i) = ucTcpState (socks w i)"
      using add(1,2) ud ud0 by auto
    have "rx_rel isn g v' (snd ?s)" using w'(4) rel' rel_user_data by auto
    then have "in_step isn S i n (snd ?s) w'" using w' add(3) deliver(3) by (intro in_stepI) auto
    moreover have "same_receiver i w w'" by (rule same [OF w'(2) add(4) w'(7,5)]) (use w'(3,4) in auto)
    ultimately show ?thesis using w' by blast
  next
    case ahead
    obtain t1 where add: "uxStreamBufferAdd t (of_nat (p - delivered A)) (Some d) (of_nat l) = (of_nat l, t1)"
      "holds_stream S n (A\<lparr>waiting := insert (p, l) (waiting A)\<rparr>) t1" "len t1 = len t"
      by (rule holds_ahead [OF t(2), of l d p]) (use data l ahead(1,2) rm in auto)
    have ud: "ulUserDataLength v = 0" using no_user_data [OF chk] nxt ahead(1) by auto
    have "lTCPWindowRxCheck (xTickCount w) ?sq (of_nat l) (uxStreamBufferGetSpace t) (segs w) ?v = Some (int (p - delivered A), g, v)"
      using chk ahead(3) by simp
    from store_taken [OF l0 st t(1) this add(1), of 0 t1] obtain w' v' where
      w': "prvStoreRxData i d b (of_nat l) w = Some (0, w')" "rxStream (socks w' i) = Some t1" "xTcpWindow (socks w' i) = v'"
      "v' = v \<or> v' = v\<lparr>ulUserDataLength := 0\<rparr>" "segs w' = g" "net_out w' = net_out w" "ucTcpState (socks w' i) = ucTcpState (socks w i)"
      using ud by auto
    have "rx_rel isn g v' (snd ?s)" using w'(4) rel' rel_user_data by auto
    then have "in_step isn S i n (snd ?s) w'" using w' add(2) ahead(3) by (intro in_stepI) auto
    moreover have "same_receiver i w w'" by (rule same [OF w'(2) add(3) w'(7,5)]) (use w'(3,4) in auto)
    ultimately show ?thesis using w' by blast
  next
    case refuse
    have "uxStreamBufferGetSpace t < of_nat l" if "room_of i w < l" using that room l by (simp add: word_less_nat_alt unat_of_nat32)
    then have ud: "ulUserDataLength v = 0" using no_user_data [OF chk] nxt refuse(1) by auto
    have "prvStoreRxData i d b (of_nat l) w = Some (0, (upd_win i (\<lambda>_. v) w)\<lparr>segs := g\<rparr>)"
      using store_refused [OF l0 st t(1) _ ud] chk refuse(2) by simp
    moreover have "in_step isn S i n A ((upd_win i (\<lambda>_. v) w)\<lparr>segs := g\<rparr>)"
      using t rel' refuse(2) by (intro in_stepI) (simp_all add: upd_win_def upd_sock_def)
    moreover have "same_receiver i w ((upd_win i (\<lambda>_. v) w)\<lparr>segs := g\<rparr>)"
      by (rule same [OF _ refl]) (simp_all add: upd_win_def upd_sock_def t(1))
    ultimately show ?thesis using refuse(2) by (auto simp: frames)
  qed
qed

section \<open>Reading\<close>

lemma get_ring:
  assumes ok: "sb_ok st" and c: "c = min (size_of st) (unat m)"
  obtains out st' where "uxStreamBufferGet st 0 True m pk = (of_nat c, out, st')" "out = take c (content st)" "sb_ok st'"
    "len st' = len st" "size_of st' = (if pk then size_of st else size_of st - c)"
    "\<And>x. x + c < len st \<Longrightarrow> ring_byte st' x = ring_byte st (if pk then x else x + c)"
proof -
  note D = sb_okD [OF ok] and sl = size_of_lt [OF ok]
  have c': "c = min (size_of st - unat (0 :: u32)) (unat m)" using c by simp
  from Get_state [OF ok c', of True pk] obtain st' where g: "uxStreamBufferGet st 0 True m pk = (of_nat c, take c (content st), st')"
    "sb_ok st'" "bufLENGTH st' = bufLENGTH st" "content st' = (if \<not> pk then drop c (content st) else content st)" by auto
  have size: "size_of st' = (if pk then size_of st else size_of st - c)" using arg_cong [OF g(4), of length] by (simp split: if_splits)
  have cw: "unat (of_nat c :: u32) = c" using c sl D(2) by (simp add: unat_of_nat32)
  have c0: "size_of st = 0 \<Longrightarrow> c = 0" using c by simp
  have st': "st' = (if \<not> pk \<and> c \<noteq> 0 then st\<lparr>uxTail := sb_advance st (uxTail st) (of_nat c)\<rparr> else st)"
  proof -
    have n: "FreeRTOS_min_uint32 (if uxStreamBufferGetSize st > 0 then uxStreamBufferGetSize st - 0 else 0) m = of_nat c"
      using unat_GetSize [OF ok] c0 by (intro word_unat_eq_iff [THEN iffD2]) (auto simp: unat_min cw word_less_nat_alt c [symmetric])
    have "(0 :: u32) < of_nat c \<longleftrightarrow> c \<noteq> 0" using cw by (simp add: word_less_nat_alt)
    then show ?thesis using g(1) n by (auto simp: uxStreamBufferGet_def Let_def)
  qed
  have ring: "ring_byte st' x = ring_byte st (if pk then x else x + c)" if "x + c < len st" for x
  proof (cases "\<not> pk \<and> c \<noteq> 0")
    case True
    have "unat (sb_advance st (uxTail st) (of_nat c)) = wrap (len st) (unat (uxTail st) + c)"
      using unat_advance [of "uxTail st" "of_nat c" st] cw D(2,4) that by simp
    then show ?thesis using True wrap_add [of "unat (uxTail st)" "len st" c x] D(4) that
      by (simp add: st' ring_byte_def add.commute)
  qed (auto simp: st')
  show thesis by (rule that [OF g(1) refl g(2) _ size ring]) (simp_all add: g(3))
qed

lemma recv_data_effect:
  assumes "rxStream (socks w i) = Some st" "uxStreamBufferGet st 0 True m pk = (c, out, st')"
  obtains w' where "recv_data i m pk w = (out, w')" "rxStream (socks w' i) = Some st'"
    "xTcpWindow (socks w' i) = xTcpWindow (socks w i)" "segs w' = segs w" "ucTcpState (socks w' i) = ucTcpState (socks w i)"
proof -
  define w1 where "w1 = upd_sock i (\<lambda>s. s\<lparr>rxStream := Some st'\<rparr>) w"
  have ev: "socks (snd (xSendEventToIPTask e v)) = socks v" "segs (snd (xSendEventToIPTask e v)) = segs v" for e v
    by (simp_all add: xSendEventToIPTask_def xSendEventStructToIPTask_def Let_def)
  show thesis
  proof (cases "bLowWater (bits (socks w1 i)) \<and> uxStreamBufferFrontSpace st' \<ge> uxEnoughSpace (socks w1 i)")
    case True
    then show ?thesis using assms
      by (intro that [of "snd (xSendEventToIPTask eTCPTimerEvent
          (upd_sock i (\<lambda>s. s\<lparr>bits := (bits s)\<lparr>bLowWater := False, bWinChange := True\<rparr>, usTimeout := 1\<rparr>) w1))"])
        (simp_all add: recv_data_def Let_def ev socks_upd_sock w1_def)
  next
    case False
    then have "recv_data i m pk w = (out, w1)" using assms by (auto simp: recv_data_def Let_def simp flip: w1_def)
    then show ?thesis by (rule that) (simp_all add: socks_upd_sock w1_def)
  qed
qed

lemma recv_in_step:
  assumes "in_step isn S i n A w"
  shows "\<exists>out w'. recv_data i m pk w = (out, w') \<and> out = map S [n..<n + min (delivered A - n) (unat m)] \<and>
    in_step isn S i (if pk then n else n + length out) A w' \<and> same_receiver i w w'"
proof -
  obtain t where t: "rxStream (socks w i) = Some t" "holds_stream S n A t" and rel: "rx_rel isn (segs w) (xTcpWindow (socks w i)) A"
    using assms by (auto simp: in_step_def)
  note D = holds_streamD [OF t(2)]
  define c where "c = min (size_of t) (unat m)"
  obtain out t' where g: "uxStreamBufferGet t 0 True m pk = (of_nat c, out, t')" "out = take c (content t)" "sb_ok t'"
    "len t' = len t" "size_of t' = (if pk then size_of t else size_of t - c)"
    and ring: "\<And>x. x + c < len t \<Longrightarrow> ring_byte t' x = ring_byte t (if pk then x else x + c)"
    using get_ring [OF D(1) c_def] by blast
  obtain w' where w': "recv_data i m pk w = (out, w')" "rxStream (socks w' i) = Some t'"
    "xTcpWindow (socks w' i) = xTcpWindow (socks w i)" "segs w' = segs w" "ucTcpState (socks w' i) = ucTcpState (socks w i)"
    using recv_data_effect [OF t(1) g(1)] by blast
  have out: "out = map S [n..<n + min (delivered A - n) (unat m)]"
    using g(2) holds_content [OF t(2)] D(2) by (simp add: take_map c_def min_def)
  have lc: "length out = c" using out D(2) by (simp add: c_def)
  have "holds_stream S (if pk then n else n + length out) A t'"
  proof (cases pk)
    case True
    then have "t' = t" using g(1) by (auto simp: uxStreamBufferGet_def Let_def split: if_splits)
    then show ?thesis using t(2) True by simp
  next
    case False
    have sl: "size_of t < len t" using size_of_lt [OF D(1)] .
    have c: "c \<le> size_of t" by (simp add: c_def)
    have "holds_stream S (n + c) A t'" unfolding holds_stream_def
    proof (intro conjI allI impI ballI)
      show "sb_ok t'" by (rule g(3))
      show "delivered A = n + c + size_of t'" using D(2) g(5) False c by simp
      show "ring_byte t' x = S (n + c + x)" if "x < size_of t'" for x
      proof -
        have x: "x + c < size_of t" using that g(5) False by simp
        then show ?thesis using ring [of x] D(3) [OF x] False sl by (simp add: ac_simps)
      qed
    next
      fix pm assume pm: "pm \<in> waiting A"
      obtain p l where e: "pm = (p, l)" by (cases pm)
      have w: "(p, l) \<in> waiting A" using pm e by simp
      have after: "delivered A \<le> p" using rx_relD(5) [OF rel] w by auto
      have r: "n \<le> p \<and> p + l < n + len t" using D(4) [OF w] .
      have "ring_byte t' (x - (n + c)) = S x" if "p \<le> x" "x < p + l" for x
      proof -
        have "x - (n + c) + c = x - n" "x - n < len t" using that after D(2) c r by linarith+
        then show ?thesis using ring [of "x - (n + c)"] D(5) [OF w that] False by simp
      qed
      then show "case pm of (p, l) \<Rightarrow> n + c \<le> p \<and> p + l < n + c + len t' \<and> (\<forall>x. p \<le> x \<and> x < p + l \<longrightarrow> ring_byte t' (x - (n + c)) = S x)"
        using e r g(4) after D(2) c by simp
    qed
    then show ?thesis using False lc by simp
  qed
  then have "in_step isn S i (if pk then n else n + length out) A w'" using w' rel by (intro in_stepI) auto
  moreover have "same_receiver i w w'" using w' t(1) g(4) by (simp add: same_receiver_def cap_of_def rx_descs_def)
  ultimately show ?thesis using w'(1) out by blast
qed

text \<open>
  Claim C40. A socket receives the byte stream of its peer.  The socket is in SYN_RECEIVED or beyond,
  its window and its buffer hold what has arrived of the stream \<open>S\<close>, and the segment that arrives
  carries bytes of \<open>S\<close> and agrees with the boundaries of what is stored: it lies wholly before the next
  byte, or it is the expected one and a stored segment that starts inside it reaches its end, or it lies
  ahead and starts where a stored one starts or overlaps none, always at less than 2^31 bytes.  Such an
  arrival, in order or ahead, repeated or too much for the buffer, is processed without an error and
  without an answer of its own, and leaves the buffer with the bytes of the stream the specification of
  the window says have arrived, each at its place; and a read hands out the bytes that follow those
  already read, as many as are asked for and there.  A segment that overlaps stored ones across their
  boundaries is not covered: the window answers it wrongly (\<open>rx_confirm_backwards\<close>, \<open>rx_overlap_leaks\<close>).
\<close>

theorem received_stream:
  assumes "in_step isn S i n A w" and "ucTcpState (socks w i) \<ge> eSYN_RECEIVED"
  shows "(\<forall>p l b d. carries isn S p l b d w \<and> conforms p l A \<longrightarrow>
      (\<exists>w'. prvStoreRxData i d b (of_nat l) w = Some (0, w') \<and> net_out w' = net_out w \<and>
        in_step isn S i n (snd (rx_spec p l (room_of i w) (xSegmentList (segs w) \<noteq> []) A)) w')) \<and>
    (\<forall>m pk. \<exists>out w'. recv_data i m pk w = (out, w') \<and> out = map S [n..<n + min (delivered A - n) (unat m)] \<and>
      in_step isn S i (if pk then n else n + length out) A w')"
proof (intro conjI allI impI)
  fix p l b d assume "carries isn S p l b d w \<and> conforms p l A"
  then show "\<exists>w'. prvStoreRxData i d b (of_nat l) w = Some (0, w') \<and> net_out w' = net_out w \<and>
      in_step isn S i n (snd (rx_spec p l (room_of i w) (xSegmentList (segs w) \<noteq> []) A)) w'"
    using store_in_step [OF assms] by blast
next
  fix m pk
  show "\<exists>out w'. recv_data i m pk w = (out, w') \<and> out = map S [n..<n + min (delivered A - n) (unat m)] \<and>
      in_step isn S i (if pk then n else n + length out) A w'"
    using recv_in_step [OF assms(1), of m pk] by blast
qed

text \<open>The second segment of a stream arrives before the first.\<close>

definition demo_stream :: StreamBuffer_t where
  "demo_stream = \<lparr>uxTail = 60, uxMid = 0, uxHead = 60, uxFront = 60, bufLENGTH = 64, ucArray = replicate 64 0\<rparr>"

definition demo_receiver :: tcp_world where
  "demo_receiver = demo_world\<lparr>
     socks := (\<lambda>_. fresh_socket\<lparr>ucTcpState := eESTABLISHED, rxStream := Some demo_stream, xTcpWindow := demo_window\<rparr>),
     segs := demo_pool,
     net_bufs := (\<lambda>_. \<lparr>xPacket = zero_packet\<lparr>xTCPHeader := (xTCPHeader zero_packet)\<lparr>pktSequenceNumber := 0xf4ffffff\<rparr>\<rparr>, bufDataLength = 57\<rparr>)\<rparr>"

lemma demo_receiver_in_step: "in_step 0xFFFFFFF0 of_nat 0 0 \<lparr>delivered = 0, waiting = {}\<rparr> demo_receiver"
proof (rule in_stepI)
  show "rxStream (socks demo_receiver 0) = Some demo_stream" by (simp add: demo_receiver_def)
  show "holds_stream of_nat 0 \<lparr>delivered = 0, waiting = {}\<rparr> demo_stream"
    by (simp add: holds_stream_def demo_stream_def sb_ok_def size_of_def front_of_def wrap_def)
  show "rx_rel 0xFFFFFFF0 (segs demo_receiver) (xTcpWindow (socks demo_receiver 0)) \<lparr>delivered = 0, waiting = {}\<rparr>"
    by (simp add: demo_receiver_def rx_rel_def demo_window_fields stored_ok_def)
qed

theorem received_stream_witness:
  "\<exists>w'. prvStoreRxData 0 [4, 5, 6] 0 3 demo_receiver = Some (0, w') \<and>
     in_step 0xFFFFFFF0 of_nat 0 0 \<lparr>delivered = 0, waiting = {(4, 3)}\<rparr> w'"
proof -
  have st: "ucTcpState (socks demo_receiver 0) \<ge> eSYN_RECEIVED" by (simp add: demo_receiver_def state_order)
  have "carries 0xFFFFFFF0 of_nat 4 3 0 [4, 5, 6] demo_receiver"
    by (auto simp: carries_def demo_receiver_def FreeRTOS_htonl_def nth_Cons split: nat.splits)
  moreover have "conforms 4 3 \<lparr>delivered = 0, waiting = {}\<rparr>" by (simp add: conforms_def bytes_of_def)
  moreover have "rx_spec 4 3 (room_of 0 demo_receiver) (xSegmentList (segs demo_receiver) \<noteq> []) \<lparr>delivered = 0, waiting = {}\<rparr> =
      (4, \<lparr>delivered = 0, waiting = {(4, 3)}\<rparr>)"
  proof -
    have "room_of 0 demo_receiver = 63" by (simp add: room_of_def demo_receiver_def demo_stream_def size_of_def wrap_def)
    moreover have "xSegmentList (segs demo_receiver) \<noteq> []" by (simp add: demo_receiver_def demo_pool_def prvCreateSectors_def ipconfigTCP_WIN_SEG_COUNT_def)
    ultimately show ?thesis by (simp add: rx_spec_def)
  qed
  ultimately show ?thesis using received_stream [OF demo_receiver_in_step st] by force
qed

section \<open>A whole transfer\<close>

text \<open>
  The peer cuts its stream \<open>S\<close> at the positions \<open>cuts 0 = 0 < cuts 1 < \<dots>\<close> and sends the segments
  in any order, any number of times.  An event of a transfer is the arrival of segment \<open>k\<close>, at the
  time \<open>now\<close>, as the packet \<open>nb\<close> with the payload \<open>d\<close> in the network buffer \<open>b\<close>, or a read of the
  application.  The run of the code answers what each read has handed out.
\<close>

datatype rx_event = Arrives nat u32 nat net_buffer "u8 list" | Reads u32 bool

fun rx_transfer :: "(nat \<Rightarrow> nat) \<Rightarrow> nat \<Rightarrow> rx_event list \<Rightarrow> tcp_world \<Rightarrow> ((bool \<times> u8 list) list \<times> tcp_world) option" where
  "rx_transfer cuts i [] w = Some ([], w)"
| "rx_transfer cuts i (Arrives k now b nb d # es) w =
     (case prvStoreRxData i d b (of_nat (cuts (Suc k) - cuts k)) (w\<lparr>xTickCount := now, net_bufs := (net_bufs w)(b := nb)\<rparr>) of
        None \<Rightarrow> None
      | Some (r, w1) \<Rightarrow> if r \<noteq> 0 then None else rx_transfer cuts i es w1)"
| "rx_transfer cuts i (Reads m pk # es) w =
     (let (out, w1) = recv_data i m pk w
      in map_option (\<lambda>(outs, w2). ((pk, out) # outs, w2)) (rx_transfer cuts i es w1))"

fun on_wire :: "u32 \<Rightarrow> (nat \<Rightarrow> u8) \<Rightarrow> (nat \<Rightarrow> nat) \<Rightarrow> rx_event \<Rightarrow> bool" where
  "on_wire isn S cuts (Arrives k now b nb d) \<longleftrightarrow>
     FreeRTOS_htonl (pktSequenceNumber (xTCPHeader (xPacket nb))) = isn + of_nat (cuts k) \<and> cuts (Suc k) < 2 ^ 31 \<and>
     cuts (Suc k) - cuts k \<le> length d \<and> (\<forall>x < cuts (Suc k) - cuts k. d ! x = S (cuts k + x))"
| "on_wire isn S cuts (Reads m pk) \<longleftrightarrow> True"

text \<open>
  What a receiver with room for \<open>cap\<close> bytes and \<open>F\<close> descriptors has to do: it takes a segment it has
  not taken if its bytes fit behind the \<open>n\<close> bytes read, and if it is the next one or a descriptor is
  left for it; it hands out the bytes of the segments taken without a gap from the first.
\<close>

definition rx_takes :: "(nat \<Rightarrow> nat) \<Rightarrow> nat \<Rightarrow> nat \<Rightarrow> nat \<Rightarrow> nat set \<Rightarrow> nat \<Rightarrow> bool" where
  "rx_takes cuts cap F n T k \<longleftrightarrow> k \<notin> T \<and> cuts (Suc k) \<le> n + cap \<and>
     (k = first_gap 0 T \<or> card {j \<in> T. first_gap 0 T < j} < F)"

fun stream_transfer ::
  "(nat \<Rightarrow> u8) \<Rightarrow> (nat \<Rightarrow> nat) \<Rightarrow> nat \<Rightarrow> nat \<Rightarrow> rx_event list \<Rightarrow> nat \<Rightarrow> nat set \<Rightarrow> (bool \<times> u8 list) list \<times> nat \<times> nat set" where
  "stream_transfer S cuts cap F [] n T = ([], n, T)"
| "stream_transfer S cuts cap F (Arrives k now b nb d # es) n T =
     stream_transfer S cuts cap F es n (if rx_takes cuts cap F n T k then insert k T else T)"
| "stream_transfer S cuts cap F (Reads m pk # es) n T =
     (let e = n + min (cuts (first_gap 0 T) - n) (unat m);
          (outs, n', T') = stream_transfer S cuts cap F es (if pk then n else e) T
      in ((pk, map S [n..<e]) # outs, n', T'))"

text \<open>The bytes taken out of the socket, peeks left out; and the segments that arrive.\<close>

definition handed_over :: "(bool \<times> u8 list) list \<Rightarrow> u8 list" where
  "handed_over outs = concat (map snd (filter (\<lambda>(pk, _). \<not> pk) outs))"

definition arrived :: "rx_event list \<Rightarrow> nat set" where
  "arrived es = (\<Union>ev\<in>set es. case ev of Arrives k now b nb d \<Rightarrow> {k} | Reads m pk \<Rightarrow> {})"

definition receiving :: "u32 \<Rightarrow> (nat \<Rightarrow> u8) \<Rightarrow> (nat \<Rightarrow> nat) \<Rightarrow> nat \<Rightarrow> nat \<Rightarrow> nat set \<Rightarrow> tcp_world \<Rightarrow> bool" where
  "receiving isn S cuts i n T w \<longleftrightarrow> in_step isn S i n (progress cuts T) w \<and> ucTcpState (socks w i) \<ge> eSYN_RECEIVED \<and>
     finite T \<and> (\<forall>k\<in>T. cuts (Suc k) < 2 ^ 31)"

lemma stored_count:
  assumes "rx_rel isn g v (progress cuts T)" "strict_mono cuts"
  shows "length (xRxSegments v) = card {j \<in> T. first_gap 0 T < j}"
proof -
  let ?f = "\<lambda>i. (cuts (first_gap 0 T) + seg_lo g (rx_next v) i, seg_len g i)"
  note r = rx_relD [OF assms(1)]
  have "inj_on ?f (set (xRxSegments v))"
    using stored_disjoint [OF r(3)] stored_okD(2) [OF r(3)] by (intro inj_onI) fastforce
  then have "card (?f ` set (xRxSegments v)) = length (xRxSegments v)"
    using card_image distinct_card [OF win_okD(3) [OF r(1)]] by metis
  moreover have "card (segment cuts ` {j \<in> T. first_gap 0 T < j}) = card {j \<in> T. first_gap 0 T < j}"
    using strict_mono_eq [OF assms(2)] by (intro card_image inj_onI) (simp add: segment_def)
  ultimately show ?thesis using r(5) by (simp add: progress_def)
qed

lemma progress_takes:
  assumes mono: "strict_mono cuts" and fin: "finite T" and room: "cuts (first_gap 0 T) + space = n + cap"
    and d: "d \<longleftrightarrow> card {j \<in> T. first_gap 0 T < j} < F"
  shows "0 \<le> fst (rx_spec (cuts k) (cuts (Suc k) - cuts k) space d (progress cuts T)) \<longleftrightarrow> rx_takes cuts cap F n T k"
proof -
  let ?m = "first_gap 0 T" and ?A = "progress cuts T"
  have step: "cuts k < cuts (Suc k)" using mono by (simp add: strict_mono_less)
  have N: "delivered ?A = cuts ?m" and W: "waiting ?A = segment cuts ` {j \<in> T. ?m < j}" by (simp_all add: progress_def)
  have gap: "?m \<notin> T" "{0..<?m} \<subseteq> T" using first_gap_0 [OF fin] by simp_all
  consider "k < ?m" | "k = ?m" | "?m < k" by linarith
  then show ?thesis
  proof cases
    case 1
    then have "cuts k < cuts ?m" "cuts (Suc k) \<le> cuts ?m" using mono by (simp_all add: strict_mono_less strict_mono_less_eq)
    moreover have "k \<in> T" using gap(2) 1 by auto
    ultimately show ?thesis unfolding rx_spec_def N rx_takes_def using step by simp
  next
    case 2
    then show ?thesis unfolding rx_spec_def N rx_takes_def using gap(1) step room by (auto simp: Let_def)
  next
    case 3
    then have lt: "cuts ?m < cuts k" using mono by (simp add: strict_mono_less)
    have known: "cuts k \<in> fst ` waiting ?A \<longleftrightarrow> k \<in> T"
      unfolding W using 3 strict_mono_eq [OF mono] by (force simp: segment_def)
    show ?thesis unfolding rx_spec_def N rx_takes_def known d using lt step room 3 by auto
  qed
qed

text \<open>One arrival, and one read.\<close>

lemma arrival_step:
  assumes mono: "strict_mono cuts" and zero: "cuts 0 = 0" and inv: "receiving isn S cuts i n T w"
    and ev: "on_wire isn S cuts (Arrives k now b nb d)"
  shows "\<exists>w'. prvStoreRxData i d b (of_nat (cuts (Suc k) - cuts k)) (w\<lparr>xTickCount := now, net_bufs := (net_bufs w)(b := nb)\<rparr>) =
      Some (0, w') \<and> receiving isn S cuts i n (if rx_takes cuts (cap_of i w) (rx_descs i w) n T k then insert k T else T) w' \<and>
    same_receiver i w w' \<and> net_out w' = net_out w"
proof -
  let ?w = "w\<lparr>xTickCount := now, net_bufs := (net_bufs w)(b := nb)\<rparr>" and ?A = "progress cuts T"
  have small: "cuts (Suc k) < 2 ^ 31" using ev by simp
  have I: "in_step isn S i n ?A w" "ucTcpState (socks w i) \<ge> eSYN_RECEIVED" "finite T" "\<forall>k\<in>T. cuts (Suc k) < 2 ^ 31"
    using inv by (auto simp: receiving_def)
  have I': "in_step isn S i n ?A ?w" "ucTcpState (socks ?w i) \<ge> eSYN_RECEIVED" using I(1,2) by (simp_all add: in_step_def)
  obtain st where st: "rxStream (socks w i) = Some st" "holds_stream S n ?A st" "rx_rel isn (segs w) (xTcpWindow (socks w i)) ?A"
    using I(1) by (auto simp: in_step_def)
  note D = holds_streamD [OF st(2)]
  have carry: "carries isn S (cuts k) (cuts (Suc k) - cuts k) b d ?w" using ev by (simp add: carries_def)
  have conf: "conforms (cuts k) (cuts (Suc k) - cuts k) ?A"
    by (rule progress_conforms [OF mono small progress_small [OF I(3) zero I(4)]])
  let ?spec = "rx_spec (cuts k) (cuts (Suc k) - cuts k) (room_of i w) (xSegmentList (segs w) \<noteq> []) ?A"
  have "room_of i ?w = room_of i w" by (simp add: room_of_def)
  with store_in_step [OF I' carry conf] obtain w' where
    w': "prvStoreRxData i d b (of_nat (cuts (Suc k) - cuts k)) ?w = Some (0, w')" "in_step isn S i n (snd ?spec) w'"
    "net_out w' = net_out ?w" "same_receiver i ?w w'" by auto
  have same: "same_receiver i w w'" using w'(4) by (simp add: same_receiver_def cap_of_def rx_descs_def)
  have "cuts (first_gap 0 T) = n + size_of st" using D(2) by (simp add: progress_def)
  then have "cuts (first_gap 0 T) + room_of i w = n + cap_of i w"
    using st(1) size_of_lt [OF D(1)] by (simp add: room_of_def cap_of_def)
  moreover have "xSegmentList (segs w) \<noteq> [] \<longleftrightarrow> card {j \<in> T. first_gap 0 T < j} < rx_descs i w"
    using stored_count [OF st(3) mono] by (simp add: rx_descs_def)
  ultimately have takes: "0 \<le> fst ?spec \<longleftrightarrow> rx_takes cuts (cap_of i w) (rx_descs i w) n T k"
    by (rule progress_takes [OF mono I(3)])
  have "snd ?spec = progress cuts (if 0 \<le> fst ?spec then insert k T else T)" by (rule progress_step [OF mono I(3) refl])
  then have "receiving isn S cuts i n (if rx_takes cuts (cap_of i w) (rx_descs i w) n T k then insert k T else T) w'"
    using w'(2) same I(2-4) small takes by (auto simp: receiving_def same_receiver_def)
  then show ?thesis using w'(1,3) same by auto
qed

lemma read_step:
  assumes "receiving isn S cuts i n T w"
  shows "\<exists>w'. recv_data i m pk w = (map S [n..<n + min (cuts (first_gap 0 T) - n) (unat m)], w') \<and>
    receiving isn S cuts i (if pk then n else n + min (cuts (first_gap 0 T) - n) (unat m)) T w' \<and> same_receiver i w w'"
proof -
  have I: "in_step isn S i n (progress cuts T) w" using assms by (simp add: receiving_def)
  from recv_in_step [OF I, of m pk] show ?thesis
    using assms by (auto simp: receiving_def same_receiver_def progress_def split: if_splits)
qed

lemma transfer_run:
  assumes mono: "strict_mono cuts" and zero: "cuts 0 = 0"
  shows "receiving isn S cuts i n T w \<Longrightarrow> \<forall>ev\<in>set es. on_wire isn S cuts ev \<Longrightarrow>
    \<exists>outs n' T' w'. stream_transfer S cuts (cap_of i w) (rx_descs i w) es n T = (outs, n', T') \<and>
      rx_transfer cuts i es w = Some (outs, w') \<and> receiving isn S cuts i n' T' w' \<and> same_receiver i w w'"
proof (induction es arbitrary: n T w)
  case Nil
  then show ?case by (simp add: same_receiver_def)
next
  case (Cons ev es)
  show ?case
  proof (cases ev)
    case (Arrives k now b nb d)
    let ?T = "if rx_takes cuts (cap_of i w) (rx_descs i w) n T k then insert k T else T"
    obtain w1 where w1: "prvStoreRxData i d b (of_nat (cuts (Suc k) - cuts k))
        (w\<lparr>xTickCount := now, net_bufs := (net_bufs w)(b := nb)\<rparr>) = Some (0, w1)"
      "receiving isn S cuts i n ?T w1" "same_receiver i w w1"
      using arrival_step [OF mono zero Cons.prems(1), of k now b nb d] Cons.prems(2) Arrives by auto
    from Cons.IH [OF w1(2)] Cons.prems(2) obtain outs n' T' w' where
      "stream_transfer S cuts (cap_of i w1) (rx_descs i w1) es n ?T = (outs, n', T')" "rx_transfer cuts i es w1 = Some (outs, w')"
      "receiving isn S cuts i n' T' w'" "same_receiver i w1 w'" by auto
    then show ?thesis using w1(1,3) Arrives by (auto simp: same_receiver_def)
  next
    case (Reads m pk)
    let ?e = "n + min (cuts (first_gap 0 T) - n) (unat m)"
    obtain w1 where w1: "recv_data i m pk w = (map S [n..<?e], w1)" "receiving isn S cuts i (if pk then n else ?e) T w1" "same_receiver i w w1"
      using read_step [OF Cons.prems(1), of m pk] by blast
    from Cons.IH [OF w1(2)] Cons.prems(2) obtain outs n' T' w' where
      "stream_transfer S cuts (cap_of i w1) (rx_descs i w1) es (if pk then n else ?e) T = (outs, n', T')"
      "rx_transfer cuts i es w1 = Some (outs, w')" "receiving isn S cuts i n' T' w'" "same_receiver i w1 w'" by auto
    then show ?thesis using w1(1,3) Reads by (auto simp: same_receiver_def Let_def)
  qed
qed

text \<open>What is handed over are the bytes of the stream, from where the reading was, in order.\<close>

lemma handed_over_stream:
  "stream_transfer S cuts cap F es n T = (outs, n', T') \<Longrightarrow> n \<le> n' \<and> handed_over outs = map S [n..<n']"
proof (induction es arbitrary: n T outs)
  case (Cons ev es)
  show ?case
  proof (cases ev)
    case (Arrives k now b nb d)
    then show ?thesis using Cons.IH Cons.prems by simp
  next
    case (Reads m pk)
    let ?e = "n + min (cuts (first_gap 0 T) - n) (unat m)"
    obtain outs1 where o: "stream_transfer S cuts cap F es (if pk then n else ?e) T = (outs1, n', T')" "outs = (pk, map S [n..<?e]) # outs1"
      using Cons.prems Reads by (auto simp: Let_def split: prod.splits)
    from Cons.IH [OF o(1)] have ih: "(if pk then n else ?e) \<le> n'" "handed_over outs1 = map S [(if pk then n else ?e)..<n']" by auto
    show ?thesis
    proof (cases pk)
      case False
      then have "handed_over outs = map S ([n..<?e] @ [?e..<n'])" using ih o(2) by (simp add: handed_over_def)
      also have "[n..<?e] @ [?e..<n'] = [n..<n']" using ih(1) False upt_add_eq_append [of n ?e "n' - ?e"] by simp
      finally show ?thesis using ih(1) False by simp
    qed (use ih o(2) in \<open>simp add: handed_over_def\<close>)
  qed
qed (auto simp: handed_over_def)

text \<open>With room for all of the stream every segment is taken when it first arrives.\<close>

lemma all_taken:
  assumes "stream_transfer S cuts cap F es n T = (outs, n', T')" "strict_mono cuts" "cuts N \<le> cap" "N \<le> F" "T \<subseteq> {..<N}"
    "arrived es \<subseteq> {..<N}"
  shows "T' = T \<union> arrived es"
  using assms(1,5,6)
proof (induction es arbitrary: n T outs)
  case (Cons ev es)
  show ?case
  proof (cases ev)
    case (Arrives k now b nb d)
    have a: "arrived (ev # es) = insert k (arrived es)" using Arrives by (auto simp: arrived_def)
    then have k: "k < N" using Cons.prems(3) by auto
    have "cuts (Suc k) \<le> n + cap" using strict_mono_less_eq [OF assms(2), of "Suc k" N] k assms(3) by simp
    moreover have "card {j \<in> T. first_gap 0 T < j} < F" if "k \<notin> T"
    proof -
      have "{j \<in> T. first_gap 0 T < j} \<subseteq> {..<N} - {k}" using Cons.prems(2) that by auto
      then have "card {j \<in> T. first_gap 0 T < j} \<le> card ({..<N} - {k})" by (intro card_mono) simp_all
      then show ?thesis using k assms(4) by simp
    qed
    ultimately have "(if rx_takes cuts cap F n T k then insert k T else T) = insert k T" by (auto simp: rx_takes_def)
    then have "stream_transfer S cuts cap F es n (insert k T) = (outs, n', T')" using Cons.prems(1) Arrives by simp
    from Cons.IH [OF this] show ?thesis using a k Cons.prems(2,3) by auto
  next
    case (Reads m pk)
    have "arrived (ev # es) = arrived es" using Reads by (auto simp: arrived_def)
    then show ?thesis using Cons.IH Cons.prems Reads by (auto simp: Let_def split: prod.splits)
  qed
qed (simp add: arrived_def)


text \<open>
  Claim C1. A transfer delivers the stream of the peer, and nothing else.  The segments of a stream of
  less than 2^31 bytes, always cut at the same positions, arrive in any order and any number of times at
  a socket whose window and buffer are empty, and the application reads in between, as much and as often
  as it likes.  Every arrival is processed without an error; a segment is taken exactly when it was not
  yet, fits the buffer, and is the next one or finds a free descriptor; every read hands out exactly the
  bytes that follow those already read and are there, up to the first missing segment.  So the bytes
  handed over are the stream from its start, in order, without a gap or a repetition; what can be read
  next follows them up to the acknowledged position, the start of the first segment that was not taken;
  and once each of the first \<open>N\<close> segments has arrived, with room for their bytes and as many
  descriptors, all their bytes have been handed over or are ready to be read.
\<close>

theorem tcp_rx_transfer:
  assumes "strict_mono cuts" and "cuts 0 = 0" and "\<forall>ev\<in>set es. on_wire isn S cuts ev"
    and "ucTcpState (socks w i) \<ge> eSYN_RECEIVED" and "rxStream (socks w i) = Some st" "sb_ok st" "content st = []"
    and "win_ok (segs w) (xTcpWindow (socks w i))" "xRxSegments (xTcpWindow (socks w i)) = []"
    and "ulCurrentSequenceNumber (rx (xTcpWindow (socks w i))) = isn"
  shows "\<exists>outs n T w' st'.
     stream_transfer S cuts (len st - 1) (length (xSegmentList (segs w))) es 0 {} = (outs, n, T) \<and>
     rx_transfer cuts i es w = Some (outs, w') \<and>
     handed_over outs = map S [0..<n] \<and>
     rxStream (socks w' i) = Some st' \<and> content st' = map S [n..<cuts (first_gap 0 T)] \<and> n \<le> cuts (first_gap 0 T) \<and>
     ulCurrentSequenceNumber (rx (xTcpWindow (socks w' i))) = isn + of_nat (cuts (first_gap 0 T)) \<and>
     (arrived es = {..<N} \<and> cuts N \<le> len st - 1 \<and> N \<le> length (xSegmentList (segs w)) \<longrightarrow>
        handed_over outs @ content st' = map S [0..<cuts N])"
proof -
  have gap: "first_gap 0 {..<N} = N" for N by (rule first_gap_0_eq) auto
  have "size_of st = 0" using assms(7) by (simp add: content_def)
  then have "receiving isn S cuts i 0 {} w"
    using assms(2,4-6,8-10) gap [of 0]
    by (simp add: receiving_def in_step_def rx_rel_def progress_def stored_ok_def holds_stream_def)
  from transfer_run [OF assms(1,2) this assms(3)] obtain outs n T w' where
    run: "stream_transfer S cuts (cap_of i w) (rx_descs i w) es 0 {} = (outs, n, T)" "rx_transfer cuts i es w = Some (outs, w')"
      "receiving isn S cuts i n T w'" by blast
  then obtain st' where st': "rxStream (socks w' i) = Some st'" "holds_stream S n (progress cuts T) st'"
    "rx_rel isn (segs w') (xTcpWindow (socks w' i)) (progress cuts T)" by (auto simp: receiving_def in_step_def)
  have d: "delivered (progress cuts T) = cuts (first_gap 0 T)" by (simp add: progress_def)
  have s: "stream_transfer S cuts (len st - 1) (length (xSegmentList (segs w))) es 0 {} = (outs, n, T)"
    using run(1) assms(5,9) by (simp add: cap_of_def rx_descs_def)
  have c: "content st' = map S [n..<cuts (first_gap 0 T)]" "n \<le> cuts (first_gap 0 T)"
    using holds_content [OF st'(2)] holds_streamD(2) [OF st'(2)] d by simp_all
  have h: "handed_over outs = map S [0..<n]" using handed_over_stream [OF s] by simp
  have "handed_over outs @ content st' = map S [0..<cuts N]"
    if "arrived es = {..<N}" "cuts N \<le> len st - 1" "N \<le> length (xSegmentList (segs w))"
  proof -
    have "T = {..<N}" using all_taken [OF s assms(1) that(2,3)] that(1) by simp
    then have "handed_over outs @ content st' = map S ([0..<n] @ [n..<cuts N])" using h c(1) gap by simp
    also have "[0..<n] @ [n..<cuts N] = [0..<cuts N]"
      using c(2) gap \<open>T = {..<N}\<close> upt_add_eq_append [of 0 n "cuts N - n"] by simp
    finally show ?thesis .
  qed
  then show ?thesis using s run(2) h st'(1) c rx_relD(2) [OF st'(3)] d
    by (intro exI [of _ outs] exI [of _ n] exI [of _ T] exI [of _ w'] exI [of _ st']) simp
qed

text \<open>Two segments of four bytes arrive as 1, 0, 1, with reads in between; the counter of the peer wraps later.\<close>

definition demo_arrival :: "nat \<Rightarrow> u32 \<Rightarrow> rx_event" where
  "demo_arrival k sq = Arrives k 7 1 \<lparr>xPacket = zero_packet\<lparr>xTCPHeader := (xTCPHeader zero_packet)\<lparr>pktSequenceNumber := sq\<rparr>\<rparr>,
     bufDataLength = 58\<rparr> (map of_nat [4 * k..<4 * k + 4])"

definition demo_transfer :: "rx_event list" where
  "demo_transfer = [demo_arrival 1 0xf4ffffff, Reads 100 False, demo_arrival 0 0xf0ffffff, Reads 3 True,
     demo_arrival 1 0xf4ffffff, Reads 6 False]"

theorem tcp_rx_transfer_witness:
  "\<exists>outs w' st'. rx_transfer (\<lambda>k. 4 * k) 0 demo_transfer demo_receiver = Some (outs, w') \<and>
     rxStream (socks w' 0) = Some st' \<and> handed_over outs @ content st' = [0, 1, 2, 3, 4, 5, 6, 7]"
proof -
  have mono: "strict_mono (\<lambda>k. 4 * k :: nat)" by (rule strict_monoI) simp
  have four: "(\<forall>x<4. P x) \<longleftrightarrow> P 0 \<and> P 1 \<and> P 2 \<and> P 3" for P :: "nat \<Rightarrow> bool"
    by (auto simp: less_Suc_eq eval_nat_numeral)
  have wire: "\<forall>ev\<in>set demo_transfer. on_wire 0xFFFFFFF0 of_nat (\<lambda>k. 4 * k) ev"
    by (simp add: demo_transfer_def demo_arrival_def FreeRTOS_htonl_def four)
  have st: "ucTcpState (socks demo_receiver 0) \<ge> eSYN_RECEIVED" "rxStream (socks demo_receiver 0) = Some demo_stream"
    "win_ok (segs demo_receiver) (xTcpWindow (socks demo_receiver 0))" "xRxSegments (xTcpWindow (socks demo_receiver 0)) = []"
    "ulCurrentSequenceNumber (rx (xTcpWindow (socks demo_receiver 0))) = 0xFFFFFFF0"
    using demo_window_fields by (simp_all add: demo_receiver_def state_order)
  have stream: "sb_ok demo_stream" "content demo_stream = []" "len demo_stream - 1 = 63"
    by (simp_all add: demo_stream_def sb_ok_def content_def size_of_def front_of_def wrap_def)
  have "arrived demo_transfer = {..<2}" by (auto simp: arrived_def demo_transfer_def demo_arrival_def)
  moreover have "2 \<le> length (xSegmentList (segs demo_receiver))"
    by (simp add: demo_receiver_def demo_pool_def prvCreateSectors_def ipconfigTCP_WIN_SEG_COUNT_def)
  moreover have "map of_nat [0..<8] = ([0, 1, 2, 3, 4, 5, 6, 7] :: u8 list)" by (simp add: upt_rec)
  ultimately show ?thesis
    using tcp_rx_transfer [OF mono _ wire st(1,2) stream(1,2) st(3-5), of 2] stream(3) by auto
qed

end
