(* ===== verification/Tasks.thy ===== *)
theory Tasks
  imports Rtos_List
begin

text \<open>
  The scheduler, \<open>SDK/rtos/FreeRTOS/src/tasks.c\<close>: the ready lists, the delayed lists, the
  suspended list and the pending list of the kernel, and the operations that move a task from one to
  another.  The lists are those of \<open>Rtos_List\<close>; a task is its handle, the address of its TCB, and
  its two list items are found from the handle.  This theory holds the data and the operations; the
  invariant and the properties are in \<open>Tasks_Inv\<close> and \<open>Scheduler\<close>.

  \<open>FreeRTOSConfig.h\<close> is not part of the repository.  The number of priorities, preemption and time
  slicing are parameters, the record \<open>kernel_config\<close>; mutexes, notifications and the API functions
  of \<open>INCLUDE_...\<close> are taken as built, the port-optimised task selection, tickless idle and the debug
  facilities as not built (the defaults of \<open>FreeRTOS.h\<close>).  A failed \<open>configASSERT\<close> and the use of a
  pointer that is not one are the result \<open>None\<close>.
\<close>

section \<open>Data\<close>

type_synonym task = nat

datatype eNotifyValue = eNotWaitingNotification | eWaitingNotification | eNotified

datatype eNotifyAction = eNoAction | eSetBits | eIncrement | eSetValueWithOverwrite
  | eSetValueWithoutOverwrite

datatype eTaskState = eRunning | eReady | eBlocked | eSuspended | eDeleted

record tskTCB =
  uxPriority :: u32
  uxBasePriority :: u32
  uxMutexesHeld :: u32
  ulNotifiedValue :: u32
  eNotifyState :: eNotifyValue

text \<open>The list items inside the TCB of task \<open>t\<close>; \<open>task_of\<close> is the way back.\<close>

definition xGenericListItem :: "task \<Rightarrow> item_id" where
  "xGenericListItem t = 2 * t"

definition xEventListItem :: "task \<Rightarrow> item_id" where
  "xEventListItem t = 2 * t + 1"

definition task_of :: "item_id \<Rightarrow> task" where
  "task_of i = i div 2"

text \<open>The lists of \<open>tasks.c\<close> have even numbers, the event lists of queues and event groups odd ones.\<close>

definition xDelayedTaskList1 :: list_id where "xDelayedTaskList1 = 0"
definition xDelayedTaskList2 :: list_id where "xDelayedTaskList2 = 2"
definition xPendingReadyList :: list_id where "xPendingReadyList = 4"
definition xTasksWaitingTermination :: list_id where "xTasksWaitingTermination = 6"
definition xSuspendedTaskList :: list_id where "xSuspendedTaskList = 8"

definition pxReadyTasksLists :: "nat \<Rightarrow> list_id" where
  "pxReadyTasksLists p = 2 * p + 10"

text \<open>The null handle is 0.  \<open>pend_sv\<close> is the PendSV bit by which the port asks for a switch.\<close>

record kernel =
  klists :: list_store
  tcb :: "task \<Rightarrow> tskTCB"
  pxCurrentTCB :: task
  pxDelayedTaskList :: list_id
  pxOverflowDelayedTaskList :: list_id
  uxTasksDeleted :: u32
  uxCurrentNumberOfTasks :: u32
  xTickCount :: u32
  uxTopReadyPriority :: u32
  xSchedulerRunning :: bool
  uxPendedTicks :: u32
  xYieldPending :: bool
  xNumOfOverflows :: u32
  xNextTaskUnblockTime :: u32
  uxSchedulerSuspended :: u32
  pend_sv :: bool

record kernel_config =
  configMAX_PRIORITIES :: u32
  configUSE_PREEMPTION :: bool
  configUSE_TIME_SLICING :: bool

record TimeOut_t =
  xOverflowCount :: u32
  xTimeOnEntering :: u32

definition configASSERT :: "bool \<Rightarrow> unit option" where
  "configASSERT b = (if b then Some () else None)"

abbreviation cur_prio :: "kernel \<Rightarrow> u32" where
  "cur_prio s \<equiv> uxPriority (tcb s (pxCurrentTCB s))"

definition set_lists :: "list_store \<Rightarrow> kernel \<Rightarrow> kernel" where
  "set_lists k s = s\<lparr>klists := k\<rparr>"

definition set_tcb :: "task \<Rightarrow> tskTCB \<Rightarrow> kernel \<Rightarrow> kernel" where
  "set_tcb t r s = s\<lparr>tcb := (tcb s)(t := r)\<rparr>"

text \<open>\<open>portYIELD_WITHIN_API\<close>, and \<open>taskYIELD_IF_USING_PREEMPTION\<close>.\<close>

definition portYIELD_WITHIN_API :: "kernel \<Rightarrow> kernel" where
  "portYIELD_WITHIN_API s = s\<lparr>pend_sv := True\<rparr>"

definition taskYIELD_IF_USING_PREEMPTION :: "kernel_config \<Rightarrow> kernel \<Rightarrow> kernel" where
  "taskYIELD_IF_USING_PREEMPTION C s = (if configUSE_PREEMPTION C then portYIELD_WITHIN_API s else s)"

definition taskEVENT_LIST_ITEM_VALUE_IN_USE :: u32 where
  "taskEVENT_LIST_ITEM_VALUE_IN_USE = 0x80000000"

definition prvGetTCBFromHandle :: "task \<Rightarrow> kernel \<Rightarrow> task" where
  "prvGetTCBFromHandle h s = (if h = 0 then pxCurrentTCB s else h)"

section \<open>Moving a task between the lists\<close>

definition remove_item :: "item_id \<Rightarrow> kernel \<Rightarrow> kernel option" where
  "remove_item i s = do { k \<leftarrow> unlink_item i (klists s); Some (set_lists k s) }"

text \<open>Is the task waiting on an event also?  Then take its event item out of the event list.\<close>

definition leave_event_list :: "task \<Rightarrow> kernel \<Rightarrow> kernel option" where
  "leave_event_list t s =
     (if listLIST_ITEM_CONTAINER (klists s) (xEventListItem t) \<noteq> None
      then remove_item (xEventListItem t) s else Some s)"

definition insert_end :: "list_id \<Rightarrow> item_id \<Rightarrow> kernel \<Rightarrow> kernel" where
  "insert_end l i s = set_lists (vListInsertEnd l i (klists s)) s"

definition taskRECORD_READY_PRIORITY :: "u32 \<Rightarrow> kernel \<Rightarrow> kernel" where
  "taskRECORD_READY_PRIORITY p s =
     (if uxTopReadyPriority s < p then s\<lparr>uxTopReadyPriority := p\<rparr> else s)"

definition prvAddTaskToReadyList :: "task \<Rightarrow> kernel \<Rightarrow> kernel" where
  "prvAddTaskToReadyList t s =
     (let p = uxPriority (tcb s t)
      in insert_end (pxReadyTasksLists (unat p)) (xGenericListItem t) (taskRECORD_READY_PRIORITY p s))"

definition set_event_value :: "task \<Rightarrow> u32 \<Rightarrow> kernel \<Rightarrow> kernel" where
  "set_event_value t v s = set_lists (listSET_LIST_ITEM_VALUE (xEventListItem t) v (klists s)) s"

definition event_value :: "task \<Rightarrow> kernel \<Rightarrow> u32" where
  "event_value t s = xItemValue (item_rec (klists s) (xEventListItem t))"

definition wake_value :: "task \<Rightarrow> kernel \<Rightarrow> u32" where
  "wake_value t s = xItemValue (item_rec (klists s) (xGenericListItem t))"

definition prvAddCurrentTaskToDelayedList :: "u32 \<Rightarrow> kernel \<Rightarrow> kernel option" where
  "prvAddCurrentTaskToDelayedList xTimeToWake s =
     (let g = xGenericListItem (pxCurrentTCB s);
          k = listSET_LIST_ITEM_VALUE g xTimeToWake (klists s)
      in if xTimeToWake < xTickCount s
         then do { k' \<leftarrow> vListInsert (pxOverflowDelayedTaskList s) g k; Some (set_lists k' s) }
         else do { k' \<leftarrow> vListInsert (pxDelayedTaskList s) g k;
                   Some (if xTimeToWake < xNextTaskUnblockTime s
                         then (set_lists k' s)\<lparr>xNextTaskUnblockTime := xTimeToWake\<rparr>
                         else set_lists k' s) })"

definition prvResetNextTaskUnblockTime :: "kernel \<Rightarrow> kernel option" where
  "prvResetNextTaskUnblockTime s =
     (if listLIST_IS_EMPTY (klists s) (pxDelayedTaskList s)
      then Some (s\<lparr>xNextTaskUnblockTime := portMAX_DELAY\<rparr>)
      else do { t \<leftarrow> listGET_OWNER_OF_HEAD_ENTRY (klists s) (pxDelayedTaskList s);
                Some (s\<lparr>xNextTaskUnblockTime := wake_value t s\<rparr>) })"

definition taskSWITCH_DELAYED_LISTS :: "kernel \<Rightarrow> kernel option" where
  "taskSWITCH_DELAYED_LISTS s =
     do { configASSERT (listLIST_IS_EMPTY (klists s) (pxDelayedTaskList s));
          prvResetNextTaskUnblockTime
            (s\<lparr>pxDelayedTaskList := pxOverflowDelayedTaskList s,
               pxOverflowDelayedTaskList := pxDelayedTaskList s,
               xNumOfOverflows := xNumOfOverflows s + 1\<rparr>) }"

text \<open>
  The current task leaves its ready list for a delayed list, or for the suspended list when it
  waits without limit: the end of \<open>vTaskPlaceOnEventList\<close> and of the waits for a notification.
\<close>

definition block_current :: "u32 \<Rightarrow> kernel \<Rightarrow> kernel option" where
  "block_current xTicksToWait s =
     do { s1 \<leftarrow> remove_item (xGenericListItem (pxCurrentTCB s)) s;
          if xTicksToWait = portMAX_DELAY
          then Some (insert_end xSuspendedTaskList (xGenericListItem (pxCurrentTCB s1)) s1)
          else prvAddCurrentTaskToDelayedList (xTickCount s1 + xTicksToWait) s1 }"

section \<open>Choosing the task to run\<close>

text \<open>The search of \<open>taskSELECT_HIGHEST_PRIORITY_TASK\<close>, downwards from \<open>uxTopReadyPriority\<close>.\<close>

primrec highest_ready :: "list_store \<Rightarrow> nat \<Rightarrow> nat option" where
  "highest_ready k 0 = (if listLIST_IS_EMPTY k (pxReadyTasksLists 0) then None else Some 0)"
| "highest_ready k (Suc p) =
     (if listLIST_IS_EMPTY k (pxReadyTasksLists (Suc p)) then highest_ready k p else Some (Suc p))"

definition taskSELECT_HIGHEST_PRIORITY_TASK :: "kernel \<Rightarrow> kernel option" where
  "taskSELECT_HIGHEST_PRIORITY_TASK s =
     do { p \<leftarrow> highest_ready (klists s) (unat (uxTopReadyPriority s));
          (case listGET_OWNER_OF_NEXT_ENTRY (pxReadyTasksLists p) (klists s) of
             (Some t, k) \<Rightarrow>
               Some (set_lists k (s\<lparr>uxTopReadyPriority := of_nat p, pxCurrentTCB := t\<rparr>))
           | (None, _) \<Rightarrow> None) }"

definition vTaskSwitchContext :: "kernel \<Rightarrow> kernel option" where
  "vTaskSwitchContext s =
     (if uxSchedulerSuspended s \<noteq> 0 then Some (s\<lparr>xYieldPending := True\<rparr>)
      else taskSELECT_HIGHEST_PRIORITY_TASK (s\<lparr>xYieldPending := False\<rparr>))"

text \<open>The PendSV handler of the port: it saves and restores registers around \<open>vTaskSwitchContext\<close>.\<close>

definition PendSV_Handler :: "kernel \<Rightarrow> kernel option" where
  "PendSV_Handler s = vTaskSwitchContext (s\<lparr>pend_sv := False\<rparr>)"

section \<open>The tick\<close>

text \<open>
  The loop of \<open>xTaskIncrementTick\<close> over the delayed list; the flag is \<open>xSwitchRequired\<close>.
\<close>

partial_function (option) unblock_expired ::
    "kernel_config \<Rightarrow> bool \<Rightarrow> kernel \<Rightarrow> (bool \<times> kernel) option" where
  "unblock_expired C sw s =
     (if listLIST_IS_EMPTY (klists s) (pxDelayedTaskList s)
      then Some (sw, s\<lparr>xNextTaskUnblockTime := portMAX_DELAY\<rparr>)
      else do { t \<leftarrow> listGET_OWNER_OF_HEAD_ENTRY (klists s) (pxDelayedTaskList s);
                if xTickCount s < wake_value t s
                then Some (sw, s\<lparr>xNextTaskUnblockTime := wake_value t s\<rparr>)
                else do { s1 \<leftarrow> remove_item (xGenericListItem t) s;
                          s2 \<leftarrow> leave_event_list t s1;
                          unblock_expired C
                            (sw \<or> configUSE_PREEMPTION C \<and> cur_prio s2 \<le> uxPriority (tcb s2 t))
                            (prvAddTaskToReadyList t s2) } })"

definition xTaskIncrementTick :: "kernel_config \<Rightarrow> kernel \<Rightarrow> (bool \<times> kernel) option" where
  "xTaskIncrementTick C s =
     do { (sw, s3) \<leftarrow>
            (if uxSchedulerSuspended s = 0
             then do { let s1 = s\<lparr>xTickCount := xTickCount s + 1\<rparr>;
                       s2 \<leftarrow> (if xTickCount s1 = 0 then taskSWITCH_DELAYED_LISTS s1 else Some s1);
                       (sw, s3) \<leftarrow> (if xNextTaskUnblockTime s2 \<le> xTickCount s2
                                    then unblock_expired C False s2 else Some (False, s2));
                       Some (sw \<or> configUSE_PREEMPTION C \<and> configUSE_TIME_SLICING C \<and>
                               1 < listCURRENT_LIST_LENGTH (klists s3)
                                     (pxReadyTasksLists (unat (cur_prio s3))), s3) }
             else Some (False, s\<lparr>uxPendedTicks := uxPendedTicks s + 1\<rparr>));
          Some (sw \<or> configUSE_PREEMPTION C \<and> xYieldPending s3, s3) }"

text \<open>\<open>vPortTickHandler\<close>, the tick interrupt of the port.\<close>

definition vPortTickHandler :: "kernel_config \<Rightarrow> kernel \<Rightarrow> kernel option" where
  "vPortTickHandler C s =
     do { (sw, s1) \<leftarrow> xTaskIncrementTick C s;
          Some (if sw then portYIELD_WITHIN_API s1 else s1) }"

section \<open>Suspending the scheduler\<close>

definition vTaskSuspendAll :: "kernel \<Rightarrow> kernel" where
  "vTaskSuspendAll s = s\<lparr>uxSchedulerSuspended := uxSchedulerSuspended s + 1\<rparr>"

partial_function (option) drain_pending :: "kernel \<Rightarrow> kernel option" where
  "drain_pending s =
     (if listLIST_IS_EMPTY (klists s) xPendingReadyList then Some s
      else do { t \<leftarrow> listGET_OWNER_OF_HEAD_ENTRY (klists s) xPendingReadyList;
                s1 \<leftarrow> remove_item (xEventListItem t) s;
                s2 \<leftarrow> remove_item (xGenericListItem t) s1;
                let s3 = prvAddTaskToReadyList t s2;
                drain_pending (if cur_prio s3 \<le> uxPriority (tcb s3 t)
                               then s3\<lparr>xYieldPending := True\<rparr> else s3) })"

partial_function (option) drain_ticks :: "kernel_config \<Rightarrow> kernel \<Rightarrow> kernel option" where
  "drain_ticks C s =
     (if uxPendedTicks s = 0 then Some s
      else do { (sw, s1) \<leftarrow> xTaskIncrementTick C s;
                let s2 = (if sw then s1\<lparr>xYieldPending := True\<rparr> else s1);
                drain_ticks C (s2\<lparr>uxPendedTicks := uxPendedTicks s2 - 1\<rparr>) })"

definition xTaskResumeAll :: "kernel_config \<Rightarrow> kernel \<Rightarrow> (bool \<times> kernel) option" where
  "xTaskResumeAll C s =
     do { configASSERT (uxSchedulerSuspended s \<noteq> 0);
          let s1 = s\<lparr>uxSchedulerSuspended := uxSchedulerSuspended s - 1\<rparr>;
          if uxSchedulerSuspended s1 = 0 \<and> 0 < uxCurrentNumberOfTasks s1
          then do { s2 \<leftarrow> drain_pending s1;
                    s3 \<leftarrow> drain_ticks C s2;
                    Some (if xYieldPending s3
                          then (configUSE_PREEMPTION C, taskYIELD_IF_USING_PREEMPTION C s3)
                          else (False, s3)) }
          else Some (False, s1) }"

text \<open>What every blocking call does after its last step: yield if \<open>xTaskResumeAll\<close> has not.\<close>

definition resume_and_yield :: "kernel_config \<Rightarrow> kernel \<Rightarrow> kernel option" where
  "resume_and_yield C s =
     do { (xAlreadyYielded, s1) \<leftarrow> xTaskResumeAll C s;
          Some (if xAlreadyYielded then s1 else portYIELD_WITHIN_API s1) }"

section \<open>Delays\<close>

definition vTaskDelay :: "kernel_config \<Rightarrow> u32 \<Rightarrow> kernel \<Rightarrow> kernel option" where
  "vTaskDelay C xTicksToDelay s =
     (if 0 < xTicksToDelay
      then do { configASSERT (uxSchedulerSuspended s = 0);
                let s1 = vTaskSuspendAll s;
                let xTimeToWake = xTickCount s1 + xTicksToDelay;
                s2 \<leftarrow> remove_item (xGenericListItem (pxCurrentTCB s1)) s1;
                s3 \<leftarrow> prvAddCurrentTaskToDelayedList xTimeToWake s2;
                resume_and_yield C s3 }
      else Some (portYIELD_WITHIN_API s))"

text \<open>The result holds the new value of \<open>*pxPreviousWakeTime\<close>.\<close>

definition vTaskDelayUntil ::
    "kernel_config \<Rightarrow> u32 \<Rightarrow> u32 \<Rightarrow> kernel \<Rightarrow> (u32 \<times> kernel) option" where
  "vTaskDelayUntil C xPreviousWakeTime xTimeIncrement s =
     do { configASSERT (0 < xTimeIncrement);
          configASSERT (uxSchedulerSuspended s = 0);
          let s1 = vTaskSuspendAll s;
          let xConstTickCount = xTickCount s1;
          let xTimeToWake = xPreviousWakeTime + xTimeIncrement;
          let xShouldDelay =
            (if xConstTickCount < xPreviousWakeTime
             then xTimeToWake < xPreviousWakeTime \<and> xConstTickCount < xTimeToWake
             else xTimeToWake < xPreviousWakeTime \<or> xConstTickCount < xTimeToWake);
          s3 \<leftarrow> (if xShouldDelay
                then do { s2 \<leftarrow> remove_item (xGenericListItem (pxCurrentTCB s1)) s1;
                          prvAddCurrentTaskToDelayedList xTimeToWake s2 }
                else Some s1);
          s4 \<leftarrow> resume_and_yield C s3;
          Some (xTimeToWake, s4) }"

section \<open>Suspended tasks\<close>

text \<open>
  The common start of \<open>vTaskSuspend\<close> and \<open>vTaskDelete\<close>: out of the state list and the event
  list, and to the end of the given list.
\<close>

definition move_out :: "list_id \<Rightarrow> task \<Rightarrow> kernel \<Rightarrow> kernel option" where
  "move_out l t s =
     do { s1 \<leftarrow> remove_item (xGenericListItem t) s;
          s2 \<leftarrow> leave_event_list t s1;
          Some (insert_end l (xGenericListItem t) s2) }"

definition vTaskSuspend :: "task \<Rightarrow> kernel \<Rightarrow> kernel option" where
  "vTaskSuspend xTaskToSuspend s =
     do { let t = prvGetTCBFromHandle xTaskToSuspend s;
          s1 \<leftarrow> move_out xSuspendedTaskList t s;
          if t = pxCurrentTCB s1
          then if xSchedulerRunning s1
               then do { configASSERT (uxSchedulerSuspended s1 = 0); Some (portYIELD_WITHIN_API s1) }
               else if listCURRENT_LIST_LENGTH (klists s1) xSuspendedTaskList
                         = uxCurrentNumberOfTasks s1
                    then Some (s1\<lparr>pxCurrentTCB := 0\<rparr>)
                    else vTaskSwitchContext s1
          else if xSchedulerRunning s1 then prvResetNextTaskUnblockTime s1 else Some s1 }"

definition prvTaskIsTaskSuspended :: "task \<Rightarrow> kernel \<Rightarrow> bool" where
  "prvTaskIsTaskSuspended t s \<longleftrightarrow>
     listIS_CONTAINED_WITHIN (klists s) xSuspendedTaskList (xGenericListItem t) \<and>
     \<not> listIS_CONTAINED_WITHIN (klists s) xPendingReadyList (xEventListItem t) \<and>
     listLIST_ITEM_CONTAINER (klists s) (xEventListItem t) = None"

definition vTaskResume :: "kernel_config \<Rightarrow> task \<Rightarrow> kernel \<Rightarrow> kernel option" where
  "vTaskResume C t s =
     do { configASSERT (t \<noteq> 0);
          if t \<noteq> 0 \<and> t \<noteq> pxCurrentTCB s \<and> prvTaskIsTaskSuspended t s
          then do { s1 \<leftarrow> remove_item (xGenericListItem t) s;
                    let s2 = prvAddTaskToReadyList t s1;
                    Some (if cur_prio s2 \<le> uxPriority (tcb s2 t)
                          then taskYIELD_IF_USING_PREEMPTION C s2 else s2) }
          else Some s }"

text \<open>The flag is the function's result, \<open>xYieldRequired\<close>.\<close>

definition xTaskResumeFromISR :: "task \<Rightarrow> kernel \<Rightarrow> (bool \<times> kernel) option" where
  "xTaskResumeFromISR t s =
     do { configASSERT (t \<noteq> 0);
          if prvTaskIsTaskSuspended t s
          then if uxSchedulerSuspended s = 0
               then do { s1 \<leftarrow> remove_item (xGenericListItem t) s;
                         Some (cur_prio s \<le> uxPriority (tcb s t), prvAddTaskToReadyList t s1) }
               else Some (False, insert_end xPendingReadyList (xEventListItem t) s)
          else Some (False, s) }"

definition eTaskGetState :: "task \<Rightarrow> kernel \<Rightarrow> eTaskState" where
  "eTaskGetState t s =
     (if t = pxCurrentTCB s then eRunning
      else let pxStateList = listLIST_ITEM_CONTAINER (klists s) (xGenericListItem t)
           in if pxStateList = Some (pxDelayedTaskList s) \<or>
                 pxStateList = Some (pxOverflowDelayedTaskList s) then eBlocked
              else if pxStateList = Some xSuspendedTaskList
              then if listLIST_ITEM_CONTAINER (klists s) (xEventListItem t) = None
                   then eSuspended else eBlocked
              else if pxStateList = Some xTasksWaitingTermination then eDeleted
              else eReady)"

section \<open>Priorities\<close>

definition uxTaskPriorityGet :: "task \<Rightarrow> kernel \<Rightarrow> u32" where
  "uxTaskPriorityGet h s = uxPriority (tcb s (prvGetTCBFromHandle h s))"

text \<open>\<open>listSET_LIST_ITEM_VALUE\<close> on the event item, unless the item value is in use otherwise.\<close>

definition reset_event_value :: "task \<Rightarrow> u32 \<Rightarrow> kernel \<Rightarrow> kernel" where
  "reset_event_value t v s =
     (if event_value t s AND taskEVENT_LIST_ITEM_VALUE_IN_USE = 0 then set_event_value t v s else s)"

definition vTaskPrioritySet :: "kernel_config \<Rightarrow> task \<Rightarrow> u32 \<Rightarrow> kernel \<Rightarrow> kernel option" where
  "vTaskPrioritySet C xTask uxNewPriority' s =
     do { configASSERT (uxNewPriority' < configMAX_PRIORITIES C);
          let uxNewPriority = (if configMAX_PRIORITIES C \<le> uxNewPriority'
                               then configMAX_PRIORITIES C - 1 else uxNewPriority');
          let t = prvGetTCBFromHandle xTask s;
          let uxCurrentBasePriority = uxBasePriority (tcb s t);
          if uxCurrentBasePriority \<noteq> uxNewPriority
          then do { let xYieldRequired =
                      (if uxCurrentBasePriority < uxNewPriority
                       then t \<noteq> pxCurrentTCB s \<and> cur_prio s \<le> uxNewPriority
                       else t = pxCurrentTCB s);
                    let uxPriorityUsedOnEntry = uxPriority (tcb s t);
                    let r = (if uxBasePriority (tcb s t) = uxPriority (tcb s t)
                             then (tcb s t)\<lparr>uxPriority := uxNewPriority\<rparr> else tcb s t);
                    let s1 = set_tcb t (r\<lparr>uxBasePriority := uxNewPriority\<rparr>) s;
                    let s2 = reset_event_value t (configMAX_PRIORITIES C - uxNewPriority) s1;
                    s3 \<leftarrow> (if listIS_CONTAINED_WITHIN (klists s2)
                                (pxReadyTasksLists (unat uxPriorityUsedOnEntry)) (xGenericListItem t)
                          then do { s' \<leftarrow> remove_item (xGenericListItem t) s2;
                                    Some (prvAddTaskToReadyList t s') }
                          else Some s2);
                    Some (if xYieldRequired then taskYIELD_IF_USING_PREEMPTION C s3 else s3) }
          else Some s }"

definition vTaskPriorityInherit :: "kernel_config \<Rightarrow> task \<Rightarrow> kernel \<Rightarrow> kernel option" where
  "vTaskPriorityInherit C t s =
     (if t \<noteq> 0 \<and> uxPriority (tcb s t) < cur_prio s
      then do { let s1 = reset_event_value t (configMAX_PRIORITIES C - cur_prio s) s;
                let r = (tcb s1 t)\<lparr>uxPriority := cur_prio s1\<rparr>;
                if listIS_CONTAINED_WITHIN (klists s1)
                     (pxReadyTasksLists (unat (uxPriority (tcb s1 t)))) (xGenericListItem t)
                then do { s2 \<leftarrow> remove_item (xGenericListItem t) s1;
                          Some (prvAddTaskToReadyList t (set_tcb t r s2)) }
                else Some (set_tcb t r s1) }
      else Some s)"

definition xTaskPriorityDisinherit :: "kernel_config \<Rightarrow> task \<Rightarrow> kernel \<Rightarrow> (bool \<times> kernel) option" where
  "xTaskPriorityDisinherit C t s =
     (if t \<noteq> 0
      then do { configASSERT (uxMutexesHeld (tcb s t) \<noteq> 0);
                let s1 = set_tcb t ((tcb s t)\<lparr>uxMutexesHeld := uxMutexesHeld (tcb s t) - 1\<rparr>) s;
                if uxPriority (tcb s1 t) \<noteq> uxBasePriority (tcb s1 t) \<and> uxMutexesHeld (tcb s1 t) = 0
                then do { s2 \<leftarrow> remove_item (xGenericListItem t) s1;
                          let s3 = set_tcb t ((tcb s2 t)\<lparr>uxPriority := uxBasePriority (tcb s2 t)\<rparr>) s2;
                          let s4 = set_event_value t
                                     (configMAX_PRIORITIES C - uxPriority (tcb s3 t)) s3;
                          Some (True, prvAddTaskToReadyList t s4) }
                else Some (False, s1) }
      else Some (False, s))"

definition pvTaskIncrementMutexHeldCount :: "kernel \<Rightarrow> task \<times> kernel" where
  "pvTaskIncrementMutexHeldCount s =
     (let t = pxCurrentTCB s
      in (t, if t \<noteq> 0
             then set_tcb t ((tcb s t)\<lparr>uxMutexesHeld := uxMutexesHeld (tcb s t) + 1\<rparr>) s else s))"

section \<open>Event lists\<close>

definition vTaskPlaceOnEventList :: "list_id \<Rightarrow> u32 \<Rightarrow> kernel \<Rightarrow> kernel option" where
  "vTaskPlaceOnEventList pxEventList xTicksToWait s =
     do { k \<leftarrow> vListInsert pxEventList (xEventListItem (pxCurrentTCB s)) (klists s);
          block_current xTicksToWait (set_lists k s) }"

definition vTaskPlaceOnUnorderedEventList ::
    "list_id \<Rightarrow> u32 \<Rightarrow> u32 \<Rightarrow> kernel \<Rightarrow> kernel option" where
  "vTaskPlaceOnUnorderedEventList pxEventList xValue xTicksToWait s =
     do { configASSERT (uxSchedulerSuspended s \<noteq> 0);
          let s1 = set_event_value (pxCurrentTCB s) (xValue OR taskEVENT_LIST_ITEM_VALUE_IN_USE) s;
          block_current xTicksToWait (insert_end pxEventList (xEventListItem (pxCurrentTCB s1)) s1) }"

text \<open>The event lists of queues are in priority order, so the head is the task to unblock.\<close>

definition xTaskRemoveFromEventList :: "list_id \<Rightarrow> kernel \<Rightarrow> (bool \<times> kernel) option" where
  "xTaskRemoveFromEventList pxEventList s =
     do { t \<leftarrow> listGET_OWNER_OF_HEAD_ENTRY (klists s) pxEventList;
          configASSERT (t \<noteq> 0);
          s1 \<leftarrow> remove_item (xEventListItem t) s;
          s2 \<leftarrow> (if uxSchedulerSuspended s1 = 0
                then do { s' \<leftarrow> remove_item (xGenericListItem t) s1; Some (prvAddTaskToReadyList t s') }
                else Some (insert_end xPendingReadyList (xEventListItem t) s1));
          Some (if cur_prio s2 < uxPriority (tcb s2 t)
                then (True, s2\<lparr>xYieldPending := True\<rparr>) else (False, s2)) }"

definition xTaskRemoveFromUnorderedEventList ::
    "item_id \<Rightarrow> u32 \<Rightarrow> kernel \<Rightarrow> (bool \<times> kernel) option" where
  "xTaskRemoveFromUnorderedEventList pxEventListItem xValue s =
     do { configASSERT (uxSchedulerSuspended s \<noteq> 0);
          let s0 = set_lists (listSET_LIST_ITEM_VALUE pxEventListItem
                     (xValue OR taskEVENT_LIST_ITEM_VALUE_IN_USE) (klists s)) s;
          let t = listGET_LIST_ITEM_OWNER (klists s0) pxEventListItem;
          configASSERT (t \<noteq> 0);
          s1 \<leftarrow> remove_item pxEventListItem s0;
          s2 \<leftarrow> remove_item (xGenericListItem t) s1;
          let s3 = prvAddTaskToReadyList t s2;
          Some (if cur_prio s3 < uxPriority (tcb s3 t)
                then (True, s3\<lparr>xYieldPending := True\<rparr>) else (False, s3)) }"

definition vTaskMissedYield :: "kernel \<Rightarrow> kernel" where
  "vTaskMissedYield s = s\<lparr>xYieldPending := True\<rparr>"

definition uxTaskResetEventItemValue :: "kernel_config \<Rightarrow> kernel \<Rightarrow> u32 \<times> kernel" where
  "uxTaskResetEventItemValue C s =
     (event_value (pxCurrentTCB s) s,
      set_event_value (pxCurrentTCB s) (configMAX_PRIORITIES C - cur_prio s) s)"

section \<open>Timeouts\<close>

definition vTaskSetTimeOutState :: "kernel \<Rightarrow> TimeOut_t" where
  "vTaskSetTimeOutState s = \<lparr>xOverflowCount = xNumOfOverflows s, xTimeOnEntering = xTickCount s\<rparr>"

text \<open>The result: has the time run out, and the new \<open>*pxTimeOut\<close> and \<open>*pxTicksToWait\<close>.\<close>

definition xTaskCheckForTimeOut :: "TimeOut_t \<Rightarrow> u32 \<Rightarrow> kernel \<Rightarrow> bool \<times> TimeOut_t \<times> u32" where
  "xTaskCheckForTimeOut pxTimeOut xTicksToWait s =
     (if xTicksToWait = portMAX_DELAY then (False, pxTimeOut, xTicksToWait)
      else if xNumOfOverflows s \<noteq> xOverflowCount pxTimeOut \<and>
              xTimeOnEntering pxTimeOut \<le> xTickCount s then (True, pxTimeOut, xTicksToWait)
      else if xTickCount s - xTimeOnEntering pxTimeOut < xTicksToWait
      then (False, vTaskSetTimeOutState s,
            xTicksToWait - (xTickCount s - xTimeOnEntering pxTimeOut))
      else (True, pxTimeOut, xTicksToWait))"

section \<open>Notifications\<close>

definition set_notify :: "task \<Rightarrow> eNotifyValue \<Rightarrow> u32 \<Rightarrow> kernel \<Rightarrow> kernel" where
  "set_notify t st v s = set_tcb t ((tcb s t)\<lparr>eNotifyState := st, ulNotifiedValue := v\<rparr>) s"

text \<open>
  \<open>ulTaskNotifyTake\<close> and \<open>xTaskNotifyWait\<close> up to the point where the task may block, and from
  the point where it runs again.
\<close>

definition ulTaskNotifyTake_enter :: "u32 \<Rightarrow> kernel \<Rightarrow> kernel option" where
  "ulTaskNotifyTake_enter xTicksToWait s =
     (let t = pxCurrentTCB s
      in if ulNotifiedValue (tcb s t) = 0
         then do { let s1 = set_notify t eWaitingNotification (ulNotifiedValue (tcb s t)) s;
                   if 0 < xTicksToWait
                   then do { s2 \<leftarrow> block_current xTicksToWait s1; Some (portYIELD_WITHIN_API s2) }
                   else Some s1 }
         else Some s)"

definition ulTaskNotifyTake_leave :: "bool \<Rightarrow> kernel \<Rightarrow> u32 \<times> kernel" where
  "ulTaskNotifyTake_leave xClearCountOnExit s =
     (let t = pxCurrentTCB s; ulReturn = ulNotifiedValue (tcb s t)
      in (ulReturn, set_notify t eNotWaitingNotification
                      (if ulReturn \<noteq> 0 then if xClearCountOnExit then 0 else ulReturn - 1
                       else ulReturn) s))"

definition xTaskNotifyWait_enter :: "u32 \<Rightarrow> u32 \<Rightarrow> kernel \<Rightarrow> kernel option" where
  "xTaskNotifyWait_enter ulBitsToClearOnEntry xTicksToWait s =
     (let t = pxCurrentTCB s
      in if eNotifyState (tcb s t) \<noteq> eNotified
         then do { let s1 = set_notify t eWaitingNotification
                              (ulNotifiedValue (tcb s t) AND NOT ulBitsToClearOnEntry) s;
                   if 0 < xTicksToWait
                   then do { s2 \<leftarrow> block_current xTicksToWait s1; Some (portYIELD_WITHIN_API s2) }
                   else Some s1 }
         else Some s)"

text \<open>The result: \<open>xReturn\<close> and \<open>*pulNotificationValue\<close>.\<close>

definition xTaskNotifyWait_leave :: "u32 \<Rightarrow> kernel \<Rightarrow> bool \<times> u32 \<times> kernel" where
  "xTaskNotifyWait_leave ulBitsToClearOnExit s =
     (let t = pxCurrentTCB s; v = ulNotifiedValue (tcb s t)
      in if eNotifyState (tcb s t) = eWaitingNotification
         then (False, v, set_notify t eNotWaitingNotification v s)
         else (True, v, set_notify t eNotWaitingNotification (v AND NOT ulBitsToClearOnExit) s))"

text \<open>The switch over \<open>eAction\<close>: the result and the new notification value.\<close>

primrec notify_value :: "eNotifyAction \<Rightarrow> eNotifyValue \<Rightarrow> u32 \<Rightarrow> u32 \<Rightarrow> bool \<times> u32" where
  "notify_value eNoAction st ulValue v = (True, v)"
| "notify_value eSetBits st ulValue v = (True, v OR ulValue)"
| "notify_value eIncrement st ulValue v = (True, v + 1)"
| "notify_value eSetValueWithOverwrite st ulValue v = (True, ulValue)"
| "notify_value eSetValueWithoutOverwrite st ulValue v =
     (if st \<noteq> eNotified then (True, ulValue) else (False, v))"

definition xTaskNotify :: "task \<Rightarrow> u32 \<Rightarrow> eNotifyAction \<Rightarrow> kernel \<Rightarrow> (bool \<times> kernel) option" where
  "xTaskNotify t ulValue eAction s =
     do { configASSERT (t \<noteq> 0);
          let st = eNotifyState (tcb s t);
          let (ret, v) = notify_value eAction st ulValue (ulNotifiedValue (tcb s t));
          let s1 = set_notify t eNotified v s;
          if st = eWaitingNotification
          then do { s2 \<leftarrow> remove_item (xGenericListItem t) s1;
                    let s3 = prvAddTaskToReadyList t s2;
                    configASSERT (listLIST_ITEM_CONTAINER (klists s3) (xEventListItem t) = None);
                    Some (ret, if cur_prio s3 < uxPriority (tcb s3 t)
                               then portYIELD_WITHIN_API s3 else s3) }
          else Some (ret, s1) }"

text \<open>The second flag is what is written to \<open>*pxHigherPriorityTaskWoken\<close>.\<close>

definition xTaskNotifyFromISR ::
    "task \<Rightarrow> u32 \<Rightarrow> eNotifyAction \<Rightarrow> kernel \<Rightarrow> (bool \<times> bool \<times> kernel) option" where
  "xTaskNotifyFromISR t ulValue eAction s =
     do { configASSERT (t \<noteq> 0);
          let st = eNotifyState (tcb s t);
          let (ret, v) = notify_value eAction st ulValue (ulNotifiedValue (tcb s t));
          let s1 = set_notify t eNotified v s;
          if st = eWaitingNotification
          then do { configASSERT (listLIST_ITEM_CONTAINER (klists s1) (xEventListItem t) = None);
                    s3 \<leftarrow> (if uxSchedulerSuspended s1 = 0
                           then do { s2 \<leftarrow> remove_item (xGenericListItem t) s1;
                                     Some (prvAddTaskToReadyList t s2) }
                           else Some (insert_end xPendingReadyList (xEventListItem t) s1));
                    Some (ret, cur_prio s3 < uxPriority (tcb s3 t), s3) }
          else Some (ret, False, s1) }"

definition vTaskNotifyGiveFromISR :: "task \<Rightarrow> kernel \<Rightarrow> (bool \<times> kernel) option" where
  "vTaskNotifyGiveFromISR t s =
     do { configASSERT (t \<noteq> 0);
          let st = eNotifyState (tcb s t);
          let s1 = set_notify t eNotified (ulNotifiedValue (tcb s t) + 1) s;
          if st = eWaitingNotification
          then do { configASSERT (listLIST_ITEM_CONTAINER (klists s1) (xEventListItem t) = None);
                    s3 \<leftarrow> (if uxSchedulerSuspended s1 = 0
                           then do { s2 \<leftarrow> remove_item (xGenericListItem t) s1;
                                     Some (prvAddTaskToReadyList t s2) }
                           else Some (insert_end xPendingReadyList (xEventListItem t) s1));
                    Some (cur_prio s3 < uxPriority (tcb s3 t), s3) }
          else Some (False, s1) }"

section \<open>Reading the state\<close>

definition xTaskGetTickCount :: "kernel \<Rightarrow> u32" where
  "xTaskGetTickCount s = xTickCount s"

definition uxTaskGetNumberOfTasks :: "kernel \<Rightarrow> u32" where
  "uxTaskGetNumberOfTasks s = uxCurrentNumberOfTasks s"

definition xTaskGetCurrentTaskHandle :: "kernel \<Rightarrow> task" where
  "xTaskGetCurrentTaskHandle s = pxCurrentTCB s"

datatype scheduler_state = taskSCHEDULER_SUSPENDED | taskSCHEDULER_NOT_STARTED | taskSCHEDULER_RUNNING

definition xTaskGetSchedulerState :: "kernel \<Rightarrow> scheduler_state" where
  "xTaskGetSchedulerState s =
     (if \<not> xSchedulerRunning s then taskSCHEDULER_NOT_STARTED
      else if uxSchedulerSuspended s = 0 then taskSCHEDULER_RUNNING
      else taskSCHEDULER_SUSPENDED)"

section \<open>Creating and deleting tasks\<close>

definition prvInitialiseTCBVariables :: "kernel_config \<Rightarrow> task \<Rightarrow> u32 \<Rightarrow> kernel \<Rightarrow> kernel" where
  "prvInitialiseTCBVariables C t uxPriority' s =
     (let p = (if configMAX_PRIORITIES C \<le> uxPriority' then configMAX_PRIORITIES C - 1 else uxPriority');
          k1 = vListInitialiseItem (xEventListItem t) (vListInitialiseItem (xGenericListItem t) (klists s));
          k2 = listSET_LIST_ITEM_OWNER (xGenericListItem t) t k1;
          k3 = listSET_LIST_ITEM_VALUE (xEventListItem t) (configMAX_PRIORITIES C - p) k2;
          k4 = listSET_LIST_ITEM_OWNER (xEventListItem t) t k3
      in set_tcb t \<lparr>uxPriority = p, uxBasePriority = p, uxMutexesHeld = 0, ulNotifiedValue = 0,
                    eNotifyState = eNotWaitingNotification\<rparr> (set_lists k4 s))"

primrec init_ready_lists :: "nat \<Rightarrow> list_store \<Rightarrow> list_store" where
  "init_ready_lists 0 k = k"
| "init_ready_lists (Suc p) k = vListInitialise (pxReadyTasksLists p) (init_ready_lists p k)"

definition prvInitialiseTaskLists :: "kernel_config \<Rightarrow> kernel \<Rightarrow> kernel" where
  "prvInitialiseTaskLists C s =
     (set_lists
        (vListInitialise xSuspendedTaskList
          (vListInitialise xTasksWaitingTermination
            (vListInitialise xPendingReadyList
              (vListInitialise xDelayedTaskList2
                (vListInitialise xDelayedTaskList1
                  (init_ready_lists (unat (configMAX_PRIORITIES C)) (klists s))))))) s)
     \<lparr>pxDelayedTaskList := xDelayedTaskList1, pxOverflowDelayedTaskList := xDelayedTaskList2\<rparr>"

text \<open>
  \<open>xTaskGenericCreate\<close>; \<open>t\<close> is what \<open>prvAllocateTCBAndStack\<close> returned, 0 when the heap had no
  room.  The stack of the new task is not part of the model.
\<close>

definition xTaskGenericCreate ::
    "kernel_config \<Rightarrow> task \<Rightarrow> u32 \<Rightarrow> kernel \<Rightarrow> (bool \<times> kernel) option" where
  "xTaskGenericCreate C t uxPriority' s =
     do { configASSERT (uxPriority' < configMAX_PRIORITIES C);
          if t = 0 then Some (False, s)
          else do { let s1 = prvInitialiseTCBVariables C t uxPriority' s;
                    let s2 = s1\<lparr>uxCurrentNumberOfTasks := uxCurrentNumberOfTasks s1 + 1\<rparr>;
                    let s3 = (if pxCurrentTCB s2 = 0
                              then if uxCurrentNumberOfTasks s2 = 1
                                   then prvInitialiseTaskLists C (s2\<lparr>pxCurrentTCB := t\<rparr>)
                                   else s2\<lparr>pxCurrentTCB := t\<rparr>
                              else if \<not> xSchedulerRunning s2 \<and> cur_prio s2 \<le> uxPriority'
                                   then s2\<lparr>pxCurrentTCB := t\<rparr> else s2);
                    let s4 = prvAddTaskToReadyList t s3;
                    Some (True, if xSchedulerRunning s4 \<and> cur_prio s4 < uxPriority'
                                then taskYIELD_IF_USING_PREEMPTION C s4 else s4) } }"

text \<open>\<open>vTaskStartScheduler\<close>; \<open>t\<close> is the handle of the idle task.\<close>

definition vTaskStartScheduler :: "kernel_config \<Rightarrow> task \<Rightarrow> kernel \<Rightarrow> kernel option" where
  "vTaskStartScheduler C t s =
     do { (xReturn, s1) \<leftarrow> xTaskGenericCreate C t 0 s;
          configASSERT xReturn;
          Some (s1\<lparr>xSchedulerRunning := True, xTickCount := 0\<rparr>) }"

definition vTaskDelete :: "task \<Rightarrow> kernel \<Rightarrow> kernel option" where
  "vTaskDelete xTaskToDelete s =
     do { let t = prvGetTCBFromHandle xTaskToDelete s;
          s1 \<leftarrow> move_out xTasksWaitingTermination t s;
          let s2 = s1\<lparr>uxTasksDeleted := uxTasksDeleted s1 + 1\<rparr>;
          if xSchedulerRunning s2
          then if t = pxCurrentTCB s2
               then do { configASSERT (uxSchedulerSuspended s2 = 0); Some (portYIELD_WITHIN_API s2) }
               else prvResetNextTaskUnblockTime s2
          else Some s2 }"

text \<open>
  The two halves of a round of \<open>prvCheckTasksWaitingTermination\<close>, which the idle task runs while
  \<open>uxTasksDeleted\<close> is not 0: the look at the list with the scheduler suspended, and the critical
  section that takes out the task whose TCB and stack then go to \<open>prvDeleteTCB\<close>.
\<close>

definition termination_look :: "kernel_config \<Rightarrow> kernel \<Rightarrow> (bool \<times> kernel) option" where
  "termination_look C s =
     do { let s1 = vTaskSuspendAll s;
          let xListIsEmpty = listLIST_IS_EMPTY (klists s1) xTasksWaitingTermination;
          (_, s2) \<leftarrow> xTaskResumeAll C s1;
          Some (xListIsEmpty, s2) }"

definition termination_take :: "kernel \<Rightarrow> (task \<times> kernel) option" where
  "termination_take s =
     do { t \<leftarrow> listGET_OWNER_OF_HEAD_ENTRY (klists s) xTasksWaitingTermination;
          s1 \<leftarrow> remove_item (xGenericListItem t) s;
          Some (t, s1\<lparr>uxCurrentNumberOfTasks := uxCurrentNumberOfTasks s1 - 1,
                     uxTasksDeleted := uxTasksDeleted s1 - 1\<rparr>) }"

end
