(* ===== verification/Tasks_Inv.thy ===== *)
theory Tasks_Inv
  imports Tasks
begin

text \<open>
  The invariant of the scheduler and its preservation by the primitive moves of \<open>Tasks\<close>:
  \<open>kbase\<close> says in which lists the two items of a task may be, \<open>ktime\<close> how the delayed lists and the
  tick count fit together.  \<open>mp\<close> is the number of priorities, \<open>E\<close> the set of event lists and
  \<open>T\<close> the set of tasks.
\<close>

section \<open>Items and values\<close>

abbreviation gen_at :: "kernel \<Rightarrow> task \<Rightarrow> list_id option" where
  "gen_at s t \<equiv> container_of (klists s) (xGenericListItem t)"

abbreviation evt_at :: "kernel \<Rightarrow> task \<Rightarrow> list_id option" where
  "evt_at s t \<equiv> container_of (klists s) (xEventListItem t)"

lemma item_simps [simp]:
  "task_of (xGenericListItem t) = t" "task_of (xEventListItem t) = t"
  "xGenericListItem t = xGenericListItem u \<longleftrightarrow> t = u" "xEventListItem t = xEventListItem u \<longleftrightarrow> t = u"
  "xGenericListItem t \<noteq> xEventListItem u" "xEventListItem t \<noteq> xGenericListItem u"
  "even (xGenericListItem t)" "odd (xEventListItem t)"
  by (auto simp: task_of_def xGenericListItem_def xEventListItem_def) presburger+

lemma item_cases:
  obtains (generic) t where "i = xGenericListItem t" | (event) t where "i = xEventListItem t"
proof (cases "even i")
  case True
  then show ?thesis using generic by (auto simp: xGenericListItem_def elim: evenE)
next
  case False
  then show ?thesis using event by (auto simp: xEventListItem_def elim: oddE)
qed

lemma task_of_inj: "task_of i = task_of j \<Longrightarrow> even i = even j \<Longrightarrow> i = j"
  by (rule item_cases [of i]; rule item_cases [of j]) auto

lemmas list_id_defs = xDelayedTaskList1_def xDelayedTaskList2_def xPendingReadyList_def
  xTasksWaitingTermination_def xSuspendedTaskList_def pxReadyTasksLists_def

lemma list_id_neq [simp]:
  "xDelayedTaskList1 \<noteq> xDelayedTaskList2" "xDelayedTaskList2 \<noteq> xDelayedTaskList1"
  "xDelayedTaskList1 \<noteq> xPendingReadyList" "xDelayedTaskList2 \<noteq> xPendingReadyList"
  "xPendingReadyList \<noteq> xDelayedTaskList1" "xPendingReadyList \<noteq> xDelayedTaskList2"
  "xDelayedTaskList1 \<noteq> xTasksWaitingTermination" "xDelayedTaskList2 \<noteq> xTasksWaitingTermination"
  "xTasksWaitingTermination \<noteq> xDelayedTaskList1" "xTasksWaitingTermination \<noteq> xDelayedTaskList2"
  "xDelayedTaskList1 \<noteq> xSuspendedTaskList" "xDelayedTaskList2 \<noteq> xSuspendedTaskList"
  "xSuspendedTaskList \<noteq> xDelayedTaskList1" "xSuspendedTaskList \<noteq> xDelayedTaskList2"
  "xPendingReadyList \<noteq> xTasksWaitingTermination" "xPendingReadyList \<noteq> xSuspendedTaskList"
  "xTasksWaitingTermination \<noteq> xPendingReadyList" "xSuspendedTaskList \<noteq> xPendingReadyList"
  "xTasksWaitingTermination \<noteq> xSuspendedTaskList" "xSuspendedTaskList \<noteq> xTasksWaitingTermination"
  "pxReadyTasksLists p \<noteq> xDelayedTaskList1" "pxReadyTasksLists p \<noteq> xDelayedTaskList2"
  "pxReadyTasksLists p \<noteq> xPendingReadyList" "pxReadyTasksLists p \<noteq> xTasksWaitingTermination"
  "pxReadyTasksLists p \<noteq> xSuspendedTaskList"
  "xDelayedTaskList1 \<noteq> pxReadyTasksLists p" "xDelayedTaskList2 \<noteq> pxReadyTasksLists p"
  "xPendingReadyList \<noteq> pxReadyTasksLists p" "xTasksWaitingTermination \<noteq> pxReadyTasksLists p"
  "xSuspendedTaskList \<noteq> pxReadyTasksLists p"
  "pxReadyTasksLists p = pxReadyTasksLists q \<longleftrightarrow> p = q"
  "even xDelayedTaskList1" "even xDelayedTaskList2" "even xPendingReadyList"
  "even xTasksWaitingTermination" "even xSuspendedTaskList" "even (pxReadyTasksLists p)"
  by (simp_all add: list_id_defs)

text \<open>A change of item values or owners does not touch the links.\<close>

lemma same_links:
  assumes "get_next st' = get_next st" "get_prev st' = get_prev st" "list_rec st' = list_rec st"
    and "\<And>i. container_of st' i = container_of st i"
  shows "items_of st' = items_of st" "lists_ok L st' = lists_ok L st"
proof -
  have "walk st' k p = walk st k p" for k p
    by (induction k arbitrary: p) (auto simp: assms(1) split: lptr.splits)
  then show items: "items_of st' = items_of st" by (simp add: items_of_def assms fun_eq_iff)
  have "list_at st' l xs = list_at st l xs" for l xs by (simp add: list_at_def assms)
  then show "lists_ok L st' = lists_ok L st" by (simp add: lists_ok_def items assms(4))
qed

lemma SET_VALUE_frame [simp]:
  "items_of (listSET_LIST_ITEM_VALUE i v st) = items_of st"
  "lists_ok L (listSET_LIST_ITEM_VALUE i v st) = lists_ok L st"
  "list_rec (listSET_LIST_ITEM_VALUE i v st) = list_rec st"
  "container_of (listSET_LIST_ITEM_VALUE i v st) j = container_of st j"
  "pvOwner (item_rec (listSET_LIST_ITEM_VALUE i v st) j) = pvOwner (item_rec st j)"
  "ivalue (listSET_LIST_ITEM_VALUE i v st) j = (if j = i then v else ivalue st j)"
proof -
  let ?st = "listSET_LIST_ITEM_VALUE i v st"
  have "get_next ?st p = get_next st p" for p
    by (cases p) (simp_all add: listSET_LIST_ITEM_VALUE_def get_next.simps)
  then have f1: "get_next ?st = get_next st" by (rule ext)
  have "get_prev ?st p = get_prev st p" for p
    by (cases p) (simp_all add: listSET_LIST_ITEM_VALUE_def get_prev.simps)
  then have f2: "get_prev ?st = get_prev st" by (rule ext)
  show r: "list_rec ?st = list_rec st"
    and c: "container_of ?st j = container_of st j" for j
    by (simp_all add: listSET_LIST_ITEM_VALUE_def)
  show "items_of ?st = items_of st" "lists_ok L ?st = lists_ok L st"
    by (rule same_links [OF f1 f2 r c])+
  show "pvOwner (item_rec ?st j) = pvOwner (item_rec st j)"
    "ivalue ?st j = (if j = i then v else ivalue st j)"
    by (simp_all add: listSET_LIST_ITEM_VALUE_def)
qed

section \<open>Where the items of a task may be\<close>

definition kernel_lists :: "nat \<Rightarrow> list_id set" where
  "kernel_lists mp = {xDelayedTaskList1, xDelayedTaskList2, xPendingReadyList,
     xTasksWaitingTermination, xSuspendedTaskList} \<union> pxReadyTasksLists ` {..<mp}"

definition place_ok :: "nat \<Rightarrow> list_id set \<Rightarrow> task set \<Rightarrow> kernel \<Rightarrow> item_id \<Rightarrow> list_id \<Rightarrow> bool" where
  "place_ok mp E T s i l \<longleftrightarrow> task_of i \<in> T \<and>
     (if even i
      then l \<in> {xDelayedTaskList1, xDelayedTaskList2, xTasksWaitingTermination, xSuspendedTaskList} \<or>
           (\<exists>p. l = pxReadyTasksLists p \<and> unat (uxPriority (tcb s (task_of i))) = p \<and>
                p \<le> unat (uxTopReadyPriority s))
      else l = xPendingReadyList \<or> l \<in> E)"

definition kbase :: "nat \<Rightarrow> list_id set \<Rightarrow> task set \<Rightarrow> kernel \<Rightarrow> bool" where
  "kbase mp E T s \<longleftrightarrow>
     lists_ok (kernel_lists mp \<union> E) (klists s) \<and> (\<forall>l\<in>E. odd l) \<and>
     finite T \<and> card T < 2 ^ 32 \<and> 0 \<notin> T \<and>
     (\<forall>t\<in>T. pvOwner (item_rec (klists s) (xGenericListItem t)) = t \<and>
            pvOwner (item_rec (klists s) (xEventListItem t)) = t \<and>
            unat (uxPriority (tcb s t)) < mp \<and> unat (uxBasePriority (tcb s t)) < mp) \<and>
     unat (uxTopReadyPriority s) < mp \<and>
     {pxDelayedTaskList s, pxOverflowDelayedTaskList s} = {xDelayedTaskList1, xDelayedTaskList2} \<and>
     (\<forall>i l. container_of (klists s) i = Some l \<longrightarrow> place_ok mp E T s i l)"

lemma kbaseD:
  assumes "kbase mp E T s"
  shows "lists_ok (kernel_lists mp \<union> E) (klists s)" "\<And>l. l \<in> E \<Longrightarrow> odd l"
    "finite T" "card T < 2 ^ 32" "0 \<notin> T"
    "\<And>t. t \<in> T \<Longrightarrow> pvOwner (item_rec (klists s) (xGenericListItem t)) = t"
    "\<And>t. t \<in> T \<Longrightarrow> pvOwner (item_rec (klists s) (xEventListItem t)) = t"
    "\<And>t. t \<in> T \<Longrightarrow> unat (uxPriority (tcb s t)) < mp"
    "\<And>t. t \<in> T \<Longrightarrow> unat (uxBasePriority (tcb s t)) < mp"
    "unat (uxTopReadyPriority s) < mp"
    "{pxDelayedTaskList s, pxOverflowDelayedTaskList s} = {xDelayedTaskList1, xDelayedTaskList2}"
    "\<And>i l. container_of (klists s) i = Some l \<Longrightarrow> place_ok mp E T s i l"
  using assms unfolding kbase_def by blast+

lemma delayed_lists:
  assumes "kbase mp E T s"
  shows "pxDelayedTaskList s \<noteq> pxOverflowDelayedTaskList s"
    "pxDelayedTaskList s \<in> {xDelayedTaskList1, xDelayedTaskList2}"
    "pxOverflowDelayedTaskList s \<in> {xDelayedTaskList1, xDelayedTaskList2}"
    "pxDelayedTaskList s \<in> kernel_lists mp \<union> E" "pxOverflowDelayedTaskList s \<in> kernel_lists mp \<union> E"
  using kbaseD(11) [OF assms] by (auto simp: doubleton_eq_iff kernel_lists_def)

lemma kernel_lists_in [simp]:
  "xDelayedTaskList1 \<in> kernel_lists mp" "xDelayedTaskList2 \<in> kernel_lists mp"
  "xPendingReadyList \<in> kernel_lists mp" "xTasksWaitingTermination \<in> kernel_lists mp"
  "xSuspendedTaskList \<in> kernel_lists mp" "pxReadyTasksLists p \<in> kernel_lists mp \<longleftrightarrow> p < mp"
  by (auto simp: kernel_lists_def)

lemma kernel_lists_even: "l \<in> kernel_lists mp \<Longrightarrow> even l"
  by (auto simp: kernel_lists_def)

lemma place_list:
  assumes "kbase mp E T s" "place_ok mp E T s i l"
  shows "l \<in> kernel_lists mp \<union> E"
  using assms kbaseD(10) [OF assms(1)]
  by (auto simp: place_ok_def kernel_lists_def split: if_splits)

lemma contents_home:
  assumes "kbase mp E T s" "l \<in> kernel_lists mp \<union> E"
  shows "i \<in> set (items_of (klists s) l) \<longleftrightarrow> container_of (klists s) i = Some l"
  using lists_ok_container [OF kbaseD(1) [OF assms(1)] assms(2)] by simp

text \<open>All items of one list are of one kind, so it is never longer than the number of tasks.\<close>

lemma push_room:
  assumes kb: "kbase mp E T s" and p: "place_ok mp E T s i l" and i: "container_of (klists s) i = None"
  shows "length (items_of (klists s) l) < 2 ^ 32 - 1"
proof -
  have l: "l \<in> kernel_lists mp \<union> E" using place_list [OF kb p] .
  let ?S = "insert i (set (items_of (klists s) l))"
  have place: "place_ok mp E T s j l" if "j \<in> ?S" for j
    using that p kbaseD(12) [OF kb] contents_home [OF kb l] by auto
  have parity: "even j \<longleftrightarrow> even l \<and> l \<noteq> xPendingReadyList" if "j \<in> ?S" for j
    using place [OF that] kbaseD(2) [OF kb] by (auto simp: place_ok_def split: if_splits)
  have inj: "inj_on task_of ?S" using parity by (intro inj_onI) (blast intro: task_of_inj)
  have sub: "task_of ` ?S \<subseteq> T" using place by (auto simp: place_ok_def)
  have "card ?S = card (task_of ` ?S)" using inj by (rule card_image [symmetric])
  also have "\<dots> \<le> card T" by (rule card_mono [OF kbaseD(3) [OF kb] sub])
  finally have "card ?S \<le> card T" .
  moreover have "card ?S = Suc (length (items_of (klists s) l))"
    using contents_home [OF kb l, of i] i lists_ok_distinct [OF kbaseD(1) [OF kb] l]
    by (simp add: distinct_card)
  ultimately show ?thesis using kbaseD(4) [OF kb] by simp
qed

section \<open>The primitive moves\<close>

lemma set_lists_sel [simp]:
  "klists (set_lists k s) = k" "tcb (set_lists k s) = tcb s" "pxCurrentTCB (set_lists k s) = pxCurrentTCB s"
  "pxDelayedTaskList (set_lists k s) = pxDelayedTaskList s"
  "pxOverflowDelayedTaskList (set_lists k s) = pxOverflowDelayedTaskList s"
  "uxTasksDeleted (set_lists k s) = uxTasksDeleted s"
  "uxCurrentNumberOfTasks (set_lists k s) = uxCurrentNumberOfTasks s"
  "xTickCount (set_lists k s) = xTickCount s" "uxTopReadyPriority (set_lists k s) = uxTopReadyPriority s"
  "xSchedulerRunning (set_lists k s) = xSchedulerRunning s" "uxPendedTicks (set_lists k s) = uxPendedTicks s"
  "xYieldPending (set_lists k s) = xYieldPending s" "xNumOfOverflows (set_lists k s) = xNumOfOverflows s"
  "xNextTaskUnblockTime (set_lists k s) = xNextTaskUnblockTime s"
  "uxSchedulerSuspended (set_lists k s) = uxSchedulerSuspended s" "pend_sv (set_lists k s) = pend_sv s"
  "set_lists k (set_lists k' s) = set_lists k s"
  by (simp_all add: set_lists_def)

lemma place_ok_cong:
  "tcb s' = tcb s \<Longrightarrow> uxTopReadyPriority s' = uxTopReadyPriority s \<Longrightarrow>
     place_ok mp E T s' i l = place_ok mp E T s i l"
  by (simp add: place_ok_def)

lemma kbase_cong:
  assumes "klists s' = klists s" "tcb s' = tcb s" "uxTopReadyPriority s' = uxTopReadyPriority s"
    "pxDelayedTaskList s' = pxDelayedTaskList s" "pxOverflowDelayedTaskList s' = pxOverflowDelayedTaskList s"
  shows "kbase mp E T s' = kbase mp E T s"
  using assms place_ok_cong [OF assms(2,3)] by (simp add: kbase_def)

lemma kbase_lists:
  assumes "kbase mp E T s" "lists_ok (kernel_lists mp \<union> E) k"
    "\<And>j. pvOwner (item_rec k j) = pvOwner (item_rec (klists s) j)"
    "\<And>j l. container_of k j = Some l \<Longrightarrow> place_ok mp E T s j l"
  shows "kbase mp E T (set_lists k s)"
proof -
  have p: "place_ok mp E T (set_lists k s) = place_ok mp E T s"
    by (intro ext place_ok_cong) simp_all
  note D = kbaseD [OF assms(1)]
  have own: "\<forall>t\<in>T. pvOwner (item_rec k (xGenericListItem t)) = t \<and>
      pvOwner (item_rec k (xEventListItem t)) = t \<and>
      unat (uxPriority (tcb s t)) < mp \<and> unat (uxBasePriority (tcb s t)) < mp"
    using D(6-9) by (simp add: assms(3))
  have odds: "\<forall>l\<in>E. odd l" using D(2) by blast
  have places: "\<forall>i l. container_of k i = Some l \<longrightarrow> place_ok mp E T s i l" using assms(4) by blast
  show ?thesis
    unfolding kbase_def p set_lists_sel
    by (intro conjI assms(2) odds D(3-5) own D(10,11) places)
qed

lemma kb_remove:
  assumes kb: "kbase mp E T s" and i: "container_of (klists s) i = Some l"
  obtains k where "remove_item i s = Some (set_lists k s)" "kbase mp E T (set_lists k s)"
    "\<And>j. container_of k j = (if j = i then None else container_of (klists s) j)"
    "\<And>j. ivalue k j = ivalue (klists s) j"
    "\<And>l'. l' \<in> kernel_lists mp \<union> E \<Longrightarrow>
       items_of k l' = (if l' = l then remove1 i (items_of (klists s) l) else items_of (klists s) l')"
proof -
  show thesis
  proof (rule uxListRemove_items [OF kbaseD(1) [OF kb] i], goal_cases)
    case (1 n k)
    have "kbase mp E T (set_lists k s)"
      by (rule kbase_lists [OF kb 1(2,6)]) (simp add: 1(7) kbaseD(12) [OF kb] split: if_splits)
    moreover have "remove_item i s = Some (set_lists k s)"
      by (simp add: remove_item_def unlink_item_def 1(1))
    ultimately show thesis by (intro that [OF _ _ 1(7,5,4)])
  qed
qed

lemma kb_insert_end:
  assumes kb: "kbase mp E T s" and i: "container_of (klists s) i = None" and p: "place_ok mp E T s i l"
  shows "kbase mp E T (insert_end l i s)"
    "container_of (klists (insert_end l i s)) j = (if j = i then Some l else container_of (klists s) j)"
    "ivalue (klists (insert_end l i s)) j = ivalue (klists s) j"
    "\<And>l'. l' \<in> kernel_lists mp \<union> E \<Longrightarrow> mset (items_of (klists (insert_end l i s)) l')
       = mset (items_of (klists s) l') + (if l' = l then {#i#} else {#})"
    "\<And>l'. l' \<in> kernel_lists mp \<union> E \<Longrightarrow> l' \<noteq> l \<Longrightarrow>
       items_of (klists (insert_end l i s)) l' = items_of (klists s) l'"
proof -
  have l: "l \<in> kernel_lists mp \<union> E" by (rule place_list [OF kb p])
  note room = push_room [OF kb p i]
  note ins = vListInsertEnd_set [OF kbaseD(1) [OF kb] l i room]
  show "container_of (klists (insert_end l i s)) j = (if j = i then Some l else container_of (klists s) j)"
    "ivalue (klists (insert_end l i s)) j = ivalue (klists s) j"
    by (simp_all add: insert_end_def)
  show "kbase mp E T (insert_end l i s)"
    unfolding insert_end_def
    using p by (intro kbase_lists [OF kb ins(1)]) (auto simp: kbaseD(12) [OF kb] split: if_splits)
  show "mset (items_of (klists (insert_end l i s)) l')
       = mset (items_of (klists s) l') + (if l' = l then {#i#} else {#})"
    if "l' \<in> kernel_lists mp \<union> E" for l'
    using ins(2) [OF that] by (simp add: insert_end_def)
  obtain as bs where s: "items_of (klists s) l = as @ bs"
    "pxIndex (list_rec (klists s) l) = hd (map ItemP bs @ [EndP l])"
    using list_at_index_split [OF lists_ok_at [OF kbaseD(1) [OF kb] l]] by metis
  show "items_of (klists (insert_end l i s)) l' = items_of (klists s) l'"
    if "l' \<in> kernel_lists mp \<union> E" "l' \<noteq> l" for l'
    using vListInsertEnd_splice(2) [OF kbaseD(1) [OF kb] l s i _ that(1)] room s(1) that(2)
    by (simp add: insert_end_def)
qed

lemma insert_end_sel [simp]:
  "tcb (insert_end l i s) = tcb s" "pxCurrentTCB (insert_end l i s) = pxCurrentTCB s"
  "pxDelayedTaskList (insert_end l i s) = pxDelayedTaskList s"
  "pxOverflowDelayedTaskList (insert_end l i s) = pxOverflowDelayedTaskList s"
  "uxTasksDeleted (insert_end l i s) = uxTasksDeleted s"
  "uxCurrentNumberOfTasks (insert_end l i s) = uxCurrentNumberOfTasks s"
  "xTickCount (insert_end l i s) = xTickCount s" "uxTopReadyPriority (insert_end l i s) = uxTopReadyPriority s"
  "xSchedulerRunning (insert_end l i s) = xSchedulerRunning s" "uxPendedTicks (insert_end l i s) = uxPendedTicks s"
  "xYieldPending (insert_end l i s) = xYieldPending s" "xNumOfOverflows (insert_end l i s) = xNumOfOverflows s"
  "xNextTaskUnblockTime (insert_end l i s) = xNextTaskUnblockTime s"
  "uxSchedulerSuspended (insert_end l i s) = uxSchedulerSuspended s" "pend_sv (insert_end l i s) = pend_sv s"
  by (simp_all add: insert_end_def)

lemma kb_insert:
  assumes kb: "kbase mp E T s" and i: "container_of (klists s) i = None" and p: "place_ok mp E T s i l"
  obtains k where "vListInsert l i (klists s) = Some k" "kbase mp E T (set_lists k s)"
    "\<And>j. container_of k j = (if j = i then Some l else container_of (klists s) j)"
    "\<And>j. ivalue k j = ivalue (klists s) j"
    "\<And>l'. l' \<in> kernel_lists mp \<union> E \<Longrightarrow> items_of k l'
       = (if l' = l then sorted_insert (klists s) i (items_of (klists s) l) else items_of (klists s) l')"
proof -
  have l: "l \<in> kernel_lists mp \<union> E" by (rule place_list [OF kb p])
  show thesis
  proof (rule vListInsert_items [OF kbaseD(1) [OF kb] l i push_room [OF kb p i]], goal_cases)
    case (1 k)
    have "kbase mp E T (set_lists k s)"
      using p by (intro kbase_lists [OF kb 1(2,5)]) (auto simp: 1(6) kbaseD(12) [OF kb] split: if_splits)
    then show thesis by (rule that [OF 1(1) _ 1(6,4,3)])
  qed
qed

text \<open>A task whose state item is out of all lists goes to the end of its ready list.\<close>

lemma kb_add_ready:
  assumes kb: "kbase mp E T s" and t: "t \<in> T" "gen_at s t = None"
  defines "s' \<equiv> prvAddTaskToReadyList t s"
  shows "kbase mp E T s'" "tcb s' = tcb s"
    "container_of (klists s') j = (if j = xGenericListItem t
       then Some (pxReadyTasksLists (unat (uxPriority (tcb s t)))) else container_of (klists s) j)"
    "ivalue (klists s') j = ivalue (klists s) j"
    "uxTopReadyPriority s' = max (uxTopReadyPriority s) (uxPriority (tcb s t))"
    "\<And>l'. l' \<in> kernel_lists mp \<union> E \<Longrightarrow> l' \<noteq> pxReadyTasksLists (unat (uxPriority (tcb s t))) \<Longrightarrow>
       items_of (klists s') l' = items_of (klists s) l'"
proof -
  let ?p = "uxPriority (tcb s t)"
  let ?s1 = "taskRECORD_READY_PRIORITY ?p s"
  have top: "uxTopReadyPriority ?s1 = max (uxTopReadyPriority s) ?p" and same: "klists ?s1 = klists s"
    "tcb ?s1 = tcb s" "pxDelayedTaskList ?s1 = pxDelayedTaskList s"
    "pxOverflowDelayedTaskList ?s1 = pxOverflowDelayedTaskList s"
    by (auto simp: taskRECORD_READY_PRIORITY_def max_def)
  have le: "uxTopReadyPriority s \<le> uxTopReadyPriority ?s1" "?p \<le> uxTopReadyPriority ?s1" by (simp_all add: top)
  have pl: "place_ok mp E T ?s1 i l" if "place_ok mp E T s i l" for i l
    using that le(1) same(2) unfolding place_ok_def word_le_nat_alt by (auto split: if_splits intro: order_trans)
  have "unat (uxTopReadyPriority ?s1) < mp"
    using kbaseD(8) [OF kb t(1)] kbaseD(10) [OF kb] by (simp add: top max_def)
  then have kb1: "kbase mp E T ?s1"
    using kb pl unfolding kbase_def same by blast
  have here: "place_ok mp E T ?s1 (xGenericListItem t) (pxReadyTasksLists (unat ?p))"
    using t(1) le(2) same(2) by (auto simp: place_ok_def word_le_nat_alt)
  have out: "container_of (klists ?s1) (xGenericListItem t) = None" using t(2) same(1) by simp
  note ins = kb_insert_end [OF kb1 out here]
  have s': "s' = insert_end (pxReadyTasksLists (unat ?p)) (xGenericListItem t) ?s1"
    by (simp add: s'_def prvAddTaskToReadyList_def Let_def)
  show "kbase mp E T s'" "tcb s' = tcb s"
    "container_of (klists s') j = (if j = xGenericListItem t
       then Some (pxReadyTasksLists (unat (uxPriority (tcb s t)))) else container_of (klists s) j)"
    "ivalue (klists s') j = ivalue (klists s) j"
    "uxTopReadyPriority s' = max (uxTopReadyPriority s) (uxPriority (tcb s t))"
    using ins(1-3) same top unfolding s' by simp_all
  show "items_of (klists s') l' = items_of (klists s) l'"
    if "l' \<in> kernel_lists mp \<union> E" "l' \<noteq> pxReadyTasksLists (unat (uxPriority (tcb s t)))" for l'
    using ins(5) [OF that] same unfolding s' by simp
qed

lemma add_ready_sel [simp]:
  "tcb (prvAddTaskToReadyList t s) = tcb s" "pxCurrentTCB (prvAddTaskToReadyList t s) = pxCurrentTCB s"
  "pxDelayedTaskList (prvAddTaskToReadyList t s) = pxDelayedTaskList s"
  "pxOverflowDelayedTaskList (prvAddTaskToReadyList t s) = pxOverflowDelayedTaskList s"
  "uxTasksDeleted (prvAddTaskToReadyList t s) = uxTasksDeleted s"
  "uxCurrentNumberOfTasks (prvAddTaskToReadyList t s) = uxCurrentNumberOfTasks s"
  "xTickCount (prvAddTaskToReadyList t s) = xTickCount s"
  "xSchedulerRunning (prvAddTaskToReadyList t s) = xSchedulerRunning s"
  "uxPendedTicks (prvAddTaskToReadyList t s) = uxPendedTicks s"
  "xYieldPending (prvAddTaskToReadyList t s) = xYieldPending s"
  "xNumOfOverflows (prvAddTaskToReadyList t s) = xNumOfOverflows s"
  "xNextTaskUnblockTime (prvAddTaskToReadyList t s) = xNextTaskUnblockTime s"
  "uxSchedulerSuspended (prvAddTaskToReadyList t s) = uxSchedulerSuspended s"
  "pend_sv (prvAddTaskToReadyList t s) = pend_sv s"
  by (simp_all add: prvAddTaskToReadyList_def taskRECORD_READY_PRIORITY_def Let_def)

section \<open>The delayed lists and the tick\<close>

definition ktime :: "kernel \<Rightarrow> bool" where
  "ktime s \<longleftrightarrow>
     sorted (map (ivalue (klists s)) (items_of (klists s) (pxDelayedTaskList s))) \<and>
     sorted (map (ivalue (klists s)) (items_of (klists s) (pxOverflowDelayedTaskList s))) \<and>
     (\<forall>t. gen_at s t = Some (pxDelayedTaskList s) \<longrightarrow>
          xTickCount s < wake_value t s \<and> xNextTaskUnblockTime s \<le> wake_value t s) \<and>
     (\<forall>t. gen_at s t = Some (pxOverflowDelayedTaskList s) \<longrightarrow> wake_value t s < xTickCount s)"

definition kmid :: "nat \<Rightarrow> list_id set \<Rightarrow> task set \<Rightarrow> kernel \<Rightarrow> bool" where
  "kmid mp E T s \<longleftrightarrow> kbase mp E T s \<and> ktime s"

lemma kmid_base: "kmid mp E T s \<Longrightarrow> kbase mp E T s"
  by (simp add: kmid_def)

text \<open>A move changes the lists, and with them the two bounds kept on their contents.\<close>

definition moved :: "kernel \<Rightarrow> kernel \<Rightarrow> bool" where
  "moved s s' \<longleftrightarrow>
     tcb s' = tcb s \<and>
     pxCurrentTCB s' = pxCurrentTCB s \<and>
     pxDelayedTaskList s' = pxDelayedTaskList s \<and>
     pxOverflowDelayedTaskList s' = pxOverflowDelayedTaskList s \<and>
     uxTasksDeleted s' = uxTasksDeleted s \<and>
     uxCurrentNumberOfTasks s' = uxCurrentNumberOfTasks s \<and>
     xTickCount s' = xTickCount s \<and>
     xSchedulerRunning s' = xSchedulerRunning s \<and>
     uxPendedTicks s' = uxPendedTicks s \<and>
     xYieldPending s' = xYieldPending s \<and>
     xNumOfOverflows s' = xNumOfOverflows s \<and>
     uxSchedulerSuspended s' = uxSchedulerSuspended s \<and>
     pend_sv s' = pend_sv s"

lemma moved_sel:
  assumes "moved s s'"
  shows "tcb s' = tcb s" "pxCurrentTCB s' = pxCurrentTCB s" "pxDelayedTaskList s' = pxDelayedTaskList s"
    "pxOverflowDelayedTaskList s' = pxOverflowDelayedTaskList s" "uxTasksDeleted s' = uxTasksDeleted s"
    "uxCurrentNumberOfTasks s' = uxCurrentNumberOfTasks s" "xTickCount s' = xTickCount s"
    "xSchedulerRunning s' = xSchedulerRunning s" "uxPendedTicks s' = uxPendedTicks s"
    "xYieldPending s' = xYieldPending s" "xNumOfOverflows s' = xNumOfOverflows s"
    "uxSchedulerSuspended s' = uxSchedulerSuspended s" "pend_sv s' = pend_sv s"
  using assms by (simp_all add: moved_def)

lemma moved_refl [simp]: "moved s s"
  by (simp add: moved_def)

lemma moved_trans: "moved s s' \<Longrightarrow> moved s' s'' \<Longrightarrow> moved s s''"
  by (simp add: moved_def)

lemma moved_set_lists [simp]: "moved s (set_lists k s)"
  by (simp add: moved_def)

lemma moved_insert_end [simp]: "moved s (insert_end l i s)"
  by (simp add: moved_def)

lemma moved_add_ready [simp]: "moved s (prvAddTaskToReadyList t s)"
  by (simp add: moved_def)

lemma ktime_frame:
  assumes "ktime s" "pxDelayedTaskList s' = pxDelayedTaskList s"
    "pxOverflowDelayedTaskList s' = pxOverflowDelayedTaskList s" "xTickCount s' = xTickCount s"
    "xNextTaskUnblockTime s' = xNextTaskUnblockTime s"
    and val: "\<And>t. wake_value t s' = wake_value t s"
    and at: "\<And>t d. d \<in> {pxDelayedTaskList s, pxOverflowDelayedTaskList s} \<Longrightarrow>
               gen_at s' t = Some d \<Longrightarrow> gen_at s t = Some d"
    and srt: "\<And>d. d \<in> {pxDelayedTaskList s, pxOverflowDelayedTaskList s} \<Longrightarrow>
               sorted (map (ivalue (klists s)) (items_of (klists s) d)) \<Longrightarrow>
               sorted (map (ivalue (klists s')) (items_of (klists s') d))"
  shows "ktime s'"
proof -
  note k = assms(1) [unfolded ktime_def]
  show ?thesis
    unfolding ktime_def assms(2-5) val
  proof (intro conjI allI impI)
    show "sorted (map (ivalue (klists s')) (items_of (klists s') (pxDelayedTaskList s)))"
      "sorted (map (ivalue (klists s')) (items_of (klists s') (pxOverflowDelayedTaskList s)))"
      using k by (intro srt; simp)+
    fix t
    show "xTickCount s < wake_value t s" "xNextTaskUnblockTime s \<le> wake_value t s"
      if "gen_at s' t = Some (pxDelayedTaskList s)"
      using k at [OF _ that] by simp_all
    show "wake_value t s < xTickCount s" if "gen_at s' t = Some (pxOverflowDelayedTaskList s)"
      using k at [OF _ that] by simp
  qed
qed

lemma km_remove:
  assumes km: "kmid mp E T s" and i: "container_of (klists s) i = Some l"
  obtains s' where "remove_item i s = Some s'" "kmid mp E T s'" "moved s s'"
    "\<And>j. container_of (klists s') j = (if j = i then None else container_of (klists s) j)"
    "\<And>j. ivalue (klists s') j = ivalue (klists s) j"
    "\<And>l'. l' \<in> kernel_lists mp \<union> E \<Longrightarrow> items_of (klists s') l'
       = (if l' = l then remove1 i (items_of (klists s) l) else items_of (klists s) l')"
proof (rule kb_remove [OF kmid_base [OF km] i])
  note kb = kmid_base [OF km]
  fix k
  assume k: "remove_item i s = Some (set_lists k s)" "kbase mp E T (set_lists k s)"
    and c: "\<And>j. container_of k j = (if j = i then None else container_of (klists s) j)"
    and v: "\<And>j. ivalue k j = ivalue (klists s) j"
    and it: "\<And>l'. l' \<in> kernel_lists mp \<union> E \<Longrightarrow>
       items_of k l' = (if l' = l then remove1 i (items_of (klists s) l) else items_of (klists s) l')"
  have srt: "sorted (map (ivalue k) (items_of k d))"
    if "d \<in> {pxDelayedTaskList s, pxOverflowDelayedTaskList s}"
      "sorted (map (ivalue (klists s)) (items_of (klists s) d))" for d
  proof -
    have "d \<in> kernel_lists mp \<union> E" using that(1) delayed_lists [OF kb] by auto
    moreover have "ivalue k = ivalue (klists s)" using v by (rule ext)
    ultimately show ?thesis using it [of d] that(2) by (cases "d = l") (simp_all add: sorted_map_remove1)
  qed
  have "ktime (set_lists k s)"
  proof (rule ktime_frame [of s])
    show "ktime s" using km by (simp add: kmid_def)
    show "gen_at s t = Some d" if "gen_at (set_lists k s) t = Some d" for t d
      using that by (simp add: c split: if_splits)
    show "sorted (map (ivalue (klists (set_lists k s))) (items_of (klists (set_lists k s)) d))"
      if "d \<in> {pxDelayedTaskList s, pxOverflowDelayedTaskList s}"
        "sorted (map (ivalue (klists s)) (items_of (klists s) d))" for d
      using srt [OF that] by simp
  qed (simp_all add: wake_value_def v)
  then have "kmid mp E T (set_lists k s)" using k(2) by (simp add: kmid_def)
  then show thesis by (intro that [of "set_lists k s"]) (simp_all add: k(1) c v it)
qed

lemma km_insert_end:
  assumes km: "kmid mp E T s" and i: "container_of (klists s) i = None" and p: "place_ok mp E T s i l"
    and nd: "l \<notin> {xDelayedTaskList1, xDelayedTaskList2}"
  shows "kmid mp E T (insert_end l i s)"
proof -
  note kb = kmid_base [OF km] and ins = kb_insert_end [OF kmid_base [OF km] i p]
  note dl = delayed_lists [OF kb]
  have "ktime (insert_end l i s)"
  proof (rule ktime_frame [of s])
    show "ktime s" using km by (simp add: kmid_def)
    show "gen_at s t = Some d"
      if "d \<in> {pxDelayedTaskList s, pxOverflowDelayedTaskList s}" "gen_at (insert_end l i s) t = Some d" for t d
      using that nd dl by (auto simp: ins(2) split: if_splits)
    show "sorted (map (ivalue (klists (insert_end l i s))) (items_of (klists (insert_end l i s)) d))"
      if "d \<in> {pxDelayedTaskList s, pxOverflowDelayedTaskList s}"
        "sorted (map (ivalue (klists s)) (items_of (klists s) d))" for d
    proof -
      have "d \<noteq> l" "d \<in> kernel_lists mp \<union> E" using that(1) nd dl by auto
      moreover have "ivalue (klists (insert_end l i s)) = ivalue (klists s)" using ins(3) by (rule ext)
      ultimately show ?thesis using ins(5) [of d] that(2) by simp
    qed
  qed (simp_all add: wake_value_def ins(3))
  then show ?thesis using ins(1) by (simp add: kmid_def)
qed

lemma km_add_ready:
  assumes km: "kmid mp E T s" and t: "t \<in> T" "gen_at s t = None"
  shows "kmid mp E T (prvAddTaskToReadyList t s)"
proof -
  note kb = kmid_base [OF km] and add = kb_add_ready [OF kmid_base [OF km] t]
  note dl = delayed_lists [OF kb]
  have "ktime (prvAddTaskToReadyList t s)"
  proof (rule ktime_frame [of s])
    show "ktime s" using km by (simp add: kmid_def)
    show "gen_at s u = Some d"
      if "d \<in> {pxDelayedTaskList s, pxOverflowDelayedTaskList s}"
        "gen_at (prvAddTaskToReadyList t s) u = Some d" for u d
      using that dl by (auto simp: add(3) split: if_splits)
    show "sorted (map (ivalue (klists (prvAddTaskToReadyList t s))) (items_of (klists (prvAddTaskToReadyList t s)) d))"
      if "d \<in> {pxDelayedTaskList s, pxOverflowDelayedTaskList s}"
        "sorted (map (ivalue (klists s)) (items_of (klists s) d))" for d
    proof -
      have "d \<noteq> pxReadyTasksLists p" "d \<in> kernel_lists mp \<union> E" for p using that(1) dl by auto
      moreover have "ivalue (klists (prvAddTaskToReadyList t s)) = ivalue (klists s)" using add(4) by (rule ext)
      ultimately show ?thesis using add(6) [of d] that(2) by simp
    qed
  qed (simp_all add: wake_value_def add(4))
  then show ?thesis using add(1) by (simp add: kmid_def)
qed

lemma km_leave:
  assumes km: "kmid mp E T s"
  obtains s' where "leave_event_list t s = Some s'" "kmid mp E T s'" "moved s s'"
    "\<And>j. container_of (klists s') j = (if j = xEventListItem t then None else container_of (klists s) j)"
    "\<And>j. ivalue (klists s') j = ivalue (klists s) j"
    "\<And>l'. l' \<in> kernel_lists mp \<union> E \<Longrightarrow> items_of (klists s') l' = remove1 (xEventListItem t) (items_of (klists s) l')"
proof (cases "evt_at s t")
  case None
  have "remove1 (xEventListItem t) (items_of (klists s) l') = items_of (klists s) l'"
    if "l' \<in> kernel_lists mp \<union> E" for l'
    using contents_home [OF kmid_base [OF km] that] None by (simp add: remove1_idem)
  then show thesis using None km
    by (intro that [of s]) (simp_all add: leave_event_list_def listLIST_ITEM_CONTAINER_def)
next
  case (Some l)
  show thesis
  proof (rule km_remove [OF km Some], goal_cases)
    case (1 s')
    have "(if l' = l then remove1 (xEventListItem t) (items_of (klists s) l) else items_of (klists s) l')
        = remove1 (xEventListItem t) (items_of (klists s) l')" if "l' \<in> kernel_lists mp \<union> E" for l'
      using contents_home [OF kmid_base [OF km] that, of "xEventListItem t"] Some by (simp add: remove1_idem)
    then show thesis using 1 Some
      by (intro that [of s']) (simp_all add: leave_event_list_def listLIST_ITEM_CONTAINER_def)
  qed
qed

lemma kb_set_value:
  assumes "kbase mp E T s"
  shows "kbase mp E T (set_lists (listSET_LIST_ITEM_VALUE i v (klists s)) s)"
  by (rule kbase_lists [OF assms]) (use kbaseD [OF assms] in simp_all)

lemma km_set_value:
  assumes km: "kmid mp E T s"
    and out: "\<And>t. i = xGenericListItem t \<Longrightarrow> gen_at s t = None"
  shows "kmid mp E T (set_lists (listSET_LIST_ITEM_VALUE i v (klists s)) s)"
proof -
  let ?k = "listSET_LIST_ITEM_VALUE i v (klists s)"
  note kb = kmid_base [OF km]
  have k: "ktime s" using km by (simp add: kmid_def)
  have ni: "i \<notin> set (items_of (klists s) d)"
    if "d \<in> {pxDelayedTaskList s, pxOverflowDelayedTaskList s}" for d
  proof
    assume "i \<in> set (items_of (klists s) d)"
    moreover have d: "d \<in> {xDelayedTaskList1, xDelayedTaskList2}" "d \<in> kernel_lists mp \<union> E"
      using that delayed_lists [OF kb] by auto
    ultimately have c: "container_of (klists s) i = Some d" using contents_home [OF kb d(2)] by simp
    have "even d" "d \<noteq> xPendingReadyList" using d(1) by auto
    then have "even i" using kbaseD(12) [OF kb c] kbaseD(2) [OF kb, of d]
      by (auto simp: place_ok_def split: if_splits)
    then show False using out c by (cases i rule: item_cases) auto
  qed
  have m: "map (ivalue ?k) (items_of (klists s) d) = map (ivalue (klists s)) (items_of (klists s) d)"
    if "d \<in> {pxDelayedTaskList s, pxOverflowDelayedTaskList s}" for d
    using ni [OF that] by (intro map_cong refl) auto
  have w: "wake_value t (set_lists ?k s) = wake_value t s" if "gen_at s t = Some d" for t d
    using out [of t] that by (auto simp: wake_value_def)
  have srt: "sorted (map (ivalue ?k) (items_of (klists s) d))"
    if "d \<in> {pxDelayedTaskList s, pxOverflowDelayedTaskList s}" for d
    unfolding m [OF that] using k that by (auto simp: ktime_def)
  have "ktime (set_lists ?k s)"
    unfolding ktime_def set_lists_sel SET_VALUE_frame(1,4)
  proof (intro conjI allI impI)
    show "sorted (map (ivalue ?k) (items_of (klists s) (pxDelayedTaskList s)))"
      "sorted (map (ivalue ?k) (items_of (klists s) (pxOverflowDelayedTaskList s)))"
      by (intro srt; simp)+
    fix t
    show "xTickCount s < wake_value t (set_lists ?k s)" "xNextTaskUnblockTime s \<le> wake_value t (set_lists ?k s)"
      if "gen_at s t = Some (pxDelayedTaskList s)"
      using k that unfolding w [OF that] by (simp_all add: ktime_def)
    show "wake_value t (set_lists ?k s) < xTickCount s" if "gen_at s t = Some (pxOverflowDelayedTaskList s)"
      using k that unfolding w [OF that] by (simp add: ktime_def)
  qed
  then show ?thesis using kb_set_value [OF kb] by (simp add: kmid_def)
qed

text \<open>The current task, out of all state lists, goes into a delayed list.\<close>

lemma km_delay:
  assumes km: "kmid mp E T s" and t: "pxCurrentTCB s \<in> T" "gen_at s (pxCurrentTCB s) = None"
    and w: "w \<noteq> xTickCount s"
  obtains s' where "prvAddCurrentTaskToDelayedList w s = Some s'" "kmid mp E T s'" "moved s s'"
    "\<And>j. container_of (klists s') j = (if j = xGenericListItem (pxCurrentTCB s)
       then Some (if w < xTickCount s then pxOverflowDelayedTaskList s else pxDelayedTaskList s)
       else container_of (klists s) j)"
    "\<And>j. ivalue (klists s') j = (if j = xGenericListItem (pxCurrentTCB s) then w else ivalue (klists s) j)"
proof -
  let ?g = "xGenericListItem (pxCurrentTCB s)"
  let ?d = "if w < xTickCount s then pxOverflowDelayedTaskList s else pxDelayedTaskList s"
  define s0 where "s0 = set_lists (listSET_LIST_ITEM_VALUE ?g w (klists s)) s"
  have km0: "kmid mp E T s0" unfolding s0_def using t(2) by (intro km_set_value [OF km]) auto
  note kb0 = kmid_base [OF km0]
  have c0: "container_of (klists s0) j = container_of (klists s) j" and it0: "items_of (klists s0) = items_of (klists s)"
    and v0: "ivalue (klists s0) j = (if j = ?g then w else ivalue (klists s) j)" for j
    by (simp_all add: s0_def)
  have "?d \<in> {xDelayedTaskList1, xDelayedTaskList2}" using delayed_lists [OF kmid_base [OF km]] by auto
  then have p: "place_ok mp E T s0 ?g ?d" using t(1) unfolding place_ok_def by auto
  have out: "container_of (klists s0) ?g = None" using t(2) by (simp add: c0)
  show thesis
  proof (rule kb_insert [OF kb0 out p], goal_cases)
    case (1 k)
    define n where "n = (if \<not> w < xTickCount s \<and> w < xNextTaskUnblockTime s then w else xNextTaskUnblockTime s)"
    define s' where "s' = (set_lists k s)\<lparr>xNextTaskUnblockTime := n\<rparr>"
    have op: "prvAddCurrentTaskToDelayedList w s = Some s'"
      using 1(1) unfolding prvAddCurrentTaskToDelayedList_def s'_def n_def s0_def
      by (auto simp: Let_def set_lists_def split: if_splits)
    have k: "klists s' = k" by (simp add: s'_def)
    have val: "ivalue k = ivalue (klists s0)" using 1(4) by (rule ext)
    have srt: "sorted (map (ivalue k) (items_of k d))"
      if "d \<in> {pxDelayedTaskList s, pxOverflowDelayedTaskList s}" for d
    proof -
      have "d \<in> kernel_lists mp \<union> E" using that delayed_lists [OF kmid_base [OF km]] by auto
      then have i: "items_of k d = (if d = ?d then sorted_insert (klists s0) ?g (items_of (klists s0) d)
          else items_of (klists s0) d)"
        using 1(5) [of d] by (simp split del: if_split cong: if_cong)
      have "sorted (map (ivalue (klists s0)) (items_of (klists s0) d))"
        using km0 that unfolding kmid_def ktime_def s0_def by (auto simp del: SET_VALUE_frame(6))
      then show ?thesis
        unfolding val i
        by (intro if_split [of "\<lambda>x. sorted (map (ivalue (klists s0)) x)", THEN iffD2])
          (use sorted_sorted_insert in blast)
    qed
    have n: "n \<le> xNextTaskUnblockTime s" "\<not> w < xTickCount s \<Longrightarrow> n \<le> w" by (auto simp: n_def)
    have kt: "ktime s" using km by (simp add: kmid_def)
    note dl = delayed_lists [OF kmid_base [OF km]]
    have "ktime s'"
      unfolding ktime_def
    proof (intro conjI allI impI)
      show "sorted (map (ivalue (klists s')) (items_of (klists s') (pxDelayedTaskList s')))"
        "sorted (map (ivalue (klists s')) (items_of (klists s') (pxOverflowDelayedTaskList s')))"
        using srt unfolding k by (simp_all add: s'_def)
      fix u
      have wv: "wake_value u s' = (if u = pxCurrentTCB s then w else wake_value u s)"
        by (simp add: wake_value_def k 1(4) v0)
      have at: "gen_at s' u = (if u = pxCurrentTCB s then Some ?d else gen_at s u)"
        by (simp add: k 1(3) c0)
      show "xTickCount s' < wake_value u s'" "xNextTaskUnblockTime s' \<le> wake_value u s'"
        if "gen_at s' u = Some (pxDelayedTaskList s')"
      proof -
        have a: "gen_at s' u = Some (pxDelayedTaskList s)" using that by (simp add: s'_def)
        show "xTickCount s' < wake_value u s'"
        proof (cases "u = pxCurrentTCB s")
          case True
          then show ?thesis using a at w dl(1) wv by (auto simp: s'_def split: if_splits)
        next
          case False
          then show ?thesis using a at kt wv by (simp add: ktime_def s'_def)
        qed
        show "xNextTaskUnblockTime s' \<le> wake_value u s'"
        proof (cases "u = pxCurrentTCB s")
          case True
          then show ?thesis using a at dl(1) wv n(2) by (auto simp: s'_def split: if_splits)
        next
          case False
          then have "xNextTaskUnblockTime s \<le> wake_value u s" using a at kt by (simp add: ktime_def)
          then show ?thesis using n(1) wv False by (simp add: s'_def)
        qed
      qed
      show "wake_value u s' < xTickCount s'" if "gen_at s' u = Some (pxOverflowDelayedTaskList s')"
      proof (cases "u = pxCurrentTCB s")
        case True
        then show ?thesis using that at dl(1) wv by (auto simp: s'_def split: if_splits)
      next
        case False
        then show ?thesis using that at kt wv by (simp add: ktime_def s'_def)
      qed
    qed
    moreover have "kbase mp E T s'"
      using 1(2) kbase_cong [of s' "set_lists k s0"] by (simp add: s'_def s0_def)
    ultimately have "kmid mp E T s'" by (simp add: kmid_def)
    moreover have "moved s s'" by (simp add: moved_def s'_def)
    ultimately show thesis by (intro that [OF op]) (simp_all add: k 1(3,4) c0 v0)
  qed
qed

section \<open>The tick interrupt\<close>

lemma head_owner:
  assumes kb: "kbase mp E T s" and l: "l \<in> kernel_lists mp \<union> E" and it: "items_of (klists s) l = i # is"
  shows "listGET_OWNER_OF_HEAD_ENTRY (klists s) l = Some (task_of i)" "task_of i \<in> T"
    "container_of (klists s) i = Some l"
proof -
  show c: "container_of (klists s) i = Some l" using contents_home [OF kb l, of i] it by simp
  show t: "task_of i \<in> T" using kbaseD(12) [OF kb c] by (simp add: place_ok_def)
  have "pvOwner (item_rec (klists s) i) = task_of i"
    using kbaseD(6,7) [OF kb t] by (cases i rule: item_cases) simp_all
  then show "listGET_OWNER_OF_HEAD_ENTRY (klists s) l = Some (task_of i)"
    using listGET_OWNER_OF_HEAD_ENTRY_items [OF kbaseD(1) [OF kb] l] it by simp
qed

lemma state_item:
  assumes kb: "kbase mp E T s" and c: "container_of (klists s) i = Some l"
    and l: "l \<in> {xDelayedTaskList1, xDelayedTaskList2, xTasksWaitingTermination, xSuspendedTaskList} \<or>
            (\<exists>p. l = pxReadyTasksLists p)"
  shows "i = xGenericListItem (task_of i)"
proof -
  have "even l" "l \<noteq> xPendingReadyList" using l by auto
  then have "even i" using kbaseD(12) [OF kb c] kbaseD(2) [OF kb, of l]
    by (auto simp: place_ok_def split: if_splits)
  then show ?thesis by (cases i rule: item_cases) auto
qed

lemma event_item:
  assumes kb: "kbase mp E T s" and c: "container_of (klists s) i = Some l"
    and l: "l = xPendingReadyList \<or> l \<in> E"
  shows "i = xEventListItem (task_of i)"
proof -
  have "odd i" using kbaseD(12) [OF kb c] kbaseD(2) [OF kb, of l] l
    by (auto simp: place_ok_def split: if_splits)
  then show ?thesis by (cases i rule: item_cases) auto
qed

text \<open>Within the tick, the tasks whose time has come are still in the delayed list.\<close>

definition ktick :: "nat \<Rightarrow> list_id set \<Rightarrow> task set \<Rightarrow> kernel \<Rightarrow> bool" where
  "ktick mp E T s \<longleftrightarrow> kbase mp E T s \<and>
     sorted (map (ivalue (klists s)) (items_of (klists s) (pxDelayedTaskList s))) \<and>
     sorted (map (ivalue (klists s)) (items_of (klists s) (pxOverflowDelayedTaskList s))) \<and>
     (\<forall>t. gen_at s t = Some (pxOverflowDelayedTaskList s) \<longrightarrow> wake_value t s < xTickCount s)"

definition expired :: "kernel \<Rightarrow> task \<Rightarrow> bool" where
  "expired s t \<longleftrightarrow> gen_at s t = Some (pxDelayedTaskList s) \<and> wake_value t s \<le> xTickCount s"

lemma delayed_head_least:
  assumes kb: "kbase mp E T s"
    and srt: "sorted (map (ivalue (klists s)) (items_of (klists s) (pxDelayedTaskList s)))"
    and it: "items_of (klists s) (pxDelayedTaskList s) = i # is"
    and u: "gen_at s u = Some (pxDelayedTaskList s)"
  shows "wake_value (task_of i) s \<le> wake_value u s"
proof -
  note d = delayed_lists [OF kb]
  have i: "i = xGenericListItem (task_of i)"
    using head_owner(3) [OF kb d(4) it] d(2) by (intro state_item [OF kb]) auto
  have "xGenericListItem u \<in> set (i # is)" using contents_home [OF kb d(4)] u it by metis
  then have "ivalue (klists s) i \<le> ivalue (klists s) (xGenericListItem u)"
    using srt it by auto
  then show ?thesis unfolding wake_value_def using i by simp
qed

lemma ktick_done:
  assumes "ktick mp E T s" "\<And>t. gen_at s t = Some (pxDelayedTaskList s) \<Longrightarrow> xTickCount s < wake_value t s"
    "\<And>t. gen_at s t = Some (pxDelayedTaskList s) \<Longrightarrow> n \<le> wake_value t s"
  shows "kmid mp E T (s\<lparr>xNextTaskUnblockTime := n\<rparr>)"
  using assms kbase_cong [of "s\<lparr>xNextTaskUnblockTime := n\<rparr>" s]
  by (simp add: kmid_def ktime_def ktick_def wake_value_def)

lemma ktick_step:
  assumes kt: "ktick mp E T s" and t: "t \<in> T" "gen_at s t = Some (pxDelayedTaskList s)"
  obtains s1 s2 where "remove_item (xGenericListItem t) s = Some s1" "leave_event_list t s1 = Some s2"
    "moved s s2" "ktick mp E T (prvAddTaskToReadyList t s2)"
    "\<And>u. gen_at (prvAddTaskToReadyList t s2) u =
       (if u = t then Some (pxReadyTasksLists (unat (uxPriority (tcb s t)))) else gen_at s u)"
    "\<And>u. evt_at (prvAddTaskToReadyList t s2) u = (if u = t then None else evt_at s u)"
    "\<And>j. ivalue (klists (prvAddTaskToReadyList t s2)) j = ivalue (klists s) j"
    "items_of (klists (prvAddTaskToReadyList t s2)) (pxDelayedTaskList s)
       = remove1 (xGenericListItem t) (items_of (klists s) (pxDelayedTaskList s))"
proof -
  have kb: "kbase mp E T s" using kt by (simp add: ktick_def)
  note d = delayed_lists [OF kb]
  show thesis
  proof (rule kb_remove [OF kb t(2)], goal_cases)
    case (1 k)
    define s1 where "s1 = set_lists k s"
    have kb1: "kbase mp E T s1" using 1(2) by (simp add: s1_def)
    have "\<exists>k2. leave_event_list t s1 = Some (set_lists k2 s1) \<and> kbase mp E T (set_lists k2 s1) \<and>
        (\<forall>j. container_of k2 j = (if j = xEventListItem t then None else container_of k j)) \<and>
        (\<forall>j. ivalue k2 j = ivalue k j) \<and>
        (\<forall>l'\<in>kernel_lists mp. l' \<noteq> xPendingReadyList \<longrightarrow> items_of k2 l' = items_of k l')"
    proof (cases "evt_at s1 t")
      case None
      then show ?thesis using kb1
        by (intro exI [of _ k]) (auto simp: leave_event_list_def listLIST_ITEM_CONTAINER_def s1_def)
    next
      case (Some l)
      have l: "l = xPendingReadyList \<or> l \<in> E"
        using kbaseD(12) [OF kb1 Some] by (simp add: place_ok_def)
      have nl: "l' \<noteq> l" if "l' \<in> kernel_lists mp" "l' \<noteq> xPendingReadyList" for l'
        using that l kernel_lists_even kbaseD(2) [OF kb1] by blast
      show ?thesis
      proof (rule kb_remove [OF kb1 Some], goal_cases)
        case (1 k2)
        then show ?thesis using Some nl
          by (intro exI [of _ k2]) (simp add: leave_event_list_def listLIST_ITEM_CONTAINER_def s1_def)
      qed
    qed
    then obtain k2 where k2: "leave_event_list t s1 = Some (set_lists k2 s1)" "kbase mp E T (set_lists k2 s1)"
      and c2: "\<And>j. container_of k2 j = (if j = xEventListItem t then None else container_of k j)"
      and v2: "\<And>j. ivalue k2 j = ivalue k j"
      and i2: "\<And>l'. l' \<in> kernel_lists mp \<Longrightarrow> l' \<noteq> xPendingReadyList \<Longrightarrow> items_of k2 l' = items_of k l'"
      by auto
    define s2 where "s2 = set_lists k2 s1"
    define s3 where "s3 = prvAddTaskToReadyList t s2"
    have kb2: "kbase mp E T s2" using k2(2) by (simp add: s2_def)
    have out: "gen_at s2 t = None" by (simp add: s2_def c2 1(3))
    note add = kb_add_ready [OF kb2 t(1) out, folded s3_def]
    have m: "moved s s2" by (simp add: moved_def s1_def s2_def)
    note ms = moved_sel [OF m]
    have c3: "container_of (klists s3) j = (if j = xGenericListItem t
          then Some (pxReadyTasksLists (unat (uxPriority (tcb s t))))
          else if j = xEventListItem t then None else container_of (klists s) j)" for j
      by (simp add: add(3) s2_def c2 1(3) s1_def)
    have v3: "ivalue (klists s3) j = ivalue (klists s) j" for j
      by (simp add: add(4) s2_def v2 1(4))
    then have v3': "ivalue (klists s3) = ivalue (klists s)" by (rule ext)
    have i3: "items_of (klists s3) dl = (if dl = pxDelayedTaskList s
          then remove1 (xGenericListItem t) (items_of (klists s) dl) else items_of (klists s) dl)"
      if dl: "dl \<in> {pxDelayedTaskList s, pxOverflowDelayedTaskList s}" for dl
    proof -
      have l: "dl \<in> kernel_lists mp" "dl \<noteq> xPendingReadyList" "dl \<noteq> pxReadyTasksLists p" for p
        using dl d by auto
      have "items_of (klists s3) dl = items_of (klists s2) dl"
        using add(6) [of dl] l by (simp add: m)
      also have "\<dots> = items_of k dl" using i2 [OF l(1,2)] by (simp add: s2_def)
      also have "\<dots> = (if dl = pxDelayedTaskList s
          then remove1 (xGenericListItem t) (items_of (klists s) dl) else items_of (klists s) dl)"
        using 1(5) [of dl] l(1) by simp
      finally show ?thesis .
    qed
    have sel3: "pxDelayedTaskList s3 = pxDelayedTaskList s" "pxOverflowDelayedTaskList s3 = pxOverflowDelayedTaskList s"
      "xTickCount s3 = xTickCount s" using ms by (simp_all add: s3_def)
    have "ktick mp E T s3"
      unfolding ktick_def sel3
    proof (intro conjI allI impI)
      show "kbase mp E T s3" by (rule add(1))
      show "sorted (map (ivalue (klists s3)) (items_of (klists s3) (pxDelayedTaskList s)))"
        "sorted (map (ivalue (klists s3)) (items_of (klists s3) (pxOverflowDelayedTaskList s)))"
        using kt d(1) i3 unfolding v3' by (simp_all add: ktick_def sorted_map_remove1)
      fix u
      assume "gen_at s3 u = Some (pxOverflowDelayedTaskList s)"
      then have "gen_at s u = Some (pxOverflowDelayedTaskList s)" using d(3) by (auto simp: c3 split: if_splits)
      then show "wake_value u s3 < xTickCount s" using kt by (simp add: ktick_def wake_value_def v3)
    qed
    then show thesis
      using 1(1) k2(1) m c3 v3 i3 [of "pxDelayedTaskList s"]
      by (intro that [of s1 s2]) (simp_all add: s1_def s2_def s3_def)
  qed
qed

text \<open>The loop of the tick makes ready exactly the tasks whose time has come.\<close>

lemma unblock_expired_spec:
  assumes kt: "ktick mp E T s"
  shows "\<exists>sw' s'. unblock_expired C sw s = Some (sw', s') \<and> kmid mp E T s' \<and> moved s s' \<and>
    (\<forall>u. gen_at s' u = (if expired s u then Some (pxReadyTasksLists (unat (uxPriority (tcb s u))))
                        else gen_at s u)) \<and>
    (\<forall>u. evt_at s' u = (if expired s u then None else evt_at s u)) \<and>
    (\<forall>j. ivalue (klists s') j = ivalue (klists s) j) \<and>
    (sw' \<longleftrightarrow> sw \<or> (\<exists>u. expired s u \<and> configUSE_PREEMPTION C \<and> cur_prio s \<le> uxPriority (tcb s u)))"
  using kt
proof (induction "length (items_of (klists s) (pxDelayedTaskList s))" arbitrary: s sw)
  case 0
  note kb = 0(2) [unfolded ktick_def, THEN conjunct1]
  note d = delayed_lists [OF kb]
  have e: "items_of (klists s) (pxDelayedTaskList s) = []" using 0(1) by simp
  have no: "gen_at s u \<noteq> Some (pxDelayedTaskList s)" for u
    using contents_home [OF kb d(4), of "xGenericListItem u"] e by simp
  have "unblock_expired C sw s = Some (sw, s\<lparr>xNextTaskUnblockTime := portMAX_DELAY\<rparr>)"
    using listLIST_IS_EMPTY_items [OF kbaseD(1) [OF kb] d(4)] e by (simp add: unblock_expired.simps)
  moreover have "kmid mp E T (s\<lparr>xNextTaskUnblockTime := portMAX_DELAY\<rparr>)"
    by (rule ktick_done [OF 0(2)]) (use no in auto)
  ultimately show ?case using no by (auto simp: moved_def expired_def)
next
  case (Suc n)
  note kb = Suc(3) [unfolded ktick_def, THEN conjunct1]
  note d = delayed_lists [OF kb]
  obtain i "is" where it: "items_of (klists s) (pxDelayedTaskList s) = i # is"
    using Suc(2) by (cases "items_of (klists s) (pxDelayedTaskList s)") auto
  define t where "t = task_of i"
  note head = head_owner [OF kb d(4) it, folded t_def]
  have i: "i = xGenericListItem t" unfolding t_def using head(3) d(2) by (intro state_item [OF kb]) auto
  have at: "gen_at s t = Some (pxDelayedTaskList s)" using head(3) i by simp
  have ne: "\<not> listLIST_IS_EMPTY (klists s) (pxDelayedTaskList s)"
    using listLIST_IS_EMPTY_items [OF kbaseD(1) [OF kb] d(4)] it by simp
  have least: "wake_value t s \<le> wake_value u s" if "gen_at s u = Some (pxDelayedTaskList s)" for u
    using delayed_head_least [OF kb _ it that] Suc(3) by (simp add: ktick_def t_def)
  show ?case
  proof (cases "xTickCount s < wake_value t s")
    case True
    have no: "\<not> expired s u" for u
      using least [of u] True by (auto simp: expired_def)
    have "unblock_expired C sw s = Some (sw, s\<lparr>xNextTaskUnblockTime := wake_value t s\<rparr>)"
      using ne head(1) True by (simp add: unblock_expired.simps [of C sw s])
    moreover have "kmid mp E T (s\<lparr>xNextTaskUnblockTime := wake_value t s\<rparr>)"
      using least True by (intro ktick_done [OF Suc(3)]) (auto intro: order_less_le_trans)
    ultimately show ?thesis using no by (auto simp: moved_def)
  next
    case False
    have ex: "expired s t" using at False by (simp add: expired_def)
    show ?thesis
    proof (rule ktick_step [OF Suc(3) head(2) at], goal_cases)
      case (1 s1 s2)
      define s3 where "s3 = prvAddTaskToReadyList t s2"
      define sw1 where "sw1 = (sw \<or> configUSE_PREEMPTION C \<and> cur_prio s2 \<le> uxPriority (tcb s2 t))"
      have run: "unblock_expired C sw s = unblock_expired C sw1 s3"
        using ne head(1) False 1(1,2) by (simp add: unblock_expired.simps [of C sw s] s3_def sw1_def)
      have m: "moved s s3" using moved_trans [OF 1(3)] by (simp add: s3_def)
      note ms = moved_sel [OF m] moved_sel [OF 1(3)]
      have "n = length (items_of (klists s3) (pxDelayedTaskList s3))"
        using 1(8) it i Suc(2) ms(3) by (simp add: s3_def)
      from Suc(1) [OF this 1(4) [folded s3_def], of sw1]
      obtain sw' s' where s': "unblock_expired C sw1 s3 = Some (sw', s')" "kmid mp E T s'" "moved s3 s'"
        and g': "\<forall>u. gen_at s' u = (if expired s3 u then Some (pxReadyTasksLists (unat (uxPriority (tcb s3 u))))
                        else gen_at s3 u)"
        and e': "\<forall>u. evt_at s' u = (if expired s3 u then None else evt_at s3 u)"
        and v': "\<forall>j. ivalue (klists s') j = ivalue (klists s3) j"
        and w': "sw' \<longleftrightarrow> sw1 \<or> (\<exists>u. expired s3 u \<and> configUSE_PREEMPTION C \<and> cur_prio s3 \<le> uxPriority (tcb s3 u))"
        by (elim exE conjE) (rule that)
      have ex3: "expired s3 u \<longleftrightarrow> expired s u \<and> u \<noteq> t" for u
        using 1(5) [of u] d(2) ms(3,7) by (auto simp: expired_def s3_def wake_value_def 1(7))
      have ge: "gen_at s' u = (if expired s u then Some (pxReadyTasksLists (unat (uxPriority (tcb s u)))) else gen_at s u)"
        "evt_at s' u = (if expired s u then None else evt_at s u)" for u
        using g' e' ex 1(5,6) [of u] ms(1) unfolding ex3 by (cases "u = t"; simp add: s3_def)+
      have v: "ivalue (klists s') j = ivalue (klists s) j" for j
        using v' 1(7) by (simp add: s3_def)
      have w: "sw' \<longleftrightarrow> sw \<or> (\<exists>u. expired s u \<and> configUSE_PREEMPTION C \<and> cur_prio s \<le> uxPriority (tcb s u))"
        using w' ex ms(1,2) 1(3) [THEN moved_sel(1)] 1(3) [THEN moved_sel(2)]
        unfolding ex3 sw1_def by auto
      show ?thesis
        unfolding run
        by (intro exI [of _ sw'] exI [of _ s'] conjI allI s'(1,2) moved_trans [OF m s'(3)] ge v w)
    qed
  qed
qed

lemma reset_unblock_time:
  assumes kb: "kbase mp E T s" and srt: "sorted (map (ivalue (klists s)) (items_of (klists s) (pxDelayedTaskList s)))"
  obtains n where "prvResetNextTaskUnblockTime s = Some (s\<lparr>xNextTaskUnblockTime := n\<rparr>)"
    "\<And>t. gen_at s t = Some (pxDelayedTaskList s) \<Longrightarrow> n \<le> wake_value t s"
proof (cases "items_of (klists s) (pxDelayedTaskList s)")
  case Nil
  have "gen_at s t \<noteq> Some (pxDelayedTaskList s)" for t
    using contents_home [OF kb delayed_lists(4) [OF kb], of "xGenericListItem t"] Nil by simp
  then show thesis
    using that [of portMAX_DELAY] listLIST_IS_EMPTY_items [OF kbaseD(1) [OF kb] delayed_lists(4) [OF kb]] Nil
    by (simp add: prvResetNextTaskUnblockTime_def)
next
  case (Cons i "is")
  have "prvResetNextTaskUnblockTime s = Some (s\<lparr>xNextTaskUnblockTime := wake_value (task_of i) s\<rparr>)"
    using listLIST_IS_EMPTY_items [OF kbaseD(1) [OF kb] delayed_lists(4) [OF kb]] Cons
      head_owner(1) [OF kb delayed_lists(4) [OF kb] Cons]
    by (simp add: prvResetNextTaskUnblockTime_def)
  then show thesis using that delayed_head_least [OF kb srt Cons] by blast
qed

lemma km_reset_unblock_time:
  assumes "kmid mp E T s"
  obtains n where "prvResetNextTaskUnblockTime s = Some (s\<lparr>xNextTaskUnblockTime := n\<rparr>)"
    "kmid mp E T (s\<lparr>xNextTaskUnblockTime := n\<rparr>)"
proof (rule reset_unblock_time [OF kmid_base [OF assms]])
  show "sorted (map (ivalue (klists s)) (items_of (klists s) (pxDelayedTaskList s)))"
    using assms by (simp add: kmid_def ktime_def)
  fix n
  assume n: "prvResetNextTaskUnblockTime s = Some (s\<lparr>xNextTaskUnblockTime := n\<rparr>)"
    "\<And>t. gen_at s t = Some (pxDelayedTaskList s) \<Longrightarrow> n \<le> wake_value t s"
  have "kmid mp E T (s\<lparr>xNextTaskUnblockTime := n\<rparr>)"
    using assms n(2) kbase_cong [of "s\<lparr>xNextTaskUnblockTime := n\<rparr>" s]
    by (simp add: kmid_def ktime_def wake_value_def)
  then show thesis using that n(1) by blast
qed

text \<open>The task is in a delayed list and its wake time is the coming tick.\<close>

definition due :: "kernel \<Rightarrow> task \<Rightarrow> bool" where
  "due s t \<longleftrightarrow> gen_at s t \<in> {Some (pxDelayedTaskList s), Some (pxOverflowDelayedTaskList s)} \<and>
     wake_value t s = xTickCount s + 1"

definition same_tasks :: "kernel \<Rightarrow> kernel \<Rightarrow> bool" where
  "same_tasks s s' \<longleftrightarrow> tcb s' = tcb s \<and> pxCurrentTCB s' = pxCurrentTCB s \<and>
     uxTasksDeleted s' = uxTasksDeleted s \<and> uxCurrentNumberOfTasks s' = uxCurrentNumberOfTasks s \<and>
     xSchedulerRunning s' = xSchedulerRunning s \<and> uxSchedulerSuspended s' = uxSchedulerSuspended s \<and>
     uxPendedTicks s' = uxPendedTicks s \<and> xYieldPending s' = xYieldPending s \<and> pend_sv s' = pend_sv s"

lemma same_tasks_sel:
  assumes "same_tasks s s'"
  shows "tcb s' = tcb s" "pxCurrentTCB s' = pxCurrentTCB s" "uxTasksDeleted s' = uxTasksDeleted s"
    "uxCurrentNumberOfTasks s' = uxCurrentNumberOfTasks s" "xSchedulerRunning s' = xSchedulerRunning s"
    "uxSchedulerSuspended s' = uxSchedulerSuspended s" "uxPendedTicks s' = uxPendedTicks s"
    "xYieldPending s' = xYieldPending s" "pend_sv s' = pend_sv s"
  using assms by (simp_all add: same_tasks_def)

lemma same_tasks_refl [simp]: "same_tasks s s"
  by (simp add: same_tasks_def)

lemma moved_same_tasks: "moved s s' \<Longrightarrow> same_tasks s s'"
  by (simp add: moved_def same_tasks_def)

lemma word_succ_pos:
  fixes a :: u32
  assumes "a + 1 \<noteq> 0"
  shows "a < a + 1"
  using unatSuc [of a] assms by (simp add: word_less_nat_alt add.commute)

lemma word_succ_less:
  fixes a b :: u32
  assumes "a < b"
  shows "a + 1 \<le> b" "a + 1 \<noteq> 0"
proof -
  have "unat a + 1 < 2 ^ 32" using assms unat_u32 [of b] by (simp add: word_less_nat_alt)
  then have s: "unat (a + 1) = unat a + 1" by (subst unat_add_small) simp_all
  then show "a + 1 \<noteq> 0" by (metis add_is_0 unat_0 zero_neq_one)
  show "a + 1 \<le> b" using s assms by (simp add: word_le_nat_alt word_less_nat_alt)
qed

text \<open>The state in which the tick looks at the delayed list.\<close>

lemma tick_start:
  assumes km: "kmid mp E T s"
  defines "s1 \<equiv> s\<lparr>xTickCount := xTickCount s + 1\<rparr>"
  obtains s2 where "(if xTickCount s1 = 0 then taskSWITCH_DELAYED_LISTS s1 else Some s1) = Some s2"
    "ktick mp E T s2" "same_tasks s s2" "klists s2 = klists s" "xTickCount s2 = xTickCount s + 1"
    "\<And>t. expired s2 t \<longleftrightarrow> due s t"
    "\<And>t. gen_at s2 t = Some (pxDelayedTaskList s2) \<Longrightarrow> xNextTaskUnblockTime s2 \<le> wake_value t s2"
    "{pxDelayedTaskList s2, pxOverflowDelayedTaskList s2} = {pxDelayedTaskList s, pxOverflowDelayedTaskList s}"
    "xNumOfOverflows s2 = xNumOfOverflows s + (if xTickCount s + 1 = 0 then 1 else 0)"
proof (cases "xTickCount s1 = 0")
  case False
  have kb: "kbase mp E T s1" using kbase_cong [of s1 s] kmid_base [OF km] by (simp add: s1_def)
  have kt: "ktime s" using km by (simp add: kmid_def)
  have nz: "xTickCount s + 1 \<noteq> 0" using False by (simp add: s1_def)
  then have lt: "xTickCount s < xTickCount s + 1" by (rule word_succ_pos)
  have 1: "ktick mp E T s1"
    unfolding ktick_def
  proof (intro conjI allI impI)
    fix t
    assume "gen_at s1 t = Some (pxOverflowDelayedTaskList s1)"
    then have "wake_value t s < xTickCount s" using kt by (simp add: ktime_def s1_def)
    then show "wake_value t s1 < xTickCount s1"
      using lt by (simp add: s1_def wake_value_def)
  qed (use kb kt in \<open>simp_all add: ktime_def s1_def\<close>)
  have 2: "expired s1 t \<longleftrightarrow> due s t" for t
  proof -
    have w: "wake_value t s1 = wake_value t s" by (simp add: s1_def wake_value_def)
    have dlt: "xTickCount s < wake_value t s" if "gen_at s t = Some (pxDelayedTaskList s)"
      using that kt by (simp add: ktime_def)
    have ovf: "wake_value t s < xTickCount s" if "gen_at s t = Some (pxOverflowDelayedTaskList s)"
      using that kt by (simp add: ktime_def)
    show ?thesis
    proof
      assume e: "expired s1 t"
      then have g: "gen_at s t = Some (pxDelayedTaskList s)" "wake_value t s \<le> xTickCount s + 1"
        by (simp_all add: expired_def s1_def wake_value_def)
      then have "wake_value t s = xTickCount s + 1"
        using word_succ_less(1) [OF dlt] by (simp add: order_antisym)
      then show "due s t" using g by (simp add: due_def)
    next
      assume d: "due s t"
      then have "gen_at s t = Some (pxDelayedTaskList s)"
        using ovf lt by (auto simp: due_def)
      then show "expired s1 t" using d by (simp add: expired_def due_def s1_def wake_value_def)
    qed
  qed
  show thesis
    by (rule that [of s1])
      (use False 1 2 kt nz in \<open>simp_all add: same_tasks_def s1_def ktime_def wake_value_def\<close>)
next
  case True
  note kb = kmid_base [OF km]
  have kt: "ktime s" using km by (simp add: kmid_def)
  have z: "xTickCount s + 1 = 0" using True by (simp add: s1_def)
  have max: "\<not> xTickCount s < w" for w :: u32
    using z word_succ_less(2) by blast
  have none: "gen_at s t \<noteq> Some (pxDelayedTaskList s)" for t
    using kt max by (auto simp: ktime_def)
  have e: "items_of (klists s) (pxDelayedTaskList s) = []"
  proof (rule ccontr)
    assume "items_of (klists s) (pxDelayedTaskList s) \<noteq> []"
    then obtain i "is" where it: "items_of (klists s) (pxDelayedTaskList s) = i # is"
      by (cases "items_of (klists s) (pxDelayedTaskList s)") auto
    have "i = xGenericListItem (task_of i)"
      using head_owner(3) [OF kb delayed_lists(4) [OF kb] it] delayed_lists(2) [OF kb]
      by (intro state_item [OF kb]) auto
    then show False using none [of "task_of i"] head_owner(3) [OF kb delayed_lists(4) [OF kb] it] by simp
  qed
  define s' where "s' = s1\<lparr>pxDelayedTaskList := pxOverflowDelayedTaskList s,
     pxOverflowDelayedTaskList := pxDelayedTaskList s, xNumOfOverflows := xNumOfOverflows s + 1\<rparr>"
  have k: "klists s' = klists s" "tcb s' = tcb s" "uxTopReadyPriority s' = uxTopReadyPriority s"
    "pxDelayedTaskList s' = pxOverflowDelayedTaskList s" "pxOverflowDelayedTaskList s' = pxDelayedTaskList s"
    "xTickCount s' = 0"
    using z by (simp_all add: s'_def s1_def)
  have pl: "place_ok mp E T s' = place_ok mp E T s" by (intro ext place_ok_cong k)
  have kb': "kbase mp E T s'"
    using kb unfolding kbase_def pl k by (simp add: insert_commute)
  have tick: "ktick mp E T s'"
    unfolding ktick_def k
  proof (intro conjI allI impI)
    show "wake_value t s' < 0" if "gen_at s t = Some (pxDelayedTaskList s)" for t
      using none that by blast
  qed (use kb' kt in \<open>simp_all add: ktime_def\<close>)
  then have srt: "sorted (map (ivalue (klists s')) (items_of (klists s') (pxDelayedTaskList s')))"
    by (simp add: ktick_def)
  show thesis
  proof (rule reset_unblock_time [OF kb' srt], goal_cases)
    case (1 n)
    define s2 where "s2 = s'\<lparr>xNextTaskUnblockTime := n\<rparr>"
    have "taskSWITCH_DELAYED_LISTS s1 = Some s2"
      using 1(1) listLIST_IS_EMPTY_items [OF kbaseD(1) [OF kb] delayed_lists(4) [OF kb]] e
      by (simp add: taskSWITCH_DELAYED_LISTS_def configASSERT_def s2_def s'_def s1_def)
    moreover have "ktick mp E T s2"
      using tick kbase_cong [of s2 s'] by (simp add: ktick_def s2_def wake_value_def)
    moreover have "expired s2 t \<longleftrightarrow> due s t" for t
    proof -
      have "wake_value t s \<le> 0 \<longleftrightarrow> wake_value t s = 0" by simp
      then show ?thesis using none [of t] z by (simp add: expired_def due_def s2_def k wake_value_def)
    qed
    moreover have "same_tasks s s2" by (simp add: same_tasks_def s2_def s'_def s1_def)
    ultimately show thesis
      using True 1(2) z by (intro that [of s2]) (simp_all add: s2_def k wake_value_def insert_commute s'_def s1_def)
  qed
qed

lemma increment_tick_spec:
  assumes km: "kmid mp E T s" and run: "uxSchedulerSuspended s = 0"
  obtains sw s' where "xTaskIncrementTick C s = Some (sw, s')" "kmid mp E T s'" "same_tasks s s'"
    "xTickCount s' = xTickCount s + 1"
    "xNumOfOverflows s' = xNumOfOverflows s + (if xTickCount s + 1 = 0 then 1 else 0)"
    "\<And>u. gen_at s' u = (if due s u then Some (pxReadyTasksLists (unat (uxPriority (tcb s u)))) else gen_at s u)"
    "\<And>u. evt_at s' u = (if due s u then None else evt_at s u)"
    "\<And>j. ivalue (klists s') j = ivalue (klists s) j"
    "\<And>u. configUSE_PREEMPTION C \<Longrightarrow> due s u \<Longrightarrow> cur_prio s \<le> uxPriority (tcb s u) \<Longrightarrow> sw"
    "configUSE_PREEMPTION C \<Longrightarrow> xYieldPending s \<Longrightarrow> sw"
proof -
  define s1 where "s1 = s\<lparr>xTickCount := xTickCount s + 1\<rparr>"
  show thesis
  proof (rule tick_start [OF km, folded s1_def], goal_cases)
    case (1 s2)
    note st = same_tasks_sel [OF 1(3)]
    have "\<exists>sw s'. (if xNextTaskUnblockTime s2 \<le> xTickCount s2 then unblock_expired C False s2 else Some (False, s2))
          = Some (sw, s') \<and> kmid mp E T s' \<and> moved s2 s' \<and>
        (\<forall>u. gen_at s' u = (if due s u then Some (pxReadyTasksLists (unat (uxPriority (tcb s u)))) else gen_at s u)) \<and>
        (\<forall>u. evt_at s' u = (if due s u then None else evt_at s u)) \<and>
        (\<forall>j. ivalue (klists s') j = ivalue (klists s) j) \<and>
        (sw \<longleftrightarrow> (\<exists>u. due s u \<and> configUSE_PREEMPTION C \<and> cur_prio s \<le> uxPriority (tcb s u)))"
    proof (cases "xNextTaskUnblockTime s2 \<le> xTickCount s2")
      case True
      from unblock_expired_spec [OF 1(2), of C False]
      show ?thesis unfolding 1(6) st(1,2) 1(4) if_P [OF True] simp_thms(32) .
    next
      case False
      have no: "\<not> due s u" for u
      proof
        assume "due s u"
        then have "expired s2 u" using 1(6) by blast
        then show False using 1(7) [of u] False by (auto simp: expired_def)
      qed
      have "kmid mp E T (s2\<lparr>xNextTaskUnblockTime := xNextTaskUnblockTime s2\<rparr>)"
        using 1(7) False by (intro ktick_done [OF 1(2)]) (auto simp: not_le intro: less_le_trans)
      then show ?thesis using False no 1(4) by (intro exI [of _ False] exI [of _ s2]) simp
    qed
    then obtain sw s' where l: "(if xNextTaskUnblockTime s2 \<le> xTickCount s2 then unblock_expired C False s2 else Some (False, s2))
          = Some (sw, s')" "kmid mp E T s'" "moved s2 s'"
      and g: "\<forall>u. gen_at s' u = (if due s u then Some (pxReadyTasksLists (unat (uxPriority (tcb s u)))) else gen_at s u)"
      and e: "\<forall>u. evt_at s' u = (if due s u then None else evt_at s u)"
      and v: "\<forall>j. ivalue (klists s') j = ivalue (klists s) j"
      and sw: "sw \<longleftrightarrow> (\<exists>u. due s u \<and> configUSE_PREEMPTION C \<and> cur_prio s \<le> uxPriority (tcb s u))"
      by (elim exE conjE) (rule that)
    define sw' where "sw' = ((sw \<or> configUSE_PREEMPTION C \<and> configUSE_TIME_SLICING C \<and>
       1 < listCURRENT_LIST_LENGTH (klists s') (pxReadyTasksLists (unat (cur_prio s')))) \<or>
       configUSE_PREEMPTION C \<and> xYieldPending s')"
    have "xTaskIncrementTick C s = Some (sw', s')"
      unfolding xTaskIncrementTick_def if_P [OF run] Let_def s1_def [symmetric]
      by (simp add: 1(1) l(1) sw'_def cong: if_cong)
    moreover have "same_tasks s s'"
      using 1(3) moved_same_tasks [OF l(3)] by (simp add: same_tasks_def)
    moreover have "xTickCount s' = xTickCount s + 1" "xYieldPending s' = xYieldPending s"
      "xNumOfOverflows s' = xNumOfOverflows s + (if xTickCount s + 1 = 0 then 1 else 0)"
      using moved_sel [OF l(3)] 1(5,9) st(8) by simp_all
    ultimately show thesis
      using l(2) g e v sw by (intro that [of sw' s']) (auto simp: sw'_def)
  qed
qed

end
