(* ===== verification/Scheduler.thy ===== *)
theory Scheduler
  imports Tasks_Inv
begin

text \<open>
  The invariant of the running scheduler and its preservation by the operations of \<open>tasks.c\<close>:
  every task is in one list, a task in an event list is blocked, the current task is ready unless a
  switch is about to happen, and with preemption it has the highest priority of all ready tasks.
\<close>

section \<open>The invariant\<close>

definition ready :: "kernel \<Rightarrow> task \<Rightarrow> bool" where
  "ready s t \<longleftrightarrow> gen_at s t = Some (pxReadyTasksLists (unat (uxPriority (tcb s t))))"

definition blocked :: "kernel \<Rightarrow> task \<Rightarrow> bool" where
  "blocked s t \<longleftrightarrow> gen_at s t \<in> Some ` {xDelayedTaskList1, xDelayedTaskList2, xSuspendedTaskList}"

definition waits_ok :: "list_id set \<Rightarrow> kernel \<Rightarrow> bool" where
  "waits_ok E s \<longleftrightarrow> (\<forall>t l. evt_at s t = Some l \<longrightarrow> (if l \<in> E then blocked s t else blocked s t \<or> ready s t))"

definition kweak :: "kernel_config \<Rightarrow> task \<Rightarrow> list_id set \<Rightarrow> task set \<Rightarrow> kernel \<Rightarrow> bool" where
  "kweak C idle E T s \<longleftrightarrow> kmid (unat (configMAX_PRIORITIES C)) E T s \<and>
     (\<forall>t\<in>T. gen_at s t \<noteq> None) \<and> waits_ok E s \<and> pxCurrentTCB s \<in> T \<and> ready s idle \<and>
     unat (uxCurrentNumberOfTasks s) = card T \<and> xSchedulerRunning s"

text \<open>No ready task has a higher priority than the current one.\<close>

definition top_runs :: "kernel \<Rightarrow> bool" where
  "top_runs s \<longleftrightarrow> (\<forall>t. ready s t \<longrightarrow> uxPriority (tcb s t) \<le> cur_prio s)"

definition kinv :: "kernel_config \<Rightarrow> task \<Rightarrow> list_id set \<Rightarrow> task set \<Rightarrow> kernel \<Rightarrow> bool" where
  "kinv C idle E T s \<longleftrightarrow> kweak C idle E T s \<and>
     (pend_sv s \<and> uxSchedulerSuspended s = 0 \<or> ready s (pxCurrentTCB s)) \<and>
     (configUSE_PREEMPTION C \<longrightarrow> pend_sv s \<or> xYieldPending s \<or> top_runs s) \<and>
     (uxSchedulerSuspended s = 0 \<longrightarrow>
        uxPendedTicks s = 0 \<and> (\<forall>t. evt_at s t \<noteq> Some xPendingReadyList))"

abbreviation prios :: "kernel_config \<Rightarrow> nat" where
  "prios C \<equiv> unat (configMAX_PRIORITIES C)"

lemma kweakD:
  assumes "kweak C idle E T s"
  shows "kmid (prios C) E T s" "kbase (prios C) E T s" "\<And>t. t \<in> T \<Longrightarrow> gen_at s t \<noteq> None"
    "waits_ok E s" "pxCurrentTCB s \<in> T" "ready s idle" "unat (uxCurrentNumberOfTasks s) = card T"
    "xSchedulerRunning s"
  using assms kmid_base [of "prios C" E T s] by (simp_all add: kweak_def)

lemma gen_in:
  assumes "kbase mp E T s" "gen_at s t = Some l"
  shows "t \<in> T"
  using kbaseD(12) [OF assms] by (simp add: place_ok_def)

lemma evt_in:
  assumes "kbase mp E T s" "evt_at s t = Some l"
  shows "t \<in> T" "l = xPendingReadyList \<or> l \<in> E"
  using kbaseD(12) [OF assms] by (simp_all add: place_ok_def)

lemma in_ready_list:
  assumes "kbase mp E T s" "gen_at s t = Some (pxReadyTasksLists p)"
  shows "ready s t"
  using kbaseD(12) [OF assms] assms(2) by (auto simp: place_ok_def ready_def)

lemma ready_in:
  "kbase mp E T s \<Longrightarrow> ready s t \<Longrightarrow> t \<in> T"
  by (auto simp: ready_def intro: gen_in)

lemma not_blocked_ready: "ready s t \<Longrightarrow> \<not> blocked s t"
  by (auto simp: ready_def blocked_def)

lemma pending_not_event: "kbase mp E T s \<Longrightarrow> xPendingReadyList \<notin> E"
  using kbaseD(2) by fastforce

text \<open>The flags are not part of the lists.\<close>

lemma kmid_flags [simp]:
  "kmid mp E T (s\<lparr>pend_sv := b\<rparr>) = kmid mp E T s" "kmid mp E T (s\<lparr>xYieldPending := b\<rparr>) = kmid mp E T s"
  "kmid mp E T (s\<lparr>uxSchedulerSuspended := n\<rparr>) = kmid mp E T s" "kmid mp E T (s\<lparr>uxPendedTicks := n\<rparr>) = kmid mp E T s"
  "kmid mp E T (s\<lparr>uxTasksDeleted := n\<rparr>) = kmid mp E T s" "kmid mp E T (s\<lparr>uxCurrentNumberOfTasks := n\<rparr>) = kmid mp E T s"
  "kmid mp E T (s\<lparr>pxCurrentTCB := t\<rparr>) = kmid mp E T s" "kmid mp E T (s\<lparr>xSchedulerRunning := b\<rparr>) = kmid mp E T s"
  by (simp_all add: kmid_def ktime_def kbase_def place_ok_def wake_value_def)

lemma kweak_flags [simp]:
  "kweak C idle E T (s\<lparr>pend_sv := b\<rparr>) = kweak C idle E T s"
  "kweak C idle E T (s\<lparr>xYieldPending := b\<rparr>) = kweak C idle E T s"
  "kweak C idle E T (s\<lparr>uxSchedulerSuspended := n\<rparr>) = kweak C idle E T s"
  "kweak C idle E T (s\<lparr>uxPendedTicks := n\<rparr>) = kweak C idle E T s"
  "kweak C idle E T (s\<lparr>uxTasksDeleted := n\<rparr>) = kweak C idle E T s"
  by (simp_all add: kweak_def waits_ok_def ready_def blocked_def)

lemma top_runs_flags [simp]:
  "top_runs (s\<lparr>pend_sv := b\<rparr>) = top_runs s" "top_runs (s\<lparr>xYieldPending := b\<rparr>) = top_runs s"
  "top_runs (s\<lparr>uxSchedulerSuspended := n\<rparr>) = top_runs s" "top_runs (s\<lparr>uxPendedTicks := n\<rparr>) = top_runs s"
  "top_runs (s\<lparr>uxTasksDeleted := n\<rparr>) = top_runs s"
  by (simp_all add: top_runs_def ready_def)

lemma ready_flags [simp]:
  "ready (s\<lparr>pend_sv := b\<rparr>) t = ready s t" "ready (s\<lparr>xYieldPending := b\<rparr>) t = ready s t"
  "ready (s\<lparr>uxSchedulerSuspended := n\<rparr>) t = ready s t" "ready (s\<lparr>uxPendedTicks := n\<rparr>) t = ready s t"
  "ready (s\<lparr>uxTasksDeleted := n\<rparr>) t = ready s t" "ready (s\<lparr>pxCurrentTCB := c\<rparr>) t = ready s t"
  by (simp_all add: ready_def)

text \<open>What is left to show after a move that keeps the tasks as they are.\<close>

lemma kweakI:
  assumes "kweak C idle E T s" "kmid (prios C) E T s'" "same_tasks s s'"
    and "\<And>t. t \<in> T \<Longrightarrow> gen_at s' t \<noteq> None" "waits_ok E s'" "ready s' idle"
  shows "kweak C idle E T s'"
  using assms by (simp add: kweak_def same_tasks_def)

section \<open>Waking a task\<close>

text \<open>
  The state item of a task is moved to the task's ready list: the core of every way to wake it,
  after the event item, if it is in a list, has been taken out.
\<close>

lemma wake_spec:
  assumes kw: "kmid (prios C) E T s" and t: "t \<in> T" "gen_at s t \<noteq> None"
  obtains s1 where "remove_item (xGenericListItem t) s = Some s1"
    "kmid (prios C) E T (prvAddTaskToReadyList t s1)" "moved s s1" "moved s (prvAddTaskToReadyList t s1)"
    "\<And>u. gen_at (prvAddTaskToReadyList t s1) u
        = (if u = t then Some (pxReadyTasksLists (unat (uxPriority (tcb s t)))) else gen_at s u)"
    "\<And>u. evt_at (prvAddTaskToReadyList t s1) u = evt_at s u"
    "\<And>j. ivalue (klists (prvAddTaskToReadyList t s1)) j = ivalue (klists s) j"
    "\<And>l. l \<in> kernel_lists (prios C) \<union> E \<Longrightarrow> Some l \<noteq> gen_at s t \<Longrightarrow>
       (\<forall>p. l \<noteq> pxReadyTasksLists p) \<Longrightarrow>
       items_of (klists (prvAddTaskToReadyList t s1)) l = items_of (klists s) l"
proof -
  obtain l where l: "gen_at s t = Some l" using t(2) by auto
  show thesis
  proof (rule km_remove [OF kw l], goal_cases)
    case (1 s1)
    have out: "gen_at s1 t = None" by (simp add: 1(4))
    note add = kb_add_ready [OF kmid_base [OF 1(2)] t(1) out]
    note ms = moved_sel [OF 1(3)]
    have m: "moved s (prvAddTaskToReadyList t s1)" by (rule moved_trans [OF 1(3)]) simp
    show thesis
    proof (rule that [OF 1(1) km_add_ready [OF 1(2) t(1) out] 1(3) m])
      show "items_of (klists (prvAddTaskToReadyList t s1)) l' = items_of (klists s) l'"
        if "l' \<in> kernel_lists (prios C) \<union> E" "Some l' \<noteq> gen_at s t" "\<forall>p. l' \<noteq> pxReadyTasksLists p" for l'
        using add(6) [OF that(1)] 1(6) [OF that(1)] that(2,3) l by auto
    qed (simp_all add: add(3,4) 1(4,5) ms(1))
  qed
qed

lemma kweak_wake:
  assumes kw: "kweak C idle E T s" and m: "kmid (prios C) E T s'" "same_tasks s s'"
    and t: "evt_at s t = None \<or> evt_at s t = Some xPendingReadyList"
    and g: "\<And>u. gen_at s' u = (if u = t then Some (pxReadyTasksLists (unat (uxPriority (tcb s t)))) else gen_at s u)"
    and e: "\<And>u. evt_at s' u = evt_at s u"
  shows "kweak C idle E T s'" "ready s' u \<longleftrightarrow> u = t \<or> ready s u" "blocked s' u \<longleftrightarrow> u \<noteq> t \<and> blocked s u"
proof -
  have tcb: "tcb s' = tcb s" by (rule same_tasks_sel(1) [OF m(2)])
  show r: "ready s' u \<longleftrightarrow> u = t \<or> ready s u" and b: "blocked s' u \<longleftrightarrow> u \<noteq> t \<and> blocked s u" for u
    by (auto simp: ready_def blocked_def g tcb)
  have ne: "xPendingReadyList \<notin> E" by (rule pending_not_event [OF kweakD(2) [OF kw]])
  have w: "waits_ok E s'"
    unfolding waits_ok_def e
  proof (intro allI impI)
    fix u l
    assume l: "evt_at s u = Some l"
    then have "if l \<in> E then blocked s u else blocked s u \<or> ready s u"
      using kweakD(4) [OF kw] by (simp add: waits_ok_def)
    moreover have "u = t \<Longrightarrow> l \<notin> E" using t l ne by auto
    ultimately show "if l \<in> E then blocked s' u else blocked s' u \<or> ready s' u"
      by (auto simp: r b split: if_splits)
  qed
  show "kweak C idle E T s'"
    using kweakD(3,6) [OF kw] by (intro kweakI [OF kw m] w) (auto simp: g r)
qed

lemma waits_leave:
  assumes "waits_ok E s" "tcb s' = tcb s" "\<And>u. gen_at s' u = gen_at s u"
    "\<And>u. evt_at s' u = (if u = t then None else evt_at s u)"
  shows "waits_ok E s'"
proof -
  have "ready s' u = ready s u" "blocked s' u = blocked s u" for u
    by (simp_all add: ready_def blocked_def assms(2,3))
  then show ?thesis using assms(1) by (simp add: waits_ok_def assms(4))
qed

section \<open>The tick\<close>

lemma due_blocked:
  assumes "kbase mp E T s" "due s t"
  shows "blocked s t"
  using assms(2) delayed_lists(2,3) [OF assms(1)] by (auto simp: due_def blocked_def)

lemma kweak_tick:
  assumes kw: "kweak C idle E T s" and run: "uxSchedulerSuspended s = 0"
  obtains sw s' where "xTaskIncrementTick C s = Some (sw, s')" "kweak C idle E T s'" "same_tasks s s'"
    "xTickCount s' = xTickCount s + 1"
    "xNumOfOverflows s' = xNumOfOverflows s + (if xTickCount s + 1 = 0 then 1 else 0)"
    "\<And>u. ready s' u \<longleftrightarrow> ready s u \<or> due s u"
    "\<And>u. gen_at s' u = (if due s u then Some (pxReadyTasksLists (unat (uxPriority (tcb s u)))) else gen_at s u)"
    "\<And>u. wake_value u s' = wake_value u s"
    "\<And>u. evt_at s' u = (if due s u then None else evt_at s u)"
    "configUSE_PREEMPTION C \<Longrightarrow> \<not> sw \<Longrightarrow> \<not> xYieldPending s"
    "configUSE_PREEMPTION C \<Longrightarrow> \<not> sw \<Longrightarrow> top_runs s \<Longrightarrow> top_runs s'"
proof -
  show thesis
  proof (rule increment_tick_spec [OF kweakD(1) [OF kw] run, of C], goal_cases)
    case (1 sw s')
    note st = same_tasks_sel [OF 1(3)]
    have r: "ready s' u \<longleftrightarrow> ready s u \<or> due s u" for u
      by (auto simp: ready_def 1(6) st(1))
    have b: "blocked s' u \<longleftrightarrow> blocked s u \<and> \<not> due s u" for u
      by (auto simp: blocked_def 1(6))
    have "waits_ok E s'"
      using kweakD(4) [OF kw] by (auto simp: waits_ok_def 1(7) r b split: if_splits)
    then have kw': "kweak C idle E T s'"
      using kweakD(3,6) [OF kw] by (intro kweakI [OF kw 1(2,3)]) (auto simp: 1(6) r)
    have top: "top_runs s'" if "configUSE_PREEMPTION C" "\<not> sw" "top_runs s"
      unfolding top_runs_def
    proof (intro allI impI)
      fix u
      assume "ready s' u"
      then consider "ready s u" | "due s u" using r by blast
      then show "uxPriority (tcb s' u) \<le> cur_prio s'"
      proof cases
        case 1
        then show ?thesis using that(3) st by (simp add: top_runs_def)
      next
        case 2
        then have "\<not> cur_prio s \<le> uxPriority (tcb s u)" using 1(9) that by blast
        then show ?thesis using st by simp
      qed
    qed
    show thesis
      by (rule that [OF 1(1) kw' 1(3) 1(4,5) r 1(6) _ 1(7)])
        (use 1(10) top in \<open>auto simp: wake_value_def 1(8)\<close>)
  qed
qed

text \<open>The ticks counted while the scheduler was suspended are run one after the other.\<close>

lemma drain_ticks_spec:
  assumes "kweak C idle E T s" "uxSchedulerSuspended s = 0"
    "\<forall>t. evt_at s t \<noteq> Some xPendingReadyList"
  shows "\<exists>s'. drain_ticks C s = Some s' \<and> kweak C idle E T s' \<and> uxSchedulerSuspended s' = 0 \<and>
    uxPendedTicks s' = 0 \<and> pxCurrentTCB s' = pxCurrentTCB s \<and> tcb s' = tcb s \<and> pend_sv s' = pend_sv s \<and>
    (\<forall>t. ready s t \<longrightarrow> ready s' t) \<and> (\<forall>t. evt_at s' t \<noteq> Some xPendingReadyList) \<and>
    (configUSE_PREEMPTION C \<longrightarrow> \<not> xYieldPending s' \<longrightarrow> \<not> xYieldPending s \<and> (top_runs s \<longrightarrow> top_runs s')) \<and>
    xTickCount s' = xTickCount s + uxPendedTicks s"
  using assms
proof (induction "unat (uxPendedTicks s)" arbitrary: s)
  case 0
  then show ?case by (simp add: drain_ticks.simps [of C s] unat_eq_0)
next
  case (Suc n)
  have nz: "uxPendedTicks s \<noteq> 0" using Suc(2) by (metis unat_0 nat.distinct(1))
  show ?case
  proof (rule kweak_tick [OF Suc(3,4)], goal_cases)
    case (1 sw s1)
    define s2 where "s2 = (if sw then s1\<lparr>xYieldPending := True\<rparr> else s1)"
    define s3 where "s3 = s2\<lparr>uxPendedTicks := uxPendedTicks s2 - 1\<rparr>"
    note st = same_tasks_sel [OF 1(3)]
    have l: "klists s3 = klists s1" "tcb s3 = tcb s1" "uxPendedTicks s3 = uxPendedTicks s1 - 1"
      "pxCurrentTCB s3 = pxCurrentTCB s1" "pend_sv s3 = pend_sv s1" "uxSchedulerSuspended s3 = uxSchedulerSuspended s1"
      "xYieldPending s3 = (sw \<or> xYieldPending s1)" "xTickCount s3 = xTickCount s1"
      by (auto simp: s3_def s2_def)
    have kw3: "kweak C idle E T s3" using 1(2) by (simp add: s3_def s2_def)
    have run: "drain_ticks C s = drain_ticks C s3"
      using nz 1(1) by (simp add: drain_ticks.simps [of C s] s3_def s2_def Let_def)
    have r3: "ready s3 t = ready s1 t" for t by (simp add: ready_def l)
    have top3: "top_runs s3 = top_runs s1" by (simp add: top_runs_def r3 l)
    have "unat (uxPendedTicks s - 1) = unat (uxPendedTicks s) - 1"
      by (rule unat_minus_one [OF nz])
    then have n: "n = unat (uxPendedTicks s3)" using Suc(2) st(7) l(3) by simp
    have ev: "\<forall>t. evt_at s3 t \<noteq> Some xPendingReadyList" using Suc(5) 1(9) by (simp add: l)
    have "uxSchedulerSuspended s3 = 0" using Suc(4) st(6) l(6) by simp
    from Suc(1) [OF n kw3 this ev]
    obtain s' where s': "drain_ticks C s3 = Some s'" "kweak C idle E T s'" "uxSchedulerSuspended s' = 0"
      "uxPendedTicks s' = 0" "pxCurrentTCB s' = pxCurrentTCB s3" "tcb s' = tcb s3" "pend_sv s' = pend_sv s3"
      and r': "\<forall>t. ready s3 t \<longrightarrow> ready s' t" and e': "\<forall>t. evt_at s' t \<noteq> Some xPendingReadyList"
      and y': "configUSE_PREEMPTION C \<longrightarrow> \<not> xYieldPending s' \<longrightarrow> \<not> xYieldPending s3 \<and> (top_runs s3 \<longrightarrow> top_runs s')"
      and t': "xTickCount s' = xTickCount s3 + uxPendedTicks s3"
      by (elim exE conjE) (rule that)
    have "configUSE_PREEMPTION C \<longrightarrow> \<not> xYieldPending s' \<longrightarrow> \<not> xYieldPending s \<and> (top_runs s \<longrightarrow> top_runs s')"
      using y' l(7) st(8) 1(11) top3 by auto
    moreover have "\<forall>t. ready s t \<longrightarrow> ready s' t" using r' r3 1(6) by simp
    moreover have "xTickCount s' = xTickCount s + uxPendedTicks s"
      using t' l(3,8) 1(4) st(7) by simp
    ultimately show ?case
      using s' e' l(2,4,5) st run by (intro exI [of _ s']) simp
  qed
qed

section \<open>Resuming the scheduler\<close>

definition pending :: "kernel \<Rightarrow> task \<Rightarrow> bool" where
  "pending s t \<longleftrightarrow> evt_at s t = Some xPendingReadyList"

lemma drain_pending_spec:
  assumes "kweak C idle E T s"
  shows "\<exists>s'. drain_pending s = Some s' \<and> kweak C idle E T s' \<and> same_tasks (s\<lparr>xYieldPending := xYieldPending s'\<rparr>) s' \<and>
    xTickCount s' = xTickCount s \<and>
    (\<forall>u. gen_at s' u = (if pending s u then Some (pxReadyTasksLists (unat (uxPriority (tcb s u)))) else gen_at s u)) \<and>
    (\<forall>u. evt_at s' u = (if pending s u then None else evt_at s u)) \<and>
    (\<forall>j. ivalue (klists s') j = ivalue (klists s) j) \<and>
    (xYieldPending s' \<longleftrightarrow> xYieldPending s \<or> (\<exists>u. pending s u \<and> cur_prio s \<le> uxPriority (tcb s u)))"
  using assms
proof (induction "length (items_of (klists s) xPendingReadyList)" arbitrary: s)
  case 0
  note kb = kweakD(2) [OF 0(2)]
  have e: "items_of (klists s) xPendingReadyList = []" using 0(1) by simp
  have no: "\<not> pending s u" for u
    using contents_home [OF kb, of xPendingReadyList "xEventListItem u"] e by (simp add: pending_def)
  have "drain_pending s = Some s"
    using listLIST_IS_EMPTY_items [OF kbaseD(1) [OF kb], of xPendingReadyList] e
    by (simp add: drain_pending.simps)
  then show ?case using 0(2) no by (auto simp: same_tasks_def)
next
  case (Suc n)
  note kw = Suc(3) and kb = kweakD(2) [OF Suc(3)]
  have L: "xPendingReadyList \<in> kernel_lists (prios C) \<union> E" by simp
  obtain i "is" where it: "items_of (klists s) xPendingReadyList = i # is"
    using Suc(2) by (cases "items_of (klists s) xPendingReadyList") auto
  define t where "t = task_of i"
  note head = head_owner [OF kb L it, folded t_def]
  have i: "i = xEventListItem t" unfolding t_def using head(3) by (intro event_item [OF kb]) auto
  have pt: "pending s t" using head(3) i by (simp add: pending_def)
  have ne: "\<not> listLIST_IS_EMPTY (klists s) xPendingReadyList"
    using listLIST_IS_EMPTY_items [OF kbaseD(1) [OF kb] L] it by simp
  have ev: "container_of (klists s) (xEventListItem t) = Some xPendingReadyList" using head(3) i by simp
  show ?case
  proof (rule km_remove [OF kweakD(1) [OF kw] ev], goal_cases)
    case (1 s1)
    note a = 1 and m1 = moved_sel [OF 1(3)]
    have g1: "gen_at s1 u = gen_at s u" and e1: "evt_at s1 u = (if u = t then None else evt_at s u)" for u
      by (simp_all add: 1(4))
    have kw1: "kweak C idle E T s1"
    proof (rule kweakI [OF kw 1(2) moved_same_tasks [OF 1(3)]])
      show "waits_ok E s1" using kweakD(4) [OF kw] m1(1) g1 e1 by (rule waits_leave)
      show "ready s1 idle" using kweakD(6) [OF kw] by (simp add: ready_def g1 m1(1))
    qed (use kweakD(3) [OF kw] in \<open>simp add: g1\<close>)
    have tg: "gen_at s1 t \<noteq> None" using kweakD(3) [OF kw head(2)] by (simp add: g1)
    show ?thesis
    proof (rule wake_spec [OF 1(2) head(2) tg], goal_cases)
      case (1 s2)
      note w = 1
      define s3 where "s3 = prvAddTaskToReadyList t s2"
      define s4 where "s4 = (if cur_prio s3 \<le> uxPriority (tcb s3 t) then s3\<lparr>xYieldPending := True\<rparr> else s3)"
      note m3 = moved_sel [OF w(4), folded s3_def]
      have t1: "evt_at s1 t = None \<or> evt_at s1 t = Some xPendingReadyList" by (simp add: e1)
      note kw3 = kweak_wake [OF kw1 w(2) moved_same_tasks [OF w(4)] t1 w(5,6), folded s3_def]
      have l4: "klists s4 = klists s3" "tcb s4 = tcb s" "pxCurrentTCB s4 = pxCurrentTCB s"
        "xTickCount s4 = xTickCount s"
        "xYieldPending s4 \<longleftrightarrow> xYieldPending s \<or> cur_prio s \<le> uxPriority (tcb s t)"
        using m3 m1 by (simp_all add: s4_def)
      have kw4: "kweak C idle E T s4" using kw3(1) by (simp add: s4_def)
      have p4: "pending s4 u \<longleftrightarrow> pending s u \<and> u \<noteq> t" for u
        using w(6) [of u] e1 by (simp add: pending_def l4(1) s3_def)
      have run: "drain_pending s = drain_pending s4"
        using ne head(1) a(1) w(1) by (simp add: drain_pending.simps [of s] s3_def s4_def Let_def)
      have "Some xPendingReadyList \<noteq> gen_at s1 t"
        using kbaseD(12) [OF kb, of "xGenericListItem t" xPendingReadyList] g1 by (auto simp: place_ok_def)
      then have "items_of (klists s4) xPendingReadyList = items_of (klists s1) xPendingReadyList"
        using w(8) [of xPendingReadyList] by (simp add: l4(1) s3_def)
      then have "n = length (items_of (klists s4) xPendingReadyList)"
        using Suc(2) a(6) [OF L] it i by simp
      from Suc(1) [OF this kw4]
      obtain s' where s': "drain_pending s4 = Some s'" "kweak C idle E T s'"
        "same_tasks (s4\<lparr>xYieldPending := xYieldPending s'\<rparr>) s'" "xTickCount s' = xTickCount s4"
        and g': "\<forall>u. gen_at s' u = (if pending s4 u then Some (pxReadyTasksLists (unat (uxPriority (tcb s4 u)))) else gen_at s4 u)"
        and e': "\<forall>u. evt_at s' u = (if pending s4 u then None else evt_at s4 u)"
        and v': "\<forall>j. ivalue (klists s') j = ivalue (klists s4) j"
        and y': "xYieldPending s' \<longleftrightarrow> xYieldPending s4 \<or> (\<exists>u. pending s4 u \<and> cur_prio s4 \<le> uxPriority (tcb s4 u))"
        by (elim exE conjE) (rule that)
      have "gen_at s' u = (if pending s u then Some (pxReadyTasksLists (unat (uxPriority (tcb s u)))) else gen_at s u)"
        "evt_at s' u = (if pending s u then None else evt_at s u)" for u
        using g' e' w(5,6) [of u] pt g1 [of u] e1 [of u] m1(1) unfolding p4
        by (cases "u = t"; simp add: l4 s3_def)+
      moreover have "ivalue (klists s') j = ivalue (klists s) j" for j
        using v' w(7) a(5) by (simp add: l4 s3_def)
      moreover have "same_tasks (s\<lparr>xYieldPending := xYieldPending s'\<rparr>) s'"
        using s'(3) m3 m1 by (simp add: same_tasks_def s4_def)
      moreover have "xYieldPending s' \<longleftrightarrow> xYieldPending s \<or> (\<exists>u. pending s u \<and> cur_prio s \<le> uxPriority (tcb s u))"
        using y' pt unfolding p4 l4 by auto
      ultimately show ?thesis
        using run s'(1,2,4) l4(4) by (intro exI [of _ s'] conjI allI) simp_all
    qed
  qed
qed

lemma resume_all_spec:
  assumes kw: "kweak C idle E T s" and sus: "uxSchedulerSuspended s = 1"
  obtains ret s' where "xTaskResumeAll C s = Some (ret, s')" "kweak C idle E T s'"
    "uxSchedulerSuspended s' = 0" "uxPendedTicks s' = 0" "\<And>t. evt_at s' t \<noteq> Some xPendingReadyList"
    "pxCurrentTCB s' = pxCurrentTCB s" "tcb s' = tcb s" "\<And>t. ready s t \<Longrightarrow> ready s' t"
    "pend_sv s \<or> ret \<Longrightarrow> pend_sv s'"
    "configUSE_PREEMPTION C \<Longrightarrow> pend_sv s' \<or> \<not> xYieldPending s \<and> \<not> xYieldPending s' \<and> (top_runs s \<longrightarrow> top_runs s')"
    "\<And>t. evt_at s t = Some xPendingReadyList \<Longrightarrow> ready s' t"
proof -
  define s1 where "s1 = s\<lparr>uxSchedulerSuspended := uxSchedulerSuspended s - 1\<rparr>"
  have kw1: "kweak C idle E T s1" using kw by (simp add: s1_def)
  have "pxCurrentTCB s \<in> T" "finite T"
    using kweakD(5) [OF kw] kbaseD(3) [OF kweakD(2) [OF kw]] by auto
  then have "card T \<noteq> 0" by auto
  then have n: "0 < uxCurrentNumberOfTasks s1" "uxSchedulerSuspended s1 = 0"
    using kweakD(7) [OF kw] sus by (auto simp: s1_def word_gt_0)
  from drain_pending_spec [OF kw1]
  obtain s2 where s2: "drain_pending s1 = Some s2" "kweak C idle E T s2"
    "same_tasks (s1\<lparr>xYieldPending := xYieldPending s2\<rparr>) s2" "xTickCount s2 = xTickCount s1"
    and g2: "\<forall>u. gen_at s2 u = (if pending s1 u then Some (pxReadyTasksLists (unat (uxPriority (tcb s1 u)))) else gen_at s1 u)"
    and e2: "\<forall>u. evt_at s2 u = (if pending s1 u then None else evt_at s1 u)"
    and y2: "xYieldPending s2 \<longleftrightarrow> xYieldPending s1 \<or> (\<exists>u. pending s1 u \<and> cur_prio s1 \<le> uxPriority (tcb s1 u))"
    by (elim exE conjE) (rule that)
  have st2: "tcb s2 = tcb s" "pxCurrentTCB s2 = pxCurrentTCB s" "uxSchedulerSuspended s2 = 0"
    "pend_sv s2 = pend_sv s" "klists s1 = klists s"
    using s2(3) sus by (simp_all add: same_tasks_def s1_def)
  have r2: "ready s2 t" if "ready s t" for t using that g2 by (simp add: ready_def st2 s1_def)
  have p2: "ready s2 t" if "evt_at s t = Some xPendingReadyList" for t
    using that g2 by (simp add: ready_def pending_def st2 s1_def)
  have e2': "\<forall>t. evt_at s2 t \<noteq> Some xPendingReadyList" using e2 by (simp add: pending_def)
  from drain_ticks_spec [OF s2(2) st2(3) e2']
  obtain s3 where s3: "drain_ticks C s2 = Some s3" "kweak C idle E T s3" "uxSchedulerSuspended s3 = 0"
      "uxPendedTicks s3 = 0" "pxCurrentTCB s3 = pxCurrentTCB s2" "tcb s3 = tcb s2" "pend_sv s3 = pend_sv s2"
    and r3: "\<forall>t. ready s2 t \<longrightarrow> ready s3 t" and e3: "\<forall>t. evt_at s3 t \<noteq> Some xPendingReadyList"
    and y3: "configUSE_PREEMPTION C \<longrightarrow> \<not> xYieldPending s3 \<longrightarrow> \<not> xYieldPending s2 \<and> (top_runs s2 \<longrightarrow> top_runs s3)"
    by (elim exE conjE) (rule that)
  have top2: "top_runs s2" if y: "\<not> xYieldPending s2" and t: "top_runs s"
    unfolding top_runs_def
  proof (intro allI impI)
    fix u
    assume "ready s2 u"
    then have "pending s1 u \<or> ready s u" using g2 by (auto simp: ready_def st2 s1_def split: if_splits)
    then show "uxPriority (tcb s2 u) \<le> cur_prio s2"
      using y y2 t by (auto simp: top_runs_def st2 s1_def not_le intro: less_imp_le)
  qed
  define ret where "ret \<longleftrightarrow> xYieldPending s3 \<and> configUSE_PREEMPTION C"
  define s' where "s' = (if xYieldPending s3 then taskYIELD_IF_USING_PREEMPTION C s3 else s3)"
  have res: "xTaskResumeAll C s = Some (ret, s')"
    using sus n s2(1) s3(1) unfolding s1_def
    by (simp add: xTaskResumeAll_def configASSERT_def Let_def ret_def s'_def)
  have l: "klists s' = klists s3" "tcb s' = tcb s3" "pxCurrentTCB s' = pxCurrentTCB s3"
    "uxSchedulerSuspended s' = 0" "uxPendedTicks s' = 0" "xYieldPending s' = xYieldPending s3"
    "pend_sv s' \<longleftrightarrow> pend_sv s3 \<or> ret"
    using s3(3,4) by (auto simp: s'_def ret_def taskYIELD_IF_USING_PREEMPTION_def portYIELD_WITHIN_API_def)
  have kw': "kweak C idle E T s'"
    using s3(2) by (simp add: s'_def taskYIELD_IF_USING_PREEMPTION_def portYIELD_WITHIN_API_def)
  have r': "ready s' t = ready s3 t" for t by (simp add: ready_def l)
  have top': "top_runs s' = top_runs s3" by (simp add: top_runs_def r' l)
  show thesis
  proof (rule that [OF res kw' l(4,5)])
    have y: "xYieldPending s1 = xYieldPending s" by (simp add: s1_def)
    show "pend_sv s' \<or> \<not> xYieldPending s \<and> \<not> xYieldPending s' \<and> (top_runs s \<longrightarrow> top_runs s')" if "configUSE_PREEMPTION C"
      using that y3 y2 top2 y unfolding l top' ret_def by blast
  qed (use e3 r2 p2 r3 r' l s3(5,6,7) st2 in auto)
qed

lemma resume_and_yield_kinv:
  assumes kw: "kweak C idle E T s" and sus: "uxSchedulerSuspended s = 1"
  obtains s' where "resume_and_yield C s = Some s'" "kinv C idle E T s'" "pend_sv s'"
    "pxCurrentTCB s' = pxCurrentTCB s" "tcb s' = tcb s" "\<And>t. ready s t \<Longrightarrow> ready s' t"
    "uxSchedulerSuspended s' = 0" "\<And>t. evt_at s t = Some xPendingReadyList \<Longrightarrow> ready s' t"
proof -
  show thesis
  proof (rule resume_all_spec [OF kw sus], goal_cases)
    case (1 ret s1)
    define s' where "s' = (if ret then s1 else portYIELD_WITHIN_API s1)"
    have p: "pend_sv s'" using 1(9) by (auto simp: s'_def portYIELD_WITHIN_API_def)
    have "kinv C idle E T s'"
      using 1(2-5) p unfolding kinv_def by (simp add: s'_def portYIELD_WITHIN_API_def)
    then show thesis
      using 1 p by (intro that [of s']) (simp_all add: resume_and_yield_def s'_def portYIELD_WITHIN_API_def)
  qed
qed

end
