(* ===== verification/Sched_Ops.thy ===== *)
theory Sched_Ops
  imports Scheduler
begin

text \<open>
  The operations of \<open>tasks.c\<close> keep the invariant \<open>kinv\<close> of the scheduler: blocking, suspending and
  deleting, waking and resuming, changing priorities, creating, and the context switch.
\<close>

section \<open>The current task blocks\<close>

lemma add_ne_self: "n \<noteq> 0 \<Longrightarrow> (x :: u32) + n \<noteq> x"
  by simp

lemma km_block:
  assumes km: "kmid mp E T s" and t: "pxCurrentTCB s \<in> T" "gen_at s (pxCurrentTCB s) \<noteq> None" and n: "n \<noteq> 0"
  obtains s' l where "block_current n s = Some s'" "kmid mp E T s'" "moved s s'"
    "l \<in> {xDelayedTaskList1, xDelayedTaskList2, xSuspendedTaskList}"
    "\<And>j. container_of (klists s') j
        = (if j = xGenericListItem (pxCurrentTCB s) then Some l else container_of (klists s) j)"
    "\<And>u. event_value u s' = event_value u s"
    "n \<noteq> portMAX_DELAY \<Longrightarrow> l \<in> {pxDelayedTaskList s, pxOverflowDelayedTaskList s} \<and>
       wake_value (pxCurrentTCB s) s' = xTickCount s + n"
proof -
  obtain l0 where l0: "gen_at s (pxCurrentTCB s) = Some l0" using t(2) by auto
  show thesis
  proof (rule km_remove [OF km l0], goal_cases)
    case (1 s1)
    note a = 1 and m1 = moved_sel [OF 1(3)]
    have out: "gen_at s1 (pxCurrentTCB s1) = None" by (simp add: 1(4) m1)
    have t1: "pxCurrentTCB s1 \<in> T" using t(1) m1 by simp
    show thesis
    proof (cases "n = portMAX_DELAY")
      case True
      have p: "place_ok mp E T s1 (xGenericListItem (pxCurrentTCB s)) xSuspendedTaskList"
        using t by (simp add: place_ok_def)
      have out': "gen_at s1 (pxCurrentTCB s) = None" by (simp add: 1(4))
      note ins = kb_insert_end [OF kmid_base [OF 1(2)] out' p]
      let ?s = "insert_end xSuspendedTaskList (xGenericListItem (pxCurrentTCB s)) s1"
      have "block_current n s = Some ?s" using True a(1) by (simp add: block_current_def m1)
      moreover have "kmid mp E T ?s" by (rule km_insert_end [OF 1(2) out' p]) simp
      moreover have "moved s ?s" by (rule moved_trans [OF 1(3)]) simp
      ultimately show thesis
        using True by (intro that [of ?s xSuspendedTaskList]) (simp_all add: ins(2,3) 1(4,5) m1 event_value_def)
    next
      case False
      have w: "xTickCount s1 + n \<noteq> xTickCount s1" using add_ne_self [OF n] .
      show thesis
      proof (rule km_delay [OF 1(2) t1 out w], goal_cases)
        case (1 s')
        let ?l = "if xTickCount s1 + n < xTickCount s1 then pxOverflowDelayedTaskList s1 else pxDelayedTaskList s1"
        have "block_current n s = Some s'" using False a(1) 1(1) by (simp add: block_current_def)
        moreover have "moved s s'" by (rule moved_trans [OF a(3) 1(3)])
        moreover have "?l \<in> {xDelayedTaskList1, xDelayedTaskList2}"
          using delayed_lists(2,3) [OF kmid_base [OF a(2)]] by auto
        ultimately show thesis
          using 1(2) by (intro that [of s' ?l]) (auto simp: 1(4,5) a(4,5) m1 event_value_def wake_value_def)
      qed
    qed
  qed
qed

lemma kweak_blocked:
  assumes kw: "kweak C idle E T s" and m: "kmid (prios C) E T s'" "same_tasks s s'"
    and ni: "pxCurrentTCB s \<noteq> idle"
    and l: "l \<in> {xDelayedTaskList1, xDelayedTaskList2, xSuspendedTaskList}"
    and g: "\<And>u. gen_at s' u = (if u = pxCurrentTCB s then Some l else gen_at s u)"
    and e: "\<And>u. u \<noteq> pxCurrentTCB s \<Longrightarrow> evt_at s' u = evt_at s u"
  shows "kweak C idle E T s'" "ready s' u \<longleftrightarrow> u \<noteq> pxCurrentTCB s \<and> ready s u"
proof -
  note st = same_tasks_sel [OF m(2)]
  show r: "ready s' u \<longleftrightarrow> u \<noteq> pxCurrentTCB s \<and> ready s u" for u
    using l by (auto simp: ready_def g st(1))
  have b: "blocked s' u \<longleftrightarrow> u = pxCurrentTCB s \<or> blocked s u" for u
    using l by (auto simp: blocked_def g)
  have "waits_ok E s'"
    unfolding waits_ok_def
  proof (intro allI impI)
    fix u k
    assume k: "evt_at s' u = Some k"
    show "if k \<in> E then blocked s' u else blocked s' u \<or> ready s' u"
    proof (cases "u = pxCurrentTCB s")
      case False
      then have "evt_at s u = Some k" using e k by simp
      then have "if k \<in> E then blocked s u else blocked s u \<or> ready s u"
        using kweakD(4) [OF kw] unfolding waits_ok_def by blast
      then show ?thesis using False by (simp add: r b)
    qed (simp add: b)
  qed
  then show "kweak C idle E T s'"
    using kweakD(3,6) [OF kw] ni by (intro kweakI [OF kw m]) (auto simp: g r)
qed

text \<open>A task of the application that runs: no switch is pending and the scheduler is not suspended.\<close>

definition running :: "task \<Rightarrow> kernel \<Rightarrow> bool" where
  "running idle s \<longleftrightarrow> \<not> pend_sv s \<and> uxSchedulerSuspended s = 0 \<and> pxCurrentTCB s \<noteq> idle"

lemma kinvD:
  assumes "kinv C idle E T s"
  shows "kweak C idle E T s" "\<not> pend_sv s \<Longrightarrow> ready s (pxCurrentTCB s)"
    "uxSchedulerSuspended s \<noteq> 0 \<Longrightarrow> ready s (pxCurrentTCB s)"
    "configUSE_PREEMPTION C \<Longrightarrow> pend_sv s \<or> xYieldPending s \<or> top_runs s"
    "uxSchedulerSuspended s = 0 \<Longrightarrow> uxPendedTicks s = 0"
    "uxSchedulerSuspended s = 0 \<Longrightarrow> evt_at s t \<noteq> Some xPendingReadyList"
  using assms by (auto simp: kinv_def)

text \<open>A pending switch settles the rest of the invariant.\<close>

lemma kinv_yield:
  assumes "kweak C idle E T s" "uxSchedulerSuspended s = 0 \<or> ready s (pxCurrentTCB s)"
    "uxSchedulerSuspended s = 0 \<Longrightarrow> uxPendedTicks s = 0" "\<And>t. uxSchedulerSuspended s = 0 \<Longrightarrow> evt_at s t \<noteq> Some xPendingReadyList"
  shows "kinv C idle E T (portYIELD_WITHIN_API s)"
  using assms by (simp add: kinv_def portYIELD_WITHIN_API_def)

lemma delay_kinv:
  assumes inv: "kinv C idle E T s" and run: "running idle s" and w: "w \<noteq> xTickCount s"
  obtains s1 s2 s' where "remove_item (xGenericListItem (pxCurrentTCB s)) (vTaskSuspendAll s) = Some s1"
    "prvAddCurrentTaskToDelayedList w s1 = Some s2" "resume_and_yield C s2 = Some s'" "kinv C idle E T s'"
proof -
  note kw = kinvD(1) [OF inv] and cur = kweakD(5) [OF kinvD(1) [OF inv]]
  define s0 where "s0 = vTaskSuspendAll s"
  have s0: "kmid (prios C) E T s0" "same_tasks (s\<lparr>uxSchedulerSuspended := 1\<rparr>) s0" "pxCurrentTCB s0 = pxCurrentTCB s"
    "klists s0 = klists s" "xTickCount s0 = xTickCount s"
    using kweakD(1) [OF kw] run by (simp_all add: s0_def vTaskSuspendAll_def same_tasks_def running_def)
  obtain l0 where l0: "gen_at s0 (pxCurrentTCB s) = Some l0" using kweakD(3) [OF kw cur] s0(4) by auto
  show thesis
  proof (rule km_remove [OF s0(1) l0], goal_cases)
    case (1 s1)
    note a = 1 and m1 = moved_sel [OF 1(3)]
    have t1: "pxCurrentTCB s1 \<in> T" "gen_at s1 (pxCurrentTCB s1) = None" "w \<noteq> xTickCount s1"
      using cur w s0 by (simp_all add: 1(4) m1)
    show thesis
    proof (rule km_delay [OF 1(2) t1], goal_cases)
      case (1 s2)
      let ?l = "if w < xTickCount s1 then pxOverflowDelayedTaskList s1 else pxDelayedTaskList s1"
      have l: "?l \<in> {xDelayedTaskList1, xDelayedTaskList2, xSuspendedTaskList}"
        using delayed_lists(2,3) [OF kmid_base [OF a(2)]] by auto
      have kw0: "kweak C idle E T (s\<lparr>uxSchedulerSuspended := 1\<rparr>)" using kw by simp
      have st: "same_tasks (s\<lparr>uxSchedulerSuspended := 1\<rparr>) s2"
        using s0(2) moved_same_tasks [OF a(3)] moved_same_tasks [OF 1(3)] by (simp add: same_tasks_def)
      have kw2: "kweak C idle E T s2"
        by (rule kweak_blocked [OF kw0 1(2) st _ l])
          (use run in \<open>simp_all add: running_def 1(4) a(4) m1 s0\<close>)
      have sus: "uxSchedulerSuspended s2 = 1" using same_tasks_sel(6) [OF st] by simp
      show thesis
      proof (rule resume_and_yield_kinv [OF kw2 sus], goal_cases)
        case (1 s')
        show thesis
          using that [OF _ \<open>prvAddCurrentTaskToDelayedList w s1 = Some s2\<close> 1(1,2)] a(1) by (simp add: s0_def)
      qed
    qed
  qed
qed

lemma vTaskDelay_kinv:
  assumes inv: "kinv C idle E T s" and run: "running idle s"
  obtains s' where "vTaskDelay C n s = Some s'" "kinv C idle E T s'"
proof (cases "0 < n")
  case True
  have w: "xTickCount s + n \<noteq> xTickCount s" using True by (intro add_ne_self) auto
  show thesis
  proof (rule delay_kinv [OF inv run w], goal_cases)
    case (1 s1 s2 s')
    have "vTaskDelay C n s = Some s'"
      using True run 1(1-3) by (simp add: vTaskDelay_def configASSERT_def running_def Let_def vTaskSuspendAll_def)
    then show thesis using that 1(4) by blast
  qed
next
  case False
  have "kinv C idle E T (portYIELD_WITHIN_API s)"
    using kinvD [OF inv] run by (intro kinv_yield) (simp_all add: running_def)
  then show thesis using that False by (simp add: vTaskDelay_def)
qed

lemma vTaskDelayUntil_kinv:
  assumes inv: "kinv C idle E T s" and run: "running idle s" and i: "0 < inc"
  obtains s' where "vTaskDelayUntil C prev inc s = Some (prev + inc, s')" "kinv C idle E T s'"
proof (cases "if xTickCount s < prev then prev + inc < prev \<and> xTickCount s < prev + inc
              else prev + inc < prev \<or> xTickCount s < prev + inc")
  case True
  have w: "prev + inc \<noteq> xTickCount s" using True by (auto split: if_splits)
  show thesis
  proof (rule delay_kinv [OF inv run w], goal_cases)
    case (1 s1 s2 s')
    have "vTaskDelayUntil C prev inc s = Some (prev + inc, s')"
      using True run 1(1-3) i
      by (simp add: vTaskDelayUntil_def configASSERT_def running_def Let_def vTaskSuspendAll_def split: if_splits)
    then show thesis using that 1(4) by blast
  qed
next
  case False
  have kw: "kweak C idle E T (vTaskSuspendAll s)" "uxSchedulerSuspended (vTaskSuspendAll s) = 1"
    using kinvD(1) [OF inv] run by (simp_all add: vTaskSuspendAll_def running_def)
  show thesis
  proof (rule resume_and_yield_kinv [OF kw], goal_cases)
    case (1 s')
    have "vTaskDelayUntil C prev inc s = Some (prev + inc, s')"
      using False run 1(1) i
      by (auto simp add: vTaskDelayUntil_def configASSERT_def running_def Let_def vTaskSuspendAll_def split: if_splits)
    then show thesis using that 1(2) by blast
  qed
qed

section \<open>Waiting for an event\<close>

lemma km_insert_event:
  assumes km: "kmid mp E T s" and t: "t \<in> T" "evt_at s t = None" and e: "e \<in> E"
  obtains k where "vListInsert e (xEventListItem t) (klists s) = Some k" "kmid mp E T (set_lists k s)"
    "\<And>j. container_of k j = (if j = xEventListItem t then Some e else container_of (klists s) j)"
    "\<And>j. ivalue k j = ivalue (klists s) j"
    "\<And>l'. l' \<in> kernel_lists mp \<union> E \<Longrightarrow> items_of k l'
       = (if l' = e then sorted_insert (klists s) (xEventListItem t) (items_of (klists s) e) else items_of (klists s) l')"
proof -
  note kb = kmid_base [OF km] and dl = delayed_lists [OF kmid_base [OF km]]
  have p: "place_ok mp E T s (xEventListItem t) e" using t(1) e by (simp add: place_ok_def)
  show thesis
  proof (rule kb_insert [OF kb t(2) p], goal_cases)
    case (1 k)
    have ne: "d \<noteq> e" if "d \<in> {pxDelayedTaskList s, pxOverflowDelayedTaskList s}" for d
    proof -
      have "even d" using that dl(2,3) by auto
      then show ?thesis using kbaseD(2) [OF kb e] by auto
    qed
    have "ktime (set_lists k s)"
    proof (rule ktime_frame [of s])
      show "ktime s" using km by (simp add: kmid_def)
      show "gen_at s u = Some d" if "gen_at (set_lists k s) u = Some d" for u d
        using that by (simp add: 1(3))
      show "sorted (map (ivalue (klists (set_lists k s))) (items_of (klists (set_lists k s)) d))"
        if "d \<in> {pxDelayedTaskList s, pxOverflowDelayedTaskList s}"
          "sorted (map (ivalue (klists s)) (items_of (klists s) d))" for d
      proof -
        have "d \<in> kernel_lists mp \<union> E" using that(1) dl(4,5) by auto
        moreover have "ivalue k = ivalue (klists s)" using 1(4) by (rule ext)
        ultimately show ?thesis using 1(5) [of d] ne [OF that(1)] that(2) by simp
      qed
    qed (simp_all add: wake_value_def 1(4))
    then have "kmid mp E T (set_lists k s)" using 1(2) by (simp add: kmid_def)
    then show thesis by (rule that [OF 1(1) _ 1(3-5)])
  qed
qed

text \<open>\<open>vTaskPlaceOnEventList\<close> for the current task, which is in no event list.\<close>

lemma place_on_event_kweak:
  assumes kw: "kweak C idle E T s" and ni: "pxCurrentTCB s \<noteq> idle" and ev: "evt_at s (pxCurrentTCB s) = None"
    and e: "e \<in> E" and n: "n \<noteq> 0"
  obtains s' where "vTaskPlaceOnEventList e n s = Some s'" "kweak C idle E T s'" "same_tasks s s'"
    "\<And>u. ready s' u \<longleftrightarrow> u \<noteq> pxCurrentTCB s \<and> ready s u"
    "\<And>u. evt_at s' u = (if u = pxCurrentTCB s then Some e else evt_at s u)"
    "blocked s' (pxCurrentTCB s)"
    "\<And>u. event_value u s' = event_value u s"
proof -
  note cur = kweakD(5) [OF kw]
  show thesis
  proof (rule km_insert_event [OF kweakD(1) [OF kw] cur ev e], goal_cases)
    case (1 k)
    note a = 1
    have t: "pxCurrentTCB (set_lists k s) \<in> T" "gen_at (set_lists k s) (pxCurrentTCB (set_lists k s)) \<noteq> None"
      using cur kweakD(3) [OF kw cur] by (simp_all add: 1(3))
    show thesis
    proof (rule km_block [OF 1(2) t n], goal_cases)
      case (1 s' l)
      have st: "same_tasks s s'"
        using moved_same_tasks [OF 1(3)] by (simp add: same_tasks_def)
      have g: "gen_at s' u = (if u = pxCurrentTCB s then Some l else gen_at s u)"
        and e': "evt_at s' u = (if u = pxCurrentTCB s then Some e else evt_at s u)" for u
        by (simp_all add: 1(5) a(3))
      have e'': "evt_at s' u = evt_at s u" if "u \<noteq> pxCurrentTCB s" for u using that by (simp add: e')
      note b = kweak_blocked [OF kw 1(2) st ni 1(4) g e'']
      have "blocked s' (pxCurrentTCB s)" using 1(4) by (auto simp: blocked_def g)
      moreover have "event_value u s' = event_value u s" for u
        using 1(6) [of u] a(4) by (simp add: event_value_def)
      ultimately show thesis
        using a(1) 1(1) b by (intro that [OF _ b(1) st _ e']) (simp_all add: vTaskPlaceOnEventList_def)
    qed
  qed
qed

text \<open>
  \<open>xTaskRemoveFromEventList\<close> on a list that is not empty: the task at the head is made ready, or
  noted as pending when the scheduler is suspended.
\<close>

lemma remove_event_kweak:
  assumes kw: "kweak C idle E T s" and e: "e \<in> E" and it: "items_of (klists s) e = i # is"
  defines "t \<equiv> task_of i"
  obtains w s' where "xTaskRemoveFromEventList e s = Some (w, s')" "kweak C idle E T s'"
    "w \<longleftrightarrow> cur_prio s < uxPriority (tcb s t)" "same_tasks (s\<lparr>xYieldPending := w \<or> xYieldPending s\<rparr>) s'"
    "t \<in> T" "i = xEventListItem t" "evt_at s t = Some e"
    "\<And>u. ready s' u \<longleftrightarrow> ready s u \<or> uxSchedulerSuspended s = 0 \<and> u = t"
    "\<And>u. evt_at s' u = (if u = t then if uxSchedulerSuspended s = 0 then None else Some xPendingReadyList
                         else evt_at s u)"
    "\<And>l. l \<in> E \<Longrightarrow> items_of (klists s') l = (if l = e then is else items_of (klists s) l)"
proof -
  note km = kweakD(1) [OF kw] and kb = kweakD(2) [OF kw]
  have eL: "e \<in> kernel_lists (prios C) \<union> E" using e by simp
  note head = head_owner [OF kb eL it, folded t_def]
  have i: "i = xEventListItem t" unfolding t_def using head(3) e by (intro event_item [OF kb]) auto
  have t0: "t \<noteq> 0" using kbaseD(5) [OF kb] head(2) by metis
  have at: "container_of (klists s) (xEventListItem t) = Some e" using head(3) i by simp
  show thesis
  proof (rule km_remove [OF km at], goal_cases)
    case (1 s1)
    note a = 1 and m1 = moved_sel [OF 1(3)]
    have g1: "gen_at s1 u = gen_at s u" and e1: "evt_at s1 u = (if u = t then None else evt_at s u)" for u
      by (simp_all add: 1(4))
    have w1: "waits_ok E s1" using kweakD(4) [OF kw] m1(1) g1 e1 by (rule waits_leave)
    have kw1: "kweak C idle E T s1"
      by (rule kweakI [OF kw 1(2) moved_same_tasks [OF 1(3)] _ w1])
        (use kweakD(3,6) [OF kw] in \<open>simp_all add: g1 ready_def m1(1)\<close>)
    have r1: "ready s1 u = ready s u" and b1: "blocked s1 u = blocked s u" for u
      by (simp_all add: ready_def blocked_def g1 m1(1))
    have tb: "blocked s t" using kweakD(4) [OF kw] at e by (auto simp: waits_ok_def)
    have it1: "items_of (klists s1) l = (if l = e then is else items_of (klists s) l)" if "l \<in> E" for l
      using a(6) [of l] that it i by simp
    define w where "w \<longleftrightarrow> cur_prio s < uxPriority (tcb s t)"
    show thesis
    proof (cases "uxSchedulerSuspended s = 0")
      case True
      have tg: "gen_at s1 t \<noteq> None" using kweakD(3) [OF kw head(2)] by (simp add: g1)
      show thesis
      proof (rule wake_spec [OF a(2) head(2) tg], goal_cases)
        case (1 s2)
        define s3 where "s3 = prvAddTaskToReadyList t s2"
        note m3 = moved_sel [OF 1(4), folded s3_def]
        have t1: "evt_at s1 t = None \<or> evt_at s1 t = Some xPendingReadyList" by (simp add: e1)
        note kw3 = kweak_wake [OF kw1 1(2) moved_same_tasks [OF 1(4)] t1 1(5,6), folded s3_def]
        define s' where "s' = s3\<lparr>xYieldPending := w \<or> xYieldPending s\<rparr>"
        have same: "xYieldPending s3 = xYieldPending s" using m3 m1 by simp
        have op: "xTaskRemoveFromEventList e s = Some (w, s')"
          using head(1) t0 a(1) 1(1) True m1 m3 same
          by (simp add: xTaskRemoveFromEventList_def configASSERT_def s3_def [symmetric] w_def s'_def Let_def)
        have it3: "items_of (klists s') l = (if l = e then is else items_of (klists s) l)" if l: "l \<in> E" for l
        proof -
          have odd: "odd l" by (rule kbaseD(2) [OF kb l])
          have "Some l \<noteq> gen_at s1 t"
            using tb b1 odd by (auto simp: blocked_def g1)
          moreover have "\<forall>p. l \<noteq> pxReadyTasksLists p" using odd by auto
          ultimately show ?thesis using 1(8) [of l] it1 [OF l] l by (simp add: s'_def s3_def)
        qed
        show thesis
          by (rule that [OF op _ w_def _ head(2) i at _ _ it3])
            (use kw3 m3 m1 1(6) e1 r1 True in \<open>auto simp: s'_def same_tasks_def s3_def\<close>)
      qed
    next
      case False
      have p: "place_ok (prios C) E T s1 (xEventListItem t) xPendingReadyList"
        using head(2) by (simp add: place_ok_def)
      have out: "container_of (klists s1) (xEventListItem t) = None" by (simp add: e1)
      note ins = kb_insert_end [OF kmid_base [OF a(2)] out p]
      define s3 where "s3 = insert_end xPendingReadyList (xEventListItem t) s1"
      define s' where "s' = s3\<lparr>xYieldPending := w \<or> xYieldPending s\<rparr>"
      have km3: "kmid (prios C) E T s3" unfolding s3_def by (rule km_insert_end [OF a(2) out p]) simp
      have st3: "same_tasks s s3" using moved_same_tasks [OF a(3)] by (simp add: same_tasks_def s3_def)
      have g3: "gen_at s3 u = gen_at s u" and e3: "evt_at s3 u = (if u = t then Some xPendingReadyList else evt_at s u)" for u
        by (simp_all add: s3_def ins(2) g1 e1)
      have r3: "ready s3 u = ready s u" and b3: "blocked s3 u = blocked s u" for u
        by (simp_all add: ready_def blocked_def g3 same_tasks_sel(1) [OF st3])
      have "waits_ok E s3"
        using kweakD(4) [OF kw] tb pending_not_event [OF kb] by (auto simp: waits_ok_def e3 r3 b3)
      then have kw3: "kweak C idle E T s3"
        using kweakD(3,6) [OF kw] by (intro kweakI [OF kw km3 st3]) (simp_all add: g3 r3)
      have op: "xTaskRemoveFromEventList e s = Some (w, s')"
        using head(1) t0 a(1) False m1
        by (simp add: xTaskRemoveFromEventList_def configASSERT_def s3_def w_def s'_def Let_def)
      have it3: "items_of (klists s') l = (if l = e then is else items_of (klists s) l)" if l: "l \<in> E" for l
      proof -
        have "l \<noteq> xPendingReadyList" using l pending_not_event [OF kb] by blast
        then show ?thesis using ins(5) [of l] it1 [OF l] l by (simp add: s'_def s3_def)
      qed
      show thesis
        by (rule that [OF op _ w_def _ head(2) i at _ _ it3])
          (use kw3 st3 False r3 e3 in \<open>auto simp: s'_def same_tasks_def\<close>)
    qed
  qed
qed

section \<open>Suspending and deleting\<close>

lemma move_out_kweak:
  assumes kw: "kweak C idle E T s" and t: "t \<in> T" "t \<noteq> idle"
    and l: "l = xSuspendedTaskList \<or> l = xTasksWaitingTermination"
  obtains s' where "move_out l t s = Some s'" "kweak C idle E T s'" "same_tasks s s'"
    "\<And>u. ready s' u \<longleftrightarrow> u \<noteq> t \<and> ready s u" "\<And>u. gen_at s' u = (if u = t then Some l else gen_at s u)"
    "\<And>u. evt_at s' u = (if u = t then None else evt_at s u)" "\<And>u. wake_value u s' = wake_value u s"
    "pxDelayedTaskList s' = pxDelayedTaskList s" "pxOverflowDelayedTaskList s' = pxOverflowDelayedTaskList s"
    "xTickCount s' = xTickCount s"
proof -
  obtain l0 where l0: "gen_at s t = Some l0" using kweakD(3) [OF kw t(1)] by auto
  show thesis
  proof (rule km_remove [OF kweakD(1) [OF kw] l0], goal_cases)
    case (1 s1)
    note a = 1
    show thesis
    proof (rule km_leave [OF 1(2), of t], goal_cases)
      case (1 s2)
      have out: "gen_at s2 t = None" by (simp add: 1(4) a(4))
      have p: "place_ok (prios C) E T s2 (xGenericListItem t) l" using t(1) l by (auto simp: place_ok_def)
      note ins = kb_insert_end [OF kmid_base [OF 1(2)] out p]
      define s3 where "s3 = insert_end l (xGenericListItem t) s2"
      have km3: "kmid (prios C) E T s3"
        unfolding s3_def using l by (intro km_insert_end [OF 1(2) out p]) auto
      have m: "moved s s3"
        unfolding s3_def by (rule moved_trans [OF a(3) moved_trans [OF 1(3)]]) simp
      have g: "gen_at s3 u = (if u = t then Some l else gen_at s u)"
        and ev: "evt_at s3 u = (if u = t then None else evt_at s u)" for u
        by (simp_all add: s3_def ins(2) 1(4) a(4))
      have r: "ready s3 u \<longleftrightarrow> u \<noteq> t \<and> ready s u" for u
        using l by (auto simp: ready_def g moved_sel(1) [OF m])
      have b: "blocked s3 u = blocked s u" if "u \<noteq> t" for u
        using that by (simp add: blocked_def g)
      have "waits_ok E s3"
        unfolding waits_ok_def
      proof (intro allI impI)
        fix u k
        assume "evt_at s3 u = Some k"
        then have u: "u \<noteq> t" "evt_at s u = Some k" by (auto simp: ev split: if_splits)
        then show "if k \<in> E then blocked s3 u else blocked s3 u \<or> ready s3 u"
          using kweakD(4) [OF kw, unfolded waits_ok_def, rule_format, OF u(2)] by (simp add: r b)
      qed
      then have kw3: "kweak C idle E T s3"
        using kweakD(3,6) [OF kw] t(2) by (intro kweakI [OF kw km3 moved_same_tasks [OF m]]) (auto simp: g r)
      show thesis
        by (rule that [OF _ kw3 moved_same_tasks [OF m] r g ev _ moved_sel(3,4,7) [OF m]])
          (use a(1) 1(1) in \<open>simp_all add: move_out_def s3_def wake_value_def ins(3) 1(5) a(5)\<close>)
    qed
  qed
qed

lemma top_runs_fewer:
  assumes "top_runs s" "same_tasks s s'" "\<And>u. ready s' u \<Longrightarrow> ready s u"
  shows "top_runs s'"
  using assms by (auto simp: top_runs_def same_tasks_def)

lemma reset_time_kweak:
  assumes kw: "kweak C idle E T s"
  obtains n where "prvResetNextTaskUnblockTime s = Some (s\<lparr>xNextTaskUnblockTime := n\<rparr>)"
    "kweak C idle E T (s\<lparr>xNextTaskUnblockTime := n\<rparr>)"
proof -
  show thesis
  proof (rule km_reset_unblock_time [OF kweakD(1) [OF kw]], goal_cases)
    case (1 n)
    let ?s = "s\<lparr>xNextTaskUnblockTime := n\<rparr>"
    have r: "ready ?s u = ready s u" "blocked ?s u = blocked s u" for u by (simp_all add: ready_def blocked_def)
    have w: "waits_ok E ?s" using kweakD(4) [OF kw] by (simp add: waits_ok_def r)
    have "kweak C idle E T ?s"
      using kweakD(3,6) [OF kw] by (intro kweakI [OF kw 1(2) _ _ w]) (simp_all add: r same_tasks_def)
    then show thesis using that 1(1) by blast
  qed
qed

text \<open>The rest of the two operations, for the running scheduler.\<close>

lemma after_move_out:
  assumes inv: "kinv C idle E T s" and np: "\<not> pend_sv s" and t: "t = pxCurrentTCB s \<Longrightarrow> uxSchedulerSuspended s = 0"
    and kw: "kweak C idle E T s'" and st: "same_tasks (s\<lparr>uxTasksDeleted := d\<rparr>) s'"
    and r: "\<And>u. ready s' u \<longleftrightarrow> u \<noteq> t \<and> ready s u" and e: "\<And>u. evt_at s' u = (if u = t then None else evt_at s u)"
  obtains s'' where
    "(if t = pxCurrentTCB s'
      then do { configASSERT (uxSchedulerSuspended s' = 0); Some (portYIELD_WITHIN_API s') }
      else prvResetNextTaskUnblockTime s') = Some s''" "kinv C idle E T s''"
proof (cases "t = pxCurrentTCB s")
  case True
  have sus: "uxSchedulerSuspended s' = 0" "pxCurrentTCB s' = t" "uxPendedTicks s' = 0"
    using st t [OF True] True kinvD(5) [OF inv] by (simp_all add: same_tasks_def)
  have "kinv C idle E T (portYIELD_WITHIN_API s')"
    using kw sus kinvD(6) [OF inv t [OF True]] by (intro kinv_yield) (simp_all add: e)
  then show thesis using sus by (intro that [of "portYIELD_WITHIN_API s'"]) (simp_all add: configASSERT_def)
next
  case False
  show thesis
  proof (rule reset_time_kweak [OF kw], goal_cases)
    case (1 n)
    let ?s = "s'\<lparr>xNextTaskUnblockTime := n\<rparr>"
    have l: "ready ?s u = ready s' u" "evt_at ?s u = evt_at s' u" for u by (simp_all add: ready_def)
    have top: "top_runs s'" if "top_runs s"
      using that st r by (auto simp: top_runs_def same_tasks_def)
    then have top': "top_runs ?s" if "top_runs s" using that by (simp add: top_runs_def l)
    have "kinv C idle E T ?s"
      using inv 1(2) st np False top' unfolding kinv_def l by (auto simp: r e same_tasks_def)
    then show thesis using that 1(1) False st by (simp add: same_tasks_def)
  qed
qed

lemma vTaskSuspend_kinv:
  assumes inv: "kinv C idle E T s" and np: "\<not> pend_sv s"
    and t: "prvGetTCBFromHandle h s \<in> T" "prvGetTCBFromHandle h s \<noteq> idle"
    and sus: "prvGetTCBFromHandle h s = pxCurrentTCB s \<Longrightarrow> uxSchedulerSuspended s = 0"
  obtains s' where "vTaskSuspend h s = Some s'" "kinv C idle E T s'"
proof -
  show thesis
  proof (rule move_out_kweak [OF kinvD(1) [OF inv] t, of xSuspendedTaskList], goal_cases)
    case (2 s1)
    have st: "same_tasks (s\<lparr>uxTasksDeleted := uxTasksDeleted s\<rparr>) s1" using 2(3) by simp
    have run: "xSchedulerRunning s1" by (rule kweakD(8) [OF 2(2)])
    show thesis
    proof (rule after_move_out [OF inv np sus 2(2) st 2(4,6)], goal_cases)
      case (2 s'')
      then show thesis
        using \<open>move_out _ _ _ = Some s1\<close> run
        by (intro that [of s'']) (simp_all add: vTaskSuspend_def Let_def split: if_splits)
    qed
  qed simp
qed

lemma vTaskDelete_kinv:
  assumes inv: "kinv C idle E T s" and np: "\<not> pend_sv s"
    and t: "prvGetTCBFromHandle h s \<in> T" "prvGetTCBFromHandle h s \<noteq> idle"
    and sus: "prvGetTCBFromHandle h s = pxCurrentTCB s \<Longrightarrow> uxSchedulerSuspended s = 0"
  obtains s' where "vTaskDelete h s = Some s'" "kinv C idle E T s'"
proof -
  show thesis
  proof (rule move_out_kweak [OF kinvD(1) [OF inv] t, of xTasksWaitingTermination], goal_cases)
    case (2 s1)
    define s2 where "s2 = s1\<lparr>uxTasksDeleted := uxTasksDeleted s1 + 1\<rparr>"
    have st: "same_tasks (s\<lparr>uxTasksDeleted := uxTasksDeleted s + 1\<rparr>) s2"
      using 2(3) by (simp add: same_tasks_def s2_def)
    have kw2: "kweak C idle E T s2" using 2(2) by (simp add: s2_def)
    have r2: "ready s2 u \<longleftrightarrow> u \<noteq> prvGetTCBFromHandle h s \<and> ready s u"
      and e2: "evt_at s2 u = (if u = prvGetTCBFromHandle h s then None else evt_at s u)" for u
      using 2(4,6) by (simp_all add: s2_def)
    have run: "xSchedulerRunning s2" by (rule kweakD(8) [OF kw2])
    show thesis
    proof (rule after_move_out [OF inv np sus kw2 st r2 e2], goal_cases)
      case (2 s'')
      then show thesis
        using \<open>move_out _ _ _ = Some s1\<close> run
        by (intro that [of s'']) (simp_all add: vTaskDelete_def Let_def s2_def split: if_splits)
    qed
  qed simp
qed

section \<open>Waking and resuming\<close>

text \<open>A task in no event list is woken in a state with a consistent current task.\<close>

lemma wake_kinv:
  assumes inv: "kinv C idle E T s" and t: "t \<in> T" "evt_at s t = None"
  obtains s1 where "remove_item (xGenericListItem t) s = Some s1"
    "\<And>s'. klists s' = klists (prvAddTaskToReadyList t s1) \<Longrightarrow> uxTopReadyPriority s' = uxTopReadyPriority (prvAddTaskToReadyList t s1)
       \<Longrightarrow> xNextTaskUnblockTime s' = xNextTaskUnblockTime (prvAddTaskToReadyList t s1) \<Longrightarrow> xTickCount s' = xTickCount s
       \<Longrightarrow> pxDelayedTaskList s' = pxDelayedTaskList s \<Longrightarrow> pxOverflowDelayedTaskList s' = pxOverflowDelayedTaskList s
       \<Longrightarrow> same_tasks (s\<lparr>pend_sv := pend_sv s'\<rparr>) s' \<Longrightarrow> (pend_sv s \<Longrightarrow> pend_sv s')
       \<Longrightarrow> (configUSE_PREEMPTION C \<Longrightarrow> \<not> pend_sv s' \<Longrightarrow> uxPriority (tcb s t) \<le> cur_prio s) \<Longrightarrow> kinv C idle E T s'"
    "moved s s1" "\<And>u. evt_at (prvAddTaskToReadyList t s1) u = evt_at s u"
proof -
  note kw = kinvD(1) [OF inv]
  show thesis
  proof (rule wake_spec [OF kweakD(1) [OF kw] t(1) kweakD(3) [OF kw t(1)]], goal_cases)
    case (1 s1)
    define s3 where "s3 = prvAddTaskToReadyList t s1"
    note kw3 = kweak_wake [OF kw 1(2) moved_same_tasks [OF 1(4)] disjI1 [OF t(2)] 1(5,6), folded s3_def]
    note m3 = moved_sel [OF 1(4), folded s3_def]
    have e3: "evt_at s3 u = evt_at s u" for u by (simp add: s3_def 1(6))
    show thesis
    proof (rule that [OF 1(1) _ 1(3) 1(6)], fold s3_def)
      fix s'
      assume k: "klists s' = klists s3" "uxTopReadyPriority s' = uxTopReadyPriority s3"
        and n: "xNextTaskUnblockTime s' = xNextTaskUnblockTime s3" "xTickCount s' = xTickCount s"
        and d: "pxDelayedTaskList s' = pxDelayedTaskList s" "pxOverflowDelayedTaskList s' = pxOverflowDelayedTaskList s"
        and st: "same_tasks (s\<lparr>pend_sv := pend_sv s'\<rparr>) s'" and p: "pend_sv s \<Longrightarrow> pend_sv s'"
        and pr: "configUSE_PREEMPTION C \<Longrightarrow> \<not> pend_sv s' \<Longrightarrow> uxPriority (tcb s t) \<le> cur_prio s"
      have tcb: "tcb s' = tcb s3" "pxCurrentTCB s' = pxCurrentTCB s" "uxSchedulerSuspended s' = uxSchedulerSuspended s"
        "uxPendedTicks s' = uxPendedTicks s" "xYieldPending s' = xYieldPending s"
        using st m3 by (simp_all add: same_tasks_def)
      have w: "wake_value u s' = wake_value u s3" for u by (simp add: wake_value_def k)
      have km: "kmid (prios C) E T s'"
        using 1(2) kbase_cong [of s' s3] k n d m3 tcb(1) w
        by (simp add: kmid_def ktime_def s3_def [symmetric])
      have r: "ready s' u = ready s3 u" and b: "blocked s' u = blocked s3 u" for u
        by (simp_all add: ready_def blocked_def k tcb)
      have wo: "waits_ok E s'" using kweakD(4) [OF kw3(1)] by (simp add: waits_ok_def r b k)
      have st': "same_tasks (s3\<lparr>pend_sv := pend_sv s'\<rparr>) s'" using st m3 by (simp add: same_tasks_def)
      have kw': "kweak C idle E T s'"
        using kweakD(3,6) [OF kw3(1)]
        by (intro kweakI [of C idle E T "s3\<lparr>pend_sv := pend_sv s'\<rparr>", OF _ km st' _ wo]) (simp_all add: kw3(1) r k)
      have top: "top_runs s'" if "configUSE_PREEMPTION C" "\<not> pend_sv s'" "top_runs s"
        using that pr kw3(2) by (auto simp: top_runs_def r tcb m3)
      show "kinv C idle E T s'"
        using inv kw' p top kw3(2) unfolding kinv_def by (auto simp: r tcb k e3)
    qed
  qed
qed

lemma vTaskResume_kinv:
  assumes inv: "kinv C idle E T s" and t: "t \<noteq> 0"
  obtains s' where "vTaskResume C t s = Some s'" "kinv C idle E T s'"
proof (cases "t \<noteq> pxCurrentTCB s \<and> prvTaskIsTaskSuspended t s")
  case False
  then show thesis using inv t by (intro that [of s]) (auto simp: vTaskResume_def configASSERT_def)
next
  case True
  have e: "evt_at s t = None" and g: "gen_at s t = Some xSuspendedTaskList"
    using True by (simp_all add: prvTaskIsTaskSuspended_def listIS_CONTAINED_WITHIN_def listLIST_ITEM_CONTAINER_def)
  have tT: "t \<in> T" by (rule gen_in [OF kweakD(2) [OF kinvD(1) [OF inv]] g])
  show thesis
  proof (rule wake_kinv [OF inv tT e], goal_cases)
    case (1 s1)
    define s2 where "s2 = prvAddTaskToReadyList t s1"
    define s' where "s' = (if cur_prio s2 \<le> uxPriority (tcb s2 t) then taskYIELD_IF_USING_PREEMPTION C s2 else s2)"
    have m: "moved s s2" unfolding s2_def by (rule moved_trans [OF 1(3)]) simp
    note ms = moved_sel [OF m]
    have "kinv C idle E T s'"
      by (rule 1(2)) (auto simp: s'_def s2_def [symmetric] taskYIELD_IF_USING_PREEMPTION_def
        portYIELD_WITHIN_API_def ms same_tasks_def not_le split: if_splits)
    moreover have "vTaskResume C t s = Some s'"
      using t True 1(1) by (simp add: vTaskResume_def configASSERT_def s2_def s'_def Let_def)
    ultimately show thesis using that by blast
  qed
qed

text \<open>An interrupt that resumes a task asks for a switch when the function says so.\<close>

lemma pend_event_kinv:
  assumes inv: "kinv C idle E T s" and t: "t \<in> T" "evt_at s t = None" "blocked s t \<or> ready s t"
    and sus: "uxSchedulerSuspended s \<noteq> 0"
  shows "kinv C idle E T (insert_end xPendingReadyList (xEventListItem t) s)"
proof -
  let ?s = "insert_end xPendingReadyList (xEventListItem t) s"
  note kw = kinvD(1) [OF inv]
  have p: "place_ok (prios C) E T s (xEventListItem t) xPendingReadyList" using t(1) by (simp add: place_ok_def)
  note ins = kb_insert_end [OF kweakD(2) [OF kw] t(2) p]
  have km: "kmid (prios C) E T ?s" by (rule km_insert_end [OF kweakD(1) [OF kw] t(2) p]) simp
  have g: "gen_at ?s u = gen_at s u" and e: "evt_at ?s u = (if u = t then Some xPendingReadyList else evt_at s u)" for u
    by (simp_all add: ins(2))
  have r: "ready ?s u = ready s u" and b: "blocked ?s u = blocked s u" for u
    by (simp_all add: ready_def blocked_def g)
  have "waits_ok E ?s"
    unfolding waits_ok_def
  proof (intro allI impI)
    fix u k
    assume k: "evt_at ?s u = Some k"
    show "if k \<in> E then blocked ?s u else blocked ?s u \<or> ready ?s u"
    proof (cases "u = t")
      case True
      then show ?thesis using k t(3) pending_not_event [OF kweakD(2) [OF kw]] by (auto simp: e r b)
    next
      case False
      then show ?thesis
        using kweakD(4) [OF kw, unfolded waits_ok_def, rule_format, of u k] k by (simp add: e r b)
    qed
  qed
  then have "kweak C idle E T ?s"
    using kweakD(3,6) [OF kw] by (intro kweakI [OF kw km]) (simp_all add: g r same_tasks_def)
  moreover have "top_runs ?s = top_runs s" by (simp add: top_runs_def r)
  ultimately show ?thesis using inv sus unfolding kinv_def by (simp add: r)
qed

lemma xTaskResumeFromISR_kinv:
  assumes inv: "kinv C idle E T s" and t: "t \<noteq> 0"
  obtains y s' where "xTaskResumeFromISR t s = Some (y, s')"
    "kinv C idle E T (if y then portYIELD_WITHIN_API s' else s')"
proof (cases "prvTaskIsTaskSuspended t s")
  case False
  then show thesis using inv t by (intro that [of False s]) (auto simp: xTaskResumeFromISR_def configASSERT_def)
next
  case True
  have e: "evt_at s t = None" and g: "gen_at s t = Some xSuspendedTaskList"
    using True by (simp_all add: prvTaskIsTaskSuspended_def listIS_CONTAINED_WITHIN_def listLIST_ITEM_CONTAINER_def)
  have tT: "t \<in> T" by (rule gen_in [OF kweakD(2) [OF kinvD(1) [OF inv]] g])
  show thesis
  proof (cases "uxSchedulerSuspended s = 0")
    case False
    have "kinv C idle E T (insert_end xPendingReadyList (xEventListItem t) s)"
      by (rule pend_event_kinv [OF inv tT e _ False]) (simp add: blocked_def g)
    then show thesis
      using False t True
      by (intro that [of False]) (simp_all add: xTaskResumeFromISR_def configASSERT_def)
  next
    case sus: True
    show thesis
    proof (rule wake_kinv [OF inv tT e], goal_cases)
      case (1 s1)
      define s2 where "s2 = prvAddTaskToReadyList t s1"
      define y where "y \<longleftrightarrow> cur_prio s \<le> uxPriority (tcb s t)"
      have m: "moved s s2" unfolding s2_def by (rule moved_trans [OF 1(3)]) simp
      note ms = moved_sel [OF m]
      have "kinv C idle E T (if y then portYIELD_WITHIN_API s2 else s2)"
        by (rule 1(2)) (auto simp: y_def s2_def [symmetric] portYIELD_WITHIN_API_def ms same_tasks_def not_le split: if_splits)
      moreover have "xTaskResumeFromISR t s = Some (y, s2)"
        using t True 1(1) sus by (simp add: xTaskResumeFromISR_def configASSERT_def s2_def y_def)
      ultimately show thesis using that by blast
    qed
  qed
qed

section \<open>Changing a TCB\<close>

lemma set_tcb_sel [simp]:
  "klists (set_tcb t r s) = klists s" "tcb (set_tcb t r s) = (tcb s)(t := r)"
  "pxCurrentTCB (set_tcb t r s) = pxCurrentTCB s"
  "pxDelayedTaskList (set_tcb t r s) = pxDelayedTaskList s"
  "pxOverflowDelayedTaskList (set_tcb t r s) = pxOverflowDelayedTaskList s"
  "uxTasksDeleted (set_tcb t r s) = uxTasksDeleted s"
  "uxCurrentNumberOfTasks (set_tcb t r s) = uxCurrentNumberOfTasks s"
  "xTickCount (set_tcb t r s) = xTickCount s" "uxTopReadyPriority (set_tcb t r s) = uxTopReadyPriority s"
  "xSchedulerRunning (set_tcb t r s) = xSchedulerRunning s" "uxPendedTicks (set_tcb t r s) = uxPendedTicks s"
  "xYieldPending (set_tcb t r s) = xYieldPending s" "xNumOfOverflows (set_tcb t r s) = xNumOfOverflows s"
  "xNextTaskUnblockTime (set_tcb t r s) = xNextTaskUnblockTime s"
  "uxSchedulerSuspended (set_tcb t r s) = uxSchedulerSuspended s" "pend_sv (set_tcb t r s) = pend_sv s"
  "set_lists k (set_tcb t r s) = set_tcb t r (set_lists k s)"
  by (simp_all add: set_tcb_def set_lists_def)

lemma km_set_tcb:
  assumes km: "kmid mp E T s" and p: "uxPriority r = uxPriority (tcb s t) \<or> (\<forall>p. gen_at s t \<noteq> Some (pxReadyTasksLists p))"
    and r: "unat (uxPriority r) < mp" "unat (uxBasePriority r) < mp"
  shows "kmid mp E T (set_tcb t r s)"
proof -
  note kb = kmid_base [OF km]
  have pl: "place_ok mp E T (set_tcb t r s) i l" if c: "container_of (klists s) i = Some l" for i l
  proof (cases "task_of i = t \<and> even i \<and> uxPriority r \<noteq> uxPriority (tcb s t)")
    case True
    then have "i = xGenericListItem t" by (cases i rule: item_cases) auto
    then have "\<forall>p. l \<noteq> pxReadyTasksLists p" using p c True by auto
    then show ?thesis using kbaseD(12) [OF kb c] by (auto simp: place_ok_def split: if_splits)
  next
    case False
    then show ?thesis using kbaseD(12) [OF kb c] by (auto simp: place_ok_def split: if_splits)
  qed
  note D = kbaseD [OF kb]
  have own: "\<forall>u\<in>T. pvOwner (item_rec (klists s) (xGenericListItem u)) = u \<and>
      pvOwner (item_rec (klists s) (xEventListItem u)) = u \<and>
      unat (uxPriority (((tcb s)(t := r)) u)) < mp \<and> unat (uxBasePriority (((tcb s)(t := r)) u)) < mp"
    using D(6-9) r by simp
  have odds: "\<forall>l\<in>E. odd l" using D(2) by blast
  have places: "\<forall>i l. container_of (klists s) i = Some l \<longrightarrow> place_ok mp E T (set_tcb t r s) i l" using pl by blast
  have "kbase mp E T (set_tcb t r s)"
    unfolding kbase_def set_tcb_sel by (intro conjI D(1) odds D(3-5) own D(10,11) places)
  then show ?thesis using km by (simp add: kmid_def ktime_def wake_value_def)
qed

lemma km_set_event_value:
  "kmid mp E T s \<Longrightarrow> kmid mp E T (set_event_value t v s)"
  unfolding set_event_value_def by (intro km_set_value) auto

lemma km_reset_event_value:
  "kmid mp E T s \<Longrightarrow> kmid mp E T (reset_event_value t v s)"
  by (simp add: reset_event_value_def km_set_event_value)

lemma event_value_sel [simp]:
  "container_of (klists (set_event_value t v s)) j = container_of (klists s) j"
  "tcb (set_event_value t v s) = tcb s" "pxCurrentTCB (set_event_value t v s) = pxCurrentTCB s"
  "pxDelayedTaskList (set_event_value t v s) = pxDelayedTaskList s"
  "pxOverflowDelayedTaskList (set_event_value t v s) = pxOverflowDelayedTaskList s"
  "xTickCount (set_event_value t v s) = xTickCount s"
  "wake_value u (set_event_value t v s) = wake_value u s"
  "same_tasks s (set_event_value t v s)"
  "moved s (set_event_value t v s)"
  by (simp_all add: set_event_value_def same_tasks_def wake_value_def moved_def)

lemma reset_value_sel [simp]:
  "container_of (klists (reset_event_value t v s)) j = container_of (klists s) j"
  "tcb (reset_event_value t v s) = tcb s" "pxCurrentTCB (reset_event_value t v s) = pxCurrentTCB s"
  "same_tasks s (reset_event_value t v s)" "moved s (reset_event_value t v s)"
  by (simp_all add: reset_event_value_def)

lemma notify_kinv:
  assumes inv: "kinv C idle E T s" and t: "t \<in> T"
  shows "kinv C idle E T (set_notify t st v s)"
proof -
  note kw = kinvD(1) [OF inv]
  let ?r = "(tcb s t)\<lparr>eNotifyState := st, ulNotifiedValue := v\<rparr>"
  have p: "uxPriority (tcb (set_notify t st v s) u) = uxPriority (tcb s u)" for u by (simp add: set_notify_def)
  have l: "klists (set_notify t st v s) = klists s" by (simp add: set_notify_def)
  have km: "kmid (prios C) E T (set_notify t st v s)"
    unfolding set_notify_def using kbaseD(8,9) [OF kweakD(2) [OF kw] t]
    by (intro km_set_tcb [OF kweakD(1) [OF kw]]) simp_all
  have r: "ready (set_notify t st v s) u = ready s u" "blocked (set_notify t st v s) u = blocked s u" for u
    by (simp_all add: ready_def blocked_def p l)
  have w: "waits_ok E (set_notify t st v s)" using kweakD(4) [OF kw] by (simp add: waits_ok_def r l)
  have top: "top_runs (set_notify t st v s) = top_runs s" by (simp add: top_runs_def r p) (simp add: set_notify_def)
  have kw': "kweak C idle E T (set_notify t st v s)"
    using kw km w unfolding kweak_def by (simp add: r l) (simp add: set_notify_def)
  show ?thesis using inv kw' unfolding kinv_def by (simp add: r l top) (simp add: set_notify_def)
qed

lemma set_notify_sel [simp]:
  "klists (set_notify t st v s) = klists s" "pxCurrentTCB (set_notify t st v s) = pxCurrentTCB s"
  "uxSchedulerSuspended (set_notify t st v s) = uxSchedulerSuspended s" "pend_sv (set_notify t st v s) = pend_sv s"
  "uxPriority (tcb (set_notify t st v s) u) = uxPriority (tcb s u)" "xTickCount (set_notify t st v s) = xTickCount s"
  by (simp_all add: set_notify_def)

lemma xTaskNotify_kinv:
  assumes inv: "kinv C idle E T s" and t: "t \<in> T"
    and e: "eNotifyState (tcb s t) = eWaitingNotification \<Longrightarrow> evt_at s t = None"
  obtains ret s' where "xTaskNotify t v a s = Some (ret, s')" "kinv C idle E T s'"
proof -
  have t0: "t \<noteq> 0" using kbaseD(5) [OF kweakD(2) [OF kinvD(1) [OF inv]]] t by metis
  obtain ret w where nv: "notify_value a (eNotifyState (tcb s t)) v (ulNotifiedValue (tcb s t)) = (ret, w)"
    by fastforce
  define s1 where "s1 = set_notify t eNotified w s"
  have inv1: "kinv C idle E T s1" unfolding s1_def by (rule notify_kinv [OF inv t])
  show thesis
  proof (cases "eNotifyState (tcb s t) = eWaitingNotification")
    case False
    then show thesis
      using t0 nv inv1 by (intro that [of ret s1]) (simp_all add: xTaskNotify_def configASSERT_def s1_def Let_def)
  next
    case True
    have e1: "evt_at s1 t = None" using e [OF True] by (simp add: s1_def)
    show thesis
    proof (rule wake_kinv [OF inv1 t e1], goal_cases)
      case (1 s2)
      define s3 where "s3 = prvAddTaskToReadyList t s2"
      define s' where "s' = (if cur_prio s3 < uxPriority (tcb s3 t) then portYIELD_WITHIN_API s3 else s3)"
      have m: "moved s1 s3" unfolding s3_def by (rule moved_trans [OF 1(3)]) simp
      note ms = moved_sel [OF m]
      have "kinv C idle E T s'"
        by (rule 1(2)) (auto simp: s'_def s3_def [symmetric] portYIELD_WITHIN_API_def ms same_tasks_def not_less split: if_splits)
      moreover have e3: "evt_at s3 t = None"
        using e1 by (simp add: s3_def 1(4))
      ultimately show thesis
        using t0 nv True 1(1) that [of ret s']
        by (simp add: xTaskNotify_def configASSERT_def s1_def s3_def s'_def Let_def listLIST_ITEM_CONTAINER_def)
    qed
  qed
qed

lemma xTaskNotifyFromISR_kinv:
  assumes inv: "kinv C idle E T s" and t: "t \<in> T" "gen_at s t \<noteq> Some xTasksWaitingTermination"
    and e: "eNotifyState (tcb s t) = eWaitingNotification \<Longrightarrow> evt_at s t = None"
  obtains ret y s' where "xTaskNotifyFromISR t v a s = Some (ret, y, s')"
    "kinv C idle E T (if y then portYIELD_WITHIN_API s' else s')"
proof -
  have t0: "t \<noteq> 0" using kbaseD(5) [OF kweakD(2) [OF kinvD(1) [OF inv]]] t(1) by metis
  obtain ret w where nv: "notify_value a (eNotifyState (tcb s t)) v (ulNotifiedValue (tcb s t)) = (ret, w)"
    by fastforce
  define s1 where "s1 = set_notify t eNotified w s"
  have inv1: "kinv C idle E T s1" unfolding s1_def by (rule notify_kinv [OF inv t(1)])
  show thesis
  proof (cases "eNotifyState (tcb s t) = eWaitingNotification")
    case False
    then show thesis
      using t0 nv inv1
      by (intro that [of ret False s1]) (simp_all add: xTaskNotifyFromISR_def configASSERT_def s1_def Let_def)
  next
    case True
    have e1: "evt_at s1 t = None" using e [OF True] by (simp add: s1_def)
    show thesis
    proof (cases "uxSchedulerSuspended s = 0")
      case False
      have kb1: "kbase (prios C) E T s1" by (rule kweakD(2) [OF kinvD(1) [OF inv1]])
      obtain l where l: "gen_at s1 t = Some l" using kweakD(3) [OF kinvD(1) [OF inv1] t(1)] by auto
      have br: "blocked s1 t \<or> ready s1 t"
        using kbaseD(12) [OF kb1 l] t(2) l by (auto simp: place_ok_def blocked_def ready_def s1_def)
      define s3 where "s3 = insert_end xPendingReadyList (xEventListItem t) s1"
      have inv3: "kinv C idle E T s3"
        unfolding s3_def using False by (intro pend_event_kinv [OF inv1 t(1) e1 br]) (simp add: s1_def)
      have y3: "kinv C idle E T (if y then portYIELD_WITHIN_API s3 else s3)" for y
        using inv3 kinvD [OF inv3] False
        by (auto simp: s3_def s1_def intro!: kinv_yield)
      show thesis
        using t0 nv True False e1
        by (intro that [OF _ y3])
          (simp add: xTaskNotifyFromISR_def configASSERT_def s1_def [symmetric] s3_def Let_def
            listLIST_ITEM_CONTAINER_def, simp add: s1_def)
    next
      case sus: True
      show thesis
      proof (rule wake_kinv [OF inv1 t(1) e1], goal_cases)
        case (1 s2)
        define s3 where "s3 = prvAddTaskToReadyList t s2"
        define y where "y \<longleftrightarrow> cur_prio s3 < uxPriority (tcb s3 t)"
        have m: "moved s1 s3" unfolding s3_def by (rule moved_trans [OF 1(3)]) simp
        note ms = moved_sel [OF m]
        have "kinv C idle E T (if y then portYIELD_WITHIN_API s3 else s3)"
          by (rule 1(2)) (auto simp: y_def s3_def [symmetric] portYIELD_WITHIN_API_def ms same_tasks_def not_less
              split: if_splits)
        moreover have "xTaskNotifyFromISR t v a s = Some (ret, y, s3)"
          using t0 nv True sus 1(1) e1
          by (simp add: xTaskNotifyFromISR_def configASSERT_def s1_def s3_def y_def Let_def listLIST_ITEM_CONTAINER_def)
        ultimately show thesis using that by blast
      qed
    qed
  qed
qed

section \<open>Waiting for a notification\<close>

text \<open>\<open>wait_notified\<close>: the common part of \<open>ulTaskNotifyTake\<close> and \<open>xTaskNotifyWait\<close> that blocks.\<close>

lemma notify_block_kinv:
  assumes inv: "kinv C idle E T s" and run: "running idle s" and n: "0 < n"
  obtains s2 where "block_current n (set_notify (pxCurrentTCB s) st v s) = Some s2"
    "kinv C idle E T (portYIELD_WITHIN_API s2)"
proof -
  define s1 where "s1 = set_notify (pxCurrentTCB s) st v s"
  note cur = kweakD(5) [OF kinvD(1) [OF inv]]
  have inv1: "kinv C idle E T s1" unfolding s1_def by (rule notify_kinv [OF inv cur])
  note kw1 = kinvD(1) [OF inv1]
  have c: "pxCurrentTCB s1 = pxCurrentTCB s" "uxSchedulerSuspended s1 = 0" "pxCurrentTCB s1 \<noteq> idle"
    using run by (simp_all add: s1_def running_def)
  have "n \<noteq> 0" using n by auto
  show thesis
  proof (rule km_block [OF kweakD(1) [OF kw1] kweakD(5) [OF kw1] kweakD(3) [OF kw1 kweakD(5) [OF kw1]] \<open>n \<noteq> 0\<close>], goal_cases)
    case (1 s2 l)
    note st = moved_same_tasks [OF 1(3)]
    have g: "gen_at s2 u = (if u = pxCurrentTCB s1 then Some l else gen_at s1 u)" and e: "evt_at s2 u = evt_at s1 u" for u
      by (simp_all add: 1(5))
    have "kinv C idle E T (portYIELD_WITHIN_API s2)"
      using kweak_blocked(1) [OF kw1 1(2) st c(3) 1(4) g e] c kinvD(5,6) [OF inv1] same_tasks_sel [OF st]
      by (intro kinv_yield) (simp_all add: e)
    then show thesis using that 1(1) by (simp add: s1_def)
  qed
qed

lemma ulTaskNotifyTake_kinv:
  assumes inv: "kinv C idle E T s" and run: "running idle s"
  obtains s' where "ulTaskNotifyTake_enter n s = Some s'" "kinv C idle E T s'"
proof (cases "ulNotifiedValue (tcb s (pxCurrentTCB s)) = 0 \<and> 0 < n")
  case True
  then have "0 < n" by simp
  from notify_block_kinv [OF inv run this, of eWaitingNotification "ulNotifiedValue (tcb s (pxCurrentTCB s))"]
  obtain s2 where "block_current n (set_notify (pxCurrentTCB s) eWaitingNotification
      (ulNotifiedValue (tcb s (pxCurrentTCB s))) s) = Some s2" "kinv C idle E T (portYIELD_WITHIN_API s2)" .
  then show thesis using True by (intro that) (simp_all add: ulTaskNotifyTake_enter_def Let_def)
next
  case False
  then show thesis
    using inv notify_kinv [OF inv kweakD(5) [OF kinvD(1) [OF inv]], of eWaitingNotification 0]
    by (intro that [of "if ulNotifiedValue (tcb s (pxCurrentTCB s)) = 0
        then set_notify (pxCurrentTCB s) eWaitingNotification 0 s else s"])
      (auto simp: ulTaskNotifyTake_enter_def Let_def)
qed

lemma xTaskNotifyWait_kinv:
  assumes inv: "kinv C idle E T s" and run: "running idle s"
  obtains s' where "xTaskNotifyWait_enter b n s = Some s'" "kinv C idle E T s'"
proof (cases "eNotifyState (tcb s (pxCurrentTCB s)) \<noteq> eNotified \<and> 0 < n")
  case True
  then have "0 < n" by simp
  from notify_block_kinv [OF inv run this, of eWaitingNotification "ulNotifiedValue (tcb s (pxCurrentTCB s)) AND NOT b"]
  obtain s2 where "block_current n (set_notify (pxCurrentTCB s) eWaitingNotification
      (ulNotifiedValue (tcb s (pxCurrentTCB s)) AND NOT b) s) = Some s2" "kinv C idle E T (portYIELD_WITHIN_API s2)" .
  then show thesis using True by (intro that) (simp_all add: xTaskNotifyWait_enter_def Let_def)
next
  case False
  let ?v = "ulNotifiedValue (tcb s (pxCurrentTCB s)) AND NOT b"
  show thesis
    using inv notify_kinv [OF inv kweakD(5) [OF kinvD(1) [OF inv]], of eWaitingNotification ?v] False
    by (intro that [of "if eNotifyState (tcb s (pxCurrentTCB s)) \<noteq> eNotified
        then set_notify (pxCurrentTCB s) eWaitingNotification ?v s else s"])
      (auto simp: xTaskNotifyWait_enter_def Let_def)
qed

lemma notify_leave_kinv:
  assumes "kinv C idle E T s"
  shows "kinv C idle E T (snd (ulTaskNotifyTake_leave c s))" "kinv C idle E T (snd (snd (xTaskNotifyWait_leave b s)))"
  using notify_kinv [OF assms kweakD(5) [OF kinvD(1) [OF assms]]]
  by (simp_all add: ulTaskNotifyTake_leave_def xTaskNotifyWait_leave_def Let_def)

section \<open>The context switch\<close>

lemma highest_ready_spec:
  assumes "lists_ok L k" "\<And>q. q \<le> n \<Longrightarrow> pxReadyTasksLists q \<in> L" "\<exists>q\<le>n. items_of k (pxReadyTasksLists q) \<noteq> []"
  obtains p where "highest_ready k n = Some p" "p \<le> n" "items_of k (pxReadyTasksLists p) \<noteq> []"
    "\<And>q. p < q \<Longrightarrow> q \<le> n \<Longrightarrow> items_of k (pxReadyTasksLists q) = []"
proof -
  have "\<exists>p. highest_ready k n = Some p \<and> p \<le> n \<and> items_of k (pxReadyTasksLists p) \<noteq> [] \<and>
      (\<forall>q. p < q \<longrightarrow> q \<le> n \<longrightarrow> items_of k (pxReadyTasksLists q) = [])"
    using assms(2,3)
  proof (induction n)
    case 0
    then show ?case using listLIST_IS_EMPTY_items [OF assms(1)] by auto
  next
    case (Suc n)
    have e: "listLIST_IS_EMPTY k (pxReadyTasksLists (Suc n)) \<longleftrightarrow> items_of k (pxReadyTasksLists (Suc n)) = []"
      by (rule listLIST_IS_EMPTY_items [OF assms(1) Suc.prems(1)]) simp
    show ?case
    proof (cases "items_of k (pxReadyTasksLists (Suc n)) = []")
      case True
      then have "\<exists>q\<le>n. items_of k (pxReadyTasksLists q) \<noteq> []" using Suc.prems(2) by (metis le_Suc_eq)
      from Suc.IH [OF Suc.prems(1) this]
      obtain p where "highest_ready k n = Some p" "p \<le> n" "items_of k (pxReadyTasksLists p) \<noteq> []"
        "\<forall>q. p < q \<longrightarrow> q \<le> n \<longrightarrow> items_of k (pxReadyTasksLists q) = []" by auto
      then show ?thesis using True e by (intro exI [of _ p]) (auto simp: le_Suc_eq)
    next
      case False
      then show ?thesis using e by simp
    qed
  qed
  then show thesis using that by blast
qed

text \<open>Moving \<open>pxIndex\<close> changes nothing else.\<close>

lemma next_entry_frame:
  "item_rec (snd (listGET_OWNER_OF_NEXT_ENTRY l st)) = item_rec st"
  "l' \<noteq> l \<Longrightarrow> list_rec (snd (listGET_OWNER_OF_NEXT_ENTRY l st)) l' = list_rec st l'"
  "get_next (snd (listGET_OWNER_OF_NEXT_ENTRY l st)) = get_next st"
  "get_prev (snd (listGET_OWNER_OF_NEXT_ENTRY l st)) = get_prev st"
  "uxNumberOfItems (list_rec (snd (listGET_OWNER_OF_NEXT_ENTRY l st)) k) = uxNumberOfItems (list_rec st k)"
  by (simp_all add: listGET_OWNER_OF_NEXT_ENTRY_def Let_def) (simp_all add: set_index_def)

lemma next_entry_lists:
  assumes ok: "lists_ok L st" and l: "l \<in> L" and ne: "items_of st l \<noteq> []"
  obtains y st' where "listGET_OWNER_OF_NEXT_ENTRY l st = (Some (pvOwner (item_rec st y)), st')"
    "y \<in> set (items_of st l)" "lists_ok L st'" "items_of st' = items_of st" "item_rec st' = item_rec st"
    "y = hd (rr_order st l)" "rr_order st' l = tl (rr_order st l) @ [hd (rr_order st l)]"
proof -
  note at = lists_ok_at [OF ok l]
  have "rr_order st l \<noteq> []" using rr_order_mset [OF at] ne by auto
  then obtain y ys where o: "rr_order st l = y # ys" by (cases "rr_order st l") auto
  show thesis
  proof (rule next_entry_step [OF at o], goal_cases)
    case (1 st')
    note f = next_entry_frame [where l = l and st = st, unfolded 1(1) snd_conv]
    have "walk st' n p = walk st n p" for n p
      by (induction n arbitrary: p) (auto simp: f(3) split: lptr.splits)
    then have items: "items_of st' = items_of st" by (simp add: items_of_def f(3,5) fun_eq_iff)
    have at': "list_at st' l' (items_of st l')" if "l' \<in> L" for l'
    proof (cases "l' = l")
      case False
      then show ?thesis
        using lists_ok_at [OF ok that] by (simp add: list_at_def f(2) [OF False] 1(4) f(3,4))
    qed (use 1(2) in simp)
    have ok': "lists_ok L st'"
      using ok at' unfolding lists_ok_def items 1(4) by blast
    have mem: "y \<in> set (items_of st l)" using rr_order_mset [OF at] o by (metis list.set_intros(1) set_mset_mset)
    show thesis by (rule that [OF 1(1) mem ok' items 1(4)]) (simp_all add: o 1(3))
  qed
qed

lemma switch_spec:
  assumes kw: "kweak C idle E T s" and run: "uxSchedulerSuspended s = 0"
  obtains s' where "vTaskSwitchContext s = Some s'" "kweak C idle E T s'"
    "same_tasks (s\<lparr>pxCurrentTCB := pxCurrentTCB s', xYieldPending := False\<rparr>) s'"
    "\<And>j. item_rec (klists s') j = item_rec (klists s) j" "items_of (klists s') = items_of (klists s)"
    "ready s' (pxCurrentTCB s')" "top_runs s'" "xTickCount s' = xTickCount s"
    "pxDelayedTaskList s' = pxDelayedTaskList s" "pxOverflowDelayedTaskList s' = pxOverflowDelayedTaskList s"
    "xGenericListItem (pxCurrentTCB s') = hd (rr_order (klists s) (pxReadyTasksLists (unat (cur_prio s'))))"
    "rr_order (klists s') (pxReadyTasksLists (unat (cur_prio s')))
       = tl (rr_order (klists s) (pxReadyTasksLists (unat (cur_prio s')))) @ [xGenericListItem (pxCurrentTCB s')]"
proof -
  note km = kweakD(1) [OF kw] and kb = kweakD(2) [OF kw]
  let ?n = "unat (uxTopReadyPriority s)"
  have L: "pxReadyTasksLists q \<in> kernel_lists (prios C) \<union> E" if "q \<le> ?n" for q
    using that kbaseD(10) [OF kb] by simp
  have in_list: "xGenericListItem t \<in> set (items_of (klists s) (pxReadyTasksLists (unat (uxPriority (tcb s t)))))"
    and le_top: "unat (uxPriority (tcb s t)) \<le> ?n" if "ready s t" for t
  proof -
    have c: "gen_at s t = Some (pxReadyTasksLists (unat (uxPriority (tcb s t))))" using that by (simp add: ready_def)
    show "unat (uxPriority (tcb s t)) \<le> ?n" using kbaseD(12) [OF kb c] by (simp add: place_ok_def)
    then show "xGenericListItem t \<in> set (items_of (klists s) (pxReadyTasksLists (unat (uxPriority (tcb s t)))))"
      using contents_home [OF kb L] c by simp
  qed
  have "items_of (klists s) (pxReadyTasksLists (unat (uxPriority (tcb s idle)))) \<noteq> []"
    using in_list [OF kweakD(6) [OF kw]] by auto
  then have ex: "\<exists>q\<le>?n. items_of (klists s) (pxReadyTasksLists q) \<noteq> []"
    using le_top [OF kweakD(6) [OF kw]] by blast
  show thesis
  proof (rule highest_ready_spec [OF kbaseD(1) [OF kb] L ex], goal_cases)
    case (2 p)
    note pL = L [OF 2(2)]
    show thesis
    proof (rule next_entry_lists [OF kbaseD(1) [OF kb] pL 2(3)], goal_cases)
      case (1 y k)
      have yc: "container_of (klists s) y = Some (pxReadyTasksLists p)" using contents_home [OF kb pL] 1(2) by simp
      define t where "t = task_of y"
      have y: "y = xGenericListItem t" unfolding t_def using yc by (intro state_item [OF kb]) auto
      have tT: "t \<in> T" using gen_in [OF kb] yc y by simp
      have own: "pvOwner (item_rec (klists s) y) = t" using kbaseD(6) [OF kb tT] y by simp
      define s' where "s' = set_lists k (s\<lparr>xYieldPending := False, uxTopReadyPriority := of_nat p, pxCurrentTCB := t\<rparr>)"
      have op: "vTaskSwitchContext s = Some s'"
        using run 2(1) 1(1) own
        by (simp add: vTaskSwitchContext_def taskSELECT_HIGHEST_PRIORITY_TASK_def s'_def)
      have sel: "klists s' = k" "tcb s' = tcb s" "pxCurrentTCB s' = t" "xTickCount s' = xTickCount s"
        "pxDelayedTaskList s' = pxDelayedTaskList s" "pxOverflowDelayedTaskList s' = pxOverflowDelayedTaskList s"
        "uxTopReadyPriority s' = of_nat p" "xNextTaskUnblockTime s' = xNextTaskUnblockTime s"
        by (simp_all add: s'_def)
      have p32: "unat (of_nat p :: u32) = p"
        using 2(2) unat_u32 [of "uxTopReadyPriority s"] by (simp add: unat_of_nat)
      have rp: "unat (uxPriority (tcb s u)) \<le> p" if "ready s u" for u
      proof (rule ccontr)
        assume "\<not> unat (uxPriority (tcb s u)) \<le> p"
        then have "items_of (klists s) (pxReadyTasksLists (unat (uxPriority (tcb s u)))) = []"
          using 2(4) le_top [OF that] by simp
        then show False using in_list [OF that] by simp
      qed
      have pl: "place_ok (prios C) E T s' i l" if c: "container_of k i = Some l" for i l
      proof -
        have c': "container_of (klists s) i = Some l" using c 1(5) by simp
        have "ready s (task_of i)" if "even i" "l = pxReadyTasksLists q" for q
        proof -
          have "i = xGenericListItem (task_of i)" using that(1) by (cases i rule: item_cases) auto
          then show ?thesis using in_ready_list [OF kb] c' that(2) by metis
        qed
        then show ?thesis
          using kbaseD(12) [OF kb c'] rp unfolding place_ok_def sel p32 by (auto split: if_splits)
      qed
      note D = kbaseD [OF kb]
      have own: "\<forall>u\<in>T. pvOwner (item_rec k (xGenericListItem u)) = u \<and> pvOwner (item_rec k (xEventListItem u)) = u \<and>
          unat (uxPriority (tcb s u)) < prios C \<and> unat (uxBasePriority (tcb s u)) < prios C"
        using D(6-9) by (simp add: 1(5))
      have odds: "\<forall>l\<in>E. odd l" using D(2) by blast
      have places: "\<forall>i l. container_of k i = Some l \<longrightarrow> place_ok (prios C) E T s' i l" using pl by blast
      have top: "p < prios C" using 2(2) D(10) by simp
      have kb': "kbase (prios C) E T s'"
        unfolding kbase_def sel p32 by (intro conjI 1(3) odds D(3-5) own top D(11) places)
      have "ktime s'" using km by (simp add: kmid_def ktime_def sel 1(4,5) wake_value_def)
      then have km': "kmid (prios C) E T s'" using kb' by (simp add: kmid_def)
      have r: "ready s' u = ready s u" and b: "blocked s' u = blocked s u" for u
        by (simp_all add: ready_def blocked_def sel 1(5))
      have "waits_ok E s'" using kweakD(4) [OF kw] by (simp add: waits_ok_def r b sel 1(5))
      then have kw': "kweak C idle E T s'"
        using kw km' tT unfolding kweak_def by (simp add: r sel 1(5)) (simp add: s'_def)
      have rt: "ready s t" using in_ready_list [OF kb] yc y by metis
      have pt: "unat (uxPriority (tcb s t)) = p" using rt yc y by (simp add: ready_def)
      have "top_runs s'"
        unfolding top_runs_def r sel word_le_nat_alt pt using rp by blast
      moreover have "same_tasks (s\<lparr>pxCurrentTCB := pxCurrentTCB s', xYieldPending := False\<rparr>) s'"
        by (simp add: same_tasks_def s'_def)
      ultimately show thesis
        by (intro that [OF op kw']) (use rt 1(6,7) y pt in \<open>simp_all add: r sel 1(4,5)\<close>)
    qed
  qed simp
qed

lemma PendSV_kinv:
  assumes inv: "kinv C idle E T s"
  obtains s' where "PendSV_Handler s = Some s'" "kinv C idle E T s'"
proof (cases "uxSchedulerSuspended s = 0")
  case True
  have kw: "kweak C idle E T (s\<lparr>pend_sv := False\<rparr>)" "uxSchedulerSuspended (s\<lparr>pend_sv := False\<rparr>) = 0"
    using kinvD(1) [OF inv] True by simp_all
  show thesis
  proof (rule switch_spec [OF kw], goal_cases)
    case (1 s')
    have "kinv C idle E T s'"
      using 1(2,3,6,7) kinvD(5,6) [OF inv True] True unfolding kinv_def by (simp add: same_tasks_def 1(4))
    then show thesis using that 1(1) by (simp add: PendSV_Handler_def)
  qed
next
  case False
  have "kinv C idle E T (s\<lparr>pend_sv := False, xYieldPending := True\<rparr>)"
    using inv False by (simp add: kinv_def)
  then show thesis using that False by (simp add: PendSV_Handler_def vTaskSwitchContext_def)
qed

section \<open>Priorities\<close>

text \<open>A ready task is taken out, its TCB is changed, and it goes to the list of its new priority.\<close>

lemma readd_kweak:
  assumes kw: "kweak C idle E T s" and t: "t \<in> T" "ready s t"
    and km: "kmid (prios C) E T s1" and st: "same_tasks (s\<lparr>tcb := (tcb s)(t := r)\<rparr>) s1"
    and c: "\<And>j. container_of (klists s1) j = (if j = xGenericListItem t then None else container_of (klists s) j)"
  defines "s' \<equiv> prvAddTaskToReadyList t s1"
  shows "kweak C idle E T s'" "same_tasks (s\<lparr>tcb := (tcb s)(t := r)\<rparr>) s'"
    "ready s' u = ready s u" "evt_at s' u = evt_at s u"
proof -
  have g: "gen_at s t = Some (pxReadyTasksLists (unat (uxPriority (tcb s t))))" using t(2) by (simp add: ready_def)
  have out: "gen_at s1 t = None" by (simp add: c)
  note add = kb_add_ready [OF kmid_base [OF km] t(1) out, folded s'_def]
  have km': "kmid (prios C) E T s'" unfolding s'_def by (rule km_add_ready [OF km t(1) out])
  show st': "same_tasks (s\<lparr>tcb := (tcb s)(t := r)\<rparr>) s'"
    using st by (simp add: s'_def same_tasks_def)
  have tcb': "tcb s' = (tcb s)(t := r)" "tcb s1 = (tcb s)(t := r)"
    using st by (simp_all add: s'_def same_tasks_def)
  show rr: "ready s' u = ready s u" and ee: "evt_at s' u = evt_at s u" for u
    using g by (auto simp: ready_def tcb' add(3) c)
  have bb: "blocked s' u = blocked s u" for u
    using g by (auto simp: blocked_def tcb' add(3) c)
  have gn: "gen_at s' u \<noteq> None" if "u \<in> T" for u
    using kweakD(3) [OF kw that] by (auto simp: add(3) c)
  have "waits_ok E s'" using kweakD(4) [OF kw] by (simp add: waits_ok_def rr bb ee)
  then show "kweak C idle E T s'"
    using kw km' gn st' unfolding kweak_def by (simp add: rr same_tasks_def)
qed

text \<open>
  A task gets a new priority and moves to the ready list of that priority, if it was in a ready
  list: the common part of \<open>vTaskPrioritySet\<close> and of priority inheritance.
\<close>

definition reprioritise :: "task \<Rightarrow> tskTCB \<Rightarrow> kernel \<Rightarrow> kernel option" where
  "reprioritise t r s =
     (if listIS_CONTAINED_WITHIN (klists s) (pxReadyTasksLists (unat (uxPriority (tcb s t)))) (xGenericListItem t)
      then do { s' \<leftarrow> remove_item (xGenericListItem t) s; Some (prvAddTaskToReadyList t (set_tcb t r s')) }
      else Some (set_tcb t r s))"

lemma reprioritise_kweak:
  assumes kw: "kweak C idle E T s" and t: "t \<in> T"
    and r: "unat (uxPriority r) < prios C" "unat (uxBasePriority r) < prios C"
  obtains s' where "reprioritise t r s = Some s'" "kweak C idle E T s'"
    "same_tasks (s\<lparr>tcb := (tcb s)(t := r)\<rparr>) s'" "\<And>u. ready s' u = ready s u" "\<And>u. evt_at s' u = evt_at s u"
proof (cases "ready s t")
  case True
  have g: "gen_at s t = Some (pxReadyTasksLists (unat (uxPriority (tcb s t))))" using True by (simp add: ready_def)
  show thesis
  proof (rule km_remove [OF kweakD(1) [OF kw] g], goal_cases)
    case (1 s1)
    note a = 1 and m1 = moved_sel [OF 1(3)]
    have km2: "kmid (prios C) E T (set_tcb t r s1)" by (rule km_set_tcb [OF 1(2) _ r]) (simp add: 1(4))
    have st: "same_tasks (s\<lparr>tcb := (tcb s)(t := r)\<rparr>) (set_tcb t r s1)"
      using m1 by (simp add: same_tasks_def)
    have c: "container_of (klists (set_tcb t r s1)) j
        = (if j = xGenericListItem t then None else container_of (klists s) j)" for j
      by (simp add: 1(4))
    note re = readd_kweak [OF kw t True km2 st c]
    show thesis
      using a(1) g by (intro that [OF _ re]) (simp add: reprioritise_def listIS_CONTAINED_WITHIN_def)
  qed
next
  case False
  have nr: "\<forall>p. gen_at s t \<noteq> Some (pxReadyTasksLists p)"
    using False in_ready_list [OF kweakD(2) [OF kw]] by blast
  define s' where "s' = set_tcb t r s"
  have km': "kmid (prios C) E T s'" unfolding s'_def by (rule km_set_tcb [OF kweakD(1) [OF kw] _ r]) (use nr in blast)
  have st: "same_tasks (s\<lparr>tcb := (tcb s)(t := r)\<rparr>) s'" by (simp add: s'_def same_tasks_def)
  have rr: "ready s' u = ready s u" and bb: "blocked s' u = blocked s u" and ee: "evt_at s' u = evt_at s u" for u
    using nr by (auto simp: ready_def blocked_def s'_def)
  have "waits_ok E s'" using kweakD(4) [OF kw] by (simp add: waits_ok_def rr bb ee)
  then have "kweak C idle E T s'"
    using kw km' unfolding kweak_def by (simp add: rr) (simp add: s'_def)
  then show thesis
    using nr by (intro that [OF _ _ st rr ee]) (simp_all add: reprioritise_def listIS_CONTAINED_WITHIN_def s'_def)
qed

lemma reset_value_kweak:
  assumes kw: "kweak C idle E T s"
  shows "kweak C idle E T (reset_event_value t v s)" "kweak C idle E T (set_event_value t v s)"
proof -
  have r: "ready (set_event_value t v s) u = ready s u" "blocked (set_event_value t v s) u = blocked s u" for u
    by (simp_all add: ready_def blocked_def)
  have "waits_ok E (set_event_value t v s)" using kweakD(4) [OF kw] by (simp add: waits_ok_def r)
  then show s: "kweak C idle E T (set_event_value t v s)"
    using kweakD(3,6) [OF kw] by (intro kweakI [OF kw km_set_event_value [OF kweakD(1) [OF kw]]]) (simp_all add: r)
  show "kweak C idle E T (reset_event_value t v s)"
    using s kw by (simp add: reset_event_value_def)
qed

lemma vTaskPrioritySet_eq:
  assumes "p < configMAX_PRIORITIES C" "uxBasePriority (tcb s t) \<noteq> p" "prvGetTCBFromHandle h s = t"
  shows "vTaskPrioritySet C h p s =
    map_option (\<lambda>s3. if (if uxBasePriority (tcb s t) < p then t \<noteq> pxCurrentTCB s \<and> cur_prio s \<le> p else t = pxCurrentTCB s)
                     then taskYIELD_IF_USING_PREEMPTION C s3 else s3)
      (reprioritise t ((if uxBasePriority (tcb s t) = uxPriority (tcb s t)
                        then (tcb s t)\<lparr>uxPriority := p\<rparr> else tcb s t)\<lparr>uxBasePriority := p\<rparr>)
         (reset_event_value t (configMAX_PRIORITIES C - p) s))"
proof -
  have c: "reset_event_value t v (set_tcb t r s) = set_tcb t r (reset_event_value t v s)" for r v
    by (simp add: reset_event_value_def event_value_def set_event_value_def)
  have d: "remove_item i (set_tcb t r s) = map_option (set_tcb t r) (remove_item i s)" for i r s
    by (cases "unlink_item i (klists s)") (simp_all add: remove_item_def)
  have nle: "\<not> configMAX_PRIORITIES C \<le> p" using assms(1) by simp
  define v where "v = configMAX_PRIORITIES C - p"
  define r where "r = (if uxBasePriority (tcb s t) = uxPriority (tcb s t)
      then (tcb s t)\<lparr>uxPriority := p\<rparr> else tcb s t)\<lparr>uxBasePriority := p\<rparr>"
  define y where "y \<longleftrightarrow> (if uxBasePriority (tcb s t) < p then t \<noteq> pxCurrentTCB s \<and> cur_prio s \<le> p else t = pxCurrentTCB s)"
  define q where "q = pxReadyTasksLists (unat (uxPriority (tcb s t)))"
  have "vTaskPrioritySet C h p s =
      do { s3 \<leftarrow> (if listIS_CONTAINED_WITHIN (klists (set_tcb t r (reset_event_value t v s))) q (xGenericListItem t)
                 then do { s' \<leftarrow> remove_item (xGenericListItem t) (set_tcb t r (reset_event_value t v s));
                           Some (prvAddTaskToReadyList t s') }
                 else Some (set_tcb t r (reset_event_value t v s)));
           Some (if y then taskYIELD_IF_USING_PREEMPTION C s3 else s3) }"
    unfolding vTaskPrioritySet_def Let_def configASSERT_def assms(3) if_P [OF assms(1)] if_not_P [OF nle]
      if_P [OF assms(2)] c bind.bind_lunit q_def r_def y_def v_def ..
  then show ?thesis
    unfolding d reprioritise_def v_def [symmetric] r_def [symmetric] y_def [symmetric] q_def set_tcb_sel(1)
    by (cases "remove_item (xGenericListItem t) (reset_event_value t v s)") simp_all
qed

lemma vTaskPrioritySet_kinv:
  assumes inv: "kinv C idle E T s" and t: "prvGetTCBFromHandle h s \<in> T" and p: "p < configMAX_PRIORITIES C"
  obtains s' where "vTaskPrioritySet C h p s = Some s'" "kinv C idle E T s'"
proof -
  define t where "t = prvGetTCBFromHandle h s"
  note kw = kinvD(1) [OF inv]
  have tT: "t \<in> T" using t by (simp add: t_def)
  show thesis
  proof (cases "uxBasePriority (tcb s t) = p")
    case True
    have nle: "\<not> configMAX_PRIORITIES C \<le> p" and ne: "\<not> uxBasePriority (tcb s t) \<noteq> p" using p True by simp_all
    have "vTaskPrioritySet C h p s = Some s"
      unfolding vTaskPrioritySet_def Let_def configASSERT_def t_def [symmetric] if_P [OF p] if_not_P [OF nle]
        if_not_P [OF ne] bind.bind_lunit ..
    then show thesis using inv by (intro that [of s])
  next
    case False
    define r where "r = (if uxBasePriority (tcb s t) = uxPriority (tcb s t)
        then (tcb s t)\<lparr>uxPriority := p\<rparr> else tcb s t)\<lparr>uxBasePriority := p\<rparr>"
    define y where "y \<longleftrightarrow> (if uxBasePriority (tcb s t) < p then t \<noteq> pxCurrentTCB s \<and> cur_prio s \<le> p else t = pxCurrentTCB s)"
    define s1 where "s1 = reset_event_value t (configMAX_PRIORITIES C - p) s"
    have kw1: "kweak C idle E T s1" unfolding s1_def by (rule reset_value_kweak(1) [OF kw])
    have s1: "tcb s1 = tcb s" "same_tasks s s1" "\<And>j. container_of (klists s1) j = container_of (klists s) j"
      by (simp_all add: s1_def)
    have r1: "ready s1 u = ready s u" for u by (simp add: ready_def s1)
    have pr: "unat (uxPriority r) < prios C" "unat (uxBasePriority r) < prios C"
      using p kbaseD(8) [OF kweakD(2) [OF kw] tT] by (auto simp: r_def word_less_nat_alt)
    show thesis
    proof (rule reprioritise_kweak [OF kw1 tT pr], goal_cases)
      case (1 s3)
      have sel: "tcb s3 = (tcb s)(t := r)" "pxCurrentTCB s3 = pxCurrentTCB s" "pend_sv s3 = pend_sv s"
        "uxSchedulerSuspended s3 = uxSchedulerSuspended s" "xYieldPending s3 = xYieldPending s"
        "uxPendedTicks s3 = uxPendedTicks s"
        using 1(3) s1(1,2) by (simp_all add: same_tasks_def)
      define s' where "s' = (if y then taskYIELD_IF_USING_PREEMPTION C s3 else s3)"
      have eq: "vTaskPrioritySet C h p s = Some s'"
        using vTaskPrioritySet_eq [OF p False] 1(1) by (simp add: t_def [symmetric] s1_def r_def s'_def y_def)
      have r3: "ready s3 u = ready s u" and e3: "evt_at s3 u = evt_at s u" for u using 1(4,5) r1 s1(3) by simp_all
      have top: "top_runs s3" if "top_runs s" "\<not> y"
        unfolding top_runs_def r3 sel
      proof (intro allI impI)
        fix u
        assume u: "ready s u"
        then have le: "uxPriority (tcb s u) \<le> cur_prio s" using that(1) by (simp add: top_runs_def)
        show "uxPriority (((tcb s)(t := r)) u) \<le> uxPriority (((tcb s)(t := r)) (pxCurrentTCB s))"
          using le that(2) False by (auto simp: y_def r_def not_le not_less split: if_splits)
      qed
      have "kinv C idle E T s3" if "\<not> y \<or> \<not> configUSE_PREEMPTION C"
        using inv 1(2) that top unfolding kinv_def sel by (auto simp: r3 e3)
      moreover have "kinv C idle E T (portYIELD_WITHIN_API s3)"
        using kinvD [OF inv] 1(2) sel by (intro kinv_yield) (auto simp: r3 e3)
      ultimately have "kinv C idle E T s'" by (simp add: s'_def taskYIELD_IF_USING_PREEMPTION_def)
      then show thesis using that eq by blast
    qed
  qed
qed

lemma reset_set_commute:
  "reset_event_value t v (set_tcb u r s) = set_tcb u r (reset_event_value t v s)"
  "set_event_value t v (set_tcb u r s) = set_tcb u r (set_event_value t v s)"
  by (simp_all add: reset_event_value_def event_value_def set_event_value_def)

text \<open>
  The holder of a mutex inherits the priority of the task that waits for it: the invariant stays
  true, and nothing else about the tasks changes.
\<close>

lemma vTaskPriorityInherit_kweak:
  assumes kw: "kweak C idle E T s" and t: "t \<in> T \<or> t = 0"
  obtains s' r where "vTaskPriorityInherit C t s = Some s'" "kweak C idle E T s'"
    "same_tasks (s\<lparr>tcb := (tcb s)(t := r)\<rparr>) s'" "\<And>u. ready s' u = ready s u" "\<And>u. evt_at s' u = evt_at s u"
    "uxBasePriority r = uxBasePriority (tcb s t)" "uxMutexesHeld r = uxMutexesHeld (tcb s t)"
    "uxPriority r = (if t = 0 then uxPriority (tcb s t) else max (uxPriority (tcb s t)) (cur_prio s))"
proof (cases "t \<noteq> 0 \<and> uxPriority (tcb s t) < cur_prio s")
  case True
  have tT: "t \<in> T" using True t by simp
  define s1 where "s1 = reset_event_value t (configMAX_PRIORITIES C - cur_prio s) s"
  define r where "r = (tcb s t)\<lparr>uxPriority := cur_prio s\<rparr>"
  have kw1: "kweak C idle E T s1" unfolding s1_def by (rule reset_value_kweak(1) [OF kw])
  have s1: "tcb s1 = tcb s" "pxCurrentTCB s1 = pxCurrentTCB s" "same_tasks s s1"
    "\<And>j. container_of (klists s1) j = container_of (klists s) j"
    by (simp_all add: s1_def)
  have pr: "unat (uxPriority r) < prios C" "unat (uxBasePriority r) < prios C"
    using kbaseD(8,9) [OF kweakD(2) [OF kw]] tT kweakD(5) [OF kw] by (simp_all add: r_def)
  show thesis
  proof (rule reprioritise_kweak [OF kw1 tT pr], goal_cases)
    case (1 s')
    have "vTaskPriorityInherit C t s = reprioritise t r s1"
      unfolding vTaskPriorityInherit_def if_P [OF True] Let_def reprioritise_def s1_def [symmetric]
      by (simp add: r_def s1(1,2))
    moreover have "same_tasks (s\<lparr>tcb := (tcb s)(t := r)\<rparr>) s'"
      using 1(3) s1(1,3) by (simp add: same_tasks_def)
    ultimately show thesis
      using 1 True s1(4) by (intro that [of s' r]) (auto simp: ready_def s1(1) r_def max_def)
  qed
next
  case False
  have st: "same_tasks (s\<lparr>tcb := (tcb s)(t := tcb s t)\<rparr>) s" by (simp add: same_tasks_def)
  show thesis
    by (rule that [OF _ kw st refl refl refl refl])
      (use False in \<open>auto simp: vTaskPriorityInherit_def max_def not_less\<close>)
qed

text \<open>
  The current task gives a mutex back and returns to its own priority, unless it holds other
  mutexes; the flag says that it did.
\<close>

lemma xTaskPriorityDisinherit_kweak:
  assumes kw: "kweak C idle E T s" and t: "t = pxCurrentTCB s" "ready s t" and h: "uxMutexesHeld (tcb s t) \<noteq> 0"
  obtains y s' r where "xTaskPriorityDisinherit C t s = Some (y, s')" "kweak C idle E T s'"
    "same_tasks (s\<lparr>tcb := (tcb s)(t := r)\<rparr>) s'" "\<And>u. ready s' u = ready s u" "\<And>u. evt_at s' u = evt_at s u"
    "uxMutexesHeld r = uxMutexesHeld (tcb s t) - 1" "uxBasePriority r = uxBasePriority (tcb s t)"
    "y \<longleftrightarrow> uxPriority (tcb s t) \<noteq> uxBasePriority (tcb s t) \<and> uxMutexesHeld (tcb s t) = 1"
    "uxPriority r = (if y then uxBasePriority r else uxPriority (tcb s t))"
proof -
  have tT: "t \<in> T" using kweakD(5) [OF kw] t(1) by simp
  have t0: "t \<noteq> 0" using kbaseD(5) [OF kweakD(2) [OF kw]] tT by metis
  define r1 where "r1 = (tcb s t)\<lparr>uxMutexesHeld := uxMutexesHeld (tcb s t) - 1\<rparr>"
  have one: "uxMutexesHeld (tcb s t) - 1 = 0 \<longleftrightarrow> uxMutexesHeld (tcb s t) = 1" by simp
  show thesis
  proof (cases "uxPriority (tcb s t) \<noteq> uxBasePriority (tcb s t) \<and> uxMutexesHeld (tcb s t) = 1")
    case False
    define s' where "s' = set_tcb t r1 s"
    have km: "kmid (prios C) E T s'"
      unfolding s'_def using kbaseD(8,9) [OF kweakD(2) [OF kw] tT]
      by (intro km_set_tcb [OF kweakD(1) [OF kw]]) (simp_all add: r1_def)
    have st: "same_tasks (s\<lparr>tcb := (tcb s)(t := r1)\<rparr>) s'" by (simp add: s'_def same_tasks_def)
    have rr: "ready s' u = ready s u" and bb: "blocked s' u = blocked s u" and ee: "evt_at s' u = evt_at s u" for u
      by (auto simp: ready_def blocked_def s'_def r1_def)
    have "waits_ok E s'" using kweakD(4) [OF kw] by (simp add: waits_ok_def rr bb ee)
    then have kw': "kweak C idle E T s'"
      using kw km unfolding kweak_def by (simp add: rr) (simp add: s'_def)
    have "xTaskPriorityDisinherit C t s = Some (False, s')"
      using False t0 h by (auto simp: xTaskPriorityDisinherit_def configASSERT_def Let_def s'_def r1_def)
    then show thesis
      by (rule that [of False s' r1, OF _ kw' st rr ee]) (use False in \<open>simp_all add: r1_def\<close>)
  next
    case True
    have g: "gen_at s t = Some (pxReadyTasksLists (unat (uxPriority (tcb s t))))" using t(2) by (simp add: ready_def)
    define r where "r = r1\<lparr>uxPriority := uxBasePriority (tcb s t)\<rparr>"
    have pr: "unat (uxPriority r) < prios C" "unat (uxBasePriority r) < prios C"
      using kbaseD(9) [OF kweakD(2) [OF kw] tT] by (simp_all add: r_def r1_def)
    have pr1: "unat (uxPriority r1) < prios C" "unat (uxBasePriority r1) < prios C"
      using kbaseD(8,9) [OF kweakD(2) [OF kw] tT] by (simp_all add: r1_def)
    have km1: "kmid (prios C) E T (set_tcb t r1 s)"
      using pr1 by (intro km_set_tcb [OF kweakD(1) [OF kw]]) (simp_all add: r1_def)
    have g1: "gen_at (set_tcb t r1 s) t = Some (pxReadyTasksLists (unat (uxPriority (tcb s t))))" using g by simp
    show thesis
    proof (rule km_remove [OF km1 g1], goal_cases)
      case (1 s2)
      note m2 = moved_sel [OF 1(3)]
      define s4 where "s4 = set_event_value t (configMAX_PRIORITIES C - uxBasePriority (tcb s t)) (set_tcb t r s2)"
      have km4: "kmid (prios C) E T s4"
        unfolding s4_def by (intro km_set_event_value km_set_tcb [OF 1(2) _ pr]) (simp add: 1(4))
      have st: "same_tasks (s\<lparr>tcb := (tcb s)(t := r)\<rparr>) s4"
        using m2 by (simp add: s4_def set_event_value_def same_tasks_def)
      have c: "container_of (klists s4) j = (if j = xGenericListItem t then None else container_of (klists s) j)" for j
        by (simp add: s4_def 1(4))
      note re = readd_kweak [OF kw tT t(2) km4 st c]
      have "xTaskPriorityDisinherit C t s = Some (True, prvAddTaskToReadyList t s4)"
        using True t0 h 1(1) m2(1)
        by (simp add: xTaskPriorityDisinherit_def configASSERT_def Let_def s4_def r_def r1_def)
      then show thesis
        by (rule that [of True _ r, OF _ re]) (use True in \<open>simp_all add: r_def r1_def\<close>)
    qed
  qed
qed

section \<open>Events and the tick\<close>

lemma remove_event_kinv:
  assumes inv: "kinv C idle E T s" and e: "e \<in> E" and it: "items_of (klists s) e = i # is"
  obtains w s' where "xTaskRemoveFromEventList e s = Some (w, s')" "kinv C idle E T s'"
    "same_tasks (s\<lparr>xYieldPending := w \<or> xYieldPending s\<rparr>) s'"
proof -
  note kw = kinvD(1) [OF inv]
  show thesis
  proof (rule remove_event_kweak [OF kw e it], goal_cases)
    case (1 w s')
    let ?t = "task_of i"
    have st: "xYieldPending s' = (w \<or> xYieldPending s)" "pend_sv s' = pend_sv s" "tcb s' = tcb s"
      "pxCurrentTCB s' = pxCurrentTCB s" "uxSchedulerSuspended s' = uxSchedulerSuspended s"
      "uxPendedTicks s' = uxPendedTicks s"
      using 1(4) by (simp_all add: same_tasks_def)
    have top: "top_runs s'" if "\<not> w" "top_runs s"
      using that 1(3,8) by (auto simp: top_runs_def st)
    have ev: "evt_at s' u \<noteq> Some xPendingReadyList" if "uxSchedulerSuspended s = 0" for u
      using that kinvD(6) [OF inv that] by (simp add: 1(9))
    have "kinv C idle E T s'"
      using inv 1(2) top ev unfolding kinv_def st by (auto simp: 1(8))
    then show thesis using that 1(1,4) by blast
  qed
qed

lemma vPortTickHandler_kinv:
  assumes inv: "kinv C idle E T s"
  obtains s' where "vPortTickHandler C s = Some s'" "kinv C idle E T s'"
proof (cases "uxSchedulerSuspended s = 0")
  case True
  show thesis
  proof (rule kweak_tick [OF kinvD(1) [OF inv] True], goal_cases)
    case (1 sw s1)
    note st = same_tasks_sel [OF 1(3)]
    define s' where "s' = (if sw then portYIELD_WITHIN_API s1 else s1)"
    have "kinv C idle E T s'"
      using inv 1(2,6,10,11) True unfolding kinv_def s'_def
      by (auto simp: portYIELD_WITHIN_API_def st 1(9))
    then show thesis using that 1(1) by (simp add: vPortTickHandler_def s'_def)
  qed
next
  case False
  let ?s = "s\<lparr>uxPendedTicks := uxPendedTicks s + 1\<rparr>"
  have i: "kinv C idle E T ?s" "kinv C idle E T (portYIELD_WITHIN_API ?s)"
    using inv False by (auto simp: kinv_def portYIELD_WITHIN_API_def)
  then show thesis
    using False by (cases "configUSE_PREEMPTION C \<and> xYieldPending s")
      (auto intro!: that simp: vPortTickHandler_def xTaskIncrementTick_def)
qed

lemma vTaskSuspendAll_kinv:
  assumes "kinv C idle E T s" "\<not> pend_sv s" "uxSchedulerSuspended s + 1 \<noteq> 0"
  shows "kinv C idle E T (vTaskSuspendAll s)"
  using assms by (auto simp: kinv_def vTaskSuspendAll_def)

lemma xTaskResumeAll_kinv:
  assumes inv: "kinv C idle E T s" and np: "\<not> pend_sv s" and sus: "uxSchedulerSuspended s \<noteq> 0"
  obtains ret s' where "xTaskResumeAll C s = Some (ret, s')" "kinv C idle E T s'"
proof (cases "uxSchedulerSuspended s = 1")
  case True
  show thesis
  proof (rule resume_all_spec [OF kinvD(1) [OF inv] True], goal_cases)
    case (1 ret s')
    have "kinv C idle E T s'"
      using 1(2-6,8,10) kinvD(2) [OF inv np] kinvD(4) [OF inv] np unfolding kinv_def by auto
    then show thesis using that 1(1) by blast
  qed
next
  case False
  then have n: "uxSchedulerSuspended s - 1 \<noteq> 0" by simp
  have "kinv C idle E T (s\<lparr>uxSchedulerSuspended := uxSchedulerSuspended s - 1\<rparr>)"
    using inv n sus by (auto simp: kinv_def)
  then show thesis
    using that n sus by (auto simp: xTaskResumeAll_def configASSERT_def Let_def)
qed

section \<open>Tasks come and go\<close>

lemma kmid_more_tasks:
  assumes km: "kmid mp E T s" and t: "t \<noteq> 0" "t \<notin> T" "card T + 1 < 2 ^ 32"
    and l: "klists s' = k'" "\<And>L. lists_ok L k' = lists_ok L (klists s)" "items_of k' = items_of (klists s)"
    "\<And>j. container_of k' j = container_of (klists s) j" "\<And>u. wake_value u s' = wake_value u s"
    and ow: "pvOwner (item_rec k' (xGenericListItem t)) = t" "pvOwner (item_rec k' (xEventListItem t)) = t"
    and ow': "\<And>j. task_of j \<noteq> t \<Longrightarrow> item_rec k' j = item_rec (klists s) j"
    and r: "tcb s' = (tcb s)(t := r)" "unat (uxPriority r) < mp" "unat (uxBasePriority r) < mp"
    and same: "pxDelayedTaskList s' = pxDelayedTaskList s" "pxOverflowDelayedTaskList s' = pxOverflowDelayedTaskList s"
      "xTickCount s' = xTickCount s" "uxTopReadyPriority s' = uxTopReadyPriority s"
      "xNextTaskUnblockTime s' = xNextTaskUnblockTime s"
  shows "kmid mp E (insert t T) s'"
proof -
  note kb = kmid_base [OF km] and D = kbaseD [OF kmid_base [OF km]]
  have pl: "place_ok mp E (insert t T) s' i l" if "container_of k' i = Some l" for i l
  proof -
    have p: "place_ok mp E T s i l" using that D(12) by (simp add: l(4))
    then have "task_of i \<noteq> t" using t(2) by (auto simp: place_ok_def)
    then show ?thesis using p unfolding place_ok_def r same by (auto split: if_splits)
  qed
  have own: "\<forall>u\<in>insert t T. pvOwner (item_rec k' (xGenericListItem u)) = u \<and> pvOwner (item_rec k' (xEventListItem u)) = u \<and>
      unat (uxPriority (((tcb s)(t := r)) u)) < mp \<and> unat (uxBasePriority (((tcb s)(t := r)) u)) < mp"
  proof
    fix u
    assume u: "u \<in> insert t T"
    show "pvOwner (item_rec k' (xGenericListItem u)) = u \<and> pvOwner (item_rec k' (xEventListItem u)) = u \<and>
      unat (uxPriority (((tcb s)(t := r)) u)) < mp \<and> unat (uxBasePriority (((tcb s)(t := r)) u)) < mp"
    proof (cases "u = t")
      case True
      then show ?thesis using ow r by simp
    next
      case False
      then show ?thesis using u D(6-9) by (simp add: ow')
    qed
  qed
  have odds: "\<forall>l\<in>E. odd l" using D(2) by blast
  have places: "\<forall>i l. container_of k' i = Some l \<longrightarrow> place_ok mp E (insert t T) s' i l" using pl by blast
  have ok: "lists_ok (kernel_lists mp \<union> E) k'" using D(1) by (simp add: l(2))
  have fin: "finite (insert t T)" "card (insert t T) < 2 ^ 32" "0 \<notin> insert t T"
    using D(3,5) t by simp_all
  have kb': "kbase mp E (insert t T) s'"
    unfolding kbase_def l(1) r(1) same by (intro conjI ok odds fin own D(10,11) places)
  have vals: "map (ivalue k') (items_of (klists s) d) = map (ivalue (klists s)) (items_of (klists s) d)"
    if "d \<in> {pxDelayedTaskList s, pxOverflowDelayedTaskList s}" for d
  proof (intro map_cong refl)
    fix i
    assume i: "i \<in> set (items_of (klists s) d)"
    have "d \<in> kernel_lists mp \<union> E" using that delayed_lists(4,5) [OF kb] by auto
    then have "container_of (klists s) i = Some d" using contents_home [OF kb] i by blast
    then have "task_of i \<in> T" using D(12) by (auto simp: place_ok_def)
    then have "task_of i \<noteq> t" using t(2) by blast
    then show "ivalue k' i = ivalue (klists s) i" by (simp add: ow')
  qed
  have kt: "ktime s" using km by (simp add: kmid_def)
  have srt: "sorted (map (ivalue k') (items_of (klists s) (pxDelayedTaskList s)))"
    "sorted (map (ivalue k') (items_of (klists s) (pxOverflowDelayedTaskList s)))"
    unfolding vals [OF insertI1] vals [OF insertI2 [OF singletonI]]
    using kt unfolding ktime_def by blast+
  have "ktime s'"
    unfolding ktime_def l(1,3,4,5) same using kt srt unfolding ktime_def by blast
  then show ?thesis using kb' by (simp add: kmid_def)
qed

lemma SET_OWNER_links [simp]:
  "items_of (listSET_LIST_ITEM_OWNER i ow st) = items_of st"
  "lists_ok L (listSET_LIST_ITEM_OWNER i ow st) = lists_ok L st"
  "container_of (listSET_LIST_ITEM_OWNER i ow st) j = container_of st j"
  "ivalue (listSET_LIST_ITEM_OWNER i ow st) j = ivalue st j"
proof -
  let ?st = "listSET_LIST_ITEM_OWNER i ow st"
  have "get_next ?st p = get_next st p" for p
    by (cases p) (simp_all add: listSET_LIST_ITEM_OWNER_def get_next.simps)
  then have f1: "get_next ?st = get_next st" by (rule ext)
  have "get_prev ?st p = get_prev st p" for p
    by (cases p) (simp_all add: listSET_LIST_ITEM_OWNER_def get_prev.simps)
  then have f2: "get_prev ?st = get_prev st" by (rule ext)
  have r: "list_rec ?st = list_rec st" by (simp add: listSET_LIST_ITEM_OWNER_def)
  show c: "container_of ?st j = container_of st j" for j by (simp add: listSET_LIST_ITEM_OWNER_def)
  show "items_of ?st = items_of st" "lists_ok L ?st = lists_ok L st" by (rule same_links [OF f1 f2 r c])+
  show "ivalue ?st j = ivalue st j" by (simp add: listSET_LIST_ITEM_OWNER_def)
qed

lemma initialise_item_same:
  "container_of st i = None \<Longrightarrow> vListInitialiseItem i st = st"
  by (cases st) (auto simp: vListInitialiseItem_def set_container_def fun_eq_iff)

end
