(* ===== verification/Sched_Run.thy ===== *)
theory Sched_Run
  imports Sched_Ops
begin

text \<open>
  The scheduler at work: tasks are created and their memory is given back, the API calls and the
  interrupts are the steps of one machine, and the properties of its reachable states.
\<close>

section \<open>Creation and termination\<close>

lemma not_a_task:
  assumes "kbase mp E T s" "t \<notin> T"
  shows "gen_at s t = None" "evt_at s t = None"
  using gen_in [OF assms(1), of t] evt_in(1) [OF assms(1), of t] assms(2)
  by (cases "gen_at s t"; cases "evt_at s t"; simp)+

lemma init_tcb:
  assumes none: "gen_at s t = None" "evt_at s t = None" and p: "p < configMAX_PRIORITIES C"
  defines "s1 \<equiv> prvInitialiseTCBVariables C t p s"
  shows "items_of (klists s1) = items_of (klists s)" "lists_ok L (klists s1) = lists_ok L (klists s)"
    "container_of (klists s1) j = container_of (klists s) j" "wake_value u s1 = wake_value u s"
    "task_of j \<noteq> t \<Longrightarrow> item_rec (klists s1) j = item_rec (klists s) j"
    "pvOwner (item_rec (klists s1) (xGenericListItem t)) = t" "pvOwner (item_rec (klists s1) (xEventListItem t)) = t"
    "tcb s1 = (tcb s)(t := tcb s1 t)" "uxPriority (tcb s1 u) = (if u = t then p else uxPriority (tcb s u))"
    "uxBasePriority (tcb s1 t) = p" "same_tasks (s\<lparr>tcb := tcb s1\<rparr>) s1"
    "pxDelayedTaskList s1 = pxDelayedTaskList s" "pxOverflowDelayedTaskList s1 = pxOverflowDelayedTaskList s"
    "xTickCount s1 = xTickCount s" "uxTopReadyPriority s1 = uxTopReadyPriority s"
    "xNextTaskUnblockTime s1 = xNextTaskUnblockTime s"
proof -
  have np: "\<not> configMAX_PRIORITIES C \<le> p" using p by simp
  have k: "klists s1 = listSET_LIST_ITEM_OWNER (xEventListItem t) t
      (listSET_LIST_ITEM_VALUE (xEventListItem t) (configMAX_PRIORITIES C - p)
        (listSET_LIST_ITEM_OWNER (xGenericListItem t) t (klists s)))"
    using p none by (simp add: s1_def prvInitialiseTCBVariables_def Let_def set_tcb_def initialise_item_same)
  show "items_of (klists s1) = items_of (klists s)" "lists_ok L (klists s1) = lists_ok L (klists s)"
    "container_of (klists s1) j = container_of (klists s) j" "wake_value u s1 = wake_value u s"
    by (simp_all add: k wake_value_def)
  show "item_rec (klists s1) j = item_rec (klists s) j" if "task_of j \<noteq> t"
    using that by (auto simp: k listSET_LIST_ITEM_OWNER_def listSET_LIST_ITEM_VALUE_def)
  show "pvOwner (item_rec (klists s1) (xGenericListItem t)) = t" "pvOwner (item_rec (klists s1) (xEventListItem t)) = t"
    by (simp_all add: k listSET_LIST_ITEM_OWNER_def listSET_LIST_ITEM_VALUE_def)
qed (use p in \<open>simp_all add: s1_def prvInitialiseTCBVariables_def Let_def set_tcb_def same_tasks_def not_le [symmetric] fun_upd_same\<close>)

lemma init_tcb_kmid:
  assumes km: "kmid (prios C) E T s" and t: "t \<noteq> 0" "t \<notin> T" "card T + 1 < 2 ^ 32"
    and p: "p < configMAX_PRIORITIES C"
  shows "kmid (prios C) E (insert t T) (prvInitialiseTCBVariables C t p s)"
proof -
  note i = init_tcb [OF not_a_task [OF kmid_base [OF km] t(2)] p]
  show ?thesis
    by (rule kmid_more_tasks [OF km t refl i(2,1,3,4,6,7,5,8) _ _ i(12-16)])
      (use i(9) [of t] i(10) p in \<open>simp_all add: word_less_nat_alt\<close>)
qed

lemma xTaskGenericCreate_kinv:
  assumes inv: "kinv C idle E T s" and np: "\<not> pend_sv s" and t: "t \<noteq> 0" "t \<notin> T"
    and room: "uxCurrentNumberOfTasks s + 1 \<noteq> 0" and p: "p < configMAX_PRIORITIES C"
  obtains s' where "xTaskGenericCreate C t p s = Some (True, s')" "kinv C idle E (insert t T) s'"
    "ready s' t" "uxPriority (tcb s' t) = p"
proof -
  note kw = kinvD(1) [OF inv] and kb = kweakD(2) [OF kinvD(1) [OF inv]]
  have card: "unat (uxCurrentNumberOfTasks s) = card T" by (rule kweakD(7) [OF kw])
  have num: "unat (uxCurrentNumberOfTasks s + 1) = card T + 1"
    using unatSuc [of "uxCurrentNumberOfTasks s"] room card by (simp add: add.commute)
  have c32: "card T + 1 < 2 ^ 32" using num unat_u32 [of "uxCurrentNumberOfTasks s + 1"] by simp
  define s1 where "s1 = prvInitialiseTCBVariables C t p s"
  note i = init_tcb [OF not_a_task [OF kb t(2)] p, folded s1_def]
  have st1: "same_tasks (s\<lparr>tcb := tcb s1\<rparr>) s1" by (rule i(11))
  define s3 where "s3 = s1\<lparr>uxCurrentNumberOfTasks := uxCurrentNumberOfTasks s1 + 1\<rparr>"
  define s4 where "s4 = prvAddTaskToReadyList t s3"
  have km3: "kmid (prios C) E (insert t T) s3"
    using init_tcb_kmid [OF kweakD(1) [OF kw] t c32 p] by (simp add: s3_def s1_def)
  have g3: "container_of (klists s3) j = container_of (klists s) j" for j by (simp add: s3_def i(3))
  have out: "gen_at s t = None" "evt_at s t = None"
    by (rule not_a_task [OF kb t(2)])+
  have tc: "tcb s3 = tcb s1" by (simp add: s3_def)
  have pt: "uxPriority (tcb s1 u) = (if u = t then p else uxPriority (tcb s u))" for u by (rule i(9))
  have out3: "gen_at s3 t = None" using out by (simp add: g3)
  note add = kb_add_ready [OF kmid_base [OF km3] insertI1 out3, folded s4_def]
  have km4: "kmid (prios C) E (insert t T) s4"
    unfolding s4_def by (rule km_add_ready [OF km3 insertI1 out3])
  have m: "moved s3 s4" by (simp add: s4_def)
  note ms = moved_sel [OF m]
  have f: "pxCurrentTCB s4 = pxCurrentTCB s" "uxSchedulerSuspended s4 = uxSchedulerSuspended s"
    "uxPendedTicks s4 = uxPendedTicks s" "xYieldPending s4 = xYieldPending s" "pend_sv s4 = pend_sv s"
    "xSchedulerRunning s4 = xSchedulerRunning s" "uxCurrentNumberOfTasks s4 = uxCurrentNumberOfTasks s + 1"
    using ms st1 by (simp_all add: same_tasks_def s3_def)
  have g: "gen_at s4 u = (if u = t then Some (pxReadyTasksLists (unat p)) else gen_at s u)"
    and e: "evt_at s4 u = evt_at s u" for u
    using add(3) by (simp_all add: g3 tc pt)
  have pr: "uxPriority (tcb s4 u) = (if u = t then p else uxPriority (tcb s u))" for u
    by (simp add: add(2) tc pt)
  have r: "ready s4 u \<longleftrightarrow> u = t \<or> ready s u" and b: "blocked s4 u \<longleftrightarrow> u \<noteq> t \<and> blocked s u" for u
    by (auto simp: ready_def blocked_def g pr)
  have cur: "pxCurrentTCB s \<noteq> t" "pxCurrentTCB s \<noteq> 0" "pxCurrentTCB s \<in> T"
    using kweakD(5) [OF kw] t(2) kbaseD(5) [OF kb] by (auto intro: gr0I)
  have w: "waits_ok E s4"
    using kweakD(4) [OF kw] out(2) unfolding waits_ok_def e r b by (metis option.distinct(1))
  have kw4: "kweak C idle E (insert t T) s4"
    unfolding kweak_def f
    using km4 w kweakD(3,6,8) [OF kw] cur t(2) num kbaseD(3) [OF kb] by (simp add: g r)
  define s' where "s' = (if cur_prio s4 < p then taskYIELD_IF_USING_PREEMPTION C s4 else s4)"
  have top: "top_runs s4" if "top_runs s" "\<not> cur_prio s4 < p"
    using that cur(1) unfolding top_runs_def r by (auto simp: pr f)
  have "kinv C idle E (insert t T) s'"
    using kw4 inv np top kinvD(2) [OF inv np] kinvD(4) [OF inv] unfolding kinv_def s'_def
    by (auto simp: taskYIELD_IF_USING_PREEMPTION_def portYIELD_WITHIN_API_def f e r)
  moreover have "xTaskGenericCreate C t p s = Some (True, s')"
    using p t(1) cur kweakD(8) [OF kw] f st1 unfolding s'_def s4_def
    by (simp add: xTaskGenericCreate_def configASSERT_def Let_def s1_def [symmetric] s3_def [symmetric] same_tasks_def)
      (simp add: s3_def)
  moreover have "ready s' t" "uxPriority (tcb s' t) = p"
    using r [of t] pr [of t] by (simp_all add: s'_def taskYIELD_IF_USING_PREEMPTION_def portYIELD_WITHIN_API_def)
  ultimately show thesis using that by blast
qed

section \<open>Starting the scheduler\<close>

text \<open>Before the first task is created: the variables have their initial values, no item is in a list.\<close>

definition kfresh :: "list_id set \<Rightarrow> kernel \<Rightarrow> bool" where
  "kfresh E s \<longleftrightarrow> lists_ok E (klists s) \<and> (\<forall>l\<in>E. odd l) \<and> (\<forall>i. container_of (klists s) i = None) \<and>
     pxCurrentTCB s = 0 \<and> uxCurrentNumberOfTasks s = 0 \<and> uxTopReadyPriority s = 0 \<and>
     \<not> xSchedulerRunning s \<and> \<not> pend_sv s \<and> uxSchedulerSuspended s = 0 \<and> uxPendedTicks s = 0"

text \<open>Tasks have been created and the scheduler has not been started.\<close>

definition kboot :: "kernel_config \<Rightarrow> list_id set \<Rightarrow> task set \<Rightarrow> kernel \<Rightarrow> bool" where
  "kboot C E T s \<longleftrightarrow> kmid (prios C) E T s \<and> (\<forall>t\<in>T. ready s t) \<and> (\<forall>t. evt_at s t = None) \<and>
     pxCurrentTCB s \<in> T \<and> top_runs s \<and> unat (uxCurrentNumberOfTasks s) = card T \<and>
     \<not> xSchedulerRunning s \<and> \<not> pend_sv s \<and> uxSchedulerSuspended s = 0 \<and> uxPendedTicks s = 0"

lemma initialise_fresh:
  assumes "lists_ok L k \<and> (\<forall>i. container_of k i = None)"
  shows "lists_ok (insert l L) (vListInitialise l k) \<and> (\<forall>i. container_of (vListInitialise l k) i = None)"
proof -
  have "items_of k l = []" if "l \<in> L"
  proof -
    have "i \<notin> set (items_of k l)" for i using lists_ok_container [of L k l i] assms that by simp
    then show ?thesis by (cases "items_of k l") auto
  qed
  then show ?thesis using vListInitialise_items(1) [of L k l] assms by simp
qed

lemma init_ready_lists_ok:
  assumes "lists_ok E k" "\<And>i. container_of k i = None"
  shows "lists_ok (pxReadyTasksLists ` {..<n} \<union> E) (init_ready_lists n k)"
    "item_rec (init_ready_lists n k) = item_rec k"
proof -
  have "lists_ok (pxReadyTasksLists ` {..<n} \<union> E) (init_ready_lists n k) \<and> item_rec (init_ready_lists n k) = item_rec k"
  proof (induction n)
    case 0
    then show ?case using assms(1) by simp
  next
    case (Suc n)
    then have l: "lists_ok (pxReadyTasksLists ` {..<n} \<union> E) (init_ready_lists n k)"
      and c: "\<And>i. container_of (init_ready_lists n k) i = None"
      using assms(2) by auto
    show ?case
      using Suc initialise_fresh [of _ "init_ready_lists n k" "pxReadyTasksLists n"] l c
      by (simp add: lessThan_Suc)
  qed
  then show "lists_ok (pxReadyTasksLists ` {..<n} \<union> E) (init_ready_lists n k)"
    "item_rec (init_ready_lists n k) = item_rec k" by blast+
qed

lemma init_lists_ok:
  assumes "lists_ok E (klists s)" "\<And>i. container_of (klists s) i = None"
  shows "lists_ok (kernel_lists (prios C) \<union> E) (klists (prvInitialiseTaskLists C s))"
    "item_rec (klists (prvInitialiseTaskLists C s)) = item_rec (klists s)"
proof -
  let ?k = "init_ready_lists (prios C) (klists s)"
  note r = init_ready_lists_ok [OF assms, of "prios C"]
  have c: "container_of ?k i = None" for i using assms(2) by (simp add: r(2))
  note add = initialise_fresh
  have "lists_ok (insert xSuspendedTaskList (insert xTasksWaitingTermination (insert xPendingReadyList
      (insert xDelayedTaskList2 (insert xDelayedTaskList1 (pxReadyTasksLists ` {..<prios C} \<union> E))))))
      (klists (prvInitialiseTaskLists C s))"
    using add [OF add [OF add [OF add [OF add]]]] r(1) c by (simp add: prvInitialiseTaskLists_def)
  moreover have "insert xSuspendedTaskList (insert xTasksWaitingTermination (insert xPendingReadyList
      (insert xDelayedTaskList2 (insert xDelayedTaskList1 (pxReadyTasksLists ` {..<prios C} \<union> E)))))
      = kernel_lists (prios C) \<union> E"
    by (auto simp: kernel_lists_def)
  ultimately show "lists_ok (kernel_lists (prios C) \<union> E) (klists (prvInitialiseTaskLists C s))" by simp
  show "item_rec (klists (prvInitialiseTaskLists C s)) = item_rec (klists s)"
    by (simp add: prvInitialiseTaskLists_def r(2))
qed

text \<open>The last step of a creation: the new task, in no list yet, is put into its ready list.\<close>

lemma boot_add:
  assumes km: "kmid (prios C) E T s" and t: "t \<in> T" "gen_at s t = None"
    and old: "\<And>u. u \<in> T \<Longrightarrow> u \<noteq> t \<Longrightarrow> ready s u" "\<And>u. evt_at s u = None"
    and cur: "pxCurrentTCB s \<in> T" "\<And>u. u \<in> T \<Longrightarrow> uxPriority (tcb s u) \<le> cur_prio s"
    and rest: "unat (uxCurrentNumberOfTasks s) = card T" "\<not> xSchedulerRunning s" "\<not> pend_sv s"
      "uxSchedulerSuspended s = 0" "uxPendedTicks s = 0"
  shows "kboot C E T (prvAddTaskToReadyList t s)"
proof -
  define s4 where "s4 = prvAddTaskToReadyList t s"
  note add = kb_add_ready [OF kmid_base [OF km] t, folded s4_def]
  have m: "moved s s4" by (simp add: s4_def)
  note ms = moved_sel [OF m]
  have km4: "kmid (prios C) E T s4" unfolding s4_def by (rule km_add_ready [OF km t])
  have r: "ready s4 u \<longleftrightarrow> u = t \<or> ready s u" for u by (auto simp: ready_def add(3) ms(1))
  have "top_runs s4"
    unfolding top_runs_def
  proof (intro allI impI)
    fix u
    assume "ready s4 u"
    then have "u \<in> T" by (rule ready_in [OF kmid_base [OF km4]])
    then show "uxPriority (tcb s4 u) \<le> cur_prio s4" using cur(2) by (simp add: ms)
  qed
  then show ?thesis
    using km4 old cur(1) rest unfolding s4_def [symmetric] kboot_def by (auto simp: r add(3) ms)
qed

lemma create_first:
  assumes f: "kfresh E s" and t: "t \<noteq> 0" and p: "p < configMAX_PRIORITIES C"
  obtains s' where "xTaskGenericCreate C t p s = Some (True, s')" "kboot C E {t} s'" "uxPriority (tcb s' t) = p"
proof -
  have none: "container_of (klists s) i = None" for i using f by (simp add: kfresh_def)
  define s1 where "s1 = prvInitialiseTCBVariables C t p s"
  note i = init_tcb [where t = t, OF none none p, folded s1_def]
  define s2 where "s2 = s1\<lparr>uxCurrentNumberOfTasks := uxCurrentNumberOfTasks s1 + 1, pxCurrentTCB := t\<rparr>"
  define s3 where "s3 = prvInitialiseTaskLists C s2"
  have l: "lists_ok E (klists s2)" using f by (simp add: s2_def i(2) kfresh_def)
  have c: "container_of (klists s2) i = None" for i by (simp add: s2_def i(3) none)
  note init = init_lists_ok [OF l c, where C = C, folded s3_def]
  have c3: "container_of (klists s3) i = None" for i by (simp add: init(2) c)
  have k: "tcb s3 = tcb s1" "pxCurrentTCB s3 = t" "uxCurrentNumberOfTasks s3 = 1" "uxTopReadyPriority s3 = 0"
    "xSchedulerRunning s3 = False" "pend_sv s3 = False" "uxSchedulerSuspended s3 = 0" "uxPendedTicks s3 = 0"
    "pxDelayedTaskList s3 = xDelayedTaskList1" "pxOverflowDelayedTaskList s3 = xDelayedTaskList2"
    using f i(11,15) by (simp_all add: s3_def s2_def prvInitialiseTaskLists_def kfresh_def same_tasks_def)
  have pr: "uxPriority (tcb s1 t) = p" using i(9) [of t] by simp
  have p0: "unat p < prios C" using p by (simp add: word_less_nat_alt)
  have E: "\<forall>l\<in>E. odd l" using f by (simp add: kfresh_def)
  have own: "pvOwner (item_rec (klists s3) (xGenericListItem t)) = t" "pvOwner (item_rec (klists s3) (xEventListItem t)) = t"
    using i(6,7) by (simp_all add: init(2) s2_def)
  have kb: "kbase (prios C) E {t} s3"
    unfolding kbase_def k using init(1) E t own pr p0 i(10) by (simp add: c3)
  have e: "items_of (klists s3) l = []" if "l \<in> kernel_lists (prios C) \<union> E" for l
  proof -
    have "j \<notin> set (items_of (klists s3) l)" for j using contents_home [OF kb that, of j] c3 by simp
    then show ?thesis by (cases "items_of (klists s3) l") auto
  qed
  have km: "kmid (prios C) E {t} s3"
    unfolding kmid_def ktime_def k using kb e [of xDelayedTaskList1] e [of xDelayedTaskList2] by (simp add: c3)
  have boot: "kboot C E {t} (prvAddTaskToReadyList t s3)"
    by (rule boot_add [OF km]) (simp_all add: c3 k)
  have run: "xTaskGenericCreate C t p s = Some (True, prvAddTaskToReadyList t s3)"
  proof -
    have a: "pxCurrentTCB s1 = 0" "uxCurrentNumberOfTasks s1 = 0" 
      using i(11) f by (simp_all add: same_tasks_def kfresh_def)
    have "\<not> xSchedulerRunning (prvAddTaskToReadyList t s3)" using boot by (simp add: kboot_def)
    then show ?thesis
      using p t a unfolding s3_def s2_def
      by (simp add: xTaskGenericCreate_def configASSERT_def Let_def s1_def [symmetric])
  qed
  have m: "moved s3 (prvAddTaskToReadyList t s3)" by simp
  show thesis by (rule that [OF run boot]) (use moved_sel(1) [OF m] pr in \<open>simp add: k\<close>)
qed

lemma create_more:
  assumes b: "kboot C E T s" and t: "t \<noteq> 0" "t \<notin> T" and room: "uxCurrentNumberOfTasks s + 1 \<noteq> 0"
    and p: "p < configMAX_PRIORITIES C"
  obtains s' where "xTaskGenericCreate C t p s = Some (True, s')" "kboot C E (insert t T) s'"
    "uxCurrentNumberOfTasks s' = uxCurrentNumberOfTasks s + 1"
proof -
  have km: "kmid (prios C) E T s" and cur: "pxCurrentTCB s \<in> T" and top: "top_runs s"
    and rd: "\<And>u. u \<in> T \<Longrightarrow> ready s u" and ev: "\<And>u. evt_at s u = None"
    and card: "unat (uxCurrentNumberOfTasks s) = card T"
    and rest: "\<not> xSchedulerRunning s" "\<not> pend_sv s" "uxSchedulerSuspended s = 0" "uxPendedTicks s = 0"
    using b by (simp_all add: kboot_def)
  note kb = kmid_base [OF km]
  have num: "unat (uxCurrentNumberOfTasks s + 1) = card T + 1"
    using unatSuc [of "uxCurrentNumberOfTasks s"] room card by (simp add: add.commute)
  have c32: "card T + 1 < 2 ^ 32" using num unat_u32 [of "uxCurrentNumberOfTasks s + 1"] by simp
  have cur': "pxCurrentTCB s \<noteq> t" "0 < pxCurrentTCB s"
    using cur t(2) kbaseD(5) [OF kb] by (auto intro: gr0I)
  define s1 where "s1 = prvInitialiseTCBVariables C t p s"
  note i = init_tcb [where t = t, OF not_a_task [OF kb t(2)] p, folded s1_def]
  define s2 where "s2 = s1\<lparr>uxCurrentNumberOfTasks := uxCurrentNumberOfTasks s1 + 1\<rparr>"
  define s3 where "s3 = (if cur_prio s2 \<le> p then s2\<lparr>pxCurrentTCB := t\<rparr> else s2)"
  have st: "pxCurrentTCB s1 = pxCurrentTCB s" "uxCurrentNumberOfTasks s1 = uxCurrentNumberOfTasks s"
    "xSchedulerRunning s1 = xSchedulerRunning s" "pend_sv s1 = pend_sv s"
    "uxSchedulerSuspended s1 = uxSchedulerSuspended s" "uxPendedTicks s1 = uxPendedTicks s"
    using i(11) by (simp_all add: same_tasks_def)
  have f: "klists s3 = klists s1" "tcb s3 = tcb s1" "uxCurrentNumberOfTasks s3 = uxCurrentNumberOfTasks s + 1"
    "xSchedulerRunning s3 = xSchedulerRunning s" "pend_sv s3 = pend_sv s"
    "uxSchedulerSuspended s3 = uxSchedulerSuspended s" "uxPendedTicks s3 = uxPendedTicks s"
    "pxCurrentTCB s3 = (if cur_prio s \<le> p then t else pxCurrentTCB s)"
    using cur'(1) by (simp_all add: s3_def s2_def st i(9))
  have km3: "kmid (prios C) E (insert t T) s3"
    using init_tcb_kmid [OF km t c32 p] by (simp add: s3_def s2_def s1_def)
  have boot: "kboot C E (insert t T) (prvAddTaskToReadyList t s3)"
  proof (rule boot_add [OF km3 insertI1])
    show "gen_at s3 t = None" using not_a_task(1) [OF kb t(2)] by (simp add: f i(3))
    show "ready s3 u" if "u \<in> insert t T" "u \<noteq> t" for u
      using that rd [of u] by (simp add: ready_def f i(3,9))
    show "uxPriority (tcb s3 u) \<le> cur_prio s3" if "u \<in> insert t T" for u
    proof -
      have "u \<noteq> t \<Longrightarrow> uxPriority (tcb s u) \<le> cur_prio s"
        using top rd [of u] that by (simp add: top_runs_def)
      then show ?thesis using cur'(1) by (auto simp: f i(9))
    qed
  qed (use cur ev num kbaseD(3) [OF kb] t(2) rest in \<open>simp_all add: f i(3)\<close>)
  have "\<not> xSchedulerRunning (prvAddTaskToReadyList t s3)" using boot by (simp add: kboot_def)
  then have run: "xTaskGenericCreate C t p s = Some (True, prvAddTaskToReadyList t s3)"
    using p t cur' rest(1) unfolding s3_def s2_def
    by (simp add: xTaskGenericCreate_def configASSERT_def Let_def s1_def [symmetric] st)
  have m: "moved s3 (prvAddTaskToReadyList t s3)" by simp
  show thesis by (rule that [OF run boot]) (simp add: moved_sel(6) [OF m] f)
qed

lemma start_kinv:
  assumes b: "kboot C E T s" and run: "idle \<in> T"
  shows "kinv C idle E T (s\<lparr>xSchedulerRunning := True, xTickCount := 0\<rparr>)" (is "kinv _ _ _ _ ?s")
proof -
  have km: "kmid (prios C) E T s" and cur: "pxCurrentTCB s \<in> T" and top: "top_runs s"
    and rd: "\<And>u. u \<in> T \<Longrightarrow> ready s u" and ev: "\<And>u. evt_at s u = None"
    and card: "unat (uxCurrentNumberOfTasks s) = card T"
    and rest: "\<not> pend_sv s" "uxSchedulerSuspended s = 0" "uxPendedTicks s = 0"
    using b by (simp_all add: kboot_def)
  note kb = kmid_base [OF km]
  have no: "gen_at s t \<noteq> Some d" if "d \<in> {xDelayedTaskList1, xDelayedTaskList2}" for t d
    using rd [of t] gen_in [OF kb, of t d] that by (auto simp: ready_def)
  have "kbase (prios C) E T ?s" using kb kbase_cong [of ?s s] by simp
  moreover have "ktime ?s"
    using km no delayed_lists(2,3) [OF kb] unfolding kmid_def ktime_def by simp
  ultimately have km': "kmid (prios C) E T ?s" by (simp add: kmid_def)
  have r: "ready ?s t = ready s t" for t by (simp add: ready_def)
  have g: "gen_at s t \<noteq> None" if "t \<in> T" for t using rd [OF that] by (simp add: ready_def)
  have "kweak C idle E T ?s"
    using km' cur card rd run ev g unfolding kweak_def r waits_ok_def by simp
  moreover have "top_runs ?s" using top by (simp add: top_runs_def r)
  ultimately show ?thesis using rest ev rd cur by (simp add: kinv_def r)
qed

text \<open>The idle task frees a deleted task: its items are in no list any more.\<close>

lemma termination_take_kinv:
  assumes inv: "kinv C idle E T s" and np: "\<not> pend_sv s"
    and it: "items_of (klists s) xTasksWaitingTermination = i # is"
  obtains s' where "termination_take s = Some (task_of i, s')" "kinv C idle E (T - {task_of i}) s'"
    "task_of i \<in> T" "task_of i \<noteq> idle" "task_of i \<noteq> pxCurrentTCB s" "gen_at s' (task_of i) = None" "evt_at s' (task_of i) = None"
proof -
  define t where "t = task_of i"
  note kw = kinvD(1) [OF inv] and kb = kweakD(2) [OF kinvD(1) [OF inv]]
  have L: "xTasksWaitingTermination \<in> kernel_lists (prios C) \<union> E" by simp
  note head = head_owner [OF kb L it, folded t_def]
  have i: "i = xGenericListItem t"
    unfolding t_def using head(3) by (intro state_item [OF kb]) auto
  have g: "gen_at s t = Some xTasksWaitingTermination" using head(3) i by simp
  have nb: "\<not> ready s t" "\<not> blocked s t" using g by (auto simp: ready_def blocked_def)
  have ev: "evt_at s t = None"
  proof (cases "evt_at s t")
    case (Some l)
    then show ?thesis using kweakD(4) [OF kw] nb unfolding waits_ok_def by (metis (full_types))
  qed
  have ti: "t \<noteq> idle" "t \<noteq> pxCurrentTCB s"
    using kweakD(6) [OF kw] kinvD(2) [OF inv np] nb(1) by auto
  show thesis
  proof (rule km_remove [OF kweakD(1) [OF kw] g], goal_cases)
    case (1 s1)
    note m = moved_sel [OF 1(3)]
    have c: "container_of (klists s1) j = (if task_of j = t then None else container_of (klists s) j)" for j
      using ev by (rule_tac item_cases [of j]) (auto simp: 1(4))
    have g1: "gen_at s1 u = (if u = t then None else gen_at s u)" and e1: "evt_at s1 u = evt_at s u" for u
      using ev by (simp_all add: 1(4))
    note D = kbaseD [OF kmid_base [OF 1(2)]]
    have pl: "place_ok (prios C) E (T - {t}) s1 j l" if "container_of (klists s1) j = Some l" for j l
      using D(12) [OF that] that c [of j] by (auto simp: place_ok_def split: if_splits)
    have "card T < 2 ^ 32" "card (T - {t}) \<le> card T" using D(3,4) by (simp_all add: card_mono)
    then have fin: "finite (T - {t})" "card (T - {t}) < 2 ^ 32" "0 \<notin> T - {t}" using D(3,5) by simp_all
    have own: "\<forall>u\<in>T - {t}. pvOwner (item_rec (klists s1) (xGenericListItem u)) = u \<and>
        pvOwner (item_rec (klists s1) (xEventListItem u)) = u \<and>
        unat (uxPriority (tcb s1 u)) < prios C \<and> unat (uxBasePriority (tcb s1 u)) < prios C"
      using D(6-9) by simp
    have odds: "\<forall>l\<in>E. odd l" using D(2) by blast
    have places: "\<forall>i l. container_of (klists s1) i = Some l \<longrightarrow> place_ok (prios C) E (T - {t}) s1 i l" using pl by blast
    have "kbase (prios C) E (T - {t}) s1"
      unfolding kbase_def by (intro conjI D(1) odds fin own D(10,11) places)
    then have km: "kmid (prios C) E (T - {t}) s1" using 1(2) by (simp add: kmid_def)
    have r: "ready s1 u = ready s u" and b: "blocked s1 u = blocked s u" for u
      using nb by (auto simp: ready_def blocked_def g1 m(1))
    define s' where "s' = s1\<lparr>uxCurrentNumberOfTasks := uxCurrentNumberOfTasks s1 - 1, uxTasksDeleted := uxTasksDeleted s1 - 1\<rparr>"
    have r': "ready s' u = ready s u" and b': "blocked s' u = blocked s u" for u
      using r b by (simp_all add: s'_def ready_def blocked_def)
    have e': "evt_at s' u = evt_at s u" for u by (simp add: s'_def e1)
    have tT: "t \<in> T" by (rule head(2))
    then have "card T \<noteq> 0" using D(3) by auto
    then have nz: "uxCurrentNumberOfTasks s \<noteq> 0" using kweakD(7) [OF kw] by auto
    have num: "unat (uxCurrentNumberOfTasks s1 - 1) = card (T - {t})"
      using unat_minus_one [OF nz] kweakD(7) [OF kw] tT by (simp add: m)
    have g': "gen_at s' u \<noteq> None" if "u \<in> T - {t}" for u
      using that kweakD(3) [OF kw, of u] by (simp add: s'_def g1)
    have "kweak C idle E (T - {t}) s'"
      unfolding kweak_def r' waits_ok_def b' e'
      using km g' kweakD(4-6,8) [OF kw] ti num by (simp add: s'_def m waits_ok_def)
    moreover have "top_runs s' = top_runs s" by (simp add: top_runs_def r') (simp add: s'_def m)
    ultimately have "kinv C idle E (T - {t}) s'"
      using inv unfolding kinv_def r' e' by (simp add: s'_def m)
    moreover have "termination_take s = Some (t, s')"
      using head(1) 1(1) by (simp add: termination_take_def s'_def)
    ultimately show thesis
      using tT ti g1 [of t] e1 [of t] ev
      by (intro that [of s']) (simp_all add: t_def [symmetric], simp_all add: s'_def)
  qed
qed

lemma termination_look_kinv:
  assumes inv: "kinv C idle E T s" and run: "\<not> pend_sv s" "uxSchedulerSuspended s = 0"
  obtains b s' where "termination_look C s = Some (b, s')" "kinv C idle E T s'"
proof -
  have i: "kinv C idle E T (vTaskSuspendAll s)" using run by (intro vTaskSuspendAll_kinv [OF inv]) simp_all
  have n: "\<not> pend_sv (vTaskSuspendAll s)" "uxSchedulerSuspended (vTaskSuspendAll s) \<noteq> 0"
    using run by (simp_all add: vTaskSuspendAll_def)
  show thesis
    by (rule xTaskResumeAll_kinv [OF i n]) (rule that, simp_all add: termination_look_def Let_def)
qed

section \<open>Waiting for an event\<close>

text \<open>
  The way a task blocks on a queue or an event group: with the scheduler suspended it is put into
  the event list and then the scheduler is resumed.
\<close>

definition wait_event :: "kernel_config \<Rightarrow> list_id \<Rightarrow> u32 \<Rightarrow> kernel \<Rightarrow> kernel option" where
  "wait_event C e xTicksToWait s =
     do { s1 \<leftarrow> vTaskPlaceOnEventList e xTicksToWait (vTaskSuspendAll s); resume_and_yield C s1 }"

text \<open>A task that runs waits for nothing.\<close>

lemma running_no_event:
  assumes inv: "kinv C idle E T s" and run: "running idle s"
  shows "evt_at s (pxCurrentTCB s) = None"
proof (cases "evt_at s (pxCurrentTCB s)")
  case (Some l)
  have "ready s (pxCurrentTCB s)" using kinvD(2) [OF inv] run by (simp add: running_def)
  then have nb: "\<not> blocked s (pxCurrentTCB s)" by (rule not_blocked_ready)
  have "l = xPendingReadyList \<or> l \<in> E" by (rule evt_in(2) [OF kweakD(2) [OF kinvD(1) [OF inv]] Some])
  moreover have "l \<noteq> xPendingReadyList" using kinvD(6) [OF inv] run Some by (auto simp: running_def)
  ultimately show ?thesis
    using Some nb kweakD(4) [OF kinvD(1) [OF inv]] unfolding waits_ok_def by (metis (full_types))
qed

lemma wait_event_kinv:
  assumes inv: "kinv C idle E T s" and run: "running idle s" and e: "e \<in> E" and n: "n \<noteq> 0"
  obtains s' where "wait_event C e n s = Some s'" "kinv C idle E T s'"
proof -
  let ?s = "vTaskSuspendAll s"
  have kw: "kweak C idle E T ?s" using kinvD(1) [OF inv] by (simp add: vTaskSuspendAll_def)
  note ev = running_no_event [OF inv run]
  have ni: "pxCurrentTCB ?s \<noteq> idle" "evt_at ?s (pxCurrentTCB ?s) = None"
    using run ev by (simp_all add: vTaskSuspendAll_def running_def)
  show thesis
  proof (rule place_on_event_kweak [OF kw ni e n], goal_cases)
    case (1 s1)
    have "uxSchedulerSuspended s1 = 1"
      using same_tasks_sel(6) [OF 1(3)] run by (simp add: vTaskSuspendAll_def running_def)
    from resume_and_yield_kinv [OF 1(2) this] obtain s'
      where "resume_and_yield C s1 = Some s'" "kinv C idle E T s'" by blast
    then show thesis using that 1(1) by (simp add: wait_event_def)
  qed
qed

text \<open>Creating the tasks of an application one after the other, and then starting the scheduler.\<close>

primrec create_tasks :: "kernel_config \<Rightarrow> (task \<times> u32) list \<Rightarrow> kernel \<Rightarrow> kernel option" where
  "create_tasks C [] s = Some s"
| "create_tasks C (tp # ts) s =
     do { (r, s1) \<leftarrow> xTaskGenericCreate C (fst tp) (snd tp) s; create_tasks C ts s1 }"

definition boot :: "kernel_config \<Rightarrow> (task \<times> u32) list \<Rightarrow> task \<Rightarrow> kernel \<Rightarrow> kernel option" where
  "boot C ts idle s = do { s1 \<leftarrow> create_tasks C ts s; vTaskStartScheduler C idle s1 }"

lemma room_for_one:
  fixes n :: u32
  assumes "unat n + 1 < 2 ^ 32"
  shows "n + 1 \<noteq> 0"
proof -
  have "unat (n + 1) = unat n + 1" using assms by (subst unat_add_small) simp_all
  then show ?thesis by (metis add_is_0 unat_0 zero_neq_one)
qed

lemma create_tasks_boot:
  assumes "kboot C E T s" "distinct (map fst ts)" "\<And>tp. tp \<in> set ts \<Longrightarrow> fst tp \<noteq> 0 \<and> fst tp \<notin> T \<and> snd tp < configMAX_PRIORITIES C"
    "card T + length ts < 2 ^ 32"
  shows "\<exists>s'. create_tasks C ts s = Some s' \<and> kboot C E (fst ` set ts \<union> T) s'"
  using assms
proof (induction ts arbitrary: T s)
  case Nil
  then show ?case by simp
next
  case (Cons tp ts)
  have h: "fst tp \<noteq> 0" "fst tp \<notin> T" "snd tp < configMAX_PRIORITIES C" using Cons.prems(3) [of tp] by simp_all
  have n: "unat (uxCurrentNumberOfTasks s) = card T" and f: "finite T"
    using Cons.prems(1) kbaseD(3) [OF kmid_base] by (auto simp: kboot_def)
  have room: "uxCurrentNumberOfTasks s + 1 \<noteq> 0" using n Cons.prems(4) by (intro room_for_one) simp
  show ?case
  proof (rule create_more [OF Cons.prems(1) h(1,2) room h(3)], goal_cases)
    case (1 s1)
    have "\<exists>s'. create_tasks C ts s1 = Some s' \<and> kboot C E (fst ` set ts \<union> insert (fst tp) T) s'"
    proof (rule Cons.IH [OF 1(2)])
      show "fst x \<noteq> 0 \<and> fst x \<notin> insert (fst tp) T \<and> snd x < configMAX_PRIORITIES C" if "x \<in> set ts" for x
      proof -
        have "fst tp \<notin> fst ` set ts" using Cons.prems(2) by simp
        then have "fst x \<noteq> fst tp" using that by (metis imageI)
        then show ?thesis using Cons.prems(3) [of x] that by simp
      qed
      show "card (insert (fst tp) T) + length ts < 2 ^ 32" using Cons.prems(4) f h(2) by simp
    qed (use Cons.prems(2) in simp)
    then show ?thesis using 1(1) by (simp add: insert_commute Un_commute)
  qed
qed

lemma boot_spec:
  assumes f: "kfresh E s" and d: "distinct (idle # map fst ts)" and i: "idle \<noteq> 0" and c: "0 < configMAX_PRIORITIES C"
    and t: "\<And>tp. tp \<in> set ts \<Longrightarrow> fst tp \<noteq> 0 \<and> snd tp < configMAX_PRIORITIES C"
    and n: "length ts + 1 < 2 ^ 32"
  obtains s' where "boot C ts idle s = Some s'" "kinv C idle E (insert idle (fst ` set ts)) s'" "\<not> pend_sv s'"
    "top_runs s'" "xTickCount s' = 0" "uxSchedulerSuspended s' = 0"
proof -
  have "\<exists>s1 s2. create_tasks C ts s = Some s1 \<and> xTaskGenericCreate C idle 0 s1 = Some (True, s2) \<and>
      kboot C E (insert idle (fst ` set ts)) s2"
  proof (cases ts)
    case Nil
    show ?thesis by (rule create_first [OF f i c]) (simp add: Nil)
  next
    case (Cons tp us)
    have h: "fst tp \<noteq> 0" "snd tp < configMAX_PRIORITIES C" using t [of tp] Cons by simp_all
    show ?thesis
    proof (rule create_first [OF f h], goal_cases)
      case (1 s0)
      have "\<exists>s'. create_tasks C us s0 = Some s' \<and> kboot C E (fst ` set us \<union> {fst tp}) s'"
      proof (rule create_tasks_boot [OF 1(2)])
        show "fst x \<noteq> 0 \<and> fst x \<notin> {fst tp} \<and> snd x < configMAX_PRIORITIES C" if "x \<in> set us" for x
        proof -
          have "fst tp \<notin> fst ` set us" using d Cons by simp
          then have "fst x \<noteq> fst tp" using that by (metis imageI)
          then show ?thesis using t [of x] that Cons by simp
        qed
      qed (use d n Cons in simp_all)
      then obtain s1 where s1: "create_tasks C us s0 = Some s1" "kboot C E (fst ` set ts) s1"
        using Cons by auto
      have k: "unat (uxCurrentNumberOfTasks s1) = card (fst ` set ts)" using s1(2) by (simp add: kboot_def)
      have "card (fst ` set ts) \<le> length ts" by (metis card_length length_map set_map)
      then have room: "uxCurrentNumberOfTasks s1 + 1 \<noteq> 0" using k n by (intro room_for_one) simp
      have ni: "idle \<notin> fst ` set ts" using d by simp
      show ?thesis
        by (rule create_more [OF s1(2) i ni room c]) (use 1(1) s1(1) Cons in simp)
    qed
  qed
  then obtain s1 s2 where s: "create_tasks C ts s = Some s1" "xTaskGenericCreate C idle 0 s1 = Some (True, s2)"
    "kboot C E (insert idle (fst ` set ts)) s2" by blast
  have "boot C ts idle s = Some (s2\<lparr>xSchedulerRunning := True, xTickCount := 0\<rparr>)"
    by (simp add: boot_def vTaskStartScheduler_def configASSERT_def s(1,2))
  moreover have "top_runs (s2\<lparr>xSchedulerRunning := True, xTickCount := 0\<rparr>)"
    using s(3) by (simp add: kboot_def top_runs_def ready_def)
  ultimately show thesis
    using start_kinv [OF s(3) insertI1] s(3) by (intro that [of "s2\<lparr>xSchedulerRunning := True, xTickCount := 0\<rparr>"]) (simp_all add: kboot_def)
qed

section \<open>A notification given by an interrupt\<close>

text \<open>\<open>vTaskNotifyGiveFromISR\<close> is \<open>xTaskNotifyFromISR\<close> with the action \<open>eIncrement\<close>.\<close>

lemma vTaskNotifyGiveFromISR_eq:
  "vTaskNotifyGiveFromISR t s = map_option snd (xTaskNotifyFromISR t 0 eIncrement s)"
proof -
  have m: "map_option f (x \<bind> g) = x \<bind> (\<lambda>y. map_option f (g y))" for f x and g :: "'x \<Rightarrow> (bool \<times> bool \<times> kernel) option"
    by (cases x) simp_all
  show ?thesis
    by (simp add: vTaskNotifyGiveFromISR_def xTaskNotifyFromISR_def Let_def m if_distrib [of "map_option snd"] cong: if_cong)
qed

section \<open>The machine\<close>

text \<open>The tasks the kernel knows: those whose state item is in a list.\<close>

definition tasks :: "kernel \<Rightarrow> task set" where
  "tasks s = {t. gen_at s t \<noteq> None}"

lemma kinv_tasks:
  assumes "kinv C idle E T s"
  shows "T = tasks s"
  using kweakD(3) [OF kinvD(1) [OF assms]] gen_in [OF kweakD(2) [OF kinvD(1) [OF assms]]]
  by (auto simp: tasks_def)

text \<open>
  What happens to the kernel: the interrupts, the context switch, and the calls of the task that
  runs.  \<open>IsrSignal\<close> and \<open>Signal\<close> are the uses of \<open>xTaskRemoveFromEventList\<close> by interrupts and by tasks.
\<close>

datatype kevent =
    Tick | Switch | IsrResume task | IsrNotify task u32 eNotifyAction | IsrGive task | IsrSignal list_id
  | Delay u32 | DelayUntil u32 u32 | WaitEvent list_id u32
  | NotifyTake u32 | NotifyTaken bool | NotifyWait u32 u32 | NotifyWaited u32
  | Suspend task | Resume task | Delete task | PrioritySet task u32
  | Notify task u32 eNotifyAction | Signal list_id | SuspendAll | ResumeAll
  | Create task u32 | TerminationLook | TerminationTake
  | HoldMutex | Inherit task | Disinherit

definition isr_end :: "bool \<times> kernel \<Rightarrow> kernel" where
  "isr_end r = (if fst r then portYIELD_WITHIN_API (snd r) else snd r)"

definition call_end :: "kernel_config \<Rightarrow> bool \<times> kernel \<Rightarrow> kernel" where
  "call_end C r = (if fst r then taskYIELD_IF_USING_PREEMPTION C (snd r) else snd r)"

fun kstep :: "kernel_config \<Rightarrow> kevent \<Rightarrow> kernel \<Rightarrow> kernel option" where
  "kstep C Tick s = vPortTickHandler C s"
| "kstep C Switch s = PendSV_Handler s"
| "kstep C (IsrResume t) s = map_option isr_end (xTaskResumeFromISR t s)"
| "kstep C (IsrNotify t v a) s = map_option (\<lambda>r. isr_end (snd r)) (xTaskNotifyFromISR t v a s)"
| "kstep C (IsrGive t) s = map_option isr_end (vTaskNotifyGiveFromISR t s)"
| "kstep C (IsrSignal e) s = map_option isr_end (xTaskRemoveFromEventList e s)"
| "kstep C (Delay n) s = vTaskDelay C n s"
| "kstep C (DelayUntil prev inc) s = map_option snd (vTaskDelayUntil C prev inc s)"
| "kstep C (WaitEvent e n) s = wait_event C e n s"
| "kstep C (NotifyTake n) s = ulTaskNotifyTake_enter n s"
| "kstep C (NotifyTaken c) s = Some (snd (ulTaskNotifyTake_leave c s))"
| "kstep C (NotifyWait b n) s = xTaskNotifyWait_enter b n s"
| "kstep C (NotifyWaited b) s = Some (snd (snd (xTaskNotifyWait_leave b s)))"
| "kstep C (Suspend h) s = vTaskSuspend h s"
| "kstep C (Resume t) s = vTaskResume C t s"
| "kstep C (Delete h) s = vTaskDelete h s"
| "kstep C (PrioritySet h p) s = vTaskPrioritySet C h p s"
| "kstep C (Notify t v a) s = map_option snd (xTaskNotify t v a s)"
| "kstep C (Signal e) s = map_option (call_end C) (xTaskRemoveFromEventList e s)"
| "kstep C SuspendAll s = Some (vTaskSuspendAll s)"
| "kstep C ResumeAll s = map_option snd (xTaskResumeAll C s)"
| "kstep C (Create t p) s = map_option snd (xTaskGenericCreate C t p s)"
| "kstep C TerminationLook s = map_option snd (termination_look C s)"
| "kstep C TerminationTake s = map_option snd (termination_take s)"
| "kstep C HoldMutex s = Some (snd (pvTaskIncrementMutexHeldCount s))"
| "kstep C (Inherit t) s = vTaskPriorityInherit C t s"
| "kstep C Disinherit s = map_option (call_end C) (xTaskPriorityDisinherit C (pxCurrentTCB s) s)"

text \<open>
  When an event can happen.  A task runs only while no switch is asked for; the rest is what the
  documentation asks of a caller: valid handles, no blocking call of the idle task or with the
  scheduler suspended, an event list that is not empty, a free TCB, a notification only to a task
  that does not wait in an event list.  Part of the contract is in \<open>kstep\<close> itself: a caller that is told by
  \<open>xTaskRemoveFromEventList\<close> or \<open>xTaskPriorityDisinherit\<close> that a switch is due asks for one at once
  (\<open>call_end\<close>, \<open>isr_end\<close>).  The give of a mutex for which a task waits, lines 666 to 698 of \<^verbatim>\<open>queue.c\<close>, does not
  keep it: it drops the answer of \<open>xTaskPriorityDisinherit\<close>.  The steps here do not reach the states it leaves;
  \<open>send_critical\<close> of \<open>Queue\<close> models it as it is written, and \<open>higher_task_left_waiting\<close> of \<open>Sched_Props\<close> shows one.
\<close>

definition notify_ok :: "task \<Rightarrow> kernel \<Rightarrow> bool" where
  "notify_ok t s \<longleftrightarrow> gen_at s t \<noteq> None \<and> (eNotifyState (tcb s t) = eWaitingNotification \<longrightarrow> evt_at s t = None)"

definition handle_ok :: "task \<Rightarrow> task \<Rightarrow> kernel \<Rightarrow> bool" where
  "handle_ok idle h s \<longleftrightarrow> gen_at s (prvGetTCBFromHandle h s) \<noteq> None \<and> prvGetTCBFromHandle h s \<noteq> idle \<and>
     (prvGetTCBFromHandle h s = pxCurrentTCB s \<longrightarrow> uxSchedulerSuspended s = 0)"

fun allowed :: "kernel_config \<Rightarrow> task \<Rightarrow> list_id set \<Rightarrow> kevent \<Rightarrow> kernel \<Rightarrow> bool" where
  "allowed C idle E Tick s = True"
| "allowed C idle E Switch s = pend_sv s"
| "allowed C idle E (IsrResume t) s = (t \<noteq> 0)"
| "allowed C idle E (IsrNotify t v a) s = (notify_ok t s \<and> gen_at s t \<noteq> Some xTasksWaitingTermination)"
| "allowed C idle E (IsrGive t) s = (notify_ok t s \<and> gen_at s t \<noteq> Some xTasksWaitingTermination)"
| "allowed C idle E (IsrSignal e) s = (e \<in> E \<and> items_of (klists s) e \<noteq> [])"
| "allowed C idle E (Delay n) s = running idle s"
| "allowed C idle E (DelayUntil prev inc) s = (running idle s \<and> 0 < inc)"
| "allowed C idle E (WaitEvent e n) s = (running idle s \<and> e \<in> E \<and> n \<noteq> 0)"
| "allowed C idle E (NotifyTake n) s = running idle s"
| "allowed C idle E (NotifyTaken c) s = (\<not> pend_sv s)"
| "allowed C idle E (NotifyWait b n) s = running idle s"
| "allowed C idle E (NotifyWaited b) s = (\<not> pend_sv s)"
| "allowed C idle E (Suspend h) s = (\<not> pend_sv s \<and> handle_ok idle h s)"
| "allowed C idle E (Resume t) s = (\<not> pend_sv s \<and> t \<noteq> 0)"
| "allowed C idle E (Delete h) s = (\<not> pend_sv s \<and> handle_ok idle h s)"
| "allowed C idle E (PrioritySet h p) s =
     (\<not> pend_sv s \<and> gen_at s (prvGetTCBFromHandle h s) \<noteq> None \<and> p < configMAX_PRIORITIES C)"
| "allowed C idle E (Notify t v a) s = (\<not> pend_sv s \<and> notify_ok t s)"
| "allowed C idle E (Signal e) s = (\<not> pend_sv s \<and> e \<in> E \<and> items_of (klists s) e \<noteq> [])"
| "allowed C idle E SuspendAll s = (\<not> pend_sv s \<and> uxSchedulerSuspended s + 1 \<noteq> 0)"
| "allowed C idle E ResumeAll s = (\<not> pend_sv s \<and> uxSchedulerSuspended s \<noteq> 0)"
| "allowed C idle E (Create t p) s = (\<not> pend_sv s \<and> t \<noteq> 0 \<and> gen_at s t = None \<and>
     uxCurrentNumberOfTasks s + 1 \<noteq> 0 \<and> p < configMAX_PRIORITIES C)"
| "allowed C idle E TerminationLook s = (\<not> pend_sv s \<and> uxSchedulerSuspended s = 0)"
| "allowed C idle E TerminationTake s = (\<not> pend_sv s \<and> items_of (klists s) xTasksWaitingTermination \<noteq> [])"
| "allowed C idle E HoldMutex s = (\<not> pend_sv s)"
| "allowed C idle E (Inherit t) s = (\<not> pend_sv s \<and> (gen_at s t \<noteq> None \<or> t = 0))"
| "allowed C idle E Disinherit s = (\<not> pend_sv s \<and> uxMutexesHeld (tcb s (pxCurrentTCB s)) \<noteq> 0)"

inductive kreach :: "kernel_config \<Rightarrow> task \<Rightarrow> list_id set \<Rightarrow> kernel \<Rightarrow> kernel \<Rightarrow> bool"
  for C idle E s0 where
  start: "kreach C idle E s0 s0"
| step: "kreach C idle E s0 s \<Longrightarrow> allowed C idle E ev s \<Longrightarrow> kstep C ev s = Some s' \<Longrightarrow> kreach C idle E s0 s'"

section \<open>Every step keeps the invariant\<close>

lemma kinv_set_pend:
  assumes "kinv C idle E T s"
  shows "kinv C idle E T (portYIELD_WITHIN_API s)"
  using assms kinvD(3) [OF assms] by (auto simp: kinv_def portYIELD_WITHIN_API_def)

lemma kinv_ends:
  assumes "kinv C idle E T s"
  shows "kinv C idle E T (isr_end (b, s))" "kinv C idle E T (call_end C (b, s))"
  using assms kinv_set_pend [OF assms]
  by (simp_all add: isr_end_def call_end_def taskYIELD_IF_USING_PREEMPTION_def)

lemma HoldMutex_kinv:
  assumes inv: "kinv C idle E T s"
  shows "kinv C idle E T (snd (pvTaskIncrementMutexHeldCount s))"
proof -
  let ?t = "pxCurrentTCB s"
  let ?r = "(tcb s ?t)\<lparr>uxMutexesHeld := uxMutexesHeld (tcb s ?t) + 1\<rparr>"
  note kw = kinvD(1) [OF inv] and cur = kweakD(5) [OF kinvD(1) [OF inv]]
  have km: "kmid (prios C) E T (set_tcb ?t ?r s)"
    using kbaseD(8,9) [OF kweakD(2) [OF kw] cur] by (intro km_set_tcb [OF kweakD(1) [OF kw]]) simp_all
  have r: "ready (set_tcb ?t ?r s) u = ready s u" and b: "blocked (set_tcb ?t ?r s) u = blocked s u" for u
    by (simp_all add: ready_def blocked_def set_tcb_def)
  have "kweak C idle E T (set_tcb ?t ?r s)"
    using km kw unfolding kweak_def waits_ok_def r b by simp
  moreover have "top_runs (set_tcb ?t ?r s) = top_runs s"
  proof -
    have "uxPriority (tcb (set_tcb ?t ?r s) u) = uxPriority (tcb s u)" for u by (simp add: set_tcb_def)
    then show ?thesis unfolding top_runs_def r by (simp only: set_tcb_sel)
  qed
  ultimately have "kinv C idle E T (set_tcb ?t ?r s)" using inv unfolding kinv_def r by simp
  then show ?thesis using inv by (simp add: pvTaskIncrementMutexHeldCount_def Let_def)
qed

lemma Inherit_kinv:
  assumes inv: "kinv C idle E T s" and t: "t \<in> T \<or> t = 0"
  obtains s' where "vTaskPriorityInherit C t s = Some s'" "kinv C idle E T s'"
proof -
  note kw = kinvD(1) [OF inv]
  show thesis
  proof (rule vTaskPriorityInherit_kweak [OF kw t], goal_cases)
    case (1 s' r)
    have st: "tcb s' = (tcb s)(t := r)" "pxCurrentTCB s' = pxCurrentTCB s" "pend_sv s' = pend_sv s"
      "xYieldPending s' = xYieldPending s" "uxSchedulerSuspended s' = uxSchedulerSuspended s"
      "uxPendedTicks s' = uxPendedTicks s"
      using 1(3) by (simp_all add: same_tasks_def)
    have nz: "\<not> ready s 0" using ready_in [OF kweakD(2) [OF kw], of 0] kbaseD(5) [OF kweakD(2) [OF kw]] by blast
    have c: "cur_prio s' = cur_prio s" using 1(8) by (auto simp: st)
    have "uxPriority (tcb s' u) \<le> cur_prio s" if "top_runs s" "ready s u" for u
      using that nz 1(8) by (cases "u = t") (auto simp: st top_runs_def)
    then have "top_runs s'" if "top_runs s" using that unfolding top_runs_def 1(4) c by blast
    then have "kinv C idle E T s'" using inv 1(2) unfolding kinv_def 1(4) st 1(5) by blast
    then show thesis using that 1(1) by blast
  qed
qed

lemma Disinherit_kinv:
  assumes inv: "kinv C idle E T s" and np: "\<not> pend_sv s" and h: "uxMutexesHeld (tcb s (pxCurrentTCB s)) \<noteq> 0"
  obtains y s' where "xTaskPriorityDisinherit C (pxCurrentTCB s) s = Some (y, s')"
    "kinv C idle E T (call_end C (y, s'))"
proof -
  show thesis
  proof (rule xTaskPriorityDisinherit_kweak [OF kinvD(1) [OF inv] refl kinvD(2) [OF inv np] h], goal_cases)
    case (1 y s' r)
    have st: "tcb s' = (tcb s)(pxCurrentTCB s := r)" "pxCurrentTCB s' = pxCurrentTCB s" "pend_sv s' = pend_sv s"
      "xYieldPending s' = xYieldPending s" "uxSchedulerSuspended s' = uxSchedulerSuspended s"
      "uxPendedTicks s' = uxPendedTicks s"
      using 1(3) by (simp_all add: same_tasks_def)
    have top: "top_runs s'" if "top_runs s" "\<not> y"
      using that 1(9) by (auto simp: top_runs_def 1(4) st)
    have "kinv C idle E T (call_end C (y, s'))"
      using inv 1(2) np top kinvD(2) [OF inv np] kinvD(4) [OF inv]
      unfolding kinv_def call_end_def
      by (cases y) (auto simp: taskYIELD_IF_USING_PREEMPTION_def portYIELD_WITHIN_API_def 1(4,5) st)
    then show thesis using that 1(1) by blast
  qed
qed

lemma kstep_kinv:
  assumes inv: "kinv C idle E T s" and a: "allowed C idle E ev s"
  shows "\<exists>s' T'. kstep C ev s = Some s' \<and> kinv C idle E T' s'"
proof -
  have T: "t \<in> T \<longleftrightarrow> gen_at s t \<noteq> None" for t using kinv_tasks [OF inv] by (simp add: tasks_def)
  show ?thesis
  proof (cases ev)
    case Tick
    show ?thesis by (rule vPortTickHandler_kinv [OF inv]) (auto simp: Tick)
  next
    case Switch
    show ?thesis by (rule PendSV_kinv [OF inv]) (auto simp: Switch)
  next
    case (IsrResume t)
    have "t \<noteq> 0" using a IsrResume by simp
    then show ?thesis
      by (rule xTaskResumeFromISR_kinv [OF inv]) (auto simp: IsrResume isr_end_def)
  next
    case (IsrNotify t v act)
    have h: "t \<in> T" "gen_at s t \<noteq> Some xTasksWaitingTermination"
      "eNotifyState (tcb s t) = eWaitingNotification \<Longrightarrow> evt_at s t = None"
      using a IsrNotify by (auto simp: notify_ok_def T)
    show ?thesis
      by (rule xTaskNotifyFromISR_kinv [OF inv h, of v act]) (auto simp: IsrNotify isr_end_def)
  next
    case (IsrGive t)
    have h: "t \<in> T" "gen_at s t \<noteq> Some xTasksWaitingTermination"
      "eNotifyState (tcb s t) = eWaitingNotification \<Longrightarrow> evt_at s t = None"
      using a IsrGive by (auto simp: notify_ok_def T)
    show ?thesis
      by (rule xTaskNotifyFromISR_kinv [OF inv h, of 0 eIncrement])
        (auto simp: IsrGive vTaskNotifyGiveFromISR_eq isr_end_def)
  next
    case (IsrSignal e)
    then obtain i "is" where h: "e \<in> E" "items_of (klists s) e = i # is" using a by (auto simp: neq_Nil_conv)
    show ?thesis
    proof (rule remove_event_kinv [OF inv h], goal_cases)
      case (1 w s')
      then show ?thesis using kinv_ends(1) [OF 1(2), of w] by (auto simp: IsrSignal)
    qed
  next
    case (Delay n)
    then have "running idle s" using a by simp
    then show ?thesis by (rule vTaskDelay_kinv [OF inv, of n]) (auto simp: Delay)
  next
    case (DelayUntil prev inc)
    then have "running idle s" "0 < inc" using a by simp_all
    then show ?thesis by (rule vTaskDelayUntil_kinv [OF inv, of inc prev]) (auto simp: DelayUntil)
  next
    case (WaitEvent e n)
    then have h: "running idle s" "e \<in> E" "n \<noteq> 0" using a by simp_all
    show ?thesis by (rule wait_event_kinv [OF inv h]) (auto simp: WaitEvent)
  next
    case (NotifyTake n)
    then have "running idle s" using a by simp
    then show ?thesis by (rule ulTaskNotifyTake_kinv [OF inv, of n]) (auto simp: NotifyTake)
  next
    case (NotifyWait b n)
    then have "running idle s" using a by simp
    then show ?thesis by (rule xTaskNotifyWait_kinv [OF inv, of b n]) (auto simp: NotifyWait)
  next
    case (NotifyTaken c)
    then show ?thesis using notify_leave_kinv(1) [OF inv, of c] by auto
  next
    case (NotifyWaited b)
    then show ?thesis using notify_leave_kinv(2) [OF inv, of b] by auto
  next
    case (Suspend h)
    then have h: "\<not> pend_sv s" "prvGetTCBFromHandle h s \<in> T" "prvGetTCBFromHandle h s \<noteq> idle"
      "prvGetTCBFromHandle h s = pxCurrentTCB s \<Longrightarrow> uxSchedulerSuspended s = 0"
      using a by (auto simp: handle_ok_def T)
    show ?thesis by (rule vTaskSuspend_kinv [OF inv h]) (auto simp: Suspend)
  next
    case (Delete h)
    then have h: "\<not> pend_sv s" "prvGetTCBFromHandle h s \<in> T" "prvGetTCBFromHandle h s \<noteq> idle"
      "prvGetTCBFromHandle h s = pxCurrentTCB s \<Longrightarrow> uxSchedulerSuspended s = 0"
      using a by (auto simp: handle_ok_def T)
    show ?thesis by (rule vTaskDelete_kinv [OF inv h]) (auto simp: Delete)
  next
    case (Resume t)
    then have "t \<noteq> 0" using a by simp
    then show ?thesis by (rule vTaskResume_kinv [OF inv]) (auto simp: Resume)
  next
    case (PrioritySet h p)
    then have h: "prvGetTCBFromHandle h s \<in> T" "p < configMAX_PRIORITIES C" using a by (simp_all add: T)
    show ?thesis by (rule vTaskPrioritySet_kinv [OF inv h]) (auto simp: PrioritySet)
  next
    case (Notify t v act)
    then have h: "t \<in> T" "eNotifyState (tcb s t) = eWaitingNotification \<Longrightarrow> evt_at s t = None"
      using a by (auto simp: notify_ok_def T)
    show ?thesis by (rule xTaskNotify_kinv [OF inv h, of v act]) (auto simp: Notify)
  next
    case (Signal e)
    then obtain i "is" where h: "e \<in> E" "items_of (klists s) e = i # is" using a by (auto simp: neq_Nil_conv)
    show ?thesis
    proof (rule remove_event_kinv [OF inv h], goal_cases)
      case (1 w s')
      then show ?thesis using kinv_ends(2) [OF 1(2), of w] by (auto simp: Signal)
    qed
  next
    case SuspendAll
    then show ?thesis using vTaskSuspendAll_kinv [OF inv] a by auto
  next
    case ResumeAll
    then have h: "\<not> pend_sv s" "uxSchedulerSuspended s \<noteq> 0" using a by simp_all
    show ?thesis by (rule xTaskResumeAll_kinv [OF inv h]) (auto simp: ResumeAll)
  next
    case (Create t p)
    then have h: "\<not> pend_sv s" "t \<noteq> 0" "t \<notin> T" "uxCurrentNumberOfTasks s + 1 \<noteq> 0" "p < configMAX_PRIORITIES C"
      using a by (simp_all add: T)
    show ?thesis by (rule xTaskGenericCreate_kinv [OF inv h]) (auto simp: Create)
  next
    case TerminationLook
    then have h: "\<not> pend_sv s" "uxSchedulerSuspended s = 0" using a by simp_all
    show ?thesis by (rule termination_look_kinv [OF inv h]) (auto simp: TerminationLook)
  next
    case TerminationTake
    then obtain i "is" where h: "\<not> pend_sv s" "items_of (klists s) xTasksWaitingTermination = i # is"
      using a by (auto simp: neq_Nil_conv)
    show ?thesis by (rule termination_take_kinv [OF inv h]) (auto simp: TerminationTake)
  next
    case HoldMutex
    then show ?thesis using HoldMutex_kinv [OF inv] by auto
  next
    case (Inherit t)
    then have "t \<in> T \<or> t = 0" using a by (simp add: T)
    then show ?thesis by (rule Inherit_kinv [OF inv]) (auto simp: Inherit)
  next
    case Disinherit
    then have h: "\<not> pend_sv s" "uxMutexesHeld (tcb s (pxCurrentTCB s)) \<noteq> 0" using a by simp_all
    show ?thesis by (rule Disinherit_kinv [OF inv h]) (auto simp: Disinherit)
  qed
qed

lemma kreach_kinv:
  assumes "kreach C idle E s0 s" "kinv C idle E T s0"
  shows "kinv C idle E (tasks s) s"
  using assms
proof (induction rule: kreach.induct)
  case start
  then show ?case using kinv_tasks by metis
next
  case (step s ev s')
  obtain s'' T' where "kstep C ev s = Some s''" "kinv C idle E T' s''"
    using kstep_kinv [OF step.IH [OF step.prems] step.hyps(2)] by blast
  then have "kinv C idle E T' s'" using step.hyps(3) by simp
  then show ?case using kinv_tasks [of C idle E T' s'] by simp
qed

end
