(* ===== verification/Sched_Props.thy ===== *)
theory Sched_Props
  imports Sched_Run
begin

text \<open>
  The properties of the scheduler: no call fails and the invariant holds in every state that can be
  reached from the start, the highest priority runs, tasks of one priority take turns, a delay ends
  after its ticks, timeouts are measured across the overflow of the tick counter, and a priority
  that was inherited is given back.
\<close>

section \<open>The states of a system\<close>

text \<open>A state that can be reached after the tasks \<open>ts\<close> were created and the scheduler was started.\<close>

definition start_ok :: "kernel_config \<Rightarrow> (task \<times> u32) list \<Rightarrow> task \<Rightarrow> bool" where
  "start_ok C ts idle \<longleftrightarrow> distinct (idle # map fst ts) \<and> idle \<noteq> 0 \<and> 0 < configMAX_PRIORITIES C \<and>
     (\<forall>tp\<in>set ts. fst tp \<noteq> 0 \<and> snd tp < configMAX_PRIORITIES C) \<and> length ts + 1 < 2 ^ 32"

definition system_state :: "kernel_config \<Rightarrow> task \<Rightarrow> list_id set \<Rightarrow> kernel \<Rightarrow> bool" where
  "system_state C idle E s \<longleftrightarrow>
     (\<exists>ts k s0. kfresh E k \<and> start_ok C ts idle \<and> boot C ts idle k = Some s0 \<and> kreach C idle E s0 s)"

lemma boot_start:
  assumes "kfresh E k" "start_ok C ts idle"
  obtains s where "boot C ts idle k = Some s" "kinv C idle E (insert idle (fst ` set ts)) s" "\<not> pend_sv s"
    "top_runs s" "xTickCount s = 0" "uxSchedulerSuspended s = 0"
proof -
  have a: "distinct (idle # map fst ts)" "idle \<noteq> 0" "0 < configMAX_PRIORITIES C" "length ts + 1 < 2 ^ 32"
    "\<And>tp. tp \<in> set ts \<Longrightarrow> fst tp \<noteq> 0 \<and> snd tp < configMAX_PRIORITIES C"
    using assms(2) unfolding start_ok_def by blast+
  show thesis by (rule boot_spec [OF assms(1) a(1-3,5,4)], assumption) (rule that)
qed

lemma system_kinv:
  assumes "system_state C idle E s"
  shows "kinv C idle E (tasks s) s"
proof -
  obtain ts k s0 where k: "kfresh E k" "start_ok C ts idle" "boot C ts idle k = Some s0" "kreach C idle E s0 s"
    using assms unfolding system_state_def by blast
  from boot_start [OF k(1,2)] k(3) have "kinv C idle E (insert idle (fst ` set ts)) s0"
    by (metis option.inject)
  then show ?thesis by (rule kreach_kinv [OF k(4)])
qed

text \<open>The system of the examples: one task of priority 2, five priorities, preemption, one event list.\<close>

definition kernel0 :: kernel where
  "kernel0 = \<lparr>klists = vListInitialise 1 blank_store,
     tcb = (\<lambda>t. \<lparr>uxPriority = 0, uxBasePriority = 0, uxMutexesHeld = 0, ulNotifiedValue = 0,
                 eNotifyState = eNotWaitingNotification\<rparr>),
     pxCurrentTCB = 0, pxDelayedTaskList = 0, pxOverflowDelayedTaskList = 0, uxTasksDeleted = 0,
     uxCurrentNumberOfTasks = 0, xTickCount = 0, uxTopReadyPriority = 0, xSchedulerRunning = False,
     uxPendedTicks = 0, xYieldPending = False, xNumOfOverflows = 0, xNextTaskUnblockTime = 0,
     uxSchedulerSuspended = 0, pend_sv = False\<rparr>"

definition config0 :: kernel_config where
  "config0 = \<lparr>configMAX_PRIORITIES = 5, configUSE_PREEMPTION = True, configUSE_TIME_SLICING = True\<rparr>"

definition system0 :: kernel where
  "system0 = the (boot config0 [(1, 2)] 2 kernel0)"

lemma system0_start: "kfresh {1} kernel0" "start_ok config0 [(1, 2)] 2"
proof -
  have "lists_ok {} blank_store" by (simp add: lists_ok_empty blank_store_def)
  then have "lists_ok {1} (vListInitialise 1 blank_store)" by (intro vListInitialise_items) simp_all
  then show "kfresh {1} kernel0" by (simp add: kfresh_def kernel0_def blank_store_def)
  show "start_ok config0 [(1, 2)] 2" by (simp add: start_ok_def config0_def)
qed

lemma system0_ok: "boot config0 [(1, 2)] 2 kernel0 = Some system0" "system_state config0 2 {1} system0"
proof -
  show b: "boot config0 [(1, 2)] 2 kernel0 = Some system0"
    by (rule boot_start [OF system0_start]) (simp add: system0_def)
  show "system_state config0 2 {1} system0"
    unfolding system_state_def using system0_start b kreach.start by blast
qed

lemma system0_running: "running 2 system0" "pxCurrentTCB system0 = 1"
  by (code_simp, code_simp)

section \<open>The tick interrupt and the switch after it\<close>

definition tick_switch :: "kernel_config \<Rightarrow> kernel \<Rightarrow> kernel option" where
  "tick_switch C s = do { s1 \<leftarrow> vPortTickHandler C s; if pend_sv s1 then PendSV_Handler s1 else Some s1 }"

primrec run_ticks :: "kernel_config \<Rightarrow> nat \<Rightarrow> kernel \<Rightarrow> kernel option" where
  "run_ticks C 0 s = Some s"
| "run_ticks C (Suc k) s = do { s1 \<leftarrow> run_ticks C k s; tick_switch C s1 }"

definition delayed :: "kernel \<Rightarrow> task \<Rightarrow> bool" where
  "delayed s t \<longleftrightarrow> gen_at s t \<in> {Some xDelayedTaskList1, Some xDelayedTaskList2}"

lemma due_iff:
  assumes "kinv C idle E T s"
  shows "due s t \<longleftrightarrow> delayed s t \<and> wake_value t s = xTickCount s + 1"
  using kbaseD(11) [OF kweakD(2) [OF kinvD(1) [OF assms]]]
  by (auto simp: due_def delayed_def doubleton_eq_iff)

lemma delayed_blocked: "delayed s t \<Longrightarrow> blocked s t"
  by (auto simp: delayed_def blocked_def)

lemma switch_overflows:
  assumes "vTaskSwitchContext s = Some s'"
  shows "xNumOfOverflows s' = xNumOfOverflows s"
proof (cases "uxSchedulerSuspended s = 0")
  case True
  then obtain p where p: "highest_ready (klists s) (unat (uxTopReadyPriority s)) = Some p"
    using assms by (auto simp: vTaskSwitchContext_def taskSELECT_HIGHEST_PRIORITY_TASK_def bind_eq_Some_conv)
  obtain ow k where "listGET_OWNER_OF_NEXT_ENTRY (pxReadyTasksLists p) (klists s) = (ow, k)" by (rule prod.exhaust)
  then show ?thesis
    using assms True p
    by (cases ow) (auto simp: vTaskSwitchContext_def taskSELECT_HIGHEST_PRIORITY_TASK_def)
qed (use assms in \<open>auto simp: vTaskSwitchContext_def\<close>)

lemma switch_kinv:
  assumes inv: "kinv C idle E T s" and run: "uxSchedulerSuspended s = 0"
  obtains s' where "PendSV_Handler s = Some s'" "kinv C idle E T s'" "\<not> pend_sv s'" "\<not> xYieldPending s'"
    "top_runs s'" "tcb s' = tcb s" "\<And>u. gen_at s' u = gen_at s u" "\<And>u. wake_value u s' = wake_value u s"
    "xTickCount s' = xTickCount s" "xNumOfOverflows s' = xNumOfOverflows s" "uxSchedulerSuspended s' = 0"
    "xGenericListItem (pxCurrentTCB s') = hd (rr_order (klists s) (pxReadyTasksLists (unat (cur_prio s'))))"
    "rr_order (klists s') (pxReadyTasksLists (unat (cur_prio s')))
       = tl (rr_order (klists s) (pxReadyTasksLists (unat (cur_prio s')))) @ [xGenericListItem (pxCurrentTCB s')]"
    "ready s' (pxCurrentTCB s')"
proof -
  let ?s = "s\<lparr>pend_sv := False\<rparr>"
  have kw: "kweak C idle E T ?s" "uxSchedulerSuspended ?s = 0" using kinvD(1) [OF inv] run by simp_all
  show thesis
  proof (rule switch_spec [OF kw], goal_cases)
    case (1 s')
    have st: "tcb s' = tcb s" "pend_sv s' = False" "xYieldPending s' = False" "uxSchedulerSuspended s' = 0"
      "uxPendedTicks s' = uxPendedTicks s"
      using 1(3) run by (simp_all add: same_tasks_def)
    have "kinv C idle E T s'"
      using 1(2,6,7) kinvD(5) [OF inv run] kinvD(6) [OF inv run] by (simp add: kinv_def st 1(4))
    then show thesis
      using 1(1,6-) 1(4) st switch_overflows [OF 1(1)] 1(4) [of "xGenericListItem _"]
      by (intro that [of s']) (simp_all add: PendSV_Handler_def wake_value_def)
  qed
qed

lemma tick_switch_spec:
  assumes inv: "kinv C idle E T s" and run: "uxSchedulerSuspended s = 0"
  obtains s' where "tick_switch C s = Some s'" "kinv C idle E T s'" "\<not> pend_sv s'" "uxSchedulerSuspended s' = 0"
    "tcb s' = tcb s" "xTickCount s' = xTickCount s + 1"
    "xNumOfOverflows s' = xNumOfOverflows s + (if xTickCount s + 1 = 0 then 1 else 0)"
    "\<And>u. gen_at s' u = (if due s u then Some (pxReadyTasksLists (unat (uxPriority (tcb s u)))) else gen_at s u)"
    "\<And>u. wake_value u s' = wake_value u s" "configUSE_PREEMPTION C \<Longrightarrow> top_runs s'"
proof -
  show thesis
  proof (rule kweak_tick [OF kinvD(1) [OF inv] run], goal_cases)
    case (1 sw s1)
    note a = 1 and st = same_tasks_sel [OF 1(3)]
    define s2 where "s2 = (if sw then portYIELD_WITHIN_API s1 else s1)"
    have h: "vPortTickHandler C s = Some s2" using 1(1) by (simp add: vPortTickHandler_def s2_def)
    then have i2: "kinv C idle E T s2" by (rule_tac vPortTickHandler_kinv [OF inv]) simp
    have l: "klists s2 = klists s1" "tcb s2 = tcb s" "xTickCount s2 = xTickCount s + 1" "uxSchedulerSuspended s2 = 0"
      "xNumOfOverflows s2 = xNumOfOverflows s + (if xTickCount s + 1 = 0 then 1 else 0)"
      using 1(4,5) st run by (simp_all add: s2_def portYIELD_WITHIN_API_def)
    have v: "wake_value u s2 = wake_value u s" for u using 1(8) [of u] by (simp add: wake_value_def l)
    show thesis
    proof (cases "pend_sv s2")
      case True
      show ?thesis
      proof (rule switch_kinv [OF i2 l(4)], goal_cases)
        case (1 s')
        show ?thesis
          by (rule that [of s']) (use 1 True h v a(7) l in \<open>simp_all add: tick_switch_def\<close>)
      qed
    next
      case False
      then have np: "\<not> sw" "\<not> pend_sv s" by (simp_all add: s2_def portYIELD_WITHIN_API_def st split: if_splits)
      have "top_runs s2" if p: "configUSE_PREEMPTION C"
      proof -
        have "\<not> xYieldPending s" by (rule 1(10) [OF p np(1)])
        then have "top_runs s" using kinvD(4) [OF inv p] np(2) by blast
        then show ?thesis using 1(11) [OF p np(1)] np(1) by (simp add: s2_def)
      qed
      then show ?thesis
        by (intro that [of s2]) (use False h v a(7) l i2 in \<open>simp_all add: tick_switch_def\<close>)
    qed
  qed
qed

section \<open>Delays\<close>

text \<open>With nothing pending, resuming the scheduler changes only the flags.\<close>

lemma resume_quiet:
  assumes kw: "kweak C idle E T s" and sus: "uxSchedulerSuspended s = 1" and p: "uxPendedTicks s = 0"
    and no: "\<And>t. evt_at s t \<noteq> Some xPendingReadyList"
  shows "resume_and_yield C s = Some (s\<lparr>uxSchedulerSuspended := 0, pend_sv := True\<rparr>)"
proof -
  define s1 where "s1 = s\<lparr>uxSchedulerSuspended := 0\<rparr>"
  note kb = kweakD(2) [OF kw]
  have L: "xPendingReadyList \<in> kernel_lists (prios C) \<union> E" by simp
  have "items_of (klists s) xPendingReadyList = []"
  proof (cases "items_of (klists s) xPendingReadyList")
    case (Cons i "is")
    note head = head_owner [OF kb L Cons]
    have "i = xEventListItem (task_of i)" by (rule event_item [OF kb]) (use head(3) in auto)
    then have False using no [of "task_of i"] head(3) by simp
    then show ?thesis ..
  qed
  then have e: "listLIST_IS_EMPTY (klists s1) xPendingReadyList"
    using listLIST_IS_EMPTY_items [OF kbaseD(1) [OF kb] L] by (simp add: s1_def)
  have "card T \<noteq> 0" using kweakD(5) [OF kw] kbaseD(3) [OF kb] by auto
  then have n: "0 < uxCurrentNumberOfTasks s1" using kweakD(7) [OF kw] by (auto simp: s1_def word_gt_0)
  have d: "drain_pending s1 = Some s1" using e by (simp add: drain_pending.simps [of s1])
  have t: "drain_ticks C s1 = Some s1" using p by (subst drain_ticks.simps) (simp add: s1_def)
  have r: "xTaskResumeAll C s = Some (if xYieldPending s1
      then (configUSE_PREEMPTION C, taskYIELD_IF_USING_PREEMPTION C s1) else (False, s1))"
    using sus n d t by (simp add: xTaskResumeAll_def configASSERT_def Let_def s1_def)
  then show ?thesis
    by (simp add: resume_and_yield_def taskYIELD_IF_USING_PREEMPTION_def portYIELD_WITHIN_API_def s1_def)
qed

lemma vTaskDelay_spec:
  assumes inv: "kinv C idle E T s" and run: "running idle s" and n: "0 < n"
  obtains s' where "vTaskDelay C n s = Some s'" "kinv C idle E T s'" "uxSchedulerSuspended s' = 0" "pend_sv s'"
    "delayed s' (pxCurrentTCB s)" "wake_value (pxCurrentTCB s) s' = xTickCount s + n"
    "xTickCount s' = xTickCount s" "tcb s' = tcb s" "pxCurrentTCB s' = pxCurrentTCB s"
proof -
  have w: "xTickCount s + n \<noteq> xTickCount s" using n by (intro add_ne_self) auto
  have r: "\<not> pend_sv s" "uxSchedulerSuspended s = 0" "pxCurrentTCB s \<noteq> idle" using run by (simp_all add: running_def)
  note kw = kinvD(1) [OF inv] and cur = kweakD(5) [OF kinvD(1) [OF inv]]
  define s0 where "s0 = vTaskSuspendAll s"
  have s0: "kmid (prios C) E T s0" "same_tasks (s\<lparr>uxSchedulerSuspended := 1\<rparr>) s0" "klists s0 = klists s"
    "pxCurrentTCB s0 = pxCurrentTCB s" "xTickCount s0 = xTickCount s"
    using kweakD(1) [OF kw] r by (simp_all add: s0_def vTaskSuspendAll_def same_tasks_def)
  obtain l0 where l0: "gen_at s0 (pxCurrentTCB s) = Some l0" using kweakD(3) [OF kw cur] s0(3) by auto
  show thesis
  proof (rule km_remove [OF s0(1) l0], goal_cases)
    case (1 s1)
    note a = 1 and m1 = moved_sel [OF 1(3)]
    have t1: "pxCurrentTCB s1 \<in> T" "gen_at s1 (pxCurrentTCB s1) = None" "xTickCount s + n \<noteq> xTickCount s1"
      using cur w s0 by (simp_all add: 1(4) m1)
    show thesis
    proof (rule km_delay [OF 1(2) t1], goal_cases)
      case (1 s2)
      let ?l = "if xTickCount s + n < xTickCount s1 then pxOverflowDelayedTaskList s1 else pxDelayedTaskList s1"
      note m2 = moved_sel [OF 1(3)]
      have l: "?l \<in> {xDelayedTaskList1, xDelayedTaskList2}"
        using delayed_lists(2,3) [OF kmid_base [OF a(2)]] by auto
      have kw0: "kweak C idle E T (s\<lparr>uxSchedulerSuspended := 1\<rparr>)" using kw by simp
      have st: "same_tasks (s\<lparr>uxSchedulerSuspended := 1\<rparr>) s2"
        using s0(2) moved_same_tasks [OF a(3)] moved_same_tasks [OF 1(3)] by (simp add: same_tasks_def)
      have l': "?l \<in> {xDelayedTaskList1, xDelayedTaskList2, xSuspendedTaskList}" using l by blast
      have kw2: "kweak C idle E T s2"
        by (rule kweak_blocked [OF kw0 1(2) st _ l'])
          (use r in \<open>simp_all add: 1(4) a(4) m1 s0\<close>)
      have f2: "uxSchedulerSuspended s2 = 1" "uxPendedTicks s2 = 0" "tcb s2 = tcb s" "pxCurrentTCB s2 = pxCurrentTCB s"
        using same_tasks_sel [OF st] kinvD(5) [OF inv r(2)] by simp_all
      have e2: "evt_at s2 u \<noteq> Some xPendingReadyList" for u
        using kinvD(6) [OF inv r(2)] by (simp add: 1(4) a(4) s0)
      define s' where "s' = s2\<lparr>uxSchedulerSuspended := 0, pend_sv := True\<rparr>"
      have res: "resume_and_yield C s2 = Some s'"
        using resume_quiet [OF kw2 f2(1,2) e2] by (simp add: s'_def)
      have d: "vTaskDelay C n s = Some s'"
        using n r a(1) 1(1) res
        by (simp add: vTaskDelay_def configASSERT_def Let_def s0_def [symmetric] s0)
      have "kinv C idle E T s'"
        using vTaskDelay_kinv [OF inv run, of n] d by auto
      moreover have "delayed s' (pxCurrentTCB s)" using l by (auto simp: delayed_def s'_def 1(4) m1 s0)
      moreover have "wake_value (pxCurrentTCB s) s' = xTickCount s + n"
        by (simp add: wake_value_def s'_def 1(5) m1 s0)
      ultimately show thesis
        using d by (intro that [of s']) (simp_all add: s'_def f2 m2 m1 s0)
    qed
  qed
qed

lemma run_ticks_spec:
  assumes inv: "kinv C idle E T s" and run: "uxSchedulerSuspended s = 0"
  shows "\<exists>s'. run_ticks C k s = Some s' \<and> kinv C idle E T s' \<and> uxSchedulerSuspended s' = 0 \<and>
    tcb s' = tcb s \<and> xTickCount s' = xTickCount s + of_nat k \<and>
    (\<forall>t. delayed s t \<longrightarrow> k < unat (wake_value t s - xTickCount s) \<longrightarrow> delayed s' t \<and> wake_value t s' = wake_value t s) \<and>
    (\<forall>t. delayed s t \<longrightarrow> k = unat (wake_value t s - xTickCount s) \<longrightarrow> ready s' t) \<and>
    (0 < k \<longrightarrow> \<not> pend_sv s' \<and> (configUSE_PREEMPTION C \<longrightarrow> top_runs s'))"
proof (induction k)
  case 0
  have "unat (wake_value t s - xTickCount s) \<noteq> 0" if "delayed s t" for t
  proof -
    have kt: "ktime s" using kweakD(1) [OF kinvD(1) [OF inv]] by (simp add: kmid_def)
    have "gen_at s t \<in> {Some (pxDelayedTaskList s), Some (pxOverflowDelayedTaskList s)}"
      using that kbaseD(11) [OF kweakD(2) [OF kinvD(1) [OF inv]]] by (auto simp: delayed_def doubleton_eq_iff)
    then have "wake_value t s \<noteq> xTickCount s" using kt by (auto simp: ktime_def)
    then show ?thesis by (simp add: unat_eq_0)
  qed
  then have "\<forall>t. delayed s t \<longrightarrow> 0 = unat (wake_value t s - xTickCount s) \<longrightarrow> ready s t" by metis
  then show ?case using inv run by (intro exI [of _ s]) simp
next
  case (Suc k)
  then obtain s1 where s1: "run_ticks C k s = Some s1" "kinv C idle E T s1" "uxSchedulerSuspended s1 = 0"
      "tcb s1 = tcb s" "xTickCount s1 = xTickCount s + of_nat k"
    and d1: "\<And>t. delayed s t \<Longrightarrow> k < unat (wake_value t s - xTickCount s) \<Longrightarrow> delayed s1 t \<and> wake_value t s1 = wake_value t s"
    by auto
  show ?case
  proof (rule tick_switch_spec [OF s1(2,3)], goal_cases)
    case (1 s')
    have due: "due s1 t \<longleftrightarrow> Suc k = unat (wake_value t s - xTickCount s)"
      if "delayed s t" "k < unat (wake_value t s - xTickCount s)" for t
    proof -
      have lt: "Suc k < 2 ^ 32" using that(2) unat_u32 [of "wake_value t s - xTickCount s"] by simp
      have "due s1 t \<longleftrightarrow> wake_value t s = xTickCount s + of_nat k + 1"
        using d1 [OF that] by (simp add: due_iff [OF s1(2)] s1(5))
      also have "\<dots> \<longleftrightarrow> wake_value t s - xTickCount s = of_nat (Suc k)" by (auto simp: algebra_simps)
      also have "\<dots> \<longleftrightarrow> Suc k = unat (wake_value t s - xTickCount s)"
        using lt by (metis unat_of_nat32 of_nat_unat32)
      finally show ?thesis .
    qed
    have A: "delayed s' t \<and> wake_value t s' = wake_value t s"
      if "delayed s t" "Suc k < unat (wake_value t s - xTickCount s)" for t
    proof -
      have k: "k < unat (wake_value t s - xTickCount s)" using that(2) by simp
      then have nd: "\<not> due s1 t" using due [OF that(1) k] that(2) by simp
      show ?thesis using d1 [OF that(1) k] 1(8) [of t] 1(9) [of t] nd by (simp add: delayed_def)
    qed
    have B: "ready s' t" if "delayed s t" "Suc k = unat (wake_value t s - xTickCount s)" for t
    proof -
      have k: "k < unat (wake_value t s - xTickCount s)" using that(2) by simp
      then have "due s1 t" using due [OF that(1) k] that(2) by simp
      then show ?thesis using 1(8) [of t] 1(5) by (simp add: ready_def)
    qed
    show ?case
      using s1(1,4,5) 1(1-6,10) A B by (intro exI [of _ s']) (simp add: algebra_simps)
  qed
qed

section \<open>Timeouts\<close>

lemma run_ticks_Suc: "run_ticks C (Suc k) s = Some s' \<longleftrightarrow> (\<exists>s1. run_ticks C k s = Some s1 \<and> tick_switch C s1 = Some s')"
  by (simp add: bind_eq_Some_conv)

text \<open>The tick count and the overflow count are the two digits of the number of ticks.\<close>

lemma run_ticks_overflows:
  assumes inv: "kinv C idle E T s" and run: "uxSchedulerSuspended s = 0"
  shows "\<exists>s'. run_ticks C k s = Some s' \<and> kinv C idle E T s' \<and> uxSchedulerSuspended s' = 0 \<and>
    xTickCount s' = of_nat (unat (xTickCount s) + k) \<and>
    xNumOfOverflows s' = xNumOfOverflows s + of_nat ((unat (xTickCount s) + k) div 2 ^ 32)"
proof (induction k)
  case 0
  have "unat (xTickCount s) div 2 ^ 32 = 0" using unat_u32 [of "xTickCount s"] by simp
  then show ?case using inv run by (intro exI [of _ s]) (simp add: of_nat_unat32)
next
  case (Suc k)
  then obtain s1 where s1: "run_ticks C k s = Some s1" "kinv C idle E T s1" "uxSchedulerSuspended s1 = 0"
      "xTickCount s1 = of_nat (unat (xTickCount s) + k)"
      "xNumOfOverflows s1 = xNumOfOverflows s + of_nat ((unat (xTickCount s) + k) div 2 ^ 32)"
    by blast
  let ?n = "unat (xTickCount s) + k"
  have z: "(of_nat ?n :: u32) + 1 = 0 \<longleftrightarrow> 2 ^ 32 dvd Suc ?n"
  proof -
    have e: "(of_nat ?n :: u32) + 1 = of_nat (Suc ?n)" by (simp only: of_nat_Suc add.commute)
    show ?thesis unfolding e using word_of_nat_eq_0_iff [where ?'a = 32, of "Suc ?n"] by (simp del: of_nat_Suc)
  qed
  have d: "Suc ?n div 2 ^ 32 = ?n div 2 ^ 32 + (if 2 ^ 32 dvd Suc ?n then 1 else 0)"
    by (simp add: div_Suc dvd_eq_mod_eq_0)
  show ?case
  proof (rule tick_switch_spec [OF s1(2,3)], goal_cases)
    case (1 s')
    have "xNumOfOverflows s' = xNumOfOverflows s + of_nat (Suc ?n div 2 ^ 32)"
      unfolding d using 1(7) s1(4,5) z by simp
    moreover have "xTickCount s' = of_nat (Suc ?n)" using 1(6) s1(4) by (simp add: add.commute)
    ultimately show ?case using s1(1) 1(1,2,4) by (intro exI [of _ s']) simp
  qed
qed

lemma check_timeout_spec:
  assumes t: "xTickCount s = of_nat (unat t0 + k)" "xNumOfOverflows s = o0 + of_nat ((unat t0 + k) div 2 ^ 32)"
    and k: "unat t0 + k < 2 ^ 33"
  shows "xTaskCheckForTimeOut \<lparr>xOverflowCount = o0, xTimeOnEntering = t0\<rparr> w s =
    (if w = portMAX_DELAY then (False, \<lparr>xOverflowCount = o0, xTimeOnEntering = t0\<rparr>, w)
     else if k < unat w then (False, vTaskSetTimeOutState s, w - of_nat k)
     else (True, \<lparr>xOverflowCount = o0, xTimeOnEntering = t0\<rparr>, w))"
proof -
  let ?n = "unat t0 + k"
  have w32: "unat w < 2 ^ 32" using unat_u32 [of w] by simp
  have tick: "unat (xTickCount s) = ?n mod 2 ^ 32" unfolding t(1) unat_of_nat by simp
  have el: "xTickCount s - t0 = of_nat k" using t(1) by (simp add: of_nat_unat32)
  consider "?n < 2 ^ 32" | "2 ^ 32 \<le> ?n" "k < 2 ^ 32" | "2 ^ 32 \<le> k" by linarith
  then show ?thesis
  proof cases
    case 1
    then have "xNumOfOverflows s = o0" "k < 2 ^ 32" using t(2) by simp_all
    then show ?thesis
      using el by (simp add: xTaskCheckForTimeOut_def word_less_nat_alt unat_of_nat32)
  next
    case 2
    have "?n mod 2 ^ 32 = ?n - 2 ^ 32" using 2(1) k by (simp add: le_mod_geq)
    then have "\<not> t0 \<le> xTickCount s" using tick 2 by (simp add: word_le_nat_alt)
    then show ?thesis
      using el 2(2) by (simp add: xTaskCheckForTimeOut_def word_less_nat_alt unat_of_nat32)
  next
    case 3
    have q: "?n div 2 ^ 32 = 1" "?n mod 2 ^ 32 = ?n - 2 ^ 32" using 3 k by (auto simp: le_mod_geq div_nat_eqI)
    then have "xNumOfOverflows s \<noteq> o0" using t(2) by simp
    moreover have "t0 \<le> xTickCount s" using tick q 3 by (simp add: word_le_nat_alt)
    moreover have "\<not> k < unat w" using 3 w32 by simp
    ultimately show ?thesis by (simp add: xTaskCheckForTimeOut_def)
  qed
qed

section \<open>Taking turns\<close>

text \<open>The tasks that run when each of them yields at once.\<close>

primrec run_yields :: "nat \<Rightarrow> kernel \<Rightarrow> (task list \<times> kernel) option" where
  "run_yields 0 s = Some ([], s)"
| "run_yields (Suc k) s =
     do { s1 \<leftarrow> PendSV_Handler (portYIELD_WITHIN_API s);
          (ts, s2) \<leftarrow> run_yields k s1;
          Some (pxCurrentTCB s1 # ts, s2) }"

lemma run_yields_spec:
  assumes "kinv C idle E T s" "uxSchedulerSuspended s = 0"
    and "\<And>u. ready s u \<Longrightarrow> uxPriority (tcb s u) \<le> p" "ready s t" "uxPriority (tcb s t) = p"
    and "rr_order (klists s) (pxReadyTasksLists (unat p)) = as @ bs"
  shows "\<exists>s'. run_yields (length as) s = Some (map task_of as, s')"
  using assms
proof (induction as arbitrary: s bs)
  case Nil
  then show ?case by simp
next
  case (Cons a as)
  let ?s = "portYIELD_WITHIN_API s"
  have i: "kinv C idle E T ?s" "uxSchedulerSuspended ?s = 0"
    using kinv_set_pend [OF Cons.prems(1)] Cons.prems(2) by (simp_all add: portYIELD_WITHIN_API_def)
  show ?case
  proof (rule switch_kinv [OF i], goal_cases)
    case (1 s1)
    have l: "klists ?s = klists s" "tcb ?s = tcb s" by (simp_all add: portYIELD_WITHIN_API_def)
    have r: "ready s1 u = ready s u" and pr: "uxPriority (tcb s1 u) = uxPriority (tcb s u)" for u
      using 1(6) 1(7) [of u] by (simp_all add: ready_def l)
    have "cur_prio s1 \<le> p" using Cons.prems(3) 1(14) by (simp add: r pr)
    moreover have "p \<le> cur_prio s1" using 1(5) Cons.prems(4,5) by (auto simp: top_runs_def r pr)
    ultimately have c: "cur_prio s1 = p" by simp
    have o: "rr_order (klists s1) (pxReadyTasksLists (unat p)) = as @ (bs @ [a])" "xGenericListItem (pxCurrentTCB s1) = a"
      using 1(12,13) Cons.prems(6) unfolding c l by simp_all
    have "task_of a = pxCurrentTCB s1" using o(2) by auto
    moreover have p1: "uxPriority (tcb s1 u) \<le> p" if "ready s1 u" for u
      using Cons.prems(3) [of u] that by (simp add: r pr)
    have t1: "ready s1 t" "uxPriority (tcb s1 t) = p" using Cons.prems(4,5) by (simp_all add: r pr)
    obtain s2 where "run_yields (length as) s1 = Some (map task_of as, s2)"
      using Cons.IH [OF 1(2,11) p1 t1 o(1)] by blast
    ultimately show ?case using 1(1) by simp
  qed
qed

lemma turns_spec:
  assumes inv: "kinv C idle E T s" and run: "uxSchedulerSuspended s = 0"
    and top: "\<And>u. ready s u \<Longrightarrow> uxPriority (tcb s u) \<le> uxPriority (tcb s t)" and t: "ready s t"
  defines "P \<equiv> {u. ready s u \<and> uxPriority (tcb s u) = uxPriority (tcb s t)}"
  shows "\<exists>ts s'. run_yields (card P) s = Some (ts, s') \<and> distinct ts \<and> set ts = P"
proof -
  let ?L = "pxReadyTasksLists (unat (uxPriority (tcb s t)))"
  note kb = kweakD(2) [OF kinvD(1) [OF inv]]
  have L: "?L \<in> kernel_lists (prios C) \<union> E" using kbaseD(8) [OF kb ready_in [OF kb t]] by simp
  have m: "mset (rr_order (klists s) ?L) = mset (items_of (klists s) ?L)"
    by (rule rr_order_mset [OF lists_ok_at [OF kbaseD(1) [OF kb] L]])
  define xs where "xs = rr_order (klists s) ?L"
  have d: "distinct xs" using m lists_ok_distinct [OF kbaseD(1) [OF kb] L] by (metis xs_def mset_eq_imp_distinct_iff)
  have mem: "i \<in> set xs \<longleftrightarrow> container_of (klists s) i = Some ?L" for i
    using contents_home [OF kb L, of i] m by (metis xs_def set_mset_mset)
  have gen: "i = xGenericListItem (task_of i)" if "i \<in> set xs" for i
    using that mem by (intro state_item [OF kb]) auto
  have "inj_on task_of (set xs)" using gen by (metis inj_onI)
  then have dt: "distinct (map task_of xs)" using d by (simp add: distinct_map)
  have st: "set (map task_of xs) = P"
  proof (intro set_eqI iffI)
    fix u
    assume "u \<in> set (map task_of xs)"
    then obtain i where i: "i \<in> set xs" "u = task_of i" by auto
    then have g: "gen_at s u = Some ?L" using gen [OF i(1)] mem by simp
    then have "ready s u" by (rule in_ready_list [OF kb])
    then show "u \<in> P" using g by (simp add: P_def ready_def word_unat_eq_iff)
  next
    fix u
    assume "u \<in> P"
    then have "gen_at s u = Some ?L" by (simp add: P_def ready_def)
    then have "xGenericListItem u \<in> set xs" by (simp add: mem)
    then show "u \<in> set (map task_of xs)" by (metis image_eqI item_simps(1) set_map)
  qed
  have len: "length xs = card P" using distinct_card [OF dt] st by simp
  have o: "rr_order (klists s) ?L = xs @ []" by (simp add: xs_def)
  from run_yields_spec [OF inv run top t refl o] obtain s'
    where "run_yields (length xs) s = Some (map task_of xs, s')" by blast
  then show ?thesis using dt st len by auto
qed

section \<open>Properties\<close>

text \<open>
  Claim C4.  A system that was started with valid tasks never fails: in every state that can be
  reached, each interrupt, each context switch and each call the running task may make returns
  (no \<open>configASSERT\<close> fails, no item is taken out of a list it is not in, no loop runs on), and the
  invariant of the kernel holds again.
\<close>

theorem scheduler_step_ok:
  assumes "system_state C idle E s" "allowed C idle E ev s"
  shows "\<exists>s'. kstep C ev s = Some s' \<and> kinv C idle E (tasks s') s' \<and> system_state C idle E s'"
proof -
  obtain s' T where s': "kstep C ev s = Some s'" "kinv C idle E T s'"
    using kstep_kinv [OF system_kinv [OF assms(1)] assms(2)] by blast
  moreover have "kinv C idle E (tasks s') s'" using s'(2) kinv_tasks [OF s'(2)] by simp
  moreover have "system_state C idle E s'"
    using assms s'(1) unfolding system_state_def by (metis kreach.step)
  ultimately show ?thesis by blast
qed

theorem scheduler_step_ok_witness:
  "allowed config0 2 {1} (WaitEvent 1 7) system0 \<and>
   (\<exists>s. kstep config0 (WaitEvent 1 7) system0 = Some s \<and> kinv config0 2 {1} (tasks s) s)"
proof -
  have "allowed config0 2 {1} (WaitEvent 1 7) system0" using system0_running(1) by simp
  then show ?thesis using scheduler_step_ok [OF system0_ok(2)] by blast
qed

text \<open>
  Claim C5.  With preemption, and whenever no context switch has been asked for, the task that runs
  is ready and no ready task has a higher priority, in every state a system can reach whose calls keep
  their contract; a part of it is that whoever is told by \<open>xTaskRemoveFromEventList\<close> or
  \<open>xTaskPriorityDisinherit\<close> that a switch is due asks for one (\<open>call_end\<close>), without which the property
  fails, see \<open>higher_task_left_waiting\<close>.
\<close>

theorem highest_priority_runs:
  assumes "system_state C idle E s" "configUSE_PREEMPTION C" "\<not> pend_sv s" "\<not> xYieldPending s"
  shows "ready s (pxCurrentTCB s) \<and> (\<forall>t. ready s t \<longrightarrow> uxPriority (tcb s t) \<le> cur_prio s)"
  using kinvD(2,4) [OF system_kinv [OF assms(1)]] assms(2-4) by (auto simp: top_runs_def)

theorem highest_priority_runs_witness:
  "ready system0 (pxCurrentTCB system0) \<and> ready system0 2 \<and> uxPriority (tcb system0 2) \<le> cur_prio system0"
proof -
  have h: "configUSE_PREEMPTION config0" "\<not> pend_sv system0" "\<not> xYieldPending system0" "ready system0 2"
    by (code_simp, code_simp, code_simp, code_simp)
  show ?thesis
    using highest_priority_runs [OF system0_ok(2) h(1-3)] h(4) by blast
qed

text \<open>
  Claim C11.  Tasks of the same, highest ready priority take turns: in as many context switches as
  there are such tasks, each of them runs exactly once.
\<close>

theorem equal_priorities_take_turns:
  assumes "system_state C idle E s" "uxSchedulerSuspended s = 0" "ready s t"
    and "\<And>u. ready s u \<Longrightarrow> uxPriority (tcb s u) \<le> uxPriority (tcb s t)"
  shows "\<exists>ts s'. run_yields (card {u. ready s u \<and> uxPriority (tcb s u) = uxPriority (tcb s t)}) s = Some (ts, s') \<and>
    distinct ts \<and> set ts = {u. ready s u \<and> uxPriority (tcb s u) = uxPriority (tcb s t)}"
  by (rule turns_spec [OF system_kinv [OF assms(1)] assms(2,4,3)])

text \<open>
  Claim C12.  A task that calls \<open>vTaskDelay\<close> with \<open>n > 0\<close> is blocked for exactly \<open>n\<close> ticks, also when the
  tick count overflows in between: after fewer ticks it is blocked, after the \<open>n\<close>-th it is ready, and
  with preemption it runs then, if its priority is the highest.
\<close>

theorem vTaskDelay_wakes:
  assumes "system_state C idle E s" "running idle s" "0 < n"
  shows "\<exists>s1. vTaskDelay C n s = Some s1 \<and>
    (\<forall>k \<le> unat n. \<exists>s2. run_ticks C k s1 = Some s2 \<and>
       (k < unat n \<longrightarrow> blocked s2 (pxCurrentTCB s)) \<and>
       (k = unat n \<longrightarrow> ready s2 (pxCurrentTCB s) \<and>
          (configUSE_PREEMPTION C \<and>
           (\<forall>u. ready s2 u \<and> u \<noteq> pxCurrentTCB s \<longrightarrow> uxPriority (tcb s2 u) < uxPriority (tcb s2 (pxCurrentTCB s)))
           \<longrightarrow> pxCurrentTCB s2 = pxCurrentTCB s)))"
proof (rule vTaskDelay_spec [OF system_kinv [OF assms(1)] assms(2,3)], goal_cases)
  case (1 s1)
  have w: "wake_value (pxCurrentTCB s) s1 - xTickCount s1 = n" using 1(6,7) by simp
  have "\<exists>s2. run_ticks C k s1 = Some s2 \<and> (k < unat n \<longrightarrow> blocked s2 (pxCurrentTCB s)) \<and>
       (k = unat n \<longrightarrow> ready s2 (pxCurrentTCB s) \<and>
          (configUSE_PREEMPTION C \<and>
           (\<forall>u. ready s2 u \<and> u \<noteq> pxCurrentTCB s \<longrightarrow> uxPriority (tcb s2 u) < uxPriority (tcb s2 (pxCurrentTCB s)))
           \<longrightarrow> pxCurrentTCB s2 = pxCurrentTCB s))" for k
  proof -
    obtain s2 where s2: "run_ticks C k s1 = Some s2" "kinv C idle E (tasks s) s2"
        "0 < k \<Longrightarrow> \<not> pend_sv s2 \<and> (configUSE_PREEMPTION C \<longrightarrow> top_runs s2)"
      and b: "k < unat n \<Longrightarrow> delayed s2 (pxCurrentTCB s)" and r: "k = unat n \<Longrightarrow> ready s2 (pxCurrentTCB s)"
      using run_ticks_spec [OF 1(2,3), of k] 1(5) w by metis
    have "pxCurrentTCB s2 = pxCurrentTCB s"
      if k: "k = unat n" and p: "configUSE_PREEMPTION C"
        and top: "\<forall>u. ready s2 u \<and> u \<noteq> pxCurrentTCB s \<longrightarrow> uxPriority (tcb s2 u) < uxPriority (tcb s2 (pxCurrentTCB s))"
    proof (rule ccontr)
      assume ne: "pxCurrentTCB s2 \<noteq> pxCurrentTCB s"
      have "0 < k" using k assms(3) by (simp add: word_less_nat_alt)
      then have f: "\<not> pend_sv s2" "top_runs s2" using s2(3) p by blast+
      have "ready s2 (pxCurrentTCB s2)" by (rule kinvD(2) [OF s2(2) f(1)])
      then have "cur_prio s2 < uxPriority (tcb s2 (pxCurrentTCB s))" using top ne by blast
      moreover have "uxPriority (tcb s2 (pxCurrentTCB s)) \<le> cur_prio s2" using f(2) r [OF k] by (simp add: top_runs_def)
      ultimately show False by simp
    qed
    then show ?thesis using s2(1) b r delayed_blocked by blast
  qed
  then show ?case using 1(1) by blast
qed

theorem vTaskDelay_wakes_witness:
  "\<exists>s1 s2. vTaskDelay config0 3 system0 = Some s1 \<and> run_ticks config0 3 s1 = Some s2 \<and> ready s2 1"
proof -
  have z: "(0 :: u32) < 3" by simp
  show ?thesis
    using vTaskDelay_wakes [OF system0_ok(2) system0_running(1) z]
  proof (elim exE conjE, goal_cases)
    case (1 s1)
    from 1(2) [THEN spec, of 3] show ?case using 1(1) by (auto simp: system0_running(2))
  qed
qed

text \<open>
  Claim C13.  A task that notes the time with \<open>vTaskSetTimeOutState\<close> and asks \<open>k\<close> ticks later with
  \<open>xTaskCheckForTimeOut\<close> learns that its time has run out exactly if it waits for no more than \<open>k\<close>
  ticks, and else what is left of it.  This holds across the overflow of the tick count, as long as
  the count has not overflowed twice, and a wait for \<open>portMAX_DELAY\<close> never ends.
\<close>

theorem timeout_is_elapsed_time:
  assumes "system_state C idle E s" "uxSchedulerSuspended s = 0" "unat (xTickCount s) + k < 2 ^ 33"
  shows "\<exists>s'. run_ticks C k s = Some s' \<and>
    xTaskCheckForTimeOut (vTaskSetTimeOutState s) w s' =
      (if w = portMAX_DELAY then (False, vTaskSetTimeOutState s, w)
       else if k < unat w then (False, vTaskSetTimeOutState s', w - of_nat k)
       else (True, vTaskSetTimeOutState s, w))"
proof -
  obtain s' where s': "run_ticks C k s = Some s'" "xTickCount s' = of_nat (unat (xTickCount s) + k)"
    "xNumOfOverflows s' = xNumOfOverflows s + of_nat ((unat (xTickCount s) + k) div 2 ^ 32)"
    using run_ticks_overflows [OF system_kinv [OF assms(1)] assms(2), of k] by blast
  show ?thesis
    using check_timeout_spec [OF s'(2,3) assms(3), of w] s'(1) unfolding vTaskSetTimeOutState_def [of s] by blast
qed

theorem timeout_is_elapsed_time_witness:
  "\<exists>s. run_ticks config0 2 system0 = Some s \<and>
     xTaskCheckForTimeOut (vTaskSetTimeOutState system0) 5 s = (False, vTaskSetTimeOutState s, 3)"
proof -
  have h: "uxSchedulerSuspended system0 = 0" "xTickCount system0 = 0" by (code_simp, code_simp)
  have "unat (xTickCount system0) + 2 < 2 ^ 33" by (simp add: h(2))
  from timeout_is_elapsed_time [OF system0_ok(2) h(1) this, of 5]
  show ?thesis by (simp add: portMAX_DELAY_def)
qed

text \<open>
  The task \<open>t\<close> gets the data \<open>r\<close> and its event item the value \<open>v\<close>; if it is ready it lies in the ready
  list of its new priority.  Nothing else changes: no other task, no other item value or place, no other
  list, and of the kernel's own variables only \<open>uxTopReadyPriority\<close>.
\<close>

definition only_task_changed :: "kernel_config \<Rightarrow> list_id set \<Rightarrow> task \<Rightarrow> tskTCB \<Rightarrow> u32 \<Rightarrow> kernel \<Rightarrow> kernel \<Rightarrow> bool" where
  "only_task_changed C E t r v s s' \<longleftrightarrow>
     s' = s\<lparr>klists := klists s', tcb := (tcb s)(t := r), uxTopReadyPriority := uxTopReadyPriority s'\<rparr> \<and>
     (\<forall>j. xItemValue (item_rec (klists s') j) = (if j = xEventListItem t then v else xItemValue (item_rec (klists s) j))) \<and>
     (\<forall>j. listLIST_ITEM_CONTAINER (klists s') j =
        (if j = xGenericListItem t \<and> ready s t then Some (pxReadyTasksLists (unat (uxPriority r)))
         else listLIST_ITEM_CONTAINER (klists s) j)) \<and>
     (\<forall>l \<in> kernel_lists (prios C) \<union> E.
        l \<noteq> pxReadyTasksLists (unat (uxPriority (tcb s t))) \<and> l \<noteq> pxReadyTasksLists (unat (uxPriority r)) \<longrightarrow>
        items_of (klists s') l = items_of (klists s) l)"

lemma only_task_tcb: "only_task_changed C E t r v s s' \<Longrightarrow> tcb s' = (tcb s)(t := r)"
  unfolding only_task_changed_def by (elim conjE) (drule arg_cong [where f = tcb], simp)

lemma add_ready_record:
  "prvAddTaskToReadyList t s = s\<lparr>klists := klists (prvAddTaskToReadyList t s),
     uxTopReadyPriority := uxTopReadyPriority (prvAddTaskToReadyList t s)\<rparr>"
  by (simp add: prvAddTaskToReadyList_def insert_end_def set_lists_def taskRECORD_READY_PRIORITY_def Let_def)

lemma remove_item_record: "remove_item i s = Some s' \<Longrightarrow> s' = s\<lparr>klists := klists s'\<rparr>"
  by (auto simp: remove_item_def set_lists_def split: bind_splits)

text \<open>A ready task leaves its ready list, gets new data and an event value, and joins the list of its priority.\<close>

lemma readied_only:
  assumes kb: "kmid (prios C) E T s" and t: "t \<in> T" "ready s t"
    and r: "unat (uxPriority r) < prios C" "unat (uxBasePriority r) < prios C"
    and s1: "remove_item (xGenericListItem t) s = Some s1"
    and s2: "s2 = s1\<lparr>tcb := (tcb s)(t := r), klists := k\<rparr>" "kmid (prios C) E T s2"
    and k: "\<And>j. ivalue k j = (if j = xEventListItem t then v else ivalue (klists s1) j)"
      "\<And>j. container_of k j = container_of (klists s1) j" "\<And>l. items_of k l = items_of (klists s1) l"
  shows "only_task_changed C E t r v s (prvAddTaskToReadyList t s2)"
proof -
  have g: "gen_at s t = Some (pxReadyTasksLists (unat (uxPriority (tcb s t))))" using t(2) by (simp add: ready_def)
  obtain c: "\<And>j. container_of (klists s1) j = (if j = xGenericListItem t then None else container_of (klists s) j)"
    and v1: "\<And>j. ivalue (klists s1) j = ivalue (klists s) j"
    and it: "\<And>l'. l' \<in> kernel_lists (prios C) \<union> E \<Longrightarrow> items_of (klists s1) l'
       = (if l' = pxReadyTasksLists (unat (uxPriority (tcb s t))) then remove1 (xGenericListItem t)
            (items_of (klists s) (pxReadyTasksLists (unat (uxPriority (tcb s t))))) else items_of (klists s) l')"
    by (rule km_remove [OF kb g]) (use s1 in auto)
  have p: "klists s2 = k" "tcb s2 t = r" by (simp_all add: s2(1))
  have out: "gen_at s2 t = None" by (simp add: p k c)
  note add = kb_add_ready [OF kmid_base [OF s2(2)] t(1) out]
  show ?thesis
    unfolding only_task_changed_def listLIST_ITEM_CONTAINER_def
  proof (intro conjI allI ballI impI)
    show "prvAddTaskToReadyList t s2 = s\<lparr>klists := klists (prvAddTaskToReadyList t s2), tcb := (tcb s)(t := r),
        uxTopReadyPriority := uxTopReadyPriority (prvAddTaskToReadyList t s2)\<rparr>"
      by (subst (1) add_ready_record, subst (1) s2(1), subst (1) remove_item_record [OF s1]) simp
  qed (use t(2) v1 in \<open>simp_all add: add p k c it\<close>)
qed

lemma unready_only:
  assumes "\<not> ready s t \<or> uxPriority r = uxPriority (tcb s t)" "s' = s\<lparr>tcb := (tcb s)(t := r), klists := k\<rparr>"
    and "\<And>j. ivalue k j = (if j = xEventListItem t then v else ivalue (klists s) j)"
      "\<And>j. container_of k j = container_of (klists s) j" "\<And>l. items_of k l = items_of (klists s) l"
  shows "only_task_changed C E t r v s s'"
  using assms by (auto simp: only_task_changed_def listLIST_ITEM_CONTAINER_def ready_def)

lemma event_value_first:
  assumes "only_task_changed C E t r v (set_event_value t w s) s'"
  shows "only_task_changed C E t r v s s'"
proof -
  have "ready (set_event_value t w s) t = ready s t" by (simp add: ready_def)
  then show ?thesis using assms
    by (simp add: only_task_changed_def listLIST_ITEM_CONTAINER_def) (simp add: set_event_value_def set_lists_def)
qed

lemma inherit_only:
  assumes kw: "kweak C idle E T s" and t: "t \<in> T" and s': "vTaskPriorityInherit C t s = Some s'"
  shows "only_task_changed C E t ((tcb s t)\<lparr>uxPriority := max (uxPriority (tcb s t)) (cur_prio s)\<rparr>)
    (if uxPriority (tcb s t) < cur_prio s \<and> event_value t s AND taskEVENT_LIST_ITEM_VALUE_IN_USE = 0
     then configMAX_PRIORITIES C - cur_prio s else event_value t s) s s'"
proof (cases "uxPriority (tcb s t) < cur_prio s")
  case False
  then have "s' = s" "max (uxPriority (tcb s t)) (cur_prio s) = uxPriority (tcb s t)"
    using s' by (auto simp: vTaskPriorityInherit_def max_def)
  then show ?thesis using False by (intro unready_only [where k = "klists s"]) (auto simp: event_value_def)
next
  case True
  define r where "r = (tcb s t)\<lparr>uxPriority := cur_prio s\<rparr>"
  define v where "v = (if event_value t s AND taskEVENT_LIST_ITEM_VALUE_IN_USE = 0 then configMAX_PRIORITIES C - cur_prio s
    else event_value t s)"
  define s1 where "s1 = set_event_value t v s"
  have "reset_event_value t (configMAX_PRIORITIES C - cur_prio s) s = s1"
    by (simp add: reset_event_value_def s1_def v_def set_event_value_def set_lists_def listSET_LIST_ITEM_VALUE_def event_value_def)
  then have i: "vTaskPriorityInherit C t s = reprioritise t r s1"
    using True kbaseD(5) [OF kweakD(2) [OF kw]] t
    unfolding vTaskPriorityInherit_def Let_def reprioritise_def by (auto simp: r_def s1_def)
  have kw1: "kweak C idle E T s1" unfolding s1_def by (rule reset_value_kweak(2) [OF kw])
  have pr: "unat (uxPriority r) < prios C" "unat (uxBasePriority r) < prios C"
    using kbaseD(8,9) [OF kweakD(2) [OF kw]] t kweakD(5) [OF kw] by (simp_all add: r_def)
  have "only_task_changed C E t r v s1 s'"
  proof (cases "ready s1 t")
    case rd: True
    have g: "gen_at s1 t = Some (pxReadyTasksLists (unat (uxPriority (tcb s1 t))))" using rd by (simp add: ready_def)
    show ?thesis
    proof (rule km_remove [OF kweakD(1) [OF kw1] g])
      fix s2 assume s2: "remove_item (xGenericListItem t) s1 = Some s2" "kmid (prios C) E T s2" "moved s1 s2"
        "\<And>j. container_of (klists s2) j = (if j = xGenericListItem t then None else container_of (klists s1) j)"
        "\<And>j. ivalue (klists s2) j = ivalue (klists s1) j"
      have e: "set_tcb t r s2 = s2\<lparr>tcb := (tcb s1)(t := r), klists := klists s2\<rparr>"
        using moved_sel(1) [OF s2(3)] by (simp add: set_tcb_def)
      have "s' = prvAddTaskToReadyList t (set_tcb t r s2)"
        using s' i s2(1) g by (simp add: reprioritise_def listIS_CONTAINED_WITHIN_def)
      then show ?thesis
        by (simp only:) (rule readied_only [OF kweakD(1) [OF kw1] t rd pr s2(1) e],
          use km_set_tcb [OF s2(2) _ pr] s2(4,5) in \<open>auto simp: s1_def set_event_value_def set_lists_def\<close>)
    qed
  next
    case nr: False
    then have "gen_at s1 t \<noteq> Some (pxReadyTasksLists (unat (uxPriority (tcb s1 t))))" by (simp add: ready_def)
    then have "s' = set_tcb t r s1" using s' i by (simp add: reprioritise_def listIS_CONTAINED_WITHIN_def)
    then show ?thesis
      using nr by (intro unready_only [where k = "klists s1"]) (auto simp: set_tcb_def s1_def set_event_value_def set_lists_def)
  qed
  then have "only_task_changed C E t r v s s'" unfolding s1_def by (rule event_value_first)
  moreover have "r = (tcb s t)\<lparr>uxPriority := max (uxPriority (tcb s t)) (cur_prio s)\<rparr>"
    using True by (simp add: r_def max_def)
  ultimately show ?thesis using True by (simp add: v_def)
qed

lemma disinherit_only:
  assumes kw: "kweak C idle E T s" and t: "t \<in> T" "ready s t" and h: "uxMutexesHeld (tcb s t) \<noteq> 0"
  defines "y \<equiv> uxPriority (tcb s t) \<noteq> uxBasePriority (tcb s t) \<and> uxMutexesHeld (tcb s t) = 1"
  shows "\<exists>s'. xTaskPriorityDisinherit C t s = Some (y, s') \<and>
    only_task_changed C E t ((tcb s t)\<lparr>uxMutexesHeld := uxMutexesHeld (tcb s t) - 1,
        uxPriority := if y then uxBasePriority (tcb s t) else uxPriority (tcb s t)\<rparr>)
      (if y then configMAX_PRIORITIES C - uxBasePriority (tcb s t) else event_value t s) s s'"
proof -
  have t0: "t \<noteq> 0" using kbaseD(5) [OF kweakD(2) [OF kw]] t(1) by metis
  have one: "uxMutexesHeld (tcb s t) - 1 = 0 \<longleftrightarrow> uxMutexesHeld (tcb s t) = 1" by simp
  define r1 where "r1 = (tcb s t)\<lparr>uxMutexesHeld := uxMutexesHeld (tcb s t) - 1\<rparr>"
  show ?thesis
  proof (cases y)
    case False
    have "xTaskPriorityDisinherit C t s = Some (False, set_tcb t r1 s)"
      using False t0 h by (auto simp: xTaskPriorityDisinherit_def configASSERT_def Let_def r1_def y_def)
    moreover have "only_task_changed C E t r1 (event_value t s) s (set_tcb t r1 s)"
      by (rule unready_only [where k = "klists s"]) (auto simp: r1_def set_tcb_def event_value_def)
    ultimately show ?thesis using False by (simp add: r1_def)
  next
    case True
    have g: "gen_at s t = Some (pxReadyTasksLists (unat (uxPriority (tcb s t))))" using t(2) by (simp add: ready_def)
    define r where "r = r1\<lparr>uxPriority := uxBasePriority (tcb s t)\<rparr>"
    define v where "v = configMAX_PRIORITIES C - uxBasePriority (tcb s t)"
    have pr: "unat (uxPriority r) < prios C" "unat (uxBasePriority r) < prios C"
      using kbaseD(9) [OF kweakD(2) [OF kw] t(1)] by (simp_all add: r_def r1_def)
    show ?thesis
    proof (rule km_remove [OF kweakD(1) [OF kw] g])
      fix s2 assume s2: "remove_item (xGenericListItem t) s = Some s2" "kmid (prios C) E T s2" "moved s s2"
        "\<And>j. container_of (klists s2) j = (if j = xGenericListItem t then None else container_of (klists s) j)"
        "\<And>j. ivalue (klists s2) j = ivalue (klists s) j"
      have rem: "remove_item (xGenericListItem t) (set_tcb t r1 s) = Some (set_tcb t r1 s2)"
        using s2(1) moved_sel(1) [OF s2(3)]
        by (auto simp: remove_item_def set_tcb_def set_lists_def split: bind_splits)
      define s4 where "s4 = set_event_value t v (set_tcb t r s2)"
      have "xTaskPriorityDisinherit C t s = Some (True, prvAddTaskToReadyList t s4)"
        using True t0 h rem moved_sel(1) [OF s2(3)]
        by (simp add: xTaskPriorityDisinherit_def configASSERT_def Let_def s4_def r_def r1_def v_def y_def) (simp add: set_tcb_def)
      moreover have "only_task_changed C E t r v s (prvAddTaskToReadyList t s4)"
      proof (rule readied_only [OF kweakD(1) [OF kw] t pr s2(1)])
        show "s4 = s2\<lparr>tcb := (tcb s)(t := r), klists := listSET_LIST_ITEM_VALUE (xEventListItem t) v (klists s2)\<rparr>"
          using moved_sel(1) [OF s2(3)] by (simp add: s4_def set_event_value_def set_lists_def set_tcb_def)
        show "kmid (prios C) E T s4"
          unfolding s4_def by (intro km_set_event_value km_set_tcb [OF s2(2) _ pr]) (simp add: s2(4))
      qed simp_all
      ultimately show ?thesis using True by (simp add: r_def r1_def v_def)
    qed
  qed
qed

text \<open>
  Claim C14.  Priority inheritance.  \<open>vTaskPriorityInherit\<close> raises the holder of a mutex to the priority
  of the running task if that is higher, moves it to the ready list of that priority if it is ready, and
  sets the value that orders it in an event list, unless that value is in use for something else; no
  other task, item, list or variable of the kernel changes but the bound of the search for the highest
  priority.  When a running task gives back a mutex, \<open>xTaskPriorityDisinherit\<close> answers that a switch is
  due exactly if its priority had been raised and this was the last mutex it held; then it has its base
  priority again, in the ready list and the value that go with it, and otherwise it only holds one
  mutex less; again nothing else changes.
\<close>

theorem priority_inheritance:
  assumes "system_state C idle E s" "t \<in> tasks s"
  shows "(\<exists>s1. vTaskPriorityInherit C t s = Some s1 \<and>
      only_task_changed C E t ((tcb s t)\<lparr>uxPriority := max (uxPriority (tcb s t)) (cur_prio s)\<rparr>)
        (if uxPriority (tcb s t) < cur_prio s \<and> event_value t s AND taskEVENT_LIST_ITEM_VALUE_IN_USE = 0
         then configMAX_PRIORITIES C - cur_prio s else event_value t s) s s1 \<and>
      (\<forall>u. ready s1 u = ready s u)) \<and>
    (pxCurrentTCB s = t \<and> \<not> pend_sv s \<and> uxMutexesHeld (tcb s t) \<noteq> 0 \<longrightarrow>
      (let y = (uxPriority (tcb s t) \<noteq> uxBasePriority (tcb s t) \<and> uxMutexesHeld (tcb s t) = 1) in
       \<exists>s1. xTaskPriorityDisinherit C t s = Some (y, s1) \<and>
         only_task_changed C E t ((tcb s t)\<lparr>uxMutexesHeld := uxMutexesHeld (tcb s t) - 1,
             uxPriority := if y then uxBasePriority (tcb s t) else uxPriority (tcb s t)\<rparr>)
           (if y then configMAX_PRIORITIES C - uxBasePriority (tcb s t) else event_value t s) s s1))"
proof (intro conjI impI)
  note inv = system_kinv [OF assms(1)]
  show "\<exists>s1. vTaskPriorityInherit C t s = Some s1 \<and>
      only_task_changed C E t ((tcb s t)\<lparr>uxPriority := max (uxPriority (tcb s t)) (cur_prio s)\<rparr>)
        (if uxPriority (tcb s t) < cur_prio s \<and> event_value t s AND taskEVENT_LIST_ITEM_VALUE_IN_USE = 0
         then configMAX_PRIORITIES C - cur_prio s else event_value t s) s s1 \<and>
      (\<forall>u. ready s1 u = ready s u)"
  proof (rule vTaskPriorityInherit_kweak [OF kinvD(1) [OF inv] disjI1 [OF assms(2)]], goal_cases)
    case (1 s1 r)
    then show ?case using inherit_only [OF kinvD(1) [OF inv] assms(2) 1(1)] by blast
  qed
  assume h: "pxCurrentTCB s = t \<and> \<not> pend_sv s \<and> uxMutexesHeld (tcb s t) \<noteq> 0"
  then have "ready s t" using kinvD(2) [OF inv] by blast
  then show "let y = (uxPriority (tcb s t) \<noteq> uxBasePriority (tcb s t) \<and> uxMutexesHeld (tcb s t) = 1) in
     \<exists>s1. xTaskPriorityDisinherit C t s = Some (y, s1) \<and>
       only_task_changed C E t ((tcb s t)\<lparr>uxMutexesHeld := uxMutexesHeld (tcb s t) - 1,
           uxPriority := if y then uxBasePriority (tcb s t) else uxPriority (tcb s t)\<rparr>)
         (if y then configMAX_PRIORITIES C - uxBasePriority (tcb s t) else event_value t s) s s1"
    using disinherit_only [OF kinvD(1) [OF inv] assms(2)] h unfolding Let_def by blast
qed

text \<open>Two tasks of priority 2 and one of priority 1 besides the idle task.\<close>

definition system1 :: kernel where
  "system1 = the (boot config0 [(4, 2), (2, 2), (5, 1)] 3 kernel0)"

lemma system1_ok: "system_state config0 3 {1} system1" "kinv config0 3 {1} {2, 3, 4, 5} system1"
proof -
  have st: "start_ok config0 [(4, 2), (2, 2), (5, 1)] 3" by (simp add: start_ok_def config0_def)
  obtain s where s: "boot config0 [(4, 2), (2, 2), (5, 1)] 3 kernel0 = Some s"
    "kinv config0 3 {1} (insert 3 (fst ` set [(4, 2 :: u32), (2, 2), (5, 1)])) s"
    by (rule boot_start [OF system0_start(1) st])
  have e: "system1 = s" using s(1) by (simp add: system1_def)
  show "system_state config0 3 {1} system1"
    unfolding system_state_def e using system0_start(1) st s(1) kreach.start by blast
  show "kinv config0 3 {1} {2, 3, 4, 5} system1" using s(2) by (simp add: e insert_commute)
qed

lemma system1_values: "uxSchedulerSuspended system1 = 0" "ready system1 4" "ready system1 2"
  "uxPriority (tcb system1 4) = 2" "uxPriority (tcb system1 2) = 2" "uxPriority (tcb system1 5) = 1"
  "uxPriority (tcb system1 3) = 0" "pxCurrentTCB system1 = 2"
  by (code_simp, code_simp, code_simp, code_simp, code_simp, code_simp, code_simp, code_simp)

lemma system1_ready:
  assumes "ready system1 u"
  shows "u = 2 \<or> u = 3 \<or> u = 4 \<or> u = 5"
  using ready_in [OF kweakD(2) [OF kinvD(1) [OF system1_ok(2)]] assms] by simp

theorem equal_priorities_take_turns_witness:
  "\<exists>ts s'. run_yields 2 system1 = Some (ts, s') \<and> distinct ts \<and> set ts = {2, 4}"
proof -
  have P: "{u. ready system1 u \<and> uxPriority (tcb system1 u) = uxPriority (tcb system1 4)} = {2, 4}"
  proof (intro set_eqI)
    fix u
    show "u \<in> {u. ready system1 u \<and> uxPriority (tcb system1 u) = uxPriority (tcb system1 4)} \<longleftrightarrow> u \<in> {2, 4}"
      using system1_ready [of u] system1_values by auto
  qed
  have top: "uxPriority (tcb system1 u) \<le> uxPriority (tcb system1 4)" if "ready system1 u" for u
    using system1_ready [OF that] system1_values by auto
  note r = equal_priorities_take_turns [OF system1_ok(1) system1_values(1,2) top]
  have "card {2, 4 :: nat} = 2" by simp
  with r show ?thesis unfolding P by metis
qed

text \<open>
  A low task holds a mutex.  In \<open>system1\<close> the tasks 2 and 4 wait for an event, so that 5 runs and takes
  the mutex.  It wakes 2, which preempts it, lends it its priority and waits again; then 5 runs at the
  priority it has inherited and wakes 4, which is ready beside it.
\<close>

primrec run_allowed :: "kernel_config \<Rightarrow> task \<Rightarrow> list_id set \<Rightarrow> kevent list \<Rightarrow> kernel \<Rightarrow> kernel option" where
  "run_allowed C idle E [] s = Some s"
| "run_allowed C idle E (e # es) s =
     (if allowed C idle E e s then Option.bind (kstep C e s) (run_allowed C idle E es) else None)"

lemma run_allowed_reach:
  "run_allowed C idle E es s = Some s' \<Longrightarrow> kreach C idle E s0 s \<Longrightarrow> kreach C idle E s0 s'"
proof (induction es arbitrary: s)
  case (Cons e es)
  then obtain s1 where "allowed C idle E e s" "kstep C e s = Some s1" "run_allowed C idle E es s1 = Some s'"
    by (auto split: if_splits bind_splits)
  then show ?case using Cons kreach.step by blast
qed simp

declare drain_pending.simps [code] drain_ticks.simps [code] unblock_expired.simps [code]

definition lending :: "kevent list" where
  "lending = [WaitEvent 1 100, Switch, WaitEvent 1 100, Switch, HoldMutex, Signal 1, Switch, Inherit 5, WaitEvent 1 100,
     Switch, Signal 1]"

definition lent :: kernel where
  "lent = the (run_allowed config0 3 {1} lending system1)"

lemma lent_values: "pxCurrentTCB lent = 5 \<and> \<not> pend_sv lent \<and> ready lent 4 \<and>
    (uxPriority (tcb lent 5), uxBasePriority (tcb lent 5), uxMutexesHeld (tcb lent 5)) = (2, 1, 1) \<and>
    run_allowed config0 3 {1} lending system1 \<noteq> None"
  by code_simp

lemma lent_ok: "system_state config0 3 {1} lent"
proof -
  have r: "run_allowed config0 3 {1} lending system1 = Some lent" using lent_values by (auto simp: lent_def)
  show ?thesis using system1_ok(1) run_allowed_reach [OF r] unfolding system_state_def by blast
qed

theorem priority_inheritance_witness:
  "(\<exists>s1. vTaskPriorityInherit config0 5 system1 = Some s1 \<and> uxPriority (tcb s1 5) = 2 \<and> event_value 5 s1 = 3 \<and>
      listLIST_ITEM_CONTAINER (klists s1) (xGenericListItem 5) = Some (pxReadyTasksLists 2)) \<and>
   (\<exists>s1. xTaskPriorityDisinherit config0 5 lent = Some (True, s1) \<and> uxPriority (tcb s1 5) = 1 \<and> event_value 5 s1 = 4)"
proof
  have t: "5 \<in> tasks system1" using kinv_tasks [OF system1_ok(2)] by blast
  have e: "event_value 5 system1 AND taskEVENT_LIST_ITEM_VALUE_IN_USE = 0" "configMAX_PRIORITIES config0 - 2 = 3" "ready system1 5"
    by (code_simp, code_simp, code_simp)
  obtain s1 where s1: "vTaskPriorityInherit config0 5 system1 = Some s1"
    "only_task_changed config0 {1} 5 ((tcb system1 5)\<lparr>uxPriority := 2\<rparr>) 3 system1 s1"
    using priority_inheritance [OF system1_ok(1) t, THEN conjunct1] e by (auto simp: system1_values max_def)
  show "\<exists>s1. vTaskPriorityInherit config0 5 system1 = Some s1 \<and> uxPriority (tcb s1 5) = 2 \<and> event_value 5 s1 = 3 \<and>
      listLIST_ITEM_CONTAINER (klists s1) (xGenericListItem 5) = Some (pxReadyTasksLists 2)"
    using s1 e(3) only_task_tcb [OF s1(2)] by (auto simp: only_task_changed_def event_value_def)
next
  have t: "5 \<in> tasks lent"
    using ready_in [OF kweakD(2) [OF kinvD(1) [OF system_kinv [OF lent_ok]]]] kinvD(2) [OF system_kinv [OF lent_ok]] lent_values
    by metis
  have y: "uxPriority (tcb lent 5) \<noteq> uxBasePriority (tcb lent 5) \<and> uxMutexesHeld (tcb lent 5) = 1" "uxBasePriority (tcb lent 5) = 1"
    using lent_values by auto
  obtain s1 where s1: "xTaskPriorityDisinherit config0 5 lent = Some (True, s1)"
    "only_task_changed config0 {1} 5 ((tcb lent 5)\<lparr>uxMutexesHeld := uxMutexesHeld (tcb lent 5) - 1, uxPriority := 1\<rparr>) 4 lent s1"
    using priority_inheritance [OF lent_ok t, THEN conjunct2] lent_values y by (auto simp: config0_def)
  then show "\<exists>s1. xTaskPriorityDisinherit config0 5 lent = Some (True, s1) \<and> uxPriority (tcb s1 5) = 1 \<and> event_value 5 s1 = 4"
    using only_task_tcb [OF s1(2)] by (auto simp: only_task_changed_def event_value_def)
qed

text \<open>
  Why callers have to switch when they are told to: the task 5 gives its mutex back, drops to its own
  priority 1 and is told so; if nobody switches now, it runs on with the task 4 of priority 2 ready.  This is
  what the give of a mutex does in \<^verbatim>\<open>queue.c\<close> when a task of low priority waits for the mutex: lines 666 to
  698 then look at the answer of \<open>xTaskRemoveFromEventList\<close> only.
\<close>

lemma higher_task_left_waiting:
  "case xTaskPriorityDisinherit config0 5 lent of
     Some (told, s) \<Rightarrow> told \<and> \<not> pend_sv s \<and> \<not> xYieldPending s \<and> pxCurrentTCB s = 5 \<and> uxPriority (tcb s 5) = 1 \<and>
       ready s 4 \<and> uxPriority (tcb s 4) = 2
   | None \<Rightarrow> False"
  by code_simp

end
