(* ===== verification/Queue.thy ===== *)
theory Queue
  imports Tasks
begin

text \<open>
  The queues of the kernel, \<open>SDK/rtos/FreeRTOS/src/queue.c\<close>: queues of messages, counting semaphores
  (queues of messages of size 0) and mutexes, on top of the scheduler.  A queue is its control block
  together with the storage behind it; its two event lists are lists of the kernel.  Queue sets,
  the registry, co-routines and the alternative API are not built.  A function that may block is
  given in three parts: the critical section that it runs once in every round of its loop, and the
  two halves of the part with the scheduler suspended, between which interrupts may come.
\<close>

section \<open>Data\<close>

datatype copy_position = queueSEND_TO_BACK | queueSEND_TO_FRONT | queueOVERWRITE

text \<open>
  \<open>pcTail\<close>, \<open>pcWriteTo\<close> and \<open>pcReadFrom\<close> are the distances of the pointers from \<open>pcHead\<close>, which for a
  mutex is NULL (\<open>queueQUEUE_IS_MUTEX\<close>).  The code keeps \<open>pxMutexHolder\<close> in \<open>pcTail\<close> and
  \<open>uxRecursiveCallCount\<close> in \<open>pcReadFrom\<close>, which a mutex does not use.
\<close>

record Queue_t =
  is_mutex :: bool
  pcTail :: int
  pcWriteTo :: int
  pcReadFrom :: int
  pxMutexHolder :: task
  uxRecursiveCallCount :: u32
  xTasksWaitingToSend :: list_id
  xTasksWaitingToReceive :: list_id
  uxMessagesWaiting :: u32
  uxLength :: u32
  uxItemSize :: u32
  xRxLock :: int
  xTxLock :: int
  storage :: "u8 list"

definition queueUNLOCKED :: int where "queueUNLOCKED = -1"
definition queueLOCKED_UNMODIFIED :: int where "queueLOCKED_UNMODIFIED = 0"

text \<open>\<open>memcpy\<close> from the caller's item and to and from the storage; a copy beyond an object is an error.\<close>

definition item_bytes :: "u32 \<Rightarrow> u8 list \<Rightarrow> u8 list option" where
  "item_bytes n x = (if unat n \<le> length x then Some (take (unat n) x) else None)"

definition storage_put :: "int \<Rightarrow> u8 list \<Rightarrow> u8 list \<Rightarrow> u8 list option" where
  "storage_put p bs m =
     (if 0 \<le> p \<and> nat p + length bs \<le> length m
      then Some (take (nat p) m @ bs @ drop (nat p + length bs) m) else None)"

definition storage_get :: "int \<Rightarrow> nat \<Rightarrow> u8 list \<Rightarrow> u8 list option" where
  "storage_get p n m = (if 0 \<le> p \<and> nat p + n \<le> length m then Some (take n (drop (nat p) m)) else None)"

text \<open>The locks are signed counters.\<close>

definition lock_inc :: "int \<Rightarrow> int option" where
  "lock_inc l = (if l < 2 ^ 31 - 1 then Some (l + 1) else None)"

section \<open>Copying a message\<close>

definition prvCopyDataToQueue ::
    "kernel_config \<Rightarrow> u8 list \<Rightarrow> copy_position \<Rightarrow> Queue_t \<Rightarrow> kernel \<Rightarrow> (bool \<times> Queue_t \<times> kernel) option" where
  "prvCopyDataToQueue C pvItemToQueue xPosition q s =
     do { let n = int (unat (uxItemSize q));
          (xReturn, q1, s1) \<leftarrow>
            (if uxItemSize q = 0
             then if is_mutex q
                  then do { (y, s') \<leftarrow> xTaskPriorityDisinherit C (pxMutexHolder q) s;
                            Some (y, q\<lparr>pxMutexHolder := 0\<rparr>, s') }
                  else Some (False, q, s)
             else if xPosition = queueSEND_TO_BACK
             then do { x \<leftarrow> item_bytes (uxItemSize q) pvItemToQueue;
                       m \<leftarrow> storage_put (pcWriteTo q) x (storage q);
                       let w = pcWriteTo q + n;
                       Some (False, q\<lparr>storage := m, pcWriteTo := (if pcTail q \<le> w then 0 else w)\<rparr>, s) }
             else do { x \<leftarrow> item_bytes (uxItemSize q) pvItemToQueue;
                       m \<leftarrow> storage_put (pcReadFrom q) x (storage q);
                       let r = pcReadFrom q - n;
                       let q' = q\<lparr>storage := m, pcReadFrom := (if r < 0 then pcTail q - n else r)\<rparr>;
                       Some (False, if xPosition = queueOVERWRITE \<and> 0 < uxMessagesWaiting q'
                                    then q'\<lparr>uxMessagesWaiting := uxMessagesWaiting q' - 1\<rparr> else q', s) });
          Some (xReturn, q1\<lparr>uxMessagesWaiting := uxMessagesWaiting q1 + 1\<rparr>, s1) }"

definition prvCopyDataFromQueue :: "Queue_t \<Rightarrow> (u8 list \<times> Queue_t) option" where
  "prvCopyDataFromQueue q =
     (if uxItemSize q \<noteq> 0
      then do { let r = pcReadFrom q + int (unat (uxItemSize q));
                let r' = (if pcTail q \<le> r then 0 else r);
                x \<leftarrow> storage_get r' (unat (uxItemSize q)) (storage q);
                Some (x, q\<lparr>pcReadFrom := r'\<rparr>) }
      else Some ([], q))"

section \<open>Waking and locking\<close>

text \<open>The head of an event list, if there is one, is made ready; the flag asks for a switch.\<close>

definition wake_waiter :: "list_id \<Rightarrow> kernel \<Rightarrow> (bool \<times> kernel) option" where
  "wake_waiter e s = (if listLIST_IS_EMPTY (klists s) e then Some (False, s) else xTaskRemoveFromEventList e s)"

definition queueYIELD_IF_USING_PREEMPTION :: "kernel_config \<Rightarrow> bool \<Rightarrow> kernel \<Rightarrow> kernel" where
  "queueYIELD_IF_USING_PREEMPTION C w s = (if w then taskYIELD_IF_USING_PREEMPTION C s else s)"

definition prvLockQueue :: "Queue_t \<Rightarrow> Queue_t" where
  "prvLockQueue q =
     q\<lparr>xRxLock := (if xRxLock q = queueUNLOCKED then queueLOCKED_UNMODIFIED else xRxLock q),
       xTxLock := (if xTxLock q = queueUNLOCKED then queueLOCKED_UNMODIFIED else xTxLock q)\<rparr>"

text \<open>The two loops of \<open>prvUnlockQueue\<close>, which count a lock down.\<close>

primrec unlock_wake :: "nat \<Rightarrow> list_id \<Rightarrow> kernel \<Rightarrow> kernel option" where
  "unlock_wake 0 e s = Some s"
| "unlock_wake (Suc k) e s =
     (if listLIST_IS_EMPTY (klists s) e then Some s
      else do { (w, s1) \<leftarrow> xTaskRemoveFromEventList e s;
                unlock_wake k e (if w then vTaskMissedYield s1 else s1) })"

definition prvUnlockQueue :: "Queue_t \<Rightarrow> kernel \<Rightarrow> (Queue_t \<times> kernel) option" where
  "prvUnlockQueue q s =
     do { s1 \<leftarrow> unlock_wake (nat (xTxLock q)) (xTasksWaitingToReceive q) s;
          s2 \<leftarrow> unlock_wake (nat (xRxLock q)) (xTasksWaitingToSend q) s1;
          Some (q\<lparr>xTxLock := queueUNLOCKED, xRxLock := queueUNLOCKED\<rparr>, s2) }"

section \<open>State of a queue\<close>

definition prvIsQueueEmpty :: "Queue_t \<Rightarrow> bool" where
  "prvIsQueueEmpty q \<longleftrightarrow> uxMessagesWaiting q = 0"

definition prvIsQueueFull :: "Queue_t \<Rightarrow> bool" where
  "prvIsQueueFull q \<longleftrightarrow> uxMessagesWaiting q = uxLength q"

definition uxQueueMessagesWaiting :: "Queue_t \<Rightarrow> u32" where
  "uxQueueMessagesWaiting q = uxMessagesWaiting q"

definition uxQueueMessagesWaitingFromISR :: "Queue_t \<Rightarrow> u32" where
  "uxQueueMessagesWaitingFromISR q = uxMessagesWaiting q"

definition xQueueIsQueueEmptyFromISR :: "Queue_t \<Rightarrow> bool" where
  "xQueueIsQueueEmptyFromISR q \<longleftrightarrow> uxMessagesWaiting q = 0"

definition xQueueIsQueueFullFromISR :: "Queue_t \<Rightarrow> bool" where
  "xQueueIsQueueFullFromISR q \<longleftrightarrow> uxMessagesWaiting q = uxLength q"

definition uxQueueSpacesAvailable :: "Queue_t \<Rightarrow> u32" where
  "uxQueueSpacesAvailable q = uxLength q - uxMessagesWaiting q"

definition xQueueGetMutexHolder :: "Queue_t \<Rightarrow> task" where
  "xQueueGetMutexHolder q = (if is_mutex q then pxMutexHolder q else 0)"

section \<open>Creating a queue\<close>

text \<open>
  For a mutex, whose \<open>pcHead\<close> is NULL, the reset of \<open>pcTail\<close> and \<open>pcReadFrom\<close> clears the holder and the
  count of recursive calls; a queue of another kind has neither.
\<close>

definition xQueueGenericReset :: "kernel_config \<Rightarrow> bool \<Rightarrow> Queue_t \<Rightarrow> kernel \<Rightarrow> (Queue_t \<times> kernel) option" where
  "xQueueGenericReset C xNewQueue q s =
     do { let q1 = q\<lparr>pcTail := int (unat (uxLength q * uxItemSize q)), uxMessagesWaiting := 0,
                     pcWriteTo := 0, pcReadFrom := int (unat ((uxLength q - 1) * uxItemSize q)),
                     pxMutexHolder := 0, uxRecursiveCallCount := 0,
                     xRxLock := queueUNLOCKED, xTxLock := queueUNLOCKED\<rparr>;
          if \<not> xNewQueue
          then do { (w, s1) \<leftarrow> wake_waiter (xTasksWaitingToSend q1) s;
                    Some (q1, queueYIELD_IF_USING_PREEMPTION C w s1) }
          else Some (q1, set_lists (vListInitialise (xTasksWaitingToReceive q1)
                                     (vListInitialise (xTasksWaitingToSend q1) (klists s))) s) }"

text \<open>
  \<open>buffer\<close> is what the heap answers to the request for the control block and the given number of
  bytes behind it: NULL, or the contents of these bytes.  \<open>l1\<close> and \<open>l2\<close> are the event lists inside the
  control block.  Answering NULL fails the assertion on \<open>xReturn\<close>.
\<close>

definition xQueueGenericCreate ::
    "kernel_config \<Rightarrow> (u32 \<Rightarrow> u8 list option) \<Rightarrow> list_id \<Rightarrow> list_id \<Rightarrow> u32 \<Rightarrow> u32 \<Rightarrow> kernel
       \<Rightarrow> (Queue_t \<times> kernel) option" where
  "xQueueGenericCreate C buffer l1 l2 uxQueueLength uxItemSize' s =
     do { configASSERT (0 < uxQueueLength);
          let xQueueSizeInBytes = (if uxItemSize' = 0 then 0 else uxQueueLength * uxItemSize' + 1);
          m \<leftarrow> buffer xQueueSizeInBytes;
          xQueueGenericReset C True
            \<lparr>is_mutex = False, pcTail = 0, pcWriteTo = 0, pcReadFrom = 0, pxMutexHolder = 0,
             uxRecursiveCallCount = 0, xTasksWaitingToSend = l1, xTasksWaitingToReceive = l2,
             uxMessagesWaiting = 0, uxLength = uxQueueLength, uxItemSize = uxItemSize',
             xRxLock = 0, xTxLock = 0, storage = m\<rparr> s }"

definition xQueueCreateCountingSemaphore ::
    "kernel_config \<Rightarrow> (u32 \<Rightarrow> u8 list option) \<Rightarrow> list_id \<Rightarrow> list_id \<Rightarrow> u32 \<Rightarrow> u32 \<Rightarrow> kernel
       \<Rightarrow> (Queue_t \<times> kernel) option" where
  "xQueueCreateCountingSemaphore C buffer l1 l2 uxMaxCount uxInitialCount s =
     do { configASSERT (uxMaxCount \<noteq> 0);
          configASSERT (uxInitialCount \<le> uxMaxCount);
          (q, s1) \<leftarrow> xQueueGenericCreate C buffer l1 l2 uxMaxCount 0 s;
          Some (q\<lparr>uxMessagesWaiting := uxInitialCount\<rparr>, s1) }"

section \<open>Sending\<close>

text \<open>
  One run of the critical section of \<open>xQueueGenericSend\<close>: the function returns with the flag, or has to
  block with a time-out.
\<close>

datatype 'a attempt = Returns 'a | Blocks TimeOut_t

definition send_critical ::
    "kernel_config \<Rightarrow> u8 list \<Rightarrow> u32 \<Rightarrow> TimeOut_t option \<Rightarrow> copy_position \<Rightarrow> Queue_t \<Rightarrow> kernel
       \<Rightarrow> (bool attempt \<times> Queue_t \<times> kernel) option" where
  "send_critical C pvItemToQueue xTicksToWait xTimeOut xCopyPosition q s =
     (if uxMessagesWaiting q < uxLength q \<or> xCopyPosition = queueOVERWRITE
      then do { (xYieldRequired, q1, s1) \<leftarrow> prvCopyDataToQueue C pvItemToQueue xCopyPosition q s;
                (w, s2) \<leftarrow> (if \<not> listLIST_IS_EMPTY (klists s1) (xTasksWaitingToReceive q1)
                           then xTaskRemoveFromEventList (xTasksWaitingToReceive q1) s1
                           else Some (xYieldRequired, s1));
                Some (Returns True, q1, queueYIELD_IF_USING_PREEMPTION C w s2) }
      else if xTicksToWait = 0 then Some (Returns False, q, s)
      else Some (Blocks (case xTimeOut of None \<Rightarrow> vTaskSetTimeOutState s | Some t \<Rightarrow> t), q, s))"

definition xQueueGenericSend ::
    "kernel_config \<Rightarrow> u8 list \<Rightarrow> u32 \<Rightarrow> copy_position \<Rightarrow> Queue_t \<Rightarrow> kernel
       \<Rightarrow> (bool attempt \<times> Queue_t \<times> kernel) option" where
  "xQueueGenericSend C pvItemToQueue xTicksToWait xCopyPosition q s =
     do { configASSERT (xCopyPosition = queueOVERWRITE \<longrightarrow> uxLength q = 1);
          configASSERT (xTaskGetSchedulerState s = taskSCHEDULER_SUSPENDED \<longrightarrow> xTicksToWait = 0);
          send_critical C pvItemToQueue xTicksToWait None xCopyPosition q s }"

text \<open>
  The part of a round with the scheduler suspended, up to the unlocking of the queue: the task is in
  the event list now, or the condition has changed, or the time is up.
\<close>

datatype block_result = Placed | Changed | Expired

definition block_begin ::
    "(Queue_t \<Rightarrow> bool) \<Rightarrow> (Queue_t \<Rightarrow> list_id) \<Rightarrow> (Queue_t \<Rightarrow> kernel \<Rightarrow> kernel option) \<Rightarrow> TimeOut_t \<Rightarrow> u32
       \<Rightarrow> Queue_t \<Rightarrow> kernel \<Rightarrow> (block_result \<times> TimeOut_t \<times> u32 \<times> Queue_t \<times> kernel) option" where
  "block_begin must_wait waiting before xTimeOut xTicksToWait q s =
     do { let s1 = vTaskSuspendAll s;
          let q1 = prvLockQueue q;
          let (expired, xTimeOut', xTicksToWait') = xTaskCheckForTimeOut xTimeOut xTicksToWait s1;
          if expired then Some (Expired, xTimeOut', xTicksToWait', q1, s1)
          else if must_wait q1
          then do { s2 \<leftarrow> before q1 s1;
                    s3 \<leftarrow> vTaskPlaceOnEventList (waiting q1) xTicksToWait' s2;
                    Some (Placed, xTimeOut', xTicksToWait', q1, s3) }
          else Some (Changed, xTimeOut', xTicksToWait', q1, s1) }"

definition send_block_begin :: "TimeOut_t \<Rightarrow> u32 \<Rightarrow> Queue_t \<Rightarrow> kernel
    \<Rightarrow> (block_result \<times> TimeOut_t \<times> u32 \<times> Queue_t \<times> kernel) option" where
  "send_block_begin = block_begin prvIsQueueFull xTasksWaitingToSend (\<lambda>q. Some)"

definition receive_block_begin :: "kernel_config \<Rightarrow> TimeOut_t \<Rightarrow> u32 \<Rightarrow> Queue_t \<Rightarrow> kernel
    \<Rightarrow> (block_result \<times> TimeOut_t \<times> u32 \<times> Queue_t \<times> kernel) option" where
  "receive_block_begin C = block_begin prvIsQueueEmpty xTasksWaitingToReceive
     (\<lambda>q s. if is_mutex q then vTaskPriorityInherit C (pxMutexHolder q) s else Some s)"

definition block_end :: "kernel_config \<Rightarrow> block_result \<Rightarrow> Queue_t \<Rightarrow> kernel \<Rightarrow> (Queue_t \<times> kernel) option" where
  "block_end C r q s =
     do { (q1, s1) \<leftarrow> prvUnlockQueue q s;
          s2 \<leftarrow> (if r = Placed then resume_and_yield C s1 else map_option snd (xTaskResumeAll C s1));
          Some (q1, s2) }"

section \<open>Receiving\<close>

definition receive_critical ::
    "kernel_config \<Rightarrow> u32 \<Rightarrow> TimeOut_t option \<Rightarrow> bool \<Rightarrow> Queue_t \<Rightarrow> kernel
       \<Rightarrow> (u8 list option attempt \<times> Queue_t \<times> kernel) option" where
  "receive_critical C xTicksToWait xTimeOut xJustPeeking q s =
     (if 0 < uxMessagesWaiting q
      then do { let pcOriginalReadPosition = pcReadFrom q;
                (x, q1) \<leftarrow> prvCopyDataFromQueue q;
                if \<not> xJustPeeking
                then do { let q2 = q1\<lparr>uxMessagesWaiting := uxMessagesWaiting q1 - 1\<rparr>;
                          let (t, s1) = pvTaskIncrementMutexHeldCount s;
                          let (q3, s2) = (if is_mutex q2 then (q2\<lparr>pxMutexHolder := t\<rparr>, s1) else (q2, s));
                          (w, s3) \<leftarrow> wake_waiter (xTasksWaitingToSend q3) s2;
                          Some (Returns (Some x), q3, queueYIELD_IF_USING_PREEMPTION C w s3) }
                else do { let q2 = q1\<lparr>pcReadFrom := pcOriginalReadPosition\<rparr>;
                          (w, s1) \<leftarrow> wake_waiter (xTasksWaitingToReceive q2) s;
                          Some (Returns (Some x), q2, queueYIELD_IF_USING_PREEMPTION C w s1) } }
      else if xTicksToWait = 0 then Some (Returns None, q, s)
      else Some (Blocks (case xTimeOut of None \<Rightarrow> vTaskSetTimeOutState s | Some t \<Rightarrow> t), q, s))"

definition xQueueGenericReceive ::
    "kernel_config \<Rightarrow> u32 \<Rightarrow> bool \<Rightarrow> Queue_t \<Rightarrow> kernel
       \<Rightarrow> (u8 list option attempt \<times> Queue_t \<times> kernel) option" where
  "xQueueGenericReceive C xTicksToWait xJustPeeking q s =
     do { configASSERT (xTaskGetSchedulerState s = taskSCHEDULER_SUSPENDED \<longrightarrow> xTicksToWait = 0);
          receive_critical C xTicksToWait None xJustPeeking q s }"

section \<open>Interrupts\<close>

text \<open>The second flag is what is written to \<open>*pxHigherPriorityTaskWoken\<close>.\<close>

definition wake_or_count :: "Queue_t \<Rightarrow> kernel \<Rightarrow> (bool \<times> Queue_t \<times> kernel) option" where
  "wake_or_count q s =
     (if xTxLock q = queueUNLOCKED
      then do { (w, s1) \<leftarrow> wake_waiter (xTasksWaitingToReceive q) s; Some (w, q, s1) }
      else do { l \<leftarrow> lock_inc (xTxLock q); Some (False, q\<lparr>xTxLock := l\<rparr>, s) })"

definition xQueueGenericSendFromISR ::
    "kernel_config \<Rightarrow> u8 list \<Rightarrow> copy_position \<Rightarrow> Queue_t \<Rightarrow> kernel \<Rightarrow> (bool \<times> bool \<times> Queue_t \<times> kernel) option" where
  "xQueueGenericSendFromISR C pvItemToQueue xCopyPosition q s =
     do { configASSERT (xCopyPosition = queueOVERWRITE \<longrightarrow> uxLength q = 1);
          if uxMessagesWaiting q < uxLength q \<or> xCopyPosition = queueOVERWRITE
          then do { (_, q1, s1) \<leftarrow> prvCopyDataToQueue C pvItemToQueue xCopyPosition q s;
                    (w, q2, s2) \<leftarrow> wake_or_count q1 s1;
                    Some (True, w, q2, s2) }
          else Some (False, False, q, s) }"

definition xQueueGiveFromISR :: "Queue_t \<Rightarrow> kernel \<Rightarrow> (bool \<times> bool \<times> Queue_t \<times> kernel) option" where
  "xQueueGiveFromISR q s =
     do { configASSERT (uxItemSize q = 0);
          if uxMessagesWaiting q < uxLength q
          then do { (w, q2, s2) \<leftarrow> wake_or_count (q\<lparr>uxMessagesWaiting := uxMessagesWaiting q + 1\<rparr>) s;
                    Some (True, w, q2, s2) }
          else Some (False, False, q, s) }"

definition xQueueReceiveFromISR :: "Queue_t \<Rightarrow> kernel \<Rightarrow> (u8 list option \<times> bool \<times> Queue_t \<times> kernel) option" where
  "xQueueReceiveFromISR q s =
     (if 0 < uxMessagesWaiting q
      then do { (x, q1) \<leftarrow> prvCopyDataFromQueue q;
                let q2 = q1\<lparr>uxMessagesWaiting := uxMessagesWaiting q1 - 1\<rparr>;
                if xRxLock q2 = queueUNLOCKED
                then do { (w, s1) \<leftarrow> wake_waiter (xTasksWaitingToSend q2) s; Some (Some x, w, q2, s1) }
                else do { l \<leftarrow> lock_inc (xRxLock q2); Some (Some x, False, q2\<lparr>xRxLock := l\<rparr>, s) } }
      else Some (None, False, q, s))"

definition xQueuePeekFromISR :: "Queue_t \<Rightarrow> (u8 list option \<times> Queue_t) option" where
  "xQueuePeekFromISR q =
     do { configASSERT (uxItemSize q \<noteq> 0);
          if 0 < uxMessagesWaiting q
          then do { let pcOriginalReadPosition = pcReadFrom q;
                    (x, q1) \<leftarrow> prvCopyDataFromQueue q;
                    Some (Some x, q1\<lparr>pcReadFrom := pcOriginalReadPosition\<rparr>) }
          else Some (None, q) }"

section \<open>Mutexes\<close>

definition xQueueCreateMutex ::
    "kernel_config \<Rightarrow> bool \<Rightarrow> list_id \<Rightarrow> list_id \<Rightarrow> kernel \<Rightarrow> (Queue_t \<times> kernel) option" where
  "xQueueCreateMutex C room l1 l2 s =
     do { configASSERT room;
          let q = \<lparr>is_mutex = True, pcTail = 0, pcWriteTo = 0, pcReadFrom = 0, pxMutexHolder = 0,
                   uxRecursiveCallCount = 0, xTasksWaitingToSend = l1, xTasksWaitingToReceive = l2,
                   uxMessagesWaiting = 0, uxLength = 1, uxItemSize = 0,
                   xRxLock = queueUNLOCKED, xTxLock = queueUNLOCKED, storage = []\<rparr>;
          let s1 = set_lists (vListInitialise l2 (vListInitialise l1 (klists s))) s;
          (_, q2, s2) \<leftarrow> xQueueGenericSend C [] 0 queueSEND_TO_BACK q s1;
          Some (q2, s2) }"

definition xQueueGiveMutexRecursive :: "kernel_config \<Rightarrow> Queue_t \<Rightarrow> kernel \<Rightarrow> (bool \<times> Queue_t \<times> kernel) option" where
  "xQueueGiveMutexRecursive C q s =
     (if pxMutexHolder q = xTaskGetCurrentTaskHandle s
      then do { let q1 = q\<lparr>uxRecursiveCallCount := uxRecursiveCallCount q - 1\<rparr>;
                if uxRecursiveCallCount q1 = 0
                then do { (_, q2, s2) \<leftarrow> xQueueGenericSend C [] 0 queueSEND_TO_BACK q1 s; Some (True, q2, s2) }
                else Some (True, q1, s) }
      else Some (False, q, s))"

text \<open>\<open>xQueueTakeMutexRecursive\<close>, up to the point where it may have to block.\<close>

definition xQueueTakeMutexRecursive ::
    "kernel_config \<Rightarrow> u32 \<Rightarrow> Queue_t \<Rightarrow> kernel \<Rightarrow> (bool attempt \<times> Queue_t \<times> kernel) option" where
  "xQueueTakeMutexRecursive C xTicksToWait q s =
     (if pxMutexHolder q = xTaskGetCurrentTaskHandle s
      then Some (Returns True, q\<lparr>uxRecursiveCallCount := uxRecursiveCallCount q + 1\<rparr>, s)
      else do { (r, q1, s1) \<leftarrow> xQueueGenericReceive C xTicksToWait False q s;
                Some (case r of
                        Returns (Some _) \<Rightarrow>
                          (Returns True, q1\<lparr>uxRecursiveCallCount := uxRecursiveCallCount q1 + 1\<rparr>, s1)
                      | Returns None \<Rightarrow> (Returns False, q1, s1)
                      | Blocks t \<Rightarrow> (Blocks t, q1, s1)) })"

end
