(* ===== verification/Queue_Inv.thy ===== *)
theory Queue_Inv
  imports Queue Sched_Run
begin

text \<open>
  Queues of messages and counting semaphores as bounded lists: the invariant of the control block, its
  contents, and what copying in and out does to them; then what the operations do to the
  kernel.
\<close>

section \<open>The contents of a queue\<close>

definition isz :: "Queue_t \<Rightarrow> nat" where "isz q = unat (uxItemSize q)"
definition cap :: "Queue_t \<Rightarrow> nat" where "cap q = unat (uxLength q)"
definition cnt :: "Queue_t \<Rightarrow> nat" where "cnt q = unat (uxMessagesWaiting q)"

definition slot :: "nat \<Rightarrow> u8 list \<Rightarrow> nat \<Rightarrow> u8 list" where
  "slot n m k = take n (drop (k * n) m)"

definition read_slot :: "Queue_t \<Rightarrow> nat" where
  "read_slot q = nat (pcReadFrom q) div isz q"

text \<open>The message at place \<open>i\<close> is in the slot \<open>i + 1\<close> after the one that was read last.\<close>

definition contents :: "Queue_t \<Rightarrow> u8 list list" where
  "contents q = (if isz q = 0 then replicate (cnt q) []
     else map (\<lambda>i. slot (isz q) (storage q) ((read_slot q + 1 + i) mod cap q)) [0..<cnt q])"

definition queue_ok :: "Queue_t \<Rightarrow> bool" where
  "queue_ok q \<longleftrightarrow> \<not> is_mutex q \<and> 0 < cap q \<and> cnt q \<le> cap q \<and> cap q * isz q + 1 < 2 ^ 32 \<and>
     (isz q \<noteq> 0 \<longrightarrow> pcTail q = int (cap q * isz q) \<and> cap q * isz q \<le> length (storage q) \<and>
        read_slot q < cap q \<and> pcReadFrom q = int (read_slot q * isz q) \<and>
        pcWriteTo q = int ((read_slot q + 1 + cnt q) mod cap q * isz q))"

text \<open>What no message changes.\<close>

definition same_queue :: "Queue_t \<Rightarrow> Queue_t \<Rightarrow> bool" where
  "same_queue q q' \<longleftrightarrow> is_mutex q' = is_mutex q \<and> uxLength q' = uxLength q \<and> uxItemSize q' = uxItemSize q \<and>
     xTasksWaitingToSend q' = xTasksWaitingToSend q \<and> xTasksWaitingToReceive q' = xTasksWaitingToReceive q \<and>
     xRxLock q' = xRxLock q \<and> xTxLock q' = xTxLock q"

lemma length_contents [simp]: "length (contents q) = cnt q"
  by (simp add: contents_def)

lemma contents_nil: "contents q = [] \<longleftrightarrow> uxMessagesWaiting q = 0"
proof -
  have "contents q = [] \<longleftrightarrow> cnt q = 0" by (metis length_0_conv length_contents)
  then show ?thesis by (simp add: cnt_def unat_eq_0)
qed

section \<open>Slots\<close>

lemma slot_end: "k < c \<Longrightarrow> k * n + n \<le> c * (n :: nat)"
  by (metis Suc_leI add.commute mult_Suc mult_le_mono1)

lemma put_slot:
  assumes "k < c" "c * n \<le> length m" "length bs = n"
  shows "storage_put (int (k * n)) bs m = Some (take (k * n) m @ bs @ drop (k * n + n) m)" (is "_ = Some ?m")
    and "length (take (k * n) m @ bs @ drop (k * n + n) m) = length m"
    and "\<And>j. j < c \<Longrightarrow> slot n (take (k * n) m @ bs @ drop (k * n + n) m) j = (if j = k then bs else slot n m j)"
proof -
  have e: "k * n + n \<le> length m" using slot_end [OF assms(1), of n] assms(2) by linarith
  show "storage_put (int (k * n)) bs m = Some ?m" using e assms(3) by (simp add: storage_put_def del: of_nat_mult)
  show "length ?m = length m" using e assms(3) by simp
  show "slot n ?m j = (if j = k then bs else slot n m j)" if "j < c" for j
  proof -
    consider "j = k" | "j < k" | "k < j" by linarith
    then show ?thesis
    proof cases
      case 1
      then show ?thesis using e assms(3) by (simp add: slot_def)
    next
      case 2
      then have b: "j * n + n \<le> k * n" using slot_end [of j k n] by simp
      have "take n (drop (j * n) ?m) = take n (drop (j * n) (take (k * n) m))" using b e by (simp add: take_drop)
      also have "\<dots> = take n (drop (j * n) m)" using b by (simp add: take_drop min_def)
      finally show ?thesis using 2 by (simp add: slot_def)
    next
      case 3
      then have b: "k * n + n \<le> j * n" using slot_end [of k j n] by simp
      have "drop (j * n) ?m = drop (j * n - (k * n + n)) (drop (k * n + n) m)"
        using b e assms(3) 3 by (simp add: min_absorb2 diff_diff_add)
      also have "\<dots> = drop (j * n) m" using b by simp
      finally have "drop (j * n) ?m = drop (j * n) m" .
      then show ?thesis using 3 by (simp add: slot_def)
    qed
  qed
qed

lemma get_slot:
  assumes "k < c" "c * n \<le> length m"
  shows "storage_get (int (k * n)) n m = Some (slot n m k)"
  using slot_end [OF assms(1), of n] assms(2) by (simp add: storage_get_def slot_def del: of_nat_mult)

lemma mod_neq:
  fixes a c :: nat
  assumes "i < j" "j < c"
  shows "(a + i) mod c \<noteq> (a + j) mod c"
proof
  assume "(a + i) mod c = (a + j) mod c"
  then have "(a + j - (a + i)) mod c = 0" using assms by (metis add_le_cancel_left less_imp_le mod_eq_dvd_iff_nat dvd_imp_mod_0)
  then have "(j - i) mod c = 0" by simp
  then show False using assms by simp
qed

text \<open>The pointers after one step around the ring.\<close>

lemma step_up:
  assumes "k < c" "0 < n"
  shows "(if int (c * n) \<le> int (k * n) + int n then 0 else int (k * n) + int n) = int (Suc k mod c * n)"
proof (cases "Suc k = c")
  case True
  then have "c * n = k * n + n" by auto
  then show ?thesis using True by simp
next
  case False
  then have k: "Suc k < c" using assms(1) by simp
  then have "\<not> c * n \<le> k * n + n" using slot_end [OF k, of n] assms(2) by simp
  then show ?thesis using k by (simp add: add.commute flip: of_nat_add of_nat_mult)
qed

lemma step_down:
  assumes "k < c" "0 < n"
  shows "(if int (k * n) - int n < 0 then int (c * n) - int n else int (k * n) - int n) = int ((k + (c - 1)) mod c * n)"
proof (cases k)
  case 0
  then have "(k + (c - 1)) mod c = c - 1" using assms(1) by simp
  moreover have "int (c * n) - int n = int ((c - 1) * n)" using assms(1) by (cases c) simp_all
  ultimately show ?thesis using 0 assms(2) by simp
next
  case (Suc k')
  then have "(k + (c - 1)) mod c = k'" using assms(1) by (simp add: mod_add_self2 add.commute)
  moreover have "\<not> int (k * n) - int n < 0" "int (k * n) - int n = int (k' * n)" by (simp_all add: Suc not_less)
  ultimately show ?thesis by simp
qed

section \<open>Copying keeps the order\<close>

lemma ring_back:
  fixes r c :: nat
  assumes "r < c"
  shows "((r + (c - 1)) mod c + Suc i) mod c = (r + i) mod c"
proof -
  have "((r + (c - 1)) mod c + Suc i) mod c = (r + (c - 1) + Suc i) mod c" by (rule mod_add_left_eq)
  also have "r + (c - 1) + Suc i = r + i + c" using assms by simp
  finally show ?thesis by simp
qed

lemma cnt_up: "cnt q < cap q \<Longrightarrow> unat (uxMessagesWaiting q + 1) = Suc (cnt q)"
  using unat_u32 [of "uxLength q"] by (subst unat_add_small) (simp_all add: cnt_def cap_def)

lemma cnt_down: "cnt q \<noteq> 0 \<Longrightarrow> unat (uxMessagesWaiting q - 1) = cnt q - 1"
  by (simp add: cnt_def unat_eq_0 unat_minus_one)

text \<open>What the invariant says of a queue whose messages have a size, with the slot read last.\<close>

lemma queue_okE:
  assumes "queue_ok q" "isz q \<noteq> 0"
  obtains r where "r < cap q" "pcReadFrom q = int (r * isz q)" "read_slot q = r"
    "pcWriteTo q = int ((r + 1 + cnt q) mod cap q * isz q)" "pcTail q = int (cap q * isz q)"
    "cap q * isz q \<le> length (storage q)" "cap q * isz q + 1 < 2 ^ 32"
  using assms by (intro that [of "read_slot q"]) (simp_all add: queue_ok_def)

lemma queue_okI:
  assumes "\<not> is_mutex q" "0 < cap q" "cnt q \<le> cap q" "isz q \<noteq> 0" "r < cap q" "pcReadFrom q = int (r * isz q)"
    "pcWriteTo q = int ((r + 1 + cnt q) mod cap q * isz q)" "pcTail q = int (cap q * isz q)"
    "cap q * isz q \<le> length (storage q)" "cap q * isz q + 1 < 2 ^ 32"
  shows "queue_ok q" "contents q = map (\<lambda>i. slot (isz q) (storage q) ((r + 1 + i) mod cap q)) [0..<cnt q]"
proof -
  have "read_slot q = r" using assms(4,6) by (simp add: read_slot_def nat_mult_distrib)
  then show "queue_ok q" "contents q = map (\<lambda>i. slot (isz q) (storage q) ((r + 1 + i) mod cap q)) [0..<cnt q]"
    using assms by (simp_all add: queue_ok_def contents_def)
qed

lemma copy_to_back:
  assumes ok: "queue_ok q" and room: "cnt q < cap q" and x: "isz q \<le> length x"
  obtains q' where "prvCopyDataToQueue C x queueSEND_TO_BACK q s = Some (False, q', s)"
    "queue_ok q'" "contents q' = contents q @ [take (isz q) x]" "same_queue q q'"
proof (cases "isz q = 0")
  case True
  define q' where "q' = q\<lparr>uxMessagesWaiting := uxMessagesWaiting q + 1\<rparr>"
  have c: "cnt q' = Suc (cnt q)" "isz q' = 0" "cap q' = cap q"
    using cnt_up [OF room] True by (simp_all add: q'_def cnt_def isz_def cap_def)
  have "queue_ok q'" using ok room by (simp add: queue_ok_def c) (simp add: q'_def)
  moreover have "contents q' = contents q @ [[]]" using True by (simp add: contents_def c replicate_append_same)
  moreover have "uxItemSize q = 0" "\<not> is_mutex q" using True ok by (simp_all add: isz_def unat_eq_0 queue_ok_def)
  ultimately show thesis
    using True by (intro that [of q']) (simp_all add: prvCopyDataToQueue_def q'_def same_queue_def)
next
  case False
  from ok False obtain r where r: "r < cap q" "pcReadFrom q = int (r * isz q)" "read_slot q = r"
    "pcWriteTo q = int ((r + 1 + cnt q) mod cap q * isz q)" "pcTail q = int (cap q * isz q)"
    "cap q * isz q \<le> length (storage q)" "cap q * isz q + 1 < 2 ^ 32"
    by (rule queue_okE)
  define w where "w = (r + 1 + cnt q) mod cap q"
  define bs where "bs = take (isz q) x"
  have w: "w < cap q" and bs: "length bs = isz q" using room x by (simp_all add: w_def bs_def)
  define m where "m = take (w * isz q) (storage q) @ bs @ drop (w * isz q + isz q) (storage q)"
  note put = put_slot [OF w r(6) bs, folded m_def]
  have up: "(if pcTail q \<le> pcWriteTo q + int (isz q) then 0 else pcWriteTo q + int (isz q)) = int (Suc w mod cap q * isz q)"
    using step_up [OF w, of "isz q"] False unfolding r(4,5) w_def [symmetric] by blast
  define q' where "q' = q\<lparr>storage := m, pcWriteTo := int (Suc w mod cap q * isz q),
    uxMessagesWaiting := uxMessagesWaiting q + 1\<rparr>"
  have c: "cnt q' = Suc (cnt q)" "isz q' = isz q" "cap q' = cap q" "storage q' = m" "pcReadFrom q' = int (r * isz q)"
    using cnt_up [OF room] r(2) by (simp_all add: q'_def cnt_def isz_def cap_def)
  have "Suc w mod cap q = (r + 1 + Suc (cnt q)) mod cap q" by (simp add: w_def mod_Suc_eq)
  then have wr: "pcWriteTo q' = int ((r + 1 + cnt q') mod cap q' * isz q')"
    unfolding c(1-3) by (simp add: q'_def)
  have ok': "\<not> is_mutex q'" "0 < cap q'" "cnt q' \<le> cap q'" "isz q' \<noteq> 0" "r < cap q'" "pcReadFrom q' = int (r * isz q')"
    "pcTail q' = int (cap q' * isz q')" "cap q' * isz q' \<le> length (storage q')" "cap q' * isz q' + 1 < 2 ^ 32"
    using ok room False r c put(2) by (simp_all add: queue_ok_def q'_def)
  note I = queue_okI [OF ok'(1-6) wr ok'(7-9)]
  have "contents q' = contents q @ [bs]"
  proof -
    have "slot (isz q) m ((r + 1 + i) mod cap q) = slot (isz q) (storage q) ((r + 1 + i) mod cap q)" if "i < cnt q" for i
      using mod_neq [OF that room, of "r + 1"] put(3) [of "(r + 1 + i) mod cap q"] w by (simp add: w_def)
    moreover have "slot (isz q) m w = bs" using put(3) [OF w] by simp
    ultimately show ?thesis
      using False r(3) unfolding I(2) unfolding c contents_def by (simp add: w_def)
  qed
  moreover have "prvCopyDataToQueue C x queueSEND_TO_BACK q s = Some (False, q', s)"
  proof -
    have z: "uxItemSize q \<noteq> 0" "item_bytes (uxItemSize q) x = Some bs"
      using False x by (auto simp: isz_def item_bytes_def bs_def)
    have "storage_put (pcWriteTo q) bs (storage q) = Some m" using put(1) by (simp add: r(4) w_def)
    then show ?thesis
      using z up by (simp add: prvCopyDataToQueue_def Let_def isz_def [symmetric] q'_def)
  qed
  ultimately show thesis
    using I(1) by (intro that [of q']) (simp_all add: bs_def same_queue_def, simp_all add: q'_def)
qed

lemma copy_to_front:
  assumes ok: "queue_ok q" and room: "cnt q < cap q" and x: "isz q \<le> length x"
  obtains q' where "prvCopyDataToQueue C x queueSEND_TO_FRONT q s = Some (False, q', s)"
    "queue_ok q'" "contents q' = take (isz q) x # contents q" "same_queue q q'"
proof (cases "isz q = 0")
  case True
  define q' where "q' = q\<lparr>uxMessagesWaiting := uxMessagesWaiting q + 1\<rparr>"
  have c: "cnt q' = Suc (cnt q)" "isz q' = 0" "cap q' = cap q"
    using cnt_up [OF room] True by (simp_all add: q'_def cnt_def isz_def cap_def)
  have "queue_ok q'" using ok room by (simp add: queue_ok_def c) (simp add: q'_def)
  moreover have "contents q' = [] # contents q" using True by (simp add: contents_def c)
  moreover have "uxItemSize q = 0" "\<not> is_mutex q" using True ok by (simp_all add: isz_def unat_eq_0 queue_ok_def)
  ultimately show thesis
    using True by (intro that [of q']) (simp_all add: prvCopyDataToQueue_def q'_def same_queue_def)
next
  case False
  from ok False obtain r where r: "r < cap q" "pcReadFrom q = int (r * isz q)" "read_slot q = r"
    "pcWriteTo q = int ((r + 1 + cnt q) mod cap q * isz q)" "pcTail q = int (cap q * isz q)"
    "cap q * isz q \<le> length (storage q)" "cap q * isz q + 1 < 2 ^ 32"
    by (rule queue_okE)
  define r' where "r' = (r + (cap q - 1)) mod cap q"
  define bs where "bs = take (isz q) x"
  have r': "r' < cap q" and bs: "length bs = isz q" using room x by (simp_all add: r'_def bs_def)
  define m where "m = take (r * isz q) (storage q) @ bs @ drop (r * isz q + isz q) (storage q)"
  note put = put_slot [OF r(1,6) bs, folded m_def]
  have rb: "(r' + 1 + i) mod cap q = (r + i) mod cap q" for i
    using ring_back [OF r(1), of i] by (simp add: r'_def)
  have down: "(if pcReadFrom q - int (isz q) < 0 then pcTail q - int (isz q) else pcReadFrom q - int (isz q)) = int (r' * isz q)"
    using step_down [OF r(1), of "isz q"] False unfolding r(2,5) r'_def by blast
  define q' where "q' = q\<lparr>storage := m, pcReadFrom := int (r' * isz q), uxMessagesWaiting := uxMessagesWaiting q + 1\<rparr>"
  have c: "cnt q' = Suc (cnt q)" "isz q' = isz q" "cap q' = cap q" "storage q' = m" "pcReadFrom q' = int (r' * isz q)"
    using cnt_up [OF room] by (simp_all add: q'_def cnt_def isz_def cap_def)
  have wr: "pcWriteTo q' = int ((r' + 1 + cnt q') mod cap q' * isz q')"
    unfolding c(1-3) rb by (simp add: q'_def r(4))
  have ok': "\<not> is_mutex q'" "0 < cap q'" "cnt q' \<le> cap q'" "isz q' \<noteq> 0" "r' < cap q'" "pcReadFrom q' = int (r' * isz q')"
    "pcTail q' = int (cap q' * isz q')" "cap q' * isz q' \<le> length (storage q')" "cap q' * isz q' + 1 < 2 ^ 32"
    using ok room False r r' c put(2) by (simp_all add: queue_ok_def q'_def)
  note I = queue_okI [OF ok'(1-6) wr ok'(7-9)]
  have "contents q' = bs # contents q"
  proof -
    have "slot (isz q) m ((r + Suc i) mod cap q) = slot (isz q) (storage q) ((r + Suc i) mod cap q)" if "i < cnt q" for i
      using mod_neq [of 0 "Suc i" "cap q" r] put(3) [of "(r + Suc i) mod cap q"] r(1) that room by simp
    moreover have "slot (isz q) m r = bs" using put(3) [OF r(1)] by simp
    ultimately show ?thesis
      using False r(1,3) unfolding I(2) unfolding c rb contents_def upt_conv_Cons [OF zero_less_Suc] map_Suc_upt [symmetric]
      by simp
  qed
  moreover have "prvCopyDataToQueue C x queueSEND_TO_FRONT q s = Some (False, q', s)"
  proof -
    have z: "uxItemSize q \<noteq> 0" "item_bytes (uxItemSize q) x = Some bs"
      using False x by (auto simp: isz_def item_bytes_def bs_def)
    have "storage_put (pcReadFrom q) bs (storage q) = Some m" using put(1) by (simp add: r(2))
    then show ?thesis
      using z down by (simp add: prvCopyDataToQueue_def Let_def isz_def [symmetric] q'_def)
  qed
  ultimately show thesis
    using I(1) by (intro that [of q']) (simp_all add: bs_def same_queue_def, simp_all add: q'_def)
qed

text \<open>The overwriting send, for a queue that holds one message.\<close>

lemma copy_overwrite:
  assumes ok: "queue_ok q" and one: "cap q = 1" and n: "isz q \<noteq> 0" and x: "isz q \<le> length x"
  obtains q' where "prvCopyDataToQueue C x queueOVERWRITE q s = Some (False, q', s)"
    "queue_ok q'" "contents q' = [take (isz q) x]" "same_queue q q'"
proof -
  from ok n obtain r where r: "r < cap q" "pcReadFrom q = int (r * isz q)" "read_slot q = r"
    "pcWriteTo q = int ((r + 1 + cnt q) mod cap q * isz q)" "pcTail q = int (cap q * isz q)"
    "cap q * isz q \<le> length (storage q)" "cap q * isz q + 1 < 2 ^ 32"
    by (rule queue_okE)
  have r0: "r = 0" using r(1) one by simp
  define bs where "bs = take (isz q) x"
  have bs: "length bs = isz q" using x by (simp add: bs_def)
  define m where "m = take (0 * isz q) (storage q) @ bs @ drop (0 * isz q + isz q) (storage q)"
  have z0: "0 < cap q" using one by simp
  note put = put_slot [OF z0 r(6) bs, folded m_def]
  define q' where "q' = q\<lparr>storage := m, uxMessagesWaiting := 1\<rparr>"
  have c: "cnt q' = 1" "isz q' = isz q" "cap q' = 1" "storage q' = m"
    using one by (simp_all add: q'_def cnt_def isz_def cap_def)
  have ok': "\<not> is_mutex q'" "0 < cap q'" "cnt q' \<le> cap q'" "isz q' \<noteq> 0" "0 < cap q'" "pcReadFrom q' = int (0 * isz q')"
    "pcWriteTo q' = int ((0 + 1 + cnt q') mod cap q' * isz q')" "pcTail q' = int (cap q' * isz q')"
    "cap q' * isz q' \<le> length (storage q')" "cap q' * isz q' + 1 < 2 ^ 32"
    using ok one n r r0 c put(2) by (simp_all add: queue_ok_def q'_def)
  note I = queue_okI [OF ok']
  have "contents q' = [bs]" using put(3) [OF z0] unfolding I(2) unfolding c by simp
  moreover have "prvCopyDataToQueue C x queueOVERWRITE q s = Some (False, q', s)"
  proof -
    have z: "uxItemSize q \<noteq> 0" "item_bytes (uxItemSize q) x = Some bs"
      using n x by (auto simp: isz_def item_bytes_def bs_def)
    have p: "storage_put (pcReadFrom q) bs (storage q) = Some m" "pcReadFrom q = 0" "pcTail q = int (isz q)"
      using put(1) r0 one by (simp_all add: r(2,5))
    have "cnt q \<le> 1" using ok one by (simp add: queue_ok_def)
    then have "uxMessagesWaiting q = 0 \<or> uxMessagesWaiting q = 1" by (auto simp: cnt_def le_Suc_eq unat_eq_0 word_unat_eq_iff [of _ 1])
    then show ?thesis
      using z p n by (auto simp: prvCopyDataToQueue_def Let_def isz_def [symmetric] q'_def)
  qed
  ultimately show thesis
    using I(1) by (intro that [of q']) (simp_all add: bs_def same_queue_def, simp_all add: q'_def)
qed

text \<open>
  Reading: the message is the first one; with the count taken down it is gone, with the read
  pointer put back nothing has changed.
\<close>

lemma copy_from:
  assumes ok: "queue_ok q" and some: "uxMessagesWaiting q \<noteq> 0"
  obtains q1 where "prvCopyDataFromQueue q = Some (hd (contents q), q1)"
    "queue_ok (q1\<lparr>uxMessagesWaiting := uxMessagesWaiting q1 - 1\<rparr>)"
    "contents (q1\<lparr>uxMessagesWaiting := uxMessagesWaiting q1 - 1\<rparr>) = tl (contents q)"
    "same_queue q q1" "q1\<lparr>pcReadFrom := pcReadFrom q\<rparr> = q"
proof (cases "isz q = 0")
  case True
  have n: "cnt q \<noteq> 0" using some by (simp add: cnt_def unat_eq_0)
  define q' where "q' = q\<lparr>uxMessagesWaiting := uxMessagesWaiting q - 1\<rparr>"
  have c: "cnt q' = cnt q - 1" "isz q' = 0" "cap q' = cap q"
    using cnt_down [OF n] True by (simp_all add: q'_def cnt_def isz_def cap_def)
  have "cnt q - 1 \<le> cap q" "\<not> is_mutex q" "0 < cap q" using ok by (auto simp: queue_ok_def)
  then have "queue_ok q'" by (simp add: queue_ok_def c) (simp add: q'_def)
  moreover have "contents q' = tl (contents q)" "hd (contents q) = []"
    using True n by (simp_all add: contents_def c)
  moreover have "uxItemSize q = 0" using True by (simp add: isz_def unat_eq_0)
  ultimately show thesis
    by (intro that [of q]) (simp_all add: prvCopyDataFromQueue_def q'_def same_queue_def)
next
  case False
  from ok False obtain r where r: "r < cap q" "pcReadFrom q = int (r * isz q)" "read_slot q = r"
    "pcWriteTo q = int ((r + 1 + cnt q) mod cap q * isz q)" "pcTail q = int (cap q * isz q)"
    "cap q * isz q \<le> length (storage q)" "cap q * isz q + 1 < 2 ^ 32"
    by (rule queue_okE)
  have n: "cnt q \<noteq> 0" using some by (simp add: cnt_def unat_eq_0)
  define r' where "r' = Suc r mod cap q"
  have r': "r' < cap q" using r(1) by (simp add: r'_def)
  have up: "(if pcTail q \<le> pcReadFrom q + int (isz q) then 0 else pcReadFrom q + int (isz q)) = int (r' * isz q)"
    using step_up [OF r(1), of "isz q"] False unfolding r(2,5) r'_def by blast
  define q1 where "q1 = q\<lparr>pcReadFrom := int (r' * isz q)\<rparr>"
  define q' where "q' = q1\<lparr>uxMessagesWaiting := uxMessagesWaiting q1 - 1\<rparr>"
  have c: "cnt q' = cnt q - 1" "isz q' = isz q" "cap q' = cap q" "storage q' = storage q" "pcReadFrom q' = int (r' * isz q)"
    using cnt_down [OF n] by (simp_all add: q'_def q1_def cnt_def isz_def cap_def)
  have ring: "(r' + 1 + i) mod cap q = (r + 1 + Suc i) mod cap q" for i
    using mod_add_left_eq [of "Suc r" "cap q" "Suc i"] by (simp add: r'_def)
  have wr: "pcWriteTo q' = int ((r' + 1 + cnt q') mod cap q' * isz q')"
    using n unfolding c(1-3) ring by (simp add: q'_def q1_def r(4))
  have ok': "\<not> is_mutex q'" "0 < cap q'" "cnt q' \<le> cap q'" "isz q' \<noteq> 0" "r' < cap q'" "pcReadFrom q' = int (r' * isz q')"
    "pcTail q' = int (cap q' * isz q')" "cap q' * isz q' \<le> length (storage q')" "cap q' * isz q' + 1 < 2 ^ 32"
    using ok False r r' c by (auto simp: queue_ok_def q'_def q1_def)
  note I = queue_okI [OF ok'(1-6) wr ok'(7-9)]
  obtain k where k: "cnt q = Suc k" using n by (cases "cnt q") auto
  have h: "contents q = slot (isz q) (storage q) r' # contents q'"
    using False r(3) unfolding I(2) unfolding c ring contents_def k upt_conv_Cons [OF zero_less_Suc] map_Suc_upt [symmetric]
    by (simp add: r'_def)
  have "prvCopyDataFromQueue q = Some (hd (contents q), q1)"
    using False up get_slot [OF r' r(6)] h
    by (auto simp: prvCopyDataFromQueue_def Let_def isz_def [symmetric] q1_def) (simp_all add: isz_def)
  then show thesis
    using I(1) h by (intro that [of q1]) (simp_all add: q'_def same_queue_def, simp_all add: q1_def)
qed

end
