(* ===== verification/Queue_Run.thy ===== *)
theory Queue_Run
  imports Queue_Inv
begin

text \<open>
  A queue at work: its operations change the kernel as the scheduler's own calls do, and the
  operations, the interrupts and the scheduler are the steps of one machine.
\<close>

section \<open>Waking the tasks that wait\<close>

lemma event_list_empty:
  assumes "kweak C idle E T s" "e \<in> E"
  shows "listLIST_IS_EMPTY (klists s) e \<longleftrightarrow> items_of (klists s) e = []"
  using listLIST_IS_EMPTY_items [OF kbaseD(1) [OF kweakD(2) [OF assms(1)]]] assms(2) by simp

lemma wake_waiter_kinv:
  assumes inv: "kinv C idle E T s" and e: "e \<in> E"
  obtains w s' where "wake_waiter e s = Some (w, s')" "kinv C idle E T s'" "pend_sv s' = pend_sv s"
    "uxSchedulerSuspended s' = uxSchedulerSuspended s"
proof (cases "items_of (klists s) e")
  case Nil
  then show thesis
    using inv event_list_empty [OF kinvD(1) [OF inv] e] by (intro that [of False s]) (simp_all add: wake_waiter_def)
next
  case (Cons i "is")
  show thesis
  proof (rule remove_event_kinv [OF inv e Cons], goal_cases)
    case (1 w s')
    then show thesis
      using event_list_empty [OF kinvD(1) [OF inv] e] Cons same_tasks_sel [OF 1(3)]
      by (intro that [of w s']) (simp_all add: wake_waiter_def)
  qed
qed

lemma wake_waiter_kweak:
  assumes kw: "kweak C idle E T s" and e: "e \<in> E"
  obtains w s' where "wake_waiter e s = Some (w, s')" "kweak C idle E T s'"
    "uxSchedulerSuspended s' = uxSchedulerSuspended s"
proof (cases "items_of (klists s) e")
  case Nil
  then show thesis
    using kw event_list_empty [OF kw e] by (intro that [of False s]) (simp_all add: wake_waiter_def)
next
  case (Cons i "is")
  show thesis
  proof (rule remove_event_kweak [OF kw e Cons], goal_cases)
    case (1 w s')
    then show thesis
      using event_list_empty [OF kw e] Cons same_tasks_sel [OF 1(4)]
      by (intro that [of w s']) (simp_all add: wake_waiter_def)
  qed
qed

text \<open>Unlocking wakes one task for each message that came, or went, while the queue was locked.\<close>

lemma unlock_wake_spec:
  assumes "kweak C idle E T s" "e \<in> E" "uxSchedulerSuspended s \<noteq> 0"
  shows "\<exists>s'. unlock_wake k e s = Some s' \<and> kweak C idle E T s' \<and> (kinv C idle E T s \<longrightarrow> kinv C idle E T s') \<and>
    uxSchedulerSuspended s' = uxSchedulerSuspended s \<and>
    (\<forall>l\<in>E. items_of (klists s') l = (if l = e then drop k (items_of (klists s) l) else items_of (klists s) l)) \<and>
    (\<forall>i\<in>set (take k (items_of (klists s) e)). container_of (klists s') i = Some xPendingReadyList) \<and>
    (\<forall>u. evt_at s u = Some xPendingReadyList \<longrightarrow> evt_at s' u = Some xPendingReadyList)"
  using assms
proof (induction k arbitrary: s)
  case 0
  then show ?case by simp
next
  case (Suc k)
  note kw = Suc.prems(1) and em = event_list_empty [OF Suc.prems(1,2)]
  show ?case
  proof (cases "items_of (klists s) e")
    case Nil
    then show ?thesis using Suc.prems em by (intro exI [of _ s]) simp
  next
    case (Cons i "is")
    show ?thesis
    proof (rule remove_event_kweak [OF kw Suc.prems(2) Cons], goal_cases)
      case (1 w s1)
      define s2 where "s2 = (if w then vTaskMissedYield s1 else s1)"
      have kw2: "kweak C idle E T s2" using 1(2) by (simp add: s2_def vTaskMissedYield_def)
      have sus: "uxSchedulerSuspended s2 = uxSchedulerSuspended s"
        using same_tasks_sel [OF 1(4)] by (simp add: s2_def vTaskMissedYield_def)
      have kl: "klists s2 = klists s1" by (simp add: s2_def vTaskMissedYield_def)
      have inv2: "kinv C idle E T s2" if inv: "kinv C idle E T s"
      proof (rule remove_event_kinv [OF inv Suc.prems(2) Cons], goal_cases)
        case (1 w' s1')
        then have "kinv C idle E T s1" using \<open>xTaskRemoveFromEventList e s = Some (w, s1)\<close> by simp
        then show ?thesis by (auto simp: s2_def vTaskMissedYield_def kinv_def)
      qed
      have "uxSchedulerSuspended s2 \<noteq> 0" using sus Suc.prems(3) by simp
      from Suc.IH [OF kw2 Suc.prems(2) this] obtain s' where
        s': "unlock_wake k e s2 = Some s'" "kweak C idle E T s'" "kinv C idle E T s2 \<longrightarrow> kinv C idle E T s'"
          "uxSchedulerSuspended s' = uxSchedulerSuspended s2"
        and it: "\<forall>l\<in>E. items_of (klists s') l = (if l = e then drop k (items_of (klists s2) l) else items_of (klists s2) l)"
        and woken: "\<forall>i\<in>set (take k (items_of (klists s2) e)). container_of (klists s') i = Some xPendingReadyList"
        and keep: "\<forall>u. evt_at s2 u = Some xPendingReadyList \<longrightarrow> evt_at s' u = Some xPendingReadyList"
        by (elim exE conjE) (rule that)
      have head: "container_of (klists s') i = Some xPendingReadyList"
      proof -
        have "evt_at s' (task_of i) = Some xPendingReadyList"
          using keep 1(9) [of "task_of i"] Suc.prems(3) kl by simp
        then show ?thesis using 1(6) by metis
      qed
      have "unlock_wake (Suc k) e s = Some s'"
        using em Cons 1(1) s'(1) by (simp add: s2_def)
      moreover have "\<forall>u. evt_at s u = Some xPendingReadyList \<longrightarrow> evt_at s' u = Some xPendingReadyList"
        using keep 1(9) Suc.prems(3) kl by auto
      ultimately show ?thesis
        using s' it woken head inv2 sus 1(10) Suc.prems(2) Cons kl by (intro exI [of _ s']) auto
    qed
  qed
qed

section \<open>The machine\<close>

text \<open>
  \<open>Kernel\<close> is a step of the scheduler; the others are the parts of the calls of \<open>Queue\<close>.  \<open>Send\<close> and
  \<open>Receive\<close> are the first round of a call, \<open>SendAgain\<close> and \<open>ReceiveAgain\<close> a later one with what is left of
  the block time; \<open>SendBlock\<close> and \<open>ReceiveBlock\<close> start the part with the scheduler suspended and
  \<open>BlockEnd\<close> ends it.  In between only interrupts come, and the first component of the state is the
  result of the part that was started.
\<close>

datatype qevent =
    Kernel kevent
  | Send "u8 list" u32 copy_position | SendAgain "u8 list" u32 TimeOut_t copy_position | SendBlock TimeOut_t u32
  | Receive u32 bool | ReceiveAgain u32 TimeOut_t bool | ReceiveBlock TimeOut_t u32
  | BlockEnd | Reset
  | SendFromISR "u8 list" copy_position | GiveFromISR | ReceiveFromISR | PeekFromISR

datatype answer = Sent bool | Got "u8 list option" | Waits | Silent

type_synonym qsys = "block_result option \<times> Queue_t \<times> kernel"

definition sent_answer :: "bool attempt \<Rightarrow> answer" where
  "sent_answer r = (case r of Returns b \<Rightarrow> Sent b | Blocks _ \<Rightarrow> Waits)"

definition got_answer :: "u8 list option attempt \<Rightarrow> answer" where
  "got_answer r = (case r of Returns x \<Rightarrow> Got x | Blocks _ \<Rightarrow> Waits)"

definition blocked_in :: "block_result \<times> TimeOut_t \<times> u32 \<times> Queue_t \<times> kernel \<Rightarrow> answer \<times> qsys" where
  "blocked_in b = (case b of (r, _, _, q, s) \<Rightarrow> (Silent, Some r, q, s))"

fun qstep :: "kernel_config \<Rightarrow> qevent \<Rightarrow> qsys \<Rightarrow> (answer \<times> qsys) option" where
  "qstep C (Kernel ev) (ph, q, s) = map_option (\<lambda>s'. (Silent, ph, q, s')) (kstep C ev s)"
| "qstep C (Send x n p) (ph, q, s) =
     map_option (\<lambda>(r, q', s'). (sent_answer r, ph, q', s')) (xQueueGenericSend C x n p q s)"
| "qstep C (SendAgain x n t p) (ph, q, s) =
     map_option (\<lambda>(r, q', s'). (sent_answer r, ph, q', s')) (send_critical C x n (Some t) p q s)"
| "qstep C (SendBlock t n) (ph, q, s) = map_option blocked_in (send_block_begin t n q s)"
| "qstep C (Receive n peek) (ph, q, s) =
     map_option (\<lambda>(r, q', s'). (got_answer r, ph, q', s')) (xQueueGenericReceive C n peek q s)"
| "qstep C (ReceiveAgain n t peek) (ph, q, s) =
     map_option (\<lambda>(r, q', s'). (got_answer r, ph, q', s')) (receive_critical C n (Some t) peek q s)"
| "qstep C (ReceiveBlock t n) (ph, q, s) = map_option blocked_in (receive_block_begin C t n q s)"
| "qstep C BlockEnd (ph, q, s) =
     (case ph of None \<Rightarrow> None | Some r \<Rightarrow> map_option (\<lambda>(q', s'). (Silent, None, q', s')) (block_end C r q s))"
| "qstep C Reset (ph, q, s) = map_option (\<lambda>(q', s'). (Silent, ph, q', s')) (xQueueGenericReset C False q s)"
| "qstep C (SendFromISR x p) (ph, q, s) =
     map_option (\<lambda>(b, w, q', s'). (Sent b, ph, q', isr_end (w, s'))) (xQueueGenericSendFromISR C x p q s)"
| "qstep C GiveFromISR (ph, q, s) =
     map_option (\<lambda>(b, w, q', s'). (Sent b, ph, q', isr_end (w, s'))) (xQueueGiveFromISR q s)"
| "qstep C ReceiveFromISR (ph, q, s) =
     map_option (\<lambda>(x, w, q', s'). (Got x, ph, q', isr_end (w, s'))) (xQueueReceiveFromISR q s)"
| "qstep C PeekFromISR (ph, q, s) = map_option (\<lambda>(x, q'). (Got x, ph, q', s)) (xQueuePeekFromISR q)"

text \<open>
  When a step can happen.  An item has the size of the queue's messages, only a queue for one
  message, which has a size, is overwritten; fewer than \<open>2 ^ 31 - 1\<close> interrupts use the queue while
  it is locked.
\<close>

definition item_ok :: "Queue_t \<Rightarrow> u8 list \<Rightarrow> copy_position \<Rightarrow> bool" where
  "item_ok q x p \<longleftrightarrow> isz q \<le> length x \<and> (p = queueOVERWRITE \<longrightarrow> cap q = 1 \<and> isz q \<noteq> 0)"

fun interrupt :: "list_id set \<Rightarrow> kevent \<Rightarrow> kernel \<Rightarrow> bool" where
  "interrupt E Tick s = True"
| "interrupt E Switch s = pend_sv s"
| "interrupt E (IsrSignal e) s = (e \<in> E \<and> items_of (klists s) e \<noteq> [])"
| "interrupt E _ s = False"

fun qallowed :: "kernel_config \<Rightarrow> task \<Rightarrow> list_id set \<Rightarrow> qevent \<Rightarrow> qsys \<Rightarrow> bool" where
  "qallowed C idle E (Kernel ev) (ph, q, s) =
     (case ph of None \<Rightarrow> allowed C idle E ev s | Some _ \<Rightarrow> interrupt E ev s)"
| "qallowed C idle E (Send x n p) (ph, q, s) =
     (ph = None \<and> \<not> pend_sv s \<and> item_ok q x p \<and> (xTaskGetSchedulerState s = taskSCHEDULER_SUSPENDED \<longrightarrow> n = 0))"
| "qallowed C idle E (SendAgain x n t p) (ph, q, s) = (ph = None \<and> \<not> pend_sv s \<and> item_ok q x p)"
| "qallowed C idle E (SendBlock t n) (ph, q, s) = (ph = None \<and> running idle s \<and> n \<noteq> 0)"
| "qallowed C idle E (Receive n peek) (ph, q, s) =
     (ph = None \<and> \<not> pend_sv s \<and> (xTaskGetSchedulerState s = taskSCHEDULER_SUSPENDED \<longrightarrow> n = 0))"
| "qallowed C idle E (ReceiveAgain n t peek) (ph, q, s) = (ph = None \<and> \<not> pend_sv s)"
| "qallowed C idle E (ReceiveBlock t n) (ph, q, s) = (ph = None \<and> running idle s \<and> n \<noteq> 0)"
| "qallowed C idle E BlockEnd (ph, q, s) = (ph \<noteq> None)"
| "qallowed C idle E Reset (ph, q, s) = (ph = None \<and> \<not> pend_sv s)"
| "qallowed C idle E (SendFromISR x p) (ph, q, s) = (item_ok q x p \<and> xTxLock q < 2 ^ 31 - 1)"
| "qallowed C idle E GiveFromISR (ph, q, s) = (isz q = 0 \<and> xTxLock q < 2 ^ 31 - 1)"
| "qallowed C idle E ReceiveFromISR (ph, q, s) = (xRxLock q < 2 ^ 31 - 1)"
| "qallowed C idle E PeekFromISR (ph, q, s) = (isz q \<noteq> 0)"

section \<open>What the operations do to the contents\<close>

definition queue_put :: "copy_position \<Rightarrow> u8 list \<Rightarrow> u8 list list \<Rightarrow> u8 list list" where
  "queue_put p x xs = (case p of queueSEND_TO_BACK \<Rightarrow> xs @ [x] | queueSEND_TO_FRONT \<Rightarrow> x # xs | queueOVERWRITE \<Rightarrow> [x])"

text \<open>The specification: a list of at most \<open>c\<close> messages of \<open>n\<close> bytes.\<close>

definition spec_send :: "nat \<Rightarrow> copy_position \<Rightarrow> u8 list \<Rightarrow> u32 \<Rightarrow> u8 list list \<Rightarrow> answer \<times> u8 list list" where
  "spec_send c p x w xs =
     (if length xs < c \<or> p = queueOVERWRITE then (Sent True, queue_put p x xs)
      else (if w = 0 then Sent False else Waits, xs))"

definition spec_receive :: "u32 \<Rightarrow> bool \<Rightarrow> u8 list list \<Rightarrow> answer \<times> u8 list list" where
  "spec_receive w peek xs =
     (case xs of [] \<Rightarrow> (if w = 0 then Got None else Waits, [])
      | y # ys \<Rightarrow> (Got (Some y), if peek then xs else ys))"

fun queue_spec :: "nat \<Rightarrow> nat \<Rightarrow> qevent \<Rightarrow> u8 list list \<Rightarrow> answer \<times> u8 list list" where
  "queue_spec c n (Send x w p) xs = spec_send c p (take n x) w xs"
| "queue_spec c n (SendAgain x w t p) xs = spec_send c p (take n x) w xs"
| "queue_spec c n (Receive w peek) xs = spec_receive w peek xs"
| "queue_spec c n (ReceiveAgain w t peek) xs = spec_receive w peek xs"
| "queue_spec c n (SendFromISR x p) xs = spec_send c p (take n x) 0 xs"
| "queue_spec c n GiveFromISR xs = spec_send c queueSEND_TO_BACK [] 0 xs"
| "queue_spec c n ReceiveFromISR xs = spec_receive 0 False xs"
| "queue_spec c n PeekFromISR xs = spec_receive 0 True xs"
| "queue_spec c n Reset xs = (Silent, [])"
| "queue_spec c n _ xs = (Silent, xs)"

lemma put_spec:
  assumes ok: "queue_ok q" and x: "item_ok q x p" and room: "cnt q < cap q \<or> p = queueOVERWRITE"
  obtains q' where "prvCopyDataToQueue C x p q s = Some (False, q', s)"
    "queue_ok q'" "contents q' = queue_put p (take (isz q) x) (contents q)" "same_queue q q'"
proof (cases p)
  case queueSEND_TO_BACK
  then have "cnt q < cap q" "isz q \<le> length x" using x room by (simp_all add: item_ok_def)
  from copy_to_back [OF ok this] show thesis using that queueSEND_TO_BACK by (auto simp: queue_put_def)
next
  case queueSEND_TO_FRONT
  then have "cnt q < cap q" "isz q \<le> length x" using x room by (simp_all add: item_ok_def)
  from copy_to_front [OF ok this] show thesis using that queueSEND_TO_FRONT by (auto simp: queue_put_def)
next
  case queueOVERWRITE
  then have "cap q = 1" "isz q \<noteq> 0" "isz q \<le> length x" using x by (simp_all add: item_ok_def)
  from copy_overwrite [OF ok this] show thesis using that queueOVERWRITE by (auto simp: queue_put_def)
qed

section \<open>The critical sections\<close>

lemma call_yield: "queueYIELD_IF_USING_PREEMPTION C w s = call_end C (w, s)"
  by (simp add: queueYIELD_IF_USING_PREEMPTION_def call_end_def)

lemma room_iff: "uxMessagesWaiting q < uxLength q \<longleftrightarrow> length (contents q) < cap q"
  by (simp add: word_less_nat_alt cnt_def cap_def)

lemma some_iff: "0 < uxMessagesWaiting q \<longleftrightarrow> contents q \<noteq> []"
  by (simp add: contents_nil word_gt_0)

lemma same_queue_sel:
  assumes "same_queue q q'"
  shows "uxLength q' = uxLength q" "uxItemSize q' = uxItemSize q" "cap q' = cap q" "isz q' = isz q"
    "is_mutex q' = is_mutex q" "xTasksWaitingToSend q' = xTasksWaitingToSend q"
    "xTasksWaitingToReceive q' = xTasksWaitingToReceive q" "xRxLock q' = xRxLock q" "xTxLock q' = xTxLock q"
  using assms by (simp_all add: same_queue_def cap_def isz_def)

lemma same_queue_refl [simp]: "same_queue q q"
  by (simp add: same_queue_def)

lemma send_critical_spec:
  assumes inv: "kinv C idle E T s" and ok: "queue_ok q" and e: "xTasksWaitingToReceive q \<in> E" and x: "item_ok q x p"
  obtains r q' s' where "send_critical C x n to p q s = Some (r, q', s')" "kinv C idle E T s'" "queue_ok q'"
    "same_queue q q'" "spec_send (cap q) p (take (isz q) x) n (contents q) = (sent_answer r, contents q')"
proof (cases "length (contents q) < cap q \<or> p = queueOVERWRITE")
  case True
  then have room: "cnt q < cap q \<or> p = queueOVERWRITE" by simp
  show thesis
  proof (rule put_spec [where C = C and s = s, OF ok x room], goal_cases)
    case (1 q')
    note sq = same_queue_sel [OF 1(4)]
    have e': "xTasksWaitingToReceive q' \<in> E" using e by (simp add: sq)
    show thesis
    proof (rule wake_waiter_kinv [OF inv e'], goal_cases)
      case (1 w s1)
      have wk: "(if \<not> listLIST_IS_EMPTY (klists s) (xTasksWaitingToReceive q')
          then xTaskRemoveFromEventList (xTasksWaitingToReceive q') s else Some (False, s)) = Some (w, s1)"
        using 1(1) by (auto simp: wake_waiter_def split: if_splits)
      have "send_critical C x n to p q s = Some (Returns True, q', call_end C (w, s1))"
        using True \<open>prvCopyDataToQueue C x p q s = _\<close> wk
        by (simp add: send_critical_def room_iff call_yield del: length_contents)
      then show thesis
        using kinv_ends(2) [OF 1(2), of w] True \<open>queue_ok q'\<close> \<open>contents q' = _\<close> \<open>same_queue q q'\<close>
        by (intro that) (auto simp: spec_send_def sent_answer_def)
    qed
  qed
next
  case False
  then show thesis
    using inv ok
    by (intro that [of "if n = 0 then Returns False else Blocks (case to of None \<Rightarrow> vTaskSetTimeOutState s | Some t \<Rightarrow> t)" q s])
      (auto simp: send_critical_def room_iff spec_send_def sent_answer_def simp del: length_contents)
qed

lemma receive_critical_spec:
  assumes inv: "kinv C idle E T s" and ok: "queue_ok q"
    and e: "xTasksWaitingToReceive q \<in> E" "xTasksWaitingToSend q \<in> E"
  obtains r q' s' where "receive_critical C n to peek q s = Some (r, q', s')" "kinv C idle E T s'" "queue_ok q'"
    "same_queue q q'" "spec_receive n peek (contents q) = (got_answer r, contents q')"
proof (cases "contents q")
  case Nil
  then show thesis
    using inv ok
    by (intro that [of "if n = 0 then Returns None else Blocks (case to of None \<Rightarrow> vTaskSetTimeOutState s | Some t \<Rightarrow> t)" q s])
      (auto simp: receive_critical_def some_iff spec_receive_def got_answer_def)
next
  case (Cons x xs)
  then have some: "uxMessagesWaiting q \<noteq> 0" using contents_nil [of q] by auto
  show thesis
  proof (rule copy_from [OF ok some], goal_cases)
    case (1 q1)
    note sq = same_queue_sel [OF 1(4)] and cp = 1
    define q2 where "q2 = q1\<lparr>uxMessagesWaiting := uxMessagesWaiting q1 - 1\<rparr>"
    have m: "\<not> is_mutex q2" using ok sq by (simp add: q2_def queue_ok_def)
    have s2: "same_queue q q2" using 1(4) by (simp add: q2_def same_queue_def)
    show thesis
    proof (cases peek)
      case False
      show ?thesis
      proof (rule wake_waiter_kinv [OF inv e(2)], goal_cases)
        case (1 w s1)
        have "receive_critical C n to peek q s = Some (Returns (Some x), q2, call_end C (w, s1))"
          using Cons cp(1) False m 1(1) sq
          by (simp add: receive_critical_def some_iff Let_def q2_def call_yield split: prod.splits)
        then show ?thesis
          using kinv_ends(2) [OF 1(2), of w] cp(2,3) s2 Cons False
          by (intro that) (auto simp: spec_receive_def got_answer_def q2_def)
      qed
    next
      case True
      show ?thesis
      proof (rule wake_waiter_kinv [OF inv e(1)], goal_cases)
        case (1 w s1)
        have "receive_critical C n to peek q s = Some (Returns (Some x), q, call_end C (w, s1))"
          using Cons cp(1,5) True 1(1) sq(7) by (simp add: receive_critical_def some_iff Let_def call_yield)
        then show ?thesis
          using kinv_ends(2) [OF 1(2), of w] ok Cons True
          by (intro that) (auto simp: spec_receive_def got_answer_def)
      qed
    qed
  qed
qed

section \<open>The part with the scheduler suspended\<close>

text \<open>The queue is locked, the scheduler is suspended, and a task that has been placed is not ready.\<close>

definition locked_inv :: "kernel_config \<Rightarrow> task \<Rightarrow> list_id set \<Rightarrow> task set \<Rightarrow> block_result \<Rightarrow> Queue_t \<Rightarrow> kernel \<Rightarrow> bool" where
  "locked_inv C idle E T r q s \<longleftrightarrow> kweak C idle E T s \<and> (r \<noteq> Placed \<longrightarrow> kinv C idle E T s) \<and>
     uxSchedulerSuspended s = 1 \<and> 0 \<le> xTxLock q \<and> 0 \<le> xRxLock q"

definition unlocked :: "Queue_t \<Rightarrow> bool" where
  "unlocked q \<longleftrightarrow> xTxLock q = queueUNLOCKED \<and> xRxLock q = queueUNLOCKED"

lemma check_timeout_rest:
  assumes "xTaskCheckForTimeOut to n s = (False, to', n')" "n \<noteq> 0"
  shows "n' \<noteq> 0"
  using assms by (auto simp: xTaskCheckForTimeOut_def portMAX_DELAY_def split: if_splits)

lemma block_begin_spec:
  assumes inv: "kinv C idle E T s" and run: "running idle s" and e: "waiting (prvLockQueue q) \<in> E" and n: "n \<noteq> 0"
    and q: "unlocked q" and before: "before (prvLockQueue q) = Some"
  obtains r t' n' q' s' where "block_begin must_wait waiting before t n q s = Some (r, t', n', q', s')"
    "locked_inv C idle E T r q' s'" "q' = prvLockQueue q"
    "r = Placed \<Longrightarrow> blocked s' (pxCurrentTCB s) \<and> evt_at s' (pxCurrentTCB s) = Some (waiting q')"
proof -
  let ?s = "vTaskSuspendAll s" and ?q = "prvLockQueue q"
  have np: "\<not> pend_sv s" "uxSchedulerSuspended s + 1 \<noteq> 0" using run by (simp_all add: running_def)
  have inv1: "kinv C idle E T ?s" by (rule vTaskSuspendAll_kinv [OF inv np])
  have sus: "uxSchedulerSuspended ?s = 1" using run by (simp add: vTaskSuspendAll_def running_def)
  have lock: "0 \<le> xTxLock ?q" "0 \<le> xRxLock ?q"
    using q by (simp_all add: prvLockQueue_def unlocked_def queueLOCKED_UNMODIFIED_def)
  obtain ex t' n' where c: "xTaskCheckForTimeOut t n ?s = (ex, t', n')" by (rule prod_cases3)
  show thesis
  proof (cases "\<not> ex \<and> must_wait ?q")
    case False
    then show ?thesis
      using inv1 kinvD(1) [OF inv1] sus lock c
      by (intro that [of "if ex then Expired else Changed" t' n' ?q ?s])
        (auto simp: block_begin_def Let_def locked_inv_def split: if_splits)
  next
    case True
    have n': "n' \<noteq> 0" using c True n by (intro check_timeout_rest [of t n ?s t' n']) simp_all
    have ni: "pxCurrentTCB ?s \<noteq> idle" "evt_at ?s (pxCurrentTCB ?s) = None"
      using run running_no_event [OF inv run] by (simp_all add: vTaskSuspendAll_def running_def)
    show ?thesis
    proof (rule place_on_event_kweak [OF kinvD(1) [OF inv1] ni e n'], goal_cases)
      case (1 s')
      have "uxSchedulerSuspended s' = 1" using same_tasks_sel [OF 1(3)] sus by simp
      moreover have "block_begin must_wait waiting before t n q s = Some (Placed, t', n', ?q, s')"
        using True c 1(1) before by (simp add: block_begin_def Let_def)
      ultimately show ?thesis
        using 1(2,5,6) lock by (intro that [of Placed t' n' ?q s']) (auto simp: locked_inv_def vTaskSuspendAll_def)
    qed
  qed
qed

lemma prvUnlockQueue_spec:
  assumes kw: "kweak C idle E T s" and e: "xTasksWaitingToReceive q \<in> E" "xTasksWaitingToSend q \<in> E"
    and d: "xTasksWaitingToReceive q \<noteq> xTasksWaitingToSend q" and sus: "uxSchedulerSuspended s \<noteq> 0"
  obtains s' where "prvUnlockQueue q s = Some (q\<lparr>xTxLock := queueUNLOCKED, xRxLock := queueUNLOCKED\<rparr>, s')"
    "kweak C idle E T s'" "kinv C idle E T s \<Longrightarrow> kinv C idle E T s'" "uxSchedulerSuspended s' = uxSchedulerSuspended s"
    "items_of (klists s') (xTasksWaitingToReceive q) = drop (nat (xTxLock q)) (items_of (klists s) (xTasksWaitingToReceive q))"
    "items_of (klists s') (xTasksWaitingToSend q) = drop (nat (xRxLock q)) (items_of (klists s) (xTasksWaitingToSend q))"
    "\<And>i. i \<in> set (take (nat (xTxLock q)) (items_of (klists s) (xTasksWaitingToReceive q))) \<Longrightarrow>
       container_of (klists s') i = Some xPendingReadyList"
    "\<And>i. i \<in> set (take (nat (xRxLock q)) (items_of (klists s) (xTasksWaitingToSend q))) \<Longrightarrow>
       container_of (klists s') i = Some xPendingReadyList"
proof -
  from unlock_wake_spec [OF kw e(1) sus, of "nat (xTxLock q)"] obtain s1 where
    s1: "unlock_wake (nat (xTxLock q)) (xTasksWaitingToReceive q) s = Some s1" "kweak C idle E T s1"
      "kinv C idle E T s \<longrightarrow> kinv C idle E T s1" "uxSchedulerSuspended s1 = uxSchedulerSuspended s"
    and it1: "\<forall>l\<in>E. items_of (klists s1) l = (if l = xTasksWaitingToReceive q
        then drop (nat (xTxLock q)) (items_of (klists s) l) else items_of (klists s) l)"
    and wk1: "\<forall>i\<in>set (take (nat (xTxLock q)) (items_of (klists s) (xTasksWaitingToReceive q))).
        container_of (klists s1) i = Some xPendingReadyList"
    by (elim exE conjE) (rule that)
  have "uxSchedulerSuspended s1 \<noteq> 0" using s1(4) sus by simp
  from unlock_wake_spec [OF s1(2) e(2) this, of "nat (xRxLock q)"] obtain s2 where
    s2: "unlock_wake (nat (xRxLock q)) (xTasksWaitingToSend q) s1 = Some s2" "kweak C idle E T s2"
      "kinv C idle E T s1 \<longrightarrow> kinv C idle E T s2" "uxSchedulerSuspended s2 = uxSchedulerSuspended s1"
    and it2: "\<forall>l\<in>E. items_of (klists s2) l = (if l = xTasksWaitingToSend q
        then drop (nat (xRxLock q)) (items_of (klists s1) l) else items_of (klists s1) l)"
    and wk2: "\<forall>i\<in>set (take (nat (xRxLock q)) (items_of (klists s1) (xTasksWaitingToSend q))).
        container_of (klists s2) i = Some xPendingReadyList"
    and keep: "\<forall>u. evt_at s1 u = Some xPendingReadyList \<longrightarrow> evt_at s2 u = Some xPendingReadyList"
    by (elim exE conjE) (rule that)
  have "container_of (klists s2) i = Some xPendingReadyList"
    if "i \<in> set (take (nat (xTxLock q)) (items_of (klists s) (xTasksWaitingToReceive q)))" for i
  proof -
    have p: "container_of (klists s1) i = Some xPendingReadyList" using wk1 that by blast
    then have "i = xEventListItem (task_of i)" by (intro event_item [OF kweakD(2) [OF s1(2)]]) auto
    then show ?thesis using keep p by metis
  qed
  then show thesis
    using s1 s2 it1 it2 wk2 e d by (intro that [of s2]) (auto simp: prvUnlockQueue_def)
qed

lemma block_end_spec:
  assumes l: "locked_inv C idle E T r q s" and e: "xTasksWaitingToReceive q \<in> E" "xTasksWaitingToSend q \<in> E"
    and d: "xTasksWaitingToReceive q \<noteq> xTasksWaitingToSend q"
  obtains s' where "block_end C r q s = Some (q\<lparr>xTxLock := queueUNLOCKED, xRxLock := queueUNLOCKED\<rparr>, s')"
    "kinv C idle E T s'" "uxSchedulerSuspended s' = 0"
    "\<And>i. i \<in> set (take (nat (xTxLock q)) (items_of (klists s) (xTasksWaitingToReceive q))) \<Longrightarrow> ready s' (task_of i)"
    "\<And>i. i \<in> set (take (nat (xRxLock q)) (items_of (klists s) (xTasksWaitingToSend q))) \<Longrightarrow> ready s' (task_of i)"
proof -
  have kw: "kweak C idle E T s" and sus: "uxSchedulerSuspended s = 1" using l by (simp_all add: locked_inv_def)
  then have nz: "uxSchedulerSuspended s \<noteq> 0" by simp
  show thesis
  proof (rule prvUnlockQueue_spec [OF kw e d nz], goal_cases)
    case (1 s1)
    have sus1: "uxSchedulerSuspended s1 = 1" using 1(4) sus by simp
    have woken: "evt_at s1 (task_of i) = Some xPendingReadyList" if "container_of (klists s1) i = Some xPendingReadyList" for i
      using event_item [OF kweakD(2) [OF 1(2)] that] that by metis
    note u = woken [OF 1(7)] woken [OF 1(8)]
    show thesis
    proof (cases "r = Placed")
      case True
      show ?thesis
        by (rule resume_and_yield_kinv [OF 1(2) sus1])
          (use 1(1) True u in \<open>simp add: that block_end_def\<close>)
    next
      case False
      then have inv1: "kinv C idle E T s1" using l 1(3) by (simp add: locked_inv_def)
      show ?thesis
      proof (rule resume_all_spec [OF 1(2) sus1], goal_cases)
        case (1 ret s')
        have "kinv C idle E T s'"
          using 1(2-6,8-10) inv1 sus1 unfolding kinv_def by auto
        then show ?thesis
          using False \<open>prvUnlockQueue q s = _\<close> 1(1,3,11) u by (intro that [of s']) (simp_all add: block_end_def)
      qed
    qed
  qed
qed

section \<open>Interrupts\<close>

definition qinv :: "kernel_config \<Rightarrow> task \<Rightarrow> list_id set \<Rightarrow> task set \<Rightarrow> qsys \<Rightarrow> bool" where
  "qinv C idle E T \<sigma> \<longleftrightarrow> (case \<sigma> of (ph, q, s) \<Rightarrow>
     queue_ok q \<and> xTasksWaitingToReceive q \<in> E \<and> xTasksWaitingToSend q \<in> E \<and>
     xTasksWaitingToReceive q \<noteq> xTasksWaitingToSend q \<and>
     (case ph of None \<Rightarrow> kinv C idle E T s \<and> unlocked q | Some r \<Rightarrow> locked_inv C idle E T r q s))"

lemma qinvD:
  assumes "qinv C idle E T (ph, q, s)"
  shows "queue_ok q" "xTasksWaitingToReceive q \<in> E" "xTasksWaitingToSend q \<in> E"
    "xTasksWaitingToReceive q \<noteq> xTasksWaitingToSend q" "ph = None \<Longrightarrow> kinv C idle E T s" "ph = None \<Longrightarrow> unlocked q"
    "ph = Some r \<Longrightarrow> locked_inv C idle E T r q s"
  using assms by (simp_all add: qinv_def)

text \<open>A change of the queue that keeps the locks, and of the kernel that keeps its invariant.\<close>

lemma qinv_step:
  assumes "qinv C idle E T (None, q, s)" "kinv C idle E T s'" "queue_ok q'" "same_queue q q'"
  shows "qinv C idle E T (None, q', s')"
  using assms same_queue_sel [OF assms(4)] by (simp add: qinv_def unlocked_def)

lemma wake_or_count_spec:
  assumes inv: "qinv C idle E T (ph, q, s)" and ok: "queue_ok q'" and sq: "same_queue q q'" and l: "xTxLock q < 2 ^ 31 - 1"
  obtains w q2 s2 where "wake_or_count q' s = Some (w, q2, s2)" "qinv C idle E T (ph, q2, isr_end (w, s2))"
    "contents q2 = contents q'" "cap q2 = cap q'" "isz q2 = isz q'"
proof (cases ph)
  case None
  note D = qinvD [OF inv] and S = same_queue_sel [OF sq]
  have u: "xTxLock q' = queueUNLOCKED" using D(6) [OF None] S by (simp add: unlocked_def)
  have e: "xTasksWaitingToReceive q' \<in> E" using D(2) S by simp
  show thesis
  proof (rule wake_waiter_kinv [OF D(5) [OF None] e], goal_cases)
    case (1 w s1)
    have "qinv C idle E T (ph, q', isr_end (w, s1))"
      using qinv_step [OF _ kinv_ends(1) [OF 1(2)] ok sq] inv None by simp
    then show thesis using 1(1) u by (intro that [of w q' s1]) (simp_all add: wake_or_count_def)
  qed
next
  case (Some r)
  note D = qinvD [OF inv] and S = same_queue_sel [OF sq]
  have lk: "locked_inv C idle E T r q s" using D(7) Some by simp
  define q2 where "q2 = q'\<lparr>xTxLock := xTxLock q' + 1\<rparr>"
  have same: "contents q2 = contents q'" "cap q2 = cap q'" "isz q2 = isz q'" "queue_ok q2 = queue_ok q'"
    by (simp_all add: q2_def contents_def queue_ok_def cap_def isz_def cnt_def read_slot_def)
  have "wake_or_count q' s = Some (False, q2, s)"
    using lk l S by (auto simp: wake_or_count_def lock_inc_def q2_def locked_inv_def queueUNLOCKED_def)
  moreover have "qinv C idle E T (ph, q2, isr_end (False, s))"
    using D lk S ok same(4) Some by (simp add: qinv_def locked_inv_def isr_end_def) (simp add: q2_def)
  ultimately show thesis using that same by blast
qed

text \<open>The interrupts that a task with the scheduler suspended may see.\<close>

lemma tick_suspended:
  assumes kw: "kweak C idle E T s" and sus: "uxSchedulerSuspended s = 1"
  obtains s' where "vPortTickHandler C s = Some s'" "kweak C idle E T s'" "uxSchedulerSuspended s' = 1"
  using assms
  by (cases "configUSE_PREEMPTION C \<and> xYieldPending s")
    (auto simp: vPortTickHandler_def xTaskIncrementTick_def portYIELD_WITHIN_API_def)

lemma switch_suspended:
  assumes kw: "kweak C idle E T s" and sus: "uxSchedulerSuspended s = 1"
  obtains s' where "PendSV_Handler s = Some s'" "kweak C idle E T s'" "uxSchedulerSuspended s' = 1"
  using assms by (auto simp: PendSV_Handler_def vTaskSwitchContext_def)

lemma interrupt_locked:
  assumes l: "locked_inv C idle E T r q s" and a: "interrupt E ev s"
  obtains s' where "kstep C ev s = Some s'" "locked_inv C idle E T r q s'"
proof -
  have kw: "kweak C idle E T s" and sus: "uxSchedulerSuspended s = 1" and lk: "0 \<le> xTxLock q" "0 \<le> xRxLock q"
    and inv: "r \<noteq> Placed \<Longrightarrow> kinv C idle E T s"
    using l by (simp_all add: locked_inv_def)
  have R: "locked_inv C idle E T r q s'" if "kweak C idle E T s'" "uxSchedulerSuspended s' = 1"
      "kinv C idle E T s \<Longrightarrow> kinv C idle E T s'" for s'
    using that inv lk by (auto simp: locked_inv_def)
  show thesis
  proof (cases ev)
    case Tick
    show ?thesis
    proof (rule tick_suspended [OF kw sus], goal_cases)
      case (1 s')
      have "kinv C idle E T s'" if "kinv C idle E T s"
        by (rule vPortTickHandler_kinv [OF that]) (use 1(1) in simp)
      then show ?thesis using 1 Tick R by (intro that [of s']) simp_all
    qed
  next
    case Switch
    show ?thesis
    proof (rule switch_suspended [OF kw sus], goal_cases)
      case (1 s')
      have "kinv C idle E T s'" if "kinv C idle E T s"
        by (rule PendSV_kinv [OF that]) (use 1(1) in simp)
      then show ?thesis using 1 Switch R by (intro that [of s']) simp_all
    qed
  next
    case (IsrSignal e)
    then obtain i "is" where h: "e \<in> E" "items_of (klists s) e = i # is" using a by (auto simp: neq_Nil_conv)
    show ?thesis
    proof (rule remove_event_kweak [OF kw h], goal_cases)
      case (1 w s')
      have "kinv C idle E T (isr_end (w, s'))" if inv: "kinv C idle E T s"
      proof (rule remove_event_kinv [OF inv h], goal_cases)
        case (1 w' s'')
        then show ?thesis using kinv_ends(1) [OF 1(2)] \<open>xTaskRemoveFromEventList e s = Some (w, s')\<close> by simp
      qed
      then show ?thesis
        using 1(1,2) sus same_tasks_sel [OF 1(4)] IsrSignal
        by (intro that [of "isr_end (w, s')"] R) (simp_all add: isr_end_def portYIELD_WITHIN_API_def)
    qed
  qed (use a in simp_all)
qed

lemma send_isr_spec:
  assumes inv: "qinv C idle E T (ph, q, s)" and x: "item_ok q x p" and l: "xTxLock q < 2 ^ 31 - 1"
  obtains b w q' s' where "xQueueGenericSendFromISR C x p q s = Some (b, w, q', s')"
    "qinv C idle E T (ph, q', isr_end (w, s'))" "cap q' = cap q" "isz q' = isz q"
    "spec_send (cap q) p (take (isz q) x) 0 (contents q) = (Sent b, contents q')"
proof -
  note ok = qinvD(1) [OF inv]
  have a: "p = queueOVERWRITE \<longrightarrow> uxLength q = 1"
    using x by (simp add: item_ok_def cap_def word_unat_eq_iff [of _ 1])
  show thesis
  proof (cases "length (contents q) < cap q \<or> p = queueOVERWRITE")
    case True
    then have room: "cnt q < cap q \<or> p = queueOVERWRITE" by simp
    show ?thesis
    proof (rule put_spec [where C = C and s = s, OF ok x room], goal_cases)
      case (1 q1)
      show ?thesis
      proof (rule wake_or_count_spec [OF inv 1(2,4) l], goal_cases)
        case (1 w q2 s2)
        then show ?thesis
          using True a \<open>prvCopyDataToQueue C x p q s = _\<close> \<open>contents q1 = _\<close> same_queue_sel [OF \<open>same_queue q q1\<close>]
          by (intro that [of True w q2 s2])
            (simp_all add: xQueueGenericSendFromISR_def configASSERT_def room_iff spec_send_def del: length_contents)
      qed
    qed
  next
    case False
    then show ?thesis
      using inv by (intro that [of False False q s])
        (simp_all add: xQueueGenericSendFromISR_def configASSERT_def room_iff spec_send_def isr_end_def del: length_contents)
  qed
qed

lemma give_isr_spec:
  assumes inv: "qinv C idle E T (ph, q, s)" and z: "isz q = 0" and l: "xTxLock q < 2 ^ 31 - 1"
  obtains b w q' s' where "xQueueGiveFromISR q s = Some (b, w, q', s')"
    "qinv C idle E T (ph, q', isr_end (w, s'))" "cap q' = cap q" "isz q' = isz q"
    "spec_send (cap q) queueSEND_TO_BACK [] 0 (contents q) = (Sent b, contents q')"
proof -
  note ok = qinvD(1) [OF inv]
  have z0: "uxItemSize q = 0" "\<not> is_mutex q" using z ok by (simp_all add: isz_def unat_eq_0 queue_ok_def)
  have x: "item_ok q [] queueSEND_TO_BACK" using z by (simp add: item_ok_def)
  have eq: "xQueueGiveFromISR q s = xQueueGenericSendFromISR C [] queueSEND_TO_BACK q s" for C
    using z0 by (simp add: xQueueGiveFromISR_def xQueueGenericSendFromISR_def prvCopyDataToQueue_def configASSERT_def)
  show thesis
  proof (rule send_isr_spec [where C = C, OF inv x l], goal_cases)
    case (1 b w q' s')
    then show thesis using z by (intro that [of b w q' s']) (simp_all add: eq [of C])
  qed
qed

lemma receive_isr_spec:
  assumes inv: "qinv C idle E T (ph, q, s)" and l: "xRxLock q < 2 ^ 31 - 1"
  obtains x w q' s' where "xQueueReceiveFromISR q s = Some (x, w, q', s')"
    "qinv C idle E T (ph, q', isr_end (w, s'))" "cap q' = cap q" "isz q' = isz q"
    "spec_receive 0 False (contents q) = (Got x, contents q')"
proof (cases "contents q")
  case Nil
  then show thesis
    using inv by (intro that [of None False q s])
      (simp_all add: xQueueReceiveFromISR_def some_iff spec_receive_def isr_end_def)
next
  case (Cons x xs)
  note D = qinvD [OF inv]
  have some: "uxMessagesWaiting q \<noteq> 0" using Cons contents_nil [of q] by auto
  show thesis
  proof (rule copy_from [OF D(1) some], goal_cases)
    case (1 q1)
    define q2 where "q2 = q1\<lparr>uxMessagesWaiting := uxMessagesWaiting q1 - 1\<rparr>"
    note cp = 1 [folded q2_def]
    have sq: "same_queue q q2" using 1(4) by (simp add: q2_def same_queue_def)
    note S = same_queue_sel [OF sq]
    have r: "xQueueReceiveFromISR q s = (if xRxLock q2 = queueUNLOCKED
        then do { (w, s1) \<leftarrow> wake_waiter (xTasksWaitingToSend q2) s; Some (Some x, w, q2, s1) }
        else do { l \<leftarrow> lock_inc (xRxLock q2); Some (Some x, False, q2\<lparr>xRxLock := l\<rparr>, s) })"
      using cp(1) Cons by (simp add: xQueueReceiveFromISR_def some_iff Let_def q2_def)
    show thesis
    proof (cases ph)
      case None
      have u: "xRxLock q2 = queueUNLOCKED" and e: "xTasksWaitingToSend q2 \<in> E"
        using D(3) D(6) [OF None] S by (simp_all add: unlocked_def)
      show ?thesis
      proof (rule wake_waiter_kinv [OF D(5) [OF None] e], goal_cases)
        case (1 w s1)
        have "qinv C idle E T (ph, q2, isr_end (w, s1))"
          using qinv_step [OF _ kinv_ends(1) [OF 1(2)] cp(2) sq] inv None by simp
        then show ?thesis
          using 1(1) u r cp(3) Cons S by (intro that [of "Some x" w q2 s1]) (simp_all add: spec_receive_def)
      qed
    next
      case (Some b)
      have lk: "locked_inv C idle E T b q s" using D(7) Some by simp
      define q3 where "q3 = q2\<lparr>xRxLock := xRxLock q2 + 1\<rparr>"
      have same: "contents q3 = contents q2" "cap q3 = cap q2" "isz q3 = isz q2" "queue_ok q3 = queue_ok q2"
        by (simp_all add: q3_def contents_def queue_ok_def cap_def isz_def cnt_def read_slot_def)
      have "xQueueReceiveFromISR q s = Some (Some x, False, q3, s)"
        using lk l S by (auto simp: r lock_inc_def q3_def locked_inv_def queueUNLOCKED_def)
      moreover have "qinv C idle E T (ph, q3, isr_end (False, s))"
        using D lk S cp(2) same(4) Some by (simp add: qinv_def locked_inv_def isr_end_def) (simp add: q3_def)
      ultimately show ?thesis
        using cp(3) Cons S same by (intro that [of "Some x" False q3 s]) (simp_all add: spec_receive_def)
    qed
  qed
qed

lemma peek_isr_spec:
  assumes ok: "queue_ok q" and n: "isz q \<noteq> 0"
  obtains x where "xQueuePeekFromISR q = Some (x, q)" "spec_receive 0 True (contents q) = (Got x, contents q)"
proof -
  have z: "uxItemSize q \<noteq> 0" using n by (auto simp: isz_def)
  show thesis
  proof (cases "contents q")
    case Nil
    then show ?thesis
      using z by (intro that [of None]) (simp_all add: xQueuePeekFromISR_def configASSERT_def some_iff spec_receive_def)
  next
    case (Cons x xs)
    then have some: "uxMessagesWaiting q \<noteq> 0" using contents_nil [of q] by auto
    show ?thesis
    proof (rule copy_from [OF ok some], goal_cases)
      case (1 q1)
      then show ?thesis
        using z Cons by (intro that [of "Some x"])
          (simp_all add: xQueuePeekFromISR_def configASSERT_def some_iff spec_receive_def Let_def)
    qed
  qed
qed

section \<open>Resetting\<close>

lemma reset_contents:
  assumes ok: "\<not> is_mutex q" "0 < cap q" "cap q * isz q + 1 < 2 ^ 32" "isz q \<noteq> 0 \<Longrightarrow> cap q * isz q \<le> length (storage q)"
  defines "q1 \<equiv> q\<lparr>pcTail := int (unat (uxLength q * uxItemSize q)), uxMessagesWaiting := 0,
    pcWriteTo := 0, pcReadFrom := int (unat ((uxLength q - 1) * uxItemSize q)), pxMutexHolder := 0,
    uxRecursiveCallCount := 0, xRxLock := queueUNLOCKED, xTxLock := queueUNLOCKED\<rparr>"
  shows "queue_ok q1" "contents q1 = []" "cap q1 = cap q" "isz q1 = isz q"
proof -
  have c: "cap q1 = cap q" "isz q1 = isz q" "cnt q1 = 0" by (simp_all add: q1_def cap_def isz_def cnt_def)
  show "contents q1 = []" "cap q1 = cap q" "isz q1 = isz q" using c by (simp_all add: contents_def)
  show "queue_ok q1"
  proof (cases "isz q = 0")
    case True
    then show ?thesis using ok c by (simp add: queue_ok_def) (simp add: q1_def)
  next
    case False
    note b = ok(3,2)
    have "uxLength q \<noteq> 0" using b(2) by (auto simp: cap_def)
    then have l1: "unat (uxLength q - 1) = cap q - 1" by (simp add: cap_def unat_minus_one)
    have t: "unat (uxLength q * uxItemSize q) = cap q * isz q"
      using b by (subst unat_mult_lem [THEN iffD1]) (simp_all add: cap_def isz_def)
    have "(cap q - 1) * isz q < 2 ^ 32" using b(1) by (metis diff_le_self mult_le_mono1 le_less_trans add_lessD1)
    then have f: "unat ((uxLength q - 1) * uxItemSize q) = (cap q - 1) * isz q"
      using l1 by (subst unat_mult_lem [THEN iffD1]) (simp_all add: isz_def)
    have I: "\<not> is_mutex q1" "0 < cap q1" "cnt q1 \<le> cap q1" "isz q1 \<noteq> 0" "cap q - 1 < cap q1"
      "pcReadFrom q1 = int ((cap q - 1) * isz q1)"
      "pcWriteTo q1 = int ((cap q - 1 + 1 + cnt q1) mod cap q1 * isz q1)" "pcTail q1 = int (cap q1 * isz q1)"
      "cap q1 * isz q1 \<le> length (storage q1)" "cap q1 * isz q1 + 1 < 2 ^ 32"
      using ok False b unfolding c by (simp_all add: q1_def queue_ok_def t f del: of_nat_mult)
    show ?thesis by (rule queue_okI(1) [OF I])
  qed
qed

lemma reset_spec:
  assumes inv: "qinv C idle E T (None, q, s)"
  obtains q' s' where "xQueueGenericReset C False q s = Some (q', s')" "qinv C idle E T (None, q', s')"
    "contents q' = []" "cap q' = cap q" "isz q' = isz q"
proof -
  note D = qinvD [OF inv]
  define q1 where "q1 = q\<lparr>pcTail := int (unat (uxLength q * uxItemSize q)), uxMessagesWaiting := 0,
    pcWriteTo := 0, pcReadFrom := int (unat ((uxLength q - 1) * uxItemSize q)), pxMutexHolder := 0,
    uxRecursiveCallCount := 0, xRxLock := queueUNLOCKED, xTxLock := queueUNLOCKED\<rparr>"
  have "\<not> is_mutex q" "0 < cap q" "cap q * isz q + 1 < 2 ^ 32" "isz q \<noteq> 0 \<Longrightarrow> cap q * isz q \<le> length (storage q)"
    using D(1) by (simp_all add: queue_ok_def)
  note R = reset_contents [OF this, folded q1_def]
  have S: "xTasksWaitingToSend q1 = xTasksWaitingToSend q" "xTasksWaitingToReceive q1 = xTasksWaitingToReceive q"
    "unlocked q1"
    by (simp_all add: q1_def unlocked_def)
  have r: "xQueueGenericReset C False q s = do { (w, s1) \<leftarrow> wake_waiter (xTasksWaitingToSend q1) s;
      Some (q1, queueYIELD_IF_USING_PREEMPTION C w s1) }"
    unfolding q1_def by (simp only: xQueueGenericReset_def Let_def not_False_eq_True if_True)
  show thesis
  proof (rule wake_waiter_kinv [OF D(5) [OF refl] D(3)], goal_cases)
    case (1 w s1)
    then have "xQueueGenericReset C False q s = Some (q1, call_end C (w, s1))"
      by (simp add: r S call_yield)
    moreover have "qinv C idle E T (None, q1, call_end C (w, s1))"
      using 1 R D S by (simp add: qinv_def kinv_ends)
    ultimately show thesis using R by (intro that)
  qed
qed

section \<open>Every step keeps the invariant and follows the specification\<close>

lemma overwrite_assert: "item_ok q x p \<Longrightarrow> p = queueOVERWRITE \<longrightarrow> uxLength q = 1"
  by (simp add: item_ok_def cap_def word_unat_eq_iff [of _ 1])

lemma lock_frame:
  "contents (prvLockQueue q) = contents q" "cap (prvLockQueue q) = cap q" "isz (prvLockQueue q) = isz q"
  "queue_ok (prvLockQueue q) = queue_ok q" "is_mutex (prvLockQueue q) = is_mutex q"
  "xTasksWaitingToReceive (prvLockQueue q) = xTasksWaitingToReceive q"
  "xTasksWaitingToSend (prvLockQueue q) = xTasksWaitingToSend q"
  by (simp_all add: prvLockQueue_def contents_def queue_ok_def cap_def isz_def cnt_def read_slot_def)

lemma unlock_frame:
  fixes q :: Queue_t
  defines "q' \<equiv> q\<lparr>xTxLock := queueUNLOCKED, xRxLock := queueUNLOCKED\<rparr>"
  shows "contents q' = contents q" "cap q' = cap q" "isz q' = isz q" "queue_ok q' = queue_ok q" "unlocked q'"
    "xTasksWaitingToReceive q' = xTasksWaitingToReceive q" "xTasksWaitingToSend q' = xTasksWaitingToSend q"
  by (simp_all add: q'_def contents_def queue_ok_def cap_def isz_def cnt_def read_slot_def unlocked_def)

text \<open>The part of a step's claim that all steps share.\<close>

definition follows :: "kernel_config \<Rightarrow> task \<Rightarrow> list_id set \<Rightarrow> task set \<Rightarrow> qevent \<Rightarrow> qsys \<Rightarrow> bool" where
  "follows C idle E T ev \<sigma> \<longleftrightarrow> (\<exists>a ph q s. qstep C ev \<sigma> = Some (a, ph, q, s) \<and> qinv C idle E T (ph, q, s) \<and>
     queue_spec (cap (fst (snd \<sigma>))) (isz (fst (snd \<sigma>))) ev (contents (fst (snd \<sigma>))) = (a, contents q) \<and>
     cap q = cap (fst (snd \<sigma>)) \<and> isz q = isz (fst (snd \<sigma>)))"

lemma followsI:
  assumes "qstep C ev (ph, q, s) = Some (a, ph', q', s')" "qinv C idle E T (ph', q', s')"
    "queue_spec (cap q) (isz q) ev (contents q) = (a, contents q')" "cap q' = cap q" "isz q' = isz q"
  shows "follows C idle E T ev (ph, q, s)"
  using assms by (auto simp: follows_def)

lemma send_follows:
  assumes inv: "qinv C idle E T (None, q, s)" and x: "item_ok q x p"
  obtains r q' s' where "send_critical C x n to p q s = Some (r, q', s')" "qinv C idle E T (None, q', s')"
    "spec_send (cap q) p (take (isz q) x) n (contents q) = (sent_answer r, contents q')" "cap q' = cap q" "isz q' = isz q"
proof -
  note D = qinvD [OF inv]
  show thesis
  proof (rule send_critical_spec [where n = n and to = to, OF D(5) [OF refl] D(1,2) x], goal_cases)
    case (1 r q' s')
    then show thesis using qinv_step [OF inv 1(2-4)] same_queue_sel(3,4) [OF 1(4)] by (intro that [of r q' s'])
  qed
qed

lemma receive_follows:
  assumes inv: "qinv C idle E T (None, q, s)"
  obtains r q' s' where "receive_critical C n to peek q s = Some (r, q', s')" "qinv C idle E T (None, q', s')"
    "spec_receive n peek (contents q) = (got_answer r, contents q')" "cap q' = cap q" "isz q' = isz q"
proof -
  note D = qinvD [OF inv]
  show thesis
  proof (rule receive_critical_spec [where n = n and to = to and peek = peek, OF D(5) [OF refl] D(1-3)], goal_cases)
    case (1 r q' s')
    then show thesis using qinv_step [OF inv 1(2-4)] same_queue_sel(3,4) [OF 1(4)] by (intro that [of r q' s'])
  qed
qed

lemma block_follows:
  assumes inv: "qinv C idle E T (None, q, s)" and run: "running idle s" and n: "n \<noteq> 0"
    and w: "waiting (prvLockQueue q) \<in> E" and before: "before (prvLockQueue q) = Some"
  obtains r t' n' q' s' where "block_begin must_wait waiting before t n q s = Some (r, t', n', q', s')"
    "qinv C idle E T (Some r, q', s')" "contents q' = contents q" "cap q' = cap q" "isz q' = isz q"
proof -
  note D = qinvD [OF inv]
  show thesis
  proof (rule block_begin_spec [where before = before and must_wait = must_wait and waiting = waiting and t = t,
        OF D(5) [OF refl] run w n D(6) [OF refl] before], goal_cases)
    case (1 r t' n' q' s')
    then show thesis using D by (intro that [of r t' n' q' s']) (auto simp: qinv_def lock_frame)
  qed
qed

lemma follows_Kernel:
  assumes inv: "qinv C idle E T (ph, q, s)" and a: "qallowed C idle E (Kernel ke) (ph, q, s)"
  shows "\<exists>T'. follows C idle E T' (Kernel ke) (ph, q, s)"
proof -
  note D = qinvD [OF inv]
  show ?thesis
  proof (cases ph)
    case None
    have "allowed C idle E ke s" using a None by simp
    from kstep_kinv [OF D(5) [OF None] this] obtain s' T' where "kstep C ke s = Some s'" "kinv C idle E T' s'"
      by blast
    then show ?thesis
      using None D
      by (intro exI [of _ T'] followsI [where a = "Silent" and ph' = "ph" and q' = "q" and s' = "s'"])
        (auto simp: qinv_def)
  next
    case (Some r)
    then have "interrupt E ke s" using a by simp
    from interrupt_locked [OF D(7) [OF Some] this] obtain s' where
      "kstep C ke s = Some s'" "locked_inv C idle E T r q s'" .
    then show ?thesis
      using Some D
      by (intro exI [of _ T] followsI [where a = "Silent" and ph' = "ph" and q' = "q" and s' = "s'"])
        (auto simp: qinv_def)
  qed
qed

lemma follows_Send:
  assumes inv: "qinv C idle E T (ph, q, s)" and a: "qallowed C idle E (Send x n p) (ph, q, s)"
  shows "follows C idle E T (Send x n p) (ph, q, s)"
proof -
  have h: "ph = None" "item_ok q x p" "xTaskGetSchedulerState s = taskSCHEDULER_SUSPENDED \<longrightarrow> n = 0" using a by auto
  from send_follows [OF inv [unfolded h(1)] h(2), of n None] obtain r q' s' where
    "send_critical C x n None p q s = Some (r, q', s')" "qinv C idle E T (None, q', s')"
    "spec_send (cap q) p (take (isz q) x) n (contents q) = (sent_answer r, contents q')" "cap q' = cap q" "isz q' = isz q" .
  then show ?thesis
    using h overwrite_assert [OF h(2)]
    by (intro followsI [where a = "sent_answer r" and ph' = "None" and q' = "q'" and s' = "s'"])
      (auto simp: xQueueGenericSend_def configASSERT_def)
qed

lemma follows_SendAgain:
  assumes inv: "qinv C idle E T (ph, q, s)" and a: "qallowed C idle E (SendAgain x n t p) (ph, q, s)"
  shows "follows C idle E T (SendAgain x n t p) (ph, q, s)"
proof -
  have h: "ph = None" "item_ok q x p" using a by auto
  from send_follows [OF inv [unfolded h(1)] h(2), of n "Some t"] obtain r q' s' where
    "send_critical C x n (Some t) p q s = Some (r, q', s')" "qinv C idle E T (None, q', s')"
    "spec_send (cap q) p (take (isz q) x) n (contents q) = (sent_answer r, contents q')" "cap q' = cap q" "isz q' = isz q" .
  then show ?thesis
    using h
    by (intro followsI [where a = "sent_answer r" and ph' = "None" and q' = "q'" and s' = "s'"]) auto
qed

lemma follows_SendBlock:
  assumes inv: "qinv C idle E T (ph, q, s)" and a: "qallowed C idle E (SendBlock t n) (ph, q, s)"
  shows "follows C idle E T (SendBlock t n) (ph, q, s)"
proof -
  note D = qinvD [OF inv]
  have h: "ph = None" "running idle s" "n \<noteq> 0" using a by auto
  have w: "xTasksWaitingToSend (prvLockQueue q) \<in> E" using D(3) by (simp add: lock_frame)
  from block_follows [where before = "\<lambda>q. Some" and waiting = xTasksWaitingToSend and t = t and must_wait = prvIsQueueFull,
      OF inv [unfolded h(1)] h(2,3) w refl]
  obtain r t' n' q' s' where
    "send_block_begin t n q s = Some (r, t', n', q', s')"
    "qinv C idle E T (Some r, q', s')" "contents q' = contents q" "cap q' = cap q" "isz q' = isz q"
    unfolding send_block_begin_def .
  then show ?thesis
    using h
    by (intro followsI [where a = Silent and ph' = "Some r" and q' = q' and s' = s'])
      (auto simp: blocked_in_def)
qed

lemma follows_Receive:
  assumes inv: "qinv C idle E T (ph, q, s)" and a: "qallowed C idle E (Receive n peek) (ph, q, s)"
  shows "follows C idle E T (Receive n peek) (ph, q, s)"
proof -
  have h: "ph = None" "xTaskGetSchedulerState s = taskSCHEDULER_SUSPENDED \<longrightarrow> n = 0" using a by auto
  from receive_follows [OF inv [unfolded h(1)], of n None peek] obtain r q' s' where
    "receive_critical C n None peek q s = Some (r, q', s')" "qinv C idle E T (None, q', s')"
    "spec_receive n peek (contents q) = (got_answer r, contents q')" "cap q' = cap q" "isz q' = isz q" .
  then show ?thesis
    using h
    by (intro followsI [where a = "got_answer r" and ph' = "None" and q' = "q'" and s' = "s'"])
      (auto simp: xQueueGenericReceive_def configASSERT_def)
qed

lemma follows_ReceiveAgain:
  assumes inv: "qinv C idle E T (ph, q, s)" and a: "qallowed C idle E (ReceiveAgain n t peek) (ph, q, s)"
  shows "follows C idle E T (ReceiveAgain n t peek) (ph, q, s)"
proof -
  have h: "ph = None" using a by auto
  from receive_follows [OF inv [unfolded h(1)], of n "Some t" peek] obtain r q' s' where
    "receive_critical C n (Some t) peek q s = Some (r, q', s')" "qinv C idle E T (None, q', s')"
    "spec_receive n peek (contents q) = (got_answer r, contents q')" "cap q' = cap q" "isz q' = isz q" .
  then show ?thesis
    using h
    by (intro followsI [where a = "got_answer r" and ph' = "None" and q' = "q'" and s' = "s'"]) auto
qed

lemma follows_ReceiveBlock:
  assumes inv: "qinv C idle E T (ph, q, s)" and a: "qallowed C idle E (ReceiveBlock t n) (ph, q, s)"
  shows "follows C idle E T (ReceiveBlock t n) (ph, q, s)"
proof -
  note D = qinvD [OF inv]
  have h: "ph = None" "running idle s" "n \<noteq> 0" using a by auto
  have w: "xTasksWaitingToReceive (prvLockQueue q) \<in> E" using D(2) by (simp add: lock_frame)
  let ?before = "\<lambda>q s. if is_mutex q then vTaskPriorityInherit C (pxMutexHolder q) s else Some s"
  have "\<not> is_mutex (prvLockQueue q)" using D(1) by (simp add: lock_frame queue_ok_def)
  then have b: "?before (prvLockQueue q) = Some" by auto
  from block_follows [where t = t and must_wait = prvIsQueueEmpty and waiting = xTasksWaitingToReceive
        and before = ?before,
      OF inv [unfolded h(1)] h(2,3) w b]
  obtain r t' n' q' s' where
    "receive_block_begin C t n q s = Some (r, t', n', q', s')"
    "qinv C idle E T (Some r, q', s')" "contents q' = contents q" "cap q' = cap q" "isz q' = isz q"
    unfolding receive_block_begin_def .
  then show ?thesis
    using h
    by (intro followsI [where a = "Silent" and ph' = "Some r" and q' = "q'" and s' = "s'"])
      (auto simp: blocked_in_def)
qed

lemma follows_BlockEnd:
  assumes inv: "qinv C idle E T (ph, q, s)" and a: "qallowed C idle E BlockEnd (ph, q, s)"
  shows "follows C idle E T BlockEnd (ph, q, s)"
proof -
  note D = qinvD [OF inv]
  obtain r where r: "ph = Some r" using a by auto
  from block_end_spec [OF D(7) [OF r] D(2-4)] obtain s' where
    "block_end C r q s = Some (q\<lparr>xTxLock := queueUNLOCKED, xRxLock := queueUNLOCKED\<rparr>, s')" "kinv C idle E T s'" .
  then show ?thesis
    using r D
    by (intro followsI [where a = "Silent" and ph' = "None" and q' = "q\<lparr>xTxLock := queueUNLOCKED, xRxLock := queueUNLOCKED\<rparr>" and s' = "s'"])
      (simp_all add: unlock_frame qinv_def)
qed

lemma follows_Reset:
  assumes inv: "qinv C idle E T (ph, q, s)" and a: "qallowed C idle E Reset (ph, q, s)"
  shows "follows C idle E T Reset (ph, q, s)"
proof -
  have h: "ph = None" using a by auto
  from reset_spec [OF inv [unfolded h]] obtain q' s' where
    "xQueueGenericReset C False q s = Some (q', s')" "qinv C idle E T (None, q', s')"
    "contents q' = []" "cap q' = cap q" "isz q' = isz q" .
  then show ?thesis using h
    by (intro followsI [where a = "Silent" and ph' = "None" and q' = "q'" and s' = "s'"]) auto
qed

lemma follows_SendFromISR:
  assumes inv: "qinv C idle E T (ph, q, s)" and a: "qallowed C idle E (SendFromISR x p) (ph, q, s)"
  shows "follows C idle E T (SendFromISR x p) (ph, q, s)"
proof -
  have h: "item_ok q x p" "xTxLock q < 2 ^ 31 - 1" using a by auto
  from send_isr_spec [OF inv h] obtain b w q' s' where
    "xQueueGenericSendFromISR C x p q s = Some (b, w, q', s')"
    "qinv C idle E T (ph, q', isr_end (w, s'))" "cap q' = cap q" "isz q' = isz q"
    "spec_send (cap q) p (take (isz q) x) 0 (contents q) = (Sent b, contents q')" .
  then show ?thesis
    by (intro followsI [where a = "Sent b" and ph' = "ph" and q' = "q'" and s' = "isr_end (w, s')"]) auto
qed

lemma follows_GiveFromISR:
  assumes inv: "qinv C idle E T (ph, q, s)" and a: "qallowed C idle E GiveFromISR (ph, q, s)"
  shows "follows C idle E T GiveFromISR (ph, q, s)"
proof -
  have h: "isz q = 0" "xTxLock q < 2 ^ 31 - 1" using a by auto
  from give_isr_spec [OF inv h] obtain b w q' s' where
    "xQueueGiveFromISR q s = Some (b, w, q', s')"
    "qinv C idle E T (ph, q', isr_end (w, s'))" "cap q' = cap q" "isz q' = isz q"
    "spec_send (cap q) queueSEND_TO_BACK [] 0 (contents q) = (Sent b, contents q')" .
  then show ?thesis
    by (intro followsI [where a = "Sent b" and ph' = "ph" and q' = "q'" and s' = "isr_end (w, s')"]) auto
qed

lemma follows_ReceiveFromISR:
  assumes inv: "qinv C idle E T (ph, q, s)" and a: "qallowed C idle E ReceiveFromISR (ph, q, s)"
  shows "follows C idle E T ReceiveFromISR (ph, q, s)"
proof -
  have h: "xRxLock q < 2 ^ 31 - 1" using a by auto
  from receive_isr_spec [OF inv h] obtain x w q' s' where
    "xQueueReceiveFromISR q s = Some (x, w, q', s')"
    "qinv C idle E T (ph, q', isr_end (w, s'))" "cap q' = cap q" "isz q' = isz q"
    "spec_receive 0 False (contents q) = (Got x, contents q')" .
  then show ?thesis
    by (intro followsI [where a = "Got x" and ph' = "ph" and q' = "q'" and s' = "isr_end (w, s')"]) auto
qed

lemma follows_PeekFromISR:
  assumes inv: "qinv C idle E T (ph, q, s)" and a: "qallowed C idle E PeekFromISR (ph, q, s)"
  shows "follows C idle E T PeekFromISR (ph, q, s)"
proof -
  note D = qinvD [OF inv]
  have h: "isz q \<noteq> 0" using a by auto
  from peek_isr_spec [OF D(1) h] obtain x where
    "xQueuePeekFromISR q = Some (x, q)" "spec_receive 0 True (contents q) = (Got x, contents q)" .
  then show ?thesis using inv
    by (intro followsI [where a = "Got x" and ph' = "ph" and q' = "q" and s' = "s"]) auto
qed

lemmas follows_cases = follows_Send follows_SendAgain follows_SendBlock follows_Receive follows_ReceiveAgain
  follows_ReceiveBlock follows_BlockEnd
  follows_Reset follows_SendFromISR follows_GiveFromISR follows_ReceiveFromISR follows_PeekFromISR

lemma qstep_follows:
  assumes inv: "qinv C idle E T \<sigma>" and a: "qallowed C idle E ev \<sigma>"
  shows "\<exists>T'. follows C idle E T' ev \<sigma>"
proof -
  obtain ph q s where \<sigma>: "\<sigma> = (ph, q, s)" by (rule prod_cases3)
  show ?thesis
    using follows_Kernel [OF inv [unfolded \<sigma>]] follows_cases [OF inv [unfolded \<sigma>]] a
    unfolding \<sigma> by (cases ev) blast+
qed

end
