(* ===== verification/Queue_Props.thy ===== *)
theory Queue_Props
  imports Queue_Run Sched_Props
begin

text \<open>
  The properties of the queues: in every state that can be reached a queue behaves like a list of
  bounded length, its messages come out in the order in which they went in, no wake-up is lost while
  it is locked, and a mutex has one holder, which inherits the priority of a task that waits.
\<close>

section \<open>Systems with a queue\<close>

definition heap_gives :: "(u32 \<Rightarrow> u8 list option) \<Rightarrow> bool" where
  "heap_gives buffer \<longleftrightarrow> (\<forall>n m. buffer n = Some m \<longrightarrow> unat n \<le> length m)"

text \<open>
  A queue or a counting semaphore that was created before the scheduler was started; the heap
  answers with as many bytes as were asked for, and their number does not wrap around.
\<close>

definition queue_created :: "kernel_config \<Rightarrow> kernel \<Rightarrow> Queue_t \<Rightarrow> kernel \<Rightarrow> bool" where
  "queue_created C k q k1 \<longleftrightarrow> (\<exists>buffer l1 l2. heap_gives buffer \<and> odd l1 \<and> odd l2 \<and> l1 \<noteq> l2 \<and>
     ((\<exists>len n. unat len * unat n + 1 < 2 ^ 32 \<and> xQueueGenericCreate C buffer l1 l2 len n k = Some (q, k1)) \<or>
      (\<exists>m i. xQueueCreateCountingSemaphore C buffer l1 l2 m i k = Some (q, k1))))"

inductive qreach :: "kernel_config \<Rightarrow> task \<Rightarrow> list_id set \<Rightarrow> qsys \<Rightarrow> qsys \<Rightarrow> bool"
  for C idle E \<sigma>0 where
  start: "qreach C idle E \<sigma>0 \<sigma>0"
| step: "qreach C idle E \<sigma>0 \<sigma> \<Longrightarrow> qallowed C idle E ev \<sigma> \<Longrightarrow> qstep C ev \<sigma> = Some (a, \<sigma>') \<Longrightarrow>
     qreach C idle E \<sigma>0 \<sigma>'"

definition queue_system :: "kernel_config \<Rightarrow> task \<Rightarrow> list_id set \<Rightarrow> qsys \<Rightarrow> bool" where
  "queue_system C idle E \<sigma> \<longleftrightarrow>
     (\<exists>ts E0 k q k1 s0. kfresh E0 k \<and> queue_created C k q k1 \<and>
        E = insert (xTasksWaitingToReceive q) (insert (xTasksWaitingToSend q) E0) \<and>
        start_ok C ts idle \<and> boot C ts idle k1 = Some s0 \<and> qreach C idle E (None, q, s0) \<sigma>)"

lemma initialise_lists_fresh:
  assumes "kfresh E k" "odd l1" "odd l2"
  shows "kfresh (insert l2 (insert l1 E)) (set_lists (vListInitialise l2 (vListInitialise l1 (klists k))) k)"
proof -
  have "lists_ok E (klists k) \<and> (\<forall>i. container_of (klists k) i = None)" using assms(1) by (simp add: kfresh_def)
  from initialise_fresh [OF initialise_fresh [OF this, of l1], of l2] show ?thesis
    using assms by (simp add: kfresh_def)
qed

lemma generic_create_spec:
  assumes c: "xQueueGenericCreate C buffer l1 l2 len n k = Some (q, k1)" and h: "heap_gives buffer"
    and l: "odd l1" "odd l2" and size: "unat len * unat n + 1 < 2 ^ 32" and k: "kfresh E k"
  shows "queue_ok q" "contents q = []" "unlocked q" "cap q = unat len" "isz q = unat n"
    "xTasksWaitingToSend q = l1" "xTasksWaitingToReceive q = l2" "kfresh (insert l2 (insert l1 E)) k1"
proof -
  define sz where "sz = (if n = 0 then 0 else len * n + 1)"
  have len: "0 < len" using c by (simp add: xQueueGenericCreate_def configASSERT_def split: if_splits)
  obtain m where m: "buffer sz = Some m"
    using c len by (auto simp: xQueueGenericCreate_def configASSERT_def sz_def [symmetric] Let_def bind_eq_Some_conv)
  define q0 where "q0 = \<lparr>is_mutex = False, pcTail = 0, pcWriteTo = 0, pcReadFrom = 0, pxMutexHolder = 0,
    uxRecursiveCallCount = 0, xTasksWaitingToSend = l1, xTasksWaitingToReceive = l2,
    uxMessagesWaiting = 0, uxLength = len, uxItemSize = n, xRxLock = 0, xTxLock = 0, storage = m\<rparr>"
  define q1 where "q1 = q0\<lparr>pcTail := int (unat (uxLength q0 * uxItemSize q0)), uxMessagesWaiting := 0,
    pcWriteTo := 0, pcReadFrom := int (unat ((uxLength q0 - 1) * uxItemSize q0)), pxMutexHolder := 0,
    uxRecursiveCallCount := 0, xRxLock := queueUNLOCKED, xTxLock := queueUNLOCKED\<rparr>"
  have "xQueueGenericReset C True q0 k = Some (q, k1)"
    using c len m by (simp add: xQueueGenericCreate_def configASSERT_def sz_def [symmetric] q0_def)
  then have q: "q = q1" "k1 = set_lists (vListInitialise l2 (vListInitialise l1 (klists k))) k"
    unfolding q1_def by (simp_all add: xQueueGenericReset_def Let_def) (simp_all add: q0_def)
  have "unat len * unat n \<le> length m" if "unat n \<noteq> 0"
  proof -
    have "n \<noteq> 0" using that by auto
    have "unat (len * n) = unat len * unat n" using size by (subst unat_mult_lem [THEN iffD1]) simp_all
    then have "unat (len * n + 1) = unat len * unat n + 1" using size by (subst unat_add_small) simp_all
    moreover have "unat sz \<le> length m" using h m by (simp add: heap_gives_def)
    ultimately show ?thesis using \<open>n \<noteq> 0\<close> by (simp add: sz_def)
  qed
  then have "\<not> is_mutex q0" "0 < cap q0" "cap q0 * isz q0 + 1 < 2 ^ 32" "isz q0 \<noteq> 0 \<Longrightarrow> cap q0 * isz q0 \<le> length (storage q0)"
    using len size by (auto simp: q0_def cap_def isz_def word_less_nat_alt)
  note R = reset_contents [OF this, folded q1_def]
  show "queue_ok q" "contents q = []" by (simp_all add: q R)
  show "cap q = unat len" "isz q = unat n" using R(3,4) unfolding q by (simp_all add: q0_def cap_def isz_def)
  show "unlocked q" "xTasksWaitingToSend q = l1" "xTasksWaitingToReceive q = l2"
    unfolding q by (simp_all add: q1_def unlocked_def) (simp_all add: q0_def)
  show "kfresh (insert l2 (insert l1 E)) k1" unfolding q by (rule initialise_lists_fresh [OF k l])
qed

lemma semaphore_create_spec:
  assumes c: "xQueueCreateCountingSemaphore C buffer l1 l2 m i k = Some (q, k1)" and h: "heap_gives buffer"
    and l: "odd l1" "odd l2" and k: "kfresh E k"
  shows "queue_ok q" "contents q = replicate (unat i) []" "unlocked q" "cap q = unat m" "isz q = 0"
    "xTasksWaitingToSend q = l1" "xTasksWaitingToReceive q = l2" "kfresh (insert l2 (insert l1 E)) k1"
proof -
  obtain q0 where q0: "xQueueGenericCreate C buffer l1 l2 m 0 k = Some (q0, k1)" "q = q0\<lparr>uxMessagesWaiting := i\<rparr>"
    and i: "i \<le> m"
    using c by (auto simp: xQueueCreateCountingSemaphore_def configASSERT_def bind_eq_Some_conv split: if_splits)
  have "unat m * unat (0 :: u32) + 1 < 2 ^ 32" by simp
  note G = generic_create_spec [OF q0(1) h l this k]
  have c: "cap q = unat m" "isz q = 0" "cnt q = unat i"
    using G(4,5) by (simp_all add: q0(2) cap_def isz_def cnt_def)
  have "0 < cap q0" "\<not> is_mutex q0" using G(1) by (simp_all add: queue_ok_def)
  then show "queue_ok q" using i G(4) c by (simp add: queue_ok_def word_le_nat_alt) (use unat_u32 [of m] in \<open>simp_all add: q0(2)\<close>)
  show "contents q = replicate (unat i) []" "cap q = unat m" "isz q = 0" using c by (simp_all add: contents_def)
  show "unlocked q" "xTasksWaitingToSend q = l1" "xTasksWaitingToReceive q = l2" "kfresh (insert l2 (insert l1 E)) k1"
    using G(3,6-8) by (simp_all add: q0(2) unlocked_def)
qed

lemma created_spec:
  assumes "queue_created C k q k1" "kfresh E k"
  shows "queue_ok q" "unlocked q" "xTasksWaitingToReceive q \<noteq> xTasksWaitingToSend q"
    "kfresh (insert (xTasksWaitingToReceive q) (insert (xTasksWaitingToSend q) E)) k1"
proof -
  from assms(1) obtain buffer l1 l2 where h: "heap_gives buffer" "odd l1" "odd l2" "l1 \<noteq> l2"
    and c: "(\<exists>len n. unat len * unat n + 1 < 2 ^ 32 \<and> xQueueGenericCreate C buffer l1 l2 len n k = Some (q, k1)) \<or>
      (\<exists>m i. xQueueCreateCountingSemaphore C buffer l1 l2 m i k = Some (q, k1))"
    unfolding queue_created_def by blast
  have "queue_ok q \<and> unlocked q \<and> xTasksWaitingToReceive q \<noteq> xTasksWaitingToSend q \<and>
    kfresh (insert (xTasksWaitingToReceive q) (insert (xTasksWaitingToSend q) E)) k1"
    using c
  proof (elim disjE exE conjE)
    fix len n
    assume s: "unat len * unat n + 1 < 2 ^ 32" and g: "xQueueGenericCreate C buffer l1 l2 len n k = Some (q, k1)"
    show ?thesis using generic_create_spec [OF g h(1-3) s assms(2)] h(4) by simp
  next
    fix m i
    assume g: "xQueueCreateCountingSemaphore C buffer l1 l2 m i k = Some (q, k1)"
    show ?thesis using semaphore_create_spec [OF g h(1-3) assms(2)] h(4) by simp
  qed
  then show "queue_ok q" "unlocked q" "xTasksWaitingToReceive q \<noteq> xTasksWaitingToSend q"
    "kfresh (insert (xTasksWaitingToReceive q) (insert (xTasksWaitingToSend q) E)) k1"
    by blast+
qed

lemma qreach_qinv:
  assumes "qreach C idle E \<sigma>0 \<sigma>" "qinv C idle E T \<sigma>0"
  shows "\<exists>T'. qinv C idle E T' \<sigma>"
  using assms
proof (induction rule: qreach.induct)
  case start
  then show ?case by blast
next
  case (step \<sigma> ev a \<sigma>')
  then obtain T1 where "qinv C idle E T1 \<sigma>" by blast
  from qstep_follows [OF this step.hyps(2)] step.hyps(3) show ?case by (auto simp: follows_def)
qed

lemma queue_system_inv:
  assumes "queue_system C idle E \<sigma>"
  obtains T where "qinv C idle E T \<sigma>"
proof -
  obtain ts E0 k q k1 s0 where h: "kfresh E0 k" "queue_created C k q k1"
    and E: "E = insert (xTasksWaitingToReceive q) (insert (xTasksWaitingToSend q) E0)"
    and st: "start_ok C ts idle" "boot C ts idle k1 = Some s0" "qreach C idle E (None, q, s0) \<sigma>"
    using assms unfolding queue_system_def by blast
  note K = created_spec [OF h(2,1), folded E]
  obtain s' where "boot C ts idle k1 = Some s'" "kinv C idle E (insert idle (fst ` set ts)) s'"
    by (rule boot_start [OF K(4) st(1)])
  then have "qinv C idle E (insert idle (fst ` set ts)) (None, q, s0)"
    using K E st(2) by (simp add: qinv_def)
  then show thesis using that qreach_qinv [OF st(3)] by blast
qed

section \<open>A queue is a list of bounded length\<close>

lemma follows_run:
  assumes "queue_system C idle E (ph, q, s)" "qallowed C idle E ev (ph, q, s)"
  obtains T a ph' q' s' where "qstep C ev (ph, q, s) = Some (a, ph', q', s')" "qinv C idle E T (ph', q', s')"
    "queue_spec (cap q) (isz q) ev (contents q) = (a, contents q')" "cap q' = cap q" "isz q' = isz q"
proof -
  obtain T where "qinv C idle E T (ph, q, s)" by (rule queue_system_inv [OF assms(1)])
  from qstep_follows [OF this assms(2)] obtain T' where "follows C idle E T' ev (ph, q, s)" by blast
  then show thesis using that by (auto simp: follows_def)
qed

text \<open>
  Claim C6.  In every state that a system with a queue can reach, and whatever call, part of a
  blocking call or interrupt comes next, the code runs to its end: no assertion fails and no copy
  leaves the storage.  Its answer and the new contents are the ones of a list of at most \<open>uxLength\<close>
  messages: a send appends, prepends or overwrites if there is room and otherwise fails, or waits if
  it has a block time; a receive takes or only reads the first message.
\<close>

theorem queue_refines:
  assumes "queue_system C idle E (ph, q, s)" "qallowed C idle E ev (ph, q, s)"
  shows "\<exists>a ph' q' s'. qstep C ev (ph, q, s) = Some (a, ph', q', s') \<and>
    queue_spec (cap q) (isz q) ev (contents q) = (a, contents q') \<and>
    cap q' = cap q \<and> isz q' = isz q \<and> length (contents q') \<le> cap q"
proof (rule follows_run [OF assms], goal_cases)
  case (1 T a ph' q' s')
  then have "cnt q' \<le> cap q" using qinvD(1) [OF 1(2)] by (simp add: queue_ok_def)
  with 1 show ?case by auto
qed

text \<open>A queue for two messages of four bytes, and the system of the examples with it.\<close>

definition queue0 :: "Queue_t \<times> kernel" where
  "queue0 = the (xQueueGenericCreate config0 (\<lambda>n. Some (replicate (unat n) 0)) 3 5 2 4 kernel0)"

definition queue_system0 :: qsys where
  "queue_system0 = (None, fst queue0, the (boot config0 [(1, 2)] 2 (snd queue0)))"

lemma queue0_created: "xQueueGenericCreate config0 (\<lambda>n. Some (replicate (unat n) 0)) 3 5 2 4 kernel0 = Some queue0"
  by (simp add: queue0_def xQueueGenericCreate_def xQueueGenericReset_def configASSERT_def)

lemma heap_gives0: "heap_gives (\<lambda>n. Some (replicate (unat n) 0))"
  by (simp add: heap_gives_def)

lemma queue0_spec: "queue_created config0 kernel0 (fst queue0) (snd queue0)" "contents (fst queue0) = []"
  "cap (fst queue0) = 2" "isz (fst queue0) = 4" "xTasksWaitingToSend (fst queue0) = 3"
  "xTasksWaitingToReceive (fst queue0) = 5" "kfresh {1, 3, 5} (snd queue0)" "unlocked (fst queue0)"
proof -
  have c: "xQueueGenericCreate config0 (\<lambda>n. Some (replicate (unat n) 0)) 3 5 2 4 kernel0 = Some (fst queue0, snd queue0)"
    by (simp add: queue0_created)
  have n: "odd (3 :: nat)" "odd (5 :: nat)" "(3 :: nat) \<noteq> 5" "unat (2 :: u32) * unat (4 :: u32) + 1 < 2 ^ 32" by simp_all
  show "queue_created config0 kernel0 (fst queue0) (snd queue0)"
    unfolding queue_created_def using heap_gives0 n c by blast
  have "insert 5 (insert 3 {1 :: nat}) = {1, 3, 5}" by auto
  then show "contents (fst queue0) = []" "cap (fst queue0) = 2" "isz (fst queue0) = 4" "xTasksWaitingToSend (fst queue0) = 3"
    "xTasksWaitingToReceive (fst queue0) = 5" "kfresh {1, 3, 5} (snd queue0)" "unlocked (fst queue0)"
    using generic_create_spec [OF c heap_gives0 n(1,2,4) system0_start(1)] by simp_all
qed

lemma queue_system0_ok:
  obtains s where "queue_system config0 2 {1, 3, 5} (None, fst queue0, s)" "\<not> pend_sv s"
    "boot config0 [(1, 2)] 2 (snd queue0) = Some s"
proof -
  obtain s where s: "boot config0 [(1, 2)] 2 (snd queue0) = Some s" "\<not> pend_sv s"
    by (rule boot_start [OF queue0_spec(7) system0_start(2)])
  have E: "{1, 3, 5} = insert (xTasksWaitingToReceive (fst queue0)) (insert (xTasksWaitingToSend (fst queue0)) {1})"
    by (auto simp: queue0_spec)
  have "queue_system config0 2 {1, 3, 5} (None, fst queue0, s)"
    unfolding queue_system_def using system0_start s(1) queue0_spec(1) E qreach.start by blast
  then show thesis using that s by blast
qed

theorem queue_refines_witness:
  "\<exists>q' s s'. qstep config0 (Send [1, 2, 3, 4] 0 queueSEND_TO_BACK) (None, fst queue0, s) = Some (Sent True, None, q', s') \<and>
     contents q' = [[1, 2, 3, 4]]"
proof -
  obtain s where s: "queue_system config0 2 {1, 3, 5} (None, fst queue0, s)" "\<not> pend_sv s"
    by (rule queue_system0_ok)
  have "qallowed config0 2 {1, 3, 5} (Send [1, 2, 3, 4] 0 queueSEND_TO_BACK) (None, fst queue0, s)"
    using s(2) by (simp add: item_ok_def queue0_spec)
  from queue_refines [OF s(1) this] obtain a ph' q' s' where
    q': "qstep config0 (Send [1, 2, 3, 4] 0 queueSEND_TO_BACK) (None, fst queue0, s) = Some (a, ph', q', s')"
      "a = Sent True" "contents q' = [[1, 2, 3, 4]]"
    by (auto simp: queue0_spec spec_send_def queue_put_def)
  moreover have "ph' = None" using q'(1) by auto
  ultimately show ?thesis by blast
qed

section \<open>First in, first out\<close>










text \<open>The code's queues keep these laws.\<close>

lemma queue_system_step:
  assumes "queue_system C idle E \<sigma>" "qallowed C idle E ev \<sigma>" "qstep C ev \<sigma> = Some (a, \<sigma>')"
  shows "queue_system C idle E \<sigma>'"
  using assms unfolding queue_system_def by (blast intro: qreach.step)






section \<open>Wake-ups while a queue is locked\<close>

text \<open>Interrupts on a locked queue: the message goes in or out, a lock counts it, the kernel is left alone.\<close>

lemma locked_send_counts:
  assumes ok: "queue_ok q" and x: "item_ok q x p" and l: "0 \<le> xTxLock q" "xTxLock q < 2 ^ 31 - 1"
  shows "\<exists>b q'. xQueueGenericSendFromISR C x p q s = Some (b, False, q', s) \<and>
    xTxLock q' = xTxLock q + (if b then 1 else 0) \<and> xRxLock q' = xRxLock q"
proof (cases "cnt q < cap q \<or> p = queueOVERWRITE")
  case True
  show ?thesis
  proof (rule put_spec [where C = C and s = s, OF ok x True], goal_cases)
    case (1 q')
    have "xQueueGenericSendFromISR C x p q s = Some (True, False, q'\<lparr>xTxLock := xTxLock q + 1\<rparr>, s)"
      using True 1(1) same_queue_sel [OF 1(4)] l overwrite_assert [OF x]
      by (simp add: xQueueGenericSendFromISR_def configASSERT_def room_iff wake_or_count_def lock_inc_def queueUNLOCKED_def)
    then show ?thesis using same_queue_sel [OF 1(4)] by auto
  qed
next
  case False
  then show ?thesis
    using overwrite_assert [OF x]
    by (intro exI [of _ False]) (simp add: xQueueGenericSendFromISR_def configASSERT_def room_iff)
qed

lemma locked_give_counts:
  assumes "uxItemSize q = 0" "0 \<le> xTxLock q" "xTxLock q < 2 ^ 31 - 1"
  shows "\<exists>b q'. xQueueGiveFromISR q s = Some (b, False, q', s) \<and>
    xTxLock q' = xTxLock q + (if b then 1 else 0) \<and> xRxLock q' = xRxLock q"
proof (cases "uxMessagesWaiting q < uxLength q")
  case True
  then show ?thesis using assms
    by (intro exI [of _ True]) (simp add: xQueueGiveFromISR_def configASSERT_def wake_or_count_def lock_inc_def queueUNLOCKED_def)
next
  case False
  then show ?thesis using assms by (intro exI [of _ False]) (simp add: xQueueGiveFromISR_def configASSERT_def)
qed

lemma locked_receive_counts:
  assumes ok: "queue_ok q" and l: "0 \<le> xRxLock q" "xRxLock q < 2 ^ 31 - 1"
  shows "\<exists>x q'. xQueueReceiveFromISR q s = Some (x, False, q', s) \<and>
    xRxLock q' = xRxLock q + (if x \<noteq> None then 1 else 0) \<and> xTxLock q' = xTxLock q"
proof (cases "uxMessagesWaiting q = 0")
  case True
  then show ?thesis by (simp add: xQueueReceiveFromISR_def)
next
  case False
  then have pos: "0 < uxMessagesWaiting q" by (simp add: word_gt_0)
  show ?thesis
  proof (rule copy_from [OF ok False], goal_cases)
    case (1 q1)
    note q1 = same_queue_sel [OF 1(4)]
    have "xQueueReceiveFromISR q s = Some (Some (hd (contents q)), False,
        q1\<lparr>uxMessagesWaiting := uxMessagesWaiting q1 - 1, xRxLock := xRxLock q + 1\<rparr>, s)"
      using pos 1(1) q1 l by (simp add: xQueueReceiveFromISR_def lock_inc_def queueUNLOCKED_def)
    then show ?thesis using q1 by auto
  qed
qed

text \<open>
  Claim C15.  An interrupt that sends to, gives or receives from a queue which a task has locked leaves
  the event lists and the scheduler alone, asks for no switch and counts the message, in the lock of its
  direction.  When the task unlocks the queue, exactly the first tasks that wait to receive, as many as
  messages came, and the first that wait to send, as many as went, leave their event lists (all of
  them, if there are fewer); the others stay there in their order; and the tasks that left are ready as
  soon as the scheduler is resumed.
\<close>

theorem locked_queue_loses_no_wakeup:
  assumes "queue_system C idle E (Some r, q, s)" "item_ok q x p" "xTxLock q < 2 ^ 31 - 1" "xRxLock q < 2 ^ 31 - 1"
  shows "(\<exists>b q'. xQueueGenericSendFromISR C x p q s = Some (b, False, q', s) \<and>
        xTxLock q' = xTxLock q + (if b then 1 else 0) \<and> xRxLock q' = xRxLock q) \<and>
    (uxItemSize q = 0 \<longrightarrow> (\<exists>b q'. xQueueGiveFromISR q s = Some (b, False, q', s) \<and>
        xTxLock q' = xTxLock q + (if b then 1 else 0) \<and> xRxLock q' = xRxLock q)) \<and>
    (\<exists>m q'. xQueueReceiveFromISR q s = Some (m, False, q', s) \<and>
        xRxLock q' = xRxLock q + (if m \<noteq> None then 1 else 0) \<and> xTxLock q' = xTxLock q) \<and>
    (\<exists>s1. prvUnlockQueue q s = Some (q\<lparr>xTxLock := queueUNLOCKED, xRxLock := queueUNLOCKED\<rparr>, s1) \<and>
      items_of (klists s1) (xTasksWaitingToReceive q) = drop (nat (xTxLock q)) (items_of (klists s) (xTasksWaitingToReceive q)) \<and>
      items_of (klists s1) (xTasksWaitingToSend q) = drop (nat (xRxLock q)) (items_of (klists s) (xTasksWaitingToSend q))) \<and>
    (\<exists>s'. block_end C r q s = Some (q\<lparr>xTxLock := queueUNLOCKED, xRxLock := queueUNLOCKED\<rparr>, s') \<and>
      (\<forall>i\<in>set (take (nat (xTxLock q)) (items_of (klists s) (xTasksWaitingToReceive q))). ready s' (task_of i)) \<and>
      (\<forall>i\<in>set (take (nat (xRxLock q)) (items_of (klists s) (xTasksWaitingToSend q))). ready s' (task_of i)))"
proof -
  obtain T where inv: "qinv C idle E T (Some r, q, s)" by (rule queue_system_inv [OF assms(1)])
  note D = qinvD [OF inv]
  have l: "0 \<le> xTxLock q" "0 \<le> xRxLock q" "kweak C idle E T s" "uxSchedulerSuspended s \<noteq> 0"
    using D(7) by (simp_all add: locked_inv_def)
  have "\<exists>s'. block_end C r q s = Some (q\<lparr>xTxLock := queueUNLOCKED, xRxLock := queueUNLOCKED\<rparr>, s') \<and>
      (\<forall>i\<in>set (take (nat (xTxLock q)) (items_of (klists s) (xTasksWaitingToReceive q))). ready s' (task_of i)) \<and>
      (\<forall>i\<in>set (take (nat (xRxLock q)) (items_of (klists s) (xTasksWaitingToSend q))). ready s' (task_of i))"
    by (rule block_end_spec [OF D(7) [OF refl] D(2-4)]) blast
  moreover have "\<exists>s1. prvUnlockQueue q s = Some (q\<lparr>xTxLock := queueUNLOCKED, xRxLock := queueUNLOCKED\<rparr>, s1) \<and>
      items_of (klists s1) (xTasksWaitingToReceive q) = drop (nat (xTxLock q)) (items_of (klists s) (xTasksWaitingToReceive q)) \<and>
      items_of (klists s1) (xTasksWaitingToSend q) = drop (nat (xRxLock q)) (items_of (klists s) (xTasksWaitingToSend q))"
    by (rule prvUnlockQueue_spec [OF l(3) D(2-4) l(4)]) blast
  ultimately show ?thesis
    using locked_send_counts [OF D(1) assms(2) l(1) assms(3)] locked_receive_counts [OF D(1) l(2) assms(4)]
      locked_give_counts [OF _ l(1) assms(3)] by blast
qed

text \<open>
  The task of the example finds its queue empty and waits for ten ticks; before it has unlocked the
  queue an interrupt sends a message.
\<close>

definition waiting0 :: qsys where
  "waiting0 = snd (the (qstep config0 (ReceiveBlock (vTaskSetTimeOutState (snd (snd queue_system0))) 10) queue_system0))"

definition waiting1 :: qsys where
  "waiting1 = snd (the (qstep config0 (SendFromISR [1, 2, 3, 4] queueSEND_TO_BACK) waiting0))"

lemma waiting_values: "fst waiting1 = Some Placed" "xTxLock (fst (snd waiting1)) = 1" "xRxLock (fst (snd waiting1)) = 0"
  "items_of (klists (snd (snd waiting1))) 5 = [3]" "xTasksWaitingToReceive (fst (snd waiting1)) = 5" "isz (fst (snd waiting1)) = 4"
  by (code_simp, code_simp, code_simp, code_simp, code_simp, code_simp)

lemma waiting_steps: "running 2 (snd (snd queue_system0))"
  "item_ok (fst (snd waiting0)) [1, 2, 3, 4] queueSEND_TO_BACK" "xTxLock (fst (snd waiting0)) = 0" "fst queue_system0 = None"
  by (code_simp, code_simp, code_simp, code_simp)

lemma waiting_systems: "queue_system config0 2 {1, 3, 5} queue_system0" "queue_system config0 2 {1, 3, 5} waiting0"
  "queue_system config0 2 {1, 3, 5} waiting1"
proof -
  show s0: "queue_system config0 2 {1, 3, 5} queue_system0"
    by (rule queue_system0_ok) (simp add: queue_system0_def)
  let ?e0 = "ReceiveBlock (vTaskSetTimeOutState (snd (snd queue_system0))) 10"
  obtain ph q s where \<sigma>0: "queue_system0 = (ph, q, s)" by (rule prod_cases3)
  have a0: "qallowed config0 2 {1, 3, 5} ?e0 (ph, q, s)" using waiting_steps(1,4) by (simp add: \<sigma>0)
  show s1: "queue_system config0 2 {1, 3, 5} waiting0"
    by (rule follows_run [OF s0 [unfolded \<sigma>0] a0])
      (use queue_system_step [OF s0 [unfolded \<sigma>0] a0] in \<open>auto simp: waiting0_def \<sigma>0\<close>)
  let ?e1 = "SendFromISR [1, 2, 3, 4] queueSEND_TO_BACK"
  obtain ph q s where \<sigma>1: "waiting0 = (ph, q, s)" by (rule prod_cases3)
  have a1: "qallowed config0 2 {1, 3, 5} ?e1 (ph, q, s)" using waiting_steps(2,3) by (simp add: \<sigma>1)
  show "queue_system config0 2 {1, 3, 5} waiting1"
    by (rule follows_run [OF s1 [unfolded \<sigma>1] a1])
      (use queue_system_step [OF s1 [unfolded \<sigma>1] a1] in \<open>auto simp: waiting1_def \<sigma>1\<close>)
qed

theorem locked_queue_loses_no_wakeup_witness:
  "(\<exists>q' s'. block_end config0 Placed (fst (snd waiting1)) (snd (snd waiting1)) = Some (q', s') \<and> ready s' 1) \<and>
   (\<exists>m q'. xQueueReceiveFromISR (fst (snd waiting1)) (snd (snd waiting1)) = Some (m, False, q', snd (snd waiting1)) \<and>
      xRxLock q' = (if m \<noteq> None then 1 else 0))"
proof -
  obtain ph q s where "waiting1 = (ph, q, s)" by (rule prod_cases3)
  then have \<sigma>: "waiting1 = (Some Placed, q, s)" using waiting_values(1) by (metis fst_conv)
  have v: "xTxLock q = 1" "xRxLock q = 0" "items_of (klists s) 5 = [3]" "xTasksWaitingToReceive q = 5" "isz q = 4"
    using waiting_values by (simp_all add: \<sigma>)
  have h: "queue_system config0 2 {1, 3, 5} (Some Placed, q, s)" "item_ok q [1, 2, 3, 4] queueSEND_TO_BACK" "xTxLock q < 2 ^ 31 - 1"
    "xRxLock q < 2 ^ 31 - 1"
    using waiting_systems(3) v by (simp_all add: \<sigma> item_ok_def)
  have "task_of 3 = 1" by (simp add: task_of_def)
  then have "\<exists>q' s'. block_end config0 Placed q s = Some (q', s') \<and> ready s' 1"
    using locked_queue_loses_no_wakeup [OF h] by (auto simp: v)
  moreover have "\<exists>m q'. xQueueReceiveFromISR q s = Some (m, False, q', s) \<and> xRxLock q' = (if m \<noteq> None then 1 else 0)"
    using locked_queue_loses_no_wakeup [OF h, THEN conjunct2, THEN conjunct2, THEN conjunct1]
    by (elim exE conjE) (intro exI conjI, assumption, simp add: v(2))
  ultimately show ?thesis by (simp add: \<sigma>)
qed

section \<open>Mutexes\<close>

text \<open>A mutex holds one message without bytes if, and only if, no task holds it.\<close>

definition mutex_ok :: "Queue_t \<Rightarrow> bool" where
  "mutex_ok q \<longleftrightarrow> is_mutex q \<and> uxItemSize q = 0 \<and> uxLength q = 1 \<and>
     uxMessagesWaiting q = (if pxMutexHolder q = 0 then 1 else 0)"

lemma mutex_take:
  assumes inv: "kinv C idle E T s" and m: "mutex_ok q" and e: "xTasksWaitingToSend q \<in> E" and free: "pxMutexHolder q = 0"
  obtains q' s' where "receive_critical C n to False q s = Some (Returns (Some []), q', s')" "mutex_ok q'"
    "pxMutexHolder q' = pxCurrentTCB s" "kinv C idle E T s'"
proof -
  have cur: "pxCurrentTCB s \<noteq> 0" using kweakD(5) [OF kinvD(1) [OF inv]] kbaseD(5) [OF kweakD(2) [OF kinvD(1) [OF inv]]] by metis
  define q' where "q' = q\<lparr>uxMessagesWaiting := 0, pxMutexHolder := pxCurrentTCB s\<rparr>"
  define s0 where "s0 = snd (pvTaskIncrementMutexHeldCount s)"
  have e': "xTasksWaitingToSend q' \<in> E" using e by (simp add: q'_def)
  have ok: "mutex_ok q'" using m cur by (simp add: mutex_ok_def q'_def)
  have pv: "pvTaskIncrementMutexHeldCount s = (pxCurrentTCB s, s0)"
    by (simp add: s0_def pvTaskIncrementMutexHeldCount_def Let_def)
  have inv0: "kinv C idle E T s0" unfolding s0_def by (rule HoldMutex_kinv [OF inv])
  show thesis
  proof (rule wake_waiter_kinv [OF inv0 e'], goal_cases)
    case (1 w s1)
    have "receive_critical C n to False q s = Some (Returns (Some []), q', call_end C (w, s1))"
      using m free 1(1)
      by (simp add: receive_critical_def prvCopyDataFromQueue_def mutex_ok_def call_yield Let_def pv q'_def)
    then show thesis using that ok kinv_ends(2) [OF 1(2), of w] by (simp add: q'_def)
  qed
qed

lemma mutex_held:
  assumes "mutex_ok q" "pxMutexHolder q \<noteq> 0"
  shows "\<exists>r. receive_critical C n to False q s = Some (r, q, s) \<and> (r = Returns None \<or> (\<exists>t. r = Blocks t))"
  using assms by (simp add: receive_critical_def mutex_ok_def)

text \<open>
  Giving a mutex back.  The scheduler's invariant may be missed only when the priority of the holder
  goes down and, at the same time, a task is woken: the answer of \<open>xTaskPriorityDisinherit\<close> is not
  used then.
\<close>

lemma mutex_give:
  assumes inv: "kinv C idle E T s" and np: "\<not> pend_sv s" and m: "mutex_ok q" and e: "xTasksWaitingToReceive q \<in> E"
    and h: "pxMutexHolder q = pxCurrentTCB s" "uxMutexesHeld (tcb s (pxCurrentTCB s)) \<noteq> 0"
  obtains q' s' where "send_critical C [] n to queueSEND_TO_BACK q s = Some (Returns True, q', s')" "mutex_ok q'"
    "pxMutexHolder q' = 0" "kweak C idle E T s'"
    "items_of (klists s) (xTasksWaitingToReceive q) = [] \<or>
       uxPriority (tcb s (pxCurrentTCB s)) = uxBasePriority (tcb s (pxCurrentTCB s)) \<Longrightarrow> kinv C idle E T s'"
proof -
  note kw = kinvD(1) [OF inv]
  let ?e = "xTasksWaitingToReceive q" and ?t = "pxCurrentTCB s"
  have held: "?t \<noteq> 0" using kweakD(5) [OF kw] kbaseD(5) [OF kweakD(2) [OF kw]] by metis
  define q' where "q' = q\<lparr>pxMutexHolder := 0, uxMessagesWaiting := 1\<rparr>"
  have ok: "mutex_ok q'" using m by (simp add: mutex_ok_def q'_def)
  show thesis
  proof (rule xTaskPriorityDisinherit_kweak [OF kw refl kinvD(2) [OF inv np] h(2)], goal_cases)
    case (1 y s1 r)
    have low: "y \<Longrightarrow> uxPriority (tcb s ?t) \<noteq> uxBasePriority (tcb s ?t)" using 1(8) by simp
    have inv1: "kinv C idle E T (call_end C (y, s1))"
      using 1(1) by (rule_tac Disinherit_kinv [OF inv np h(2)]) simp
    have copy: "prvCopyDataToQueue C [] queueSEND_TO_BACK q s = Some (y, q', s1)"
      using m h(1) held 1(1) by (simp add: prvCopyDataToQueue_def mutex_ok_def q'_def Let_def)
    have out: "send_critical C [] n to queueSEND_TO_BACK q s =
        (if items_of (klists s1) ?e = [] then Some (Returns True, q', call_end C (y, s1))
         else map_option (\<lambda>(w, s2). (Returns True, q', call_end C (w, s2))) (xTaskRemoveFromEventList ?e s1))"
      using m h(1) held copy event_list_empty [OF 1(2) e]
      by (auto simp: send_critical_def mutex_ok_def call_yield q'_def map_option_case split: option.splits)
    have same: "items_of (klists s1) ?e = [] \<longleftrightarrow> items_of (klists s) ?e = []"
    proof -
      have "container_of (klists s1) i = Some ?e \<longleftrightarrow> container_of (klists s) i = Some ?e" for i
        by (metis 1(2,5) kw e event_item kweakD(2))
      then have "set (items_of (klists s1) ?e) = set (items_of (klists s) ?e)"
        using contents_home [OF kweakD(2) [OF 1(2)], of ?e] contents_home [OF kweakD(2) [OF kw], of ?e] e by auto
      then show ?thesis by (metis set_empty)
    qed
    show thesis
    proof (cases "items_of (klists s1) ?e")
      case Nil
      then show ?thesis
        using that ok out inv1 kinvD(1) [OF inv1] by (simp add: q'_def)
    next
      case (Cons i "is")
      show ?thesis
      proof (rule remove_event_kweak [OF 1(2) e Cons], goal_cases)
        case (1 w s2)
        have k2: "kweak C idle E T (call_end C (w, s2))"
          using 1(2) by (simp add: call_end_def taskYIELD_IF_USING_PREEMPTION_def portYIELD_WITHIN_API_def)
        have "kinv C idle E T (call_end C (w, s2))" if "\<not> y"
        proof -
          have "kinv C idle E T s1" using inv1 that by (simp add: call_end_def)
          then show ?thesis
            by (rule remove_event_kinv [OF _ e Cons]) (use 1(1) kinv_ends(2) in force)
        qed
        then show ?thesis
          using that ok out 1(1) Cons same low k2 by (auto simp: q'_def)
      qed
    qed
  qed
qed

lemma fresh_timeout:
  assumes "n \<noteq> 0"
  shows "\<exists>to'. xTaskCheckForTimeOut (vTaskSetTimeOutState s) n (vTaskSuspendAll s) = (False, to', n)"
  using assms by (auto simp: xTaskCheckForTimeOut_def vTaskSetTimeOutState_def vTaskSuspendAll_def word_gt_0)

lemma mutex_block:
  assumes inv: "kinv C idle E T s" and run: "running idle s" and m: "mutex_ok q" and u: "unlocked q"
    and e: "xTasksWaitingToReceive q \<in> E" and h: "pxMutexHolder q \<in> T" and n: "n \<noteq> 0"
  obtains to' q' s1 s2 where
    "receive_block_begin C (vTaskSetTimeOutState s) n q s = Some (Placed, to', n, q', s1)"
    "block_end C Placed q' s1 = Some (q, s2)" "kinv C idle E T s2"
    "blocked s1 (pxCurrentTCB s)" "evt_at s1 (pxCurrentTCB s) = Some (xTasksWaitingToReceive q)"
    "uxPriority (tcb s2 (pxMutexHolder q)) = max (uxPriority (tcb s (pxMutexHolder q))) (cur_prio s)"
    "\<And>t. t \<noteq> pxMutexHolder q \<Longrightarrow> tcb s2 t = tcb s t" "\<And>t. t \<noteq> pxCurrentTCB s \<Longrightarrow> ready s t \<Longrightarrow> ready s2 t"
proof -
  let ?s = "vTaskSuspendAll s" and ?q = "prvLockQueue q" and ?c = "pxCurrentTCB s" and ?h = "pxMutexHolder q"
  have kw: "kweak C idle E T ?s" using kinvD(1) [OF inv] by (simp add: vTaskSuspendAll_def)
  have h0: "?h \<noteq> 0" using h kbaseD(5) [OF kweakD(2) [OF kw]] by metis
  have hT: "?h \<in> T \<or> ?h = 0" using h by simp
  have S: "pxCurrentTCB ?s = ?c" "tcb ?s = tcb s" "uxSchedulerSuspended ?s = 1" "klists ?s = klists s"
    using run by (simp_all add: vTaskSuspendAll_def running_def)
  obtain to' where to: "xTaskCheckForTimeOut (vTaskSetTimeOutState s) n ?s = (False, to', n)" using fresh_timeout [OF n] by blast
  have Q: "prvIsQueueEmpty ?q" "is_mutex ?q" "pxMutexHolder ?q = ?h" "xTasksWaitingToReceive ?q = xTasksWaitingToReceive q"
    "?q\<lparr>xTxLock := queueUNLOCKED, xRxLock := queueUNLOCKED\<rparr> = q" "xTxLock ?q = 0" "xRxLock ?q = 0"
    using m h0 u by (simp_all add: prvLockQueue_def mutex_ok_def prvIsQueueEmpty_def unlocked_def queueLOCKED_UNMODIFIED_def)
  show thesis
  proof (rule vTaskPriorityInherit_kweak [OF kw hT], goal_cases)
    case (1 s1 r)
    note a = 1 and st1 = same_tasks_sel [OF 1(3)]
    have c1: "pxCurrentTCB s1 \<noteq> idle" "evt_at s1 (pxCurrentTCB s1) = None"
      using run running_no_event [OF inv run] st1 by (simp_all add: 1(5) S running_def)
    show thesis
    proof (rule place_on_event_kweak [OF 1(2) c1 e n], goal_cases)
      case (1 s2)
      note b = 1 and st2 = same_tasks_sel [OF 1(3)]
      have sus2: "uxSchedulerSuspended s2 = 1" using st1 st2 S by simp
      show thesis
      proof (rule resume_and_yield_kinv [OF 1(2) sus2], goal_cases)
        case (1 s3)
        have "receive_block_begin C (vTaskSetTimeOutState s) n q s = Some (Placed, to', n, ?q, s2)"
          using to Q a(1) b(1) by (simp add: receive_block_begin_def block_begin_def Let_def)
        moreover have "block_end C Placed ?q s2 = Some (q, s3)"
          using 1(1) Q by (simp add: block_end_def prvUnlockQueue_def)
        ultimately show thesis
          using 1(2,5,6) a b st1 st2 S h0
          by (intro that [of to' ?q s2 s3]) (auto simp: ready_def vTaskSuspendAll_def)
      qed
    qed
  qed
qed

text \<open>
  Claim C16.  A mutex has at most one holder: a take succeeds exactly if no task holds the mutex, and makes
  the running task the holder; a take of a mutex that is held changes nothing and fails, or waits.
  When the holder gives it, no task holds it any more and the next take succeeds.
\<close>

theorem mutex_has_one_holder:
  assumes "system_state C idle E s" "\<not> pend_sv s" "mutex_ok q"
    and "xTasksWaitingToSend q \<in> E" "xTasksWaitingToReceive q \<in> E"
  shows "(if pxMutexHolder q = 0
     then \<exists>q' s'. receive_critical C n to False q s = Some (Returns (Some []), q', s') \<and> mutex_ok q' \<and>
            pxMutexHolder q' = pxCurrentTCB s \<and> pxMutexHolder q' \<noteq> 0
     else (\<exists>r. receive_critical C n to False q s = Some (r, q, s) \<and> (\<forall>x. r \<noteq> Returns (Some x))) \<and>
       (pxMutexHolder q = pxCurrentTCB s \<and> uxMutexesHeld (tcb s (pxCurrentTCB s)) \<noteq> 0 \<longrightarrow>
         (\<exists>q' s'. send_critical C [] 0 None queueSEND_TO_BACK q s = Some (Returns True, q', s') \<and> mutex_ok q' \<and>
            pxMutexHolder q' = 0)))"
proof -
  note inv = system_kinv [OF assms(1)]
  have "pxCurrentTCB s \<noteq> 0" using kweakD(5) [OF kinvD(1) [OF inv]] kbaseD(5) [OF kweakD(2) [OF kinvD(1) [OF inv]]] by metis
  then show ?thesis
    using mutex_take [OF inv assms(3,4), of n to] mutex_held [OF assms(3), of C n to s]
      mutex_give [OF inv assms(2,3,5), of 0 None]
    by (smt (verit) attempt.distinct(1) attempt.inject(1) option.distinct(1))
qed

text \<open>
  Claim C17.  A task that has to wait for a mutex lends its priority: between its time-out being set
  and the end of its first round, it is put into the mutex's event list and blocked, the holder's
  priority is at least its own, no other task's control block changes and every other task that was
  ready still is.
\<close>

theorem waiting_for_mutex_lends_priority:
  assumes "system_state C idle E s" "running idle s" "mutex_ok q" "unlocked q"
    and "xTasksWaitingToReceive q \<in> E" "pxMutexHolder q \<in> tasks s" "n \<noteq> 0"
  shows "\<exists>to' q' s1 s2. receive_block_begin C (vTaskSetTimeOutState s) n q s = Some (Placed, to', n, q', s1) \<and>
    block_end C Placed q' s1 = Some (q, s2) \<and>
    blocked s1 (pxCurrentTCB s) \<and> evt_at s1 (pxCurrentTCB s) = Some (xTasksWaitingToReceive q) \<and>
    uxPriority (tcb s2 (pxMutexHolder q)) = max (uxPriority (tcb s (pxMutexHolder q))) (cur_prio s) \<and>
    (\<forall>t. t \<noteq> pxMutexHolder q \<longrightarrow> tcb s2 t = tcb s t) \<and>
    (\<forall>t. t \<noteq> pxCurrentTCB s \<and> ready s t \<longrightarrow> ready s2 t)"
  by (rule mutex_block [OF system_kinv [OF assms(1)] assms(2-7)]) blast

text \<open>Two tasks of priority 2 and one of priority 1, which holds a mutex.\<close>

definition mutex0 :: "task \<Rightarrow> Queue_t" where
  "mutex0 h = \<lparr>is_mutex = True, pcTail = 0, pcWriteTo = 0, pcReadFrom = 0, pxMutexHolder = h,
     uxRecursiveCallCount = 0, xTasksWaitingToSend = 3, xTasksWaitingToReceive = 5,
     uxMessagesWaiting = (if h = 0 then 1 else 0), uxLength = 1, uxItemSize = 0,
     xRxLock = queueUNLOCKED, xTxLock = queueUNLOCKED, storage = []\<rparr>"

definition mutex_system :: kernel where
  "mutex_system = the (boot config0 [(4, 2), (2, 2), (5, 1)] 3 (snd queue0))"

lemma mutex_system_ok: "system_state config0 3 {1, 3, 5} mutex_system" "5 \<in> tasks mutex_system" "\<not> pend_sv mutex_system"
proof -
  have st: "start_ok config0 [(4, 2), (2, 2), (5, 1)] 3" by (simp add: start_ok_def config0_def)
  obtain s where s: "boot config0 [(4, 2), (2, 2), (5, 1)] 3 (snd queue0) = Some s" "\<not> pend_sv s"
    "kinv config0 3 {1, 3, 5} (insert 3 (fst ` set [(4, 2 :: u32), (2, 2), (5, 1)])) s"
    by (rule boot_start [OF queue0_spec(7) st])
  have e: "mutex_system = s" using s(1) by (simp add: mutex_system_def)
  show "system_state config0 3 {1, 3, 5} mutex_system"
    unfolding system_state_def e using queue0_spec(7) st s(1) kreach.start by blast
  have "kinv config0 3 {1, 3, 5} {2, 3, 4, 5} s" using s(3) by (simp add: insert_commute)
  then show "5 \<in> tasks mutex_system" unfolding e using kinv_tasks by blast
  show "\<not> pend_sv mutex_system" unfolding e by (rule s(2))
qed

lemma mutex_system_values: "running 3 mutex_system" "pxCurrentTCB mutex_system = 2" "uxPriority (tcb mutex_system 2) = 2"
  "uxPriority (tcb mutex_system 5) = 1"
  by (code_simp, code_simp, code_simp, code_simp)

lemma mutex0_ok: "mutex_ok (mutex0 h)" "unlocked (mutex0 h)" "pxMutexHolder (mutex0 h) = h"
  "xTasksWaitingToReceive (mutex0 h) = 5" "xTasksWaitingToSend (mutex0 h) = 3"
  by (simp_all add: mutex0_def mutex_ok_def unlocked_def)

theorem mutex_has_one_holder_witness:
  "\<exists>q' s'. receive_critical config0 0 None False (mutex0 0) mutex_system = Some (Returns (Some []), q', s') \<and>
     pxMutexHolder q' = 2"
  using mutex_has_one_holder [where q = "mutex0 0" and n = 0 and to = None, OF mutex_system_ok(1,3) mutex0_ok(1)]
  by (auto simp: mutex0_ok mutex_system_values)

theorem waiting_for_mutex_lends_priority_witness:
  "\<exists>to' q' s1 s2. receive_block_begin config0 (vTaskSetTimeOutState mutex_system) 10 (mutex0 5) mutex_system
       = Some (Placed, to', 10, q', s1) \<and> blocked s1 2 \<and> block_end config0 Placed q' s1 = Some (mutex0 5, s2) \<and>
     uxPriority (tcb s2 5) = 2"
proof -
  have h: "xTasksWaitingToReceive (mutex0 5) \<in> {1, 3, 5}" "pxMutexHolder (mutex0 5) \<in> tasks mutex_system" "(10 :: u32) \<noteq> 0"
    using mutex_system_ok(2) by (simp_all add: mutex0_ok)
  from waiting_for_mutex_lends_priority [OF mutex_system_ok(1) mutex_system_values(1) mutex0_ok(1,2) h]
  show ?thesis by (auto simp: mutex0_ok mutex_system_values max_def)
qed

end
