(* ===== verification/Spec2Isabelle.thy ===== *)
theory Spec2Isabelle
  imports Rtos_List Heap4 Stream_Buffer Checksum Arp Tcp_Rx Tcp_Tx Net_Buffers Tcp_Handshake Tcp_Options Tcp_Receive Sched_Props Queue_Props
begin

text \<open>
  \<^bold>\<open>The FreeRTOS kernel services and the FreeRTOS+TCP stack of the FRDM-K64F firmware\<close>

  The firmware under \<^verbatim>\<open>src/\<close> runs FreeRTOS on a Cortex-M4 and, on top of it, FreeRTOS+TCP, a TCP/IP
  stack that lives in one task, the IP task.  Everything else hangs on a few services: the kernel's
  linked lists, its queues and its heap, from which network buffers are made.  A frame from the driver goes by its
  type to the ARP code, to UDP or to the TCP state machine; the state machine consults the sliding window of
  the socket, which decides what to store and what to send, and moves bytes between the network
  buffer and the stream buffers of the socket.  The application reads and writes the stream
  buffers and tells the IP task with events.

  \<^bold>\<open>Theories, in the order they build on each other\<close>

  \<^item> \<open>Prelude\<close>: 8, 16 and 32-bit words and the lemmas that move between them and natural numbers.
  \<^item> \<open>Rtos_List\<close>: \<^verbatim>\<open>SDK/rtos/FreeRTOS/src/list.c\<close> and the macros of \<^verbatim>\<open>list.h\<close>.  Items and
    list ends are nodes with \<open>pxNext\<close> and \<open>pxPrevious\<close> in one store; the invariant \<open>lists_ok\<close> says
    every list is a ring.  Insertion is sorted and stable, removal undoes it, the round-robin walk is fair.
  \<^item> \<open>Heap4\<close>: \<^verbatim>\<open>heap_4.c\<close>.  The array with its block headers, the free list threaded through it; a row of blocks
    is the abstract view.  Sessions of calls keep blocks disjoint and aligned, allocation is first fit,
    neighbours are joined, double release is caught.
  \<^item> \<open>Stream_Buffer\<close>: \<^verbatim>\<open>FreeRTOS_Stream_Buffer.[ch]\<close>, the ring of bytes with its four indices; a byte queue
    (locale \<open>byte_queue\<close>, interpreted on the buffer and on lists) and data stored ahead.
  \<^item> \<open>Checksum\<close>: \<open>usGenerateChecksum\<close> and \<open>usGenerateProtocolChecksum\<close> of \<^verbatim>\<open>FreeRTOS_IP.c\<close> on a memory of bytes,
    against the one's complement sum of RFC 1071 and the checksum field the RFCs of the protocols ask for (\<open>rfc_checksum\<close>).
  \<^item> \<open>Arp\<close>: \<^verbatim>\<open>FreeRTOS_ARP.c\<close>: the cache, its ageing, requests and replies; runs of the cache never answer a stale address.
  \<^item> \<open>Tcp_Win\<close>, \<open>Tcp_Rx\<close>, \<open>Tcp_Tx\<close>: \<^verbatim>\<open>FreeRTOS_TCP_WIN.c\<close>.  Segment descriptors come from one pool
    (\<open>seg_pool\<close>); a window holds a list of received segments and one of segments to send, with three
    queues into the latter.  \<open>Tcp_Rx\<close> refines reception to an abstract receiver, for packets that agree with the
    boundaries of the stored segments; \<open>Tcp_Tx\<close> proves the invariant of transmission and what adding, getting,
    acknowledging, retransmitting and destroying do.
  \<^item> \<open>Net_Buffers\<close>: \<^verbatim>\<open>BufferAllocation_2.c\<close> on top of \<open>Rtos_List\<close> and \<open>Heap4\<close>, with a counting semaphore.
  \<^item> \<open>Tcp_Sock\<close>, \<open>Tcp_Sockets\<close>, \<open>Tcp_Ip\<close>: \<^verbatim>\<open>FreeRTOS_TCP_IP.c\<close> and the TCP side of \<^verbatim>\<open>FreeRTOS_Sockets.c\<close>.  The record
    \<open>tcp_world\<close> is what the IP task works on: sockets, pool, buffers, queue of events, clock, the frames handed to the
    driver (\<open>net_out\<close>).  \<open>Tcp_Sock\<close> has state changes, streams, sending and connecting, \<open>Tcp_Sockets\<close> the interface
    of the application, \<open>Tcp_Ip\<close> options, the state machine, listening sockets, \<open>xProcessReceivedTCPPacket\<close>
    and the timers.
  \<^item> \<open>Tcp_State\<close>: the state of every socket through all of these operations, the diagram of
    states, and what makes a connection established.  Its collection \<open>frames\<close> holds what each operation leaves alone.
  \<^item> \<open>Tcp_Open\<close>, \<open>Tcp_Handshake\<close>: resets, the answer to a SYN, the acknowledgement that completes a connection.
  \<^item> \<open>Tcp_Options\<close>: a grammar of header options, their encoding, what each is to do to a socket (\<open>apply_option\<close>,
    stated apart from the code), and the parser against it.
  \<^item> \<open>Tcp_Receive\<close>: window and stream buffer of a socket together hold the peer's byte stream, and reads hand it out;
    transfers of segments in any order and reads (\<open>rx_transfer\<close>) against the stream (\<open>stream_transfer\<close>).
  \<^item> \<open>Tasks\<close>, \<open>Tasks_Inv\<close>, \<open>Scheduler\<close>, \<open>Sched_Ops\<close>, \<open>Sched_Run\<close>, \<open>Sched_Props\<close>: \<^verbatim>\<open>SDK/rtos/FreeRTOS/src/tasks.c\<close> on top of
    \<open>Rtos_List\<close>, with the switch and tick handlers of \<^verbatim>\<open>port/gcc/port.c\<close>.  \<open>Tasks\<close> has the record \<open>kernel\<close> and one definition per function;
    \<open>Tasks_Inv\<close> says in which lists the items of a task may be and how the delayed lists fit the tick count, and
    that the primitive moves keep it; \<open>Scheduler\<close> has the invariant \<open>kinv\<close>, the tick and the resumption of the
    scheduler; \<open>Sched_Ops\<close> the calls; \<open>Sched_Run\<close> creation, start and the machine \<open>kreach\<close> whose steps are calls,
    interrupts and context switches, under the contract that callers switch when they are told to;
    \<open>Sched_Props\<close> the properties of its reachable states, and what happens without that contract.
  \<^item> \<open>Queue\<close>, \<open>Queue_Inv\<close>, \<open>Queue_Run\<close>, \<open>Queue_Props\<close>: \<^verbatim>\<open>SDK/rtos/FreeRTOS/src/queue.c\<close> on top of the scheduler.  \<open>Queue\<close> has
    the record \<open>Queue_t\<close> with the storage behind it and one definition per function; the loop of a call that may block is
    given by its critical section and the two halves of the part with the scheduler suspended.  \<open>Queue_Inv\<close> reads the storage
    as a list of messages, \<open>contents\<close>, and proves what copying in and out does to it; \<open>Queue_Run\<close> has the machine whose
    steps are these parts, the interrupts and the steps of the scheduler, and that each keeps the invariant and follows the
    bounded list \<open>queue_spec\<close>; \<open>Queue_Props\<close> has the systems with a queue, the order of messages (in the locale \<open>bounded_queue\<close>,
    interpreted on the systems), locked queues and mutexes.

  \<^bold>\<open>How the code is rendered\<close>

  Structures are records with the field names of the code (a prefix where HOL or another record has the
  name already), enumerations datatypes, integers words of their width; \<open>BaseType_t\<close> results that can be negative are
  \<open>int\<close>.  A pointer to an object is the object's number, NULL is \<open>None\<close>; in \<open>Rtos_List\<close>, \<open>Heap4\<close> and
  \<open>Net_Buffers\<close>, where aliasing matters, memory is explicit.  An operation takes the state and returns its results with the
  new state; \<open>option\<close> around that stands for a failed \<open>configASSERT\<close>, an access outside an object, a division by
  zero or a loop that does not end (\<open>partial_function\<close>).  Fields in network order keep it, so
  \<open>FreeRTOS_htons\<close> and \<open>FreeRTOS_htonl\<close> stand where the code has them.  The configuration is that of
  \<^verbatim>\<open>FreeRTOSIPConfig.h\<close> with the defaults of \<^verbatim>\<open>FreeRTOSIPConfigDefaults.h\<close>: six ARP rows, 25 network
  buffers, 64 segment descriptors, an event queue of 30, a segment size of 1460, keep-alive and hang protection,
  no time stamps, no call-backs, checksums left to the driver.

  What the code takes from outside is a field of the state or an argument: whether the n-th
  allocation of the stack succeeds (\<open>heap_room\<close>), what heap memory happens to hold (\<open>junk\<close>), whether frames wait at the n-th look
  (\<open>rx_pending\<close>), the clock, and what other tasks do while a call sleeps (a list of functions on the world, one for
  each wait).  No property has a hypothesis on them that is not stated in it.

  Recursion is structural, has a measure, or is a partial function where the code has a loop over linked
  lists, pending work or numbers.  Those of the heap, of the kernel lists and of the scheduler end under the invariants, as
  the properties about them show; the loop that extends a selective acknowledgement ends under the invariant of
  the window (\<open>tcp_rx_refines\<close>), and the search for a private port ends with one when a port it comes back to
  is free, from 0xc100 on, and never ends when the whole private range is taken
  (\<open>private_port_terminates\<close>; it says nothing if only ports below 0xc100 are free).  No fuel is used; the sending loop has the code's own bound of 8.

  \<^bold>\<open>Not modelled\<close>

  Of the scheduler: task stacks and names, statistics and trace output, tickless idle, memory protection, and the
  assembler of the port beyond the call of \<open>vTaskSwitchContext\<close>.  \<^verbatim>\<open>FreeRTOSConfig.h\<close> is not in the repository, so the number of
  priorities, preemption and time slicing are parameters (\<open>kernel_config\<close>).  An interrupt comes between two calls of a task, not
  inside one: the calls do their work in critical sections or with the scheduler suspended, when an interrupt only
  counts a tick or notes a task as pending.  Of the queues: queue sets, the registry, \<open>vQueueDelete\<close>, the alternative and the co-routine
  interface; an interrupt uses a locked queue fewer than \<open>2 ^ 31 - 1\<close> times.  The loop of the IP task, an endless dispatch of events, and the driver glue
  \<^verbatim>\<open>NetworkInterface.c\<close>.  DHCP and DNS, which the application does not use.  Software timers, co-routines and the
  other heaps, which are not used.  The vendor's SDK, lwIP, the Java programs and the Processor Expert sources are not part of
  the stack.  Within the modelled files: time stamps, call-backs, logging, statistics and trace macros are
  compiled out; vectors of data and zero-copy variants of the socket calls are left aside.
\<close>

end
